(* ===== verification/Prelude.thy ===== *)
theory Prelude
  imports Complex_Main "HOL-Library.Word"
begin

text \<open>
  Shared vocabulary of the development: names for the C integer types, the fact
  collections the component theories use, and generic lemmas that read word operations
  (shifts, masks, wrapping sums) as arithmetic on natural numbers.

  The C code is written against \<^verbatim>\<open>stdint.h\<close>. On the three build targets of the repository
  (\<^verbatim>\<open>build/Linux-386-Ubuntu-GCC\<close>, \<^verbatim>\<open>build/Win32-MinGW\<close>, \<^verbatim>\<open>build/Darwin\<close>) the type
  \<^verbatim>\<open>uint_fast32_t\<close> has 32 bits and \<^verbatim>\<open>uint_fast64_t\<close> has 64 bits, so both are modelled by
  words of exactly that width. A left shift \<^verbatim>\<open>a<<n\<close> is \<^const>\<open>push_bit\<close>, a logical right shift
  \<^verbatim>\<open>a>>n\<close> is \<^const>\<open>drop_bit\<close>, a cast between widths is \<^const>\<open>unsigned\<close> (\<open>ucast\<close>). Signed
  exponents and counters (\<^verbatim>\<open>int_fast16_t\<close>, \<^verbatim>\<open>int\<close>) are mathematical integers; they stay far
  inside 16 bits, and every cast of one to an unsigned type is written out.
\<close>

unbundle bit_operations_syntax

type_synonym uint8_t = "8 word"
type_synonym uint16_t = "16 word"
type_synonym uint32_t = "32 word"
type_synonym uint64_t = "64 word"
type_synonym int8_t = "8 word"
type_synonym int32_t = "32 word"
type_synonym int64_t = "64 word"

named_theorems word_nat "word operations read as arithmetic on natural numbers"
named_theorems sf_unfold "defining equations of the operations of one component"

section \<open>Words as natural numbers\<close>

lemma unat_drop_bit_div [word_nat]: "unat (drop_bit n w) = unat w div 2 ^ n"
  for w :: "'a::len word"
  by (simp only: unat_drop_bit_eq drop_bit_eq_div [where 'a = nat])

lemma unat_take_bit_mod [word_nat]:
  "unat (take_bit n w) = unat w mod 2 ^ n" for w :: "'a::len word"
  by (simp only: unsigned_take_bit_eq take_bit_eq_mod [where 'a = nat])

lemma unat_push_bit_mod:
  "unat (push_bit n w) = (unat w * 2 ^ n) mod 2 ^ LENGTH('a)" for w :: "'a::len word"
  by (simp only: unsigned_push_bit_eq push_bit_eq_mult [where 'a = nat] take_bit_eq_mod [where 'a = nat])

lemma unat_push_bit_small:
  "unat w * 2 ^ n < 2 ^ LENGTH('a) \<Longrightarrow> unat (push_bit n w) = unat w * 2 ^ n"
  for w :: "'a::len word"
  by (simp add: unat_push_bit_mod)

lemma unat_add_small:
  "unat a + unat b < 2 ^ LENGTH('a) \<Longrightarrow> unat (a + b) = unat a + unat b"
  for a b :: "'a::len word"
  by (simp add: unat_word_ariths)

lemma unat_mult_small:
  "unat a * unat b < 2 ^ LENGTH('a) \<Longrightarrow> unat (a * b) = unat a * unat b"
  for a b :: "'a::len word"
  by (simp add: unat_word_ariths)

lemma unat_sub_le: "b \<le> a \<Longrightarrow> unat (a - b) = unat a - unat b"
  for a b :: "'a::len word"
  by (simp add: unat_sub word_le_nat_alt)

lemma unat_lt_pow: "unat w < 2 ^ LENGTH('a)" for w :: "'a::len word"
  by (rule unsigned_less)

lemma unat_lt32: "unat (w :: 32 word) < 4294967296"
  using unat_lt_pow [of w] by simp

lemma unat_lt64: "unat (w :: 64 word) < 18446744073709551616"
  using unat_lt_pow [of w] by simp

lemma and_mask_take_bit: "w AND (2 ^ n - 1) = take_bit n w" for w :: "'a::len word"
  by (simp add: take_bit_eq_mask mask_eq_exp_minus_1)

lemma unat_ucast_up:
  "LENGTH('a) \<le> LENGTH('b) \<Longrightarrow> unat (ucast w :: 'b::len word) = unat w"
  for w :: "'a::len word"
  by (simp add: unsigned_ucast_eq take_bit_nat_eq_self_iff)
     (meson less_le_trans nat_power_less_imp_less not_less one_le_numeral power_increasing unat_lt_pow)

lemma unat_ucast_mod:
  "unat (ucast w :: 'b::len word) = unat w mod 2 ^ LENGTH('b)" for w :: "'a::len word"
  by (simp add: unsigned_ucast_eq take_bit_eq_mod)

lemma unat_of_bool_word: "unat (of_bool P :: 'a::len word) = of_bool P"
  by simp

lemma even_unat_iff: "even (unat w) \<longleftrightarrow> even w" for w :: "'a::len word"
  by transfer (simp add: even_nat_iff)

lemma unat_or_of_bool:
  "unat (w OR of_bool P) = unat w + of_bool (P \<and> even (unat w))" for w :: "'a::len word"
proof (cases "P \<and> even (unat w)")
  case True
  then have "even w" by (simp add: even_unat_iff)
  have "unat w + 1 < 2 ^ LENGTH('a)"
  proof (rule ccontr)
    assume "\<not> unat w + 1 < 2 ^ LENGTH('a)"
    then have "unat w + 1 = 2 ^ LENGTH('a)" using unat_lt_pow [of w] by linarith
    moreover have "even ((2::nat) ^ LENGTH('a))" by simp
    ultimately have "even (unat w + 1)" by simp
    with True show False by simp
  qed
  with True \<open>even w\<close> show ?thesis by (simp add: or_one_eq unat_add_small)
next
  case False
  then show ?thesis by (cases P) (auto simp: or_one_eq even_unat_iff)
qed

lemma push_bit_eq_0_iff_dvd:
  fixes w :: "'a::len word"
  assumes "n \<le> LENGTH('a)"
  shows "push_bit n w = 0 \<longleftrightarrow> 2 ^ (LENGTH('a) - n) dvd unat w"
proof -
  have p: "(2::nat) ^ LENGTH('a) = 2 ^ (LENGTH('a) - n) * 2 ^ n"
    using assms by (simp flip: power_add)
  have "push_bit n w = 0 \<longleftrightarrow> unat (push_bit n w) = 0" by (simp add: unat_eq_zero)
  also have "\<dots> \<longleftrightarrow> 2 ^ LENGTH('a) dvd unat w * 2 ^ n"
    by (simp only: unat_push_bit_mod dvd_eq_mod_eq_0)
  also have "\<dots> \<longleftrightarrow> 2 ^ (LENGTH('a) - n) dvd unat w" by (simp add: p)
  finally show ?thesis .
qed

lemma unat_word_of_int_nat:
  "0 \<le> k \<Longrightarrow> k < 2 ^ LENGTH('a) \<Longrightarrow> unat (word_of_int k :: 'a::len word) = nat k"
  by (simp add: unat_eq_nat_uint uint_word_of_int)

lemma word_eq_of_nat: "unat w = n \<Longrightarrow> w = of_nat n"
  by auto

lemma unat_uminus: "w \<noteq> 0 \<Longrightarrow> unat (- w) = 2 ^ LENGTH('a) - unat w" for w :: "'a::len word"
  using unat_sub_if' [of 0 w] by (simp add: unat_eq_zero)

text \<open>The carry out of a sum is visible as a wrap-around, the borrow of a difference as a comparison.\<close>

lemma unat_add_carry:
  "unat (a + b) + of_bool (a + b < a) * 2 ^ LENGTH('a) = unat a + unat b" for a b :: "'a::len word"
  using unat_lt_pow [of a] unat_lt_pow [of b]
  by (auto simp: unat_plus_if' word_less_nat_alt simp del: unsigned_less)

lemma unat_sub_borrow:
  "unat (a - b) + unat b = unat a + of_bool (a < b) * 2 ^ LENGTH('a)" for a b :: "'a::len word"
  using unat_lt_pow [of a] unat_lt_pow [of b]
  by (auto simp: unat_sub_if' word_less_nat_alt simp del: unsigned_less)

text \<open>Two-digit numbers in base \<open>p\<close> compare lexicographically.\<close>

lemma digit_less:
  fixes p :: nat
  assumes "x0 < p" and "y0 < p"
  shows "x * p + x0 < y * p + y0 \<longleftrightarrow> x < y \<or> (x = y \<and> x0 < y0)"
proof (cases x y rule: linorder_cases)
  case less
  then have "Suc x * p \<le> y * p" by (intro mult_le_mono1) simp
  with less assms show ?thesis by auto
next
  case greater
  then have "Suc y * p \<le> x * p" by (intro mult_le_mono1) simp
  with greater assms show ?thesis by auto
qed simp

lemma digit_eq:
  fixes p :: nat
  assumes "x0 < p" and "y0 < p"
  shows "x * p + x0 = y * p + y0 \<longleftrightarrow> x = y \<and> x0 = y0"
  using digit_less [OF assms, of x y] digit_less [OF assms(2,1), of y x] by auto

text \<open>Joining two disjoint bit fields adds them.\<close>

lemma unat_or_disjoint:
  fixes a b :: "'a::len word"
  assumes "2 ^ n dvd unat a" and "unat b < 2 ^ n"
  shows "unat (a OR b) = unat a + unat b"
proof -
  have "unat a AND unat b = (0::nat)"
  proof (rule bit_eqI)
    fix i
    show "bit (unat a AND unat b) i \<longleftrightarrow> bit (0::nat) i"
    proof (cases "i < n")
      case True
      from assms(1) obtain c where "unat a = c * 2 ^ n" by (metis dvd_div_mult_self)
      then have "unat a = push_bit n c" by (simp add: push_bit_eq_mult)
      with True show ?thesis by (simp add: bit_and_iff bit_push_bit_iff)
    next
      case False
      have "take_bit n (unat b) = unat b" using assms(2) by (simp add: take_bit_nat_eq_self)
      then have "\<not> bit (unat b) i" using False by (metis bit_take_bit_iff)
      then show ?thesis by (simp add: bit_and_iff)
    qed
  qed
  then have "unat a OR unat b = unat a + unat b" by (simp add: disjunctive_add_eq_or)
  then show ?thesis by (simp add: unsigned_or_eq)
qed

lemma or_hidden_bit:
  fixes w :: "'a::len word"
  assumes "unat w < 2 ^ n" and "n < LENGTH('a)"
  shows "w OR 2 ^ n = w + 2 ^ n" and "unat (w OR 2 ^ n) = unat w + 2 ^ n"
proof -
  have p: "unat (2 ^ n :: 'a word) = 2 ^ n"
    using unat_push_bit_small [of "1 :: 'a word" n] assms(2) by (simp add: push_bit_of_1)
  then have u: "unat (2 ^ n OR w) = 2 ^ n + unat w" using unat_or_disjoint [of n "2 ^ n" w] assms(1) by simp
  then show "unat (w OR 2 ^ n) = unat w + 2 ^ n" by (simp add: or.commute)
  have "unat (2 ^ n OR w) < 2 ^ LENGTH('a)" by (rule unat_lt_pow)
  then have "unat w + unat (2 ^ n :: 'a word) < 2 ^ LENGTH('a)" unfolding u p by simp
  then have "unat (w + 2 ^ n) = unat w + 2 ^ n" by (simp add: unat_add_small p)
  then show "w OR 2 ^ n = w + 2 ^ n" using u by (simp add: word_unat_eq_iff or.commute)
qed

section \<open>Two's complement\<close>

lemma sint_bounds: "- (2 ^ (LENGTH('a) - 1)) \<le> sint a" "sint a < 2 ^ (LENGTH('a) - 1)" for a :: "'a::len word"
  using sint_greater_eq [of a] sint_less [of a] by simp_all

lemma sint_magnitude:
  fixes a :: "'a::len word"
  shows "\<not> sint a < 0 \<Longrightarrow> int (unat a) = sint a" and "sint a < 0 \<Longrightarrow> int (unat (- a)) = - sint a"
proof -
  have p: "(2::int) ^ LENGTH('a) = 2 * 2 ^ (LENGTH('a) - 1)" by (simp flip: power_Suc)
  have a: "a = word_of_int (sint a)" by simp
  show "int (unat a) = sint a" if "\<not> sint a < 0"
  proof -
    have "uint (word_of_int (sint a) :: 'a word) = sint a"
      unfolding uint_word_of_int using that sint_bounds [of a] p by (intro mod_pos_pos_trivial) auto
    then show ?thesis unfolding a [symmetric] uint_nat .
  qed
  show "int (unat (- a)) = - sint a" if "sint a < 0"
  proof -
    have "- a = word_of_int (- sint a)" by simp
    moreover have "uint (word_of_int (- sint a) :: 'a word) = - sint a"
      unfolding uint_word_of_int using that sint_bounds [of a] p by (intro mod_pos_pos_trivial) auto
    ultimately show ?thesis by (metis uint_nat)
  qed
qed

end
