(* ===== verification/Softfloat_State.thy ===== *)
theory Softfloat_State
  imports Prelude
begin

text \<open>
  The global state of SoftFloat-3 (\<^verbatim>\<open>source/softfloat_state.c\<close>, \<^verbatim>\<open>source/softfloat.h\<close>,
  \<^verbatim>\<open>source/8086/softfloat_raiseFlags.c\<close>): the rounding mode, the tininess-detection mode, the
  accumulated exception flags and the (unused) extended precision. Every routine of the
  library that reads or writes one of the globals takes an \<open>fp_state\<close> and returns the updated one.
\<close>

section \<open>Enumerations of softfloat.h\<close>

abbreviation softfloat_tininess_beforeRounding :: int8_t where
  "softfloat_tininess_beforeRounding \<equiv> 0"
abbreviation softfloat_tininess_afterRounding :: int8_t where
  "softfloat_tininess_afterRounding \<equiv> 1"

abbreviation softfloat_round_nearest_even :: int8_t where
  "softfloat_round_nearest_even \<equiv> 0"
abbreviation softfloat_round_minMag :: int8_t where
  "softfloat_round_minMag \<equiv> 1"
abbreviation softfloat_round_min :: int8_t where
  "softfloat_round_min \<equiv> 2"
abbreviation softfloat_round_max :: int8_t where
  "softfloat_round_max \<equiv> 3"
abbreviation softfloat_round_nearest_maxMag :: int8_t where
  "softfloat_round_nearest_maxMag \<equiv> 4"

abbreviation softfloat_flag_inexact :: int8_t where
  "softfloat_flag_inexact \<equiv> 1"
abbreviation softfloat_flag_underflow :: int8_t where
  "softfloat_flag_underflow \<equiv> 2"
abbreviation softfloat_flag_overflow :: int8_t where
  "softfloat_flag_overflow \<equiv> 4"
abbreviation softfloat_flag_infinity :: int8_t where
  "softfloat_flag_infinity \<equiv> 8"
abbreviation softfloat_flag_invalid :: int8_t where
  "softfloat_flag_invalid \<equiv> 16"

section \<open>The globals\<close>

record fp_state =
  softfloat_roundingMode :: int8_t
  softfloat_detectTininess :: int8_t
  softfloat_exceptionFlags :: int8_t
  floatx80_roundingPrecision :: int8_t

text \<open>The initial values; \<^verbatim>\<open>init_detectTininess\<close> of the 8086 specialisation is \<open>afterRounding\<close>.\<close>

definition init_state :: fp_state where
  "init_state =
     \<lparr>softfloat_roundingMode = softfloat_round_nearest_even,
      softfloat_detectTininess = softfloat_tininess_afterRounding,
      softfloat_exceptionFlags = 0,
      floatx80_roundingPrecision = 80\<rparr>"

definition softfloat_raiseFlags :: "int8_t \<Rightarrow> fp_state \<Rightarrow> fp_state" where
  "softfloat_raiseFlags flags s =
     s\<lparr>softfloat_exceptionFlags := softfloat_exceptionFlags s OR flags\<rparr>"

text \<open>The direct assignment \<^verbatim>\<open>softfloat_exceptionFlags |= flags\<close>, which several routines use instead.\<close>

definition orFlags :: "int8_t \<Rightarrow> fp_state \<Rightarrow> fp_state" where
  "orFlags flags s = s\<lparr>softfloat_exceptionFlags := softfloat_exceptionFlags s OR flags\<rparr>"

section \<open>Laws of the flag register\<close>

lemma orFlags_raiseFlags [simp]: "orFlags = softfloat_raiseFlags"
  by (simp add: fun_eq_iff orFlags_def softfloat_raiseFlags_def)

lemma raiseFlags_frame [simp]:
  "softfloat_roundingMode (softfloat_raiseFlags f s) = softfloat_roundingMode s"
  "softfloat_detectTininess (softfloat_raiseFlags f s) = softfloat_detectTininess s"
  "floatx80_roundingPrecision (softfloat_raiseFlags f s) = floatx80_roundingPrecision s"
  by (simp_all add: softfloat_raiseFlags_def)

lemma raiseFlags_flags [simp]:
  "softfloat_exceptionFlags (softfloat_raiseFlags f s) = softfloat_exceptionFlags s OR f"
  by (simp add: softfloat_raiseFlags_def)

lemma raiseFlags_0 [simp]: "softfloat_raiseFlags 0 s = s"
  by (simp add: softfloat_raiseFlags_def)

lemma raiseFlags_raiseFlags [simp]:
  "softfloat_raiseFlags g (softfloat_raiseFlags f s) = softfloat_raiseFlags (f OR g) s"
  by (simp add: softfloat_raiseFlags_def or.assoc)

text \<open>
  Flags are sticky: the relation \<open>flags_mono s t\<close> says that \<open>t\<close> differs from \<open>s\<close> at most by
  additional flags.
\<close>

definition flags_mono :: "fp_state \<Rightarrow> fp_state \<Rightarrow> bool" where
  "flags_mono s t \<longleftrightarrow> (\<exists>f. t = softfloat_raiseFlags f s)"

lemma flags_mono_refl [simp, intro]: "flags_mono s s"
  unfolding flags_mono_def by (rule exI [of _ 0]) simp

lemma flags_mono_raise [simp, intro]: "flags_mono s (softfloat_raiseFlags f s)"
  unfolding flags_mono_def by blast

lemma flags_mono_trans: "flags_mono s t \<Longrightarrow> flags_mono t u \<Longrightarrow> flags_mono s u"
  unfolding flags_mono_def by (metis raiseFlags_raiseFlags)

lemma flags_mono_modes:
  assumes "flags_mono s t"
  shows "softfloat_roundingMode t = softfloat_roundingMode s"
    and "softfloat_detectTininess t = softfloat_detectTininess s"
  using assms by (auto simp: flags_mono_def)

end
