(* ===== verification/Primitives.thy ===== *)
theory Primitives
  imports Softfloat_State "HOL-Library.While_Combinator"
begin

text \<open>
  The integer primitives of SoftFloat-3 (\<^verbatim>\<open>source/primitives.h\<close> and the \<^verbatim>\<open>source/s_*.c\<close> files of
  \<^verbatim>\<open>OBJS_PRIMITIVES\<close>): comparisons, shifts that jam the lost bits into the last bit,
  leading-zero counts, and sums, differences and products of multi-word integers. The
  header states that shift counts must not be zero; the theorems carry that
  precondition where the code needs it.
\<close>

section \<open>Multi-word structures\<close>

record uint128 =
  u128_v64 :: uint64_t
  u128_v0 :: uint64_t

record uint192 =
  u192_v128 :: uint64_t
  u192_v64 :: uint64_t
  u192_v0 :: uint64_t

record uint256 =
  u256_v192 :: uint64_t
  u256_v128 :: uint64_t
  u256_v64 :: uint64_t
  u256_v0 :: uint64_t

record uint64_extra =
  x64_v :: uint64_t
  x64_extra :: uint64_t

record uint128_extra =
  x128_v64 :: uint64_t
  x128_v0 :: uint64_t
  x128_extra :: uint64_t

section \<open>Comparisons\<close>

definition softfloat_eq128 :: "uint64_t \<Rightarrow> uint64_t \<Rightarrow> uint64_t \<Rightarrow> uint64_t \<Rightarrow> bool" where
  "softfloat_eq128 a64 a0 b64 b0 \<longleftrightarrow> a64 = b64 \<and> a0 = b0"

definition softfloat_le128 :: "uint64_t \<Rightarrow> uint64_t \<Rightarrow> uint64_t \<Rightarrow> uint64_t \<Rightarrow> bool" where
  "softfloat_le128 a64 a0 b64 b0 \<longleftrightarrow> a64 < b64 \<or> (a64 = b64 \<and> a0 \<le> b0)"

definition softfloat_lt128 :: "uint64_t \<Rightarrow> uint64_t \<Rightarrow> uint64_t \<Rightarrow> uint64_t \<Rightarrow> bool" where
  "softfloat_lt128 a64 a0 b64 b0 \<longleftrightarrow> a64 < b64 \<or> (a64 = b64 \<and> a0 < b0)"

section \<open>Shifts\<close>

text \<open>\<open>(- count) & 63\<close> of the C code, an unsigned 32-bit negation followed by a mask.\<close>

abbreviation neg_count :: "uint32_t \<Rightarrow> uint32_t \<Rightarrow> nat" where
  "neg_count count m \<equiv> unat ((- count) AND m)"

definition softfloat_shortShift128Left :: "uint64_t \<Rightarrow> uint64_t \<Rightarrow> uint32_t \<Rightarrow> uint128" where
  "softfloat_shortShift128Left a64 a0 count =
     \<lparr>u128_v64 = push_bit (unat count) a64 OR drop_bit (neg_count count 63) a0,
      u128_v0 = push_bit (unat count) a0\<rparr>"

definition softfloat_shortShift192Left ::
  "uint64_t \<Rightarrow> uint64_t \<Rightarrow> uint64_t \<Rightarrow> uint32_t \<Rightarrow> uint192" where
  "softfloat_shortShift192Left a128 a64 a0 count =
     \<lparr>u192_v128 = push_bit (unat count) a128 OR drop_bit (neg_count count 63) a64,
      u192_v64 = push_bit (unat count) a64 OR drop_bit (neg_count count 63) a0,
      u192_v0 = push_bit (unat count) a0\<rparr>"

definition softfloat_shift32RightJam :: "uint32_t \<Rightarrow> uint32_t \<Rightarrow> uint32_t" where
  "softfloat_shift32RightJam a count =
     (if count < 32
      then drop_bit (unat count) a OR of_bool (push_bit (neg_count count 31) a \<noteq> 0)
      else of_bool (a \<noteq> 0))"

definition softfloat_shortShift32Right1Jam :: "uint32_t \<Rightarrow> uint32_t" where
  "softfloat_shortShift32Right1Jam a = drop_bit 1 a OR (a AND 1)"

definition softfloat_shift64RightJam :: "uint64_t \<Rightarrow> uint32_t \<Rightarrow> uint64_t" where
  "softfloat_shift64RightJam a count =
     (if count < 64
      then drop_bit (unat count) a OR of_bool (push_bit (neg_count count 63) a \<noteq> 0)
      else of_bool (a \<noteq> 0))"

definition softfloat_shortShift64RightJam :: "uint64_t \<Rightarrow> uint32_t \<Rightarrow> uint64_t" where
  "softfloat_shortShift64RightJam a count =
     drop_bit (unat count) a OR of_bool (a AND (push_bit (unat count) 1 - 1) \<noteq> 0)"

definition softfloat_shift64ExtraRightJam ::
  "uint64_t \<Rightarrow> uint64_t \<Rightarrow> uint32_t \<Rightarrow> uint64_extra" where
  "softfloat_shift64ExtraRightJam a extra count =
     (let z = (if count < 64
               then \<lparr>x64_v = drop_bit (unat count) a,
                     x64_extra = push_bit (neg_count count 63) a\<rparr>
               else \<lparr>x64_v = 0,
                     x64_extra = (if count = 64 then a else of_bool (a \<noteq> 0))\<rparr>)
      in z\<lparr>x64_extra := x64_extra z OR of_bool (extra \<noteq> 0)\<rparr>)"

definition softfloat_shortShift64ExtraRightJam ::
  "uint64_t \<Rightarrow> uint64_t \<Rightarrow> uint32_t \<Rightarrow> uint64_extra" where
  "softfloat_shortShift64ExtraRightJam a extra count =
     \<lparr>x64_v = drop_bit (unat count) a,
      x64_extra = push_bit (neg_count count 63) a OR of_bool (extra \<noteq> 0)\<rparr>"

definition softfloat_shortShift128Right :: "uint64_t \<Rightarrow> uint64_t \<Rightarrow> uint32_t \<Rightarrow> uint128" where
  "softfloat_shortShift128Right a64 a0 count =
     \<lparr>u128_v64 = drop_bit (unat count) a64,
      u128_v0 = push_bit (neg_count count 63) a64 OR drop_bit (unat count) a0\<rparr>"

definition softfloat_shift128RightJam :: "uint64_t \<Rightarrow> uint64_t \<Rightarrow> uint32_t \<Rightarrow> uint128" where
  "softfloat_shift128RightJam a64 a0 count =
     (if count < 64
      then \<lparr>u128_v64 = drop_bit (unat (count AND 63)) a64,
            u128_v0 = push_bit (neg_count count 63) a64 OR drop_bit (unat count) a0
                        OR of_bool (push_bit (neg_count count 63) a0 \<noteq> 0)\<rparr>
      else \<lparr>u128_v64 = 0,
            u128_v0 =
              (if count < 128
               then drop_bit (unat (count AND 63)) a64
                      OR of_bool ((a64 AND (push_bit (unat (count AND 63)) 1 - 1)) OR a0 \<noteq> 0)
               else of_bool (a64 OR a0 \<noteq> 0))\<rparr>)"

definition softfloat_shift128ExtraRightJam ::
  "uint64_t \<Rightarrow> uint64_t \<Rightarrow> uint64_t \<Rightarrow> uint32_t \<Rightarrow> uint128_extra" where
  "softfloat_shift128ExtraRightJam a64 a0 extra count =
     (let (z, extra) =
        (if count < 64
         then (\<lparr>x128_v64 = drop_bit (unat count) a64,
                x128_v0 = push_bit (neg_count count 63) a64 OR drop_bit (unat count) a0,
                x128_extra = push_bit (neg_count count 63) a0\<rparr>, extra)
         else if count = 64
         then (\<lparr>x128_v64 = 0, x128_v0 = a64, x128_extra = a0\<rparr>, extra)
         else if count < 128
         then (\<lparr>x128_v64 = 0,
                x128_v0 = drop_bit (unat (count AND 63)) a64,
                x128_extra = push_bit (neg_count count 63) a64\<rparr>, extra OR a0)
         else (\<lparr>x128_v64 = 0,
                x128_v0 = 0,
                x128_extra = (if count = 128 then a64 else of_bool (a64 \<noteq> 0))\<rparr>, extra OR a0))
      in z\<lparr>x128_extra := x128_extra z OR of_bool (extra \<noteq> 0)\<rparr>)"

definition softfloat_shortShift128ExtraRightJam ::
  "uint64_t \<Rightarrow> uint64_t \<Rightarrow> uint64_t \<Rightarrow> uint32_t \<Rightarrow> uint128_extra" where
  "softfloat_shortShift128ExtraRightJam a64 a0 extra count =
     \<lparr>x128_v64 = drop_bit (unat count) a64,
      x128_v0 = push_bit (neg_count count 63) a64 OR drop_bit (unat count) a0,
      x128_extra = push_bit (neg_count count 63) a0 OR of_bool (extra \<noteq> 0)\<rparr>"

section \<open>Leading zeros\<close>

definition softfloat_countLeadingZeros8 :: "nat list" where
  "softfloat_countLeadingZeros8 = [
     8, 7, 6, 6, 5, 5, 5, 5, 4, 4, 4, 4, 4, 4, 4, 4,
     3, 3, 3, 3, 3, 3, 3, 3, 3, 3, 3, 3, 3, 3, 3, 3,
     2, 2, 2, 2, 2, 2, 2, 2, 2, 2, 2, 2, 2, 2, 2, 2,
     2, 2, 2, 2, 2, 2, 2, 2, 2, 2, 2, 2, 2, 2, 2, 2,
     1, 1, 1, 1, 1, 1, 1, 1, 1, 1, 1, 1, 1, 1, 1, 1,
     1, 1, 1, 1, 1, 1, 1, 1, 1, 1, 1, 1, 1, 1, 1, 1,
     1, 1, 1, 1, 1, 1, 1, 1, 1, 1, 1, 1, 1, 1, 1, 1,
     1, 1, 1, 1, 1, 1, 1, 1, 1, 1, 1, 1, 1, 1, 1, 1,
     0, 0, 0, 0, 0, 0, 0, 0, 0, 0, 0, 0, 0, 0, 0, 0,
     0, 0, 0, 0, 0, 0, 0, 0, 0, 0, 0, 0, 0, 0, 0, 0,
     0, 0, 0, 0, 0, 0, 0, 0, 0, 0, 0, 0, 0, 0, 0, 0,
     0, 0, 0, 0, 0, 0, 0, 0, 0, 0, 0, 0, 0, 0, 0, 0,
     0, 0, 0, 0, 0, 0, 0, 0, 0, 0, 0, 0, 0, 0, 0, 0,
     0, 0, 0, 0, 0, 0, 0, 0, 0, 0, 0, 0, 0, 0, 0, 0,
     0, 0, 0, 0, 0, 0, 0, 0, 0, 0, 0, 0, 0, 0, 0, 0,
     0, 0, 0, 0, 0, 0, 0, 0, 0, 0, 0, 0, 0, 0, 0, 0]"

text \<open>
  The statements from \<^verbatim>\<open>if ( a < 0x10000 )\<close> on, which both routines share word for word: \<open>count\<close>
  and \<open>a\<close> are the values of the C variables on entry.
\<close>

definition clz_tail :: "int \<Rightarrow> uint32_t \<Rightarrow> int" where
  "clz_tail count a =
     (let (count, a) = (if a < 0x10000 then (count + 16, push_bit 16 a) else (count, a));
          (count, a) = (if a < 0x1000000 then (count + 8, push_bit 8 a) else (count, a))
      in count + int (softfloat_countLeadingZeros8 ! unat (drop_bit 24 a)))"

definition softfloat_countLeadingZeros32 :: "uint32_t \<Rightarrow> int" where
  "softfloat_countLeadingZeros32 a = clz_tail 0 a"

definition softfloat_countLeadingZeros64 :: "uint64_t \<Rightarrow> int" where
  "softfloat_countLeadingZeros64 a =
     (if 0x100000000 \<le> a then clz_tail 0 (ucast (drop_bit 32 a))
      else clz_tail 32 (ucast a))"

section \<open>Multi-word arithmetic\<close>

definition softfloat_add128 :: "uint64_t \<Rightarrow> uint64_t \<Rightarrow> uint64_t \<Rightarrow> uint64_t \<Rightarrow> uint128" where
  "softfloat_add128 a64 a0 b64 b0 =
     (let z0 = a0 + b0
      in \<lparr>u128_v64 = a64 + b64 + of_bool (z0 < a0), u128_v0 = z0\<rparr>)"

definition softfloat_add192 ::
  "uint64_t \<Rightarrow> uint64_t \<Rightarrow> uint64_t \<Rightarrow> uint64_t \<Rightarrow> uint64_t \<Rightarrow> uint64_t \<Rightarrow> uint192" where
  "softfloat_add192 a128 a64 a0 b128 b64 b0 =
     (let z0 = a0 + b0;
          carry64 = of_bool (z0 < a0);
          z64 = a64 + b64;
          carry128 = of_bool (z64 < a64);
          z128 = a128 + b128;
          z64 = z64 + carry64;
          carry128 = carry128 + of_bool (z64 < carry64)
      in \<lparr>u192_v128 = z128 + carry128, u192_v64 = z64, u192_v0 = z0\<rparr>)"

definition softfloat_sub128 :: "uint64_t \<Rightarrow> uint64_t \<Rightarrow> uint64_t \<Rightarrow> uint64_t \<Rightarrow> uint128" where
  "softfloat_sub128 a64 a0 b64 b0 =
     \<lparr>u128_v64 = a64 - b64 - of_bool (a0 < b0), u128_v0 = a0 - b0\<rparr>"

definition softfloat_sub192 ::
  "uint64_t \<Rightarrow> uint64_t \<Rightarrow> uint64_t \<Rightarrow> uint64_t \<Rightarrow> uint64_t \<Rightarrow> uint64_t \<Rightarrow> uint192" where
  "softfloat_sub192 a128 a64 a0 b128 b64 b0 =
     (let z0 = a0 - b0;
          borrow64 = of_bool (a0 < b0);
          z64 = a64 - b64;
          borrow128 = of_bool (a64 < b64);
          z128 = a128 - b128;
          borrow128 = borrow128 + of_bool (z64 < borrow64);
          z64 = z64 - borrow64
      in \<lparr>u192_v128 = z128 - borrow128, u192_v64 = z64, u192_v0 = z0\<rparr>)"

text \<open>The 32-bit halves \<open>a32\<close>, \<open>a0\<close>, \<open>b32\<close>, \<open>b0\<close> are 32-bit words, multiplied after a cast to 64 bits.\<close>

definition softfloat_mul64To128 :: "uint64_t \<Rightarrow> uint64_t \<Rightarrow> uint128" where
  "softfloat_mul64To128 a b =
     (let a32 = ucast (drop_bit 32 a) :: uint32_t;
          a0 = ucast a :: uint32_t;
          b32 = ucast (drop_bit 32 b) :: uint32_t;
          b0 = ucast b :: uint32_t;
          z0 = ucast a0 * ucast b0 :: uint64_t;
          mid1 = ucast a32 * ucast b0 :: uint64_t;
          mid2 = ucast a0 * ucast b32 :: uint64_t;
          z64 = ucast a32 * ucast b32 :: uint64_t;
          mid = mid1 + mid2;
          z64 = z64 + (push_bit 32 (of_bool (mid < mid1)) OR drop_bit 32 mid);
          mid = push_bit 32 mid;
          z0 = z0 + mid
      in \<lparr>u128_v64 = z64 + of_bool (z0 < mid), u128_v0 = z0\<rparr>)"

definition softfloat_mul128By64To192 :: "uint64_t \<Rightarrow> uint64_t \<Rightarrow> uint64_t \<Rightarrow> uint192" where
  "softfloat_mul128By64To192 a64 a0 b =
     (let p0 = softfloat_mul64To128 a0 b;
          p64 = softfloat_mul64To128 a64 b;
          z64 = u128_v0 p64 + u128_v64 p0
      in \<lparr>u192_v128 = u128_v64 p64 + of_bool (z64 < u128_v0 p64),
          u192_v64 = z64,
          u192_v0 = u128_v0 p0\<rparr>)"

definition softfloat_mul128To256 ::
  "uint64_t \<Rightarrow> uint64_t \<Rightarrow> uint64_t \<Rightarrow> uint64_t \<Rightarrow> uint256" where
  "softfloat_mul128To256 a64 a0 b64 b0 =
     (let p0 = softfloat_mul64To128 a0 b0;
          p64 = softfloat_mul64To128 a64 b0;
          z64 = u128_v0 p64 + u128_v64 p0;
          z128 = u128_v64 p64 + of_bool (z64 < u128_v0 p64);
          p128 = softfloat_mul64To128 a64 b64;
          z128 = z128 + u128_v0 p128;
          z192 = u128_v64 p128 + of_bool (z128 < u128_v0 p128);
          p64 = softfloat_mul64To128 a0 b64;
          z64 = z64 + u128_v0 p64;
          p64_v64 = u128_v64 p64 + of_bool (z64 < u128_v0 p64);
          z128 = z128 + p64_v64;
          z192 = z192 + of_bool (z128 < p64_v64)
      in \<lparr>u256_v192 = z192, u256_v128 = z128, u256_v64 = z64, u256_v0 = u128_v0 p0\<rparr>)"

section \<open>Estimates\<close>

text \<open>
  The correction loop of \<^verbatim>\<open>softfloat_estimateDiv128To64\<close> is a \<^const>\<open>while_option\<close> over the pair
  (\<open>z\<close>, \<open>rem\<close>): \<^const>\<open>None\<close> would be a loop that never ends.
\<close>

definition softfloat_estimateDiv128To64 :: "uint64_t \<Rightarrow> uint64_t \<Rightarrow> uint64_t \<Rightarrow> uint64_t option" where
  "softfloat_estimateDiv128To64 a64 a0 b =
     (if b \<le> a64 then Some 0xFFFFFFFFFFFFFFFF
      else
        let b32 = ucast (drop_bit 32 b) :: uint32_t;
            z = (if push_bit 32 (ucast b32) \<le> a64 then 0xFFFFFFFF00000000
                 else push_bit 32 (a64 div ucast b32));
            term = softfloat_mul64To128 b z;
            rem = softfloat_sub128 a64 a0 (u128_v64 term) (u128_v0 term)
        in case while_option
                  (\<lambda>(z, rem). 0x8000000000000000 \<le> u128_v64 rem)
                  (\<lambda>(z, rem).
                     (z - 0x100000000,
                      softfloat_add128 (u128_v64 rem) (u128_v0 rem) (ucast b32) (push_bit 32 b)))
                  (z, rem)
           of None \<Rightarrow> None
            | Some (z, rem) \<Rightarrow>
                let rem32 = push_bit 32 (u128_v64 rem) OR drop_bit 32 (u128_v0 rem)
                in Some (z OR (if push_bit 32 (ucast b32) \<le> rem32 then 0xFFFFFFFF
                               else rem32 div ucast b32)))"

definition sqrtOddAdjustments :: "uint16_t list" where
  "sqrtOddAdjustments = [
     0x0004, 0x0022, 0x005D, 0x00B1, 0x011D, 0x019F, 0x0236, 0x02E0,
     0x039C, 0x0468, 0x0545, 0x0631, 0x072B, 0x0832, 0x0946, 0x0A67]"

definition sqrtEvenAdjustments :: "uint16_t list" where
  "sqrtEvenAdjustments = [
     0x0A2D, 0x08AF, 0x075A, 0x0629, 0x051A, 0x0429, 0x0356, 0x029E,
     0x0200, 0x0179, 0x0109, 0x00AF, 0x0068, 0x0034, 0x0012, 0x0002]"

text \<open>
  \<open>expA\<close> is the C \<^verbatim>\<open>unsigned int\<close>; \<^verbatim>\<open>u32.i>>1\<close> is the arithmetic shift of the word read as a
  signed integer.
\<close>

definition softfloat_estimateSqrt32 :: "uint32_t \<Rightarrow> uint32_t \<Rightarrow> uint32_t" where
  "softfloat_estimateSqrt32 expA a =
     (let index = unat (drop_bit 27 a AND 15)
      in if expA AND 1 \<noteq> 0
         then
           let z = 0x4000 + drop_bit 17 a - ucast (sqrtOddAdjustments ! index);
               z = push_bit 14 (a div z) + push_bit 15 z;
               a = drop_bit 1 a
           in ucast (push_bit 31 (ucast a :: uint64_t) div ucast z) + drop_bit 1 z
         else
           let z = 0x8000 + drop_bit 17 a - ucast (sqrtEvenAdjustments ! index);
               z = a div z + z;
               z = (if 0x20000 \<le> z then 0xFFFF8000 else push_bit 15 z)
           in if z \<le> a then signed_drop_bit 1 a
              else ucast (push_bit 31 (ucast a :: uint64_t) div ucast z) + drop_bit 1 z)"

end
