(* ===== verification/Rounding_Spec.thy ===== *)
theory Rounding_Spec
  imports Softfloat_State
begin

text \<open>
  The abstract specification of rounding, independent of any word-level code.

  A number format is a strictly increasing grid of magnitudes \<open>v :: nat \<Rightarrow> real\<close>. The
  predicate \<open>rounds md v x m\<close> says that the grid point with index \<open>m\<close> is the correct rounding of
  the magnitude \<open>x\<close> in direction \<open>md\<close>. The integers are the grid \<open>real\<close>; the magnitudes of a
  binary floating-point format with \<open>f\<close> fraction bits, in units of its least positive
  value, are the grid \<open>mval f\<close>, indexed by the bit pattern without the sign (so that the
  exponent is unbounded above and the pattern of infinity is the first overflowing index).

  The relation \<open>agrees k x n\<close> is the interface between the arithmetic routines and
  the rounding routines: the integer \<open>n\<close> (a significand with a sticky bit) compares with
  every multiple of \<open>2 ^ k\<close> as the exact real result \<open>x\<close> does.
\<close>

section \<open>Rounding on a grid\<close>

datatype mag_round = ToEven | ToAway | Trunc | Up

text \<open>The direction in which a magnitude with the given sign is rounded under a C rounding mode.\<close>

definition mag_mode :: "int8_t \<Rightarrow> bool \<Rightarrow> mag_round" where
  "mag_mode mode sign =
     (if mode = softfloat_round_nearest_even then ToEven
      else if mode = softfloat_round_nearest_maxMag then ToAway
      else if mode = softfloat_round_minMag then Trunc
      else if mode = (if sign then softfloat_round_max else softfloat_round_min) then Trunc
      else Up)"

definition valid_mode :: "int8_t \<Rightarrow> bool" where
  "valid_mode mode \<longleftrightarrow> mode \<le> 4"

fun rounds :: "mag_round \<Rightarrow> (nat \<Rightarrow> real) \<Rightarrow> real \<Rightarrow> nat \<Rightarrow> bool" where
  "rounds ToEven v x m \<longleftrightarrow>
     (m = 0 \<or> v (m - 1) + v m < 2 * x \<or> (v (m - 1) + v m = 2 * x \<and> even m)) \<and>
     (2 * x < v m + v (Suc m) \<or> (2 * x = v m + v (Suc m) \<and> even m))"
| "rounds ToAway v x m \<longleftrightarrow>
     (m = 0 \<or> v (m - 1) + v m \<le> 2 * x) \<and> 2 * x < v m + v (Suc m)"
| "rounds Trunc v x m \<longleftrightarrow> v m \<le> x \<and> x < v (Suc m)"
| "rounds Up v x m \<longleftrightarrow> (m = 0 \<or> v (m - 1) < x) \<and> x \<le> v m"

text \<open>
  What the predicate promises, in the words of the IEEE standard: the result of a
  directed rounding is the nearest grid point on that side, and the result of rounding to
  nearest is at least as close as every other grid point, with the tie broken as named.
\<close>

lemma rounds_Trunc_greatest:
  assumes "strict_mono v" and "rounds Trunc v x m"
  shows "v m \<le> x" and "v k \<le> x \<Longrightarrow> k \<le> m"
proof -
  show "v m \<le> x" using assms(2) by simp
  assume "v k \<le> x"
  with assms(2) have "v k < v (Suc m)" by simp
  with assms(1) show "k \<le> m" by (simp add: strict_mono_less less_Suc_eq_le)
qed

lemma rounds_Up_least:
  assumes "strict_mono v" and "rounds Up v x m"
  shows "x \<le> v m" and "x \<le> v k \<Longrightarrow> m \<le> k"
proof -
  show "x \<le> v m" using assms(2) by simp
  assume k: "x \<le> v k"
  show "m \<le> k"
  proof (cases "m = 0")
    case False
    with assms(2) k have "v (m - 1) < v k" by simp
    with assms(1) have "m - 1 < k" by (simp add: strict_mono_less)
    with False show ?thesis by simp
  qed simp
qed

text \<open>Both rounding modes to nearest put \<open>x\<close> between the midpoints around \<open>v m\<close>.\<close>

lemma nearest_between:
  assumes "rounds md v x m" and "md = ToEven \<or> md = ToAway"
  shows "m = 0 \<or> v (m - 1) + v m \<le> 2 * x" and "2 * x \<le> v m + v (Suc m)"
  using assms by auto

lemma nearest_closest:
  assumes mono: "strict_mono v" and r: "rounds md v x m" and md: "md = ToEven \<or> md = ToAway"
  shows "\<bar>v m - x\<bar> \<le> \<bar>v k - x\<bar>"
proof (cases k m rule: linorder_cases)
  case less
  then have "v k \<le> v (m - 1)" "m \<noteq> 0" "v k < v m"
    using mono by (simp_all add: strict_mono_less_eq strict_mono_less)
  with nearest_between [OF r md] show ?thesis by auto
next
  case greater
  then have "v (Suc m) \<le> v k" "v m < v k"
    using mono by (simp_all add: strict_mono_less_eq strict_mono_less)
  with nearest_between [OF r md] show ?thesis by auto
qed simp

lemma ToEven_tie:
  assumes "strict_mono v" and "rounds ToEven v x m" and "\<bar>v m - x\<bar> = \<bar>v k - x\<bar>" and "k \<noteq> m"
  shows "even m"
proof (cases "k < m")
  case True
  then have "v k \<le> v (m - 1)" "m \<noteq> 0" "v k < v m" "v (m - 1) < v m"
    using assms(1) by (simp_all add: strict_mono_less_eq strict_mono_less)
  with assms(2,3) show ?thesis by (auto simp: abs_if split: if_splits)
next
  case False
  with assms(4) have "m < k" by simp
  then have "v (Suc m) \<le> v k" "v m < v k"
    using assms(1) by (simp_all add: strict_mono_less_eq strict_mono_less)
  with assms(2,3) show ?thesis by (auto simp: abs_if split: if_splits)
qed

lemma ToAway_tie:
  assumes "strict_mono v" and "rounds ToAway v x m" and "\<bar>v m - x\<bar> = \<bar>v k - x\<bar>"
  shows "v k \<le> v m"
proof (rule ccontr)
  assume "\<not> v k \<le> v m"
  then have "v m < v k" by simp
  with assms(1) have "v (Suc m) \<le> v k"
    by (simp add: strict_mono_less strict_mono_less_eq)
  with assms(2,3) \<open>v m < v k\<close> show False by (auto simp: abs_if split: if_splits)
qed

text \<open>A grid point rounds to itself, and nothing else rounds to it when the result is exact.\<close>

lemma rounds_exact:
  assumes "strict_mono v"
  shows "rounds md v (v m) m"
proof -
  have "v m < v (Suc m)" using assms by (simp add: strict_mono_less)
  moreover have "m = 0 \<or> v (m - 1) < v m" using assms by (cases m) (simp_all add: strict_mono_less)
  ultimately show ?thesis by (cases md) auto
qed

text \<open>The correctly rounded result is unique.\<close>

lemma rounds_unique_le:
  assumes mono: "strict_mono v" and a: "rounds md v x m" and b: "rounds md v x k" and lt: "m < k"
  shows False
proof -
  have le: "v m \<le> v (k - 1)" "v (Suc m) \<le> v k" "k \<noteq> 0"
    using lt mono by (auto simp: strict_mono_less_eq)
  have adj: "Suc m = k \<or> v (Suc m) < v k"
    using lt mono by (auto simp: strict_mono_less)
  show False
    using a b le adj by (cases md) auto
qed

lemma rounds_unique:
  assumes "strict_mono v" and "rounds md v x m" and "rounds md v x k"
  shows "m = k"
  using rounds_unique_le [OF assms] rounds_unique_le [OF assms(1,3,2)] by (meson linorder_neqE_nat)

section \<open>The grid of a binary floating-point format\<close>

definition mval :: "nat \<Rightarrow> nat \<Rightarrow> nat" where
  "mval f m = (if m < 2 ^ f then m else (2 ^ f + m mod 2 ^ f) * 2 ^ (m div 2 ^ f - 1))"

lemma mval_scaled:
  assumes "e = 0 \<or> 2 ^ f \<le> z" and "z \<le> 2 ^ Suc f"
  shows "mval f (e * 2 ^ f + z) = z * 2 ^ e"
proof -
  consider "z < 2 ^ f" "e = 0" | "2 ^ f \<le> z" "z < 2 ^ Suc f" | "z = 2 ^ Suc f"
    using assms by fastforce
  then show ?thesis
  proof cases
    case 1
    then show ?thesis by (simp add: mval_def)
  next
    case 2
    then have d: "z div 2 ^ f = 1" and m: "z mod 2 ^ f = z - 2 ^ f"
      by (simp_all add: div_nat_eqI mod_if le_mod_geq)
    have "(e * 2 ^ f + z) div 2 ^ f = Suc e" "(e * 2 ^ f + z) mod 2 ^ f = z - 2 ^ f"
      using d m by simp_all
    then show ?thesis using 2 by (simp add: mval_def)
  next
    case 3
    then have "(e * 2 ^ f + z) div 2 ^ f = Suc (Suc e)" "(e * 2 ^ f + z) mod 2 ^ f = 0"
      by simp_all
    then show ?thesis using 3 by (simp add: mval_def)
  qed
qed

lemma mval_decompose:
  fixes m :: nat
  obtains e z where "m = e * 2 ^ f + z" and "e = 0 \<or> 2 ^ f \<le> z" and "z < 2 ^ Suc f"
proof (cases "m < 2 ^ f")
  case True
  then show thesis by (intro that [of 0 m]) simp_all
next
  case False
  then have "Suc (m div 2 ^ f - 1) = m div 2 ^ f" by (simp add: div_greater_zero_iff)
  then have "(m div 2 ^ f - 1) * 2 ^ f + 2 ^ f = (m div 2 ^ f) * 2 ^ f"
    by (metis add.commute mult_Suc)
  then have "m = (m div 2 ^ f - 1) * 2 ^ f + (2 ^ f + m mod 2 ^ f)"
    by (metis add.assoc div_mult_mod_eq)
  moreover have "m mod 2 ^ f < 2 ^ f" by simp
  ultimately show thesis by (intro that) auto
qed

lemma mval_strict_mono: "strict_mono (mval f)"
proof (rule strict_mono_Suc_iff [THEN iffD2], rule allI)
  fix m :: nat
  obtain e z where m: "m = e * 2 ^ f + z" and z: "e = 0 \<or> 2 ^ f \<le> z" "z < 2 ^ Suc f"
    by (rule mval_decompose)
  have "Suc m = e * 2 ^ f + Suc z" by (simp add: m)
  then show "mval f m < mval f (Suc m)"
    using m z mval_scaled [of e f z] mval_scaled [of e f "Suc z"] by auto
qed

lemma mval_real_mono [simp]: "strict_mono (\<lambda>m. real (mval f m))"
  using mval_strict_mono [of f] by (simp add: strict_mono_def)

lemma real_strict_mono [simp]: "strict_mono real"
  by (simp add: strict_mono_def)

lemma mval_less_iff [simp]: "mval f m < mval f n \<longleftrightarrow> m < n"
  by (rule strict_mono_less [OF mval_strict_mono])

lemma mval_eq_iff [simp]: "mval f m = mval f n \<longleftrightarrow> m = n"
  by (rule strict_mono_eq [OF mval_strict_mono])

lemma mval_le_iff [simp]: "mval f m \<le> mval f n \<longleftrightarrow> m \<le> n"
  by (rule strict_mono_less_eq [OF mval_strict_mono])

lemma mval_0 [simp]: "mval f 0 = 0"
  by (simp add: mval_def)

lemma mval_pos_iff: "0 < mval f m \<longleftrightarrow> 0 < m"
  using mval_less_iff [of f 0 m] by simp

end
