(* ===== verification/Rounding_Core.thy ===== *)
theory Rounding_Core
  imports Rounding_Spec
begin

text \<open>
  Rounding of significands that carry extra low-order bits: sticky (jammed) shifts, the
  round-increment-and-truncate step of all the \<^verbatim>\<open>roundPack\<close> routines on natural numbers, and its
  correctness against \<^const>\<open>rounds\<close>. Nothing here mentions machine words; the component
  theories connect these functions with the code of each format.
\<close>

section \<open>Comparing like the exact result\<close>

definition agrees :: "nat \<Rightarrow> real \<Rightarrow> nat \<Rightarrow> bool" where
  "agrees k x n \<longleftrightarrow>
     (\<forall>b::nat. 2 ^ k dvd b \<longrightarrow> (x < real b \<longleftrightarrow> n < b) \<and> (x = real b \<longleftrightarrow> n = b))"

lemma agreesI:
  assumes "\<And>b. x < real (b * 2 ^ k) \<longleftrightarrow> n < b * 2 ^ k"
    and "\<And>b. x = real (b * 2 ^ k) \<longleftrightarrow> n = b * 2 ^ k"
  shows "agrees k x n"
  unfolding agrees_def by (metis assms dvd_div_mult_self)

lemma agrees_less: "agrees k x n \<Longrightarrow> 2 ^ k dvd b \<Longrightarrow> x < real b \<longleftrightarrow> n < b"
  by (simp add: agrees_def)

lemma agrees_eq: "agrees k x n \<Longrightarrow> 2 ^ k dvd b \<Longrightarrow> x = real b \<longleftrightarrow> n = b"
  by (simp add: agrees_def)

lemma agrees_le: "agrees k x n \<Longrightarrow> 2 ^ k dvd b \<Longrightarrow> real b \<le> x \<longleftrightarrow> b \<le> n"
  using agrees_less [of k x n b] by (simp add: not_less [symmetric])

lemma agrees_refl [simp, intro]: "agrees k (real n) n"
  by (simp add: agrees_def)

lemma agrees_mono:
  assumes "agrees k x n" and "k \<le> j"
  shows "agrees j x n"
proof -
  have "2 ^ k dvd b" if "2 ^ j dvd b" for b :: nat
    using that assms(2) by (rule power_le_dvd)
  with assms(1) show ?thesis by (simp add: agrees_def)
qed

text \<open>Multiplying by a power of two, on both sides.\<close>

lemma agrees_scale:
  assumes "agrees k x n"
  shows "agrees (k + c) (x * 2 ^ c) (n * 2 ^ c)"
proof (rule agreesI)
  fix b :: nat
  have d: "2 ^ k dvd b * 2 ^ k" by simp
  have "x * 2 ^ c < real (b * 2 ^ (k + c)) \<longleftrightarrow> x < real (b * 2 ^ k)"
    by (simp add: power_add)
  also have "\<dots> \<longleftrightarrow> n < b * 2 ^ k" by (rule agrees_less [OF assms d])
  also have "\<dots> \<longleftrightarrow> n * 2 ^ c < b * 2 ^ (k + c)" by (simp add: power_add)
  finally show "x * 2 ^ c < real (b * 2 ^ (k + c)) \<longleftrightarrow> n * 2 ^ c < b * 2 ^ (k + c)" .
  have "x * 2 ^ c = real (b * 2 ^ (k + c)) \<longleftrightarrow> x = real (b * 2 ^ k)"
    by (simp add: power_add)
  also have "\<dots> \<longleftrightarrow> n = b * 2 ^ k" by (rule agrees_eq [OF assms d])
  also have "\<dots> \<longleftrightarrow> n * 2 ^ c = b * 2 ^ (k + c)" by (simp add: power_add)
  finally show "x * 2 ^ c = real (b * 2 ^ (k + c)) \<longleftrightarrow> n * 2 ^ c = b * 2 ^ (k + c)" .
qed

text \<open>Adding to, or subtracting from, a multiple of \<open>2 ^ k\<close>.\<close>

lemma agrees_nonneg: "agrees k x n \<Longrightarrow> 0 \<le> x"
  using agrees_less [of k x n 0] by simp

lemma agrees_add:
  assumes "agrees k x n" and "2 ^ k dvd m"
  shows "agrees k (real m + x) (m + n)"
  unfolding agrees_def
proof (intro allI impI)
  fix b :: nat
  assume b: "2 ^ k dvd b"
  show "(real m + x < real b \<longleftrightarrow> m + n < b) \<and> (real m + x = real b \<longleftrightarrow> m + n = b)"
  proof (cases "m \<le> b")
    case True
    then have "2 ^ k dvd b - m" "real (b - m) = real b - real m" using b assms(2) by (simp_all add: of_nat_diff)
    with agrees_less [OF assms(1), of "b - m"] agrees_eq [OF assms(1), of "b - m"] True show ?thesis by auto
  next
    case False
    then show ?thesis using agrees_nonneg [OF assms(1)] by auto
  qed
qed

lemma agrees_sub:
  assumes "agrees k x n" and "2 ^ k dvd m" and "n \<le> m"
  shows "agrees k (real m - x) (m - n)"
  unfolding agrees_def
proof (intro allI impI)
  fix b :: nat
  assume b: "2 ^ k dvd b"
  have le: "x \<le> real m"
    using agrees_less [OF assms(1,2)] agrees_eq [OF assms(1,2)] assms(3) by (cases "n = m") auto
  show "(real m - x < real b \<longleftrightarrow> m - n < b) \<and> (real m - x = real b \<longleftrightarrow> m - n = b)"
  proof (cases "b \<le> m")
    case True
    then have "2 ^ k dvd m - b" "real (m - b) = real m - real b" using b assms(2) by (simp_all add: of_nat_diff)
    with agrees_less [OF assms(1), of "m - b"] agrees_eq [OF assms(1), of "m - b"] True assms(3) show ?thesis by auto
  next
    case False
    then have "real m - x < real b" using agrees_nonneg [OF assms(1)] by (simp add: less_le_trans)
    with False show ?thesis by auto
  qed
qed

section \<open>Jamming shifts\<close>

definition jam :: "nat \<Rightarrow> nat \<Rightarrow> nat" where
  "jam c n = n div 2 ^ c + of_bool (\<not> 2 ^ c dvd n \<and> even (n div 2 ^ c))"

lemma jam_0 [simp]: "jam c 0 = 0"
  by (simp add: jam_def)

lemma jam_zero_count [simp]: "jam 0 n = n"
  by (simp add: jam_def)

lemma jam_eq_0_iff: "jam c n = 0 \<longleftrightarrow> n = 0"
  by (auto simp: jam_def dvd_div_eq_0_iff)

lemma jam_less_even:
  assumes "even b"
  shows "jam c n < b \<longleftrightarrow> n < b * 2 ^ c"
proof -
  have "jam c n < b \<longleftrightarrow> n div 2 ^ c < b"
    using assms unfolding jam_def by (cases "even (n div 2 ^ c)") (auto elim!: evenE oddE)
  then show ?thesis by (simp add: div_less_iff_less_mult)
qed

lemma jam_eq_even: "even b \<Longrightarrow> jam c n = b \<longleftrightarrow> n = b * 2 ^ c"
  unfolding jam_def by (cases "2 ^ c dvd n") auto

lemma jam_le_even: "even b \<Longrightarrow> b \<le> jam c n \<longleftrightarrow> b * 2 ^ c \<le> n"
  using jam_less_even [of b c n] by (simp add: not_less [symmetric])

lemma agrees_jam:
  assumes "agrees k x n" and "1 \<le> j" and "k \<le> j + c"
  shows "agrees j (x / 2 ^ c) (jam c n)"
proof (rule agreesI)
  fix b :: nat
  have ev: "even (b * 2 ^ j)" using assms(2) by simp
  have d: "2 ^ k dvd b * 2 ^ j * 2 ^ c"
    using assms(3) by (simp add: le_imp_power_dvd mult.assoc flip: power_add)
  have "x / 2 ^ c < real (b * 2 ^ j) \<longleftrightarrow> x < real (b * 2 ^ j * 2 ^ c)"
    by (simp add: divide_less_eq)
  also have "\<dots> \<longleftrightarrow> n < b * 2 ^ j * 2 ^ c" by (rule agrees_less [OF assms(1) d])
  also have "\<dots> \<longleftrightarrow> jam c n < b * 2 ^ j" by (rule jam_less_even [OF ev, symmetric])
  finally show "x / 2 ^ c < real (b * 2 ^ j) \<longleftrightarrow> jam c n < b * 2 ^ j" .
  have "x / 2 ^ c = real (b * 2 ^ j) \<longleftrightarrow> x = real (b * 2 ^ j * 2 ^ c)"
    by (simp add: divide_eq_eq)
  also have "\<dots> \<longleftrightarrow> n = b * 2 ^ j * 2 ^ c" by (rule agrees_eq [OF assms(1) d])
  also have "\<dots> \<longleftrightarrow> jam c n = b * 2 ^ j" by (rule jam_eq_even [OF ev, symmetric])
  finally show "x / 2 ^ c = real (b * 2 ^ j) \<longleftrightarrow> jam c n = b * 2 ^ j" .
qed

section \<open>Rounding off the extra bits\<close>

text \<open>\<^verbatim>\<open>roundIncrement\<close> for \<open>x\<close> extra bits.\<close>

fun rinc :: "nat \<Rightarrow> mag_round \<Rightarrow> nat" where
  "rinc x ToEven = 2 ^ (x - 1)"
| "rinc x ToAway = 2 ^ (x - 1)"
| "rinc x Trunc = 0"
| "rinc x Up = 2 ^ x - 1"

text \<open>
  Add the increment, drop the extra bits, and clear the last bit when the dropped bits were
  exactly one half under round-to-nearest-even.
\<close>

definition rnd :: "nat \<Rightarrow> mag_round \<Rightarrow> nat \<Rightarrow> nat" where
  "rnd x md n =
     (let z = (n + rinc x md) div 2 ^ x
      in if md = ToEven \<and> n mod 2 ^ x = 2 ^ (x - 1) then z - z mod 2 else z)"

lemma agrees_half:
  assumes "agrees x X n"
  shows "2 * (X / 2 ^ Suc x) < real a \<longleftrightarrow> n < a * 2 ^ x"
    and "2 * (X / 2 ^ Suc x) = real a \<longleftrightarrow> n = a * 2 ^ x"
    and "real a < 2 * (X / 2 ^ Suc x) \<longleftrightarrow> a * 2 ^ x < n"
proof -
  have d: "2 ^ x dvd a * 2 ^ x" by simp
  show lt: "2 * (X / 2 ^ Suc x) < real a \<longleftrightarrow> n < a * 2 ^ x"
    using agrees_less [OF assms d] by (simp add: divide_less_eq)
  show eq: "2 * (X / 2 ^ Suc x) = real a \<longleftrightarrow> n = a * 2 ^ x"
    using agrees_eq [OF assms d] by (simp add: divide_eq_eq)
  show "real a < 2 * (X / 2 ^ Suc x) \<longleftrightarrow> a * 2 ^ x < n"
    using lt eq by linarith
qed

lemma rnd_cases:
  fixes n x :: nat
  obtains q r where "n = 2 * q * 2 ^ x + r" and "r < 2 * 2 ^ x"
    and "\<forall>k. (n + k) div 2 ^ Suc x = q + (r + k) div 2 ^ Suc x" and "n mod 2 ^ Suc x = r"
proof
  show "n = 2 * (n div 2 ^ Suc x) * 2 ^ x + n mod 2 ^ Suc x"
    using div_mult_mod_eq [of n "2 ^ Suc x"] by (simp add: mult_ac)
  show "n mod 2 ^ Suc x < 2 * 2 ^ x" using mod_less_divisor [of "2 ^ Suc x" n] by simp
  have "(n + k) div 2 ^ Suc x =
      (n div 2 ^ Suc x * 2 ^ Suc x + (n mod 2 ^ Suc x + k)) div 2 ^ Suc x" for k
    by (simp only: add.assoc [symmetric] div_mult_mod_eq)
  then show "\<forall>k. (n + k) div 2 ^ Suc x = n div 2 ^ Suc x + (n mod 2 ^ Suc x + k) div 2 ^ Suc x"
    by (simp add: div_mult_self3)
qed simp

lemma rnd_nearest_cases:
  fixes n x :: nat
  assumes md: "md = ToEven \<or> md = ToAway"
  obtains q where "2 * q * 2 ^ x \<le> n" and "n < (2 * q + 1) * 2 ^ x" and "rnd (Suc x) md n = q"
  | q where "n = (2 * q + 1) * 2 ^ x" and "rnd (Suc x) md n = (if md = ToEven \<and> even q then q else Suc q)"
  | q where "(2 * q + 1) * 2 ^ x < n" and "n < 2 * Suc q * 2 ^ x" and "rnd (Suc x) md n = Suc q"
proof -
  obtain q r where n: "n = 2 * q * 2 ^ x + r" and r: "r < 2 * 2 ^ x"
    and div: "\<forall>k. (n + k) div 2 ^ Suc x = q + (r + k) div 2 ^ Suc x" and md2: "n mod 2 ^ Suc x = r"
    by (rule rnd_cases [of n x])
  have inc: "rinc (Suc x) md = 2 ^ x" using md by auto
  have r0: "(r + 2 ^ x) div 2 ^ Suc x = (if r < 2 ^ x then 0 else 1)"
    using r by (auto simp: div_nat_eqI)
  have z: "(n + rinc (Suc x) md) div 2 ^ Suc x = (if r < 2 ^ x then q else Suc q)"
    by (simp only: inc div [rule_format] r0) simp
  consider "r < 2 ^ x" | "r = 2 ^ x" | "2 ^ x < r" by linarith
  then show thesis
  proof cases
    case 1
    then have "rnd (Suc x) md n = q" by (simp only: rnd_def Let_def z md2) simp
    with 1 n show thesis by (intro that(1)) auto
  next
    case 2
    then have "rnd (Suc x) md n = (if md = ToEven \<and> even q then q else Suc q)"
      by (simp only: rnd_def Let_def z md2) (auto simp: even_Suc elim!: evenE oddE)
    with 2 n show thesis by (intro that(2)) auto
  next
    case 3
    then have "rnd (Suc x) md n = Suc q" by (simp only: rnd_def Let_def z md2) simp
    with 3 n r show thesis by (intro that(3)) auto
  qed
qed

lemma rnd_rounds_nearest:
  assumes ag: "agrees x X n" and md: "md = ToEven \<or> md = ToAway"
  shows "rounds md real (X / 2 ^ Suc x) (rnd (Suc x) md n)"
proof -
  let ?Y = "X / 2 ^ Suc x"
  have up: "2 * ?Y < real m + real (Suc m) \<longleftrightarrow> n < (2 * m + 1) * 2 ^ x"
    and upe: "2 * ?Y = real m + real (Suc m) \<longleftrightarrow> n = (2 * m + 1) * 2 ^ x" for m
    using agrees_half [OF ag, of "2 * m + 1"] by (simp_all add: add.commute del: power_Suc)
  have lo: "real m + real (Suc m) < 2 * ?Y \<longleftrightarrow> (2 * m + 1) * 2 ^ x < n" for m
    using agrees_half [OF ag, of "2 * m + 1"] by (simp add: add.commute del: power_Suc)
  have grow: "i \<le> j \<Longrightarrow> (2 * i + 1) * 2 ^ x \<le> (2 * j + 1) * 2 ^ x" for i j :: nat
    by simp
  show ?thesis
    using md
  proof (cases rule: rnd_nearest_cases [of md x n])
    case (1 q)
    have "q = 0 \<or> (2 * (q - 1) + 1) * 2 ^ x < n"
      using 1 by (cases q) (auto simp: algebra_simps intro: less_le_trans [rotated])
    then have "q = 0 \<or> real (q - 1) + real q < 2 * ?Y" using lo [of "q - 1"] by (cases q) auto
    then show ?thesis using 1 up [of q] md by (auto simp del: power_Suc)
  next
    case (2 q)
    have "n < (2 * Suc q + 1) * 2 ^ x" using 2 by simp
    moreover have "q = 0 \<or> (2 * (q - 1) + 1) * 2 ^ x < n" using 2 by (cases q) auto
    then have "q = 0 \<or> real (q - 1) + real q < 2 * ?Y" using lo [of "q - 1"] by (cases q) auto
    ultimately show ?thesis
      using 2 up [of "Suc q"] upe [of q] md by (auto simp del: power_Suc)
  next
    case (3 q)
    have "n < (2 * Suc q + 1) * 2 ^ x" using 3 by (auto intro: less_le_trans)
    then show ?thesis using 3 up [of "Suc q"] lo [of q] md by (auto simp del: power_Suc)
  qed
qed

lemma rnd_rounds_Trunc:
  assumes "agrees x X n"
  shows "rounds Trunc real (X / 2 ^ x) (rnd x Trunc n)"
proof -
  let ?q = "n div 2 ^ x"
  have le: "?q * 2 ^ x \<le> n" and lt: "n < Suc ?q * 2 ^ x"
    using div_less_iff_less_mult [of "2 ^ x" n "Suc ?q"] by simp_all
  have "real (?q * 2 ^ x) \<le> X" using agrees_le [OF assms, of "?q * 2 ^ x"] le by simp
  moreover have "X < real (Suc ?q * 2 ^ x)"
    using agrees_less [OF assms dvd_triv_right, of "Suc ?q"] lt by blast
  ultimately show ?thesis by (simp add: rnd_def field_simps)
qed

lemma rnd_rounds_Up:
  assumes "agrees x X n"
  shows "rounds Up real (X / 2 ^ x) (rnd x Up n)"
proof -
  let ?z = "(n + (2 ^ x - 1)) div 2 ^ x"
  have "n + (2 ^ x - 1) < Suc ?z * 2 ^ x"
    using div_less_iff_less_mult [of "2 ^ x" "n + (2 ^ x - 1)" "Suc ?z"] by simp
  then have hi: "n \<le> ?z * 2 ^ x" by simp
  have "?z * 2 ^ x \<le> n + (2 ^ x - 1)" by simp
  also have "\<dots> < n + 2 ^ x" by simp
  finally have "?z * 2 ^ x < n + 2 ^ x" .
  moreover have step: "z * p < n + p \<Longrightarrow> z = 0 \<or> (z - 1) * p < n" for z p :: nat
    by (cases z) auto
  ultimately have lo: "?z = 0 \<or> (?z - 1) * 2 ^ x < n" by blast
  have d: "2 ^ x dvd a * 2 ^ x" for a :: nat by simp
  have "X \<le> real (?z * 2 ^ x)"
    using agrees_less [OF assms d] agrees_eq [OF assms d] hi by (metis le_less)
  moreover have "?z = 0 \<or> real ((?z - 1) * 2 ^ x) < X"
    using agrees_less [OF assms d] agrees_eq [OF assms d] lo by (metis linorder_neqE less_asym)
  ultimately show ?thesis by (auto simp: rnd_def field_simps)
qed

theorem rnd_rounds:
  assumes "0 < x" and "agrees (x - 1) X n"
  shows "rounds md real (X / 2 ^ x) (rnd x md n)"
proof (cases "md = ToEven \<or> md = ToAway")
  case True
  then show ?thesis using rnd_rounds_nearest [of "x - 1" X n md] assms by simp
next
  case False
  have "agrees x X n" using assms(2) by (rule agrees_mono) simp
  with False show ?thesis by (cases md) (auto intro: rnd_rounds_Trunc rnd_rounds_Up simp del: rounds.simps)
qed

section \<open>Rounding and the floating-point grid\<close>

text \<open>A rounded value never crosses a grid point.\<close>

lemma rounds_ge:
  assumes "strict_mono v" and "rounds md v x m" and "v k \<le> x"
  shows "k \<le> m"
proof (rule ccontr)
  assume "\<not> k \<le> m"
  then have "v (Suc m) \<le> v k" "v m < v (Suc m)"
    using assms(1) by (simp_all add: strict_mono_less_eq strict_mono_less)
  then show False using assms(2,3) by (cases md) auto
qed

lemma rounds_le:
  assumes "strict_mono v" and "rounds md v x m" and "x \<le> v k"
  shows "m \<le> k"
proof (rule ccontr)
  assume "\<not> m \<le> k"
  then have "v k \<le> v (m - 1)" "v (m - 1) < v m" "m \<noteq> 0"
    using assms(1) by (simp_all add: strict_mono_less_eq strict_mono_less)
  then show False using assms(2,3) by (cases md) auto
qed

lemma rounds_ge_real: "rounds md real x m \<Longrightarrow> real k \<le> x \<Longrightarrow> k \<le> m"
  by (rule rounds_ge [OF real_strict_mono])

lemma rounds_le_real: "rounds md real x m \<Longrightarrow> x \<le> real k \<Longrightarrow> m \<le> k"
  by (rule rounds_le [OF real_strict_mono])

text \<open>Moving a rounding from one grid to another that looks the same around the result.\<close>

lemma rounds_transfer:
  assumes r: "rounds md v x m" and c: "0 < c" and at: "w k = c * v m" and par: "even k \<longleftrightarrow> even m"
    and up: "w (Suc k) = c * v (Suc m) \<or> (x < v m \<and> w k < w (Suc k))"
    and lo: "k = 0 \<or> (m \<noteq> 0 \<and> w (k - 1) = c * v (m - 1)) \<or> (v m \<le> x \<and> w (k - 1) < w k)"
  shows "rounds md w (c * x) k"
proof -
  have sc: "c * a + c * b < 2 * (c * x) \<longleftrightarrow> a + b < 2 * x" "2 * (c * x) < c * a + c * b \<longleftrightarrow> 2 * x < a + b"
    "c * a + c * b = 2 * (c * x) \<longleftrightarrow> a + b = 2 * x" "c * a \<le> c * x \<longleftrightarrow> a \<le> x" "c * x \<le> c * a \<longleftrightarrow> x \<le> a"
    "c * a < c * x \<longleftrightarrow> a < x" "c * x < c * a \<longleftrightarrow> x < a" for a b :: real
    using c by (simp_all flip: distrib_left mult.left_commute [of 2 c])
  have sym: "2 * (c * x) = c * a + c * b \<longleftrightarrow> 2 * x = a + b" for a b using sc(3) [of a b] by metis
  have le: "v m \<le> x \<longleftrightarrow> w k \<le> c * x" and ge: "x \<le> v m \<longleftrightarrow> c * x \<le> w k"
    by (simp_all add: at sc)
  have up1: "2 * (c * x) < w k + w (Suc k)" if "2 * x < v m + v (Suc m)"
    using up that sc(2) [of "v m" "v (Suc m)"] sc(7) [of "v m"] at by auto
  have up2: "2 * (c * x) < w k + w (Suc k) \<or> 2 * (c * x) = w k + w (Suc k)" if "2 * x = v m + v (Suc m)"
    using up that sym [of "v m" "v (Suc m)"] sc(7) [of "v m"] at by auto
  have up3: "c * x < w (Suc k)" if "x < v (Suc m)"
    using up that sc(7) [of "v (Suc m)"] sc(7) [of "v m"] at by auto
  have lo1: "k = 0 \<or> w (k - 1) + w k < 2 * (c * x)" if "m = 0 \<or> v (m - 1) + v m < 2 * x"
    using lo that sc(1) [of "v (m - 1)" "v m"] sc(4) [of "v m"] at by auto
  have lo2: "k = 0 \<or> w (k - 1) + w k < 2 * (c * x) \<or> w (k - 1) + w k = 2 * (c * x)"
    if "v (m - 1) + v m = 2 * x"
    using lo that sc(3) [of "v (m - 1)" "v m"] sc(4) [of "v m"] at by auto
  have lo3: "k = 0 \<or> w (k - 1) < c * x" if "m = 0 \<or> v (m - 1) < x"
    using lo that sc(6) [of "v (m - 1)"] sc(4) [of "v m"] at by auto
  show ?thesis
  proof (cases md)
    case ToEven
    have "k = 0 \<or> w (k - 1) + w k < 2 * (c * x) \<or> (w (k - 1) + w k = 2 * (c * x) \<and> even k)"
      using r lo1 lo2 unfolding ToEven rounds.simps par by blast
    moreover have "2 * (c * x) < w k + w (Suc k) \<or> (2 * (c * x) = w k + w (Suc k) \<and> even k)"
      using r up1 up2 unfolding ToEven rounds.simps par by blast
    ultimately show ?thesis unfolding ToEven rounds.simps by blast
  next
    case ToAway
    have "k = 0 \<or> w (k - 1) + w k \<le> 2 * (c * x)"
      using r lo1 lo2 unfolding ToAway rounds.simps by (metis less_eq_real_def)
    then show ?thesis using r up1 unfolding ToAway rounds.simps by blast
  next
    case Trunc
    then show ?thesis using r le up3 by simp
  next
    case Up
    then show ?thesis using r ge lo3 by simp
  qed
qed

theorem rounds_scale:
  assumes r: "rounds md real Y z" and nz: "e = 0 \<or> 2 ^ f \<le> Y" and hi: "Y < 2 ^ Suc f" and f: "0 < f"
  shows "rounds md (\<lambda>m. real (mval f m)) (2 ^ e * Y) (e * 2 ^ f + z)"
proof -
  have z1: "z \<le> 2 ^ Suc f" using rounds_le_real [OF r, of "2 ^ Suc f"] hi by simp
  have z0: "e = 0 \<or> 2 ^ f \<le> z" using rounds_ge_real [OF r, of "2 ^ f"] nz by auto
  let ?k = "e * 2 ^ f + z"
  show ?thesis
  proof (rule rounds_transfer [OF r])
    show at: "real (mval f ?k) = 2 ^ e * real z" using mval_scaled [OF z0 z1] by simp
    show "even ?k \<longleftrightarrow> even z" using f by simp
    have mono: "mval f ?k < mval f (Suc ?k)" by simp
    show "real (mval f (Suc ?k)) = 2 ^ e * real (Suc z) \<or> (Y < real z \<and> real (mval f ?k) < real (mval f (Suc ?k)))"
    proof (cases "z = 2 ^ Suc f")
      case True
      then show ?thesis using hi mono by simp
    next
      case False
      then have "mval f (e * 2 ^ f + Suc z) = Suc z * 2 ^ e"
        using z0 z1 by (intro mval_scaled) auto
      then show ?thesis by (simp add: algebra_simps)
    qed
    show "?k = 0 \<or> (z \<noteq> 0 \<and> real (mval f (?k - 1)) = 2 ^ e * real (z - 1)) \<or>
        (real z \<le> Y \<and> real (mval f (?k - 1)) < real (mval f ?k))"
    proof (cases "z = 0 \<or> (e \<noteq> 0 \<and> z = 2 ^ f)")
      case True
      then show ?thesis using z0 nz f by auto
    next
      case False
      then have "mval f (e * 2 ^ f + (z - 1)) = (z - 1) * 2 ^ e"
        using z0 z1 by (intro mval_scaled) auto
      with False show ?thesis by (simp add: Nat.add_diff_assoc)
    qed
  qed simp
qed

section \<open>Round and pack, on natural numbers\<close>

text \<open>
  The exception flags and the packed magnitude the standard asks for. \<open>m\<close> is the
  correctly rounded index with unbounded exponent; \<open>infp\<close> is the pattern of infinity. Tininess after
  rounding asks whether the value, rounded as if the exponent were unbounded below as
  well, stays under the least normal number \<open>2 ^ f\<close>; doubling the value and rounding it on the
  same grid is that question one binade higher.
\<close>

definition tiny_after :: "nat \<Rightarrow> mag_round \<Rightarrow> real \<Rightarrow> bool" where
  "tiny_after f md x \<longleftrightarrow> (\<exists>k < 2 * 2 ^ f. rounds md (\<lambda>m. real (mval f m)) (2 * x) k)"

definition clamp_inf :: "mag_round \<Rightarrow> nat \<Rightarrow> nat \<Rightarrow> nat" where
  "clamp_inf md infp m = (if m < infp then m else if md = Trunc then infp - 1 else infp)"

definition except_flags :: "nat \<Rightarrow> nat \<Rightarrow> int8_t \<Rightarrow> mag_round \<Rightarrow> real \<Rightarrow> nat \<Rightarrow> int8_t" where
  "except_flags f infp det md x m =
     (if infp \<le> m then softfloat_flag_overflow OR softfloat_flag_inexact
      else if real (mval f m) = x then 0
      else if x < 2 ^ f \<and> (det = softfloat_tininess_beforeRounding \<or> tiny_after f md x)
      then softfloat_flag_underflow OR softfloat_flag_inexact
      else softfloat_flag_inexact)"

definition round_result ::
  "nat \<Rightarrow> nat \<Rightarrow> int8_t \<Rightarrow> int8_t \<Rightarrow> bool \<Rightarrow> real \<Rightarrow> nat \<Rightarrow> int8_t \<Rightarrow> bool" where
  "round_result f E mode det sign x z fl \<longleftrightarrow>
     (\<exists>m. rounds (mag_mode mode sign) (\<lambda>m. real (mval f m)) x m \<and>
          z = clamp_inf (mag_mode mode sign) (E * 2 ^ f) m \<and>
          fl = except_flags f (E * 2 ^ f) det (mag_mode mode sign) x m)"

text \<open>
  The \<^verbatim>\<open>roundPackToF\<close> routines on natural numbers, for \<open>f\<close> fraction bits, \<open>x\<close> extra bits and
  largest exponent field \<open>E\<close>: the packed magnitude and the flags raised.
\<close>

definition gen_round_pack ::
  "nat \<Rightarrow> nat \<Rightarrow> nat \<Rightarrow> mag_round \<Rightarrow> int8_t \<Rightarrow> int \<Rightarrow> nat \<Rightarrow> nat \<times> int8_t" where
  "gen_round_pack f x E md det e n =
     (if e < 0 then
        let isTiny = (det = softfloat_tininess_beforeRounding \<or> e < -1 \<or>
                      n + rinc x md < 2 ^ (f + x + 1));
            n' = jam (nat (- e)) n
        in (rnd x md n',
            (if isTiny \<and> n' mod 2 ^ x \<noteq> 0 then softfloat_flag_underflow else 0) OR
            (if n' mod 2 ^ x \<noteq> 0 then softfloat_flag_inexact else 0))
      else if int E - 2 < e \<or> (e = int E - 2 \<and> 2 ^ (f + x + 1) \<le> n + rinc x md)
      then (if rinc x md = 0 then E * 2 ^ f - 1 else E * 2 ^ f,
            softfloat_flag_overflow OR softfloat_flag_inexact)
      else (nat e * 2 ^ f + rnd x md n, if n mod 2 ^ x \<noteq> 0 then softfloat_flag_inexact else 0))"

lemma rinc_0_iff: "0 < x \<Longrightarrow> rinc x md = 0 \<longleftrightarrow> md = Trunc"
  using one_less_power [of "2::nat" x] by (cases md) simp_all

lemma rnd_dvd:
  assumes "0 < x" and "2 ^ x dvd n"
  shows "rnd x md n = n div 2 ^ x"
proof (rule rounds_unique [OF real_strict_mono])
  show "rounds md real (real n / 2 ^ x) (rnd x md n)" by (rule rnd_rounds [OF assms(1)]) simp
  have "real n / 2 ^ x = real (n div 2 ^ x)" using assms(2) by (simp add: real_of_nat_div)
  then show "rounds md real (real n / 2 ^ x) (n div 2 ^ x)"
    using rounds_exact [OF real_strict_mono] by metis
qed

lemma rnd_exact_iff:
  assumes "0 < x" and "agrees (x - 1) X n"
  shows "real (rnd x md n) = X / 2 ^ x \<longleftrightarrow> n mod 2 ^ x = 0"
proof
  have ag: "agrees x X n" using assms(2) by (rule agrees_mono) simp
  {
    assume "real (rnd x md n) = X / 2 ^ x"
    then have "X = real (rnd x md n * 2 ^ x)" by (simp add: field_simps)
    with agrees_eq [OF ag, of "rnd x md n * 2 ^ x"] have "n = rnd x md n * 2 ^ x" by simp
    then show "n mod 2 ^ x = 0" by (metis mod_mult_self2_is_0)
  next
    assume z: "n mod 2 ^ x = 0"
    then have d: "2 ^ x dvd n" by (simp add: dvd_eq_mod_eq_0)
    with agrees_eq [OF ag, of n] have "X = real n" by simp
    with d show "real (rnd x md n) = X / 2 ^ x"
      using rnd_dvd [OF assms(1) d] by (simp add: real_of_nat_div)
  }
qed

lemma rnd_top_iff:
  assumes "0 < x" and "n < 2 ^ (f + x + 1)"
  shows "2 ^ Suc f \<le> rnd x md n \<longleftrightarrow> 2 ^ (f + x + 1) \<le> n + rinc x md"
proof -
  let ?z = "(n + rinc x md) div 2 ^ x"
  have p: "(2::nat) ^ (f + x + 1) = 2 ^ Suc f * 2 ^ x" by (simp add: power_add)
  have z: "2 ^ Suc f \<le> ?z \<longleftrightarrow> 2 ^ (f + x + 1) \<le> n + rinc x md"
    unfolding p by (rule less_eq_div_iff_mult_less_eq) simp
  have "n + rinc x md < 2 ^ (f + x + 1) + 2 ^ x"
    using assms by (cases md) (auto intro!: add_less_le_mono power_increasing)
  then have "?z < Suc (2 ^ Suc f)"
    using div_less_iff_less_mult [of "2 ^ x" "n + rinc x md" "Suc (2 ^ Suc f)"]
    unfolding p by (simp del: power_Suc)
  then have "2 ^ Suc f \<le> ?z - ?z mod 2 \<longleftrightarrow> 2 ^ Suc f \<le> ?z"
    by (auto simp: le_less_Suc_eq)
  with z show ?thesis by (simp only: rnd_def Let_def split: if_splits) simp
qed

lemma powi_minus_nat: "e \<ge> 0 \<Longrightarrow> (2::real) powi (e - int x) = 2 ^ nat e / 2 ^ x"
  by (simp add: power_int_diff) (metis int_nat_eq power_int_of_nat)

lemma powi_mult: "(2::real) powi a * 2 powi b = 2 powi (a + b)"
  by (simp add: power_int_add)

lemma powi_div: "(2::real) powi a / 2 ^ n = 2 powi (a - int n)"
  by (simp add: power_int_diff)

text \<open>Normal and overflowing results: a non-negative exponent.\<close>

lemma gen_round_pack_normal:
  assumes f: "0 < f" and x: "2 \<le> x" and E: "2 \<le> E" and ag: "agrees (x - 1) X n"
    and lo: "2 ^ (f + x) \<le> n" and hi: "n < 2 ^ (f + x + 1)" and e: "0 \<le> e"
    and md: "md = mag_mode mode sign"
  shows "round_result f E mode det sign (X * 2 powi (e - int x))
           (fst (gen_round_pack f x E md det e n)) (snd (gen_round_pack f x E md det e n))"
proof -
  let ?Y = "X / 2 ^ x" and ?m = "nat e * 2 ^ f + rnd x md n"
  have x0: "0 < x" using x by simp
  have val: "X * 2 powi (e - int x) = 2 ^ nat e * ?Y" using e by (simp add: powi_minus_nat)
  have "2 ^ (x - 1) dvd (2::nat) ^ (f + x)" "2 ^ (x - 1) dvd (2::nat) ^ (f + x + 1)"
    by (simp_all add: le_imp_power_dvd)
  then have "real (2 ^ (f + x)) \<le> X" "X < real (2 ^ (f + x + 1))"
    using agrees_le [OF ag] agrees_less [OF ag] lo hi by blast+
  then have Y: "2 ^ f \<le> ?Y" "?Y < 2 ^ Suc f" by (simp_all add: power_add field_simps)
  have r: "rounds md real ?Y (rnd x md n)" by (rule rnd_rounds [OF x0 ag])
  have rm: "rounds md (\<lambda>m. real (mval f m)) (2 ^ nat e * ?Y) ?m"
    by (rule rounds_scale [OF r]) (use Y f in auto)
  have z1: "2 ^ f \<le> rnd x md n" and z2: "rnd x md n \<le> 2 ^ Suc f"
    using rounds_ge_real [OF r, of "2 ^ f"] rounds_le_real [OF r, of "2 ^ Suc f"] Y by simp_all
  have mv: "mval f ?m = rnd x md n * 2 ^ nat e" by (rule mval_scaled) (use z1 z2 in auto)
  have exact: "real (mval f ?m) = 2 ^ nat e * ?Y \<longleftrightarrow> n mod 2 ^ x = 0"
    using rnd_exact_iff [OF x0 ag, of md] 
    by (simp add: mv mult.commute [of "real (rnd x md n)"] flip: times_divide_eq_right)
  have ovf: "E * 2 ^ f \<le> ?m \<longleftrightarrow> int E - 2 < e \<or> (e = int E - 2 \<and> 2 ^ (f + x + 1) \<le> n + rinc x md)"
  proof -
    consider "int E - 2 < e" | "e = int E - 2" | "e < int E - 2" by linarith
    then show ?thesis
    proof cases
      case 1
      then have "E \<le> Suc (nat e)" using E by linarith
      then have "E * 2 ^ f \<le> Suc (nat e) * 2 ^ f" by (rule mult_le_mono1)
      with 1 z1 show ?thesis by simp
    next
      case 2
      then have "E = nat e + 2" using E by linarith
      moreover have "(nat e + 2) * 2 ^ f \<le> nat e * 2 ^ f + k \<longleftrightarrow> 2 ^ Suc f \<le> k" for k
        by (simp add: algebra_simps mult_2)
      ultimately show ?thesis using 2 rnd_top_iff [OF x0 hi, of md] by simp
    next
      case 3
      then have "nat e + 3 \<le> E" using E e by linarith
      then have "(nat e + 3) * 2 ^ f \<le> E * 2 ^ f" by (rule mult_le_mono1)
      moreover have "nat e * 2 ^ f + 2 ^ Suc f < (nat e + 3) * 2 ^ f" by (simp add: algebra_simps)
      ultimately have "?m < E * 2 ^ f" using z2 by linarith
      with 3 show ?thesis by simp
    qed
  qed
  have big: "\<not> 2 ^ nat e * ?Y < 2 ^ f"
    using Y(1) mult_mono [of 1 "2 ^ nat e" "2 ^ f" ?Y] by simp
  show ?thesis
    unfolding round_result_def val md [symmetric]
    by (intro exI [of _ ?m] conjI rm)
      (use e ovf exact big x0 in \<open>auto simp: gen_round_pack_def clamp_inf_def except_flags_def rinc_0_iff not_le\<close>)
qed

text \<open>Subnormal results: a negative exponent, so the significand is shifted right first.\<close>

lemma gen_round_pack_tiny:
  assumes f: "0 < f" and x: "2 \<le> x" and E: "2 \<le> E" and ag: "agrees (x - 1) X n"
    and lo: "2 ^ (f + x) \<le> n" and hi: "n < 2 ^ (f + x + 1)" and e: "e < 0"
    and md: "md = mag_mode mode sign"
  shows "round_result f E mode det sign (X * 2 powi (e - int x))
           (fst (gen_round_pack f x E md det e n)) (snd (gen_round_pack f x E md det e n))"
proof -
  define c where "c = nat (- e)"
  have c: "0 < c" and ec: "e = - int c" using e by (simp_all add: c_def)
  have x0: "0 < x" using x by simp
  have powi: "X * 2 powi (e - int x) = X / 2 ^ c / 2 ^ x"
    by (simp add: ec power_int_diff power_int_minus field_simps)
  have jag: "agrees (x - 1) (X / 2 ^ d) (jam d n)" for d
    by (rule agrees_jam [OF ag]) (use x in auto)
  have "X < real (2 ^ (f + x + 1))"
    by (rule agrees_less [OF ag, THEN iffD2]) (use hi in \<open>simp_all add: le_imp_power_dvd\<close>)
  then have Xhi: "X / 2 ^ x < 2 ^ Suc f" by (simp add: power_add field_simps)
  have small: "X / 2 ^ d / 2 ^ x < 2 ^ f" if "0 < d" for d
  proof -
    have "X / 2 ^ x / 2 ^ d < 2 ^ Suc f / 2 ^ d" using Xhi by (rule divide_strict_right_mono) simp
    also have "\<dots> \<le> 2 ^ Suc f / 2 ^ 1" by (rule divide_left_mono) (use that in \<open>auto intro: self_le_power\<close>)
    finally show ?thesis by (simp add: mult.commute)
  qed
  have r: "rounds md (\<lambda>m. real (mval f m)) (X / 2 ^ d / 2 ^ x) (rnd x md (jam d n))" for d
  proof -
    have "X / 2 ^ d / 2 ^ x < 2 ^ Suc f"
      using small [of d] Xhi by (cases "d = 0") (auto intro: less_trans)
    with rounds_scale [OF rnd_rounds [OF x0 jag], of 0 f d md] f show ?thesis by simp
  qed
  have le: "rnd x md (jam d n) \<le> 2 ^ f" if "0 < d" for d
  proof (rule rounds_le_real [OF rnd_rounds [OF x0 jag]])
    show "X / 2 ^ d / 2 ^ x \<le> real (2 ^ f)" using small [OF that] by simp
  qed
  have mv: "mval f (rnd x md (jam c n)) = rnd x md (jam c n)"
    using mval_scaled [of 0 f "rnd x md (jam c n)"] le [OF c] by simp
  have exact: "real (mval f (rnd x md (jam c n))) = X / 2 ^ c / 2 ^ x \<longleftrightarrow> jam c n mod 2 ^ x = 0"
    using rnd_exact_iff [OF x0 jag] by (simp only: mv)
  have "2 ^ f < 2 * (2::nat) ^ f" by simp
  also have "\<dots> \<le> E * 2 ^ f" using E by (rule mult_le_mono1)
  finally have small_inf: "rnd x md (jam c n) < E * 2 ^ f" using le [OF c] by (rule le_less_trans [rotated])
  have half: "2 * (X / 2 ^ c / 2 ^ x) = X / 2 ^ (c - 1) / 2 ^ x"
    using c by (cases c) simp_all
  have tiny: "tiny_after f md (X / 2 ^ c / 2 ^ x) \<longleftrightarrow> e < -1 \<or> n + rinc x md < 2 ^ (f + x + 1)"
  proof -
    have "tiny_after f md (X / 2 ^ c / 2 ^ x) \<longleftrightarrow> rnd x md (jam (c - 1) n) < 2 * 2 ^ f"
      unfolding tiny_after_def half
      using rounds_unique [OF mval_real_mono r [of "c - 1"]] r [of "c - 1"] by metis
    also have "\<dots> \<longleftrightarrow> e < -1 \<or> n + rinc x md < 2 ^ (f + x + 1)"
    proof (cases "c = 1")
      case True
      then show ?thesis using rnd_top_iff [OF x0 hi, of md] ec by (auto simp: not_le [symmetric])
    next
      case False
      then have "rnd x md (jam (c - 1) n) \<le> 2 ^ f" using c by (intro le) simp
      with False c ec show ?thesis by (auto intro: le_less_trans)
    qed
    finally show ?thesis .
  qed
  show ?thesis
    unfolding round_result_def powi md [symmetric]
    by (intro exI [of _ "rnd x md (jam c n)"] conjI r)
      (use e small_inf exact tiny small [OF c] in
        \<open>auto simp: gen_round_pack_def clamp_inf_def except_flags_def Let_def c_def [symmetric]\<close>)
qed

theorem gen_round_pack_correct:
  assumes "0 < f" and "2 \<le> x" and "2 \<le> E" and "agrees (x - 1) X n"
    and "2 ^ (f + x) \<le> n" and "n < 2 ^ (f + x + 1)"
    and "gen_round_pack f x E (mag_mode mode sign) det e n = (z, fl)"
  shows "round_result f E mode det sign (X * 2 powi (e - int x)) z fl"
proof (cases "e < 0")
  case True
  with gen_round_pack_tiny [OF assms(1-6) True refl, of mode det sign] assms(7) show ?thesis by simp
next
  case False
  then have "0 \<le> e" by simp
  with gen_round_pack_normal [OF assms(1-6) this refl, of mode det sign] assms(7) show ?thesis by simp
qed

end
