(* ===== verification/Primitives_Laws.thy ===== *)
theory Primitives_Laws
  imports Primitives Rounding_Core
begin

text \<open>
  What the integer primitives compute, on natural numbers: the jamming shifts are the
  function \<^const>\<open>jam\<close>, the leading-zero counts normalise, and the multi-word routines are exact
  (or exact modulo the width of the result). The interface \<open>right_jam\<close> states the contract
  of a jamming shift of one width; the 32-bit and the 64-bit routine both satisfy it.
\<close>

section \<open>Jamming shifts\<close>

lemma neg_count_eq:
  assumes "0 < unat count" and "unat count < 32"
  shows "neg_count count 31 = 32 - unat count"
proof -
  have "- count AND 31 = take_bit 5 (- count)"
    using and_mask_take_bit [of "- count" 5] by simp
  then have "neg_count count 31 = unat (- count) mod 32" by (simp add: unat_take_bit_mod)
  also have "unat (- count) = 4294967296 - unat count"
    using assms unat_uminus [of count] by (simp add: unat_gt_0)
  also have "4294967296 - unat count = (32 - unat count) + 32 * 134217727"
    using assms by simp
  also have "\<dots> mod 32 = 32 - unat count"
    using assms by (simp only: mod_mult_self2) simp
  finally show ?thesis .
qed

lemma neg_count_eq64:
  assumes "0 < unat count mod 64"
  shows "neg_count count 63 = 64 - unat count mod 64"
proof -
  have "- count AND 63 = take_bit 6 (- count)"
    using and_mask_take_bit [of "- count" 6] by simp
  then have "neg_count count 63 = unat (- count) mod 64" by (simp add: unat_take_bit_mod)
  also have "unat (- count) = 4294967296 - unat count"
    using assms unat_uminus [of count] by (cases "count = 0") simp_all
  also have "4294967296 - unat count = (64 - unat count mod 64) + 64 * (67108863 - unat count div 64)"
    using assms unat_lt32 [of count] div_mult_mod_eq [of "unat count" 64] by linarith
  also have "\<dots> mod 64 = 64 - unat count mod 64"
    using assms by (simp only: mod_mult_self2) simp
  finally show ?thesis .
qed

lemma jam_large: "n < 2 ^ c \<Longrightarrow> jam c n = of_bool (n \<noteq> 0)"
  by (auto simp: jam_def dest: dvd_imp_le)

lemma unat_jam_word:
  fixes a :: "'a::len word"
  assumes "P \<longleftrightarrow> \<not> 2 ^ c dvd unat a"
  shows "unat (drop_bit c a OR of_bool P) = jam c (unat a)"
  using assms by (simp add: unat_or_of_bool jam_def unat_drop_bit_div)

lemma unat_shift32RightJam:
  assumes "count \<noteq> 0"
  shows "unat (softfloat_shift32RightJam a count) = jam (unat count) (unat a)"
proof (cases "count < 32")
  case True
  then have c: "0 < unat count" "unat count < 32"
    using assms by (simp_all add: word_less_nat_alt unat_gt_0)
  have "push_bit (32 - unat count) a \<noteq> 0 \<longleftrightarrow> \<not> 2 ^ unat count dvd unat a"
    using push_bit_eq_0_iff_dvd [of "32 - unat count" a] c by simp
  then show ?thesis
    using True by (simp add: softfloat_shift32RightJam_def neg_count_eq [OF c] unat_jam_word)
next
  case False
  then have "32 \<le> unat count" by (simp add: word_less_nat_alt)
  then have "(2::nat) ^ 32 \<le> 2 ^ unat count" by (rule power_increasing) simp
  then have "unat a < 2 ^ unat count" using unat_lt32 [of a] by simp
  with False show ?thesis by (simp add: softfloat_shift32RightJam_def jam_large unat_eq_zero)
qed

lemma unat_shift64RightJam:
  assumes "count \<noteq> 0"
  shows "unat (softfloat_shift64RightJam a count) = jam (unat count) (unat a)"
proof (cases "count < 64")
  case True
  then have c: "0 < unat count" "unat count < 64"
    using assms by (simp_all add: word_less_nat_alt unat_gt_0)
  then have neg: "neg_count count 63 = 64 - unat count" using neg_count_eq64 [of count] by simp
  have "push_bit (64 - unat count) a \<noteq> 0 \<longleftrightarrow> \<not> 2 ^ unat count dvd unat a"
    using push_bit_eq_0_iff_dvd [of "64 - unat count" a] c by simp
  then show ?thesis
    using True by (simp add: softfloat_shift64RightJam_def neg unat_jam_word)
next
  case False
  then have "64 \<le> unat count" by (simp add: word_less_nat_alt)
  then have "(2::nat) ^ 64 \<le> 2 ^ unat count" by (rule power_increasing) simp
  then have "unat a < 2 ^ unat count" using unat_lt64 [of a] by simp
  with False show ?thesis by (simp add: softfloat_shift64RightJam_def jam_large unat_eq_zero)
qed

lemma unat_shortShift64RightJam:
  assumes "count < 64"
  shows "unat (softfloat_shortShift64RightJam a count) = jam (unat count) (unat a)"
proof -
  have "a AND (push_bit (unat count) 1 - 1) = take_bit (unat count) a"
    using and_mask_take_bit [of a "unat count"] by (simp add: push_bit_of_1)
  then have "a AND (push_bit (unat count) 1 - 1) \<noteq> 0 \<longleftrightarrow> unat (take_bit (unat count) a) \<noteq> 0"
    by (simp add: unat_eq_zero)
  also have "\<dots> \<longleftrightarrow> \<not> 2 ^ unat count dvd unat a"
    by (simp only: unat_take_bit_mod dvd_eq_mod_eq_0)
  finally show ?thesis by (simp add: softfloat_shortShift64RightJam_def unat_jam_word)
qed

lemma unat_shortShift32Right1Jam:
  "unat (softfloat_shortShift32Right1Jam a) = jam 1 (unat a)"
proof -
  have "a AND 1 = of_bool (odd a)" by (simp add: and_one_eq mod_2_eq_odd)
  then have "softfloat_shortShift32Right1Jam a = drop_bit 1 a OR of_bool (odd a)"
    by (simp add: softfloat_shortShift32Right1Jam_def)
  also have "unat \<dots> = jam 1 (unat a)" by (rule unat_jam_word) (simp add: even_unat_iff)
  finally show ?thesis .
qed

text \<open>The contract of a jamming right shift, and what follows for a significand it is applied to.\<close>

locale right_jam =
  fixes shift :: "'a::len word \<Rightarrow> uint32_t \<Rightarrow> 'a word"
  assumes unat_shift: "count \<noteq> 0 \<Longrightarrow> unat (shift a count) = jam (unat count) (unat a)"
begin

lemma shift_zero_iff: "count \<noteq> 0 \<Longrightarrow> shift a count = 0 \<longleftrightarrow> a = 0"
  using unat_shift [of count a] by (metis jam_eq_0_iff unat_eq_zero)

lemma shift_less:
  assumes "count \<noteq> 0" and "unat a < 2 ^ k" and "0 < j" and "k \<le> j + unat count"
  shows "unat (shift a count) < 2 ^ j"
proof -
  have "unat a < 2 ^ j * 2 ^ unat count"
    using assms(2) power_increasing [OF assms(4), of "2::nat"] by (simp add: power_add)
  then show ?thesis using assms(1,3) by (simp add: unat_shift jam_less_even)
qed

lemma shift_agrees:
  "count \<noteq> 0 \<Longrightarrow> agrees k X (unat a) \<Longrightarrow> 1 \<le> j \<Longrightarrow> k \<le> j + unat count \<Longrightarrow>
    agrees j (X / 2 ^ unat count) (unat (shift a count))"
  by (simp add: unat_shift agrees_jam)

end

interpretation jam32: right_jam softfloat_shift32RightJam
  by unfold_locales (rule unat_shift32RightJam)

interpretation jam64: right_jam softfloat_shift64RightJam
  by unfold_locales (rule unat_shift64RightJam)

section \<open>Leading zeros\<close>

lemma clz8_table:
  "list_all (\<lambda>(i, c). 128 \<le> i * 2 ^ c \<and> i * 2 ^ c < 256) (enumerate 1 (tl softfloat_countLeadingZeros8))"
  by code_simp

lemma clz8_normalises:
  assumes "0 < i" and "i < 256"
  shows "128 \<le> i * 2 ^ (softfloat_countLeadingZeros8 ! i)" and "i * 2 ^ (softfloat_countLeadingZeros8 ! i) < 256"
proof -
  have len: "length softfloat_countLeadingZeros8 = 256" by (simp add: softfloat_countLeadingZeros8_def)
  then have "enumerate 1 (tl softfloat_countLeadingZeros8) ! (i - 1) = (i, softfloat_countLeadingZeros8 ! i)"
    using assms by (simp add: nth_enumerate_eq nth_tl)
  moreover have "enumerate 1 (tl softfloat_countLeadingZeros8) ! (i - 1) \<in> set (enumerate 1 (tl softfloat_countLeadingZeros8))"
    by (rule nth_mem) (use assms len in simp)
  ultimately show "128 \<le> i * 2 ^ (softfloat_countLeadingZeros8 ! i)" and "i * 2 ^ (softfloat_countLeadingZeros8 ! i) < 256"
    using clz8_table by (auto simp: list_all_iff)
qed

lemma clz_tail_normalises:
  assumes "a \<noteq> 0"
  obtains c where "clz_tail k a = k + int c" and "c < 32"
    and "2 ^ 31 \<le> unat a * 2 ^ c" and "unat a * 2 ^ c < 2 ^ 32"
proof -
  define c1 where "c1 = (if a < 0x10000 then 16 else 0 :: nat)"
  define a1 where "a1 = push_bit c1 a"
  define c2 where "c2 = (if a1 < 0x1000000 then 8 else 0 :: nat)"
  define a2 where "a2 = push_bit c2 a1"
  define i where "i = unat (drop_bit 24 a2)"
  define c3 where "c3 = softfloat_countLeadingZeros8 ! i"
  have u1: "unat a1 = unat a * 2 ^ c1"
    unfolding a1_def by (rule unat_push_bit_small) (use unat_lt32 [of a] in \<open>auto simp: c1_def word_less_nat_alt\<close>)
  then have l1: "2 ^ 16 \<le> unat a1"
    using assms by (auto simp: c1_def word_less_nat_alt unat_gt_0 [symmetric] Suc_le_eq)
  have u2: "unat a2 = unat a1 * 2 ^ c2"
    unfolding a2_def by (rule unat_push_bit_small) (use unat_lt32 [of a1] in \<open>auto simp: c2_def word_less_nat_alt\<close>)
  then have l2: "2 ^ 24 \<le> unat a2" using l1 by (auto simp: c2_def word_less_nat_alt)
  have i: "i = unat a2 div 2 ^ 24" by (simp add: i_def unat_drop_bit_div)
  have i0: "0 < i" "i < 256"
    using l2 unat_lt32 [of a2] by (auto simp: i div_greater_zero_iff div_less_iff_less_mult)
  have c3: "128 \<le> i * 2 ^ c3" "i * 2 ^ c3 < 256" using clz8_normalises [OF i0] by (simp_all add: c3_def)
  have c3': "c3 \<le> 7"
  proof (rule ccontr)
    assume "\<not> c3 \<le> 7"
    then have "(2::nat) ^ 8 \<le> 2 ^ c3" by (intro power_increasing) auto
    with c3(2) i0(1) show False by (cases i) auto
  qed
  have n: "unat a2 = i * 2 ^ 24 + unat a2 mod 2 ^ 24" by (simp add: i)
  have "i + 1 \<le> 2 ^ (8 - c3)"
  proof -
    have "(256::nat) = 2 ^ (8 - c3) * 2 ^ c3" using c3' by (simp flip: power_add)
    with c3(2) have "i < 2 ^ (8 - c3)" by simp
    then show ?thesis by simp
  qed
  then have "(i + 1) * 2 ^ c3 \<le> 2 ^ (8 - c3) * 2 ^ c3" by (rule mult_le_mono1)
  then have top: "(i + 1) * 2 ^ c3 \<le> 256" using c3' by (simp flip: power_add)
  have "unat a2 * 2 ^ c3 < (i + 1) * 2 ^ 24 * 2 ^ c3"
    by (subst n) (simp add: add.commute)
  also have "\<dots> = 2 ^ 24 * ((i + 1) * 2 ^ c3)" by (simp only: mult_ac)
  also have "\<dots> \<le> 2 ^ 24 * 256" using top by (rule mult_le_mono2)
  finally have hi: "unat a2 * 2 ^ c3 < 2 ^ 32" by simp
  have "128 * 2 ^ 24 \<le> i * 2 ^ c3 * 2 ^ 24" using c3(1) by (rule mult_le_mono1)
  also have "\<dots> \<le> unat a2 * 2 ^ c3" by (subst n) (simp add: algebra_simps)
  finally have lo: "2 ^ 31 \<le> unat a2 * 2 ^ c3" by simp
  have eq: "unat a2 * 2 ^ c3 = unat a * 2 ^ (c1 + c2 + c3)" by (simp add: u2 u1 power_add)
  have "clz_tail k a = k + int (c1 + c2 + c3)"
    by (simp add: clz_tail_def Let_def c1_def c2_def c3_def a1_def a2_def i_def)
  moreover have "c1 + c2 + c3 < 32" using c3' by (auto simp: c1_def c2_def)
  ultimately show thesis using lo hi eq by (intro that [of "c1 + c2 + c3"]) simp_all
qed

lemma countLeadingZeros32_normalises:
  assumes "a \<noteq> 0"
  obtains c where "softfloat_countLeadingZeros32 a = int c" and "c < 32"
    and "2 ^ 31 \<le> unat a * 2 ^ c" and "unat a * 2 ^ c < 2 ^ 32"
  using clz_tail_normalises [OF assms, of 0] unfolding softfloat_countLeadingZeros32_def by auto

lemma countLeadingZeros32_0: "softfloat_countLeadingZeros32 0 = 32"
  by (simp add: softfloat_countLeadingZeros32_def clz_tail_def softfloat_countLeadingZeros8_def)

lemma countLeadingZeros64_normalises:
  assumes "a \<noteq> 0"
  obtains c where "softfloat_countLeadingZeros64 a = int c" and "c < 64"
    and "2 ^ 63 \<le> unat a * 2 ^ c" and "unat a * 2 ^ c < 2 ^ 64"
proof (cases "0x100000000 \<le> a")
  case True
  define h :: uint32_t where "h = ucast (drop_bit 32 a)"
  have hu: "unat h = unat a div 2 ^ 32"
    using unat_lt64 [of a] by (simp add: h_def unat_ucast_mod unat_drop_bit_div div_less_iff_less_mult)
  have "2 ^ 32 \<le> unat a" using True by (simp add: word_le_nat_alt)
  then have "h \<noteq> 0" using hu by (auto simp: div_greater_zero_iff unat_gt_0 [symmetric])
  from clz_tail_normalises [OF this, of 0] obtain c where c: "clz_tail 0 h = int c" "c < 32"
    "2 ^ 31 \<le> unat h * 2 ^ c" "unat h * 2 ^ c < 2 ^ 32" by auto
  have n: "unat a = unat h * 2 ^ 32 + unat a mod 2 ^ 32" by (simp add: hu)
  have "(2::nat) ^ 32 = 2 ^ (32 - c) * 2 ^ c" using c(2) by (simp flip: power_add)
  with c(4) have "unat h * 2 ^ c < 2 ^ (32 - c) * 2 ^ c" by (simp only:)
  then have "unat h + 1 \<le> 2 ^ (32 - c)" by simp
  then have "(unat h + 1) * 2 ^ c \<le> 2 ^ (32 - c) * 2 ^ c" by (rule mult_le_mono1)
  then have top: "(unat h + 1) * 2 ^ c \<le> 2 ^ 32" using c(2) by (simp flip: power_add)
  have "unat a * 2 ^ c < (unat h + 1) * 2 ^ 32 * 2 ^ c" by (subst n) (simp add: add.commute)
  also have "\<dots> = 2 ^ 32 * ((unat h + 1) * 2 ^ c)" by (simp only: mult_ac)
  also have "\<dots> \<le> 2 ^ 32 * 2 ^ 32" using top by (rule mult_le_mono2)
  finally have hi: "unat a * 2 ^ c < 2 ^ 64" by simp
  have "2 ^ 31 * 2 ^ 32 \<le> unat h * 2 ^ c * 2 ^ 32" using c(3) by (rule mult_le_mono1)
  also have "\<dots> \<le> unat a * 2 ^ c" by (subst n) (simp add: algebra_simps)
  finally have lo: "2 ^ 63 \<le> unat a * 2 ^ c" by simp
  show thesis
    using True c(1,2) lo hi by (intro that [of c]) (simp_all add: softfloat_countLeadingZeros64_def h_def)
next
  case False
  define l :: uint32_t where "l = ucast a"
  have "unat a < 2 ^ 32" using False by (simp add: word_le_nat_alt)
  then have lu: "unat l = unat a" by (simp add: l_def unat_ucast_mod)
  then have "l \<noteq> 0" using assms by (metis unat_eq_zero)
  from clz_tail_normalises [OF this, of 32] obtain c where c: "clz_tail 32 l = 32 + int c" "c < 32"
    "2 ^ 31 \<le> unat l * 2 ^ c" "unat l * 2 ^ c < 2 ^ 32" by auto
  show thesis
    using False c lu by (intro that [of "32 + c"]) (simp_all add: softfloat_countLeadingZeros64_def l_def power_add)
qed

lemma countLeadingZeros64_0: "softfloat_countLeadingZeros64 0 = 64"
  by (simp add: softfloat_countLeadingZeros64_def clz_tail_def softfloat_countLeadingZeros8_def)

end
