(* ===== verification/Internals.thy ===== *)
theory Internals
  imports Primitives_Laws
begin

text \<open>
  The field accessors of \<^verbatim>\<open>source/internals.h\<close> for the two binary formats, and the abstract
  reading of a bit pattern: its sign, its magnitude index (the pattern without the sign
  bit) and the real number it denotes, in units of the least positive number of the
  format. The C unions \<^verbatim>\<open>ui32_f32\<close> and \<^verbatim>\<open>ui64_f64\<close> only reinterpret the single field of the structs
  \<^verbatim>\<open>float32_t\<close> and \<^verbatim>\<open>float64_t\<close>, so both types are modelled by the word itself. The interface
  \<open>float_format\<close> collects the laws of the accessors of one format.
\<close>

type_synonym float32_t = uint32_t
type_synonym float64_t = uint64_t

section \<open>The macros\<close>

definition isNaNF32UI :: "uint32_t \<Rightarrow> bool" where
  "isNaNF32UI ui \<longleftrightarrow> 0xFF000000 < push_bit 1 ui"

definition signF32UI :: "uint32_t \<Rightarrow> bool" where
  "signF32UI a \<longleftrightarrow> drop_bit 31 a \<noteq> 0"

definition expF32UI :: "uint32_t \<Rightarrow> int" where
  "expF32UI a = uint (drop_bit 23 a AND 0xFF)"

definition fracF32UI :: "uint32_t \<Rightarrow> uint32_t" where
  "fracF32UI a = a AND 0x007FFFFF"

definition packToF32UI :: "bool \<Rightarrow> int \<Rightarrow> uint32_t \<Rightarrow> uint32_t" where
  "packToF32UI sign ex sig = push_bit 31 (of_bool sign) + push_bit 23 (word_of_int ex) + sig"

definition isNaNF64UI :: "uint64_t \<Rightarrow> bool" where
  "isNaNF64UI ui \<longleftrightarrow> 0xFFE0000000000000 < push_bit 1 ui"

definition signF64UI :: "uint64_t \<Rightarrow> bool" where
  "signF64UI a \<longleftrightarrow> drop_bit 63 a \<noteq> 0"

definition expF64UI :: "uint64_t \<Rightarrow> int" where
  "expF64UI a = uint (drop_bit 52 a AND 0x7FF)"

definition fracF64UI :: "uint64_t \<Rightarrow> uint64_t" where
  "fracF64UI a = a AND 0x000FFFFFFFFFFFFF"

definition packToF64UI :: "bool \<Rightarrow> int \<Rightarrow> uint64_t \<Rightarrow> uint64_t" where
  "packToF64UI sign ex sig = push_bit 63 (of_bool sign) + push_bit 52 (word_of_int ex) + sig"

section \<open>What a bit pattern denotes\<close>

definition fl_sign :: "'a::len word \<Rightarrow> bool" where
  "fl_sign a \<longleftrightarrow> 2 ^ (LENGTH('a) - 1) \<le> unat a"

definition fl_mag :: "'a::len word \<Rightarrow> nat" where
  "fl_mag a = unat a mod 2 ^ (LENGTH('a) - 1)"

definition fl_real :: "nat \<Rightarrow> 'a::len word \<Rightarrow> real" where
  "fl_real f a = (if fl_sign a then - 1 else 1) * real (mval f (fl_mag a))"

definition fl_pack :: "bool \<Rightarrow> nat \<Rightarrow> 'a::len word" where
  "fl_pack sign m = push_bit (LENGTH('a) - 1) (of_bool sign) + of_nat m"

text \<open>
  The specification of a correctly rounded operation: \<open>r\<close> is the exact real result (in units
  of the least positive number), \<open>zs\<close> the sign of an exact zero, \<open>z\<close> the bit pattern and \<open>fl\<close> the
  flags delivered.
\<close>

definition fl_rounded ::
  "nat \<Rightarrow> nat \<Rightarrow> int8_t \<Rightarrow> int8_t \<Rightarrow> bool \<Rightarrow> real \<Rightarrow> 'a::len word \<Rightarrow> int8_t \<Rightarrow> bool" where
  "fl_rounded f E mode det zs r z fl \<longleftrightarrow>
     fl_sign z = (if r = 0 then zs else r < 0) \<and>
     round_result f E mode det (fl_sign z) \<bar>r\<bar> (fl_mag z) fl"

lemma fl_sign_pack:
  assumes "m < 2 ^ (LENGTH('a) - 1)"
  shows "fl_sign (fl_pack sign m :: 'a::len word) = sign" and "fl_mag (fl_pack sign m :: 'a word) = m"
    and "unat (fl_pack sign m :: 'a word) = of_bool sign * 2 ^ (LENGTH('a) - 1) + m"
proof -
  have p: "(2::nat) ^ LENGTH('a) = 2 * 2 ^ (LENGTH('a) - 1)"
    by (simp flip: power_Suc)
  have m: "unat (of_nat m :: 'a word) = m"
    using assms p by (simp add: unat_of_nat)
  have s: "unat (push_bit (LENGTH('a) - 1) (of_bool sign) :: 'a word) = of_bool sign * 2 ^ (LENGTH('a) - 1)"
    using p by (cases sign) (simp_all only: unat_push_bit_mod of_bool_eq unat_1 unat_0 mult_0 mod_0 mult_1 mod_less, simp)
  show u: "unat (fl_pack sign m :: 'a word) = of_bool sign * 2 ^ (LENGTH('a) - 1) + m"
    unfolding fl_pack_def
    by (subst unat_add_small; simp only: m s) (use assms p in \<open>cases sign; simp\<close>)
  show "fl_sign (fl_pack sign m :: 'a word) = sign"
    using assms by (simp add: fl_sign_def u)
  show "fl_mag (fl_pack sign m :: 'a word) = m"
    using assms by (simp add: fl_mag_def u)
qed

lemma fl_pack_unpack: "fl_pack (fl_sign a) (fl_mag a) = a" for a :: "'a::len word"
proof -
  have m: "fl_mag a < 2 ^ (LENGTH('a) - 1)" by (simp add: fl_mag_def)
  have p: "(2::nat) ^ LENGTH('a) = 2 * 2 ^ (LENGTH('a) - 1)" by (simp flip: power_Suc)
  have "unat a div 2 ^ (LENGTH('a) - 1) = of_bool (fl_sign a)"
    using unat_lt_pow [of a] p
    by (auto simp: fl_sign_def div_nat_eqI simp del: unsigned_less)
  then have "unat a = of_bool (fl_sign a) * 2 ^ (LENGTH('a) - 1) + fl_mag a"
    unfolding fl_mag_def by (metis div_mult_mod_eq)
  then have "unat (fl_pack (fl_sign a) (fl_mag a) :: 'a word) = unat a"
    using fl_sign_pack(3) [OF m, of "fl_sign a"] by simp
  then show ?thesis by (simp add: word_unat_eq_iff)
qed

lemma fl_word_eqI:
  fixes a b :: "'a::len word"
  assumes "fl_sign a = fl_sign b" and "fl_mag a = fl_mag b"
  shows "a = b"
proof -
  have "a = fl_pack (fl_sign a) (fl_mag a)" by (rule fl_pack_unpack [symmetric])
  also have "\<dots> = b" unfolding assms by (rule fl_pack_unpack)
  finally show ?thesis .
qed

section \<open>The laws of a format\<close>

locale float_format =
  fixes f E :: nat
    and signUI :: "'a::len word \<Rightarrow> bool"
    and expUI :: "'a word \<Rightarrow> int"
    and fracUI :: "'a word \<Rightarrow> 'a word"
    and packUI :: "bool \<Rightarrow> int \<Rightarrow> 'a word \<Rightarrow> 'a word"
  assumes f_pos: "0 < f"
    and width: "Suc E * 2 ^ f = 2 ^ (LENGTH('a) - 1)"
    and sign_law: "signUI a = fl_sign a"
    and mag_law: "fl_mag a = nat (expUI a) * 2 ^ f + unat (fracUI a)"
    and exp_range: "0 \<le> expUI a" "expUI a \<le> int E"
    and frac_range: "unat (fracUI a) < 2 ^ f"
    and pack_law: "0 \<le> ex \<Longrightarrow> nat ex * 2 ^ f + unat sig < 2 ^ (LENGTH('a) - 1) \<Longrightarrow>
          packUI sign ex sig = fl_pack sign (nat ex * 2 ^ f + unat sig)"
begin

text \<open>The classes of patterns, by exponent field.\<close>

lemma finite_iff: "fl_mag a < E * 2 ^ f \<longleftrightarrow> expUI a < int E"
proof -
  have "nat (expUI a) * 2 ^ f + unat (fracUI a) < E * 2 ^ f + 0 \<longleftrightarrow> nat (expUI a) < E"
    using digit_less [of "unat (fracUI a)" "2 ^ f" 0 "nat (expUI a)" E] frac_range by simp
  then show ?thesis using exp_range(1) [of a] by (simp add: mag_law zless_nat_eq_int_zless nat_less_iff)
qed

lemma inf_iff: "fl_mag a = E * 2 ^ f \<longleftrightarrow> expUI a = int E \<and> fracUI a = 0"
proof -
  have "nat (expUI a) * 2 ^ f + unat (fracUI a) = E * 2 ^ f + 0 \<longleftrightarrow> nat (expUI a) = E \<and> unat (fracUI a) = 0"
    by (rule digit_eq) (simp_all add: frac_range)
  then show ?thesis using exp_range(1) [of a] by (auto simp: mag_law unat_eq_zero)
qed

lemma nan_iff: "E * 2 ^ f < fl_mag a \<longleftrightarrow> expUI a = int E \<and> fracUI a \<noteq> 0"
  using finite_iff [of a] inf_iff [of a] exp_range(2) [of a] by auto

lemma zero_iff: "fl_mag a = 0 \<longleftrightarrow> expUI a = 0 \<and> fracUI a = 0"
  using exp_range(1) [of a] by (auto simp: mag_law unat_eq_zero)

text \<open>The magnitude as an integer significand times a power of two.\<close>

lemma mval_subnormal: "expUI a = 0 \<Longrightarrow> mval f (fl_mag a) = unat (fracUI a)"
  using frac_range [of a] by (simp add: mag_law mval_def)

lemma mval_normal:
  assumes "0 < expUI a"
  shows "mval f (fl_mag a) = (2 ^ f + unat (fracUI a)) * 2 ^ (nat (expUI a) - 1)"
proof -
  have "fl_mag a = (nat (expUI a) - 1) * 2 ^ f + (2 ^ f + unat (fracUI a))"
    using assms by (cases "nat (expUI a)") (simp_all add: mag_law)
  then show ?thesis using mval_scaled [of "nat (expUI a) - 1" f "2 ^ f + unat (fracUI a)"] frac_range [of a] by simp
qed

lemma pack_sign_mag:
  assumes "0 \<le> ex" and "nat ex * 2 ^ f + unat sig < 2 ^ (LENGTH('a) - 1)"
  shows "fl_sign (packUI sign ex sig) = sign" and "fl_mag (packUI sign ex sig) = nat ex * 2 ^ f + unat sig"
  using assms by (simp_all add: pack_law fl_sign_pack)

lemma unpack_pack: "packUI (signUI a) (expUI a) (fracUI a) = a"
proof -
  have "fl_mag a < 2 ^ (LENGTH('a) - 1)" by (simp add: fl_mag_def)
  then show ?thesis
    using pack_law [of "expUI a" "fracUI a" "signUI a"] exp_range(1) [of a]
    by (simp add: mag_law [symmetric] sign_law fl_pack_unpack)
qed

end

section \<open>The two formats\<close>

lemma field_split:
  fixes a :: "'a::len word"
  shows "unat a mod 2 ^ (k + f) = (unat a div 2 ^ f) mod 2 ^ k * 2 ^ f + unat a mod 2 ^ f"
  by (simp add: power_add mult.commute mod_mult2_eq)

lemma sign_div:
  fixes a :: "'a::len word"
  shows "drop_bit (LENGTH('a) - 1) a \<noteq> 0 \<longleftrightarrow> fl_sign a"
  by (simp add: fl_sign_def unat_eq_zero [symmetric] unat_drop_bit_div div_eq_0_iff not_less
      del: unat_eq_zero)

lemma pack_fields:
  fixes sig :: "'a::len word"
  assumes "0 \<le> ex" and "nat ex * 2 ^ f + unat sig < 2 ^ (LENGTH('a) - 1)"
  shows "push_bit (LENGTH('a) - 1) (of_bool sign) + push_bit f (word_of_int ex) + sig =
     fl_pack sign (nat ex * 2 ^ f + unat sig)"
proof -
  have "push_bit f (word_of_int ex) + sig = (of_nat (nat ex * 2 ^ f + unat sig) :: 'a word)"
    using assms(1) by (simp add: push_bit_eq_mult of_nat_nat)
  then show ?thesis by (simp add: fl_pack_def add.assoc)
qed

interpretation f32: float_format 23 255 signF32UI expF32UI fracF32UI packToF32UI
proof
  fix a :: uint32_t
  have e: "expF32UI a = int (unat a div 2 ^ 23 mod 2 ^ 8)"
    using and_mask_take_bit [of "drop_bit 23 a" 8]
    by (simp add: expF32UI_def uint_nat [of "take_bit _ _"] unat_take_bit_mod unat_drop_bit_div)
  have fr: "unat (fracF32UI a) = unat a mod 2 ^ 23"
    using and_mask_take_bit [of a 23] by (simp add: fracF32UI_def unat_take_bit_mod)
  show "signF32UI a = fl_sign a" using sign_div [of a] by (simp add: signF32UI_def)
  show "fl_mag a = nat (expF32UI a) * 2 ^ 23 + unat (fracF32UI a)"
    using field_split [of a 8 23] by (simp add: fl_mag_def e fr)
  show "0 \<le> expF32UI a" "expF32UI a \<le> int 255" "unat (fracF32UI a) < 2 ^ 23"
    by (simp_all add: e fr)
next
  fix ex sign and sig :: uint32_t
  assume "0 \<le> ex" "nat ex * 2 ^ 23 + unat sig < 2 ^ (LENGTH(32) - 1)"
  then show "packToF32UI sign ex sig = fl_pack sign (nat ex * 2 ^ 23 + unat sig)"
    using pack_fields [of ex 23 sig sign] by (simp add: packToF32UI_def)
qed simp_all

interpretation f64: float_format 52 2047 signF64UI expF64UI fracF64UI packToF64UI
proof
  fix a :: uint64_t
  have e: "expF64UI a = int (unat a div 2 ^ 52 mod 2 ^ 11)"
    using and_mask_take_bit [of "drop_bit 52 a" 11]
    by (simp add: expF64UI_def uint_nat [of "take_bit _ _"] unat_take_bit_mod unat_drop_bit_div)
  have fr: "unat (fracF64UI a) = unat a mod 2 ^ 52"
    using and_mask_take_bit [of a 52] by (simp add: fracF64UI_def unat_take_bit_mod)
  show "signF64UI a = fl_sign a" using sign_div [of a] by (simp add: signF64UI_def)
  show "fl_mag a = nat (expF64UI a) * 2 ^ 52 + unat (fracF64UI a)"
    using field_split [of a 11 52] by (simp add: fl_mag_def e fr)
  show "0 \<le> expF64UI a" "expF64UI a \<le> int 2047" "unat (fracF64UI a) < 2 ^ 52"
    by (simp_all add: e fr)
next
  fix ex sign and sig :: uint64_t
  assume "0 \<le> ex" "nat ex * 2 ^ 52 + unat sig < 2 ^ (LENGTH(64) - 1)"
  then show "packToF64UI sign ex sig = fl_pack sign (nat ex * 2 ^ 52 + unat sig)"
    using pack_fields [of ex 52 sig sign] by (simp add: packToF64UI_def)
qed simp_all

end
