(* ===== verification/Specialize.thy ===== *)
theory Specialize
  imports Internals
begin

text \<open>
  The 8086 specialisation (\<^verbatim>\<open>source/8086\<close>): default NaNs, the signalling test, the choice
  of the NaN an operation returns, and the transfer of NaNs between formats through the
  structure \<^verbatim>\<open>commonNaN\<close>. The interface \<open>nan_handling\<close> states what the arithmetic routines rely
  on for one format; it is interpreted on the routines of both formats.
\<close>

section \<open>The routines\<close>

record commonNaN =
  cn_sign :: bool
  cn_v64 :: uint64_t
  cn_v0 :: uint64_t

definition defaultNaNF32UI :: uint32_t where
  "defaultNaNF32UI = 0xFFC00000"

definition defaultNaNF64UI :: uint64_t where
  "defaultNaNF64UI = 0xFFF8000000000000"

definition softfloat_isSigNaNF32UI :: "uint32_t \<Rightarrow> bool" where
  "softfloat_isSigNaNF32UI ui \<longleftrightarrow> drop_bit 22 ui AND 0x1FF = 0x1FE \<and> ui AND 0x003FFFFF \<noteq> 0"

definition softfloat_isSigNaNF64UI :: "uint64_t \<Rightarrow> bool" where
  "softfloat_isSigNaNF64UI ui \<longleftrightarrow>
     drop_bit 51 ui AND 0xFFF = 0xFFE \<and> ui AND 0x0007FFFFFFFFFFFF \<noteq> 0"

definition softfloat_f32UIToCommonNaN :: "uint32_t \<Rightarrow> fp_state \<Rightarrow> commonNaN \<times> fp_state" where
  "softfloat_f32UIToCommonNaN uiA s =
     (let s = (if softfloat_isSigNaNF32UI uiA then softfloat_raiseFlags softfloat_flag_invalid s else s)
      in (\<lparr>cn_sign = (drop_bit 31 uiA \<noteq> 0), cn_v64 = push_bit 41 (ucast uiA), cn_v0 = 0\<rparr>, s))"

definition softfloat_f64UIToCommonNaN :: "uint64_t \<Rightarrow> fp_state \<Rightarrow> commonNaN \<times> fp_state" where
  "softfloat_f64UIToCommonNaN uiA s =
     (let s = (if softfloat_isSigNaNF64UI uiA then softfloat_raiseFlags softfloat_flag_invalid s else s)
      in (\<lparr>cn_sign = (drop_bit 63 uiA \<noteq> 0), cn_v64 = push_bit 12 uiA, cn_v0 = 0\<rparr>, s))"

definition softfloat_commonNaNToF32UI :: "commonNaN \<Rightarrow> uint32_t" where
  "softfloat_commonNaNToF32UI a =
     push_bit 31 (of_bool (cn_sign a)) OR 0x7FC00000 OR ucast (drop_bit 41 (cn_v64 a))"

definition softfloat_commonNaNToF64UI :: "commonNaN \<Rightarrow> uint64_t" where
  "softfloat_commonNaNToF64UI a =
     push_bit 63 (of_bool (cn_sign a)) OR 0x7FF8000000000000 OR drop_bit 12 (cn_v64 a)"

text \<open>The label \<^verbatim>\<open>returnLargerSignificand\<close>, reached from two branches, is a local definition.\<close>

definition softfloat_propagateNaNF32UI ::
  "uint32_t \<Rightarrow> uint32_t \<Rightarrow> fp_state \<Rightarrow> uint32_t \<times> fp_state" where
  "softfloat_propagateNaNF32UI uiA uiB s =
     (let isNaNA = isNaNF32UI uiA;
          isSigNaNA = softfloat_isSigNaNF32UI uiA;
          isNaNB = isNaNF32UI uiB;
          isSigNaNB = softfloat_isSigNaNF32UI uiB;
          uiA = uiA OR 0x00400000;
          uiB = uiB OR 0x00400000;
          s = (if isSigNaNA \<or> isSigNaNB then softfloat_raiseFlags softfloat_flag_invalid s else s);
          returnLargerSignificand =
            (let uiMagA = push_bit 1 uiA;
                 uiMagB = push_bit 1 uiB
             in if uiMagA < uiMagB then uiB
                else if uiMagB < uiMagA then uiA
                else if uiA < uiB then uiA else uiB)
      in (if isSigNaNA
          then (if isSigNaNB then returnLargerSignificand else if isNaNB then uiB else uiA)
          else if isNaNA
          then (if isSigNaNB \<or> \<not> isNaNB then uiA else returnLargerSignificand)
          else uiB, s))"

definition softfloat_propagateNaNF64UI ::
  "uint64_t \<Rightarrow> uint64_t \<Rightarrow> fp_state \<Rightarrow> uint64_t \<times> fp_state" where
  "softfloat_propagateNaNF64UI uiA uiB s =
     (let isNaNA = isNaNF64UI uiA;
          isSigNaNA = softfloat_isSigNaNF64UI uiA;
          isNaNB = isNaNF64UI uiB;
          isSigNaNB = softfloat_isSigNaNF64UI uiB;
          uiA = uiA OR 0x0008000000000000;
          uiB = uiB OR 0x0008000000000000;
          s = (if isSigNaNA \<or> isSigNaNB then softfloat_raiseFlags softfloat_flag_invalid s else s);
          returnLargerSignificand =
            (let uiMagA = uiA AND 0x7FFFFFFFFFFFFFFF;
                 uiMagB = uiB AND 0x7FFFFFFFFFFFFFFF
             in if uiMagA < uiMagB then uiB
                else if uiMagB < uiMagA then uiA
                else if uiA < uiB then uiA else uiB)
      in (if isSigNaNA
          then (if isSigNaNB then returnLargerSignificand else if isNaNB then uiB else uiA)
          else if isNaNA
          then (if isSigNaNB \<or> \<not> isNaNB then uiA else returnLargerSignificand)
          else uiB, s))"

section \<open>NaNs by magnitude\<close>

definition fl_nan :: "nat \<Rightarrow> nat \<Rightarrow> 'a::len word \<Rightarrow> bool" where
  "fl_nan f E a \<longleftrightarrow> E * 2 ^ f < fl_mag a"

definition fl_snan :: "nat \<Rightarrow> nat \<Rightarrow> 'a::len word \<Rightarrow> bool" where
  "fl_snan f E a \<longleftrightarrow> E * 2 ^ f < fl_mag a \<and> fl_mag a < E * 2 ^ f + 2 ^ (f - 1)"

definition fl_quiet :: "nat \<Rightarrow> 'a::len word \<Rightarrow> 'a word" where
  "fl_quiet f a = a OR push_bit (f - 1) 1"

definition fl_larger :: "'a::len word \<Rightarrow> 'a word \<Rightarrow> 'a word" where
  "fl_larger a b = (if fl_mag a < fl_mag b then b else if fl_mag b < fl_mag a then a else min a b)"

lemma fl_snan_nan: "fl_snan f E a \<Longrightarrow> fl_nan f E a"
  by (simp add: fl_snan_def fl_nan_def)

lemma fl_larger_commute: "fl_larger a b = fl_larger b a"
  by (auto simp: fl_larger_def min.commute)

lemma mag_div_pow:
  fixes a :: "'a::len word"
  assumes "k < LENGTH('a)"
  shows "fl_mag a div 2 ^ k = unat a div 2 ^ k mod 2 ^ (LENGTH('a) - 1 - k)"
proof -
  have "(2::nat) ^ (LENGTH('a) - 1) = 2 ^ k * 2 ^ (LENGTH('a) - 1 - k)"
    using assms by (simp flip: power_add)
  then show ?thesis unfolding fl_mag_def by (simp add: mod_mult2_eq)
qed

lemma bit_mag:
  fixes a :: "'a::len word"
  assumes "k < LENGTH('a) - 1"
  shows "bit a k \<longleftrightarrow> odd (fl_mag a div 2 ^ k)"
proof -
  have "LENGTH('a) - 1 - k \<noteq> 0" using assms by simp
  moreover have "bit a k \<longleftrightarrow> odd (unat a div 2 ^ k)"
    by (simp add: bit_iff_odd_drop_bit even_unat_iff flip: unat_drop_bit_div)
  ultimately show ?thesis using assms by (simp add: mag_div_pow dvd_mod_iff)
qed

lemma or_ge_nat: "m \<le> m OR n" for m n :: nat
  using or_greater_eq [of "int n" "int m"] by (simp flip: of_nat_or_eq)

lemma fl_quiet_laws:
  fixes a :: "'a::len word"
  assumes f: "0 < f" and E: "0 < E" and w: "Suc E * 2 ^ f = 2 ^ (LENGTH('a) - 1)" and n: "fl_nan f E a"
  shows "fl_nan f E (fl_quiet f a)" and "\<not> fl_snan f E (fl_quiet f a)" and "fl_sign (fl_quiet f a) = fl_sign a"
proof -
  let ?n = "LENGTH('a) - 1"
  have "(2::nat) ^ f < 2 ^ ?n"
    unfolding w [symmetric] using E by simp
  then have fn: "f < ?n" by simp
  have "fl_mag (fl_quiet f a) = fl_mag a OR take_bit ?n (unat (push_bit (f - 1) 1 :: 'a word))"
    by (simp add: fl_mag_def fl_quiet_def unsigned_or_eq take_bit_eq_mod [symmetric])
  then have "fl_mag a \<le> fl_mag (fl_quiet f a)" by (simp add: or_ge_nat)
  with n show "fl_nan f E (fl_quiet f a)" by (simp add: fl_nan_def)
  have "bit (fl_quiet f a) (f - 1)" using fn by (auto simp: fl_quiet_def bit_or_iff bit_exp_iff)
  then have odd: "odd (fl_mag (fl_quiet f a) div 2 ^ (f - 1))" using fn by (subst bit_mag [symmetric]) auto
  show "\<not> fl_snan f E (fl_quiet f a)"
  proof
    assume "fl_snan f E (fl_quiet f a)"
    then have "2 * E * 2 ^ (f - 1) \<le> fl_mag (fl_quiet f a)" "fl_mag (fl_quiet f a) < Suc (2 * E) * 2 ^ (f - 1)"
      using f by (cases f; simp add: fl_snan_def)+
    then have "fl_mag (fl_quiet f a) div 2 ^ (f - 1) = 2 * E"
      by (intro div_nat_eqI) (simp_all add: mult.commute)
    with odd show False by simp
  qed
  have sg: "fl_sign x \<longleftrightarrow> bit x ?n" for x :: "'a word"
    using sign_div [of x] by (simp add: drop_bit_eq_zero_iff_not_bit_last)
  have "?n \<noteq> f - 1" using fn by linarith
  then show "fl_sign (fl_quiet f a) = fl_sign a"
    by (simp add: sg fl_quiet_def bit_or_iff bit_exp_iff)
qed

section \<open>The contract of the NaN routines of one format\<close>

locale nan_handling = float_format f E signUI expUI fracUI packUI
  for f E :: nat
    and signUI :: "'a::len word \<Rightarrow> bool"
    and expUI :: "'a word \<Rightarrow> int"
    and fracUI :: "'a word \<Rightarrow> 'a word"
    and packUI :: "bool \<Rightarrow> int \<Rightarrow> 'a word \<Rightarrow> 'a word" +
  fixes isNaNUI isSigNaNUI :: "'a word \<Rightarrow> bool"
    and propagate :: "'a word \<Rightarrow> 'a word \<Rightarrow> fp_state \<Rightarrow> 'a word \<times> fp_state"
    and defaultNaN :: "'a word"
  assumes E_pos: "0 < E"
    and isNaN_law: "isNaNUI a = fl_nan f E a"
    and isSigNaN_law: "isSigNaNUI a = fl_snan f E a"
    and propagate_law: "propagate a b s =
      (if fl_snan f E a
       then (if fl_snan f E b then fl_larger (fl_quiet f a) (fl_quiet f b)
             else if fl_nan f E b then fl_quiet f b else fl_quiet f a)
       else if fl_nan f E a
       then (if fl_snan f E b \<or> \<not> fl_nan f E b then fl_quiet f a
             else fl_larger (fl_quiet f a) (fl_quiet f b))
       else fl_quiet f b,
       if fl_snan f E a \<or> fl_snan f E b then softfloat_raiseFlags softfloat_flag_invalid s else s)"
    and default_law: "fl_nan f E defaultNaN" "\<not> fl_snan f E defaultNaN"
begin

lemma propagate_operand:
  assumes "fl_nan f E a \<or> fl_nan f E b"
  shows "fst (propagate a b s) = fl_quiet f a \<and> fl_nan f E a \<or> fst (propagate a b s) = fl_quiet f b \<and> fl_nan f E b"
  using assms fl_snan_nan [of f E a] fl_snan_nan [of f E b]
  by (auto simp: propagate_law fl_larger_def min_def)

lemma propagate_quiet:
  assumes "fl_nan f E a \<or> fl_nan f E b"
  shows "fl_nan f E (fst (propagate a b s))" and "\<not> fl_snan f E (fst (propagate a b s))"
  using propagate_operand [OF assms, of s] fl_quiet_laws [OF f_pos E_pos width] by auto

lemma propagate_flags:
  "snd (propagate a b s) =
    (if isSigNaNUI a \<or> isSigNaNUI b then softfloat_raiseFlags softfloat_flag_invalid s else s)"
  by (simp add: propagate_law isSigNaN_law)

lemma propagate_commute:
  assumes "fl_nan f E a \<or> fl_nan f E b"
  shows "propagate a b s = propagate b a s"
  using assms fl_snan_nan [of f E a] fl_snan_nan [of f E b]
  by (auto simp: propagate_law fl_larger_commute)

lemma isNaN_fields: "isNaNUI a \<longleftrightarrow> expUI a = int E \<and> fracUI a \<noteq> 0"
  using nan_iff [of a] by (simp add: isNaN_law fl_nan_def)

end

section \<open>Both formats\<close>

lemma mag_shift: "unat (push_bit 1 a) = 2 * fl_mag a" for a :: "'a::len word"
proof -
  have "(2::nat) ^ LENGTH('a) = 2 ^ (LENGTH('a) - 1) * 2" by (simp flip: power_Suc2)
  then have "unat a * 2 ^ 1 mod 2 ^ LENGTH('a) = fl_mag a * 2"
    by (simp only: power_one_right fl_mag_def mult_mod_left)
  then show ?thesis unfolding unat_push_bit_mod by simp
qed

lemma isNaNF32UI_law: "isNaNF32UI a = fl_nan 23 255 a"
  unfolding isNaNF32UI_def word_less_nat_alt mag_shift by (simp add: fl_nan_def)

lemma isNaNF64UI_law: "isNaNF64UI a = fl_nan 52 2047 a"
  unfolding isNaNF64UI_def word_less_nat_alt mag_shift by (simp add: fl_nan_def)

lemma snan_arith:
  fixes m :: nat
  shows "m div 2 ^ k = 2 * E \<and> m mod 2 ^ k \<noteq> 0 \<longleftrightarrow> E * 2 ^ Suc k < m \<and> m < E * 2 ^ Suc k + 2 ^ k"
proof -
  have "m div 2 ^ k = 2 * E \<longleftrightarrow> 2 * E * 2 ^ k \<le> m \<and> m < Suc (2 * E) * 2 ^ k"
    using less_eq_div_iff_mult_less_eq [of "2 ^ k" "2 * E" m] div_less_iff_less_mult [of "2 ^ k" m "Suc (2 * E)"]
    by (metis less_Suc_eq_le order_antisym order_refl zero_less_power pos2)
  moreover have "m mod 2 ^ k = 0 \<longleftrightarrow> m = 2 * E * 2 ^ k" if "m div 2 ^ k = 2 * E"
    using that by (metis add_0_right div_mult_mod_eq mod_mult_self2_is_0)
  ultimately show ?thesis by (auto simp: le_less)
qed

lemma isSigNaNF32UI_law: "softfloat_isSigNaNF32UI a = fl_snan 23 255 a"
proof -
  have "drop_bit 22 a AND 0x1FF = 0x1FE \<longleftrightarrow> fl_mag a div 2 ^ 22 = 2 * 255"
    using and_mask_take_bit [of "drop_bit 22 a" 9] mag_div_pow [of 22 a]
    by (simp add: word_unat_eq_iff unat_take_bit_mod unat_drop_bit_div)
  moreover have "a AND 0x003FFFFF \<noteq> 0 \<longleftrightarrow> fl_mag a mod 2 ^ 22 \<noteq> 0"
    using and_mask_take_bit [of a 22]
    by (simp add: word_unat_eq_iff unat_take_bit_mod fl_mag_def mod_mod_cancel)
  ultimately show ?thesis
    using snan_arith [of "fl_mag a" 22 255] unfolding softfloat_isSigNaNF32UI_def fl_snan_def by simp
qed

lemma isSigNaNF64UI_law: "softfloat_isSigNaNF64UI a = fl_snan 52 2047 a"
proof -
  have "drop_bit 51 a AND 0xFFF = 0xFFE \<longleftrightarrow> fl_mag a div 2 ^ 51 = 2 * 2047"
    using and_mask_take_bit [of "drop_bit 51 a" 12] mag_div_pow [of 51 a]
    by (simp add: word_unat_eq_iff unat_take_bit_mod unat_drop_bit_div)
  moreover have "a AND 0x0007FFFFFFFFFFFF \<noteq> 0 \<longleftrightarrow> fl_mag a mod 2 ^ 51 \<noteq> 0"
    using and_mask_take_bit [of a 51]
    by (simp add: word_unat_eq_iff unat_take_bit_mod fl_mag_def mod_mod_cancel)
  ultimately show ?thesis
    using snan_arith [of "fl_mag a" 51 2047] unfolding softfloat_isSigNaNF64UI_def fl_snan_def by simp
qed

lemma magF64_mask: "unat (a AND 0x7FFFFFFFFFFFFFFF) = fl_mag a" for a :: uint64_t
  using and_mask_take_bit [of a 63] by (simp add: fl_mag_def unat_take_bit_mod)

interpretation nan32: nan_handling 23 255 signF32UI expF32UI fracF32UI packToF32UI
  isNaNF32UI softfloat_isSigNaNF32UI softfloat_propagateNaNF32UI defaultNaNF32UI
proof
  fix a b :: uint32_t and s
  have q: "x OR 0x00400000 = fl_quiet 23 x" for x :: uint32_t by (simp add: fl_quiet_def)
  have l: "(if push_bit 1 x < push_bit 1 y then y else if push_bit 1 y < push_bit 1 x then x
      else if x < y then x else y) = fl_larger x y" for x y :: uint32_t
    unfolding word_less_nat_alt [of "push_bit 1 _"] mag_shift by (auto simp: fl_larger_def min_def)
  show "softfloat_propagateNaNF32UI a b s =
      (if fl_snan 23 255 a
       then (if fl_snan 23 255 b then fl_larger (fl_quiet 23 a) (fl_quiet 23 b)
             else if fl_nan 23 255 b then fl_quiet 23 b else fl_quiet 23 a)
       else if fl_nan 23 255 a
       then (if fl_snan 23 255 b \<or> \<not> fl_nan 23 255 b then fl_quiet 23 a
             else fl_larger (fl_quiet 23 a) (fl_quiet 23 b))
       else fl_quiet 23 b,
       if fl_snan 23 255 a \<or> fl_snan 23 255 b then softfloat_raiseFlags softfloat_flag_invalid s else s)"
    unfolding softfloat_propagateNaNF32UI_def Let_def isNaNF32UI_law isSigNaNF32UI_law q l ..
qed (simp_all add: isNaNF32UI_law isSigNaNF32UI_law defaultNaNF32UI_def fl_nan_def fl_snan_def fl_mag_def)

interpretation nan64: nan_handling 52 2047 signF64UI expF64UI fracF64UI packToF64UI
  isNaNF64UI softfloat_isSigNaNF64UI softfloat_propagateNaNF64UI defaultNaNF64UI
proof
  fix a b :: uint64_t and s
  have q: "x OR 0x0008000000000000 = fl_quiet 52 x" for x :: uint64_t by (simp add: fl_quiet_def)
  have l: "(if x AND 0x7FFFFFFFFFFFFFFF < y AND 0x7FFFFFFFFFFFFFFF then y
      else if y AND 0x7FFFFFFFFFFFFFFF < x AND 0x7FFFFFFFFFFFFFFF then x
      else if x < y then x else y) = fl_larger x y" for x y :: uint64_t
    unfolding word_less_nat_alt [of "_ AND 0x7FFFFFFFFFFFFFFF"] magF64_mask by (auto simp: fl_larger_def min_def)
  show "softfloat_propagateNaNF64UI a b s =
      (if fl_snan 52 2047 a
       then (if fl_snan 52 2047 b then fl_larger (fl_quiet 52 a) (fl_quiet 52 b)
             else if fl_nan 52 2047 b then fl_quiet 52 b else fl_quiet 52 a)
       else if fl_nan 52 2047 a
       then (if fl_snan 52 2047 b \<or> \<not> fl_nan 52 2047 b then fl_quiet 52 a
             else fl_larger (fl_quiet 52 a) (fl_quiet 52 b))
       else fl_quiet 52 b,
       if fl_snan 52 2047 a \<or> fl_snan 52 2047 b then softfloat_raiseFlags softfloat_flag_invalid s else s)"
    unfolding softfloat_propagateNaNF64UI_def Let_def isNaNF64UI_law isSigNaNF64UI_law q l ..
qed (simp_all add: isNaNF64UI_law isSigNaNF64UI_law defaultNaNF64UI_def fl_nan_def fl_snan_def fl_mag_def)

end
