(* ===== verification/Round_Pack.thy ===== *)
theory Round_Pack
  imports Specialize
begin

text \<open>
  Normalising, rounding and packing (\<^verbatim>\<open>source/s_normSubnormalF*Sig.c\<close>, \<^verbatim>\<open>s_roundPackToF*.c\<close>,
  \<^verbatim>\<open>s_normRoundPackToF*.c\<close>). The main results refine the two \<^verbatim>\<open>roundPackToF\<close> routines to
  \<^const>\<open>gen_round_pack\<close> and through it to the rounding specification \<^const>\<open>round_result\<close>. The interface
  \<open>round_pack\<close> is the contract the arithmetic routines of a format rely on.
\<close>

section \<open>The routines\<close>

record exp16_sig32 =
  es32_exp :: int
  es32_sig :: uint32_t

record exp16_sig64 =
  es64_exp :: int
  es64_sig :: uint64_t

definition softfloat_normSubnormalF32Sig :: "uint32_t \<Rightarrow> exp16_sig32" where
  "softfloat_normSubnormalF32Sig sig =
     (let shiftCount = softfloat_countLeadingZeros32 sig - 8
      in \<lparr>es32_exp = 1 - shiftCount, es32_sig = push_bit (nat shiftCount) sig\<rparr>)"

definition softfloat_normSubnormalF64Sig :: "uint64_t \<Rightarrow> exp16_sig64" where
  "softfloat_normSubnormalF64Sig sig =
     (let shiftCount = softfloat_countLeadingZeros64 sig - 11
      in \<lparr>es64_exp = 1 - shiftCount, es64_sig = push_bit (nat shiftCount) sig\<rparr>)"

definition softfloat_roundPackToF32 ::
  "bool \<Rightarrow> int \<Rightarrow> uint32_t \<Rightarrow> fp_state \<Rightarrow> float32_t \<times> fp_state" where
  "softfloat_roundPackToF32 sign ex sig s =
     (let roundingMode = softfloat_roundingMode s;
          roundNearestEven = (roundingMode = softfloat_round_nearest_even);
          roundIncrement = (0x40 :: uint32_t);
          roundIncrement =
            (if \<not> roundNearestEven \<and> roundingMode \<noteq> softfloat_round_nearest_maxMag
             then (if roundingMode = softfloat_round_minMag
                      \<or> roundingMode = (if sign then softfloat_round_max else softfloat_round_min)
                   then 0 else 0x7F)
             else roundIncrement);
          roundBits = sig AND 0x7F;
          pack = (\<lambda>ex sig roundBits s.
            let s = (if roundBits \<noteq> 0 then orFlags softfloat_flag_inexact s else s);
                sig = drop_bit 7 (sig + roundIncrement);
                sig = sig AND NOT (of_bool (roundBits XOR 0x40 = 0 \<and> roundNearestEven))
            in (packToF32UI sign (if sig \<noteq> 0 then ex else 0) sig, s))
      in if 0xFD \<le> (word_of_int ex :: uint16_t)
         then if ex < 0
              then
                let isTiny = (softfloat_detectTininess s = softfloat_tininess_beforeRounding
                              \<or> ex < -1 \<or> sig + roundIncrement < 0x80000000);
                    sig = softfloat_shift32RightJam sig (word_of_int (- ex));
                    roundBits = sig AND 0x7F;
                    s = (if isTiny \<and> roundBits \<noteq> 0
                         then softfloat_raiseFlags softfloat_flag_underflow s else s)
                in pack 0 sig roundBits s
              else if 0xFD < ex \<or> 0x80000000 \<le> sig + roundIncrement
              then
                let s = softfloat_raiseFlags (softfloat_flag_overflow OR softfloat_flag_inexact) s
                in (packToF32UI sign 0xFF 0 - of_bool (roundIncrement = 0), s)
              else pack ex sig roundBits s
         else pack ex sig roundBits s)"

definition softfloat_roundPackToF64 ::
  "bool \<Rightarrow> int \<Rightarrow> uint64_t \<Rightarrow> fp_state \<Rightarrow> float64_t \<times> fp_state" where
  "softfloat_roundPackToF64 sign ex sig s =
     (let roundingMode = softfloat_roundingMode s;
          roundNearestEven = (roundingMode = softfloat_round_nearest_even);
          roundIncrement = (0x200 :: uint64_t);
          roundIncrement =
            (if \<not> roundNearestEven \<and> roundingMode \<noteq> softfloat_round_nearest_maxMag
             then (if roundingMode = softfloat_round_minMag
                      \<or> roundingMode = (if sign then softfloat_round_max else softfloat_round_min)
                   then 0 else 0x3FF)
             else roundIncrement);
          roundBits = sig AND 0x3FF;
          pack = (\<lambda>ex sig roundBits s.
            let s = (if roundBits \<noteq> 0 then orFlags softfloat_flag_inexact s else s);
                sig = drop_bit 10 (sig + roundIncrement);
                sig = sig AND NOT (of_bool (roundBits XOR 0x200 = 0 \<and> roundNearestEven))
            in (packToF64UI sign (if sig \<noteq> 0 then ex else 0) sig, s))
      in if 0x7FD \<le> (word_of_int ex :: uint16_t)
         then if ex < 0
              then
                let isTiny = (softfloat_detectTininess s = softfloat_tininess_beforeRounding
                              \<or> ex < -1 \<or> sig + roundIncrement < 0x8000000000000000);
                    sig = softfloat_shift64RightJam sig (word_of_int (- ex));
                    roundBits = sig AND 0x3FF;
                    s = (if isTiny \<and> roundBits \<noteq> 0
                         then softfloat_raiseFlags softfloat_flag_underflow s else s)
                in pack 0 sig roundBits s
              else if 0x7FD < ex \<or> 0x8000000000000000 \<le> sig + roundIncrement
              then
                let s = softfloat_raiseFlags (softfloat_flag_overflow OR softfloat_flag_inexact) s
                in (packToF64UI sign 0x7FF 0 - of_bool (roundIncrement = 0), s)
              else pack ex sig roundBits s
         else pack ex sig roundBits s)"

definition softfloat_normRoundPackToF32 ::
  "bool \<Rightarrow> int \<Rightarrow> uint32_t \<Rightarrow> fp_state \<Rightarrow> float32_t \<times> fp_state" where
  "softfloat_normRoundPackToF32 sign ex sig s =
     (let shiftCount = softfloat_countLeadingZeros32 sig - 1;
          ex = ex - shiftCount
      in if 7 \<le> shiftCount \<and> (word_of_int ex :: uint16_t) < 0xFD
         then (packToF32UI sign (if sig \<noteq> 0 then ex else 0) (push_bit (nat (shiftCount - 7)) sig), s)
         else softfloat_roundPackToF32 sign ex (push_bit (nat shiftCount) sig) s)"

definition softfloat_normRoundPackToF64 ::
  "bool \<Rightarrow> int \<Rightarrow> uint64_t \<Rightarrow> fp_state \<Rightarrow> float64_t \<times> fp_state" where
  "softfloat_normRoundPackToF64 sign ex sig s =
     (let shiftCount = softfloat_countLeadingZeros64 sig - 1;
          ex = ex - shiftCount
      in if 10 \<le> shiftCount \<and> (word_of_int ex :: uint16_t) < 0x7FD
         then (packToF64UI sign (if sig \<noteq> 0 then ex else 0) (push_bit (nat (shiftCount - 10)) sig), s)
         else softfloat_roundPackToF64 sign ex (push_bit (nat shiftCount) sig) s)"

section \<open>Word-level rounding steps\<close>

lemma and_not_one: "w AND NOT 1 = push_bit 1 (drop_bit 1 w)" for w :: "'a::len word"
  by (rule bit_word_eqI) (auto simp: bit_simps simp del: push_bit_numeral push_bit_Suc)

lemma xor_zero_iff: "a XOR b = 0 \<longleftrightarrow> a = b" for a b :: "'a::len word"
  by (metis xor.assoc xor.left_neutral xor.right_neutral xor_self_eq)

lemma unat_clear_last:
  "unat (w AND NOT (of_bool P)) = (if P then unat w - unat w mod 2 else unat w)" for w :: "'a::len word"
proof (cases P)
  case True
  have "unat (w AND NOT 1) = unat (drop_bit 1 w) * 2 ^ 1"
    unfolding and_not_one by (rule unat_push_bit_small)
      (use unat_lt_pow [of w] in \<open>simp add: unat_drop_bit_div del: unsigned_less\<close>)
  also have "\<dots> = unat w - unat w mod 2"
    unfolding unat_drop_bit_div by (simp add: minus_mod_eq_div_mult)
  finally show ?thesis using True by simp
qed simp

text \<open>Adding the increment, dropping \<open>x\<close> bits and clearing the last one on a tie is \<^const>\<open>rnd\<close>.\<close>

lemma unat_round_step:
  fixes sig inc :: "'a::len word"
  assumes x: "0 < x" "x < LENGTH('a)" and inc: "unat inc = rinc x md" and even: "P \<longleftrightarrow> md = ToEven"
    and small: "unat sig + rinc x md < 2 ^ LENGTH('a)"
    and half: "unat half = 2 ^ (x - 1)" and bits: "unat bits = unat sig mod 2 ^ x"
  shows "unat (drop_bit x (sig + inc) AND NOT (of_bool (bits XOR half = 0 \<and> P))) = rnd x md (unat sig)"
proof -
  have "unat (sig + inc) = unat sig + rinc x md"
    using small inc by (simp add: unat_add_small)
  moreover have "bits XOR half = 0 \<longleftrightarrow> unat sig mod 2 ^ x = 2 ^ (x - 1)"
    using xor_zero_iff [of bits half] word_unat_eq_iff [of bits half] bits half by simp
  ultimately show ?thesis
    using even by (simp add: unat_clear_last unat_drop_bit_div rnd_def Let_def conj_commute)
qed

lemma rnd_le: "0 < x \<Longrightarrow> rnd x md n \<le> n div 2 ^ x + 1"
proof -
  assume x: "0 < x"
  have "rinc x md \<le> 2 ^ x" using x by (cases md) simp_all
  then have "(n + rinc x md) div 2 ^ x \<le> (n + 2 ^ x) div 2 ^ x" by (intro div_le_mono) simp
  then show ?thesis by (auto simp: rnd_def Let_def)
qed

lemma rnd_ge:
  assumes "0 < x" and "a * 2 ^ x \<le> n"
  shows "a \<le> rnd x md n"
proof (rule rounds_ge_real [OF rnd_rounds [OF assms(1) agrees_refl]])
  have "real (a * 2 ^ x) \<le> real n" using assms(2) by (simp only: of_nat_le_iff)
  then show "real a \<le> real n / 2 ^ x" by (simp add: field_simps)
qed

text \<open>The 16-bit cast of an exponent makes a negative one large.\<close>

lemma uint_exp_cast:
  assumes "-32768 \<le> ex" and "ex < 32768"
  shows "uint (word_of_int ex :: uint16_t) = (if ex < 0 then ex + 65536 else ex)"
proof (cases "ex < 0")
  case True
  then have "(ex + 65536) mod 65536 = ex + 65536" using assms by (intro mod_pos_pos_trivial) auto
  with True show ?thesis by (simp add: uint_word_of_int)
next
  case False
  then show ?thesis using assms by (simp add: uint_word_of_int)
qed

lemma exp_cast_ge:
  assumes "-32768 \<le> ex" and "ex < 32768"
  shows "0xFD \<le> (word_of_int ex :: uint16_t) \<longleftrightarrow> ex < 0 \<or> 0xFD \<le> ex"
    and "0x7FD \<le> (word_of_int ex :: uint16_t) \<longleftrightarrow> ex < 0 \<or> 0x7FD \<le> ex"
    and "(word_of_int ex :: uint16_t) < 0xFD \<longleftrightarrow> 0 \<le> ex \<and> ex < 0xFD"
    and "(word_of_int ex :: uint16_t) < 0x7FD \<longleftrightarrow> 0 \<le> ex \<and> ex < 0x7FD"
  using assms by (auto simp: word_le_def word_less_def uint_exp_cast)

section \<open>Refinement to the rounding core\<close>

text \<open>The round increment chosen by the mode tests of the code.\<close>

definition round_inc :: "nat \<Rightarrow> int8_t \<Rightarrow> bool \<Rightarrow> 'a::len word" where
  "round_inc x mode sign =
     (if mode \<noteq> softfloat_round_nearest_even \<and> mode \<noteq> softfloat_round_nearest_maxMag
      then (if mode = softfloat_round_minMag
               \<or> mode = (if sign then softfloat_round_max else softfloat_round_min)
            then 0 else 2 ^ x - 1)
      else 2 ^ (x - 1))"

lemma unat_pow2_word: "k < LENGTH('a) \<Longrightarrow> unat (2 ^ k :: 'a::len word) = 2 ^ k"
  using unat_push_bit_small [of "1 :: 'a word" k] by (simp add: push_bit_of_1)

lemma unat_round_inc:
  "x < LENGTH('a) \<Longrightarrow> unat (round_inc x mode sign :: 'a::len word) = rinc x (mag_mode mode sign)"
  by (simp add: round_inc_def mag_mode_def unat_pow2_word unat_sub_le word_le_nat_alt)

lemma mag_mode_ToEven: "mag_mode mode sign = ToEven \<longleftrightarrow> mode = softfloat_round_nearest_even"
  by (simp add: mag_mode_def)

lemma gen_round_pack_bound:
  assumes "2 \<le> x" and "2 \<le> E" and "0 < f" and "2 ^ (f + x) \<le> n" and "n < 2 ^ (f + x + 1)"
    and "gen_round_pack f x E (mag_mode mode sign) det e n = (z, fl)"
  shows "z \<le> E * 2 ^ f"
proof -
  have "round_result f E mode det sign (real n * 2 powi (e - int x)) z fl"
    by (rule gen_round_pack_correct [OF assms(3,1,2) agrees_refl assms(4-6)])
  then show ?thesis by (auto simp: round_result_def clamp_inf_def)
qed

text \<open>
  Both routines are instances of one word-level scheme, in the fraction width \<open>f\<close>, the number \<open>x\<close>
  of extra bits, the largest exponent field \<open>E\<close>, the jamming shift and the packing macro.
\<close>

definition word_round_pack ::
  "nat \<Rightarrow> nat \<Rightarrow> nat \<Rightarrow> ('a::len word \<Rightarrow> uint32_t \<Rightarrow> 'a word) \<Rightarrow> (bool \<Rightarrow> int \<Rightarrow> 'a word \<Rightarrow> 'a word) \<Rightarrow>
    bool \<Rightarrow> int \<Rightarrow> 'a word \<Rightarrow> fp_state \<Rightarrow> 'a word \<times> fp_state" where
  "word_round_pack f x E shift packUI sign ex sig s =
    (let mode = softfloat_roundingMode s;
         inc = round_inc x mode sign;
         pack = (\<lambda>ex sig s.
            let roundBits = take_bit x sig;
                s = (if roundBits \<noteq> 0 then softfloat_raiseFlags softfloat_flag_inexact s else s);
                sig = drop_bit x (sig + inc)
                        AND NOT (of_bool (roundBits XOR 2 ^ (x - 1) = 0 \<and> mode = softfloat_round_nearest_even))
            in (packUI sign (if sig \<noteq> 0 then ex else 0) sig, s))
     in if ex < 0
        then let isTiny = (softfloat_detectTininess s = softfloat_tininess_beforeRounding
                              \<or> ex < -1 \<or> sig + inc < 2 ^ (f + x + 1));
                 sig = shift sig (word_of_int (- ex))
             in pack 0 sig (if isTiny \<and> take_bit x sig \<noteq> 0
                            then softfloat_raiseFlags softfloat_flag_underflow s else s)
        else if int E - 2 < ex \<or> (ex = int E - 2 \<and> 2 ^ (f + x + 1) \<le> sig + inc)
        then (packUI sign (int E) 0 - of_bool (inc = 0),
              softfloat_raiseFlags (softfloat_flag_overflow OR softfloat_flag_inexact) s)
        else pack ex sig s)"

lemma roundPackToF32_scheme:
  assumes "-32768 \<le> ex" and "ex < 32768"
  shows "softfloat_roundPackToF32 sign ex sig s =
    word_round_pack 23 7 255 softfloat_shift32RightJam packToF32UI sign ex sig s"
proof -
  have m: "w AND 0x7F = take_bit 7 w" for w :: uint32_t using and_mask_take_bit [of w 7] by simp
  show ?thesis
    using assms by (auto simp: softfloat_roundPackToF32_def word_round_pack_def Let_def round_inc_def m exp_cast_ge)
qed

lemma roundPackToF64_scheme:
  assumes "-32768 \<le> ex" and "ex < 32768"
  shows "softfloat_roundPackToF64 sign ex sig s =
    word_round_pack 52 10 2047 softfloat_shift64RightJam packToF64UI sign ex sig s"
proof -
  have m: "w AND 0x3FF = take_bit 10 w" for w :: uint64_t using and_mask_take_bit [of w 10] by simp
  show ?thesis
    using assms by (auto simp: softfloat_roundPackToF64_def word_round_pack_def Let_def round_inc_def m exp_cast_ge)
qed

locale round_pack_scheme = float_format f E signUI expUI fracUI packUI + right_jam shift
  for f E :: nat
    and signUI :: "'a::len word \<Rightarrow> bool"
    and expUI :: "'a word \<Rightarrow> int"
    and fracUI :: "'a word \<Rightarrow> 'a word"
    and packUI :: "bool \<Rightarrow> int \<Rightarrow> 'a word \<Rightarrow> 'a word"
    and shift :: "'a word \<Rightarrow> uint32_t \<Rightarrow> 'a word" +
  fixes x :: nat
  assumes x_ge: "2 \<le> x" and E_ge: "2 \<le> E" and fits: "f + x + 1 < LENGTH('a)"
begin

lemma unat_take_bit_x: "unat (take_bit x (w :: 'a word)) = unat w mod 2 ^ x"
  by (rule unat_take_bit_mod)

lemma take_bit_x_iff: "take_bit x (w :: 'a word) = 0 \<longleftrightarrow> unat w mod 2 ^ x = 0"
  using word_unat_eq_iff [of "take_bit x w" 0] by (simp add: unat_take_bit_mod)

lemma rinc_less: "rinc x md < 2 ^ x"
  using x_ge by (cases md) (simp_all add: power_strict_increasing)

lemma round_step:
  fixes sig :: "'a word"
  assumes "unat sig < 2 ^ (f + x + 1)"
  shows "unat (drop_bit x (sig + round_inc x mode sign) AND
      NOT (of_bool (take_bit x sig XOR 2 ^ (x - 1) = 0 \<and> mode = softfloat_round_nearest_even)))
    = rnd x (mag_mode mode sign) (unat sig)"
    and "unat (sig + round_inc x mode sign) = unat sig + rinc x (mag_mode mode sign)"
proof -
  have "unat sig + rinc x (mag_mode mode sign) < 2 ^ (f + x + 1) + 2 ^ x"
    using assms rinc_less by (rule add_strict_mono)
  also have "\<dots> \<le> 2 ^ (f + x + 1) + 2 ^ (f + x + 1)" by (intro add_left_mono power_increasing) simp_all
  also have "\<dots> = 2 ^ (f + x + 2)" by simp
  also have "\<dots> \<le> 2 ^ LENGTH('a)" using fits by (intro power_increasing) simp_all
  finally have small: "unat sig + rinc x (mag_mode mode sign) < 2 ^ LENGTH('a)" .
  show "unat (drop_bit x (sig + round_inc x mode sign) AND
      NOT (of_bool (take_bit x sig XOR 2 ^ (x - 1) = 0 \<and> mode = softfloat_round_nearest_even)))
    = rnd x (mag_mode mode sign) (unat sig)"
    by (rule unat_round_step)
      (use small x_ge fits in \<open>simp_all add: unat_round_inc mag_mode_ToEven unat_take_bit_mod unat_pow2_word\<close>)
  show "unat (sig + round_inc x mode sign) = unat sig + rinc x (mag_mode mode sign)"
    using small fits by (subst unat_add_small) (simp_all add: unat_round_inc)
qed

lemma pack_or_zero:
  assumes "0 \<le> ex" and "unat sig = 0 \<longrightarrow> ex = 0" and "nat ex * 2 ^ f + unat sig \<le> E * 2 ^ f"
  shows "packUI sign (if sig \<noteq> 0 then ex else 0) sig = fl_pack sign (nat ex * 2 ^ f + unat sig)"
proof -
  have "nat ex * 2 ^ f + unat sig < Suc E * 2 ^ f"
    by (rule le_less_trans [OF assms(3)]) simp
  with assms show ?thesis
    using pack_law [of ex sig sign] unat_eq_zero [of sig] unfolding width by (cases "sig = 0") auto
qed

lemma pack_inf:
  "packUI sign (int E) 0 - of_bool P = fl_pack sign (if P then E * 2 ^ f - 1 else E * 2 ^ f)"
proof -
  have "E * 2 ^ f < 2 ^ (LENGTH('a) - 1)" unfolding width [symmetric] by simp
  then have "packUI sign (int E) 0 = fl_pack sign (E * 2 ^ f)" using pack_law [of "int E" 0 sign] by simp
  moreover have "0 < E * 2 ^ f" using E_ge by simp
  then have "of_nat (E * 2 ^ f - 1) = (of_nat (E * 2 ^ f) - 1 :: 'a word)" by (subst of_nat_diff) simp_all
  ultimately show ?thesis unfolding fl_pack_def by simp
qed

lemma refines:
  fixes sig :: "'a word"
  assumes lo: "2 ^ (f + x) \<le> unat sig" and hi: "unat sig < 2 ^ (f + x + 1)" and ex: "-32768 \<le> ex"
    and g: "gen_round_pack f x E (mag_mode (softfloat_roundingMode s) sign) (softfloat_detectTininess s) ex (unat sig)
      = (z, fl)"
  shows "word_round_pack f x E shift packUI sign ex sig s = (fl_pack sign z, softfloat_raiseFlags fl s)"
proof -
  let ?mode = "softfloat_roundingMode s"
  let ?md = "mag_mode ?mode sign"
  have x0: "0 < x" using x_ge by simp
  have zb: "z \<le> E * 2 ^ f" by (rule gen_round_pack_bound [OF x_ge E_ge f_pos lo hi g])
  have p: "unat (2 ^ (f + x + 1) :: 'a word) = 2 ^ (f + x + 1)" using fits by (rule unat_pow2_word)
  have inc0: "(round_inc x ?mode sign :: 'a word) = 0 \<longleftrightarrow> rinc x ?md = 0"
    using unat_eq_zero [of "round_inc x ?mode sign :: 'a word"] fits by (simp add: unat_round_inc)
  have cmp: "sig + round_inc x ?mode sign < 2 ^ (f + x + 1) \<longleftrightarrow> unat sig + rinc x ?md < 2 ^ (f + x + 1)"
      "2 ^ (f + x + 1) \<le> sig + round_inc x ?mode sign \<longleftrightarrow> 2 ^ (f + x + 1) \<le> unat sig + rinc x ?md"
    unfolding word_less_nat_alt word_le_nat_alt p round_step(2) [OF hi] by (rule refl)+
  consider "ex < 0" | "0 \<le> ex" "int E - 2 < ex \<or> (ex = int E - 2 \<and> 2 ^ (f + x + 1) \<le> unat sig + rinc x ?md)"
    | "0 \<le> ex" "\<not> (int E - 2 < ex \<or> (ex = int E - 2 \<and> 2 ^ (f + x + 1) \<le> unat sig + rinc x ?md))" by linarith
  then show ?thesis
  proof cases
    case 1
    define count :: uint32_t where "count = word_of_int (- ex)"
    have "unat count = nat (- ex)"
      unfolding count_def by (rule unat_word_of_int_nat) (use 1 ex in simp_all)
    then have c: "count \<noteq> 0" "unat count = nat (- ex)" using 1 by auto
    let ?sig = "shift sig count"
    have j: "unat ?sig = jam (nat (- ex)) (unat sig)" unfolding unat_shift [OF c(1)] c(2) ..
    have "unat sig < 2 ^ (f + x + 1) * 2 ^ nat (- ex)" using hi by (rule less_le_trans) simp
    then have small: "unat ?sig < 2 ^ (f + x + 1)" unfolding j by (simp add: jam_less_even)
    from 1 g have z: "z = rnd x ?md (unat ?sig)" by (auto simp: gen_round_pack_def Let_def j)
    let ?w = "drop_bit x (?sig + round_inc x ?mode sign) AND
          NOT (of_bool (take_bit x ?sig XOR 2 ^ (x - 1) = 0 \<and> ?mode = softfloat_round_nearest_even))"
    have "unat ?w = z" unfolding z by (rule round_step(1) [OF small])
    then have "packUI sign (if ?w \<noteq> 0 then 0 else 0) ?w = fl_pack sign z"
      using pack_or_zero [of 0 ?w sign] zb by simp
    moreover have "fl = (if (softfloat_detectTininess s = softfloat_tininess_beforeRounding \<or> ex < -1 \<or>
          unat sig + rinc x ?md < 2 ^ (f + x + 1)) \<and> unat ?sig mod 2 ^ x \<noteq> 0 then softfloat_flag_underflow else 0) OR
        (if unat ?sig mod 2 ^ x \<noteq> 0 then softfloat_flag_inexact else 0)"
      using 1 g unfolding gen_round_pack_def Let_def j by simp
    ultimately show ?thesis
      unfolding word_round_pack_def Let_def cmp take_bit_x_iff count_def [symmetric] using 1 by auto
  next
    case 2
    with g show ?thesis
      unfolding word_round_pack_def Let_def cmp pack_inf inc0 by (auto simp: gen_round_pack_def)
  next
    case 3
    let ?w = "drop_bit x (sig + round_inc x ?mode sign) AND
          NOT (of_bool (take_bit x sig XOR 2 ^ (x - 1) = 0 \<and> ?mode = softfloat_round_nearest_even))"
    have w: "unat ?w = rnd x ?md (unat sig)" by (rule round_step(1) [OF hi])
    have "2 ^ f \<le> rnd x ?md (unat sig)" by (rule rnd_ge [OF x0]) (use lo in \<open>simp add: power_add\<close>)
    then have "unat ?w \<noteq> 0" unfolding w by (metis le_zero_eq power_eq_0_iff zero_neq_numeral)
    moreover have "z = nat ex * 2 ^ f + unat ?w" unfolding w using 3 g by (auto simp: gen_round_pack_def)
    ultimately have "packUI sign (if ?w \<noteq> 0 then ex else 0) ?w = fl_pack sign z"
      using pack_or_zero [of ex ?w sign] 3 zb by simp
    with 3 g show ?thesis
      unfolding word_round_pack_def Let_def cmp take_bit_x_iff by (auto simp: gen_round_pack_def)
  qed
qed

end

interpretation rp32: round_pack_scheme 23 255 signF32UI expF32UI fracF32UI packToF32UI softfloat_shift32RightJam 7
  by unfold_locales simp_all

interpretation rp64: round_pack_scheme 52 2047 signF64UI expF64UI fracF64UI packToF64UI softfloat_shift64RightJam 10
  by unfold_locales simp_all

end
