(* ===== verification/Format_Contract.thy ===== *)
theory Format_Contract
  imports Round_Pack
begin

text \<open>
  The contract between the arithmetic routines of a format and the routines they share: field
  access, NaN handling, sticky shifts, normalisation, rounding and packing. The interface
  \<open>softfloat_format\<close> states it once; the arithmetic theories prove their algorithms inside it, and it is
  interpreted here on the routines of both formats.
\<close>

section \<open>Operations that deliver a correctly rounded result\<close>

text \<open>
  \<open>op_rounds f E zs r s res\<close>: started in state \<open>s\<close>, the operation delivered \<open>res\<close>, the correct
  rounding of the exact real \<open>r\<close> (with sign \<open>zs\<close> for an exact zero), and changed the state only by raising exactly
  the flags that result calls for.
\<close>

definition op_rounds :: "nat \<Rightarrow> nat \<Rightarrow> bool \<Rightarrow> real \<Rightarrow> fp_state \<Rightarrow> 'a::len word \<times> fp_state \<Rightarrow> bool" where
  "op_rounds f E zs r s res \<longleftrightarrow>
     (\<exists>fl. snd res = softfloat_raiseFlags fl s \<and>
           fl_rounded f E (softfloat_roundingMode s) (softfloat_detectTininess s) zs r (fst res) fl)"

lemma round_result_exact:
  assumes "real (mval f m) = x" and "m < E * 2 ^ f"
  shows "round_result f E mode det sign x m 0"
  unfolding round_result_def
proof (intro exI [of _ m] conjI)
  show "rounds (mag_mode mode sign) (\<lambda>m. real (mval f m)) x m"
    using rounds_exact [OF mval_real_mono, of "mag_mode mode sign" f m] assms(1) by simp
qed (use assms in \<open>simp_all add: clamp_inf_def except_flags_def\<close>)

lemma op_rounds_pack:
  fixes s :: fp_state
  assumes "round_result f E (softfloat_roundingMode s) (softfloat_detectTininess s) sign \<bar>r\<bar> z fl"
    and "r \<noteq> 0 \<longrightarrow> sign = (r < 0)" and "r = 0 \<longrightarrow> sign = zs" and "E * 2 ^ f < 2 ^ (LENGTH('a) - 1)"
  shows "op_rounds f E zs r s (fl_pack sign z :: 'a::len word, softfloat_raiseFlags fl s)"
proof -
  have "z \<le> E * 2 ^ f" using assms(1) by (auto simp: round_result_def clamp_inf_def)
  with assms(4) have "z < 2 ^ (LENGTH('a) - 1)" by simp
  note fl_sign_pack [OF this, of sign]
  with assms show ?thesis unfolding op_rounds_def fl_rounded_def by (intro exI [of _ fl]) auto
qed

lemma op_rounds_exact:
  fixes z :: "'a::len word"
  assumes "fl_real f z = r" and "fl_mag z < E * 2 ^ f" and "r = 0 \<longrightarrow> fl_sign z = zs"
  shows "op_rounds f E zs r s (z, s)"
proof -
  have "real (mval f (fl_mag z)) = \<bar>r\<bar>" using assms(1) by (auto simp: fl_real_def)
  moreover have "fl_sign z = (if r = 0 then zs else r < 0)"
    using assms(1,3) by (auto simp: fl_real_def split: if_splits)
  ultimately show ?thesis
    unfolding op_rounds_def fl_rounded_def
    by (intro exI [of _ 0]) (auto intro: round_result_exact assms(2))
qed

section \<open>The contract\<close>

locale softfloat_format =
  nan_handling f E signUI expUI fracUI packUI isNaNUI isSigNaNUI propagate defaultNaN + right_jam shift
  for f E :: nat
    and signUI :: "'a::len word \<Rightarrow> bool"
    and expUI :: "'a word \<Rightarrow> int"
    and fracUI :: "'a word \<Rightarrow> 'a word"
    and packUI :: "bool \<Rightarrow> int \<Rightarrow> 'a word \<Rightarrow> 'a word"
    and isNaNUI isSigNaNUI :: "'a word \<Rightarrow> bool"
    and propagate :: "'a word \<Rightarrow> 'a word \<Rightarrow> fp_state \<Rightarrow> 'a word \<times> fp_state"
    and defaultNaN :: "'a word"
    and shift :: "'a word \<Rightarrow> uint32_t \<Rightarrow> 'a word" +
  fixes x bias :: nat
    and normExp :: "'a word \<Rightarrow> int"
    and normSig :: "'a word \<Rightarrow> 'a word"
    and roundPack normRoundPack :: "bool \<Rightarrow> int \<Rightarrow> 'a word \<Rightarrow> fp_state \<Rightarrow> 'a word \<times> fp_state"
  assumes len: "LENGTH('a) = f + x + 2"
    and x_ge: "4 \<le> x" and x_le: "x \<le> f" and f_le: "f \<le> 1000"
    and E_bias: "E = 2 * bias + 1" and bias_ge: "f + x \<le> bias" and E_le: "E \<le> 2047"
    and norm_law: "sig \<noteq> 0 \<Longrightarrow> unat sig < 2 ^ f \<Longrightarrow>
          \<exists>c \<le> f. normExp sig = 1 - int c \<and> normSig sig = push_bit c sig \<and>
              2 ^ f \<le> unat sig * 2 ^ c \<and> unat sig * 2 ^ c < 2 ^ Suc f"
    and roundPack_law: "2 ^ (f + x) \<le> unat sig \<Longrightarrow> unat sig < 2 ^ (f + x + 1) \<Longrightarrow>
          -32768 \<le> ex \<Longrightarrow> ex < 32768 \<Longrightarrow>
          gen_round_pack f x E (mag_mode (softfloat_roundingMode s) sign) (softfloat_detectTininess s) ex (unat sig)
            = (z, fl) \<Longrightarrow>
          roundPack sign ex sig s = (fl_pack sign z, softfloat_raiseFlags fl s)"
    and normRoundPack_law: "sig \<noteq> 0 \<Longrightarrow> unat sig < 2 ^ (f + x + 1) \<Longrightarrow> -30000 \<le> ex \<Longrightarrow> ex < 30000 \<Longrightarrow>
          \<exists>c \<le> f + x. 2 ^ (f + x) \<le> unat sig * 2 ^ c \<and> unat sig * 2 ^ c < 2 ^ (f + x + 1) \<and>
            normRoundPack sign ex sig s =
              (if x \<le> c \<and> int c \<le> ex \<and> ex - int c < int E - 2
               then (packUI sign (ex - int c) (push_bit (c - x) sig), s)
               else roundPack sign (ex - int c) (push_bit c sig) s)"
begin

lemma inf_fits: "E * 2 ^ f < 2 ^ (LENGTH('a) - 1)"
  unfolding width [symmetric] by simp

lemma E_ge2: "2 \<le> E"
  using E_bias bias_ge x_ge by simp

lemma roundPack_rounds:
  assumes "agrees (x - 1) X (unat sig)" and "2 ^ (f + x) \<le> unat sig" and "unat sig < 2 ^ (f + x + 1)"
    and "-32768 \<le> ex" and "ex < 32768" and "\<bar>r\<bar> = X * 2 powi (ex - int x)" and "r \<noteq> 0" and "sign = (r < 0)"
  shows "op_rounds f E zs r s (roundPack sign ex sig s)"
proof -
  obtain z fl where g: "gen_round_pack f x E (mag_mode (softfloat_roundingMode s) sign)
      (softfloat_detectTininess s) ex (unat sig) = (z, fl)" by fastforce
  have "round_result f E (softfloat_roundingMode s) (softfloat_detectTininess s) sign \<bar>r\<bar> z fl"
    unfolding assms(6) by (rule gen_round_pack_correct [OF f_pos _ E_ge2 assms(1-3) g]) (use x_ge in simp)
  then show ?thesis
    unfolding roundPack_law [OF assms(2-5) g] by (rule op_rounds_pack) (use assms inf_fits in auto)
qed

text \<open>A significand that may be one bit short is shifted up once before rounding.\<close>

lemma roundPack_short:
  assumes ag: "agrees 1 X (unat sigZ)" and lo: "2 ^ (f + x - 1) \<le> unat sigZ" and hi: "unat sigZ < 2 ^ (f + x + 1)"
    and ex: "-32767 \<le> ex" "ex < 32768" and rX: "\<bar>r\<bar> = X * 2 powi (ex - int x)" and r: "r \<noteq> 0" "sign = (r < 0)"
  shows "op_rounds f E zs r s
    (if sigZ < 2 ^ (f + x) then roundPack sign (ex - 1) (push_bit 1 sigZ) s else roundPack sign ex sigZ s)"
proof -
  have p: "unat (2 ^ (f + x) :: 'a word) = 2 ^ (f + x)" by (rule unat_pow2_word) (simp add: len)
  show ?thesis
  proof (cases "sigZ < 2 ^ (f + x)")
    case True
    then have lt: "unat sigZ < 2 ^ (f + x)" by (simp add: word_less_nat_alt p)
    have "(2::nat) ^ (f + x + 1) \<le> 2 ^ LENGTH('a)" by (intro power_increasing) (simp_all add: len)
    with lt have u: "unat (push_bit 1 sigZ) = unat sigZ * 2 ^ 1" by (intro unat_push_bit_small) simp
    have "op_rounds f E zs r s (roundPack sign (ex - 1) (push_bit 1 sigZ) s)"
    proof (rule roundPack_rounds [of "X * 2 ^ 1"])
      show "agrees (x - 1) (X * 2 ^ 1) (unat (push_bit 1 sigZ))"
        unfolding u by (rule agrees_mono [OF agrees_scale [OF ag]]) (use x_ge in simp)
      have "2 * 2 ^ (f + x - 1) = (2::nat) ^ (f + x)" using f_pos by (simp flip: power_Suc)
      with lo show "2 ^ (f + x) \<le> unat (push_bit 1 sigZ)" unfolding u by simp
      show "\<bar>r\<bar> = X * 2 ^ 1 * 2 powi (ex - 1 - int x)" by (simp add: rX power_int_diff)
    qed (use lt u ex r in auto)
    with True show ?thesis by simp
  next
    case False
    then have ge: "2 ^ (f + x) \<le> unat sigZ" by (simp add: word_less_nat_alt p)
    have "op_rounds f E zs r s (roundPack sign ex sigZ s)"
      by (rule roundPack_rounds [OF agrees_mono [OF ag] ge hi _ _ rX r]) (use x_ge ex in simp_all)
    with False show ?thesis by simp
  qed
qed

text \<open>Packing a normalised significand is exact.\<close>

lemma pack_normal:
  assumes "2 ^ f \<le> unat w" and "unat w < 2 ^ Suc f" and "e + 1 < E"
  shows "fl_sign (packUI sign (int e) w) = sign" and "fl_mag (packUI sign (int e) w) < E * 2 ^ f"
    and "fl_real f (packUI sign (int e) w) = (if sign then - 1 else 1) * (real (unat w) * 2 ^ e)"
proof -
  have "Suc (e + 1) * 2 ^ f \<le> E * 2 ^ f" using assms(3) by (intro mult_le_mono1) simp
  with assms(2) have b: "e * 2 ^ f + unat w < E * 2 ^ f" by simp
  then have l: "nat (int e) * 2 ^ f + unat w < 2 ^ (LENGTH('a) - 1)" using inf_fits by simp
  note sm = pack_sign_mag [OF _ l, simplified nat_int, of sign, OF of_nat_0_le_iff]
  show "fl_sign (packUI sign (int e) w) = sign" "fl_mag (packUI sign (int e) w) < E * 2 ^ f" by (simp_all only: sm b)
  have "mval f (e * 2 ^ f + unat w) = unat w * 2 ^ e" by (rule mval_scaled) (use assms in auto)
  then show "fl_real f (packUI sign (int e) w) = (if sign then - 1 else 1) * (real (unat w) * 2 ^ e)"
    by (simp add: fl_real_def sm)
qed

text \<open>Normalising first: either the significand is exact, or at most one bit is lost to normalisation.\<close>

lemma normRoundPack_rounds:
  assumes ag: "X = real (unat sig) \<or> (2 ^ (f + x - 1) \<le> unat sig \<and> agrees (x - 2) X (unat sig))"
    and sig: "sig \<noteq> 0" "unat sig < 2 ^ (f + x + 1)" and ex: "-30000 \<le> ex" "ex < 30000"
    and r: "\<bar>r\<bar> = X * 2 powi (ex - int x)" "r \<noteq> 0" "sign = (r < 0)"
  shows "op_rounds f E zs r s (normRoundPack sign ex sig s)"
proof -
  obtain c where c: "c \<le> f + x" "2 ^ (f + x) \<le> unat sig * 2 ^ c" "unat sig * 2 ^ c < 2 ^ (f + x + 1)"
    and res: "normRoundPack sign ex sig s =
              (if x \<le> c \<and> int c \<le> ex \<and> ex - int c < int E - 2
               then (packUI sign (ex - int c) (push_bit (c - x) sig), s)
               else roundPack sign (ex - int c) (push_bit c sig) s)"
    using normRoundPack_law [OF sig ex, of sign s] by blast
  have u: "unat (push_bit c sig) = unat sig * 2 ^ c"
  proof (rule unat_push_bit_small)
    show "unat sig * 2 ^ c < 2 ^ LENGTH('a)" by (rule less_trans [OF c(3)]) (simp add: len)
  qed
  have c1: "X = real (unat sig) \<or> (c \<le> 1 \<and> agrees (x - 2) X (unat sig))"
  proof (cases "X = real (unat sig)")
    case False
    with ag have lo: "2 ^ (f + x - 1) \<le> unat sig" and a: "agrees (x - 2) X (unat sig)" by auto
    have "2 ^ (f + x - 1) * 2 ^ c \<le> unat sig * 2 ^ c" using lo by (rule mult_le_mono1)
    also have "\<dots> < 2 ^ (f + x + 1)" by (rule c)
    finally have "(2::nat) ^ (f + x - 1 + c) < 2 ^ (f + x + 1)" by (simp only: power_add [symmetric])
    then have "f + x - 1 + c < f + x + 1" by (rule power_less_imp_less_exp [rotated]) simp
    then have "c \<le> 1" using f_pos by linarith
    with a show ?thesis by simp
  qed simp
  show ?thesis
  proof (cases "x \<le> c \<and> int c \<le> ex \<and> ex - int c < int E - 2")
    case True
    let ?w = "push_bit (c - x) sig" and ?e = "nat (ex - int c)"
    from True c1 x_ge have X: "X = real (unat sig)" by auto
    have p: "unat sig * 2 ^ c = unat sig * 2 ^ (c - x) * 2 ^ x" using True by (simp flip: power_add)
    have w: "2 ^ f \<le> unat sig * 2 ^ (c - x)" "unat sig * 2 ^ (c - x) < 2 ^ Suc f"
      using c(2,3) unfolding p by (simp_all add: power_add mult.commute)
    have "(2::nat) ^ Suc f \<le> 2 ^ LENGTH('a)" unfolding len by (rule power_increasing) simp_all
    with w have uw: "unat ?w = unat sig * 2 ^ (c - x)" by (intro unat_push_bit_small) linarith
    have e: "int ?e = ex - int c" "?e + 1 < E" using True by linarith+
    note z = pack_normal [of ?w ?e sign, OF _ _ e(2), unfolded e(1) uw, OF w]
    have "2 powi (ex - int x) = (2::real) ^ (c - x) * 2 ^ ?e"
    proof -
      have "ex - int x = int (c - x) + int ?e" using True by simp
      moreover have "(2::real) powi (int (c - x) + int ?e) = 2 powi int (c - x) * 2 powi int ?e"
        by (rule power_int_add) simp
      ultimately show ?thesis by (simp only: power_int_of_nat)
    qed
    then have "\<bar>r\<bar> = real (unat sig * 2 ^ (c - x)) * 2 ^ ?e" by (simp add: r(1) X)
    with z(3) have "fl_real f (packUI sign (ex - int c) ?w) = r" by (cases "r < 0") (simp_all add: r(3))
    then have "op_rounds f E zs r s (packUI sign (ex - int c) ?w, s)"
      by (rule op_rounds_exact [OF _ z(2)]) (simp add: r(2))
    with True show ?thesis by (simp add: res)
  next
    case False
    have "agrees (x - 1) (X * 2 ^ c) (unat sig * 2 ^ c)"
    proof (cases "X = real (unat sig)")
      case True
      then have "X * 2 ^ c = real (unat sig * 2 ^ c)" by simp
      then show ?thesis by (simp only: agrees_refl)
    next
      case False
      with c1 agrees_scale [of "x - 2" X "unat sig" c] have "agrees (x - 2 + c) (X * 2 ^ c) (unat sig * 2 ^ c)" "c \<le> 1"
        by auto
      then show ?thesis using x_ge by (elim agrees_mono) simp
    qed
    moreover have "\<bar>r\<bar> = X * 2 ^ c * 2 powi (ex - int c - int x)"
      by (simp add: r(1) power_int_diff)
    moreover have "-32768 \<le> ex - int c" using ex(1) c(1) f_le x_le by simp
    ultimately have "op_rounds f E zs r s (roundPack sign (ex - int c) (push_bit c sig) s)"
      by (intro roundPack_rounds) (use c ex r in \<open>simp_all only: u, simp_all\<close>)
    with False show ?thesis by (simp only: res if_False)
  qed
qed

text \<open>
  Unpacking an operand of a multiplicative operation: a finite nonzero number is its normalised
  significand, with the hidden bit, times a power of two.
\<close>

lemma or_hidden_absorb:
  assumes "2 ^ f \<le> unat g" and "unat g < 2 ^ Suc f"
  shows "g OR 2 ^ f = (g :: 'a word)"
proof -
  have fl: "f < LENGTH('a)" by (simp add: len)
  have p: "unat (2 ^ f :: 'a word) = 2 ^ f" using fl by (rule unat_pow2_word)
  have "unat (g - 2 ^ f) = unat g - 2 ^ f" using assms(1) p by (simp add: unat_sub_le word_le_nat_alt)
  then have "unat (g - 2 ^ f) < 2 ^ f" using assms by simp
  from or_hidden_bit(1) [OF this fl] have "(g - 2 ^ f) OR 2 ^ f = g" by simp
  then show ?thesis by (metis or.assoc or.idem)
qed

definition norm_operand :: "'a word \<Rightarrow> int \<times> 'a word" where
  "norm_operand a =
     (if expUI a = 0 then (normExp (fracUI a), normSig (fracUI a)) else (expUI a, fracUI a))"

lemma norm_operand:
  assumes a: "fl_mag a \<noteq> 0" and n: "norm_operand a = (e, g)"
  shows "2 ^ f \<le> unat (g OR 2 ^ f)" and "unat (g OR 2 ^ f) < 2 ^ Suc f"
    and "real (mval f (fl_mag a)) = real (unat (g OR 2 ^ f)) * 2 powi (e - 1)"
    and "1 - int f \<le> e" and "e \<le> int E"
    and "unat g < 2 ^ Suc f"
proof -
  have "2 ^ f \<le> unat (g OR 2 ^ f) \<and> unat (g OR 2 ^ f) < 2 ^ Suc f \<and>
      real (mval f (fl_mag a)) = real (unat (g OR 2 ^ f)) * 2 powi (e - 1) \<and> 1 - int f \<le> e \<and> e \<le> int E \<and> unat g < 2 ^ Suc f"
  proof (cases "expUI a = 0")
    case True
    then have "fracUI a \<noteq> 0" using a zero_iff [of a] by simp
    from norm_law [OF this frac_range] obtain c where c: "c \<le> f" "normExp (fracUI a) = 1 - int c"
      "normSig (fracUI a) = push_bit c (fracUI a)" "2 ^ f \<le> unat (fracUI a) * 2 ^ c" "unat (fracUI a) * 2 ^ c < 2 ^ Suc f" by blast
    have "(2::nat) ^ Suc f \<le> 2 ^ LENGTH('a)" by (intro power_increasing) (simp_all add: len)
    with c have u: "unat (push_bit c (fracUI a)) = unat (fracUI a) * 2 ^ c" by (intro unat_push_bit_small) simp
    have g: "g = push_bit c (fracUI a)" "e = 1 - int c" using n True c by (simp_all add: norm_operand_def)
    have "g OR 2 ^ f = g" using c u g by (intro or_hidden_absorb) simp_all
    moreover have "(2::real) powi (e - 1) = 1 / 2 ^ c" using g(2) by (simp add: power_int_minus divide_inverse)
    moreover have "e \<le> int E" using g(2) E_ge2 by simp
    ultimately show ?thesis using True c u g(1) g(2) by (simp add: mval_subnormal)
  next
    case False
    then have g: "g = fracUI a" "e = expUI a" "0 < expUI a" using n exp_range(1) [of a] by (simp_all add: norm_operand_def)
    have u: "unat (g OR 2 ^ f) = unat g + 2 ^ f" using or_hidden_bit(2) [of "fracUI a" f] frac_range g by (simp add: len)
    have "(2::real) powi (expUI a - 1) = 2 ^ (nat (expUI a) - 1)"
      using powi_minus_nat [of "expUI a" 1] g(3) by (simp add: power_eq_if)
    then show ?thesis using u g frac_range [of a] exp_range(2) [of a] mval_normal [OF g(3)] f_pos by (simp add: add.commute)
  qed
  then show "2 ^ f \<le> unat (g OR 2 ^ f)" "unat (g OR 2 ^ f) < 2 ^ Suc f"
    "real (mval f (fl_mag a)) = real (unat (g OR 2 ^ f)) * 2 powi (e - 1)" "1 - int f \<le> e" "e \<le> int E" "unat g < 2 ^ Suc f"
    by blast+
qed

end

section \<open>Both formats keep the contract\<close>

lemma clz_shift:
  fixes n :: nat
  assumes "2 ^ (k + m) \<le> n * 2 ^ c" and "n * 2 ^ c < 2 ^ (k + m + 1)" and "0 < n" and "n < 2 ^ Suc k"
  shows "m \<le> c" and "c - m \<le> k" and "2 ^ k \<le> n * 2 ^ (c - m)" and "n * 2 ^ (c - m) < 2 ^ Suc k"
proof -
  have "n * 2 ^ c < 2 ^ Suc k * 2 ^ c" using assms(4) by simp
  with assms(1) have "(2::nat) ^ (k + m) < 2 ^ (Suc k + c)" unfolding power_add by linarith
  then have "k + m < Suc k + c" by (rule power_less_imp_less_exp [rotated]) simp
  then show mc: "m \<le> c" by simp
  have "2 ^ c \<le> n * 2 ^ c" using assms(3) by simp
  with assms(2) have "(2::nat) ^ c < 2 ^ (k + m + 1)" by linarith
  then have "c < k + m + 1" by (rule power_less_imp_less_exp [rotated]) simp
  then show "c - m \<le> k" by simp
  have p: "n * 2 ^ c = n * 2 ^ (c - m) * 2 ^ m" using mc by (simp flip: power_add)
  show "2 ^ k \<le> n * 2 ^ (c - m)" "n * 2 ^ (c - m) < 2 ^ Suc k"
    using assms(1,2) unfolding p by (simp_all add: power_add)
qed

lemma normSubnormalF32Sig_law:
  assumes "sig \<noteq> 0" and "unat sig < 2 ^ 23"
  shows "\<exists>c \<le> 23. es32_exp (softfloat_normSubnormalF32Sig sig) = 1 - int c \<and>
      es32_sig (softfloat_normSubnormalF32Sig sig) = push_bit c sig \<and>
      2 ^ 23 \<le> unat sig * 2 ^ c \<and> unat sig * 2 ^ c < 2 ^ Suc 23"
proof -
  obtain c where c: "softfloat_countLeadingZeros32 sig = int c" "2 ^ 31 \<le> unat sig * 2 ^ c" "unat sig * 2 ^ c < 2 ^ 32"
    by (rule countLeadingZeros32_normalises [OF assms(1)])
  note n = clz_shift [of 23 8 "unat sig" c]
  show ?thesis
    by (rule exI [of _ "c - 8"]) (use n c assms in \<open>simp add: softfloat_normSubnormalF32Sig_def unat_gt_0 Let_def of_nat_diff nat_diff_distrib\<close>)
qed

lemma normSubnormalF64Sig_law:
  assumes "sig \<noteq> 0" and "unat sig < 2 ^ 52"
  shows "\<exists>c \<le> 52. es64_exp (softfloat_normSubnormalF64Sig sig) = 1 - int c \<and>
      es64_sig (softfloat_normSubnormalF64Sig sig) = push_bit c sig \<and>
      2 ^ 52 \<le> unat sig * 2 ^ c \<and> unat sig * 2 ^ c < 2 ^ Suc 52"
proof -
  obtain c where c: "softfloat_countLeadingZeros64 sig = int c" "2 ^ 63 \<le> unat sig * 2 ^ c" "unat sig * 2 ^ c < 2 ^ 64"
    by (rule countLeadingZeros64_normalises [OF assms(1)])
  note n = clz_shift [of 52 11 "unat sig" c]
  show ?thesis
    by (rule exI [of _ "c - 11"]) (use n c assms in \<open>simp add: softfloat_normSubnormalF64Sig_def unat_gt_0 Let_def of_nat_diff nat_diff_distrib\<close>)
qed

lemma normRoundPackToF32_law:
  assumes "sig \<noteq> 0" and "unat sig < 2 ^ 31" and "-30000 \<le> ex" and "ex < 30000"
  shows "\<exists>c \<le> 30. 2 ^ 30 \<le> unat sig * 2 ^ c \<and> unat sig * 2 ^ c < 2 ^ 31 \<and>
      softfloat_normRoundPackToF32 sign ex sig s =
        (if 7 \<le> c \<and> int c \<le> ex \<and> ex - int c < 0xFD
         then (packToF32UI sign (ex - int c) (push_bit (c - 7) sig), s)
         else softfloat_roundPackToF32 sign (ex - int c) (push_bit c sig) s)"
proof -
  obtain c where c: "softfloat_countLeadingZeros32 sig = int c" "2 ^ 31 \<le> unat sig * 2 ^ c" "unat sig * 2 ^ c < 2 ^ 32"
    by (rule countLeadingZeros32_normalises [OF assms(1)])
  have n: "1 \<le> c" "c - 1 \<le> 30" "2 ^ 30 \<le> unat sig * 2 ^ (c - 1)" "unat sig * 2 ^ (c - 1) < 2 ^ 31"
    using clz_shift [of 30 1 "unat sig" c] c assms by (simp_all add: unat_gt_0)
  have sc: "int c - 1 = int (c - 1)" using n(1) by simp
  have d: "nat (int (c - 1) - 7) = c - 1 - 7" by simp
  show ?thesis
    by (rule exI [of _ "c - 1"], intro conjI n(2-4))
      (use assms n(2) in \<open>simp only: softfloat_normRoundPackToF32_def c(1) sc Let_def d exp_cast_ge nat_int, auto\<close>)
qed

lemma normRoundPackToF64_law:
  assumes "sig \<noteq> 0" and "unat sig < 2 ^ 63" and "-30000 \<le> ex" and "ex < 30000"
  shows "\<exists>c \<le> 62. 2 ^ 62 \<le> unat sig * 2 ^ c \<and> unat sig * 2 ^ c < 2 ^ 63 \<and>
      softfloat_normRoundPackToF64 sign ex sig s =
        (if 10 \<le> c \<and> int c \<le> ex \<and> ex - int c < 0x7FD
         then (packToF64UI sign (ex - int c) (push_bit (c - 10) sig), s)
         else softfloat_roundPackToF64 sign (ex - int c) (push_bit c sig) s)"
proof -
  obtain c where c: "softfloat_countLeadingZeros64 sig = int c" "2 ^ 63 \<le> unat sig * 2 ^ c" "unat sig * 2 ^ c < 2 ^ 64"
    by (rule countLeadingZeros64_normalises [OF assms(1)])
  have n: "1 \<le> c" "c - 1 \<le> 62" "2 ^ 62 \<le> unat sig * 2 ^ (c - 1)" "unat sig * 2 ^ (c - 1) < 2 ^ 63"
    using clz_shift [of 62 1 "unat sig" c] c assms by (simp_all add: unat_gt_0)
  have sc: "int c - 1 = int (c - 1)" using n(1) by simp
  have d: "nat (int (c - 1) - 10) = c - 1 - 10" by simp
  show ?thesis
    by (rule exI [of _ "c - 1"], intro conjI n(2-4))
      (use assms n(2) in \<open>simp only: softfloat_normRoundPackToF64_def c(1) sc Let_def d exp_cast_ge nat_int, auto\<close>)
qed

interpretation sf32: softfloat_format 23 255 signF32UI expF32UI fracF32UI packToF32UI
  isNaNF32UI softfloat_isSigNaNF32UI softfloat_propagateNaNF32UI defaultNaNF32UI softfloat_shift32RightJam 7 127
  "\<lambda>sig. es32_exp (softfloat_normSubnormalF32Sig sig)" "\<lambda>sig. es32_sig (softfloat_normSubnormalF32Sig sig)"
  softfloat_roundPackToF32 softfloat_normRoundPackToF32
proof
  fix sig :: uint32_t and ex sign z fl and s :: fp_state
  assume "2 ^ (23 + 7) \<le> unat sig" "unat sig < 2 ^ (23 + 7 + 1)" "-32768 \<le> ex" "ex < 32768"
    and g: "gen_round_pack 23 7 255 (mag_mode (softfloat_roundingMode s) sign) (softfloat_detectTininess s) ex (unat sig)
      = (z, fl)"
  then show "softfloat_roundPackToF32 sign ex sig s = (fl_pack sign z, softfloat_raiseFlags fl s)"
    unfolding roundPackToF32_scheme [OF \<open>-32768 \<le> ex\<close> \<open>ex < 32768\<close>] by (intro rp32.refines)
qed (use normSubnormalF32Sig_law normRoundPackToF32_law in simp_all)

interpretation sf64: softfloat_format 52 2047 signF64UI expF64UI fracF64UI packToF64UI
  isNaNF64UI softfloat_isSigNaNF64UI softfloat_propagateNaNF64UI defaultNaNF64UI softfloat_shift64RightJam 10 1023
  "\<lambda>sig. es64_exp (softfloat_normSubnormalF64Sig sig)" "\<lambda>sig. es64_sig (softfloat_normSubnormalF64Sig sig)"
  softfloat_roundPackToF64 softfloat_normRoundPackToF64
proof
  fix sig :: uint64_t and ex sign z fl and s :: fp_state
  assume "2 ^ (52 + 10) \<le> unat sig" "unat sig < 2 ^ (52 + 10 + 1)" "-32768 \<le> ex" "ex < 32768"
    and g: "gen_round_pack 52 10 2047 (mag_mode (softfloat_roundingMode s) sign) (softfloat_detectTininess s) ex (unat sig)
      = (z, fl)"
  then show "softfloat_roundPackToF64 sign ex sig s = (fl_pack sign z, softfloat_raiseFlags fl s)"
    unfolding roundPackToF64_scheme [OF \<open>-32768 \<le> ex\<close> \<open>ex < 32768\<close>] by (intro rp64.refines)
qed (use normSubnormalF64Sig_law normRoundPackToF64_law in simp_all)

end
