(* ===== verification/Float_Add.thy ===== *)
theory Float_Add
  imports Format_Contract
begin

text \<open>
  Addition and subtraction (\<^verbatim>\<open>source/s_addMagsF*.c\<close>, \<^verbatim>\<open>s_subMagsF*.c\<close>, \<^verbatim>\<open>f*_add.c\<close>, \<^verbatim>\<open>f*_sub.c\<close>). A label that is
  reached by \<^verbatim>\<open>goto\<close> is a local definition over the variables the code reads after it. The two
  formats run the same algorithm, which is proved correct once, inside the contract
  \<open>softfloat_format\<close>, and then transferred to the routines of each format.
\<close>

section \<open>The routines\<close>

definition softfloat_addMagsF32 ::
  "uint32_t \<Rightarrow> uint32_t \<Rightarrow> bool \<Rightarrow> fp_state \<Rightarrow> float32_t \<times> fp_state" where
  "softfloat_addMagsF32 uiA uiB signZ s =
     (let expA = expF32UI uiA;
          sigA = fracF32UI uiA;
          expB = expF32UI uiB;
          sigB = fracF32UI uiB;
          expDiff = expA - expB;
          sigA = push_bit 6 sigA;
          sigB = push_bit 6 sigB;
          propagateNaN = softfloat_propagateNaNF32UI uiA uiB s
      in if expDiff = 0
         then if expA = 0xFF
              then (if sigA OR sigB \<noteq> 0 then propagateNaN else (uiA, s))
              else if expA = 0
              then (packToF32UI signZ 0 ((uiA + uiB) AND 0x7FFFFFFF), s)
              else softfloat_roundPackToF32 signZ expA (0x40000000 + sigA + sigB) s
         else
           let roundPack = (\<lambda>expZ sigA sigB.
                 let sigZ = 0x20000000 + sigA + sigB
                 in if sigZ < 0x40000000
                    then softfloat_roundPackToF32 signZ (expZ - 1) (push_bit 1 sigZ) s
                    else softfloat_roundPackToF32 signZ expZ sigZ s)
           in if expDiff < 0
              then if expB = 0xFF
                   then (if sigB \<noteq> 0 then propagateNaN else (packToF32UI signZ 0xFF 0, s))
                   else
                     let sigA = sigA + (if expA \<noteq> 0 then 0x20000000 else sigA);
                         sigA = softfloat_shift32RightJam sigA (word_of_int (- expDiff))
                     in roundPack expB sigA sigB
              else if expA = 0xFF
                   then (if sigA \<noteq> 0 then propagateNaN else (uiA, s))
                   else
                     let sigB = sigB + (if expB \<noteq> 0 then 0x20000000 else sigB);
                         sigB = softfloat_shift32RightJam sigB (word_of_int expDiff)
                     in roundPack expA sigA sigB)"

definition softfloat_subMagsF32 ::
  "uint32_t \<Rightarrow> uint32_t \<Rightarrow> bool \<Rightarrow> fp_state \<Rightarrow> float32_t \<times> fp_state" where
  "softfloat_subMagsF32 uiA uiB signZ s =
     (let expA = expF32UI uiA;
          sigA = fracF32UI uiA;
          expB = expF32UI uiB;
          sigB = fracF32UI uiB;
          expDiff = expA - expB;
          sigA = push_bit 7 sigA;
          sigB = push_bit 7 sigB;
          propagateNaN = softfloat_propagateNaNF32UI uiA uiB s;
          aBigger = (\<lambda>expA sigA sigB. softfloat_normRoundPackToF32 signZ (expA - 1) (sigA - sigB) s);
          bBigger = (\<lambda>expB sigA sigB. softfloat_normRoundPackToF32 (\<not> signZ) (expB - 1) (sigB - sigA) s)
      in if 0 < expDiff
         then if expA = 0xFF
              then (if sigA \<noteq> 0 then propagateNaN else (uiA, s))
              else
                let sigB = sigB + (if expB \<noteq> 0 then 0x40000000 else sigB);
                    sigB = softfloat_shift32RightJam sigB (word_of_int expDiff);
                    sigA = sigA OR 0x40000000
                in aBigger expA sigA sigB
         else if expDiff < 0
         then if expB = 0xFF
              then (if sigB \<noteq> 0 then propagateNaN else (packToF32UI (\<not> signZ) 0xFF 0, s))
              else
                let sigA = sigA + (if expA \<noteq> 0 then 0x40000000 else sigA);
                    sigA = softfloat_shift32RightJam sigA (word_of_int (- expDiff));
                    sigB = sigB OR 0x40000000
                in bBigger expB sigA sigB
         else if expA = 0xFF
         then (if sigA OR sigB \<noteq> 0 then propagateNaN
               else (defaultNaNF32UI, softfloat_raiseFlags softfloat_flag_invalid s))
         else
           let (expA, expB) = (if expA = 0 then (1, 1) else (expA, expB))
           in if sigB < sigA then aBigger expA sigA sigB
              else if sigA < sigB then bBigger expB sigA sigB
              else (packToF32UI (softfloat_roundingMode s = softfloat_round_min) 0 0, s))"

definition softfloat_addMagsF64 ::
  "uint64_t \<Rightarrow> uint64_t \<Rightarrow> bool \<Rightarrow> fp_state \<Rightarrow> float64_t \<times> fp_state" where
  "softfloat_addMagsF64 uiA uiB signZ s =
     (let expA = expF64UI uiA;
          sigA = fracF64UI uiA;
          expB = expF64UI uiB;
          sigB = fracF64UI uiB;
          expDiff = expA - expB;
          sigA = push_bit 9 sigA;
          sigB = push_bit 9 sigB;
          propagateNaN = softfloat_propagateNaNF64UI uiA uiB s
      in if expDiff = 0
         then if expA = 0x7FF
              then (if sigA OR sigB \<noteq> 0 then propagateNaN else (uiA, s))
              else if expA = 0
              then (packToF64UI signZ 0 ((uiA + uiB) AND 0x7FFFFFFFFFFFFFFF), s)
              else softfloat_roundPackToF64 signZ expA (0x4000000000000000 + sigA + sigB) s
         else
           let roundPack = (\<lambda>expZ sigA sigB.
                 let sigZ = 0x2000000000000000 + sigA + sigB
                 in if sigZ < 0x4000000000000000
                    then softfloat_roundPackToF64 signZ (expZ - 1) (push_bit 1 sigZ) s
                    else softfloat_roundPackToF64 signZ expZ sigZ s)
           in if expDiff < 0
              then if expB = 0x7FF
                   then (if sigB \<noteq> 0 then propagateNaN else (packToF64UI signZ 0x7FF 0, s))
                   else
                     let sigA = sigA + (if expA \<noteq> 0 then 0x2000000000000000 else sigA);
                         sigA = softfloat_shift64RightJam sigA (word_of_int (- expDiff))
                     in roundPack expB sigA sigB
              else if expA = 0x7FF
                   then (if sigA \<noteq> 0 then propagateNaN else (uiA, s))
                   else
                     let sigB = sigB + (if expB \<noteq> 0 then 0x2000000000000000 else sigB);
                         sigB = softfloat_shift64RightJam sigB (word_of_int expDiff)
                     in roundPack expA sigA sigB)"

definition softfloat_subMagsF64 ::
  "uint64_t \<Rightarrow> uint64_t \<Rightarrow> bool \<Rightarrow> fp_state \<Rightarrow> float64_t \<times> fp_state" where
  "softfloat_subMagsF64 uiA uiB signZ s =
     (let expA = expF64UI uiA;
          sigA = fracF64UI uiA;
          expB = expF64UI uiB;
          sigB = fracF64UI uiB;
          expDiff = expA - expB;
          sigA = push_bit 10 sigA;
          sigB = push_bit 10 sigB;
          propagateNaN = softfloat_propagateNaNF64UI uiA uiB s;
          aBigger = (\<lambda>expA sigA sigB. softfloat_normRoundPackToF64 signZ (expA - 1) (sigA - sigB) s);
          bBigger = (\<lambda>expB sigA sigB. softfloat_normRoundPackToF64 (\<not> signZ) (expB - 1) (sigB - sigA) s)
      in if 0 < expDiff
         then if expA = 0x7FF
              then (if sigA \<noteq> 0 then propagateNaN else (uiA, s))
              else
                let sigB = sigB + (if expB \<noteq> 0 then 0x4000000000000000 else sigB);
                    sigB = softfloat_shift64RightJam sigB (word_of_int expDiff);
                    sigA = sigA OR 0x4000000000000000
                in aBigger expA sigA sigB
         else if expDiff < 0
         then if expB = 0x7FF
              then (if sigB \<noteq> 0 then propagateNaN else (packToF64UI (\<not> signZ) 0x7FF 0, s))
              else
                let sigA = sigA + (if expA \<noteq> 0 then 0x4000000000000000 else sigA);
                    sigA = softfloat_shift64RightJam sigA (word_of_int (- expDiff));
                    sigB = sigB OR 0x4000000000000000
                in bBigger expB sigA sigB
         else if expA = 0x7FF
         then (if sigA OR sigB \<noteq> 0 then propagateNaN
               else (defaultNaNF64UI, softfloat_raiseFlags softfloat_flag_invalid s))
         else
           let (expA, expB) = (if expA = 0 then (1, 1) else (expA, expB))
           in if sigB < sigA then aBigger expA sigA sigB
              else if sigA < sigB then bBigger expB sigA sigB
              else (packToF64UI (softfloat_roundingMode s = softfloat_round_min) 0 0, s))"

definition f32_add :: "float32_t \<Rightarrow> float32_t \<Rightarrow> fp_state \<Rightarrow> float32_t \<times> fp_state" where
  "f32_add a b s =
     (let uiA = a;
          signA = signF32UI uiA;
          uiB = b;
          signB = signF32UI uiB;
          magsRoutine = (if signA = signB then softfloat_addMagsF32 else softfloat_subMagsF32)
      in magsRoutine uiA uiB signA s)"

definition f32_sub :: "float32_t \<Rightarrow> float32_t \<Rightarrow> fp_state \<Rightarrow> float32_t \<times> fp_state" where
  "f32_sub a b s =
     (let uiA = a;
          signA = signF32UI uiA;
          uiB = b;
          signB = signF32UI uiB;
          magsRoutine = (if signA = signB then softfloat_subMagsF32 else softfloat_addMagsF32)
      in magsRoutine uiA (uiB XOR 0x80000000) signA s)"

definition f64_add :: "float64_t \<Rightarrow> float64_t \<Rightarrow> fp_state \<Rightarrow> float64_t \<times> fp_state" where
  "f64_add a b s =
     (let uiA = a;
          signA = signF64UI uiA;
          uiB = b;
          signB = signF64UI uiB;
          magsRoutine = (if signA = signB then softfloat_addMagsF64 else softfloat_subMagsF64)
      in magsRoutine uiA uiB signA s)"

definition f64_sub :: "float64_t \<Rightarrow> float64_t \<Rightarrow> fp_state \<Rightarrow> float64_t \<times> fp_state" where
  "f64_sub a b s =
     (let uiA = a;
          signA = signF64UI uiA;
          uiB = b;
          signB = signF64UI uiB;
          magsRoutine = (if signA = signB then softfloat_subMagsF64 else softfloat_addMagsF64)
      in magsRoutine uiA uiB signA s)"

section \<open>The algorithm in a format that keeps the contract\<close>

context softfloat_format
begin

definition add_mags ::
  "'a word \<Rightarrow> 'a word \<Rightarrow> bool \<Rightarrow> fp_state \<Rightarrow> 'a word \<times> fp_state" where
  "add_mags uiA uiB signZ s =
     (let expA = expUI uiA;
          sigA = fracUI uiA;
          expB = expUI uiB;
          sigB = fracUI uiB;
          expDiff = expA - expB;
          sigA = push_bit (x - 1) sigA;
          sigB = push_bit (x - 1) sigB;
          propagateNaN = propagate uiA uiB s
      in if expDiff = 0
         then if expA = int E
              then (if sigA OR sigB \<noteq> 0 then propagateNaN else (uiA, s))
              else if expA = 0
              then (packUI signZ 0 ((uiA + uiB) AND mask (LENGTH('a) - 1)), s)
              else roundPack signZ expA (2 ^ (f + x) + sigA + sigB) s
         else
           let finish = (\<lambda>expZ sigA sigB.
                 let sigZ = 2 ^ (f + x - 1) + sigA + sigB
                 in if sigZ < 2 ^ (f + x)
                    then roundPack signZ (expZ - 1) (push_bit 1 sigZ) s
                    else roundPack signZ expZ sigZ s)
           in if expDiff < 0
              then if expB = int E
                   then (if sigB \<noteq> 0 then propagateNaN else (packUI signZ (int E) 0, s))
                   else
                     let sigA = sigA + (if expA \<noteq> 0 then 2 ^ (f + x - 1) else sigA);
                         sigA = shift sigA (word_of_int (- expDiff))
                     in finish expB sigA sigB
              else if expA = int E
                   then (if sigA \<noteq> 0 then propagateNaN else (uiA, s))
                   else
                     let sigB = sigB + (if expB \<noteq> 0 then 2 ^ (f + x - 1) else sigB);
                         sigB = shift sigB (word_of_int expDiff)
                     in finish expA sigA sigB)"

definition sub_mags ::
  "'a word \<Rightarrow> 'a word \<Rightarrow> bool \<Rightarrow> fp_state \<Rightarrow> 'a word \<times> fp_state" where
  "sub_mags uiA uiB signZ s =
     (let expA = expUI uiA;
          sigA = fracUI uiA;
          expB = expUI uiB;
          sigB = fracUI uiB;
          expDiff = expA - expB;
          sigA = push_bit x sigA;
          sigB = push_bit x sigB;
          propagateNaN = propagate uiA uiB s;
          aBigger = (\<lambda>expA sigA sigB. normRoundPack signZ (expA - 1) (sigA - sigB) s);
          bBigger = (\<lambda>expB sigA sigB. normRoundPack (\<not> signZ) (expB - 1) (sigB - sigA) s)
      in if 0 < expDiff
         then if expA = int E
              then (if sigA \<noteq> 0 then propagateNaN else (uiA, s))
              else
                let sigB = sigB + (if expB \<noteq> 0 then 2 ^ (f + x) else sigB);
                    sigB = shift sigB (word_of_int expDiff);
                    sigA = sigA OR 2 ^ (f + x)
                in aBigger expA sigA sigB
         else if expDiff < 0
         then if expB = int E
              then (if sigB \<noteq> 0 then propagateNaN else (packUI (\<not> signZ) (int E) 0, s))
              else
                let sigA = sigA + (if expA \<noteq> 0 then 2 ^ (f + x) else sigA);
                    sigA = shift sigA (word_of_int (- expDiff));
                    sigB = sigB OR 2 ^ (f + x)
                in bBigger expB sigA sigB
         else if expA = int E
         then (if sigA OR sigB \<noteq> 0 then propagateNaN
               else (defaultNaN, softfloat_raiseFlags softfloat_flag_invalid s))
         else
           let (expA, expB) = (if expA = 0 then (1, 1) else (expA, expB))
           in if sigB < sigA then aBigger expA sigA sigB
              else if sigA < sigB then bBigger expB sigA sigB
              else (packUI (softfloat_roundingMode s = softfloat_round_min) 0 0, s))"

text \<open>An operand with \<open>k\<close> extra bits, its hidden bit made explicit (a subnormal one doubled).\<close>

definition aligned :: "nat \<Rightarrow> 'a word \<Rightarrow> 'a word" where
  "aligned k a = push_bit k (fracUI a) + (if expUI a \<noteq> 0 then 2 ^ (f + k) else push_bit k (fracUI a))"

lemma unat_frac_shift:
  assumes "k \<le> x"
  shows "unat (push_bit k (fracUI a)) = unat (fracUI a) * 2 ^ k" and "unat (push_bit k (fracUI a)) < 2 ^ (f + k)"
proof -
  have lt: "unat (fracUI a) * 2 ^ k < 2 ^ (f + k)" using frac_range [of a] by (simp add: power_add)
  also have "(2::nat) ^ (f + k) \<le> 2 ^ LENGTH('a)" using assms by (intro power_increasing) (simp_all add: len)
  finally show u: "unat (push_bit k (fracUI a)) = unat (fracUI a) * 2 ^ k" by (rule unat_push_bit_small)
  show "unat (push_bit k (fracUI a)) < 2 ^ (f + k)" unfolding u by (rule lt)
qed

lemma aligned:
  assumes k: "k \<le> x"
  shows "unat (aligned k a) < 2 ^ (f + k + 1)"
    and "real (unat (aligned k a)) * 2 ^ nat (expUI a) = real (mval f (fl_mag a)) * 2 ^ Suc k"
    and "2 ^ k dvd unat (aligned k a)"
    and "expUI a \<noteq> 0 \<Longrightarrow> unat (aligned k a) = 2 ^ (f + k) + unat (fracUI a) * 2 ^ k"
proof -
  note fr = unat_frac_shift [OF k, of a]
  have p: "unat (2 ^ (f + k) :: 'a word) = 2 ^ (f + k)" by (rule unat_pow2_word) (use k len in simp)
  have "(2::nat) ^ (f + k + 1) \<le> 2 ^ LENGTH('a)" using k by (intro power_increasing) (simp_all add: len)
  with fr p have u: "unat (aligned k a) = unat (fracUI a) * 2 ^ k + (if expUI a \<noteq> 0 then 2 ^ (f + k) else unat (fracUI a) * 2 ^ k)"
    unfolding aligned_def by (subst unat_add_small) auto
  then show "unat (aligned k a) < 2 ^ (f + k + 1)" using fr by auto
  show "2 ^ k dvd unat (aligned k a)" unfolding u by (simp add: power_add)
  show "expUI a \<noteq> 0 \<Longrightarrow> unat (aligned k a) = 2 ^ (f + k) + unat (fracUI a) * 2 ^ k" by (simp add: u)
  show "real (unat (aligned k a)) * 2 ^ nat (expUI a) = real (mval f (fl_mag a)) * 2 ^ Suc k"
  proof (cases "expUI a = 0")
    case True
    then show ?thesis by (simp add: u mval_subnormal)
  next
    case False
    then have "0 < expUI a" using exp_range(1) [of a] by simp
    moreover from this have "(2::real) ^ nat (expUI a) = 2 ^ (nat (expUI a) - 1) * 2"
      by (cases "nat (expUI a)") simp_all
    ultimately show ?thesis using False by (simp add: u mval_normal power_add algebra_simps)
  qed
qed

lemma aligned_shift:
  assumes k: "k \<le> x" and e: "expUI a < e" "e \<le> int E"
  shows "agrees 1 (real (mval f (fl_mag a)) * 2 ^ Suc k / 2 ^ nat e) (unat (shift (aligned k a) (word_of_int (e - expUI a))))"
    and "0 < c \<Longrightarrow> int c \<le> e - expUI a \<Longrightarrow> c < f + k + 1 \<Longrightarrow>
      unat (shift (aligned k a) (word_of_int (e - expUI a))) < 2 ^ (f + k + 1 - c)"
    and "e - expUI a = 1 \<Longrightarrow> 0 < k \<Longrightarrow> real (unat (shift (aligned k a) (word_of_int (e - expUI a)))) = real (mval f (fl_mag a)) * 2 ^ Suc k / 2 ^ nat e"
proof -
  define n where "n = nat (e - expUI a)"
  define cw :: uint32_t where "cw = word_of_int (e - expUI a)"
  have cn: "unat cw = n" unfolding cw_def n_def
    by (rule unat_word_of_int_nat) (use e exp_range(1) [of a] E_le in simp_all)
  have n0: "0 < n" using e by (simp add: n_def)
  with cn have c0: "cw \<noteq> 0" by auto
  have u: "unat (shift (aligned k a) cw) = jam n (unat (aligned k a))" using unat_shift [OF c0] cn by simp
  have "nat e = nat (expUI a) + n" using e exp_range(1) [of a] by (simp add: n_def)
  then have v: "real (mval f (fl_mag a)) * 2 ^ Suc k / 2 ^ nat e = real (unat (aligned k a)) / 2 ^ n"
    using aligned(2) [OF k, of a] by (simp add: power_add field_simps)
  show "agrees 1 (real (mval f (fl_mag a)) * 2 ^ Suc k / 2 ^ nat e) (unat (shift (aligned k a) (word_of_int (e - expUI a))))"
    unfolding v u cw_def [symmetric] by (rule agrees_jam [OF agrees_refl [of 0]]) simp_all
  {
    assume c: "0 < c" "int c \<le> e - expUI a" "c < f + k + 1"
    have "unat (aligned k a) < 2 ^ (f + k + 1 - c) * 2 ^ c" using aligned(1) [OF k, of a] c by (simp flip: power_add)
    also have "\<dots> \<le> 2 ^ (f + k + 1 - c) * 2 ^ n" using c by (simp add: n_def power_increasing)
    finally show "unat (shift (aligned k a) (word_of_int (e - expUI a))) < 2 ^ (f + k + 1 - c)"
      unfolding u cw_def [symmetric] using c by (simp add: jam_less_even)
  next
    assume c: "e - expUI a = 1" "0 < k"
    have "2 ^ 1 dvd (2::nat) ^ k" using c by (intro le_imp_power_dvd) simp
    then have d: "2 ^ n dvd unat (aligned k a)" using aligned(3) [OF k, of a] c by (auto simp: n_def intro: dvd_trans)
    then show "real (unat (shift (aligned k a) (word_of_int (e - expUI a)))) = real (mval f (fl_mag a)) * 2 ^ Suc k / 2 ^ nat e"
      unfolding v u cw_def [symmetric] by (simp add: jam_def real_of_nat_div)
  }
qed

text \<open>The sum of the aligned significands, normalised and rounded.\<close>

lemma add_aligned:
  assumes e: "expUI b < expUI a" "expUI a < int E"
    and r: "\<bar>r\<bar> = real (mval f (fl_mag a)) + real (mval f (fl_mag b))" "r \<noteq> 0" "sign = (r < 0)"
    and z: "sigZ = aligned (x - 1) a + shift (aligned (x - 1) b) (word_of_int (expUI a - expUI b))"
  shows "op_rounds f E zs r s
    (if sigZ < 2 ^ (f + x) then roundPack sign (expUI a - 1) (push_bit 1 sigZ) s else roundPack sign (expUI a) sigZ s)"
proof -
  let ?B = "shift (aligned (x - 1) b) (word_of_int (expUI a - expUI b))"
  have k: "x - 1 \<le> x" "Suc (x - 1) = x" "f + (x - 1) + 1 = f + x" using x_ge by simp_all
  have ea: "expUI a \<noteq> 0" using e exp_range(1) [of b] by simp
  define X where "X = real (unat (aligned (x - 1) a)) + real (mval f (fl_mag b)) * 2 ^ x / 2 ^ nat (expUI a)"
  have A: "unat (aligned (x - 1) a) < 2 ^ (f + x)" "2 ^ (f + x - 1) \<le> unat (aligned (x - 1) a)"
    using aligned(1,4) [OF k(1), of a] ea x_ge by (simp_all add: k)
  have B: "unat ?B < 2 ^ (f + x - 1)"
    using aligned_shift(2) [OF k(1) e(1), of 1] e x_ge by (simp add: k f_pos)
  have d: "2 ^ 1 dvd unat (aligned (x - 1) a)"
    by (rule dvd_trans [OF _ aligned(3) [OF k(1)]]) (use x_ge in \<open>simp add: le_imp_power_dvd\<close>)
  have lim: "(2::nat) ^ (f + x + 1) \<le> 2 ^ LENGTH('a)" by (intro power_increasing) (simp_all add: len)
  have uz: "unat sigZ = unat (aligned (x - 1) a) + unat ?B"
    unfolding z using A B lim by (intro unat_add_small) simp
  have le: "expUI a \<le> int E" using e by simp
  have ag: "agrees 1 X (unat sigZ)"
    using agrees_add [OF aligned_shift(1) [OF k(1) e(1) le] d] unfolding X_def uz k(2) .
  have "real (unat (aligned (x - 1) a)) = real (mval f (fl_mag a)) * 2 ^ x / 2 ^ nat (expUI a)"
    using aligned(2) [OF k(1), of a] unfolding k(2) by (simp add: field_simps)
  then have "X = \<bar>r\<bar> * 2 ^ x / 2 ^ nat (expUI a)" by (simp add: X_def r(1) add_divide_distrib distrib_right)
  then have rX: "\<bar>r\<bar> = X * 2 powi (expUI a - int x)" using ea exp_range(1) [of a] by (simp add: powi_minus_nat field_simps)
  have hi: "unat sigZ < 2 ^ (f + x + 1)" using A B uz by simp
  have eb: "-32768 \<le> expUI a" "expUI a < 32768" using e exp_range(1) [of b] E_le by simp_all
  show ?thesis
    by (rule roundPack_short [OF ag _ hi _ _ rX r(2,3)]) (use A(2) uz eb e exp_range(1) [of b] in auto)
qed

lemma add_subnormals:
  assumes "expUI a = 0" and "expUI b = 0"
  shows "packUI sign 0 ((a + b) AND mask (LENGTH('a) - 1)) = fl_pack sign (fl_mag a + fl_mag b)"
    and "mval f (fl_mag a + fl_mag b) = mval f (fl_mag a) + mval f (fl_mag b)"
    and "fl_mag a + fl_mag b < E * 2 ^ f"
proof -
  have lt: "fl_mag a < 2 ^ f" "fl_mag b < 2 ^ f" using assms frac_range by (simp_all add: mag_law)
  have "2 * (2::nat) ^ f \<le> E * 2 ^ f" using E_ge2 by (rule mult_le_mono1)
  with lt show small: "fl_mag a + fl_mag b < E * 2 ^ f" by linarith
  have p: "(2::nat) ^ LENGTH('a) = 2 ^ (LENGTH('a) - 1) * 2" by (simp add: len)
  define w where "w = (a + b) AND mask (LENGTH('a) - 1)"
  have "unat w = (unat a + unat b) mod 2 ^ (LENGTH('a) - 1)"
    by (simp only: w_def take_bit_eq_mask [symmetric] unat_take_bit_mod unat_word_ariths p) (simp add: mod_mult2_eq)
  also have "\<dots> = (fl_mag a + fl_mag b) mod 2 ^ (LENGTH('a) - 1)"
    unfolding fl_mag_def by (rule mod_add_eq [symmetric])
  also have "\<dots> = fl_mag a + fl_mag b" using small inf_fits by (intro mod_less) simp
  finally have u: "unat w = fl_mag a + fl_mag b" .
  show "packUI sign 0 ((a + b) AND mask (LENGTH('a) - 1)) = fl_pack sign (fl_mag a + fl_mag b)"
    unfolding w_def [symmetric] using pack_law [of 0 w sign] small inf_fits by (simp add: u)
  have "mval f m = m" if "m \<le> 2 ^ Suc f" for m using mval_scaled [of 0 f m] that by simp
  with lt show "mval f (fl_mag a + fl_mag b) = mval f (fl_mag a) + mval f (fl_mag b)" by simp
qed

lemma add_equal_exps:
  assumes "expUI a = expUI b" and "expUI a \<noteq> 0" and "expUI a < int E"
    and r: "\<bar>r\<bar> = real (mval f (fl_mag a)) + real (mval f (fl_mag b))" "r \<noteq> 0" "sign = (r < 0)"
  shows "op_rounds f E zs r s
    (roundPack sign (expUI a) (2 ^ (f + x) + push_bit (x - 1) (fracUI a) + push_bit (x - 1) (fracUI b)) s)"
proof -
  have k: "x - 1 \<le> x" "f + (x - 1) = f + x - 1" using x_ge by simp_all
  let ?w = "2 ^ (f + x) + push_bit (x - 1) (fracUI a) + push_bit (x - 1) (fracUI b)"
  let ?n = "2 ^ Suc f + unat (fracUI a) + unat (fracUI b)"
  note A = unat_frac_shift [OF k(1), of a, unfolded k(2)] and B = unat_frac_shift [OF k(1), of b, unfolded k(2)]
  have p: "unat (2 ^ (f + x) :: 'a word) = 2 ^ (f + x)" by (rule unat_pow2_word) (simp add: len)
  have h: "2 * 2 ^ (f + x - 1) = (2::nat) ^ (f + x)" using f_pos by (simp flip: power_Suc)
  have L: "(2::nat) ^ LENGTH('a) = 4 * 2 ^ (f + x)" by (simp add: len)
  have 1: "unat (2 ^ (f + x) + push_bit (x - 1) (fracUI a)) = 2 ^ (f + x) + unat (push_bit (x - 1) (fracUI a))"
    by (subst unat_add_small) (use p A(2) h L in auto)
  have uw: "unat ?w = 2 ^ (f + x) + unat (fracUI a) * 2 ^ (x - 1) + unat (fracUI b) * 2 ^ (x - 1)"
    by (subst unat_add_small; simp only: 1 A B) (use A B h L in auto)
  have "f + x = Suc f + (x - 1)" using x_ge by simp
  then have "2 ^ (f + x) = 2 ^ Suc f * (2::nat) ^ (x - 1)" by (simp only: power_add)
  then have un: "unat ?w = ?n * 2 ^ (x - 1)" unfolding uw by (simp add: distrib_right)
  have pos: "0 < expUI a" "0 < expUI b" using assms exp_range(1) [of a] by simp_all
  have "real (mval f (fl_mag a)) + real (mval f (fl_mag b)) = real ?n * 2 ^ (nat (expUI a) - 1)"
    using mval_normal [OF pos(1)] mval_normal [OF pos(2)] assms(1) by (simp add: distrib_right)
  moreover have "(2::real) powi (expUI a - int x) * 2 ^ (x - 1) = 2 ^ (nat (expUI a) - 1)"
    using pos x_ge by (simp add: powi_minus_nat power_eq_if [of 2 x] power_eq_if [of 2 "nat _"])
  moreover have "real (unat ?w) * 2 powi (expUI a - int x) = real ?n * (2 powi (expUI a - int x) * 2 ^ (x - 1))"
    unfolding un by simp
  ultimately have "\<bar>r\<bar> = real (unat ?w) * 2 powi (expUI a - int x)" by (simp only: r(1))
  moreover have lo: "2 ^ (f + x) \<le> unat ?w" unfolding uw by simp
  moreover have hi: "unat ?w < 2 ^ (f + x + 1)" unfolding uw using A B h by simp
  ultimately show ?thesis
    by (intro roundPack_rounds [OF agrees_refl lo hi _ _ _ r(2,3)]) (use assms(3) pos E_le in simp_all)
qed

lemma add_mags_a_smaller:
  assumes "expUI a < expUI b" and "expUI b < int E"
  shows "add_mags a b signZ s =
    (let sigZ = aligned (x - 1) b + shift (aligned (x - 1) a) (word_of_int (expUI b - expUI a))
     in if sigZ < 2 ^ (f + x) then roundPack signZ (expUI b - 1) (push_bit 1 sigZ) s
        else roundPack signZ (expUI b) sigZ s)"
proof -
  have k: "f + (x - 1) = f + x - 1" using x_ge by simp
  have c: "(expUI a - expUI b = 0) = False" "(expUI a - expUI b < 0) = True" "(expUI b = int E) = False" "expUI b \<noteq> 0"
    using assms exp_range(1) [of a] by simp_all
  define S where "S = shift (aligned (x - 1) a) (word_of_int (expUI b - expUI a))"
  have 1: "shift (push_bit (x - 1) (fracUI a) + (if expUI a \<noteq> 0 then 2 ^ (f + x - 1) else push_bit (x - 1) (fracUI a)))
      (word_of_int (- (expUI a - expUI b))) = S"
    unfolding S_def aligned_def k minus_diff_eq ..
  have 2: "2 ^ (f + x - 1) + S + push_bit (x - 1) (fracUI b) = aligned (x - 1) b + S"
    using c(4) unfolding aligned_def k by simp
  show ?thesis unfolding add_mags_def Let_def 1 2 c(1-3) if_True if_False S_def [symmetric] ..
qed

lemma add_mags_a_bigger:
  assumes "expUI b < expUI a" and "expUI a < int E"
  shows "add_mags a b signZ s =
    (let sigZ = aligned (x - 1) a + shift (aligned (x - 1) b) (word_of_int (expUI a - expUI b))
     in if sigZ < 2 ^ (f + x) then roundPack signZ (expUI a - 1) (push_bit 1 sigZ) s
        else roundPack signZ (expUI a) sigZ s)"
proof -
  have k: "f + (x - 1) = f + x - 1" using x_ge by simp
  have c: "(expUI a - expUI b = 0) = False" "(expUI a - expUI b < 0) = False" "(expUI a = int E) = False" "expUI a \<noteq> 0"
    using assms exp_range(1) [of b] by simp_all
  define S where "S = shift (aligned (x - 1) b) (word_of_int (expUI a - expUI b))"
  have 1: "shift (push_bit (x - 1) (fracUI b) + (if expUI b \<noteq> 0 then 2 ^ (f + x - 1) else push_bit (x - 1) (fracUI b)))
      (word_of_int (expUI a - expUI b)) = S"
    unfolding S_def aligned_def k ..
  have 2: "2 ^ (f + x - 1) + push_bit (x - 1) (fracUI a) + S = aligned (x - 1) a + S"
    using c(4) unfolding aligned_def k by simp
  show ?thesis unfolding add_mags_def Let_def 1 2 c(1-3) if_True if_False S_def [symmetric] ..
qed

theorem add_mags_rounds:
  assumes fin: "fl_mag a < E * 2 ^ f" "fl_mag b < E * 2 ^ f"
    and r: "r = (if signZ then - 1 else 1) * (real (mval f (fl_mag a)) + real (mval f (fl_mag b)))"
  shows "op_rounds f E signZ r s (add_mags a b signZ s)"
proof -
  have e: "expUI a < int E" "expUI b < int E" using fin by (simp_all add: finite_iff)
  have ar: "\<bar>r\<bar> = real (mval f (fl_mag a)) + real (mval f (fl_mag b))" by (auto simp: r)
  have sg: "r \<noteq> 0 \<Longrightarrow> signZ = (r < 0)" by (auto simp: r)
  have nz: "r \<noteq> 0" if "expUI a \<noteq> 0 \<or> expUI b \<noteq> 0"
  proof -
    have "0 < fl_mag a \<or> 0 < fl_mag b" using that zero_iff [of a] zero_iff [of b] by auto
    then have "0 < mval f (fl_mag a) \<or> 0 < mval f (fl_mag b)" by (simp add: mval_pos_iff)
    then show ?thesis by (auto simp: r)
  qed
  consider "expUI a = expUI b" "expUI a = 0" | "expUI a = expUI b" "expUI a \<noteq> 0" | "expUI a < expUI b" | "expUI b < expUI a"
    by linarith
  then show ?thesis
  proof cases
    case 1
    then have z: "expUI b = 0" by simp
    note sub = add_subnormals [OF 1(2) z]
    have "op_rounds f E signZ r s (fl_pack signZ (fl_mag a + fl_mag b) :: 'a word, softfloat_raiseFlags 0 s)"
      by (intro op_rounds_pack round_result_exact sub(3) inf_fits) (use ar sg sub(2) in auto)
    with 1 z E_ge2 show ?thesis by (simp add: add_mags_def sub(1) [unfolded One_nat_def])
  next
    case 2
    with add_equal_exps [OF 2 e(1) ar nz sg] nz sg e show ?thesis by (simp add: add_mags_def)
  next
    case 3
    then have "r \<noteq> 0" using nz exp_range(1) [of a] by auto
    have "\<bar>r\<bar> = real (mval f (fl_mag b)) + real (mval f (fl_mag a))" using ar by simp
    from add_aligned [OF 3 e(2) this \<open>r \<noteq> 0\<close> sg [OF \<open>r \<noteq> 0\<close>] refl, of signZ s]
    show ?thesis unfolding add_mags_a_smaller [OF 3 e(2)] Let_def .
  next
    case 4
    then have "r \<noteq> 0" using nz exp_range(1) [of b] by auto
    from add_aligned [OF 4 e(1) ar this sg [OF this] refl, of signZ s]
    show ?thesis unfolding add_mags_a_bigger [OF 4 e(1)] Let_def .
  qed
qed

text \<open>The difference of the aligned significands.\<close>

lemma exp_less_mag: "expUI b < expUI a \<Longrightarrow> fl_mag b < fl_mag a"
  unfolding mag_law using exp_range(1) [of b]
  by (subst digit_less [OF frac_range frac_range]) simp

lemma sub_aligned:
  assumes e: "expUI b < expUI a" "expUI a < int E"
    and r: "\<bar>r\<bar> = real (mval f (fl_mag a)) - real (mval f (fl_mag b))" "sign = (r < 0)"
  shows "op_rounds f E zs r s (normRoundPack sign (expUI a - 1)
    (aligned x a - shift (aligned x b) (word_of_int (expUI a - expUI b))) s)"
proof -
  define B where "B = shift (aligned x b) (word_of_int (expUI a - expUI b))"
  have le: "expUI a \<le> int E" using e by simp
  have ea: "expUI a \<noteq> 0" using e exp_range(1) [of b] by simp
  define X where "X = real (unat (aligned x a)) - real (mval f (fl_mag b)) * 2 ^ Suc x / 2 ^ nat (expUI a)"
  have A: "unat (aligned x a) < 2 ^ (f + x + 1)" "2 ^ (f + x) \<le> unat (aligned x a)"
    using aligned(1,4) [of x a] ea by simp_all
  have B: "unat B < 2 ^ (f + x)"
    using aligned_shift(2) [of x b "expUI a" 1] e le f_pos unfolding B_def by simp
  have u: "unat (aligned x a - B) = unat (aligned x a) - unat B"
    by (rule unat_sub_le) (use A B in \<open>simp add: word_le_nat_alt\<close>)
  have d: "2 ^ 1 dvd unat (aligned x a)"
    by (rule dvd_trans [OF _ aligned(3)]) (use x_ge in \<open>simp_all add: le_imp_power_dvd\<close>)
  have "agrees 1 X (unat (aligned x a - B))"
    unfolding u unfolding X_def B_def
    by (rule agrees_sub [OF aligned_shift(1) [OF order_refl e(1) le] d]) (use A B in \<open>simp add: B_def\<close>)
  then have ag2: "agrees (x - 2) X (unat (aligned x a - B))" by (rule agrees_mono) (use x_ge in simp)
  have ag: "X = real (unat (aligned x a - B)) \<or>
      (2 ^ (f + x - 1) \<le> unat (aligned x a - B) \<and> agrees (x - 2) X (unat (aligned x a - B)))"
  proof (cases "expUI a - expUI b = 1")
    case True
    have "real (unat B) = real (mval f (fl_mag b)) * 2 ^ Suc x / 2 ^ nat (expUI a)"
      unfolding B_def using aligned_shift(3) [OF order_refl e(1) le True] x_ge by simp
    then show ?thesis unfolding u X_def using A B by (simp add: of_nat_diff)
  next
    case False
    have h: "2 * 2 ^ (f + x - 1) = (2::nat) ^ (f + x)" using f_pos by (simp flip: power_Suc)
    have "unat B < 2 ^ (f + x + 1 - 2)"
      unfolding B_def by (rule aligned_shift(2)) (use False e le x_ge in simp_all)
    then have "2 ^ (f + x - 1) \<le> unat (aligned x a - B)" unfolding u using A(2) h by simp
    with ag2 show ?thesis by blast
  qed
  have "real (unat (aligned x a)) = real (mval f (fl_mag a)) * 2 ^ Suc x / 2 ^ nat (expUI a)"
    using aligned(2) [of x a] by (simp add: field_simps)
  then have "X = \<bar>r\<bar> * 2 ^ Suc x / 2 ^ nat (expUI a)" by (simp add: X_def r(1) diff_divide_distrib left_diff_distrib)
  moreover have "(2::real) powi (expUI a - 1 - int x) = 2 ^ nat (expUI a) / 2 ^ Suc x"
    using powi_minus_nat [of "expUI a" "Suc x"] ea exp_range(1) [of a] by (simp add: algebra_simps)
  ultimately have rX: "\<bar>r\<bar> = X * 2 powi (expUI a - 1 - int x)" by simp
  have "fl_mag b < fl_mag a" using e(1) by (rule exp_less_mag)
  then have "r \<noteq> 0" using r(1) by auto
  moreover have "aligned x a - B \<noteq> 0" using u A B by auto
  moreover have "unat (aligned x a - B) < 2 ^ (f + x + 1)" using u A by simp
  ultimately show ?thesis
    unfolding B_def [symmetric] using e exp_range(1) [of b] E_le
    by (intro normRoundPack_rounds [OF ag _ _ _ _ rX]) (use r in simp_all)
qed

lemma sub_equal_exps:
  assumes "expUI a = expUI b" and "expUI a < int E" and lt: "push_bit x (fracUI b) < push_bit x (fracUI a)"
    and e: "e = (if expUI a = 0 then 1 else expUI a)"
    and r: "\<bar>r\<bar> = real (mval f (fl_mag a)) - real (mval f (fl_mag b))" "sign = (r < 0)"
  shows "op_rounds f E zs r s (normRoundPack sign (e - 1) (push_bit x (fracUI a) - push_bit x (fracUI b)) s)"
proof -
  let ?w = "push_bit x (fracUI a) - push_bit x (fracUI b)"
  note A = unat_frac_shift [OF order_refl, of a] and B = unat_frac_shift [OF order_refl, of b]
  have fr: "unat (fracUI b) < unat (fracUI a)" using lt by (simp add: word_less_nat_alt A B)
  have u: "unat ?w = (unat (fracUI a) - unat (fracUI b)) * 2 ^ x"
    using lt by (simp add: unat_sub_le A B diff_mult_distrib)
  have mv: "mval f (fl_mag c) = (if expUI c = 0 then 0 else 2 ^ f * 2 ^ (nat e - 1)) + unat (fracUI c) * 2 ^ (nat e - 1)"
    if "expUI c = expUI a" for c
    using mval_subnormal [of c] mval_normal [of c] exp_range(1) [of c] that e by (auto simp: distrib_right)
  have "\<bar>r\<bar> = real (unat (fracUI a) - unat (fracUI b)) * 2 ^ (nat e - 1)"
    using fr assms(1) by (simp add: r(1) mv of_nat_diff left_diff_distrib)
  moreover have "0 \<le> e - 1" using e exp_range(1) [of a] by (auto split: if_splits)
  then have "(2::real) powi (e - 1 - int x) = 2 ^ (nat e - 1) / 2 ^ x"
    using powi_minus_nat [of "e - 1" x] by (simp add: nat_diff_distrib)
  ultimately have "\<bar>r\<bar> = real (unat ?w) * 2 powi (e - 1 - int x)" unfolding u by simp
  moreover have "0 < unat ?w" unfolding u using fr by simp
  then have "?w \<noteq> 0" by auto
  moreover have "unat ?w < 2 ^ (f + x + 1)" using lt A by (simp add: unat_sub_le)
  moreover have "fl_mag b < fl_mag a" unfolding mag_law using fr assms(1) by simp
  then have "r \<noteq> 0" using r(1) by auto
  moreover have "-30000 \<le> e - 1" "e - 1 < 30000" using assms(2) e exp_range(1) [of a] E_le by auto
  ultimately show ?thesis using r(2) by (intro normRoundPack_rounds [of "real (unat ?w)"]) auto
qed

lemma sub_mags_a_bigger:
  assumes "expUI b < expUI a" and "expUI a < int E"
  shows "sub_mags a b signZ s =
    normRoundPack signZ (expUI a - 1) (aligned x a - shift (aligned x b) (word_of_int (expUI a - expUI b))) s"
proof -
  have c: "(0 < expUI a - expUI b) = True" "(expUI a = int E) = False" "expUI a \<noteq> 0"
    using assms exp_range(1) [of b] by simp_all
  have "push_bit x (fracUI a) OR 2 ^ (f + x) = aligned x a"
    using or_hidden_bit(1) [OF unat_frac_shift(2) [of x a]] c(3) by (simp add: aligned_def len)
  then show ?thesis unfolding sub_mags_def Let_def c(1,2) if_True if_False aligned_def [of x b] by simp
qed

lemma sub_mags_b_bigger:
  assumes "expUI a < expUI b" and "expUI b < int E"
  shows "sub_mags a b signZ s =
    normRoundPack (\<not> signZ) (expUI b - 1) (aligned x b - shift (aligned x a) (word_of_int (expUI b - expUI a))) s"
proof -
  have c: "(0 < expUI a - expUI b) = False" "(expUI a - expUI b < 0) = True" "(expUI b = int E) = False" "expUI b \<noteq> 0"
    using assms exp_range(1) [of a] by simp_all
  have "push_bit x (fracUI b) OR 2 ^ (f + x) = aligned x b"
    using or_hidden_bit(1) [OF unat_frac_shift(2) [of x b]] c(4) by (simp add: aligned_def len)
  then show ?thesis unfolding sub_mags_def Let_def c(1-3) if_True if_False minus_diff_eq aligned_def [of x a] by simp
qed

theorem sub_mags_rounds:
  assumes fin: "fl_mag a < E * 2 ^ f" "fl_mag b < E * 2 ^ f"
    and r: "r = (if signZ then - 1 else 1) * (real (mval f (fl_mag a)) - real (mval f (fl_mag b)))"
  shows "op_rounds f E (softfloat_roundingMode s = softfloat_round_min) r s (sub_mags a b signZ s)"
proof -
  have e: "expUI a < int E" "expUI b < int E" using fin by (simp_all add: finite_iff)
  have big: "\<bar>r\<bar> = real (mval f (fl_mag a)) - real (mval f (fl_mag b)) \<and> signZ = (r < 0)" if "fl_mag b < fl_mag a"
    using that mval_less_iff [of f "fl_mag b" "fl_mag a"] by (auto simp: r)
  have small: "\<bar>r\<bar> = real (mval f (fl_mag b)) - real (mval f (fl_mag a)) \<and> (\<not> signZ) = (r < 0)" if "fl_mag a < fl_mag b"
    using that mval_less_iff [of f "fl_mag a" "fl_mag b"] by (auto simp: r)
  consider "expUI b < expUI a" | "expUI a < expUI b" | "expUI a = expUI b" by linarith
  then show ?thesis
  proof cases
    case 1
    with big [OF exp_less_mag] sub_aligned [OF 1 e(1)] show ?thesis by (simp add: sub_mags_a_bigger [OF 1 e(1)])
  next
    case 2
    with small [OF exp_less_mag] sub_aligned [OF 2 e(2)] show ?thesis by (simp add: sub_mags_b_bigger [OF 2 e(2)])
  next
    case 3
    let ?A = "push_bit x (fracUI a)" and ?B = "push_bit x (fracUI b)"
    have cmp: "?B < ?A \<longleftrightarrow> fl_mag b < fl_mag a" "?A < ?B \<longleftrightarrow> fl_mag a < fl_mag b"
      using 3 by (simp_all add: word_less_nat_alt unat_frac_shift mag_law)
    have code: "sub_mags a b signZ s = (let e = (if expUI a = 0 then 1 else expUI a) in
      if ?B < ?A then normRoundPack signZ (e - 1) (?A - ?B) s
      else if ?A < ?B then normRoundPack (\<not> signZ) (e - 1) (?B - ?A) s
      else (packUI (softfloat_roundingMode s = softfloat_round_min) 0 0, s))"
      using 3 e E_ge2 by (simp add: sub_mags_def Let_def)
    consider "fl_mag b < fl_mag a" | "fl_mag a < fl_mag b" | "fl_mag a = fl_mag b" by linarith
    then show ?thesis
    proof cases
      case 1
      with big [OF 1] sub_equal_exps [OF 3 e(1) _ refl] cmp code show ?thesis by simp
    next
      case 2
      have "op_rounds f E (softfloat_roundingMode s = softfloat_round_min) r s
          (normRoundPack (\<not> signZ) ((if expUI b = 0 then 1 else expUI b) - 1) (?B - ?A) s)"
        by (intro sub_equal_exps [OF 3 [symmetric] e(2) _ refl]) (use cmp 2 small [OF 2] in auto)
      moreover have "\<not> ?B < ?A" "?A < ?B" using 2 cmp by simp_all
      ultimately show ?thesis unfolding code Let_def 3 by (simp only: if_True if_False)
    next
      case eq: 3
      then have r0: "r = 0" by (simp add: r)
      let ?z = "packUI (softfloat_roundingMode s = softfloat_round_min) 0 0"
      have z: "fl_mag ?z = 0" "fl_sign ?z = (softfloat_roundingMode s = softfloat_round_min)"
        using pack_sign_mag [of 0 0] by simp_all
      have "op_rounds f E (softfloat_roundingMode s = softfloat_round_min) r s (?z, s)"
        by (rule op_rounds_exact) (use r0 z E_ge2 in \<open>simp_all add: fl_real_def\<close>)
      with eq cmp code show ?thesis by simp
    qed
  qed
qed

text \<open>Signed operands.\<close>

theorem add_rounds:
  assumes "fl_mag a < E * 2 ^ f" and "fl_mag b < E * 2 ^ f"
  shows "op_rounds f E (if signUI a = signUI b then signUI a else softfloat_roundingMode s = softfloat_round_min)
    (fl_real f a + fl_real f b) s ((if signUI a = signUI b then add_mags else sub_mags) a b (signUI a) s)"
proof (cases "signUI a = signUI b")
  case True
  with add_mags_rounds [OF assms refl, of "signUI a" s] show ?thesis by (auto simp: fl_real_def sign_law)
next
  case False
  with sub_mags_rounds [OF assms refl, of s "signUI a"] show ?thesis by (auto simp: fl_real_def sign_law)
qed

theorem sub_rounds:
  assumes "fl_mag a < E * 2 ^ f" and "fl_mag b < E * 2 ^ f" and b': "fl_mag b' = fl_mag b"
  shows "op_rounds f E (if signUI a = signUI b then softfloat_roundingMode s = softfloat_round_min else signUI a)
    (fl_real f a - fl_real f b) s ((if signUI a = signUI b then sub_mags else add_mags) a b' (signUI a) s)"
proof (cases "signUI a = signUI b")
  case True
  with sub_mags_rounds [OF assms(1) assms(2) [folded b'] refl, of s "signUI a"] show ?thesis
    by (auto simp: fl_real_def sign_law b')
next
  case False
  with add_mags_rounds [OF assms(1) assms(2) [folded b'] refl, of "signUI a" s] show ?thesis
    by (auto simp: fl_real_def sign_law b')
qed

text \<open>NaNs and infinities.\<close>

lemma frac_shift_0: "k \<le> x \<Longrightarrow> push_bit k (fracUI a) = 0 \<longleftrightarrow> fracUI a = 0"
  using unat_frac_shift(1) [of k a] by (metis mult_eq_0_iff power_not_zero unat_eq_zero zero_neq_numeral)

lemma special_exp:
  "fl_nan f E a \<longleftrightarrow> expUI a = int E \<and> fracUI a \<noteq> 0"
  "fl_mag a = E * 2 ^ f \<longleftrightarrow> expUI a = int E \<and> fracUI a = 0"
  using nan_iff [of a] inf_iff [of a] by (simp_all add: fl_nan_def)

lemma pack_inf: "packUI sign (int E) 0 = fl_pack sign (E * 2 ^ f)"
  using pack_law [of "int E" 0 sign] inf_fits by simp

lemmas mags_special = special_exp frac_shift_0 or_eq_0_iff pack_inf

lemma mags_nan:
  assumes "fl_nan f E a \<or> fl_nan f E b"
  shows "add_mags a b sign s = propagate a b s" and "sub_mags a b sign s = propagate a b s"
  using assms exp_range [of a] exp_range [of b]
  by (cases "expUI a" "expUI b" rule: linorder_cases;
      auto simp: add_mags_def sub_mags_def mags_special Let_def)+

lemma add_mags_inf:
  assumes "\<not> fl_nan f E a" and "\<not> fl_nan f E b"
  shows "fl_mag a = E * 2 ^ f \<Longrightarrow> add_mags a b sign s = (a, s)"
    and "fl_mag a \<noteq> E * 2 ^ f \<Longrightarrow> fl_mag b = E * 2 ^ f \<Longrightarrow> add_mags a b sign s = (fl_pack sign (E * 2 ^ f), s)"
  using assms exp_range [of a] exp_range [of b]
  by (cases "expUI a" "expUI b" rule: linorder_cases; simp add: add_mags_def mags_special Let_def)+

lemma sub_mags_inf:
  assumes "\<not> fl_nan f E a" and "\<not> fl_nan f E b"
  shows "fl_mag a = E * 2 ^ f \<Longrightarrow> fl_mag b \<noteq> E * 2 ^ f \<Longrightarrow> sub_mags a b sign s = (a, s)"
    and "fl_mag a \<noteq> E * 2 ^ f \<Longrightarrow> fl_mag b = E * 2 ^ f \<Longrightarrow> sub_mags a b sign s = (fl_pack (\<not> sign) (E * 2 ^ f), s)"
    and "fl_mag a = E * 2 ^ f \<Longrightarrow> fl_mag b = E * 2 ^ f \<Longrightarrow>
      sub_mags a b sign s = (defaultNaN, softfloat_raiseFlags softfloat_flag_invalid s)"
  using assms exp_range [of a] exp_range [of b]
  by (cases "expUI a" "expUI b" rule: linorder_cases; simp add: sub_mags_def mags_special Let_def)+

lemma add_special:
  assumes "E * 2 ^ f \<le> fl_mag a \<or> E * 2 ^ f \<le> fl_mag b"
  shows "(if signUI a = signUI b then add_mags else sub_mags) a b (signUI a) s =
    (if fl_nan f E a \<or> fl_nan f E b then propagate a b s
     else if fl_mag a = E * 2 ^ f \<and> fl_mag b = E * 2 ^ f \<and> signUI a \<noteq> signUI b
     then (defaultNaN, softfloat_raiseFlags softfloat_flag_invalid s)
     else if fl_mag a = E * 2 ^ f then (a, s) else (b, s))"
proof (cases "fl_nan f E a \<or> fl_nan f E b")
  case True
  then show ?thesis by (simp add: mags_nan)
next
  case False
  then have n: "\<not> fl_nan f E a" "\<not> fl_nan f E b" by simp_all
  have b: "fl_pack (signUI b) (E * 2 ^ f) = b" if "fl_mag b = E * 2 ^ f"
    using fl_pack_unpack [of b] by (simp add: sign_law that)
  have "fl_mag a \<le> E * 2 ^ f" "fl_mag b \<le> E * 2 ^ f" using False by (simp_all add: fl_nan_def)
  with assms(1) have inf: "fl_mag a = E * 2 ^ f \<or> fl_mag b = E * 2 ^ f" by linarith
  consider "fl_mag a = E * 2 ^ f" "fl_mag b = E * 2 ^ f" | "fl_mag a = E * 2 ^ f" "fl_mag b \<noteq> E * 2 ^ f"
    | "fl_mag a \<noteq> E * 2 ^ f" "fl_mag b = E * 2 ^ f"
    using inf by blast
  then show ?thesis
  proof cases
    case 1
    then show ?thesis using n by (cases "signUI a = signUI b") (simp_all add: add_mags_inf [OF n] sub_mags_inf [OF n])
  next
    case 2
    then show ?thesis using n by (cases "signUI a = signUI b") (simp_all add: add_mags_inf [OF n] sub_mags_inf [OF n])
  next
    case 3
    then show ?thesis using n b by (cases "signUI a = signUI b") (simp_all add: add_mags_inf [OF n] sub_mags_inf [OF n])
  qed
qed

lemma sub_special:
  assumes "E * 2 ^ f \<le> fl_mag a \<or> E * 2 ^ f \<le> fl_mag b" and b': "fl_mag b' = fl_mag b"
  shows "(if signUI a = signUI b then sub_mags else add_mags) a b' (signUI a) s =
    (if fl_nan f E a \<or> fl_nan f E b then propagate a b' s
     else if fl_mag a = E * 2 ^ f \<and> fl_mag b = E * 2 ^ f \<and> signUI a = signUI b
     then (defaultNaN, softfloat_raiseFlags softfloat_flag_invalid s)
     else if fl_mag a = E * 2 ^ f then (a, s) else (fl_pack (\<not> signUI b) (E * 2 ^ f), s))"
proof (cases "fl_nan f E a \<or> fl_nan f E b")
  case True
  then have "fl_nan f E a \<or> fl_nan f E b'" by (simp add: fl_nan_def b')
  with True show ?thesis by (simp add: mags_nan)
next
  case False
  then have n: "\<not> fl_nan f E a" "\<not> fl_nan f E b'" by (simp_all add: fl_nan_def b')
  have "fl_mag a \<le> E * 2 ^ f" "fl_mag b \<le> E * 2 ^ f" using False by (simp_all add: fl_nan_def)
  with assms(1) have inf: "fl_mag a = E * 2 ^ f \<or> fl_mag b = E * 2 ^ f" by linarith
  consider "fl_mag a = E * 2 ^ f" "fl_mag b = E * 2 ^ f" | "fl_mag a = E * 2 ^ f" "fl_mag b \<noteq> E * 2 ^ f"
    | "fl_mag a \<noteq> E * 2 ^ f" "fl_mag b = E * 2 ^ f"
    using inf by blast
  then show ?thesis
  proof cases
    case 1
    then show ?thesis using False b' by (cases "signUI a = signUI b") (simp_all add: add_mags_inf [OF n] sub_mags_inf [OF n])
  next
    case 2
    then show ?thesis using False b' by (cases "signUI a = signUI b") (simp_all add: add_mags_inf [OF n] sub_mags_inf [OF n])
  next
    case 3
    then show ?thesis using False b' by (cases "signUI a = signUI b") (simp_all add: add_mags_inf [OF n] sub_mags_inf [OF n])
  qed
qed

end

section \<open>The routines of both formats\<close>

lemma addMagsF32_scheme: "softfloat_addMagsF32 = sf32.add_mags"
  by (simp add: fun_eq_iff softfloat_addMagsF32_def sf32.add_mags_def Let_def mask_eq_exp_minus_1)

lemma addMagsF64_scheme: "softfloat_addMagsF64 = sf64.add_mags"
  by (simp add: fun_eq_iff softfloat_addMagsF64_def sf64.add_mags_def Let_def mask_eq_exp_minus_1)

lemma subMagsF32_scheme: "softfloat_subMagsF32 = sf32.sub_mags"
  by (simp add: fun_eq_iff softfloat_subMagsF32_def sf32.sub_mags_def Let_def)

lemma subMagsF64_scheme: "softfloat_subMagsF64 = sf64.sub_mags"
  by (simp add: fun_eq_iff softfloat_subMagsF64_def sf64.sub_mags_def Let_def)

lemma mag_flip: "fl_mag (b XOR 0x80000000) = fl_mag b" for b :: uint32_t
proof -
  have "unat (b XOR 0x80000000) mod 2 ^ 31 = unat b mod 2 ^ 31"
    unfolding unat_take_bit_mod [symmetric] by (simp add: take_bit_xor)
  then show ?thesis by (simp add: fl_mag_def)
qed

lemma f32_add_eq: "f32_add a b s =
    (if signF32UI a = signF32UI b then sf32.add_mags else sf32.sub_mags) a b (signF32UI a) s"
  by (simp add: f32_add_def Let_def addMagsF32_scheme subMagsF32_scheme)

lemma f64_add_eq: "f64_add a b s =
    (if signF64UI a = signF64UI b then sf64.add_mags else sf64.sub_mags) a b (signF64UI a) s"
  by (simp add: f64_add_def Let_def addMagsF64_scheme subMagsF64_scheme)

lemma f32_sub_eq: "f32_sub a b s =
    (if signF32UI a = signF32UI b then sf32.sub_mags else sf32.add_mags) a (b XOR 0x80000000) (signF32UI a) s"
  by (simp add: f32_sub_def Let_def addMagsF32_scheme subMagsF32_scheme)

lemma f64_sub_eq: "f64_sub a b s =
    (if signF64UI a = signF64UI b then sf64.sub_mags else sf64.add_mags) a b (signF64UI a) s"
  by (simp add: f64_sub_def Let_def addMagsF64_scheme subMagsF64_scheme)

section \<open>Correctness\<close>

lemma f32_add_correct:
  assumes "fl_mag a < 255 * 2 ^ 23" and "fl_mag b < 255 * 2 ^ 23"
  shows "op_rounds 23 255 (if fl_sign a = fl_sign b then fl_sign a else softfloat_roundingMode s = softfloat_round_min)
    (fl_real 23 a + fl_real 23 b) s (f32_add a b s)"
  using sf32.add_rounds [OF assms, of s] unfolding f32_add_eq f32.sign_law .

lemma f64_add_correct:
  assumes "fl_mag a < 2047 * 2 ^ 52" and "fl_mag b < 2047 * 2 ^ 52"
  shows "op_rounds 52 2047 (if fl_sign a = fl_sign b then fl_sign a else softfloat_roundingMode s = softfloat_round_min)
    (fl_real 52 a + fl_real 52 b) s (f64_add a b s)"
  using sf64.add_rounds [OF assms, of s] unfolding f64_add_eq f64.sign_law .

lemma f32_sub_correct:
  assumes "fl_mag a < 255 * 2 ^ 23" and "fl_mag b < 255 * 2 ^ 23"
  shows "op_rounds 23 255 (if fl_sign a = fl_sign b then softfloat_roundingMode s = softfloat_round_min else fl_sign a)
    (fl_real 23 a - fl_real 23 b) s (f32_sub a b s)"
  using sf32.sub_rounds [OF assms mag_flip, of s] unfolding f32_sub_eq f32.sign_law .

lemma f64_sub_correct:
  assumes "fl_mag a < 2047 * 2 ^ 52" and "fl_mag b < 2047 * 2 ^ 52"
  shows "op_rounds 52 2047 (if fl_sign a = fl_sign b then softfloat_roundingMode s = softfloat_round_min else fl_sign a)
    (fl_real 52 a - fl_real 52 b) s (f64_sub a b s)"
  using sf64.sub_rounds [OF assms refl, of s] unfolding f64_sub_eq f64.sign_law .

lemma f32_add_special:
  assumes "255 * 2 ^ 23 \<le> fl_mag a \<or> 255 * 2 ^ 23 \<le> fl_mag b"
  shows "f32_add a b s =
    (if fl_nan 23 255 a \<or> fl_nan 23 255 b then softfloat_propagateNaNF32UI a b s
     else if fl_mag a = 255 * 2 ^ 23 \<and> fl_mag b = 255 * 2 ^ 23 \<and> fl_sign a \<noteq> fl_sign b
     then (defaultNaNF32UI, softfloat_raiseFlags softfloat_flag_invalid s)
     else if fl_mag a = 255 * 2 ^ 23 then (a, s) else (b, s))"
  using sf32.add_special [OF assms, of s] unfolding f32_add_eq f32.sign_law .

lemma f64_add_special:
  assumes "2047 * 2 ^ 52 \<le> fl_mag a \<or> 2047 * 2 ^ 52 \<le> fl_mag b"
  shows "f64_add a b s =
    (if fl_nan 52 2047 a \<or> fl_nan 52 2047 b then softfloat_propagateNaNF64UI a b s
     else if fl_mag a = 2047 * 2 ^ 52 \<and> fl_mag b = 2047 * 2 ^ 52 \<and> fl_sign a \<noteq> fl_sign b
     then (defaultNaNF64UI, softfloat_raiseFlags softfloat_flag_invalid s)
     else if fl_mag a = 2047 * 2 ^ 52 then (a, s) else (b, s))"
  using sf64.add_special [OF assms, of s] unfolding f64_add_eq f64.sign_law .

lemma f32_sub_special:
  assumes "255 * 2 ^ 23 \<le> fl_mag a \<or> 255 * 2 ^ 23 \<le> fl_mag b"
  shows "f32_sub a b s =
    (if fl_nan 23 255 a \<or> fl_nan 23 255 b then softfloat_propagateNaNF32UI a (b XOR 0x80000000) s
     else if fl_mag a = 255 * 2 ^ 23 \<and> fl_mag b = 255 * 2 ^ 23 \<and> fl_sign a = fl_sign b
     then (defaultNaNF32UI, softfloat_raiseFlags softfloat_flag_invalid s)
     else if fl_mag a = 255 * 2 ^ 23 then (a, s) else (fl_pack (\<not> fl_sign b) (255 * 2 ^ 23), s))"
  using sf32.sub_special [OF assms mag_flip, of s] unfolding f32_sub_eq f32.sign_law .

lemma f64_sub_special:
  assumes "2047 * 2 ^ 52 \<le> fl_mag a \<or> 2047 * 2 ^ 52 \<le> fl_mag b"
  shows "f64_sub a b s =
    (if fl_nan 52 2047 a \<or> fl_nan 52 2047 b then softfloat_propagateNaNF64UI a b s
     else if fl_mag a = 2047 * 2 ^ 52 \<and> fl_mag b = 2047 * 2 ^ 52 \<and> fl_sign a = fl_sign b
     then (defaultNaNF64UI, softfloat_raiseFlags softfloat_flag_invalid s)
     else if fl_mag a = 2047 * 2 ^ 52 then (a, s) else (fl_pack (\<not> fl_sign b) (2047 * 2 ^ 52), s))"
  using sf64.sub_special [OF assms refl, of s] unfolding f64_sub_eq f64.sign_law .

text \<open>
  Property C22: addition and subtraction with a special operand, both formats. A NaN operand gives the propagated NaN; an infinity absorbs every
  finite operand and an infinity it does not cancel; infinities that cancel raise invalid and give the default NaN.
\<close>

theorem add_sub_special:
  assumes "255 * 2 ^ 23 \<le> fl_mag a \<or> 255 * 2 ^ 23 \<le> fl_mag b" and "2047 * 2 ^ 52 \<le> fl_mag c \<or> 2047 * 2 ^ 52 \<le> fl_mag d"
  shows "f32_add a b s =
    (if fl_nan 23 255 a \<or> fl_nan 23 255 b then softfloat_propagateNaNF32UI a b s
     else if fl_mag a = 255 * 2 ^ 23 \<and> fl_mag b = 255 * 2 ^ 23 \<and> fl_sign a \<noteq> fl_sign b
     then (defaultNaNF32UI, softfloat_raiseFlags softfloat_flag_invalid s)
     else if fl_mag a = 255 * 2 ^ 23 then (a, s) else (b, s)) \<and>
    f64_add c d s =
    (if fl_nan 52 2047 c \<or> fl_nan 52 2047 d then softfloat_propagateNaNF64UI c d s
     else if fl_mag c = 2047 * 2 ^ 52 \<and> fl_mag d = 2047 * 2 ^ 52 \<and> fl_sign c \<noteq> fl_sign d
     then (defaultNaNF64UI, softfloat_raiseFlags softfloat_flag_invalid s)
     else if fl_mag c = 2047 * 2 ^ 52 then (c, s) else (d, s)) \<and>
    f32_sub a b s =
    (if fl_nan 23 255 a \<or> fl_nan 23 255 b then softfloat_propagateNaNF32UI a (b XOR 0x80000000) s
     else if fl_mag a = 255 * 2 ^ 23 \<and> fl_mag b = 255 * 2 ^ 23 \<and> fl_sign a = fl_sign b
     then (defaultNaNF32UI, softfloat_raiseFlags softfloat_flag_invalid s)
     else if fl_mag a = 255 * 2 ^ 23 then (a, s) else (fl_pack (\<not> fl_sign b) (255 * 2 ^ 23), s)) \<and>
    f64_sub c d s =
    (if fl_nan 52 2047 c \<or> fl_nan 52 2047 d then softfloat_propagateNaNF64UI c d s
     else if fl_mag c = 2047 * 2 ^ 52 \<and> fl_mag d = 2047 * 2 ^ 52 \<and> fl_sign c = fl_sign d
     then (defaultNaNF64UI, softfloat_raiseFlags softfloat_flag_invalid s)
     else if fl_mag c = 2047 * 2 ^ 52 then (c, s) else (fl_pack (\<not> fl_sign d) (2047 * 2 ^ 52), s))"
  by (intro conjI f32_add_special [OF assms(1)] f64_add_special [OF assms(2)] f32_sub_special [OF assms(1)] f64_sub_special [OF assms(2)])

theorem add_sub_special_witness:
  "f32_add 0x7F800000 0x7F800000 init_state = ((0x7F800000, init_state)) \<and>
   f64_add 0x7FF0000000000000 0x7FF0000000000000 init_state = ((0x7FF0000000000000, init_state)) \<and>
   f32_sub 0x7F800000 0x7F800000 init_state = ((defaultNaNF32UI, softfloat_raiseFlags softfloat_flag_invalid init_state)) \<and>
   f64_sub 0x7FF0000000000000 0x7FF0000000000000 init_state = ((defaultNaNF64UI, softfloat_raiseFlags softfloat_flag_invalid init_state))"
  using add_sub_special [of "0x7F800000" "0x7F800000" "0x7FF0000000000000" "0x7FF0000000000000" init_state] by (simp add: fl_mag_def fl_nan_def fl_sign_def)

text \<open>
  Property C1: addition of two finite numbers, in each format, delivers the exact real sum correctly rounded in the current rounding mode,
  with exactly the exception flags the result calls for and the right sign for an exact zero.
\<close>

theorem add_correct:
  assumes "fl_mag a < 255 * 2 ^ 23" and "fl_mag b < 255 * 2 ^ 23" and "fl_mag c < 2047 * 2 ^ 52" and "fl_mag d < 2047 * 2 ^ 52"
  shows "op_rounds 23 255 (if fl_sign a = fl_sign b then fl_sign a else softfloat_roundingMode s = softfloat_round_min)
    (fl_real 23 a + fl_real 23 b) s (f32_add a b s) \<and>
    op_rounds 52 2047 (if fl_sign c = fl_sign d then fl_sign c else softfloat_roundingMode s = softfloat_round_min)
    (fl_real 52 c + fl_real 52 d) s (f64_add c d s)"
  by (intro conjI f32_add_correct [OF assms(1,2)] f64_add_correct [OF assms(3,4)])

theorem add_correct_witness:
  "op_rounds 23 255 False (fl_real 23 (0x3F800000 :: uint32_t) + fl_real 23 (0x40000000 :: uint32_t)) init_state
     (f32_add 0x3F800000 0x40000000 init_state) \<and>
   f32_add 0x3F800000 0x40000000 init_state = (0x40400000, init_state) \<and>
   op_rounds 52 2047 False (fl_real 52 (0x3FF0000000000000 :: uint64_t) + fl_real 52 (0x4000000000000000 :: uint64_t)) init_state
     (f64_add 0x3FF0000000000000 0x4000000000000000 init_state) \<and>
   f64_add 0x3FF0000000000000 0x4000000000000000 init_state = (0x4008000000000000, init_state)"
proof -
  note app = add_correct [of "0x3F800000" "0x40000000" "0x3FF0000000000000" "0x4000000000000000" init_state]
  have "op_rounds 23 255 False (fl_real 23 (0x3F800000 :: uint32_t) + fl_real 23 (0x40000000 :: uint32_t)) init_state
     (f32_add 0x3F800000 0x40000000 init_state) \<and>
     op_rounds 52 2047 False (fl_real 52 (0x3FF0000000000000 :: uint64_t) + fl_real 52 (0x4000000000000000 :: uint64_t)) init_state
     (f64_add 0x3FF0000000000000 0x4000000000000000 init_state)"
    using app by (simp add: fl_mag_def fl_sign_def init_state_def)
  moreover have "f32_add 0x3F800000 0x40000000 init_state = (0x40400000, init_state)" by code_simp
  moreover have "f64_add 0x3FF0000000000000 0x4000000000000000 init_state = (0x4008000000000000, init_state)" by code_simp
  ultimately show ?thesis by simp
qed

text \<open>
  Property C2: subtraction of two finite numbers, in each format, delivers the exact real difference correctly rounded in the current rounding mode,
  with exactly the exception flags the result calls for and the right sign for an exact zero.
\<close>

theorem sub_correct:
  assumes "fl_mag a < 255 * 2 ^ 23" and "fl_mag b < 255 * 2 ^ 23" and "fl_mag c < 2047 * 2 ^ 52" and "fl_mag d < 2047 * 2 ^ 52"
  shows "op_rounds 23 255 (if fl_sign a = fl_sign b then softfloat_roundingMode s = softfloat_round_min else fl_sign a)
    (fl_real 23 a - fl_real 23 b) s (f32_sub a b s) \<and>
    op_rounds 52 2047 (if fl_sign c = fl_sign d then softfloat_roundingMode s = softfloat_round_min else fl_sign c)
    (fl_real 52 c - fl_real 52 d) s (f64_sub c d s)"
  by (intro conjI f32_sub_correct [OF assms(1,2)] f64_sub_correct [OF assms(3,4)])

theorem sub_correct_witness:
  "op_rounds 23 255 False (fl_real 23 (0x40400000 :: uint32_t) - fl_real 23 (0x3F800000 :: uint32_t)) init_state
     (f32_sub 0x40400000 0x3F800000 init_state) \<and>
   f32_sub 0x40400000 0x3F800000 init_state = (0x40000000, init_state) \<and>
   op_rounds 52 2047 False (fl_real 52 (0x4008000000000000 :: uint64_t) - fl_real 52 (0x3FF0000000000000 :: uint64_t)) init_state
     (f64_sub 0x4008000000000000 0x3FF0000000000000 init_state) \<and>
   f64_sub 0x4008000000000000 0x3FF0000000000000 init_state = (0x4000000000000000, init_state)"
proof -
  note app = sub_correct [of "0x40400000" "0x3F800000" "0x4008000000000000" "0x3FF0000000000000" init_state]
  have "op_rounds 23 255 False (fl_real 23 (0x40400000 :: uint32_t) - fl_real 23 (0x3F800000 :: uint32_t)) init_state
     (f32_sub 0x40400000 0x3F800000 init_state) \<and>
     op_rounds 52 2047 False (fl_real 52 (0x4008000000000000 :: uint64_t) - fl_real 52 (0x3FF0000000000000 :: uint64_t)) init_state
     (f64_sub 0x4008000000000000 0x3FF0000000000000 init_state)"
    using app by (simp add: fl_mag_def fl_sign_def init_state_def)
  moreover have "f32_sub 0x40400000 0x3F800000 init_state = (0x40000000, init_state)" by code_simp
  moreover have "f64_sub 0x4008000000000000 0x3FF0000000000000 init_state = (0x4000000000000000, init_state)" by code_simp
  ultimately show ?thesis by simp
qed

end
