(* ===== verification/Multiword_Laws.thy ===== *)
theory Multiword_Laws
  imports Primitives_Laws
begin

text \<open>
  The multi-word routines compute on the numbers their words spell: sums and differences
  modulo the width of the result, comparisons exactly, products exactly.
\<close>

definition u128 :: "uint128 \<Rightarrow> nat" where
  "u128 z = unat (u128_v64 z) * 2 ^ 64 + unat (u128_v0 z)"

definition u192 :: "uint192 \<Rightarrow> nat" where
  "u192 z = unat (u192_v128 z) * 2 ^ 128 + unat (u192_v64 z) * 2 ^ 64 + unat (u192_v0 z)"

definition u256 :: "uint256 \<Rightarrow> nat" where
  "u256 z = unat (u256_v192 z) * 2 ^ 192 + unat (u256_v128 z) * 2 ^ 128
            + unat (u256_v64 z) * 2 ^ 64 + unat (u256_v0 z)"

abbreviation cat128 :: "uint64_t \<Rightarrow> uint64_t \<Rightarrow> nat" where
  "cat128 a64 a0 \<equiv> unat a64 * 2 ^ 64 + unat a0"

lemma cat128_less: "cat128 a64 a0 < 2 ^ 128"
  using unat_lt64 [of a64] unat_lt64 [of a0] by simp

lemma u128_less: "u128 z < 2 ^ 128"
  unfolding u128_def by (rule cat128_less)

section \<open>Comparisons\<close>

lemma eq128_iff: "softfloat_eq128 a64 a0 b64 b0 \<longleftrightarrow> cat128 a64 a0 = cat128 b64 b0"
  using digit_eq [of "unat a0" "2 ^ 64" "unat b0" "unat a64" "unat b64"]
  by (simp add: softfloat_eq128_def unat_lt64 word_unat_eq_iff)

lemma lt128_iff: "softfloat_lt128 a64 a0 b64 b0 \<longleftrightarrow> cat128 a64 a0 < cat128 b64 b0"
  using digit_less [of "unat a0" "2 ^ 64" "unat b0" "unat a64" "unat b64"]
  by (simp add: softfloat_lt128_def unat_lt64 word_unat_eq_iff word_less_nat_alt)

lemma le128_iff: "softfloat_le128 a64 a0 b64 b0 \<longleftrightarrow> cat128 a64 a0 \<le> cat128 b64 b0"
  using lt128_iff [of a64 a0 b64 b0] eq128_iff [of a64 a0 b64 b0]
  by (auto simp: softfloat_le128_def softfloat_lt128_def softfloat_eq128_def le_less)

section \<open>Sums and differences\<close>

lemma unat_add_of_bool_small:
  "unat w + of_bool P < 2 ^ 64 \<Longrightarrow> unat (w + of_bool P) = unat w + of_bool P" for w :: uint64_t
  by (cases P) (simp_all add: unat_add_small)

lemma add128_exact:
  "\<exists>k. u128 (softfloat_add128 a64 a0 b64 b0) + k * 2 ^ 128 = cat128 a64 a0 + cat128 b64 b0"
proof -
  let ?c = "of_bool (a0 + b0 < a0) :: uint64_t"
  have 1: "unat (a0 + b0) + unat ?c * 2 ^ 64 = unat a0 + unat b0"
    using unat_add_carry [of a0 b0] by (cases "a0 + b0 < a0") simp_all
  have 2: "unat (a64 + b64) + of_bool (a64 + b64 < a64) * 2 ^ 64 = unat a64 + unat b64"
    using unat_add_carry [of a64 b64] by simp
  have 3: "unat (a64 + b64 + ?c) + of_bool (a64 + b64 + ?c < a64 + b64) * 2 ^ 64
      = unat (a64 + b64) + unat ?c"
    using unat_add_carry [of "a64 + b64" ?c] by simp
  have "u128 (softfloat_add128 a64 a0 b64 b0) =
      unat (a64 + b64 + ?c) * 2 ^ 64 + unat (a0 + b0)"
    by (simp add: softfloat_add128_def u128_def)
  then show ?thesis
    using 1 2 3
    by (intro exI [of _ "of_bool (a64 + b64 < a64) + of_bool (a64 + b64 + ?c < a64 + b64)"])
      (simp only: algebra_simps, simp)
qed

lemma add128_mod:
  "u128 (softfloat_add128 a64 a0 b64 b0) = (cat128 a64 a0 + cat128 b64 b0) mod 2 ^ 128"
proof -
  obtain k where k: "u128 (softfloat_add128 a64 a0 b64 b0) + k * 2 ^ 128 = cat128 a64 a0 + cat128 b64 b0"
    using add128_exact by blast
  have "(cat128 a64 a0 + cat128 b64 b0) mod 2 ^ 128 = u128 (softfloat_add128 a64 a0 b64 b0) mod 2 ^ 128"
    unfolding k [symmetric] by (rule mod_mult_self1)
  then show ?thesis using u128_less by (metis mod_less)
qed

lemma sub128_exact:
  "\<exists>k. u128 (softfloat_sub128 a64 a0 b64 b0) + cat128 b64 b0 = cat128 a64 a0 + k * 2 ^ 128"
proof -
  let ?c = "of_bool (a0 < b0) :: uint64_t"
  have 1: "unat (a0 - b0) + unat b0 = unat a0 + unat ?c * 2 ^ 64"
    using unat_sub_borrow [of a0 b0] by (cases "a0 < b0") simp_all
  have 2: "unat (a64 - b64) + unat b64 = unat a64 + of_bool (a64 < b64) * 2 ^ 64"
    using unat_sub_borrow [of a64 b64] by simp
  have 3: "unat (a64 - b64 - ?c) + unat ?c = unat (a64 - b64) + of_bool (a64 - b64 < ?c) * 2 ^ 64"
    using unat_sub_borrow [of "a64 - b64" ?c] by simp
  have "u128 (softfloat_sub128 a64 a0 b64 b0) = unat (a64 - b64 - ?c) * 2 ^ 64 + unat (a0 - b0)"
    by (simp add: softfloat_sub128_def u128_def)
  then show ?thesis
    using 1 2 3
    by (intro exI [of _ "of_bool (a64 < b64) + of_bool (a64 - b64 < ?c)"])
      (simp only: algebra_simps, simp)
qed

lemma sub128_mod:
  "u128 (softfloat_sub128 a64 a0 b64 b0) = (cat128 a64 a0 + (2 ^ 128 - cat128 b64 b0)) mod 2 ^ 128"
proof -
  obtain k where k: "u128 (softfloat_sub128 a64 a0 b64 b0) + cat128 b64 b0 = cat128 a64 a0 + k * 2 ^ 128"
    using sub128_exact by blast
  have "u128 (softfloat_sub128 a64 a0 b64 b0) + 2 ^ 128
      = (u128 (softfloat_sub128 a64 a0 b64 b0) + cat128 b64 b0) + (2 ^ 128 - cat128 b64 b0)"
    using cat128_less [of b64 b0] by linarith
  also have "\<dots> = (cat128 a64 a0 + (2 ^ 128 - cat128 b64 b0)) + k * 2 ^ 128"
    unfolding k by (simp only: add_ac)
  finally have "(u128 (softfloat_sub128 a64 a0 b64 b0) + 2 ^ 128) mod 2 ^ 128
      = (cat128 a64 a0 + (2 ^ 128 - cat128 b64 b0)) mod 2 ^ 128"
    by (simp only: mod_mult_self1)
  then show ?thesis using u128_less [of "softfloat_sub128 a64 a0 b64 b0"] by (simp only: mod_add_self2 mod_less)
qed

lemma sub128_no_borrow:
  assumes "cat128 b64 b0 \<le> cat128 a64 a0"
  shows "u128 (softfloat_sub128 a64 a0 b64 b0) = cat128 a64 a0 - cat128 b64 b0"
proof -
  have "cat128 a64 a0 + (2 ^ 128 - cat128 b64 b0) = (cat128 a64 a0 - cat128 b64 b0) + 2 ^ 128"
    using assms cat128_less [of b64 b0] by linarith
  moreover have "cat128 a64 a0 - cat128 b64 b0 < 2 ^ 128"
    using cat128_less [of a64 a0] by linarith
  ultimately show ?thesis by (simp only: sub128_mod mod_add_self2 mod_less)
qed

section \<open>Products\<close>

text \<open>The schoolbook product of two-digit numbers in base \<open>p\<close>, with the middle sum split at \<open>p * p\<close>.\<close>

lemma schoolbook:
  fixes p :: nat
  assumes "z0 + c0 * (p * p) = al * bl + ml * p" and "cm * (p * p) + (mh * p + ml) = ah * bl + al * bh"
  shows "(ah * bh + (cm * p + mh) + c0) * (p * p) + z0 = (ah * p + al) * (bh * p + bl)"
proof -
  have "(ah * bh + (cm * p + mh) + c0) * (p * p) + z0
      = ah * bh * (p * p) + (cm * p + mh) * (p * p) + (z0 + c0 * (p * p))"
    by (simp only: algebra_simps)
  also have "\<dots> = ah * bh * (p * p) + (cm * (p * p) + (mh * p + ml)) * p + al * bl"
    unfolding assms(1) by (simp only: algebra_simps)
  also have "\<dots> = (ah * p + al) * (bh * p + bl)"
    unfolding assms(2) by (simp only: algebra_simps)
  finally show ?thesis .
qed

lemma halves:
  fixes a :: uint64_t
  shows "unat (ucast (drop_bit 32 a) :: uint32_t) = unat a div 2 ^ 32"
    and "unat (ucast a :: uint32_t) = unat a mod 2 ^ 32"
  using unat_lt64 [of a]
  by (simp_all add: unat_ucast_mod unat_drop_bit_div div_less_iff_less_mult)

lemma unat_ucast64: "unat (ucast (w :: uint32_t) :: uint64_t) = unat w"
  by (rule unat_ucast_up) simp

lemma unat_mult32: "unat (ucast (v :: uint32_t) * ucast (w :: uint32_t) :: uint64_t) = unat v * unat w"
proof -
  have "unat v * unat w \<le> 4294967295 * 4294967295"
    using unat_lt32 [of v] unat_lt32 [of w] by (intro mult_le_mono) simp_all
  then show ?thesis
    using unat_mult_small [of "ucast v :: uint64_t" "ucast w"] by (simp add: unat_ucast64)
qed

lemma mul64To128_exact: "u128 (softfloat_mul64To128 a b) = unat a * unat b"
proof -
  define ah al bh bl where "ah = unat a div 2 ^ 32" and "al = unat a mod 2 ^ 32"
    and "bh = unat b div 2 ^ 32" and "bl = unat b mod 2 ^ 32"
  define mid1 mid2 :: uint64_t where
    "mid1 = ucast (ucast (drop_bit 32 a) :: uint32_t) * ucast (ucast b :: uint32_t)" and
    "mid2 = ucast (ucast a :: uint32_t) * ucast (ucast (drop_bit 32 b) :: uint32_t)"
  define mid where "mid = mid1 + mid2"
  define cm where "cm = (of_bool (mid < mid1) :: nat)"
  define z0 :: uint64_t where "z0 = ucast (ucast a :: uint32_t) * ucast (ucast b :: uint32_t)"
  define z64 :: uint64_t where
    "z64 = ucast (ucast (drop_bit 32 a) :: uint32_t) * ucast (ucast (drop_bit 32 b) :: uint32_t)"
  define c0 where "c0 = (of_bool (z0 + push_bit 32 mid < push_bit 32 mid) :: nat)"
  define hi where "hi = push_bit 32 (of_bool (mid < mid1)) OR drop_bit 32 mid"
  have m: "cm * (2 ^ 32 * 2 ^ 32) + (unat mid div 2 ^ 32 * 2 ^ 32 + unat mid mod 2 ^ 32) = ah * bl + al * bh"
  proof -
    have "unat mid1 = ah * bl" "unat mid2 = al * bh"
      unfolding mid1_def mid2_def unat_mult32 halves(1) unfolding halves(2) ah_def al_def bh_def bl_def
      by (rule refl)+
    moreover have "unat mid + cm * 2 ^ 64 = unat mid1 + unat mid2"
      using unat_add_carry [of mid1 mid2] unfolding cm_def mid_def by simp
    ultimately show ?thesis unfolding div_mult_mod_eq by simp
  qed
  have "unat (push_bit 32 mid) = unat mid * 2 ^ 32 mod (2 ^ 32 * 2 ^ 32)"
    by (simp add: unat_push_bit_mod)
  also have "\<dots> = unat mid mod 2 ^ 32 * 2 ^ 32" by (rule mod_mult_mult2)
  finally have p: "unat (push_bit 32 mid) = unat mid mod 2 ^ 32 * 2 ^ 32" .
  have z: "unat (z0 + push_bit 32 mid) + c0 * (2 ^ 32 * 2 ^ 32) = al * bl + unat mid mod 2 ^ 32 * 2 ^ 32"
  proof -
    have "unat z0 = al * bl" unfolding z0_def unat_mult32 halves(2) al_def bl_def by (rule refl)
    moreover have "unat (z0 + push_bit 32 mid) + c0 * 2 ^ 64 = unat (push_bit 32 mid) + unat z0"
      using unat_add_carry [of "push_bit 32 mid" z0]
      unfolding c0_def add.commute [of "push_bit 32 mid" z0] by simp
    ultimately show ?thesis unfolding p by simp
  qed
  have hi: "unat hi = cm * 2 ^ 32 + unat mid div 2 ^ 32"
  proof -
    have "unat (drop_bit 32 mid) < 2 ^ 32"
      using unat_lt64 [of mid] by (simp add: unat_drop_bit_div div_less_iff_less_mult)
    then show ?thesis
      unfolding hi_def by (subst unat_or_disjoint [of 32]) (auto simp: cm_def unat_drop_bit_div unat_push_bit_mod)
  qed
  have total: "(ah * bh + (cm * 2 ^ 32 + unat mid div 2 ^ 32) + c0) * (2 ^ 32 * 2 ^ 32)
      + unat (z0 + push_bit 32 mid) = unat a * unat b"
    using schoolbook [OF z m] by (simp add: ah_def al_def bh_def bl_def)
  have "unat a * unat b < 2 ^ 64 * 2 ^ 64"
    using unat_lt64 [of a] unat_lt64 [of b] by (intro mult_strict_mono) simp_all
  then have small: "ah * bh + (cm * 2 ^ 32 + unat mid div 2 ^ 32) + c0 < 2 ^ 64"
    using total by (simp add: algebra_simps)
  have z64: "unat z64 = ah * bh" unfolding z64_def unat_mult32 halves(1) ah_def bh_def by (rule refl)
  have 1: "unat (z64 + hi) = ah * bh + (cm * 2 ^ 32 + unat mid div 2 ^ 32)"
    using small by (subst unat_add_small) (simp_all add: hi z64)
  have 2: "unat (z64 + hi + of_bool (z0 + push_bit 32 mid < push_bit 32 mid))
      = ah * bh + (cm * 2 ^ 32 + unat mid div 2 ^ 32) + c0"
    using small unfolding 1 [symmetric] c0_def by (rule unat_add_of_bool_small)
  show ?thesis
    using total 2
    by (simp add: softfloat_mul64To128_def Let_def u128_def mid1_def mid2_def mid_def hi_def z64_def z0_def)
qed

text \<open>Adding a high word and a carry that is known to fit.\<close>

lemma add_carry_word:
  fixes lo hi x y :: uint64_t
  shows "unat (x + y) + of_bool (x + y < x) * 2 ^ 64 = unat x + unat y"
  using unat_add_carry [of x y] by simp

lemma mul64To128_high:
  "unat (u128_v64 (softfloat_mul64To128 a b)) + of_bool P < 2 ^ 64"
proof (rule ccontr)
  assume "\<not> ?thesis"
  then have "(2 ^ 64 - 1) * 2 ^ 64 \<le> u128 (softfloat_mul64To128 a b)"
    unfolding u128_def by (cases P) simp_all
  moreover have "unat a * unat b \<le> (2 ^ 64 - 1) * (2 ^ 64 - 1)"
    using unat_lt64 [of a] unat_lt64 [of b] by (intro mult_le_mono) simp_all
  ultimately show False by (simp add: mul64To128_exact)
qed

lemma mul128By64To192_exact: "u192 (softfloat_mul128By64To192 a64 a0 b) = cat128 a64 a0 * unat b"
proof -
  let ?p0 = "softfloat_mul64To128 a0 b" and ?p64 = "softfloat_mul64To128 a64 b"
  let ?c = "of_bool (u128_v0 ?p64 + u128_v64 ?p0 < u128_v0 ?p64) :: nat"
  have 1: "unat (u128_v64 ?p0) * 2 ^ 64 + unat (u128_v0 ?p0) = unat a0 * unat b"
    and 2: "unat (u128_v64 ?p64) * 2 ^ 64 + unat (u128_v0 ?p64) = unat a64 * unat b"
    using mul64To128_exact [of a0 b] mul64To128_exact [of a64 b] by (simp_all add: u128_def)
  have 3: "unat (u128_v0 ?p64 + u128_v64 ?p0) + ?c * 2 ^ 64 = unat (u128_v0 ?p64) + unat (u128_v64 ?p0)"
    by (rule add_carry_word)
  have "u192 (softfloat_mul128By64To192 a64 a0 b)
      = (unat (u128_v64 ?p64) + ?c) * 2 ^ 128 + unat (u128_v0 ?p64 + u128_v64 ?p0) * 2 ^ 64 + unat (u128_v0 ?p0)"
    unfolding softfloat_mul128By64To192_def u192_def Let_def
    by (simp only: uint192.simps unat_add_of_bool_small [OF mul64To128_high])
  also have "\<dots> = unat (u128_v64 ?p64) * 2 ^ 128
      + (unat (u128_v0 ?p64 + u128_v64 ?p0) + ?c * 2 ^ 64) * 2 ^ 64 + unat (u128_v0 ?p0)"
    by simp
  also have "\<dots> = (unat a64 * unat b) * 2 ^ 64 + unat a0 * unat b"
    unfolding 3 1 [symmetric] 2 [symmetric] by simp
  also have "\<dots> = cat128 a64 a0 * unat b" by (simp only: algebra_simps)
  finally show ?thesis .
qed

end
