(* ===== verification/Float_Mul.thy ===== *)
theory Float_Mul
  imports Float_Add Multiword_Laws
begin

text \<open>
  Multiplication (\<^verbatim>\<open>source/f32_mul.c\<close>, \<^verbatim>\<open>source/f64_mul.c\<close>). The full double-width product is reduced to
  one word with a sticky last bit; the single-precision routine does so with a 64-bit
  product and a jamming shift, the double-precision routine with \<^const>\<open>softfloat_mul64To128\<close>.
\<close>

section \<open>The routines\<close>

definition f32_mul :: "float32_t \<Rightarrow> float32_t \<Rightarrow> fp_state \<Rightarrow> float32_t \<times> fp_state" where
  "f32_mul a b s =
     (let uiA = a;
          signA = signF32UI uiA;
          expA = expF32UI uiA;
          sigA = fracF32UI uiA;
          uiB = b;
          signB = signF32UI uiB;
          expB = expF32UI uiB;
          sigB = fracF32UI uiB;
          signZ = (signA \<noteq> signB);
          propagateNaN = softfloat_propagateNaNF32UI uiA uiB s;
          infArg = (\<lambda>magBits :: uint32_t.
            if magBits = 0 then (defaultNaNF32UI, softfloat_raiseFlags softfloat_flag_invalid s)
            else (packToF32UI signZ 0xFF 0, s));
          zero = (packToF32UI signZ 0 0, s)
      in if expA = 0xFF
         then if sigA \<noteq> 0 \<or> (expB = 0xFF \<and> sigB \<noteq> 0) then propagateNaN
              else infArg (word_of_int expB OR sigB)
         else if expB = 0xFF
         then if sigB \<noteq> 0 then propagateNaN else infArg (word_of_int expA OR sigA)
         else if expA = 0 \<and> sigA = 0 then zero
         else
           let normExpSig = softfloat_normSubnormalF32Sig sigA;
               (expA, sigA) = (if expA = 0 then (es32_exp normExpSig, es32_sig normExpSig) else (expA, sigA))
           in if expB = 0 \<and> sigB = 0 then zero
              else
                let normExpSig = softfloat_normSubnormalF32Sig sigB;
                    (expB, sigB) = (if expB = 0 then (es32_exp normExpSig, es32_sig normExpSig) else (expB, sigB));
                    expZ = expA + expB - 0x7F;
                    sigA = push_bit 7 (sigA OR 0x00800000);
                    sigB = push_bit 8 (sigB OR 0x00800000);
                    sigZ = ucast (softfloat_shortShift64RightJam (ucast sigA * ucast sigB) 32)
                in if sigZ < 0x40000000
                   then softfloat_roundPackToF32 signZ (expZ - 1) (push_bit 1 sigZ) s
                   else softfloat_roundPackToF32 signZ expZ sigZ s)"

definition f64_mul :: "float64_t \<Rightarrow> float64_t \<Rightarrow> fp_state \<Rightarrow> float64_t \<times> fp_state" where
  "f64_mul a b s =
     (let uiA = a;
          signA = signF64UI uiA;
          expA = expF64UI uiA;
          sigA = fracF64UI uiA;
          uiB = b;
          signB = signF64UI uiB;
          expB = expF64UI uiB;
          sigB = fracF64UI uiB;
          signZ = (signA \<noteq> signB);
          propagateNaN = softfloat_propagateNaNF64UI uiA uiB s;
          infArg = (\<lambda>magBits :: uint64_t.
            if magBits = 0 then (defaultNaNF64UI, softfloat_raiseFlags softfloat_flag_invalid s)
            else (packToF64UI signZ 0x7FF 0, s));
          zero = (packToF64UI signZ 0 0, s)
      in if expA = 0x7FF
         then if sigA \<noteq> 0 \<or> (expB = 0x7FF \<and> sigB \<noteq> 0) then propagateNaN
              else infArg (word_of_int expB OR sigB)
         else if expB = 0x7FF
         then if sigB \<noteq> 0 then propagateNaN else infArg (word_of_int expA OR sigA)
         else if expA = 0 \<and> sigA = 0 then zero
         else
           let normExpSig = softfloat_normSubnormalF64Sig sigA;
               (expA, sigA) = (if expA = 0 then (es64_exp normExpSig, es64_sig normExpSig) else (expA, sigA))
           in if expB = 0 \<and> sigB = 0 then zero
              else
                let normExpSig = softfloat_normSubnormalF64Sig sigB;
                    (expB, sigB) = (if expB = 0 then (es64_exp normExpSig, es64_sig normExpSig) else (expB, sigB));
                    expZ = expA + expB - 0x3FF;
                    sigA = push_bit 10 (sigA OR 0x0010000000000000);
                    sigB = push_bit 11 (sigB OR 0x0010000000000000);
                    sigZ128 = softfloat_mul64To128 sigA sigB;
                    sigZ = u128_v64 sigZ128 OR of_bool (u128_v0 sigZ128 \<noteq> 0)
                in if sigZ < 0x4000000000000000
                   then softfloat_roundPackToF64 signZ (expZ - 1) (push_bit 1 sigZ) s
                   else softfloat_roundPackToF64 signZ expZ sigZ s)"

section \<open>The algorithm in a format that keeps the contract\<close>

context softfloat_format
begin

definition mul_op :: "('a word \<Rightarrow> 'a word \<Rightarrow> 'a word) \<Rightarrow> 'a word \<Rightarrow> 'a word \<Rightarrow> fp_state \<Rightarrow> 'a word \<times> fp_state" where
  "mul_op mulJam a b s =
     (let uiA = a;
          signA = signUI uiA;
          expA = expUI uiA;
          sigA = fracUI uiA;
          uiB = b;
          signB = signUI uiB;
          expB = expUI uiB;
          sigB = fracUI uiB;
          signZ = (signA \<noteq> signB);
          propagateNaN = propagate uiA uiB s;
          infArg = (\<lambda>magBits :: 'a word.
            if magBits = 0 then (defaultNaN, softfloat_raiseFlags softfloat_flag_invalid s)
            else (packUI signZ (int E) 0, s));
          zero = (packUI signZ 0 0, s)
      in if expA = int E
         then if sigA \<noteq> 0 \<or> (expB = int E \<and> sigB \<noteq> 0) then propagateNaN
              else infArg (word_of_int expB OR sigB)
         else if expB = int E
         then if sigB \<noteq> 0 then propagateNaN else infArg (word_of_int expA OR sigA)
         else if expA = 0 \<and> sigA = 0 then zero
         else
           let (expA, sigA) = (if expA = 0 then (normExp sigA, normSig sigA) else (expA, sigA))
           in if expB = 0 \<and> sigB = 0 then zero
              else
                let (expB, sigB) = (if expB = 0 then (normExp sigB, normSig sigB) else (expB, sigB));
                    expZ = expA + expB - int bias;
                    sigA = push_bit x (sigA OR 2 ^ f);
                    sigB = push_bit (Suc x) (sigB OR 2 ^ f);
                    sigZ = mulJam sigA sigB
                in if sigZ < 2 ^ (f + x)
                   then roundPack signZ (expZ - 1) (push_bit 1 sigZ) s
                   else roundPack signZ expZ sigZ s)"

lemma mul_op_zero:
  assumes "expUI a < int E" and "expUI b < int E" and "fl_mag a = 0 \<or> fl_mag b = 0"
  shows "mul_op mulJam a b s = (packUI (signUI a \<noteq> signUI b) 0 0, s)"
  using assms by (auto simp: mul_op_def Let_def zero_iff)

lemma mul_op_finite:
  assumes "expUI a < int E" and "expUI b < int E" and "fl_mag a \<noteq> 0" and "fl_mag b \<noteq> 0"
    and n: "norm_operand a = (eA, gA)" "norm_operand b = (eB, gB)"
  shows "mul_op mulJam a b s =
    (let sigZ = mulJam (push_bit x (gA OR 2 ^ f)) (push_bit (Suc x) (gB OR 2 ^ f))
     in if sigZ < 2 ^ (f + x)
        then roundPack (signUI a \<noteq> signUI b) (eA + eB - int bias - 1) (push_bit 1 sigZ) s
        else roundPack (signUI a \<noteq> signUI b) (eA + eB - int bias) sigZ s)"
proof -
  have nz: "(expUI a = 0 \<and> fracUI a = 0) = False" "(expUI b = 0 \<and> fracUI b = 0) = False"
    and ne: "(expUI a = int E) = False" "(expUI b = int E) = False"
    using assms(1-4) by (auto simp: zero_iff)
  show ?thesis
    unfolding mul_op_def Let_def nz ne if_False n [unfolded norm_operand_def] prod.case ..
qed

theorem mul_op_rounds:
  assumes fin: "fl_mag a < E * 2 ^ f" "fl_mag b < E * 2 ^ f"
    and mj: "\<forall>A B. unat (mulJam A B) = jam LENGTH('a) (unat A * unat B)"
    and r: "r = fl_real f a * fl_real f b / 2 ^ (bias + f - 1)"
  shows "op_rounds f E (signUI a \<noteq> signUI b) r s (mul_op mulJam a b s)"
proof (cases "fl_mag a = 0 \<or> fl_mag b = 0")
  case True
  then have r0: "r = 0" by (auto simp: r fl_real_def)
  let ?z = "packUI (signUI a \<noteq> signUI b) 0 0"
  have z: "fl_mag ?z = 0" "fl_sign ?z = (signUI a \<noteq> signUI b)" using pack_sign_mag [of 0 0] by simp_all
  have "op_rounds f E (signUI a \<noteq> signUI b) r s (?z, s)"
    by (rule op_rounds_exact) (use r0 z E_ge2 in \<open>simp_all add: fl_real_def\<close>)
  then show ?thesis using mul_op_zero [OF _ _ True] fin by (simp add: finite_iff)
next
  case False
  obtain eA gA where nA: "norm_operand a = (eA, gA)" by fastforce
  obtain eB gB where nB: "norm_operand b = (eB, gB)" by fastforce
  define mA mB where "mA = unat (gA OR 2 ^ f)" and "mB = unat (gB OR 2 ^ f)"
  have nz: "fl_mag a \<noteq> 0" "fl_mag b \<noteq> 0" using False by auto
  note A = norm_operand [OF nz(1) nA, folded mA_def] and B = norm_operand [OF nz(2) nB, folded mB_def]
  let ?sA = "push_bit x (gA OR 2 ^ f)" and ?sB = "push_bit (Suc x) (gB OR 2 ^ f)"
  have uA: "unat ?sA = mA * 2 ^ x" unfolding mA_def
    by (rule unat_push_bit_small) (use A(2) in \<open>simp add: len power_add mA_def\<close>)
  have uB: "unat ?sB = mB * 2 ^ Suc x" unfolding mB_def
    by (rule unat_push_bit_small) (use B(2) in \<open>simp add: len power_add mB_def\<close>)
  define sigZ where "sigZ = mulJam ?sA ?sB"
  define P where "P = mA * mB * 2 ^ (2 * x + 1)"
  define X where "X = real P / 2 ^ (f + x + 2)"
  have "unat ?sA * unat ?sB = P"
    unfolding uA uB P_def by (simp add: mult_2 power_add distrib_left)
  then have uz: "unat sigZ = jam (f + x + 2) P" unfolding sigZ_def by (simp add: mj len)
  have ag: "agrees 1 X (unat sigZ)" unfolding X_def uz by (rule agrees_jam [OF agrees_refl [of 0]]) simp_all
  have "2 ^ f * 2 ^ f \<le> mA * mB" using A(1) B(1) by (rule mult_le_mono)
  then have "2 ^ f * 2 ^ f * 2 ^ (2 * x + 1) \<le> P" unfolding P_def by (rule mult_le_mono1)
  moreover have "f + f + (2 * x + 1) = f + x - 1 + (f + x + 2)" using f_pos by simp
  then have "(2::nat) ^ f * 2 ^ f * 2 ^ (2 * x + 1) = 2 ^ (f + x - 1) * 2 ^ (f + x + 2)"
    by (simp only: power_add [symmetric])
  ultimately have "2 ^ (f + x - 1) * 2 ^ (f + x + 2) \<le> P" by (simp only:)
  moreover have "even ((2::nat) ^ (f + x - 1))" using x_ge f_pos by simp
  ultimately have lo: "2 ^ (f + x - 1) \<le> unat sigZ" unfolding uz by (simp only: jam_le_even)
  have "mA * mB < 2 ^ Suc f * 2 ^ Suc f" using A(2) B(2) by (rule mult_strict_mono) simp_all
  then have "P < 2 ^ Suc f * 2 ^ Suc f * 2 ^ (2 * x + 1)" unfolding P_def by simp
  moreover have "Suc f + Suc f + (2 * x + 1) = f + x + 1 + (f + x + 2)" by simp
  then have "(2::nat) ^ Suc f * 2 ^ Suc f * 2 ^ (2 * x + 1) = 2 ^ (f + x + 1) * 2 ^ (f + x + 2)"
    by (simp only: power_add [symmetric])
  ultimately have "P < 2 ^ (f + x + 1) * 2 ^ (f + x + 2)" by (simp only:)
  then have hi: "unat sigZ < 2 ^ (f + x + 1)" unfolding uz by (subst jam_less_even) simp_all
  have "\<bar>r\<bar> = real (mval f (fl_mag a)) * real (mval f (fl_mag b)) / 2 ^ (bias + f - 1)"
    by (simp add: r fl_real_def abs_mult)
  also have "\<dots> = real (mA * mB) * 2 powi (eA - 1) * 2 powi (eB - 1) / 2 ^ (bias + f - 1)"
    unfolding A(3) B(3) by simp
  also have "\<dots> = X * 2 powi (eA + eB - int bias - int x)"
  proof -
    have "X = real (mA * mB) * (2 powi int (2 * x + 1) / 2 ^ (f + x + 2))"
      by (simp only: X_def P_def of_nat_mult of_nat_power of_nat_numeral power_int_of_nat times_divide_eq_right)
    then have X: "X * 2 powi (eA + eB - int bias - int x) =
        real (mA * mB) * 2 powi (int (2 * x + 1) - int (f + x + 2) + (eA + eB - int bias - int x))"
      by (simp only: powi_div mult.assoc powi_mult)
    have "real (mA * mB) * 2 powi (eA - 1) * 2 powi (eB - 1) / 2 ^ (bias + f - 1) =
        real (mA * mB) * 2 powi (eA - 1 + (eB - 1) - int (bias + f - 1))"
      by (simp only: mult.assoc powi_mult powi_div times_divide_eq_right [symmetric])
    also have "eA - 1 + (eB - 1) - int (bias + f - 1) = int (2 * x + 1) - int (f + x + 2) + (eA + eB - int bias - int x)"
      using f_pos by (simp add: of_nat_diff)
    finally show ?thesis unfolding X .
  qed
  finally have rX: "\<bar>r\<bar> = X * 2 powi (eA + eB - int bias - int x)" .
  have pos: "0 < real (mval f (fl_mag a))" "0 < real (mval f (fl_mag b))" using nz by (simp_all add: mval_pos_iff)
  then have "r \<noteq> 0" "(signUI a \<noteq> signUI b) = (r < 0)"
    by (auto simp: r fl_real_def sign_law zero_less_mult_iff mult_less_0_iff divide_less_0_iff)
  moreover have "-32767 \<le> eA + eB - int bias" "eA + eB - int bias < 32768"
    using A(4,5) B(4,5) E_bias E_le f_le by auto
  ultimately show ?thesis
    unfolding mul_op_finite [OF fin(1)[unfolded finite_iff] fin(2)[unfolded finite_iff] nz nA nB] Let_def sigZ_def [symmetric]
    by (intro roundPack_short [OF ag lo hi _ _ rX])
qed

lemma magBits_zero: "word_of_int (expUI a) OR fracUI a = 0 \<longleftrightarrow> fl_mag a = 0"
proof -
  have "Suc E \<le> Suc E * 2 ^ f" using mult_le_mono2 [of 1 "2 ^ f" "Suc E"] by simp
  also have "\<dots> \<le> 2 ^ LENGTH('a)" unfolding width by (rule power_increasing) simp_all
  finally have "E < 2 ^ LENGTH('a)" by simp
  then have "int E < 2 ^ LENGTH('a)" using of_nat_less_iff [of E "2 ^ LENGTH('a)", where 'a = int] by simp
  then have "expUI a < 2 ^ LENGTH('a)" using exp_range(2) [of a] by linarith
  then have "uint (word_of_int (expUI a) :: 'a word) = expUI a"
    using exp_range(1) [of a] by (simp add: uint_word_of_int)
  then have "(word_of_int (expUI a) :: 'a word) = 0 \<longleftrightarrow> expUI a = 0" using uint_0_iff [of "word_of_int (expUI a) :: 'a word"] by simp
  then show ?thesis by (simp add: or_eq_0_iff zero_iff)
qed

lemma mul_op_special:
  assumes "E * 2 ^ f \<le> fl_mag a \<or> E * 2 ^ f \<le> fl_mag b"
  shows "mul_op mulJam a b s =
    (if fl_nan f E a \<or> fl_nan f E b then propagate a b s
     else if fl_mag a = 0 \<or> fl_mag b = 0 then (defaultNaN, softfloat_raiseFlags softfloat_flag_invalid s)
     else (fl_pack (signUI a \<noteq> signUI b) (E * 2 ^ f), s))"
proof -
  have "expUI a = int E \<or> expUI b = int E"
    using assms exp_range(2) [of a] exp_range(2) [of b] by (simp add: not_less [symmetric] finite_iff)
  moreover have "expUI a = int E \<Longrightarrow> fl_mag a \<noteq> 0" "expUI b = int E \<Longrightarrow> fl_mag b \<noteq> 0"
    using E_ge2 by (simp_all add: zero_iff)
  ultimately show ?thesis
    using magBits_zero [of a] magBits_zero [of b]
    by (cases "expUI a = int E"; cases "expUI b = int E") (simp_all add: mul_op_def Let_def special_exp pack_inf or_eq_0_iff)
qed

end

definition mulJam32 :: "uint32_t \<Rightarrow> uint32_t \<Rightarrow> uint32_t" where
  "mulJam32 sigA sigB = ucast (softfloat_shortShift64RightJam (ucast sigA * ucast sigB) 32)"

definition mulJam64 :: "uint64_t \<Rightarrow> uint64_t \<Rightarrow> uint64_t" where
  "mulJam64 sigA sigB =
     (let sigZ128 = softfloat_mul64To128 sigA sigB in u128_v64 sigZ128 OR of_bool (u128_v0 sigZ128 \<noteq> 0))"

lemma f32_mul_scheme: "f32_mul a b s = sf32.mul_op mulJam32 a b s"
  by (simp add: f32_mul_def sf32.mul_op_def mulJam32_def Let_def)

lemma f64_mul_scheme: "f64_mul a b s = sf64.mul_op mulJam64 a b s"
  by (simp add: f64_mul_def sf64.mul_op_def mulJam64_def Let_def)

lemma mulJam32_law: "\<forall>A B. unat (mulJam32 A B) = jam LENGTH(32) (unat A * unat B)"
proof (intro allI)
  fix A B :: uint32_t
  have lt: "unat A * unat B < 2 ^ 64"
    using mult_strict_mono [OF unat_lt32 [of A] unat_lt32 [of B]] by simp
  then have "unat (ucast A * ucast B :: uint64_t) = unat A * unat B"
    by (subst unat_mult_small) (simp_all add: unat_ucast_up)
  then have "unat (softfloat_shortShift64RightJam (ucast A * ucast B) 32) = jam 32 (unat A * unat B)"
    by (simp add: unat_shortShift64RightJam)
  moreover have "jam 32 (unat A * unat B) < 2 ^ 32" using lt by (subst jam_less_even) simp_all
  ultimately show "unat (mulJam32 A B) = jam LENGTH(32) (unat A * unat B)"
    by (simp add: mulJam32_def unat_ucast_mod)
qed

lemma mulJam64_law: "\<forall>A B. unat (mulJam64 A B) = jam LENGTH(64) (unat A * unat B)"
proof (intro allI)
  fix A B :: uint64_t
  define z where "z = softfloat_mul64To128 A B"
  have z: "unat (u128_v64 z) * 2 ^ 64 + unat (u128_v0 z) = unat A * unat B"
    using mul64To128_exact [of A B] by (simp add: u128_def z_def)
  have "unat A * unat B div 2 ^ 64 = unat (u128_v64 z)" "unat A * unat B mod 2 ^ 64 = unat (u128_v0 z)"
    unfolding z [symmetric] using unat_lt64 [of "u128_v0 z"] by simp_all
  then show "unat (mulJam64 A B) = jam LENGTH(64) (unat A * unat B)"
    unfolding mulJam64_def Let_def z_def [symmetric] unat_or_of_bool jam_def
    by (simp add: dvd_eq_mod_eq_0 unat_eq_zero)
qed

section \<open>Correctness\<close>

lemma f32_mul_correct:
  assumes "fl_mag a < 255 * 2 ^ 23" and "fl_mag b < 255 * 2 ^ 23"
  shows "op_rounds 23 255 (fl_sign a \<noteq> fl_sign b) (fl_real 23 a * fl_real 23 b / 2 ^ 149) s (f32_mul a b s)"
  using sf32.mul_op_rounds [OF assms mulJam32_law refl, of s] unfolding f32_mul_scheme f32.sign_law by simp

lemma f32_mul_special:
  assumes "255 * 2 ^ 23 \<le> fl_mag a \<or> 255 * 2 ^ 23 \<le> fl_mag b"
  shows "f32_mul a b s =
    (if fl_nan 23 255 a \<or> fl_nan 23 255 b then softfloat_propagateNaNF32UI a b s
     else if fl_mag a = 0 \<or> fl_mag b = 0 then (defaultNaNF32UI, softfloat_raiseFlags softfloat_flag_invalid s)
     else (fl_pack (fl_sign a \<noteq> fl_sign b) (255 * 2 ^ 23), s))"
  using sf32.mul_op_special [OF assms] unfolding f32_mul_scheme f32.sign_law .

lemma f64_mul_correct:
  assumes "fl_mag a < 2047 * 2 ^ 52" and "fl_mag b < 2047 * 2 ^ 52"
  shows "op_rounds 52 2047 (fl_sign a \<noteq> fl_sign b) (fl_real 52 a * fl_real 52 b / 2 ^ 1074) s (f64_mul a b s)"
  using sf64.mul_op_rounds [OF assms mulJam64_law refl, of s] unfolding f64_mul_scheme f64.sign_law by simp

lemma f64_mul_special:
  assumes "2047 * 2 ^ 52 \<le> fl_mag a \<or> 2047 * 2 ^ 52 \<le> fl_mag b"
  shows "f64_mul a b s =
    (if fl_nan 52 2047 a \<or> fl_nan 52 2047 b then softfloat_propagateNaNF64UI a b s
     else if fl_mag a = 0 \<or> fl_mag b = 0 then (defaultNaNF64UI, softfloat_raiseFlags softfloat_flag_invalid s)
     else (fl_pack (fl_sign a \<noteq> fl_sign b) (2047 * 2 ^ 52), s))"
  using sf64.mul_op_special [OF assms] unfolding f64_mul_scheme f64.sign_law .

text \<open>
  Property C23: multiplication with a NaN or an infinite operand, both formats: NaNs propagate, infinity times zero is invalid, infinity
  times anything else is infinity with the product sign.
\<close>

theorem mul_special:
  assumes "255 * 2 ^ 23 \<le> fl_mag a \<or> 255 * 2 ^ 23 \<le> fl_mag b" and "2047 * 2 ^ 52 \<le> fl_mag c \<or> 2047 * 2 ^ 52 \<le> fl_mag d"
  shows "f32_mul a b s =
    (if fl_nan 23 255 a \<or> fl_nan 23 255 b then softfloat_propagateNaNF32UI a b s
     else if fl_mag a = 0 \<or> fl_mag b = 0 then (defaultNaNF32UI, softfloat_raiseFlags softfloat_flag_invalid s)
     else (fl_pack (fl_sign a \<noteq> fl_sign b) (255 * 2 ^ 23), s)) \<and>
    f64_mul c d s =
    (if fl_nan 52 2047 c \<or> fl_nan 52 2047 d then softfloat_propagateNaNF64UI c d s
     else if fl_mag c = 0 \<or> fl_mag d = 0 then (defaultNaNF64UI, softfloat_raiseFlags softfloat_flag_invalid s)
     else (fl_pack (fl_sign c \<noteq> fl_sign d) (2047 * 2 ^ 52), s))"
  by (intro conjI f32_mul_special [OF assms(1)] f64_mul_special [OF assms(2)])

theorem mul_special_witness:
  "f32_mul 0x7F800000 0 init_state = (defaultNaNF32UI, softfloat_raiseFlags softfloat_flag_invalid init_state) \<and>
   f64_mul 0x7FF0000000000000 0 init_state = (defaultNaNF64UI, softfloat_raiseFlags softfloat_flag_invalid init_state)"
  using mul_special [of "0x7F800000" 0 "0x7FF0000000000000" 0 init_state] by (simp add: fl_mag_def fl_nan_def fl_sign_def)

text \<open>
  Property C3: multiplication of two finite numbers, in each format, delivers the exact real product correctly rounded, with exactly the flags it
  calls for. Numbers are counted in units of the least positive one, so the product of two counts is scaled by that unit.
\<close>

theorem mul_correct:
  assumes "fl_mag a < 255 * 2 ^ 23" and "fl_mag b < 255 * 2 ^ 23" and "fl_mag c < 2047 * 2 ^ 52" and "fl_mag d < 2047 * 2 ^ 52"
  shows "op_rounds 23 255 (fl_sign a \<noteq> fl_sign b) (fl_real 23 a * fl_real 23 b / 2 ^ 149) s (f32_mul a b s) \<and>
    op_rounds 52 2047 (fl_sign c \<noteq> fl_sign d) (fl_real 52 c * fl_real 52 d / 2 ^ 1074) s (f64_mul c d s)"
  by (intro conjI f32_mul_correct [OF assms(1,2)] f64_mul_correct [OF assms(3,4)])

theorem mul_correct_witness:
  "op_rounds 23 255 False (fl_real 23 (0x40000000 :: uint32_t) * fl_real 23 (0x40400000 :: uint32_t) / 2 ^ 149) init_state
     (f32_mul 0x40000000 0x40400000 init_state) \<and>
   f32_mul 0x40000000 0x40400000 init_state = (0x40C00000, init_state) \<and>
   op_rounds 52 2047 False (fl_real 52 (0x4000000000000000 :: uint64_t) * fl_real 52 (0x4008000000000000 :: uint64_t) / 2 ^ 1074) init_state
     (f64_mul 0x4000000000000000 0x4008000000000000 init_state) \<and>
   f64_mul 0x4000000000000000 0x4008000000000000 init_state = (0x4018000000000000, init_state)"
proof -
  note app = mul_correct [of "0x40000000" "0x40400000" "0x4000000000000000" "0x4008000000000000" init_state]
  have "op_rounds 23 255 False (fl_real 23 (0x40000000 :: uint32_t) * fl_real 23 (0x40400000 :: uint32_t) / 2 ^ 149) init_state
     (f32_mul 0x40000000 0x40400000 init_state) \<and>
     op_rounds 52 2047 False (fl_real 52 (0x4000000000000000 :: uint64_t) * fl_real 52 (0x4008000000000000 :: uint64_t) / 2 ^ 1074) init_state
     (f64_mul 0x4000000000000000 0x4008000000000000 init_state)"
    using app by (simp add: fl_mag_def fl_sign_def)
  moreover have "f32_mul 0x40000000 0x40400000 init_state = (0x40C00000, init_state)" by code_simp
  moreover have "f64_mul 0x4000000000000000 0x4008000000000000 init_state = (0x4018000000000000, init_state)" by code_simp
  ultimately show ?thesis by simp
qed

end
