(* ===== verification/Division_Estimate.thy ===== *)
theory Division_Estimate
  imports Multiword_Laws
begin

text \<open>
  The estimate of a 128-by-64-bit quotient (\<^verbatim>\<open>source/s_estimateDiv128To64.c\<close>). The remainder of the routine is a
  two's complement 128-bit number; the loop adds the divisor back while it is negative. The lemmas show
  that the loop ends, that it leaves the exact remainder of the leading digit, and that the estimate exceeds
  the true quotient by at most two.
\<close>

section \<open>Signed 128-bit remainders\<close>

definition s128 :: "uint128 \<Rightarrow> int" where
  "s128 z = (if 2 ^ 63 \<le> unat (u128_v64 z) then int (u128 z) - 2 ^ 128 else int (u128 z))"

lemma u128_top: "2 ^ 63 \<le> unat (u128_v64 z) \<longleftrightarrow> 2 ^ 127 \<le> u128 z"
  using unat_lt64 [of "u128_v0 z"] unfolding u128_def by simp linarith

lemma s128_unique:
  assumes "int (u128 z) = r + k * 2 ^ 128" and "-(2 ^ 127) \<le> r" and "r < 2 ^ 127"
  shows "s128 z = r"
proof -
  have u: "0 \<le> int (u128 z)" "int (u128 z) < 2 ^ 128" using u128_less [of z] by simp_all
  have "k = 0 \<or> k = 1"
  proof -
    have "- 1 < k" "k < 2" using assms u by simp_all
    then show ?thesis by linarith
  qed
  then show ?thesis unfolding s128_def u128_top using assms by auto
qed

lemma s128_negative: "0x8000000000000000 \<le> u128_v64 z \<longleftrightarrow> s128 z < 0"
  unfolding s128_def word_le_nat_alt using u128_less [of z] by simp

lemma s128_nonneg: "0 \<le> s128 z \<Longrightarrow> s128 z = int (u128 z)"
  unfolding s128_def using u128_less [of z] by (simp split: if_splits)

lemma s128_sub:
  assumes "-(2 ^ 127) \<le> int (cat128 a64 a0) - int (cat128 b64 b0)" and "int (cat128 a64 a0) - int (cat128 b64 b0) < 2 ^ 127"
  shows "s128 (softfloat_sub128 a64 a0 b64 b0) = int (cat128 a64 a0) - int (cat128 b64 b0)"
proof -
  obtain k where "u128 (softfloat_sub128 a64 a0 b64 b0) + cat128 b64 b0 = cat128 a64 a0 + k * 2 ^ 128"
    using sub128_exact by blast
  then have "int (u128 (softfloat_sub128 a64 a0 b64 b0)) + int (cat128 b64 b0) = int (cat128 a64 a0) + int k * 2 ^ 128"
    by (metis of_nat_add of_nat_mult of_nat_numeral of_nat_power)
  then show ?thesis by (intro s128_unique [OF _ assms, of _ "int k"]) linarith
qed

lemma s128_add:
  assumes "-(2 ^ 127) \<le> s128 r + int (cat128 b64 b0)" and "s128 r + int (cat128 b64 b0) < 2 ^ 127"
  shows "s128 (softfloat_add128 (u128_v64 r) (u128_v0 r) b64 b0) = s128 r + int (cat128 b64 b0)"
proof -
  obtain k where "u128 (softfloat_add128 (u128_v64 r) (u128_v0 r) b64 b0) + k * 2 ^ 128 = u128 r + cat128 b64 b0"
    using add128_exact unfolding u128_def by blast
  then have e: "int (u128 (softfloat_add128 (u128_v64 r) (u128_v0 r) b64 b0)) + int k * 2 ^ 128 = int (u128 r) + int (cat128 b64 b0)"
    by (metis of_nat_add of_nat_mult of_nat_numeral of_nat_power)
  have "int (u128 r) = s128 r + of_bool (2 ^ 63 \<le> unat (u128_v64 r)) * 2 ^ 128" by (simp add: s128_def)
  with e have "int (u128 (softfloat_add128 (u128_v64 r) (u128_v0 r) b64 b0)) =
      s128 r + int (cat128 b64 b0) + (of_bool (2 ^ 63 \<le> unat (u128_v64 r)) - int k) * 2 ^ 128"
    unfolding left_diff_distrib by linarith
  then show ?thesis by (rule s128_unique [OF _ assms])
qed

section \<open>Adding the divisor back\<close>

text \<open>
  The loop ends, for every divisor below \<open>2 ^ 127\<close>: after \<open>k\<close> turns the remainder is the first nonnegative number of
  the sequence \<open>R\<close>, \<open>R + D\<close>, \<open>R + 2 * D\<close>, \<open>\<dots>\<close>.
\<close>

lemma add_back_loop:
  fixes z d :: uint64_t
  assumes D: "0 < cat128 c64 c0" "cat128 c64 c0 < 2 ^ 127"
  shows "\<exists>k r'. while_option (\<lambda>(z, rem). 0x8000000000000000 \<le> u128_v64 rem)
      (\<lambda>(z, rem). (z - d, softfloat_add128 (u128_v64 rem) (u128_v0 rem) c64 c0)) (z, r) = Some (z - of_nat k * d, r') \<and>
    s128 r' = s128 r + int k * int (cat128 c64 c0) \<and> 0 \<le> s128 r' \<and> (0 < k \<longrightarrow> s128 r' < int (cat128 c64 c0))"
    (is "\<exists>k r'. ?W z r = _ \<and> _")
proof (induction "nat (- s128 r)" arbitrary: z r rule: less_induct)
  case less
  let ?D = "int (cat128 c64 c0)"
  show ?case
  proof (cases "0 \<le> s128 r")
    case True
    then have "\<not> 0x8000000000000000 \<le> u128_v64 r" by (simp add: s128_negative)
    then have "?W z r = Some (z - of_nat 0 * d, r)" by (subst while_option_unfold) simp
    with True show ?thesis by (intro exI [of _ 0] exI [of _ r]) simp
  next
    case False
    let ?r = "softfloat_add128 (u128_v64 r) (u128_v0 r) c64 c0"
    have "-(2 ^ 127) \<le> s128 r" unfolding s128_def u128_top by simp
    have Dp: "0 < ?D" using D(1) by (simp only: of_nat_0_less_iff)
    moreover have "?D < 2 ^ 127" using D(2) by (simp only: of_nat_less_numeral_power_cancel_iff)
    ultimately have sr: "s128 ?r = s128 r + ?D" using False \<open>-(2 ^ 127) \<le> s128 r\<close> by (intro s128_add) linarith+
    have "nat (- s128 ?r) < nat (- s128 r)" unfolding sr using Dp False by simp
    from less.hyps [OF this, of "z - d"] obtain k r' where IH: "?W (z - d) ?r = Some (z - d - of_nat k * d, r')"
      "s128 r' = s128 r + ?D + int k * ?D" "0 \<le> s128 r'" "0 < k \<longrightarrow> s128 r' < ?D" unfolding sr by blast
    have "0x8000000000000000 \<le> u128_v64 r" using False by (simp add: s128_negative)
    then have "?W z r = ?W (z - d) ?r" by (subst while_option_unfold) simp
    also have "\<dots> = Some (z - of_nat (Suc k) * d, r')" unfolding IH(1) by (simp add: algebra_simps)
    finally have "?W z r = Some (z - of_nat (Suc k) * d, r')" .
    moreover have "s128 r' = s128 r + int (Suc k) * ?D" unfolding IH(2) of_nat_Suc distrib_right by simp
    moreover have "s128 r' < ?D" using IH(2,4) False by (cases "k = 0") simp_all
    ultimately show ?thesis using IH(3) by blast
  qed
qed

text \<open>
  Started from the remainder that an estimate \<open>m\<close> of a quotient leaves, at most two too large, the loop turns the
  estimate into the quotient and the remainder into the true remainder.
\<close>

lemma correct_digit:
  fixes z d :: uint64_t and m n D :: nat
  assumes n: "n = cat128 a64 a0" and D: "D = cat128 c64 c0" "0 < D" "D < 2 ^ 125"
    and m: "n div D \<le> m" "m \<le> n div D + 2" and t: "cat128 t64 t0 = m * D"
  shows "\<exists>k r'. while_option (\<lambda>(z, rem). 0x8000000000000000 \<le> u128_v64 rem)
      (\<lambda>(z, rem). (z - d, softfloat_add128 (u128_v64 rem) (u128_v0 rem) c64 c0)) (z, softfloat_sub128 a64 a0 t64 t0)
        = Some (z - of_nat k * d, r') \<and> m = n div D + k \<and> u128 r' = n mod D"
proof -
  define q j r where "q = n div D" and "j = m - q" and "r = n mod D"
  have nq: "int n = int q * int D + int r" unfolding q_def r_def
    by (simp only: of_nat_mult [symmetric] of_nat_add [symmetric] div_mult_mod_eq)
  have r: "int r < int D" unfolding r_def using D(2) by (simp only: of_nat_less_iff mod_less_divisor)
  have mj: "m = q + j" "j \<le> 2" using m unfolding j_def q_def by simp_all
  have d: "int n - int (cat128 t64 t0) = int r - int j * int D"
    unfolding t nq by (simp add: mj(1) algebra_simps)
  have "int j * int D \<le> 2 * int D" using mj(2) by (intro mult_right_mono) simp_all
  moreover have "0 \<le> int j * int D" "int D < 2 ^ 125" "0 \<le> int r" "(2::int) ^ 127 = 4 * 2 ^ 125" using D(3) by simp_all
  ultimately have "-(2 ^ 127) \<le> int r - int j * int D \<and> int r - int j * int D < 2 ^ 127" using r by (intro conjI; linarith)
  then have s: "s128 (softfloat_sub128 a64 a0 t64 t0) = int r - int j * int D"
    using s128_sub [of a64 a0 t64 t0] unfolding d [unfolded n] by blast
  have DD: "0 < cat128 c64 c0" "cat128 c64 c0 < 2 ^ 127" using D by simp_all
  obtain k r' where W: "while_option (\<lambda>(z, rem). 0x8000000000000000 \<le> u128_v64 rem)
      (\<lambda>(z, rem). (z - d, softfloat_add128 (u128_v64 rem) (u128_v0 rem) c64 c0)) (z, softfloat_sub128 a64 a0 t64 t0)
        = Some (z - of_nat k * d, r')"
    and k: "s128 r' = int r - int j * int D + int k * int D" "0 \<le> s128 r'" "0 < k \<longrightarrow> s128 r' < int D"
    using add_back_loop [OF DD, of d z "softfloat_sub128 a64 a0 t64 t0"] unfolding s D(1) [symmetric] by blast
  have "k = j"
  proof (rule linorder_cases [of k j])
    assume "k < j"
    then have "int (Suc k) * int D \<le> int j * int D" by (intro mult_right_mono) simp_all
    with k(1,2) r show ?thesis by (simp add: distrib_right)
  next
    assume kj: "j < k"
    then have "int (Suc j) * int D \<le> int k * int D" by (intro mult_right_mono) simp_all
    with k(1,3) kj show ?thesis by (simp add: distrib_right)
  qed
  then have "int (u128 r') = int r" using k(1,2) s128_nonneg [of r'] by simp
  then show ?thesis using W mj(1) \<open>k = j\<close> unfolding q_def r_def by auto
qed

section \<open>A quotient digit\<close>

text \<open>
  The digit estimated from the leading half of a divisor with its top bit set is never too small and at most two too
  large.
\<close>

lemma digit_estimate:
  fixes p :: nat
  assumes b: "b = bh * p + bl" "bl < p" "p \<le> 2 * bh" and x: "x < b * p" and q: "q = min (x div (p * bh)) (p - 1)"
  shows "x div b \<le> q" and "q \<le> x div b + 2" and "q < p" and "bl = 0 \<Longrightarrow> q = x div b"
proof -
  have p: "0 < p" and b0: "0 < b" using b by (auto intro: Nat.gr0I)
  have "x div b < p" using x b0 by (simp add: div_less_iff_less_mult mult.commute)
  moreover have "x div b \<le> x div (p * bh)" using b p by (intro div_le_mono2) (auto simp: mult.commute)
  ultimately show "x div b \<le> q" "bl = 0 \<Longrightarrow> q = x div b" by (auto simp: q b(1) mult.commute)
  show qp: "q < p" using p by (simp add: q)
  have "q * (p * bh) \<le> x div (p * bh) * (p * bh)" by (rule mult_le_mono1) (simp add: q)
  also have "\<dots> \<le> x" by (rule div_times_less_eq_dividend)
  finally have "q * (bh * p) \<le> x" by (simp only: mult.commute)
  moreover have "q * bl \<le> p * p" using qp b(2) by (intro mult_le_mono) simp_all
  moreover have "p * p \<le> 2 * bh * p" using b(3) by (rule mult_le_mono1)
  moreover have "q * b = q * (bh * p) + q * bl" by (simp add: b(1) distrib_left)
  ultimately have le: "q * b \<le> x + 2 * b" using b(1) by linarith
  have "(q - 2) * b \<le> x" using le by (simp add: left_diff_distrib diff_mult_distrib)
  then have "q - 2 \<le> x div b" using b0 by (simp add: less_eq_div_iff_mult_less_eq)
  then show "q \<le> x div b + 2" by linarith
qed

text \<open>The digit as the code computes it: a division by the leading half, saturated.\<close>

lemma digit_word:
  fixes v b32 :: uint64_t
  assumes "0 < unat b32" and "unat b32 < 2 ^ 32"
  shows "unat (if push_bit 32 b32 \<le> v then 0xFFFFFFFF else v div b32) = min (unat v div unat b32) (2 ^ 32 - 1)"
proof -
  have "unat (push_bit 32 b32) = unat b32 * 2 ^ 32" using assms(2) by (intro unat_push_bit_small) simp
  then have "push_bit 32 b32 \<le> v \<longleftrightarrow> 2 ^ 32 \<le> unat v div unat b32"
    using assms(1) by (simp add: word_le_nat_alt less_eq_div_iff_mult_less_eq mult.commute)
  then show ?thesis by (simp add: unat_div)
qed

section \<open>The estimate\<close>

text \<open>The second digit, from the leading words of the remainder the first digit leaves.\<close>

lemma second_digit:
  fixes z bh :: uint64_t
  assumes bs: "b = unat bh * 2 ^ 32 + bl" and bl: "bl < 2 ^ 32" "unat bh < 2 ^ 32" "2 ^ 32 \<le> 2 * unat bh"
    and z: "unat z = Q * 2 ^ 32" and r: "u128 r = R" "R < b * 2 ^ 32"
    and rem32: "rem32 = push_bit 32 (u128_v64 r) OR drop_bit 32 (u128_v0 r)"
  shows "Q * 2 ^ 32 + R div b \<le> unat (z OR (if push_bit 32 bh \<le> rem32 then 0xFFFFFFFF else rem32 div bh))"
    and "unat (z OR (if push_bit 32 bh \<le> rem32 then 0xFFFFFFFF else rem32 div bh)) \<le> Q * 2 ^ 32 + R div b + 2"
    and "bl = 0 \<Longrightarrow> unat (z OR (if push_bit 32 bh \<le> rem32 then 0xFFFFFFFF else rem32 div bh)) = Q * 2 ^ 32 + R div b"
proof -
  let ?h = "unat (u128_v64 r)" and ?l = "unat (u128_v0 r)" and ?q = "if push_bit 32 bh \<le> rem32 then 0xFFFFFFFF else rem32 div bh"
  have "?h * 2 ^ 64 + ?l < 2 ^ 64 * 2 ^ 32" using r bl(1,2) unfolding u128_def bs by simp
  then have h: "?h < 2 ^ 32" by simp
  have dl: "?l div 2 ^ 32 < 2 ^ 32" using unat_lt64 [of "u128_v0 r"] by (simp add: div_less_iff_less_mult)
  have "unat (push_bit 32 (u128_v64 r)) = ?h * 2 ^ 32" using h by (intro unat_push_bit_small) simp
  then have "unat rem32 = ?h * 2 ^ 32 + ?l div 2 ^ 32"
    unfolding rem32 using dl by (subst unat_or_disjoint [of 32]) (simp_all add: unat_drop_bit_div)
  also have "\<dots> = R div 2 ^ 32" unfolding r(1) [symmetric] u128_def by simp
  finally have ur: "unat rem32 = R div 2 ^ 32" .
  have "0 < unat bh" using bl(3) by simp
  from digit_word [OF this bl(2), of rem32] have "unat ?q = min (R div (2 ^ 32 * unat bh)) (2 ^ 32 - 1)"
    unfolding ur div_mult2_eq .
  note q = digit_estimate [OF bs bl(1,3) r(2) this]
  have "unat (z OR ?q) = Q * 2 ^ 32 + unat ?q" using unat_or_disjoint [of 32 z ?q] q(3) unfolding z by simp
  then show "Q * 2 ^ 32 + R div b \<le> unat (z OR ?q)" "unat (z OR ?q) \<le> Q * 2 ^ 32 + R div b + 2"
    "bl = 0 \<Longrightarrow> unat (z OR ?q) = Q * 2 ^ 32 + R div b"
    using q(1,2,4) by linarith+
qed

text \<open>A divisor whose low word is zero is divided by its leading half alone, and then nothing is lost.\<close>

lemma estimateDiv128To64_value:
  assumes b: "2 ^ 63 \<le> unat b" and ab: "a64 < b"
  shows "\<exists>z. softfloat_estimateDiv128To64 a64 a0 b = Some z \<and>
    cat128 a64 a0 div unat b \<le> unat z \<and> unat z \<le> cat128 a64 a0 div unat b + 2 \<and>
    (unat b mod 2 ^ 32 = 0 \<longrightarrow> unat z = cat128 a64 a0 div unat b)"
proof -
  let ?p = "2 ^ 32 :: nat" and ?a = "cat128 a64 a0" and ?b = "unat b"
  define bh :: uint64_t where "bh = ucast (ucast (drop_bit 32 b) :: uint32_t)"
  have bh: "unat bh = ?b div ?p"
    unfolding bh_def using unat_lt64 [of b] by (simp add: unat_ucast64 unat_ucast_mod unat_drop_bit_div div_less_iff_less_mult)
  then have bl: "0 < unat bh" "unat bh < ?p" "?p \<le> 2 * unat bh" using b unat_lt64 [of b] by (simp_all add: div_less_iff_less_mult less_eq_div_iff_mult_less_eq)
  have bs: "?b = unat bh * ?p + ?b mod ?p" unfolding bh by (rule div_mult_mod_eq [symmetric])
  have bm: "?b mod ?p < ?p" by simp
  define q1 where "q1 = (if push_bit 32 bh \<le> a64 then 0xFFFFFFFF else a64 div bh)"
  define x where "x = ?a div ?p"
  have xs: "x div (?p * unat bh) = unat a64 div unat bh"
  proof -
    have "x div ?p = ?a div 2 ^ 64" unfolding x_def by (simp only: div_mult2_eq [symmetric]) simp
    also have "\<dots> = unat a64" using unat_lt64 [of a0] by simp
    finally show ?thesis by (simp only: div_mult2_eq)
  qed
  have q1: "unat q1 = min (x div (?p * unat bh)) (?p - 1)" unfolding q1_def xs by (rule digit_word [OF bl(1,2)])
  have ap: "?a < ?b * 2 ^ 64" using ab unat_lt64 [of a0] unfolding word_less_nat_alt by simp
  then have "x < ?b * ?p" unfolding x_def by (simp add: div_less_iff_less_mult)
  note Q = digit_estimate [OF bs bm bl(3) this q1]
  have xb: "x div ?b = ?a div (?b * ?p)" unfolding x_def by (simp only: div_mult2_eq [symmetric] mult.commute)
  define z where "z = push_bit 32 q1"
  have uz: "unat z = unat q1 * ?p" unfolding z_def by (rule unat_push_bit_small) (use Q(3) in simp)
  let ?t = "softfloat_mul64To128 b z"
  define c64 c0 where "c64 = bh" and "c0 = push_bit 32 b"
  have c: "?b * ?p = cat128 c64 c0"
  proof -
    have "unat c0 = (?b * ?p) mod (2 ^ 32 * 2 ^ 32)" unfolding c0_def unat_push_bit_mod by simp
    also have "\<dots> = ?b mod ?p * ?p" by (rule mult_mod_left [symmetric])
    finally have "cat128 c64 c0 = (unat bh * ?p + ?b mod ?p) * ?p" by (simp add: c64_def algebra_simps)
    then show ?thesis using bs by (simp only:)
  qed
  have t: "cat128 (u128_v64 ?t) (u128_v0 ?t) = unat q1 * (?b * ?p)"
    using mul64To128_exact [of b z] unfolding u128_def uz by (simp only: mult_ac)
  have pb: "0 < ?b * ?p" "?b * ?p < 2 ^ 125" using unat_lt64 [of b] b by simp_all
  obtain k r' where W: "while_option (\<lambda>(z, rem). 0x8000000000000000 \<le> u128_v64 rem)
      (\<lambda>(z, rem). (z - 0x100000000, softfloat_add128 (u128_v64 rem) (u128_v0 rem) c64 c0))
      (z, softfloat_sub128 a64 a0 (u128_v64 ?t) (u128_v0 ?t)) = Some (z - of_nat k * 0x100000000, r')"
    and k: "unat q1 = ?a div (?b * ?p) + k" "u128 r' = ?a mod (?b * ?p)"
    using correct_digit [OF refl c pb Q(1,2) [unfolded xb] t, of "0x100000000" z] by blast
  define Q1 R where "Q1 = ?a div (?b * ?p)" and "R = ?a mod (?b * ?p)"
  have uz': "unat (z - of_nat k * 0x100000000) = Q1 * ?p"
  proof -
    have "z = of_nat (Q1 * ?p + k * ?p)" by (rule word_eq_of_nat) (simp add: uz k(1) Q1_def distrib_right)
    also have "\<dots> = of_nat (Q1 * ?p) + of_nat k * 0x100000000" by simp
    finally have "z = of_nat (Q1 * ?p) + of_nat k * 0x100000000" .
    then have "z - of_nat k * 0x100000000 = of_nat (Q1 * ?p)" by simp
    moreover have "Q1 * ?p < 2 ^ 64" using unat_lt64 [of z] unfolding uz k(1) Q1_def by (simp add: distrib_right)
    ultimately show ?thesis by (simp only: unat_of_nat) simp
  qed
  have Rb: "R < ?b * ?p" unfolding R_def using pb(1) by (rule mod_less_divisor)
  have qa: "?a div ?b = Q1 * ?p + R div ?b"
  proof -
    have "?a = ?b * (Q1 * ?p) + R" using div_mult_mod_eq [of ?a "?b * ?p"] unfolding Q1_def R_def by (simp only: mult_ac)
    then show ?thesis using b by (simp only: div_mult_self4) simp
  qed
  have val: "softfloat_estimateDiv128To64 a64 a0 b = Some (z - of_nat k * 0x100000000 OR
      (if push_bit 32 bh \<le> push_bit 32 (u128_v64 r') OR drop_bit 32 (u128_v0 r') then 0xFFFFFFFF
       else (push_bit 32 (u128_v64 r') OR drop_bit 32 (u128_v0 r')) div bh))"
  proof -
    have "(if push_bit 32 bh \<le> a64 then 0xFFFFFFFF00000000 else push_bit 32 (a64 div bh)) = z"
      by (simp add: z_def q1_def push_bit_numeral)
    moreover have "\<not> b \<le> a64" using ab by simp
    ultimately show ?thesis
      unfolding softfloat_estimateDiv128To64_def Let_def bh_def [symmetric] c64_def [symmetric] c0_def [symmetric]
      using W by (simp add: c64_def)
  qed
  note sd = second_digit [OF bs bm bl(2,3) uz' k(2) [folded R_def] Rb refl]
  show ?thesis unfolding qa by (intro exI conjI impI) (rule val, rule sd(1), rule sd(2), erule sd(3))
qed

lemma estimateDiv128To64_bounds:
  assumes "2 ^ 63 \<le> unat b" and "a64 < b"
  shows "\<exists>z. softfloat_estimateDiv128To64 a64 a0 b = Some z \<and>
    cat128 a64 a0 div unat b \<le> unat z \<and> unat z \<le> cat128 a64 a0 div unat b + 2"
  using estimateDiv128To64_value [OF assms] by blast

text \<open>
  Property C19: for a divisor with its top bit set, \<^const>\<open>softfloat_estimateDiv128To64\<close> returns (its loop ends) an estimate that is
  the quotient, one more or two more; when the quotient does not fit, it returns all ones.
\<close>

theorem estimateDiv128To64_total:
  assumes "2 ^ 63 \<le> unat b"
  shows "\<exists>z. softfloat_estimateDiv128To64 a64 a0 b = Some z \<and>
    (if b \<le> a64 then z = - 1
     else unat z \<in> {(unat a64 * 2 ^ 64 + unat a0) div unat b .. (unat a64 * 2 ^ 64 + unat a0) div unat b + 2})"
proof (cases "b \<le> a64")
  case True
  then show ?thesis by (simp add: softfloat_estimateDiv128To64_def)
next
  case False
  then show ?thesis using estimateDiv128To64_bounds [OF assms, of a64 a0] by auto
qed

theorem estimateDiv128To64_total_witness:
  "\<exists>z. softfloat_estimateDiv128To64 5 7 0x8000000000000000 = Some z \<and> unat z \<in> {10..12}"
  using estimateDiv128To64_total [of "0x8000000000000000" 5 7] by simp

end
