(* ===== verification/Float_Div.thy ===== *)
theory Float_Div
  imports Float_Mul Division_Estimate "HOL-Library.Monad_Syntax"
begin

text \<open>
  Division (\<^verbatim>\<open>source/f32_div.c\<close>, \<^verbatim>\<open>source/f64_div.c\<close>). The single-precision routine divides 64-bit integers; the
  double-precision routine estimates the quotient with \<^const>\<open>softfloat_estimateDiv128To64\<close> and corrects
  the estimate in a loop, modelled by \<^const>\<open>while_option\<close>, only when the estimate is close to a
  rounding boundary. \<^const>\<open>None\<close> would be a loop that never ends.
\<close>

section \<open>The routines\<close>

definition f32_div :: "float32_t \<Rightarrow> float32_t \<Rightarrow> fp_state \<Rightarrow> float32_t \<times> fp_state" where
  "f32_div a b s =
     (let uiA = a;
          signA = signF32UI uiA;
          expA = expF32UI uiA;
          sigA = fracF32UI uiA;
          uiB = b;
          signB = signF32UI uiB;
          expB = expF32UI uiB;
          sigB = fracF32UI uiB;
          signZ = (signA \<noteq> signB);
          propagateNaN = softfloat_propagateNaNF32UI uiA uiB s;
          invalid = (defaultNaNF32UI, softfloat_raiseFlags softfloat_flag_invalid s);
          infinity = (\<lambda>s. (packToF32UI signZ 0xFF 0, s));
          zero = (packToF32UI signZ 0 0, s)
      in if expA = 0xFF
         then if sigA \<noteq> 0 then propagateNaN
              else if expB = 0xFF then (if sigB \<noteq> 0 then propagateNaN else invalid)
              else infinity s
         else if expB = 0xFF then (if sigB \<noteq> 0 then propagateNaN else zero)
         else if expB = 0 \<and> sigB = 0
         then (if word_of_int expA OR sigA = 0 then invalid
               else infinity (softfloat_raiseFlags softfloat_flag_infinity s))
         else
           let normExpSig = softfloat_normSubnormalF32Sig sigB;
               (expB, sigB) = (if expB = 0 then (es32_exp normExpSig, es32_sig normExpSig) else (expB, sigB))
           in if expA = 0 \<and> sigA = 0 then zero
              else
                let normExpSig = softfloat_normSubnormalF32Sig sigA;
                    (expA, sigA) = (if expA = 0 then (es32_exp normExpSig, es32_sig normExpSig) else (expA, sigA));
                    expZ = expA - expB + 0x7D;
                    sigA = push_bit 7 (sigA OR 0x00800000);
                    sigB = push_bit 8 (sigB OR 0x00800000);
                    (expZ, sigA) = (if sigB \<le> sigA + sigA then (expZ + 1, drop_bit 1 sigA) else (expZ, sigA))
                in let sigZ = ucast (push_bit 32 (ucast sigA :: uint64_t) div ucast sigB);
                       sigZ = (if sigZ AND 0x3F = 0
                               then sigZ OR of_bool (ucast sigB * ucast sigZ \<noteq> push_bit 32 (ucast sigA :: uint64_t))
                               else sigZ)
                   in softfloat_roundPackToF32 signZ expZ sigZ s)"

definition f64_div :: "float64_t \<Rightarrow> float64_t \<Rightarrow> fp_state \<Rightarrow> (float64_t \<times> fp_state) option" where
  "f64_div a b s =
     (let uiA = a;
          signA = signF64UI uiA;
          expA = expF64UI uiA;
          sigA = fracF64UI uiA;
          uiB = b;
          signB = signF64UI uiB;
          expB = expF64UI uiB;
          sigB = fracF64UI uiB;
          signZ = (signA \<noteq> signB);
          propagateNaN = Some (softfloat_propagateNaNF64UI uiA uiB s);
          invalid = Some (defaultNaNF64UI, softfloat_raiseFlags softfloat_flag_invalid s);
          infinity = (\<lambda>s. Some (packToF64UI signZ 0x7FF 0, s));
          zero = Some (packToF64UI signZ 0 0, s)
      in if expA = 0x7FF
         then if sigA \<noteq> 0 then propagateNaN
              else if expB = 0x7FF then (if sigB \<noteq> 0 then propagateNaN else invalid)
              else infinity s
         else if expB = 0x7FF then (if sigB \<noteq> 0 then propagateNaN else zero)
         else if expB = 0 \<and> sigB = 0
         then (if word_of_int expA OR sigA = 0 then invalid
               else infinity (softfloat_raiseFlags softfloat_flag_infinity s))
         else
           let normExpSig = softfloat_normSubnormalF64Sig sigB;
               (expB, sigB) = (if expB = 0 then (es64_exp normExpSig, es64_sig normExpSig) else (expB, sigB))
           in if expA = 0 \<and> sigA = 0 then zero
              else
                let normExpSig = softfloat_normSubnormalF64Sig sigA;
                    (expA, sigA) = (if expA = 0 then (es64_exp normExpSig, es64_sig normExpSig) else (expA, sigA));
                    expZ = expA - expB + 0x3FD;
                    sigA = push_bit 10 (sigA OR 0x0010000000000000);
                    sigB = push_bit 11 (sigB OR 0x0010000000000000);
                    (expZ, sigA) = (if sigB \<le> sigA + sigA then (expZ + 1, drop_bit 1 sigA) else (expZ, sigA))
                in do {
                     sigZ \<leftarrow> softfloat_estimateDiv128To64 sigA 0 sigB;
                     sigZ \<leftarrow>
                       (if sigZ AND 0x1FF \<le> 2
                        then
                          let term = softfloat_mul64To128 sigB sigZ;
                              rem = softfloat_sub128 sigA 0 (u128_v64 term) (u128_v0 term)
                          in do {
                               (sigZ, rem) \<leftarrow>
                                 while_option
                                   (\<lambda>(sigZ, rem). 0x8000000000000000 \<le> u128_v64 rem)
                                   (\<lambda>(sigZ, rem).
                                      (sigZ - 1, softfloat_add128 (u128_v64 rem) (u128_v0 rem) 0 sigB))
                                   (sigZ, rem);
                               Some (sigZ OR of_bool (u128_v0 rem \<noteq> 0))
                             }
                        else Some sigZ);
                     Some (softfloat_roundPackToF64 signZ expZ sigZ s)
                   })"

section \<open>Quotients with a sticky bit\<close>

lemma agrees_between:
  assumes "real (c * 2 ^ k) < X" and "X < real (Suc c * 2 ^ k)" and "c * 2 ^ k < n" and "n < Suc c * 2 ^ k"
  shows "agrees k X n"
proof (rule agreesI)
  fix b :: nat
  have "b \<le> c \<or> Suc c \<le> b" by linarith
  then have "b * 2 ^ k \<le> c * 2 ^ k \<or> Suc c * 2 ^ k \<le> b * 2 ^ k" using mult_le_mono1 by blast
  moreover from this have "real (b * 2 ^ k) \<le> real (c * 2 ^ k) \<or> real (Suc c * 2 ^ k) \<le> real (b * 2 ^ k)" by (simp only: of_nat_le_iff)
  ultimately show "X < real (b * 2 ^ k) \<longleftrightarrow> n < b * 2 ^ k" "X = real (b * 2 ^ k) \<longleftrightarrow> n = b * 2 ^ k"
    using assms by linarith+
qed

text \<open>A quotient whose last \<open>k\<close> bits are not all zero needs no sticky bit; one whose last bits are zero does.\<close>

lemma quotient_bounds:
  assumes "0 < d"
  shows "real (n div d) \<le> real n / real d" and "real n / real d < real (n div d) + 1"
    and "real n / real d = real (n div d) \<longleftrightarrow> n mod d = 0"
proof -
  have n: "real n = real (n div d) * real d + real (n mod d)"
    by (simp only: of_nat_mult [symmetric] of_nat_add [symmetric] div_mult_mod_eq)
  have q: "real n / real d = real (n div d) + real (n mod d) / real d"
    by (subst n) (use assms in \<open>simp add: add_divide_distrib\<close>)
  moreover have "real (n mod d) < real d" using assms by (simp only: of_nat_less_iff mod_less_divisor)
  ultimately show "real (n div d) \<le> real n / real d" "real n / real d < real (n div d) + 1"
    using assms by simp_all
  show "real n / real d = real (n div d) \<longleftrightarrow> n mod d = 0" unfolding q using assms by simp
qed

lemma agrees_quotient:
  assumes d: "0 < d" and k: "0 < k"
    and m: "m = (if (n div d) mod 2 ^ k = 0 then n div d + of_bool (n mod d \<noteq> 0) else n div d)"
  shows "agrees k (real n / real d) m"
proof -
  define q where "q = n div d"
  note Q = quotient_bounds [OF d, of n, folded q_def]
  define c where "c = q div 2 ^ k"
  define r where "r = q mod 2 ^ k"
  have "q = c * 2 ^ k + r" unfolding c_def r_def by (rule div_mult_mod_eq [symmetric])
  moreover have "r < 2 ^ k" by (simp add: r_def)
  ultimately have q: "c * 2 ^ k \<le> q" "q < Suc c * 2 ^ k" "q mod 2 ^ k = q - c * 2 ^ k" unfolding r_def [symmetric] by simp_all
  then have lt: "q + 1 \<le> Suc c * 2 ^ k" by simp
  then have "real (q + 1) \<le> real (Suc c * 2 ^ k)" by (simp only: of_nat_le_iff)
  with Q(2) have hi: "real n / real d < real (Suc c * 2 ^ k)" by simp
  show ?thesis
  proof (cases "n mod d = 0 \<or> q mod 2 ^ k \<noteq> 0")
    case True
    show ?thesis
    proof (cases "n mod d = 0")
      case True
      then have "m = q" by (simp add: m q_def)
      with True Q(3) show ?thesis by simp
    next
      case False
      with True have nz: "q mod 2 ^ k \<noteq> 0" by simp
      then have "m = q" "c * 2 ^ k < q" using q by (simp_all add: m q_def [symmetric])
      moreover from this have "real (c * 2 ^ k) < real q" by (simp only: of_nat_less_iff)
      then have "real (c * 2 ^ k) < real n / real d" using Q(1) by linarith
      ultimately show ?thesis using q(2) by (intro agrees_between [OF _ hi]) simp_all
    qed
  next
    case False
    then have z: "q = c * 2 ^ k" "m = q + 1" using q by (auto simp: m q_def [symmetric])
    have "(2::nat) ^ 1 \<le> 2 ^ k" using k by (intro power_increasing) simp_all
    then have "m < Suc c * 2 ^ k" "c * 2 ^ k < m" using z by simp_all
    moreover have "real (c * 2 ^ k) < real n / real d" using Q(1,3) False z(1) by linarith
    ultimately show ?thesis by (intro agrees_between [OF _ hi])
  qed
qed

section \<open>The scheme of both routines\<close>

context softfloat_format
begin

definition div_op ::
  "('a word \<Rightarrow> 'a word \<Rightarrow> 'a word option) \<Rightarrow> 'a word \<Rightarrow> 'a word \<Rightarrow> fp_state \<Rightarrow> ('a word \<times> fp_state) option" where
  "div_op quot a b s =
     (let expA = expUI a; sigA = fracUI a; expB = expUI b; sigB = fracUI b;
          signZ = (signUI a \<noteq> signUI b);
          propagateNaN = Some (propagate a b s);
          invalid = Some (defaultNaN, softfloat_raiseFlags softfloat_flag_invalid s);
          infinity = (\<lambda>s. Some (packUI signZ (int E) 0, s));
          zero = Some (packUI signZ 0 0, s)
      in if expA = int E
         then if sigA \<noteq> 0 then propagateNaN
              else if expB = int E then (if sigB \<noteq> 0 then propagateNaN else invalid)
              else infinity s
         else if expB = int E then (if sigB \<noteq> 0 then propagateNaN else zero)
         else if expB = 0 \<and> sigB = 0
         then (if word_of_int expA OR sigA = 0 then invalid
               else infinity (softfloat_raiseFlags softfloat_flag_infinity s))
         else
           let (expB, sigB) = (if expB = 0 then (normExp sigB, normSig sigB) else (expB, sigB))
           in if expA = 0 \<and> sigA = 0 then zero
              else
                let (expA, sigA) = (if expA = 0 then (normExp sigA, normSig sigA) else (expA, sigA));
                    expZ = expA - expB + (int bias - 2);
                    sigA = push_bit x (sigA OR 2 ^ f);
                    sigB = push_bit (Suc x) (sigB OR 2 ^ f);
                    (expZ, sigA) = (if sigB \<le> sigA + sigA then (expZ + 1, drop_bit 1 sigA) else (expZ, sigA))
                in do {
                     sigZ \<leftarrow> quot sigA sigB;
                     Some (roundPack signZ expZ sigZ s)
                   })"

lemma div_op_finite:
  assumes "expUI a < int E" and "expUI b < int E" and "fl_mag a \<noteq> 0" and "fl_mag b \<noteq> 0"
    and n: "norm_operand a = (eA, gA)" "norm_operand b = (eB, gB)"
  shows "div_op quot a b s =
    (let sigA = push_bit x (gA OR 2 ^ f); sigB = push_bit (Suc x) (gB OR 2 ^ f);
         (expZ, sigA) = (if sigB \<le> sigA + sigA then (eA - eB + (int bias - 2) + 1, drop_bit 1 sigA) else (eA - eB + (int bias - 2), sigA))
     in do { sigZ \<leftarrow> quot sigA sigB; Some (roundPack (signUI a \<noteq> signUI b) expZ sigZ s) })"
proof -
  have nz: "(expUI a = 0 \<and> fracUI a = 0) = False" "(expUI b = 0 \<and> fracUI b = 0) = False"
    and ne: "(expUI a = int E) = False" "(expUI b = int E) = False"
    using assms(1-4) by (auto simp: zero_iff)
  show ?thesis
    unfolding div_op_def Let_def nz ne if_False n [unfolded norm_operand_def] prod.case ..
qed

text \<open>
  The quotient of two significands, the divisor with its top bit set: it must agree with the exact
  quotient up to a sticky bit below the rounding position.
\<close>

lemma div_op_core:
  assumes q: "\<And>A B. 2 ^ (f + x + 1) \<le> unat B \<Longrightarrow> unat A < unat B \<Longrightarrow>
      \<exists>z. quot A B = Some z \<and> agrees (x - 1) (real (unat A * 2 ^ LENGTH('a)) / real (unat B)) (unat z)"
    and B: "2 ^ (f + x + 1) \<le> unat B" and A: "unat A < unat B"
    and lo: "unat B \<le> unat A * 4" and hi: "unat A * 2 < unat B"
    and r: "\<bar>r\<bar> = real (unat A * 2 ^ LENGTH('a)) / real (unat B) * 2 powi (ex - int x)" "r \<noteq> 0" "sign = (r < 0)"
    and ex: "-32768 \<le> ex" "ex < 32768"
  shows "\<exists>z. quot A B = Some z \<and> op_rounds f E zs r s (roundPack sign ex z s)"
proof -
  let ?X = "real (unat A * 2 ^ LENGTH('a)) / real (unat B)"
  obtain z where z: "quot A B = Some z" "agrees (x - 1) ?X (unat z)" using q [OF B A] by blast
  have pB: "0 < real (unat B)" using A by (simp only: of_nat_0_less_iff)
  have "unat B * 2 ^ (f + x) \<le> unat A * 2 ^ LENGTH('a)" using mult_le_mono1 [OF lo, of "2 ^ (f + x)"] by (simp add: len)
  then have "real (2 ^ (f + x)) * real (unat B) \<le> real (unat A * 2 ^ LENGTH('a))"
    by (simp only: of_nat_mult [symmetric] of_nat_le_iff mult.commute)
  then have "real (2 ^ (f + x)) \<le> ?X" using pB by (simp only: pos_le_divide_eq)
  then have zl: "2 ^ (f + x) \<le> unat z" by (subst (asm) agrees_le [OF z(2)]) (simp_all add: le_imp_power_dvd)
  have "unat A * 2 ^ LENGTH('a) < unat B * 2 ^ (f + x + 1)" using hi by (simp add: len)
  then have "real (unat A * 2 ^ LENGTH('a)) < real (2 ^ (f + x + 1)) * real (unat B)"
    by (simp only: of_nat_mult [symmetric] of_nat_less_iff mult.commute)
  then have "?X < real (2 ^ (f + x + 1))" using pB by (simp only: pos_divide_less_eq)
  then have zh: "unat z < 2 ^ (f + x + 1)" by (subst (asm) agrees_less [OF z(2)]) (simp_all add: le_imp_power_dvd)
  have "op_rounds f E zs r s (roundPack sign ex z s)" by (rule roundPack_rounds [OF z(2) zl zh ex r])
  with z(1) show ?thesis by blast
qed

lemma quotient_scale:
  assumes "0 < mB"
  shows "real (mA * 2 ^ a * 2 ^ (f + x + 2)) / real (mB * 2 ^ Suc x) * 2 powi (e - int x) =
    real mA / real mB * 2 powi (e + int a + int f + 1 - int x)"
proof -
  have "real (mA * 2 ^ a * 2 ^ (f + x + 2)) / real (mB * 2 ^ Suc x) = real mA / real mB * (2 powi int (a + f + x + 2) / 2 ^ Suc x)"
    by (simp add: power_add power_int_add)
  also have "2 powi int (a + f + x + 2) / 2 ^ Suc x = (2::real) powi (int a + int f + 1)"
    unfolding powi_div by (rule arg_cong [of _ _ "(powi) 2"]) simp
  finally have "real (mA * 2 ^ a * 2 ^ (f + x + 2)) / real (mB * 2 ^ Suc x) * 2 powi (e - int x) =
      real mA / real mB * (2 powi (int a + int f + 1) * 2 powi (e - int x))" by (simp only: mult.assoc)
  also have "\<dots> = real mA / real mB * 2 powi (e + int a + int f + 1 - int x)"
    unfolding powi_mult by (simp add: algebra_simps)
  finally show ?thesis .
qed

theorem div_op_rounds:
  assumes fin: "fl_mag a < E * 2 ^ f" "fl_mag b < E * 2 ^ f" and b0: "fl_mag b \<noteq> 0"
    and q: "\<And>A B. 2 ^ (f + x + 1) \<le> unat B \<Longrightarrow> unat A < unat B \<Longrightarrow>
      \<exists>z. quot A B = Some z \<and> agrees (x - 1) (real (unat A * 2 ^ LENGTH('a)) / real (unat B)) (unat z)"
    and r: "r = fl_real f a / fl_real f b * 2 ^ (bias + f - 1)"
  shows "\<exists>res. div_op quot a b s = Some res \<and> op_rounds f E (signUI a \<noteq> signUI b) r s res"
proof (cases "fl_mag a = 0")
  case True
  then have r0: "r = 0" by (simp add: r fl_real_def)
  let ?z = "packUI (signUI a \<noteq> signUI b) 0 0"
  have z: "fl_mag ?z = 0" "fl_sign ?z = (signUI a \<noteq> signUI b)" using pack_sign_mag [of 0 0] by simp_all
  have "op_rounds f E (signUI a \<noteq> signUI b) r s (?z, s)"
    by (rule op_rounds_exact) (use r0 z E_ge2 in \<open>simp_all add: fl_real_def\<close>)
  moreover have "div_op quot a b s = Some (?z, s)"
    using True fin b0 unfolding finite_iff zero_iff div_op_def Let_def by (auto split: prod.splits)
  ultimately show ?thesis by blast
next
  case a0: False
  obtain eA gA where nA: "norm_operand a = (eA, gA)" by fastforce
  obtain eB gB where nB: "norm_operand b = (eB, gB)" by fastforce
  define mA mB where "mA = unat (gA OR 2 ^ f)" and "mB = unat (gB OR 2 ^ f)"
  note A = norm_operand [OF a0 nA, folded mA_def] and B = norm_operand [OF b0 nB, folded mB_def]
  let ?sA = "push_bit x (gA OR 2 ^ f)" and ?sB = "push_bit (Suc x) (gB OR 2 ^ f)" and ?sg = "signUI a \<noteq> signUI b"
  have uA: "unat ?sA = mA * 2 ^ x" unfolding mA_def
    by (rule unat_push_bit_small) (use A(2) in \<open>simp add: len power_add mA_def\<close>)
  have uB: "unat ?sB = mB * 2 ^ Suc x" unfolding mB_def
    by (rule unat_push_bit_small) (use B(2) in \<open>simp add: len power_add mB_def\<close>)
  have "unat ?sA + unat ?sA < 2 ^ LENGTH('a)"
  proof -
    have "mA * 2 ^ x < 2 ^ Suc f * 2 ^ x" using A(2) by simp
    moreover have e: "(2::nat) ^ LENGTH('a) = 2 * (2 ^ Suc f * 2 ^ x)" by (simp add: len power_add)
    ultimately show ?thesis unfolding uA e by linarith
  qed
  then have "unat (?sA + ?sA) = unat ?sA + unat ?sA" by (rule unat_add_small)
  then have uAA: "unat (?sA + ?sA) = mA * 2 ^ Suc x" unfolding uA by simp
  have le: "?sB \<le> ?sA + ?sA \<longleftrightarrow> mB \<le> mA" unfolding word_le_nat_alt uAA uB by simp
  have x1: "(2::nat) ^ x = 2 ^ (x - 1) * 2 ^ 1" unfolding power_add [symmetric] using x_ge by simp
  have uD: "unat (drop_bit 1 ?sA) = mA * 2 ^ (x - 1)" unfolding unat_drop_bit_div uA x1 by simp
  have Bt: "2 ^ (f + x + 1) \<le> unat ?sB" unfolding uB using B(1) by (simp add: power_add)
  have "\<bar>r\<bar> = real (mval f (fl_mag a)) / real (mval f (fl_mag b)) * 2 ^ (bias + f - 1)" by (simp add: r fl_real_def abs_mult)
  also have "\<dots> = real mA / real mB * (2 powi (eA - 1) / 2 powi (eB - 1) * 2 powi int (bias + f - 1))"
    unfolding A(3) B(3) by (simp only: power_int_of_nat) (simp only: times_divide_times_eq [symmetric] mult.assoc)
  also have "2 powi (eA - 1) / 2 powi (eB - 1) * 2 powi int (bias + f - 1) = (2::real) powi (eA - eB + int bias + int f - 1)"
  proof -
    have "2 powi (eA - 1) / 2 powi (eB - 1) = (2::real) powi (eA - 1 - (eB - 1))" by (rule power_int_diff [symmetric]) simp
    moreover have "eA - 1 - (eB - 1) + int (bias + f - 1) = eA - eB + int bias + int f - 1" using f_pos by simp
    ultimately show ?thesis by (simp only: powi_mult)
  qed
  finally have rv: "\<bar>r\<bar> = real mA / real mB * 2 powi (eA - eB + int bias + int f - 1)" .
  have "0 < real (mval f (fl_mag a))" "0 < real (mval f (fl_mag b))" using a0 b0 by (simp_all add: mval_pos_iff)
  then have rs: "r \<noteq> 0" "?sg = (r < 0)"
    by (auto simp: r fl_real_def sign_law zero_less_mult_iff mult_less_0_iff divide_less_0_iff zero_less_divide_iff)
  have mp: "0 < mB" using B(1) by (rule less_le_trans [rotated]) simp
  have two: "mA < mB * 2" "mB < mA * 2" using A(1,2) B(1,2) by simp_all
  have eb: "-32768 \<le> eA - eB + (int bias - 2)" "eA - eB + (int bias - 2) + 1 < 32768" using A(4,5) B(4,5) E_bias E_le f_le by auto
  have fE: "expUI a < int E" "expUI b < int E" using fin by (simp_all add: finite_iff)
  show ?thesis
  proof (cases "mB \<le> mA")
    case True
    let ?ex = "eA - eB + (int bias - 2) + 1"
    have ee: "?ex + int (x - 1) + int f + 1 - int x = eA - eB + int bias + int f - 1" using x_ge by simp
    have "\<bar>r\<bar> = real (unat (drop_bit 1 ?sA) * 2 ^ LENGTH('a)) / real (unat ?sB) * 2 powi (?ex - int x)"
      unfolding rv uD uB len quotient_scale [OF mp] ee ..
    moreover have "unat ?sB \<le> unat (drop_bit 1 ?sA) * 4" "unat (drop_bit 1 ?sA) * 2 < unat ?sB" "unat (drop_bit 1 ?sA) < unat ?sB"
      unfolding uD uB power_Suc x1 using True two mp by simp_all
    ultimately obtain z where z: "quot (drop_bit 1 ?sA) ?sB = Some z" "op_rounds f E ?sg r s (roundPack ?sg ?ex z s)"
      using eb div_op_core [OF q Bt _ _ _ _ rs, of "drop_bit 1 ?sA" ?ex ?sg s] by auto
    show ?thesis unfolding div_op_finite [OF fE a0 b0 nA nB] Let_def if_P [OF le [THEN iffD2, OF True]] prod.case z(1) bind.bind_lunit
      using z(2) by blast
  next
    case False
    let ?ex = "eA - eB + (int bias - 2)"
    have ee: "?ex + int x + int f + 1 - int x = eA - eB + int bias + int f - 1" by simp
    have "\<bar>r\<bar> = real (unat ?sA * 2 ^ LENGTH('a)) / real (unat ?sB) * 2 powi (?ex - int x)"
      unfolding rv uA uB len quotient_scale [OF mp] ee ..
    moreover have "unat ?sB \<le> unat ?sA * 4" "unat ?sA * 2 < unat ?sB" "unat ?sA < unat ?sB"
      unfolding uA uB power_Suc using False two mp by simp_all
    ultimately obtain z where z: "quot ?sA ?sB = Some z" "op_rounds f E ?sg r s (roundPack ?sg ?ex z s)"
      using eb div_op_core [OF q Bt _ _ _ _ rs, of ?sA ?ex ?sg s] by auto
    have "\<not> ?sB \<le> ?sA + ?sA" using le False by simp
    then show ?thesis unfolding div_op_finite [OF fE a0 b0 nA nB] Let_def if_not_P [OF \<open>\<not> ?sB \<le> ?sA + ?sA\<close>] prod.case z(1) bind.bind_lunit
      using z(2) by blast
  qed
qed

theorem div_op_special:
  assumes "E * 2 ^ f \<le> fl_mag a \<or> E * 2 ^ f \<le> fl_mag b \<or> fl_mag b = 0"
  shows "div_op quot a b s = Some
    (if fl_nan f E a \<or> fl_nan f E b then propagate a b s
     else if fl_mag a = E * 2 ^ f \<and> fl_mag b = E * 2 ^ f \<or> fl_mag a = 0 \<and> fl_mag b = 0
     then (defaultNaN, softfloat_raiseFlags softfloat_flag_invalid s)
     else if fl_mag b = E * 2 ^ f then (fl_pack (signUI a \<noteq> signUI b) 0, s)
     else (fl_pack (signUI a \<noteq> signUI b) (E * 2 ^ f),
           if fl_mag a = E * 2 ^ f then s else softfloat_raiseFlags softfloat_flag_infinity s))"
proof -
  have z: "packUI sg 0 0 = fl_pack sg 0" for sg using pack_law [of 0 0 sg] by simp
  have E0: "expUI c = int E \<Longrightarrow> fl_mag c \<noteq> 0" for c using E_ge2 by (simp add: zero_iff)
  have c: "expUI a = int E \<or> expUI b = int E \<or> expUI a \<noteq> int E \<and> expUI b \<noteq> int E \<and> fl_mag b = 0"
    using assms exp_range(2) [of a] exp_range(2) [of b] by (auto simp: not_less [symmetric] finite_iff)
  note d = div_op_def Let_def special_exp pack_inf z
  show ?thesis
    using c E0 [of a] E0 [of b] magBits_zero [of a] zero_iff [of b] E_ge2
    by (cases "expUI a = int E"; cases "expUI b = int E") (simp_all add: d)
qed

end

section \<open>Single precision\<close>

definition quotJam32 :: "uint32_t \<Rightarrow> uint32_t \<Rightarrow> uint32_t" where
  "quotJam32 sigA sigB =
     (let sigZ = ucast (push_bit 32 (ucast sigA :: uint64_t) div ucast sigB)
      in if sigZ AND 0x3F = 0
         then sigZ OR of_bool (ucast sigB * ucast sigZ \<noteq> push_bit 32 (ucast sigA :: uint64_t))
         else sigZ)"

lemma f32_div_scheme: "Some (f32_div a b s) = sf32.div_op (\<lambda>A B. Some (quotJam32 A B)) a b s"
proof -
  let ?norm = "\<lambda>c. if expF32UI c = 0
      then (es32_exp (softfloat_normSubnormalF32Sig (fracF32UI c)), es32_sig (softfloat_normSubnormalF32Sig (fracF32UI c)))
      else (expF32UI c, fracF32UI c)"
  obtain eA gA where nA: "?norm a = (eA, gA)" by fastforce
  obtain eB gB where nB: "?norm b = (eB, gB)" by fastforce
  show ?thesis
    unfolding f32_div_def sf32.div_op_def Let_def nA nB prod.case quotJam32_def [unfolded Let_def, symmetric] bind.bind_lunit
    by (cases "push_bit 8 (gB OR 0x00800000) \<le> push_bit 7 (gA OR 0x00800000) + push_bit 7 (gA OR 0x00800000)")
       (simp_all add: if_distrib [of Some])
qed

lemma quotJam32_law:
  assumes "2 ^ 31 \<le> unat B" and "unat A < unat B"
  shows "agrees 6 (real (unat A * 2 ^ 32) / real (unat B)) (unat (quotJam32 A B))"
proof -
  have B: "0 < unat B" using assms(2) by simp
  let ?n = "unat A * 2 ^ 32" and ?d = "unat B"
  define q where "q = ?n div ?d"
  have "?n < ?d * 2 ^ 32" using assms(2) by simp
  then have ql: "q < 2 ^ 32" unfolding q_def by (simp add: div_less_iff_less_mult B mult.commute)
  define w where "w = (ucast (push_bit 32 (ucast A :: uint64_t) div ucast B) :: uint32_t)"
  have uA: "unat (push_bit 32 (ucast A) :: uint64_t) = ?n" 
    by (subst unat_push_bit_small) (use unat_lt32 [of A] in \<open>simp_all add: unat_ucast_up\<close>)
  have v: "unat (push_bit 32 (ucast A :: uint64_t) div ucast B) = q" by (simp add: unat_div uA unat_ucast_up q_def)
  have w: "unat w = q" unfolding w_def unat_ucast_mod v using ql by simp
  have "ucast B * ucast w = push_bit 32 (ucast A :: uint64_t) \<longleftrightarrow> ?d * q = ?n"
  proof -
    have "?d * q \<le> ?n" by (simp add: q_def)
    also have "?n < 2 ^ 64" using unat_lt32 [of A] by simp
    finally have "unat (ucast B * ucast w :: uint64_t) = ?d * q"
      by (subst unat_mult_small) (simp_all add: unat_ucast_up w)
    then show ?thesis unfolding word_unat_eq_iff uA by simp
  qed
  moreover have "?d * q = ?n \<longleftrightarrow> ?n mod ?d = 0" unfolding q_def using mult_div_mod_eq [of ?d ?n] by linarith
  moreover have "w AND 0x3F = 0 \<longleftrightarrow> q mod 2 ^ 6 = 0"
    using and_mask_take_bit [of w 6] unat_eq_zero [of "take_bit 6 w"] by (simp add: unat_take_bit_mod w)
  ultimately have "unat (quotJam32 A B) = (if q mod 2 ^ 6 = 0 then unat (w OR of_bool (?n mod ?d \<noteq> 0)) else q)"
    unfolding quotJam32_def Let_def w_def [symmetric] using w by simp
  also have "\<dots> = (if q mod 2 ^ 6 = 0 then q + of_bool (?n mod ?d \<noteq> 0) else q)"
  proof -
    have "even q" if "q mod 2 ^ 6 = 0"
    proof -
      from that have "q mod 64 = 0" by simp
      then show ?thesis by presburger
    qed
    then show ?thesis by (simp add: unat_or_of_bool w)
  qed
  finally show ?thesis by (intro agrees_quotient B) (simp_all add: q_def)
qed

lemma f32_div_correct:
  assumes "fl_mag a < 255 * 2 ^ 23" and "fl_mag b < 255 * 2 ^ 23" and "fl_mag b \<noteq> 0"
  shows "op_rounds 23 255 (fl_sign a \<noteq> fl_sign b) (fl_real 23 a / fl_real 23 b * 2 ^ 149) s (f32_div a b s)"
proof -
  have "\<exists>res. sf32.div_op (\<lambda>A B. Some (quotJam32 A B)) a b s = Some res \<and>
      op_rounds 23 255 (signF32UI a \<noteq> signF32UI b) (fl_real 23 a / fl_real 23 b * 2 ^ 149) s res"
    by (rule sf32.div_op_rounds [OF assms]) (use quotJam32_law in simp_all)
  then show ?thesis unfolding f32_div_scheme [symmetric] f32.sign_law by auto
qed

lemma f32_div_special:
  assumes "255 * 2 ^ 23 \<le> fl_mag a \<or> 255 * 2 ^ 23 \<le> fl_mag b \<or> fl_mag b = 0"
  shows "f32_div a b s =
    (if fl_nan 23 255 a \<or> fl_nan 23 255 b then softfloat_propagateNaNF32UI a b s
     else if fl_mag a = 255 * 2 ^ 23 \<and> fl_mag b = 255 * 2 ^ 23 \<or> fl_mag a = 0 \<and> fl_mag b = 0
     then (defaultNaNF32UI, softfloat_raiseFlags softfloat_flag_invalid s)
     else if fl_mag b = 255 * 2 ^ 23 then (fl_pack (fl_sign a \<noteq> fl_sign b) 0, s)
     else (fl_pack (fl_sign a \<noteq> fl_sign b) (255 * 2 ^ 23),
           if fl_mag a = 255 * 2 ^ 23 then s else softfloat_raiseFlags softfloat_flag_infinity s))"
  using sf32.div_op_special [OF assms, of "\<lambda>A B. Some (quotJam32 A B)" s] unfolding f32_div_scheme [symmetric] f32.sign_law option.inject .

section \<open>Double precision\<close>

definition quotJam64 :: "uint64_t \<Rightarrow> uint64_t \<Rightarrow> uint64_t option" where
  "quotJam64 sigA sigB =
     do {
       sigZ \<leftarrow> softfloat_estimateDiv128To64 sigA 0 sigB;
       if sigZ AND 0x1FF \<le> 2
       then
         let term = softfloat_mul64To128 sigB sigZ;
             rem = softfloat_sub128 sigA 0 (u128_v64 term) (u128_v0 term)
         in do {
              (sigZ, rem) \<leftarrow>
                while_option
                  (\<lambda>(sigZ, rem). 0x8000000000000000 \<le> u128_v64 rem)
                  (\<lambda>(sigZ, rem). (sigZ - 1, softfloat_add128 (u128_v64 rem) (u128_v0 rem) 0 sigB))
                  (sigZ, rem);
              Some (sigZ OR of_bool (u128_v0 rem \<noteq> 0))
            }
       else Some sigZ
     }"

lemma agrees_quotient_jam:
  assumes d: "0 < d" and m: "m = n div d + of_bool (n mod d \<noteq> 0 \<and> even (n div d))"
  shows "agrees 1 (real n / real d) m"
proof (rule agrees_quotient [OF d])
  show "m = (if (n div d) mod 2 ^ 1 = 0 then n div d + of_bool (n mod d \<noteq> 0) else n div d)"
    unfolding m by (cases "even (n div d)") (auto simp: even_iff_mod_2_eq_zero)
qed simp

text \<open>An estimate at most \<open>e\<close> too large, whose last \<open>k\<close> bits exceed \<open>e\<close>, is as good as the quotient.\<close>

lemma agrees_estimate:
  assumes d: "0 < d" and e: "n div d \<le> m" "m \<le> n div d + e" and far: "e < m mod 2 ^ k"
  shows "agrees k (real n / real d) m"
proof -
  define c r where "c = m div 2 ^ k" and "r = m mod 2 ^ k"
  have mc: "m = c * 2 ^ k + r" unfolding c_def r_def by (rule div_mult_mod_eq [symmetric])
  have r: "r < 2 ^ k" "e < r" using far by (simp_all add: r_def)
  then have "c * 2 ^ k < n div d" "n div d + 1 \<le> Suc c * 2 ^ k" using e mc by simp_all
  then have "real (c * 2 ^ k) < real (n div d)" "real (n div d + 1) \<le> real (Suc c * 2 ^ k)"
    by (simp_all only: of_nat_less_iff of_nat_le_iff)
  then have "real (c * 2 ^ k) < real n / real d" "real n / real d < real (Suc c * 2 ^ k)"
    using quotient_bounds(1,2) [OF d, of n] by simp_all
  then show ?thesis by (rule agrees_between) (use mc r in simp_all)
qed

lemma quotJam64_law:
  assumes B: "2 ^ 63 \<le> unat B" and AB: "unat A < unat B"
  shows "\<exists>z. quotJam64 A B = Some z \<and> agrees 9 (real (unat A * 2 ^ 64) / real (unat B)) (unat z)"
proof -
  let ?n = "cat128 A 0" and ?d = "unat B"
  have n: "?n = unat A * 2 ^ 64" by simp
  obtain w where w: "softfloat_estimateDiv128To64 A 0 B = Some w" "?n div ?d \<le> unat w" "unat w \<le> ?n div ?d + 2"
    using estimateDiv128To64_bounds [of B A 0] B AB by (auto simp: word_less_nat_alt)
  have d: "0 < ?d" using B by simp
  have "w AND 0x1FF = take_bit 9 w" using and_mask_take_bit [of w 9] by simp
  then have near: "w AND 0x1FF \<le> 2 \<longleftrightarrow> unat w mod 2 ^ 9 \<le> 2" by (simp add: word_le_nat_alt unat_take_bit_mod)
  show ?thesis
  proof (cases "w AND 0x1FF \<le> 2")
    case False
    then have "quotJam64 A B = Some w" unfolding quotJam64_def w(1) by simp
    moreover have "agrees 9 (real ?n / real ?d) (unat w)"
      by (rule agrees_estimate [OF d w(2,3)]) (use False near in simp)
    ultimately show ?thesis unfolding n by blast
  next
    case True
    let ?t = "softfloat_mul64To128 B w"
    have D: "?d = cat128 0 B" "?d < 2 ^ 125" using unat_lt64 [of B] by simp_all
    have "cat128 (u128_v64 ?t) (u128_v0 ?t) = unat w * ?d" using mul64To128_exact [of B w] unfolding u128_def by (simp only: mult.commute)
    then obtain k r where W: "while_option (\<lambda>(sigZ, rem). 0x8000000000000000 \<le> u128_v64 rem)
        (\<lambda>(sigZ, rem). (sigZ - 1, softfloat_add128 (u128_v64 rem) (u128_v0 rem) 0 B))
        (w, softfloat_sub128 A 0 (u128_v64 ?t) (u128_v0 ?t)) = Some (w - of_nat k * 1, r)"
      and k: "unat w = ?n div ?d + k" "u128 r = ?n mod ?d"
      using correct_digit [OF refl D(1) d D(2) w(2,3), of _ _ 1 w] by blast
    have uz: "unat (w - of_nat k * 1) = ?n div ?d"
    proof -
      have "w = of_nat (?n div ?d) + of_nat k" using word_eq_of_nat [OF k(1)] by (simp only: of_nat_add)
      then have "w - of_nat k * 1 = of_nat (?n div ?d)" by simp
      moreover have "?n div ?d < 2 ^ 64" using w(2) unat_lt64 [of w] by simp
      ultimately show ?thesis by (simp only: unat_of_nat) simp
    qed
    have "u128 r < 2 ^ 64" using k(2) mod_less_divisor [OF d, of ?n] unat_lt64 [of B] by simp
    then have "unat (u128_v64 r) = 0" unfolding u128_def by simp
    then have nz: "u128_v0 r \<noteq> 0 \<longleftrightarrow> ?n mod ?d \<noteq> 0" using k(2) unfolding u128_def by (simp add: word_unat_eq_iff)
    have "quotJam64 A B = Some (w - of_nat k * 1 OR of_bool (?n mod ?d \<noteq> 0))"
      unfolding quotJam64_def w(1) bind.bind_lunit if_P [OF True] Let_def W prod.case nz ..
    moreover have "unat (w - of_nat k * 1 OR of_bool (?n mod ?d \<noteq> 0)) = ?n div ?d + of_bool (?n mod ?d \<noteq> 0 \<and> even (?n div ?d))"
      unfolding unat_or_of_bool uz ..
    moreover have "agrees 9 (real ?n / real ?d) (?n div ?d + of_bool (?n mod ?d \<noteq> 0 \<and> even (?n div ?d)))"
      by (rule agrees_mono [OF agrees_quotient_jam [OF d refl]]) simp
    ultimately show ?thesis unfolding n by metis
  qed
qed

lemma f64_div_scheme: "f64_div a b s = sf64.div_op quotJam64 a b s"
proof -
  let ?norm = "\<lambda>c. if expF64UI c = 0
      then (es64_exp (softfloat_normSubnormalF64Sig (fracF64UI c)), es64_sig (softfloat_normSubnormalF64Sig (fracF64UI c)))
      else (expF64UI c, fracF64UI c)"
  obtain eA gA where nA: "?norm a = (eA, gA)" by fastforce
  obtain eB gB where nB: "?norm b = (eB, gB)" by fastforce
  define A B :: uint64_t where "A = push_bit 10 (gA OR 0x0010000000000000)" and "B = push_bit 11 (gB OR 0x0010000000000000)"
  have e: "(2::uint64_t) ^ 52 = 0x0010000000000000" "Suc 10 = 11" "int 2047 = 0x7FF" "int 1023 - 2 = 0x3FD" by simp_all
  show ?thesis
    unfolding f64_div_def sf64.div_op_def Let_def e nA nB prod.case A_def [symmetric] B_def [symmetric]
    by (cases "B \<le> A + A") (simp_all add: quotJam64_def [unfolded Let_def])
qed

lemma f64_div_correct:
  assumes "fl_mag a < 2047 * 2 ^ 52" and "fl_mag b < 2047 * 2 ^ 52" and "fl_mag b \<noteq> 0"
  shows "\<exists>res. f64_div a b s = Some res \<and>
    op_rounds 52 2047 (fl_sign a \<noteq> fl_sign b) (fl_real 52 a / fl_real 52 b * 2 ^ 1074) s res"
proof -
  have "\<exists>res. sf64.div_op quotJam64 a b s = Some res \<and>
      op_rounds 52 2047 (signF64UI a \<noteq> signF64UI b) (fl_real 52 a / fl_real 52 b * 2 ^ 1074) s res"
    by (rule sf64.div_op_rounds [OF assms]) (use quotJam64_law in simp_all)
  then show ?thesis unfolding f64_div_scheme f64.sign_law .
qed

lemma f64_div_special:
  assumes "2047 * 2 ^ 52 \<le> fl_mag a \<or> 2047 * 2 ^ 52 \<le> fl_mag b \<or> fl_mag b = 0"
  shows "f64_div a b s = Some
    (if fl_nan 52 2047 a \<or> fl_nan 52 2047 b then softfloat_propagateNaNF64UI a b s
     else if fl_mag a = 2047 * 2 ^ 52 \<and> fl_mag b = 2047 * 2 ^ 52 \<or> fl_mag a = 0 \<and> fl_mag b = 0
     then (defaultNaNF64UI, softfloat_raiseFlags softfloat_flag_invalid s)
     else if fl_mag b = 2047 * 2 ^ 52 then (fl_pack (fl_sign a \<noteq> fl_sign b) 0, s)
     else (fl_pack (fl_sign a \<noteq> fl_sign b) (2047 * 2 ^ 52),
           if fl_mag a = 2047 * 2 ^ 52 then s else softfloat_raiseFlags softfloat_flag_infinity s))"
  using sf64.div_op_special [OF assms, of quotJam64 s] unfolding f64_div_scheme [symmetric] f64.sign_law .

text \<open>
  Property C24: division with a NaN or an infinite operand or a zero divisor, both formats: NaNs propagate, zero by zero and infinity by
  infinity are invalid, a finite nonzero number by zero raises the divide-by-zero flag.
\<close>

theorem div_special:
  assumes "255 * 2 ^ 23 \<le> fl_mag a \<or> 255 * 2 ^ 23 \<le> fl_mag b \<or> fl_mag b = 0" and "2047 * 2 ^ 52 \<le> fl_mag c \<or> 2047 * 2 ^ 52 \<le> fl_mag d \<or> fl_mag d = 0"
  shows "f32_div a b s =
    (if fl_nan 23 255 a \<or> fl_nan 23 255 b then softfloat_propagateNaNF32UI a b s
     else if fl_mag a = 255 * 2 ^ 23 \<and> fl_mag b = 255 * 2 ^ 23 \<or> fl_mag a = 0 \<and> fl_mag b = 0
     then (defaultNaNF32UI, softfloat_raiseFlags softfloat_flag_invalid s)
     else if fl_mag b = 255 * 2 ^ 23 then (fl_pack (fl_sign a \<noteq> fl_sign b) 0, s)
     else (fl_pack (fl_sign a \<noteq> fl_sign b) (255 * 2 ^ 23),
           if fl_mag a = 255 * 2 ^ 23 then s else softfloat_raiseFlags softfloat_flag_infinity s)) \<and>
    f64_div c d s = Some
    (if fl_nan 52 2047 c \<or> fl_nan 52 2047 d then softfloat_propagateNaNF64UI c d s
     else if fl_mag c = 2047 * 2 ^ 52 \<and> fl_mag d = 2047 * 2 ^ 52 \<or> fl_mag c = 0 \<and> fl_mag d = 0
     then (defaultNaNF64UI, softfloat_raiseFlags softfloat_flag_invalid s)
     else if fl_mag d = 2047 * 2 ^ 52 then (fl_pack (fl_sign c \<noteq> fl_sign d) 0, s)
     else (fl_pack (fl_sign c \<noteq> fl_sign d) (2047 * 2 ^ 52),
           if fl_mag c = 2047 * 2 ^ 52 then s else softfloat_raiseFlags softfloat_flag_infinity s))"
  by (intro conjI f32_div_special [OF assms(1)] f64_div_special [OF assms(2)])

theorem div_special_witness:
  "f32_div 0x3F800000 0x80000000 init_state = (fl_pack True (255 * 2 ^ 23), softfloat_raiseFlags softfloat_flag_infinity init_state) \<and>
   f64_div 0 0 init_state = Some (defaultNaNF64UI, softfloat_raiseFlags softfloat_flag_invalid init_state)"
  using div_special [of "0x3F800000" "0x80000000" 0 0 init_state] by (simp add: fl_mag_def fl_nan_def fl_sign_def)

text \<open>
  Property C4: division of two finite numbers, the divisor not zero, in each format, returns (the loops of double precision end) the exact real
  quotient correctly rounded, with exactly the flags it calls for.
\<close>

theorem div_correct:
  assumes "fl_mag a < 255 * 2 ^ 23" and "fl_mag b < 255 * 2 ^ 23" and "fl_mag b \<noteq> 0" and "fl_mag c < 2047 * 2 ^ 52" and "fl_mag d < 2047 * 2 ^ 52" and "fl_mag d \<noteq> 0"
  shows "op_rounds 23 255 (fl_sign a \<noteq> fl_sign b) (fl_real 23 a / fl_real 23 b * 2 ^ 149) s (f32_div a b s) \<and>
    (\<exists>res. f64_div c d s = Some res \<and>
    op_rounds 52 2047 (fl_sign c \<noteq> fl_sign d) (fl_real 52 c / fl_real 52 d * 2 ^ 1074) s res)"
  by (intro conjI f32_div_correct [OF assms(1,2,3)] f64_div_correct [OF assms(4,5,6)])

theorem div_correct_witness:
  "op_rounds 23 255 False (fl_real 23 (0x3F800000 :: uint32_t) / fl_real 23 (0x40400000 :: uint32_t) * 2 ^ 149) init_state
     (f32_div 0x3F800000 0x40400000 init_state) \<and>
   f32_div 0x3F800000 0x40400000 init_state = (0x3EAAAAAB, softfloat_raiseFlags softfloat_flag_inexact init_state) \<and>
   (\<exists>res. f64_div 0x3FF0000000000000 0x4008000000000000 init_state = Some res \<and>
     op_rounds 52 2047 False (fl_real 52 (0x3FF0000000000000 :: uint64_t) / fl_real 52 (0x4008000000000000 :: uint64_t) * 2 ^ 1074)
       init_state res)"
proof -
  note app = div_correct [of "0x3F800000" "0x40400000" "0x3FF0000000000000" "0x4008000000000000" init_state]
  have "op_rounds 23 255 False (fl_real 23 (0x3F800000 :: uint32_t) / fl_real 23 (0x40400000 :: uint32_t) * 2 ^ 149) init_state
     (f32_div 0x3F800000 0x40400000 init_state) \<and>
     (\<exists>res. f64_div 0x3FF0000000000000 0x4008000000000000 init_state = Some res \<and>
     op_rounds 52 2047 False (fl_real 52 (0x3FF0000000000000 :: uint64_t) / fl_real 52 (0x4008000000000000 :: uint64_t) * 2 ^ 1074)
       init_state res)"
    using app by (simp add: fl_mag_def fl_sign_def)
  moreover have "f32_div 0x3F800000 0x40400000 init_state = (0x3EAAAAAB, softfloat_raiseFlags softfloat_flag_inexact init_state)" by code_simp
  ultimately show ?thesis by simp
qed

end
