(* ===== verification/Float_Sqrt.thy ===== *)
theory Float_Sqrt
  imports Float_Mul "HOL-Library.Monad_Syntax"
begin

text \<open>
  Square root (\<^verbatim>\<open>source/f32_sqrt.c\<close>, \<^verbatim>\<open>source/f64_sqrt.c\<close>): an estimate from
  \<^const>\<open>softfloat_estimateSqrt32\<close>, refined for double precision by one division, and corrected in a loop when
  it is close to a rounding boundary. \<open>Float_Sqrt_Correct\<close> proves it correct.
\<close>

section \<open>The routines\<close>

definition f32_sqrt :: "float32_t \<Rightarrow> fp_state \<Rightarrow> (float32_t \<times> fp_state) option" where
  "f32_sqrt a s =
     (let uiA = a;
          signA = signF32UI uiA;
          expA = expF32UI uiA;
          sigA = fracF32UI uiA;
          invalid = Some (defaultNaNF32UI, softfloat_raiseFlags softfloat_flag_invalid s)
      in if expA = 0xFF
         then if sigA \<noteq> 0 then Some (softfloat_propagateNaNF32UI uiA 0 s)
              else if \<not> signA then Some (a, s) else invalid
         else if signA
         then (if word_of_int expA OR sigA = 0 then Some (a, s) else invalid)
         else if expA = 0 \<and> sigA = 0 then Some (a, s)
         else
           let normExpSig = softfloat_normSubnormalF32Sig sigA;
               (expA, sigA) = (if expA = 0 then (es32_exp normExpSig, es32_sig normExpSig) else (expA, sigA));
               expZ = (expA - 0x7F) div 2 + 0x7E;
               sigA = push_bit 8 (sigA OR 0x00800000);
               sigZ = softfloat_estimateSqrt32 (word_of_int expA) sigA + 2;
               roundPack = (\<lambda>sigZ. Some (softfloat_roundPackToF32 False expZ sigZ s))
           in if sigZ AND 0x7F \<le> 5
              then if sigZ < 2 then roundPack 0x7FFFFFFF
                   else
                     let sigA = drop_bit (nat (expA mod 2)) sigA;
                         term = ucast sigZ * ucast sigZ :: uint64_t;
                         rem = push_bit 32 (ucast sigA) - term
                     in do {
                          (sigZ, rem) \<leftarrow>
                            while_option
                              (\<lambda>(sigZ, rem). 0x8000000000000000 \<le> rem)
                              (\<lambda>(sigZ, rem). let sigZ = sigZ - 1 in (sigZ, rem + (push_bit 1 (ucast sigZ) OR 1)))
                              (sigZ, rem);
                          roundPack (softfloat_shortShift32Right1Jam (sigZ OR of_bool (rem \<noteq> 0)))
                        }
              else roundPack (softfloat_shortShift32Right1Jam sigZ))"

definition f64_sqrt :: "float64_t \<Rightarrow> fp_state \<Rightarrow> (float64_t \<times> fp_state) option" where
  "f64_sqrt a s =
     (let uiA = a;
          signA = signF64UI uiA;
          expA = expF64UI uiA;
          sigA = fracF64UI uiA;
          invalid = Some (defaultNaNF64UI, softfloat_raiseFlags softfloat_flag_invalid s)
      in if expA = 0x7FF
         then if sigA \<noteq> 0 then Some (softfloat_propagateNaNF64UI uiA 0 s)
              else if \<not> signA then Some (a, s) else invalid
         else if signA
         then (if word_of_int expA OR sigA = 0 then Some (a, s) else invalid)
         else if expA = 0 \<and> sigA = 0 then Some (a, s)
         else
           let normExpSig = softfloat_normSubnormalF64Sig sigA;
               (expA, sigA) = (if expA = 0 then (es64_exp normExpSig, es64_sig normExpSig) else (expA, sigA));
               expZ = (expA - 0x3FF) div 2 + 0x3FE;
               sigA = sigA OR 0x0010000000000000;
               sigZ32 = softfloat_estimateSqrt32 (word_of_int expA) (ucast (drop_bit 21 sigA));
               sigA = push_bit (9 - nat (expA mod 2)) sigA
           in do {
                q \<leftarrow> softfloat_estimateDiv128To64 sigA 0 (push_bit 32 (ucast sigZ32));
                let sigZ = q + push_bit 30 (ucast sigZ32);
                sigZ \<leftarrow>
                  (if sigZ AND 0x1FF \<le> 5
                   then
                     let term = softfloat_mul64To128 sigZ sigZ;
                         rem = softfloat_sub128 sigA 0 (u128_v64 term) (u128_v0 term)
                     in do {
                          (sigZ, rem) \<leftarrow>
                            while_option
                              (\<lambda>(sigZ, rem). 0x8000000000000000 \<le> u128_v64 rem)
                              (\<lambda>(sigZ, rem).
                                 let sigZ = sigZ - 1
                                 in (sigZ, softfloat_add128 (u128_v64 rem) (u128_v0 rem)
                                             (drop_bit 63 sigZ) (push_bit 1 sigZ)))
                              (sigZ, rem);
                          Some (sigZ OR of_bool (u128_v64 rem OR u128_v0 rem \<noteq> 0))
                        }
                   else Some sigZ);
                Some (softfloat_roundPackToF64 False expZ sigZ s)
              })"

end
