(* ===== verification/Sqrt_Estimate.thy ===== *)
theory Sqrt_Estimate
  imports Primitives_Laws Complex_Main
begin

text \<open>
  The estimate of a square root (\<^verbatim>\<open>source/s_estimateSqrt32.c\<close>): a linear approximation corrected by a table of sixteen entries, and two steps of Heron's
  method. The lemmas bound the first approximation entry by entry, the second by \<open>2 ^ 15\<close>, and show that the result is the integer part of a number
  that exceeds the exact root by at most one half.
\<close>

section \<open>Heron's method\<close>

lemma heron:
  fixes z N :: real
  assumes "0 < z" and "0 \<le> N"
  shows "N / z + z = 2 * sqrt N + (z - sqrt N)\<^sup>2 / z"
proof -
  have "(z - sqrt N)\<^sup>2 = z * z - 2 * z * sqrt N + N" using assms(2) by (simp add: power2_eq_square algebra_simps)
  then have "(z - sqrt N)\<^sup>2 / z = z - 2 * sqrt N + N / z" using assms(1) by (simp add: field_simps)
  then show ?thesis by simp
qed

lemma heron_above:
  fixes z N :: real
  assumes "0 < z" and "0 \<le> N"
  shows "2 * sqrt N \<le> N / z + z"
  unfolding heron [OF assms] using assms(1) by simp

lemma heron_below:
  fixes z N :: real
  assumes "0 < z" and "0 \<le> N" and "(z - sqrt N)\<^sup>2 \<le> e * z"
  shows "N / z + z \<le> 2 * sqrt N + e"
  unfolding heron [OF assms(1,2)] using assms(1,3) by (simp add: pos_divide_le_eq)

lemma square_bound: "\<bar>x\<bar> \<le> y \<Longrightarrow> x\<^sup>2 \<le> y\<^sup>2" for x y :: real
  by (rule power2_le_iff_abs_le [THEN iffD2]) auto

section \<open>The table\<close>

text \<open>
  On the interval of a table entry the argument is \<open>a = 2 ^ 17 * (lo + k) + t\<close> and the approximation \<open>m + k\<close> with \<open>k < 1024\<close>; \<open>sc\<close> is 1 for an even exponent
  and 2 for an odd one.
\<close>

definition entry_bound :: "int \<Rightarrow> int \<Rightarrow> int \<Rightarrow> int" where
  "entry_bound sc lo m =
     (let C = sc * m * m - 2 ^ 17 * lo
      in max (max C (C + 1023 * (sc * (2 * m + 1023) - 2 ^ 17)))
             (- min (C - sc * 2 ^ 18 - 2 ^ 17) (C - sc * 2 ^ 18 - 2 ^ 17 + 1024 * (sc * (2 * m + 1024) - 2 ^ 17))))"

lemma linear_between:
  fixes c d k K :: int
  assumes "0 \<le> k" and "k \<le> K"
  shows "c + k * d \<le> max c (c + K * d)" and "min c (c + K * d) \<le> c + k * d"
proof -
  consider "0 \<le> d" | "d \<le> 0" by linarith
  then have "c + k * d \<le> max c (c + K * d) \<and> min c (c + K * d) \<le> c + k * d"
  proof cases
    case 1
    then have "0 \<le> k * d" "k * d \<le> K * d" using assms by (simp_all add: mult_right_mono)
    then show ?thesis by simp
  next
    case 2
    then have "k * d \<le> 0" "K * d \<le> k * d" using assms by (simp_all add: mult_nonneg_nonpos mult_right_mono_neg)
    then show ?thesis by simp
  qed
  then show "c + k * d \<le> max c (c + K * d)" "min c (c + K * d) \<le> c + k * d" by simp_all
qed

lemma entry_bound:
  fixes sc m k t lo :: int
  assumes "0 \<le> sc" and "0 \<le> k" and "k < 1024" and "0 \<le> t" and "t < 2 ^ 17"
  shows "\<bar>sc * (m + k)\<^sup>2 - (2 ^ 17 * (lo + k) + t)\<bar> \<le> entry_bound sc lo m"
proof -
  define C where "C = sc * m * m - 2 ^ 17 * lo"
  have v: "sc * (m + k)\<^sup>2 - (2 ^ 17 * (lo + k) + t) = C + k * (sc * 2 * m - 2 ^ 17) + sc * (k * k) - t"
    by (simp add: C_def power2_eq_square algebra_simps)
  have "k * k \<le> k * 1023" using assms(2,3) by (intro mult_left_mono) auto
  then have up: "sc * (k * k) \<le> sc * (k * 1023)" using assms(1) by (rule mult_left_mono)
  have "0 \<le> (k - 512) * (k - 512)" by simp
  then have "k * 1024 - 2 ^ 18 \<le> k * k" by (simp add: algebra_simps)
  then have lw: "sc * (k * 1024 - 2 ^ 18) \<le> sc * (k * k)" using assms(1) by (rule mult_left_mono)
  have "C + k * (sc * (2 * m + 1023) - 2 ^ 17) \<le> max C (C + 1023 * (sc * (2 * m + 1023) - 2 ^ 17))"
    using assms(2,3) by (intro linear_between) auto
  then have u: "C + k * (sc * 2 * m - 2 ^ 17) + sc * (k * k) - t \<le> max C (C + 1023 * (sc * (2 * m + 1023) - 2 ^ 17))"
    using up assms(4) by (simp add: algebra_simps)
  have "min (C - sc * 2 ^ 18 - 2 ^ 17) (C - sc * 2 ^ 18 - 2 ^ 17 + 1024 * (sc * (2 * m + 1024) - 2 ^ 17)) \<le>
      C - sc * 2 ^ 18 - 2 ^ 17 + k * (sc * (2 * m + 1024) - 2 ^ 17)"
    using assms(2,3) by (intro linear_between) auto
  then have l: "min (C - sc * 2 ^ 18 - 2 ^ 17) (C - sc * 2 ^ 18 - 2 ^ 17 + 1024 * (sc * (2 * m + 1024) - 2 ^ 17)) \<le>
      C + k * (sc * 2 * m - 2 ^ 17) + sc * (k * k) - t"
    using lw assms(5) by (simp add: algebra_simps)
  show ?thesis unfolding v entry_bound_def C_def [symmetric] Let_def using u l by (intro abs_leI) linarith+
qed

definition even_entry :: "nat \<Rightarrow> int" where
  "even_entry i = 2 ^ 15 + 2 ^ 14 + 1024 * int i - int (unat (sqrtEvenAdjustments ! i))"

definition odd_entry :: "nat \<Rightarrow> int" where
  "odd_entry i = 2 ^ 14 + 2 ^ 14 + 1024 * int i - int (unat (sqrtOddAdjustments ! i))"

definition entry_ok :: "int \<Rightarrow> int \<Rightarrow> int \<Rightarrow> int \<Rightarrow> bool" where
  "entry_ok sc r lo m \<longleftrightarrow> 32764 \<le> m \<and> m < 2 ^ 16 \<and> (entry_bound sc lo m)\<^sup>2 \<le> sc\<^sup>2 * m * (m + r)\<^sup>2"

lemma even_entries: "i < 16 \<Longrightarrow> entry_ok 1 46340 (2 ^ 14 + 1024 * int i) (even_entry i)"
proof -
  have "\<forall>i\<in>set [0..<16]. entry_ok 1 46340 (2 ^ 14 + 1024 * int i) (even_entry i)" by code_simp
  then show "i < 16 \<Longrightarrow> entry_ok 1 46340 (2 ^ 14 + 1024 * int i) (even_entry i)" by simp
qed

lemma odd_entries: "i < 16 \<Longrightarrow> entry_ok 2 32768 (2 ^ 14 + 1024 * int i) (odd_entry i)"
proof -
  have "\<forall>i\<in>set [0..<16]. entry_ok 2 32768 (2 ^ 14 + 1024 * int i) (odd_entry i)" by code_simp
  then show "i < 16 \<Longrightarrow> entry_ok 2 32768 (2 ^ 14 + 1024 * int i) (odd_entry i)" by simp
qed

text \<open>The first step from a table entry: the error of the sum is at most one.\<close>

lemma entry_step:
  fixes sc m k t lo r :: int
  assumes ok: "entry_ok sc r lo m" and "0 < sc" and "0 \<le> k" and "k < 1024" and "0 \<le> t" and "t < 2 ^ 17"
    and a: "a = 2 ^ 17 * (lo + k) + t" and z: "z = m + k" and r: "0 \<le> r" "sc * r\<^sup>2 \<le> a"
  shows "real_of_int a / (sc * z) + z \<le> 2 * sqrt (a / sc) + 1"
proof -
  define s where "s = sqrt (real_of_int a / sc)"
  have m: "32764 \<le> m" using ok by (simp add: entry_ok_def)
  have zp: "0 < z" "m \<le> z" using m assms(3) z by simp_all
  have "0 \<le> sc * r\<^sup>2" using assms(2) by simp
  then have a0: "0 \<le> a" using r(2) by linarith
  have s2: "s\<^sup>2 = a / sc" using a0 assms(2) by (simp add: s_def)
  have "(real_of_int r)\<^sup>2 \<le> a / sc"
    using r(2) assms(2) by (simp add: pos_le_divide_eq mult.commute flip: of_int_power of_int_mult)
  then have rs: "real_of_int r \<le> s" unfolding s_def by (rule real_le_rsqrt)
  define B where "B = real_of_int (entry_bound sc lo m)"
  have "\<bar>sc * z\<^sup>2 - a\<bar> \<le> entry_bound sc lo m" unfolding a z using assms(2-6) by (intro entry_bound) simp_all
  then have "\<bar>real_of_int (sc * z\<^sup>2 - a)\<bar> \<le> B" unfolding B_def by linarith
  moreover have "real_of_int (sc * z\<^sup>2 - a) = sc * ((z - s) * (z + s))"
    using s2 assms(2) by (simp add: power2_eq_square algebra_simps)
  ultimately have "(sc * ((z - s) * (z + s)))\<^sup>2 \<le> B\<^sup>2" by (intro square_bound) simp
  also have "B\<^sup>2 \<le> (real_of_int sc)\<^sup>2 * m * (m + r)\<^sup>2"
    using ok unfolding B_def entry_ok_def by (metis of_int_le_iff of_int_mult of_int_power of_int_add)
  also have "\<dots> \<le> (real_of_int sc)\<^sup>2 * z * (z + s)\<^sup>2"
    using zp rs m r(1) assms(2) by (intro mult_mono power_mono) auto
  finally have "(real_of_int sc)\<^sup>2 * ((z - s)\<^sup>2 * (z + s)\<^sup>2) \<le> (real_of_int sc)\<^sup>2 * (z * (z + s)\<^sup>2)"
    by (simp only: power_mult_distrib mult.assoc)
  then have "(z - s)\<^sup>2 * (z + s)\<^sup>2 \<le> z * (z + s)\<^sup>2" using assms(2) by simp
  moreover have "0 < (z + s)\<^sup>2" using zp rs r(1) by simp
  ultimately have "(z - s)\<^sup>2 \<le> z" by (simp only: mult_le_cancel_right_pos)
  then have "(a / sc) / z + z \<le> 2 * s + 1" unfolding s_def using zp a0 assms(2) by (intro heron_below) simp_all
  then show ?thesis by (simp add: s_def)
qed

section \<open>The second step\<close>

lemma estimate_final:
  fixes c z :: nat
  defines "S \<equiv> sqrt (real c * 2 ^ 32)"
  assumes "0 < z" and "even z" and "(real z - S)\<^sup>2 \<le> real z"
  shows "S - 1 < real (c * 2 ^ 31 div z + z div 2)" and "real (c * 2 ^ 31 div z + z div 2) \<le> S + 1 / 2"
proof -
  define H where "H = real (c * 2 ^ 31) / real z"
  have h: "real (c * 2 ^ 31 div z) \<le> H" "H < real (c * 2 ^ 31 div z) + 1"
    using floor_divide_of_nat_eq [of "c * 2 ^ 31" z, where 'a = real] unfolding H_def by linarith+
  have z2: "real (z div 2) = real z / 2" using assms(3) by (simp add: real_of_nat_div)
  have e: "real c * 2 ^ 32 / real z + real z = 2 * (H + real z / 2)" by (simp add: H_def)
  have "2 * S \<le> 2 * (H + real z / 2)" unfolding e [symmetric] S_def using assms(2) by (intro heron_above) simp_all
  then show "S - 1 < real (c * 2 ^ 31 div z + z div 2)" using h(2) z2 by simp
  have "2 * (H + real z / 2) \<le> 2 * S + 1" unfolding e [symmetric] S_def using assms(2,4) by (intro heron_below) (simp_all add: S_def)
  then show "real (c * 2 ^ 31 div z + z div 2) \<le> S + 1 / 2" using h(1) z2 by simp
qed

lemma sqrt_near:
  fixes x y :: real
  assumes "y \<le> x" and "x \<le> y + 2 ^ 32" and "2 ^ 62 \<le> y"
  shows "sqrt y \<le> sqrt x" and "sqrt x \<le> sqrt y + 1"
proof -
  show "sqrt y \<le> sqrt x" using assms(1) by simp
  have y: "2 ^ 31 \<le> sqrt y" using assms(3) by (intro real_le_rsqrt) simp
  have "(sqrt y + 1)\<^sup>2 = y + 2 * sqrt y + 1" using assms(3) by (simp add: power2_eq_square algebra_simps)
  then have "x \<le> (sqrt y + 1)\<^sup>2" using assms(2) y by simp
  then show "sqrt x \<le> sqrt y + 1" using y by (intro real_le_lsqrt) simp_all
qed

section \<open>The routine\<close>

text \<open>The table entry and the place within its interval.\<close>

lemma entry_split:
  fixes A :: nat
  assumes "2 ^ 31 \<le> A" and "A < 2 ^ 32"
  defines "i \<equiv> A div 2 ^ 27 mod 16" and "k \<equiv> A div 2 ^ 17 mod 1024"
  shows "A div 2 ^ 17 = 2 ^ 14 + 1024 * i + k" and "i < 16" and "k < 1024"
    and "int A = 2 ^ 17 * (2 ^ 14 + 1024 * int i + int k) + int (A mod 2 ^ 17)"
proof -
  have "A div 2 ^ 27 < 32" "16 \<le> A div 2 ^ 27" using assms(1,2) by (simp_all add: div_less_iff_less_mult less_eq_div_iff_mult_less_eq)
  then have "A div 2 ^ 27 div 16 = 1" by (intro div_nat_eqI) simp_all
  then have "A div 2 ^ 27 = 16 + i" unfolding i_def using div_mult_mod_eq [of "A div 2 ^ 27" 16] by simp
  moreover have "A div 2 ^ 27 = A div 2 ^ 17 div 1024" by (simp add: div_mult2_eq [symmetric])
  ultimately have "A div 2 ^ 17 div 1024 = 16 + i" by simp
  then show d: "A div 2 ^ 17 = 2 ^ 14 + 1024 * i + k"
    unfolding k_def using div_mult_mod_eq [of "A div 2 ^ 17" 1024] by (simp del: mod_mult_div_eq div_mult_mod_eq mult_div_mod_eq)
  show "i < 16" "k < 1024" by (simp_all add: i_def k_def)
  have "A = 2 ^ 17 * (A div 2 ^ 17) + A mod 2 ^ 17" by simp
  then have "int A = 2 ^ 17 * int (A div 2 ^ 17) + int (A mod 2 ^ 17)" by (metis of_nat_add of_nat_mult of_nat_numeral of_nat_power)
  then show "int A = 2 ^ 17 * (2 ^ 14 + 1024 * int i + int k) + int (A mod 2 ^ 17)" unfolding d by simp
qed

lemma first_step:
  fixes A :: nat and sc r :: int
  assumes A: "2 ^ 31 \<le> A" "A < 2 ^ 32" and i: "i = A div 2 ^ 27 mod 16" and k: "k = A div 2 ^ 17 mod 1024"
    and ok: "entry_ok sc r (2 ^ 14 + 1024 * int i) m" and sc: "0 < sc" and r: "0 \<le> r" "sc * r\<^sup>2 \<le> 2 ^ 31"
    and z: "int z = m + int k"
  shows "2 * sqrt (A / sc) \<le> real A / (sc * z) + z" and "real A / (sc * z) + z \<le> 2 * sqrt (A / sc) + 1"
    and "32764 \<le> z" and "z < 2 ^ 17"
proof -
  note sp = entry_split [OF A, folded i k]
  show z0: "32764 \<le> z" "z < 2 ^ 17" using ok z sp(3) by (simp_all add: entry_ok_def)
  have "2 * sqrt (A / sc) \<le> (A / sc) / z + z" using z0 sc by (intro heron_above) simp_all
  then show "2 * sqrt (A / sc) \<le> real A / (sc * z) + z" by simp
  have "real_of_int (int A) / (sc * int z) + int z \<le> 2 * sqrt (int A / sc) + 1"
  proof (rule entry_step [OF ok sc])
    have "(2::int) ^ 31 \<le> int A" using A(1) by simp
    then show "sc * r\<^sup>2 \<le> int A" using r(2) by linarith
    show "int A = 2 ^ 17 * (2 ^ 14 + 1024 * int i + int k) + int (A mod 2 ^ 17)" by (rule sp(4))
  qed (use sp(2,3) z r(1) in simp_all)
  then show "real A / (sc * z) + z \<le> 2 * sqrt (A / sc) + 1" by simp
qed

lemma div_real_bounds:
  fixes n d :: nat
  shows "real (n div d) \<le> real n / real d" and "real n / real d < real (n div d) + 1"
  using floor_divide_of_nat_eq [of n d, where 'a = real] by linarith+

lemma sqrt_scale: "0 \<le> x \<Longrightarrow> sqrt (x * 2 ^ 32) = sqrt x * 2 ^ 16" for x :: real
proof -
  have "sqrt ((2::real) ^ 32) = 2 ^ 16" by (rule real_sqrt_unique) simp_all
  then show "0 \<le> x \<Longrightarrow> sqrt (x * 2 ^ 32) = sqrt x * 2 ^ 16" by (simp only: real_sqrt_mult)
qed

text \<open>The number to which the second step is applied, for an odd exponent and for an even one.\<close>

lemma odd_second:
  fixes A :: nat
  assumes A: "2 ^ 31 \<le> A" "A < 2 ^ 32" and z: "int z = odd_entry (A div 2 ^ 27 mod 16) + int (A div 2 ^ 17 mod 1024)"
    and w: "w = A div z * 2 ^ 14 + z * 2 ^ 15"
  shows "(real w - sqrt (real (A div 2) * 2 ^ 32))\<^sup>2 \<le> real w" and "even w" and "0 < w" and "w < 2 ^ 32"
    and "A div z * 2 ^ 14 < 2 ^ 32" and "z < 2 ^ 17" and "0 < z"
proof -
  have "A div 2 ^ 27 mod 16 < 16" by simp
  note f = first_step [OF A refl refl odd_entries [OF this] _ _ _ z]
  have f1: "2 * sqrt (A / 2) \<le> real A / (2 * z) + z" and f2: "real A / (2 * z) + z \<le> 2 * sqrt (A / 2) + 1" and zb: "32764 \<le> z" "z < 2 ^ 17"
    using f by simp_all
  define S where "S = sqrt (real A / 2 * 2 ^ 32)"
  have S: "S = sqrt (A / 2) * 2 ^ 16" unfolding S_def by (rule sqrt_scale) simp
  define H where "H = real A / real z"
  have h: "real (A div z) \<le> H" "H < real (A div z) + 1" unfolding H_def by (rule div_real_bounds)+
  have rw: "real w = real (A div z) * 2 ^ 14 + real z * 2 ^ 15" by (simp add: w)
  have f': "2 * sqrt (A / 2) \<le> H / 2 + z" "H / 2 + z \<le> 2 * sqrt (A / 2) + 1" using f1 f2 by (simp_all add: H_def mult.commute)
  have lo: "S - 2 ^ 15 \<le> real w" and hi: "real w \<le> S + 2 ^ 15" unfolding rw S using f' h by simp_all
  have "2 ^ 62 \<le> real (A div 2) * 2 ^ 32" using A(1) by (simp add: div_le_mono [of "2 ^ 31" A 2, simplified])
  moreover have "real (A div 2) * 2 ^ 32 \<le> real A / 2 * 2 ^ 32" "real A / 2 * 2 ^ 32 \<le> real (A div 2) * 2 ^ 32 + 2 ^ 32"
    using div_real_bounds [of A 2] by simp_all
  ultimately have n: "sqrt (real (A div 2) * 2 ^ 32) \<le> S" "S \<le> sqrt (real (A div 2) * 2 ^ 32) + 1" "2 ^ 31 \<le> sqrt (real (A div 2) * 2 ^ 32)"
    unfolding S_def by (auto intro!: sqrt_near real_le_rsqrt)
  have "\<bar>real w - sqrt (real (A div 2) * 2 ^ 32)\<bar> \<le> 2 ^ 15 + 1" using lo hi n by (intro abs_leI) linarith+
  then have "(real w - sqrt (real (A div 2) * 2 ^ 32))\<^sup>2 \<le> (2 ^ 15 + 1)\<^sup>2" by (rule square_bound)
  also have "(2 ^ 15 + 1)\<^sup>2 \<le> real w" using lo n by simp
  finally show "(real w - sqrt (real (A div 2) * 2 ^ 32))\<^sup>2 \<le> real w" .
  show "even w" "0 < w" using w zb by simp_all
  have "S \<le> 3 * 2 ^ 30" unfolding S_def using A(2) by (intro real_le_lsqrt) simp_all
  then have "real w < 2 ^ 32" using hi by simp
  then show w32: "w < 2 ^ 32" by simp
  then show "A div z * 2 ^ 14 < 2 ^ 32" using w by simp
  show "z < 2 ^ 17" "0 < z" using zb by simp_all
qed

lemma even_second:
  fixes A :: nat
  assumes A: "2 ^ 31 \<le> A" "A < 2 ^ 32" and z: "int z = even_entry (A div 2 ^ 27 mod 16) + int (A div 2 ^ 17 mod 1024)"
    and y: "y = A div z + z" and w: "w = (if 2 ^ 17 \<le> y then 2 ^ 32 - 2 ^ 15 else y * 2 ^ 15)"
  shows "(real (if w \<le> A then 2 ^ 32 else w) - sqrt (real A * 2 ^ 32))\<^sup>2 \<le> real (if w \<le> A then 2 ^ 32 else w)"
    and "even w" and "z < 2 ^ 17" and "0 < z" and "y < 2 ^ 18"
proof -
  have "A div 2 ^ 27 mod 16 < 16" by simp
  note f = first_step [OF A refl refl even_entries [OF this] _ _ _ z]
  have f': "2 * sqrt A \<le> real A / z + z" "real A / z + z \<le> 2 * sqrt A + 1" and zb: "32764 \<le> z" "z < 2 ^ 17" using f by simp_all
  show "z < 2 ^ 17" "0 < z" using zb by simp_all
  show "even w" by (simp add: w)
  define S where "S = sqrt (real A * 2 ^ 32)"
  have S: "S = sqrt A * 2 ^ 16" unfolding S_def by (rule sqrt_scale) simp
  have S2: "S\<^sup>2 = real A * 2 ^ 32" by (simp add: S_def)
  have Sb: "3 * 2 ^ 30 \<le> S * 1.07" "S \<le> 2 ^ 32" "2 ^ 31 \<le> S"
  proof -
    have "3 * 2 ^ 30 / 1.07 \<le> S" unfolding S_def using A(1) by (intro real_le_rsqrt) (simp add: power2_eq_square)
    then show "3 * 2 ^ 30 \<le> S * 1.07" by simp
    show "S \<le> 2 ^ 32" unfolding S_def using A(2) by (intro real_le_lsqrt) simp_all
    show "2 ^ 31 \<le> S" unfolding S_def using A(1) by (intro real_le_rsqrt) simp_all
  qed
  have "real y \<le> 2 * sqrt A + 1" "2 * sqrt A - 1 \<le> real y" unfolding y using f' div_real_bounds [of A z] by simp_all
  then have yb: "real y * 2 ^ 15 \<le> S + 2 ^ 15" "S - 2 ^ 15 \<le> real y * 2 ^ 15" unfolding S by simp_all
  have "real y * 2 ^ 15 < 2 ^ 18 * 2 ^ 15" using yb(1) Sb(2) by simp
  then show "y < 2 ^ 18" by simp
  have wb: "real w \<le> S + 2 ^ 15" "S - 2 ^ 15 \<le> real w"
  proof -
    have "real w \<le> S + 2 ^ 15 \<and> S - 2 ^ 15 \<le> real w"
    proof (cases "2 ^ 17 \<le> y")
      case True
      then have "(2::real) ^ 17 \<le> real y" by simp
      then show ?thesis using True yb Sb(2) by (simp add: w)
    next
      case False
      then show ?thesis using yb by (simp add: w)
    qed
    then show "real w \<le> S + 2 ^ 15" "S - 2 ^ 15 \<le> real w" by simp_all
  qed
  show "(real (if w \<le> A then 2 ^ 32 else w) - sqrt (real A * 2 ^ 32))\<^sup>2 \<le> real (if w \<le> A then 2 ^ 32 else w)"
  proof (cases "w \<le> A")
    case True
    define t where "t = 2 ^ 32 - S"
    have "real w \<le> real A" using True by simp
    then have "(S - 2 ^ 15) * 2 ^ 32 \<le> S * S" using wb(2) S2 by (simp add: power2_eq_square)
    then have "S * t \<le> 2 ^ 47" by (simp add: t_def algebra_simps)
    moreover have "2 ^ 31 * t \<le> S * t" using Sb(2,3) by (intro mult_right_mono) (simp_all add: t_def)
    ultimately have "t \<le> 2 ^ 16" by simp
    then have "\<bar>2 ^ 32 - S\<bar> \<le> 2 ^ 16" using Sb(2) by (simp add: t_def)
    then have "(2 ^ 32 - S)\<^sup>2 \<le> (2 ^ 16)\<^sup>2" by (rule square_bound)
    then show ?thesis using True by (simp add: S_def)
  next
    case False
    have "\<bar>real w - S\<bar> \<le> 2 ^ 15" using wb by (intro abs_leI) linarith+
    then have "(real w - S)\<^sup>2 \<le> (2 ^ 15)\<^sup>2" by (rule square_bound)
    also have "\<dots> \<le> real w" using wb(2) Sb(3) by simp
    finally show ?thesis using False by (simp add: S_def)
  qed
qed

text \<open>The same numbers as the code has them, in 32-bit words.\<close>

lemma table_word:
  fixes a :: uint32_t
  assumes "2 ^ 31 \<le> unat a"
  defines "i \<equiv> unat (drop_bit 27 a AND 15)" and "k \<equiv> unat a div 2 ^ 17 mod 1024"
  shows "i = unat a div 2 ^ 27 mod 16"
    and "int (unat (0x8000 + drop_bit 17 a - ucast (sqrtEvenAdjustments ! i) :: uint32_t)) = even_entry i + int k"
    and "int (unat (0x4000 + drop_bit 17 a - ucast (sqrtOddAdjustments ! i) :: uint32_t)) = odd_entry i + int k"
proof -
  show i: "i = unat a div 2 ^ 27 mod 16"
    unfolding i_def using and_mask_take_bit [of "drop_bit 27 a" 4] by (simp add: unat_take_bit_mod unat_drop_bit_div)
  have A: "unat a < 2 ^ 32" using unat_lt32 [of a] by simp
  note sp = entry_split [OF assms(1) A, folded i k_def]
  have d: "unat (drop_bit 17 a) = 2 ^ 14 + 1024 * i + k" unfolding unat_drop_bit_div sp(1) ..
  have sub: "int (unat (c + drop_bit 17 a - ucast t :: uint32_t)) = int (unat c) + (2 ^ 14 + 1024 * int i + int k) - int (unat t)"
    if c: "unat c \<le> 2 ^ 15" and t: "unat t \<le> unat c + 2 ^ 14" for c :: uint32_t and t :: uint16_t
  proof -
    have u: "unat (ucast t :: uint32_t) = unat t" by (rule unat_ucast_up) simp
    have s: "unat (c + drop_bit 17 a) = unat c + (2 ^ 14 + 1024 * i + k)"
      unfolding d [symmetric] by (rule unat_add_small) (use c d sp(2,3) in simp)
    have "ucast t \<le> c + drop_bit 17 a" unfolding word_le_nat_alt u s using t by simp
    then have "unat (c + drop_bit 17 a - ucast t) = unat c + (2 ^ 14 + 1024 * i + k) - unat t" by (simp add: unat_sub_le u s)
    then show ?thesis using t by (simp add: of_nat_diff)
  qed
  have "entry_ok 1 46340 (2 ^ 14 + 1024 * int i) (even_entry i)" "entry_ok 2 32768 (2 ^ 14 + 1024 * int i) (odd_entry i)"
    using sp(2) by (rule even_entries odd_entries)+
  then have "32764 \<le> even_entry i" "32764 \<le> odd_entry i" by (simp_all add: entry_ok_def)
  moreover have "unat (sqrtEvenAdjustments ! i) \<le> 2 ^ 12" "unat (sqrtOddAdjustments ! i) \<le> 2 ^ 12"
  proof -
    have "\<forall>i\<in>set [0..<16]. unat (sqrtEvenAdjustments ! i) \<le> 2 ^ 12" "\<forall>i\<in>set [0..<16]. unat (sqrtOddAdjustments ! i) \<le> 2 ^ 12" by code_simp+
    then show "unat (sqrtEvenAdjustments ! i) \<le> 2 ^ 12" "unat (sqrtOddAdjustments ! i) \<le> 2 ^ 12" using sp(2) by simp_all
  qed
  ultimately show "int (unat (0x8000 + drop_bit 17 a - ucast (sqrtEvenAdjustments ! i) :: uint32_t)) = even_entry i + int k"
    "int (unat (0x4000 + drop_bit 17 a - ucast (sqrtOddAdjustments ! i) :: uint32_t)) = odd_entry i + int k"
    using sub [of "0x8000" "sqrtEvenAdjustments ! i"] sub [of "0x4000" "sqrtOddAdjustments ! i"]
    by (simp_all add: even_entry_def odd_entry_def)
qed

lemma final_word:
  fixes c z :: uint32_t
  assumes "0 < unat z" and "even (unat z)" and "(real (unat z) - sqrt (real (unat c) * 2 ^ 32))\<^sup>2 \<le> real (unat z)"
  shows "unat (ucast (push_bit 31 (ucast c :: uint64_t) div ucast z) + drop_bit 1 z) = unat c * 2 ^ 31 div unat z + unat z div 2"
proof -
  let ?q = "unat c * 2 ^ 31 div unat z"
  have "real (?q + unat z div 2) \<le> sqrt (real (unat c) * 2 ^ 32) + 1 / 2" using assms by (rule estimate_final)
  also have "sqrt (real (unat c) * 2 ^ 32) < 2 ^ 32 - 1 / 2"
  proof (rule real_less_lsqrt)
    have "unat c \<le> 2 ^ 32 - 1" using unat_lt32 [of c] by simp
    then have "real (unat c) \<le> real (2 ^ 32 - 1)" by (simp only: of_nat_le_iff)
    then show "real (unat c) * 2 ^ 32 < (2 ^ 32 - 1 / 2)\<^sup>2" by (simp add: power2_eq_square)
  qed simp
  finally have "real (?q + unat z div 2) < 2 ^ 32" by simp
  then have b: "?q + unat z div 2 < 2 ^ 32" by (simp only: of_nat_less_numeral_power_cancel_iff)
  have "unat (push_bit 31 (ucast c :: uint64_t)) = unat c * 2 ^ 31"
    by (subst unat_push_bit_small) (use unat_lt32 [of c] in \<open>simp_all add: unat_ucast_up\<close>)
  then have "unat (push_bit 31 (ucast c :: uint64_t) div ucast z) = ?q" by (simp add: unat_div unat_ucast_up)
  then have q: "unat (ucast (push_bit 31 (ucast c :: uint64_t) div ucast z) :: uint32_t) = ?q" unfolding unat_ucast_mod using b by simp
  show ?thesis by (subst unat_add_small) (use b in \<open>simp_all add: q unat_drop_bit_div\<close>)
qed

lemma signed_half:
  fixes a :: uint32_t
  assumes "2 ^ 31 \<le> unat a"
  shows "unat (signed_drop_bit 1 a) = unat a div 2 + 2 ^ 31"
proof -
  have "unat (drop_bit 31 a) = 1" unfolding unat_drop_bit_div using assms unat_lt32 [of a] by (intro div_nat_eqI) simp_all
  then have "bit a 31" by (simp add: bit_iff_odd_drop_bit flip: even_unat_iff)
  moreover define h :: uint32_t where "h = push_bit 31 1"
  have "bit h n \<longleftrightarrow> n = 31" for n unfolding h_def by (simp only: bit_push_bit_iff bit_1_iff) auto
  ultimately have "signed_drop_bit 1 a = h OR drop_bit 1 a"
    by (intro bit_word_eqI) (auto simp: bit_simps bit_signed_drop_bit_iff)
  moreover have "unat h = 2 ^ 31" by (simp add: h_def)
  ultimately show ?thesis using unat_or_disjoint [of 31 h "drop_bit 1 a"] unat_lt32 [of a]
    by (simp add: unat_drop_bit_div div_less_iff_less_mult)
qed

text \<open>
  The estimate is the integer part of a number between the exact root and one half above it: \<open>c\<close> is the argument, halved for an odd
  exponent.
\<close>

lemma estimateSqrt32_value:
  fixes a :: uint32_t
  assumes a: "2 ^ 31 \<le> unat a" and c: "c = (if expA AND 1 \<noteq> 0 then unat a div 2 else unat a)"
  shows "\<exists>z. 0 < z \<and> even z \<and> (real z - sqrt (real c * 2 ^ 32))\<^sup>2 \<le> real z \<and> unat (softfloat_estimateSqrt32 expA a) = c * 2 ^ 31 div z + z div 2"
proof (cases "expA AND 1 \<noteq> 0")
  case True
  let ?A = "unat a" and ?i = "unat (drop_bit 27 a AND 15)"
  have A: "?A < 2 ^ 32" using unat_lt32 [of a] by simp
  define z where "z = 0x4000 + drop_bit 17 a - ucast (sqrtOddAdjustments ! ?i)"
  define w where "w = push_bit 14 (a div z) + push_bit 15 z"
  have z: "int (unat z) = odd_entry (?A div 2 ^ 27 mod 16) + int (?A div 2 ^ 17 mod 1024)"
    using table_word(1,3) [OF a] by (simp add: z_def)
  note o = odd_second [OF a A z refl]
  have "unat (push_bit 14 (a div z)) = ?A div unat z * 2 ^ 14" using o(5) by (subst unat_push_bit_small) (simp_all add: unat_div)
  moreover have "unat (push_bit 15 z) = unat z * 2 ^ 15" using o(6) by (intro unat_push_bit_small) simp
  ultimately have w: "unat w = ?A div unat z * 2 ^ 14 + unat z * 2 ^ 15" unfolding w_def using o(4) by (subst unat_add_small) simp_all
  have d: "unat (drop_bit 1 a) = ?A div 2" by (simp add: unat_drop_bit_div)
  have "softfloat_estimateSqrt32 expA a = ucast (push_bit 31 (ucast (drop_bit 1 a) :: uint64_t) div ucast w) + drop_bit 1 w"
    using True by (simp add: softfloat_estimateSqrt32_def Let_def z_def w_def)
  then have "unat (softfloat_estimateSqrt32 expA a) = ?A div 2 * 2 ^ 31 div unat w + unat w div 2"
    using final_word [of w "drop_bit 1 a"] o(1-3) unfolding w d by simp
  then show ?thesis using o(1-3) True unfolding w c by (intro exI [of _ "unat w"]) (simp add: w)
next
  case False
  let ?A = "unat a" and ?i = "unat (drop_bit 27 a AND 15)"
  have A: "?A < 2 ^ 32" using unat_lt32 [of a] by simp
  define z where "z = 0x8000 + drop_bit 17 a - ucast (sqrtEvenAdjustments ! ?i)"
  define y where "y = a div z + z"
  define w where "w = (if 0x20000 \<le> y then 0xFFFF8000 else push_bit 15 y)"
  have z: "int (unat z) = even_entry (?A div 2 ^ 27 mod 16) + int (?A div 2 ^ 17 mod 1024)"
    using table_word(1,2) [OF a] by (simp add: z_def)
  note e = even_second [OF a A z refl refl]
  have y: "unat y = ?A div unat z + unat z" unfolding y_def by (subst unat_add_small) (use e(5) in \<open>simp_all add: unat_div\<close>)
  have w: "unat w = (if 2 ^ 17 \<le> unat y then 2 ^ 32 - 2 ^ 15 else unat y * 2 ^ 15)"
    using unat_push_bit_small [of y 15] by (auto simp: w_def word_le_nat_alt)
  have s: "softfloat_estimateSqrt32 expA a =
      (if w \<le> a then signed_drop_bit 1 a else ucast (push_bit 31 (ucast a :: uint64_t) div ucast w) + drop_bit 1 w)"
    using False by (simp add: softfloat_estimateSqrt32_def Let_def z_def y_def w_def)
  note e' = e [folded y, folded w]
  show ?thesis
  proof (cases "w \<le> a")
    case True
    then have "unat (softfloat_estimateSqrt32 expA a) = ?A div 2 + 2 ^ 31" using signed_half [OF a] s by simp
    moreover have "(real (2 ^ 32 :: nat) - sqrt (real ?A * 2 ^ 32))\<^sup>2 \<le> real (2 ^ 32 :: nat)" using e'(1) True by (simp add: word_le_nat_alt)
    moreover have "?A * 2 ^ 31 div 2 ^ 32 = ?A div 2" using div_mult_mult2 [of "2 ^ 31" ?A 2] by simp
    ultimately show ?thesis using False unfolding c by (intro exI [of _ "2 ^ 32"]) simp
  next
    case nle: False
    then have "\<not> unat w \<le> ?A" by (simp add: word_le_nat_alt)
    then have "(real (unat w) - sqrt (real ?A * 2 ^ 32))\<^sup>2 \<le> real (unat w)" "0 < unat w" using e'(1) by simp_all
    then show ?thesis using False nle s final_word [of w a] e'(2) unfolding c by (intro exI [of _ "unat w"]) simp
  qed
qed

lemma estimateSqrt32_bounds:
  fixes a :: uint32_t
  assumes a: "2 ^ 31 \<le> unat a" and c: "c = (if expA AND 1 \<noteq> 0 then unat a div 2 else unat a)"
  shows "sqrt (real c * 2 ^ 32) - 1 < real (unat (softfloat_estimateSqrt32 expA a))"
    and "real (unat (softfloat_estimateSqrt32 expA a)) \<le> sqrt (real c * 2 ^ 32) + 1 / 2"
    and "2 ^ 31 \<le> unat (softfloat_estimateSqrt32 expA a)"
proof -
  obtain z where z: "0 < z" "even z" "(real z - sqrt (real c * 2 ^ 32))\<^sup>2 \<le> real z"
    and v: "unat (softfloat_estimateSqrt32 expA a) = c * 2 ^ 31 div z + z div 2"
    using estimateSqrt32_value [OF assms] by blast
  show lo: "sqrt (real c * 2 ^ 32) - 1 < real (unat (softfloat_estimateSqrt32 expA a))"
    and "real (unat (softfloat_estimateSqrt32 expA a)) \<le> sqrt (real c * 2 ^ 32) + 1 / 2"
    unfolding v by (rule estimate_final [OF z])+
  have "2 ^ 30 \<le> c" using a unfolding c by auto
  then have "(2::real) ^ 30 \<le> real c" by simp
  then have "2 ^ 31 \<le> sqrt (real c * 2 ^ 32)" by (intro real_le_rsqrt) simp
  then have "real (2 ^ 31 - 1) < real (unat (softfloat_estimateSqrt32 expA a))" using lo by simp
  then have "2 ^ 31 - 1 < unat (softfloat_estimateSqrt32 expA a)" by (simp only: of_nat_less_iff)
  then show "2 ^ 31 \<le> unat (softfloat_estimateSqrt32 expA a)" by simp
qed

end
