(* ===== verification/Float_Sqrt_Correct.thy ===== *)
theory Float_Sqrt_Correct
  imports Float_Sqrt Float_Div Sqrt_Estimate
begin

text \<open>
  Correctness of the square roots of \<open>Float_Sqrt\<close>: with the bounds of \<open>Sqrt_Estimate\<close> the correction loops end, and the significand handed to the rounding
  routine compares with every rounding boundary as the exact root does.
\<close>

section \<open>Roots with a sticky bit\<close>

lemma agrees_root_jam:
  fixes N t :: nat
  assumes "t * t \<le> N" and "N < (t + 1) * (t + 1)" and m: "m = t + of_bool (t * t \<noteq> N \<and> even t)"
  shows "agrees 1 (sqrt (real N)) m"
proof (cases "t * t = N")
  case True
  then have "sqrt (real N) = real t" by (simp flip: True)
  then show ?thesis using True m by simp
next
  case False
  then have "t * t < N" using assms(1) by simp
  then have "real t * real t < real N" by (simp flip: of_nat_mult)
  then have lo: "real t < sqrt (real N)" by (intro real_less_rsqrt) (simp add: power2_eq_square)
  have "real N < real ((t + 1) * (t + 1))" using assms(2) by (simp only: of_nat_less_iff)
  then have hi: "sqrt (real N) < real (t + 1)" by (intro real_less_lsqrt) (simp_all only: power2_eq_square of_nat_mult of_nat_0_le_iff)
  show ?thesis
  proof (cases "even t")
    case True
    then obtain c where c: "t = c * 2" by (metis dvd_div_mult_self)
    show ?thesis using lo hi m c True False by (intro agrees_between [of c 1]) simp_all
  next
    case odd: False
    then obtain c where c: "t = Suc (c * 2)" by (metis oddE mult.commute Suc_eq_plus1)
    show ?thesis using lo hi m c odd by (intro agrees_between [of c 1]) simp_all
  qed
qed

lemma agrees_root_far:
  assumes "real m - real e \<le> X" and "X < real m + 1" and far: "e < m mod 2 ^ k"
  shows "agrees k X m"
proof -
  define c r where "c = m div 2 ^ k" and "r = m mod 2 ^ k"
  have mc: "m = c * 2 ^ k + r" unfolding c_def r_def by (rule div_mult_mod_eq [symmetric])
  have r: "r < 2 ^ k" "e < r" using far by (simp_all add: r_def)
  then have "c * 2 ^ k + e < m" "m + 1 \<le> Suc c * 2 ^ k" using mc by simp_all
  then have "real (c * 2 ^ k + e) < real m" "real (m + 1) \<le> real (Suc c * 2 ^ k)" by (simp_all only: of_nat_less_iff of_nat_le_iff)
  then have "real (c * 2 ^ k) < X" "X < real (Suc c * 2 ^ k)" using assms(1,2) by simp_all
  then show ?thesis by (rule agrees_between) (use mc r in simp_all)
qed

section \<open>The scheme of both routines\<close>

context softfloat_format
begin

definition sqrt_op :: "(int \<Rightarrow> 'a word \<Rightarrow> 'a word option) \<Rightarrow> 'a word \<Rightarrow> fp_state \<Rightarrow> ('a word \<times> fp_state) option" where
  "sqrt_op rt a s =
     (let signA = signUI a; expA = expUI a; sigA = fracUI a;
          invalid = Some (defaultNaN, softfloat_raiseFlags softfloat_flag_invalid s)
      in if expA = int E
         then if sigA \<noteq> 0 then Some (propagate a 0 s)
              else if \<not> signA then Some (a, s) else invalid
         else if signA
         then (if word_of_int expA OR sigA = 0 then Some (a, s) else invalid)
         else if expA = 0 \<and> sigA = 0 then Some (a, s)
         else
           let (expA, sigA) = (if expA = 0 then (normExp sigA, normSig sigA) else (expA, sigA))
           in do {
                sigZ \<leftarrow> rt expA (sigA OR 2 ^ f);
                Some (roundPack False ((expA - int bias) div 2 + (int bias - 1)) sigZ s)
              })"

lemma root_scale:
  fixes e :: int and m :: nat
  assumes "odd bias"
  defines "h \<equiv> f + 2 * x + (if odd e then 0 else 1)"
  shows "sqrt (real m * 2 powi (e - 1) * 2 ^ (bias + f - 1)) =
    sqrt (real (m * 2 ^ h)) * 2 powi ((e - int bias) div 2 + (int bias - 1) - int x)"
proof -
  define k where "k = (e - int bias) div 2 + (int bias - 1) - int x"
  have b: "int (bias + f - 1) = int bias + int f - 1" using f_pos by (simp add: of_nat_diff)
  have hk: "int h + (k + k) = e - 1 + int (bias + f - 1)"
  proof (cases "odd e")
    case True
    then have "(e - int bias) div 2 * 2 = e - int bias" using assms(1) by simp
    then show ?thesis using True unfolding b by (simp add: h_def k_def)
  next
    case False
    then have "odd (e - int bias)" using assms(1) by simp
    then have "(e - int bias) div 2 * 2 = e - int bias - 1" by presburger
    then show ?thesis using False unfolding b by (simp add: h_def k_def)
  qed
  have "real m * 2 powi (e - 1) * 2 ^ (bias + f - 1) = real m * (2 powi (e - 1) * 2 powi int (bias + f - 1))" by (simp only: power_int_of_nat mult.assoc)
  also have "\<dots> = real m * (2 powi int h * (2 powi k * 2 powi k))" by (simp only: powi_mult hk)
  also have "\<dots> = real (m * 2 ^ h) * (2 powi k * 2 powi k)" by (simp add: mult.assoc)
  finally show ?thesis unfolding k_def [symmetric] by (simp only: real_sqrt_mult real_sqrt_abs2) simp
qed

theorem sqrt_op_rounds:
  assumes ob: "odd bias" and fin: "fl_mag a < E * 2 ^ f" and sg: "fl_sign a \<longrightarrow> fl_mag a = 0"
    and q: "\<And>e g. 2 ^ f \<le> unat g \<Longrightarrow> unat g < 2 ^ Suc f \<Longrightarrow>
      \<exists>z. rt e g = Some z \<and> agrees (x - 1) (sqrt (real (unat g * 2 ^ (f + 2 * x + (if odd e then 0 else 1))))) (unat z)"
    and r: "r = sqrt (fl_real f a * 2 ^ (bias + f - 1))"
  shows "\<exists>res. sqrt_op rt a s = Some res \<and> op_rounds f E (signUI a) r s res"
proof (cases "fl_mag a = 0")
  case True
  then have "sqrt_op rt a s = Some (a, s)"
    using E_ge2 by (auto simp: sqrt_op_def zero_iff)
  moreover have "op_rounds f E (signUI a) r s (a, s)"
    using True E_ge2 by (intro op_rounds_exact) (simp_all add: r fl_real_def sign_law)
  ultimately show ?thesis by blast
next
  case False
  obtain e g where n: "norm_operand a = (e, g)" by fastforce
  note A = norm_operand [OF False n]
  define m where "m = unat (g OR 2 ^ f)"
  define X where "X = sqrt (real (m * 2 ^ (f + 2 * x + (if odd e then 0 else 1))))"
  obtain z where z: "rt e (g OR 2 ^ f) = Some z" "agrees (x - 1) X (unat z)"
    using q [OF A(1,2), of e] unfolding X_def m_def by blast
  let ?ex = "(e - int bias) div 2 + (int bias - 1)"
  have ns: "\<not> signUI a" using sg False by (simp add: sign_law)
  have "fl_real f a = real m * 2 powi (e - 1)" using A(3) ns by (simp add: fl_real_def sign_law m_def)
  then have rX: "r = X * 2 powi (?ex - int x)" unfolding r X_def by (simp only: root_scale [OF ob])
  have m: "2 ^ f \<le> m" "m < 2 ^ Suc f" using A(1,2) by (simp_all add: m_def)
  have lo: "real (2 ^ (f + x)) \<le> X"
  proof -
    have "(2::nat) ^ (f + x) * 2 ^ (f + x) = 2 ^ f * 2 ^ (f + 2 * x)" by (simp add: power_add [symmetric])
    also have "\<dots> \<le> m * 2 ^ (f + 2 * x + (if odd e then 0 else 1))" using m(1) by (intro mult_le_mono power_increasing) simp_all
    finally have "real (2 ^ (f + x) * 2 ^ (f + x)) \<le> real (m * 2 ^ (f + 2 * x + (if odd e then 0 else 1)))" by (simp only: of_nat_le_iff)
    then show ?thesis unfolding X_def by (intro real_le_rsqrt) (simp only: power2_eq_square of_nat_mult)
  qed
  have hi: "X < real (2 ^ (f + x + 1))"
  proof -
    have "m * 2 ^ (f + 2 * x + (if odd e then 0 else 1)) < 2 ^ Suc f * 2 ^ (f + 2 * x + 1)"
      using m(2) by (intro mult_less_le_imp_less power_increasing) simp_all
    also have "\<dots> = 2 ^ (f + x + 1) * 2 ^ (f + x + 1)" by (simp only: power_add [symmetric]) (rule arg_cong [of _ _ "(^) 2"], simp)
    finally have "real (m * 2 ^ (f + 2 * x + (if odd e then 0 else 1))) < real (2 ^ (f + x + 1) * 2 ^ (f + x + 1))" by (simp only: of_nat_less_iff)
    then show ?thesis unfolding X_def by (intro real_less_lsqrt) (simp_all only: power2_eq_square of_nat_mult of_nat_0_le_iff)
  qed
  have zl: "2 ^ (f + x) \<le> unat z" using lo by (subst (asm) agrees_le [OF z(2)]) (simp_all add: le_imp_power_dvd)
  have zh: "unat z < 2 ^ (f + x + 1)" using hi by (subst (asm) agrees_less [OF z(2)]) (simp_all add: le_imp_power_dvd)
  have Xp: "0 < X" using lo by (rule less_le_trans [rotated]) simp
  then have rp: "0 < r" unfolding rX by simp
  have eb: "-32768 \<le> ?ex" "?ex < 32768" using A(4,5) E_bias E_le f_le by auto
  have "\<bar>r\<bar> = X * 2 powi (?ex - int x)" "r \<noteq> 0" "False = (r < 0)" using rp unfolding rX [symmetric] by simp_all
  then have "op_rounds f E (signUI a) r s (roundPack False ?ex z s)" by (rule roundPack_rounds [OF z(2) zl zh eb])
  moreover have "sqrt_op rt a s = Some (roundPack False ?ex z s)"
  proof -
    have nz: "(expUI a = 0 \<and> fracUI a = 0) = False" "(expUI a = int E) = False" "signUI a = False"
      using False fin ns by (auto simp: zero_iff finite_iff)
    show ?thesis unfolding sqrt_op_def Let_def nz if_False n [unfolded norm_operand_def] prod.case z(1) bind.bind_lunit ..
  qed
  ultimately show ?thesis by blast
qed

theorem sqrt_op_special:
  assumes "E * 2 ^ f \<le> fl_mag a \<or> fl_sign a \<and> fl_mag a \<noteq> 0"
  shows "sqrt_op rt a s = Some
    (if fl_nan f E a then propagate a 0 s
     else if fl_sign a then (defaultNaN, softfloat_raiseFlags softfloat_flag_invalid s)
     else (a, s))"
proof -
  have E0: "expUI c = int E \<Longrightarrow> fl_mag c \<noteq> 0" for c using E_ge2 by (simp add: zero_iff)
  have c: "expUI a = int E \<or> expUI a \<noteq> int E \<and> signUI a \<and> fl_mag a \<noteq> 0"
    using assms exp_range(2) [of a] by (auto simp: not_less [symmetric] finite_iff sign_law)
  show ?thesis
    using c E0 [of a] magBits_zero [of a] zero_iff [of a] E_ge2
    by (cases "expUI a = int E") (auto simp: sqrt_op_def Let_def special_exp sign_law)
qed

end

section \<open>Single precision\<close>

text \<open>The part of \<^const>\<open>f32_sqrt\<close> between the unpacking of the operand and the rounding of the result.\<close>

definition root32 :: "int \<Rightarrow> uint32_t \<Rightarrow> uint32_t option" where
  "root32 expA sigA =
     (let sigA = push_bit 8 sigA;
          sigZ = softfloat_estimateSqrt32 (word_of_int expA) sigA + 2
      in if sigZ AND 0x7F \<le> 5
         then if sigZ < 2 then Some 0x7FFFFFFF
              else
                let sigA = drop_bit (nat (expA mod 2)) sigA;
                    term = ucast sigZ * ucast sigZ :: uint64_t;
                    rem = push_bit 32 (ucast sigA) - term
                in do {
                     (sigZ, rem) \<leftarrow>
                       while_option
                         (\<lambda>(sigZ, rem). 0x8000000000000000 \<le> rem)
                         (\<lambda>(sigZ, rem). let sigZ = sigZ - 1 in (sigZ, rem + (push_bit 1 (ucast sigZ) OR 1)))
                         (sigZ, rem);
                     Some (softfloat_shortShift32Right1Jam (sigZ OR of_bool (rem \<noteq> 0)))
                   }
         else Some (softfloat_shortShift32Right1Jam sigZ))"

lemma f32_sqrt_scheme: "f32_sqrt a s = sf32.sqrt_op root32 a s"
proof -
  let ?norm = "if expF32UI a = 0
      then (es32_exp (softfloat_normSubnormalF32Sig (fracF32UI a)), es32_sig (softfloat_normSubnormalF32Sig (fracF32UI a)))
      else (expF32UI a, fracF32UI a)"
  obtain eA gA where nA: "?norm = (eA, gA)" by fastforce
  have e: "(2::uint32_t) ^ 23 = 0x00800000" "int 255 = 0xFF" "int 127 = 0x7F" "(0x7F::int) - 1 = 0x7E" by simp_all
  show ?thesis
    unfolding f32_sqrt_def sf32.sqrt_op_def Let_def e nA prod.case root32_def
    by (auto simp: Option.bind_assoc split: prod.splits intro!: bind_option_cong)
qed

lemma negative_word64:
  assumes "- (2 ^ 63) \<le> v" and "v < 2 ^ 63"
  shows "0x8000000000000000 \<le> (word_of_int v :: uint64_t) \<longleftrightarrow> v < 0"
proof (cases "v < 0")
  case True
  have "v mod 2 ^ 64 = (v + 2 ^ 64) mod 2 ^ 64" by simp
  also have "\<dots> = v + 2 ^ 64" by (rule mod_pos_pos_trivial) (use True assms in simp_all)
  finally have "uint (word_of_int v :: uint64_t) = v + 2 ^ 64" by (simp add: uint_word_of_int)
  then show ?thesis using True assms by (simp add: word_le_def)
next
  case False
  then have "uint (word_of_int v :: uint64_t) = v" using assms by (simp add: uint_word_of_int)
  then show ?thesis using False assms by (simp add: word_le_def)
qed

lemma root_loop32:
  fixes N :: int and z :: uint32_t
  assumes t: "t * t \<le> N" "N < (t + 1) * (t + 1)" and b: "0 \<le> t" "j \<le> 8" and z: "uint z = t + int j" and r: "r = word_of_int (N - uint z * uint z)"
  shows "while_option (\<lambda>(sigZ, rem). 0x8000000000000000 \<le> rem)
      (\<lambda>(sigZ, rem). let sigZ = sigZ - 1 in (sigZ, rem + (push_bit 1 (ucast sigZ) OR 1))) (z, r :: uint64_t) =
    Some (word_of_int t, word_of_int (N - t * t))"
  using b(2) z r
proof (induction j arbitrary: z r)
  case 0
  have "t < 2 ^ 32" using 0(2) uint_bounded [of z] by simp
  then have "(t + 1) * (t + 1) - t * t < 2 ^ 63" by (simp add: algebra_simps)
  then have "\<not> 0x8000000000000000 \<le> (word_of_int (N - t * t) :: uint64_t)" using t by (subst negative_word64) simp_all
  moreover have zt: "uint z = t" "z = word_of_int t" using 0(2) word_of_int_uint [of z] by simp_all
  then have "r = word_of_int (N - t * t)" by (simp only: 0(3))
  ultimately show ?case using zt(2) by (subst while_option_unfold) (simp only: prod.case if_False)
next
  case (Suc j)
  have zb: "uint z < 2 ^ 32" using uint_bounded [of z] by simp
  have neg: "N - uint z * uint z < 0"
  proof -
    have "(t + 1) * (t + 1) \<le> uint z * uint z" using Suc.prems(2) b(1) by (intro mult_mono) simp_all
    then show ?thesis using t(2) by simp
  qed
  have big: "- (2 ^ 63) \<le> N - uint z * uint z"
  proof -
    have "uint z * uint z - t * t = (uint z - t) * (uint z + t)" by (simp add: algebra_simps)
    also have "\<dots> \<le> 8 * 2 ^ 33" using Suc.prems(1,2) zb b(1) by (intro mult_mono) simp_all
    finally show ?thesis using t(1) by simp
  qed
  have "N - uint z * uint z < 2 ^ 63" by (rule order.strict_trans [OF neg]) simp
  then have neg': "0x8000000000000000 \<le> r" unfolding Suc.prems(3) by (rule negative_word64 [OF big, THEN iffD2, OF _ neg])
  let ?z = "z - 1"
  have z1: "uint ?z = uint z - 1" using uint_sub_lem [of 1 z] Suc.prems(2) b(1) by simp
  have "push_bit 1 (ucast ?z) OR 1 = (word_of_int (2 * uint ?z + 1) :: uint64_t)"
  proof -
    have "even (push_bit 1 (ucast ?z) :: uint64_t)" by simp
    then have "push_bit 1 (ucast ?z) OR 1 = (push_bit 1 (ucast ?z) + 1 :: uint64_t)" by (simp add: or_one_eq)
    moreover have "(push_bit 1 (ucast ?z) :: uint64_t) = word_of_int (2 * uint ?z)" by (simp add: push_bit_eq_mult mult.commute)
    ultimately show ?thesis by simp
  qed
  then have r1: "r + (push_bit 1 (ucast ?z) OR 1) = word_of_int (N - uint ?z * uint ?z)"
    unfolding Suc.prems(3) z1 by (simp add: algebra_simps flip: wi_hom_add)
  have "j \<le> 8" "uint ?z = t + int j" using Suc.prems(1,2) z1 by simp_all
  from Suc.IH [OF this r1] neg' show ?case by (subst while_option_unfold) (simp add: Let_def)
qed

lemma odd_exp_word: "(word_of_int e :: 'a::len word) AND 1 \<noteq> 0 \<longleftrightarrow> odd e"
  by (simp add: and_one_eq bit_0 [symmetric] mod_2_eq_odd bit_word_of_int_iff)

text \<open>The integer root.\<close>

lemma floor_root:
  fixes N :: nat
  obtains t :: nat where "t * t \<le> N" "N < (t + 1) * (t + 1)" "real t \<le> sqrt (real N)" "sqrt (real N) < real t + 1"
proof -
  define t where "t = nat \<lfloor>sqrt (real N)\<rfloor>"
  have b: "real t \<le> sqrt (real N)" "sqrt (real N) < real t + 1" unfolding t_def by simp_all
  have "real (t * t) \<le> sqrt (real N) * sqrt (real N)" unfolding of_nat_mult using b(1) by (intro mult_mono) simp_all
  also have "\<dots> = real N" by simp
  finally have "t * t \<le> N" by (simp only: of_nat_le_iff)
  moreover have "sqrt (real N) * sqrt (real N) < real (t + 1) * real (t + 1)" using b(2) by (intro mult_strict_mono) (simp_all add: add.commute)
  then have "real N < real ((t + 1) * (t + 1))" unfolding of_nat_mult by simp
  then have "N < (t + 1) * (t + 1)" by (simp only: of_nat_less_iff)
  ultimately show thesis using b that by blast
qed

lemma root32_far:
  assumes "sz AND 0x7F \<le> 5 \<longleftrightarrow> False" and "real (unat sz) \<le> S + 5 / 2" and "S < real (unat sz)"
  shows "agrees 6 (S / 2) (unat (softfloat_shortShift32Right1Jam sz))"
proof -
  have "sz AND 0x7F = take_bit 7 sz" using and_mask_take_bit [of sz 7] by simp
  then have "3 < unat sz mod 2 ^ 7" using assms(1) by (simp add: word_le_nat_alt unat_take_bit_mod)
  then have "agrees 7 S (unat sz)" by (intro agrees_root_far) (use assms(2,3) in simp_all)
  then have "agrees 6 (S / 2 ^ 1) (jam 1 (unat sz))" by (rule agrees_jam) simp_all
  then show ?thesis by (simp add: unat_shortShift32Right1Jam)
qed

lemma root32_near:
  fixes N :: nat and sz :: uint32_t
  assumes N: "N < 2 ^ 64" and b: "real (unat sz) \<le> sqrt (real N) + 5 / 2" "sqrt (real N) < real (unat sz)"
  shows "\<exists>z. do {
      (sigZ, rem) \<leftarrow>
        while_option
          (\<lambda>(sigZ, rem). 0x8000000000000000 \<le> rem)
          (\<lambda>(sigZ, rem). let sigZ = sigZ - 1 in (sigZ, rem + (push_bit 1 (ucast sigZ) OR 1)))
          (sz, of_nat N - ucast sz * ucast sz :: uint64_t);
      Some (softfloat_shortShift32Right1Jam (sigZ OR of_bool (rem \<noteq> 0)))
    } = Some z \<and> agrees 6 (sqrt (real N) / 2) (unat z)"
proof -
  obtain t where t: "t * t \<le> N" "N < (t + 1) * (t + 1)" "real t \<le> sqrt (real N)" "sqrt (real N) < real t + 1" by (rule floor_root)
  obtain j where j: "unat sz = t + j" "j \<le> 8"
  proof -
    have "real t < real (unat sz)" "real (unat sz) < real t + 8" using t(3,4) b by linarith+
    then have "t < unat sz" "unat sz < t + 8" by linarith+
    then show thesis using that [of "unat sz - t"] by simp
  qed
  have "int (t * t) \<le> int N" "int N < int ((t + 1) * (t + 1))" using t(1,2) by (simp_all only: of_nat_le_iff of_nat_less_iff)
  then have ti: "int t * int t \<le> int N" "int N < (int t + 1) * (int t + 1)" by (simp_all only: of_nat_mult of_nat_add of_nat_1)
  have us: "uint sz = int t + int j" using j(1) by (simp add: uint_nat)
  have r: "of_nat N - ucast sz * ucast sz = (word_of_int (int N - uint sz * uint sz) :: uint64_t)" by simp
  have W: "while_option (\<lambda>(sigZ, rem). 0x8000000000000000 \<le> rem)
      (\<lambda>(sigZ, rem). let sigZ = sigZ - 1 in (sigZ, rem + (push_bit 1 (ucast sigZ) OR 1))) (sz, of_nat N - ucast sz * ucast sz :: uint64_t) =
      Some (word_of_int (int t), word_of_int (int N - int t * int t))"
    using ti us j(2) by (intro root_loop32 [of _ _ j]) (simp_all only: r of_nat_0_le_iff)
  have nz: "(word_of_int (int N - int t * int t) :: uint64_t) \<noteq> 0 \<longleftrightarrow> t * t \<noteq> N"
  proof -
    have "int N - int t * int t = int (N - t * t)" using t(1) by (simp add: of_nat_diff)
    then have "(word_of_int (int N - int t * int t) :: uint64_t) = of_nat (N - t * t)" by simp
    moreover have "unat (of_nat (N - t * t) :: uint64_t) = N - t * t" using N by (simp add: unat_of_nat)
    ultimately have "(word_of_int (int N - int t * int t) :: uint64_t) = 0 \<longleftrightarrow> N - t * t = 0" by (metis unat_eq_zero)
    then show ?thesis using t(1) by auto
  qed
  have "unat (word_of_int (int t) :: uint32_t) = t" using j(1) unat_lt32 [of sz] by (simp add: unat_of_nat)
  then have "unat (softfloat_shortShift32Right1Jam (word_of_int (int t) OR of_bool (t * t \<noteq> N))) = jam 1 (t + of_bool (t * t \<noteq> N \<and> even t))"
    by (simp only: unat_shortShift32Right1Jam unat_or_of_bool)
  moreover have "agrees 6 (sqrt (real N) / 2 ^ 1) (jam 1 (t + of_bool (t * t \<noteq> N \<and> even t)))"
    by (rule agrees_jam [OF agrees_root_jam [OF t(1,2) refl]]) simp_all
  ultimately show ?thesis unfolding W bind.bind_lunit prod.case nz by simp
qed

lemma root32_law:
  assumes g: "2 ^ 23 \<le> unat g" "unat g < 2 ^ 24"
  shows "\<exists>z. root32 e g = Some z \<and> agrees 6 (sqrt (real (unat g * 2 ^ (37 + (if odd e then 0 else 1))))) (unat z)"
proof -
  define c where "c = unat g * 2 ^ (if odd e then 7 else 8)"
  define S where "S = sqrt (real (c * 2 ^ 32))"
  have X: "sqrt (real (unat g * 2 ^ (37 + (if odd e then 0 else 1)))) = S / 2"
  proof -
    have "real (c * 2 ^ 32) = real (unat g * 2 ^ (37 + (if odd e then 0 else 1))) * 2\<^sup>2" by (simp add: c_def)
    then show ?thesis unfolding S_def by (simp only: real_sqrt_mult) simp
  qed
  define a where "a = push_bit 8 g"
  have ua: "unat a = unat g * 2 ^ 8" unfolding a_def using g(2) by (intro unat_push_bit_small) simp
  have cc: "c = (if (word_of_int e :: uint32_t) AND 1 \<noteq> 0 then unat a div 2 else unat a)" unfolding odd_exp_word c_def ua by simp
  define w where "w = softfloat_estimateSqrt32 (word_of_int e) a"
  have w: "S - 1 < real (unat w)" "real (unat w) \<le> S + 1 / 2"
    using estimateSqrt32_bounds(1,2) [OF _ cc] g(1) unfolding w_def S_def ua by simp_all
  have cb: "c < 2 ^ 32" using g(2) by (simp add: c_def)
  have sA: "push_bit 32 (ucast (drop_bit (nat (e mod 2)) a)) = (of_nat (c * 2 ^ 32) :: uint64_t)"
  proof -
    have "unat (drop_bit (nat (e mod 2)) a) = c" unfolding unat_drop_bit_div ua c_def by (cases "odd e") (simp_all add: odd_iff_mod_2_eq_one)
    then have "unat (push_bit 32 (ucast (drop_bit (nat (e mod 2)) a)) :: uint64_t) = c * 2 ^ 32"
      using cb by (subst unat_push_bit_small) (simp_all add: unat_ucast_up)
    then show ?thesis by (rule word_eq_of_nat)
  qed
  show ?thesis
  proof (cases "unat w + 2 < 2 ^ 32")
    case True
    then have sz: "unat (w + 2) = unat w + 2" by (subst unat_add_small) simp_all
    have b: "real (unat (w + 2)) \<le> S + 5 / 2" "S < real (unat (w + 2))" unfolding sz using w by simp_all
    have n2: "\<not> w + 2 < 2" unfolding word_less_nat_alt sz by simp
    show ?thesis
    proof (cases "w + 2 AND 0x7F \<le> 5")
      case near: True
      have "c * 2 ^ 32 < 2 ^ 64" using cb by simp
      from root32_near [OF this] show ?thesis
        using b near n2 unfolding root32_def Let_def a_def [symmetric] w_def [symmetric] sA X S_def by simp
    next
      case False
      then show ?thesis using root32_far [of "w + 2" S] b unfolding root32_def Let_def a_def [symmetric] w_def [symmetric] X by simp
    qed
  next
    case False
    then have wl: "2 ^ 32 - 2 \<le> unat w" by simp
    have "unat (w + 2) = unat w + 2 - 2 ^ 32" using False unat_lt32 [of w] by (simp add: unat_word_ariths mod_if)
    then have "w + 2 < 2" using unat_lt32 [of w] by (simp add: word_less_nat_alt)
    moreover have "w + 2 AND 0x7F \<le> 5" using word_and_le2 [of "w + 2" "0x7F"] \<open>w + 2 < 2\<close> by (simp add: word_le_nat_alt word_less_nat_alt)
    ultimately have "root32 e g = Some 0x7FFFFFFF" unfolding root32_def Let_def a_def [symmetric] w_def [symmetric] by simp
    moreover have "agrees 6 (S / 2) (unat (0x7FFFFFFF :: uint32_t))"
    proof (rule agrees_root_far [of _ 1])
      have "real (2 ^ 32 - 2) \<le> real (unat w)" using wl by (simp only: of_nat_le_iff)
      then show "real (unat (0x7FFFFFFF :: uint32_t)) - real 1 \<le> S / 2" using w(2) by simp
      have "S < 2 ^ 32"
      proof -
        have "real (c * 2 ^ 32) < real (2 ^ 32 * 2 ^ 32)" using cb by (simp only: of_nat_less_iff) simp
        then show ?thesis unfolding S_def by (intro real_less_lsqrt) (simp_all add: power2_eq_square)
      qed
      then show "S / 2 < real (unat (0x7FFFFFFF :: uint32_t)) + 1" by simp
    qed simp
    ultimately show ?thesis unfolding X by blast
  qed
qed

section \<open>Double precision\<close>

text \<open>
  The refinement of the 32-bit estimate \<open>e\<close> by a division. When the root is an integer it is found exactly: the correction loop, which adds twice the
  new root to the remainder and not one more, would go wrong there.
\<close>

lemma refined_root:
  fixes m c e N z k :: nat
  assumes m: "2 ^ 52 \<le> m" and k: "k = 21 \<or> k = 22" and c: "c = m div 2 ^ k" and N: "N = m * 2 ^ (94 - k)"
    and e: "sqrt (real c * 2 ^ 32) - 1 < real e" "real e \<le> sqrt (real c * 2 ^ 32) + 1 / 2" "2 ^ 31 \<le> e"
    and z: "z = N div (e * 2 ^ 32) + e * 2 ^ 30"
  shows "sqrt (real N) - 1 < real z" and "real z \<le> sqrt (real N) + 2" and "R * R = N \<Longrightarrow> z = R"
proof -
  define x where "x = real m / 2 ^ k * 2 ^ 32"
  define S where "S = sqrt x"
  have Nx: "real N = x * (2 ^ 31)\<^sup>2" using k by (auto simp: N x_def)
  have SN: "sqrt (real N) = S * 2 ^ 31" unfolding Nx S_def by (simp only: real_sqrt_mult) simp
  have "real c \<le> real m / 2 ^ k" "real m / 2 ^ k \<le> real c + 1" using div_real_bounds [of m "2 ^ k"] unfolding c by simp_all
  from mult_right_mono [OF this(1), of "2 ^ 32"] mult_right_mono [OF this(2), of "2 ^ 32"]
  have xy: "real c * 2 ^ 32 \<le> x" "x \<le> real c * 2 ^ 32 + 2 ^ 32" unfolding x_def by (simp_all only: distrib_right mult_1_left) simp_all
  have "2 ^ 30 \<le> c" unfolding c using k m by (auto simp: less_eq_div_iff_mult_less_eq)
  then have "(2::real) ^ 30 \<le> real c" by simp
  then have "2 ^ 62 \<le> real c * 2 ^ 32" by simp
  note near = sqrt_near [OF xy this]
  have eS: "S - 2 < real e" "real e \<le> S + 1 / 2" using near e(1,2) unfolding S_def by linarith+
  define H where "H = real N / real (e * 2 ^ 32)"
  define X where "X = real e * 2 ^ 31"
  have Xb: "2 ^ 62 \<le> X" unfolding X_def using e(3) by simp
  have H: "real N / X + X = 2 * (H + real (e * 2 ^ 30))" unfolding X_def H_def by simp
  have zH: "real z \<le> H + real (e * 2 ^ 30)" "H + real (e * 2 ^ 30) < real z + 1"
    using div_real_bounds [of N "e * 2 ^ 32"] unfolding z H_def by simp_all
  have "2 * sqrt (real N) \<le> 2 * (H + real (e * 2 ^ 30))" unfolding H [symmetric] using Xb by (intro heron_above) simp_all
  then show lo: "sqrt (real N) - 1 < real z" using zH(2) by simp
  have err: "(X - sqrt (real N))\<^sup>2 = (real e - S)\<^sup>2 * (2 ^ 31)\<^sup>2" unfolding SN X_def by (simp only: power_mult_distrib [symmetric] left_diff_distrib)
  have up: "real z \<le> sqrt (real N) + d / 2" if "\<bar>real e - S\<bar> \<le> q" "q\<^sup>2 \<le> d" for q d
  proof -
    have "(real e - S)\<^sup>2 \<le> d" using square_bound [OF that(1)] that(2) by simp
    then have "(X - sqrt (real N))\<^sup>2 \<le> d * 2 ^ 62" unfolding err by simp
    also have "\<dots> \<le> d * X" using Xb that(2) zero_le_power2 [of q] by (intro mult_left_mono) linarith+
    finally have "real N / X + X \<le> 2 * sqrt (real N) + d" using Xb by (intro heron_below) simp_all
    then show ?thesis using zH(1) unfolding H by simp
  qed
  show "real z \<le> sqrt (real N) + 2" using up [of 2 4] eS by (simp add: abs_le_iff)
  show "z = R" if R: "R * R = N"
  proof -
    have "N = m * 2 ^ (32 - k) * (2 ^ 31)\<^sup>2" using k by (auto simp: N)
    then have "(2 ^ 31)\<^sup>2 dvd R\<^sup>2" using R by (simp add: power2_eq_square)
    then have "2 ^ 31 dvd R" by (simp only: pow_divides_pow_iff)
    then obtain Q where Q: "R = Q * 2 ^ 31" by (metis dvd_div_mult_self)
    have sR: "sqrt (real N) = real R" by (simp flip: R)
    then have SQ: "S = real Q" using SN Q by simp
    have "real Q < real (e + 2)" "real e < real (Q + 1)" using eS SQ by simp_all
    then have "Q \<le> e + 1" "e \<le> Q" by (simp_all only: of_nat_less_iff)
    then have "\<bar>real e - S\<bar> \<le> 1" unfolding SQ by (simp add: abs_le_iff)
    from up [OF this, of 1] have "real z \<le> real R + 1 / 2" unfolding sR by simp
    moreover have "real R - 1 < real z" using lo sR by simp
    ultimately show ?thesis by linarith
  qed
qed

text \<open>The correction loop, whose remainder is short by one for each turn.\<close>

lemma root_loop64:
  fixes w :: uint64_t and N t j d :: nat
  assumes t: "t * t + d + j \<le> N" "N < (t + 1) * (t + 1)" and b: "t < 2 ^ 63" "j \<le> 8"
    and w: "unat w = t + j" and r: "s128 r = int N - int (t + j) * int (t + j) - int d"
  shows "\<exists>r'. while_option (\<lambda>(sigZ, rem). 0x8000000000000000 \<le> u128_v64 rem)
      (\<lambda>(sigZ, rem). let sigZ = sigZ - 1
         in (sigZ, softfloat_add128 (u128_v64 rem) (u128_v0 rem) (drop_bit 63 sigZ) (push_bit 1 sigZ))) (w, r) = Some (of_nat t, r') \<and>
    u128 r' = N - t * t - d - j"
  using t(1) b(2) w r
proof (induction j arbitrary: w r d)
  case 0
  have "int (t * t + d) \<le> int N" using 0(1) by (simp only: of_nat_le_iff add_0_right)
  then have nn: "0 \<le> s128 r" "s128 r = int (N - t * t - d)" using 0(1,4) by (simp_all add: of_nat_diff)
  then have "u128 r = N - t * t - d" using s128_nonneg [of r] by simp
  moreover have "w = of_nat t" using word_eq_of_nat [OF 0(3)] by simp
  moreover have "\<not> 0x8000000000000000 \<le> u128_v64 r" using nn(1) by (simp add: s128_negative)
  ultimately show ?case by (subst while_option_unfold) simp
next
  case (Suc j)
  let ?w = "w - 1"
  let ?r = "softfloat_add128 (u128_v64 r) (u128_v0 r) (drop_bit 63 ?w) (push_bit 1 ?w)"
  have "1 \<le> w" using Suc.prems(3) by (simp add: word_le_nat_alt)
  then have w1: "unat ?w = t + j" using Suc.prems(3) by (simp add: unat_sub_le)
  have dbl: "cat128 (drop_bit 63 v) (push_bit 1 v) = 2 * unat v" for v :: uint64_t
  proof -
    have "unat (push_bit 1 v) = 2 * unat v mod 2 ^ 64" by (simp only: unat_push_bit_mod) (simp add: mult.commute)
    moreover have "unat (drop_bit 63 v) = 2 * unat v div 2 ^ 64" using div_mult_mult1 [of 2 "unat v" "2 ^ 63"] by (simp add: unat_drop_bit_div)
    ultimately show ?thesis by (simp only: div_mult_mod_eq)
  qed
  have lt: "int N < int ((t + 1) * (t + 1))" and ge: "int (t * t + d + Suc j) \<le> int N"
    using t(2) Suc.prems(1) by (simp_all only: of_nat_less_iff of_nat_le_iff)
  have neg: "s128 r < 0"
  proof -
    have "int ((t + 1) * (t + 1)) \<le> int (t + Suc j) * int (t + Suc j)" unfolding of_nat_mult by (intro mult_mono) simp_all
    then show ?thesis using Suc.prems(4) lt by linarith
  qed
  have big: "- (2 ^ 100) \<le> s128 r"
  proof -
    have "int (t + Suc j) * int (t + Suc j) - int (t * t) = int (Suc j) * int (2 * t + Suc j)" by (simp add: algebra_simps)
    also have "\<dots> \<le> 8 * 2 ^ 65" using Suc.prems(2) b(1) by (intro mult_mono) simp_all
    finally show ?thesis using Suc.prems(4) ge by simp
  qed
  have tj: "int (2 * unat ?w) < 2 ^ 100" unfolding w1 using b(1) Suc.prems(2) by simp
  have "s128 ?r = s128 r + int (2 * unat ?w)"
  proof (rule s128_add [of r "drop_bit 63 ?w" "push_bit 1 ?w", unfolded dbl])
    have e: "(2::int) ^ 100 < 2 ^ 127" by simp
    show "- (2 ^ 127) \<le> s128 r + int (2 * unat ?w)" using big e of_nat_0_le_iff [of "2 * unat ?w", where 'a = int] by linarith
    show "s128 r + int (2 * unat ?w) < 2 ^ 127" using neg tj e by linarith
  qed
  also have "\<dots> = int N - int (t + j) * int (t + j) - int (Suc d)" unfolding Suc.prems(4) w1 by (simp add: algebra_simps)
  finally have r1: "s128 ?r = int N - int (t + j) * int (t + j) - int (Suc d)" .
  have "t * t + Suc d + j \<le> N" "j \<le> 8" using Suc.prems(1,2) by simp_all
  from Suc.IH [OF this w1 r1] neg show ?case by (subst while_option_unfold) (simp add: Let_def s128_negative)
qed

text \<open>No number that is a multiple of four is one or two above a square.\<close>

lemma square_gap:
  fixes N t :: nat
  assumes "4 dvd N" and "t * t \<le> N" and "t * t \<noteq> N"
  shows "t * t + 2 < N"
proof -
  have "t mod 4 = 0 \<or> t mod 4 = 1 \<or> t mod 4 = 2 \<or> t mod 4 = 3" by linarith
  then have "t * t mod 4 = 0 \<or> t * t mod 4 = 1" by (auto simp: mod_mult_eq [of t 4 t, symmetric])
  then have "t * t + 1 \<noteq> N" "t * t + 2 \<noteq> N" using assms(1) by (auto simp: dvd_eq_mod_eq_0 mod_Suc)
  then show ?thesis using assms(2,3) by simp
qed

definition rootFix64 :: "uint64_t \<Rightarrow> uint64_t \<Rightarrow> uint64_t option" where
  "rootFix64 sigA sigZ =
     (if sigZ AND 0x1FF \<le> 5
      then
        let term = softfloat_mul64To128 sigZ sigZ;
            rem = softfloat_sub128 sigA 0 (u128_v64 term) (u128_v0 term)
        in do {
             (sigZ, rem) \<leftarrow>
               while_option
                 (\<lambda>(sigZ, rem). 0x8000000000000000 \<le> u128_v64 rem)
                 (\<lambda>(sigZ, rem).
                    let sigZ = sigZ - 1
                    in (sigZ, softfloat_add128 (u128_v64 rem) (u128_v0 rem) (drop_bit 63 sigZ) (push_bit 1 sigZ)))
                 (sigZ, rem);
             Some (sigZ OR of_bool (u128_v64 rem OR u128_v0 rem \<noteq> 0))
           }
      else Some sigZ)"

definition root64 :: "int \<Rightarrow> uint64_t \<Rightarrow> uint64_t option" where
  "root64 expA sigA =
     (let sigZ32 = softfloat_estimateSqrt32 (word_of_int expA) (ucast (drop_bit 21 sigA));
          sigA = push_bit (9 - nat (expA mod 2)) sigA
      in do {
           q \<leftarrow> softfloat_estimateDiv128To64 sigA 0 (push_bit 32 (ucast sigZ32));
           rootFix64 sigA (q + push_bit 30 (ucast sigZ32))
         })"

lemma f64_sqrt_scheme: "f64_sqrt a s = sf64.sqrt_op root64 a s"
proof -
  let ?norm = "if expF64UI a = 0
      then (es64_exp (softfloat_normSubnormalF64Sig (fracF64UI a)), es64_sig (softfloat_normSubnormalF64Sig (fracF64UI a)))
      else (expF64UI a, fracF64UI a)"
  obtain eA gA where nA: "?norm = (eA, gA)" by fastforce
  have e: "(2::uint64_t) ^ 52 = 0x0010000000000000" "int 2047 = 0x7FF" "int 1023 = 0x3FF" "(0x3FF::int) - 1 = 0x3FE" by simp_all
  show ?thesis
    unfolding f64_sqrt_def sf64.sqrt_op_def Let_def e nA prod.case root64_def rootFix64_def
    by (auto simp: Option.bind_assoc split: prod.splits intro!: bind_option_cong)
qed

lemma rootFix64_near:
  fixes A w :: uint64_t and N :: nat
  assumes N: "N = unat A * 2 ^ 64" "N < 2 ^ 126" and b: "sqrt (real N) - 1 < real (unat w)" "real (unat w) \<le> sqrt (real N) + 2"
    and ex: "\<And>R. R * R = N \<Longrightarrow> unat w = R" and near: "w AND 0x1FF \<le> 5"
  shows "\<exists>z. rootFix64 A w = Some z \<and> agrees 9 (sqrt (real N)) (unat z)"
proof -
  obtain t where t: "t * t \<le> N" "N < (t + 1) * (t + 1)" "real t \<le> sqrt (real N)" "sqrt (real N) < real t + 1" by (rule floor_root)
  obtain j where j: "unat w = t + j" "j \<le> 2"
  proof -
    have "real t < real (unat w) + 1" "real (unat w) < real t + 3" using t(3,4) b by linarith+
    then have "t < unat w + 1" "unat w < t + 3" by linarith+
    then show thesis using that [of "unat w - t"] by simp
  qed
  have gap: "t * t + j \<le> N" and nz: "N - t * t - j \<noteq> 0 \<longleftrightarrow> t * t \<noteq> N"
  proof -
    have "j = 0" if "t * t = N" using ex [OF that] j(1) by simp
    moreover have "t * t + 2 < N" if "t * t \<noteq> N" using that t(1) N(1) by (intro square_gap) (simp_all add: dvd_mult)
    ultimately show "t * t + j \<le> N" "N - t * t - j \<noteq> 0 \<longleftrightarrow> t * t \<noteq> N" using t(1) j(2) by fastforce+
  qed
  have tb: "t < 2 ^ 63"
  proof (rule ccontr)
    assume "\<not> t < 2 ^ 63"
    then have "2 ^ 63 * 2 ^ 63 \<le> t * t" by (intro mult_le_mono) simp_all
    then show False using t(1) N(2) by simp
  qed
  let ?t = "softfloat_mul64To128 w w"
  let ?r = "softfloat_sub128 A 0 (u128_v64 ?t) (u128_v0 ?t)"
  have m: "cat128 (u128_v64 ?t) (u128_v0 ?t) = unat w * unat w" using mul64To128_exact [of w w] unfolding u128_def .
  have nA: "cat128 A 0 = N" using N(1) by simp
  have ww: "unat w * unat w < 2 ^ 127"
  proof -
    have "unat w \<le> 2 ^ 63 + 2" using j tb by simp
    then have "unat w * unat w \<le> (2 ^ 63 + 2) * (2 ^ 63 + 2)" by (intro mult_le_mono)
    then show ?thesis by simp
  qed
  have "int N < 2 ^ 126" "int (unat w * unat w) < 2 ^ 127" using N(2) ww by (simp_all only: of_nat_less_numeral_power_cancel_iff)
  moreover have "0 \<le> int N" "0 \<le> int (unat w * unat w)" "(2::int) ^ 127 = 2 * 2 ^ 126" by (simp_all only: of_nat_0_le_iff) simp
  ultimately have "-(2 ^ 127) \<le> int N - int (unat w * unat w)" "int N - int (unat w * unat w) < 2 ^ 127" by linarith+
  then have "s128 ?r = int (cat128 A 0) - int (cat128 (u128_v64 ?t) (u128_v0 ?t))" by (intro s128_sub) (simp_all only: m nA)
  then have s: "s128 ?r = int N - int (t + j) * int (t + j) - int 0" unfolding m nA j(1) by simp
  obtain r' where W: "while_option (\<lambda>(sigZ, rem). 0x8000000000000000 \<le> u128_v64 rem)
      (\<lambda>(sigZ, rem). let sigZ = sigZ - 1
         in (sigZ, softfloat_add128 (u128_v64 rem) (u128_v0 rem) (drop_bit 63 sigZ) (push_bit 1 sigZ))) (w, ?r) = Some (of_nat t, r')"
    and r': "u128 r' = N - t * t - j"
    using root_loop64 [of t 0 j N w ?r] gap t(2) tb j s by auto
  have "u128_v64 r' OR u128_v0 r' \<noteq> 0 \<longleftrightarrow> u128 r' \<noteq> 0" unfolding u128_def by (simp add: or_eq_0_iff unat_eq_zero)
  then have nz': "u128_v64 r' OR u128_v0 r' \<noteq> 0 \<longleftrightarrow> t * t \<noteq> N" unfolding r' nz .
  have "unat (of_nat t :: uint64_t) = t" using tb by (simp add: unat_of_nat)
  then have "unat (of_nat t OR of_bool (t * t \<noteq> N) :: uint64_t) = t + of_bool (t * t \<noteq> N \<and> even t)" by (simp only: unat_or_of_bool)
  moreover have "agrees 9 (sqrt (real N)) (t + of_bool (t * t \<noteq> N \<and> even t))"
    by (rule agrees_mono [OF agrees_root_jam [OF t(1,2) refl]]) simp
  ultimately show ?thesis unfolding rootFix64_def if_P [OF near] Let_def W [unfolded Let_def] bind.bind_lunit prod.case nz' by simp
qed

lemma rootFix64_law:
  fixes A w :: uint64_t and N :: nat
  assumes N: "N = unat A * 2 ^ 64" "N < 2 ^ 126" and b: "sqrt (real N) - 1 < real (unat w)" "real (unat w) \<le> sqrt (real N) + 2"
    and ex: "\<And>R. R * R = N \<Longrightarrow> unat w = R"
  shows "\<exists>z. rootFix64 A w = Some z \<and> agrees 9 (sqrt (real N)) (unat z)"
proof (cases "w AND 0x1FF \<le> 5")
  case True
  show ?thesis by (rule rootFix64_near [OF assms True])
next
  case False
  have "w AND 0x1FF = take_bit 9 w" using and_mask_take_bit [of w 9] by simp
  then have "2 < unat w mod 2 ^ 9" using False by (simp add: word_le_nat_alt unat_take_bit_mod)
  then have "agrees 9 (sqrt (real N)) (unat w)" by (intro agrees_root_far) (use b in simp_all)
  then show ?thesis using False by (simp add: rootFix64_def)
qed

lemma root64_law:
  assumes g: "2 ^ 52 \<le> unat g" "unat g < 2 ^ 53"
  shows "\<exists>z. root64 e g = Some z \<and> agrees 9 (sqrt (real (unat g * 2 ^ (72 + (if odd e then 0 else 1))))) (unat z)"
proof -
  define k :: nat where "k = (if odd e then 22 else 21)"
  define N where "N = unat g * 2 ^ (94 - k)"
  define a :: uint32_t where "a = ucast (drop_bit 21 g)"
  have dg: "unat (drop_bit 21 g) < 2 ^ 32" using g(2) by (simp add: unat_drop_bit_div div_less_iff_less_mult)
  have ua: "unat a = unat g div 2 ^ 21" using dg unfolding a_def unat_ucast_mod by (simp add: unat_drop_bit_div)
  have a31: "2 ^ 31 \<le> unat a" unfolding ua using g(1) by (simp add: less_eq_div_iff_mult_less_eq)
  have c: "unat g div 2 ^ k = (if (word_of_int e :: uint32_t) AND 1 \<noteq> 0 then unat a div 2 else unat a)"
    unfolding odd_exp_word ua k_def by (simp add: div_mult2_eq [symmetric])
  define w where "w = softfloat_estimateSqrt32 (word_of_int e) a"
  note wb = estimateSqrt32_bounds [OF a31 c, folded w_def]
  define A where "A = push_bit (9 - nat (e mod 2)) g"
  have uA: "unat A = unat g * 2 ^ (30 - k)"
  proof -
    have h: "9 - nat (e mod 2) = 30 - k" unfolding k_def by (cases "odd e") (simp_all add: odd_iff_mod_2_eq_one)
    show ?thesis unfolding A_def h using g(2) by (intro unat_push_bit_small) (simp add: k_def)
  qed
  have NA: "N = unat A * 2 ^ 64" unfolding N_def uA k_def by simp
  have N126: "N < 2 ^ 126" unfolding N_def k_def using g(2) by simp
  define b where "b = push_bit 32 (ucast w :: uint64_t)"
  have uw: "unat (ucast w :: uint64_t) = unat w" by (rule unat_ucast_up) simp
  have ub: "unat b = unat w * 2 ^ 32" unfolding b_def using unat_lt32 [of w] by (subst unat_push_bit_small) (simp_all add: uw)
  have b63: "2 ^ 63 \<le> unat b" unfolding ub using wb(3) by simp
  have Ab: "A < b"
  proof -
    have "unat A < 2 ^ 63" unfolding uA k_def using g(2) by simp
    then show ?thesis using b63 by (simp add: word_less_nat_alt)
  qed
  obtain q where q: "softfloat_estimateDiv128To64 A 0 b = Some q" "unat q = N div (unat w * 2 ^ 32)"
    using estimateDiv128To64_value [OF b63 Ab, of 0] unfolding ub NA by auto
  have k: "k = 21 \<or> k = 22" by (simp add: k_def)
  note rr = refined_root [OF g(1) k refl N_def wb refl]
  have u30: "unat (push_bit 30 (ucast w :: uint64_t)) = unat w * 2 ^ 30" using unat_lt32 [of w] by (subst unat_push_bit_small) (simp_all add: uw)
  have uz: "unat (q + push_bit 30 (ucast w)) = N div (unat w * 2 ^ 32) + unat w * 2 ^ 30"
  proof -
    have "sqrt (real N) < 2 ^ 63"
    proof (rule real_less_lsqrt)
      have "real N < 2 ^ 126" using N126 by (simp only: of_nat_less_numeral_power_cancel_iff)
      then show "real N < (2 ^ 63)\<^sup>2" by simp
    qed simp
    then have "real (N div (unat w * 2 ^ 32) + unat w * 2 ^ 30) < 2 ^ 64" using rr(2) by simp
    then have "N div (unat w * 2 ^ 32) + unat w * 2 ^ 30 < 2 ^ 64" by (simp only: of_nat_less_numeral_power_cancel_iff)
    then show ?thesis by (subst unat_add_small) (simp_all add: q(2) u30)
  qed
  have "\<exists>z. rootFix64 A (q + push_bit 30 (ucast w)) = Some z \<and> agrees 9 (sqrt (real N)) (unat z)"
    by (rule rootFix64_law [OF NA N126]) (use rr in \<open>simp_all only: uz\<close>)
  moreover have "N = unat g * 2 ^ (72 + (if odd e then 0 else 1))" by (simp add: N_def k_def)
  ultimately show ?thesis unfolding root64_def Let_def a_def [symmetric] w_def [symmetric] A_def [symmetric] b_def [symmetric] q(1) bind.bind_lunit by simp
qed

section \<open>Properties\<close>

lemma f32_sqrt_correct:
  assumes "fl_mag a < 255 * 2 ^ 23" and "fl_sign a \<longrightarrow> fl_mag a = 0"
  shows "\<exists>res. f32_sqrt a s = Some res \<and> op_rounds 23 255 (fl_sign a) (sqrt (fl_real 23 a * 2 ^ 149)) s res"
proof -
  have "\<exists>res. sf32.sqrt_op root32 a s = Some res \<and> op_rounds 23 255 (signF32UI a) (sqrt (fl_real 23 a * 2 ^ 149)) s res"
    by (rule sf32.sqrt_op_rounds [OF _ assms]) (use root32_law in simp_all)
  then show ?thesis unfolding f32_sqrt_scheme f32.sign_law .
qed

lemma f64_sqrt_correct:
  assumes "fl_mag a < 2047 * 2 ^ 52" and "fl_sign a \<longrightarrow> fl_mag a = 0"
  shows "\<exists>res. f64_sqrt a s = Some res \<and> op_rounds 52 2047 (fl_sign a) (sqrt (fl_real 52 a * 2 ^ 1074)) s res"
proof -
  have "\<exists>res. sf64.sqrt_op root64 a s = Some res \<and> op_rounds 52 2047 (signF64UI a) (sqrt (fl_real 52 a * 2 ^ 1074)) s res"
    by (rule sf64.sqrt_op_rounds [OF _ assms]) (use root64_law in simp_all)
  then show ?thesis unfolding f64_sqrt_scheme f64.sign_law .
qed

text \<open>
  Property C5: the square root of a finite number that is not negative, in each format, returns (the correction loops end) the exact real root correctly
  rounded, with exactly the flags it calls for; the root of a zero is that zero, with its sign.
\<close>

theorem sqrt_correct:
  assumes "fl_mag a < 255 * 2 ^ 23" and "fl_sign a \<longrightarrow> fl_mag a = 0" and "fl_mag c < 2047 * 2 ^ 52" and "fl_sign c \<longrightarrow> fl_mag c = 0"
  shows "(\<exists>res. f32_sqrt a s = Some res \<and> op_rounds 23 255 (fl_sign a) (sqrt (fl_real 23 a * 2 ^ 149)) s res) \<and>
    (\<exists>res. f64_sqrt c s = Some res \<and> op_rounds 52 2047 (fl_sign c) (sqrt (fl_real 52 c * 2 ^ 1074)) s res)"
  by (intro conjI f32_sqrt_correct [OF assms(1,2)] f64_sqrt_correct [OF assms(3,4)])

theorem sqrt_correct_witness:
  "(\<exists>res. f32_sqrt 0x40000000 init_state = Some res \<and>
     op_rounds 23 255 False (sqrt (fl_real 23 (0x40000000 :: uint32_t) * 2 ^ 149)) init_state res) \<and>
   (\<exists>res. f64_sqrt 0x4000000000000000 init_state = Some res \<and>
     op_rounds 52 2047 False (sqrt (fl_real 52 (0x4000000000000000 :: uint64_t) * 2 ^ 1074)) init_state res) \<and>
   f32_sqrt 0x40000000 init_state = Some (0x3FB504F3, softfloat_raiseFlags softfloat_flag_inexact init_state)"
proof -
  have "f32_sqrt 0x40000000 init_state = Some (0x3FB504F3, softfloat_raiseFlags softfloat_flag_inexact init_state)" by code_simp
  then show ?thesis
    using sqrt_correct [of "0x40000000" "0x4000000000000000" init_state] by (simp add: fl_mag_def fl_sign_def)
qed

text \<open>
  Property C25: the square root of a NaN, of positive infinity and of a negative number, both formats: NaNs propagate, infinity is its own root, and a
  number below zero, minus infinity included, is invalid.
\<close>

theorem sqrt_special:
  assumes "255 * 2 ^ 23 \<le> fl_mag a \<or> fl_sign a \<and> fl_mag a \<noteq> 0" and "2047 * 2 ^ 52 \<le> fl_mag c \<or> fl_sign c \<and> fl_mag c \<noteq> 0"
  shows "f32_sqrt a s = Some
    (if fl_nan 23 255 a then softfloat_propagateNaNF32UI a 0 s
     else if fl_sign a then (defaultNaNF32UI, softfloat_raiseFlags softfloat_flag_invalid s) else (a, s)) \<and>
    f64_sqrt c s = Some
    (if fl_nan 52 2047 c then softfloat_propagateNaNF64UI c 0 s
     else if fl_sign c then (defaultNaNF64UI, softfloat_raiseFlags softfloat_flag_invalid s) else (c, s))"
  unfolding f32_sqrt_scheme f64_sqrt_scheme by (intro conjI sf32.sqrt_op_special [OF assms(1)] sf64.sqrt_op_special [OF assms(2)])

theorem sqrt_special_witness:
  "f32_sqrt 0xBF800000 init_state = Some (defaultNaNF32UI, softfloat_raiseFlags softfloat_flag_invalid init_state) \<and>
   f64_sqrt 0x7FF0000000000000 init_state = Some (0x7FF0000000000000, init_state)"
  using sqrt_special [of "0xBF800000" "0x7FF0000000000000" init_state] by (simp add: fl_mag_def fl_nan_def fl_sign_def)

end
