(* ===== verification/Float_Rem.thy ===== *)
theory Float_Rem
  imports Float_Mul "HOL-Library.Monad_Syntax"
begin

text \<open>
  Remainder (\<^verbatim>\<open>source/f32_rem.c\<close>, \<^verbatim>\<open>source/f64_rem.c\<close>). The reduction loop over the exponent
  difference is a recursive function (the difference falls by 62 in every turn); the final
  \<^verbatim>\<open>do ... while\<close> loop runs its body once and then is a \<^const>\<open>while_option\<close> loop.
\<close>

section \<open>The routines\<close>

text \<open>\<^verbatim>\<open>while ( 0 < expDiff )\<close> of \<^verbatim>\<open>f32_rem.c\<close>; the result is the pair (\<open>sigA64\<close>, \<open>expDiff\<close>) after the loop.\<close>

function f32_rem_reduce :: "uint32_t \<Rightarrow> uint64_t \<Rightarrow> uint64_t \<Rightarrow> int \<Rightarrow> (uint64_t \<times> int) option" where
  "f32_rem_reduce sigB sigB64 sigA64 expDiff =
     (if 0 < expDiff
      then do {
        q64 \<leftarrow> softfloat_estimateDiv128To64 sigA64 0 sigB64;
        let q64 = (if 2 < q64 then q64 - 2 else 0);
        f32_rem_reduce sigB sigB64 (- push_bit 38 (ucast sigB * q64)) (expDiff - 62)
      }
      else Some (sigA64, expDiff))"
  by pat_completeness auto

termination
  by (relation "measure (\<lambda>(sigB, sigB64, sigA64, expDiff). nat expDiff)") auto

text \<open>\<^verbatim>\<open>while ( 0 < expDiff )\<close> of \<^verbatim>\<open>f64_rem.c\<close>; the result is (\<open>q\<close>, \<open>sigA\<close>, \<open>expDiff\<close>) after the loop.\<close>

function f64_rem_reduce :: "uint64_t \<Rightarrow> uint64_t \<Rightarrow> uint64_t \<Rightarrow> int \<Rightarrow> (uint64_t \<times> uint64_t \<times> int) option" where
  "f64_rem_reduce sigB q sigA expDiff =
     (if 0 < expDiff
      then do {
        q \<leftarrow> softfloat_estimateDiv128To64 sigA 0 sigB;
        let q = (if 2 < q then q - 2 else 0);
        f64_rem_reduce sigB q (- (drop_bit 2 sigB * q)) (expDiff - 62)
      }
      else Some (q, sigA, expDiff))"
  by pat_completeness auto

termination
  by (relation "measure (\<lambda>(sigB, q, sigA, expDiff). nat expDiff)") auto

text \<open>The statements from the \<^verbatim>\<open>do\<close> loop to the end, on the values of the C variables there.\<close>

definition f32_rem_finish ::
  "bool \<Rightarrow> int \<Rightarrow> uint32_t \<Rightarrow> uint32_t \<Rightarrow> uint32_t \<Rightarrow> fp_state \<Rightarrow> (float32_t \<times> fp_state) option" where
  "f32_rem_finish signA expB q sigA sigB s =
     (let step = (\<lambda>(q, alternateSigA, sigA). (q + 1, sigA, sigA - sigB))
      in do {
           (q, alternateSigA, sigA) \<leftarrow>
             while_option (\<lambda>(q, alternateSigA, sigA). sigA < 0x80000000) step (step (q, 0, sigA));
           let sigMean = sigA + alternateSigA;
           let sigA = (if 0x80000000 \<le> sigMean \<or> (sigMean = 0 \<and> q AND 1 \<noteq> 0) then alternateSigA else sigA);
           let signZ = (0x80000000 \<le> sigA);
           let sigA = (if signZ then - sigA else sigA);
           Some (softfloat_normRoundPackToF32 (signA \<noteq> signZ) expB sigA s)
         })"

definition f64_rem_finish ::
  "bool \<Rightarrow> int \<Rightarrow> uint64_t \<Rightarrow> uint64_t \<Rightarrow> uint64_t \<Rightarrow> fp_state \<Rightarrow> (float64_t \<times> fp_state) option" where
  "f64_rem_finish signA expB q sigA sigB s =
     (let step = (\<lambda>(q, alternateSigA, sigA). (q + 1, sigA, sigA - sigB))
      in do {
           (q, alternateSigA, sigA) \<leftarrow>
             while_option (\<lambda>(q, alternateSigA, sigA). sigA < 0x8000000000000000) step (step (q, 0, sigA));
           let sigMean = sigA + alternateSigA;
           let sigA = (if 0x8000000000000000 \<le> sigMean \<or> (sigMean = 0 \<and> q AND 1 \<noteq> 0)
                       then alternateSigA else sigA);
           let signZ = (0x8000000000000000 \<le> sigA);
           let sigA = (if signZ then - sigA else sigA);
           Some (softfloat_normRoundPackToF64 (signA \<noteq> signZ) expB sigA s)
         })"

definition f32_rem :: "float32_t \<Rightarrow> float32_t \<Rightarrow> fp_state \<Rightarrow> (float32_t \<times> fp_state) option" where
  "f32_rem a b s =
     (let uiA = a;
          signA = signF32UI uiA;
          expA = expF32UI uiA;
          sigA = fracF32UI uiA;
          uiB = b;
          expB = expF32UI uiB;
          sigB = fracF32UI uiB;
          propagateNaN = Some (softfloat_propagateNaNF32UI uiA uiB s);
          invalid = Some (defaultNaNF32UI, softfloat_raiseFlags softfloat_flag_invalid s)
      in if expA = 0xFF
         then (if sigA \<noteq> 0 \<or> (expB = 0xFF \<and> sigB \<noteq> 0) then propagateNaN else invalid)
         else if expB = 0xFF
         then (if sigB \<noteq> 0 then propagateNaN else Some (a, s))
         else if expB = 0 \<and> sigB = 0 then invalid
         else
           let normExpSig = softfloat_normSubnormalF32Sig sigB;
               (expB, sigB) = (if expB = 0 then (es32_exp normExpSig, es32_sig normExpSig) else (expB, sigB))
           in if expA = 0 \<and> sigA = 0 then Some (a, s)
              else
                let normExpSig = softfloat_normSubnormalF32Sig sigA;
                    (expA, sigA) = (if expA = 0 then (es32_exp normExpSig, es32_sig normExpSig) else (expA, sigA));
                    expDiff = expA - expB;
                    sigA = sigA OR 0x00800000;
                    sigB = sigB OR 0x00800000
                in if expDiff < 32
                   then
                     let sigA = push_bit 8 sigA;
                         sigB = push_bit 8 sigB
                     in if expDiff < -1 then Some (a, s)
                        else
                          let sigA = (if expDiff < 0 then drop_bit 1 sigA else sigA);
                              q = of_bool (sigB \<le> sigA);
                              sigA = (if q \<noteq> 0 then sigA - sigB else sigA)
                          in if 0 < expDiff
                             then
                               let q = ucast (push_bit 32 (ucast sigA :: uint64_t) div ucast sigB) :: uint32_t;
                                   q = drop_bit (nat (32 - expDiff)) q;
                                   sigB = drop_bit 2 sigB;
                                   sigA = push_bit (nat (expDiff - 1)) (drop_bit 1 sigA) - sigB * q
                               in f32_rem_finish signA expB q sigA sigB s
                             else f32_rem_finish signA expB q (drop_bit 2 sigA) (drop_bit 2 sigB) s
                   else
                     let sigA = (if sigB \<le> sigA then sigA - sigB else sigA);
                         sigA64 = push_bit 40 (ucast sigA) :: uint64_t;
                         sigB64 = push_bit 40 (ucast sigB) :: uint64_t
                     in do {
                          (sigA64, expDiff) \<leftarrow> f32_rem_reduce sigB sigB64 sigA64 (expDiff - 64);
                          let expDiff = expDiff + 64;
                          q64 \<leftarrow> softfloat_estimateDiv128To64 sigA64 0 sigB64;
                          let q64 = (if 2 < q64 then q64 - 2 else 0);
                          let q = (ucast (drop_bit (nat (64 - expDiff)) q64) :: uint32_t);
                          let sigB = push_bit 6 sigB;
                          let sigA = ucast (push_bit (nat (expDiff - 1)) (drop_bit 33 sigA64) - ucast (sigB * q));
                          f32_rem_finish signA expB q sigA sigB s
                        })"

definition f64_rem :: "float64_t \<Rightarrow> float64_t \<Rightarrow> fp_state \<Rightarrow> (float64_t \<times> fp_state) option" where
  "f64_rem a b s =
     (let uiA = a;
          signA = signF64UI uiA;
          expA = expF64UI uiA;
          sigA = fracF64UI uiA;
          uiB = b;
          expB = expF64UI uiB;
          sigB = fracF64UI uiB;
          propagateNaN = Some (softfloat_propagateNaNF64UI uiA uiB s);
          invalid = Some (defaultNaNF64UI, softfloat_raiseFlags softfloat_flag_invalid s)
      in if expA = 0x7FF
         then (if sigA \<noteq> 0 \<or> (expB = 0x7FF \<and> sigB \<noteq> 0) then propagateNaN else invalid)
         else if expB = 0x7FF
         then (if sigB \<noteq> 0 then propagateNaN else Some (a, s))
         else if expB = 0 \<and> sigB = 0 then invalid
         else
           let normExpSig = softfloat_normSubnormalF64Sig sigB;
               (expB, sigB) = (if expB = 0 then (es64_exp normExpSig, es64_sig normExpSig) else (expB, sigB))
           in if expA = 0 \<and> sigA = 0 then Some (a, s)
              else
                let normExpSig = softfloat_normSubnormalF64Sig sigA;
                    (expA, sigA) = (if expA = 0 then (es64_exp normExpSig, es64_sig normExpSig) else (expA, sigA));
                    expDiff = expA - expB;
                    sigA = push_bit 11 (sigA OR 0x0010000000000000);
                    sigB = push_bit 11 (sigB OR 0x0010000000000000)
                in if expDiff < -1 then Some (a, s)
                   else
                     let sigA = (if expDiff < 0 then drop_bit 1 sigA else sigA);
                         q = of_bool (sigB \<le> sigA);
                         sigA = (if q \<noteq> 0 then sigA - sigB else sigA)
                     in do {
                          (q, sigA, expDiff) \<leftarrow> f64_rem_reduce sigB q sigA (expDiff - 64);
                          let expDiff = expDiff + 64;
                          if 0 < expDiff
                          then do {
                            q \<leftarrow> softfloat_estimateDiv128To64 sigA 0 sigB;
                            let q = (if 2 < q then q - 2 else 0);
                            let q = drop_bit (nat (64 - expDiff)) q;
                            let sigB = drop_bit 2 sigB;
                            let sigA = push_bit (nat (expDiff - 1)) (drop_bit 1 sigA) - sigB * q;
                            f64_rem_finish signA expB q sigA sigB s
                          }
                          else f64_rem_finish signA expB q (drop_bit 2 sigA) (drop_bit 2 sigB) s
                        })"

end
