(* ===== verification/Float_Convert.thy ===== *)
theory Float_Convert
  imports Format_Contract
begin

text \<open>Conversion between the formats (\<^verbatim>\<open>source/f32_to_f64.c\<close>, \<^verbatim>\<open>source/f64_to_f32.c\<close>).\<close>

section \<open>The routines\<close>

definition f32_to_f64 :: "float32_t \<Rightarrow> fp_state \<Rightarrow> float64_t \<times> fp_state" where
  "f32_to_f64 a s =
     (let uiA = a;
          sign = signF32UI uiA;
          ex = expF32UI uiA;
          sig = fracF32UI uiA
      in if ex = 0xFF
         then if sig \<noteq> 0
              then let (c, s) = softfloat_f32UIToCommonNaN uiA s in (softfloat_commonNaNToF64UI c, s)
              else (packToF64UI sign 0x7FF 0, s)
         else if ex = 0 \<and> sig = 0 then (packToF64UI sign 0 0, s)
         else
           let normExpSig = softfloat_normSubnormalF32Sig sig;
               (ex, sig) = (if ex = 0 then (es32_exp normExpSig - 1, es32_sig normExpSig) else (ex, sig))
           in (packToF64UI sign (ex + 0x380) (push_bit 29 (ucast sig)), s))"

definition f64_to_f32 :: "float64_t \<Rightarrow> fp_state \<Rightarrow> float32_t \<times> fp_state" where
  "f64_to_f32 a s =
     (let uiA = a;
          sign = signF64UI uiA;
          ex = expF64UI uiA;
          sig = fracF64UI uiA
      in if ex = 0x7FF
         then if sig \<noteq> 0
              then let (c, s) = softfloat_f64UIToCommonNaN uiA s in (softfloat_commonNaNToF32UI c, s)
              else (packToF32UI sign 0xFF 0, s)
         else
           let sig32 = ucast (softfloat_shortShift64RightJam sig 22) :: uint32_t
           in if word_of_int ex OR sig32 = 0 then (packToF32UI sign 0 0, s)
              else softfloat_roundPackToF32 sign (ex - 0x381) (sig32 OR 0x40000000) s)"

section \<open>Results far below the least positive number\<close>

text \<open>
  Every magnitude strictly between zero and a quarter of the least positive number is rounded, and
  flagged, alike. This is what makes it harmless that \<open>f64_to_f32\<close> hands a subnormal double to the rounding routine as
  if it were normalised.
\<close>

lemma rounds_tiny:
  assumes "0 < f" and "0 < x" and "x < 1 / 2"
  shows "rounds md (\<lambda>m. real (mval f m)) x m \<longleftrightarrow> m = of_bool (md = Up)"
proof -
  have "(2::nat) ^ 1 \<le> 2 ^ f" using assms(1) by (intro power_increasing) simp_all
  then have "mval f 1 = 1" by (simp add: mval_def)
  with assms have "rounds md (\<lambda>m. real (mval f m)) x (of_bool (md = Up))" by (cases md) simp_all
  then show ?thesis using rounds_unique [OF mval_real_mono] by metis
qed

lemma round_result_tiny:
  assumes "0 < f" and "0 < E" and "0 < x" and "x < 1 / 4" and "0 < y" and "y < 1 / 4"
  shows "round_result f E mode det sign x = round_result f E mode det sign y"
proof -
  let ?md = "mag_mode mode sign" and ?m = "of_bool (mag_mode mode sign = Up) :: nat"
  have r: "rounds ?md (\<lambda>m. real (mval f m)) w m \<longleftrightarrow> m = ?m" if "0 < w" "w < 1 / 2" for w m
    using that assms(1) by (intro rounds_tiny)
  have flags: "except_flags f (E * 2 ^ f) det ?md w ?m =
      softfloat_flag_underflow OR softfloat_flag_inexact" if w: "0 < w" "w < 1 / 4" for w
  proof -
    have p: "(2::nat) ^ 1 \<le> 2 ^ f" using assms(1) by (intro power_increasing) simp_all
    then have "mval f ?m = ?m" by (simp add: mval_def)
    then have "real (mval f ?m) \<noteq> w" using w by auto
    moreover have "?m < E * 2 ^ f"
    proof -
      have "1 * 2 ^ 1 \<le> E * (2::nat) ^ f" by (intro mult_le_mono p) (use assms(2) in simp)
      then have "2 \<le> E * 2 ^ f" by (simp only: power_one_right mult_1)
      then show ?thesis using assms(2) by simp
    qed
    moreover have "tiny_after f ?md w" unfolding tiny_after_def using w p by (auto simp: r intro!: exI [of _ ?m])
    moreover have "w < 2 ^ f"
    proof -
      have "(1::real) \<le> 2 ^ f" by simp
      with w show ?thesis by linarith
    qed
    ultimately show ?thesis by (simp add: except_flags_def)
  qed
  show ?thesis
    unfolding round_result_def fun_eq_iff using assms by (simp add: r flags)
qed

lemma op_rounds_tiny:
  assumes "op_rounds f E zs r s res" and "0 < f" and "0 < E" and "r \<noteq> 0" and "\<bar>r\<bar> < 1 / 4" and "\<bar>r'\<bar> < 1 / 4"
    and "r' \<noteq> 0" and "r' < 0 \<longleftrightarrow> r < 0"
  shows "op_rounds f E zs r' s res"
  using assms round_result_tiny [of f E "\<bar>r\<bar>" "\<bar>r'\<bar>"] by (auto simp: op_rounds_def fl_rounded_def)

lemma op_rounds_unique_exact:
  fixes a :: "'a::len word"
  assumes "op_rounds f E (fl_sign a) (fl_real f a) s res" and "fl_mag a < E * 2 ^ f" and "0 < f"
  shows "res = (a, s)"
proof -
  obtain z t where res: "res = (z, t)" by fastforce
  have r0: "fl_real f a = 0 \<longleftrightarrow> fl_mag a = 0" using mval_eq_iff [of f "fl_mag a" 0] by (auto simp: fl_real_def)
  from assms(1) obtain fl where t: "t = softfloat_raiseFlags fl s" and sz: "fl_sign z = fl_sign a"
    and rr: "round_result f E (softfloat_roundingMode s) (softfloat_detectTininess s) (fl_sign a) (real (mval f (fl_mag a))) (fl_mag z) fl"
    using r0 unfolding op_rounds_def fl_rounded_def res by (auto simp: fl_real_def abs_mult mult_less_0_iff split: if_splits)
  from rr obtain m where m: "rounds (mag_mode (softfloat_roundingMode s) (fl_sign a)) (\<lambda>m. real (mval f m)) (real (mval f (fl_mag a))) m"
      "fl_mag z = clamp_inf (mag_mode (softfloat_roundingMode s) (fl_sign a)) (E * 2 ^ f) m"
      "fl = except_flags f (E * 2 ^ f) (softfloat_detectTininess s) (mag_mode (softfloat_roundingMode s) (fl_sign a))
        (real (mval f (fl_mag a))) m"
    unfolding round_result_def by blast
  have "m = fl_mag a" by (rule rounds_unique [OF mval_real_mono m(1) rounds_exact [OF mval_real_mono]])
  with m(2,3) assms(2) have "fl_mag z = fl_mag a" "fl = 0" by (simp_all add: clamp_inf_def except_flags_def)
  with sz t res show ?thesis by (simp add: fl_word_eqI)
qed

section \<open>Single to double is exact\<close>

lemma f32_to_f64_finite:
  assumes "fl_mag a < 255 * 2 ^ 23"
  obtains z where "f32_to_f64 a s = (z, s)" and "fl_real 52 z = fl_real 23 a * 2 ^ 925"
    and "fl_sign z = fl_sign a" and "fl_mag z < 2047 * 2 ^ 52"
proof (cases "fl_mag a = 0")
  case True
  then have "f32_to_f64 a s = (packToF64UI (fl_sign a) 0 0, s)"
    by (simp add: f32_to_f64_def Let_def f32.zero_iff f32.sign_law)
  moreover have "fl_sign (packToF64UI (fl_sign a) 0 0) = fl_sign a" "fl_mag (packToF64UI (fl_sign a) 0 0) = 0"
    using f64.pack_sign_mag [of 0 0 "fl_sign a"] by simp_all
  ultimately show thesis using True by (intro that [of "packToF64UI (fl_sign a) 0 0"]) (simp_all add: fl_real_def)
next
  case False
  obtain e g where n: "sf32.norm_operand a = (e, g)" by fastforce
  define h where "h = g OR (2 ^ 23 :: uint32_t)"
  note N = sf32.norm_operand [OF False n, folded h_def]
  let ?w = "push_bit 29 (ucast h) :: uint64_t" and ?e = "nat (e + 895)"
  have u: "unat ?w = unat h * 2 ^ 29" by (subst unat_push_bit_small) (use N in \<open>simp_all add: unat_ucast_up\<close>)
  have e: "int ?e = e + 895" "?e + 1 < 2047" using N(4,5) by simp_all
  have w: "2 ^ 52 \<le> unat ?w" "unat ?w < 2 ^ Suc 52" using N(1,2) unfolding u by simp_all
  let ?z = "packToF64UI (fl_sign a) (int ?e) ?w"
  note pk = sf64.pack_normal [OF w e(2), of "fl_sign a"]
  have fin: "expF32UI a \<noteq> 255" using assms f32.finite_iff [of a] by simp
  have nz: "\<not> (expF32UI a = 0 \<and> fracF32UI a = 0)" using False f32.zero_iff [of a] by simp
  have z: "f32_to_f64 a s = (?z, s)"
  proof (cases "expF32UI a = 0")
    case True
    then have eg: "e = es32_exp (softfloat_normSubnormalF32Sig (fracF32UI a))" "g = es32_sig (softfloat_normSubnormalF32Sig (fracF32UI a))"
      using n by (simp_all add: sf32.norm_operand_def)
    obtain c where c: "es32_sig (softfloat_normSubnormalF32Sig (fracF32UI a)) = push_bit c (fracF32UI a)"
      "2 ^ 23 \<le> unat (fracF32UI a) * 2 ^ c" "unat (fracF32UI a) * 2 ^ c < 2 ^ Suc 23"
      using sf32.norm_law [of "fracF32UI a"] nz True f32.frac_range [of a] by auto
    have "unat g = unat (fracF32UI a) * 2 ^ c" unfolding eg c(1) by (rule unat_push_bit_small) (use c in simp)
    then have "h = g" unfolding h_def using c by (intro sf32.or_hidden_absorb) simp_all
    with True fin nz show ?thesis unfolding f32_to_f64_def Let_def e(1)
      by (simp add: f32.sign_law eg add.commute)
  next
    case F: False
    then have eg: "e = expF32UI a" "g = fracF32UI a" using n by (simp_all add: sf32.norm_operand_def)
    have uh: "unat h = unat g + 2 ^ 23" unfolding h_def by (rule or_hidden_bit) (use f32.frac_range [of a] eg in simp_all)
    have ug: "unat (push_bit 29 (ucast g) :: uint64_t) = unat g * 2 ^ 29"
      by (subst unat_push_bit_small) (use f32.frac_range [of a] eg in \<open>simp_all add: unat_ucast_up\<close>)
    have ne: "nat (e + 0x380) = Suc ?e" using N(4) by simp
    have b: "Suc ?e * 2 ^ 52 + unat g * 2 ^ 29 = ?e * 2 ^ 52 + unat h * 2 ^ 29" by (simp add: uh)
    have lim: "?e * 2 ^ 52 + unat h * 2 ^ 29 < 2 ^ (LENGTH(64) - 1)" using e(2) w(2) u by simp
    have p0: "0 \<le> e + 0x380" using N(4) by simp
    note pack = f64.pack_law [OF p0, of "push_bit 29 (ucast g)", unfolded ne ug b, OF lim]
      f64.pack_law [OF of_nat_0_le_iff, of ?e ?w, unfolded nat_int u, OF lim]
    then have "packToF64UI (fl_sign a) (e + 0x380) (push_bit 29 (ucast g)) = ?z" by simp
    then show ?thesis unfolding f32_to_f64_def Let_def using F fin nz eg by (simp add: f32.sign_law)
  qed
  have "real (unat ?w) * 2 ^ ?e = real (mval 23 (fl_mag a)) * 2 ^ 925"
  proof -
    have "real (unat ?w) * 2 ^ ?e = real (unat h) * (2 powi 29 * 2 powi int ?e)"
      by (simp only: u of_nat_mult of_nat_power of_nat_numeral power_int_of_nat power_int_numeral mult.assoc)
    also have "2 powi 29 * 2 powi int ?e = (2::real) powi (e - 1) * 2 powi 925" unfolding e(1) powi_mult by (simp add: algebra_simps)
    finally show ?thesis unfolding N(3) by (simp only: power_int_numeral mult.assoc)
  qed
  then have "fl_real 52 ?z = fl_real 23 a * 2 ^ 925" unfolding pk(3) fl_real_def [of 23] by (simp only: mult.assoc)
  then show thesis using that [OF z] pk by simp
qed

section \<open>Double to single is correctly rounded\<close>

lemma f64_to_f32_finite:
  assumes "fl_mag a < 2047 * 2 ^ 52"
  shows "op_rounds 23 255 (fl_sign a) (fl_real 52 a / 2 ^ 925) s (f64_to_f32 a s)"
proof -
  let ?ex = "expF64UI a" and ?n = "unat (fracF64UI a)"
  define sig32 where "sig32 = (ucast (softfloat_shortShift64RightJam (fracF64UI a) 22) :: uint32_t)"
  have fin: "?ex \<noteq> 2047" "0 \<le> ?ex" "?ex < 2047" using assms f64.finite_iff [of a] f64.exp_range [of a] by simp_all
  have n: "?n < 2 ^ 52" by (rule f64.frac_range)
  have j: "unat sig32 = jam 22 ?n"
  proof -
    have "jam 22 ?n < 2 ^ 30" using n by (simp add: jam_less_even)
    then show ?thesis by (simp add: sig32_def unat_ucast_mod unat_shortShift64RightJam)
  qed
  have jl: "jam 22 ?n < 2 ^ 30" using n by (simp add: jam_less_even)
  have z: "word_of_int ?ex OR sig32 = 0 \<longleftrightarrow> fl_mag a = 0"
  proof -
    have "sig32 = 0 \<longleftrightarrow> fracF64UI a = 0"
      using j jam_eq_0_iff [of 22 ?n] unat_eq_zero [of sig32] unat_eq_zero [of "fracF64UI a"] by metis
    moreover have "uint (word_of_int ?ex :: uint32_t) = ?ex" unfolding uint_word_of_int by (rule mod_pos_pos_trivial) (use fin in simp_all)
    then have "(word_of_int ?ex :: uint32_t) = 0 \<longleftrightarrow> ?ex = 0" by (metis uint_0_iff)
    ultimately show ?thesis by (simp add: or_eq_0_iff f64.zero_iff)
  qed
  show ?thesis
  proof (cases "fl_mag a = 0")
    case True
    then have "f64_to_f32 a s = (packToF32UI (fl_sign a) 0 0, s)"
      using fin z by (simp add: f64_to_f32_def Let_def sig32_def f64.sign_law)
    moreover have "op_rounds 23 255 (fl_sign a) (fl_real 52 a / 2 ^ 925) s (packToF32UI (fl_sign a) 0 0, s)"
      by (rule op_rounds_exact) (use f32.pack_sign_mag [of 0 0 "fl_sign a"] True in \<open>simp_all add: fl_real_def\<close>)
    ultimately show ?thesis by simp
  next
    case False
    define sig where "sig = sig32 OR 2 ^ 30"
    have u: "unat sig = unat sig32 + 2 ^ 30" unfolding sig_def by (rule or_hidden_bit) (use j jl in simp_all)
    define q where "q = real ?n"
    have q: "0 \<le> q" "q < 2 ^ 52" unfolding q_def using n by (simp_all only: of_nat_0_le_iff of_nat_less_numeral_power_cancel_iff)
    let ?X = "real (2 ^ 30) + q / 2 ^ 22"
    define P where "P = ?X * 2 powi (?ex - 0x381 - int 7)"
    define r where "r = (if fl_sign a then - 1 else 1) * P"
    have P: "0 < P" unfolding P_def using q by (intro mult_pos_pos add_pos_nonneg) simp_all
    have ag: "agrees 6 ?X (unat sig)"
      unfolding u j add.commute [of "jam 22 ?n"] q_def
      by (intro agrees_add agrees_jam [OF agrees_refl [of 0]]) (simp_all add: le_imp_power_dvd)
    have "op_rounds 23 255 (fl_sign a) r s (softfloat_roundPackToF32 (fl_sign a) (?ex - 0x381) sig s)"
    proof (rule sf32.roundPack_rounds [of ?X])
      show "\<bar>r\<bar> = ?X * 2 powi (?ex - 0x381 - int 7)" unfolding P_def [symmetric] using P by (simp add: r_def abs_mult)
    qed (use ag P fin jl in \<open>simp_all add: r_def u j\<close>)
    moreover have "f64_to_f32 a s = softfloat_roundPackToF32 (fl_sign a) (?ex - 0x381) sig s"
      using fin z False by (simp add: f64_to_f32_def Let_def sig32_def sig_def f64.sign_law)
    ultimately have res: "op_rounds 23 255 (fl_sign a) r s (f64_to_f32 a s)" by simp
    show ?thesis
    proof (cases "?ex = 0")
      case True
      have "\<bar>r\<bar> = (2 ^ 30 + q / 2 ^ 22) * 2 powi (- 904)" using q P True by (simp add: r_def abs_mult P_def)
      also have "\<dots> < 2 ^ 31 * 2 powi (- 904)" by (rule mult_strict_right_mono) (use q in simp_all)
      also have "\<dots> < 1 / 4" by (simp add: power_int_minus field_simps)
      finally have r4: "\<bar>r\<bar> < 1 / 4" .
      have qn: "q \<noteq> 0" using False True f64.zero_iff [of a] unfolding q_def of_nat_eq_0_iff unat_eq_zero by simp
      have v: "fl_real 52 a = (if fl_sign a then - 1 else 1) * q"
        using f64.mval_subnormal [OF True] unfolding fl_real_def q_def by simp
      show ?thesis
        by (rule op_rounds_tiny [OF res _ _ _ r4])
          (use q qn P in \<open>simp_all add: v r_def\<close>)
    next
      case nz: False
      then have "0 < ?ex" using fin by simp
      note v = f64.mval_normal [OF this]
      have "2 ^ (nat ?ex - 1) = (2::real) powi (?ex - 1)"
        using nz fin powi_minus_nat [of ?ex 1] by (simp add: power_eq_if)
      then have "real (mval 52 (fl_mag a)) / 2 ^ 925 = (2 ^ 52 + q) * (2 powi (?ex - 1) / 2 ^ 925)"
        unfolding v by (simp add: q_def)
      also have "2 powi (?ex - 1) / 2 ^ 925 = (2::real) powi (?ex - 926)" unfolding powi_div by simp
      also have "(2 ^ 52 + q) * 2 powi (?ex - 926) = ?X * (2 ^ 22 * 2 powi (?ex - 926))" by (simp add: algebra_simps)
      also have "2 ^ 22 * 2 powi (?ex - 926) = (2::real) powi (?ex - 0x381 - int 7)"
        using powi_mult [of 22 "?ex - 926"] by (simp add: add.commute [of 22] algebra_simps)
      finally have "real (mval 52 (fl_mag a)) / 2 ^ 925 = P" unfolding P_def .
      then have "fl_real 52 a / 2 ^ 925 = r" by (simp add: fl_real_def r_def)
      with res show ?thesis by simp
    qed
  qed
qed

section \<open>NaNs\<close>

text \<open>A NaN is rebuilt from its sign and the payload below the quiet bit.\<close>

lemma nan_or:
  fixes w :: "'a::len word"
  assumes "odd c" and "unat w < 2 ^ Suc q" and "Suc c * 2 ^ q \<le> 2 ^ (LENGTH('a) - 1)"
  shows "push_bit (LENGTH('a) - 1) (of_bool sign) OR word_of_nat (c * 2 ^ q) OR w = fl_pack sign (c * 2 ^ q + unat w mod 2 ^ q)"
proof -
  define C where "C = c * 2 ^ q"
  let ?c = "word_of_nat C :: 'a word" and ?n = "LENGTH('a) - 1"
  have p: "(2::nat) ^ LENGTH('a) = 2 * 2 ^ ?n" by (simp flip: power_Suc)
  have Cq: "C + 2 ^ q \<le> 2 ^ ?n" using assms(3) by (simp add: C_def)
  moreover have "0 < (2::nat) ^ q" by simp
  ultimately have "C < 2 ^ LENGTH('a)" unfolding p by linarith
  then have uc: "unat ?c = C" by (simp add: unat_of_nat)
  have "?c OR w = ?c OR take_bit q w"
  proof (rule bit_word_eqI)
    fix i assume "i < LENGTH('a)"
    then have bc: "bit ?c i \<longleftrightarrow> q \<le> i \<and> bit c (i - q)"
    proof -
      have "bit ?c i \<longleftrightarrow> bit C i" using bit_unsigned_iff [where 'a = nat, of ?c i] \<open>i < LENGTH('a)\<close> unfolding uc by simp
      also have "\<dots> \<longleftrightarrow> q \<le> i \<and> bit c (i - q)" by (simp add: C_def bit_push_bit_iff flip: push_bit_eq_mult)
      finally show ?thesis .
    qed
    have "\<not> bit w i" if "q < i"
    proof -
      have "(2::nat) ^ Suc q \<le> 2 ^ i" using that by (intro power_increasing) simp_all
      then have "unat w div 2 ^ i = 0" using assms(2) by simp
      then have "\<not> bit (unat w) i" by (simp add: bit_iff_odd)
      then show ?thesis using \<open>i < LENGTH('a)\<close> by (simp add: bit_unsigned_iff)
    qed
    then show "bit (?c OR w) i \<longleftrightarrow> bit (?c OR take_bit q w) i"
      using bc assms(1) by (cases i q rule: linorder_cases) (auto simp: bit_or_iff bit_take_bit_iff bit_0)
  qed
  moreover have "unat (?c OR take_bit q w) = C + unat w mod 2 ^ q"
    using unat_or_disjoint [of q ?c "take_bit q w"] dvd_triv_right [of "2 ^ q" c, folded C_def] by (simp add: uc unat_take_bit_mod)
  ultimately have u: "unat (?c OR w) = C + unat w mod 2 ^ q" by simp
  have m: "C + unat w mod 2 ^ q < 2 ^ ?n" by (rule less_le_trans [OF _ Cq]) simp
  let ?s = "push_bit ?n (of_bool sign) :: 'a word"
  have s: "unat ?s = of_bool sign * 2 ^ ?n" using fl_sign_pack(3) [of 0, where 'a = 'a and sign = sign] by (simp add: fl_pack_def)
  have "unat (?s OR (?c OR w)) = of_bool sign * 2 ^ ?n + (C + unat w mod 2 ^ q)"
    using unat_or_disjoint [of ?n ?s "?c OR w"] m unfolding u s by simp
  also have "\<dots> = unat (fl_pack sign (C + unat w mod 2 ^ q) :: 'a word)" by (rule fl_sign_pack(3) [OF m, symmetric])
  finally have "?s OR (?c OR w) = fl_pack sign (C + unat w mod 2 ^ q)" by (simp only: word_unat_eq_iff)
  then show ?thesis unfolding C_def by (simp only: or.assoc)
qed

lemma f32_to_f64_nan:
  assumes "fl_nan 23 255 a"
  shows "f32_to_f64 a s =
    (fl_pack (fl_sign a) (0xFFF * 2 ^ 51 + fl_mag a mod 2 ^ 22 * 2 ^ 29),
     if fl_snan 23 255 a then softfloat_raiseFlags softfloat_flag_invalid s else s)"
proof -
  have n: "expF32UI a = 255" "fracF32UI a \<noteq> 0" using assms f32.nan_iff [of a] by (simp_all add: fl_nan_def)
  let ?w = "drop_bit 12 (push_bit 41 (ucast a)) :: uint64_t"
  have w: "unat ?w = unat a mod 2 ^ 23 * 2 ^ 29"
  proof -
    have "unat a * 2 ^ 41 mod 2 ^ 64 = unat a mod 2 ^ 23 * 2 ^ 41" using mult_mod_left [of "unat a" "2 ^ 23" "2 ^ 41"] by simp
    then show ?thesis by (simp add: unat_drop_bit_div unat_push_bit_mod unat_ucast_up)
  qed
  have "unat ?w mod 2 ^ 51 = unat a mod 2 ^ 23 mod 2 ^ 22 * 2 ^ 29"
    unfolding w using mult_mod_left [of "unat a mod 2 ^ 23" "2 ^ 22" "2 ^ 29"] by simp
  also have "unat a mod 2 ^ 23 mod 2 ^ 22 = fl_mag a mod 2 ^ 22" unfolding fl_mag_def by (simp add: mod_mod_cancel)
  finally have m: "unat ?w mod 2 ^ 51 = fl_mag a mod 2 ^ 22 * 2 ^ 29" .
  have "unat ?w < 2 ^ Suc 51" unfolding w using mod_less_divisor [of "2 ^ 23" "unat a"] by simp
  from nan_or [of "0xFFF" ?w 51 "fl_sign a", OF _ this] m sign_div [of a] show ?thesis
    unfolding f32_to_f64_def Let_def softfloat_f32UIToCommonNaN_def softfloat_commonNaNToF64UI_def isSigNaNF32UI_law
    using n by (simp add: f32.sign_law)
qed

lemma f64_to_f32_nan:
  assumes "fl_nan 52 2047 a"
  shows "f64_to_f32 a s =
    (fl_pack (fl_sign a) (0x1FF * 2 ^ 22 + fl_mag a div 2 ^ 29 mod 2 ^ 22),
     if fl_snan 52 2047 a then softfloat_raiseFlags softfloat_flag_invalid s else s)"
proof -
  have n: "expF64UI a = 2047" "fracF64UI a \<noteq> 0" using assms f64.nan_iff [of a] by (simp_all add: fl_nan_def)
  let ?w = "ucast (drop_bit 41 (push_bit 12 a)) :: uint32_t"
  have w: "unat ?w = unat a mod 2 ^ 52 div 2 ^ 29"
  proof -
    have "unat a * 2 ^ 12 mod 2 ^ 64 = unat a mod 2 ^ 52 * 2 ^ 12" using mult_mod_left [of "unat a" "2 ^ 52" "2 ^ 12"] by simp
    then have "unat (drop_bit 41 (push_bit 12 a)) = unat a mod 2 ^ 52 * 2 ^ 12 div 2 ^ 41"
      by (simp add: unat_drop_bit_div unat_push_bit_mod)
    also have "\<dots> = unat a mod 2 ^ 52 div 2 ^ 29" using div_mult_mult2 [of "2 ^ 12" "unat a mod 2 ^ 52" "2 ^ 29"] by simp
    finally show ?thesis by (simp add: unat_ucast_mod less_mult_imp_div_less)
  qed
  have m: "unat ?w mod 2 ^ 22 = fl_mag a div 2 ^ 29 mod 2 ^ 22"
  proof -
    have d: "u mod (2 ^ 29 * k) div 2 ^ 29 = u div 2 ^ 29 mod k" for u k :: nat by (simp add: mod_mult2_eq)
    show ?thesis unfolding w fl_mag_def using d [of "unat a" "2 ^ 23"] d [of "unat a" "2 ^ 34"] by (simp add: mod_mod_cancel)
  qed
  have "unat ?w < 2 ^ Suc 22" unfolding w using mod_less_divisor [of "2 ^ 52" "unat a"] by (simp add: less_mult_imp_div_less)
  from nan_or [of "0x1FF" ?w 22 "fl_sign a", OF _ this] m sign_div [of a] show ?thesis
    unfolding f64_to_f32_def Let_def softfloat_f64UIToCommonNaN_def softfloat_commonNaNToF32UI_def isSigNaNF64UI_law
    using n by (simp add: f64.sign_law)
qed

lemma fl_quiet_mag:
  fixes a :: "'a::len word"
  assumes "0 < f" and "f < LENGTH('a)"
  shows "fl_mag (fl_quiet f a) = fl_mag a + of_bool (even (fl_mag a div 2 ^ (f - 1))) * 2 ^ (f - 1)"
proof -
  let ?n = "LENGTH('a) - 1"
  have "unat (push_bit (f - 1) 1 :: 'a word) = 2 ^ (f - 1)" using assms by (subst unat_push_bit_small) simp_all
  moreover have "take_bit ?n ((2::nat) ^ (f - 1)) = 2 ^ (f - 1)" using assms by (simp add: take_bit_nat_eq_self_iff)
  ultimately have "fl_mag (fl_quiet f a) = fl_mag a OR push_bit (f - 1) 1"
    unfolding fl_mag_def fl_quiet_def unsigned_or_eq by (simp add: push_bit_of_1 flip: take_bit_eq_mod)
  also have "\<dots> = fl_mag a + of_bool (\<not> bit (fl_mag a) (f - 1)) * 2 ^ (f - 1)"
    unfolding set_bit_eq_or [symmetric] by (rule set_bit_eq)
  finally show ?thesis by (simp add: bit_iff_odd)
qed

lemma f32_quiet:
  assumes "fl_nan 23 255 a"
  shows "fl_quiet 23 a = (fl_pack (fl_sign a) (0x1FF * 2 ^ 22 + fl_mag a mod 2 ^ 22) :: uint32_t)"
proof (rule fl_word_eqI)
  let ?m = "0x1FF * 2 ^ 22 + fl_mag a mod 2 ^ 22"
  have "?m < 2 ^ (LENGTH(32) - 1)" using mod_less_divisor [of "2 ^ 22" "fl_mag a"] by simp
  note pk = fl_sign_pack [OF this, of "fl_sign a"]
  show "fl_sign (fl_quiet 23 a) = fl_sign (fl_pack (fl_sign a) ?m :: uint32_t)"
    using fl_quiet_laws(3) [of 23 255 a] assms pk(1) by simp
  have m: "255 * 2 ^ 23 < fl_mag a" "fl_mag a < 2 ^ 31" using assms by (simp_all add: fl_nan_def fl_mag_def)
  then have "fl_mag a div 2 ^ 22 = 510 \<or> fl_mag a div 2 ^ 22 = 511" by auto
  moreover define q r where "q = fl_mag a div 2 ^ 22" and "r = fl_mag a mod 2 ^ 22"
  moreover have "fl_mag a = q * 2 ^ 22 + r" unfolding q_def r_def by (rule div_mult_mod_eq [symmetric])
  ultimately have "fl_mag a + of_bool (even (fl_mag a div 2 ^ 22)) * 2 ^ 22 = ?m"
    unfolding q_def [symmetric] r_def [symmetric] by auto
  then show "fl_mag (fl_quiet 23 a) = fl_mag (fl_pack (fl_sign a) ?m :: uint32_t)"
    using fl_quiet_mag [of 23 a] pk(2) by simp
qed

lemma f32_to_f64_inf:
  assumes "fl_mag a = 255 * 2 ^ 23"
  shows "f32_to_f64 a s = (fl_pack (fl_sign a) (2047 * 2 ^ 52), s)"
  using assms f32.inf_iff [of a] f64.pack_law [of 2047 0 "fl_sign a"] by (simp add: f32_to_f64_def Let_def f32.sign_law)

lemma f64_to_f32_inf:
  assumes "fl_mag a = 2047 * 2 ^ 52"
  shows "f64_to_f32 a s = (fl_pack (fl_sign a) (255 * 2 ^ 23), s)"
  using assms f64.inf_iff [of a] f32.pack_law [of 255 0 "fl_sign a"] by (simp add: f64_to_f32_def Let_def f64.sign_law)

section \<open>The conversions\<close>

text \<open>
  Property C10: converting a finite single-precision number to double precision is exact: it denotes the same
  real number with the same sign (the units of the two formats differ by \<open>2 ^ 925\<close>), is finite, and changes
  nothing of the state.
\<close>

theorem f32_to_f64_exact:
  assumes "fl_mag a < 255 * 2 ^ 23"
  shows "snd (f32_to_f64 a s) = s \<and> fl_mag (fst (f32_to_f64 a s)) < 2047 * 2 ^ 52 \<and>
    fl_sign (fst (f32_to_f64 a s)) = fl_sign a \<and> fl_real 52 (fst (f32_to_f64 a s)) = fl_real 23 a * 2 ^ 925"
  by (rule f32_to_f64_finite [OF assms, of s]) simp

theorem f32_to_f64_exact_witness:
  "fl_real 52 (fst (f32_to_f64 1 init_state)) = fl_real 23 (1 :: uint32_t) * 2 ^ 925 \<and>
   f32_to_f64 1 init_state = (0x36A0000000000000, init_state)"
proof
  show "fl_real 52 (fst (f32_to_f64 1 init_state)) = fl_real 23 (1 :: uint32_t) * 2 ^ 925"
    using f32_to_f64_exact [of 1 init_state] by (simp add: fl_mag_def)
  show "f32_to_f64 1 init_state = (0x36A0000000000000, init_state)" by code_simp
qed

text \<open>
  Property C11: converting a finite double-precision number to single precision delivers its real value correctly
  rounded in the current mode, overflow and underflow included, with exactly the flags that result calls for.
\<close>

theorem f64_to_f32_correct:
  assumes "fl_mag a < 2047 * 2 ^ 52"
  shows "op_rounds 23 255 (fl_sign a) (fl_real 52 a / 2 ^ 925) s (f64_to_f32 a s)"
  using assms by (rule f64_to_f32_finite)

theorem f64_to_f32_correct_witness:
  "op_rounds 23 255 False (fl_real 52 (0x3FB999999999999A :: uint64_t) / 2 ^ 925) init_state (f64_to_f32 0x3FB999999999999A init_state) \<and>
   fst (f64_to_f32 0x3FB999999999999A init_state) = 0x3DCCCCCD"
proof
  show "op_rounds 23 255 False (fl_real 52 (0x3FB999999999999A :: uint64_t) / 2 ^ 925) init_state (f64_to_f32 0x3FB999999999999A init_state)"
    using f64_to_f32_correct [of "0x3FB999999999999A" init_state] by (simp add: fl_mag_def fl_sign_def)
  show "fst (f64_to_f32 0x3FB999999999999A init_state) = 0x3DCCCCCD" by code_simp
qed

text \<open>
  Property C12: converting any single-precision number to double precision and back returns it unchanged and raises no
  further flag; a signalling NaN comes back quiet, with the same sign and payload.
\<close>

theorem f32_f64_roundtrip:
  "f64_to_f32 (fst (f32_to_f64 a s)) t = (if fl_nan 23 255 a then fl_quiet 23 a else a, t)"
proof -
  consider (finite) "fl_mag a < 255 * 2 ^ 23" | (inf) "fl_mag a = 255 * 2 ^ 23" | (nan) "fl_nan 23 255 a"
    unfolding fl_nan_def by linarith
  then show ?thesis
  proof cases
    case finite
    from f32_to_f64_finite [OF finite, of s] obtain z where z: "f32_to_f64 a s = (z, s)"
      "fl_real 52 z = fl_real 23 a * 2 ^ 925" "fl_sign z = fl_sign a" "fl_mag z < 2047 * 2 ^ 52" .
    from z(2) have r: "fl_real 52 z / 2 ^ 925 = fl_real 23 a" by simp
    have "f64_to_f32 z t = (a, t)"
      by (rule op_rounds_unique_exact [OF f64_to_f32_finite [OF z(4), unfolded z(3) r] finite]) simp
    with z(1) finite show ?thesis by (simp add: fl_nan_def)
  next
    case inf
    let ?z = "fl_pack (fl_sign a) (2047 * 2 ^ 52) :: uint64_t"
    have "fl_sign ?z = fl_sign a" "fl_mag ?z = 2047 * 2 ^ 52" by (rule fl_sign_pack; simp)+
    with f64_to_f32_inf [of ?z t] have "f64_to_f32 ?z t = (a, t)"
      using fl_pack_unpack [of a] unfolding inf by simp
    with inf show ?thesis by (simp add: f32_to_f64_inf fl_nan_def)
  next
    case nan
    let ?m = "0xFFF * 2 ^ 51 + fl_mag a mod 2 ^ 22 * 2 ^ 29"
    let ?z = "fl_pack (fl_sign a) ?m :: uint64_t"
    have "?m < 2 ^ (LENGTH(64) - 1)" using mod_less_divisor [of "2 ^ 22" "fl_mag a"] by simp
    note pk = fl_sign_pack [OF this, of "fl_sign a"]
    have "fl_nan 52 2047 ?z" "\<not> fl_snan 52 2047 ?z" unfolding fl_nan_def fl_snan_def pk by simp_all
    moreover have "?m div 2 ^ 29 mod 2 ^ 22 = fl_mag a mod 2 ^ 22"
    proof -
      have "?m = (0xFFF * 2 ^ 22 + fl_mag a mod 2 ^ 22) * 2 ^ 29" by simp
      then have "?m div 2 ^ 29 = 0xFFF * 2 ^ 22 + fl_mag a mod 2 ^ 22" by (metis nonzero_mult_div_cancel_right power_not_zero zero_neq_numeral)
      moreover have "(0xFFF * 2 ^ 22 + k mod 2 ^ 22) mod 2 ^ 22 = k mod 2 ^ 22" for k :: nat by (simp only: mod_mult_self3 mod_mod_trivial)
      ultimately show ?thesis by simp
    qed
    ultimately have "f64_to_f32 ?z t = (fl_quiet 23 a, t)" using f64_to_f32_nan [of ?z t] unfolding pk f32_quiet [OF nan] by simp
    with nan show ?thesis by (simp add: f32_to_f64_nan)
  qed
qed

text \<open>
  Property C13: infinities and NaNs across the formats. Infinity becomes infinity of the same sign; a NaN becomes a quiet NaN of
  the same sign with the upper bits of its payload, and raises invalid exactly when it was signalling.
\<close>

theorem convert_special:
  assumes "255 * 2 ^ 23 \<le> fl_mag a" and "2047 * 2 ^ 52 \<le> fl_mag b"
  shows "f32_to_f64 a s =
      (if fl_nan 23 255 a
       then (fl_pack (fl_sign a) (0xFFF * 2 ^ 51 + fl_mag a mod 2 ^ 22 * 2 ^ 29),
             if fl_snan 23 255 a then softfloat_raiseFlags softfloat_flag_invalid s else s)
       else (fl_pack (fl_sign a) (2047 * 2 ^ 52), s)) \<and>
    f64_to_f32 b s =
      (if fl_nan 52 2047 b
       then (fl_pack (fl_sign b) (0x1FF * 2 ^ 22 + fl_mag b div 2 ^ 29 mod 2 ^ 22),
             if fl_snan 52 2047 b then softfloat_raiseFlags softfloat_flag_invalid s else s)
       else (fl_pack (fl_sign b) (255 * 2 ^ 23), s))"
  using assms f32_to_f64_nan [of a s] f64_to_f32_nan [of b s] f32_to_f64_inf [of a s] f64_to_f32_inf [of b s]
  unfolding fl_nan_def by (auto simp: not_less)

theorem convert_special_witness:
  "f32_to_f64 0x7F800001 init_state = (fl_pack False (0xFFF * 2 ^ 51 + 2 ^ 29), softfloat_raiseFlags softfloat_flag_invalid init_state) \<and>
   f64_to_f32 0xFFF0000000000000 init_state = (fl_pack True (255 * 2 ^ 23), init_state)"
  using convert_special [of "0x7F800001" "0xFFF0000000000000" init_state]
  by (simp add: fl_mag_def fl_nan_def fl_snan_def fl_sign_def)

end
