(* ===== verification/Float_Rem_Correct.thy ===== *)
theory Float_Rem_Correct
  imports Float_Rem Float_Convert Division_Estimate
begin

text \<open>
  Correctness of the remainder. \<open>ieee_rem\<close> is the specification: the result is exactly \<open>a - n * b\<close> for the integer \<open>n\<close>
  nearest to the quotient, the even one in case of a tie. The routines reduce the dividend modulo a scaled divisor in
  steps of 62 bits with quotient digits that may be two too small; \<open>rem_reduces\<close> states what the reduction guarantees,
  and the last loop repairs the digit, counts the parity of the quotient and picks the nearest multiple.
\<close>

section \<open>The specification\<close>

definition ieee_rem :: "nat \<Rightarrow> 'a::len word \<Rightarrow> 'a word \<Rightarrow> 'a word \<Rightarrow> bool" where
  "ieee_rem f a b z \<longleftrightarrow>
     (\<exists>n::int. \<bar>fl_real f a / fl_real f b - of_int n\<bar> \<le> 1 / 2 \<and>
        (\<bar>fl_real f a / fl_real f b - of_int n\<bar> = 1 / 2 \<longrightarrow> even n) \<and>
        fl_real f z = fl_real f a - of_int n * fl_real f b \<and>
        (fl_real f z = 0 \<longrightarrow> fl_sign z = fl_sign a))"

text \<open>It is enough to find the nearest multiple of the magnitudes.\<close>

lemma ieee_remI:
  fixes a b z :: "'a::len word"
  assumes b: "fl_mag b \<noteq> 0"
    and n: "2 * \<bar>int (mval f (fl_mag a)) - int n * int (mval f (fl_mag b))\<bar> \<le> int (mval f (fl_mag b))"
    and tie: "2 * \<bar>int (mval f (fl_mag a)) - int n * int (mval f (fl_mag b))\<bar> = int (mval f (fl_mag b)) \<Longrightarrow> even n"
    and z: "fl_real f z = (if fl_sign a then - 1 else 1) * (real (mval f (fl_mag a)) - real n * real (mval f (fl_mag b)))"
      "fl_real f z = 0 \<longrightarrow> fl_sign z = fl_sign a"
  shows "ieee_rem f a b z"
proof -
  define A B where "A = mval f (fl_mag a)" and "B = mval f (fl_mag b)"
  define sg :: "bool \<Rightarrow> int" where "sg = (\<lambda>g. if g then - 1 else 1)"
  define N where "N = sg (fl_sign a) * sg (fl_sign b) * int n"
  have B: "0 < real B" using b by (simp add: B_def mval_pos_iff)
  have r: "fl_real f a = of_int (sg (fl_sign a)) * real A" "fl_real f b = of_int (sg (fl_sign b)) * real B"
    by (simp_all add: fl_real_def A_def B_def sg_def)
  have q: "fl_real f a / fl_real f b = of_int (sg (fl_sign a) * sg (fl_sign b)) * (real A / real B)"
    unfolding r by (simp add: sg_def)
  have "fl_real f a / fl_real f b - of_int N = of_int (sg (fl_sign a) * sg (fl_sign b)) * (real A / real B - real n)"
    unfolding q N_def by (simp add: algebra_simps)
  then have "\<bar>fl_real f a / fl_real f b - of_int N\<bar> = \<bar>real A / real B - real n\<bar>"
    by (simp add: abs_mult sg_def)
  also have "\<dots> = \<bar>real A - real n * real B\<bar> / real B"
  proof -
    have "real A / real B - real n = (real A - real n * real B) / real B" using B by (simp add: field_simps)
    then show ?thesis using B by (simp add: abs_divide)
  qed
  finally have d: "\<bar>fl_real f a / fl_real f b - of_int N\<bar> = \<bar>real A - real n * real B\<bar> / real B" .
  have i: "\<bar>real A - real n * real B\<bar> = real_of_int \<bar>int A - int n * int B\<bar>" by simp
  have "2 * \<bar>real A - real n * real B\<bar> \<le> real B"
    unfolding i using n [folded A_def B_def] by (metis (mono_tags) of_int_le_iff of_int_mult of_int_numeral of_int_of_nat_eq)
  then have near: "\<bar>fl_real f a / fl_real f b - of_int N\<bar> \<le> 1 / 2" unfolding d using B by (simp add: field_simps)
  have "even N" if "\<bar>fl_real f a / fl_real f b - of_int N\<bar> = 1 / 2"
  proof -
    from that have "2 * \<bar>real A - real n * real B\<bar> = real B" unfolding d using B by (simp add: field_simps)
    then have "2 * \<bar>int A - int n * int B\<bar> = int B"
      unfolding i by (metis (mono_tags) of_int_eq_iff of_int_mult of_int_numeral of_int_of_nat_eq)
    then have "even n" using tie by (simp add: A_def B_def)
    then show ?thesis by (simp add: N_def)
  qed
  moreover have "fl_real f z = fl_real f a - of_int N * fl_real f b"
    using z(1) [folded A_def B_def] unfolding r N_def by (auto simp: sg_def algebra_simps)
  ultimately show ?thesis unfolding ieee_rem_def using near z(2) by blast
qed

section \<open>Numbers a format can hold\<close>

lemma mval_exists:
  assumes "k < 2 ^ Suc f"
  shows "\<exists>m. mval f m = k * 2 ^ e"
  using assms
proof (induction e arbitrary: k)
  case 0
  show ?case using mval_scaled [of 0 f k] 0 by (intro exI [of _ k]) simp
next
  case (Suc e)
  show ?case
  proof (cases "k < 2 ^ f")
    case True
    then show ?thesis using Suc.IH [of "2 * k"] by (simp add: mult_ac)
  next
    case False
    then show ?thesis using mval_scaled [of "Suc e" f k] Suc.prems by (intro exI [of _ "Suc e * 2 ^ f + k"]) auto
  qed
qed

section \<open>The last loop\<close>

text \<open>The statements from the \<^verbatim>\<open>do\<close> loop to the sign of the result, for any width.\<close>

definition rem_pick :: "'a::len word \<Rightarrow> 'a word \<Rightarrow> 'a word \<Rightarrow> (bool \<times> 'a word) option" where
  "rem_pick q sigA sigB =
     (let step = (\<lambda>(q, alternateSigA, sigA). (q + 1, sigA, sigA - sigB))
      in do {
           (q, alternateSigA, sigA) \<leftarrow>
             while_option (\<lambda>(q, alternateSigA, sigA). sigA < 2 ^ (LENGTH('a) - 1)) step (step (q, 0, sigA));
           let sigMean = sigA + alternateSigA;
           let sigA = (if 2 ^ (LENGTH('a) - 1) \<le> sigMean \<or> (sigMean = 0 \<and> q AND 1 \<noteq> 0) then alternateSigA else sigA);
           let signZ = (2 ^ (LENGTH('a) - 1) \<le> sigA);
           Some (signZ, if signZ then - sigA else sigA)
         })"

lemma top_bit_neg:
  assumes "- (2 ^ (LENGTH('a) - 1)) \<le> i" and "i < 2 ^ (LENGTH('a) - 1)"
  shows "(2 ^ (LENGTH('a) - 1) :: 'a::len word) \<le> word_of_int i \<longleftrightarrow> i < 0"
proof -
  define P :: int where "P = 2 ^ (LENGTH('a) - 1)"
  have p: "(2::int) ^ LENGTH('a) = 2 * P" by (simp add: P_def flip: power_Suc)
  have "uint (2 ^ (LENGTH('a) - 1) :: 'a word) = P" 
    using unat_pow2_word [of "LENGTH('a) - 1", where 'a = 'a] by (simp add: P_def uint_nat)
  moreover have "uint (word_of_int i :: 'a word) = (if i < 0 then i + 2 * P else i)"
  proof -
    have "i mod (2 * P) = (i + 2 * P) mod (2 * P)" by simp
    moreover have "(i + 2 * P) mod (2 * P) = i + 2 * P" if "i < 0" using that assms by (intro mod_pos_pos_trivial) (simp_all add: P_def)
    moreover have "i mod (2 * P) = i" if "\<not> i < 0" using that assms by (intro mod_pos_pos_trivial) (simp_all add: P_def)
    ultimately show ?thesis by (simp add: uint_word_of_int p)
  qed
  ultimately show ?thesis using assms unfolding word_le_def P_def [symmetric] by auto
qed

lemma below_top: "A < 2 ^ (LENGTH('a) - 1) \<longleftrightarrow> unat A < 2 ^ (LENGTH('a) - 1)" for A :: "'a::len word"
  unfolding word_less_nat_alt by (subst unat_pow2_word) simp_all

lemma unat_abs_word:
  assumes "\<bar>i\<bar> < 2 ^ LENGTH('a)"
  shows "int (unat (if i < 0 then - word_of_int i else word_of_int i :: 'a::len word)) = \<bar>i\<bar>"
proof -
  have "(if i < 0 then - word_of_int i else word_of_int i :: 'a word) = word_of_int \<bar>i\<bar>" by simp
  then show ?thesis using unat_word_of_int_nat [of "\<bar>i\<bar>", where 'a = 'a] assms by simp
qed

lemma word_of_int_zero_iff:
  assumes "\<bar>i\<bar> < 2 ^ LENGTH('a)"
  shows "(word_of_int i :: 'a::len word) = 0 \<longleftrightarrow> i = 0"
  using unat_abs_word [OF assms] by (auto split: if_splits)

lemma subtract_loop:
  fixes A B q alt :: "'a::len word"
  assumes B: "0 < unat B" "unat B < 2 ^ (LENGTH('a) - 1)" and A: "unat A < 2 ^ (LENGTH('a) - 1)"
  shows "while_option (\<lambda>(q, alt, A). A < 2 ^ (LENGTH('a) - 1)) (\<lambda>(q, alt, A). (q + 1, A, A - B)) (q, alt, A) =
    Some (q + of_nat (unat A div unat B + 1), of_nat (unat A mod unat B), of_nat (unat A mod unat B) - B)"
  using A
proof (induction "unat A" arbitrary: q alt A rule: less_induct)
  case less
  have "A < 2 ^ (LENGTH('a) - 1)" using less.prems by (simp only: below_top)
  then have step: "while_option (\<lambda>(q, alt, A). A < 2 ^ (LENGTH('a) - 1)) (\<lambda>(q, alt, A). (q + 1, A, A - B)) (q, alt, A) =
      while_option (\<lambda>(q, alt, A). A < 2 ^ (LENGTH('a) - 1)) (\<lambda>(q, alt, A). (q + 1, A, A - B)) (q + 1, A, A - B)"
    by (subst while_option_unfold) simp
  show ?case
  proof (cases "unat A < unat B")
    case True
    have "A - B = word_of_int (int (unat A) - int (unat B))" by simp
    moreover have "(2 ^ (LENGTH('a) - 1) :: 'a word) \<le> word_of_int (int (unat A) - int (unat B))"
    proof (rule top_bit_neg [THEN iffD2])
      have lt: "int (unat A) - int (unat B) < 0" using True by (simp only: of_nat_less_iff diff_less_0_iff_less)
      then show "int (unat A) - int (unat B) < 0" .
      have "int (unat B) < 2 ^ (LENGTH('a) - 1)" using B(2) by (simp only: of_nat_less_numeral_power_cancel_iff)
      then show "- (2 ^ (LENGTH('a) - 1)) \<le> int (unat A) - int (unat B)" by linarith
      show "int (unat A) - int (unat B) < 2 ^ (LENGTH('a) - 1)" using lt by (rule less_le_trans) simp
    qed
    ultimately have "\<not> A - B < 2 ^ (LENGTH('a) - 1)" by (simp only: not_less)
    then show ?thesis unfolding step by (subst while_option_unfold) (simp add: True)
  next
    case False
    then have u: "unat (A - B) = unat A - unat B" by (intro unat_sub_le) (simp add: word_le_nat_alt)
    have "unat (A - B) < unat A" "unat (A - B) < 2 ^ (LENGTH('a) - 1)" unfolding u using False B(1) less.prems by simp_all
    from less.hyps [OF this, of "q + 1" A] show ?thesis
      unfolding step u using False B(1) by (simp add: le_div_geq le_mod_geq)
  qed
qed

lemma do_subtract_loop:
  fixes A B q :: "'a::len word"
  assumes B: "0 < unat B" "2 * unat B \<le> 2 ^ (LENGTH('a) - 1)" and A: "unat A < 3 * unat B"
  shows "while_option (\<lambda>(q, alt, A). A < 2 ^ (LENGTH('a) - 1)) (\<lambda>(q, alt, A). (q + 1, A, A - B)) (q + 1, A, A - B) =
    Some (q + of_nat (unat A div unat B + 1), of_nat (unat A mod unat B), of_nat (unat A mod unat B) - B)"
proof (cases "unat A < 2 ^ (LENGTH('a) - 1)")
  case True
  have "A < 2 ^ (LENGTH('a) - 1)" using True by (simp only: below_top)
  then have "while_option (\<lambda>(q, alt, A). A < 2 ^ (LENGTH('a) - 1)) (\<lambda>(q, alt, A). (q + 1, A, A - B)) (q, 0, A) =
      while_option (\<lambda>(q, alt, A). A < 2 ^ (LENGTH('a) - 1)) (\<lambda>(q, alt, A). (q + 1, A, A - B)) (q + 1, A, A - B)"
    by (subst while_option_unfold) simp
  then show ?thesis using subtract_loop [OF B(1) _ True, of q 0] B by simp
next
  case False
  then have "unat B \<le> unat A" using B by linarith
  then have u: "unat (A - B) = unat A - unat B" by (intro unat_sub_le) (simp add: word_le_nat_alt)
  have "unat (A - B) < 2 ^ (LENGTH('a) - 1)" unfolding u using A B by linarith
  moreover have "unat B < 2 ^ (LENGTH('a) - 1)" using B by linarith
  ultimately show ?thesis using subtract_loop [of B "A - B" "q + 1" A] \<open>unat B \<le> unat A\<close> B(1)
    unfolding u by (simp add: le_div_geq le_mod_geq)
qed

text \<open>
  The statements after the loop pick the multiple nearest to the dividend, the even one in a tie, provided \<open>q\<close> has the parity of
  the multiple \<open>n\<close> already subtracted.
\<close>

lemma rem_pick_nearest:
  fixes A B q :: "'a::len word"
  assumes B: "0 < unat B" "2 * unat B \<le> 2 ^ (LENGTH('a) - 1)" and A: "unat A < 3 * unat B" and q: "odd (unat q) \<longleftrightarrow> odd n"
  shows "\<exists>N z. let R = int (n * unat B + unat A) - int N * int (unat B)
     in rem_pick q A B = Some (R < 0, z) \<and> int (unat z) = \<bar>R\<bar> \<and> 2 * \<bar>R\<bar> \<le> int (unat B) \<and> (2 * \<bar>R\<bar> = int (unat B) \<longrightarrow> even N)"
proof -
  define k r b where "k = unat A div unat B" and "r = unat A mod unat B" and "b = unat B"
  have rb: "r < b" "0 < b" using B(1) by (simp_all add: r_def b_def)
  have a: "unat A = k * b + r" unfolding k_def r_def b_def by simp
  have P: "2 * int b \<le> 2 ^ (LENGTH('a) - 1)" using B(2) unfolding b_def by (metis of_nat_le_iff of_nat_mult of_nat_numeral of_nat_power)
  then have P': "2 * int b < 2 ^ LENGTH('a)" by (rule le_less_trans) simp
  have ri: "0 \<le> int r" "int r < int b" using rb by simp_all
  define M where "M = (2 * r < b \<or> 2 * r = b \<and> even (n + k))"
  define c where "c = (if M then int r else int r - int b)"
  have mean: "of_nat r - B + of_nat r = (word_of_int (2 * int r - int b) :: 'a word)" by (simp add: b_def)
  have m1: "(2 ^ (LENGTH('a) - 1) :: 'a word) \<le> of_nat r - B + of_nat r \<longleftrightarrow> 2 * r < b"
    unfolding mean by (subst top_bit_neg) (use P rb in auto)
  have m2: "of_nat r - B + of_nat r = (0 :: 'a word) \<longleftrightarrow> 2 * r = b"
  proof -
    have "(word_of_int (2 * int r - int b) :: 'a word) = 0 \<longleftrightarrow> 2 * int r - int b = 0"
      by (rule word_of_int_zero_iff) (use P' ri in linarith)
    then show ?thesis unfolding mean by linarith
  qed
  have m3: "(q + of_nat (k + 1)) AND 1 \<noteq> 0 \<longleftrightarrow> even (n + k)"
    using q by (simp add: and_one_eq mod_2_eq_odd even_unat_iff)
  have "(if (2 ^ (LENGTH('a) - 1) :: 'a word) \<le> of_nat r - B + of_nat r \<or> of_nat r - B + of_nat r = 0 \<and> (q + of_nat (k + 1)) AND 1 \<noteq> 0
      then of_nat r else of_nat r - B) = (word_of_int c :: 'a word)"
    unfolding m1 m2 m3 M_def [symmetric] c_def by (simp add: b_def)
  moreover have "(2 ^ (LENGTH('a) - 1) :: 'a word) \<le> word_of_int c \<longleftrightarrow> c < 0"
    by (rule top_bit_neg) (use P ri in \<open>(simp only: c_def split: if_split, linarith)+\<close>)
  ultimately have pick: "rem_pick q A B = Some (c < 0, if c < 0 then - word_of_int c else word_of_int c)"
    unfolding rem_pick_def Let_def prod.case do_subtract_loop [OF B A, of q] k_def [symmetric] r_def [symmetric] bind.bind_lunit by simp
  define N where "N = n + k + of_bool (\<not> M)"
  have R: "int (n * b + unat A) - int N * int b = c" unfolding a c_def N_def by (simp add: algebra_simps)
  have "\<bar>c\<bar> < 2 ^ LENGTH('a)" using P' ri by (simp only: c_def split: if_split) linarith
  note unat_abs_word [OF this]
  moreover have "2 * \<bar>c\<bar> \<le> int b" "2 * \<bar>c\<bar> = int b \<longrightarrow> even N" using rb unfolding c_def N_def M_def by auto
  ultimately show ?thesis unfolding Let_def b_def [symmetric] using pick R by (intro exI [of _ N]) auto
qed

section \<open>The scheme of both routines\<close>

text \<open>
  What the reduction of the significands by the exponent difference \<open>D\<close> guarantees: a multiple \<open>n\<close> of the divisor, scaled by
  \<open>2 ^ (x - 1)\<close>, has been subtracted, \<open>q\<close> has its parity, and what is left is less than three times the divisor.
\<close>

definition rem_reduces :: "nat \<Rightarrow> nat \<Rightarrow> nat \<Rightarrow> int \<Rightarrow> 'a::len word \<times> 'a word \<times> 'a word \<Rightarrow> bool" where
  "rem_reduces x mA mB D = (\<lambda>(q, A, B).
     unat B = mB * 2 ^ (x - 1) \<and> unat A < 3 * unat B \<and>
     (\<exists>n. mA * 2 ^ nat (D + int x - 1) = n * unat B + unat A \<and> (odd (unat q) \<longleftrightarrow> odd n)))"

context softfloat_format
begin

definition rem_op ::
  "('a word \<Rightarrow> 'a word \<Rightarrow> int \<Rightarrow> ('a word \<times> 'a word \<times> 'a word) option) \<Rightarrow>
     'a word \<Rightarrow> 'a word \<Rightarrow> fp_state \<Rightarrow> ('a word \<times> fp_state) option" where
  "rem_op reduce a b s =
     (let expA = expUI a; sigA = fracUI a; expB = expUI b; sigB = fracUI b;
          propagateNaN = Some (propagate a b s);
          invalid = Some (defaultNaN, softfloat_raiseFlags softfloat_flag_invalid s)
      in if expA = int E then (if sigA \<noteq> 0 \<or> (expB = int E \<and> sigB \<noteq> 0) then propagateNaN else invalid)
         else if expB = int E then (if sigB \<noteq> 0 then propagateNaN else Some (a, s))
         else if expB = 0 \<and> sigB = 0 then invalid
         else
           let (expB, sigB) = (if expB = 0 then (normExp sigB, normSig sigB) else (expB, sigB))
           in if expA = 0 \<and> sigA = 0 then Some (a, s)
              else
                let (expA, sigA) = (if expA = 0 then (normExp sigA, normSig sigA) else (expA, sigA));
                    expDiff = expA - expB
                in if expDiff < - 1 then Some (a, s)
                   else do {
                     (q, sigA, sigB) \<leftarrow> reduce (sigA OR 2 ^ f) (sigB OR 2 ^ f) expDiff;
                     (signZ, sig) \<leftarrow> rem_pick q sigA sigB;
                     Some (normRoundPack (signUI a \<noteq> signZ) expB sig s)
                   })"

lemma rem_op_finite:
  assumes "expUI a < int E" and "expUI b < int E" and "fl_mag a \<noteq> 0" and "fl_mag b \<noteq> 0"
    and n: "norm_operand a = (eA, gA)" "norm_operand b = (eB, gB)"
  shows "rem_op reduce a b s =
    (if eA - eB < - 1 then Some (a, s)
     else do {
       (q, sigA, sigB) \<leftarrow> reduce (gA OR 2 ^ f) (gB OR 2 ^ f) (eA - eB);
       (signZ, sig) \<leftarrow> rem_pick q sigA sigB;
       Some (normRoundPack (signUI a \<noteq> signZ) eB sig s)
     })"
proof -
  have nz: "(expUI a = 0 \<and> fracUI a = 0) = False" "(expUI b = 0 \<and> fracUI b = 0) = False"
    and ne: "(expUI a = int E) = False" "(expUI b = int E) = False"
    using assms(1-4) by (auto simp: zero_iff)
  show ?thesis
    unfolding rem_op_def Let_def nz ne if_False n [unfolded norm_operand_def] prod.case ..
qed

text \<open>A number is its own remainder when it is less than half the divisor.\<close>

lemma ieee_rem_self:
  assumes "2 * mval f (fl_mag a) < mval f (fl_mag b)"
  shows "ieee_rem f a b a"
proof (rule ieee_remI [where n = 0])
  show "fl_mag b \<noteq> 0" using assms by (cases "fl_mag b = 0") simp_all
qed (use assms in \<open>simp_all add: fl_real_def\<close>)

text \<open>
  Packing the remainder \<open>K * 2 ^ (x - 2)\<close>: it is a number of the format, so nothing is rounded.
\<close>

lemma rem_pack:
  assumes b: "fl_mag b < E * 2 ^ f" and bv: "real (mval f (fl_mag b)) = real mB * 2 powi (eB - 1)"
    and mB: "mB < 2 ^ Suc f" and eB: "1 - int f \<le> eB" "eB \<le> int E"
    and K: "\<bar>K\<bar> \<le> int mB" and T: "real_of_int T = of_int K * 2 powi (eB - 2)" and sig: "int (unat sig) = \<bar>K\<bar> * 2 ^ (x - 2)"
    and zero: "K = 0 \<Longrightarrow> normRoundPack g eB sig s = (packUI g 0 0, s)" and g: "g = (sg \<noteq> (K < 0))"
  shows "\<exists>z. normRoundPack g eB sig s = (z, s) \<and> fl_real f z = (if sg then - 1 else 1) * of_int T \<and>
    (fl_real f z = 0 \<longrightarrow> fl_sign z = sg)"
proof (cases "K = 0")
  case True
  then have "T = 0" using T by simp
  moreover have "fl_sign (packUI g 0 0) = g" "fl_mag (packUI g 0 0) = 0" using pack_sign_mag [of 0 0] by simp_all
  ultimately show ?thesis using zero [OF True] g True by (simp add: fl_real_def)
next
  case False
  define r where "r = (if sg then - 1 else 1) * real_of_int T"
  have T0: "T \<noteq> 0" "T < 0 \<longleftrightarrow> K < 0"
  proof -
    define c where "c = (2::real) powi (eB - 2)"
    have "0 < c" by (simp add: c_def)
    then have "real_of_int T = 0 \<longleftrightarrow> K = 0" "real_of_int T < 0 \<longleftrightarrow> K < 0"
      unfolding T c_def [symmetric] by (simp_all add: mult_less_0_iff)
    then show "T \<noteq> 0" "T < 0 \<longleftrightarrow> K < 0" using False by simp_all
  qed
  have r: "r \<noteq> 0" "g = (r < 0)" using T0 unfolding r_def g by auto
  have rabs: "\<bar>r\<bar> = real (unat sig) * 2 powi (eB - int x)"
  proof -
    have "\<bar>r\<bar> = of_int \<bar>K\<bar> * 2 powi (eB - 2)" unfolding r_def T by (simp add: abs_mult)
    also have "(2::real) powi (eB - 2) = 2 ^ (x - 2) * 2 powi (eB - int x)"
      using x_ge by (simp add: powi_mult flip: power_int_of_nat)
    finally show ?thesis using sig x_ge
      by (metis mult.assoc of_int_mult of_int_numeral of_int_of_nat_eq of_int_power)
  qed
  have Tk: "real (nat \<bar>T\<bar>) = real (nat \<bar>K\<bar>) * 2 powi (eB - 2)"
    using arg_cong [OF T, of abs] by (simp add: abs_mult)
  have "\<exists>m. mval f m = nat \<bar>T\<bar>"
  proof (cases "2 \<le> eB")
    case True
    then have "(2::real) powi (eB - 2) = real (2 ^ nat (eB - 2))" by (simp flip: power_int_of_nat)
    then have "real (nat \<bar>T\<bar>) = real (nat \<bar>K\<bar> * 2 ^ nat (eB - 2))" using Tk by simp
    then have "nat \<bar>T\<bar> = nat \<bar>K\<bar> * 2 ^ nat (eB - 2)" by (simp only: of_nat_eq_iff)
    moreover have "nat \<bar>K\<bar> < 2 ^ Suc f" using K mB by linarith
    ultimately show ?thesis using mval_exists by metis
  next
    case False
    then have "(2::real) powi (eB - 2) \<le> 2 powi 0" by (intro power_int_increasing) simp_all
    then have "real (nat \<bar>T\<bar>) \<le> real (nat \<bar>K\<bar>) * 1" unfolding Tk by (intro mult_left_mono) simp_all
    then have "nat \<bar>T\<bar> \<le> nat \<bar>K\<bar>" by (simp only: mult_1_right of_nat_le_iff)
    then have "nat \<bar>T\<bar> < 2 ^ Suc f" using K mB by linarith
    from mval_exists [OF this, of 0] show ?thesis by simp
  qed
  then obtain m where m: "mval f m = nat \<bar>T\<bar>" by blast
  have "real (nat \<bar>T\<bar>) \<le> real mB * 2 powi (eB - 1)"
  proof -
    have "real (nat \<bar>K\<bar>) \<le> real mB" using K by simp
    moreover have "(2::real) powi (eB - 2) \<le> 2 powi (eB - 1)" by (intro power_int_increasing) simp_all
    ultimately show ?thesis unfolding Tk by (intro mult_mono) simp_all
  qed
  then have "mval f m \<le> mval f (fl_mag b)" unfolding bv [symmetric] m [symmetric] by (simp only: of_nat_le_iff)
  then have mE: "m < E * 2 ^ f" using b by simp
  define z :: "'a word" where "z = fl_pack (r < 0) m"
  have ml: "m < 2 ^ (LENGTH('a) - 1)" using mE inf_fits by linarith
  have z: "fl_sign z = (r < 0)" "fl_mag z = m" unfolding z_def by (simp_all only: fl_sign_pack [OF ml])
  have zr: "fl_real f z = r"
  proof -
    have "real (mval f m) = \<bar>r\<bar>" unfolding m r_def by (simp add: abs_mult)
    then show ?thesis unfolding fl_real_def z by auto
  qed
  have xb: "x \<le> 1000" using x_le f_le by simp
  have sz: "sig \<noteq> 0" using sig False by auto
  have sl: "unat sig < 2 ^ (f + x + 1)"
  proof -
    have "int mB < 2 ^ Suc f" using mB by (simp only: of_nat_less_numeral_power_cancel_iff)
    then have "\<bar>K\<bar> < 2 ^ Suc f" using K by linarith
    then have "int (unat sig) < 2 ^ Suc f * 2 ^ (x - 2)" unfolding sig by (rule mult_strict_right_mono) simp
    also have "\<dots> = 2 ^ (Suc f + (x - 2))" by (simp only: power_add)
    also have "\<dots> \<le> 2 ^ (f + x + 1)" by (intro power_increasing) simp_all
    finally show ?thesis by (simp only: of_nat_less_numeral_power_cancel_iff)
  qed
  have "op_rounds f E (fl_sign z) r s (normRoundPack g eB sig s)"
    by (rule normRoundPack_rounds [OF _ sz sl _ _ rabs r]) (use eB f_le E_le in simp_all)
  then have "normRoundPack g eB sig s = (z, s)"
    using op_rounds_unique_exact [of f E z s "normRoundPack g eB sig s"] mE f_pos unfolding zr z by blast
  then show ?thesis using zr r by (intro exI [of _ z]) (simp add: r_def)
qed

text \<open>
  The contract of a reduction, and the theorem: the routine returns, changes no state, and delivers the remainder.
\<close>

lemma rem_op_reduced:
  assumes fin: "fl_mag a < E * 2 ^ f" "fl_mag b < E * 2 ^ f" and b0: "fl_mag b \<noteq> 0" and a0: "fl_mag a \<noteq> 0"
    and nA: "norm_operand a = (eA, gA)" and nB: "norm_operand b = (eB, gB)" and D: "- 1 \<le> eA - eB"
    and red: "reduce (gA OR 2 ^ f) (gB OR 2 ^ f) (eA - eB) = Some (q, A, B)"
      "rem_reduces x (unat (gA OR 2 ^ f)) (unat (gB OR 2 ^ f)) (eA - eB) (q, A, B)"
    and zero: "\<And>g ex. 1 - int f \<le> ex \<Longrightarrow> ex \<le> int E \<Longrightarrow> normRoundPack g ex 0 s = (packUI g 0 0, s)"
  shows "\<exists>z. rem_op reduce a b s = Some (z, s) \<and> ieee_rem f a b z"
proof -
  define mA mB where "mA = unat (gA OR 2 ^ f)" and "mB = unat (gB OR 2 ^ f)"
  note A = norm_operand [OF a0 nA, folded mA_def] and B = norm_operand [OF b0 nB, folded mB_def]
  obtain n where uB: "unat B = mB * 2 ^ (x - 1)" and lt: "unat A < 3 * unat B"
    and n: "mA * 2 ^ nat (eA - eB + int x - 1) = n * unat B + unat A" and qn: "odd (unat q) \<longleftrightarrow> odd n"
    using red(2) unfolding rem_reduces_def mA_def [symmetric] mB_def [symmetric] prod.case by blast
  have mp: "0 < mB" using B(1) by (rule less_le_trans [rotated]) simp
  have Bp: "0 < unat B" unfolding uB using mp by simp
  have "2 * unat B \<le> 2 ^ Suc f * 2 ^ x"
    unfolding uB using B(2) x_ge by (cases x) simp_all
  then have BP: "2 * unat B \<le> 2 ^ (LENGTH('a) - 1)" by (simp add: len power_add)
  obtain N z where pick: "rem_pick q A B = Some (int (n * unat B + unat A) - int N * int (unat B) < 0, z)"
    and zv: "int (unat z) = \<bar>int (n * unat B + unat A) - int N * int (unat B)\<bar>"
    and near: "2 * \<bar>int (n * unat B + unat A) - int N * int (unat B)\<bar> \<le> int (unat B)"
    and tie: "2 * \<bar>int (n * unat B + unat A) - int N * int (unat B)\<bar> = int (unat B) \<longrightarrow> even N"
    using rem_pick_nearest [OF Bp BP lt qn] unfolding Let_def by blast
  define K where "K = int mA * 2 ^ nat (eA - eB + 1) - int N * int mB * 2"
  have R: "int (n * unat B + unat A) - int N * int (unat B) = K * 2 ^ (x - 2)"
  proof -
    have e: "nat (eA - eB + int x - 1) = nat (eA - eB + 1) + (x - 2)" "x - 1 = Suc (x - 2)" using D x_ge by linarith+
    have "int (n * unat B + unat A) = int (mA * 2 ^ nat (eA - eB + int x - 1))" by (simp only: n)
    also have "\<dots> = int mA * 2 ^ nat (eA - eB + 1) * 2 ^ (x - 2)" unfolding e power_add by simp
    finally show ?thesis unfolding K_def left_diff_distrib uB e(2) by simp
  qed
  have Bx: "int (unat B) = 2 * int mB * 2 ^ (x - 2)"
  proof -
    have e: "x - 1 = Suc (x - 2)" using x_ge by simp
    show ?thesis unfolding uB e by simp
  qed
  have "2 * \<bar>K * 2 ^ (x - 2)\<bar> = 2 * \<bar>K\<bar> * 2 ^ (x - 2)" by (simp add: abs_mult)
  then have Kle: "\<bar>K\<bar> \<le> int mB" and Ktie: "\<bar>K\<bar> = int mB \<Longrightarrow> even N" 
    using near [unfolded R, unfolded Bx] tie [unfolded R, unfolded Bx] by simp_all
  define T where "T = int (mval f (fl_mag a)) - int N * int (mval f (fl_mag b))"
  have "eB - 1 = 1 + (eB - 2)" by simp
  then have e2: "(2::real) powi (eB - 1) = 2 * 2 powi (eB - 2)" by (simp only: powi_mult [symmetric] power_int_1_right)
  have T: "real_of_int T = of_int K * 2 powi (eB - 2)"
  proof -
    have "eA - 1 = int (nat (eA - eB + 1)) + (eB - 2)" using D by simp
    then have e: "(2::real) powi (eA - 1) = 2 ^ nat (eA - eB + 1) * 2 powi (eB - 2)" by (simp only: powi_mult [symmetric] power_int_of_nat)
    show ?thesis unfolding T_def K_def of_int_diff of_int_mult of_int_of_nat_eq A(3) B(3) e e2 by (simp add: algebra_simps)
  qed
  have "K * 2 ^ (x - 2) < 0 \<longleftrightarrow> K < 0" by (simp add: mult_less_0_iff)
  then have pick': "rem_pick q A B = Some (K < 0, z)" using pick unfolding R by simp
  have sig: "int (unat z) = \<bar>K\<bar> * 2 ^ (x - 2)" using zv unfolding R by (simp add: abs_mult)
  have zz: "normRoundPack g eB z s = (packUI g 0 0, s)" if "K = 0" for g
  proof -
    have "int (unat z) = 0" unfolding sig that by simp
    then have "z = 0" by (simp only: of_nat_eq_0_iff unat_eq_zero)
    then show ?thesis using zero [OF B(4,5)] by simp
  qed
  obtain w where w: "normRoundPack (signUI a \<noteq> (K < 0)) eB z s = (w, s)" "fl_real f w = (if signUI a then - 1 else 1) * of_int T"
      "fl_real f w = 0 \<longrightarrow> fl_sign w = signUI a"
    using rem_pack [OF fin(2) B(3,2,4,5) Kle T sig zz refl] by blast
  have "rem_op reduce a b s = Some (w, s)"
    unfolding rem_op_finite [OF fin [unfolded finite_iff] a0 b0 nA nB] if_not_P [OF D [folded not_less]] red(1) bind.bind_lunit prod.case pick' w(1) ..
  moreover have "ieee_rem f a b w"
  proof (rule ieee_remI [OF b0, of f a N])
    have "2 * \<bar>real_of_int T\<bar> = real_of_int \<bar>K\<bar> * 2 powi (eB - 1)" unfolding T e2 by (simp add: abs_mult)
    moreover have "2 * \<bar>real_of_int T\<bar> = of_int (2 * \<bar>T\<bar>)" by simp
    moreover have "real_of_int (int (mval f (fl_mag b))) = of_int (int mB) * 2 powi (eB - 1)" by (simp add: B(3))
    moreover have "real_of_int \<bar>K\<bar> * 2 powi (eB - 1) \<le> of_int (int mB) * 2 powi (eB - 1)" using Kle by (intro mult_right_mono) simp_all
    ultimately have le: "real_of_int (2 * \<bar>T\<bar>) \<le> of_int (int (mval f (fl_mag b)))"
      and eq: "real_of_int (2 * \<bar>T\<bar>) = of_int (int (mval f (fl_mag b))) \<Longrightarrow> \<bar>K\<bar> = int mB" by (simp_all del: of_int_of_nat_eq of_int_mult)
    show "2 * \<bar>int (mval f (fl_mag a)) - int N * int (mval f (fl_mag b))\<bar> \<le> int (mval f (fl_mag b))"
      using le unfolding T_def [symmetric] by (simp only: of_int_le_iff)
    show "even N" if "2 * \<bar>int (mval f (fl_mag a)) - int N * int (mval f (fl_mag b))\<bar> = int (mval f (fl_mag b))"
      using that eq Ktie unfolding T_def [symmetric] by (simp only: simp_thms)
  qed (use w in \<open>simp_all add: T_def sign_law\<close>)
  ultimately show ?thesis by blast
qed

theorem rem_op_correct:
  assumes fin: "fl_mag a < E * 2 ^ f" "fl_mag b < E * 2 ^ f" and b0: "fl_mag b \<noteq> 0"
    and red: "\<And>wA wB D. 2 ^ f \<le> unat wA \<Longrightarrow> unat wA < 2 ^ Suc f \<Longrightarrow> 2 ^ f \<le> unat wB \<Longrightarrow> unat wB < 2 ^ Suc f \<Longrightarrow> - 1 \<le> D \<Longrightarrow>
      \<exists>r. reduce wA wB D = Some r \<and> rem_reduces x (unat wA) (unat wB) D r"
    and zero: "\<And>g ex. 1 - int f \<le> ex \<Longrightarrow> ex \<le> int E \<Longrightarrow> normRoundPack g ex 0 s = (packUI g 0 0, s)"
  shows "\<exists>z. rem_op reduce a b s = Some (z, s) \<and> ieee_rem f a b z"
proof (cases "fl_mag a = 0")
  case True
  have "rem_op reduce a b s = Some (a, s)"
    using True fin b0 unfolding finite_iff zero_iff rem_op_def Let_def by (auto split: prod.splits)
  moreover have "ieee_rem f a b a" using True b0 by (intro ieee_rem_self) (simp add: mval_pos_iff)
  ultimately show ?thesis by blast
next
  case a0: False
  obtain eA gA where nA: "norm_operand a = (eA, gA)" by fastforce
  obtain eB gB where nB: "norm_operand b = (eB, gB)" by fastforce
  note A = norm_operand [OF a0 nA] and B = norm_operand [OF b0 nB]
  show ?thesis
  proof (cases "eA - eB < - 1")
    case True
    have "2 * real (mval f (fl_mag a)) < 2 * (2 ^ Suc f * 2 powi (eA - 1))"
    proof -
      have "real (unat (gA OR 2 ^ f)) < 2 ^ Suc f" using A(2) by (metis of_nat_less_iff of_nat_numeral of_nat_power)
      then show ?thesis unfolding A(3) by simp
    qed
    also have "\<dots> = 2 ^ f * 2 powi (eA + 1)" by (simp add: power_int_diff power_int_add)
    also have "\<dots> \<le> 2 ^ f * 2 powi (eB - 1)" using True by (intro mult_left_mono power_int_increasing) simp_all
    also have "\<dots> \<le> real (mval f (fl_mag b))"
    proof -
      have "2 ^ f \<le> real (unat (gB OR 2 ^ f))" using B(1) by (metis of_nat_le_iff of_nat_numeral of_nat_power)
      then show ?thesis unfolding B(3) by simp
    qed
    finally have "ieee_rem f a b a" by (intro ieee_rem_self) simp
    moreover have "rem_op reduce a b s = Some (a, s)"
      unfolding rem_op_finite [OF fin [unfolded finite_iff] a0 b0 nA nB] using True by simp
    ultimately show ?thesis by blast
  next
    case False
    then have D: "- 1 \<le> eA - eB" by simp
    obtain q sA sB where "reduce (gA OR 2 ^ f) (gB OR 2 ^ f) (eA - eB) = Some (q, sA, sB)"
      "rem_reduces x (unat (gA OR 2 ^ f)) (unat (gB OR 2 ^ f)) (eA - eB) (q, sA, sB)"
      using red [OF A(1,2) B(1,2) D] by (metis prod_cases3)
    then show ?thesis by (rule rem_op_reduced [OF fin b0 a0 nA nB D, where reduce = reduce]) (rule zero)
  qed
qed

theorem rem_op_special:
  assumes "E * 2 ^ f \<le> fl_mag a \<or> E * 2 ^ f \<le> fl_mag b \<or> fl_mag b = 0"
  shows "rem_op reduce a b s = Some
    (if fl_nan f E a \<or> fl_nan f E b then propagate a b s
     else if fl_mag a = E * 2 ^ f \<or> fl_mag b = 0 then (defaultNaN, softfloat_raiseFlags softfloat_flag_invalid s)
     else (a, s))"
proof -
  have E0: "expUI c = int E \<Longrightarrow> fl_mag c \<noteq> 0" for c using E_ge2 by (simp add: zero_iff)
  have c: "expUI a = int E \<or> expUI b = int E \<or> expUI a \<noteq> int E \<and> expUI b \<noteq> int E \<and> fl_mag b = 0"
    using assms exp_range(2) [of a] exp_range(2) [of b] by (auto simp: not_less [symmetric] finite_iff)
  show ?thesis
    using c E0 [of a] E0 [of b] zero_iff [of b] E_ge2
    by (cases "expUI a = int E"; cases "expUI b = int E") (simp_all add: rem_op_def Let_def special_exp)
qed

end

section \<open>A quotient digit\<close>

text \<open>An estimate lowered by two is at most two too small.\<close>

definition rem_digit :: "uint64_t \<Rightarrow> uint64_t \<Rightarrow> uint64_t option" where
  "rem_digit sigA sigB = do { q \<leftarrow> softfloat_estimateDiv128To64 sigA 0 sigB; Some (if 2 < q then q - 2 else 0) }"

lemma rem_digit:
  assumes "2 ^ 63 \<le> unat B" and "unat A < unat B"
  obtains q where "rem_digit A B = Some q" and "unat q * unat B \<le> unat A * 2 ^ 64" and "unat A * 2 ^ 64 < (unat q + 3) * unat B"
proof -
  define Q where "Q = unat A * 2 ^ 64 div unat B"
  have B: "0 < unat B" using assms(1) by simp
  obtain z where z: "softfloat_estimateDiv128To64 A 0 B = Some z" "Q \<le> unat z" "unat z \<le> Q + 2"
    using estimateDiv128To64_bounds [of B A 0] assms by (auto simp: word_less_nat_alt Q_def)
  define q where "q = (if 2 < z then z - 2 else 0)"
  have "unat q = unat z - 2" unfolding q_def by (auto simp: word_less_nat_alt unat_sub_le word_le_nat_alt)
  then have q: "unat q \<le> Q" "Q + 1 \<le> unat q + 3" using z by simp_all
  have "unat q * unat B \<le> Q * unat B" using q(1) by (rule mult_le_mono1)
  also have "\<dots> \<le> unat A * 2 ^ 64" unfolding Q_def by (rule div_times_less_eq_dividend)
  finally have lo: "unat q * unat B \<le> unat A * 2 ^ 64" .
  have "unat A * 2 ^ 64 < (Q + 1) * unat B" unfolding Q_def using dividend_less_div_times [OF B, of "unat A * 2 ^ 64"] by simp
  also have "\<dots> \<le> (unat q + 3) * unat B" using q(2) by (rule mult_le_mono1)
  finally have hi: "unat A * 2 ^ 64 < (unat q + 3) * unat B" .
  have "rem_digit A B = Some q" by (simp add: rem_digit_def z(1) q_def)
  then show thesis using lo hi by (rule that)
qed

text \<open>The leading \<open>e\<close> bits of such a digit, and the remainder they leave, computed modulo the word size.\<close>

lemma digit_prefix:
  fixes q B A :: nat
  assumes q: "q * B \<le> A * 2 ^ N" "A * 2 ^ N < (q + 3) * B" and e: "e \<le> N"
  shows "(q div 2 ^ (N - e)) * B \<le> A * 2 ^ e" and "A * 2 ^ e < (q div 2 ^ (N - e) + 3) * B"
proof -
  define c v where "c = (2::nat) ^ (N - e)" and "v = q div c"
  have c: "A * 2 ^ N = A * 2 ^ e * c" "0 < c" unfolding c_def using e by (simp_all flip: power_add)
  have v: "v * c \<le> q" "q < v * c + c" unfolding v_def using dividend_less_div_times [OF c(2), of q] by (simp_all add: div_times_less_eq_dividend)
  have "v * B * c = v * c * B" by (simp only: mult_ac)
  also have "\<dots> \<le> q * B" using v(1) by (rule mult_le_mono1)
  also have "\<dots> \<le> A * 2 ^ e * c" using q(1) unfolding c(1) .
  finally have "v * B * c \<le> A * 2 ^ e * c" .
  then show "(q div 2 ^ (N - e)) * B \<le> A * 2 ^ e" using c(2) unfolding v_def c_def by simp
  have "q + 3 \<le> (v + 3) * c" using v(2) c(2) by (simp add: distrib_right)
  then have "(q + 3) * B \<le> (v + 3) * B * c" using mult_le_mono1 [of "q + 3" "(v + 3) * c" B] by (simp add: mult_ac)
  then have "A * 2 ^ e * c < (v + 3) * B * c" using q(2) unfolding c(1) by linarith
  then show "A * 2 ^ e < (q div 2 ^ (N - e) + 3) * B" using c(2) unfolding v_def c_def by simp
qed

lemma rem_word:
  fixes A B q :: "'a::len word" and v :: nat
  assumes d: "4 dvd unat A" "4 dvd unat B" and e: "1 \<le> e" and q: "q = of_nat v"
    and v: "v * unat B \<le> unat A * 2 ^ e" "unat A * 2 ^ e < (v + 3) * unat B" and l: "3 * (unat B div 4) \<le> 2 ^ LENGTH('a)"
  defines "R \<equiv> push_bit (e - 1) (drop_bit 1 A) - drop_bit 2 B * q"
  shows "4 * unat R + v * unat B = unat A * 2 ^ e" and "unat R < 3 * (unat B div 4)"
proof -
  obtain a b where ab: "unat A = 4 * a" "unat B = 4 * b" using d by (elim dvdE) blast
  have "push_bit (e - 1) (drop_bit 1 A) = of_nat (a * 2 ^ e)"
  proof -
    have "unat (drop_bit 1 A) = 2 * a" by (simp add: unat_drop_bit_div ab)
    then have "drop_bit 1 A = of_nat (2 * a)" by (rule word_eq_of_nat)
    moreover have "(2::'a word) ^ e = 2 * 2 ^ (e - 1)" using e by (simp flip: power_Suc)
    ultimately show ?thesis by (simp add: push_bit_eq_mult mult_ac)
  qed
  moreover have "drop_bit 2 B * q = of_nat (v * b)"
  proof -
    have "unat (drop_bit 2 B) = b" by (simp add: unat_drop_bit_div ab)
    then have "drop_bit 2 B = of_nat b" by (rule word_eq_of_nat)
    then show ?thesis by (simp add: q mult.commute)
  qed
  moreover have vb: "v * b \<le> a * 2 ^ e" "a * 2 ^ e < v * b + 3 * b" using v unfolding ab by (simp_all add: algebra_simps)
  ultimately have "R = of_nat (a * 2 ^ e - v * b)" unfolding R_def by (simp only: of_nat_diff)
  moreover have "a * 2 ^ e - v * b < 2 ^ LENGTH('a)" using vb l unfolding ab by simp
  ultimately have R: "unat R = a * 2 ^ e - v * b" by (simp only: unat_of_nat mod_less)
  show "4 * unat R + v * unat B = unat A * 2 ^ e" "unat R < 3 * (unat B div 4)" using vb unfolding R ab by simp_all
qed

section \<open>The reduction loop\<close>

lemma f64_rem_reduce_step:
  "f64_rem_reduce sigB q sigA e =
    (if 0 < e then do { q \<leftarrow> rem_digit sigA sigB; f64_rem_reduce sigB q (- (drop_bit 2 sigB * q)) (e - 62) } else Some (q, sigA, e))"
  by (subst f64_rem_reduce.simps) (simp add: rem_digit_def Let_def)

lemma f64_rem_reduce_law:
  assumes B: "2 ^ 63 \<le> unat B" "2 ^ (j + 2) dvd unat B" "2 \<le> j" and A: "unat A < unat B" "2 ^ j dvd unat A" and e: "0 < e"
  shows "\<exists>q' A' e' n. f64_rem_reduce B q A e = Some (q', A', e') \<and> - 62 < e' \<and> e' \<le> 0 \<and> unat A' < unat B \<and> 2 ^ j dvd unat A' \<and>
    even n \<and> unat A * 2 ^ nat (e + 64) = n * unat B + unat A' * 2 ^ nat (e' + 64)"
  using A e
proof (induction "nat e" arbitrary: q A e rule: less_induct)
  case less
  obtain w where w: "rem_digit A B = Some w" "unat w * unat B \<le> unat A * 2 ^ 64" "unat A * 2 ^ 64 < (unat w + 3) * unat B"
    using rem_digit [OF B(1) less.prems(1)] by blast
  define R where "R = - (drop_bit 2 B * w)"
  have "(2::nat) ^ 2 dvd 2 ^ j" using B(3) by (rule le_imp_power_dvd)
  moreover have "(2::nat) ^ 2 dvd 2 ^ (j + 2)" by (rule le_imp_power_dvd) simp
  ultimately have A4: "4 dvd unat A" and B4: "4 dvd unat B" using dvd_trans [OF _ less.prems(2)] dvd_trans [OF _ B(2)] by simp_all
  have z: "push_bit (64 - 1) (drop_bit 1 A) = 0"
  proof -
    obtain a where a: "unat A = 4 * a" using A4 by (auto elim: dvdE)
    then have "unat (push_bit 63 (drop_bit 1 A)) = (2 * a * 2 ^ 63) mod 2 ^ 64" by (simp add: unat_push_bit_mod unat_drop_bit_div)
    also have "\<dots> = 0" by simp
    finally show ?thesis by (simp add: unat_eq_zero)
  qed
  have l: "3 * (unat B div 4) \<le> 2 ^ LENGTH(64)" using unat_lt64 [of B] by simp
  note R = rem_word [where e = 64 and v = "unat w" and q = w, OF A4 B4 _ _ w(2,3) l, unfolded z diff_0, folded R_def]
  have R': "4 * unat R + unat w * unat B = unat A * 2 ^ 64" "unat R < 3 * (unat B div 4)" using R by simp_all
  have Rd: "2 ^ j dvd unat R"
  proof -
    have "2 ^ (j + 2) dvd unat A * 2 ^ 64" using mult_dvd_mono [OF less.prems(2), of "2 ^ 2" "2 ^ 64"] by (simp add: power_add)
    then have "2 ^ (j + 2) dvd 4 * unat R + unat w * unat B" unfolding R'(1) .
    then have "2 ^ (j + 2) dvd 4 * unat R" using B(2) by (metis dvd_add_left_iff dvd_mult)
    then show ?thesis by (simp add: power_add mult.commute)
  qed
  moreover have Rl: "unat R < unat B" using R'(2) B4 by (auto elim: dvdE)
  moreover have split: "unat A * 2 ^ nat (e + 64) = unat w * 2 ^ nat e * unat B + unat R * 2 ^ nat (e - 62 + 64)"
  proof -
    have "nat (e + 64) = 64 + nat e" "nat (e - 62 + 64) = nat e + 2" using less.prems(3) by simp_all
    then have "unat A * 2 ^ nat (e + 64) = (4 * unat R + unat w * unat B) * 2 ^ nat e" unfolding R'(1) by (simp add: power_add)
    also have "\<dots> = unat w * 2 ^ nat e * unat B + unat R * 2 ^ (nat e + 2)" by (simp add: algebra_simps)
    finally show ?thesis using \<open>nat (e - 62 + 64) = nat e + 2\<close> by simp
  qed
  moreover have ev: "even (unat w * 2 ^ nat e)" using less.prems(3) by simp
  have step: "f64_rem_reduce B q A e = f64_rem_reduce B w R (e - 62)"
    using less.prems(3) w(1) by (subst f64_rem_reduce_step) (simp add: R_def)
  show ?case
  proof (cases "0 < e - 62")
    case True
    then obtain q' A' e' n where IH: "f64_rem_reduce B w R (e - 62) = Some (q', A', e')" "- 62 < e'" "e' \<le> 0" "unat A' < unat B" "2 ^ j dvd unat A'"
      "even n" "unat R * 2 ^ nat (e - 62 + 64) = n * unat B + unat A' * 2 ^ nat (e' + 64)"
      using less.hyps [of "e - 62" R w] less.prems(3) Rd Rl by auto
    have "unat A * 2 ^ nat (e + 64) = (unat w * 2 ^ nat e + n) * unat B + unat A' * 2 ^ nat (e' + 64)"
      unfolding split IH(7) by (simp only: add_mult_distrib add.assoc)
    moreover have "even (unat w * 2 ^ nat e + n)" using ev IH(6) by simp
    ultimately show ?thesis unfolding step using IH(1-5) by blast
  next
    case False
    then have "f64_rem_reduce B w R (e - 62) = Some (w, R, e - 62)" by (subst f64_rem_reduce_step) simp
    then show ?thesis unfolding step using False less.prems(3) Rl Rd split ev by fastforce
  qed
qed

section \<open>Double precision\<close>

definition rem_reduce64 :: "uint64_t \<Rightarrow> uint64_t \<Rightarrow> int \<Rightarrow> (uint64_t \<times> uint64_t \<times> uint64_t) option" where
  "rem_reduce64 sigA sigB expDiff =
     (let sigA = push_bit 11 sigA;
          sigB = push_bit 11 sigB;
          sigA = (if expDiff < 0 then drop_bit 1 sigA else sigA);
          q = of_bool (sigB \<le> sigA);
          sigA = (if q \<noteq> 0 then sigA - sigB else sigA)
      in do {
           (q, sigA, expDiff) \<leftarrow> f64_rem_reduce sigB q sigA (expDiff - 64);
           let expDiff = expDiff + 64;
           if 0 < expDiff
           then do {
             q \<leftarrow> softfloat_estimateDiv128To64 sigA 0 sigB;
             let q = (if 2 < q then q - 2 else 0);
             let q = drop_bit (nat (64 - expDiff)) q;
             let sigB = drop_bit 2 sigB;
             let sigA = push_bit (nat (expDiff - 1)) (drop_bit 1 sigA) - sigB * q;
             Some (q, sigA, sigB)
           }
           else Some (q, drop_bit 2 sigA, drop_bit 2 sigB)
         })"

lemma bind_if: "Option.bind (if P then m else n) g = (if P then Option.bind m g else Option.bind n g)"
  by simp

lemma f64_rem_finish_pick:
  "f64_rem_finish signA expB q sigA sigB s =
    do { (signZ, sig) \<leftarrow> rem_pick q sigA sigB; Some (softfloat_normRoundPackToF64 (signA \<noteq> signZ) expB sig s) }"
proof -
  have e: "(2 :: uint64_t) ^ (LENGTH(64) - 1) = 0x8000000000000000" by simp
  show ?thesis unfolding f64_rem_finish_def rem_pick_def Let_def split_def e Option.bind_assoc bind.bind_lunit fst_conv snd_conv ..
qed

lemma rem_reduce64_finish:
  "do { (q, sigA, sigB) \<leftarrow> rem_reduce64 A B D; f64_rem_finish g ex q sigA sigB s } =
     (let sigA = push_bit 11 A;
          sigB = push_bit 11 B;
          sigA = (if D < 0 then drop_bit 1 sigA else sigA);
          q = of_bool (sigB \<le> sigA);
          sigA = (if q \<noteq> 0 then sigA - sigB else sigA)
      in do {
           (q, sigA, expDiff) \<leftarrow> f64_rem_reduce sigB q sigA (D - 64);
           let expDiff = expDiff + 64;
           if 0 < expDiff
           then do {
             q \<leftarrow> softfloat_estimateDiv128To64 sigA 0 sigB;
             let q = (if 2 < q then q - 2 else 0);
             let q = drop_bit (nat (64 - expDiff)) q;
             let sigB = drop_bit 2 sigB;
             let sigA = push_bit (nat (expDiff - 1)) (drop_bit 1 sigA) - sigB * q;
             f64_rem_finish g ex q sigA sigB s
           }
           else f64_rem_finish g ex q (drop_bit 2 sigA) (drop_bit 2 sigB) s
         })"
  unfolding rem_reduce64_def Let_def split_def Option.bind_assoc bind_if bind.bind_lunit fst_conv snd_conv ..

lemma f64_rem_scheme: "f64_rem a b s = sf64.rem_op rem_reduce64 a b s"
proof -
  let ?norm = "\<lambda>c. if expF64UI c = 0
      then (es64_exp (softfloat_normSubnormalF64Sig (fracF64UI c)), es64_sig (softfloat_normSubnormalF64Sig (fracF64UI c)))
      else (expF64UI c, fracF64UI c)"
  obtain eA gA where nA: "?norm a = (eA, gA)" by fastforce
  obtain eB gB where nB: "?norm b = (eB, gB)" by fastforce
  define A B :: uint64_t where "A = gA OR 0x0010000000000000" and "B = gB OR 0x0010000000000000"
  have e: "(2::uint64_t) ^ 52 = 0x0010000000000000" "int 2047 = 0x7FF" by simp_all
  show ?thesis
    unfolding f64_rem_def sf64.rem_op_def Let_def e nA nB prod.case A_def [symmetric] B_def [symmetric] f64_rem_finish_pick [symmetric]
      rem_reduce64_finish [unfolded Let_def, of A B "eA - eB" "signF64UI a" eB s] ..
qed

text \<open>The first digit of the quotient is zero or one.\<close>

lemma first_digit:
  fixes W B :: "'a::len word"
  assumes "unat W < 2 * unat B"
  shows "unat (if of_bool (B \<le> W) \<noteq> (0::'a word) then W - B else W) < unat B"
    and "unat W = of_bool (B \<le> W) * unat B + unat (if of_bool (B \<le> W) \<noteq> (0::'a word) then W - B else W)"
  using assms by (auto simp: unat_sub_le word_le_nat_alt)

lemma rem_reduces_small:
  fixes W A B q :: "'a::len word"
  assumes W: "unat W = of_bool P * unat B + unat A" "unat A < unat B" and q: "q = of_bool P"
    and s: "unat B = mB * 2 ^ (x + 1)" "unat W = mA * 2 ^ nat (D + int x + 1)" and D: "- 1 \<le> D" and x: "2 \<le> x"
  shows "rem_reduces x mA mB D (q, drop_bit 2 A, drop_bit 2 B)"
proof -
  have e: "nat (D + int x + 1) = nat (D + int x - 1) + 2" "x + 1 = (x - 1) + 2" using D x by linarith+
  have uB: "unat (drop_bit 2 B) = mB * 2 ^ (x - 1)" and B4: "unat B = 4 * (mB * 2 ^ (x - 1))"
    unfolding unat_drop_bit_div s(1) e(2) power_add by simp_all
  define u t where "u = mA * 2 ^ nat (D + int x - 1)" and "t = mB * 2 ^ (x - 1)"
  have "unat W = 4 * u" unfolding s(2) u_def e(1) power_add by simp
  then have ut: "4 * u = of_bool P * (4 * t) + unat A" using W(1) unfolding B4 t_def by simp
  then have a: "unat A = 4 * (u - of_bool P * t)" by (cases P) simp_all
  then have "unat (drop_bit 2 A) = u - of_bool P * t" by (simp add: unat_drop_bit_div)
  moreover have "of_bool P * t \<le> u" using ut by (cases P) simp_all
  ultimately have "u = of_bool P * t + unat (drop_bit 2 A)" "unat A = 4 * unat (drop_bit 2 A)" using a by simp_all
  then show ?thesis using W(2) unfolding rem_reduces_def prod.case uB B4 q u_def [symmetric] t_def [symmetric]
    by (intro conjI exI [of _ "of_bool P"]) (simp_all split: if_splits)
qed

lemma rem_reduces_large:
  fixes W A B q R :: "'a::len word"
  assumes W: "unat W = of_bool P * unat B + unat A" and s: "unat B = mB * 2 ^ (x + 1)" "unat W = mA * 2 ^ (x + 1)"
    and D: "0 < D" and x: "2 \<le> x" and n: "unat A * 2 ^ nat D = n * unat B + (4 * unat R + v * unat B)" "even n"
    and q: "odd (unat q) \<longleftrightarrow> odd v" and R: "unat R < 3 * (unat B div 4)"
  shows "rem_reduces x mA mB D (q, R, drop_bit 2 B)"
proof -
  define u t where "u = mA * 2 ^ nat (D + int x - 1)" and "t = mB * 2 ^ (x - 1)"
  have e: "nat (D + int x - 1) + 2 = x + 1 + nat D" "x + 1 = (x - 1) + 2" using D x by linarith+
  have B: "unat (drop_bit 2 B) = t" "unat B = 4 * t" unfolding unat_drop_bit_div s(1) e(2) power_add t_def by simp_all
  have "4 * u = mA * 2 ^ (nat (D + int x - 1) + 2)" by (simp add: u_def power_add)
  also have "\<dots> = unat W * 2 ^ nat D" unfolding e(1) s(2) power_add by (simp only: mult.assoc)
  also have "\<dots> = of_bool P * unat B * 2 ^ nat D + (n * unat B + (4 * unat R + v * unat B))" unfolding W n(1) [symmetric] by (simp only: add_mult_distrib)
  also have "\<dots> = 4 * ((of_bool P * 2 ^ nat D + n + v) * t + unat R)" unfolding B(2) by (simp add: algebra_simps)
  finally have "u = (of_bool P * 2 ^ nat D + n + v) * t + unat R" by simp
  moreover have "even ((2::nat) ^ nat D)" using D by simp
  then have "odd (unat q) \<longleftrightarrow> odd (of_bool P * 2 ^ nat D + n + v)" using n(2) q by simp
  moreover have "unat R < 3 * t" using R unfolding B(2) by simp
  ultimately show ?thesis unfolding rem_reduces_def prod.case B(1) u_def [symmetric] t_def [symmetric] by blast
qed

lemma rem_reduce64_law:
  assumes A: "2 ^ 52 \<le> unat wA" "unat wA < 2 ^ Suc 52" and B: "2 ^ 52 \<le> unat wB" "unat wB < 2 ^ Suc 52" and D: "- 1 \<le> D"
  shows "\<exists>r. rem_reduce64 wA wB D = Some r \<and> rem_reduces 10 (unat wA) (unat wB) D r"
proof -
  define sB where "sB = push_bit 11 wB"
  have uB: "unat sB = unat wB * 2 ^ (10 + 1)" unfolding sB_def using unat_push_bit_small [of wB 11] B(2) by simp
  have B63: "2 ^ 63 \<le> unat sB" and B13: "2 ^ (9 + 2) dvd unat sB" unfolding uB using B(1) by simp_all
  define W where "W = (if D < 0 then drop_bit 1 (push_bit 11 wA) else push_bit 11 wA)"
  have "unat (push_bit 11 wA) = unat wA * 2 ^ 11" using unat_push_bit_small [of wA 11] A(2) by simp
  then have uW: "unat W = (if D < 0 then unat wA * 2 ^ 10 else unat wA * 2 ^ 11)" unfolding W_def by (simp add: unat_drop_bit_div)
  define q where "q = (of_bool (sB \<le> W) :: uint64_t)"
  define sA where "sA = (if q \<noteq> 0 then W - sB else W)"
  have "unat W < 2 * unat sB" unfolding uW uB using A(2) B(1) by simp
  note fd = first_digit [OF this, folded q_def, folded sA_def]
  show ?thesis
  proof (cases "0 < D")
    case False
    then have "f64_rem_reduce sB q sA (D - 64) = Some (q, sA, D - 64)" by (subst f64_rem_reduce_step) simp
    then have "rem_reduce64 wA wB D = Some (q, drop_bit 2 sA, drop_bit 2 sB)"
      unfolding rem_reduce64_def Let_def sB_def [symmetric] W_def [symmetric] q_def [symmetric] sA_def [symmetric] using False by simp
    moreover have "rem_reduces 10 (unat wA) (unat wB) D (q, drop_bit 2 sA, drop_bit 2 sB)"
    proof (rule rem_reduces_small [OF fd(2,1) q_def uB _ D])
      have "D = 0 \<or> D = - 1" using False D by linarith
      then show "unat W = unat wA * 2 ^ nat (D + int 10 + 1)" unfolding uW by auto
    qed simp
    ultimately show ?thesis by blast
  next
    case True
    have "2 ^ 9 dvd unat W" unfolding uW using True by simp
    moreover have "(2::nat) ^ 9 dvd unat sB" using B13 by (rule dvd_trans [rotated]) (simp add: le_imp_power_dvd)
    ultimately have A9: "2 ^ 9 dvd unat sA" using fd(2) by (metis dvd_add_right_iff dvd_mult)
    obtain q' A' e n where red: "f64_rem_reduce sB q sA (D - 64) = Some (q', A', e)" and e: "- 64 < e" "e \<le> 0"
      and A': "unat A' < unat sB" "2 ^ 9 dvd unat A'" and n: "even n" "unat sA * 2 ^ nat D = n * unat sB + unat A' * 2 ^ nat (e + 64)"
    proof (cases "0 < D - 64")
      case True
      then show thesis using f64_rem_reduce_law [OF B63 B13 _ fd(1) A9 True, of q] that by force
    next
      case False
      then have "f64_rem_reduce sB q sA (D - 64) = Some (q, sA, D - 64)" by (subst f64_rem_reduce_step) simp
      then show thesis by (rule that [where n = 0]) (use False True A9 fd(1) in simp_all)
    qed
    obtain w where w: "rem_digit A' sB = Some w" "unat w * unat sB \<le> unat A' * 2 ^ 64" "unat A' * 2 ^ 64 < (unat w + 3) * unat sB"
      using rem_digit [OF B63 A'(1)] by blast
    define m where "m = nat (e + 64)"
    have m: "1 \<le> m" "m \<le> 64" "nat (64 - (e + 64)) = 64 - m" "nat (e + 64 - 1) = m - 1" using e unfolding m_def by auto
    define v where "v = drop_bit (64 - m) w"
    have uv: "unat v = unat w div 2 ^ (64 - m)" by (simp add: v_def unat_drop_bit_div)
    note dp = digit_prefix [OF w(2,3) m(2), folded uv]
    have d4: "4 dvd unat A'" "4 dvd unat sB" using dvd_trans [OF _ A'(2), of 4] dvd_trans [OF _ B13, of 4] by simp_all
    have l: "3 * (unat sB div 4) \<le> 2 ^ LENGTH(64)" using unat_lt64 [of sB] by simp
    define R where "R = push_bit (m - 1) (drop_bit 1 A') - drop_bit 2 sB * v"
    note R = rem_word [OF d4 m(1) _ dp l, of v, folded R_def]
    have "softfloat_estimateDiv128To64 A' 0 sB \<bind> (\<lambda>q. Some (if 2 < q then q - 2 else 0)) = Some w" using w(1) unfolding rem_digit_def .
    then obtain q0 where q0: "softfloat_estimateDiv128To64 A' 0 sB = Some q0" "(if 2 < q0 then q0 - 2 else 0) = w"
      by (cases "softfloat_estimateDiv128To64 A' 0 sB") simp_all
    have "rem_reduce64 wA wB D = Some (v, R, drop_bit 2 sB)"
      unfolding rem_reduce64_def Let_def sB_def [symmetric] W_def [symmetric] q_def [symmetric] sA_def [symmetric] red bind.bind_lunit prod.case
        q0 m(3,4) v_def [symmetric] R_def [symmetric] using e by simp
    moreover have "rem_reduces 10 (unat wA) (unat wB) D (v, R, drop_bit 2 sB)"
      by (rule rem_reduces_large [OF fd(2) uB _ True _ _ n(1), where v = "unat v"])
         (use R n(2) uW True in \<open>simp_all add: m_def [symmetric]\<close>)
    ultimately show ?thesis by blast
  qed
qed

lemma roundPackToF64_zero:
  assumes "- 32768 \<le> ex" and "ex < 0"
  shows "softfloat_roundPackToF64 g ex 0 s = (packToF64UI g 0 0, s)"
proof -
  have "uint (word_of_int ex :: uint16_t) = ex + 65536"
  proof -
    have "ex mod 65536 = (ex + 65536) mod 65536" by simp
    also have "\<dots> = ex + 65536" using assms by (intro mod_pos_pos_trivial) simp_all
    finally show ?thesis by (simp add: uint_word_of_int)
  qed
  then have e: "0x7FD \<le> (word_of_int ex :: uint16_t)" using assms by (simp add: word_le_def)
  have "(word_of_int (- ex) :: uint32_t) \<noteq> 0" using assms unat_word_of_int_nat [of "- ex", where 'a = 32] by auto
  then have j: "softfloat_shift64RightJam 0 (word_of_int (- ex)) = 0" by (simp add: jam64.shift_zero_iff)
  show ?thesis unfolding softfloat_roundPackToF64_def Let_def j if_P [OF e] if_P [OF assms(2)] by simp
qed

lemma normRoundPackToF64_zero:
  assumes "- 30000 \<le> ex" and "ex \<le> 2047"
  shows "softfloat_normRoundPackToF64 g ex 0 s = (packToF64UI g 0 0, s)"
proof (cases "ex < 63")
  case True
  then have "softfloat_roundPackToF64 g (ex - 63) 0 s = (packToF64UI g 0 0, s)" using assms by (intro roundPackToF64_zero) simp_all
  then show ?thesis by (simp add: softfloat_normRoundPackToF64_def countLeadingZeros64_0 Let_def)
next
  case False
  then have "(word_of_int (ex - 63) :: uint16_t) < 0x7FD" using assms by (simp add: word_less_def uint_word_of_int del: of_int_diff)
  then show ?thesis by (simp add: softfloat_normRoundPackToF64_def countLeadingZeros64_0 Let_def)
qed

lemma f64_rem_finite:
  assumes "fl_mag a < 2047 * 2 ^ 52" and "fl_mag b < 2047 * 2 ^ 52" and "fl_mag b \<noteq> 0"
  shows "\<exists>z. f64_rem a b s = Some (z, s) \<and> ieee_rem 52 a b z"
  unfolding f64_rem_scheme
  by (rule sf64.rem_op_correct [OF assms rem_reduce64_law]) (use normRoundPackToF64_zero in simp_all)

section \<open>Single precision\<close>

definition rem_reduce32 :: "uint32_t \<Rightarrow> uint32_t \<Rightarrow> int \<Rightarrow> (uint32_t \<times> uint32_t \<times> uint32_t) option" where
  "rem_reduce32 sigA sigB expDiff =
     (if expDiff < 32
      then
        let sigA = push_bit 8 sigA;
            sigB = push_bit 8 sigB;
            sigA = (if expDiff < 0 then drop_bit 1 sigA else sigA);
            q = of_bool (sigB \<le> sigA);
            sigA = (if q \<noteq> 0 then sigA - sigB else sigA)
        in if 0 < expDiff
           then
             let q = ucast (push_bit 32 (ucast sigA :: uint64_t) div ucast sigB) :: uint32_t;
                 q = drop_bit (nat (32 - expDiff)) q;
                 sigB = drop_bit 2 sigB;
                 sigA = push_bit (nat (expDiff - 1)) (drop_bit 1 sigA) - sigB * q
             in Some (q, sigA, sigB)
           else Some (q, drop_bit 2 sigA, drop_bit 2 sigB)
      else
        let sigA = (if sigB \<le> sigA then sigA - sigB else sigA);
            sigA64 = push_bit 40 (ucast sigA) :: uint64_t;
            sigB64 = push_bit 40 (ucast sigB) :: uint64_t
        in do {
             (sigA64, expDiff) \<leftarrow> f32_rem_reduce sigB sigB64 sigA64 (expDiff - 64);
             let expDiff = expDiff + 64;
             q64 \<leftarrow> softfloat_estimateDiv128To64 sigA64 0 sigB64;
             let q64 = (if 2 < q64 then q64 - 2 else 0);
             let q = (ucast (drop_bit (nat (64 - expDiff)) q64) :: uint32_t);
             let sigB = push_bit 6 sigB;
             let sigA = ucast (push_bit (nat (expDiff - 1)) (drop_bit 33 sigA64) - ucast (sigB * q));
             Some (q, sigA, sigB)
           })"

lemma f32_rem_finish_pick:
  "f32_rem_finish signA expB q sigA sigB s =
    do { (signZ, sig) \<leftarrow> rem_pick q sigA sigB; Some (softfloat_normRoundPackToF32 (signA \<noteq> signZ) expB sig s) }"
proof -
  have e: "(2 :: uint32_t) ^ (LENGTH(32) - 1) = 0x80000000" by simp
  show ?thesis unfolding f32_rem_finish_def rem_pick_def Let_def split_def e Option.bind_assoc bind.bind_lunit fst_conv snd_conv ..
qed

lemma f32_rem_scheme: "f32_rem a b s = sf32.rem_op rem_reduce32 a b s"
proof -
  let ?norm = "\<lambda>c. if expF32UI c = 0
      then (es32_exp (softfloat_normSubnormalF32Sig (fracF32UI c)), es32_sig (softfloat_normSubnormalF32Sig (fracF32UI c)))
      else (expF32UI c, fracF32UI c)"
  obtain eA gA where nA: "?norm a = (eA, gA)" by fastforce
  obtain eB gB where nB: "?norm b = (eB, gB)" by fastforce
  define A B :: uint32_t where "A = gA OR 0x00800000" and "B = gB OR 0x00800000"
  define D where "D = eA - eB"
  have e: "(2::uint32_t) ^ 23 = 0x00800000" "int 255 = 0xFF" by simp_all
  have l: "D < - 1 \<Longrightarrow> D < 32" by simp
  show ?thesis
    unfolding f32_rem_def sf32.rem_op_def Let_def e nA nB prod.case A_def [symmetric] B_def [symmetric] D_def [symmetric] f32_rem_finish_pick
      rem_reduce32_def split_def Option.bind_assoc bind_if bind.bind_lunit fst_conv snd_conv
    using l by (cases "D < - 1"; cases "D < 32") (simp_all only: if_True if_False not_True_eq_False)
qed

lemma roundPackToF32_zero:
  assumes "- 32768 \<le> ex" and "ex < 0"
  shows "softfloat_roundPackToF32 g ex 0 s = (packToF32UI g 0 0, s)"
proof -
  have "uint (word_of_int ex :: uint16_t) = ex + 65536"
  proof -
    have "ex mod 65536 = (ex + 65536) mod 65536" by simp
    also have "\<dots> = ex + 65536" using assms by (intro mod_pos_pos_trivial) simp_all
    finally show ?thesis by (simp add: uint_word_of_int)
  qed
  then have e: "0xFD \<le> (word_of_int ex :: uint16_t)" using assms by (simp add: word_le_def)
  have "(word_of_int (- ex) :: uint32_t) \<noteq> 0" using assms unat_word_of_int_nat [of "- ex", where 'a = 32] by auto
  then have j: "softfloat_shift32RightJam 0 (word_of_int (- ex)) = 0" by (simp add: jam32.shift_zero_iff)
  show ?thesis unfolding softfloat_roundPackToF32_def Let_def j if_P [OF e] if_P [OF assms(2)] by simp
qed

lemma normRoundPackToF32_zero:
  assumes "- 30000 \<le> ex" and "ex \<le> 255"
  shows "softfloat_normRoundPackToF32 g ex 0 s = (packToF32UI g 0 0, s)"
proof (cases "ex < 31")
  case True
  then have "softfloat_roundPackToF32 g (ex - 31) 0 s = (packToF32UI g 0 0, s)" using assms by (intro roundPackToF32_zero) simp_all
  then show ?thesis by (simp add: softfloat_normRoundPackToF32_def countLeadingZeros32_0 Let_def)
next
  case False
  then have "(word_of_int (ex - 31) :: uint16_t) < 0xFD" using assms by (simp add: word_less_def uint_word_of_int del: of_int_diff)
  then show ?thesis by (simp add: softfloat_normRoundPackToF32_def countLeadingZeros32_0 Let_def)
qed


lemma f32_rem_reduce_64:
  assumes "unat sigB < 2 ^ 24"
  shows "f32_rem_reduce sigB (push_bit 40 (ucast sigB)) A e =
    map_option snd (f64_rem_reduce (push_bit 40 (ucast sigB)) q A e)"
proof (induction "nat e" arbitrary: q A e rule: less_induct)
  case less
  let ?B = "push_bit 40 (ucast sigB) :: uint64_t"
  have "unat ?B = unat sigB * 2 ^ 40"
    using assms by (subst unat_push_bit_small) (simp_all add: unat_ucast64)
  then have "unat (drop_bit 2 ?B) = unat sigB * 2 ^ 38" by (simp add: unat_drop_bit_div)
  then have "drop_bit 2 ?B = of_nat (unat sigB * 2 ^ 38)" by (rule word_eq_of_nat)
  also have "\<dots> = push_bit 38 (ucast sigB)" by (simp add: push_bit_eq_mult unsigned_of_nat)
  finally have "drop_bit 2 ?B = push_bit 38 (ucast sigB)" .
  then have d: "drop_bit 2 ?B * w = push_bit 38 (ucast sigB * w)" for w by (simp add: push_bit_eq_mult mult_ac)
  show ?case
  proof (cases "0 < e")
    case True
    then have IH: "f32_rem_reduce sigB ?B A' (e - 62) = map_option snd (f64_rem_reduce ?B q' A' (e - 62))" for q' A'
      using less.hyps [of "e - 62" A' q'] by simp
    show ?thesis
    proof (cases "softfloat_estimateDiv128To64 A 0 ?B")
      case None
      with True show ?thesis by (subst f32_rem_reduce.simps, subst f64_rem_reduce.simps) simp
    next
      case (Some q0)
      define q' where "q' = (if 2 < q0 then q0 - 2 else 0)"
      have "f32_rem_reduce sigB ?B A e = f32_rem_reduce sigB ?B (- push_bit 38 (ucast sigB * q')) (e - 62)"
        "f64_rem_reduce ?B q A e = f64_rem_reduce ?B q' (- (drop_bit 2 ?B * q')) (e - 62)"
        using True by (subst f32_rem_reduce.simps f64_rem_reduce.simps, simp only: Some bind.bind_lunit Let_def q'_def [symmetric] if_True)+
      then show ?thesis unfolding d by (simp only: IH [of _ q'])
    qed
  next
    case False
    then show ?thesis by (subst f32_rem_reduce.simps, subst f64_rem_reduce.simps) simp
  qed
qed

lemma ucast32_hom:
  fixes x y :: uint64_t
  shows "(ucast (x - y) :: uint32_t) = ucast x - ucast y" and "(ucast (push_bit n x) :: uint32_t) = push_bit n (ucast x)"
    and "(ucast (ucast z :: uint64_t) :: uint32_t) = z"
proof -
  show "(ucast (x - y) :: uint32_t) = ucast x - ucast y"
  proof -
    have "(ucast (a + b) :: uint32_t) = ucast a + ucast b" for a b :: uint64_t
    proof -
      have "((unat a + unat b) mod 2 ^ 64) mod 2 ^ 32 = (unat a + unat b) mod 2 ^ 32"
        by (rule mod_mod_cancel) (simp add: le_imp_power_dvd)
      then show ?thesis unfolding word_unat_eq_iff by (simp add: unat_ucast_mod unat_word_ariths mod_simps)
    qed
    from this [of "x - y" y] show ?thesis by simp
  qed
  show "(ucast (push_bit n x) :: uint32_t) = push_bit n (ucast x)"
    by (rule bit_word_eqI) (auto simp: bit_simps)
  show "(ucast (ucast z :: uint64_t) :: uint32_t) = z" by (rule bit_word_eqI) (auto simp: bit_simps)
qed

lemma rem_reduce32_small:
  assumes A: "2 ^ 23 \<le> unat wA" "unat wA < 2 ^ Suc 23" and B: "2 ^ 23 \<le> unat wB" "unat wB < 2 ^ Suc 23" and D: "- 1 \<le> D" "D < 32"
  shows "\<exists>r. rem_reduce32 wA wB D = Some r \<and> rem_reduces 7 (unat wA) (unat wB) D r"
proof -
  define sB where "sB = push_bit 8 wB"
  have uB: "unat sB = unat wB * 2 ^ (7 + 1)" unfolding sB_def using unat_push_bit_small [of wB 8] B(2) by simp
  define W where "W = (if D < 0 then drop_bit 1 (push_bit 8 wA) else push_bit 8 wA)"
  have "unat (push_bit 8 wA) = unat wA * 2 ^ 8" using unat_push_bit_small [of wA 8] A(2) by simp
  then have uW: "unat W = (if D < 0 then unat wA * 2 ^ 7 else unat wA * 2 ^ 8)" unfolding W_def by (simp add: unat_drop_bit_div)
  define q where "q = (of_bool (sB \<le> W) :: uint32_t)"
  define sA where "sA = (if q \<noteq> 0 then W - sB else W)"
  have "unat W < 2 * unat sB" unfolding uW uB using A(2) B(1) by simp
  note fd = first_digit [OF this, folded q_def, folded sA_def]
  note defs = rem_reduce32_def Let_def sB_def [symmetric] W_def [symmetric] q_def [symmetric] sA_def [symmetric]
  show ?thesis
  proof (cases "0 < D")
    case False
    then have "rem_reduce32 wA wB D = Some (q, drop_bit 2 sA, drop_bit 2 sB)" unfolding defs by simp
    moreover have "rem_reduces 7 (unat wA) (unat wB) D (q, drop_bit 2 sA, drop_bit 2 sB)"
    proof (rule rem_reduces_small [OF fd(2,1) q_def uB _ D(1)])
      have "D = 0 \<or> D = - 1" using False D by linarith
      then show "unat W = unat wA * 2 ^ nat (D + int 7 + 1)" unfolding uW by auto
    qed simp
    ultimately show ?thesis by blast
  next
    case True
    define Q where "Q = unat sA * 2 ^ 32 div unat sB"
    have sB0: "0 < unat sB" using fd(1) by simp
    define w where "w = (ucast (push_bit 32 (ucast sA :: uint64_t) div ucast sB) :: uint32_t)"
    have uA: "unat (push_bit 32 (ucast sA) :: uint64_t) = unat sA * 2 ^ 32"
      by (subst unat_push_bit_small) (use unat_lt32 [of sA] in \<open>simp_all add: unat_ucast_up\<close>)
    have "unat sA * 2 ^ 32 < unat sB * 2 ^ 32" using fd(1) by simp
    then have ql: "Q < 2 ^ 32" unfolding Q_def by (simp add: div_less_iff_less_mult sB0 mult.commute)
    have "unat (push_bit 32 (ucast sA :: uint64_t) div ucast sB) = Q" by (simp add: unat_div uA unat_ucast_up Q_def)
    then have w: "unat w = Q" unfolding w_def unat_ucast_mod using ql by simp
    have Ql: "Q * unat sB \<le> unat sA * 2 ^ 32" unfolding Q_def by (rule div_times_less_eq_dividend)
    have "unat sA * 2 ^ 32 < (Q + 1) * unat sB" unfolding Q_def using dividend_less_div_times [OF sB0, of "unat sA * 2 ^ 32"] by simp
    also have "\<dots> \<le> (Q + 3) * unat sB" by (rule mult_le_mono1) simp
    finally have Qh: "unat sA * 2 ^ 32 < (Q + 3) * unat sB" .
    define m where "m = nat D"
    have m: "1 \<le> m" "m \<le> 32" "nat (32 - D) = 32 - m" "nat (D - 1) = m - 1" using True D(2) unfolding m_def by auto
    define v where "v = drop_bit (32 - m) w"
    have uv: "unat v = Q div 2 ^ (32 - m)" by (simp add: v_def unat_drop_bit_div w)
    note dp = digit_prefix [OF Ql Qh m(2), folded uv]
    have B4: "4 dvd unat sB" unfolding uB by simp
    have "4 dvd unat W" unfolding uW using True by simp
    then have A4: "4 dvd unat sA" using B4 fd(2) by (metis dvd_add_right_iff dvd_mult)
    have l: "3 * (unat sB div 4) \<le> 2 ^ LENGTH(32)" using unat_lt32 [of sB] by simp
    define R where "R = push_bit (m - 1) (drop_bit 1 sA) - drop_bit 2 sB * v"
    note R = rem_word [OF A4 B4 m(1) _ dp l, of v, folded R_def]
    have "rem_reduce32 wA wB D = Some (v, R, drop_bit 2 sB)"
      unfolding defs m(3,4) w_def [symmetric] v_def [symmetric] R_def [symmetric] using True D(2) by simp
    moreover have "rem_reduces 7 (unat wA) (unat wB) D (v, R, drop_bit 2 sB)"
      by (rule rem_reduces_large [OF fd(2) uB _ True, where v = "unat v" and n = 0])
         (use R uW True in \<open>simp_all add: m_def [symmetric]\<close>)
    ultimately show ?thesis by blast
  qed
qed

lemma rem_reduce32_large:
  assumes A: "2 ^ 23 \<le> unat wA" "unat wA < 2 ^ Suc 23" and B: "2 ^ 23 \<le> unat wB" "unat wB < 2 ^ Suc 23" and D: "32 \<le> D"
  shows "\<exists>r. rem_reduce32 wA wB D = Some r \<and> rem_reduces 7 (unat wA) (unat wB) D r"
proof -
  define sA where "sA = (if wB \<le> wA then wA - wB else wA)"
  have "unat wA < 2 * unat wB" using A(2) B(1) by simp
  note fd = first_digit [OF this, folded sA_def]
  have fd': "unat sA < unat wB" "unat wA = of_bool (wB \<le> wA) * unat wB + unat sA" using fd unfolding sA_def by simp_all
  define A64 B64 where "A64 = (push_bit 40 (ucast sA) :: uint64_t)" and "B64 = (push_bit 40 (ucast wB) :: uint64_t)"
  have u64: "unat A64 = unat sA * 2 ^ 40" "unat B64 = unat wB * 2 ^ 40"
    unfolding A64_def B64_def by (subst unat_push_bit_small; use fd'(1) B(2) in \<open>simp add: unat_ucast64\<close>)+
  have B63: "2 ^ 63 \<le> unat B64" and B40: "2 ^ (38 + 2) dvd unat B64" and A38: "2 ^ 38 dvd unat A64" and AB: "unat A64 < unat B64"
    unfolding u64 using B(1) fd'(1) by (simp_all add: dvd_mult)
  obtain q' A' e n where red: "f64_rem_reduce B64 0 A64 (D - 64) = Some (q', A', e)" and e: "- 64 < e" "e \<le> 0"
    and A': "unat A' < unat B64" "2 ^ 38 dvd unat A'" and n: "even n" "unat A64 * 2 ^ nat D = n * unat B64 + unat A' * 2 ^ nat (e + 64)"
  proof (cases "0 < D - 64")
    case True
    then show thesis using f64_rem_reduce_law [OF B63 B40 _ AB A38 True, of 0] that by force
  next
    case False
    then have "f64_rem_reduce B64 0 A64 (D - 64) = Some (0, A64, D - 64)" by (subst f64_rem_reduce_step) simp
    then show thesis by (rule that [where n = 0]) (use False D A38 AB in simp_all)
  qed
  obtain w where w: "rem_digit A' B64 = Some w" "unat w * unat B64 \<le> unat A' * 2 ^ 64" "unat A' * 2 ^ 64 < (unat w + 3) * unat B64"
    using rem_digit [OF B63 A'(1)] by blast
  define m where "m = nat (e + 64)"
  have m: "1 \<le> m" "m \<le> 64" "nat (64 - (e + 64)) = 64 - m" "nat (e + 64 - 1) = m - 1" using e unfolding m_def by auto
  define v where "v = unat w div 2 ^ (64 - m)"
  note dp = digit_prefix [OF w(2,3) m(2), folded v_def]
  define W sB A32 :: uint32_t where "W = push_bit 8 wA" and "sB = push_bit 8 wB" and "A32 = ucast (drop_bit 32 A')"
  have uW: "unat W = unat wA * 2 ^ (7 + 1)" and uB: "unat sB = unat wB * 2 ^ (7 + 1)"
    unfolding W_def sB_def using unat_push_bit_small [of wA 8] unat_push_bit_small [of wB 8] A(2) B(2) by simp_all
  have B32: "unat B64 = unat sB * 2 ^ 32" unfolding uB u64 by simp
  have uA32: "unat A' = unat A32 * 2 ^ 32" and A4: "4 dvd unat A32"
  proof -
    obtain c where c: "unat A' = 2 ^ 38 * c" using A'(2) by (elim dvdE)
    have "unat A' div 2 ^ 32 < 2 ^ 32" using unat_lt64 [of A'] by (simp add: div_less_iff_less_mult)
    then have "unat A32 = unat A' div 2 ^ 32" by (simp add: A32_def unat_ucast_mod unat_drop_bit_div)
    then have "unat A32 = 64 * c" unfolding c by simp
    then show "unat A' = unat A32 * 2 ^ 32" "4 dvd unat A32" unfolding c by simp_all
  qed
  have B4: "4 dvd unat sB" unfolding uB by simp
  have l: "3 * (unat sB div 4) \<le> 2 ^ LENGTH(32)" using unat_lt32 [of sB] by simp
  have dp': "v * unat sB \<le> unat A32 * 2 ^ m" "unat A32 * 2 ^ m < (v + 3) * unat sB"
  proof -
    have "v * unat sB * 2 ^ 32 \<le> unat A32 * 2 ^ m * 2 ^ 32" using dp(1) unfolding B32 uA32 by (simp only: mult_ac)
    then show "v * unat sB \<le> unat A32 * 2 ^ m" by simp
    have "unat A32 * 2 ^ m * 2 ^ 32 < (v + 3) * unat sB * 2 ^ 32" using dp(2) unfolding B32 uA32 by (simp only: mult_ac)
    then show "unat A32 * 2 ^ m < (v + 3) * unat sB" by simp
  qed
  define q :: uint32_t where "q = ucast (drop_bit (64 - m) w)"
  have uq: "unat (drop_bit (64 - m) w) = v" by (simp add: v_def unat_drop_bit_div)
  then have qv: "q = of_nat v" unfolding q_def word_unat_eq_iff unat_ucast_mod by (simp add: unat_of_nat)
  have odd: "odd (unat q) \<longleftrightarrow> odd v" unfolding qv by (simp add: even_unat_iff)
  define R where "R = push_bit (m - 1) (drop_bit 1 A32) - drop_bit 2 sB * q"
  note R = rem_word [OF A4 B4 m(1) qv dp' l, folded R_def]
  have d2: "drop_bit 2 sB = push_bit 6 wB"
  proof -
    have "unat (push_bit 6 wB) = unat wB * 2 ^ 6" using unat_push_bit_small [of wB 6] B(2) by simp
    then show ?thesis unfolding word_unat_eq_iff unat_drop_bit_div uB by simp
  qed
  have d33: "ucast (drop_bit 33 A') = drop_bit 1 A32"
  proof -
    have "unat A' div 2 ^ 33 < 2 ^ 32" using unat_lt64 [of A'] by (simp add: div_less_iff_less_mult)
    then show ?thesis unfolding word_unat_eq_iff unat_ucast_mod unat_drop_bit_div uA32 by simp
  qed
  have Rc: "ucast (push_bit (m - 1) (drop_bit 33 A') - ucast (push_bit 6 wB * q)) = R"
    unfolding ucast32_hom d33 R_def d2 ..
  have "softfloat_estimateDiv128To64 A' 0 B64 \<bind> (\<lambda>q. Some (if 2 < q then q - 2 else 0)) = Some w" using w(1) unfolding rem_digit_def .
  then obtain q0 where q0: "softfloat_estimateDiv128To64 A' 0 B64 = Some q0" "(if 2 < q0 then q0 - 2 else 0) = w"
    by (cases "softfloat_estimateDiv128To64 A' 0 B64") simp_all
  have red32: "f32_rem_reduce wB B64 A64 (D - 64) = Some (A', e)"
    using f32_rem_reduce_64 [of wB A64 "D - 64" 0] B(2) red unfolding B64_def by simp
  have D': "\<not> D < 32" using D by simp
  have "rem_reduce32 wA wB D = Some (q, R, drop_bit 2 sB)"
    unfolding rem_reduce32_def if_not_P [OF D'] Let_def sA_def [symmetric] A64_def [symmetric] B64_def [symmetric] red32 bind.bind_lunit prod.case
      q0 m(3,4) q_def [symmetric] Rc d2 ..
  moreover have "rem_reduces 7 (unat wA) (unat wB) D (q, R, drop_bit 2 sB)"
  proof (rule rem_reduces_large [where W = W and A = "push_bit 8 sA" and v = v and n = n, OF _ uB uW])
    have uA: "unat (push_bit 8 sA) = unat sA * 2 ^ 8" using unat_push_bit_small [of sA 8] fd'(1) B(2) by simp
    show "unat W = of_bool (wB \<le> wA) * unat sB + unat (push_bit 8 sA)" unfolding uW uB uA by (subst fd'(2)) (simp add: distrib_right)
    have "unat A64 = unat (push_bit 8 sA) * 2 ^ 32" unfolding u64 uA by simp
    then have "unat (push_bit 8 sA) * 2 ^ nat D * 2 ^ 32 = (n * unat sB + unat A32 * 2 ^ m) * 2 ^ 32"
      using n(2) unfolding B32 uA32 m_def [symmetric] by (simp only: distrib_left distrib_right mult_ac)
    then have "unat (push_bit 8 sA) * 2 ^ nat D = n * unat sB + unat A32 * 2 ^ m" by simp
    then show "unat (push_bit 8 sA) * 2 ^ nat D = n * unat sB + (4 * unat R + v * unat sB)" unfolding R(1) .
  qed (use D n(1) odd R(2) in simp_all)
  ultimately show ?thesis by blast
qed

lemma rem_reduce32_law:
  assumes "2 ^ 23 \<le> unat wA" and "unat wA < 2 ^ Suc 23" and "2 ^ 23 \<le> unat wB" and "unat wB < 2 ^ Suc 23" and "- 1 \<le> D"
  shows "\<exists>r. rem_reduce32 wA wB D = Some r \<and> rem_reduces 7 (unat wA) (unat wB) D r"
  using rem_reduce32_small [OF assms] rem_reduce32_large [OF assms(1-4)] by fastforce

lemma f32_rem_finite:
  assumes "fl_mag a < 255 * 2 ^ 23" and "fl_mag b < 255 * 2 ^ 23" and "fl_mag b \<noteq> 0"
  shows "\<exists>z. f32_rem a b s = Some (z, s) \<and> ieee_rem 23 a b z"
  unfolding f32_rem_scheme
  by (rule sf32.rem_op_correct [OF assms rem_reduce32_law]) (use normRoundPackToF32_zero in simp_all)

section \<open>Both formats\<close>

text \<open>
  Property C21: \<^const>\<open>f32_rem\<close> and \<^const>\<open>f64_rem\<close> of finite numbers, the divisor not zero, return (all their loops end) the exact IEEE
  remainder, whatever the distance of the exponents, and change no state: nothing is rounded and no flag is raised.
\<close>

theorem rem_correct:
  assumes "fl_mag a < 255 * 2 ^ 23" and "fl_mag b < 255 * 2 ^ 23" and "fl_mag b \<noteq> 0"
    and "fl_mag c < 2047 * 2 ^ 52" and "fl_mag d < 2047 * 2 ^ 52" and "fl_mag d \<noteq> 0"
  shows "(\<exists>z. f32_rem a b s = Some (z, s) \<and> ieee_rem 23 a b z) \<and> (\<exists>z. f64_rem c d s = Some (z, s) \<and> ieee_rem 52 c d z)"
  using f32_rem_finite [OF assms(1-3)] f64_rem_finite [OF assms(4-6)] by blast

theorem rem_correct_witness:
  "(\<exists>z. f32_rem 0x7F7FFFFF 0x40400000 init_state = Some (z, init_state) \<and> ieee_rem 23 (0x7F7FFFFF :: uint32_t) 0x40400000 z) \<and>
   (\<exists>z. f64_rem 0x4014000000000000 0x4008000000000000 init_state = Some (z, init_state) \<and>
      ieee_rem 52 (0x4014000000000000 :: uint64_t) 0x4008000000000000 z)"
  using rem_correct [of "0x7F7FFFFF" "0x40400000" "0x4014000000000000" "0x4008000000000000" init_state] by (simp add: fl_mag_def)

text \<open>
  Property C27: the remainder with a NaN or an infinite operand or a zero divisor: NaNs propagate, an infinite dividend or a zero
  divisor is invalid, and a finite dividend is its own remainder by an infinity.
\<close>

theorem rem_special:
  assumes "255 * 2 ^ 23 \<le> fl_mag a \<or> 255 * 2 ^ 23 \<le> fl_mag b \<or> fl_mag b = 0"
    and "2047 * 2 ^ 52 \<le> fl_mag c \<or> 2047 * 2 ^ 52 \<le> fl_mag d \<or> fl_mag d = 0"
  shows "f32_rem a b s = Some
    (if fl_nan 23 255 a \<or> fl_nan 23 255 b then softfloat_propagateNaNF32UI a b s
     else if fl_mag a = 255 * 2 ^ 23 \<or> fl_mag b = 0 then (defaultNaNF32UI, softfloat_raiseFlags softfloat_flag_invalid s)
     else (a, s)) \<and>
   f64_rem c d s = Some
    (if fl_nan 52 2047 c \<or> fl_nan 52 2047 d then softfloat_propagateNaNF64UI c d s
     else if fl_mag c = 2047 * 2 ^ 52 \<or> fl_mag d = 0 then (defaultNaNF64UI, softfloat_raiseFlags softfloat_flag_invalid s)
     else (c, s))"
  unfolding f32_rem_scheme f64_rem_scheme
  using sf32.rem_op_special [OF assms(1)] sf64.rem_op_special [OF assms(2)] by blast

theorem rem_special_witness:
  "f32_rem 0x7F800000 0x3F800000 init_state = Some (defaultNaNF32UI, softfloat_raiseFlags softfloat_flag_invalid init_state) \<and>
   f64_rem 0x3FF0000000000000 0x7FF0000000000000 init_state = Some (0x3FF0000000000000, init_state)"
  using rem_special [of "0x7F800000" "0x3F800000" "0x3FF0000000000000" "0x7FF0000000000000" init_state]
  by (simp add: fl_mag_def fl_nan_def)

end
