(* ===== verification/Float_MulAdd.thy ===== *)
theory Float_MulAdd
  imports Float_Mul
begin

text \<open>
  Fused multiply-add (\<^verbatim>\<open>source/s_mulAddF32.c\<close>, \<^verbatim>\<open>s_mulAddF64.c\<close>, \<^verbatim>\<open>f*_mulAdd.c\<close>). Each routine is split
  where its special cases end: the part that computes with finite nonzero operands is a
  definition of its own.
\<close>

section \<open>The routines\<close>

abbreviation softfloat_mulAdd_subC :: int where
  "softfloat_mulAdd_subC \<equiv> 1"
abbreviation softfloat_mulAdd_subProd :: int where
  "softfloat_mulAdd_subProd \<equiv> 2"

text \<open>
  The arithmetic part, after the special cases: from the product of the significands to the
  label \<^verbatim>\<open>roundPack\<close> or \<^verbatim>\<open>completeCancellation\<close>. \<open>expProd\<close>, \<open>sigA\<close>, \<open>sigB\<close> are the C variables
  before the shifts of the significands.
\<close>

definition softfloat_mulAddF32_finite ::
  "bool \<Rightarrow> bool \<Rightarrow> int \<Rightarrow> uint32_t \<Rightarrow> uint32_t \<Rightarrow> int \<Rightarrow> uint32_t \<Rightarrow> float32_t \<times> fp_state \<Rightarrow> fp_state \<Rightarrow>
    float32_t \<times> fp_state" where
  "softfloat_mulAddF32_finite signProd signC expProd sigA sigB expC sigC completeCancellation s =
     (let sigA = push_bit 7 (sigA OR 0x00800000);
          sigB = push_bit 7 (sigB OR 0x00800000);
          sigProd = ucast sigA * ucast sigB :: uint64_t;
          (expProd, sigProd) =
            (if sigProd < 0x2000000000000000 then (expProd - 1, push_bit 1 sigProd) else (expProd, sigProd));
          signZ = signProd
      in if expC = 0 \<and> sigC = 0
         then softfloat_roundPackToF32 signZ (expProd - 1) (ucast (softfloat_shortShift64RightJam sigProd 31)) s
         else
           let normExpSig = softfloat_normSubnormalF32Sig sigC;
               (expC, sigC) = (if expC = 0 then (es32_exp normExpSig, es32_sig normExpSig) else (expC, sigC));
               sigC = push_bit 6 (sigC OR 0x00800000);
               expDiff = expProd - expC
           in if signProd = signC
              then
                let (expZ, sigZ) =
                  (if expDiff \<le> 0
                   then (expC, sigC + ucast (softfloat_shift64RightJam sigProd (word_of_int (32 - expDiff))))
                   else
                     let sigZ64 = sigProd + softfloat_shift64RightJam (push_bit 32 (ucast sigC)) (word_of_int expDiff)
                     in (expProd, ucast (softfloat_shortShift64RightJam sigZ64 32)))
                in if sigZ < 0x40000000
                   then softfloat_roundPackToF32 signZ (expZ - 1) (push_bit 1 sigZ) s
                   else softfloat_roundPackToF32 signZ expZ sigZ s
              else
                let sigC64 = push_bit 32 (ucast sigC) :: uint64_t;
                    finish = (\<lambda>signZ expZ sigZ64.
                      let shiftCount = softfloat_countLeadingZeros64 sigZ64 - 1;
                          expZ = expZ - shiftCount;
                          shiftCount = shiftCount - 32;
                          sigZ = (if shiftCount < 0
                                  then ucast (softfloat_shortShift64RightJam sigZ64 (word_of_int (- shiftCount)))
                                  else push_bit (nat shiftCount) (ucast sigZ64))
                      in softfloat_roundPackToF32 signZ expZ sigZ s)
                in if expDiff < 0
                   then finish signC expC (sigC64 - softfloat_shift64RightJam sigProd (word_of_int (- expDiff)))
                   else if expDiff = 0
                   then
                     let sigZ64 = sigProd - sigC64
                     in if sigZ64 = 0 then completeCancellation
                        else if sigZ64 AND 0x8000000000000000 \<noteq> 0 then finish (\<not> signZ) expProd (- sigZ64)
                        else finish signZ expProd sigZ64
                   else finish signZ expProd (sigProd - softfloat_shift64RightJam sigC64 (word_of_int expDiff)))"

definition softfloat_mulAddF32 ::
  "int \<Rightarrow> uint32_t \<Rightarrow> uint32_t \<Rightarrow> uint32_t \<Rightarrow> fp_state \<Rightarrow> float32_t \<times> fp_state" where
  "softfloat_mulAddF32 op uiA uiB uiC s =
     (let signA = signF32UI uiA;
          expA = expF32UI uiA;
          sigA = fracF32UI uiA;
          signB = signF32UI uiB;
          expB = expF32UI uiB;
          sigB = fracF32UI uiB;
          signC = (signF32UI uiC \<noteq> (op = softfloat_mulAdd_subC));
          expC = expF32UI uiC;
          sigC = fracF32UI uiC;
          signProd = ((signA \<noteq> signB) \<noteq> (op = softfloat_mulAdd_subProd));
          propagateNaN_ZC = (\<lambda>uiZ s. softfloat_propagateNaNF32UI uiZ uiC s);
          propagateNaN_ABC = (let (uiZ, s) = softfloat_propagateNaNF32UI uiA uiB s in propagateNaN_ZC uiZ s);
          invalid = propagateNaN_ZC defaultNaNF32UI (softfloat_raiseFlags softfloat_flag_invalid s);
          infProdArg = (\<lambda>magBits :: uint32_t.
            if magBits \<noteq> 0
            then let uiZ = packToF32UI signProd 0xFF 0
                 in if expC \<noteq> 0xFF then (uiZ, s)
                    else if sigC \<noteq> 0 then propagateNaN_ZC uiZ s
                    else if signProd = signC then (uiZ, s)
                    else invalid
            else invalid);
          completeCancellation = (packToF32UI (softfloat_roundingMode s = softfloat_round_min) 0 0, s);
          zeroProd = (if word_of_int expC OR sigC = 0 \<and> signProd \<noteq> signC then completeCancellation else (uiC, s))
      in if expA = 0xFF
         then if sigA \<noteq> 0 \<or> (expB = 0xFF \<and> sigB \<noteq> 0) then propagateNaN_ABC
              else infProdArg (word_of_int expB OR sigB)
         else if expB = 0xFF
         then if sigB \<noteq> 0 then propagateNaN_ABC else infProdArg (word_of_int expA OR sigA)
         else if expC = 0xFF
         then if sigC \<noteq> 0 then propagateNaN_ZC 0 s else (uiC, s)
         else if expA = 0 \<and> sigA = 0 then zeroProd
         else
           let normExpSig = softfloat_normSubnormalF32Sig sigA;
               (expA, sigA) = (if expA = 0 then (es32_exp normExpSig, es32_sig normExpSig) else (expA, sigA))
           in if expB = 0 \<and> sigB = 0 then zeroProd
              else
                let normExpSig = softfloat_normSubnormalF32Sig sigB;
                    (expB, sigB) = (if expB = 0 then (es32_exp normExpSig, es32_sig normExpSig) else (expB, sigB))
                in softfloat_mulAddF32_finite signProd signC (expA + expB - 0x7E) sigA sigB expC sigC
                     completeCancellation s)"

definition softfloat_mulAddF64_finite ::
  "bool \<Rightarrow> bool \<Rightarrow> int \<Rightarrow> uint64_t \<Rightarrow> uint64_t \<Rightarrow> int \<Rightarrow> uint64_t \<Rightarrow> float64_t \<times> fp_state \<Rightarrow> fp_state \<Rightarrow>
    float64_t \<times> fp_state" where
  "softfloat_mulAddF64_finite signProd signC expProd sigA sigB expC sigC completeCancellation s =
     (let sigA = push_bit 10 (sigA OR 0x0010000000000000);
          sigB = push_bit 10 (sigB OR 0x0010000000000000);
          sigProd = softfloat_mul64To128 sigA sigB;
          (expProd, sigProd) =
            (if u128_v64 sigProd < 0x2000000000000000
             then (expProd - 1, softfloat_shortShift128Left (u128_v64 sigProd) (u128_v0 sigProd) 1)
             else (expProd, sigProd));
          signZ = signProd
      in if expC = 0 \<and> sigC = 0
         then softfloat_roundPackToF64 signZ (expProd - 1)
                (push_bit 1 (u128_v64 sigProd) OR of_bool (u128_v0 sigProd \<noteq> 0)) s
         else
           let normExpSig = softfloat_normSubnormalF64Sig sigC;
               (expC, sigC) = (if expC = 0 then (es64_exp normExpSig, es64_sig normExpSig) else (expC, sigC));
               sigC = push_bit 9 (sigC OR 0x0010000000000000);
               expDiff = expProd - expC
           in if signProd = signC
              then
                let (expZ, sigZ) =
                  (if expDiff \<le> 0
                   then
                     let v64 = (if expDiff \<noteq> 0
                                then softfloat_shift64RightJam (u128_v64 sigProd) (word_of_int (- expDiff))
                                else u128_v64 sigProd)
                     in (expC, (sigC + v64) OR of_bool (u128_v0 sigProd \<noteq> 0))
                   else
                     let sigC128 = softfloat_shift128RightJam sigC 0 (word_of_int expDiff);
                         sigZ128 = softfloat_add128 (u128_v64 sigProd) (u128_v0 sigProd)
                                     (u128_v64 sigC128) (u128_v0 sigC128)
                     in (expProd, u128_v64 sigZ128 OR of_bool (u128_v0 sigZ128 \<noteq> 0)))
                in if sigZ < 0x4000000000000000
                   then softfloat_roundPackToF64 signZ (expZ - 1) (push_bit 1 sigZ) s
                   else softfloat_roundPackToF64 signZ expZ sigZ s
              else
                let finish = (\<lambda>signZ expZ sigZ128.
                      let (expZ, sigZ128) =
                            (if u128_v64 sigZ128 = 0
                             then (expZ - 64, \<lparr>u128_v64 = u128_v0 sigZ128, u128_v0 = 0\<rparr>)
                             else (expZ, sigZ128));
                          shiftCount = softfloat_countLeadingZeros64 (u128_v64 sigZ128) - 1;
                          expZ = expZ - shiftCount;
                          (sigZ, sigZ128) =
                            (if shiftCount < 0
                             then (softfloat_shortShift64RightJam (u128_v64 sigZ128) (word_of_int (- shiftCount)), sigZ128)
                             else let sigZ128 = softfloat_shortShift128Left (u128_v64 sigZ128) (u128_v0 sigZ128)
                                                  (word_of_int shiftCount)
                                  in (u128_v64 sigZ128, sigZ128));
                          sigZ = sigZ OR of_bool (u128_v0 sigZ128 \<noteq> 0)
                      in softfloat_roundPackToF64 signZ expZ sigZ s)
                in if expDiff < 0
                   then
                     let sigProd = softfloat_shift128RightJam (u128_v64 sigProd) (u128_v0 sigProd) (word_of_int (- expDiff))
                     in finish signC expC (softfloat_sub128 sigC 0 (u128_v64 sigProd) (u128_v0 sigProd))
                   else if expDiff = 0
                   then
                     let sigZ128 = softfloat_sub128 (u128_v64 sigProd) (u128_v0 sigProd) sigC 0
                     in if u128_v64 sigZ128 OR u128_v0 sigZ128 = 0 then completeCancellation
                        else if u128_v64 sigZ128 AND 0x8000000000000000 \<noteq> 0
                        then finish (\<not> signZ) expProd (softfloat_sub128 0 0 (u128_v64 sigZ128) (u128_v0 sigZ128))
                        else finish signZ expProd sigZ128
                   else
                     let sigC128 = softfloat_shift128RightJam sigC 0 (word_of_int expDiff)
                     in finish signZ expProd
                          (softfloat_sub128 (u128_v64 sigProd) (u128_v0 sigProd) (u128_v64 sigC128) (u128_v0 sigC128)))"

definition softfloat_mulAddF64 ::
  "int \<Rightarrow> uint64_t \<Rightarrow> uint64_t \<Rightarrow> uint64_t \<Rightarrow> fp_state \<Rightarrow> float64_t \<times> fp_state" where
  "softfloat_mulAddF64 op uiA uiB uiC s =
     (let signA = signF64UI uiA;
          expA = expF64UI uiA;
          sigA = fracF64UI uiA;
          signB = signF64UI uiB;
          expB = expF64UI uiB;
          sigB = fracF64UI uiB;
          signC = (signF64UI uiC \<noteq> (op = softfloat_mulAdd_subC));
          expC = expF64UI uiC;
          sigC = fracF64UI uiC;
          signProd = ((signA \<noteq> signB) \<noteq> (op = softfloat_mulAdd_subProd));
          propagateNaN_ZC = (\<lambda>uiZ s. softfloat_propagateNaNF64UI uiZ uiC s);
          propagateNaN_ABC = (let (uiZ, s) = softfloat_propagateNaNF64UI uiA uiB s in propagateNaN_ZC uiZ s);
          invalid = propagateNaN_ZC defaultNaNF64UI (softfloat_raiseFlags softfloat_flag_invalid s);
          infProdArg = (\<lambda>magBits :: uint64_t.
            if magBits \<noteq> 0
            then let uiZ = packToF64UI signProd 0x7FF 0
                 in if expC \<noteq> 0x7FF then (uiZ, s)
                    else if sigC \<noteq> 0 then propagateNaN_ZC uiZ s
                    else if signProd = signC then (uiZ, s)
                    else invalid
            else invalid);
          completeCancellation = (packToF64UI (softfloat_roundingMode s = softfloat_round_min) 0 0, s);
          zeroProd = (if word_of_int expC OR sigC = 0 \<and> signProd \<noteq> signC then completeCancellation else (uiC, s))
      in if expA = 0x7FF
         then if sigA \<noteq> 0 \<or> (expB = 0x7FF \<and> sigB \<noteq> 0) then propagateNaN_ABC
              else infProdArg (word_of_int expB OR sigB)
         else if expB = 0x7FF
         then if sigB \<noteq> 0 then propagateNaN_ABC else infProdArg (word_of_int expA OR sigA)
         else if expC = 0x7FF
         then if sigC \<noteq> 0 then propagateNaN_ZC 0 s else (uiC, s)
         else if expA = 0 \<and> sigA = 0 then zeroProd
         else
           let normExpSig = softfloat_normSubnormalF64Sig sigA;
               (expA, sigA) = (if expA = 0 then (es64_exp normExpSig, es64_sig normExpSig) else (expA, sigA))
           in if expB = 0 \<and> sigB = 0 then zeroProd
              else
                let normExpSig = softfloat_normSubnormalF64Sig sigB;
                    (expB, sigB) = (if expB = 0 then (es64_exp normExpSig, es64_sig normExpSig) else (expB, sigB))
                in softfloat_mulAddF64_finite signProd signC (expA + expB - 0x3FE) sigA sigB expC sigC
                     completeCancellation s)"

definition f32_mulAdd :: "float32_t \<Rightarrow> float32_t \<Rightarrow> float32_t \<Rightarrow> fp_state \<Rightarrow> float32_t \<times> fp_state" where
  "f32_mulAdd a b c s =
     (let uiA = a;
          uiB = b;
          uiC = c
      in softfloat_mulAddF32 0 uiA uiB uiC s)"

definition f64_mulAdd :: "float64_t \<Rightarrow> float64_t \<Rightarrow> float64_t \<Rightarrow> fp_state \<Rightarrow> float64_t \<times> fp_state" where
  "f64_mulAdd a b c s =
     (let uiA = a;
          uiB = b;
          uiC = c
      in softfloat_mulAddF64 0 uiA uiB uiC s)"

end
