(* ===== verification/Multiword_Shifts.thy ===== *)
theory Multiword_Shifts
  imports Multiword_Laws
begin

text \<open>
  The 128-bit shifts (\<^verbatim>\<open>source/s_shift128RightJam.c\<close>, \<^verbatim>\<open>source/s_shortShift128Left.c\<close>) on natural numbers: the first is \<^const>\<open>jam\<close>, the second a
  multiplication by a power of two, for a count that is not zero.
\<close>

lemma jam_shift:
  assumes "k \<le> c"
  shows "jam c (n * 2 ^ k) = jam (c - k) n"
proof -
  have e: "(2::nat) ^ c = 2 ^ (c - k) * 2 ^ k" using assms by (simp flip: power_add)
  have "n * 2 ^ k div 2 ^ c = n div 2 ^ (c - k)" unfolding e by simp
  moreover have "2 ^ c dvd n * 2 ^ k \<longleftrightarrow> 2 ^ (c - k) dvd n" unfolding e by simp
  ultimately show ?thesis by (simp add: jam_def)
qed

text \<open>Jamming the upper of two words and keeping what is below as a sticky bit.\<close>

lemma jam_high:
  assumes "l < 2 ^ m"
  shows "jam d h + of_bool (l \<noteq> 0 \<and> even (jam d h)) = jam (m + d) (h * 2 ^ m + l)"
proof -
  have q: "(h * 2 ^ m + l) div 2 ^ (m + d) = h div 2 ^ d" unfolding power_add using assms by (simp add: div_mult2_eq)
  have "2 ^ (m + d) dvd h * 2 ^ m + l \<longleftrightarrow> 2 ^ d dvd h \<and> l = 0"
  proof
    assume a: "2 ^ (m + d) dvd h * 2 ^ m + l"
    then have "2 ^ m dvd h * 2 ^ m + l" unfolding power_add by (rule dvd_mult_left)
    then have "2 ^ m dvd l" by (simp add: dvd_add_right_iff)
    then have "l = 0" using assms nat_dvd_not_less by blast
    then show "2 ^ d dvd h \<and> l = 0" using a by (simp add: power_add mult.commute)
  next
    assume "2 ^ d dvd h \<and> l = 0"
    then show "2 ^ (m + d) dvd h * 2 ^ m + l" by (simp add: power_add mult.commute)
  qed
  then show ?thesis unfolding jam_def q by auto
qed

lemma shortShift128Left_exact:
  assumes c: "0 < unat count" "unat count < 64" and fit: "cat128 a64 a0 * 2 ^ unat count < 2 ^ 128"
  shows "u128 (softfloat_shortShift128Left a64 a0 count) = cat128 a64 a0 * 2 ^ unat count"
proof -
  let ?c = "unat count"
  have e: "(2::nat) ^ 64 = 2 ^ (64 - ?c) * 2 ^ ?c" using c by (simp flip: power_add)
  have "unat a64 * 2 ^ ?c * 2 ^ 64 < 2 ^ 64 * 2 ^ 64" using fit by (simp add: algebra_simps)
  then have h: "unat a64 * 2 ^ ?c < 2 ^ 64" by simp
  have l: "unat a0 div 2 ^ (64 - ?c) < 2 ^ ?c" using unat_lt64 [of a0] e by (simp add: div_less_iff_less_mult mult.commute)
  have uh: "unat (push_bit ?c a64) = unat a64 * 2 ^ ?c" using h by (intro unat_push_bit_small) simp
  have "unat (push_bit ?c a64 OR drop_bit (neg_count count 63) a0) = unat a64 * 2 ^ ?c + unat a0 div 2 ^ (64 - ?c)"
    using c l neg_count_eq64 [of count] by (subst unat_or_disjoint [of ?c]) (simp_all add: uh unat_drop_bit_div)
  moreover have "unat (push_bit ?c a0) = unat a0 * 2 ^ ?c mod 2 ^ 64" by (simp only: unat_push_bit_mod) simp
  moreover have "unat a0 div 2 ^ (64 - ?c) = unat a0 * 2 ^ ?c div 2 ^ 64" unfolding e by simp
  ultimately have "u128 (softfloat_shortShift128Left a64 a0 count) =
      unat a64 * 2 ^ ?c * 2 ^ 64 + (unat a0 * 2 ^ ?c div 2 ^ 64 * 2 ^ 64 + unat a0 * 2 ^ ?c mod 2 ^ 64)"
    by (simp only: softfloat_shortShift128Left_def u128_def uint128.simps distrib_right add.assoc)
  also have "\<dots> = cat128 a64 a0 * 2 ^ ?c" unfolding div_mult_mod_eq by (simp add: algebra_simps)
  finally show ?thesis .
qed

lemma shift128RightJam_short:
  assumes c: "0 < unat count" "unat count < 64"
  shows "u128 (softfloat_shift128RightJam a64 a0 count) = jam (unat count) (cat128 a64 a0)"
proof -
  let ?c = "unat count"
  have e: "(2::nat) ^ 64 = 2 ^ (64 - ?c) * 2 ^ ?c" using c by (simp flip: power_add)
  have lt: "count < 64" using c(2) by (simp add: word_less_nat_alt)
  have neg: "neg_count count 63 = 64 - ?c" using neg_count_eq64 [of count] c by simp
  have a63: "unat (count AND 63) = ?c" using and_mask_take_bit [of count 6] c(2) by (simp add: unat_take_bit_mod)
  have l: "unat a0 div 2 ^ ?c < 2 ^ (64 - ?c)" using unat_lt64 [of a0] e by (simp add: div_less_iff_less_mult mult.commute)
  define w where "w = push_bit (64 - ?c) a64 OR drop_bit ?c a0"
  have pm: "unat (push_bit (64 - ?c) a64) = unat a64 mod 2 ^ ?c * 2 ^ (64 - ?c)"
    unfolding unat_push_bit_mod using e by (simp add: mult_mod_left mult.commute)
  have uw: "unat w = unat a64 mod 2 ^ ?c * 2 ^ (64 - ?c) + unat a0 div 2 ^ ?c"
    unfolding w_def using l by (subst unat_or_disjoint [of "64 - ?c"]) (simp_all add: pm unat_drop_bit_div)
  have P: "push_bit (64 - ?c) a0 \<noteq> 0 \<longleftrightarrow> \<not> 2 ^ ?c dvd unat a0" using push_bit_eq_0_iff_dvd [of "64 - ?c" a0] c by simp
  have q: "unat a64 div 2 ^ ?c * 2 ^ 64 + unat w = cat128 a64 a0 div 2 ^ ?c"
  proof -
    have "cat128 a64 a0 div 2 ^ ?c = unat a64 * 2 ^ (64 - ?c) + unat a0 div 2 ^ ?c"
      unfolding e by (simp add: mult.assoc [symmetric])
    also have "unat a64 * 2 ^ (64 - ?c) = (unat a64 div 2 ^ ?c * 2 ^ ?c + unat a64 mod 2 ^ ?c) * 2 ^ (64 - ?c)" by (simp only: div_mult_mod_eq)
    also have "\<dots> = unat a64 div 2 ^ ?c * 2 ^ 64 + unat a64 mod 2 ^ ?c * 2 ^ (64 - ?c)" unfolding e distrib_right by (simp only: mult_ac)
    finally show ?thesis by (simp add: uw)
  qed
  have ev: "even (unat w) \<longleftrightarrow> even (cat128 a64 a0 div 2 ^ ?c)" unfolding q [symmetric] by simp
  have dv: "2 ^ ?c dvd cat128 a64 a0 \<longleftrightarrow> 2 ^ ?c dvd unat a0" unfolding e by (simp add: dvd_add_right_iff mult.assoc [symmetric])
  have "u128 (softfloat_shift128RightJam a64 a0 count) = unat a64 div 2 ^ ?c * 2 ^ 64 + unat (w OR of_bool (\<not> 2 ^ ?c dvd unat a0))"
    using lt by (simp add: softfloat_shift128RightJam_def u128_def neg a63 P w_def unat_drop_bit_div or.assoc)
  also have "\<dots> = unat a64 div 2 ^ ?c * 2 ^ 64 + unat w + of_bool (\<not> 2 ^ ?c dvd unat a0 \<and> even (unat w))"
    by (simp add: unat_or_of_bool)
  also have "\<dots> = jam ?c (cat128 a64 a0)" unfolding q ev dv [symmetric] jam_def ..
  finally show ?thesis .
qed

lemma shift128RightJam_value:
  assumes "count \<noteq> 0"
  shows "u128 (softfloat_shift128RightJam a64 a0 count) = jam (unat count) (cat128 a64 a0)"
proof -
  let ?c = "unat count"
  consider "?c < 64" | "64 \<le> ?c" "?c < 128" | "128 \<le> ?c" by linarith
  then show ?thesis
  proof cases
    case 1
    then show ?thesis using assms by (intro shift128RightJam_short) (simp_all add: unat_gt_0)
  next
    case 2
    define d where "d = ?c - 64"
    have c: "?c = 64 + d" "d < 64" using 2 by (simp_all add: d_def)
    have n: "\<not> count < 64" "count < 128" using 2 by (simp_all add: word_less_nat_alt)
    have a63: "unat (count AND 63) = d" using and_mask_take_bit [of count 6] c by (simp add: unat_take_bit_mod)
    have "a64 AND (push_bit d 1 - 1) = take_bit d a64" using and_mask_take_bit [of a64 d] by (simp add: push_bit_of_1)
    then have z: "(a64 AND (push_bit d 1 - 1)) OR a0 \<noteq> 0 \<longleftrightarrow> \<not> 2 ^ d dvd unat a64 \<or> unat a0 \<noteq> 0"
      using unat_eq_zero [of "take_bit d a64"] unat_eq_zero [of a0] by (simp add: or_eq_0_iff unat_take_bit_mod dvd_eq_mod_eq_0)
    have "u128 (softfloat_shift128RightJam a64 a0 count) = unat (drop_bit d a64 OR of_bool (\<not> 2 ^ d dvd unat a64 \<or> unat a0 \<noteq> 0))"
      unfolding softfloat_shift128RightJam_def if_not_P [OF n(1)] if_P [OF n(2)] a63 z u128_def uint128.simps by simp
    also have "\<dots> = jam d (unat a64) + of_bool (unat a0 \<noteq> 0 \<and> even (jam d (unat a64)))"
      unfolding unat_or_of_bool jam_def unat_drop_bit_div by auto
    also have "\<dots> = jam ?c (cat128 a64 a0)" unfolding c(1) using unat_lt64 [of a0] by (intro jam_high) simp
    finally show ?thesis .
  next
    case 3
    have n: "\<not> count < 64" "\<not> count < 128" using 3 by (simp_all add: word_less_nat_alt)
    have "(2::nat) ^ 128 \<le> 2 ^ ?c" using 3 by (rule power_increasing) simp
    then have "cat128 a64 a0 < 2 ^ ?c" using cat128_less [of a64 a0] by linarith
    then have "jam ?c (cat128 a64 a0) = of_bool (cat128 a64 a0 \<noteq> 0)" by (rule jam_large)
    moreover have "u128 (softfloat_shift128RightJam a64 a0 count) = of_bool (a64 OR a0 \<noteq> 0)"
      using n by (simp add: softfloat_shift128RightJam_def u128_def)
    ultimately show ?thesis by (simp add: or_eq_0_iff unat_eq_zero)
  qed
qed

section \<open>The upper word\<close>

lemma u128_cat: "cat128 (u128_v64 z) (u128_v0 z) = u128 z"
  by (simp add: u128_def)

lemma high_word_sticky: "unat (u128_v64 z OR of_bool (u128_v0 z \<noteq> 0)) = jam 64 (u128 z)"
  using jam_high [of "unat (u128_v0 z)" 64 0 "unat (u128_v64 z)"] unat_lt64 [of "u128_v0 z"]
  by (simp add: unat_or_of_bool u128_def unat_eq_zero)

lemma high_word_less:
  assumes "k \<le> 64"
  shows "unat (u128_v64 z) < 2 ^ k \<longleftrightarrow> u128 z < 2 ^ (64 + k)"
proof -
  have "u128 z < 2 ^ k * 2 ^ 64 \<longleftrightarrow> unat (u128_v64 z) < 2 ^ k"
    using unat_lt64 [of "u128_v0 z"] digit_less [of "unat (u128_v0 z)" "2 ^ 64" 0 "unat (u128_v64 z)" "2 ^ k"] by (simp add: u128_def)
  then show ?thesis by (simp only: power_add mult.commute)
qed

end
