(* ===== verification/Float_MulAdd_Single.thy ===== *)
theory Float_MulAdd_Single
  imports Float_MulAdd Float_Add Multiword_Shifts
begin

text \<open>
  The arithmetic of the fused multiply-add of \<open>Float_MulAdd\<close>: the exact product and the addend, both with twice the width of the format, are aligned, added
  or subtracted with a sticky bit, normalised and rounded once. The laws of alignment hold for every format; the routine of single precision follows, the one
  of double precision is in \<open>Float_MulAdd_Double\<close>.
\<close>

section \<open>Aligned sums and differences\<close>

text \<open>\<open>W\<close> is the weight of the leading bit: both numbers lie between \<open>W\<close> and \<open>2 * W\<close>; the second is shifted right by \<open>d\<close>.\<close>

lemma power_split: "a \<le> b \<Longrightarrow> (2::nat) ^ b = 2 ^ (b - a) * 2 ^ a"
  unfolding power_add [symmetric] by (rule arg_cong [of _ _ "(^) 2"]) simp

lemma agrees_jam_refl: "1 \<le> j \<Longrightarrow> agrees j (real n / 2 ^ c) (jam c n)"
  by (rule agrees_jam [OF agrees_refl [of 0]]) simp_all

lemma jam_bound:
  assumes "even b" and "n < b * 2 ^ c"
  shows "jam (c + d) n < b"
proof -
  have "b * 2 ^ c * 1 \<le> b * 2 ^ c * 2 ^ d" by (intro mult_le_mono2) simp
  then have "n < b * 2 ^ (c + d)" using assms(2) by (simp only: power_add mult.assoc)
  then show ?thesis using assms(1) by (simp only: jam_less_even)
qed

lemma jam_exact: "2 ^ c dvd n \<Longrightarrow> jam c n = n div 2 ^ c" "2 ^ c dvd n \<Longrightarrow> real (jam c n) = real n / 2 ^ c"
  by (simp_all add: jam_def real_of_nat_div)

lemma aligned_difference:
  fixes B S W d t :: nat
  assumes B: "2 * W \<le> B" "even B" and S: "S < 4 * W" and W: "even W" and d: "0 < d" and t: "2 ^ t dvd S" "2 \<le> t"
  defines "n \<equiv> B - jam d S" and "X \<equiv> real B - real S / 2 ^ d"
  shows "0 < n" and "X = real n \<or> agrees 1 X n \<and> W \<le> n" and "n \<le> B" and "0 < X"
proof -
  have "(2::nat) ^ 1 \<le> 2 ^ d" using d by (intro power_increasing) simp_all
  then have "4 * W \<le> 2 * W * 2 ^ d" using mult_le_mono2 [of 2 "2 ^ d" "2 * W"] by simp
  then have "S < 2 * W * 2 ^ d" using S by linarith
  then have j: "jam d S < 2 * W" using jam_less_even [of "2 * W" d S] by simp
  show "0 < n" "n \<le> B" using j B(1) by (simp_all add: n_def)
  have rn: "real n = real B - real (jam d S)" using j B(1) by (simp add: n_def of_nat_diff)
  have "real S < real (2 * W * 2 ^ d)" using \<open>S < 2 * W * 2 ^ d\<close> by (simp only: of_nat_less_iff)
  then have "real S / 2 ^ d < real (2 * W)" by (simp add: pos_divide_less_eq)
  moreover have "real (2 * W) \<le> real B" using B(1) by (simp only: of_nat_le_iff)
  ultimately show "0 < X" by (simp add: X_def)
  show "X = real n \<or> agrees 1 X n \<and> W \<le> n"
  proof (cases "d \<le> t")
    case True
    then have "2 ^ d dvd S" using t(1) by (rule power_le_dvd [rotated])
    then show ?thesis unfolding X_def rn by (simp add: jam_exact(2))
  next
    case False
    have "agrees 1 X n" unfolding X_def n_def using B j by (intro agrees_sub agrees_jam_refl) simp_all
    have "(2::nat) ^ 2 \<le> 2 ^ d" using False t(2) by (intro power_increasing) simp_all
    then have "4 * W \<le> W * 2 ^ d" using mult_le_mono2 [of 4 "2 ^ d" W] by simp
    then have "S < W * 2 ^ d" using S by linarith
    then have "jam d S < W" using W jam_less_even [of W d S] by simp
    then have "W \<le> n" using B(1) by (simp add: n_def)
    then show ?thesis using \<open>agrees 1 X n\<close> by simp
  qed
qed

lemma aligned_sum_high:
  assumes "2 ^ Suc l dvd B"
  shows "agrees 1 ((real B + real S / 2 ^ d) / 2 ^ l) (B div 2 ^ l + jam (l + d) S)"
proof -
  obtain q where q: "B = 2 ^ Suc l * q" using assms by (rule dvdE)
  then have b: "B div 2 ^ l = 2 * q" by simp
  have "agrees 1 (real S / 2 ^ (l + d)) (jam (l + d) S)" by (rule agrees_jam_refl) simp
  then have "agrees 1 (real (2 * q) + real S / 2 ^ (l + d)) (2 * q + jam (l + d) S)" by (rule agrees_add) simp
  moreover have "(real B + real S / 2 ^ d) / 2 ^ l = real (2 * q) + real S / 2 ^ (l + d)" by (simp add: q add_divide_distrib power_add)
  ultimately show ?thesis unfolding b by simp
qed

lemma aligned_sum_low:
  assumes "even B"
  shows "agrees 1 ((real B + real S / 2 ^ d) / 2 ^ l) (jam l (B + jam d S))"
  using assms by (intro agrees_jam [of 1] agrees_add agrees_jam_refl) simp_all

lemma scaled_sum:
  fixes B S v :: real
  assumes "eS \<le> eB"
  shows "B * 2 powi (eB - v') + S * 2 powi (eS - v') = (B + S / 2 ^ nat (eB - eS)) * 2 powi (eB - v')"
    and "B * 2 powi (eB - v') - S * 2 powi (eS - v') = (B - S / 2 ^ nat (eB - eS)) * 2 powi (eB - v')"
proof -
  have "(2::real) powi (eS - v') = 2 powi (eB - v') / 2 ^ nat (eB - eS)" unfolding powi_div using assms by simp
  then show "B * 2 powi (eB - v') + S * 2 powi (eS - v') = (B + S / 2 ^ nat (eB - eS)) * 2 powi (eB - v')"
    "B * 2 powi (eB - v') - S * 2 powi (eS - v') = (B - S / 2 ^ nat (eB - eS)) * 2 powi (eB - v')"
    by (simp_all add: distrib_right left_diff_distrib)
qed

abbreviation sgn_of :: "bool \<Rightarrow> real" where
  "sgn_of b \<equiv> (if b then - 1 else 1)"

lemma signed_scale:
  assumes "0 < X" and "r = sgn_of sg * (X * 2 powi e)"
  shows "\<bar>r\<bar> = X * 2 powi e" and "r \<noteq> 0" and "sg = (r < 0)"
proof -
  define y where "y = X * 2 powi e"
  have "0 < y" using assms(1) by (simp add: y_def)
  then show "\<bar>r\<bar> = X * 2 powi e" "r \<noteq> 0" "sg = (r < 0)" unfolding assms(2) y_def [symmetric] by simp_all
qed

context softfloat_format
begin

lemma wide:
  "2 * LENGTH('a) - 3 = f + x - 1 + LENGTH('a)" "2 * LENGTH('a) - 2 = f + x + LENGTH('a)" "2 * LENGTH('a) - 1 = f + x + 1 + LENGTH('a)"
  using f_pos by (simp_all add: len)

text \<open>The sum of two aligned numbers, the larger exponent \<open>e\<close>.\<close>

lemma sum_rounds:
  assumes B: "2 ^ (2 * LENGTH('a) - 3) \<le> B" "B < 2 ^ (2 * LENGTH('a) - 2)" and S: "S < 2 ^ (2 * LENGTH('a) - 2)"
    and X: "X = (real B + real S / 2 ^ d) / 2 ^ LENGTH('a)" and ag: "agrees 1 X (unat sigZ)"
    and ex: "-32767 \<le> ex" "ex < 32768" and r: "\<bar>r\<bar> = X * 2 powi (ex - int x)" "r \<noteq> 0" "sign = (r < 0)"
  shows "op_rounds f E zs r s
    (if sigZ < 2 ^ (f + x) then roundPack sign (ex - 1) (push_bit 1 sigZ) s else roundPack sign ex sigZ s)"
proof (rule roundPack_short [OF ag _ _ ex r])
  let ?L = "LENGTH('a)"
  have "real (2 ^ (f + x - 1) * 2 ^ ?L) \<le> real B" using B(1) unfolding wide power_add by (simp only: of_nat_le_iff)
  also have "real B \<le> real B + real S / 2 ^ d" by simp
  finally have "real (2 ^ (f + x - 1)) \<le> X" unfolding X by (simp add: pos_le_divide_eq)
  then show "2 ^ (f + x - 1) \<le> unat sigZ" using f_pos x_ge by (subst (asm) agrees_le [OF ag]) simp_all
  have "real B < real (2 ^ (f + x) * 2 ^ ?L)" "real S < real (2 ^ (f + x) * 2 ^ ?L)"
    using B(2) S unfolding wide power_add by (simp_all only: of_nat_less_iff)
  moreover have "real S / 2 ^ d \<le> real S"
  proof -
    have "real S * 1 \<le> real S * 2 ^ d" by (intro mult_left_mono) simp_all
    then show ?thesis by (simp add: pos_divide_le_eq)
  qed
  ultimately have "X < real (2 ^ (f + x + 1))" unfolding X by (simp add: pos_divide_less_eq)
  then show "unat sigZ < 2 ^ (f + x + 1)" by (subst (asm) agrees_less [OF ag]) simp_all
qed

text \<open>The difference, normalised by \<open>k\<close> places: exact, or with its leading bits known.\<close>

lemma difference_rounds:
  assumes n: "2 ^ (f + x + LENGTH('a)) \<le> n * 2 ^ k" "n * 2 ^ k < 2 ^ (f + x + 1 + LENGTH('a))"
    and X: "X = real n \<or> agrees 1 X n \<and> 2 ^ (f + x - 2 + LENGTH('a)) \<le> n"
    and z: "unat sigZ = (if LENGTH('a) \<le> k then n * 2 ^ (k - LENGTH('a)) else jam (LENGTH('a) - k) n)"
    and ex: "-32768 \<le> ex - int k" "ex - int k < 32768" and r: "\<bar>r\<bar> = X * 2 powi (ex - int x - int LENGTH('a))" "r \<noteq> 0" "sign = (r < 0)"
  shows "op_rounds f E zs r s (roundPack sign (ex - int k) sigZ s)"
proof -
  let ?L = "LENGTH('a)"
  define Y where "Y = X * 2 ^ k / 2 ^ ?L"
  have ag: "agrees (x - 1) Y (unat sigZ)"
  proof (cases "?L \<le> k")
    case True
    have "X = real n"
    proof (rule ccontr)
      assume "X \<noteq> real n"
      then have "2 ^ (f + x - 2 + ?L) \<le> n" using X by simp
      then have "2 ^ (f + x - 2 + ?L) * 2 ^ k < (2::nat) ^ (f + x + 1 + ?L)" using n(2) mult_le_mono1 order_le_less_trans by blast
      then have "f + x - 2 + ?L + k < f + x + 1 + ?L" unfolding power_add [symmetric] by (rule power_less_imp_less_exp [rotated]) simp
      then show False using True len f_pos x_ge by simp
    qed
    moreover have "(2::real) ^ k = 2 ^ (k - ?L) * 2 ^ ?L" using True by (simp flip: power_add)
    ultimately have "Y = real (unat sigZ)" unfolding Y_def z using True by simp
    then show ?thesis by (simp only: agrees_refl)
  next
    case False
    have "agrees 1 X n" using X by auto
    moreover have "1 \<le> x - 1" "1 \<le> x - 1 + (?L - k)" using x_ge by linarith+
    ultimately have "agrees (x - 1) (X / 2 ^ (?L - k)) (jam (?L - k) n)" by (rule agrees_jam)
    moreover have "(2::real) ^ ?L = 2 ^ (?L - k) * 2 ^ k" using False by (simp flip: power_add)
    then have "Y = X / 2 ^ (?L - k)" by (simp add: Y_def)
    ultimately show ?thesis using False z by simp
  qed
  have "2 ^ (f + x) \<le> unat sigZ \<and> unat sigZ < 2 ^ (f + x + 1)"
  proof (cases "?L \<le> k")
    case True
    have "n * 2 ^ k = unat sigZ * 2 ^ ?L" using True z by (simp add: power_add [symmetric])
    then show ?thesis using n by (simp add: power_add)
  next
    case False
    have e: "(2::nat) ^ ?L = 2 ^ (?L - k) * 2 ^ k" using False by (simp flip: power_add)
    then have "2 ^ (f + x) * 2 ^ (?L - k) * 2 ^ k \<le> n * 2 ^ k" "n * 2 ^ k < 2 ^ (f + x + 1) * 2 ^ (?L - k) * 2 ^ k"
      using n unfolding power_add [of _ _ ?L] by (simp_all only: e mult.assoc)
    then have "2 ^ (f + x) * 2 ^ (?L - k) \<le> n" "n < 2 ^ (f + x + 1) * 2 ^ (?L - k)" by simp_all
    then show ?thesis using False z f_pos by (simp add: jam_le_even jam_less_even)
  qed
  moreover have "\<bar>r\<bar> = Y * 2 powi (ex - int k - int x)"
  proof -
    have "Y * 2 powi (ex - int k - int x) = X * (2 powi int k / 2 ^ ?L * 2 powi (ex - int k - int x))" by (simp add: Y_def)
    also have "\<dots> = X * 2 powi (ex - int x - int ?L)" unfolding powi_div powi_mult by (simp add: algebra_simps)
    finally show ?thesis using r(1) by simp
  qed
  ultimately show ?thesis using ag ex r(2,3) by (intro roundPack_rounds) auto
qed

text \<open>The three ways to combine the product with the addend, \<open>B\<close> the one with the larger exponent.\<close>

lemma fma_sum:
  assumes B: "2 ^ (2 * LENGTH('a) - 3) \<le> B" "B < 2 ^ (2 * LENGTH('a) - 2)" and S: "S < 2 ^ (2 * LENGTH('a) - 2)"
    and e: "eS \<le> eB" "-32767 \<le> eB" "eB < 32768"
    and ag: "agrees 1 ((real B + real S / 2 ^ nat (eB - eS)) / 2 ^ LENGTH('a)) (unat sigZ)"
    and r: "r = sgn_of sg * (real B * 2 powi (eB - (int x + int LENGTH('a))) + real S * 2 powi (eS - (int x + int LENGTH('a))))"
  shows "op_rounds f E zs r s
    (if sigZ < 2 ^ (f + x) then roundPack sg (eB - 1) (push_bit 1 sigZ) s else roundPack sg eB sigZ s)"
proof -
  define X where "X = (real B + real S / 2 ^ nat (eB - eS)) / 2 ^ LENGTH('a)"
  have "r = sgn_of sg * ((real B + real S / 2 ^ nat (eB - eS)) * 2 powi (eB - (int x + int LENGTH('a))))" unfolding r scaled_sum(1) [OF e(1)] ..
  also have "(2::real) powi (eB - (int x + int LENGTH('a))) = 2 powi (eB - int x) / 2 ^ LENGTH('a)" unfolding powi_div by (simp add: algebra_simps)
  finally have rX: "r = sgn_of sg * (X * 2 powi (eB - int x))" by (simp add: X_def)
  have "0 < real B" using B(1) by (simp add: less_le_trans [of 0 "2 ^ (2 * LENGTH('a) - 3)"])
  then have "0 < X" unfolding X_def by (intro divide_pos_pos add_pos_nonneg) simp_all
  note sc = signed_scale [OF this rX]
  show ?thesis by (rule sum_rounds [OF B S X_def ag [folded X_def] e(2,3) sc])
qed

definition normalised :: "nat \<Rightarrow> nat \<Rightarrow> 'a word \<Rightarrow> bool" where
  "normalised n k sigZ \<longleftrightarrow> 2 ^ (f + x + LENGTH('a)) \<le> n * 2 ^ k \<and> n * 2 ^ k < 2 ^ (f + x + 1 + LENGTH('a)) \<and>
     unat sigZ = (if LENGTH('a) \<le> k then n * 2 ^ (k - LENGTH('a)) else jam (LENGTH('a) - k) n)"

lemma fma_difference:
  assumes B: "2 ^ (2 * LENGTH('a) - 3) \<le> B" "even B" and S: "S < 2 ^ (2 * LENGTH('a) - 2)" "2 ^ t dvd S" "2 \<le> t"
    and e: "eS < eB" "-30000 \<le> eB" "eB < 30000" and k: "k \<le> 200"
    and z: "normalised (B - jam (nat (eB - eS)) S) k sigZ"
    and r: "r = sgn_of sg * (real B * 2 powi (eB - (int x + int LENGTH('a))) - real S * 2 powi (eS - (int x + int LENGTH('a))))"
  shows "op_rounds f E zs r s (roundPack sg (eB - int k) sigZ s)"
proof -
  define d where "d = nat (eB - eS)"
  define W where "W = (2::nat) ^ (f + x - 2 + LENGTH('a))"
  have wd: "2 * LENGTH('a) - 3 = Suc (f + x - 2 + LENGTH('a))" "2 * LENGTH('a) - 2 = Suc (Suc (f + x - 2 + LENGTH('a)))"
    using f_pos x_ge by (simp_all add: len)
  have W: "2 * W \<le> B" "S < 4 * W" "even W" using B(1) S(1) by (simp_all add: wd W_def)
  have "0 < d" using e(1) by (simp add: d_def)
  note a = aligned_difference [OF W(1) B(2) W(2,3) this S(2,3)]
  define X where "X = real B - real S / 2 ^ d"
  have rX: "r = sgn_of sg * (X * 2 powi (eB - int x - int LENGTH('a)))"
    unfolding r X_def d_def using scaled_sum(2) [of eS eB "real B" "int x + int LENGTH('a)" "real S"] e(1) by (simp add: algebra_simps)
  note sc = signed_scale [OF a(4) [folded X_def] rX]
  show ?thesis
    using sc z a(2) e(2,3) k unfolding normalised_def d_def [symmetric] X_def [symmetric] W_def by (intro difference_rounds) auto
qed

lemma fma_exact:
  assumes n: "0 < n" and e: "-30000 \<le> ex" "ex < 30000" and k: "k \<le> 200" and z: "normalised n k sigZ"
    and r: "r = sgn_of sg * (real n * 2 powi (ex - (int x + int LENGTH('a))))"
  shows "op_rounds f E zs r s (roundPack sg (ex - int k) sigZ s)"
proof -
  have "r = sgn_of sg * (real n * 2 powi (ex - int x - int LENGTH('a)))" unfolding r by (simp add: algebra_simps)
  note sc = signed_scale [OF _ this]
  show ?thesis using n sc z e k unfolding normalised_def by (intro difference_rounds) auto
qed

end

section \<open>Single precision\<close>

text \<open>The end of the subtraction, from the wide difference on.\<close>

definition finish32 :: "bool \<Rightarrow> int \<Rightarrow> uint64_t \<Rightarrow> fp_state \<Rightarrow> float32_t \<times> fp_state" where
  "finish32 signZ expZ sigZ64 s =
     (let shiftCount = softfloat_countLeadingZeros64 sigZ64 - 1;
          expZ = expZ - shiftCount;
          shiftCount = shiftCount - 32;
          sigZ = (if shiftCount < 0
                  then ucast (softfloat_shortShift64RightJam sigZ64 (word_of_int (- shiftCount)))
                  else push_bit (nat shiftCount) (ucast sigZ64))
      in softfloat_roundPackToF32 signZ expZ sigZ s)"

lemma finish32_normalised:
  assumes w: "w \<noteq> 0" "unat w < 2 ^ 62"
  obtains k sigZ where "finish32 sg e w s = softfloat_roundPackToF32 sg (e - int k) sigZ s" "sf32.normalised (unat w) k sigZ" "k \<le> 200"
proof -
  obtain c where c: "softfloat_countLeadingZeros64 w = int c" "c < 64" "2 ^ 63 \<le> unat w * 2 ^ c" "unat w * 2 ^ c < 2 ^ 64"
    by (rule countLeadingZeros64_normalises [OF w(1)])
  have c1: "1 \<le> c" using c(3) w(2) by (cases c) simp_all
  define k where "k = c - 1"
  have ck: "c = Suc k" using c1 by (simp add: k_def)
  have n: "2 ^ 62 \<le> unat w * 2 ^ k" "unat w * 2 ^ k < 2 ^ 63" using c(3,4) by (simp_all add: ck)
  define sigZ :: uint32_t where "sigZ = (if int k - 32 < 0 then ucast (softfloat_shortShift64RightJam w (word_of_int (- (int k - 32))))
    else push_bit (nat (int k - 32)) (ucast w))"
  have "unat sigZ = (if 32 \<le> k then unat w * 2 ^ (k - 32) else jam (32 - k) (unat w))"
  proof (cases "32 \<le> k")
    case True
    have e: "(2::nat) ^ k = 2 ^ (k - 32) * 2 ^ 32" using True by (rule power_split)
    then have lt: "unat w * 2 ^ (k - 32) < 2 ^ 31" using n(2) by simp
    have "unat w * 1 \<le> unat w * 2 ^ (k - 32)" by (intro mult_le_mono2) simp
    then have "unat w < 2 ^ 31" using lt by linarith
    then have "unat (ucast w :: uint32_t) = unat w" unfolding unat_ucast_mod by simp
    then show ?thesis using True lt by (simp add: sigZ_def nat_diff_distrib unat_push_bit_small)
  next
    case False
    then have i: "- (int k - 32) = int (32 - k)" by simp
    define cw :: uint32_t where "cw = word_of_int (- (int k - 32))"
    have cw: "unat cw = 32 - k" unfolding cw_def i by (simp add: unat_of_nat del: of_nat_diff)
    then have "cw < 64" by (simp add: word_less_nat_alt)
    then have "unat (softfloat_shortShift64RightJam w cw) = jam (32 - k) (unat w)" unfolding cw [symmetric] by (rule unat_shortShift64RightJam)
    moreover have "jam (32 - k) (unat w) < 2 ^ 32"
    proof -
      have e: "(2::nat) ^ 32 = 2 ^ (32 - k) * 2 ^ k" using False by (intro power_split) simp
      have "unat w * 2 ^ k < 2 ^ 31 * (2 ^ (32 - k) * 2 ^ k)" unfolding e [symmetric] using n(2) by simp
      then have "unat w < 2 ^ 31 * 2 ^ (32 - k)" unfolding mult.assoc [symmetric] mult_less_cancel2 by simp
      then have "jam (32 - k) (unat w) < 2 ^ 31" by (simp add: jam_less_even)
      then show ?thesis by simp
    qed
    ultimately show ?thesis using False unfolding sigZ_def cw_def [symmetric] by (simp add: unat_ucast_mod)
  qed
  then have "sf32.normalised (unat w) k sigZ" using n by (simp add: sf32.normalised_def)
  moreover have "finish32 sg e w s = softfloat_roundPackToF32 sg (e - int k) sigZ s"
    by (simp add: finish32_def Let_def c(1) ck sigZ_def)
  ultimately show thesis using that c(2) by (simp add: k_def)
qed

text \<open>The wide product.\<close>

lemma wide_product32:
  fixes gA gB :: uint32_t
  defines "mA \<equiv> unat (gA OR 2 ^ 23)" and "mB \<equiv> unat (gB OR 2 ^ 23)"
  assumes A: "2 ^ 23 \<le> mA" "mA < 2 ^ 24" and B: "2 ^ 23 \<le> mB" "mB < 2 ^ 24"
    and p: "p = (ucast (push_bit 7 (gA OR 0x00800000)) * ucast (push_bit 7 (gB OR 0x00800000)) :: uint64_t)"
    and q: "(eP, pw) = (if p < 0x2000000000000000 then (e - 1, push_bit 1 p) else (e, p))"
  shows "2 ^ 61 \<le> unat pw" and "unat pw < 2 ^ 62" and "2 ^ 14 dvd unat pw" and "e - 1 \<le> eP" and "eP \<le> e"
    and "real (unat pw) * 2 powi eP = real (mA * mB * 2 ^ 14) * 2 powi e"
proof -
  have uA: "unat (push_bit 7 (gA OR 0x00800000)) = mA * 2 ^ 7" using A(2) unfolding mA_def by (subst unat_push_bit_small) simp_all
  have uB: "unat (push_bit 7 (gB OR 0x00800000)) = mB * 2 ^ 7" using B(2) unfolding mB_def by (subst unat_push_bit_small) simp_all
  have m: "2 ^ 23 * 2 ^ 23 \<le> mA * mB" "mA * mB < 2 ^ 24 * 2 ^ 24" using A B by (intro mult_le_mono mult_strict_mono; simp)+
  have up: "unat p = mA * mB * 2 ^ 14"
  proof -
    define vA vB where "vA = push_bit 7 (gA OR 0x00800000)" and "vB = push_bit 7 (gB OR 0x00800000)"
    note u = uA [folded vA_def] uB [folded vB_def]
    have "unat vA * unat vB < 2 ^ 64" unfolding u using m(2) by simp
    then have "unat (ucast vA * ucast vB :: uint64_t) = unat vA * unat vB" by (subst unat_mult_small) (simp_all add: unat_ucast_up)
    then show ?thesis unfolding p vA_def [symmetric] vB_def [symmetric] u by simp
  qed
  have b: "2 ^ 60 \<le> unat p" "unat p < 2 ^ 62" using m unfolding up by simp_all
  have d: "2 ^ 14 dvd unat p" unfolding up by simp
  have rp: "real (mA * mB * 2 ^ 14) = real (unat p)" by (simp only: up)
  have all: "2 ^ 61 \<le> unat pw \<and> unat pw < 2 ^ 62 \<and> 2 ^ 14 dvd unat pw \<and> e - 1 \<le> eP \<and> eP \<le> e \<and> real (unat pw) * 2 powi eP = real (unat p) * 2 powi e"
  proof (cases "p < 0x2000000000000000")
    case True
    then have lt: "unat p < 2 ^ 61" by (simp add: word_less_nat_alt)
    then have u: "unat (push_bit 1 p) = unat p * 2 ^ 1" by (intro unat_push_bit_small) simp
    then have u': "real (unat (push_bit 1 p)) = real (unat p) * 2" by (simp only: of_nat_mult) simp
    show ?thesis
      using True q u u' lt b d by (simp add: power_int_diff dvd_mult2)
  next
    case False
    then have "2 ^ 61 \<le> unat p" by (simp add: word_less_nat_alt)
    then show ?thesis
      using False q b(2) d by simp
  qed
  then show "2 ^ 61 \<le> unat pw" "unat pw < 2 ^ 62" "2 ^ 14 dvd unat pw" "e - 1 \<le> eP" "eP \<le> e" by blast+
  show "real (unat pw) * 2 powi eP = real (mA * mB * 2 ^ 14) * 2 powi e" unfolding rp using all by blast
qed

lemma shift_count:
  assumes "0 < d" and "d < 2 ^ 32"
  shows "unat (word_of_int d :: uint32_t) = nat d" and "(word_of_int d :: uint32_t) \<noteq> 0"
proof -
  show u: "unat (word_of_int d :: uint32_t) = nat d" using assms by (simp add: unat_eq_nat_uint uint_word_of_int)
  show "(word_of_int d :: uint32_t) \<noteq> 0"
  proof
    assume "(word_of_int d :: uint32_t) = 0"
    then have "nat d = 0" using u by simp
    then show False using assms(1) by simp
  qed
qed

definition sum32 :: "bool \<Rightarrow> int \<Rightarrow> uint64_t \<Rightarrow> int \<Rightarrow> uint32_t \<Rightarrow> fp_state \<Rightarrow> float32_t \<times> fp_state" where
  "sum32 signZ expProd sigProd expC sigC s =
     (let expDiff = expProd - expC;
          (expZ, sigZ) =
            (if expDiff \<le> 0
             then (expC, sigC + ucast (softfloat_shift64RightJam sigProd (word_of_int (32 - expDiff))))
             else
               let sigZ64 = sigProd + softfloat_shift64RightJam (push_bit 32 (ucast sigC)) (word_of_int expDiff)
               in (expProd, ucast (softfloat_shortShift64RightJam sigZ64 32)))
      in if sigZ < 0x40000000
         then softfloat_roundPackToF32 signZ (expZ - 1) (push_bit 1 sigZ) s
         else softfloat_roundPackToF32 signZ expZ sigZ s)"

lemma sum32_rounds:
  assumes P: "2 ^ 61 \<le> unat pw" "unat pw < 2 ^ 62" "even (unat pw)" and C: "2 ^ 29 \<le> unat cw" "unat cw < 2 ^ 30" "even (unat cw)"
    and e: "\<bar>eP\<bar> \<le> 10000" "\<bar>eC\<bar> \<le> 10000"
    and r: "r = sgn_of sg * (real (unat pw) * 2 powi (eP - 39) + real (unat cw * 2 ^ 32) * 2 powi (eC - 39))"
  shows "op_rounds 23 255 zs r s (sum32 sg eP pw eC cw s)"
proof -
  have Cb: "2 ^ 61 \<le> unat cw * 2 ^ 32" "unat cw * 2 ^ 32 < 2 ^ 62" using C by simp_all
  have L: "2 * LENGTH(32) - 3 = 61" "2 * LENGTH(32) - 2 = 62" "int 7 + int LENGTH(32) = 39" by simp_all
  show ?thesis
  proof (cases "eP \<le> eC")
    case True
    define d where "d = nat (eC - eP)"
    define j :: uint32_t where "j = ucast (softfloat_shift64RightJam pw (word_of_int (32 - (eP - eC))))"
    have "nat (32 - (eP - eC)) = 32 + d" using True by (simp add: d_def)
    then have "unat (softfloat_shift64RightJam pw (word_of_int (32 - (eP - eC)))) = jam (32 + d) (unat pw)"
      using True e shift_count [of "32 - (eP - eC)"] by (simp add: unat_shift64RightJam)
    moreover have jb: "jam (32 + d) (unat pw) < 2 ^ 30" using P(2) by (intro jam_bound) simp_all
    ultimately have uj: "unat j = jam (32 + d) (unat pw)" unfolding j_def unat_ucast_mod by simp
    then have u: "unat (cw + j) = unat cw * 2 ^ 32 div 2 ^ 32 + jam (32 + d) (unat pw)" using C(2) jb by (subst unat_add_small) simp_all
    have "2 ^ Suc 32 dvd unat cw * 2 ^ 32" using C(3) by (auto elim: evenE)
    then have "agrees 1 ((real (unat cw * 2 ^ 32) + real (unat pw) / 2 ^ d) / 2 ^ 32) (unat (cw + j))" unfolding u by (rule aligned_sum_high)
    then have "op_rounds 23 255 zs r s (if cw + j < 2 ^ (23 + 7) then softfloat_roundPackToF32 sg (eC - 1) (push_bit 1 (cw + j)) s
        else softfloat_roundPackToF32 sg eC (cw + j) s)"
      using Cb P True e unfolding d_def by (intro sf32.fma_sum [of "unat cw * 2 ^ 32" "unat pw" eP]) (simp_all only: L r add.commute, simp_all)
    then show ?thesis using True unfolding sum32_def Let_def j_def [symmetric] by simp
  next
    case False
    define d where "d = nat (eP - eC)"
    define j where "j = softfloat_shift64RightJam (push_bit 32 (ucast cw)) (word_of_int (eP - eC))"
    have "unat (push_bit 32 (ucast cw) :: uint64_t) = unat cw * 2 ^ 32"
      using C(2) by (subst unat_push_bit_small) (simp_all add: unat_ucast_up)
    then have uj: "unat j = jam d (unat cw * 2 ^ 32)"
      using False e shift_count [of "eP - eC"] by (simp add: j_def d_def unat_shift64RightJam)
    have "jam (0 + d) (unat cw * 2 ^ 32) < 2 ^ 62" using Cb(2) by (intro jam_bound) simp_all
    then have us: "unat (pw + j) = unat pw + jam d (unat cw * 2 ^ 32)" "unat pw + jam d (unat cw * 2 ^ 32) < 2 ^ 63"
      using P(2) uj by (simp_all add: unat_add_small)
    define z :: uint32_t where "z = ucast (softfloat_shortShift64RightJam (pw + j) 32)"
    have "jam 32 (unat pw + jam d (unat cw * 2 ^ 32)) < 2 ^ 32" using us(2) by (subst jam_less_even) simp_all
    then have uz: "unat z = jam 32 (unat pw + jam d (unat cw * 2 ^ 32))"
      unfolding z_def unat_ucast_mod by (simp add: unat_shortShift64RightJam us(1))
    have "agrees 1 ((real (unat pw) + real (unat cw * 2 ^ 32) / 2 ^ d) / 2 ^ 32) (unat z)" unfolding uz using P(3) by (rule aligned_sum_low)
    then have "op_rounds 23 255 zs r s (if z < 2 ^ (23 + 7) then softfloat_roundPackToF32 sg (eP - 1) (push_bit 1 z) s
        else softfloat_roundPackToF32 sg eP z s)"
      using Cb P False e unfolding d_def by (intro sf32.fma_sum [of "unat pw" "unat cw * 2 ^ 32" eC]) (simp_all only: L r, simp_all)
    then show ?thesis using False unfolding sum32_def Let_def j_def [symmetric] z_def [symmetric] by simp
  qed
qed

lemma top_bit64: "z AND 0x8000000000000000 \<noteq> 0 \<longleftrightarrow> 2 ^ 63 \<le> unat z" for z :: uint64_t
proof -
  have "z AND 2 ^ 63 \<noteq> 0 \<longleftrightarrow> odd (drop_bit 63 z)" unfolding and_exp_eq_0_iff_not_bit bit_iff_odd_drop_bit by simp
  also have "\<dots> \<longleftrightarrow> odd (unat z div 2 ^ 63)" by (simp flip: even_unat_iff add: unat_drop_bit_div)
  also have "\<dots> \<longleftrightarrow> 2 ^ 63 \<le> unat z"
  proof (cases "2 ^ 63 \<le> unat z")
    case True
    then have "unat z div 2 ^ 63 = 1" using unat_lt64 [of z] by (intro div_nat_eqI) simp_all
    then show ?thesis using True by simp
  next
    case False
    then show ?thesis by simp
  qed
  finally show ?thesis by simp
qed

definition diff32 ::
  "bool \<Rightarrow> bool \<Rightarrow> int \<Rightarrow> uint64_t \<Rightarrow> int \<Rightarrow> uint32_t \<Rightarrow> float32_t \<times> fp_state \<Rightarrow> fp_state \<Rightarrow> float32_t \<times> fp_state" where
  "diff32 signZ signC expProd sigProd expC sigC completeCancellation s =
     (let expDiff = expProd - expC;
          sigC64 = push_bit 32 (ucast sigC) :: uint64_t
      in if expDiff < 0
         then finish32 signC expC (sigC64 - softfloat_shift64RightJam sigProd (word_of_int (- expDiff))) s
         else if expDiff = 0
         then
           let sigZ64 = sigProd - sigC64
           in if sigZ64 = 0 then completeCancellation
              else if sigZ64 AND 0x8000000000000000 \<noteq> 0 then finish32 (\<not> signZ) expProd (- sigZ64) s
              else finish32 signZ expProd sigZ64 s
         else finish32 signZ expProd (sigProd - softfloat_shift64RightJam sigC64 (word_of_int expDiff)) s)"

lemma finish32_aligned:
  assumes B: "2 ^ 61 \<le> unat bw" "unat bw < 2 ^ 62" "even (unat bw)" and S: "unat sw < 2 ^ 62" "2 ^ t dvd unat sw" "2 \<le> t"
    and e: "eS < eB" "\<bar>eS\<bar> \<le> 10000" "\<bar>eB\<bar> \<le> 10000"
    and r: "r = sgn_of sg * (real (unat bw) * 2 powi (eB - 39) - real (unat sw) * 2 powi (eS - 39))"
  shows "op_rounds 23 255 zs r s (finish32 sg eB (bw - softfloat_shift64RightJam sw (word_of_int (eB - eS))) s)"
proof -
  define d where "d = nat (eB - eS)"
  define j where "j = softfloat_shift64RightJam sw (word_of_int (eB - eS))"
  have uj: "unat j = jam d (unat sw)" using e shift_count [of "eB - eS"] by (simp add: j_def d_def unat_shift64RightJam)
  have "2 * 2 ^ 60 \<le> unat bw" "unat sw < 4 * 2 ^ 60" "even ((2::nat) ^ 60)" "0 < d" using B S e by (simp_all add: d_def)
  note a = aligned_difference [OF this(1) B(3) this(2,3,4) S(2,3)]
  then have "jam d (unat sw) \<le> unat bw" by simp
  then have u: "unat (bw - j) = unat bw - jam d (unat sw)" by (simp add: unat_sub_le word_le_nat_alt uj)
  then have "bw - j \<noteq> 0" "unat (bw - j) < 2 ^ 62" using a(1,3) B(2) by auto
  then obtain k sigZ where k: "finish32 sg eB (bw - j) s = softfloat_roundPackToF32 sg (eB - int k) sigZ s"
    "sf32.normalised (unat (bw - j)) k sigZ" "k \<le> 200" by (rule finish32_normalised)
  have L: "2 * LENGTH(32) - 3 = 61" "2 * LENGTH(32) - 2 = 62" "int 7 + int LENGTH(32) = 39" by simp_all
  have "op_rounds 23 255 zs r s (softfloat_roundPackToF32 sg (eB - int k) sigZ s)"
  proof (rule sf32.fma_difference [OF _ B(3) _ S(2,3) e(1) _ _ k(3)])
    show "sf32.normalised (unat bw - jam (nat (eB - eS)) (unat sw)) k sigZ" using k(2) unfolding u d_def .
    show "r = sgn_of sg * (real (unat bw) * 2 powi (eB - (int 7 + int LENGTH(32))) - real (unat sw) * 2 powi (eS - (int 7 + int LENGTH(32))))"
      unfolding r L ..
  qed (use B(1) S(1) e in simp_all)
  then show ?thesis unfolding j_def [symmetric] k(1) .
qed

lemma finish32_exact:
  assumes "w \<noteq> 0" and "unat w < 2 ^ 62" and "\<bar>e\<bar> \<le> 10000" and r: "r = sgn_of sg * (real (unat w) * 2 powi (e - 39))"
  shows "op_rounds 23 255 zs r s (finish32 sg e w s)"
proof -
  obtain k sigZ where k: "finish32 sg e w s = softfloat_roundPackToF32 sg (e - int k) sigZ s" "sf32.normalised (unat w) k sigZ" "k \<le> 200"
    using assms(1,2) by (rule finish32_normalised)
  show ?thesis unfolding k(1) using assms(1,3) k(2,3) r by (intro sf32.fma_exact [of "unat w"]) (simp_all add: unat_gt_0)
qed

lemma diff32_rounds:
  assumes P: "2 ^ 61 \<le> unat pw" "unat pw < 2 ^ 62" "2 ^ 14 dvd unat pw" and C: "2 ^ 29 \<le> unat cw" "unat cw < 2 ^ 30"
    and e: "\<bar>eP\<bar> \<le> 10000" "\<bar>eC\<bar> \<le> 10000" and sC: "sC = (\<not> sg)"
    and r: "r = sgn_of sg * (real (unat pw) * 2 powi (eP - 39)) + sgn_of sC * (real (unat cw * 2 ^ 32) * 2 powi (eC - 39))"
  shows "r = 0 \<and> diff32 sg sC eP pw eC cw cc s = cc \<or> op_rounds 23 255 zs r s (diff32 sg sC eP pw eC cw cc s)"
proof -
  define c64 :: uint64_t where "c64 = push_bit 32 (ucast cw)"
  have uc: "unat c64 = unat cw * 2 ^ 32" unfolding c64_def using C(2) by (subst unat_push_bit_small) (simp_all add: unat_ucast_up)
  have Cb: "2 ^ 61 \<le> unat c64" "unat c64 < 2 ^ 62" "2 ^ 32 dvd unat c64" "even (unat c64)" using C unfolding uc by simp_all
  have Pe: "even (unat pw)" using P(3) by (metis dvd_trans even_numeral even_power zero_less_numeral)
  have r': "r = sgn_of sg * (real (unat pw) * 2 powi (eP - 39)) + sgn_of sC * (real (unat c64) * 2 powi (eC - 39))" using r uc by simp
  consider "eP < eC" | "eP = eC" | "eC < eP" by linarith
  then show ?thesis
  proof cases
    case 1
    have "r = sgn_of sC * (real (unat c64) * 2 powi (eC - 39) - real (unat pw) * 2 powi (eP - 39))" unfolding r' sC by (simp add: algebra_simps)
    then have "op_rounds 23 255 zs r s (finish32 sC eC (c64 - softfloat_shift64RightJam pw (word_of_int (eC - eP))) s)"
      using 1 e by (intro finish32_aligned [OF Cb(1,2,4) P(2,3)]) simp_all
    then show ?thesis using 1 unfolding diff32_def Let_def c64_def [symmetric] by simp
  next
    case 3
    have "r = sgn_of sg * (real (unat pw) * 2 powi (eP - 39) - real (unat c64) * 2 powi (eC - 39))" unfolding r' sC by (simp add: algebra_simps)
    then have "op_rounds 23 255 zs r s (finish32 sg eP (pw - softfloat_shift64RightJam c64 (word_of_int (eP - eC))) s)"
      using 3 e by (intro finish32_aligned [OF P(1,2) Pe Cb(2,3)]) simp_all
    then show ?thesis using 3 unfolding diff32_def Let_def c64_def [symmetric] by simp
  next
    case 2
    let ?z = "pw - c64"
    have run: "diff32 sg sC eP pw eC cw cc s = (if ?z = 0 then cc else if ?z AND 0x8000000000000000 \<noteq> 0 then finish32 (\<not> sg) eP (- ?z) s
        else finish32 sg eP ?z s)" using 2 unfolding diff32_def Let_def c64_def [symmetric] by simp
    have r2: "r = sgn_of sg * ((real (unat pw) - real (unat c64)) * 2 powi (eP - 39))" unfolding r' sC 2 by (simp add: algebra_simps)
    consider "pw = c64" | "unat c64 < unat pw" | "unat pw < unat c64" by (metis linorder_neqE_nat word_unat_eq_iff)
    then show ?thesis
    proof cases
      case 1
      then show ?thesis using r2 run by simp
    next
      case 2
      then have u: "unat ?z = unat pw - unat c64" by (simp add: unat_sub_le word_le_nat_alt)
      then have "?z \<noteq> 0" "unat ?z < 2 ^ 62" "\<not> 2 ^ 63 \<le> unat ?z" using 2 P(2) by auto
      moreover have "r = sgn_of sg * (real (unat ?z) * 2 powi (eP - 39))" unfolding r2 u using 2 by (simp only: of_nat_diff less_imp_le)
      ultimately have "op_rounds 23 255 zs r s (finish32 sg eP ?z s)" using e(1) by (intro finish32_exact)
      then show ?thesis using \<open>?z \<noteq> 0\<close> \<open>\<not> 2 ^ 63 \<le> unat ?z\<close> run unfolding top_bit64 by simp
    next
      case 3
      have m: "- ?z = c64 - pw" by simp
      have u: "unat (- ?z) = unat c64 - unat pw" unfolding m using 3 by (simp add: unat_sub_le word_le_nat_alt)
      then have nz: "- ?z \<noteq> 0" "unat (- ?z) < 2 ^ 62" using 3 Cb(2) by auto
      then have z0: "?z \<noteq> 0" by auto
      then have "2 ^ 63 \<le> unat ?z" using nz(2) unat_uminus [OF z0] by simp
      moreover have "r = sgn_of (\<not> sg) * (real (unat (- ?z)) * 2 powi (eP - 39))"
      proof -
        have "real (unat (- ?z)) = real (unat c64) - real (unat pw)" unfolding u using 3 by (simp only: of_nat_diff less_imp_le)
        then have v: "real (unat pw) - real (unat c64) = - real (unat (- ?z))" by linarith
        show ?thesis unfolding r2 v by simp
      qed
      ultimately have "op_rounds 23 255 zs r s (finish32 (\<not> sg) eP (- ?z) s)" using nz e(1) by (intro finish32_exact)
      then show ?thesis using z0 \<open>2 ^ 63 \<le> unat ?z\<close> run unfolding top_bit64 by simp
    qed
  qed
qed

lemma mulAddF32_finite_scheme:
  assumes q: "(eP, pw) = (let p = ucast (push_bit 7 (gA OR 0x00800000)) * ucast (push_bit 7 (gB OR 0x00800000)) :: uint64_t
      in if p < 0x2000000000000000 then (e - 1, push_bit 1 p) else (e, p))"
    and n: "(eC, gC) = (if expC = 0 then (es32_exp (softfloat_normSubnormalF32Sig sigC), es32_sig (softfloat_normSubnormalF32Sig sigC)) else (expC, sigC))"
  shows "softfloat_mulAddF32_finite sP sC e gA gB expC sigC cc s =
    (if expC = 0 \<and> sigC = 0 then softfloat_roundPackToF32 sP (eP - 1) (ucast (softfloat_shortShift64RightJam pw 31)) s
     else if sP = sC then sum32 sP eP pw eC (push_bit 6 (gC OR 0x00800000)) s
     else diff32 sP sC eP pw eC (push_bit 6 (gC OR 0x00800000)) cc s)"
  unfolding softfloat_mulAddF32_finite_def Let_def q [unfolded Let_def, symmetric] n [symmetric] prod.case sum32_def diff32_def finish32_def ..

lemma mulAddF32_finite_rounds:
  fixes gA gB :: uint32_t
  defines "mA \<equiv> unat (gA OR 2 ^ 23)" and "mB \<equiv> unat (gB OR 2 ^ 23)"
  assumes A: "2 ^ 23 \<le> mA" "mA < 2 ^ 24" and B: "2 ^ 23 \<le> mB" "mB < 2 ^ 24" and c: "expF32UI c < 255" and e: "\<bar>e\<bar> \<le> 9000"
    and r: "r = sgn_of sP * (real (mA * mB * 2 ^ 14) * 2 powi (e - 39)) + sgn_of sC * real (mval 23 (fl_mag c))"
    and res: "res = softfloat_mulAddF32_finite sP sC e gA gB (expF32UI c) (fracF32UI c) cc s"
  shows "r = 0 \<and> res = cc \<or> op_rounds 23 255 zs r s res"
proof -
  obtain eP pw where q: "(eP, pw) = (let p = ucast (push_bit 7 (gA OR 0x00800000)) * ucast (push_bit 7 (gB OR 0x00800000)) :: uint64_t
      in if p < 0x2000000000000000 then (e - 1, push_bit 1 p) else (e, p))" by (metis surj_pair)
  note P = wide_product32 [OF A [unfolded mA_def] B [unfolded mB_def] refl q [unfolded Let_def], folded mA_def mB_def]
  obtain eC gC where n: "sf32.norm_operand c = (eC, gC)" by fastforce
  note sch = mulAddF32_finite_scheme [OF q n [unfolded sf32.norm_operand_def, symmetric], of sP sC cc s]
  have sc: "real (mA * mB * 2 ^ 14) * 2 powi (e - 39) = real (unat pw) * 2 powi (eP - 39)"
    using P(6) by (simp add: power_int_diff)
  show ?thesis
  proof (cases "fl_mag c = 0")
    case True
    then have z: "expF32UI c = 0 \<and> fracF32UI c = 0" by (simp add: f32.zero_iff)
    have res': "res = softfloat_roundPackToF32 sP (eP - 1) (ucast (softfloat_shortShift64RightJam pw 31)) s" unfolding res sch using z by simp
    define z where "z = (ucast (softfloat_shortShift64RightJam pw 31) :: uint32_t)"
    have jb: "2 ^ 30 \<le> jam 31 (unat pw)" "jam 31 (unat pw) < 2 ^ 31" using P(1,2) by (simp_all add: jam_le_even jam_less_even)
    then have uz: "unat z = jam 31 (unat pw)" unfolding z_def unat_ucast_mod by (simp add: unat_shortShift64RightJam)
    have ag: "agrees (7 - 1) (real (unat pw) / 2 ^ 31) (unat z)" unfolding uz by (rule agrees_jam_refl) simp
    have rr: "r = sgn_of sP * (real (unat pw) / 2 ^ 31 * 2 powi (eP - 1 - int 7))"
      unfolding r sc using True by (simp add: power_int_diff)
    have "0 < unat pw" using P(1) by (rule less_le_trans [rotated]) simp
    then have "0 < real (unat pw)" by (simp only: of_nat_0_less_iff)
    then have "0 < real (unat pw) / 2 ^ 31" by (rule divide_pos_pos) simp
    note sg = signed_scale [OF this rr]
    have "op_rounds 23 255 zs r s (softfloat_roundPackToF32 sP (eP - 1) z s)"
      using P(4,5) e jb by (intro sf32.roundPack_rounds [OF ag _ _ _ _ sg]) (simp_all add: uz)
    then show ?thesis unfolding res' z_def [symmetric] by simp
  next
    case False
    note N = sf32.norm_operand [OF False n]
    define cw where "cw = push_bit 6 (gC OR 0x00800000)"
    have uc: "unat cw = unat (gC OR 2 ^ 23) * 2 ^ 6" unfolding cw_def using N(2) by (subst unat_push_bit_small) simp_all
    have cb: "2 ^ 29 \<le> unat cw" "unat cw < 2 ^ 30" "even (unat cw)" unfolding uc using N(1,2) by simp_all
    have vc: "real (mval 23 (fl_mag c)) = real (unat cw * 2 ^ 32) * 2 powi (eC - 39)"
    proof -
      have "real (unat cw * 2 ^ 32) = real (unat (gC OR 2 ^ 23)) * 2 powi 38" unfolding uc by simp
      then have "real (unat cw * 2 ^ 32) * 2 powi (eC - 39) = real (unat (gC OR 2 ^ 23)) * (2 powi 38 * 2 powi (eC - 39))" by (simp only: mult.assoc)
      also have "\<dots> = real (unat (gC OR 2 ^ 23)) * 2 powi (eC - 1)" unfolding powi_mult by simp
      finally show ?thesis using N(3) by simp
    qed
    have ee: "\<bar>eP\<bar> \<le> 10000" "\<bar>eC\<bar> \<le> 10000" using P(4,5) e N(4,5) by auto
    have nz: "\<not> (expF32UI c = 0 \<and> fracF32UI c = 0)" using False by (simp add: f32.zero_iff)
    have Pe: "even (unat pw)" using P(3) by (metis dvd_trans even_numeral even_power zero_less_numeral)
    show ?thesis
    proof (cases "sP = sC")
      case True
      have "r = sgn_of sP * (real (unat pw) * 2 powi (eP - 39) + real (unat cw * 2 ^ 32) * 2 powi (eC - 39))"
        unfolding r sc vc True by (simp only: distrib_left)
      then have "op_rounds 23 255 zs r s (sum32 sP eP pw eC cw s)" using P cb ee Pe by (intro sum32_rounds)
      then show ?thesis unfolding res sch if_not_P [OF nz] if_P [OF True] cw_def ..
    next
      case opp: False
      then have "sC = (\<not> sP)" by auto
      then have "r = 0 \<and> diff32 sP sC eP pw eC cw cc s = cc \<or> op_rounds 23 255 zs r s (diff32 sP sC eP pw eC cw cc s)"
        using P cb ee by (intro diff32_rounds) (simp_all only: r sc vc)
      then show ?thesis unfolding res sch if_not_P [OF nz] if_not_P [OF opp] cw_def .
    qed
  qed
qed

end
