(* ===== verification/Float_MulAdd_Double.thy ===== *)
theory Float_MulAdd_Double
  imports Float_MulAdd_Single
begin

text \<open>
  The arithmetic of \<^verbatim>\<open>s_mulAddF64.c\<close>: product and sum are 128-bit numbers in two words.
\<close>

section \<open>Two words and a sticky bit\<close>

lemma u128_eq_0_iff: "u128 z = 0 \<longleftrightarrow> u128_v64 z OR u128_v0 z = 0"
  by (auto simp: u128_def or_eq_0_iff unat_eq_zero)

text \<open>The end of the subtraction, from the wide difference on.\<close>

definition finish64 :: "bool \<Rightarrow> int \<Rightarrow> uint128 \<Rightarrow> fp_state \<Rightarrow> float64_t \<times> fp_state" where
  "finish64 signZ expZ sigZ128 s =
     (let (expZ, sigZ128) =
            (if u128_v64 sigZ128 = 0
             then (expZ - 64, \<lparr>u128_v64 = u128_v0 sigZ128, u128_v0 = 0\<rparr>)
             else (expZ, sigZ128));
          shiftCount = softfloat_countLeadingZeros64 (u128_v64 sigZ128) - 1;
          expZ = expZ - shiftCount;
          (sigZ, sigZ128) =
            (if shiftCount < 0
             then (softfloat_shortShift64RightJam (u128_v64 sigZ128) (word_of_int (- shiftCount)), sigZ128)
             else let sigZ128 = softfloat_shortShift128Left (u128_v64 sigZ128) (u128_v0 sigZ128)
                                  (word_of_int shiftCount)
                  in (u128_v64 sigZ128, sigZ128));
          sigZ = sigZ OR of_bool (u128_v0 sigZ128 \<noteq> 0)
      in softfloat_roundPackToF64 signZ expZ sigZ s)"

lemma finish64_low:
  assumes w: "u128_v64 w = 0" "u128_v0 w \<noteq> 0"
  obtains k sigZ where "finish64 sg e w s = softfloat_roundPackToF64 sg (e - int k) sigZ s" "sf64.normalised (u128 w) k sigZ" "k \<le> 200"
proof -
  define v where "v = u128_v0 w"
  obtain c where c: "softfloat_countLeadingZeros64 v = int c" "c < 64" "2 ^ 63 \<le> unat v * 2 ^ c" "unat v * 2 ^ c < 2 ^ 64"
    using w(2) unfolding v_def by (rule countLeadingZeros64_normalises)
  have uw: "u128 w = unat v" by (simp add: u128_def w(1) v_def)
  show thesis
  proof (cases c)
    case 0
    have "finish64 sg e w s = softfloat_roundPackToF64 sg (e - int 63) (softfloat_shortShift64RightJam v 1) s"
      by (simp add: finish64_def Let_def w(1) v_def [symmetric] c(1) 0)
    moreover have "unat (softfloat_shortShift64RightJam v 1) = jam 1 (unat v)" by (simp add: unat_shortShift64RightJam)
    then have "sf64.normalised (u128 w) 63 (softfloat_shortShift64RightJam v 1)"
      using c(3,4) 0 by (simp add: sf64.normalised_def uw)
    ultimately show ?thesis using that [of 63] by simp
  next
    case (Suc q)
    define cw :: uint32_t where "cw = word_of_int (int q)"
    have cw: "unat cw = q" using c(2) Suc by (simp add: cw_def unat_of_nat)
    have cw': "unat (word_of_nat q :: uint32_t) = q" using cw by (simp add: cw_def)
    have n: "2 ^ 62 \<le> unat v * 2 ^ q" "unat v * 2 ^ q < 2 ^ 63" using c(3,4) Suc by simp_all
    have "finish64 sg e w s = softfloat_roundPackToF64 sg (e - int (64 + q)) (push_bit q v) s"
      using c(1) Suc by (simp add: finish64_def Let_def w(1) v_def [symmetric] softfloat_shortShift128Left_def cw' algebra_simps)
    moreover have "unat (push_bit q v) = unat v * 2 ^ q" using n(2) by (intro unat_push_bit_small) simp
    then have "sf64.normalised (u128 w) (64 + q) (push_bit q v)"
      using n by (simp add: sf64.normalised_def uw power_add)
    ultimately show ?thesis using that [of "64 + q"] c(2) Suc by simp
  qed
qed

lemma finish64_normalised:
  assumes w: "u128 w \<noteq> 0" "u128 w < 2 ^ 126"
  obtains k sigZ where "finish64 sg e w s = softfloat_roundPackToF64 sg (e - int k) sigZ s" "sf64.normalised (u128 w) k sigZ" "k \<le> 200"
proof (cases "u128_v64 w = 0")
  case True
  then have "u128_v0 w \<noteq> 0" using w(1) by (auto simp: u128_def)
  with True show thesis using that by (rule finish64_low)
next
  case False
  define v where "v = u128_v64 w"
  obtain c where c: "softfloat_countLeadingZeros64 v = int c" "c < 64" "2 ^ 63 \<le> unat v * 2 ^ c" "unat v * 2 ^ c < 2 ^ 64"
    using False unfolding v_def by (rule countLeadingZeros64_normalises)
  have v62: "unat v < 2 ^ 62" using w(2) unfolding v_def by (subst high_word_less) simp_all
  define k where "k = c - 1"
  have "2 \<le> c" using c(3) v62 by (cases c; cases "c - 1") simp_all
  then have k: "c = Suc k" "0 < k" "k < 64" using c(2) by (simp_all add: k_def)
  define cw :: uint32_t where "cw = word_of_int (int k)"
  have cw: "unat cw = k" using k(3) by (simp add: cw_def unat_of_nat)
  have hn: "2 ^ 62 \<le> unat v * 2 ^ k" "unat v * 2 ^ k < 2 ^ 63" using c(3,4) k(1) by simp_all
  have u: "u128 w = cat128 v (u128_v0 w)" by (simp add: u128_def v_def)
  have n1: "2 ^ 126 \<le> u128 w * 2 ^ k"
  proof -
    have "2 ^ 62 * 2 ^ 64 \<le> unat v * 2 ^ k * 2 ^ 64" using hn(1) by (intro mult_le_mono1)
    also have "\<dots> \<le> u128 w * 2 ^ k" unfolding u by (simp add: distrib_right)
    finally show ?thesis by simp
  qed
  have n2: "u128 w * 2 ^ k < 2 ^ 127"
  proof -
    have "unat v < 2 ^ (63 - k)"
    proof -
      have "(2::nat) ^ 63 = 2 ^ (63 - k) * 2 ^ k" using k by (intro power_split) simp
      then have "unat v * 2 ^ k < 2 ^ (63 - k) * 2 ^ k" using hn(2) by (simp only:)
      then show ?thesis unfolding mult_less_cancel2 by simp
    qed
    then have "u128 w < 2 ^ (64 + (63 - k))" unfolding v_def by (subst (asm) high_word_less) simp_all
    then have "u128 w * 2 ^ k < 2 ^ (64 + (63 - k)) * 2 ^ k" by simp
    also have "\<dots> = 2 ^ 127" using k by (simp flip: power_add)
    finally show ?thesis .
  qed
  define z where "z = softfloat_shortShift128Left v (u128_v0 w) cw"
  have uz: "u128 z = u128 w * 2 ^ k" unfolding z_def u cw [symmetric] using k n2 unfolding u
    by (intro shortShift128Left_exact) (simp_all add: cw)
  define sigZ where "sigZ = u128_v64 z OR of_bool (u128_v0 z \<noteq> 0)"
  have "unat sigZ = jam (64 - k) (u128 w)" unfolding sigZ_def high_word_sticky uz using k by (intro jam_shift) simp
  then have "sf64.normalised (u128 w) k sigZ" using n1 n2 k by (simp add: sf64.normalised_def)
  moreover have "finish64 sg e w s = softfloat_roundPackToF64 sg (e - int k) sigZ s"
    using False c(1) k by (simp add: finish64_def Let_def v_def [symmetric] sigZ_def z_def cw_def)
  ultimately show thesis using that k by simp
qed

section \<open>The product\<close>

lemma wide_product64:
  fixes gA gB :: uint64_t
  defines "mA \<equiv> unat (gA OR 2 ^ 52)" and "mB \<equiv> unat (gB OR 2 ^ 52)"
  assumes A: "2 ^ 52 \<le> mA" "mA < 2 ^ 53" and B: "2 ^ 52 \<le> mB" "mB < 2 ^ 53"
    and p: "p = softfloat_mul64To128 (push_bit 10 (gA OR 0x0010000000000000)) (push_bit 10 (gB OR 0x0010000000000000))"
    and q: "(eP, pw) = (if u128_v64 p < 0x2000000000000000
      then (e - 1, softfloat_shortShift128Left (u128_v64 p) (u128_v0 p) 1) else (e, p))"
  shows "2 ^ 125 \<le> u128 pw" and "u128 pw < 2 ^ 126" and "2 ^ 20 dvd u128 pw" and "e - 1 \<le> eP" and "eP \<le> e"
    and "real (u128 pw) * 2 powi eP = real (mA * mB * 2 ^ 20) * 2 powi e"
proof -
  have uA: "unat (push_bit 10 (gA OR 0x0010000000000000)) = mA * 2 ^ 10" using A(2) unfolding mA_def by (subst unat_push_bit_small) simp_all
  have uB: "unat (push_bit 10 (gB OR 0x0010000000000000)) = mB * 2 ^ 10" using B(2) unfolding mB_def by (subst unat_push_bit_small) simp_all
  have m: "2 ^ 52 * 2 ^ 52 \<le> mA * mB" "mA * mB < 2 ^ 53 * 2 ^ 53" using A B by (intro mult_le_mono mult_strict_mono; simp)+
  have up: "u128 p = mA * mB * 2 ^ 20" unfolding p mul64To128_exact uA uB by simp
  have b: "2 ^ 124 \<le> u128 p" "u128 p < 2 ^ 126" using m unfolding up by simp_all
  have d: "2 ^ 20 dvd u128 p" unfolding up by simp
  have all: "2 ^ 125 \<le> u128 pw \<and> u128 pw < 2 ^ 126 \<and> 2 ^ 20 dvd u128 pw \<and> e - 1 \<le> eP \<and> eP \<le> e \<and> real (u128 pw) * 2 powi eP = real (u128 p) * 2 powi e"
  proof (cases "u128_v64 p < 0x2000000000000000")
    case True
    then have lt: "u128 p < 2 ^ 125" using high_word_less [of 61 p] by (simp add: word_less_nat_alt)
    then have "cat128 (u128_v64 p) (u128_v0 p) * 2 ^ unat (1 :: uint32_t) < 2 ^ 128" by (simp add: u128_def)
    then have "u128 (softfloat_shortShift128Left (u128_v64 p) (u128_v0 p) 1) = cat128 (u128_v64 p) (u128_v0 p) * 2 ^ unat (1 :: uint32_t)"
      by (intro shortShift128Left_exact) simp_all
    then have u: "u128 (softfloat_shortShift128Left (u128_v64 p) (u128_v0 p) 1) = u128 p * 2" by (simp add: u128_def)
    show ?thesis using True q u lt b d by (simp add: power_int_diff dvd_mult2)
  next
    case False
    then have "2 ^ 125 \<le> u128 p" using high_word_less [of 61 p] by (simp add: word_less_nat_alt)
    then show ?thesis using False q b(2) d by simp
  qed
  then show "2 ^ 125 \<le> u128 pw" "u128 pw < 2 ^ 126" "2 ^ 20 dvd u128 pw" "e - 1 \<le> eP" "eP \<le> e" by blast+
  show "real (u128 pw) * 2 powi eP = real (mA * mB * 2 ^ 20) * 2 powi e" unfolding up [symmetric] using all by blast
qed

section \<open>The sum\<close>

definition sum64 :: "bool \<Rightarrow> int \<Rightarrow> uint128 \<Rightarrow> int \<Rightarrow> uint64_t \<Rightarrow> fp_state \<Rightarrow> float64_t \<times> fp_state" where
  "sum64 signZ expProd sigProd expC sigC s =
     (let expDiff = expProd - expC;
          (expZ, sigZ) =
            (if expDiff \<le> 0
             then
               let v64 = (if expDiff \<noteq> 0
                          then softfloat_shift64RightJam (u128_v64 sigProd) (word_of_int (- expDiff))
                          else u128_v64 sigProd)
               in (expC, (sigC + v64) OR of_bool (u128_v0 sigProd \<noteq> 0))
             else
               let sigC128 = softfloat_shift128RightJam sigC 0 (word_of_int expDiff);
                   sigZ128 = softfloat_add128 (u128_v64 sigProd) (u128_v0 sigProd)
                               (u128_v64 sigC128) (u128_v0 sigC128)
               in (expProd, u128_v64 sigZ128 OR of_bool (u128_v0 sigZ128 \<noteq> 0)))
      in if sigZ < 0x4000000000000000
         then softfloat_roundPackToF64 signZ (expZ - 1) (push_bit 1 sigZ) s
         else softfloat_roundPackToF64 signZ expZ sigZ s)"

lemma sum64_rounds:
  assumes P: "2 ^ 125 \<le> u128 pw" "u128 pw < 2 ^ 126" "even (u128 pw)" and C: "2 ^ 61 \<le> unat cw" "unat cw < 2 ^ 62" "even (unat cw)"
    and e: "\<bar>eP\<bar> \<le> 10000" "\<bar>eC\<bar> \<le> 10000"
    and r: "r = sgn_of sg * (real (u128 pw) * 2 powi (eP - 74) + real (unat cw * 2 ^ 64) * 2 powi (eC - 74))"
  shows "op_rounds 52 2047 zs r s (sum64 sg eP pw eC cw s)"
proof -
  have Cb: "2 ^ 125 \<le> unat cw * 2 ^ 64" "unat cw * 2 ^ 64 < 2 ^ 126" using C by simp_all
  have L: "2 * LENGTH(64) - 3 = 125" "2 * LENGTH(64) - 2 = 126" "int 10 + int LENGTH(64) = 74" by simp_all
  show ?thesis
  proof (cases "eP \<le> eC")
    case True
    define d where "d = nat (eC - eP)"
    define j where "j = (if eP - eC \<noteq> 0 then softfloat_shift64RightJam (u128_v64 pw) (word_of_int (- (eP - eC))) else u128_v64 pw)"
    have uj: "unat j = jam d (unat (u128_v64 pw))"
      using True e shift_count [of "eC - eP"] by (simp add: j_def d_def unat_shift64RightJam)
    have "unat (u128_v64 pw) < 2 ^ 62" using P(2) by (subst high_word_less) simp_all
    then have jb: "jam (0 + d) (unat (u128_v64 pw)) < 2 ^ 62" by (intro jam_bound) simp_all
    define z where "z = (cw + j) OR of_bool (u128_v0 pw \<noteq> 0)"
    have "unat (cw + j) = unat cw + jam d (unat (u128_v64 pw))" using C(2) jb by (subst unat_add_small) (simp_all add: uj)
    then have u: "unat z = unat cw * 2 ^ 64 div 2 ^ 64 + jam (64 + d) (u128 pw)"
      using jam_high [of "unat (u128_v0 pw)" 64 d "unat (u128_v64 pw)"] unat_lt64 [of "u128_v0 pw"] C(3)
      unfolding z_def by (simp add: unat_or_of_bool u128_def unat_eq_zero)
    have "2 ^ Suc 64 dvd unat cw * 2 ^ 64" using C(3) by (auto elim: evenE)
    then have "agrees 1 ((real (unat cw * 2 ^ 64) + real (u128 pw) / 2 ^ d) / 2 ^ 64) (unat z)" unfolding u by (rule aligned_sum_high)
    then have "op_rounds 52 2047 zs r s (if z < 2 ^ (52 + 10) then softfloat_roundPackToF64 sg (eC - 1) (push_bit 1 z) s
        else softfloat_roundPackToF64 sg eC z s)"
      using Cb P True e unfolding d_def by (intro sf64.fma_sum [of "unat cw * 2 ^ 64" "u128 pw" eP]) (simp_all only: L r add.commute, simp_all)
    then show ?thesis using True unfolding sum64_def Let_def j_def [symmetric] z_def [symmetric] by simp
  next
    case False
    define d where "d = nat (eP - eC)"
    define c where "c = softfloat_shift128RightJam cw 0 (word_of_int (eP - eC))"
    have uc: "u128 c = jam d (unat cw * 2 ^ 64)"
      using False e shift_count [of "eP - eC"] by (simp add: c_def d_def shift128RightJam_value)
    have "jam (0 + d) (unat cw * 2 ^ 64) < 2 ^ 126" using Cb(2) by (intro jam_bound) simp_all
    then have lt: "u128 pw + jam d (unat cw * 2 ^ 64) < 2 ^ 127" using P(2) by simp
    define t where "t = softfloat_add128 (u128_v64 pw) (u128_v0 pw) (u128_v64 c) (u128_v0 c)"
    have ut: "u128 t = u128 pw + jam d (unat cw * 2 ^ 64)" unfolding t_def add128_mod u128_cat uc using lt by simp
    define z where "z = u128_v64 t OR of_bool (u128_v0 t \<noteq> 0)"
    have uz: "unat z = jam 64 (u128 pw + jam d (unat cw * 2 ^ 64))" unfolding z_def high_word_sticky ut ..
    have "agrees 1 ((real (u128 pw) + real (unat cw * 2 ^ 64) / 2 ^ d) / 2 ^ 64) (unat z)" unfolding uz using P(3) by (rule aligned_sum_low)
    then have "op_rounds 52 2047 zs r s (if z < 2 ^ (52 + 10) then softfloat_roundPackToF64 sg (eP - 1) (push_bit 1 z) s
        else softfloat_roundPackToF64 sg eP z s)"
      using Cb P False e unfolding d_def by (intro sf64.fma_sum [of "u128 pw" "unat cw * 2 ^ 64" eC]) (simp_all only: L r, simp_all)
    then show ?thesis using False unfolding sum64_def Let_def c_def [symmetric] t_def [symmetric] z_def [symmetric] by simp
  qed
qed

section \<open>The difference\<close>

definition diff64 ::
  "bool \<Rightarrow> bool \<Rightarrow> int \<Rightarrow> uint128 \<Rightarrow> int \<Rightarrow> uint64_t \<Rightarrow> float64_t \<times> fp_state \<Rightarrow> fp_state \<Rightarrow> float64_t \<times> fp_state" where
  "diff64 signZ signC expProd sigProd expC sigC completeCancellation s =
     (let expDiff = expProd - expC
      in if expDiff < 0
         then
           let sigProd = softfloat_shift128RightJam (u128_v64 sigProd) (u128_v0 sigProd) (word_of_int (- expDiff))
           in finish64 signC expC (softfloat_sub128 sigC 0 (u128_v64 sigProd) (u128_v0 sigProd)) s
         else if expDiff = 0
         then
           let sigZ128 = softfloat_sub128 (u128_v64 sigProd) (u128_v0 sigProd) sigC 0
           in if u128_v64 sigZ128 OR u128_v0 sigZ128 = 0 then completeCancellation
              else if u128_v64 sigZ128 AND 0x8000000000000000 \<noteq> 0
              then finish64 (\<not> signZ) expProd (softfloat_sub128 0 0 (u128_v64 sigZ128) (u128_v0 sigZ128)) s
              else finish64 signZ expProd sigZ128 s
         else
           let sigC128 = softfloat_shift128RightJam sigC 0 (word_of_int expDiff)
           in finish64 signZ expProd
                (softfloat_sub128 (u128_v64 sigProd) (u128_v0 sigProd) (u128_v64 sigC128) (u128_v0 sigC128)) s)"

lemma finish64_aligned:
  fixes b64 b0 s64 s0 :: uint64_t and eB eS :: int
  defines "B \<equiv> cat128 b64 b0" and "S \<equiv> cat128 s64 s0"
  assumes B: "2 ^ 125 \<le> B" "B < 2 ^ 126" "even B" and S: "S < 2 ^ 126" "2 ^ t dvd S" "2 \<le> t"
    and e: "eS < eB" "\<bar>eS\<bar> \<le> 10000" "\<bar>eB\<bar> \<le> 10000"
    and r: "r = sgn_of sg * (real B * 2 powi (eB - 74) - real S * 2 powi (eS - 74))"
    and j: "j = softfloat_shift128RightJam s64 s0 (word_of_int (eB - eS))"
  shows "op_rounds 52 2047 zs r s (finish64 sg eB (softfloat_sub128 b64 b0 (u128_v64 j) (u128_v0 j)) s)"
proof -
  define d where "d = nat (eB - eS)"
  have uj: "u128 j = jam d S" using e shift_count [of "eB - eS"] by (simp add: j d_def shift128RightJam_value S_def)
  have "2 * 2 ^ 124 \<le> B" "S < 4 * 2 ^ 124" "even ((2::nat) ^ 124)" "0 < d" using B S e by (simp_all add: d_def)
  note a = aligned_difference [OF this(1) B(3) this(2,3,4) S(2,3)]
  define z where "z = softfloat_sub128 b64 b0 (u128_v64 j) (u128_v0 j)"
  have "cat128 (u128_v64 j) (u128_v0 j) \<le> cat128 b64 b0" unfolding u128_cat uj B_def [symmetric] using a(1) by simp
  from sub128_no_borrow [OF this] have u: "u128 z = B - jam d S" unfolding z_def u128_cat uj B_def .
  then have "u128 z \<noteq> 0" "u128 z < 2 ^ 126" using a(1,3) B(2) by linarith+
  then obtain k sigZ where k: "finish64 sg eB z s = softfloat_roundPackToF64 sg (eB - int k) sigZ s" "sf64.normalised (u128 z) k sigZ" "k \<le> 200"
    by (rule finish64_normalised)
  have L: "2 * LENGTH(64) - 3 = 125" "2 * LENGTH(64) - 2 = 126" "int 10 + int LENGTH(64) = 74" by simp_all
  have "op_rounds 52 2047 zs r s (softfloat_roundPackToF64 sg (eB - int k) sigZ s)"
  proof (rule sf64.fma_difference [OF _ B(3) _ S(2,3) e(1) _ _ k(3)])
    show "sf64.normalised (B - jam (nat (eB - eS)) S) k sigZ" using k(2) unfolding u d_def .
    show "r = sgn_of sg * (real B * 2 powi (eB - (int 10 + int LENGTH(64))) - real S * 2 powi (eS - (int 10 + int LENGTH(64))))"
      unfolding r L ..
  qed (use B(1) S(1) e in simp_all)
  then show ?thesis unfolding z_def [symmetric] k(1) .
qed

lemma finish64_exact:
  assumes "u128 w \<noteq> 0" and "u128 w < 2 ^ 126" and "\<bar>e\<bar> \<le> 10000" and r: "r = sgn_of sg * (real (u128 w) * 2 powi (e - 74))"
  shows "op_rounds 52 2047 zs r s (finish64 sg e w s)"
proof -
  obtain k sigZ where k: "finish64 sg e w s = softfloat_roundPackToF64 sg (e - int k) sigZ s" "sf64.normalised (u128 w) k sigZ" "k \<le> 200"
    using assms(1,2) by (rule finish64_normalised)
  show ?thesis unfolding k(1) using assms(1,3) k(2,3) r by (intro sf64.fma_exact [of "u128 w"]) simp_all
qed

text \<open>With equal exponents the difference is exact; its sign is the top bit of the wrapped result.\<close>

lemma diff64_equal:
  assumes P: "u128 pw < 2 ^ 126" and C: "C = unat cw * 2 ^ 64" "C < 2 ^ 126" and e: "\<bar>e\<bar> \<le> 10000"
    and z: "z = softfloat_sub128 (u128_v64 pw) (u128_v0 pw) cw 0"
    and r: "r = sgn_of sg * ((real (u128 pw) - real C) * 2 powi (e - 74))"
    and res: "res = (if u128_v64 z OR u128_v0 z = 0 then cc
      else if u128_v64 z AND 0x8000000000000000 \<noteq> 0 then finish64 (\<not> sg) e (softfloat_sub128 0 0 (u128_v64 z) (u128_v0 z)) s
      else finish64 sg e z s)"
  shows "r = 0 \<and> res = cc \<or> op_rounds 52 2047 zs r s res"
proof -
  have uz: "u128 z = (u128 pw + (2 ^ 128 - C)) mod 2 ^ 128" unfolding z sub128_mod u128_cat C(1) by simp
  have top: "u128_v64 z AND 0x8000000000000000 \<noteq> 0 \<longleftrightarrow> \<not> u128 z < 2 ^ 127"
    unfolding top_bit64 using high_word_less [of 63 z] by (simp add: not_less [symmetric])
  consider "u128 pw = C" | "C < u128 pw" | "u128 pw < C" by linarith
  then show ?thesis
  proof cases
    case 1
    then have "u128 z = 0" unfolding uz using C(2) by simp
    then show ?thesis using 1 r res u128_eq_0_iff [of z] by simp
  next
    case 2
    then have eq: "u128 pw + (2 ^ 128 - C) = (u128 pw - C) + 2 ^ 128" using C(2) by simp
    have u: "u128 z = u128 pw - C" unfolding uz eq mod_add_self2 using P by simp
    then have nz: "u128 z \<noteq> 0" "u128 z < 2 ^ 126" "u128 z < 2 ^ 127" using 2 P by simp_all
    have "r = sgn_of sg * (real (u128 z) * 2 powi (e - 74))" unfolding r u using 2 by (simp only: of_nat_diff less_imp_le)
    then have "op_rounds 52 2047 zs r s (finish64 sg e z s)" using nz(1,2) e by (intro finish64_exact)
    then show ?thesis using res nz(1,3) u128_eq_0_iff [of z] top by simp
  next
    case 3
    have eq: "u128 pw + (2 ^ 128 - C) = 2 ^ 128 - (C - u128 pw)" using 3 C(2) by simp
    have u: "u128 z = 2 ^ 128 - (C - u128 pw)" unfolding uz eq using 3 by simp
    then have nz: "u128 z \<noteq> 0" "\<not> u128 z < 2 ^ 127" using C(2) by simp_all
    define w where "w = softfloat_sub128 0 0 (u128_v64 z) (u128_v0 z)"
    have "u128 w = (2 ^ 128 - u128 z) mod 2 ^ 128" unfolding w_def sub128_mod u128_cat by simp
    also have "2 ^ 128 - u128 z = C - u128 pw" unfolding u using C(2) by simp
    finally have uw: "u128 w = C - u128 pw" using C(2) by simp
    have "real (u128 w) = real C - real (u128 pw)" unfolding uw using 3 by (simp only: of_nat_diff less_imp_le)
    then have v: "real (u128 pw) - real C = - real (u128 w)" by linarith
    have "r = sgn_of (\<not> sg) * (real (u128 w) * 2 powi (e - 74))" unfolding r v by simp
    then have "op_rounds 52 2047 zs r s (finish64 (\<not> sg) e w s)" using uw 3 C(2) e by (intro finish64_exact) simp_all
    then show ?thesis using res nz u128_eq_0_iff [of z] top unfolding w_def by simp
  qed
qed

lemma diff64_rounds:
  assumes P: "2 ^ 125 \<le> u128 pw" "u128 pw < 2 ^ 126" "2 ^ 20 dvd u128 pw" and C: "2 ^ 61 \<le> unat cw" "unat cw < 2 ^ 62"
    and e: "\<bar>eP\<bar> \<le> 10000" "\<bar>eC\<bar> \<le> 10000" and sC: "sC = (\<not> sg)"
    and r: "r = sgn_of sg * (real (u128 pw) * 2 powi (eP - 74)) + sgn_of sC * (real (unat cw * 2 ^ 64) * 2 powi (eC - 74))"
  shows "r = 0 \<and> diff64 sg sC eP pw eC cw cc s = cc \<or> op_rounds 52 2047 zs r s (diff64 sg sC eP pw eC cw cc s)"
proof -
  define C where "C = unat cw * 2 ^ 64"
  have Cc: "cat128 cw 0 = C" by (simp add: C_def)
  have Cb: "2 ^ 125 \<le> C" "C < 2 ^ 126" "2 ^ 64 dvd C" "even C" using C unfolding C_def by simp_all
  have Pe: "even (u128 pw)" using P(3) by (metis dvd_trans even_numeral even_power zero_less_numeral)
  consider "eP < eC" | "eP = eC" | "eC < eP" by linarith
  then show ?thesis
  proof cases
    case 1
    have "r = sgn_of sC * (real C * 2 powi (eC - 74) - real (u128 pw) * 2 powi (eP - 74))" unfolding r sC C_def by (simp add: algebra_simps)
    then have "op_rounds 52 2047 zs r s (diff64 sg sC eP pw eC cw cc s)"
      using 1 finish64_aligned [of cw 0 "u128_v64 pw" "u128_v0 pw" 20 eP eC r sC _ zs s, unfolded u128_cat Cc, OF Cb(1,2,4) P(2,3) _ _ _ _ _ refl] e
      unfolding diff64_def Let_def by simp
    then show ?thesis ..
  next
    case 2
    have "r = sgn_of sg * ((real (u128 pw) - real C) * 2 powi (eP - 74))" unfolding r sC C_def 2 by (simp add: algebra_simps)
    then show ?thesis using diff64_equal [OF P(2) C_def Cb(2) e(1) refl _ refl] 2 unfolding diff64_def Let_def by simp
  next
    case 3
    have "r = sgn_of sg * (real (u128 pw) * 2 powi (eP - 74) - real C * 2 powi (eC - 74))" unfolding r sC C_def by (simp add: algebra_simps)
    then have "op_rounds 52 2047 zs r s (diff64 sg sC eP pw eC cw cc s)"
      using 3 finish64_aligned [of "u128_v64 pw" "u128_v0 pw" cw 0 64 eC eP r sg _ zs s, unfolded u128_cat Cc, OF P(1,2) Pe Cb(2,3) _ _ _ _ _ refl] e
      unfolding diff64_def Let_def by simp
    then show ?thesis ..
  qed
qed

section \<open>The routine\<close>

lemma mulAddF64_finite_scheme:
  assumes q: "(eP, pw) = (let p = softfloat_mul64To128 (push_bit 10 (gA OR 0x0010000000000000)) (push_bit 10 (gB OR 0x0010000000000000))
      in if u128_v64 p < 0x2000000000000000 then (e - 1, softfloat_shortShift128Left (u128_v64 p) (u128_v0 p) 1) else (e, p))"
    and n: "(eC, gC) = (if expC = 0 then (es64_exp (softfloat_normSubnormalF64Sig sigC), es64_sig (softfloat_normSubnormalF64Sig sigC)) else (expC, sigC))"
  shows "softfloat_mulAddF64_finite sP sC e gA gB expC sigC cc s =
    (if expC = 0 \<and> sigC = 0 then softfloat_roundPackToF64 sP (eP - 1) (push_bit 1 (u128_v64 pw) OR of_bool (u128_v0 pw \<noteq> 0)) s
     else if sP = sC then sum64 sP eP pw eC (push_bit 9 (gC OR 0x0010000000000000)) s
     else diff64 sP sC eP pw eC (push_bit 9 (gC OR 0x0010000000000000)) cc s)"
  unfolding softfloat_mulAddF64_finite_def Let_def q [unfolded Let_def, symmetric] n [symmetric] prod.case sum64_def diff64_def finish64_def ..

text \<open>With a zero addend the product is cut to the upper word, one place higher.\<close>

lemma cut_product64:
  assumes "2 ^ 125 \<le> u128 pw" "u128 pw < 2 ^ 126" and z: "z = push_bit 1 (u128_v64 pw) OR of_bool (u128_v0 pw \<noteq> 0)"
  shows "agrees 9 (real (u128 pw) / 2 ^ 63) (unat z)" and "2 ^ 62 \<le> unat z" and "unat z < 2 ^ 63"
proof -
  let ?h = "unat (u128_v64 pw)" and ?l = "unat (u128_v0 pw)"
  have h: "?h < 2 ^ 62" "\<not> ?h < 2 ^ 61" using assms by (subst high_word_less; simp)+
  then have "unat (push_bit 1 (u128_v64 pw)) = ?h * 2 ^ 1" by (intro unat_push_bit_small) simp
  then have uz: "unat z = 2 * ?h + of_bool (?l \<noteq> 0)" unfolding z unat_or_of_bool by (simp add: unat_eq_zero)
  then show "2 ^ 62 \<le> unat z" "unat z < 2 ^ 63" using h by simp_all
  have "jam 63 (u128 pw) = 2 * ?h + of_bool (?l \<noteq> 0)"
  proof -
    have e: "u128 pw = 2 * ?h * 2 ^ 63 + ?l" by (simp add: u128_def)
    consider "?l = 0" | "0 < ?l" "?l < 2 ^ 63" | "2 ^ 63 \<le> ?l" by linarith
    then show ?thesis
    proof cases
      case 1
      then show ?thesis unfolding e by (simp add: jam_def)
    next
      case 2
      then have "(2 * ?h * 2 ^ 63 + ?l) div 2 ^ 63 = 2 * ?h" "\<not> 2 ^ 63 dvd ?l" by (simp_all add: nat_dvd_not_less)
      then show ?thesis unfolding e jam_def using 2 by (simp add: dvd_add_right_iff)
    next
      case 3
      then have "?l div 2 ^ 63 = 1" using unat_lt64 [of "u128_v0 pw"] by (intro div_nat_eqI) simp_all
      then have "(2 * ?h * 2 ^ 63 + ?l) div 2 ^ 63 = 2 * ?h + 1" by simp
      then show ?thesis unfolding e jam_def using 3 by simp
    qed
  qed
  then have "unat z = jam 63 (u128 pw)" using uz by simp
  then show "agrees 9 (real (u128 pw) / 2 ^ 63) (unat z)" using agrees_jam_refl [of 9 "u128 pw" 63] by simp
qed

lemma mulAddF64_finite_rounds:
  fixes gA gB :: uint64_t
  defines "mA \<equiv> unat (gA OR 2 ^ 52)" and "mB \<equiv> unat (gB OR 2 ^ 52)"
  assumes A: "2 ^ 52 \<le> mA" "mA < 2 ^ 53" and B: "2 ^ 52 \<le> mB" "mB < 2 ^ 53" and c: "expF64UI c < 2047" and e: "\<bar>e\<bar> \<le> 9000"
    and r: "r = sgn_of sP * (real (mA * mB * 2 ^ 20) * 2 powi (e - 74)) + sgn_of sC * real (mval 52 (fl_mag c))"
    and res: "res = softfloat_mulAddF64_finite sP sC e gA gB (expF64UI c) (fracF64UI c) cc s"
  shows "r = 0 \<and> res = cc \<or> op_rounds 52 2047 zs r s res"
proof -
  obtain eP pw where q: "(eP, pw) = (let p = softfloat_mul64To128 (push_bit 10 (gA OR 0x0010000000000000)) (push_bit 10 (gB OR 0x0010000000000000))
      in if u128_v64 p < 0x2000000000000000 then (e - 1, softfloat_shortShift128Left (u128_v64 p) (u128_v0 p) 1) else (e, p))" by (metis surj_pair)
  note P = wide_product64 [OF A [unfolded mA_def] B [unfolded mB_def] refl q [unfolded Let_def], folded mA_def mB_def]
  obtain eC gC where n: "sf64.norm_operand c = (eC, gC)" by fastforce
  note sch = mulAddF64_finite_scheme [OF q n [unfolded sf64.norm_operand_def, symmetric], of sP sC cc s]
  have sc: "real (mA * mB * 2 ^ 20) * 2 powi (e - 74) = real (u128 pw) * 2 powi (eP - 74)"
    using P(6) by (simp add: power_int_diff)
  show ?thesis
  proof (cases "fl_mag c = 0")
    case True
    then have z: "expF64UI c = 0 \<and> fracF64UI c = 0" by (simp add: f64.zero_iff)
    define w where "w = push_bit 1 (u128_v64 pw) OR of_bool (u128_v0 pw \<noteq> 0)"
    have res': "res = softfloat_roundPackToF64 sP (eP - 1) w s" unfolding res sch w_def using z by simp
    note W = cut_product64 [OF P(1,2) w_def]
    have rr: "r = sgn_of sP * (real (u128 pw) / 2 ^ 63 * 2 powi (eP - 1 - int 10))"
      unfolding r sc using True by (simp add: power_int_diff)
    have "0 < real (u128 pw) / 2 ^ 63" using P(1) by (intro divide_pos_pos) simp_all
    note sg = signed_scale [OF this rr]
    have "op_rounds 52 2047 zs r s (softfloat_roundPackToF64 sP (eP - 1) w s)"
      using P(4,5) e W by (intro sf64.roundPack_rounds [OF _ _ _ _ _ sg]) simp_all
    then show ?thesis unfolding res' by simp
  next
    case False
    note N = sf64.norm_operand [OF False n]
    define cw where "cw = push_bit 9 (gC OR 0x0010000000000000)"
    have uc: "unat cw = unat (gC OR 2 ^ 52) * 2 ^ 9" unfolding cw_def using N(2) by (subst unat_push_bit_small) simp_all
    have cb: "2 ^ 61 \<le> unat cw" "unat cw < 2 ^ 62" "even (unat cw)" unfolding uc using N(1,2) by simp_all
    have vc: "real (mval 52 (fl_mag c)) = real (unat cw * 2 ^ 64) * 2 powi (eC - 74)"
    proof -
      have "real (unat cw * 2 ^ 64) = real (unat (gC OR 2 ^ 52)) * 2 powi 73" unfolding uc by simp
      then have "real (unat cw * 2 ^ 64) * 2 powi (eC - 74) = real (unat (gC OR 2 ^ 52)) * (2 powi 73 * 2 powi (eC - 74))" by (simp only: mult.assoc)
      also have "\<dots> = real (unat (gC OR 2 ^ 52)) * 2 powi (eC - 1)" unfolding powi_mult by simp
      finally show ?thesis using N(3) by simp
    qed
    have ee: "\<bar>eP\<bar> \<le> 10000" "\<bar>eC\<bar> \<le> 10000" using P(4,5) e N(4,5) by auto
    have nz: "\<not> (expF64UI c = 0 \<and> fracF64UI c = 0)" using False by (simp add: f64.zero_iff)
    have Pe: "even (u128 pw)" using P(3) by (metis dvd_trans even_numeral even_power zero_less_numeral)
    show ?thesis
    proof (cases "sP = sC")
      case True
      have "r = sgn_of sP * (real (u128 pw) * 2 powi (eP - 74) + real (unat cw * 2 ^ 64) * 2 powi (eC - 74))"
        unfolding r sc vc True by (simp only: distrib_left)
      then have "op_rounds 52 2047 zs r s (sum64 sP eP pw eC cw s)" using P cb ee Pe by (intro sum64_rounds)
      then show ?thesis unfolding res sch if_not_P [OF nz] if_P [OF True] cw_def ..
    next
      case opp: False
      then have "sC = (\<not> sP)" by auto
      then have "r = 0 \<and> diff64 sP sC eP pw eC cw cc s = cc \<or> op_rounds 52 2047 zs r s (diff64 sP sC eP pw eC cw cc s)"
        using P cb ee by (intro diff64_rounds) (simp_all only: r sc vc)
      then show ?thesis unfolding res sch if_not_P [OF nz] if_not_P [OF opp] cw_def .
    qed
  qed
qed

end
