(* ===== verification/Float_MulAdd_Correct.thy ===== *)
theory Float_MulAdd_Correct
  imports Float_MulAdd_Double
begin

text \<open>
  Correctness of the fused multiply-add: unpacking, special operands and the zero product, around the arithmetic part, which the interface
  \<open>fused_format\<close> asks to round the exact sum once. The interface is interpreted on the routines of both formats.
\<close>

section \<open>The interface\<close>

locale fused_format =
  softfloat_format f E signUI expUI fracUI packUI isNaNUI isSigNaNUI propagate defaultNaN shift x bias normExp normSig roundPack normRoundPack
  for f E :: nat
    and signUI :: "'a::len word \<Rightarrow> bool"
    and expUI :: "'a word \<Rightarrow> int"
    and fracUI :: "'a word \<Rightarrow> 'a word"
    and packUI :: "bool \<Rightarrow> int \<Rightarrow> 'a word \<Rightarrow> 'a word"
    and isNaNUI isSigNaNUI :: "'a word \<Rightarrow> bool"
    and propagate :: "'a word \<Rightarrow> 'a word \<Rightarrow> fp_state \<Rightarrow> 'a word \<times> fp_state"
    and defaultNaN :: "'a word"
    and shift :: "'a word \<Rightarrow> uint32_t \<Rightarrow> 'a word"
    and x bias :: nat
    and normExp :: "'a word \<Rightarrow> int"
    and normSig :: "'a word \<Rightarrow> 'a word"
    and roundPack normRoundPack :: "bool \<Rightarrow> int \<Rightarrow> 'a word \<Rightarrow> fp_state \<Rightarrow> 'a word \<times> fp_state" +
  fixes mulAdd_finite :: "bool \<Rightarrow> bool \<Rightarrow> int \<Rightarrow> 'a word \<Rightarrow> 'a word \<Rightarrow> int \<Rightarrow> 'a word \<Rightarrow> 'a word \<times> fp_state \<Rightarrow> fp_state \<Rightarrow> 'a word \<times> fp_state"
  assumes finite_law: "2 ^ f \<le> unat (gA OR 2 ^ f) \<Longrightarrow> unat (gA OR 2 ^ f) < 2 ^ Suc f \<Longrightarrow>
      2 ^ f \<le> unat (gB OR 2 ^ f) \<Longrightarrow> unat (gB OR 2 ^ f) < 2 ^ Suc f \<Longrightarrow> expUI c < int E \<Longrightarrow> \<bar>e\<bar> \<le> 9000 \<Longrightarrow>
      r = sgn_of sP * (real (unat (gA OR 2 ^ f) * unat (gB OR 2 ^ f) * 2 ^ (2 * x)) * 2 powi (e - (int x + int LENGTH('a)))) +
          sgn_of sC * real (mval f (fl_mag c)) \<Longrightarrow>
      r = 0 \<and> mulAdd_finite sP sC e gA gB (expUI c) (fracUI c) cc s = cc \<or>
      op_rounds f E zs r s (mulAdd_finite sP sC e gA gB (expUI c) (fracUI c) cc s)"
begin

definition fma_op :: "int \<Rightarrow> 'a word \<Rightarrow> 'a word \<Rightarrow> 'a word \<Rightarrow> fp_state \<Rightarrow> 'a word \<times> fp_state" where
  "fma_op op uiA uiB uiC s =
     (let signA = signUI uiA;
          expA = expUI uiA;
          sigA = fracUI uiA;
          signB = signUI uiB;
          expB = expUI uiB;
          sigB = fracUI uiB;
          signC = (signUI uiC \<noteq> (op = softfloat_mulAdd_subC));
          expC = expUI uiC;
          sigC = fracUI uiC;
          signProd = ((signA \<noteq> signB) \<noteq> (op = softfloat_mulAdd_subProd));
          propagateNaN_ZC = (\<lambda>uiZ s. propagate uiZ uiC s);
          propagateNaN_ABC = (let (uiZ, s) = propagate uiA uiB s in propagateNaN_ZC uiZ s);
          invalid = propagateNaN_ZC defaultNaN (softfloat_raiseFlags softfloat_flag_invalid s);
          infProdArg = (\<lambda>magBits :: 'a word.
            if magBits \<noteq> 0
            then let uiZ = packUI signProd (int E) 0
                 in if expC \<noteq> int E then (uiZ, s)
                    else if sigC \<noteq> 0 then propagateNaN_ZC uiZ s
                    else if signProd = signC then (uiZ, s)
                    else invalid
            else invalid);
          completeCancellation = (packUI (softfloat_roundingMode s = softfloat_round_min) 0 0, s);
          zeroProd = (if word_of_int expC OR sigC = 0 \<and> signProd \<noteq> signC then completeCancellation else (uiC, s))
      in if expA = int E
         then if sigA \<noteq> 0 \<or> (expB = int E \<and> sigB \<noteq> 0) then propagateNaN_ABC
              else infProdArg (word_of_int expB OR sigB)
         else if expB = int E
         then if sigB \<noteq> 0 then propagateNaN_ABC else infProdArg (word_of_int expA OR sigA)
         else if expC = int E
         then if sigC \<noteq> 0 then propagateNaN_ZC 0 s else (uiC, s)
         else if expA = 0 \<and> sigA = 0 then zeroProd
         else
           let (expA, sigA) = (if expA = 0 then (normExp sigA, normSig sigA) else (expA, sigA))
           in if expB = 0 \<and> sigB = 0 then zeroProd
              else
                let (expB, sigB) = (if expB = 0 then (normExp sigB, normSig sigB) else (expB, sigB))
                in mulAdd_finite signProd signC (expA + expB - (int bias - 1)) sigA sigB expC sigC completeCancellation s)"

abbreviation cancelled :: "fp_state \<Rightarrow> 'a word \<times> fp_state" where
  "cancelled s \<equiv> (packUI (softfloat_roundingMode s = softfloat_round_min) 0 0, s)"

lemma cancelled_rounds: "op_rounds f E (softfloat_roundingMode s = softfloat_round_min) 0 s (cancelled s)"
  by (rule op_rounds_exact) (use pack_sign_mag [of 0 0] E_ge2 in \<open>simp_all add: fl_real_def\<close>)

lemma fma_op_zero:
  assumes "expUI a < int E" and "expUI b < int E" and "expUI c < int E" and "fl_mag a = 0 \<or> fl_mag b = 0" and "op \<noteq> softfloat_mulAdd_subC"
  shows "fma_op op a b c s = (if fl_mag c = 0 \<and> ((signUI a \<noteq> signUI b) \<noteq> (op = softfloat_mulAdd_subProd)) \<noteq> signUI c then cancelled s else (c, s))"
  using assms by (auto simp: fma_op_def Let_def zero_iff magBits_zero)

lemma fma_op_finite:
  assumes "expUI a < int E" and "expUI b < int E" and "expUI c < int E" and "fl_mag a \<noteq> 0" and "fl_mag b \<noteq> 0" and "op \<noteq> softfloat_mulAdd_subC"
    and n: "norm_operand a = (eA, gA)" "norm_operand b = (eB, gB)"
  shows "fma_op op a b c s = mulAdd_finite ((signUI a \<noteq> signUI b) \<noteq> (op = softfloat_mulAdd_subProd)) (signUI c) (eA + eB - (int bias - 1)) gA gB
    (expUI c) (fracUI c) (cancelled s) s"
proof -
  have nz: "(expUI a = 0 \<and> fracUI a = 0) = False" "(expUI b = 0 \<and> fracUI b = 0) = False"
    and ne: "(expUI a = int E) = False" "(expUI b = int E) = False" "(expUI c = int E) = False" and o: "(op = softfloat_mulAdd_subC) = False"
    using assms(1-6) by (auto simp: zero_iff)
  show ?thesis
    unfolding fma_op_def Let_def nz ne o if_False n [unfolded norm_operand_def] prod.case by simp
qed

lemma fma_op_rounds:
  fixes a b c :: "'a word" and op :: int
  defines "sP \<equiv> (signUI a \<noteq> signUI b) \<noteq> (op = softfloat_mulAdd_subProd)"
  assumes fin: "fl_mag a < E * 2 ^ f" "fl_mag b < E * 2 ^ f" "fl_mag c < E * 2 ^ f" and op: "op \<noteq> softfloat_mulAdd_subC"
    and r: "r = sgn_of (op = softfloat_mulAdd_subProd) * (fl_real f a * fl_real f b / 2 ^ (bias + f - 1)) + fl_real f c"
    and zs: "zs = (if sP = signUI c then signUI c else softfloat_roundingMode s = softfloat_round_min)"
  shows "op_rounds f E zs r s (fma_op op a b c s)"
proof -
  note fin' = fin [unfolded finite_iff]
  define v where "v = real (mval f (fl_mag c))"
  have vc: "fl_real f c = sgn_of (signUI c) * v" "0 \<le> v" by (simp_all add: v_def fl_real_def sign_law)
  show ?thesis
  proof (cases "fl_mag a = 0 \<or> fl_mag b = 0")
    case True
    have r0: "r = fl_real f c" using True by (auto simp: r fl_real_def)
    note res = fma_op_zero [OF fin' True op, folded sP_def]
    show ?thesis
    proof (cases "fl_mag c = 0 \<and> sP \<noteq> signUI c")
      case True
      then have "r = 0" "zs = (softfloat_roundingMode s = softfloat_round_min)" by (auto simp: r0 fl_real_def zs)
      then show ?thesis unfolding res if_P [OF True] using cancelled_rounds by simp
    next
      case False
      have "r = 0 \<longrightarrow> fl_sign c = zs"
        using False mval_pos_iff [of f "fl_mag c"] by (auto simp: r0 fl_real_def zs sign_law)
      then show ?thesis unfolding res if_not_P [OF False] using r0 fin(3) by (intro op_rounds_exact) simp_all
    qed
  next
    case False
    then have nz: "fl_mag a \<noteq> 0" "fl_mag b \<noteq> 0" by auto
    obtain eA gA where nA: "norm_operand a = (eA, gA)" by fastforce
    obtain eB gB where nB: "norm_operand b = (eB, gB)" by fastforce
    note A = norm_operand [OF nz(1) nA] and B = norm_operand [OF nz(2) nB]
    define mA mB where "mA = unat (gA OR 2 ^ f)" and "mB = unat (gB OR 2 ^ f)"
    define p where "p = real (mA * mB * 2 ^ (2 * x)) * 2 powi (eA + eB - (int bias - 1) - (int x + int LENGTH('a)))"
    have "real (mval f (fl_mag a)) * real (mval f (fl_mag b)) / 2 ^ (bias + f - 1) = real (mA * mB) * (2 powi (eA - 1) * 2 powi (eB - 1) / 2 ^ (bias + f - 1))"
      unfolding A(3) B(3) mA_def mB_def by simp
    also have "\<dots> = real (mA * mB) * 2 powi (eA + eB - int bias - int f - 1)"
      unfolding powi_mult powi_div using f_pos by (simp add: of_nat_diff algebra_simps)
    also have "\<dots> = p"
    proof -
      have "p = real (mA * mB) * (2 powi int (2 * x) * 2 powi (eA + eB - (int bias - 1) - (int x + int LENGTH('a))))"
        unfolding p_def power_int_of_nat by (simp only: of_nat_mult of_nat_power of_nat_numeral mult.assoc)
      then show ?thesis unfolding powi_mult by (simp add: len algebra_simps)
    qed
    finally have rp: "r = sgn_of sP * p + sgn_of (signUI c) * v"
      unfolding r vc(1) by (auto simp: fl_real_def sP_def sign_law)
    have "0 < mA" using less_le_trans [OF _ A(1)] unfolding mA_def by simp
    moreover have "0 < mB" using less_le_trans [OF _ B(1)] unfolding mB_def by simp
    ultimately have "0 < p" unfolding p_def by simp
    have e: "\<bar>eA + eB - (int bias - 1)\<bar> \<le> 9000" using A(4,5) B(4,5) E_bias E_le f_le by auto
    define res where "res = fma_op op a b c s"
    have "r = 0 \<and> res = cancelled s \<or> op_rounds f E zs r s res"
      unfolding res_def fma_op_finite [OF fin' nz op nA nB, folded sP_def]
      by (rule finite_law [OF A(1,2) B(1,2) fin'(3) e]) (simp only: rp p_def v_def mA_def mB_def)
    moreover have "op_rounds f E zs r s (cancelled s)" if "r = 0"
    proof -
      have "sP \<noteq> signUI c" using that rp \<open>0 < p\<close> vc(2) by (cases sP; cases "signUI c") simp_all
      then show ?thesis using cancelled_rounds that zs by simp
    qed
    ultimately show ?thesis unfolding res_def by auto
  qed
qed

lemma fma_op_special:
  fixes a b c :: "'a word" and op :: int
  defines "sP \<equiv> (signUI a \<noteq> signUI b) \<noteq> (op = softfloat_mulAdd_subProd)"
  assumes "E * 2 ^ f \<le> fl_mag a \<or> E * 2 ^ f \<le> fl_mag b \<or> E * 2 ^ f \<le> fl_mag c" and "op \<noteq> softfloat_mulAdd_subC"
  shows "fma_op op a b c s =
    (if fl_nan f E a \<or> fl_nan f E b then case propagate a b s of (z, s') \<Rightarrow> propagate z c s'
     else if E * 2 ^ f \<le> fl_mag a \<or> E * 2 ^ f \<le> fl_mag b
     then if fl_mag a = 0 \<or> fl_mag b = 0 then propagate defaultNaN c (softfloat_raiseFlags softfloat_flag_invalid s)
          else if fl_nan f E c then propagate (fl_pack sP (E * 2 ^ f)) c s
          else if E * 2 ^ f \<le> fl_mag c \<and> sP \<noteq> signUI c then propagate defaultNaN c (softfloat_raiseFlags softfloat_flag_invalid s)
          else (fl_pack sP (E * 2 ^ f), s)
     else if fl_nan f E c then propagate 0 c s else (c, s))"
proof -
  have sp: "E * 2 ^ f \<le> fl_mag w \<longleftrightarrow> expUI w = int E" for w
    using exp_range(2) [of w] by (auto simp: not_less [symmetric] finite_iff)
  have nz: "expUI w = int E \<Longrightarrow> fl_mag w \<noteq> 0" for w using E_ge2 by (simp add: zero_iff)
  show ?thesis
    using assms(2,3) nz [of a] nz [of b] magBits_zero [of a] magBits_zero [of b] unfolding sp sP_def
    by (cases "expUI a = int E"; cases "expUI b = int E"; cases "expUI c = int E")
      (simp_all add: fma_op_def Let_def special_exp pack_inf or_eq_0_iff)
qed

end

section \<open>Both formats keep the interface\<close>

interpretation fma32: fused_format 23 255 signF32UI expF32UI fracF32UI packToF32UI
  isNaNF32UI softfloat_isSigNaNF32UI softfloat_propagateNaNF32UI defaultNaNF32UI softfloat_shift32RightJam 7 127
  "\<lambda>sig. es32_exp (softfloat_normSubnormalF32Sig sig)" "\<lambda>sig. es32_sig (softfloat_normSubnormalF32Sig sig)"
  softfloat_roundPackToF32 softfloat_normRoundPackToF32 softfloat_mulAddF32_finite
proof
  fix gA gB c :: uint32_t and e r sP sC cc s zs
  assume a: "2 ^ 23 \<le> unat (gA OR 2 ^ 23)" "unat (gA OR 2 ^ 23) < 2 ^ Suc 23" "2 ^ 23 \<le> unat (gB OR 2 ^ 23)" "unat (gB OR 2 ^ 23) < 2 ^ Suc 23"
    "expF32UI c < int 255" "\<bar>e\<bar> \<le> 9000"
    and r: "r = sgn_of sP * (real (unat (gA OR 2 ^ 23) * unat (gB OR 2 ^ 23) * 2 ^ (2 * 7)) * 2 powi (e - (int 7 + int LENGTH(32)))) +
      sgn_of sC * real (mval 23 (fl_mag c))"
  have "2 ^ (2 * 7) = (2::nat) ^ 14" "int 7 + int LENGTH(32) = 39" by simp_all
  note r' = r [unfolded this]
  show "r = 0 \<and> softfloat_mulAddF32_finite sP sC e gA gB (expF32UI c) (fracF32UI c) cc s = cc \<or>
    op_rounds 23 255 zs r s (softfloat_mulAddF32_finite sP sC e gA gB (expF32UI c) (fracF32UI c) cc s)"
    by (rule mulAddF32_finite_rounds [OF a(1) _ a(3) _ _ a(6) r' refl]) (use a in simp_all)
qed

interpretation fma64: fused_format 52 2047 signF64UI expF64UI fracF64UI packToF64UI
  isNaNF64UI softfloat_isSigNaNF64UI softfloat_propagateNaNF64UI defaultNaNF64UI softfloat_shift64RightJam 10 1023
  "\<lambda>sig. es64_exp (softfloat_normSubnormalF64Sig sig)" "\<lambda>sig. es64_sig (softfloat_normSubnormalF64Sig sig)"
  softfloat_roundPackToF64 softfloat_normRoundPackToF64 softfloat_mulAddF64_finite
proof
  fix gA gB c :: uint64_t and e r sP sC cc s zs
  assume a: "2 ^ 52 \<le> unat (gA OR 2 ^ 52)" "unat (gA OR 2 ^ 52) < 2 ^ Suc 52" "2 ^ 52 \<le> unat (gB OR 2 ^ 52)" "unat (gB OR 2 ^ 52) < 2 ^ Suc 52"
    "expF64UI c < int 2047" "\<bar>e\<bar> \<le> 9000"
    and r: "r = sgn_of sP * (real (unat (gA OR 2 ^ 52) * unat (gB OR 2 ^ 52) * 2 ^ (2 * 10)) * 2 powi (e - (int 10 + int LENGTH(64)))) +
      sgn_of sC * real (mval 52 (fl_mag c))"
  have "2 ^ (2 * 10) = (2::nat) ^ 20" "int 10 + int LENGTH(64) = 74" by simp_all
  note r' = r [unfolded this]
  show "r = 0 \<and> softfloat_mulAddF64_finite sP sC e gA gB (expF64UI c) (fracF64UI c) cc s = cc \<or>
    op_rounds 52 2047 zs r s (softfloat_mulAddF64_finite sP sC e gA gB (expF64UI c) (fracF64UI c) cc s)"
    by (rule mulAddF64_finite_rounds [OF a(1) _ a(3) _ _ a(6) r' refl]) (use a in simp_all)
qed

lemma mulAddF32_scheme: "softfloat_mulAddF32 op a b c s = fma32.fma_op op a b c s"
  by (simp add: softfloat_mulAddF32_def fma32.fma_op_def Let_def)

lemma mulAddF64_scheme: "softfloat_mulAddF64 op a b c s = fma64.fma_op op a b c s"
  by (simp add: softfloat_mulAddF64_def fma64.fma_op_def Let_def)

section \<open>Correctness\<close>

lemma f32_mulAdd_correct:
  assumes "fl_mag a < 255 * 2 ^ 23" and "fl_mag b < 255 * 2 ^ 23" and "fl_mag c < 255 * 2 ^ 23"
    and "zs = (if (fl_sign a \<noteq> fl_sign b) = fl_sign c then fl_sign c else softfloat_roundingMode s = softfloat_round_min)"
  shows "op_rounds 23 255 zs (fl_real 23 a * fl_real 23 b / 2 ^ 149 + fl_real 23 c) s (f32_mulAdd a b c s)"
  using fma32.fma_op_rounds [OF assms(1-3), of 0 _ zs s] assms(4) unfolding f32_mulAdd_def mulAddF32_scheme f32.sign_law by simp

lemma f64_mulAdd_correct:
  assumes "fl_mag a < 2047 * 2 ^ 52" and "fl_mag b < 2047 * 2 ^ 52" and "fl_mag c < 2047 * 2 ^ 52"
    and "zs = (if (fl_sign a \<noteq> fl_sign b) = fl_sign c then fl_sign c else softfloat_roundingMode s = softfloat_round_min)"
  shows "op_rounds 52 2047 zs (fl_real 52 a * fl_real 52 b / 2 ^ 1074 + fl_real 52 c) s (f64_mulAdd a b c s)"
  using fma64.fma_op_rounds [OF assms(1-3), of 0 _ zs s] assms(4) unfolding f64_mulAdd_def mulAddF64_scheme f64.sign_law by simp

lemma f32_mulAdd_special:
  assumes "255 * 2 ^ 23 \<le> fl_mag a \<or> 255 * 2 ^ 23 \<le> fl_mag b \<or> 255 * 2 ^ 23 \<le> fl_mag c"
  shows "f32_mulAdd a b c s =
    (if fl_nan 23 255 a \<or> fl_nan 23 255 b then case softfloat_propagateNaNF32UI a b s of (z, s') \<Rightarrow> softfloat_propagateNaNF32UI z c s'
     else if 255 * 2 ^ 23 \<le> fl_mag a \<or> 255 * 2 ^ 23 \<le> fl_mag b
     then if fl_mag a = 0 \<or> fl_mag b = 0 then softfloat_propagateNaNF32UI defaultNaNF32UI c (softfloat_raiseFlags softfloat_flag_invalid s)
          else if fl_nan 23 255 c then softfloat_propagateNaNF32UI (fl_pack (fl_sign a \<noteq> fl_sign b) (255 * 2 ^ 23)) c s
          else if 255 * 2 ^ 23 \<le> fl_mag c \<and> (fl_sign a \<noteq> fl_sign b) \<noteq> fl_sign c
          then softfloat_propagateNaNF32UI defaultNaNF32UI c (softfloat_raiseFlags softfloat_flag_invalid s)
          else (fl_pack (fl_sign a \<noteq> fl_sign b) (255 * 2 ^ 23), s)
     else if fl_nan 23 255 c then softfloat_propagateNaNF32UI 0 c s else (c, s))"
  using fma32.fma_op_special [OF assms, of 0 s] unfolding f32_mulAdd_def mulAddF32_scheme f32.sign_law by simp

lemma f64_mulAdd_special:
  assumes "2047 * 2 ^ 52 \<le> fl_mag a \<or> 2047 * 2 ^ 52 \<le> fl_mag b \<or> 2047 * 2 ^ 52 \<le> fl_mag c"
  shows "f64_mulAdd a b c s =
    (if fl_nan 52 2047 a \<or> fl_nan 52 2047 b then case softfloat_propagateNaNF64UI a b s of (z, s') \<Rightarrow> softfloat_propagateNaNF64UI z c s'
     else if 2047 * 2 ^ 52 \<le> fl_mag a \<or> 2047 * 2 ^ 52 \<le> fl_mag b
     then if fl_mag a = 0 \<or> fl_mag b = 0 then softfloat_propagateNaNF64UI defaultNaNF64UI c (softfloat_raiseFlags softfloat_flag_invalid s)
          else if fl_nan 52 2047 c then softfloat_propagateNaNF64UI (fl_pack (fl_sign a \<noteq> fl_sign b) (2047 * 2 ^ 52)) c s
          else if 2047 * 2 ^ 52 \<le> fl_mag c \<and> (fl_sign a \<noteq> fl_sign b) \<noteq> fl_sign c
          then softfloat_propagateNaNF64UI defaultNaNF64UI c (softfloat_raiseFlags softfloat_flag_invalid s)
          else (fl_pack (fl_sign a \<noteq> fl_sign b) (2047 * 2 ^ 52), s)
     else if fl_nan 52 2047 c then softfloat_propagateNaNF64UI 0 c s else (c, s))"
  using fma64.fma_op_special [OF assms, of 0 s] unfolding f64_mulAdd_def mulAddF64_scheme f64.sign_law by simp

text \<open>
  Property C6: the fused multiply-add of three finite numbers, in each format, delivers the exact real \<open>a * b + c\<close> rounded once, with exactly the flags it
  calls for. An exact zero has the sign of the addend if product and addend have the same sign; otherwise it is positive, and negative when rounding down.
\<close>

theorem mulAdd_correct:
  assumes "fl_mag a < 255 * 2 ^ 23" and "fl_mag b < 255 * 2 ^ 23" and "fl_mag c < 255 * 2 ^ 23"
    and "fl_mag a' < 2047 * 2 ^ 52" and "fl_mag b' < 2047 * 2 ^ 52" and "fl_mag c' < 2047 * 2 ^ 52"
  shows "op_rounds 23 255 (if (fl_sign a \<noteq> fl_sign b) = fl_sign c then fl_sign c else softfloat_roundingMode s = softfloat_round_min)
      (fl_real 23 a * fl_real 23 b / 2 ^ 149 + fl_real 23 c) s (f32_mulAdd a b c s) \<and>
    op_rounds 52 2047 (if (fl_sign a' \<noteq> fl_sign b') = fl_sign c' then fl_sign c' else softfloat_roundingMode s = softfloat_round_min)
      (fl_real 52 a' * fl_real 52 b' / 2 ^ 1074 + fl_real 52 c') s (f64_mulAdd a' b' c' s)"
  by (intro conjI f32_mulAdd_correct [OF assms(1-3) refl] f64_mulAdd_correct [OF assms(4-6) refl])

theorem mulAdd_correct_witness:
  "op_rounds 23 255 False (fl_real 23 (0x40000000 :: uint32_t) * fl_real 23 (0x40400000 :: uint32_t) / 2 ^ 149 + fl_real 23 (0xC0A00000 :: uint32_t))
     init_state (f32_mulAdd 0x40000000 0x40400000 0xC0A00000 init_state) \<and>
   f32_mulAdd 0x40000000 0x40400000 0xC0A00000 init_state = (0x3F800000, init_state) \<and>
   op_rounds 52 2047 False (fl_real 52 (0x4000000000000000 :: uint64_t) * fl_real 52 (0x4008000000000000 :: uint64_t) / 2 ^ 1074 +
       fl_real 52 (0xC014000000000000 :: uint64_t)) init_state
     (f64_mulAdd 0x4000000000000000 0x4008000000000000 0xC014000000000000 init_state) \<and>
   f64_mulAdd 0x4000000000000000 0x4008000000000000 0xC014000000000000 init_state = (0x3FF0000000000000, init_state)"
proof -
  have m: "(softfloat_roundingMode init_state = softfloat_round_min) = False" by code_simp
  have "op_rounds 23 255 False (fl_real 23 (0x40000000 :: uint32_t) * fl_real 23 (0x40400000 :: uint32_t) / 2 ^ 149 + fl_real 23 (0xC0A00000 :: uint32_t))
     init_state (f32_mulAdd 0x40000000 0x40400000 0xC0A00000 init_state) \<and>
   op_rounds 52 2047 False (fl_real 52 (0x4000000000000000 :: uint64_t) * fl_real 52 (0x4008000000000000 :: uint64_t) / 2 ^ 1074 +
       fl_real 52 (0xC014000000000000 :: uint64_t)) init_state
     (f64_mulAdd 0x4000000000000000 0x4008000000000000 0xC014000000000000 init_state)"
    using mulAdd_correct [of "0x40000000" "0x40400000" "0xC0A00000" "0x4000000000000000" "0x4008000000000000" "0xC014000000000000" init_state]
    unfolding m by (simp add: fl_mag_def fl_sign_def)
  moreover have "f32_mulAdd 0x40000000 0x40400000 0xC0A00000 init_state = (0x3F800000, init_state)" by code_simp
  moreover have "f64_mulAdd 0x4000000000000000 0x4008000000000000 0xC014000000000000 init_state = (0x3FF0000000000000, init_state)" by code_simp
  ultimately show ?thesis by simp
qed

text \<open>
  Property C26: the fused multiply-add with a NaN or an infinite operand, both formats: NaNs propagate, the product of infinity and zero and the sum of opposite
  infinities are invalid, otherwise the infinite product or the infinite addend is the result.
\<close>

theorem mulAdd_special:
  assumes "255 * 2 ^ 23 \<le> fl_mag a \<or> 255 * 2 ^ 23 \<le> fl_mag b \<or> 255 * 2 ^ 23 \<le> fl_mag c"
    and "2047 * 2 ^ 52 \<le> fl_mag a' \<or> 2047 * 2 ^ 52 \<le> fl_mag b' \<or> 2047 * 2 ^ 52 \<le> fl_mag c'"
  shows "f32_mulAdd a b c s =
    (if fl_nan 23 255 a \<or> fl_nan 23 255 b then case softfloat_propagateNaNF32UI a b s of (z, s') \<Rightarrow> softfloat_propagateNaNF32UI z c s'
     else if 255 * 2 ^ 23 \<le> fl_mag a \<or> 255 * 2 ^ 23 \<le> fl_mag b
     then if fl_mag a = 0 \<or> fl_mag b = 0 then softfloat_propagateNaNF32UI defaultNaNF32UI c (softfloat_raiseFlags softfloat_flag_invalid s)
          else if fl_nan 23 255 c then softfloat_propagateNaNF32UI (fl_pack (fl_sign a \<noteq> fl_sign b) (255 * 2 ^ 23)) c s
          else if 255 * 2 ^ 23 \<le> fl_mag c \<and> (fl_sign a \<noteq> fl_sign b) \<noteq> fl_sign c
          then softfloat_propagateNaNF32UI defaultNaNF32UI c (softfloat_raiseFlags softfloat_flag_invalid s)
          else (fl_pack (fl_sign a \<noteq> fl_sign b) (255 * 2 ^ 23), s)
     else if fl_nan 23 255 c then softfloat_propagateNaNF32UI 0 c s else (c, s)) \<and>
    f64_mulAdd a' b' c' s =
    (if fl_nan 52 2047 a' \<or> fl_nan 52 2047 b' then case softfloat_propagateNaNF64UI a' b' s of (z, s') \<Rightarrow> softfloat_propagateNaNF64UI z c' s'
     else if 2047 * 2 ^ 52 \<le> fl_mag a' \<or> 2047 * 2 ^ 52 \<le> fl_mag b'
     then if fl_mag a' = 0 \<or> fl_mag b' = 0 then softfloat_propagateNaNF64UI defaultNaNF64UI c' (softfloat_raiseFlags softfloat_flag_invalid s)
          else if fl_nan 52 2047 c' then softfloat_propagateNaNF64UI (fl_pack (fl_sign a' \<noteq> fl_sign b') (2047 * 2 ^ 52)) c' s
          else if 2047 * 2 ^ 52 \<le> fl_mag c' \<and> (fl_sign a' \<noteq> fl_sign b') \<noteq> fl_sign c'
          then softfloat_propagateNaNF64UI defaultNaNF64UI c' (softfloat_raiseFlags softfloat_flag_invalid s)
          else (fl_pack (fl_sign a' \<noteq> fl_sign b') (2047 * 2 ^ 52), s)
     else if fl_nan 52 2047 c' then softfloat_propagateNaNF64UI 0 c' s else (c', s))"
  by (intro conjI f32_mulAdd_special [OF assms(1)] f64_mulAdd_special [OF assms(2)])

theorem mulAdd_special_witness:
  "f32_mulAdd 0x7F800000 0x40000000 0x3F800000 init_state = (0x7F800000, init_state) \<and>
   f64_mulAdd 0x3FF0000000000000 0x4000000000000000 0xFFF0000000000000 init_state = (0xFFF0000000000000, init_state)"
  using mulAdd_special [of "0x7F800000" "0x40000000" "0x3F800000" "0x3FF0000000000000" "0x4000000000000000" "0xFFF0000000000000" init_state]
  by (simp add: fl_mag_def fl_nan_def fl_sign_def fl_pack_def)

text \<open>
  The operation code \<^verbatim>\<open>softfloat_mulAdd_subC\<close>, which no function of the library passes, asks for \<open>a * b - c\<close>, but with a zero product the addend is
  returned with its own sign.
\<close>

lemma mulAdd_subC_zero_product:
  "softfloat_mulAddF32 softfloat_mulAdd_subC 0 0x3F800000 0x3F800000 init_state = (0x3F800000, init_state) \<and>
   softfloat_mulAddF64 softfloat_mulAdd_subC 0 0x3FF0000000000000 0x3FF0000000000000 init_state = (0x3FF0000000000000, init_state)"
  by (intro conjI; code_simp)

end
