(* ===== verification/Float_Compare.thy ===== *)
theory Float_Compare
  imports Specialize
begin

text \<open>
  Comparisons (\<^verbatim>\<open>source/f*_eq.c\<close>, \<^verbatim>\<open>f*_eq_signaling.c\<close>, \<^verbatim>\<open>f*_le.c\<close>, \<^verbatim>\<open>f*_le_quiet.c\<close>, \<^verbatim>\<open>f*_lt.c\<close>,
  \<^verbatim>\<open>f*_lt_quiet.c\<close>) and \<^verbatim>\<open>f*_isSignalingNaN.c\<close>, with their specification on the real line. The
  routines compare bit patterns as unsigned integers; the theorems say that this is the order of
  the numbers denoted.
\<close>

section \<open>The routines\<close>

definition f32_eq :: "float32_t \<Rightarrow> float32_t \<Rightarrow> fp_state \<Rightarrow> bool \<times> fp_state" where
  "f32_eq a b s =
     (let uiA = a;
          uiB = b
      in if (expF32UI uiA = 0xFF \<and> fracF32UI uiA \<noteq> 0) \<or> (expF32UI uiB = 0xFF \<and> fracF32UI uiB \<noteq> 0)
         then (False, (if softfloat_isSigNaNF32UI uiA \<or> softfloat_isSigNaNF32UI uiB
                       then softfloat_raiseFlags softfloat_flag_invalid s else s))
         else (uiA = uiB \<or> push_bit 1 (uiA OR uiB) = 0, s))"

definition f32_eq_signaling :: "float32_t \<Rightarrow> float32_t \<Rightarrow> fp_state \<Rightarrow> bool \<times> fp_state" where
  "f32_eq_signaling a b s =
     (let uiA = a;
          uiB = b
      in if (expF32UI uiA = 0xFF \<and> fracF32UI uiA \<noteq> 0) \<or> (expF32UI uiB = 0xFF \<and> fracF32UI uiB \<noteq> 0)
         then (False, softfloat_raiseFlags softfloat_flag_invalid s)
         else (uiA = uiB \<or> push_bit 1 (uiA OR uiB) = 0, s))"

definition f32_le :: "float32_t \<Rightarrow> float32_t \<Rightarrow> fp_state \<Rightarrow> bool \<times> fp_state" where
  "f32_le a b s =
     (let uiA = a;
          uiB = b
      in if (expF32UI uiA = 0xFF \<and> fracF32UI uiA \<noteq> 0) \<or> (expF32UI uiB = 0xFF \<and> fracF32UI uiB \<noteq> 0)
         then (False, softfloat_raiseFlags softfloat_flag_invalid s)
         else let signA = signF32UI uiA;
                  signB = signF32UI uiB
              in (if signA \<noteq> signB then signA \<or> push_bit 1 (uiA OR uiB) = 0
                  else uiA = uiB \<or> signA \<noteq> (uiA < uiB), s))"

definition f32_le_quiet :: "float32_t \<Rightarrow> float32_t \<Rightarrow> fp_state \<Rightarrow> bool \<times> fp_state" where
  "f32_le_quiet a b s =
     (let uiA = a;
          uiB = b
      in if (expF32UI uiA = 0xFF \<and> fracF32UI uiA \<noteq> 0) \<or> (expF32UI uiB = 0xFF \<and> fracF32UI uiB \<noteq> 0)
         then (False, (if softfloat_isSigNaNF32UI uiA \<or> softfloat_isSigNaNF32UI uiB
                       then softfloat_raiseFlags softfloat_flag_invalid s else s))
         else let signA = signF32UI uiA;
                  signB = signF32UI uiB
              in (if signA \<noteq> signB then signA \<or> push_bit 1 (uiA OR uiB) = 0
                  else uiA = uiB \<or> signA \<noteq> (uiA < uiB), s))"

definition f32_lt :: "float32_t \<Rightarrow> float32_t \<Rightarrow> fp_state \<Rightarrow> bool \<times> fp_state" where
  "f32_lt a b s =
     (let uiA = a;
          uiB = b
      in if (expF32UI uiA = 0xFF \<and> fracF32UI uiA \<noteq> 0) \<or> (expF32UI uiB = 0xFF \<and> fracF32UI uiB \<noteq> 0)
         then (False, softfloat_raiseFlags softfloat_flag_invalid s)
         else let signA = signF32UI uiA;
                  signB = signF32UI uiB
              in (if signA \<noteq> signB then signA \<and> push_bit 1 (uiA OR uiB) \<noteq> 0
                  else uiA \<noteq> uiB \<and> signA \<noteq> (uiA < uiB), s))"

definition f32_lt_quiet :: "float32_t \<Rightarrow> float32_t \<Rightarrow> fp_state \<Rightarrow> bool \<times> fp_state" where
  "f32_lt_quiet a b s =
     (let uiA = a;
          uiB = b
      in if (expF32UI uiA = 0xFF \<and> fracF32UI uiA \<noteq> 0) \<or> (expF32UI uiB = 0xFF \<and> fracF32UI uiB \<noteq> 0)
         then (False, (if softfloat_isSigNaNF32UI uiA \<or> softfloat_isSigNaNF32UI uiB
                       then softfloat_raiseFlags softfloat_flag_invalid s else s))
         else let signA = signF32UI uiA;
                  signB = signF32UI uiB
              in (if signA \<noteq> signB then signA \<and> push_bit 1 (uiA OR uiB) \<noteq> 0
                  else uiA \<noteq> uiB \<and> signA \<noteq> (uiA < uiB), s))"

definition f32_isSignalingNaN :: "float32_t \<Rightarrow> bool" where
  "f32_isSignalingNaN a = softfloat_isSigNaNF32UI a"

definition f64_eq :: "float64_t \<Rightarrow> float64_t \<Rightarrow> fp_state \<Rightarrow> bool \<times> fp_state" where
  "f64_eq a b s =
     (let uiA = a;
          uiB = b
      in if (expF64UI uiA = 0x7FF \<and> fracF64UI uiA \<noteq> 0) \<or> (expF64UI uiB = 0x7FF \<and> fracF64UI uiB \<noteq> 0)
         then (False, (if softfloat_isSigNaNF64UI uiA \<or> softfloat_isSigNaNF64UI uiB
                       then softfloat_raiseFlags softfloat_flag_invalid s else s))
         else (uiA = uiB \<or> (uiA OR uiB) AND 0x7FFFFFFFFFFFFFFF = 0, s))"

definition f64_eq_signaling :: "float64_t \<Rightarrow> float64_t \<Rightarrow> fp_state \<Rightarrow> bool \<times> fp_state" where
  "f64_eq_signaling a b s =
     (let uiA = a;
          uiB = b
      in if (expF64UI uiA = 0x7FF \<and> fracF64UI uiA \<noteq> 0) \<or> (expF64UI uiB = 0x7FF \<and> fracF64UI uiB \<noteq> 0)
         then (False, softfloat_raiseFlags softfloat_flag_invalid s)
         else (uiA = uiB \<or> (uiA OR uiB) AND 0x7FFFFFFFFFFFFFFF = 0, s))"

definition f64_le :: "float64_t \<Rightarrow> float64_t \<Rightarrow> fp_state \<Rightarrow> bool \<times> fp_state" where
  "f64_le a b s =
     (let uiA = a;
          uiB = b
      in if (expF64UI uiA = 0x7FF \<and> fracF64UI uiA \<noteq> 0) \<or> (expF64UI uiB = 0x7FF \<and> fracF64UI uiB \<noteq> 0)
         then (False, softfloat_raiseFlags softfloat_flag_invalid s)
         else let signA = signF64UI uiA;
                  signB = signF64UI uiB
              in (if signA \<noteq> signB then signA \<or> (uiA OR uiB) AND 0x7FFFFFFFFFFFFFFF = 0
                  else uiA = uiB \<or> signA \<noteq> (uiA < uiB), s))"

definition f64_le_quiet :: "float64_t \<Rightarrow> float64_t \<Rightarrow> fp_state \<Rightarrow> bool \<times> fp_state" where
  "f64_le_quiet a b s =
     (let uiA = a;
          uiB = b
      in if (expF64UI uiA = 0x7FF \<and> fracF64UI uiA \<noteq> 0) \<or> (expF64UI uiB = 0x7FF \<and> fracF64UI uiB \<noteq> 0)
         then (False, (if softfloat_isSigNaNF64UI uiA \<or> softfloat_isSigNaNF64UI uiB
                       then softfloat_raiseFlags softfloat_flag_invalid s else s))
         else let signA = signF64UI uiA;
                  signB = signF64UI uiB
              in (if signA \<noteq> signB then signA \<or> (uiA OR uiB) AND 0x7FFFFFFFFFFFFFFF = 0
                  else uiA = uiB \<or> signA \<noteq> (uiA < uiB), s))"

definition f64_lt :: "float64_t \<Rightarrow> float64_t \<Rightarrow> fp_state \<Rightarrow> bool \<times> fp_state" where
  "f64_lt a b s =
     (let uiA = a;
          uiB = b
      in if (expF64UI uiA = 0x7FF \<and> fracF64UI uiA \<noteq> 0) \<or> (expF64UI uiB = 0x7FF \<and> fracF64UI uiB \<noteq> 0)
         then (False, softfloat_raiseFlags softfloat_flag_invalid s)
         else let signA = signF64UI uiA;
                  signB = signF64UI uiB
              in (if signA \<noteq> signB then signA \<and> (uiA OR uiB) AND 0x7FFFFFFFFFFFFFFF \<noteq> 0
                  else uiA \<noteq> uiB \<and> signA \<noteq> (uiA < uiB), s))"

definition f64_lt_quiet :: "float64_t \<Rightarrow> float64_t \<Rightarrow> fp_state \<Rightarrow> bool \<times> fp_state" where
  "f64_lt_quiet a b s =
     (let uiA = a;
          uiB = b
      in if (expF64UI uiA = 0x7FF \<and> fracF64UI uiA \<noteq> 0) \<or> (expF64UI uiB = 0x7FF \<and> fracF64UI uiB \<noteq> 0)
         then (False, (if softfloat_isSigNaNF64UI uiA \<or> softfloat_isSigNaNF64UI uiB
                       then softfloat_raiseFlags softfloat_flag_invalid s else s))
         else let signA = signF64UI uiA;
                  signB = signF64UI uiB
              in (if signA \<noteq> signB then signA \<and> (uiA OR uiB) AND 0x7FFFFFFFFFFFFFFF \<noteq> 0
                  else uiA \<noteq> uiB \<and> signA \<noteq> (uiA < uiB), s))"

definition f64_isSignalingNaN :: "float64_t \<Rightarrow> bool" where
  "f64_isSignalingNaN a = softfloat_isSigNaNF64UI a"

section \<open>The order of bit patterns\<close>

definition compare_spec ::
  "nat \<Rightarrow> nat \<Rightarrow> bool \<Rightarrow> (real \<Rightarrow> real \<Rightarrow> bool) \<Rightarrow> 'a::len word \<Rightarrow> 'a word \<Rightarrow> fp_state \<Rightarrow> bool \<times> fp_state" where
  "compare_spec f E quiet R a b s =
     (if fl_nan f E a \<or> fl_nan f E b
      then (False, if quiet \<longrightarrow> fl_snan f E a \<or> fl_snan f E b
                   then softfloat_raiseFlags softfloat_flag_invalid s else s)
      else (R (fl_real f a) (fl_real f b), s))"

lemma unat_sign_mag: "unat a = of_bool (fl_sign a) * 2 ^ (LENGTH('a) - 1) + fl_mag a" for a :: "'a::len word"
proof -
  have "fl_mag a < 2 ^ (LENGTH('a) - 1)" by (simp add: fl_mag_def)
  from fl_sign_pack(3) [OF this, of "fl_sign a"] show ?thesis by (simp add: fl_pack_unpack)
qed

lemma same_sign_less:
  fixes a b :: "'a::len word"
  assumes "fl_sign a = fl_sign b"
  shows "a < b \<longleftrightarrow> fl_mag a < fl_mag b" and "a = b \<longleftrightarrow> fl_mag a = fl_mag b"
  using assms unat_sign_mag [of a] unat_sign_mag [of b]
  by (simp_all add: word_less_nat_alt word_unat_eq_iff)

lemma fl_real_le_iff:
  fixes a b :: "'a::len word"
  shows "fl_real f a \<le> fl_real f b \<longleftrightarrow>
    (if fl_sign a \<noteq> fl_sign b then fl_sign a \<or> fl_mag a = 0 \<and> fl_mag b = 0
     else a = b \<or> fl_sign a \<noteq> (a < b))"
proof (cases "fl_sign a = fl_sign b")
  case True
  then show ?thesis by (auto simp: fl_real_def same_sign_less)
next
  case False
  have "real (mval f (fl_mag a)) + real (mval f (fl_mag b)) \<le> 0 \<longleftrightarrow> fl_mag a = 0 \<and> fl_mag b = 0"
    using mval_eq_iff [of f "fl_mag a" 0] mval_eq_iff [of f "fl_mag b" 0]
    by (auto simp: add_nonneg_eq_0_iff order_antisym_conv)
  moreover have "- real (mval f (fl_mag a)) \<le> real (mval f (fl_mag b))" by (rule order_trans [of _ 0]) simp_all
  ultimately show ?thesis using False by (auto simp: fl_real_def)
qed

lemma fl_real_eq_iff:
  fixes a b :: "'a::len word"
  shows "fl_real f a = fl_real f b \<longleftrightarrow> a = b \<or> fl_mag a = 0 \<and> fl_mag b = 0"
proof
  assume "fl_real f a = fl_real f b"
  then have "fl_real f a \<le> fl_real f b" "fl_real f b \<le> fl_real f a" by simp_all
  then show "a = b \<or> fl_mag a = 0 \<and> fl_mag b = 0"
    unfolding fl_real_le_iff by (auto split: if_splits)
next
  assume "a = b \<or> fl_mag a = 0 \<and> fl_mag b = 0"
  then show "fl_real f a = fl_real f b" by (auto simp: fl_real_def)
qed

lemma fl_real_less_iff:
  fixes a b :: "'a::len word"
  shows "fl_real f a < fl_real f b \<longleftrightarrow>
    (if fl_sign a \<noteq> fl_sign b then fl_sign a \<and> \<not> (fl_mag a = 0 \<and> fl_mag b = 0)
     else a \<noteq> b \<and> fl_sign a \<noteq> (a < b))"
  unfolding less_le fl_real_le_iff fl_real_eq_iff using same_sign_less [of a b] by auto

lemma zero_bits32: "push_bit 1 (a OR b) = 0 \<longleftrightarrow> fl_mag a = 0 \<and> fl_mag b = 0" for a b :: uint32_t
proof -
  have "push_bit 1 (a OR b) = 0 \<longleftrightarrow> push_bit 1 a = 0 \<and> push_bit 1 b = 0" by (simp only: push_bit_or or_eq_0_iff)
  moreover have "push_bit 1 c = 0 \<longleftrightarrow> fl_mag c = 0" for c :: uint32_t
    using mag_shift [of c] by (simp only: unat_eq_zero [symmetric]) simp
  ultimately show ?thesis by (simp only:)
qed

lemma zero_bits64: "(a OR b) AND 0x7FFFFFFFFFFFFFFF = 0 \<longleftrightarrow> fl_mag a = 0 \<and> fl_mag b = 0" for a b :: uint64_t
proof -
  have "(a OR b) AND 0x7FFFFFFFFFFFFFFF = 0 \<longleftrightarrow> a AND 0x7FFFFFFFFFFFFFFF = 0 \<and> b AND 0x7FFFFFFFFFFFFFFF = 0"
    by (simp only: and.commute [of _ "0x7FFFFFFFFFFFFFFF"] bit.conj_disj_distrib or_eq_0_iff)
  moreover have "c AND 0x7FFFFFFFFFFFFFFF = 0 \<longleftrightarrow> fl_mag c = 0" for c :: uint64_t
    unfolding unat_eq_zero [symmetric] magF64_mask ..
  ultimately show ?thesis by (simp only:)
qed

section \<open>Correctness\<close>

lemma f32_compare_correct:
  "f32_eq a b s = compare_spec 23 255 True (=) a b s \<and>
   f32_eq_signaling a b s = compare_spec 23 255 False (=) a b s \<and>
   f32_le a b s = compare_spec 23 255 False (\<le>) a b s \<and>
   f32_le_quiet a b s = compare_spec 23 255 True (\<le>) a b s \<and>
   f32_lt a b s = compare_spec 23 255 False (<) a b s \<and>
   f32_lt_quiet a b s = compare_spec 23 255 True (<) a b s"
proof -
  note code = f32_eq_def f32_eq_signaling_def f32_le_def f32_le_quiet_def f32_lt_def f32_lt_quiet_def
    nan32.isNaN_fields [of a, symmetric, simplified] nan32.isNaN_fields [of b, symmetric, simplified] isNaNF32UI_law isSigNaNF32UI_law
    f32.sign_law zero_bits32
  show ?thesis
    unfolding compare_spec_def code Let_def fl_real_eq_iff fl_real_le_iff fl_real_less_iff by (intro conjI) auto
qed

lemma f64_compare_correct:
  "f64_eq a b s = compare_spec 52 2047 True (=) a b s \<and>
   f64_eq_signaling a b s = compare_spec 52 2047 False (=) a b s \<and>
   f64_le a b s = compare_spec 52 2047 False (\<le>) a b s \<and>
   f64_le_quiet a b s = compare_spec 52 2047 True (\<le>) a b s \<and>
   f64_lt a b s = compare_spec 52 2047 False (<) a b s \<and>
   f64_lt_quiet a b s = compare_spec 52 2047 True (<) a b s"
proof -
  note code = f64_eq_def f64_eq_signaling_def f64_le_def f64_le_quiet_def f64_lt_def f64_lt_quiet_def
    nan64.isNaN_fields [of a, symmetric, simplified] nan64.isNaN_fields [of b, symmetric, simplified] isNaNF64UI_law isSigNaNF64UI_law
    f64.sign_law zero_bits64
  show ?thesis
    unfolding compare_spec_def code Let_def fl_real_eq_iff fl_real_le_iff fl_real_less_iff by (intro conjI) auto
qed

text \<open>
  Property C9: the six comparisons of each format decide the order of the real numbers the operands denote (an infinity lies
  beyond every finite number, the two zeros are equal); with a NaN operand they answer false, the signalling ones always raising
  invalid and the quiet ones only for a signalling NaN.
\<close>

theorem compare_correct:
  "f32_eq a b s = compare_spec 23 255 True (=) a b s \<and>
   f32_eq_signaling a b s = compare_spec 23 255 False (=) a b s \<and>
   f32_le a b s = compare_spec 23 255 False (\<le>) a b s \<and>
   f32_le_quiet a b s = compare_spec 23 255 True (\<le>) a b s \<and>
   f32_lt a b s = compare_spec 23 255 False (<) a b s \<and>
   f32_lt_quiet a b s = compare_spec 23 255 True (<) a b s \<and>
    f64_eq c d s = compare_spec 52 2047 True (=) c d s \<and>
   f64_eq_signaling c d s = compare_spec 52 2047 False (=) c d s \<and>
   f64_le c d s = compare_spec 52 2047 False (\<le>) c d s \<and>
   f64_le_quiet c d s = compare_spec 52 2047 True (\<le>) c d s \<and>
   f64_lt c d s = compare_spec 52 2047 False (<) c d s \<and>
   f64_lt_quiet c d s = compare_spec 52 2047 True (<) c d s"
  using f32_compare_correct [of a b s] f64_compare_correct [of c d s] by blast

end
