(* ===== verification/Float_To_Int.thy ===== *)
theory Float_To_Int
  imports Format_Contract
begin

text \<open>
  Conversion to integers (\<^verbatim>\<open>source/s_roundPackToUI32.c\<close>, \<^verbatim>\<open>s_roundPackToI32.c\<close>, \<^verbatim>\<open>s_roundPackToUI64.c\<close>,
  \<^verbatim>\<open>s_roundPackToI64.c\<close>, \<^verbatim>\<open>f*_to_i*.c\<close>, \<^verbatim>\<open>f*_to_ui*.c\<close> and the variants \<^verbatim>\<open>..._r_minMag.c\<close>). A signed
  result is the two's complement word; \<^const>\<open>sint\<close> reads it, as the C unions of the routines do.
\<close>


section \<open>Rounding to an integer word\<close>

definition softfloat_roundPackToUI32 ::
  "bool \<Rightarrow> uint64_t \<Rightarrow> int8_t \<Rightarrow> bool \<Rightarrow> fp_state \<Rightarrow> uint32_t \<times> fp_state" where
  "softfloat_roundPackToUI32 sign sig roundingMode exact s =
     (let invalid = (0xFFFFFFFF, softfloat_raiseFlags softfloat_flag_invalid s);
          roundNearestEven = (roundingMode = softfloat_round_nearest_even);
          roundIncrement = (0x40 :: uint64_t);
          roundIncrement =
            (if \<not> roundNearestEven \<and> roundingMode \<noteq> softfloat_round_nearest_maxMag
             then (if roundingMode = softfloat_round_minMag
                      \<or> roundingMode = (if sign then softfloat_round_max else softfloat_round_min)
                   then 0 else 0x7F)
             else roundIncrement);
          roundBits = sig AND 0x7F;
          sig = sig + roundIncrement
      in if sig AND 0xFFFFFF8000000000 \<noteq> 0 then invalid
         else
           let z = ucast (drop_bit 7 sig) :: uint32_t;
               z = z AND NOT (of_bool (roundBits XOR 0x40 = 0 \<and> roundNearestEven))
           in if sign \<and> z \<noteq> 0 then invalid
              else (z, if exact \<and> roundBits \<noteq> 0 then orFlags softfloat_flag_inexact s else s))"

definition softfloat_roundPackToI32 ::
  "bool \<Rightarrow> uint64_t \<Rightarrow> int8_t \<Rightarrow> bool \<Rightarrow> fp_state \<Rightarrow> int32_t \<times> fp_state" where
  "softfloat_roundPackToI32 sign sig roundingMode exact s =
     (let invalid = (if sign then - 0x7FFFFFFF - 1 else 0x7FFFFFFF, softfloat_raiseFlags softfloat_flag_invalid s);
          roundNearestEven = (roundingMode = softfloat_round_nearest_even);
          roundIncrement = (0x40 :: uint64_t);
          roundIncrement =
            (if \<not> roundNearestEven \<and> roundingMode \<noteq> softfloat_round_nearest_maxMag
             then (if roundingMode = softfloat_round_minMag
                      \<or> roundingMode = (if sign then softfloat_round_max else softfloat_round_min)
                   then 0 else 0x7F)
             else roundIncrement);
          roundBits = sig AND 0x7F;
          sig = sig + roundIncrement
      in if sig AND 0xFFFFFF8000000000 \<noteq> 0 then invalid
         else
           let sig32 = ucast (drop_bit 7 sig) :: uint32_t;
               sig32 = sig32 AND NOT (of_bool (roundBits XOR 0x40 = 0 \<and> roundNearestEven));
               z = (if sign then - sig32 else sig32)
           in if z \<noteq> 0 \<and> (sint z < 0) \<noteq> sign then invalid
              else (z, if exact \<and> roundBits \<noteq> 0 then orFlags softfloat_flag_inexact s else s))"

definition softfloat_roundPackToUI64 ::
  "bool \<Rightarrow> uint64_t \<Rightarrow> uint64_t \<Rightarrow> int8_t \<Rightarrow> bool \<Rightarrow> fp_state \<Rightarrow> uint64_t \<times> fp_state" where
  "softfloat_roundPackToUI64 sign sig64 sig0 roundingMode exact s =
     (let invalid = (0xFFFFFFFFFFFFFFFF, softfloat_raiseFlags softfloat_flag_invalid s);
          roundNearestEven = (roundingMode = softfloat_round_nearest_even);
          increment = (0x8000000000000000 \<le> sig0);
          increment =
            (if \<not> roundNearestEven \<and> roundingMode \<noteq> softfloat_round_nearest_maxMag
             then roundingMode \<noteq> softfloat_round_minMag
                  \<and> roundingMode = (if sign then softfloat_round_min else softfloat_round_max)
                  \<and> sig0 \<noteq> 0
             else increment);
          finish = (\<lambda>sig64.
            if sign \<and> sig64 \<noteq> 0 then invalid
            else (sig64, if exact \<and> sig0 \<noteq> 0 then orFlags softfloat_flag_inexact s else s))
      in if increment
         then
           let sig64 = sig64 + 1
           in if sig64 = 0 then invalid
              else finish (sig64 AND NOT (of_bool (sig0 AND 0x7FFFFFFFFFFFFFFF = 0 \<and> roundNearestEven)))
         else finish sig64)"

definition softfloat_roundPackToI64 ::
  "bool \<Rightarrow> uint64_t \<Rightarrow> uint64_t \<Rightarrow> int8_t \<Rightarrow> bool \<Rightarrow> fp_state \<Rightarrow> int64_t \<times> fp_state" where
  "softfloat_roundPackToI64 sign sig64 sig0 roundingMode exact s =
     (let invalid = (if sign then - 0x7FFFFFFFFFFFFFFF - 1 else 0x7FFFFFFFFFFFFFFF,
                     softfloat_raiseFlags softfloat_flag_invalid s);
          roundNearestEven = (roundingMode = softfloat_round_nearest_even);
          increment = (0x8000000000000000 \<le> sig0);
          increment =
            (if \<not> roundNearestEven \<and> roundingMode \<noteq> softfloat_round_nearest_maxMag
             then roundingMode \<noteq> softfloat_round_minMag
                  \<and> roundingMode = (if sign then softfloat_round_min else softfloat_round_max)
                  \<and> sig0 \<noteq> 0
             else increment);
          finish = (\<lambda>sig64.
            let z = (if sign then - sig64 else sig64)
            in if z \<noteq> 0 \<and> (sint z < 0) \<noteq> sign then invalid
               else (z, if exact \<and> sig0 \<noteq> 0 then orFlags softfloat_flag_inexact s else s))
      in if increment
         then
           let sig64 = sig64 + 1
           in if sig64 = 0 then invalid
              else finish (sig64 AND NOT (of_bool (sig0 AND 0x7FFFFFFFFFFFFFFF = 0 \<and> roundNearestEven)))
         else finish sig64)"

section \<open>The conversions\<close>

definition f32_to_i32 :: "float32_t \<Rightarrow> int8_t \<Rightarrow> bool \<Rightarrow> fp_state \<Rightarrow> int32_t \<times> fp_state" where
  "f32_to_i32 a roundingMode exact s =
     (let uiA = a;
          sign = signF32UI uiA;
          ex = expF32UI uiA;
          sig = fracF32UI uiA;
          sign = (if ex = 0xFF \<and> sig \<noteq> 0 then False else sign);
          sig = (if ex \<noteq> 0 then sig OR 0x00800000 else sig);
          sig64 = push_bit 32 (ucast sig) :: uint64_t;
          shiftCount = 0xAF - ex;
          sig64 = (if 0 < shiftCount then softfloat_shift64RightJam sig64 (word_of_int shiftCount) else sig64)
      in softfloat_roundPackToI32 sign sig64 roundingMode exact s)"

definition f64_to_i32 :: "float64_t \<Rightarrow> int8_t \<Rightarrow> bool \<Rightarrow> fp_state \<Rightarrow> int32_t \<times> fp_state" where
  "f64_to_i32 a roundingMode exact s =
     (let uiA = a;
          sign = signF64UI uiA;
          ex = expF64UI uiA;
          sig = fracF64UI uiA;
          sign = (if ex = 0x7FF \<and> sig \<noteq> 0 then False else sign);
          sig = (if ex \<noteq> 0 then sig OR 0x0010000000000000 else sig);
          shiftCount = 0x42C - ex;
          sig = (if 0 < shiftCount then softfloat_shift64RightJam sig (word_of_int shiftCount) else sig)
      in softfloat_roundPackToI32 sign sig roundingMode exact s)"

definition f32_to_ui32 :: "float32_t \<Rightarrow> int8_t \<Rightarrow> bool \<Rightarrow> fp_state \<Rightarrow> uint32_t \<times> fp_state" where
  "f32_to_ui32 a roundingMode exact s =
     (let uiA = a;
          sign = signF32UI uiA;
          ex = expF32UI uiA;
          sig = fracF32UI uiA;
          sig = (if ex \<noteq> 0 then sig OR 0x00800000 else sig);
          sig64 = push_bit 32 (ucast sig) :: uint64_t;
          shiftCount = 0xAF - ex;
          sig64 = (if 0 < shiftCount then softfloat_shift64RightJam sig64 (word_of_int shiftCount) else sig64)
      in softfloat_roundPackToUI32 sign sig64 roundingMode exact s)"

definition f64_to_ui32 :: "float64_t \<Rightarrow> int8_t \<Rightarrow> bool \<Rightarrow> fp_state \<Rightarrow> uint32_t \<times> fp_state" where
  "f64_to_ui32 a roundingMode exact s =
     (let uiA = a;
          sign = signF64UI uiA;
          ex = expF64UI uiA;
          sig = fracF64UI uiA;
          sig = (if ex \<noteq> 0 then sig OR 0x0010000000000000 else sig);
          shiftCount = 0x42C - ex;
          sig = (if 0 < shiftCount then softfloat_shift64RightJam sig (word_of_int shiftCount) else sig)
      in softfloat_roundPackToUI32 sign sig roundingMode exact s)"

definition f32_to_i64 :: "float32_t \<Rightarrow> int8_t \<Rightarrow> bool \<Rightarrow> fp_state \<Rightarrow> int64_t \<times> fp_state" where
  "f32_to_i64 a roundingMode exact s =
     (let uiA = a;
          sign = signF32UI uiA;
          ex = expF32UI uiA;
          sig = fracF32UI uiA;
          shiftCount = 0xBE - ex
      in if shiftCount < 0
         then (if \<not> sign \<or> (ex = 0xFF \<and> sig \<noteq> 0) then 0x7FFFFFFFFFFFFFFF else - 0x7FFFFFFFFFFFFFFF - 1, softfloat_raiseFlags softfloat_flag_invalid s)
         else
           let sig = (if ex \<noteq> 0 then sig OR 0x00800000 else sig);
               sig64 = push_bit 40 (ucast sig) :: uint64_t;
               extra = 0;
               (sig64, extra) =
                 (if shiftCount \<noteq> 0
                  then let sig64Extra = softfloat_shift64ExtraRightJam sig64 0 (word_of_int shiftCount)
                       in (x64_v sig64Extra, x64_extra sig64Extra)
                  else (sig64, extra))
           in softfloat_roundPackToI64 sign sig64 extra roundingMode exact s)"

definition f64_to_i64 :: "float64_t \<Rightarrow> int8_t \<Rightarrow> bool \<Rightarrow> fp_state \<Rightarrow> int64_t \<times> fp_state" where
  "f64_to_i64 a roundingMode exact s =
     (let uiA = a;
          sign = signF64UI uiA;
          ex = expF64UI uiA;
          sig = fracF64UI uiA;
          sig = (if ex \<noteq> 0 then sig OR 0x0010000000000000 else sig);
          shiftCount = 0x433 - ex
      in if shiftCount \<le> 0 \<and> 0x43E < ex
         then (if \<not> sign \<or> (ex = 0x7FF \<and> sig \<noteq> 0x0010000000000000) then 0x7FFFFFFFFFFFFFFF else - 0x7FFFFFFFFFFFFFFF - 1, softfloat_raiseFlags softfloat_flag_invalid s)
         else
           let sigExtra =
             (if shiftCount \<le> 0
              then \<lparr>x64_v = push_bit (nat (- shiftCount)) sig, x64_extra = 0\<rparr>
              else softfloat_shift64ExtraRightJam sig 0 (word_of_int shiftCount))
           in softfloat_roundPackToI64 sign (x64_v sigExtra) (x64_extra sigExtra) roundingMode exact s)"

definition f32_to_ui64 :: "float32_t \<Rightarrow> int8_t \<Rightarrow> bool \<Rightarrow> fp_state \<Rightarrow> uint64_t \<times> fp_state" where
  "f32_to_ui64 a roundingMode exact s =
     (let uiA = a;
          sign = signF32UI uiA;
          ex = expF32UI uiA;
          sig = fracF32UI uiA;
          shiftCount = 0xBE - ex
      in if shiftCount < 0
         then (0xFFFFFFFFFFFFFFFF, softfloat_raiseFlags softfloat_flag_invalid s)
         else
           let sig = (if ex \<noteq> 0 then sig OR 0x00800000 else sig);
               sig64 = push_bit 40 (ucast sig) :: uint64_t;
               extra = 0;
               (sig64, extra) =
                 (if shiftCount \<noteq> 0
                  then let sig64Extra = softfloat_shift64ExtraRightJam sig64 0 (word_of_int shiftCount)
                       in (x64_v sig64Extra, x64_extra sig64Extra)
                  else (sig64, extra))
           in softfloat_roundPackToUI64 sign sig64 extra roundingMode exact s)"

definition f64_to_ui64 :: "float64_t \<Rightarrow> int8_t \<Rightarrow> bool \<Rightarrow> fp_state \<Rightarrow> uint64_t \<times> fp_state" where
  "f64_to_ui64 a roundingMode exact s =
     (let uiA = a;
          sign = signF64UI uiA;
          ex = expF64UI uiA;
          sig = fracF64UI uiA;
          sig = (if ex \<noteq> 0 then sig OR 0x0010000000000000 else sig);
          shiftCount = 0x433 - ex
      in if shiftCount \<le> 0 \<and> 0x43E < ex
         then (0xFFFFFFFFFFFFFFFF, softfloat_raiseFlags softfloat_flag_invalid s)
         else
           let sigExtra =
             (if shiftCount \<le> 0
              then \<lparr>x64_v = push_bit (nat (- shiftCount)) sig, x64_extra = 0\<rparr>
              else softfloat_shift64ExtraRightJam sig 0 (word_of_int shiftCount))
           in softfloat_roundPackToUI64 sign (x64_v sigExtra) (x64_extra sigExtra) roundingMode exact s)"

definition f32_to_ui32_r_minMag :: "float32_t \<Rightarrow> bool \<Rightarrow> fp_state \<Rightarrow> uint32_t \<times> fp_state" where
  "f32_to_ui32_r_minMag a exact s =
     (let uiA = a;
          ex = expF32UI uiA;
          sig = fracF32UI uiA;
          invalid = (0xFFFFFFFF, softfloat_raiseFlags softfloat_flag_invalid s)
      in if ex < 0x7F
         then (0, if exact \<and> word_of_int ex OR sig \<noteq> 0 then orFlags softfloat_flag_inexact s else s)
         else if signF32UI uiA then invalid
         else
           let shiftCount = 0x9E - ex
           in if shiftCount < 0 then invalid
              else
                let sig = push_bit 8 (sig OR 0x00800000);
                    z = drop_bit (nat shiftCount) sig
                in (z, if exact \<and> sig AND (push_bit (nat shiftCount) 1 - 1) \<noteq> 0
                       then orFlags softfloat_flag_inexact s else s))"

definition f32_to_i32_r_minMag :: "float32_t \<Rightarrow> bool \<Rightarrow> fp_state \<Rightarrow> int32_t \<times> fp_state" where
  "f32_to_i32_r_minMag a exact s =
     (let uiA = a;
          ex = expF32UI uiA;
          sig = fracF32UI uiA
      in if ex < 0x7F
         then (0, if exact \<and> word_of_int ex OR sig \<noteq> 0 then orFlags softfloat_flag_inexact s else s)
         else
           let sign = signF32UI uiA;
               shiftCount = 0x9E - ex
           in if shiftCount \<le> 0
              then if uiA \<noteq> packToF32UI True 0x9E 0
                   then (if \<not> sign \<or> (ex = 0xFF \<and> sig \<noteq> 0) then 0x7FFFFFFF else - 0x7FFFFFFF - 1,
                         softfloat_raiseFlags softfloat_flag_invalid s)
                   else (- 0x7FFFFFFF - 1, s)
              else
                let sig = push_bit 8 (sig OR 0x00800000);
                    absZ = drop_bit (nat shiftCount) sig;
                    s = (if exact \<and> push_bit (neg_count (word_of_int shiftCount) 31) sig \<noteq> 0
                         then orFlags softfloat_flag_inexact s else s)
                in (if sign then - absZ else absZ, s))"

definition f32_to_ui64_r_minMag :: "float32_t \<Rightarrow> bool \<Rightarrow> fp_state \<Rightarrow> uint64_t \<times> fp_state" where
  "f32_to_ui64_r_minMag a exact s =
     (let uiA = a;
          ex = expF32UI uiA;
          sig = fracF32UI uiA;
          invalid = (0xFFFFFFFFFFFFFFFF, softfloat_raiseFlags softfloat_flag_invalid s)
      in if ex < 0x7F
         then (0, if exact \<and> word_of_int ex OR sig \<noteq> 0 then orFlags softfloat_flag_inexact s else s)
         else if signF32UI uiA then invalid
         else
           let shiftCount = 0xBE - ex
           in if shiftCount < 0 then invalid
              else
                let sig = sig OR 0x00800000;
                    sig64 = push_bit 40 (ucast sig) :: uint64_t;
                    z = drop_bit (nat shiftCount) sig64;
                    shiftCount = 40 - shiftCount
                in (z, if exact \<and> shiftCount < 0 \<and> push_bit (unat (word_of_int shiftCount AND 31 :: uint32_t)) sig \<noteq> 0
                       then orFlags softfloat_flag_inexact s else s))"

definition f32_to_i64_r_minMag :: "float32_t \<Rightarrow> bool \<Rightarrow> fp_state \<Rightarrow> int64_t \<times> fp_state" where
  "f32_to_i64_r_minMag a exact s =
     (let uiA = a;
          ex = expF32UI uiA;
          sig = fracF32UI uiA
      in if ex < 0x7F
         then (0, if exact \<and> word_of_int ex OR sig \<noteq> 0 then orFlags softfloat_flag_inexact s else s)
         else
           let sign = signF32UI uiA;
               shiftCount = 0xBE - ex
           in if shiftCount \<le> 0
              then if uiA \<noteq> packToF32UI True 0xBE 0
                   then (if \<not> sign \<or> (ex = 0xFF \<and> sig \<noteq> 0) then 0x7FFFFFFFFFFFFFFF else - 0x7FFFFFFFFFFFFFFF - 1,
                         softfloat_raiseFlags softfloat_flag_invalid s)
                   else (- 0x7FFFFFFFFFFFFFFF - 1, s)
              else
                let sig = sig OR 0x00800000;
                    sig64 = push_bit 40 (ucast sig) :: uint64_t;
                    absZ = drop_bit (nat shiftCount) sig64;
                    shiftCount = 40 - shiftCount;
                    s = (if exact \<and> shiftCount < 0 \<and> push_bit (unat (word_of_int shiftCount AND 31 :: uint32_t)) sig \<noteq> 0
                         then orFlags softfloat_flag_inexact s else s)
                in (if sign then - absZ else absZ, s))"

definition f64_to_ui32_r_minMag :: "float64_t \<Rightarrow> bool \<Rightarrow> fp_state \<Rightarrow> uint32_t \<times> fp_state" where
  "f64_to_ui32_r_minMag a exact s =
     (let uiA = a;
          ex = expF64UI uiA;
          sig = fracF64UI uiA
      in if ex < 0x3FF
         then (0, if exact \<and> word_of_int ex OR sig \<noteq> 0 then orFlags softfloat_flag_inexact s else s)
         else if signF64UI uiA \<or> 0x41E < ex
         then (0xFFFFFFFF, softfloat_raiseFlags softfloat_flag_invalid s)
         else
           let sig = sig OR 0x0010000000000000;
               shiftCount = 0x433 - ex;
               z = ucast (drop_bit (nat shiftCount) sig) :: uint32_t
           in (z, if exact \<and> push_bit (nat shiftCount) (ucast z) \<noteq> sig
                  then orFlags softfloat_flag_inexact s else s))"

definition f64_to_i32_r_minMag :: "float64_t \<Rightarrow> bool \<Rightarrow> fp_state \<Rightarrow> int32_t \<times> fp_state" where
  "f64_to_i32_r_minMag a exact s =
     (let uiA = a;
          ex = expF64UI uiA;
          sig = fracF64UI uiA;
          invalid = (\<lambda>sign. (if sign then - 0x7FFFFFFF - 1 else 0x7FFFFFFF, softfloat_raiseFlags softfloat_flag_invalid s))
      in if ex < 0x3FF
         then (0, if exact \<and> word_of_int ex OR sig \<noteq> 0 then orFlags softfloat_flag_inexact s else s)
         else
           let sign = signF64UI uiA
           in if 0x41E < ex
              then invalid (if ex = 0x7FF \<and> sig \<noteq> 0 then False else sign)
              else
                let sig = sig OR 0x0010000000000000;
                    shiftCount = 0x433 - ex;
                    absZ = ucast (drop_bit (nat shiftCount) sig) :: uint32_t;
                    z = (if sign then - absZ else absZ)
                in if (sint z < 0) \<noteq> sign then invalid sign
                   else (z, if exact \<and> push_bit (nat shiftCount) (ucast absZ) \<noteq> sig
                            then orFlags softfloat_flag_inexact s else s))"

definition f64_to_ui64_r_minMag :: "float64_t \<Rightarrow> bool \<Rightarrow> fp_state \<Rightarrow> uint64_t \<times> fp_state" where
  "f64_to_ui64_r_minMag a exact s =
     (let uiA = a;
          ex = expF64UI uiA;
          sig = fracF64UI uiA;
          invalid = (0xFFFFFFFFFFFFFFFF, softfloat_raiseFlags softfloat_flag_invalid s)
      in if ex < 0x3FF
         then (0, if exact \<and> word_of_int ex OR sig \<noteq> 0 then orFlags softfloat_flag_inexact s else s)
         else if signF64UI uiA then invalid
         else
           let shiftCount = ex - 0x433
           in if 0 \<le> shiftCount
              then if 0x43E < ex then invalid
                   else (push_bit (nat shiftCount) (sig OR 0x0010000000000000), s)
              else
                let sig = sig OR 0x0010000000000000;
                    z = drop_bit (nat (- shiftCount)) sig
                in (z, if exact \<and> push_bit (unat (word_of_int shiftCount AND 63 :: uint32_t)) sig \<noteq> 0
                       then orFlags softfloat_flag_inexact s else s))"

definition f64_to_i64_r_minMag :: "float64_t \<Rightarrow> bool \<Rightarrow> fp_state \<Rightarrow> int64_t \<times> fp_state" where
  "f64_to_i64_r_minMag a exact s =
     (let uiA = a;
          sign = signF64UI uiA;
          ex = expF64UI uiA;
          sig = fracF64UI uiA;
          shiftCount = ex - 0x433
      in if 0 \<le> shiftCount
         then if 0x43E \<le> ex
              then if uiA \<noteq> packToF64UI True 0x43E 0
                   then (if \<not> sign \<or> (ex = 0x7FF \<and> sig \<noteq> 0) then 0x7FFFFFFFFFFFFFFF else - 0x7FFFFFFFFFFFFFFF - 1,
                         softfloat_raiseFlags softfloat_flag_invalid s)
                   else (- 0x7FFFFFFFFFFFFFFF - 1, s)
              else
                let sig = sig OR 0x0010000000000000;
                    absZ = push_bit (nat shiftCount) sig
                in (if sign then - absZ else absZ, s)
         else if ex < 0x3FF
         then (0, if exact \<and> word_of_int ex OR sig \<noteq> 0 then orFlags softfloat_flag_inexact s else s)
         else
           let sig = sig OR 0x0010000000000000;
               absZ = drop_bit (nat (- shiftCount)) sig;
               s = (if exact \<and> push_bit (unat (word_of_int shiftCount AND 63 :: uint32_t)) sig \<noteq> 0
                    then orFlags softfloat_flag_inexact s else s)
           in (if sign then - absZ else absZ, s))"

end
