(* ===== verification/Int_To_Float.thy ===== *)
theory Int_To_Float
  imports Format_Contract
begin

text \<open>
  Conversion from integers (\<^verbatim>\<open>source/i32_to_f*.c\<close>, \<^verbatim>\<open>i64_to_f*.c\<close>, \<^verbatim>\<open>ui32_to_f*.c\<close>, \<^verbatim>\<open>ui64_to_f*.c\<close>). A signed
  argument is its two's complement word. Routines that can neither round nor raise a flag take no state.
\<close>


section \<open>The routines\<close>

definition i32_to_f32 :: "int32_t \<Rightarrow> fp_state \<Rightarrow> float32_t \<times> fp_state" where
  "i32_to_f32 a s =
     (let sign = (sint a < 0)
      in if a AND 0x7FFFFFFF = 0
         then (if sign then packToF32UI True 0x9E 0 else 0, s)
         else softfloat_normRoundPackToF32 sign 0x9C (if sign then - a else a) s)"

definition i32_to_f64 :: "int32_t \<Rightarrow> float64_t" where
  "i32_to_f64 a =
     (if a = 0 then 0
      else
        let sign = (sint a < 0);
            absA = (if sign then - a else a);
            shiftCount = softfloat_countLeadingZeros32 absA + 21
        in packToF64UI sign (0x432 - shiftCount) (push_bit (nat shiftCount) (ucast absA)))"

definition i64_to_f32 :: "int64_t \<Rightarrow> fp_state \<Rightarrow> float32_t \<times> fp_state" where
  "i64_to_f32 a s =
     (let sign = (sint a < 0);
          absA = (if sign then - a else a);
          shiftCount = softfloat_countLeadingZeros64 absA - 40
      in if 0 \<le> shiftCount
         then (if a \<noteq> 0 then packToF32UI sign (0x95 - shiftCount) (push_bit (nat shiftCount) (ucast absA)) else 0, s)
         else
           let shiftCount = shiftCount + 7;
               sig = (if shiftCount < 0
                      then ucast (softfloat_shortShift64RightJam absA (word_of_int (- shiftCount)))
                      else push_bit (nat shiftCount) (ucast absA))
           in softfloat_roundPackToF32 sign (0x9C - shiftCount) sig s)"

definition i64_to_f64 :: "int64_t \<Rightarrow> fp_state \<Rightarrow> float64_t \<times> fp_state" where
  "i64_to_f64 a s =
     (let sign = (sint a < 0)
      in if a AND 0x7FFFFFFFFFFFFFFF = 0
         then (if sign then packToF64UI True 0x43E 0 else 0, s)
         else softfloat_normRoundPackToF64 sign 0x43C (if sign then - a else a) s)"

definition ui32_to_f32 :: "uint32_t \<Rightarrow> fp_state \<Rightarrow> float32_t \<times> fp_state" where
  "ui32_to_f32 a s =
     (if a = 0 then (0, s)
      else if a AND 0x80000000 \<noteq> 0
      then softfloat_roundPackToF32 False 0x9D (softfloat_shortShift32Right1Jam a) s
      else softfloat_normRoundPackToF32 False 0x9C a s)"

definition ui32_to_f64 :: "uint32_t \<Rightarrow> float64_t" where
  "ui32_to_f64 a =
     (if a = 0 then 0
      else
        let shiftCount = softfloat_countLeadingZeros32 a + 21
        in packToF64UI False (0x432 - shiftCount) (push_bit (nat shiftCount) (ucast a)))"

definition ui64_to_f32 :: "uint64_t \<Rightarrow> fp_state \<Rightarrow> float32_t \<times> fp_state" where
  "ui64_to_f32 a s =
     (let shiftCount = softfloat_countLeadingZeros64 a - 40
      in if 0 \<le> shiftCount
         then (if a \<noteq> 0 then packToF32UI False (0x95 - shiftCount) (push_bit (nat shiftCount) (ucast a)) else 0, s)
         else
           let shiftCount = shiftCount + 7;
               sig = (if shiftCount < 0
                      then ucast (softfloat_shortShift64RightJam a (word_of_int (- shiftCount)))
                      else push_bit (nat shiftCount) (ucast a))
           in softfloat_roundPackToF32 False (0x9C - shiftCount) sig s)"

definition ui64_to_f64 :: "uint64_t \<Rightarrow> fp_state \<Rightarrow> float64_t \<times> fp_state" where
  "ui64_to_f64 a s =
     (if a = 0 then (0, s)
      else if a AND 0x8000000000000000 \<noteq> 0
      then softfloat_roundPackToF64 False 0x43D (softfloat_shortShift64RightJam a 1) s
      else softfloat_normRoundPackToF64 False 0x43C a s)"

section \<open>Two's complement\<close>

lemma sint_abs:
  fixes a :: "'a::len word"
  shows "real (unat (if sint a < 0 then - a else a)) = \<bar>real_of_int (sint a)\<bar>"
proof -
  define k where "k = sint a"
  have "int (unat (if sint a < 0 then - a else a)) = \<bar>k\<bar>" using sint_magnitude [of a] by (auto simp: k_def)
  then have "real_of_int (int (unat (if sint a < 0 then - a else a))) = real_of_int \<bar>k\<bar>" by (simp only:)
  then show ?thesis unfolding k_def [symmetric] of_int_of_nat_eq of_int_abs .
qed

section \<open>Exact conversions\<close>

text \<open>A 32-bit magnitude fits the 53-bit significand of double precision.\<close>

lemma pack_ui32_to_f64:
  fixes sign :: bool and n :: uint32_t
  assumes "n \<noteq> 0"
  defines "z \<equiv> packToF64UI sign (0x432 - (softfloat_countLeadingZeros32 n + 21))
      (push_bit (nat (softfloat_countLeadingZeros32 n + 21)) (ucast n))"
  shows "fl_real 52 z = (if sign then - 1 else 1) * real (unat n) * 2 ^ 1074" and "fl_mag z < 2047 * 2 ^ 52"
proof -
  obtain c where c: "softfloat_countLeadingZeros32 n = int c" "c < 32" "2 ^ 31 \<le> unat n * 2 ^ c" "unat n * 2 ^ c < 2 ^ 32"
    by (rule countLeadingZeros32_normalises [OF assms(1)])
  let ?m = "unat n * 2 ^ (c + 21)" and ?e = "1053 - c"
  have m: "2 ^ 52 \<le> ?m" "?m < 2 ^ 53" using c(3,4) by (simp_all add: power_add)
  have u: "unat (push_bit (c + 21) (ucast n :: uint64_t)) = ?m"
    using m(2) by (subst unat_push_bit_small) (simp_all add: unat_ucast_up)
  have n: "nat (int c + 21) = c + 21" "0x432 - (int c + 21) = int ?e" using c(2) by simp_all
  have z: "z = packToF64UI sign (int ?e) (push_bit (c + 21) (ucast n))" unfolding z_def c(1) n ..
  note pk = sf64.pack_normal [of "push_bit (c + 21) (ucast n)" ?e sign, unfolded u, OF m(1)]
  show "fl_mag z < 2047 * 2 ^ 52" unfolding z by (rule pk) (use m in simp_all)
  have "?m * 2 ^ ?e = unat n * 2 ^ (c + 21 + ?e)" by (simp only: power_add mult.assoc)
  also have "c + 21 + ?e = 1074" using c(2) by simp
  finally have q: "?m * 2 ^ ?e = unat n * 2 ^ 1074" .
  have "real ?m * 2 ^ ?e = real (unat n) * 2 ^ 1074"
    using arg_cong [OF q, of real] by (simp only: of_nat_mult of_nat_power of_nat_numeral)
  with pk(3) m(2) show "fl_real 52 z = (if sign then - 1 else 1) * real (unat n) * 2 ^ 1074"
    unfolding z by (simp only: mult.assoc) simp
qed

text \<open>
  Every unsigned and every signed 32-bit integer converts to double precision exactly
  (a number counts in units of the least positive double, \<open>2 ^ -1074\<close>).
\<close>

lemma int32_to_f64_exact:
  "fl_real 52 (ui32_to_f64 u) = real (unat u) * 2 ^ 1074 \<and>
   fl_real 52 (i32_to_f64 i) = real_of_int (sint i) * 2 ^ 1074"
proof
  show "fl_real 52 (ui32_to_f64 u) = real (unat u) * 2 ^ 1074"
    using pack_ui32_to_f64(1) [of u False]
    by (cases "u = 0") (simp_all add: ui32_to_f64_def Let_def fl_real_def fl_mag_def del: power_numeral)
  show "fl_real 52 (i32_to_f64 i) = real_of_int (sint i) * 2 ^ 1074"
  proof (cases "i = 0")
    case False
    then have "(if sint i < 0 then - i else i) \<noteq> 0" by simp
    note p = pack_ui32_to_f64(1) [OF this, of "sint i < 0", unfolded sint_abs]
    define k where "k = sint i"
    have "(if k < 0 then - 1 else 1) * \<bar>real_of_int k\<bar> = real_of_int k" by simp
    with p False show ?thesis
      unfolding i32_to_f64_def Let_def k_def [symmetric] by (simp only: if_False)
  qed (simp add: i32_to_f64_def fl_real_def fl_mag_def)
qed

section \<open>Rounded conversions\<close>

lemma top_bit_clear:
  fixes a :: "'a::len word"
  assumes "LENGTH('a) = Suc n"
  shows "a AND 2 ^ n = 0 \<longleftrightarrow> unat a < 2 ^ n"
proof -
  have l: "unat a < 2 * 2 ^ n" using unsigned_less [of a] assms by simp
  have "a AND 2 ^ n = 0 \<longleftrightarrow> \<not> bit (unat a) n"
    using and_exp_eq_0_iff_not_bit [of a n] assms by (simp add: bit_unsigned_iff)
  also have "\<dots> \<longleftrightarrow> unat a < 2 ^ n"
  proof -
    have "unat a div 2 ^ n < 2" using l by (simp add: div_less_iff_less_mult)
    then have "even (unat a div 2 ^ n) \<longleftrightarrow> unat a div 2 ^ n = 0" by auto
    then show ?thesis by (simp add: bit_iff_odd div_eq_0_iff)
  qed
  finally show ?thesis .
qed

lemma mask_zero:
  fixes a :: "'a::len word"
  assumes "LENGTH('a) = Suc n"
  shows "a AND (2 ^ n - 1) = 0 \<longleftrightarrow> unat a = 0 \<or> unat a = 2 ^ n"
proof -
  have "unat a < 2 * 2 ^ n" using unsigned_less [of a] assms by simp
  then have "unat a mod 2 ^ n = 0 \<longleftrightarrow> unat a = 0 \<or> unat a = 2 ^ n" by auto
  then show ?thesis
    using word_unat_eq_iff [of "a AND (2 ^ n - 1)" 0] by (simp add: and_mask_take_bit unat_take_bit_mod)
qed

lemma min_word:
  fixes a :: "'a::len word"
  assumes "LENGTH('a) = Suc n"
  shows "unat a = 2 ^ n \<longleftrightarrow> sint a = - (2 ^ n)"
proof
  assume "unat a = 2 ^ n"
  then have "uint a = 2 ^ n" by (simp add: uint_nat)
  then show "sint a = - (2 ^ n)"
    using assms by (simp add: sint_uint signed_take_bit_eq_take_bit_shift take_bit_eq_mod)
next
  assume m: "sint a = - (2 ^ n)"
  have "uint a = uint (word_of_int (sint a) :: 'a word)" by simp
  also have "\<dots> = - (2 ^ n) mod 2 ^ Suc n" unfolding uint_word_of_int m assms ..
  also have "\<dots> = (2 ^ n + (- 1) * 2 ^ Suc n) mod 2 ^ Suc n" by simp
  also have "\<dots> = 2 ^ n" unfolding mod_mult_self1 by simp
  finally have "int (unat a) = int (2 ^ n)" unfolding uint_nat by simp
  then show "unat a = 2 ^ n" unfolding of_nat_eq_iff .
qed

lemma real_unat_pos: "w \<noteq> 0 \<Longrightarrow> 0 < real (unat w)"
  unfolding of_nat_0_less_iff by (simp add: unat_gt_0)

context softfloat_format
begin

text \<open>A magnitude below the width of the rounding routine, and one that is given a sticky bit first.\<close>

lemma int_normRoundPack:
  assumes "sig \<noteq> 0" and "unat sig < 2 ^ (f + x + 1)" and "\<bar>v\<bar> = real (unat sig)" and "sign = (v < 0)"
    and ex: "ex = int (bias + f - 1 + x)"
  shows "op_rounds f E zs (v * 2 ^ (bias + f - 1)) s (normRoundPack sign ex sig s)"
proof (rule normRoundPack_rounds [of "real (unat sig)"])
  have "ex - int x = int (bias + f - 1)" by (simp add: ex)
  then show "\<bar>v * 2 ^ (bias + f - 1)\<bar> = real (unat sig) * 2 powi (ex - int x)"
    by (simp only: power_int_of_nat) (simp add: abs_mult assms(3))
  have "real (unat sig) \<noteq> 0" using assms(1) unfolding of_nat_eq_0_iff unat_eq_zero .
  with assms(3) have "v \<noteq> 0" by linarith
  then show "v * 2 ^ (bias + f - 1) \<noteq> 0" by simp
qed (use assms E_bias E_le f_le x_le in \<open>auto simp: mult_less_0_iff\<close>)

lemma int_roundPack:
  assumes "2 ^ (f + x) \<le> unat sig" and "unat sig < 2 ^ (f + x + 1)" and "agrees (x - 1) X (unat sig)"
    and v: "\<bar>v\<bar> = X * 2 powi k" "v \<noteq> 0" and "sign = (v < 0)" and "-2000 \<le> k" and "k \<le> 2000"
    and ex: "ex = int (bias + f - 1 + x) + k"
  shows "op_rounds f E zs (v * 2 ^ (bias + f - 1)) s (roundPack sign ex sig s)"
proof (rule roundPack_rounds [OF assms(3,1,2)])
  have "ex - int x = k + int (bias + f - 1)" by (simp add: ex)
  moreover have "(2::real) powi (k + int (bias + f - 1)) = 2 powi k * 2 powi int (bias + f - 1)"
    by (rule power_int_add) simp
  ultimately have "2 powi (ex - int x) = 2 powi k * (2::real) ^ (bias + f - 1)" by (simp only: power_int_of_nat)
  then show "\<bar>v * 2 ^ (bias + f - 1)\<bar> = X * 2 powi (ex - int x)"
    by (simp add: abs_mult v(1))
qed (use assms E_bias E_le f_le x_le in \<open>auto simp: mult_less_0_iff\<close>)

text \<open>The routines from an integer of the width of the format, unsigned and signed.\<close>

lemma unsigned_rounds:
  assumes jam1: "unat sig1 = jam 1 (unat u)"
  defines "ex \<equiv> int (bias + f - 1 + x)"
  shows "op_rounds f E False (real (unat u) * 2 ^ (bias + f - 1)) s
    (if u = 0 then (0, s)
     else if u AND 2 ^ (f + x + 1) \<noteq> 0 then roundPack False (ex + 1) sig1 s
     else normRoundPack False ex u s)"
proof -
  define v where "v = real (unat u)"
  have top: "u AND 2 ^ (f + x + 1) = 0 \<longleftrightarrow> unat u < 2 ^ (f + x + 1)" by (rule top_bit_clear) (simp add: len)
  consider (zero) "u = 0" | (big) "u \<noteq> 0" "\<not> unat u < 2 ^ (f + x + 1)" | (small) "u \<noteq> 0" "unat u < 2 ^ (f + x + 1)"
    by blast
  then show ?thesis
  proof cases
    case zero
    have "op_rounds f E False 0 s (0 :: 'a word, s)"
      by (rule op_rounds_exact) (use E_ge2 in \<open>simp_all add: fl_real_def fl_mag_def fl_sign_def\<close>)
    with zero show ?thesis by simp
  next
    case big
    let ?n = "unat u"
    have v: "0 < v" using big(1) unfolding v_def by (rule real_unat_pos)
    have ev: "even ((2::nat) ^ (f + x))" "even ((2::nat) ^ (f + x + 1))" using f_pos by simp_all
    have "?n < 2 ^ (f + x + 1) * 2 ^ 1" using unsigned_less [of u] by (simp add: len)
    then have b: "2 ^ (f + x) \<le> jam 1 ?n" "jam 1 ?n < 2 ^ (f + x + 1)"
      using big unfolding jam_le_even [OF ev(1)] jam_less_even [OF ev(2)] by simp_all
    have "agrees (x - 1) (v / 2 ^ 1) (jam 1 ?n)"
      unfolding v_def by (rule agrees_jam [OF agrees_refl [of 0]]) (use x_ge in simp_all)
    then have "op_rounds f E False (v * 2 ^ (bias + f - 1)) s (roundPack False (ex + 1) sig1 s)"
      by (intro int_roundPack [of _ "v / 2 ^ 1" _ 1]) (use v b in \<open>simp_all add: jam1 ex_def\<close>)
    with big top show ?thesis unfolding v_def by simp
  next
    case small
    then have "op_rounds f E False (v * 2 ^ (bias + f - 1)) s (normRoundPack False ex u s)"
      by (intro int_normRoundPack) (simp_all only: v_def ex_def abs_of_nat not_less of_nat_0_le_iff simp_thms)
    with small top show ?thesis unfolding v_def by simp
  qed
qed

lemma signed_rounds:
  fixes a :: "'a word"
  assumes min: "fl_real f least = - (2 ^ (f + x + 1)) * 2 ^ (bias + f - 1)" "fl_mag least < E * 2 ^ f"
    and ex: "ex = int (bias + f - 1 + x)"
  shows "op_rounds f E False (real_of_int (sint a) * 2 ^ (bias + f - 1)) s
    (if a AND (2 ^ (f + x + 1) - 1) = 0 then (if sint a < 0 then least else 0, s)
     else normRoundPack (sint a < 0) ex (if sint a < 0 then - a else a) s)"
proof -
  have l: "LENGTH('a) = Suc (f + x + 1)" by (simp add: len)
  note mask = mask_zero [OF l, of a]
  consider (zero) "unat a = 0" | (min) "unat a = 2 ^ (f + x + 1)" | (other) "unat a \<noteq> 0" "unat a \<noteq> 2 ^ (f + x + 1)"
    by blast
  then show ?thesis
  proof cases
    case zero
    then have "a = 0" by (simp add: unat_eq_zero)
    moreover have "op_rounds f E False 0 s (0 :: 'a word, s)"
      by (rule op_rounds_exact) (use E_ge2 in \<open>simp_all add: fl_real_def fl_mag_def fl_sign_def\<close>)
    ultimately show ?thesis by simp
  next
    case min
    note m = min_word [OF l, THEN iffD1, OF min]
    have "op_rounds f E False (- (2 ^ (f + x + 1)) * 2 ^ (bias + f - 1)) s (least, s)"
      by (rule op_rounds_exact) (use assms in simp_all)
    with min mask m show ?thesis by (simp only:) simp
  next
    case other
    define k and sig where "k = sint a" and "sig = (if sint a < 0 then - a else a)"
    have "sig \<noteq> 0" using other(1) by (simp add: sig_def unat_eq_zero)
    moreover have "\<bar>real_of_int k\<bar> = real (unat sig)" unfolding k_def sig_def sint_abs ..
    moreover have "unat sig < 2 ^ (f + x + 1)"
    proof -
      have "\<bar>k\<bar> \<noteq> 2 ^ (f + x + 1)"
        using other(2) min_word [OF l, of a] sint_bounds(2) [of a] unfolding k_def l by (auto simp: abs_if)
      then have "\<bar>k\<bar> < 2 ^ (f + x + 1)" using sint_bounds [of a] unfolding k_def l by simp
      moreover have "int (unat sig) = \<bar>k\<bar>" using sint_magnitude [of a] by (auto simp: k_def sig_def)
      ultimately have "int (unat sig) < int (2 ^ (f + x + 1))" by simp
      then show ?thesis unfolding of_nat_less_iff .
    qed
    ultimately have "op_rounds f E False (real_of_int k * 2 ^ (bias + f - 1)) s (normRoundPack (k < 0) ex sig s)"
      by (intro int_normRoundPack) (simp_all add: ex)
    with other mask show ?thesis unfolding sig_def k_def by (simp only:) simp
  qed
qed

end

lemma int_roundPackToF32:
  assumes "2 ^ 30 \<le> unat sig" and "unat sig < 2 ^ 31" and "agrees 6 X (unat sig)"
    and "\<bar>v\<bar> = X * 2 powi k" and "v \<noteq> 0" and "sign = (v < 0)" and "\<bar>k\<bar> \<le> 2000"
  shows "op_rounds 23 255 zs (v * 2 ^ 149) s (softfloat_roundPackToF32 sign (0x9C + k) sig s)"
  using sf32.int_roundPack [OF _ _ _ assms(4,5,6), where ex = "0x9C + k"] assms by simp

lemma int_min_pack:
  "fl_real 23 (packToF32UI True 0x9E 0) = - (2 ^ 31) * 2 ^ 149"
  "fl_real 52 (packToF64UI True 0x43E 0) = - (2 ^ 63) * 2 ^ 1074"
  "fl_mag (packToF32UI True 0x9E 0) < 255 * 2 ^ 23"
  "fl_mag (packToF64UI True 0x43E 0) < 2047 * 2 ^ 52"
  by (simp_all add: fl_real_def fl_mag_def fl_sign_def packToF32UI_def packToF64UI_def mval_def)

lemma int_to_float_rounded:
  "op_rounds 23 255 False (real (unat u) * 2 ^ 149) s (ui32_to_f32 u s) \<and>
   op_rounds 23 255 False (real_of_int (sint i) * 2 ^ 149) s (i32_to_f32 i s) \<and>
   op_rounds 52 2047 False (real (unat ul) * 2 ^ 1074) s (ui64_to_f64 ul s) \<and>
   op_rounds 52 2047 False (real_of_int (sint il) * 2 ^ 1074) s (i64_to_f64 il s)"
proof (intro conjI)
  show "op_rounds 23 255 False (real (unat u) * 2 ^ 149) s (ui32_to_f32 u s)"
    using sf32.unsigned_rounds [OF unat_shortShift32Right1Jam, of u s] by (simp add: ui32_to_f32_def cong: if_cong)
  show "op_rounds 52 2047 False (real (unat ul) * 2 ^ 1074) s (ui64_to_f64 ul s)"
    using sf64.unsigned_rounds [of "softfloat_shortShift64RightJam ul 1" ul s]
    by (simp add: ui64_to_f64_def unat_shortShift64RightJam cong: if_cong)
  show "op_rounds 23 255 False (real_of_int (sint i) * 2 ^ 149) s (i32_to_f32 i s)"
    using sf32.signed_rounds [of "packToF32UI True 0x9E 0" "0x9C" i s] int_min_pack by (simp add: i32_to_f32_def Let_def cong: if_cong)
  show "op_rounds 52 2047 False (real_of_int (sint il) * 2 ^ 1074) s (i64_to_f64 il s)"
    using sf64.signed_rounds [of "packToF64UI True 0x43E 0" "0x43C" il s] int_min_pack by (simp add: i64_to_f64_def Let_def cong: if_cong)
qed


lemma unat_push_ucast:
  fixes n :: "'a::len word"
  assumes "unat n * 2 ^ k < 2 ^ LENGTH('b)"
  shows "unat (push_bit k (ucast n :: 'b::len word)) = unat n * 2 ^ k"
proof -
  have "unat n * 1 \<le> unat n * 2 ^ k" by (rule mult_le_mono2) simp
  with assms have "unat n < 2 ^ LENGTH('b)" unfolding mult_1_right by (rule le_less_trans [rotated])
  then have "unat (ucast n :: 'b word) = unat n" by (simp add: unat_ucast_mod)
  with assms show ?thesis by (subst unat_push_bit_small) simp_all
qed

text \<open>From 64 bits to single precision: exact when the magnitude fits 24 bits, else with a sticky bit.\<close>

lemma mag64_to_f32_rounds:
  fixes n :: uint64_t
  assumes "n \<noteq> 0" and v: "\<bar>v\<bar> = real (unat n)" "sign = (v < 0)"
  shows "op_rounds 23 255 zs (v * 2 ^ 149) s
    (let shiftCount = softfloat_countLeadingZeros64 n - 40
     in if 0 \<le> shiftCount then (packToF32UI sign (0x95 - shiftCount) (push_bit (nat shiftCount) (ucast n)), s)
        else let shiftCount = shiftCount + 7;
                 sig = (if shiftCount < 0 then ucast (softfloat_shortShift64RightJam n (word_of_int (- shiftCount)))
                        else push_bit (nat shiftCount) (ucast n))
             in softfloat_roundPackToF32 sign (0x9C - shiftCount) sig s)"
proof -
  obtain c where c: "softfloat_countLeadingZeros64 n = int c" "c < 64" "2 ^ 63 \<le> unat n * 2 ^ c" "unat n * 2 ^ c < 2 ^ 64"
    by (rule countLeadingZeros64_normalises [OF assms(1)])
  have v0: "v \<noteq> 0" using real_unat_pos [OF assms(1)] v(1) by linarith
  consider (exact) "40 \<le> c" | (left) "33 \<le> c" "c < 40" | (right) "c < 33" by linarith
  then show ?thesis
  proof cases
    case exact
    then obtain k where k: "c = k + 40" using le_Suc_ex by (metis add.commute)
    let ?w = "push_bit k (ucast n :: uint32_t)"
    have m: "2 ^ 23 \<le> unat n * 2 ^ k" "unat n * 2 ^ k < 2 ^ Suc 23" using c(3,4) by (simp_all add: k power_add)
    have u: "unat ?w = unat n * 2 ^ k" by (rule unat_push_ucast) (use m(2) in simp)
    note pk = sf32.pack_normal [of ?w "149 - k" sign, unfolded u, OF m]
    have e: "0x95 - (int c - 40) = int (149 - k)" "nat (int c - 40) = k" using c(2) k by simp_all
    have "k + (149 - k) = 149" using c(2) k by simp
    then have "(2::real) ^ k * 2 ^ (149 - k) = 2 ^ 149" by (metis power_add)
    then have "real (unat n * 2 ^ k) * 2 ^ (149 - k) = \<bar>v\<bar> * 2 ^ 149" by (simp only: v of_nat_mult of_nat_power of_nat_numeral mult.assoc)
    then have "fl_real 23 (packToF32UI sign (int (149 - k)) ?w) = v * 2 ^ 149"
      using pk(3) by (cases "v < 0") (simp_all add: v(2))
    then have "op_rounds 23 255 zs (v * 2 ^ 149) s (packToF32UI sign (int (149 - k)) ?w, s)"
      by (rule op_rounds_exact [OF _ pk(2)]) (use v0 in simp_all)
    then show ?thesis unfolding c(1) Let_def e using exact by simp
  next
    case left
    then obtain k where k: "c = k + 33" using le_Suc_ex by (metis add.commute)
    let ?w = "push_bit k (ucast n :: uint32_t)"
    have m: "2 ^ 30 \<le> unat n * 2 ^ k" "unat n * 2 ^ k < 2 ^ 31" using c(3,4) by (simp_all add: k power_add)
    have u: "unat ?w = unat n * 2 ^ k" by (rule unat_push_ucast) (use m(2) in simp)
    have "\<bar>v\<bar> = real (unat n * 2 ^ k) * 2 powi (- int k)" by (simp add: v(1) power_int_minus)
    then have "op_rounds 23 255 zs (v * 2 ^ 149) s (softfloat_roundPackToF32 sign (0x9C + - int k) ?w s)"
      by (intro int_roundPackToF32 [where X = "real (unat n * 2 ^ k)"]) (use v0 v(2) m u left k in \<open>simp_all only: agrees_refl, simp_all\<close>)
    moreover have "int c - 40 + 7 = int k" using k by simp
    ultimately show ?thesis unfolding c(1) Let_def using left by simp
  next
    case right
    then obtain k where k: "k = 33 - c" "0 < k" "k \<le> 33" by auto
    let ?j = "softfloat_shortShift64RightJam n (word_of_int (int k))"
    have uk: "unat (word_of_int (int k) :: uint32_t) = k" using k(3) by (simp add: unsigned_of_nat take_bit_nat_eq_self_iff)
    have j: "unat ?j = jam k (unat n)"
      using k(3) unat_shortShift64RightJam [of "word_of_int (int k)" n] unfolding word_less_nat_alt uk by simp
    have "2 ^ c * 2 ^ k = (2::nat) ^ 33" unfolding power_add [symmetric] using k by simp
    then have p: "unat n * 2 ^ c * 2 ^ k = unat n * 2 ^ 33" by (simp only: mult.assoc)
    have "2 ^ 63 * 2 ^ k \<le> unat n * 2 ^ 33" "unat n * 2 ^ 33 < 2 ^ 64 * 2 ^ k"
      using c(3,4) unfolding p [symmetric] by simp_all
    then have b: "2 ^ 30 \<le> jam k (unat n)" "jam k (unat n) < 2 ^ 31" by (simp_all add: jam_le_even jam_less_even)
    then have w: "unat (ucast ?j :: uint32_t) = jam k (unat n)" unfolding unat_ucast_mod j by simp
    have "agrees 6 (real (unat n) / 2 ^ k) (jam k (unat n))" by (rule agrees_jam [OF agrees_refl [of 0]]) simp_all
    moreover have "\<bar>v\<bar> = real (unat n) / 2 ^ k * 2 powi int k" by (simp add: v(1))
    ultimately have "op_rounds 23 255 zs (v * 2 ^ 149) s (softfloat_roundPackToF32 sign (0x9C + int k) (ucast ?j) s)"
      by (intro int_roundPackToF32 [where X = "real (unat n) / 2 ^ k"]) (use v0 v(2) b w k(3) in \<open>simp_all only: abs_of_nat, simp\<close>)
    moreover have "int c - 40 + 7 = - int k" using k by simp
    ultimately show ?thesis unfolding c(1) Let_def using right k(2) by simp
  qed
qed

lemma int64_to_f32_rounded:
  "op_rounds 23 255 False (real (unat u) * 2 ^ 149) s (ui64_to_f32 u s) \<and>
   op_rounds 23 255 False (real_of_int (sint i) * 2 ^ 149) s (i64_to_f32 i s)"
proof
  have zero: "op_rounds 23 255 False 0 s (0 :: uint32_t, s)"
    by (rule op_rounds_exact) (simp_all add: fl_real_def fl_mag_def fl_sign_def)
  have clz0: "softfloat_countLeadingZeros64 0 = 64" by code_simp
  show "op_rounds 23 255 False (real (unat u) * 2 ^ 149) s (ui64_to_f32 u s)"
  proof (cases "u = 0")
    case False
    then show ?thesis unfolding ui64_to_f32_def
      using mag64_to_f32_rounds [OF False, of "real (unat u)" False False s] by (simp only: abs_of_nat of_nat_less_0_iff if_True simp_thms)
  qed (simp add: ui64_to_f32_def clz0 zero)
  show "op_rounds 23 255 False (real_of_int (sint i) * 2 ^ 149) s (i64_to_f32 i s)"
  proof (cases "i = 0")
    case False
    then have "(if sint i < 0 then - i else i) \<noteq> 0" by simp
    with False show ?thesis unfolding i64_to_f32_def Let_def
      using mag64_to_f32_rounds [OF _ sint_abs [symmetric], of i "sint i < 0" False s, unfolded Let_def of_int_less_0_iff]
      by (simp only: simp_thms if_True)
  qed (simp add: i64_to_f32_def clz0 zero)
qed

text \<open>
  Property C17: converting an unsigned or signed 32-bit integer to single precision, or a 64-bit one to either precision, delivers the integer
  correctly rounded in the current mode and raises exactly the flags that result calls for.
\<close>

theorem int_to_float_correct:
  "op_rounds 23 255 False (real (unat u) * 2 ^ 149) s (ui32_to_f32 u s) \<and>
   op_rounds 23 255 False (real_of_int (sint i) * 2 ^ 149) s (i32_to_f32 i s) \<and>
   op_rounds 52 2047 False (real (unat ul) * 2 ^ 1074) s (ui64_to_f64 ul s) \<and>
   op_rounds 52 2047 False (real_of_int (sint il) * 2 ^ 1074) s (i64_to_f64 il s) \<and>
   op_rounds 23 255 False (real (unat ul) * 2 ^ 149) s (ui64_to_f32 ul s) \<and>
   op_rounds 23 255 False (real_of_int (sint il) * 2 ^ 149) s (i64_to_f32 il s)"
  using int_to_float_rounded [of u s i ul il] int64_to_f32_rounded [of ul s il] by blast

end
