(* ===== verification/Float_To_Int_Correct.thy ===== *)
theory Float_To_Int_Correct
  imports Float_To_Int Int_To_Float
begin

text \<open>
  Correctness of the conversions to integers. \<open>int_rounds\<close> is the specification: the magnitude is
  rounded to an integer in the given mode; a result out of range delivers the substitute
  integer and raises invalid, otherwise inexact is raised if asked for and the result is not exact. The routines
  work on a fixed-point significand; \<open>fixed\<close> says which significands stand for a magnitude.
\<close>

section \<open>The specification\<close>

definition int_rounds ::
  "int \<Rightarrow> int \<Rightarrow> int8_t \<Rightarrow> bool \<Rightarrow> bool \<Rightarrow> real \<Rightarrow> fp_state \<Rightarrow> int \<times> fp_state \<Rightarrow> bool" where
  "int_rounds lo hi mode exact sign x s res \<longleftrightarrow>
     (\<exists>m. rounds (mag_mode mode sign) real x m \<and>
       res = (let k = (if sign then - int m else int m)
              in if lo \<le> k \<and> k \<le> hi
                 then (k, if exact \<and> real m \<noteq> x then softfloat_raiseFlags softfloat_flag_inexact s else s)
                 else (if sign \<and> lo < 0 then lo else hi, softfloat_raiseFlags softfloat_flag_invalid s)))"

lemma int_rounds_unique:
  assumes "int_rounds lo hi mode exact sign x s res" and "int_rounds lo hi mode exact sign x s res'"
  shows "res = res'"
  using assms rounds_unique [OF real_strict_mono] unfolding int_rounds_def by metis

text \<open>The outcome of a rounding step that delivered the magnitude \<open>m\<close>.\<close>

definition int_outcome :: "int \<Rightarrow> int \<Rightarrow> bool \<Rightarrow> bool \<Rightarrow> nat \<Rightarrow> fp_state \<Rightarrow> int \<times> fp_state" where
  "int_outcome lo hi inexact sign m s =
     (let k = (if sign then - int m else int m)
      in if lo \<le> k \<and> k \<le> hi then (k, if inexact then softfloat_raiseFlags softfloat_flag_inexact s else s)
         else (if sign \<and> lo < 0 then lo else hi, softfloat_raiseFlags softfloat_flag_invalid s))"

lemma int_rounds_outcome:
  "int_rounds lo hi mode exact sign x s res \<longleftrightarrow>
     (\<exists>m. rounds (mag_mode mode sign) real x m \<and> res = int_outcome lo hi (exact \<and> real m \<noteq> x) sign m s)"
  unfolding int_rounds_def int_outcome_def ..

section \<open>Words\<close>

lemma high_mask:
  fixes w :: "'a::len word"
  assumes "k \<le> LENGTH('a)"
  shows "w AND NOT (2 ^ k - 1) = 0 \<longleftrightarrow> unat w < 2 ^ k"
proof -
  have "w AND NOT (2 ^ k - 1) = 0 \<longleftrightarrow> take_bit k w = w"
  proof -
    have "w = (w AND (2 ^ k - 1)) OR (w AND NOT (2 ^ k - 1))" by (rule bit_word_eqI) (auto simp: bit_simps)
    moreover have "(w AND (2 ^ k - 1)) AND NOT (2 ^ k - 1) = 0" by (rule bit_word_eqI) (auto simp: bit_simps)
    ultimately show ?thesis unfolding and_mask_take_bit by (metis or.right_neutral)
  qed
  also have "\<dots> \<longleftrightarrow> unat w mod 2 ^ k = unat w" by (metis unat_take_bit_mod word_unat_eq_iff)
  also have "\<dots> \<longleftrightarrow> unat w < 2 ^ k" by (metis mod_less mod_less_divisor zero_less_numeral zero_less_power)
  finally show ?thesis .
qed

lemma sint_in_range:
  fixes k :: int
  assumes "- (2 ^ (LENGTH('a) - 1)) \<le> k" and "k < 2 ^ (LENGTH('a) - 1)"
  shows "sint (word_of_int k :: 'a::len word) = k"
  using assms by (simp add: signed_of_int signed_take_bit_int_eq_self)

text \<open>Applying the sign to a magnitude: the sign test of the C code detects overflow.\<close>

lemma signed_result:
  fixes w :: "'a::len word" and sign :: bool
  defines "z \<equiv> (if sign then - w else w)" and "k \<equiv> (if sign then - int (unat w) else int (unat w))"
  shows "z \<noteq> 0 \<and> (sint z < 0) \<noteq> sign \<longleftrightarrow> \<not> (- (2 ^ (LENGTH('a) - 1)) \<le> k \<and> k \<le> 2 ^ (LENGTH('a) - 1) - 1)"
    and "- (2 ^ (LENGTH('a) - 1)) \<le> k \<Longrightarrow> k \<le> 2 ^ (LENGTH('a) - 1) - 1 \<Longrightarrow> sint z = k"
proof -
  define u P :: int where "u = int (unat w)" and "P = 2 ^ (LENGTH('a) - 1)"
  have p: "(2::int) ^ LENGTH('a) = 2 * P" by (simp add: P_def flip: power_Suc)
  have u: "0 \<le> u" "u < 2 * P" using unat_lt_pow [of w] unfolding p [symmetric] by (simp_all add: u_def flip: uint_nat)
  have k: "k = (if sign then - u else u)" by (simp only: k_def u_def)
  have z: "z = word_of_int k" by (simp add: z_def k_def)
  have in_range: "sint (word_of_int i :: 'a word) = i" if "- P \<le> i" "i < P" for i
    using that unfolding P_def by (rule sint_in_range)
  then show "- (2 ^ (LENGTH('a) - 1)) \<le> k \<Longrightarrow> k \<le> 2 ^ (LENGTH('a) - 1) - 1 \<Longrightarrow> sint z = k"
    unfolding z P_def by simp
  have "z \<noteq> 0 \<and> (sint z < 0) \<noteq> sign \<longleftrightarrow> \<not> (- P \<le> k \<and> k \<le> P - 1)"
  proof (cases "- P \<le> k \<and> k \<le> P - 1")
    case True
    then have s: "sint z = k" unfolding z by (intro in_range) simp_all
    then have "z = 0 \<or> k \<noteq> 0" by (metis sint_0 signed_eq_0_iff)
    with True s u show ?thesis by (auto simp: k)
  next
    case False
    define i where "i = (if sign then k + 2 * P else k - 2 * P)"
    have "z = word_of_int i" unfolding z i_def p [symmetric] by (cases sign) simp_all
    moreover have i: "- P \<le> i" "i < P" "i \<noteq> 0" "(i < 0) \<noteq> sign" using False u by (auto simp: k i_def)
    ultimately have "sint z = i" using in_range by simp
    with False i show ?thesis by auto
  qed
  then show "z \<noteq> 0 \<and> (sint z < 0) \<noteq> sign \<longleftrightarrow> \<not> (- (2 ^ (LENGTH('a) - 1)) \<le> k \<and> k \<le> 2 ^ (LENGTH('a) - 1) - 1)"
    unfolding P_def .
qed

section \<open>Rounding a fixed-point significand\<close>

lemma rnd_ge_even:
  assumes "0 < x" and "even b"
  shows "b \<le> rnd x md n \<longleftrightarrow> b \<le> (n + rinc x md) div 2 ^ x"
proof -
  have "b \<le> z - z mod 2 \<longleftrightarrow> b \<le> z" for z :: nat
    using assms(2) by (auto elim!: evenE) (metis div_le_mono dvd_def even_mult_iff minus_mod_eq_mult_div mult_le_mono2 nonzero_mult_div_cancel_left zero_neq_numeral)
  then show ?thesis by (simp add: rnd_def Let_def)
qed

text \<open>The increment the 32-bit routines add below seven fraction bits.\<close>

definition round_inc7 :: "int8_t \<Rightarrow> bool \<Rightarrow> uint64_t" where
  "round_inc7 roundingMode sign =
     (if roundingMode \<noteq> softfloat_round_nearest_even \<and> roundingMode \<noteq> softfloat_round_nearest_maxMag
      then if roundingMode = softfloat_round_minMag \<or> roundingMode = (if sign then softfloat_round_max else softfloat_round_min)
        then 0 else 0x7F
      else (0x40 :: uint64_t))"

lemma unat_round_inc7: "unat (round_inc7 roundingMode sign) = rinc 7 (mag_mode roundingMode sign)"
  by (auto simp: round_inc7_def mag_mode_def)

lemma mag_mode_even: "roundingMode = softfloat_round_nearest_even \<longleftrightarrow> mag_mode roundingMode sign = ToEven"
  by (auto simp: mag_mode_def)

text \<open>The first part of both 32-bit routines: the overflow test, and the rounded magnitude.\<close>

lemma round32_step:
  fixes sig inc :: uint64_t and roundingMode :: int8_t
  assumes "unat sig < 2 ^ 63" and inc: "unat inc = rinc 7 md" and ev: "P \<longleftrightarrow> md = ToEven"
  shows "(sig + inc) AND 0xFFFFFF8000000000 \<noteq> 0 \<longleftrightarrow> 2 ^ 32 \<le> rnd 7 md (unat sig)"
    and "rnd 7 md (unat sig) < 2 ^ 32 \<Longrightarrow>
      unat ((ucast (drop_bit 7 (sig + inc)) :: uint32_t) AND NOT (of_bool (sig AND 0x7F XOR 0x40 = 0 \<and> P))) = rnd 7 md (unat sig)"
    and "sig AND 0x7F = 0 \<longleftrightarrow> unat sig mod 2 ^ 7 = 0"
proof -
  have r: "rinc 7 md < 2 ^ 7" by (cases md) simp_all
  then have u: "unat (sig + inc) = unat sig + rinc 7 md" using assms(1) inc by (subst unat_add_small) simp_all
  have "(sig + inc) AND 0xFFFFFF8000000000 = 0 \<longleftrightarrow> unat (sig + inc) < 2 ^ 39"
  proof -
    have m: "(0xFFFFFF8000000000 :: uint64_t) = NOT (2 ^ 39 - 1)" by simp
    show ?thesis unfolding m by (rule high_mask) simp
  qed
  then show "(sig + inc) AND 0xFFFFFF8000000000 \<noteq> 0 \<longleftrightarrow> 2 ^ 32 \<le> rnd 7 md (unat sig)"
    unfolding u by (subst rnd_ge_even) (auto simp: less_eq_div_iff_mult_less_eq)
  have b: "unat (sig AND 0x7F) = unat sig mod 2 ^ 7"
    using and_mask_take_bit [of sig 7] by (simp add: unat_take_bit_mod)
  then show "sig AND 0x7F = 0 \<longleftrightarrow> unat sig mod 2 ^ 7 = 0" by (metis unat_eq_zero)
  have tie: "sig AND 0x7F XOR 0x40 = 0 \<longleftrightarrow> unat sig mod 2 ^ 7 = 2 ^ (7 - 1)"
    using xor_zero_iff [of "sig AND 0x7F" "0x40"] word_unat_eq_iff [of "sig AND 0x7F" "0x40"] unfolding b by simp
  assume "rnd 7 md (unat sig) < 2 ^ 32"
  then have "\<not> 2 ^ 32 \<le> (unat sig + rinc 7 md) div 2 ^ 7" by (subst rnd_ge_even [symmetric]) simp_all
  then have d: "unat (ucast (drop_bit 7 (sig + inc)) :: uint32_t) = (unat sig + rinc 7 md) div 2 ^ 7"
    by (simp add: unat_ucast_mod unat_drop_bit_div u)
  show "unat ((ucast (drop_bit 7 (sig + inc)) :: uint32_t) AND NOT (of_bool (sig AND 0x7F XOR 0x40 = 0 \<and> P))) = rnd 7 md (unat sig)"
    unfolding unat_clear_last d tie rnd_def Let_def using ev by (auto simp: conj_commute)
qed

lemma roundPackToUI32_outcome:
  assumes "unat sig < 2 ^ 63"
  shows "map_prod (\<lambda>z. int (unat z)) id (softfloat_roundPackToUI32 sign sig roundingMode exact s) =
    int_outcome 0 (2 ^ 32 - 1) (exact \<and> unat sig mod 2 ^ 7 \<noteq> 0) sign (rnd 7 (mag_mode roundingMode sign) (unat sig)) s"
proof -
  define m where "m = rnd 7 (mag_mode roundingMode sign) (unat sig)"
  note step = round32_step [OF assms unat_round_inc7 [of roundingMode sign] mag_mode_even [of roundingMode sign], folded m_def]
  show ?thesis
  proof (cases "2 ^ 32 \<le> m")
    case True
    then have "softfloat_roundPackToUI32 sign sig roundingMode exact s = (0xFFFFFFFF, softfloat_raiseFlags softfloat_flag_invalid s)"
      unfolding softfloat_roundPackToUI32_def Let_def round_inc7_def [symmetric] step(1) by simp
    with True show ?thesis by (simp add: int_outcome_def m_def [symmetric])
  next
    case False
    define z where "z = (ucast (drop_bit 7 (sig + round_inc7 roundingMode sign)) :: uint32_t) AND NOT (of_bool (sig AND 0x7F XOR 0x40 = 0 \<and> roundingMode = softfloat_round_nearest_even))"
    have z: "unat z = m" unfolding z_def by (rule step(2)) (use False in simp)
    then have z0: "z = 0 \<longleftrightarrow> m = 0" by (metis unat_eq_zero)
    have "softfloat_roundPackToUI32 sign sig roundingMode exact s =
        (if sign \<and> m \<noteq> 0 then (0xFFFFFFFF, softfloat_raiseFlags softfloat_flag_invalid s)
         else (z, if exact \<and> unat sig mod 2 ^ 7 \<noteq> 0 then orFlags softfloat_flag_inexact s else s))"
      unfolding softfloat_roundPackToUI32_def Let_def round_inc7_def [symmetric] step(1,3) z_def [symmetric] z0 using False by simp
    moreover have "uint z = int m" using z by (simp add: uint_nat)
    ultimately show ?thesis using False by (auto simp: int_outcome_def m_def [symmetric] Let_def)
  qed
qed

lemma roundPackToI32_outcome:
  assumes "unat sig < 2 ^ 63"
  shows "map_prod sint id (softfloat_roundPackToI32 sign sig roundingMode exact s) =
    int_outcome (- (2 ^ 31)) (2 ^ 31 - 1) (exact \<and> unat sig mod 2 ^ 7 \<noteq> 0) sign (rnd 7 (mag_mode roundingMode sign) (unat sig)) s"
proof -
  define m where "m = rnd 7 (mag_mode roundingMode sign) (unat sig)"
  note step = round32_step [OF assms unat_round_inc7 [of roundingMode sign] mag_mode_even [of roundingMode sign], folded m_def]
  have bad: "map_prod sint id (if sign then - 0x7FFFFFFF - 1 else 0x7FFFFFFF :: int32_t, t) = (if sign then - (2 ^ 31) else 2 ^ 31 - 1, t :: fp_state)" for t
    by simp
  show ?thesis
  proof (cases "2 ^ 32 \<le> m")
    case True
    then show ?thesis unfolding softfloat_roundPackToI32_def Let_def round_inc7_def [symmetric] step(1) by (auto simp: int_outcome_def m_def [symmetric])
  next
    case False
    define w where "w = (ucast (drop_bit 7 (sig + round_inc7 roundingMode sign)) :: uint32_t) AND NOT (of_bool (sig AND 0x7F XOR 0x40 = 0 \<and> roundingMode = softfloat_round_nearest_even))"
    have w: "unat w = m" unfolding w_def by (rule step(2)) (use False in simp)
    note sr = signed_result [of sign w, unfolded w]
    define z k where "z = (if sign then - w else w)" and "k = (if sign then - int m else int m)"
    have zk: "z \<noteq> 0 \<and> (sint z < 0) \<noteq> sign \<longleftrightarrow> \<not> (- (2 ^ 31) \<le> k \<and> k \<le> 2 ^ 31 - 1)"
      "- (2 ^ 31) \<le> k \<and> k \<le> 2 ^ 31 - 1 \<Longrightarrow> sint z = k"
      using sr unfolding z_def k_def by simp_all
    have "softfloat_roundPackToI32 sign sig roundingMode exact s =
        (if \<not> (- (2 ^ 31) \<le> k \<and> k \<le> 2 ^ 31 - 1)
         then (if sign then - 0x7FFFFFFF - 1 else 0x7FFFFFFF, softfloat_raiseFlags softfloat_flag_invalid s)
         else (z, if exact \<and> unat sig mod 2 ^ 7 \<noteq> 0 then orFlags softfloat_flag_inexact s else s))"
      unfolding softfloat_roundPackToI32_def Let_def round_inc7_def [symmetric] step(1,3) w_def [symmetric] z_def [symmetric] zk(1)
      using False by simp
    then show ?thesis using zk(2) unfolding int_outcome_def m_def [symmetric] k_def [symmetric] Let_def by (simp add: bad)
  qed
qed

text \<open>The 64-bit routines keep the fraction in a second word, and decide the increment from it.\<close>

definition increment64 :: "int8_t \<Rightarrow> bool \<Rightarrow> uint64_t \<Rightarrow> bool" where
  "increment64 roundingMode sign sig0 =
     (if roundingMode \<noteq> softfloat_round_nearest_even \<and> roundingMode \<noteq> softfloat_round_nearest_maxMag
      then roundingMode \<noteq> softfloat_round_minMag
           \<and> roundingMode = (if sign then softfloat_round_min else softfloat_round_max) \<and> sig0 \<noteq> 0
      else 0x8000000000000000 \<le> sig0)"

lemma valid_mode_cases:
  assumes "valid_mode roundingMode"
  shows "roundingMode = softfloat_round_nearest_even \<or> roundingMode = softfloat_round_minMag \<or>
    roundingMode = softfloat_round_min \<or> roundingMode = softfloat_round_max \<or> roundingMode = softfloat_round_nearest_maxMag"
proof -
  have "unat roundingMode \<le> 4" using assms by (simp add: valid_mode_def word_le_nat_alt)
  then have "unat roundingMode = 0 \<or> unat roundingMode = 1 \<or> unat roundingMode = 2 \<or> unat roundingMode = 3 \<or> unat roundingMode = 4" by auto
  then show ?thesis by (auto simp: word_unat_eq_iff)
qed

lemma increment64_carry:
  assumes "valid_mode roundingMode"
  shows "(n * 2 ^ 64 + unat sig0 + rinc 64 (mag_mode roundingMode sign)) div 2 ^ 64 = n + of_bool (increment64 roundingMode sign sig0)"
proof -
  have l: "unat sig0 < 2 ^ 64" using unat_lt64 [of sig0] by simp
  have c: "(unat sig0 + r) div 2 ^ 64 = of_bool (2 ^ 64 \<le> unat sig0 + r)" if "r < 2 ^ 64" for r :: nat
    using l that by (auto simp: div_nat_eqI)
  have r: "rinc 64 (mag_mode roundingMode sign) < 2 ^ 64" by (cases "mag_mode roundingMode sign") simp_all
  have "2 ^ 64 \<le> unat sig0 + rinc 64 (mag_mode roundingMode sign) \<longleftrightarrow> increment64 roundingMode sign sig0"
  proof -
    have nz: "Suc 0 \<le> unat sig0 \<longleftrightarrow> sig0 \<noteq> 0" by (simp add: Suc_le_eq unat_gt_0)
    show ?thesis using valid_mode_cases [OF assms] l
      by (elim disjE; cases sign) (auto simp add: increment64_def mag_mode_def word_le_nat_alt nz)
  qed
  then show ?thesis using c [OF r] by (simp add: add.assoc div_mult_self3)
qed

lemma round64_step:
  fixes sig64 sig0 :: uint64_t and sign :: bool
  assumes "valid_mode roundingMode"
  defines "n \<equiv> unat sig64 * 2 ^ 64 + unat sig0" and "inc \<equiv> increment64 roundingMode sign sig0"
    and "ev \<equiv> sig0 AND 0x7FFFFFFFFFFFFFFF = 0 \<and> roundingMode = softfloat_round_nearest_even"
  shows "inc \<and> sig64 + 1 = 0 \<longleftrightarrow> 2 ^ 64 \<le> rnd 64 (mag_mode roundingMode sign) n"
    and "\<not> (inc \<and> sig64 + 1 = 0) \<Longrightarrow>
      unat (if inc then (sig64 + 1) AND NOT (of_bool ev) else sig64) = rnd 64 (mag_mode roundingMode sign) n"
    and "sig0 = 0 \<longleftrightarrow> n mod 2 ^ 64 = 0"
proof -
  let ?md = "mag_mode roundingMode sign"
  have l: "unat sig0 < 2 ^ 64" "unat sig64 < 2 ^ 64" using unat_lt64 [of sig0] unat_lt64 [of sig64] by simp_all
  have nm: "n mod 2 ^ 64 = unat sig0" using l by (simp add: n_def)
  then show "sig0 = 0 \<longleftrightarrow> n mod 2 ^ 64 = 0" by (simp add: unat_eq_zero)
  have d: "(n + rinc 64 ?md) div 2 ^ 64 = unat sig64 + of_bool inc"
    unfolding n_def inc_def by (rule increment64_carry [OF assms(1)])
  have z: "sig64 + 1 = 0 \<longleftrightarrow> unat sig64 = 2 ^ 64 - 1"
    using l(2) unat_word_ariths(1) [of sig64 1] unat_eq_zero [of "sig64 + 1"] by (cases "unat sig64 = 2 ^ 64 - 1") simp_all
  show ov: "inc \<and> sig64 + 1 = 0 \<longleftrightarrow> 2 ^ 64 \<le> rnd 64 ?md n"
    using l(2) rnd_ge_even [of 64 "2 ^ 64" ?md n] unfolding d z by auto
  have tie: "ev \<and> inc \<longleftrightarrow> ?md = ToEven \<and> n mod 2 ^ 64 = 2 ^ (64 - 1)"
  proof -
    have "sig0 AND 0x7FFFFFFFFFFFFFFF = 0 \<longleftrightarrow> unat sig0 = 0 \<or> unat sig0 = 2 ^ 63" using mask_zero [of 63 sig0] by simp
    then show ?thesis unfolding nm ev_def inc_def increment64_def mag_mode_even [of roundingMode sign]
      by (auto simp: word_le_nat_alt mag_mode_def)
  qed
  assume no: "\<not> (inc \<and> sig64 + 1 = 0)"
  show "unat (if inc then (sig64 + 1) AND NOT (of_bool ev) else sig64) = rnd 64 ?md n"
  proof (cases inc)
    case True
    with no z l have "unat (sig64 + 1) = unat sig64 + 1" by (subst unat_add_small) auto
    with True tie show ?thesis unfolding rnd_def d Let_def by (simp add: unat_clear_last)
  next
    case False
    with tie show ?thesis unfolding rnd_def d Let_def by auto
  qed
qed

lemma roundPackToUI64_outcome:
  fixes sig64 sig0 :: uint64_t
  assumes "valid_mode roundingMode"
  defines "n \<equiv> unat sig64 * 2 ^ 64 + unat sig0"
  shows "map_prod (\<lambda>z. int (unat z)) id (softfloat_roundPackToUI64 sign sig64 sig0 roundingMode exact s) =
    int_outcome 0 (2 ^ 64 - 1) (exact \<and> n mod 2 ^ 64 \<noteq> 0) sign (rnd 64 (mag_mode roundingMode sign) n) s"
proof -
  define m where "m = rnd 64 (mag_mode roundingMode sign) n"
  define inc where "inc = increment64 roundingMode sign sig0"
  define t where "t = (sig64 + 1) AND NOT (of_bool (sig0 AND 0x7FFFFFFFFFFFFFFF = 0 \<and> roundingMode = softfloat_round_nearest_even))"
  define z where "z = (if inc then t else sig64)"
  note step = round64_step(1,2) [OF assms(1), where sign = sign and ?sig64.0 = sig64 and ?sig0.0 = sig0, folded n_def, folded m_def inc_def, folded t_def, folded z_def]
    round64_step(3) [OF assms(1), of sig0 sig64, folded n_def]
  have eq: "softfloat_roundPackToUI64 sign sig64 sig0 roundingMode exact s =
      (if inc \<and> sig64 + 1 = 0 \<or> sign \<and> z \<noteq> 0 then (0xFFFFFFFFFFFFFFFF, softfloat_raiseFlags softfloat_flag_invalid s)
       else (z, if exact \<and> sig0 \<noteq> 0 then orFlags softfloat_flag_inexact s else s))"
    unfolding softfloat_roundPackToUI64_def Let_def increment64_def [symmetric] inc_def [symmetric] t_def [symmetric] z_def by simp
  show ?thesis
  proof (cases "2 ^ 64 \<le> m")
    case True
    with step(1) eq show ?thesis by (simp add: int_outcome_def m_def [symmetric])
  next
    case False
    then have z: "unat z = m" using step(1,2) by simp
    then have z0: "z = 0 \<longleftrightarrow> m = 0" by (metis unat_eq_zero)
    have "uint z = int m" using z by (simp add: uint_nat)
    with False eq step(1,3) show ?thesis unfolding z0 by (auto simp: int_outcome_def m_def [symmetric] Let_def)
  qed
qed

lemma roundPackToI64_outcome:
  fixes sig64 sig0 :: uint64_t
  assumes "valid_mode roundingMode"
  defines "n \<equiv> unat sig64 * 2 ^ 64 + unat sig0"
  shows "map_prod sint id (softfloat_roundPackToI64 sign sig64 sig0 roundingMode exact s) =
    int_outcome (- (2 ^ 63)) (2 ^ 63 - 1) (exact \<and> n mod 2 ^ 64 \<noteq> 0) sign (rnd 64 (mag_mode roundingMode sign) n) s"
proof -
  define m where "m = rnd 64 (mag_mode roundingMode sign) n"
  define inc where "inc = increment64 roundingMode sign sig0"
  define t where "t = (sig64 + 1) AND NOT (of_bool (sig0 AND 0x7FFFFFFFFFFFFFFF = 0 \<and> roundingMode = softfloat_round_nearest_even))"
  define w where "w = (if inc then t else sig64)"
  define z k where "z = (if sign then - w else w)" and "k = (if sign then - int m else int m)"
  note step = round64_step(1,2) [OF assms(1), where sign = sign and ?sig64.0 = sig64 and ?sig0.0 = sig0, folded n_def, folded m_def inc_def, folded t_def, folded w_def]
    round64_step(3) [OF assms(1), of sig0 sig64, folded n_def]
  have eq: "softfloat_roundPackToI64 sign sig64 sig0 roundingMode exact s =
      (if inc \<and> sig64 + 1 = 0 \<or> z \<noteq> 0 \<and> (sint z < 0) \<noteq> sign
       then (if sign then - 0x7FFFFFFFFFFFFFFF - 1 else 0x7FFFFFFFFFFFFFFF, softfloat_raiseFlags softfloat_flag_invalid s)
       else (z, if exact \<and> sig0 \<noteq> 0 then orFlags softfloat_flag_inexact s else s))"
    unfolding softfloat_roundPackToI64_def Let_def increment64_def [symmetric] inc_def [symmetric] t_def [symmetric] z_def w_def by simp
  show ?thesis
  proof (cases "2 ^ 64 \<le> m")
    case True
    with step(1) eq show ?thesis by (auto simp: int_outcome_def m_def [symmetric])
  next
    case False
    then have w: "unat w = m" using step(1,2) by simp
    have zk: "z \<noteq> 0 \<and> (sint z < 0) \<noteq> sign \<longleftrightarrow> \<not> (- (2 ^ 63) \<le> k \<and> k \<le> 2 ^ 63 - 1)"
      "- (2 ^ 63) \<le> k \<and> k \<le> 2 ^ 63 - 1 \<Longrightarrow> sint z = k"
      using signed_result [of sign w, unfolded w] unfolding z_def k_def by simp_all
    show ?thesis using eq False step(1,3) zk(2) unfolding zk(1) int_outcome_def m_def [symmetric] k_def [symmetric] Let_def by simp
  qed
qed

section \<open>From a floating-point number to a fixed-point significand\<close>

lemma agrees_tiny:
  assumes "0 < X" and "X < 2 ^ q" and "0 < q"
  shows "agrees q X 1"
proof (rule agreesI)
  fix b :: nat
  have g: "2 \<le> (2::nat) ^ q" using assms(3) self_le_power [of "2::nat" q] by simp
  show "X < real (b * 2 ^ q) \<longleftrightarrow> 1 < b * 2 ^ q" "X = real (b * 2 ^ q) \<longleftrightarrow> 1 = b * 2 ^ q"
  proof -
    consider "b = 0" | "1 \<le> b" by linarith
    then have "X < real (b * 2 ^ q) \<and> 1 < b * 2 ^ q \<or> b = 0"
    proof cases
      case 2
      then have "1 * 2 ^ q \<le> b * 2 ^ q" by (rule mult_le_mono1)
      then have "2 ^ q \<le> b * 2 ^ q" by (simp only: mult_1)
      then have "real (2 ^ q) \<le> real (b * 2 ^ q)" "1 < b * 2 ^ q" using g by (simp_all only: of_nat_le_iff)
      moreover have "X < real (2 ^ q)" using assms(2) by simp
      ultimately show ?thesis by (simp only: less_le_trans simp_thms)
    qed simp
    then show "X < real (b * 2 ^ q) \<longleftrightarrow> 1 < b * 2 ^ q" "X = real (b * 2 ^ q) \<longleftrightarrow> 1 = b * 2 ^ q"
      using assms(1) by auto
  qed
qed

lemma agrees_bool:
  assumes "X = 0 \<longleftrightarrow> n = 0" and "0 \<le> X" and "X < 2 ^ q" and "0 < q"
  shows "agrees q X (of_bool (n \<noteq> 0))"
  using assms agrees_tiny [of X q] agrees_refl [of q 0] by (cases "n = 0") simp_all

context float_format
begin

text \<open>The significand with its hidden bit, as the conversion routines take it apart.\<close>

definition sig_of :: "'a word \<Rightarrow> 'a word" where
  "sig_of a = (if expUI a \<noteq> 0 then fracUI a OR 2 ^ f else fracUI a)"

lemma sig_of_laws:
  shows "unat (sig_of a) < 2 ^ Suc f" and "expUI a \<noteq> 0 \<Longrightarrow> 2 ^ f \<le> unat (sig_of a)"
    and "real (mval f (fl_mag a)) = real (unat (sig_of a)) * 2 powi (max (expUI a) 1 - 1)"
    and "sig_of a = 0 \<longleftrightarrow> fl_mag a = 0"
proof -
  have "unat (sig_of a) < 2 ^ Suc f \<and> (expUI a \<noteq> 0 \<longrightarrow> 2 ^ f \<le> unat (sig_of a)) \<and>
      real (mval f (fl_mag a)) = real (unat (sig_of a)) * 2 powi (max (expUI a) 1 - 1) \<and>
      (sig_of a = 0 \<longleftrightarrow> fl_mag a = 0)"
  proof (cases "expUI a = 0")
    case True
    then show ?thesis using frac_range [of a] mval_subnormal [OF True] zero_iff [of a] by (simp add: sig_of_def)
  next
    case False
    then have e: "0 < expUI a" using exp_range(1) [of a] by simp
    have fl: "f < LENGTH('a)"
    proof -
      have "(2::nat) ^ f < 2 ^ Suc (LENGTH('a) - 1)" unfolding power_Suc width [symmetric] by simp
      then show ?thesis by simp
    qed
    have u: "unat (sig_of a) = unat (fracUI a) + 2 ^ f"
      using or_hidden_bit(2) [OF frac_range fl, of a] False by (simp add: sig_of_def)
    have mx: "max (expUI a) 1 - 1 = expUI a - 1" using e by simp
    have "(2::real) powi (expUI a - 1) = 2 ^ (nat (expUI a) - 1)"
      using e powi_minus_nat [of "expUI a" 1] by (simp add: power_eq_if)
    then have "real (mval f (fl_mag a)) = real (unat (sig_of a)) * 2 powi (max (expUI a) 1 - 1)"
      unfolding mval_normal [OF e] u mx by (simp add: add.commute)
    moreover have "sig_of a \<noteq> 0" using u by (intro notI) simp
    ultimately show ?thesis using False u frac_range [of a] zero_iff [of a] by simp
  qed
  then show "unat (sig_of a) < 2 ^ Suc f" "expUI a \<noteq> 0 \<Longrightarrow> 2 ^ f \<le> unat (sig_of a)"
    "real (mval f (fl_mag a)) = real (unat (sig_of a)) * 2 powi (max (expUI a) 1 - 1)" "sig_of a = 0 \<longleftrightarrow> fl_mag a = 0"
    by blast+
qed

text \<open>Scaled by \<open>2 ^ (l + 1 - C)\<close>, the magnitude is the significand shifted left by \<open>l\<close> and by the exponent relative to \<open>C\<close>.\<close>

lemma scaled_value:
  assumes "expUI a \<noteq> 0"
  shows "real (mval f (fl_mag a)) * 2 ^ l * 2 powi (1 - int C) = real (unat (sig_of a) * 2 ^ l) * 2 powi (expUI a - int C)"
proof -
  have mx: "max (expUI a) 1 - 1 + (1 - int C) = expUI a - int C" using assms exp_range(1) [of a] by simp
  show ?thesis unfolding sig_of_laws(3) mx [symmetric] powi_mult [symmetric] by simp
qed

lemma scaled_subnormal:
  assumes "expUI a = 0" and "f + l + 2 \<le> C" and "0 < q"
  shows "agrees q (real (mval f (fl_mag a)) * 2 ^ l * 2 powi (1 - int C)) (of_bool (unat (sig_of a) * 2 ^ l \<noteq> 0))"
proof (rule agrees_bool)
  let ?N = "unat (sig_of a) * 2 ^ l"
  have X: "real (mval f (fl_mag a)) * 2 ^ l * 2 powi (1 - int C) = real ?N * 2 powi (1 - int C)"
    unfolding sig_of_laws(3) by (simp add: assms(1))
  show "real (mval f (fl_mag a)) * 2 ^ l * 2 powi (1 - int C) = 0 \<longleftrightarrow> ?N = 0"
    unfolding X mult_eq_0_iff of_nat_eq_0_iff by simp
  show "0 \<le> real (mval f (fl_mag a)) * 2 ^ l * 2 powi (1 - int C)" by simp
  have "?N < 2 ^ Suc f * 2 ^ l" using sig_of_laws(1) [of a] by simp
  also have "\<dots> = 2 ^ (f + l + 1)" by (simp add: power_add)
  also have "\<dots> \<le> 2 ^ (C - 1)" using assms(2) by (intro power_increasing) simp_all
  finally have "real ?N < real (2 ^ (C - 1))" by (simp only: of_nat_less_iff)
  moreover have "(2::real) powi (1 - int C) = 1 / 2 ^ (C - 1)"
  proof -
    have "1 - int C = - int (C - 1)" using assms(2) by simp
    then show ?thesis by (simp only: power_int_minus power_int_of_nat inverse_eq_divide)
  qed
  ultimately have "real ?N * 2 powi (1 - int C) < 1" by simp
  also have "1 \<le> (2::real) ^ q" by simp
  finally show "real (mval f (fl_mag a)) * 2 ^ l * 2 powi (1 - int C) < 2 ^ q" unfolding X .
qed (rule assms(3))

lemma scaled_jam:
  assumes "expUI a \<le> int C" and "f + l + 2 \<le> C" and "0 < q"
  shows "agrees q (real (mval f (fl_mag a)) * 2 ^ l * 2 powi (1 - int C)) (jam (nat (int C - expUI a)) (unat (sig_of a) * 2 ^ l))"
proof (cases "expUI a = 0")
  case True
  have "unat (sig_of a) * 2 ^ l < 2 ^ Suc f * 2 ^ l" using sig_of_laws(1) [of a] by simp
  also have "\<dots> = 2 ^ (f + l + 1)" by (simp add: power_add)
  also have "\<dots> \<le> 2 ^ C" using assms(2) by (intro power_increasing) simp_all
  finally show ?thesis using scaled_subnormal [OF True assms(2,3)] True by (simp add: jam_large)
next
  case False
  define c where "c = nat (int C - expUI a)"
  have "expUI a - int C = - int c" using assms(1) by (simp add: c_def)
  then show ?thesis
    unfolding scaled_value [OF False] c_def [symmetric]
    using agrees_jam [OF agrees_refl [of 0 "unat (sig_of a) * 2 ^ l"], of q c] assms(3)
    by (simp add: power_int_minus divide_inverse)
qed

lemma scaled_big:
  assumes "int C < expUI a"
  shows "real (mval f (fl_mag a)) * 2 ^ l * 2 powi (1 - int C) = real (unat (sig_of a) * 2 ^ l * 2 ^ nat (expUI a - int C))"
    and "2 ^ (f + l) \<le> unat (sig_of a) * 2 ^ l"
proof -
  have nz: "expUI a \<noteq> 0" using assms by simp
  define c where "c = nat (expUI a - int C)"
  have "expUI a - int C = int c" using assms by (simp add: c_def)
  then show "real (mval f (fl_mag a)) * 2 ^ l * 2 powi (1 - int C) = real (unat (sig_of a) * 2 ^ l * 2 ^ nat (expUI a - int C))"
    unfolding scaled_value [OF nz] c_def [symmetric] by simp
  show "2 ^ (f + l) \<le> unat (sig_of a) * 2 ^ l" using sig_of_laws(2) [OF nz] by (simp add: power_add)
qed

end


lemma int_rounds_small:
  assumes "0 < k" and "agrees (k - 1) X n" and "x = X / 2 ^ k"
  shows "int_rounds lo hi mode exact sign x s (int_outcome lo hi (exact \<and> n mod 2 ^ k \<noteq> 0) sign (rnd k (mag_mode mode sign) n) s)"
  unfolding int_rounds_outcome
  by (intro exI [of _ "rnd k (mag_mode mode sign) n"] conjI)
    (use rnd_rounds [OF assms(1,2)] rnd_exact_iff [OF assms(1,2)] in \<open>simp_all only: assms(3)\<close>)

text \<open>Out of range, the outcome does not depend on the magnitude.\<close>

lemma int_outcome_overflow:
  assumes "hi < 2 ^ p" and "- lo < 2 ^ p" and "2 ^ p \<le> m"
  shows "int_outcome lo hi b sign m s = (if sign \<and> lo < 0 then lo else hi, softfloat_raiseFlags softfloat_flag_invalid s)"
proof -
  have "int (2 ^ p) \<le> int m" using assms(3) by (simp only: of_nat_le_iff)
  then have "2 ^ p \<le> int m" by simp
  then have "\<not> (lo \<le> (if sign then - int m else int m) \<and> (if sign then - int m else int m) \<le> hi)"
    using assms(1,2) by (cases sign) (simp_all only: if_True if_False, linarith+)
  then show ?thesis unfolding int_outcome_def Let_def by (simp only: if_False)
qed

text \<open>The significand is the magnitude with \<open>k\<close> fraction bits, or both are beyond the range.\<close>

lemma int_rounds_scaled:
  fixes ex C :: int
  assumes k: "0 < k" and X: "x = X / 2 ^ k" and small: "ex \<le> C \<Longrightarrow> agrees (k - 1) X n"
    and big: "C < ex \<Longrightarrow> X = real (n * 2 ^ c)" "C < ex \<Longrightarrow> 2 ^ p * 2 ^ k \<le> n"
    and p: "hi < 2 ^ p" "- lo < 2 ^ p"
  shows "int_rounds lo hi mode exact sign x s (int_outcome lo hi (exact \<and> n mod 2 ^ k \<noteq> 0) sign (rnd k (mag_mode mode sign) n) s)"
proof (cases "ex \<le> C")
  case True
  then show ?thesis by (intro int_rounds_small [OF k _ X] small)
next
  case False
  then have b: "X = real (n * 2 ^ c)" "2 ^ p * 2 ^ k \<le> n" using big by simp_all
  have "2 ^ p * 2 ^ k * 1 \<le> n * 2 ^ c" using b(2) by (rule mult_le_mono) simp
  then have "2 ^ p * 2 ^ k \<le> n * 2 ^ c" by (simp only: mult_1_right)
  note ge = rnd_ge [OF k b(2), of "mag_mode mode sign"] rnd_ge [OF k this, of "mag_mode mode sign"]
  show ?thesis
    using int_rounds_small [OF k _ X, of "n * 2 ^ c" lo hi mode exact sign s]
    unfolding int_outcome_overflow [OF p ge(1)] int_outcome_overflow [OF p ge(2)] by (simp only: b(1) agrees_refl)
qed

section \<open>The general routines, to 32 bits\<close>

text \<open>The fixed-point significand with seven fraction bits.\<close>

definition f32_fixed7 :: "uint32_t \<Rightarrow> uint64_t" where
  "f32_fixed7 a =
     (let sig64 = push_bit 32 (ucast (f32.sig_of a)); shiftCount = 0xAF - expF32UI a
      in if 0 < shiftCount then softfloat_shift64RightJam sig64 (word_of_int shiftCount) else sig64)"

definition f64_fixed7 :: "uint64_t \<Rightarrow> uint64_t" where
  "f64_fixed7 a =
     (let shiftCount = 0x42C - expF64UI a
      in if 0 < shiftCount then softfloat_shift64RightJam (f64.sig_of a) (word_of_int shiftCount) else f64.sig_of a)"

lemma unat_shift_exp:
  assumes "0 < k" and "k < 2 ^ 32"
  shows "unat (softfloat_shift64RightJam w (word_of_int k)) = jam (nat k) (unat w)"
proof -
  have u: "unat (word_of_int k :: uint32_t) = nat k"
    using assms by (simp add: uint_word_of_int nat_eq_iff2 flip: nat_uint_eq) 
  then have "(word_of_int k :: uint32_t) \<noteq> 0" using assms by (intro notI) simp
  then show ?thesis using unat_shift64RightJam u by simp
qed

lemma unat_fixed7:
  "unat (f32_fixed7 a) = jam (nat (175 - expF32UI a)) (unat (f32.sig_of a) * 2 ^ 32)"
  "unat (f32_fixed7 a) < 2 ^ 63"
  "unat (f64_fixed7 b) = jam (nat (1068 - expF64UI b)) (unat (f64.sig_of b) * 2 ^ 0)"
  "unat (f64_fixed7 b) < 2 ^ 63"
proof -
  have b: "jam c n < 2 ^ 63" if "n < 2 ^ 63" for c n :: nat
  proof -
    have "n * 1 < 2 ^ 63 * 2 ^ c" using that by (rule mult_less_le_imp_less) simp_all
    then show ?thesis by (simp add: jam_less_even)
  qed
  note g = f32.sig_of_laws(1) [of a] f64.sig_of_laws(1) [of b]
  have u: "unat (push_bit 32 (ucast (f32.sig_of a)) :: uint64_t) = unat (f32.sig_of a) * 2 ^ 32"
    by (rule unat_push_ucast) (use g in simp)
  note e = f32.exp_range [of a] f64.exp_range [of b]
  show 1: "unat (f32_fixed7 a) = jam (nat (175 - expF32UI a)) (unat (f32.sig_of a) * 2 ^ 32)"
    using e unat_shift_exp [of "175 - expF32UI a" "push_bit 32 (ucast (f32.sig_of a))"] u by (simp add: f32_fixed7_def Let_def)
  show 2: "unat (f64_fixed7 b) = jam (nat (1068 - expF64UI b)) (unat (f64.sig_of b) * 2 ^ 0)"
    using e unat_shift_exp [of "1068 - expF64UI b" "f64.sig_of b"] by (simp add: f64_fixed7_def Let_def)
  show "unat (f32_fixed7 a) < 2 ^ 63" unfolding 1 by (rule b) (use g in simp)
  show "unat (f64_fixed7 b) < 2 ^ 63" unfolding 2 by (rule b) (use g in simp)
qed

lemma fl_real_abs: "\<bar>fl_real f a\<bar> = real (mval f (fl_mag a))"
  by (simp add: fl_real_def abs_mult)

lemma scale_units:
  "m / 2 ^ 149 = m * 2 ^ 32 * 2 powi (1 - int 175) / 2 ^ 7"
  "m / 2 ^ 1074 = m * 2 ^ 0 * 2 powi (1 - int 1068) / (2::real) ^ 7"
  by (simp_all add: power_int_minus)

lemma fixed7_rounds:
  assumes "hi < 2 ^ 32" and "- lo < 2 ^ 32"
  shows "int_rounds lo hi mode exact sign (\<bar>fl_real 23 a\<bar> / 2 ^ 149) s
      (int_outcome lo hi (exact \<and> unat (f32_fixed7 a) mod 2 ^ 7 \<noteq> 0) sign (rnd 7 (mag_mode mode sign) (unat (f32_fixed7 a))) s)"
    and "int_rounds lo hi mode exact sign (\<bar>fl_real 52 b\<bar> / 2 ^ 1074) s
      (int_outcome lo hi (exact \<and> unat (f64_fixed7 b) mod 2 ^ 7 \<noteq> 0) sign (rnd 7 (mag_mode mode sign) (unat (f64_fixed7 b))) s)"
proof -
  note J = f32.scaled_jam [of a 175 32 6] f64.scaled_jam [of b 1068 0 6]
  note B = f32.scaled_big [of 175 a 32] f64.scaled_big [of 1068 b 0]
  show "int_rounds lo hi mode exact sign (\<bar>fl_real 23 a\<bar> / 2 ^ 149) s
      (int_outcome lo hi (exact \<and> unat (f32_fixed7 a) mod 2 ^ 7 \<noteq> 0) sign (rnd 7 (mag_mode mode sign) (unat (f32_fixed7 a))) s)"
    unfolding fl_real_abs unat_fixed7(1)
    by (rule int_rounds_scaled [where ex = "expF32UI a" and C = "int 175" and c = "nat (expF32UI a - int 175)", OF _ scale_units(1) _ _ _ assms])
      (use J(1) B(1,2) in \<open>simp_all add: of_nat_power\<close>)
  show "int_rounds lo hi mode exact sign (\<bar>fl_real 52 b\<bar> / 2 ^ 1074) s
      (int_outcome lo hi (exact \<and> unat (f64_fixed7 b) mod 2 ^ 7 \<noteq> 0) sign (rnd 7 (mag_mode mode sign) (unat (f64_fixed7 b))) s)"
    unfolding fl_real_abs unat_fixed7(3)
    by (rule int_rounds_scaled [where ex = "expF64UI b" and C = "int 1068" and c = "nat (expF64UI b - int 1068)", OF _ scale_units(2) _ _ _ assms])
      (use J(2) B(3,4) in \<open>simp_all add: of_nat_power\<close>)
qed

lemma to_32_scheme:
  "f32_to_ui32 a mode exact s = softfloat_roundPackToUI32 (fl_sign a) (f32_fixed7 a) mode exact s"
  "f64_to_ui32 b mode exact s = softfloat_roundPackToUI32 (fl_sign b) (f64_fixed7 b) mode exact s"
  "f32_to_i32 a mode exact s = softfloat_roundPackToI32 (\<not> fl_nan 23 255 a \<and> fl_sign a) (f32_fixed7 a) mode exact s"
  "f64_to_i32 b mode exact s = softfloat_roundPackToI32 (\<not> fl_nan 52 2047 b \<and> fl_sign b) (f64_fixed7 b) mode exact s"
  unfolding fl_nan_def f32.nan_iff f64.nan_iff
  by (simp_all add: f32_to_ui32_def f64_to_ui32_def f32_to_i32_def f64_to_i32_def f32_fixed7_def f64_fixed7_def
      f32.sig_of_def f64.sig_of_def Let_def f32.sign_law f64.sign_law cong: if_cong)

lemma to_32_rounds:
  "int_rounds 0 (2 ^ 32 - 1) mode exact (fl_sign a) (\<bar>fl_real 23 a\<bar> / 2 ^ 149) s (map_prod (\<lambda>z. int (unat z)) id (f32_to_ui32 a mode exact s))"
  "\<not> fl_nan 23 255 a \<Longrightarrow> int_rounds (- (2 ^ 31)) (2 ^ 31 - 1) mode exact (fl_sign a) (\<bar>fl_real 23 a\<bar> / 2 ^ 149) s (map_prod sint id (f32_to_i32 a mode exact s))"
  "int_rounds 0 (2 ^ 32 - 1) mode exact (fl_sign b) (\<bar>fl_real 52 b\<bar> / 2 ^ 1074) s (map_prod (\<lambda>z. int (unat z)) id (f64_to_ui32 b mode exact s))"
  "\<not> fl_nan 52 2047 b \<Longrightarrow> int_rounds (- (2 ^ 31)) (2 ^ 31 - 1) mode exact (fl_sign b) (\<bar>fl_real 52 b\<bar> / 2 ^ 1074) s (map_prod sint id (f64_to_i32 b mode exact s))"
proof -
  have c: "\<not> P \<Longrightarrow> (\<not> P \<and> Q) = Q" for P Q by simp
  note U = roundPackToUI32_outcome [OF unat_fixed7(2)] roundPackToUI32_outcome [OF unat_fixed7(4)]
  note I = roundPackToI32_outcome [OF unat_fixed7(2)] roundPackToI32_outcome [OF unat_fixed7(4)]
  show "int_rounds 0 (2 ^ 32 - 1) mode exact (fl_sign a) (\<bar>fl_real 23 a\<bar> / 2 ^ 149) s (map_prod (\<lambda>z. int (unat z)) id (f32_to_ui32 a mode exact s))"
    unfolding to_32_scheme U by (rule fixed7_rounds) simp_all
  show "int_rounds 0 (2 ^ 32 - 1) mode exact (fl_sign b) (\<bar>fl_real 52 b\<bar> / 2 ^ 1074) s (map_prod (\<lambda>z. int (unat z)) id (f64_to_ui32 b mode exact s))"
    unfolding to_32_scheme U by (rule fixed7_rounds) simp_all
  show "int_rounds (- (2 ^ 31)) (2 ^ 31 - 1) mode exact (fl_sign a) (\<bar>fl_real 23 a\<bar> / 2 ^ 149) s (map_prod sint id (f32_to_i32 a mode exact s))"
    if "\<not> fl_nan 23 255 a" unfolding to_32_scheme c [OF that] I by (rule fixed7_rounds) simp_all
  show "int_rounds (- (2 ^ 31)) (2 ^ 31 - 1) mode exact (fl_sign b) (\<bar>fl_real 52 b\<bar> / 2 ^ 1074) s (map_prod sint id (f64_to_i32 b mode exact s))"
    if "\<not> fl_nan 52 2047 b" unfolding to_32_scheme c [OF that] I by (rule fixed7_rounds) simp_all
qed

text \<open>
  Property C14: converting a finite single or double-precision number to an unsigned or signed 32-bit
  integer rounds it to an integer in the requested mode; an integer out of range yields the substitute
  value and the invalid flag, an inexact one raises inexact when asked for.
\<close>

theorem float_to_int32_correct:
  assumes "fl_mag a < 255 * 2 ^ 23" and "fl_mag b < 2047 * 2 ^ 52"
  shows "int_rounds 0 (2 ^ 32 - 1) mode exact (fl_sign a) (\<bar>fl_real 23 a\<bar> / 2 ^ 149) s
      (map_prod (\<lambda>z. int (unat z)) id (f32_to_ui32 a mode exact s)) \<and>
    int_rounds (- (2 ^ 31)) (2 ^ 31 - 1) mode exact (fl_sign a) (\<bar>fl_real 23 a\<bar> / 2 ^ 149) s
      (map_prod sint id (f32_to_i32 a mode exact s)) \<and>
    int_rounds 0 (2 ^ 32 - 1) mode exact (fl_sign b) (\<bar>fl_real 52 b\<bar> / 2 ^ 1074) s
      (map_prod (\<lambda>z. int (unat z)) id (f64_to_ui32 b mode exact s)) \<and>
    int_rounds (- (2 ^ 31)) (2 ^ 31 - 1) mode exact (fl_sign b) (\<bar>fl_real 52 b\<bar> / 2 ^ 1074) s
      (map_prod sint id (f64_to_i32 b mode exact s))"
  using assms to_32_rounds by (simp add: fl_nan_def)

theorem float_to_int32_correct_witness:
  "int_rounds (- (2 ^ 31)) (2 ^ 31 - 1) 0 True True (\<bar>fl_real 23 (0xC0200000 :: uint32_t)\<bar> / 2 ^ 149) init_state
      (map_prod sint id (f32_to_i32 0xC0200000 0 True init_state)) \<and>
   map_prod sint id (f32_to_i32 0xC0200000 0 True init_state) = (- 2, softfloat_raiseFlags softfloat_flag_inexact init_state)"
proof
  show "int_rounds (- (2 ^ 31)) (2 ^ 31 - 1) 0 True True (\<bar>fl_real 23 (0xC0200000 :: uint32_t)\<bar> / 2 ^ 149) init_state
      (map_prod sint id (f32_to_i32 0xC0200000 0 True init_state))"
    using float_to_int32_correct [of "0xC0200000" 0 0 True init_state] by (simp add: fl_mag_def fl_sign_def)
  show "map_prod sint id (f32_to_i32 0xC0200000 0 True init_state) = (- 2, softfloat_raiseFlags softfloat_flag_inexact init_state)"
    by code_simp
qed

section \<open>The general routines, to 64 bits\<close>

text \<open>A right shift into a second word keeps the value, up to a sticky bit once less than half remains.\<close>

lemma shift64Extra_agrees:
  fixes a :: uint64_t and c :: int
  assumes "0 < c" and "c < 2 ^ 32"
  defines "z \<equiv> softfloat_shift64ExtraRightJam a 0 (word_of_int c)"
  shows "agrees 63 (real (unat a * 2 ^ 64) / 2 ^ nat c) (unat (x64_v z) * 2 ^ 64 + unat (x64_extra z))"
    and "64 < c \<Longrightarrow> unat (x64_v z) * 2 ^ 64 + unat (x64_extra z) = of_bool (unat a \<noteq> 0)"
proof -
  have u: "unat (word_of_int c :: uint32_t) = nat c"
    using assms by (simp add: uint_word_of_int nat_eq_iff2 flip: nat_uint_eq)
  have lt: "(word_of_int c :: uint32_t) < 64 \<longleftrightarrow> c < 64" "(word_of_int c :: uint32_t) = 64 \<longleftrightarrow> c = 64"
    using assms(1) by (simp_all add: word_less_nat_alt word_unat_eq_iff u nat_less_iff nat_eq_iff)
  have al: "unat a < 2 ^ 64" using unat_lt64 [of a] by simp
  show far: "unat (x64_v z) * 2 ^ 64 + unat (x64_extra z) = of_bool (unat a \<noteq> 0)" if "64 < c"
    using that unfolding z_def softfloat_shift64ExtraRightJam_def by (simp add: lt Let_def unat_eq_zero)
  show "agrees 63 (real (unat a * 2 ^ 64) / 2 ^ nat c) (unat (x64_v z) * 2 ^ 64 + unat (x64_extra z))"
  proof (cases "c \<le> 64")
    case True
    then have nc: "nat c \<le> 64" by simp
    have "unat (x64_v z) * 2 ^ 64 + unat (x64_extra z) = unat a * 2 ^ (64 - nat c)"
    proof (cases "c = 64")
      case True
      then show ?thesis unfolding z_def softfloat_shift64ExtraRightJam_def by (simp add: lt Let_def)
    next
      case False
      with True have c: "c < 64" by simp
      define d where "d = nat c"
      have d: "0 < d" "d < 64" "unat (word_of_int c :: uint32_t) = d" using assms(1) c u by (simp_all add: d_def)
      then have neg: "neg_count (word_of_int c) 63 = 64 - d" using neg_count_eq64 [of "word_of_int c"] by simp
      have z: "x64_v z = drop_bit d a" "x64_extra z = push_bit (64 - d) a"
        unfolding z_def softfloat_shift64ExtraRightJam_def using c by (simp_all add: lt Let_def d(3) neg)
      have p: "(2::nat) ^ 64 = 2 ^ d * 2 ^ (64 - d)" using d(2) by (simp flip: power_add)
      have "unat a * 2 ^ (64 - d) mod 2 ^ 64 = unat a mod 2 ^ d * 2 ^ (64 - d)" unfolding p by (simp add: mult_mod_left)
      then have "unat (x64_v z) * 2 ^ 64 + unat (x64_extra z) = unat a div 2 ^ d * (2 ^ d * 2 ^ (64 - d)) + unat a mod 2 ^ d * 2 ^ (64 - d)"
        unfolding z unat_drop_bit_div unat_push_bit_mod p [symmetric] by simp
      also have "\<dots> = (unat a div 2 ^ d * 2 ^ d + unat a mod 2 ^ d) * 2 ^ (64 - d)" by (simp only: add_mult_distrib mult.assoc)
      finally show ?thesis unfolding div_mult_mod_eq d_def .
    qed
    moreover have "real (unat a * 2 ^ 64) / 2 ^ nat c = real (unat a * 2 ^ (64 - nat c))"
    proof -
      have "unat a * 2 ^ 64 = unat a * 2 ^ (64 - nat c) * 2 ^ nat c" using nc by (simp add: mult.assoc flip: power_add)
      then have "real (unat a * 2 ^ 64) = real (unat a * 2 ^ (64 - nat c)) * 2 ^ nat c" by (simp only: of_nat_mult of_nat_power of_nat_numeral)
      then show ?thesis by (simp only: nonzero_mult_div_cancel_right power_not_zero zero_neq_numeral not_False_eq_True)
    qed
    ultimately show ?thesis by (simp only: agrees_refl)
  next
    case False
    then have c: "64 < c" by simp
    have "unat a * 2 ^ 64 < 2 ^ 63 * 2 ^ 65" using al by simp
    also have "\<dots> \<le> 2 ^ 63 * 2 ^ nat c" using c by (intro mult_le_mono2 power_increasing) simp_all
    finally have "real (unat a * 2 ^ 64) < real (2 ^ 63 * 2 ^ nat c)" by (simp only: of_nat_less_iff)
    then have "real (unat a * 2 ^ 64) / 2 ^ nat c < 2 ^ 63" by (simp only: of_nat_mult of_nat_power of_nat_numeral pos_divide_less_eq zero_less_power zero_less_numeral)
    moreover have "real (unat a * 2 ^ 64) / 2 ^ nat c = 0 \<longleftrightarrow> unat a = 0" unfolding divide_eq_0_iff of_nat_eq_0_iff by simp
    moreover have "0 \<le> real (unat a * 2 ^ 64) / 2 ^ nat c" by (rule divide_nonneg_nonneg, rule of_nat_0_le_iff) simp
    ultimately show ?thesis unfolding far [OF c] by (intro agrees_bool) simp_all
  qed
qed


text \<open>The integer and fraction words of the 64-bit routines, when they do not report overflow at once.\<close>

definition f32_fixed64 :: "uint32_t \<Rightarrow> uint64_extra" where
  "f32_fixed64 a =
     (let sig64 = push_bit 40 (ucast (f32.sig_of a)); shiftCount = 0xBE - expF32UI a
      in if shiftCount \<noteq> 0 then softfloat_shift64ExtraRightJam sig64 0 (word_of_int shiftCount)
         else \<lparr>x64_v = sig64, x64_extra = 0\<rparr>)"

definition f64_fixed64 :: "uint64_t \<Rightarrow> uint64_extra" where
  "f64_fixed64 a =
     (let shiftCount = 0x433 - expF64UI a
      in if shiftCount \<le> 0 then \<lparr>x64_v = push_bit (nat (- shiftCount)) (f64.sig_of a), x64_extra = 0\<rparr>
         else softfloat_shift64ExtraRightJam (f64.sig_of a) 0 (word_of_int shiftCount))"

abbreviation x64_nat :: "uint64_extra \<Rightarrow> nat" where
  "x64_nat z \<equiv> unat (x64_v z) * 2 ^ 64 + unat (x64_extra z)"

lemma to_64_scheme:
  "f32_to_ui64 a mode exact s =
     (if 0xBE < expF32UI a then (0xFFFFFFFFFFFFFFFF, softfloat_raiseFlags softfloat_flag_invalid s)
      else softfloat_roundPackToUI64 (fl_sign a) (x64_v (f32_fixed64 a)) (x64_extra (f32_fixed64 a)) mode exact s)"
  "f64_to_ui64 b mode exact s =
     (if 0x43E < expF64UI b then (0xFFFFFFFFFFFFFFFF, softfloat_raiseFlags softfloat_flag_invalid s)
      else softfloat_roundPackToUI64 (fl_sign b) (x64_v (f64_fixed64 b)) (x64_extra (f64_fixed64 b)) mode exact s)"
  "f32_to_i64 a mode exact s =
     (if 0xBE < expF32UI a
      then (if \<not> fl_sign a \<or> fl_nan 23 255 a then 0x7FFFFFFFFFFFFFFF else - 0x7FFFFFFFFFFFFFFF - 1, softfloat_raiseFlags softfloat_flag_invalid s)
      else softfloat_roundPackToI64 (fl_sign a) (x64_v (f32_fixed64 a)) (x64_extra (f32_fixed64 a)) mode exact s)"
  "f64_to_i64 b mode exact s =
     (if 0x43E < expF64UI b
      then (if \<not> fl_sign b \<or> fl_nan 52 2047 b then 0x7FFFFFFFFFFFFFFF else - 0x7FFFFFFFFFFFFFFF - 1, softfloat_raiseFlags softfloat_flag_invalid s)
      else softfloat_roundPackToI64 (fl_sign b) (x64_v (f64_fixed64 b)) (x64_extra (f64_fixed64 b)) mode exact s)"
proof -
  have hid: "fracF64UI b OR 0x10000000000000 = 0x10000000000000 \<longleftrightarrow> fracF64UI b = 0"
    using or_hidden_bit(1) [OF f64.frac_range, of b] by simp
  show "f32_to_ui64 a mode exact s =
     (if 0xBE < expF32UI a then (0xFFFFFFFFFFFFFFFF, softfloat_raiseFlags softfloat_flag_invalid s)
      else softfloat_roundPackToUI64 (fl_sign a) (x64_v (f32_fixed64 a)) (x64_extra (f32_fixed64 a)) mode exact s)"
    by (simp add: f32_to_ui64_def Let_def f32.sign_law f32_fixed64_def f32.sig_of_def cong: if_cong)
  show "f64_to_ui64 b mode exact s =
     (if 0x43E < expF64UI b then (0xFFFFFFFFFFFFFFFF, softfloat_raiseFlags softfloat_flag_invalid s)
      else softfloat_roundPackToUI64 (fl_sign b) (x64_v (f64_fixed64 b)) (x64_extra (f64_fixed64 b)) mode exact s)"
    by (simp add: f64_to_ui64_def Let_def f64.sign_law f64_fixed64_def f64.sig_of_def cong: if_cong)
  show "f32_to_i64 a mode exact s =
     (if 0xBE < expF32UI a
      then (if \<not> fl_sign a \<or> fl_nan 23 255 a then 0x7FFFFFFFFFFFFFFF else - 0x7FFFFFFFFFFFFFFF - 1, softfloat_raiseFlags softfloat_flag_invalid s)
      else softfloat_roundPackToI64 (fl_sign a) (x64_v (f32_fixed64 a)) (x64_extra (f32_fixed64 a)) mode exact s)"
    unfolding fl_nan_def f32.nan_iff by (simp add: f32_to_i64_def Let_def f32.sign_law f32_fixed64_def f32.sig_of_def cong: if_cong)
  show "f64_to_i64 b mode exact s =
     (if 0x43E < expF64UI b
      then (if \<not> fl_sign b \<or> fl_nan 52 2047 b then 0x7FFFFFFFFFFFFFFF else - 0x7FFFFFFFFFFFFFFF - 1, softfloat_raiseFlags softfloat_flag_invalid s)
      else softfloat_roundPackToI64 (fl_sign b) (x64_v (f64_fixed64 b)) (x64_extra (f64_fixed64 b)) mode exact s)"
    unfolding fl_nan_def f64.nan_iff by (simp add: f64_to_i64_def Let_def f64.sign_law f64_fixed64_def f64.sig_of_def hid cong: if_cong)
qed

lemma fixed64_agrees:
  "expF32UI a \<le> 0xBE \<Longrightarrow> agrees 63 (\<bar>fl_real 23 a\<bar> / 2 ^ 149 * 2 ^ 64) (x64_nat (f32_fixed64 a))"
  "expF64UI b \<le> 0x43E \<Longrightarrow> agrees 63 (\<bar>fl_real 52 b\<bar> / 2 ^ 1074 * 2 ^ 64) (x64_nat (f64_fixed64 b))"
proof -
  have units: "\<bar>fl_real 23 a\<bar> / 2 ^ 149 * 2 ^ 64 = real (mval 23 (fl_mag a)) * 2 ^ 104 * 2 powi (1 - int 190)"
    "\<bar>fl_real 52 b\<bar> / 2 ^ 1074 * 2 ^ 64 = real (mval 52 (fl_mag b)) * 2 ^ 64 * 2 powi (1 - int 1075)"
    unfolding fl_real_abs by (simp_all add: power_int_minus)
  note e = f32.exp_range [of a] f64.exp_range [of b]
  show "agrees 63 (\<bar>fl_real 23 a\<bar> / 2 ^ 149 * 2 ^ 64) (x64_nat (f32_fixed64 a))" if le: "expF32UI a \<le> 0xBE"
  proof -
    let ?g = "unat (f32.sig_of a)" and ?w = "push_bit 40 (ucast (f32.sig_of a)) :: uint64_t"
    have w: "unat ?w = ?g * 2 ^ 40" by (rule unat_push_ucast) (use f32.sig_of_laws(1) [of a] in simp)
    define c where "c = 190 - expF32UI a"
    have c: "0 \<le> c" "c \<le> 190" using le e by (simp_all add: c_def)
    consider (sub) "expF32UI a = 0" | (same) "c = 0" | (shift) "expF32UI a \<noteq> 0" "0 < c" using c by linarith
    then show ?thesis
    proof cases
      case sub
      then have "x64_nat (f32_fixed64 a) = of_bool (unat ?w \<noteq> 0)"
        using shift64Extra_agrees(2) [of 190 ?w] by (simp add: f32_fixed64_def Let_def)
      then show ?thesis unfolding units using f32.scaled_subnormal [OF sub, of 104 190 63] by (simp add: w)
    next
      case same
      then have nz: "expF32UI a \<noteq> 0" and x: "expF32UI a - int 190 = 0" by (simp_all add: c_def)
      have "x64_nat (f32_fixed64 a) = unat ?w * 2 ^ 64" using same by (simp add: f32_fixed64_def Let_def c_def)
      also have "\<dots> = ?g * 2 ^ 104" unfolding w by simp
      finally have "x64_nat (f32_fixed64 a) = ?g * 2 ^ 104" .
      then show ?thesis unfolding units f32.scaled_value [OF nz] x by (simp only: power_int_0_right mult_1_right agrees_refl)
    next
      case shift
      have x: "expF32UI a - int 190 = - int (nat c)" using shift by (simp add: c_def)
      have "f32_fixed64 a = softfloat_shift64ExtraRightJam ?w 0 (word_of_int c)"
        using shift by (simp add: f32_fixed64_def Let_def c_def)
      moreover have "unat ?w * 2 ^ 64 = ?g * 2 ^ 104" unfolding w by simp
      moreover have "c < 2 ^ 32" using c by simp
      ultimately show ?thesis
        unfolding units f32.scaled_value [OF shift(1)] x
        using shift64Extra_agrees(1) [OF shift(2), of ?w] by (simp only: power_int_minus power_int_of_nat divide_inverse)
    qed
  qed
  show "agrees 63 (\<bar>fl_real 52 b\<bar> / 2 ^ 1074 * 2 ^ 64) (x64_nat (f64_fixed64 b))" if le: "expF64UI b \<le> 0x43E"
  proof -
    let ?g = "unat (f64.sig_of b)"
    define c where "c = 1075 - expF64UI b"
    have c: "-11 \<le> c" "c \<le> 1075" using le e by (simp_all add: c_def)
    consider (sub) "expF64UI b = 0" | (left) "c \<le> 0" | (shift) "expF64UI b \<noteq> 0" "0 < c" using c by linarith
    then show ?thesis
    proof cases
      case sub
      then have "x64_nat (f64_fixed64 b) = of_bool (?g \<noteq> 0)"
        using shift64Extra_agrees(2) [of 1075 "f64.sig_of b"] by (simp add: f64_fixed64_def Let_def)
      then show ?thesis unfolding units using f64.scaled_subnormal [OF sub, of 64 1075 63] by simp
    next
      case left
      then have nz: "expF64UI b \<noteq> 0" and x: "expF64UI b - int 1075 = int (nat (- c))" by (simp_all add: c_def)
      have "unat (push_bit (nat (- c)) (f64.sig_of b)) = ?g * 2 ^ nat (- c)"
      proof (rule unat_push_bit_small)
        have "?g * 2 ^ nat (- c) < 2 ^ Suc 52 * 2 ^ 11"
          using f64.sig_of_laws(1) [of b] c(1) by (intro mult_less_le_imp_less power_increasing) simp_all
        then show "?g * 2 ^ nat (- c) < 2 ^ LENGTH(64)" by simp
      qed
      then have "x64_nat (f64_fixed64 b) = ?g * 2 ^ nat (- c) * 2 ^ 64" using left by (simp add: f64_fixed64_def Let_def c_def)
      also have "\<dots> = ?g * 2 ^ 64 * 2 ^ nat (- c)" by simp
      finally show ?thesis unfolding units f64.scaled_value [OF nz] x by (simp only: power_int_of_nat) (metis agrees_refl of_nat_mult of_nat_numeral of_nat_power)
    next
      case shift
      have x: "expF64UI b - int 1075 = - int (nat c)" using shift by (simp add: c_def)
      have "f64_fixed64 b = softfloat_shift64ExtraRightJam (f64.sig_of b) 0 (word_of_int c)"
        using shift by (simp add: f64_fixed64_def Let_def c_def)
      moreover have "c < 2 ^ 32" using c by simp
      ultimately show ?thesis
        unfolding units f64.scaled_value [OF shift(1)] x
        using shift64Extra_agrees(1) [OF shift(2), of "f64.sig_of b"] by (simp only: power_int_minus power_int_of_nat divide_inverse)
    qed
  qed
qed

lemma overflow64:
  "0xBE < expF32UI a \<Longrightarrow> 2 ^ 64 \<le> \<bar>fl_real 23 a\<bar> / 2 ^ 149"
  "0x43E < expF64UI b \<Longrightarrow> 2 ^ 64 \<le> \<bar>fl_real 52 b\<bar> / 2 ^ 1074"
proof -
  have far: "2 ^ 64 \<le> Y" if "Y * 2 ^ 64 = real (n * 2 ^ c)" "2 ^ 127 \<le> n" "0 < c" for Y :: real and n c :: nat
  proof -
    have "(2::nat) ^ 127 * 2 ^ 1 \<le> n * 2 ^ c" using that(2,3) by (intro mult_le_mono power_increasing) simp_all
    then have "real (2 ^ 127 * 2 ^ 1) \<le> Y * 2 ^ 64" unfolding that(1) by (simp only: of_nat_le_iff)
    then show ?thesis by simp
  qed
  show "2 ^ 64 \<le> \<bar>fl_real 23 a\<bar> / 2 ^ 149" if "0xBE < expF32UI a"
  proof -
    have i: "int 190 < expF32UI a" using that by simp
    have u: "\<bar>fl_real 23 a\<bar> / 2 ^ 149 * 2 ^ 64 = real (mval 23 (fl_mag a)) * 2 ^ 104 * 2 powi (1 - int 190)"
      unfolding fl_real_abs by (simp add: power_int_minus)
    show ?thesis
      by (rule far [OF trans [OF u f32.scaled_big(1) [OF i]]]) (use f32.scaled_big(2) [OF i, of 104] i in simp_all)
  qed
  show "2 ^ 64 \<le> \<bar>fl_real 52 b\<bar> / 2 ^ 1074" if "0x43E < expF64UI b"
  proof -
    have i: "int 1086 < expF64UI b" using that by simp
    have u: "\<bar>fl_real 52 b\<bar> / 2 ^ 1074 * 2 ^ 64 = real (mval 52 (fl_mag b)) * 2 ^ 75 * 2 powi (1 - int 1086)"
      unfolding fl_real_abs by (simp add: power_int_minus)
    show ?thesis
      by (rule far [OF trans [OF u f64.scaled_big(1) [OF i]]]) (use f64.scaled_big(2) [OF i, of 75] i in simp_all)
  qed
qed


lemma rounds_exists:
  assumes "0 \<le> x"
  shows "\<exists>m. rounds md real x m"
proof -
  obtain n where n: "real n \<le> x" "x < real n + 1"
  proof
    show "real (nat \<lfloor>x\<rfloor>) \<le> x" "x < real (nat \<lfloor>x\<rfloor>) + 1" using assms by (simp_all add: of_nat_nat)
  qed
  show ?thesis
  proof (cases md)
    case ToEven
    have "rounds ToEven real x (if 2 * x < 2 * real n + 1 \<or> 2 * x = 2 * real n + 1 \<and> even n then n else Suc n)"
      using n by (cases n) auto
    with ToEven show ?thesis by blast
  next
    case ToAway
    have "rounds ToAway real x (if 2 * x < 2 * real n + 1 then n else Suc n)" using n by (cases n) auto
    with ToAway show ?thesis by blast
  next
    case Trunc
    with n show ?thesis by (intro exI [of _ n]) auto
  next
    case Up
    have "rounds Up real x (if x = real n then n else Suc n)" using n by (cases n) auto
    with Up show ?thesis by blast
  qed
qed

lemma int_rounds_overflow:
  assumes "2 ^ p \<le> x" and "hi < 2 ^ p" and "- lo < 2 ^ p"
  shows "int_rounds lo hi mode exact sign x s (if sign \<and> lo < 0 then lo else hi, softfloat_raiseFlags softfloat_flag_invalid s)"
proof -
  have "0 \<le> (2::real) ^ p" by simp
  with assms(1) have "0 \<le> x" by linarith
  then obtain m where m: "rounds (mag_mode mode sign) real x m" using rounds_exists by blast
  have "real (2 ^ p) \<le> x" using assms(1) by simp
  then have "2 ^ p \<le> m" by (rule rounds_ge_real [OF m])
  with m show ?thesis unfolding int_rounds_outcome using int_outcome_overflow [OF assms(2,3)] by metis
qed

text \<open>The substitute values.\<close>

lemma invalid_ui64: "map_prod (\<lambda>z. int (unat z)) id (0xFFFFFFFFFFFFFFFF :: uint64_t, t) = (if g \<and> (0::int) < 0 then 0 else 2 ^ 64 - 1, t)"
  by simp

lemma invalid_i64:
  "map_prod sint id (if \<not> g \<or> False then 0x7FFFFFFFFFFFFFFF else - 0x7FFFFFFFFFFFFFFF - 1 :: int64_t, t) =
     (if g \<and> - (2 ^ 63) < (0::int) then - (2 ^ 63) else 2 ^ 63 - 1, t)"
  by simp

lemma int_rounds_64:
  assumes "agrees 63 X n" and "x = X / 2 ^ 64"
  shows "int_rounds lo hi mode exact sign x s (int_outcome lo hi (exact \<and> n mod 2 ^ 64 \<noteq> 0) sign (rnd 64 (mag_mode mode sign) n) s)"
  by (rule int_rounds_small) (use assms in simp_all)

lemma f32_to_64_rounds:
  assumes "valid_mode mode"
  shows "int_rounds 0 (2 ^ 64 - 1) mode exact (fl_sign a) (\<bar>fl_real 23 a\<bar> / 2 ^ 149) s (map_prod (\<lambda>z. int (unat z)) id (f32_to_ui64 a mode exact s))"
    and "\<not> fl_nan 23 255 a \<Longrightarrow> int_rounds (- (2 ^ 63)) (2 ^ 63 - 1) mode exact (fl_sign a) (\<bar>fl_real 23 a\<bar> / 2 ^ 149) s (map_prod sint id (f32_to_i64 a mode exact s))"
proof -
  note U = roundPackToUI64_outcome [OF assms] and I = roundPackToI64_outcome [OF assms]
  show "int_rounds 0 (2 ^ 64 - 1) mode exact (fl_sign a) (\<bar>fl_real 23 a\<bar> / 2 ^ 149) s (map_prod (\<lambda>z. int (unat z)) id (f32_to_ui64 a mode exact s))"
  proof (cases "0xBE < expF32UI a")
    case True
    show ?thesis unfolding to_64_scheme if_P [OF True] invalid_ui64 [of _ "fl_sign a"]
      by (rule int_rounds_overflow [OF overflow64(1) [OF True]]) simp_all
  next
    case False
    then have le: "expF32UI a \<le> 0xBE" by simp
    show ?thesis unfolding to_64_scheme if_not_P [OF False] U by (rule int_rounds_64 [OF fixed64_agrees(1) [OF le]]) simp
  qed
  show "int_rounds (- (2 ^ 63)) (2 ^ 63 - 1) mode exact (fl_sign a) (\<bar>fl_real 23 a\<bar> / 2 ^ 149) s (map_prod sint id (f32_to_i64 a mode exact s))" if nan: "\<not> fl_nan 23 255 a"
  proof (cases "0xBE < expF32UI a")
    case True
    show ?thesis unfolding to_64_scheme if_P [OF True] nan [THEN Eq_FalseI] invalid_i64
      by (rule int_rounds_overflow [OF overflow64(1) [OF True]]) simp_all
  next
    case False
    then have le: "expF32UI a \<le> 0xBE" by simp
    show ?thesis unfolding to_64_scheme if_not_P [OF False] I by (rule int_rounds_64 [OF fixed64_agrees(1) [OF le]]) simp
  qed
qed

lemma f64_to_64_rounds:
  assumes "valid_mode mode"
  shows "int_rounds 0 (2 ^ 64 - 1) mode exact (fl_sign b) (\<bar>fl_real 52 b\<bar> / 2 ^ 1074) s (map_prod (\<lambda>z. int (unat z)) id (f64_to_ui64 b mode exact s))"
    and "\<not> fl_nan 52 2047 b \<Longrightarrow> int_rounds (- (2 ^ 63)) (2 ^ 63 - 1) mode exact (fl_sign b) (\<bar>fl_real 52 b\<bar> / 2 ^ 1074) s (map_prod sint id (f64_to_i64 b mode exact s))"
proof -
  note U = roundPackToUI64_outcome [OF assms] and I = roundPackToI64_outcome [OF assms]
  show "int_rounds 0 (2 ^ 64 - 1) mode exact (fl_sign b) (\<bar>fl_real 52 b\<bar> / 2 ^ 1074) s (map_prod (\<lambda>z. int (unat z)) id (f64_to_ui64 b mode exact s))"
  proof (cases "0x43E < expF64UI b")
    case True
    show ?thesis unfolding to_64_scheme if_P [OF True] invalid_ui64 [of _ "fl_sign b"]
      by (rule int_rounds_overflow [OF overflow64(2) [OF True]]) simp_all
  next
    case False
    then have le: "expF64UI b \<le> 0x43E" by simp
    show ?thesis unfolding to_64_scheme if_not_P [OF False] U by (rule int_rounds_64 [OF fixed64_agrees(2) [OF le]]) simp
  qed
  show "int_rounds (- (2 ^ 63)) (2 ^ 63 - 1) mode exact (fl_sign b) (\<bar>fl_real 52 b\<bar> / 2 ^ 1074) s (map_prod sint id (f64_to_i64 b mode exact s))" if nan: "\<not> fl_nan 52 2047 b"
  proof (cases "0x43E < expF64UI b")
    case True
    show ?thesis unfolding to_64_scheme if_P [OF True] nan [THEN Eq_FalseI] invalid_i64
      by (rule int_rounds_overflow [OF overflow64(2) [OF True]]) simp_all
  next
    case False
    then have le: "expF64UI b \<le> 0x43E" by simp
    show ?thesis unfolding to_64_scheme if_not_P [OF False] I by (rule int_rounds_64 [OF fixed64_agrees(2) [OF le]]) simp
  qed
qed

text \<open>
  Property C15: converting a finite single or double-precision number to an unsigned or signed 64-bit
  integer, in one of the five rounding modes: the rounded integer, or the substitute value and
  the invalid flag when it is out of range.
\<close>

theorem float_to_int64_correct:
  assumes "fl_mag a < 255 * 2 ^ 23" and "fl_mag b < 2047 * 2 ^ 52" and "valid_mode mode"
  shows "int_rounds 0 (2 ^ 64 - 1) mode exact (fl_sign a) (\<bar>fl_real 23 a\<bar> / 2 ^ 149) s
      (map_prod (\<lambda>z. int (unat z)) id (f32_to_ui64 a mode exact s)) \<and>
    int_rounds (- (2 ^ 63)) (2 ^ 63 - 1) mode exact (fl_sign a) (\<bar>fl_real 23 a\<bar> / 2 ^ 149) s
      (map_prod sint id (f32_to_i64 a mode exact s)) \<and>
    int_rounds 0 (2 ^ 64 - 1) mode exact (fl_sign b) (\<bar>fl_real 52 b\<bar> / 2 ^ 1074) s
      (map_prod (\<lambda>z. int (unat z)) id (f64_to_ui64 b mode exact s)) \<and>
    int_rounds (- (2 ^ 63)) (2 ^ 63 - 1) mode exact (fl_sign b) (\<bar>fl_real 52 b\<bar> / 2 ^ 1074) s
      (map_prod sint id (f64_to_i64 b mode exact s))"
  using assms f32_to_64_rounds f64_to_64_rounds by (simp add: fl_nan_def)

theorem float_to_int64_correct_witness:
  "int_rounds (- (2 ^ 63)) (2 ^ 63 - 1) softfloat_round_min False True (\<bar>fl_real 52 (0xC004000000000000 :: uint64_t)\<bar> / 2 ^ 1074) init_state
      (map_prod sint id (f64_to_i64 0xC004000000000000 softfloat_round_min False init_state)) \<and>
   map_prod sint id (f64_to_i64 0xC004000000000000 softfloat_round_min False init_state) = (- 3, init_state)"
proof
  show "int_rounds (- (2 ^ 63)) (2 ^ 63 - 1) softfloat_round_min False True (\<bar>fl_real 52 (0xC004000000000000 :: uint64_t)\<bar> / 2 ^ 1074) init_state
      (map_prod sint id (f64_to_i64 0xC004000000000000 softfloat_round_min False init_state))"
    using float_to_int64_correct [of 0 "0xC004000000000000" softfloat_round_min False init_state] by (simp add: fl_mag_def fl_sign_def valid_mode_def)
  show "map_prod sint id (f64_to_i64 0xC004000000000000 softfloat_round_min False init_state) = (- 3, init_state)"
    by code_simp
qed

section \<open>Infinities and NaNs\<close>

lemma fixed7_special:
  assumes "255 * 2 ^ 23 \<le> fl_mag a" and "2047 * 2 ^ 52 \<le> fl_mag b"
  shows "expF32UI a = 255" and "expF64UI b = 2047"
    and "2 ^ 32 \<le> rnd 7 md (unat (f32_fixed7 a))" and "2 ^ 32 \<le> rnd 7 md (unat (f64_fixed7 b))"
proof -
  show e: "expF32UI a = 255" "expF64UI b = 2047"
    using assms f32.finite_iff [of a] f64.finite_iff [of b] f32.exp_range(2) [of a] f64.exp_range(2) [of b] by simp_all
  have "2 ^ 32 * 2 ^ 7 \<le> unat (f32_fixed7 a)" "2 ^ 32 * 2 ^ 7 \<le> unat (f64_fixed7 b)"
    using f32.sig_of_laws(2) [of a] f64.sig_of_laws(2) [of b] unfolding unat_fixed7 by (simp_all add: e)
  then show "2 ^ 32 \<le> rnd 7 md (unat (f32_fixed7 a))" "2 ^ 32 \<le> rnd 7 md (unat (f64_fixed7 b))" by (simp_all only: rnd_ge zero_less_numeral)
qed

lemma float_to_int_special:
  fixes s :: fp_state
  assumes "255 * 2 ^ 23 \<le> fl_mag a" and "2047 * 2 ^ 52 \<le> fl_mag b"
  defines "bad \<equiv> softfloat_raiseFlags softfloat_flag_invalid s"
  shows "map_prod (\<lambda>z. int (unat z)) id (f32_to_ui32 a mode exact s) = (2 ^ 32 - 1, bad) \<and>
    map_prod (\<lambda>z. int (unat z)) id (f64_to_ui32 b mode exact s) = (2 ^ 32 - 1, bad) \<and>
    map_prod (\<lambda>z. int (unat z)) id (f32_to_ui64 a mode exact s) = (2 ^ 64 - 1, bad) \<and>
    map_prod (\<lambda>z. int (unat z)) id (f64_to_ui64 b mode exact s) = (2 ^ 64 - 1, bad) \<and>
    map_prod sint id (f32_to_i32 a mode exact s) = (if fl_sign a \<and> \<not> fl_nan 23 255 a then - (2 ^ 31) else 2 ^ 31 - 1, bad) \<and>
    map_prod sint id (f64_to_i32 b mode exact s) = (if fl_sign b \<and> \<not> fl_nan 52 2047 b then - (2 ^ 31) else 2 ^ 31 - 1, bad) \<and>
    map_prod sint id (f32_to_i64 a mode exact s) = (if fl_sign a \<and> \<not> fl_nan 23 255 a then - (2 ^ 63) else 2 ^ 63 - 1, bad) \<and>
    map_prod sint id (f64_to_i64 b mode exact s) = (if fl_sign b \<and> \<not> fl_nan 52 2047 b then - (2 ^ 63) else 2 ^ 63 - 1, bad)"
proof -
  note sp = fixed7_special [OF assms(1,2)]
  have o: "map_prod (\<lambda>z. int (unat z)) id (f32_to_ui32 a mode exact s) = (2 ^ 32 - 1, bad)"
    "map_prod (\<lambda>z. int (unat z)) id (f64_to_ui32 b mode exact s) = (2 ^ 32 - 1, bad)"
    "map_prod sint id (f32_to_i32 a mode exact s) = (if fl_sign a \<and> \<not> fl_nan 23 255 a then - (2 ^ 31) else 2 ^ 31 - 1, bad)"
    "map_prod sint id (f64_to_i32 b mode exact s) = (if fl_sign b \<and> \<not> fl_nan 52 2047 b then - (2 ^ 31) else 2 ^ 31 - 1, bad)"
    unfolding to_32_scheme roundPackToUI32_outcome [OF unat_fixed7(2)] roundPackToUI32_outcome [OF unat_fixed7(4)]
      roundPackToI32_outcome [OF unat_fixed7(2)] roundPackToI32_outcome [OF unat_fixed7(4)] bad_def
    by (subst int_outcome_overflow [OF _ _ sp(3)] int_outcome_overflow [OF _ _ sp(4)]; auto)+
  then show ?thesis unfolding to_64_scheme using sp(1,2) by (auto simp: bad_def)
qed

text \<open>
  Property C16: converting an infinity or a NaN to an integer raises invalid and yields the substitute value: the
  greatest integer, or the least one for minus infinity and a signed result.
\<close>

theorem float_to_int_invalid:
  fixes s :: fp_state
  assumes "255 * 2 ^ 23 \<le> fl_mag a" and "2047 * 2 ^ 52 \<le> fl_mag b"
  defines "bad \<equiv> softfloat_raiseFlags softfloat_flag_invalid s"
  shows "map_prod (\<lambda>z. int (unat z)) id (f32_to_ui32 a mode exact s) = (2 ^ 32 - 1, bad) \<and>
    map_prod (\<lambda>z. int (unat z)) id (f64_to_ui32 b mode exact s) = (2 ^ 32 - 1, bad) \<and>
    map_prod (\<lambda>z. int (unat z)) id (f32_to_ui64 a mode exact s) = (2 ^ 64 - 1, bad) \<and>
    map_prod (\<lambda>z. int (unat z)) id (f64_to_ui64 b mode exact s) = (2 ^ 64 - 1, bad) \<and>
    map_prod sint id (f32_to_i32 a mode exact s) = (if fl_sign a \<and> \<not> fl_nan 23 255 a then - (2 ^ 31) else 2 ^ 31 - 1, bad) \<and>
    map_prod sint id (f64_to_i32 b mode exact s) = (if fl_sign b \<and> \<not> fl_nan 52 2047 b then - (2 ^ 31) else 2 ^ 31 - 1, bad) \<and>
    map_prod sint id (f32_to_i64 a mode exact s) = (if fl_sign a \<and> \<not> fl_nan 23 255 a then - (2 ^ 63) else 2 ^ 63 - 1, bad) \<and>
    map_prod sint id (f64_to_i64 b mode exact s) = (if fl_sign b \<and> \<not> fl_nan 52 2047 b then - (2 ^ 63) else 2 ^ 63 - 1, bad)"
  unfolding bad_def by (rule float_to_int_special [OF assms(1,2)])

theorem float_to_int_invalid_witness:
  "map_prod sint id (f32_to_i32 0xFF800000 0 True init_state) = (- (2 ^ 31), softfloat_raiseFlags softfloat_flag_invalid init_state) \<and>
   map_prod sint id (f64_to_i64 0xFFF8000000000000 0 True init_state) = (2 ^ 63 - 1, softfloat_raiseFlags softfloat_flag_invalid init_state)"
  using float_to_int_invalid [of "0xFF800000" "0xFFF8000000000000" 0 True init_state]
  by (simp add: fl_mag_def fl_nan_def fl_sign_def)

end
