(* ===== verification/Float_To_Int_Trunc.thy ===== *)
theory Float_To_Int_Trunc
  imports Float_To_Int_Correct Float_Mul
begin

text \<open>
  The truncating conversions (\<^verbatim>\<open>f*_to_*_r_minMag.c\<close>) are hand-optimised versions of the general ones. Each is
  proved to meet the specification \<^const>\<open>int_rounds\<close> for rounding toward zero, so that it agrees with the
  general routine called with that mode, on every input and in result and flags alike.
\<close>

section \<open>Truncation of a scaled integer\<close>

lemma trunc_rounds:
  assumes "x = real N / 2 ^ c"
  shows "int_rounds lo hi softfloat_round_minMag exact sign x s (int_outcome lo hi (exact \<and> N mod 2 ^ c \<noteq> 0) sign (N div 2 ^ c) s)"
proof -
  have md: "mag_mode softfloat_round_minMag sign = Trunc" by (simp add: mag_mode_def)
  define q r where "q = N div 2 ^ c" and "r = N mod 2 ^ c"
  have "N = q * 2 ^ c + r" unfolding q_def r_def by (rule div_mult_mod_eq [symmetric])
  then have "x = real q + real r / 2 ^ c" unfolding assms by (simp add: add_divide_distrib)
  then have "real (N div 2 ^ c) \<noteq> x \<longleftrightarrow> N mod 2 ^ c \<noteq> 0" unfolding q_def [symmetric] r_def [symmetric] by simp
  moreover have "rounds Trunc real x (N div 2 ^ c)"
    using rnd_rounds_Trunc [OF agrees_refl [of c N]] unfolding assms by (simp add: rnd_def)
  ultimately show ?thesis unfolding int_rounds_outcome md by (intro exI [of _ "N div 2 ^ c"]) (simp only: simp_thms)
qed

text \<open>Below one the integer part is zero.\<close>

lemma trunc_rounds_zero:
  assumes "0 \<le> x" and "x < 1" and "lo \<le> 0" and "0 \<le> hi" and "P \<longleftrightarrow> exact \<and> x \<noteq> 0"
  shows "int_rounds lo hi softfloat_round_minMag exact sign x s (0, if P then softfloat_raiseFlags softfloat_flag_inexact s else s)"
  unfolding int_rounds_outcome by (intro exI [of _ 0]) (use assms in \<open>auto simp: mag_mode_def int_outcome_def\<close>)

lemma inj_results:
  fixes p q :: "'a::len word \<times> fp_state"
  shows "map_prod (\<lambda>z. int (unat z)) id p = map_prod (\<lambda>z. int (unat z)) id q \<Longrightarrow> p = q"
    and "map_prod sint id p = map_prod sint id q \<Longrightarrow> p = q"
  by (cases p; cases q; auto simp: word_uint_eq_iff [symmetric] intro: signed_word_eqI)+

lemma unat_int_small:
  assumes "0 \<le> i" and "i < 2 ^ LENGTH('a)"
  shows "unat (word_of_int i :: 'a::len word) = nat i"
proof -
  have "uint (word_of_int i :: 'a word) = i" unfolding uint_word_of_int using assms by (rule mod_pos_pos_trivial)
  then show ?thesis by (metis nat_uint_eq)
qed

lemma shl_zero:
  fixes w :: "'a::len word"
  assumes "c \<le> LENGTH('a)"
  shows "push_bit (LENGTH('a) - c) w = 0 \<longleftrightarrow> unat w mod 2 ^ c = 0"
proof -
  have p: "(2::nat) ^ LENGTH('a) = 2 ^ c * 2 ^ (LENGTH('a) - c)" using assms by (simp flip: power_add)
  have "unat (push_bit (LENGTH('a) - c) w) = unat w * 2 ^ (LENGTH('a) - c) mod 2 ^ LENGTH('a)" by (rule unat_push_bit_mod)
  also have "\<dots> = unat w mod 2 ^ c * 2 ^ (LENGTH('a) - c)" unfolding p by (simp add: mult_mod_left)
  finally show ?thesis by (simp flip: unat_eq_zero)
qed

section \<open>Magnitudes\<close>

lemma f32_value:
  assumes "expF32UI a \<noteq> 0" and "int c + expF32UI a = 150 + int l"
  shows "\<bar>fl_real 23 a\<bar> / 2 ^ 149 = real (unat (f32.sig_of a) * 2 ^ l) / 2 ^ c"
proof -
  have e: "expF32UI a - int (150 + l) = - int c" using assms(2) by simp
  have "\<bar>fl_real 23 a\<bar> / 2 ^ 149 = real (mval 23 (fl_mag a)) * 2 ^ l * 2 powi (1 - int (150 + l))"
    unfolding fl_real_abs by (simp add: power_int_diff power_int_add)
  then show ?thesis unfolding f32.scaled_value [OF assms(1)] e by (simp only: power_int_minus power_int_of_nat divide_inverse)
qed

lemma f64_value:
  assumes "expF64UI a \<noteq> 0" and "int c + expF64UI a = 1075 + int l"
  shows "\<bar>fl_real 52 a\<bar> / 2 ^ 1074 = real (unat (f64.sig_of a) * 2 ^ l) / 2 ^ c"
proof -
  have e: "expF64UI a - int (1075 + l) = - int c" using assms(2) by simp
  have "\<bar>fl_real 52 a\<bar> / 2 ^ 1074 = real (mval 52 (fl_mag a)) * 2 ^ l * 2 powi (1 - int (1075 + l))"
    unfolding fl_real_abs by (simp add: power_int_diff power_int_add)
  then show ?thesis unfolding f64.scaled_value [OF assms(1)] e by (simp only: power_int_minus power_int_of_nat divide_inverse)
qed

lemma value_below_one:
  "expF32UI a < 127 \<Longrightarrow> \<bar>fl_real 23 a\<bar> / 2 ^ 149 < 1"
  "expF64UI b < 1023 \<Longrightarrow> \<bar>fl_real 52 b\<bar> / 2 ^ 1074 < 1"
proof -
  show "\<bar>fl_real 23 a\<bar> / 2 ^ 149 < 1" if "expF32UI a < 127"
  proof -
    have "fl_mag a < 127 * 2 ^ 23" using that f32.mag_law [of a] f32.frac_range [of a] by simp
    then have "mval 23 (fl_mag a) < mval 23 (127 * 2 ^ 23)" by (simp only: mval_less_iff)
    also have "mval 23 (127 * 2 ^ 23) = 2 ^ 149" by (simp add: mval_def)
    finally have "real (mval 23 (fl_mag a)) < real (2 ^ 149)" by (simp only: of_nat_less_iff)
    then show ?thesis by (simp add: fl_real_abs)
  qed
  show "\<bar>fl_real 52 b\<bar> / 2 ^ 1074 < 1" if "expF64UI b < 1023"
  proof -
    have "fl_mag b < 1023 * 2 ^ 52" using that f64.mag_law [of b] f64.frac_range [of b] by simp
    then have "mval 52 (fl_mag b) < mval 52 (1023 * 2 ^ 52)" by (simp only: mval_less_iff)
    also have "mval 52 (1023 * 2 ^ 52) = 2 ^ 1074" by (simp add: mval_def)
    finally have "real (mval 52 (fl_mag b)) < real (2 ^ 1074)" by (simp only: of_nat_less_iff)
    then show ?thesis by (simp add: fl_real_abs)
  qed
qed

lemma value_zero:
  "\<bar>fl_real 23 a\<bar> / 2 ^ 149 \<noteq> 0 \<longleftrightarrow> word_of_int (expF32UI a) OR fracF32UI a \<noteq> 0"
  "\<bar>fl_real 52 b\<bar> / 2 ^ 1074 \<noteq> 0 \<longleftrightarrow> word_of_int (expF64UI b) OR fracF64UI b \<noteq> 0"
  using sf32.magBits_zero [of a] sf64.magBits_zero [of b] mval_eq_iff [of _ _ 0] by (simp_all add: fl_real_abs)

lemma value_ge:
  "127 + int k \<le> expF32UI a \<Longrightarrow> 2 ^ k \<le> \<bar>fl_real 23 a\<bar> / 2 ^ 149"
  "1023 + int k \<le> expF64UI b \<Longrightarrow> 2 ^ k \<le> \<bar>fl_real 52 b\<bar> / 2 ^ 1074"
proof -
  show "2 ^ k \<le> \<bar>fl_real 23 a\<bar> / 2 ^ 149" if "127 + int k \<le> expF32UI a"
  proof -
    have "127 + k \<le> nat (expF32UI a)" using that by linarith
    then have "(127 + k) * 2 ^ 23 \<le> nat (expF32UI a) * 2 ^ 23" by (rule mult_le_mono1)
    then have "(126 + k) * 2 ^ 23 + 2 ^ 23 \<le> fl_mag a" using f32.mag_law [of a] by simp
    then have "mval 23 ((126 + k) * 2 ^ 23 + 2 ^ 23) \<le> mval 23 (fl_mag a)" by (simp only: mval_le_iff)
    then have "2 ^ 149 * 2 ^ k \<le> mval 23 (fl_mag a)" by (subst (asm) mval_scaled) (simp_all add: power_add)
    then have "real (2 ^ 149 * 2 ^ k) \<le> real (mval 23 (fl_mag a))" by (simp only: of_nat_le_iff)
    then show ?thesis by (simp add: fl_real_abs mult.commute)
  qed
  show "2 ^ k \<le> \<bar>fl_real 52 b\<bar> / 2 ^ 1074" if "1023 + int k \<le> expF64UI b"
  proof -
    have "1023 + k \<le> nat (expF64UI b)" using that by linarith
    then have "(1023 + k) * 2 ^ 52 \<le> nat (expF64UI b) * 2 ^ 52" by (rule mult_le_mono1)
    then have "(1022 + k) * 2 ^ 52 + 2 ^ 52 \<le> fl_mag b" using f64.mag_law [of b] by simp
    then have "mval 52 ((1022 + k) * 2 ^ 52 + 2 ^ 52) \<le> mval 52 (fl_mag b)" by (simp only: mval_le_iff)
    then have "2 ^ 1074 * 2 ^ k \<le> mval 52 (fl_mag b)" by (subst (asm) mval_scaled) (simp_all add: power_add)
    then have "real (2 ^ 1074 * 2 ^ k) \<le> real (mval 52 (fl_mag b))" by (simp only: of_nat_le_iff)
    then show ?thesis by (simp add: fl_real_abs mult.commute)
  qed
qed

section \<open>Outcomes as words\<close>

lemma ui_outcome:
  fixes z :: "'a::len word"
  assumes "unat z = m"
  shows "map_prod (\<lambda>z. int (unat z)) id (z, if b then softfloat_raiseFlags softfloat_flag_inexact s else s) =
    int_outcome 0 (2 ^ LENGTH('a) - 1) b False m s"
proof -
  have "m < 2 ^ LENGTH('a)" unfolding assms [symmetric] by (rule unat_lt_pow)
  then have "int m < int (2 ^ LENGTH('a))" by (simp only: of_nat_less_iff)
  then have "int m \<le> 2 ^ LENGTH('a) - 1" by simp
  moreover have "int (unat z) = int m" using assms by simp
  ultimately show ?thesis by (simp add: int_outcome_def)
qed

lemma si_outcome:
  fixes w :: "'a::len word"
  assumes "unat w = m" and "- (2 ^ (LENGTH('a) - 1)) \<le> (if sign then - int m else int m)"
    and "(if sign then - int m else int m) \<le> 2 ^ (LENGTH('a) - 1) - 1"
  shows "map_prod sint id (if sign then - w else w, if b then softfloat_raiseFlags softfloat_flag_inexact s else s) =
    int_outcome (- (2 ^ (LENGTH('a) - 1))) (2 ^ (LENGTH('a) - 1) - 1) b sign m s"
  using signed_result(2) [of sign w, unfolded assms(1), OF assms(2,3)] assms(2,3)
  unfolding int_outcome_def Let_def by (simp only: map_prod_simp id_apply simp_thms if_True)

text \<open>A negative number below minus one has no unsigned image.\<close>

lemma int_rounds_negative:
  assumes "1 \<le> x" and "0 \<le> hi"
  shows "int_rounds 0 hi mode exact True x s (hi, softfloat_raiseFlags softfloat_flag_invalid s)"
proof -
  have "0 \<le> x" "real 1 \<le> x" using assms(1) by simp_all
  then obtain m where m: "rounds (mag_mode mode True) real x m" "1 \<le> m" using rounds_exists rounds_ge_real by metis
  then show ?thesis unfolding int_rounds_outcome int_outcome_def Let_def by (intro exI [of _ m]) auto
qed

text \<open>What a truncating routine may return, as a word, in each of its branches.\<close>

lemma trunc_unsigned:
  fixes z :: "'a::len word"
  shows "R = (0 :: 'a word, if exact \<and> x \<noteq> 0 then softfloat_raiseFlags softfloat_flag_inexact s else s) \<Longrightarrow> 0 \<le> x \<Longrightarrow> x < 1 \<Longrightarrow>
      int_rounds 0 (2 ^ LENGTH('a) - 1) softfloat_round_minMag exact sign x s (map_prod (\<lambda>z. int (unat z)) id R)"
    and "R = (z, softfloat_raiseFlags softfloat_flag_invalid s) \<Longrightarrow> z = - 1 \<Longrightarrow> sign \<and> 1 \<le> x \<or> 2 ^ LENGTH('a) \<le> x \<Longrightarrow>
      int_rounds 0 (2 ^ LENGTH('a) - 1) mode exact sign x s (map_prod (\<lambda>z. int (unat z)) id R)"
    and "R = (z, if exact \<and> b then softfloat_raiseFlags softfloat_flag_inexact s else s) \<Longrightarrow> \<not> sign \<Longrightarrow> x = real N / 2 ^ c \<Longrightarrow>
      unat z = N div 2 ^ c \<Longrightarrow> (b \<longleftrightarrow> N mod 2 ^ c \<noteq> 0) \<Longrightarrow>
      int_rounds 0 (2 ^ LENGTH('a) - 1) softfloat_round_minMag exact sign x s (map_prod (\<lambda>z. int (unat z)) id R)"
proof -
  show "int_rounds 0 (2 ^ LENGTH('a) - 1) softfloat_round_minMag exact sign x s (map_prod (\<lambda>z. int (unat z)) id R)"
    if "R = (0 :: 'a word, if exact \<and> x \<noteq> 0 then softfloat_raiseFlags softfloat_flag_inexact s else s)" "0 \<le> x" "x < 1"
    using that trunc_rounds_zero [of x 0 "2 ^ LENGTH('a) - 1" "exact \<and> x \<noteq> 0" exact sign s] by simp
  show "int_rounds 0 (2 ^ LENGTH('a) - 1) mode exact sign x s (map_prod (\<lambda>z. int (unat z)) id R)"
    if R: "R = (z, softfloat_raiseFlags softfloat_flag_invalid s)" "z = - 1" and x: "sign \<and> 1 \<le> x \<or> 2 ^ LENGTH('a) \<le> x"
  proof -
    have u: "map_prod (\<lambda>z. int (unat z)) id R = (2 ^ LENGTH('a) - 1, softfloat_raiseFlags softfloat_flag_invalid s)"
    proof -
      have "uint (- 1 :: 'a word) = - 1 mod 2 ^ LENGTH('a)" unfolding word_m1_wi by (rule uint_word_of_int)
      then show ?thesis using R by (simp add: zmod_minus1)
    qed
    from x show ?thesis
    proof
      assume "sign \<and> 1 \<le> x"
      then show ?thesis unfolding u using int_rounds_negative [of x "2 ^ LENGTH('a) - 1"] by simp
    next
      assume "2 ^ LENGTH('a) \<le> x"
      then show ?thesis unfolding u using int_rounds_overflow [of "LENGTH('a)" x "2 ^ LENGTH('a) - 1" 0] by simp
    qed
  qed
  show "int_rounds 0 (2 ^ LENGTH('a) - 1) softfloat_round_minMag exact sign x s (map_prod (\<lambda>z. int (unat z)) id R)"
    if "R = (z, if exact \<and> b then softfloat_raiseFlags softfloat_flag_inexact s else s)" "\<not> sign" "x = real N / 2 ^ c"
      "unat z = N div 2 ^ c" "b \<longleftrightarrow> N mod 2 ^ c \<noteq> 0"
    unfolding that(1) ui_outcome [OF that(4)] that(2) [THEN Eq_FalseI] that(5) by (rule trunc_rounds [OF that(3)])
qed

lemma trunc_signed:
  fixes w :: "'a::len word"
  defines "L \<equiv> LENGTH('a) - 1"
  shows "R = (0 :: 'a word, if exact \<and> x \<noteq> 0 then softfloat_raiseFlags softfloat_flag_inexact s else s) \<Longrightarrow> 0 \<le> x \<Longrightarrow> x < 1 \<Longrightarrow>
      int_rounds (- (2 ^ L)) (2 ^ L - 1) softfloat_round_minMag exact sign x s (map_prod sint id R)"
    and "R = (w, softfloat_raiseFlags softfloat_flag_invalid s) \<Longrightarrow> sint w = (if sign then - (2 ^ L) else 2 ^ L - 1) \<Longrightarrow> x = real N / 2 ^ c \<Longrightarrow>
      (if sign then 2 ^ L < N div 2 ^ c else 2 ^ L \<le> N div 2 ^ c) \<Longrightarrow>
      int_rounds (- (2 ^ L)) (2 ^ L - 1) softfloat_round_minMag exact sign x s (map_prod sint id R)"
    and "R = (if sign then - w else w, if exact \<and> b then softfloat_raiseFlags softfloat_flag_inexact s else s) \<Longrightarrow> x = real N / 2 ^ c \<Longrightarrow>
      unat w = N div 2 ^ c \<Longrightarrow> (if sign then N div 2 ^ c \<le> 2 ^ L else N div 2 ^ c < 2 ^ L) \<Longrightarrow> (b \<longleftrightarrow> N mod 2 ^ c \<noteq> 0) \<Longrightarrow>
      int_rounds (- (2 ^ L)) (2 ^ L - 1) softfloat_round_minMag exact sign x s (map_prod sint id R)"
proof -
  have cast: "i \<le> j \<longleftrightarrow> int i \<le> int j" "i < j \<longleftrightarrow> int i < int j" for i j :: nat by simp_all
  show "int_rounds (- (2 ^ L)) (2 ^ L - 1) softfloat_round_minMag exact sign x s (map_prod sint id R)"
    if "R = (0 :: 'a word, if exact \<and> x \<noteq> 0 then softfloat_raiseFlags softfloat_flag_inexact s else s)" "0 \<le> x" "x < 1"
    using that trunc_rounds_zero [of x "- (2 ^ L)" "2 ^ L - 1" "exact \<and> x \<noteq> 0" exact sign s] by simp
  show "int_rounds (- (2 ^ L)) (2 ^ L - 1) softfloat_round_minMag exact sign x s (map_prod sint id R)"
    if R: "R = (w, softfloat_raiseFlags softfloat_flag_invalid s)" "sint w = (if sign then - (2 ^ L) else 2 ^ L - 1)"
      and x: "x = real N / 2 ^ c" and m: "if sign then 2 ^ L < N div 2 ^ c else 2 ^ L \<le> N div 2 ^ c"
  proof -
    have "\<not> (- (2 ^ L) \<le> (if sign then - int (N div 2 ^ c) else int (N div 2 ^ c)) \<and> (if sign then - int (N div 2 ^ c) else int (N div 2 ^ c)) \<le> 2 ^ L - 1)"
      using m unfolding cast of_nat_power of_nat_numeral by (cases sign) (simp_all only: if_True if_False, linarith+)
    then have "map_prod sint id R = int_outcome (- (2 ^ L)) (2 ^ L - 1) (exact \<and> N mod 2 ^ c \<noteq> 0) sign (N div 2 ^ c) s"
      unfolding R int_outcome_def Let_def by (simp only: if_False map_prod_simp id_apply R(2)) simp
    then show ?thesis using trunc_rounds [OF x] by simp
  qed
  show "int_rounds (- (2 ^ L)) (2 ^ L - 1) softfloat_round_minMag exact sign x s (map_prod sint id R)"
    if R: "R = (if sign then - w else w, if exact \<and> b then softfloat_raiseFlags softfloat_flag_inexact s else s)" and x: "x = real N / 2 ^ c"
      and w: "unat w = N div 2 ^ c" and m: "if sign then N div 2 ^ c \<le> 2 ^ L else N div 2 ^ c < 2 ^ L" and b: "b \<longleftrightarrow> N mod 2 ^ c \<noteq> 0"
  proof -
    have k: "- (2 ^ L) \<le> (if sign then - int (N div 2 ^ c) else int (N div 2 ^ c))" "(if sign then - int (N div 2 ^ c) else int (N div 2 ^ c)) \<le> 2 ^ L - 1"
      using m zero_less_power [of "2::int" L] unfolding cast of_nat_power of_nat_numeral
      by (cases sign; simp_all only: if_True if_False zero_less_numeral simp_thms; linarith)+
    show ?thesis unfolding R b L_def si_outcome [OF w k [unfolded L_def]] by (rule trunc_rounds [OF x])
  qed
qed

context float_format
begin

lemma eq_pack_iff:
  assumes "0 \<le> e" and "e \<le> int E"
  shows "a = packUI sg e 0 \<longleftrightarrow> fl_sign a = sg \<and> expUI a = e \<and> fracUI a = 0"
proof
  have "nat e < Suc E" using assms by linarith
  then have "nat e * 2 ^ f < Suc E * 2 ^ f" by (rule mult_less_mono1) simp
  then have l: "nat e * 2 ^ f + unat (0 :: 'a word) < 2 ^ (LENGTH('a) - 1)" unfolding width [symmetric] by simp
  assume "a = packUI sg e 0"
  then have m: "fl_sign a = sg" "fl_mag a = nat e * 2 ^ f" using pack_sign_mag [OF assms(1) l] by simp_all
  have "(nat (expUI a) * 2 ^ f + unat (fracUI a)) div 2 ^ f = nat (expUI a)" "(nat (expUI a) * 2 ^ f + unat (fracUI a)) mod 2 ^ f = unat (fracUI a)"
    using frac_range [of a] by simp_all
  with m(2) have "nat (expUI a) = nat e" "unat (fracUI a) = 0" unfolding mag_law by simp_all
  then show "fl_sign a = sg \<and> expUI a = e \<and> fracUI a = 0" using m(1) assms(1) exp_range(1) [of a] by (simp add: unat_eq_zero nat_eq_iff)
next
  assume "fl_sign a = sg \<and> expUI a = e \<and> fracUI a = 0"
  then show "a = packUI sg e 0" using unpack_pack [of a] by (simp add: sign_law)
qed

lemma sig_of_frac: "expUI a \<noteq> 0 \<Longrightarrow> sig_of a = fracUI a OR 2 ^ f" and sig_of_least: "expUI a \<noteq> 0 \<Longrightarrow> unat (sig_of a) = 2 ^ f \<longleftrightarrow> fracUI a = 0"
proof -
  assume e: "expUI a \<noteq> 0"
  show s: "sig_of a = fracUI a OR 2 ^ f" using e by (simp add: sig_of_def)
  have "(2::nat) ^ f < 2 ^ Suc (LENGTH('a) - 1)" unfolding power_Suc width [symmetric] by simp
  then have "f < LENGTH('a)" by simp
  then show "unat (sig_of a) = 2 ^ f \<longleftrightarrow> fracUI a = 0" unfolding s using or_hidden_bit(2) [OF frac_range, of a] by (simp add: unat_eq_zero)
qed

end

lemma magnitude_over:
  fixes g :: nat
  assumes "2 ^ f \<le> g" and "k \<le> l" and "sg \<Longrightarrow> g \<noteq> 2 ^ f \<or> k < l"
  shows "if sg then 2 ^ (f + k) < g * 2 ^ l else 2 ^ (f + k) \<le> g * 2 ^ l"
proof -
  have p: "(2::nat) ^ k \<le> 2 ^ l" using assms(2) by (rule power_increasing) simp
  have "2 ^ f * 2 ^ k \<le> g * 2 ^ l" using assms(1) p by (rule mult_le_mono)
  moreover have "2 ^ f * 2 ^ k < g * 2 ^ l" if sg
  proof (cases "k < l")
    case True
    then have "(2::nat) ^ k < 2 ^ l" by simp
    then have "(2::nat) ^ f * 2 ^ k < 2 ^ f * 2 ^ l" by simp
    also have "\<dots> \<le> g * 2 ^ l" using assms(1) by (rule mult_le_mono1)
    finally show ?thesis .
  next
    case False
    with that assms(1,3) have "2 ^ f < g" by fastforce
    then have "2 ^ f * 2 ^ k < g * 2 ^ k" by simp
    also have "\<dots> \<le> g * 2 ^ l" using p by (rule mult_le_mono2)
    finally show ?thesis .
  qed
  ultimately show ?thesis by (simp add: power_add)
qed

lemma div_pow_less: "N < 2 ^ Suc k \<Longrightarrow> 0 < c \<Longrightarrow> N div 2 ^ c < 2 ^ k" for N :: nat
proof -
  assume N: "N < 2 ^ Suc k" and "0 < c"
  then have "(2::nat) ^ 1 \<le> 2 ^ c" by (intro power_increasing) simp_all
  then have "(2::nat) ^ k * 2 ^ 1 \<le> 2 ^ k * 2 ^ c" by (rule mult_le_mono2)
  moreover have "N < 2 ^ k * 2 ^ 1" using N by simp
  ultimately have "N < 2 ^ k * 2 ^ c" by (rule less_le_trans [rotated])
  then show ?thesis by (rule less_mult_imp_div_less)
qed

section \<open>The routines from single precision\<close>

lemma f32_to_ui32_r_minMag_rounds:
  "int_rounds 0 (2 ^ 32 - 1) softfloat_round_minMag exact (fl_sign a) (\<bar>fl_real 23 a\<bar> / 2 ^ 149) s
    (map_prod (\<lambda>z. int (unat z)) id (f32_to_ui32_r_minMag a exact s))"
proof -
  let ?ex = "expF32UI a" and ?x = "\<bar>fl_real 23 a\<bar> / 2 ^ 149" and ?R = "f32_to_ui32_r_minMag a exact s"
  consider (zero) "?ex < 127" | (bad) "127 \<le> ?ex" "fl_sign a \<or> 158 < ?ex" | (ok) "127 \<le> ?ex" "?ex \<le> 158" "\<not> fl_sign a" by linarith
  then show ?thesis
  proof cases
    case zero
    then have "?R = (0, if exact \<and> ?x \<noteq> 0 then softfloat_raiseFlags softfloat_flag_inexact s else s)"
      unfolding value_zero by (simp add: f32_to_ui32_r_minMag_def Let_def)
    from trunc_unsigned(1) [OF this _ value_below_one(1) [OF zero]] show ?thesis by simp
  next
    case bad
    then have "?R = (0xFFFFFFFF, softfloat_raiseFlags softfloat_flag_invalid s)" by (auto simp: f32_to_ui32_r_minMag_def Let_def f32.sign_law)
    moreover have "fl_sign a \<and> 1 \<le> ?x \<or> 2 ^ LENGTH(32) \<le> ?x" using bad value_ge(1) [of 0 a] value_ge(1) [of 32 a] by auto
    ultimately show ?thesis using trunc_unsigned(2) [of ?R "0xFFFFFFFF"] by simp
  next
    case ok
    define c where "c = nat (158 - ?ex)"
    let ?w = "push_bit 8 (f32.sig_of a)"
    have w: "unat ?w = unat (f32.sig_of a) * 2 ^ 8" by (rule unat_push_bit_small) (use f32.sig_of_laws(1) [of a] in simp)
    have R: "?R = (drop_bit c ?w, if exact \<and> ?w AND (2 ^ c - 1) \<noteq> 0 then softfloat_raiseFlags softfloat_flag_inexact s else s)"
      using ok by (simp add: f32_to_ui32_r_minMag_def Let_def f32.sign_law f32.sig_of_def c_def push_bit_of_1 del: push_bit_numeral)
    have x: "?x = real (unat (f32.sig_of a) * 2 ^ 8) / 2 ^ c" by (rule f32_value) (use ok in \<open>simp_all add: c_def\<close>)
    have b: "?w AND (2 ^ c - 1) \<noteq> 0 \<longleftrightarrow> unat (f32.sig_of a) * 2 ^ 8 mod 2 ^ c \<noteq> 0"
      unfolding and_mask_take_bit w [symmetric] unat_take_bit_mod [symmetric] unat_eq_zero ..
    have d: "unat (drop_bit c ?w) = unat (f32.sig_of a) * 2 ^ 8 div 2 ^ c" unfolding unat_drop_bit_div w ..
    from trunc_unsigned(3) [OF R ok(3) x d b] show ?thesis by simp
  qed
qed

lemma f32_to_i32_r_minMag_rounds:
  assumes "\<not> fl_nan 23 255 a"
  shows "int_rounds (- (2 ^ 31)) (2 ^ 31 - 1) softfloat_round_minMag exact (fl_sign a) (\<bar>fl_real 23 a\<bar> / 2 ^ 149) s
    (map_prod sint id (f32_to_i32_r_minMag a exact s))"
proof -
  let ?ex = "expF32UI a" and ?x = "\<bar>fl_real 23 a\<bar> / 2 ^ 149" and ?R = "f32_to_i32_r_minMag a exact s" and ?g = "unat (f32.sig_of a)"
  have nan: "\<not> (?ex = 255 \<and> fracF32UI a \<noteq> 0)" using assms f32.nan_iff [of a] by (simp add: fl_nan_def)
  note pk = f32.eq_pack_iff [of 158 a True]
  consider (zero) "?ex < 127" | (least) "a = packToF32UI True 158 0" | (bad) "158 \<le> ?ex" "a \<noteq> packToF32UI True 158 0"
    | (ok) "127 \<le> ?ex" "?ex < 158" by linarith
  then show ?thesis
  proof cases
    case zero
    then have "?R = (0, if exact \<and> ?x \<noteq> 0 then softfloat_raiseFlags softfloat_flag_inexact s else s)"
      unfolding value_zero by (simp add: f32_to_i32_r_minMag_def Let_def)
    from trunc_signed(1) [OF this _ value_below_one(1) [OF zero]] show ?thesis by simp
  next
    case least
    then have l: "fl_sign a" "?ex = 158" "fracF32UI a = 0" using pk by simp_all
    then have R: "?R = (if fl_sign a then - 0x80000000 else 0x80000000, if exact \<and> False then softfloat_raiseFlags softfloat_flag_inexact s else s)"
      using least by (simp add: f32_to_i32_r_minMag_def Let_def)
    have g: "?g = 2 ^ 23" using l f32.sig_of_least [of a] by simp
    have x: "?x = real (?g * 2 ^ 8) / 2 ^ 0" by (rule f32_value) (use l in simp_all)
    from trunc_signed(3) [OF R x] g l(1) show ?thesis by simp
  next
    case bad
    define l where "l = nat (?ex - 150)"
    have R: "?R = (if fl_sign a then - 0x7FFFFFFF - 1 else 0x7FFFFFFF, softfloat_raiseFlags softfloat_flag_invalid s)"
      using bad nan by (auto simp: f32_to_i32_r_minMag_def Let_def f32.sign_law)
    have z: "sint (if fl_sign a then - 0x7FFFFFFF - 1 else 0x7FFFFFFF :: int32_t) = (if fl_sign a then - (2 ^ (LENGTH(32) - 1)) else 2 ^ (LENGTH(32) - 1) - 1)" by simp
    have x: "?x = real (?g * 2 ^ l) / 2 ^ 0" by (rule f32_value) (use bad in \<open>simp_all add: l_def\<close>)
    have m: "if fl_sign a then 2 ^ (LENGTH(32) - 1) < ?g * 2 ^ l div 2 ^ 0 else 2 ^ (LENGTH(32) - 1) \<le> ?g * 2 ^ l div 2 ^ 0"
    proof -
      have "2 ^ 23 \<le> ?g" "8 \<le> l" using f32.sig_of_laws(2) [of a] bad(1) by (simp_all add: l_def le_nat_iff)
      moreover have "?g \<noteq> 2 ^ 23 \<or> 8 < l" if "fl_sign a"
        using that bad pk f32.sig_of_least [of a] by (cases "?ex = 158") (simp_all add: l_def zless_nat_eq_int_zless)
      ultimately show ?thesis using magnitude_over [of 23 ?g 8 l "fl_sign a"] by (simp cong: if_cong)
    qed
    from trunc_signed(2) [OF R z x m] show ?thesis by simp
  next
    case ok
    define c where "c = nat (158 - ?ex)"
    have u: "unat (word_of_int (158 - ?ex) :: uint32_t) = c" unfolding c_def by (rule unat_int_small) (use ok in simp_all)
    have c: "0 < c" "c < 32" using ok by (simp_all add: c_def)
    let ?w = "push_bit 8 (f32.sig_of a)"
    have w: "unat ?w = ?g * 2 ^ 8" by (rule unat_push_bit_small) (use f32.sig_of_laws(1) [of a] in simp)
    have neg: "neg_count (word_of_int (158 - ?ex)) 31 = 32 - c" using neg_count_eq [of "word_of_int (158 - ?ex)"] c unfolding u by simp
    have R: "?R = (if fl_sign a then - drop_bit c ?w else drop_bit c ?w, if exact \<and> push_bit (32 - c) ?w \<noteq> 0 then softfloat_raiseFlags softfloat_flag_inexact s else s)"
      unfolding f32_to_i32_r_minMag_def Let_def neg c_def [symmetric] using ok by (simp add: f32.sign_law f32.sig_of_def del: push_bit_numeral)
    have x: "?x = real (?g * 2 ^ 8) / 2 ^ c" by (rule f32_value) (use ok in \<open>simp_all add: c_def\<close>)
    have b: "push_bit (32 - c) ?w \<noteq> 0 \<longleftrightarrow> ?g * 2 ^ 8 mod 2 ^ c \<noteq> 0" using shl_zero [of c ?w] c unfolding w by simp
    have d: "unat (drop_bit c ?w) = ?g * 2 ^ 8 div 2 ^ c" unfolding unat_drop_bit_div w ..
    have "?g * 2 ^ 8 div 2 ^ c < 2 ^ 31" by (rule div_pow_less) (use f32.sig_of_laws(1) [of a] c in simp_all)
    with trunc_signed(3) [OF R x d _ b] show ?thesis by simp
  qed
qed

lemma and_low_bits:
  assumes "0 < c" and "c < 32"
  shows "unat (word_of_int (- int c) AND 31 :: uint32_t) = 32 - c"
  using neg_count_eq [of "word_of_nat c"] assms by (simp add: unat_of_nat)

text \<open>The inexactness test of the 64-bit routines: the bits of the significand below the integer part.\<close>

lemma f32_trunc64_inexact:
  fixes a :: uint32_t
  assumes "127 \<le> expF32UI a" and "expF32UI a \<le> 190"
  defines "c \<equiv> nat (190 - expF32UI a)"
  shows "expF32UI a - 150 < 0 \<and> push_bit (unat (word_of_int (expF32UI a - 150) AND 31 :: uint32_t)) (f32.sig_of a) \<noteq> 0 \<longleftrightarrow>
    unat (f32.sig_of a) * 2 ^ 40 mod 2 ^ c \<noteq> 0"
proof (cases "expF32UI a < 150")
  case True
  define d where "d = nat (150 - expF32UI a)"
  have d: "0 < d" "d < 32" "expF32UI a - 150 = - int d" using True assms(1) by (simp_all add: d_def)
  have c: "c = d + 40" using True unfolding c_def d_def by (simp add: nat_add_distrib)
  have "unat (f32.sig_of a) * 2 ^ 40 mod 2 ^ c = unat (f32.sig_of a) mod 2 ^ d * 2 ^ 40" unfolding c power_add by (simp add: mult_mod_left)
  moreover have "push_bit (32 - d) (f32.sig_of a) \<noteq> 0 \<longleftrightarrow> unat (f32.sig_of a) mod 2 ^ d \<noteq> 0"
    using shl_zero [of d "f32.sig_of a"] d(2) by simp
  ultimately show ?thesis unfolding d(3) and_low_bits [OF d(1,2)] using d(1) by simp
next
  case False
  then have "c \<le> 40" by (simp add: c_def)
  then have "2 ^ c dvd unat (f32.sig_of a) * 2 ^ 40" by (intro dvd_mult le_imp_power_dvd)
  with False show ?thesis by (simp add: dvd_eq_mod_eq_0)
qed

lemma f32_to_ui64_r_minMag_rounds:
  "int_rounds 0 (2 ^ 64 - 1) softfloat_round_minMag exact (fl_sign a) (\<bar>fl_real 23 a\<bar> / 2 ^ 149) s
    (map_prod (\<lambda>z. int (unat z)) id (f32_to_ui64_r_minMag a exact s))"
proof -
  let ?ex = "expF32UI a" and ?x = "\<bar>fl_real 23 a\<bar> / 2 ^ 149" and ?R = "f32_to_ui64_r_minMag a exact s" and ?g = "unat (f32.sig_of a)"
  consider (zero) "?ex < 127" | (bad) "127 \<le> ?ex" "fl_sign a \<or> 190 < ?ex" | (ok) "127 \<le> ?ex" "?ex \<le> 190" "\<not> fl_sign a" by linarith
  then show ?thesis
  proof cases
    case zero
    then have "?R = (0, if exact \<and> ?x \<noteq> 0 then softfloat_raiseFlags softfloat_flag_inexact s else s)"
      unfolding value_zero by (simp add: f32_to_ui64_r_minMag_def Let_def)
    from trunc_unsigned(1) [OF this _ value_below_one(1) [OF zero]] show ?thesis by simp
  next
    case bad
    then have "?R = (0xFFFFFFFFFFFFFFFF, softfloat_raiseFlags softfloat_flag_invalid s)" by (auto simp: f32_to_ui64_r_minMag_def Let_def f32.sign_law)
    moreover have "fl_sign a \<and> 1 \<le> ?x \<or> 2 ^ LENGTH(64) \<le> ?x" using bad value_ge(1) [of 0 a] value_ge(1) [of 64 a] by auto
    ultimately show ?thesis using trunc_unsigned(2) [of ?R "0xFFFFFFFFFFFFFFFF"] by simp
  next
    case ok
    define c where "c = nat (190 - ?ex)"
    let ?w = "push_bit 40 (ucast (f32.sig_of a)) :: uint64_t"
    have w: "unat ?w = ?g * 2 ^ 40" by (rule unat_push_ucast) (use f32.sig_of_laws(1) [of a] in simp)
    have R: "?R = (drop_bit c ?w, if exact \<and> (?ex - 150 < 0 \<and> push_bit (unat (word_of_int (?ex - 150) AND 31 :: uint32_t)) (f32.sig_of a) \<noteq> 0)
        then softfloat_raiseFlags softfloat_flag_inexact s else s)"
      using ok by (simp add: f32_to_ui64_r_minMag_def Let_def f32.sign_law f32.sig_of_def c_def [symmetric] del: push_bit_numeral)
    have x: "?x = real (?g * 2 ^ 40) / 2 ^ c" by (rule f32_value) (use ok in \<open>simp_all add: c_def\<close>)
    have d: "unat (drop_bit c ?w) = ?g * 2 ^ 40 div 2 ^ c" unfolding unat_drop_bit_div w ..
    from trunc_unsigned(3) [OF R ok(3) x d] f32_trunc64_inexact [OF ok(1,2), folded c_def] show ?thesis by simp
  qed
qed

lemma f32_to_i64_r_minMag_rounds:
  assumes "\<not> fl_nan 23 255 a"
  shows "int_rounds (- (2 ^ 63)) (2 ^ 63 - 1) softfloat_round_minMag exact (fl_sign a) (\<bar>fl_real 23 a\<bar> / 2 ^ 149) s
    (map_prod sint id (f32_to_i64_r_minMag a exact s))"
proof -
  let ?ex = "expF32UI a" and ?x = "\<bar>fl_real 23 a\<bar> / 2 ^ 149" and ?R = "f32_to_i64_r_minMag a exact s" and ?g = "unat (f32.sig_of a)"
  have nan: "\<not> (?ex = 255 \<and> fracF32UI a \<noteq> 0)" using assms f32.nan_iff [of a] by (simp add: fl_nan_def)
  note pk = f32.eq_pack_iff [of 190 a True]
  consider (zero) "?ex < 127" | (least) "a = packToF32UI True 190 0" | (bad) "190 \<le> ?ex" "a \<noteq> packToF32UI True 190 0"
    | (ok) "127 \<le> ?ex" "?ex < 190" by linarith
  then show ?thesis
  proof cases
    case zero
    then have "?R = (0, if exact \<and> ?x \<noteq> 0 then softfloat_raiseFlags softfloat_flag_inexact s else s)"
      unfolding value_zero by (simp add: f32_to_i64_r_minMag_def Let_def)
    from trunc_signed(1) [OF this _ value_below_one(1) [OF zero]] show ?thesis by simp
  next
    case least
    then have l: "fl_sign a" "?ex = 190" "fracF32UI a = 0" using pk by simp_all
    then have R: "?R = (if fl_sign a then - 0x8000000000000000 else 0x8000000000000000, if exact \<and> False then softfloat_raiseFlags softfloat_flag_inexact s else s)"
      using least by (simp add: f32_to_i64_r_minMag_def Let_def)
    have g: "?g = 2 ^ 23" using l f32.sig_of_least [of a] by simp
    have x: "?x = real (?g * 2 ^ 40) / 2 ^ 0" by (rule f32_value) (use l in simp_all)
    from trunc_signed(3) [OF R x] g l(1) show ?thesis by simp
  next
    case bad
    define l where "l = nat (?ex - 150)"
    have R: "?R = (if fl_sign a then - 0x7FFFFFFFFFFFFFFF - 1 else 0x7FFFFFFFFFFFFFFF, softfloat_raiseFlags softfloat_flag_invalid s)"
      using bad nan by (auto simp: f32_to_i64_r_minMag_def Let_def f32.sign_law)
    have z: "sint (if fl_sign a then - 0x7FFFFFFFFFFFFFFF - 1 else 0x7FFFFFFFFFFFFFFF :: int64_t) = (if fl_sign a then - (2 ^ (LENGTH(64) - 1)) else 2 ^ (LENGTH(64) - 1) - 1)" by simp
    have x: "?x = real (?g * 2 ^ l) / 2 ^ 0" by (rule f32_value) (use bad in \<open>simp_all add: l_def\<close>)
    have m: "if fl_sign a then 2 ^ (LENGTH(64) - 1) < ?g * 2 ^ l div 2 ^ 0 else 2 ^ (LENGTH(64) - 1) \<le> ?g * 2 ^ l div 2 ^ 0"
    proof -
      have "2 ^ 23 \<le> ?g" "40 \<le> l" using f32.sig_of_laws(2) [of a] bad(1) by (simp_all add: l_def le_nat_iff)
      moreover have "?g \<noteq> 2 ^ 23 \<or> 40 < l" if "fl_sign a"
        using that bad pk f32.sig_of_least [of a] by (cases "?ex = 190") (simp_all add: l_def zless_nat_eq_int_zless)
      ultimately show ?thesis using magnitude_over [of 23 ?g 40 l "fl_sign a"] by (simp cong: if_cong)
    qed
    from trunc_signed(2) [OF R z x m] show ?thesis by simp
  next
    case ok
    define c where "c = nat (190 - ?ex)"
    have c: "0 < c" using ok by (simp add: c_def)
    let ?w = "push_bit 40 (ucast (f32.sig_of a)) :: uint64_t"
    have w: "unat ?w = ?g * 2 ^ 40" by (rule unat_push_ucast) (use f32.sig_of_laws(1) [of a] in simp)
    have R: "?R = (if fl_sign a then - drop_bit c ?w else drop_bit c ?w,
        if exact \<and> (?ex - 150 < 0 \<and> push_bit (unat (word_of_int (?ex - 150) AND 31 :: uint32_t)) (f32.sig_of a) \<noteq> 0)
        then softfloat_raiseFlags softfloat_flag_inexact s else s)"
      using ok by (simp add: f32_to_i64_r_minMag_def Let_def f32.sign_law f32.sig_of_def c_def [symmetric] del: push_bit_numeral)
    have x: "?x = real (?g * 2 ^ 40) / 2 ^ c" by (rule f32_value) (use ok in \<open>simp_all add: c_def\<close>)
    have d: "unat (drop_bit c ?w) = ?g * 2 ^ 40 div 2 ^ c" unfolding unat_drop_bit_div w ..
    have "?g * 2 ^ 40 div 2 ^ c < 2 ^ 63" by (rule div_pow_less) (use f32.sig_of_laws(1) [of a] c in simp_all)
    with trunc_signed(3) [OF R x d] f32_trunc64_inexact [of a, folded c_def] ok show ?thesis by simp
  qed
qed

section \<open>The routines from double precision\<close>

text \<open>The inexactness tests: shifting the integer part back, and shifting the integer part out.\<close>

lemma f64_trunc32:
  fixes a :: uint64_t
  assumes "1023 \<le> expF64UI a" and "expF64UI a \<le> 1054"
  defines "c \<equiv> nat (1075 - expF64UI a)"
  shows "unat (ucast (drop_bit c (f64.sig_of a)) :: uint32_t) = unat (f64.sig_of a) div 2 ^ c"
    and "push_bit c (ucast (ucast (drop_bit c (f64.sig_of a)) :: uint32_t)) \<noteq> f64.sig_of a \<longleftrightarrow> unat (f64.sig_of a) mod 2 ^ c \<noteq> 0"
    and "unat (f64.sig_of a) div 2 ^ c < 2 ^ 32"
proof -
  let ?g = "unat (f64.sig_of a)"
  have "(2::nat) ^ 21 \<le> 2 ^ c" using assms(2) by (intro power_increasing) (simp_all add: c_def le_nat_iff)
  then have "2 ^ 32 * (2::nat) ^ 21 \<le> 2 ^ 32 * 2 ^ c" by (rule mult_le_mono2)
  moreover have "?g < 2 ^ 32 * 2 ^ 21" using f64.sig_of_laws(1) [of a] by simp
  ultimately have "?g < 2 ^ 32 * 2 ^ c" by (rule less_le_trans [rotated])
  then show l: "?g div 2 ^ c < 2 ^ 32" by (rule less_mult_imp_div_less)
  then show u: "unat (ucast (drop_bit c (f64.sig_of a)) :: uint32_t) = ?g div 2 ^ c" by (simp add: unat_ucast_mod unat_drop_bit_div)
  have "?g div 2 ^ c * 2 ^ c < 2 ^ 64"
    by (rule le_less_trans [OF div_times_less_eq_dividend]) (use f64.sig_of_laws(1) [of a] in simp)
  then have "unat (push_bit c (ucast (ucast (drop_bit c (f64.sig_of a)) :: uint32_t)) :: uint64_t) = ?g div 2 ^ c * 2 ^ c"
    using unat_push_ucast [where 'b = 64, of "ucast (drop_bit c (f64.sig_of a)) :: uint32_t" c] unfolding u by simp
  then show "push_bit c (ucast (ucast (drop_bit c (f64.sig_of a)) :: uint32_t)) \<noteq> f64.sig_of a \<longleftrightarrow> ?g mod 2 ^ c \<noteq> 0"
    unfolding word_unat_eq_iff using div_mult_mod_eq [of ?g "2 ^ c"] by linarith
qed

lemma f64_to_ui32_r_minMag_rounds:
  "int_rounds 0 (2 ^ 32 - 1) softfloat_round_minMag exact (fl_sign a) (\<bar>fl_real 52 a\<bar> / 2 ^ 1074) s
    (map_prod (\<lambda>z. int (unat z)) id (f64_to_ui32_r_minMag a exact s))"
proof -
  let ?ex = "expF64UI a" and ?x = "\<bar>fl_real 52 a\<bar> / 2 ^ 1074" and ?R = "f64_to_ui32_r_minMag a exact s" and ?g = "unat (f64.sig_of a)"
  consider (zero) "?ex < 1023" | (bad) "1023 \<le> ?ex" "fl_sign a \<or> 1054 < ?ex" | (ok) "1023 \<le> ?ex" "?ex \<le> 1054" "\<not> fl_sign a" by linarith
  then show ?thesis
  proof cases
    case zero
    then have "?R = (0, if exact \<and> ?x \<noteq> 0 then softfloat_raiseFlags softfloat_flag_inexact s else s)"
      unfolding value_zero by (simp add: f64_to_ui32_r_minMag_def Let_def)
    from trunc_unsigned(1) [OF this _ value_below_one(2) [OF zero]] show ?thesis by simp
  next
    case bad
    then have "?R = (0xFFFFFFFF, softfloat_raiseFlags softfloat_flag_invalid s)" by (auto simp: f64_to_ui32_r_minMag_def Let_def f64.sign_law)
    moreover have "fl_sign a \<and> 1 \<le> ?x \<or> 2 ^ LENGTH(32) \<le> ?x" using bad value_ge(2) [of 0 a] value_ge(2) [of 32 a] by auto
    ultimately show ?thesis using trunc_unsigned(2) [of ?R "0xFFFFFFFF"] by simp
  next
    case ok
    define c where "c = nat (1075 - ?ex)"
    note t = f64_trunc32 [OF ok(1,2), folded c_def]
    have R: "?R = (ucast (drop_bit c (f64.sig_of a)), if exact \<and> push_bit c (ucast (ucast (drop_bit c (f64.sig_of a)) :: uint32_t)) \<noteq> f64.sig_of a
        then softfloat_raiseFlags softfloat_flag_inexact s else s)"
      using ok by (simp add: f64_to_ui32_r_minMag_def Let_def f64.sign_law f64.sig_of_def c_def [symmetric] del: push_bit_numeral)
    have x: "?x = real (?g * 2 ^ 0) / 2 ^ c" by (rule f64_value) (use ok in \<open>simp_all add: c_def\<close>)
    from trunc_unsigned(3) [OF R ok(3) x] t show ?thesis by simp
  qed
qed

lemma f64_to_i32_r_minMag_rounds:
  assumes "\<not> fl_nan 52 2047 a"
  shows "int_rounds (- (2 ^ 31)) (2 ^ 31 - 1) softfloat_round_minMag exact (fl_sign a) (\<bar>fl_real 52 a\<bar> / 2 ^ 1074) s
    (map_prod sint id (f64_to_i32_r_minMag a exact s))"
proof -
  let ?ex = "expF64UI a" and ?x = "\<bar>fl_real 52 a\<bar> / 2 ^ 1074" and ?R = "f64_to_i32_r_minMag a exact s" and ?g = "unat (f64.sig_of a)"
  have nan: "\<not> (?ex = 2047 \<and> fracF64UI a \<noteq> 0)" using assms f64.nan_iff [of a] by (simp add: fl_nan_def)
  have z: "sint (if fl_sign a then - 0x7FFFFFFF - 1 else 0x7FFFFFFF :: int32_t) = (if fl_sign a then - (2 ^ (LENGTH(32) - 1)) else 2 ^ (LENGTH(32) - 1) - 1)" by simp
  consider (zero) "?ex < 1023" | (bad) "1054 < ?ex" | (ok) "1023 \<le> ?ex" "?ex \<le> 1054" by linarith
  then show ?thesis
  proof cases
    case zero
    then have "?R = (0, if exact \<and> ?x \<noteq> 0 then softfloat_raiseFlags softfloat_flag_inexact s else s)"
      unfolding value_zero by (simp add: f64_to_i32_r_minMag_def Let_def)
    from trunc_signed(1) [OF this _ value_below_one(2) [OF zero]] show ?thesis by simp
  next
    case bad
    then have "?R = (if fl_sign a then - 0x7FFFFFFF - 1 else 0x7FFFFFFF, softfloat_raiseFlags softfloat_flag_invalid s)"
      using nan by (auto simp: f64_to_i32_r_minMag_def Let_def f64.sign_law)
    then have R: "map_prod sint id ?R = (if fl_sign a \<and> - (2 ^ 31) < (0::int) then - (2 ^ 31) else 2 ^ 31 - 1, softfloat_raiseFlags softfloat_flag_invalid s)" by simp
    show ?thesis unfolding R by (rule int_rounds_overflow [OF value_ge(2) [of 32]]) (use bad in simp_all)
  next
    case ok
    define c where "c = nat (1075 - ?ex)"
    define w where "w = (ucast (drop_bit c (f64.sig_of a)) :: uint32_t)"
    define m where "m = ?g div 2 ^ c"
    note t = f64_trunc32 [OF ok, folded c_def, folded w_def m_def]
    have x: "?x = real ?g / 2 ^ c" using f64_value [of a c 0] ok by (simp add: c_def)
    have m1: "m \<noteq> 0"
    proof -
      have "2 ^ c * 1 \<le> (2::nat) ^ 52 * 1" using ok by (intro mult_le_mono1 power_increasing) (simp_all add: c_def)
      also have "\<dots> \<le> ?g" using f64.sig_of_laws(2) [of a] ok by simp
      finally show ?thesis by (simp add: m_def div_eq_0_iff)
    qed
    have R: "?R = (if (sint (if fl_sign a then - w else w) < 0) \<noteq> fl_sign a
        then (if fl_sign a then - 0x7FFFFFFF - 1 else 0x7FFFFFFF, softfloat_raiseFlags softfloat_flag_invalid s)
        else (if fl_sign a then - w else w, if exact \<and> push_bit c (ucast w) \<noteq> f64.sig_of a then softfloat_raiseFlags softfloat_flag_inexact s else s))"
      using ok by (simp add: f64_to_i32_r_minMag_def Let_def f64.sign_law f64.sig_of_def c_def [symmetric] w_def del: push_bit_numeral)
    have w0: "(if fl_sign a then - w else w) \<noteq> 0" using m1 t(1) by auto
    have range: "(sint (if fl_sign a then - w else w) < 0) \<noteq> fl_sign a \<longleftrightarrow> (if fl_sign a then 2 ^ 31 < m else 2 ^ 31 \<le> m)"
      using signed_result(1) [of "fl_sign a" w] w0 unfolding t(1) by auto
    show ?thesis
    proof (cases "(sint (if fl_sign a then - w else w) < 0) \<noteq> fl_sign a")
      case True
      with range have "if fl_sign a then 2 ^ (LENGTH(32) - 1) < ?g div 2 ^ c else 2 ^ (LENGTH(32) - 1) \<le> ?g div 2 ^ c" by (auto simp: m_def)
      from trunc_signed(2) [OF R [unfolded if_P [OF True]] z x this] show ?thesis by simp
    next
      case False
      with range have "if fl_sign a then ?g div 2 ^ c \<le> 2 ^ (LENGTH(32) - 1) else ?g div 2 ^ c < 2 ^ (LENGTH(32) - 1)" by (auto simp: m_def)
      from trunc_signed(3) [OF R [unfolded if_not_P [OF False]] x t(1) [unfolded m_def] this t(2)] show ?thesis by simp
    qed
  qed
qed

lemma and_low_bits64:
  assumes "0 < c" and "c < 64"
  shows "unat (word_of_int (- int c) AND 63 :: uint32_t) = 64 - c"
  using neg_count_eq64 [of "word_of_nat c"] assms by (simp add: unat_of_nat)

lemma f64_trunc64_inexact:
  assumes "1023 \<le> expF64UI a" and "expF64UI a < 1075"
  defines "c \<equiv> nat (1075 - expF64UI a)"
  shows "push_bit (unat (word_of_int (expF64UI a - 1075) AND 63 :: uint32_t)) (f64.sig_of a) \<noteq> 0 \<longleftrightarrow> unat (f64.sig_of a) mod 2 ^ c \<noteq> 0"
proof -
  have c: "0 < c" "c < 64" "expF64UI a - 1075 = - int c" using assms(1,2) by (simp_all add: c_def)
  show ?thesis unfolding c(3) and_low_bits64 [OF c(1,2)] using shl_zero [of c "f64.sig_of a"] c(2) by simp
qed

lemma f64_shl:
  assumes "1075 \<le> expF64UI a" and "expF64UI a \<le> 1086"
  defines "l \<equiv> nat (expF64UI a - 1075)"
  shows "unat (push_bit l (f64.sig_of a)) = unat (f64.sig_of a) * 2 ^ l"
proof (rule unat_push_bit_small)
  have "unat (f64.sig_of a) * 2 ^ l < 2 ^ Suc 52 * 2 ^ 11"
    using f64.sig_of_laws(1) [of a] assms(2) by (intro mult_less_le_imp_less power_increasing) (simp_all add: l_def)
  then show "unat (f64.sig_of a) * 2 ^ l < 2 ^ LENGTH(64)" by simp
qed

lemma f64_to_ui64_r_minMag_rounds:
  "int_rounds 0 (2 ^ 64 - 1) softfloat_round_minMag exact (fl_sign a) (\<bar>fl_real 52 a\<bar> / 2 ^ 1074) s
    (map_prod (\<lambda>z. int (unat z)) id (f64_to_ui64_r_minMag a exact s))"
proof -
  let ?ex = "expF64UI a" and ?x = "\<bar>fl_real 52 a\<bar> / 2 ^ 1074" and ?R = "f64_to_ui64_r_minMag a exact s" and ?g = "unat (f64.sig_of a)"
  consider (zero) "?ex < 1023" | (bad) "1023 \<le> ?ex" "fl_sign a \<or> 1086 < ?ex" | (left) "1075 \<le> ?ex" "?ex \<le> 1086" "\<not> fl_sign a"
    | (ok) "1023 \<le> ?ex" "?ex < 1075" "\<not> fl_sign a" by linarith
  then show ?thesis
  proof cases
    case zero
    then have "?R = (0, if exact \<and> ?x \<noteq> 0 then softfloat_raiseFlags softfloat_flag_inexact s else s)"
      unfolding value_zero by (simp add: f64_to_ui64_r_minMag_def Let_def)
    from trunc_unsigned(1) [OF this _ value_below_one(2) [OF zero]] show ?thesis by simp
  next
    case bad
    then have "?R = (0xFFFFFFFFFFFFFFFF, softfloat_raiseFlags softfloat_flag_invalid s)" by (auto simp: f64_to_ui64_r_minMag_def Let_def f64.sign_law)
    moreover have "fl_sign a \<and> 1 \<le> ?x \<or> 2 ^ LENGTH(64) \<le> ?x" using bad value_ge(2) [of 0 a] value_ge(2) [of 64 a] by auto
    ultimately show ?thesis using trunc_unsigned(2) [of ?R "0xFFFFFFFFFFFFFFFF"] by simp
  next
    case left
    define l where "l = nat (?ex - 1075)"
    have R: "?R = (push_bit l (f64.sig_of a), if exact \<and> False then softfloat_raiseFlags softfloat_flag_inexact s else s)"
      using left by (simp add: f64_to_ui64_r_minMag_def Let_def f64.sign_law f64.sig_of_def l_def [symmetric] del: push_bit_numeral)
    have x: "?x = real (?g * 2 ^ l) / 2 ^ 0" by (rule f64_value) (use left in \<open>simp_all add: l_def\<close>)
    from trunc_unsigned(3) [OF R left(3) x] f64_shl [OF left(1,2), folded l_def] show ?thesis by simp
  next
    case ok
    define c where "c = nat (1075 - ?ex)"
    have R: "?R = (drop_bit c (f64.sig_of a), if exact \<and> push_bit (unat (word_of_int (?ex - 1075) AND 63 :: uint32_t)) (f64.sig_of a) \<noteq> 0
        then softfloat_raiseFlags softfloat_flag_inexact s else s)"
      using ok by (simp add: f64_to_ui64_r_minMag_def Let_def f64.sign_law f64.sig_of_def c_def [symmetric] del: push_bit_numeral)
    have x: "?x = real ?g / 2 ^ c" using f64_value [of a c 0] ok by (simp add: c_def)
    from trunc_unsigned(3) [OF R ok(3) x unat_drop_bit_div f64_trunc64_inexact [OF ok(1,2), folded c_def]] show ?thesis by simp
  qed
qed

lemma f64_to_i64_r_minMag_rounds:
  assumes "\<not> fl_nan 52 2047 a"
  shows "int_rounds (- (2 ^ 63)) (2 ^ 63 - 1) softfloat_round_minMag exact (fl_sign a) (\<bar>fl_real 52 a\<bar> / 2 ^ 1074) s
    (map_prod sint id (f64_to_i64_r_minMag a exact s))"
proof -
  let ?ex = "expF64UI a" and ?x = "\<bar>fl_real 52 a\<bar> / 2 ^ 1074" and ?R = "f64_to_i64_r_minMag a exact s" and ?g = "unat (f64.sig_of a)"
  have nan: "\<not> (?ex = 2047 \<and> fracF64UI a \<noteq> 0)" using assms f64.nan_iff [of a] by (simp add: fl_nan_def)
  note pk = f64.eq_pack_iff [of 1086 a True]
  consider (zero) "?ex < 1023" | (least) "a = packToF64UI True 1086 0" | (bad) "1086 \<le> ?ex" "a \<noteq> packToF64UI True 1086 0"
    | (left) "1075 \<le> ?ex" "?ex < 1086" | (ok) "1023 \<le> ?ex" "?ex < 1075" by linarith
  then show ?thesis
  proof cases
    case zero
    then have "?R = (0, if exact \<and> ?x \<noteq> 0 then softfloat_raiseFlags softfloat_flag_inexact s else s)"
      unfolding value_zero by (simp add: f64_to_i64_r_minMag_def Let_def)
    from trunc_signed(1) [OF this _ value_below_one(2) [OF zero]] show ?thesis by simp
  next
    case least
    then have l: "fl_sign a" "?ex = 1086" "fracF64UI a = 0" using pk by simp_all
    then have R: "?R = (if fl_sign a then - 0x8000000000000000 else 0x8000000000000000, if exact \<and> False then softfloat_raiseFlags softfloat_flag_inexact s else s)"
      using least by (simp add: f64_to_i64_r_minMag_def Let_def)
    have g: "?g = 2 ^ 52" using l f64.sig_of_least [of a] by simp
    have x: "?x = real (?g * 2 ^ 11) / 2 ^ 0" by (rule f64_value) (use l in simp_all)
    from trunc_signed(3) [OF R x] g l(1) show ?thesis by simp
  next
    case bad
    define l where "l = nat (?ex - 1075)"
    have R: "?R = (if fl_sign a then - 0x7FFFFFFFFFFFFFFF - 1 else 0x7FFFFFFFFFFFFFFF, softfloat_raiseFlags softfloat_flag_invalid s)"
      using bad nan by (auto simp: f64_to_i64_r_minMag_def Let_def f64.sign_law)
    have z: "sint (if fl_sign a then - 0x7FFFFFFFFFFFFFFF - 1 else 0x7FFFFFFFFFFFFFFF :: int64_t) = (if fl_sign a then - (2 ^ (LENGTH(64) - 1)) else 2 ^ (LENGTH(64) - 1) - 1)" by simp
    have x: "?x = real (?g * 2 ^ l) / 2 ^ 0" by (rule f64_value) (use bad in \<open>simp_all add: l_def\<close>)
    have m: "if fl_sign a then 2 ^ (LENGTH(64) - 1) < ?g * 2 ^ l div 2 ^ 0 else 2 ^ (LENGTH(64) - 1) \<le> ?g * 2 ^ l div 2 ^ 0"
    proof -
      have "2 ^ 52 \<le> ?g" "11 \<le> l" using f64.sig_of_laws(2) [of a] bad(1) by (simp_all add: l_def le_nat_iff)
      moreover have "?g \<noteq> 2 ^ 52 \<or> 11 < l" if "fl_sign a"
        using that bad pk f64.sig_of_least [of a] by (cases "?ex = 1086") (simp_all add: l_def zless_nat_eq_int_zless)
      ultimately show ?thesis using magnitude_over [of 52 ?g 11 l "fl_sign a"] by (simp cong: if_cong)
    qed
    from trunc_signed(2) [OF R z x m] show ?thesis by simp
  next
    case left
    define l where "l = nat (?ex - 1075)"
    have R: "?R = (if fl_sign a then - push_bit l (f64.sig_of a) else push_bit l (f64.sig_of a), if exact \<and> False then softfloat_raiseFlags softfloat_flag_inexact s else s)"
      using left by (simp add: f64_to_i64_r_minMag_def Let_def f64.sign_law f64.sig_of_def l_def [symmetric] del: push_bit_numeral)
    have x: "?x = real (?g * 2 ^ l) / 2 ^ 0" by (rule f64_value) (use left in \<open>simp_all add: l_def\<close>)
    have "?g * 2 ^ l < 2 ^ Suc 52 * 2 ^ 10"
      using f64.sig_of_laws(1) [of a] left by (intro mult_less_le_imp_less power_increasing) (simp_all add: l_def)
    with trunc_signed(3) [OF R x] f64_shl [of a, folded l_def] left show ?thesis by simp
  next
    case ok
    define c where "c = nat (1075 - ?ex)"
    have R: "?R = (if fl_sign a then - drop_bit c (f64.sig_of a) else drop_bit c (f64.sig_of a),
        if exact \<and> push_bit (unat (word_of_int (?ex - 1075) AND 63 :: uint32_t)) (f64.sig_of a) \<noteq> 0 then softfloat_raiseFlags softfloat_flag_inexact s else s)"
      using ok by (simp add: f64_to_i64_r_minMag_def Let_def f64.sign_law f64.sig_of_def c_def [symmetric] del: push_bit_numeral)
    have x: "?x = real ?g / 2 ^ c" using f64_value [of a c 0] ok by (simp add: c_def)
    have "?g div 2 ^ c < 2 ^ 63" by (rule le_less_trans [OF div_le_dividend]) (use f64.sig_of_laws(1) [of a] in simp)
    with trunc_signed(3) [OF R x unat_drop_bit_div _ f64_trunc64_inexact [OF ok, folded c_def]] show ?thesis by simp
  qed
qed

section \<open>Equivalence with the general routines\<close>

lemma minMag_valid: "valid_mode softfloat_round_minMag"
  by (simp add: valid_mode_def)

lemma minMag_nan:
  assumes "fl_nan 23 255 a" and "fl_nan 52 2047 b"
  shows "f32_to_i32_r_minMag a exact s = f32_to_i32 a softfloat_round_minMag exact s"
    and "f64_to_i32_r_minMag b exact s = f64_to_i32 b softfloat_round_minMag exact s"
    and "f32_to_i64_r_minMag a exact s = f32_to_i64 a softfloat_round_minMag exact s"
    and "f64_to_i64_r_minMag b exact s = f64_to_i64 b softfloat_round_minMag exact s"
proof -
  have n: "expF32UI a = 255" "fracF32UI a \<noteq> 0" "expF64UI b = 2047" "fracF64UI b \<noteq> 0"
    using assms f32.nan_iff [of a] f64.nan_iff [of b] by (simp_all add: fl_nan_def)
  have p: "a \<noteq> packToF32UI True 158 0" "a \<noteq> packToF32UI True 190 0" "b \<noteq> packToF64UI True 1086 0"
    using n f32.eq_pack_iff [of 158 a True] f32.eq_pack_iff [of 190 a True] f64.eq_pack_iff [of 1086 b True] by auto
  have "255 * 2 ^ 23 \<le> fl_mag a" "2047 * 2 ^ 52 \<le> fl_mag b" using assms by (simp_all add: fl_nan_def)
  note sp = float_to_int_special [OF this, of softfloat_round_minMag exact s]
  show "f32_to_i32_r_minMag a exact s = f32_to_i32 a softfloat_round_minMag exact s"
    by (rule inj_results(2)) (use sp assms n p in \<open>simp add: f32_to_i32_r_minMag_def Let_def\<close>)
  show "f64_to_i32_r_minMag b exact s = f64_to_i32 b softfloat_round_minMag exact s"
    by (rule inj_results(2)) (use sp assms n p in \<open>simp add: f64_to_i32_r_minMag_def Let_def\<close>)
  show "f32_to_i64_r_minMag a exact s = f32_to_i64 a softfloat_round_minMag exact s"
    by (rule inj_results(2)) (use sp assms n p in \<open>simp add: f32_to_i64_r_minMag_def Let_def\<close>)
  show "f64_to_i64_r_minMag b exact s = f64_to_i64 b softfloat_round_minMag exact s"
    by (rule inj_results(2)) (use sp assms n p in \<open>simp add: f64_to_i64_r_minMag_def Let_def\<close>)
qed

lemma unsigned_minMag_equiv:
  "f32_to_ui32_r_minMag a exact s = f32_to_ui32 a softfloat_round_minMag exact s \<and>
   f32_to_ui64_r_minMag a exact s = f32_to_ui64 a softfloat_round_minMag exact s \<and>
   f64_to_ui32_r_minMag b exact s = f64_to_ui32 b softfloat_round_minMag exact s \<and>
   f64_to_ui64_r_minMag b exact s = f64_to_ui64 b softfloat_round_minMag exact s"
  by (intro conjI inj_results(1) int_rounds_unique [OF f32_to_ui32_r_minMag_rounds to_32_rounds(1)]
      int_rounds_unique [OF f64_to_ui32_r_minMag_rounds to_32_rounds(3)]
      int_rounds_unique [OF f32_to_ui64_r_minMag_rounds f32_to_64_rounds(1) [OF minMag_valid]]
      int_rounds_unique [OF f64_to_ui64_r_minMag_rounds f64_to_64_rounds(1) [OF minMag_valid]])

lemma signed_minMag_equiv:
  "f32_to_i32_r_minMag a exact s = f32_to_i32 a softfloat_round_minMag exact s \<and>
   f32_to_i64_r_minMag a exact s = f32_to_i64 a softfloat_round_minMag exact s \<and>
   f64_to_i32_r_minMag b exact s = f64_to_i32 b softfloat_round_minMag exact s \<and>
   f64_to_i64_r_minMag b exact s = f64_to_i64 b softfloat_round_minMag exact s"
proof -
  have nan: "fl_nan 23 255 (0xFFFFFFFF :: uint32_t)" "fl_nan 52 2047 (0xFFFFFFFFFFFFFFFF :: uint64_t)" by (simp_all add: fl_nan_def fl_mag_def)
  have "f32_to_i32_r_minMag a exact s = f32_to_i32 a softfloat_round_minMag exact s \<and> f32_to_i64_r_minMag a exact s = f32_to_i64 a softfloat_round_minMag exact s"
  proof (cases "fl_nan 23 255 a")
    case False
    then show ?thesis
      by (intro conjI inj_results(2) int_rounds_unique [OF f32_to_i32_r_minMag_rounds to_32_rounds(2)]
          int_rounds_unique [OF f32_to_i64_r_minMag_rounds f32_to_64_rounds(2) [OF minMag_valid]])
  qed (simp add: minMag_nan [OF _ nan(2)])
  moreover have "f64_to_i32_r_minMag b exact s = f64_to_i32 b softfloat_round_minMag exact s \<and> f64_to_i64_r_minMag b exact s = f64_to_i64 b softfloat_round_minMag exact s"
  proof (cases "fl_nan 52 2047 b")
    case False
    then show ?thesis
      by (intro conjI inj_results(2) int_rounds_unique [OF f64_to_i32_r_minMag_rounds to_32_rounds(4)]
          int_rounds_unique [OF f64_to_i64_r_minMag_rounds f64_to_64_rounds(2) [OF minMag_valid]])
  qed (simp add: minMag_nan [OF nan(1)])
  ultimately show ?thesis by simp
qed

text \<open>
  Property C18: each of the eight truncating conversions to an integer is the general conversion called with rounding toward zero, for every
  bit pattern, NaNs and infinities included, in result and in flags.
\<close>

theorem minMag_equiv:
  "f32_to_ui32_r_minMag a exact s = f32_to_ui32 a softfloat_round_minMag exact s \<and>
   f32_to_ui64_r_minMag a exact s = f32_to_ui64 a softfloat_round_minMag exact s \<and>
   f64_to_ui32_r_minMag b exact s = f64_to_ui32 b softfloat_round_minMag exact s \<and>
   f64_to_ui64_r_minMag b exact s = f64_to_ui64 b softfloat_round_minMag exact s \<and>
   f32_to_i32_r_minMag a exact s = f32_to_i32 a softfloat_round_minMag exact s \<and>
   f32_to_i64_r_minMag a exact s = f32_to_i64 a softfloat_round_minMag exact s \<and>
   f64_to_i32_r_minMag b exact s = f64_to_i32 b softfloat_round_minMag exact s \<and>
   f64_to_i64_r_minMag b exact s = f64_to_i64 b softfloat_round_minMag exact s"
  using unsigned_minMag_equiv [of a exact s b] signed_minMag_equiv [of a exact s b] by blast

end
