(* ===== verification/Float_RoundToInt.thy ===== *)
theory Float_RoundToInt
  imports Float_To_Int_Correct
begin

text \<open>
  Rounding to an integral value (\<^verbatim>\<open>source/f32_roundToInt.c\<close>, \<^verbatim>\<open>source/f64_roundToInt.c\<close>). The \<^verbatim>\<open>switch\<close> on the
  rounding mode is a chain of conditions; a mode that no case names falls through to zero.
\<close>

section \<open>The routines\<close>

definition f32_roundToInt :: "float32_t \<Rightarrow> int8_t \<Rightarrow> bool \<Rightarrow> fp_state \<Rightarrow> float32_t \<times> fp_state" where
  "f32_roundToInt a roundingMode exact s =
     (let uiA = a;
          expA = expF32UI uiA
      in if 0x96 \<le> expA
         then if expA = 0xFF \<and> fracF32UI uiA \<noteq> 0 then softfloat_propagateNaNF32UI uiA 0 s
              else (a, s)
         else if expA \<le> 0x7E
         then if push_bit 1 uiA = 0 then (a, s)
              else
                let s = (if exact then orFlags softfloat_flag_inexact s else s);
                    signA = signF32UI uiA
                in (if roundingMode = softfloat_round_nearest_even \<and> expA = 0x7E \<and> fracF32UI uiA \<noteq> 0
                    then packToF32UI signA 0x7F 0
                    else if roundingMode = softfloat_round_min then (if signA then 0xBF800000 else 0)
                    else if roundingMode = softfloat_round_max then (if signA then 0x80000000 else 0x3F800000)
                    else if roundingMode = softfloat_round_nearest_maxMag \<and> expA = 0x7E
                    then packToF32UI signA 0x7F 0
                    else packToF32UI signA 0 0, s)
         else
           let lastBitMask = push_bit (nat (0x96 - expA)) 1 :: uint32_t;
               roundBitsMask = lastBitMask - 1;
               uiZ = uiA;
               uiZ =
                 (if roundingMode = softfloat_round_nearest_maxMag then uiZ + drop_bit 1 lastBitMask
                  else if roundingMode = softfloat_round_nearest_even
                  then let uiZ = uiZ + drop_bit 1 lastBitMask
                       in if uiZ AND roundBitsMask = 0 then uiZ AND NOT lastBitMask else uiZ
                  else if roundingMode \<noteq> softfloat_round_minMag
                  then (if signF32UI uiZ \<noteq> (roundingMode = softfloat_round_max) then uiZ + roundBitsMask else uiZ)
                  else uiZ);
               uiZ = uiZ AND NOT roundBitsMask
           in (uiZ, if exact \<and> uiZ \<noteq> uiA then orFlags softfloat_flag_inexact s else s))"

definition f64_roundToInt :: "float64_t \<Rightarrow> int8_t \<Rightarrow> bool \<Rightarrow> fp_state \<Rightarrow> float64_t \<times> fp_state" where
  "f64_roundToInt a roundingMode exact s =
     (let uiA = a;
          expA = expF64UI uiA
      in if 0x433 \<le> expA
         then if expA = 0x7FF \<and> fracF64UI uiA \<noteq> 0 then softfloat_propagateNaNF64UI uiA 0 s
              else (a, s)
         else if expA \<le> 0x3FE
         then if uiA AND 0x7FFFFFFFFFFFFFFF = 0 then (a, s)
              else
                let s = (if exact then orFlags softfloat_flag_inexact s else s);
                    signA = signF64UI uiA
                in (if roundingMode = softfloat_round_nearest_even \<and> expA = 0x3FE \<and> fracF64UI uiA \<noteq> 0
                    then packToF64UI signA 0x3FF 0
                    else if roundingMode = softfloat_round_min then (if signA then 0xBFF0000000000000 else 0)
                    else if roundingMode = softfloat_round_max then (if signA then 0x8000000000000000 else 0x3FF0000000000000)
                    else if roundingMode = softfloat_round_nearest_maxMag \<and> expA = 0x3FE
                    then packToF64UI signA 0x3FF 0
                    else packToF64UI signA 0 0, s)
         else
           let lastBitMask = push_bit (nat (0x433 - expA)) 1 :: uint64_t;
               roundBitsMask = lastBitMask - 1;
               uiZ = uiA;
               uiZ =
                 (if roundingMode = softfloat_round_nearest_maxMag then uiZ + drop_bit 1 lastBitMask
                  else if roundingMode = softfloat_round_nearest_even
                  then let uiZ = uiZ + drop_bit 1 lastBitMask
                       in if uiZ AND roundBitsMask = 0 then uiZ AND NOT lastBitMask else uiZ
                  else if roundingMode \<noteq> softfloat_round_minMag
                  then (if signF64UI uiZ \<noteq> (roundingMode = softfloat_round_max) then uiZ + roundBitsMask else uiZ)
                  else uiZ);
               uiZ = uiZ AND NOT roundBitsMask
           in (uiZ, if exact \<and> uiZ \<noteq> uiA then orFlags softfloat_flag_inexact s else s))"

section \<open>Rounding the pattern itself\<close>

text \<open>
  Between one and the first integral exponent the routines round the bit pattern at the weight of the units: the last
  \<open>k\<close> bits are the fraction of the number.
\<close>

definition round_bits :: "nat \<Rightarrow> mag_round \<Rightarrow> 'a::len word \<Rightarrow> 'a word" where
  "round_bits k md a =
     (let lastBitMask = push_bit k 1;
          roundBitsMask = lastBitMask - 1;
          z = (case md of
                 ToAway \<Rightarrow> a + drop_bit 1 lastBitMask
               | ToEven \<Rightarrow> (let z = a + drop_bit 1 lastBitMask in if z AND roundBitsMask = 0 then z AND NOT lastBitMask else z)
               | Up \<Rightarrow> a + roundBitsMask
               | Trunc \<Rightarrow> a)
      in z AND NOT roundBitsMask)"

lemma unat_clear_bits:
  fixes w :: "'a::len word"
  shows "unat (w AND NOT (2 ^ k - 1)) = unat w div 2 ^ k * 2 ^ k"
proof -
  have "w AND NOT (2 ^ k - 1) = push_bit k (drop_bit k w)"
    unfolding mask_eq_exp_minus_1 [symmetric] by (rule bit_word_eqI) (auto simp: bit_simps)
  moreover have "unat (drop_bit k w) * 2 ^ k \<le> unat w" by (simp add: unat_drop_bit_div)
  then have "unat (push_bit k (drop_bit k w)) = unat (drop_bit k w) * 2 ^ k"
    by (intro unat_push_bit_small) (use unat_lt_pow [of w] in linarith)
  ultimately show ?thesis by (simp add: unat_drop_bit_div)
qed

lemma tie_mod:
  fixes n :: nat
  assumes "0 < k"
  shows "(n + 2 ^ (k - 1)) mod 2 ^ k = 0 \<longleftrightarrow> n mod 2 ^ k = 2 ^ (k - 1)"
proof -
  define h r :: nat where "h = 2 ^ (k - 1)" and "r = n mod 2 ^ k"
  have p: "(2::nat) ^ k = 2 * h" using assms unfolding h_def by (simp flip: power_Suc)
  have r: "r < 2 * h" unfolding r_def p [symmetric] by simp
  have "(n + h) mod 2 ^ k = (r + h) mod (2 * h)" unfolding r_def p by (simp add: mod_add_left_eq)
  also have "\<dots> = (if r < h then r + h else r - h)" using r by (auto simp: mod_if)
  finally show ?thesis unfolding h_def [symmetric] r_def [symmetric] using r by (auto simp: h_def)
qed

lemma unat_round_bits:
  fixes a :: "'a::len word"
  assumes k: "0 < k" "k < LENGTH('a)" and a: "unat a + 2 ^ k \<le> 2 ^ LENGTH('a)"
  shows "unat (round_bits k md a) = rnd k md (unat a) * 2 ^ k"
proof -
  have l: "unat (push_bit k 1 :: 'a word) = 2 ^ k" using k(2) unat_pow2_word [of k] by (simp add: push_bit_of_1)
  have h: "unat (drop_bit 1 (push_bit k 1 :: 'a word)) = 2 ^ (k - 1)" unfolding unat_drop_bit_div l using k(1) by (cases k) simp_all
  have m: "unat (push_bit k 1 - 1 :: 'a word) = 2 ^ k - 1" using l by (simp add: unat_sub_le word_le_nat_alt)
  have hl: "(2::nat) ^ (k - 1) < 2 ^ k" using k(1) by (intro power_strict_increasing) simp_all
  have uh: "unat (a + drop_bit 1 (push_bit k 1)) = unat a + 2 ^ (k - 1)" by (subst unat_add_small) (unfold h, use a hl in linarith, rule refl)
  have um: "unat (a + (push_bit k 1 - 1)) = unat a + (2 ^ k - 1)"
    by (subst unat_add_small) (unfold m, use a zero_less_power [of "2::nat" k] in linarith, rule refl)
  note b = push_bit_of_1 [of k, where 'a = "'a word"]
  show ?thesis
  proof (cases md)
    case ToEven
    let ?w = "a + drop_bit 1 (push_bit k 1)"
    have c: "?w AND (push_bit k 1 - 1) = 0 \<longleftrightarrow> unat a mod 2 ^ k = 2 ^ (k - 1)"
      unfolding b and_mask_take_bit unat_eq_zero [symmetric] unat_take_bit_mod uh [unfolded b] by (rule tie_mod [OF k(1)])
    have d: "unat ((?w AND NOT (push_bit k 1)) AND NOT (push_bit k 1 - 1)) = (let z = (unat a + 2 ^ (k - 1)) div 2 ^ k in (z - z mod 2) * 2 ^ k)"
    proof -
      have "(?w AND NOT (push_bit k 1)) AND NOT (push_bit k 1 - 1) = ?w AND NOT (2 ^ Suc k - 1)"
        unfolding b mask_eq_exp_minus_1 [symmetric] by (rule bit_word_eqI) (auto simp: bit_simps less_Suc_eq)
      then have "unat ((?w AND NOT (push_bit k 1)) AND NOT (push_bit k 1 - 1)) = (unat a + 2 ^ (k - 1)) div 2 ^ Suc k * 2 ^ Suc k"
        by (simp only: unat_clear_bits uh)
      also have "(unat a + 2 ^ (k - 1)) div 2 ^ Suc k = (unat a + 2 ^ (k - 1)) div 2 ^ k div 2"
        by (simp only: power_Suc2 div_mult2_eq)
      finally show ?thesis by (simp add: Let_def minus_mod_eq_mult_div mult_ac)
    qed
    show ?thesis
    proof (cases "unat a mod 2 ^ k = 2 ^ (k - 1)")
      case True
      then show ?thesis using c d ToEven by (simp add: round_bits_def rnd_def Let_def)
    next
      case False
      then show ?thesis using c ToEven unat_clear_bits [of ?w k] uh unfolding b by (simp add: round_bits_def rnd_def Let_def b)
    qed
  next
    case ToAway
    then show ?thesis using unat_clear_bits [of "a + drop_bit 1 (push_bit k 1)" k] uh unfolding b by (simp add: round_bits_def rnd_def Let_def b)
  next
    case Trunc
    then show ?thesis using unat_clear_bits [of a k] by (simp add: round_bits_def rnd_def Let_def b)
  next
    case Up
    then show ?thesis using unat_clear_bits [of "a + (push_bit k 1 - 1)" k] um unfolding b by (simp add: round_bits_def rnd_def Let_def b)
  qed
qed

lemma rnd_shift: "rnd k md (2 * c * 2 ^ k + n) = 2 * c + rnd k md n"
proof -
  have "(2 * c * 2 ^ k + n + rinc k md) div 2 ^ k = 2 * c + (n + rinc k md) div 2 ^ k"
    by (simp add: add.assoc)
  moreover have "(2 * c + z) - (2 * c + z) mod 2 = 2 * c + (z - z mod 2)" for z :: nat by simp
  ultimately show ?thesis by (simp add: rnd_def Let_def)
qed

section \<open>The specification\<close>

text \<open>
  \<open>integral_rounds f u mode exact a s res\<close>, where \<open>2 ^ u\<close> is the number one in units of the least positive number: the result is
  the number \<open>a\<close> rounded to an integer in the given mode, with the sign of \<open>a\<close>; inexact is raised if asked for and the
  result differs.
\<close>

definition integral_rounds :: "nat \<Rightarrow> nat \<Rightarrow> int8_t \<Rightarrow> bool \<Rightarrow> 'a::len word \<Rightarrow> fp_state \<Rightarrow> 'a word \<times> fp_state \<Rightarrow> bool" where
  "integral_rounds f u mode exact a s res \<longleftrightarrow>
     (\<exists>m. rounds (mag_mode mode (fl_sign a)) real (real (mval f (fl_mag a)) / 2 ^ u) m \<and>
        fl_sign (fst res) = fl_sign a \<and> mval f (fl_mag (fst res)) = m * 2 ^ u \<and>
        snd res = (if exact \<and> real m \<noteq> real (mval f (fl_mag a)) / 2 ^ u
                   then softfloat_raiseFlags softfloat_flag_inexact s else s))"

lemma integral_roundsI:
  fixes a z :: "'a::len word"
  assumes r: "rounds (mag_mode mode (fl_sign a)) real (real (mval f (fl_mag a)) / 2 ^ u) m"
    and z: "fl_sign z = fl_sign a" "mval f (fl_mag z) = m * 2 ^ u"
    and t: "t = (if exact \<and> z \<noteq> a then softfloat_raiseFlags softfloat_flag_inexact s else s)"
  shows "integral_rounds f u mode exact a s (z, t)"
proof -
  have "real m = real (mval f (fl_mag a)) / 2 ^ u \<longleftrightarrow> real (m * 2 ^ u) = real (mval f (fl_mag a))" by (simp add: field_simps)
  also have "\<dots> \<longleftrightarrow> z = a" unfolding z(2) [symmetric] of_nat_eq_iff mval_eq_iff using fl_word_eqI [OF z(1)] by auto
  finally show ?thesis unfolding integral_rounds_def using r z t by (intro exI [of _ m]) simp
qed

text \<open>Rounding a magnitude below one.\<close>

lemma rounds_below_one:
  assumes "0 < x" and "x < 1"
  shows "rounds md real x (of_bool (case md of ToEven \<Rightarrow> 1 < 2 * x | ToAway \<Rightarrow> 1 \<le> 2 * x | Trunc \<Rightarrow> False | Up \<Rightarrow> True))"
  using assms by (cases md) auto

section \<open>The scheme of both routines\<close>

context softfloat_format
begin

definition roundToInt_op :: "int8_t \<Rightarrow> bool \<Rightarrow> 'a word \<Rightarrow> fp_state \<Rightarrow> 'a word \<times> fp_state" where
  "roundToInt_op mode exact a s =
     (if int (bias + f) \<le> expUI a
      then if expUI a = int E \<and> fracUI a \<noteq> 0 then propagate a 0 s else (a, s)
      else if expUI a \<le> int bias - 1
      then if fl_mag a = 0 then (a, s)
           else
             (packUI (signUI a)
               (if case mag_mode mode (signUI a) of
                     ToEven \<Rightarrow> expUI a = int bias - 1 \<and> fracUI a \<noteq> 0
                   | ToAway \<Rightarrow> expUI a = int bias - 1
                   | Trunc \<Rightarrow> False
                   | Up \<Rightarrow> True
                then int bias else 0) 0,
              if exact then softfloat_raiseFlags softfloat_flag_inexact s else s)
      else
        let z = round_bits (nat (int (bias + f) - expUI a)) (mag_mode mode (signUI a)) a
        in (z, if exact \<and> z \<noteq> a then softfloat_raiseFlags softfloat_flag_inexact s else s))"

lemma bias_odd: "odd bias"
proof -
  have "Suc E * 2 ^ f = 2 ^ (x + 1) * 2 ^ f" unfolding width by (simp add: len power_add)
  then have "Suc E = 2 ^ (x + 1)" unfolding mult_cancel2 by simp
  then have "Suc bias = 2 ^ x" using E_bias by simp
  moreover have "even ((2::nat) ^ x)" using x_ge by simp
  ultimately show ?thesis by presburger
qed

text \<open>The number one, and one half.\<close>

lemma mval_one: "mval f (bias * 2 ^ f) = 2 ^ (bias + f - 1)" and mval_half: "2 * mval f ((bias - 1) * 2 ^ f) = 2 ^ (bias + f - 1)"
proof -
  have p: "mval f (Suc e * 2 ^ f) = 2 ^ (f + e)" for e
    using mval_scaled [of e f "2 ^ f"] by (simp add: power_add add.commute)
  obtain c where c: "bias = Suc (Suc c)" using bias_ge f_pos x_ge by (metis add_leD2 le_add_diff_inverse numeral_Bit0 numeral_2_eq_2 add_2_eq_Suc order_trans numeral_le_iff semiring_norm(69) semiring_norm(71))
  show "mval f (bias * 2 ^ f) = 2 ^ (bias + f - 1)" using p [of "Suc c"] by (simp add: c add.commute)
  have "2 * mval f (Suc c * 2 ^ f) = 2 ^ Suc (f + c)" unfolding p by simp
  then show "2 * mval f ((bias - 1) * 2 ^ f) = 2 ^ (bias + f - 1)" by (simp add: c add.commute)
qed

lemma roundToInt_small:
  assumes e: "expUI a \<le> int bias - 1" and nz: "fl_mag a \<noteq> 0"
  shows "integral_rounds f (bias + f - 1) mode exact a s (roundToInt_op mode exact a s)"
proof -
  let ?x = "real (mval f (fl_mag a)) / 2 ^ (bias + f - 1)" and ?half = "(bias - 1) * 2 ^ f"
  define up where "up = (case mag_mode mode (signUI a) of ToEven \<Rightarrow> expUI a = int bias - 1 \<and> fracUI a \<noteq> 0
      | ToAway \<Rightarrow> expUI a = int bias - 1 | Trunc \<Rightarrow> False | Up \<Rightarrow> True)"
  have b: "0 < bias" "nat (expUI a) \<le> bias - 1" using bias_ge x_ge e by auto
  have "fl_mag a < bias * 2 ^ f" unfolding mag_law
    using digit_less [OF frac_range [of a], of 0 "nat (expUI a)" bias] b by simp
  then have "mval f (fl_mag a) < 2 ^ (bias + f - 1)" unfolding mval_one [symmetric] by simp
  then have "real (mval f (fl_mag a)) < real (2 ^ (bias + f - 1))" by (simp only: of_nat_less_iff)
  then have x: "0 < ?x" "?x < 1" using nz by (simp_all add: mval_pos_iff)
  have "1 < 2 * ?x \<longleftrightarrow> real (2 ^ (bias + f - 1)) < real (2 * mval f (fl_mag a))" by (simp add: field_simps)
  also have "\<dots> \<longleftrightarrow> ?half < fl_mag a" unfolding mval_half [symmetric] of_nat_less_iff by simp
  also have "\<dots> \<longleftrightarrow> expUI a = int bias - 1 \<and> fracUI a \<noteq> 0" unfolding mag_law
    using digit_less [OF _ frac_range [of a], of 0 "bias - 1" "nat (expUI a)"] b e exp_range(1) [of a] by (auto simp: unat_gt_0)
  finally have h1: "1 < 2 * ?x \<longleftrightarrow> expUI a = int bias - 1 \<and> fracUI a \<noteq> 0" .
  have "1 \<le> 2 * ?x \<longleftrightarrow> real (2 ^ (bias + f - 1)) \<le> real (2 * mval f (fl_mag a))" by (simp add: field_simps)
  also have "\<dots> \<longleftrightarrow> \<not> fl_mag a < ?half" unfolding mval_half [symmetric] of_nat_le_iff by (simp add: not_less)
  also have "\<dots> \<longleftrightarrow> expUI a = int bias - 1" unfolding mag_law
    using digit_less [OF frac_range [of a], of 0 "nat (expUI a)" "bias - 1"] b e exp_range(1) [of a] by auto
  finally have h2: "1 \<le> 2 * ?x \<longleftrightarrow> expUI a = int bias - 1" .
  have r: "rounds (mag_mode mode (signUI a)) real ?x (of_bool up)"
    using rounds_below_one [OF x, of "mag_mode mode (signUI a)"] unfolding h1 h2 up_def [symmetric] .
  let ?z = "packUI (signUI a) (if up then int bias else 0) 0"
  have "bias * 2 ^ f < 2 ^ (LENGTH('a) - 1)" unfolding width [symmetric] using E_bias by (intro mult_less_mono1) simp_all
  then have z: "fl_sign ?z = signUI a" "fl_mag ?z = (if up then bias * 2 ^ f else 0)" by (simp_all add: pack_sign_mag)
  then have mz: "mval f (fl_mag ?z) = of_bool up * 2 ^ (bias + f - 1)" by (simp add: mval_one)
  have "?z \<noteq> a" using mz x by (auto simp: field_simps)
  moreover have "\<not> int (bias + f) \<le> expUI a" using e by simp
  ultimately have "roundToInt_op mode exact a s = (?z, if exact \<and> ?z \<noteq> a then softfloat_raiseFlags softfloat_flag_inexact s else s)"
    unfolding roundToInt_op_def up_def [symmetric] using e nz by simp
  then show ?thesis using integral_roundsI [OF r [unfolded sign_law] z(1) [unfolded sign_law] mz [unfolded sign_law] refl] by (simp add: sign_law)
qed

lemma roundToInt_middle:
  assumes e: "int bias \<le> expUI a" "expUI a < int (bias + f)"
  shows "integral_rounds f (bias + f - 1) mode exact a s (roundToInt_op mode exact a s)"
proof -
  define n k g where "n = nat (expUI a)" and "k = nat (int (bias + f) - expUI a)" and "g = 2 ^ f + unat (fracUI a)"
  have n: "expUI a = int n" "n + k = bias + f" "bias \<le> n" "0 < k" "k \<le> f" "0 < n"
    using e bias_ge x_ge unfolding n_def k_def by auto
  have g: "2 ^ f \<le> g" "g < 2 ^ Suc f" using frac_range [of a] by (simp_all add: g_def)
  define md where "md = mag_mode mode (signUI a)"
  let ?P = "2 ^ (LENGTH('a) - 1) :: nat"
  have mag: "fl_mag a = (n - 1) * 2 ^ f + g" using n(6) by (cases n) (simp_all add: mag_law n_def [symmetric] g_def)
  have ua: "unat a = of_bool (fl_sign a) * ?P + ((n - 1) * 2 ^ f + g)"
    using fl_sign_pack(3) [of "fl_mag a" "fl_sign a", where 'a = 'a] unfolding fl_pack_unpack mag [symmetric] by (simp add: fl_mag_def)
  have mv: "mval f (fl_mag a) = g * 2 ^ (n - 1)" using mval_normal [of a] n by (simp add: g_def)
  obtain c where c: "of_bool (fl_sign a) * ?P + (n - 1) * 2 ^ f = 2 * c * 2 ^ k"
  proof -
    have d1: "2 ^ Suc k dvd ?P" using n(5) by (intro le_imp_power_dvd) (simp add: len)
    have d2: "2 ^ Suc k dvd (n - 1) * 2 ^ f"
    proof (cases "k = f")
      case True
      then have "2 dvd n - 1" using n bias_odd by simp
      with True show ?thesis by (simp add: mult_dvd_mono)
    next
      case False
      then show ?thesis using n(5) by (intro dvd_mult le_imp_power_dvd) simp
    qed
    have "2 ^ Suc k dvd of_bool (fl_sign a) * ?P + (n - 1) * 2 ^ f" by (rule dvd_add [OF dvd_mult [OF d1] d2])
    then show thesis using that by (elim dvdE) (simp only: power_Suc mult_ac)
  qed
  have ua': "unat a = 2 * c * 2 ^ k + g" using ua c by simp
  define m where "m = rnd k md g"
  have r: "rounds md real (real g / 2 ^ k) m" unfolding m_def by (rule rnd_rounds [OF n(4)]) simp
  have ge: "2 ^ (f - k) \<le> m"
  proof (rule rounds_ge_real [OF r])
    have "real (2 ^ (f - k) * 2 ^ k) \<le> real g" unfolding of_nat_le_iff power_add [symmetric] using g(1) n(5) by simp
    then show "real (2 ^ (f - k)) \<le> real g / 2 ^ k" by (simp add: field_simps)
  qed
  have le: "m \<le> 2 ^ (Suc f - k)"
  proof (rule rounds_le_real [OF r])
    have "real g \<le> real (2 ^ (Suc f - k) * 2 ^ k)" unfolding of_nat_le_iff power_add [symmetric] using g(2) n(5) by simp
    then show "real g / 2 ^ k \<le> real (2 ^ (Suc f - k))" by (simp add: field_simps)
  qed
  have mk: "2 ^ f \<le> m * 2 ^ k" "m * 2 ^ k \<le> 2 ^ Suc f"
    using mult_le_mono1 [OF ge, of "2 ^ k"] mult_le_mono1 [OF le, of "2 ^ k"] n(5) unfolding power_add [symmetric] by simp_all
  let ?w = "(n - 1) * 2 ^ f + m * 2 ^ k" and ?z = "round_bits k md a"
  have E2: "(n + 2) * 2 ^ f \<le> ?P" unfolding width [symmetric] using n E_bias bias_ge by (intro mult_le_mono1) simp
  have n1: "(n + 2) * 2 ^ f = (n - 1) * 2 ^ f + 3 * 2 ^ f" using n(6) by (cases n) simp_all
  have w: "?w < ?P" using E2 mk(2) n1 zero_less_power [of "2::nat" f] unfolding power_Suc by linarith
  have PP: "2 ^ LENGTH('a) = 2 * ?P" by (simp flip: power_Suc)
  have "(2::nat) ^ k \<le> 2 ^ f" using n(5) by (intro power_increasing) simp_all
  moreover have "of_bool (fl_sign a) * ?P \<le> ?P" by simp
  ultimately have "unat a + 2 ^ k \<le> 2 ^ LENGTH('a)" using E2 n1 g(2) unfolding ua PP power_Suc by linarith
  then have "unat ?z = rnd k md (unat a) * 2 ^ k" using n(4,5) by (intro unat_round_bits) (simp_all add: len)
  also have "\<dots> = 2 * c * 2 ^ k + m * 2 ^ k" unfolding ua' rnd_shift m_def by (simp only: add_mult_distrib)
  finally have "unat ?z = unat (fl_pack (fl_sign a) ?w :: 'a word)"
    unfolding c [symmetric] fl_sign_pack(3) [OF w] by simp
  then have "?z = fl_pack (fl_sign a) ?w" by (simp only: word_unat_eq_iff)
  then have z: "fl_sign ?z = fl_sign a" "fl_mag ?z = ?w" by (simp_all only: fl_sign_pack [OF w])
  have nk: "(2::nat) ^ k * 2 ^ (n - 1) = 2 ^ (bias + f - 1)" unfolding power_add [symmetric] using n by (simp add: add.commute)
  have mz: "mval f (fl_mag ?z) = m * 2 ^ (bias + f - 1)"
    using mval_scaled [of "n - 1" f "m * 2 ^ k"] mk unfolding z(2) nk [symmetric] by simp
  have "real (mval f (fl_mag a)) / 2 ^ (bias + f - 1) = real g / 2 ^ k"
  proof -
    have "(2::real) ^ (bias + f - 1) = 2 ^ k * 2 ^ (n - 1)" unfolding power_add [symmetric] using n by (simp add: add.commute)
    then show ?thesis unfolding mv by simp
  qed
  with r have r': "rounds (mag_mode mode (fl_sign a)) real (real (mval f (fl_mag a)) / 2 ^ (bias + f - 1)) m"
    unfolding md_def sign_law by simp
  have "roundToInt_op mode exact a s = (?z, if exact \<and> ?z \<noteq> a then softfloat_raiseFlags softfloat_flag_inexact s else s)"
    unfolding roundToInt_op_def md_def k_def Let_def using e by simp
  then show ?thesis using integral_roundsI [OF r' z(1) mz refl] by simp
qed

lemma roundToInt_large:
  assumes e: "int (bias + f) \<le> expUI a" "expUI a < int E"
  shows "integral_rounds f (bias + f - 1) mode exact a s (roundToInt_op mode exact a s)"
proof -
  let ?m = "(2 ^ f + unat (fracUI a)) * 2 ^ (nat (expUI a) - (bias + f))"
  have "0 < expUI a" "nat (expUI a) - 1 = (nat (expUI a) - (bias + f)) + (bias + f - 1)" using e f_pos by auto
  then have p: "(2::nat) ^ (nat (expUI a) - 1) = 2 ^ (nat (expUI a) - (bias + f)) * 2 ^ (bias + f - 1)" by (simp only: power_add)
  have m: "mval f (fl_mag a) = ?m * 2 ^ (bias + f - 1)" unfolding mval_normal [OF \<open>0 < expUI a\<close>] p by (simp only: mult.assoc)
  have "real (mval f (fl_mag a)) / 2 ^ (bias + f - 1) = real ?m" unfolding m by simp
  then have "rounds (mag_mode mode (fl_sign a)) real (real (mval f (fl_mag a)) / 2 ^ (bias + f - 1)) ?m"
    by (simp only: rounds_exact [OF real_strict_mono])
  from integral_roundsI [OF this refl m refl] show ?thesis using e by (simp add: roundToInt_op_def)
qed

theorem roundToInt_op_correct:
  "if fl_nan f E a then roundToInt_op mode exact a s = propagate a 0 s
   else if fl_mag a = E * 2 ^ f then roundToInt_op mode exact a s = (a, s)
   else integral_rounds f (bias + f - 1) mode exact a s (roundToInt_op mode exact a s)"
proof -
  consider "expUI a = int E" | "expUI a < int E" "int (bias + f) \<le> expUI a" | "int bias \<le> expUI a" "expUI a < int (bias + f)"
    | "expUI a \<le> int bias - 1" "fl_mag a \<noteq> 0" | "expUI a \<le> int bias - 1" "fl_mag a = 0"
    using exp_range(2) [of a] by linarith
  then show ?thesis
  proof cases
    case 1
    moreover have "int (bias + f) \<le> int E" using E_bias bias_ge by simp
    ultimately show ?thesis unfolding fl_nan_def nan_iff inf_iff roundToInt_op_def by auto
  next
    case 2
    then show ?thesis unfolding fl_nan_def nan_iff inf_iff using roundToInt_large [of a mode exact s] by auto
  next
    case 3
    then have "expUI a < int E" using E_bias bias_ge by simp
    then show ?thesis unfolding fl_nan_def nan_iff inf_iff using roundToInt_middle [OF 3, of mode exact s] by auto
  next
    case 4
    then have "expUI a < int E" using E_bias by simp
    then show ?thesis unfolding fl_nan_def nan_iff inf_iff using roundToInt_small [OF 4, of mode exact s] by auto
  next
    case 5
    have "rounds (mag_mode mode (fl_sign a)) real (real (mval f (fl_mag a)) / 2 ^ (bias + f - 1)) 0"
      using rounds_exact [OF real_strict_mono, of "mag_mode mode (fl_sign a)" 0] 5(2) by simp
    from integral_roundsI [OF this refl _ refl] have "integral_rounds f (bias + f - 1) mode exact a s (a, s)" using 5(2) by simp
    moreover have "roundToInt_op mode exact a s = (a, s)" using 5 by (simp add: roundToInt_op_def)
    moreover have "0 < E * 2 ^ f" using E_ge2 by simp
    ultimately show ?thesis using 5(2) unfolding fl_nan_def by simp
  qed
qed

end

section \<open>Both formats\<close>

lemma f32_roundToInt_scheme:
  assumes "valid_mode mode"
  shows "f32_roundToInt a mode exact s = sf32.roundToInt_op mode exact a s"
proof -
  have z: "push_bit 1 a = 0 \<longleftrightarrow> fl_mag a = 0"
    using push_bit_eq_0_iff_dvd [of 1 a] by (simp add: fl_mag_def dvd_eq_mod_eq_0)
  have c: "packToF32UI True 127 0 = 0xBF800000" "packToF32UI False 127 0 = 0x3F800000" "packToF32UI True 0 0 = push_bit 31 1"
    "packToF32UI False 0 0 = 0" by (simp_all add: packToF32UI_def)
  have e: "int (127 + 23) = 0x96" "int 127 - 1 = 0x7E" by simp_all
  note d = f32_roundToInt_def sf32.roundToInt_op_def Let_def z e
  consider "0x96 \<le> expF32UI a" | "\<not> 0x96 \<le> expF32UI a" "expF32UI a \<le> 0x7E" | "\<not> 0x96 \<le> expF32UI a" "\<not> expF32UI a \<le> 0x7E"
    by linarith
  then show ?thesis
  proof cases
    case 1
    then show ?thesis by (simp add: d)
  next
    case 2
    show ?thesis unfolding d if_not_P [OF 2(1)] if_P [OF 2(2)] using valid_mode_cases [OF assms]
      by (cases "signF32UI a"; elim disjE) (simp_all add: mag_mode_def c)
  next
    case 3
    show ?thesis unfolding d if_not_P [OF 3(1)] if_not_P [OF 3(2)] round_bits_def using valid_mode_cases [OF assms]
      by (cases "signF32UI a"; elim disjE) (simp_all add: mag_mode_def)
  qed
qed

lemma f64_roundToInt_scheme:
  assumes "valid_mode mode"
  shows "f64_roundToInt a mode exact s = sf64.roundToInt_op mode exact a s"
proof -
  have "a AND 0x7FFFFFFFFFFFFFFF = take_bit 63 a" using and_mask_take_bit [of a 63] by simp
  then have z: "a AND 0x7FFFFFFFFFFFFFFF = 0 \<longleftrightarrow> fl_mag a = 0"
    using unat_eq_zero [of "take_bit 63 a"] unat_take_bit_mod [of 63 a] by (simp add: fl_mag_def)
  have c: "packToF64UI True 1023 0 = 0xBFF0000000000000" "packToF64UI False 1023 0 = 0x3FF0000000000000" "packToF64UI True 0 0 = push_bit 63 1"
    "packToF64UI False 0 0 = 0" by (simp_all add: packToF64UI_def)
  have e: "int (1023 + 52) = 0x433" "int 1023 - 1 = 0x3FE" by simp_all
  note d = f64_roundToInt_def sf64.roundToInt_op_def Let_def z e
  consider "0x433 \<le> expF64UI a" | "\<not> 0x433 \<le> expF64UI a" "expF64UI a \<le> 0x3FE" | "\<not> 0x433 \<le> expF64UI a" "\<not> expF64UI a \<le> 0x3FE"
    by linarith
  then show ?thesis
  proof cases
    case 1
    then show ?thesis by (simp add: d)
  next
    case 2
    show ?thesis unfolding d if_not_P [OF 2(1)] if_P [OF 2(2)] using valid_mode_cases [OF assms]
      by (cases "signF64UI a"; elim disjE) (simp_all add: mag_mode_def c)
  next
    case 3
    show ?thesis unfolding d if_not_P [OF 3(1)] if_not_P [OF 3(2)] round_bits_def using valid_mode_cases [OF assms]
      by (cases "signF64UI a"; elim disjE) (simp_all add: mag_mode_def)
  qed
qed

text \<open>
  Property C20: \<^const>\<open>f32_roundToInt\<close> and \<^const>\<open>f64_roundToInt\<close> in every valid mode: a finite number is rounded to an integer in
  that mode and keeps its sign, inexact is raised only if asked for and the number was no integer, infinities are
  returned, NaNs propagate.
\<close>

theorem roundToInt_correct:
  assumes "valid_mode mode"
  shows "(if fl_nan 23 255 a then f32_roundToInt a mode exact s = softfloat_propagateNaNF32UI a 0 s
     else if fl_mag a = 255 * 2 ^ 23 then f32_roundToInt a mode exact s = (a, s)
     else integral_rounds 23 149 mode exact a s (f32_roundToInt a mode exact s)) \<and>
    (if fl_nan 52 2047 b then f64_roundToInt b mode exact s = softfloat_propagateNaNF64UI b 0 s
     else if fl_mag b = 2047 * 2 ^ 52 then f64_roundToInt b mode exact s = (b, s)
     else integral_rounds 52 1074 mode exact b s (f64_roundToInt b mode exact s))"
proof -
  have e: "127 + 23 - 1 = (149 :: nat)" "1023 + 52 - 1 = (1074 :: nat)" by simp_all
  show ?thesis
    using sf32.roundToInt_op_correct [of a mode exact s] sf64.roundToInt_op_correct [of b mode exact s]
    unfolding f32_roundToInt_scheme [OF assms] f64_roundToInt_scheme [OF assms] e by blast
qed

theorem roundToInt_correct_witness:
  "integral_rounds 23 149 softfloat_round_nearest_even True (0x40200000 :: uint32_t) init_state
     (f32_roundToInt 0x40200000 softfloat_round_nearest_even True init_state) \<and>
   f32_roundToInt 0x40200000 softfloat_round_nearest_even True init_state
     = (0x40000000, softfloat_raiseFlags softfloat_flag_inexact init_state)"
proof
  show "integral_rounds 23 149 softfloat_round_nearest_even True (0x40200000 :: uint32_t) init_state
     (f32_roundToInt 0x40200000 softfloat_round_nearest_even True init_state)"
    using roundToInt_correct [of softfloat_round_nearest_even "0x40200000" True init_state]
    by (simp add: valid_mode_def fl_nan_def fl_mag_def)
  show "f32_roundToInt 0x40200000 softfloat_round_nearest_even True init_state
     = (0x40000000, softfloat_raiseFlags softfloat_flag_inexact init_state)" by code_simp
qed

end
