(* ===== verification/Slow_Float.thy ===== *)
theory Slow_Float
  imports Internals Primitives "HOL-Library.Monad_Syntax"
begin

text \<open>
  The reference arithmetic of TestFloat (\<^verbatim>\<open>TestFloat-3/source/slowfloat.c\<close>), against which the routines of SoftFloat are tested. A number is unpacked to a
  \<^verbatim>\<open>struct floatX\<close> with a 120-bit significand, every operation works bit by bit on 128-bit integers, and one routine per format rounds and packs.

  The globals \<^verbatim>\<open>slowfloat_roundingMode\<close>, \<^verbatim>\<open>slowfloat_detectTininess\<close> and \<^verbatim>\<open>slowfloat_exceptionFlags\<close> have the roles of those of SoftFloat; they are kept in a
  record of the same type, a different object in the program. A function whose C code may loop for ever or read a variable it has not set returns an option,
  \<open>None\<close> in that case. The conversions to \<^verbatim>\<open>struct floatX\<close> leave the exponent of a zero, an infinity or a NaN unset; its indeterminate value is their argument \<open>u\<close>.
  The parts for the extended formats, which no build of the repository enables (\<^verbatim>\<open>FLOATX80\<close>, \<^verbatim>\<open>FLOAT128\<close>), are left out.
\<close>

type_synonym slow_state = fp_state
type_synonym bits128X = uint128

record floatX =
  isNaN :: bool
  isInf :: bool
  isZero :: bool
  fx_sign :: bool
  fx_exp :: int
  fx_sig :: bits128X

abbreviation bits :: "uint64_t \<Rightarrow> uint64_t \<Rightarrow> bits128X" where
  "bits v64 v0 \<equiv> \<lparr>u128_v64 = v64, u128_v0 = v0\<rparr>"

definition floatXNaN :: floatX where
  "floatXNaN = \<lparr>isNaN = True, isInf = False, isZero = False, fx_sign = False, fx_exp = 0, fx_sig = bits 0 0\<rparr>"

definition floatXPositiveZero :: floatX where
  "floatXPositiveZero = \<lparr>isNaN = False, isInf = False, isZero = True, fx_sign = False, fx_exp = 0, fx_sig = bits 0 0\<rparr>"

definition floatXNegativeZero :: floatX where
  "floatXNegativeZero = \<lparr>isNaN = False, isInf = False, isZero = True, fx_sign = True, fx_exp = 0, fx_sig = bits 0 0\<rparr>"

section \<open>128-bit integers\<close>

definition eq128 :: "bits128X \<Rightarrow> bits128X \<Rightarrow> bool" where
  "eq128 a b \<longleftrightarrow> u128_v64 a = u128_v64 b \<and> u128_v0 a = u128_v0 b"

definition le128 :: "bits128X \<Rightarrow> bits128X \<Rightarrow> bool" where
  "le128 a b \<longleftrightarrow> u128_v64 a < u128_v64 b \<or> (u128_v64 a = u128_v64 b \<and> u128_v0 a \<le> u128_v0 b)"

definition lt128 :: "bits128X \<Rightarrow> bits128X \<Rightarrow> bool" where
  "lt128 a b \<longleftrightarrow> u128_v64 a < u128_v64 b \<or> (u128_v64 a = u128_v64 b \<and> u128_v0 a < u128_v0 b)"

text \<open>A shift count is an \<^verbatim>\<open>int\<close> from 1 to 63; \<^verbatim>\<open>( - count ) & 63\<close> is the complement.\<close>

definition shortShift128Left :: "bits128X \<Rightarrow> nat \<Rightarrow> bits128X" where
  "shortShift128Left a count =
     bits (push_bit count (u128_v64 a) OR drop_bit (nat ((- int count) mod 64)) (u128_v0 a)) (push_bit count (u128_v0 a))"

definition shortShift128Right :: "bits128X \<Rightarrow> nat \<Rightarrow> bits128X" where
  "shortShift128Right a count =
     bits (drop_bit count (u128_v64 a)) (push_bit (nat ((- int count) mod 64)) (u128_v64 a) OR drop_bit count (u128_v0 a))"

definition shortShift128RightJam :: "bits128X \<Rightarrow> nat \<Rightarrow> bits128X" where
  "shortShift128RightJam a count =
     (let negCount = nat ((- int count) mod 64);
          extra = push_bit negCount (u128_v0 a)
      in bits (drop_bit count (u128_v64 a))
           (push_bit negCount (u128_v64 a) OR drop_bit count (u128_v0 a) OR of_bool (extra \<noteq> 0)))"

definition neg128 :: "bits128X \<Rightarrow> bits128X" where
  "neg128 a = (if u128_v0 a = 0 then a\<lparr>u128_v64 := - u128_v64 a\<rparr> else bits (NOT (u128_v64 a)) (- u128_v0 a))"

definition add128 :: "bits128X \<Rightarrow> bits128X \<Rightarrow> bits128X" where
  "add128 a b =
     (let v0 = u128_v0 a + u128_v0 b
      in bits (u128_v64 a + (u128_v64 b + of_bool (v0 < u128_v0 b))) v0)"

section \<open>Loops\<close>

text \<open>\<^verbatim>\<open>while ( 0 < count ) { sig = shortShift128RightJam( sig, 1 ); --count; }\<close>, the count and the significand at its end.\<close>

function shift_loop :: "int \<Rightarrow> bits128X \<Rightarrow> int \<times> bits128X" where
  "shift_loop count sig = (if 0 < count then shift_loop (count - 1) (shortShift128RightJam sig 1) else (count, sig))"
  by pat_completeness auto
termination
  by (relation "measure (nat \<circ> fst)") auto

declare shift_loop.simps [simp del]

text \<open>\<^verbatim>\<open>while ( v < bound ) { --exp; v <<= 1; }\<close>\<close>

partial_function (option) norm64_loop :: "uint64_t \<Rightarrow> int \<Rightarrow> uint64_t \<Rightarrow> (int \<times> uint64_t) option" where
  "norm64_loop bound e v = (if v < bound then norm64_loop bound (e - 1) (push_bit 1 v) else Some (e, v))"

text \<open>\<^verbatim>\<open>while ( sig.v64 < UINT64_C( 0x0080000000000000 ) ) { --exp; sig = shortShift128Left( sig, 1 ); }\<close>\<close>

partial_function (option) norm128_loop :: "int \<Rightarrow> bits128X \<Rightarrow> (int \<times> bits128X) option" where
  "norm128_loop e sig =
     (if u128_v64 sig < 0x0080000000000000 then norm128_loop (e - 1) (shortShift128Left sig 1) else Some (e, sig))"

text \<open>\<^verbatim>\<open>while ( UINT64_C( 0x0100000000000000 ) <= sig.v64 ) { ++exp; sig = shortShift128RightJam( sig, 1 ); }\<close>\<close>

partial_function (option) carry_loop :: "int \<Rightarrow> bits128X \<Rightarrow> (int \<times> bits128X) option" where
  "carry_loop e sig =
     (if 0x0100000000000000 \<le> u128_v64 sig then carry_loop (e + 1) (shortShift128RightJam sig 1) else Some (e, sig))"

declare norm64_loop.simps [code] norm128_loop.simps [code] carry_loop.simps [code]

section \<open>Rounding to a number of significand bits\<close>

definition roundFloatXTo24 :: "bool \<Rightarrow> floatX \<Rightarrow> int8_t \<Rightarrow> bool \<Rightarrow> slow_state \<Rightarrow> floatX \<times> slow_state" where
  "roundFloatXTo24 isTiny xZ roundingMode exact s =
     (let v64 = u128_v64 (fx_sig xZ) OR of_bool (u128_v0 (fx_sig xZ) \<noteq> 0);
          roundBits = ucast v64 :: uint32_t;
          v64 = v64 - ucast roundBits;
          xZ = xZ\<lparr>fx_sig := bits v64 0\<rparr>
      in if roundBits \<noteq> 0
         then
           let s = (if exact then orFlags softfloat_flag_inexact s else s);
               s = (if isTiny then orFlags softfloat_flag_underflow s else s);
               increment =
                 (if roundingMode = softfloat_round_nearest_even
                  then \<not> roundBits < 0x80000000 \<and> \<not> (roundBits = 0x80000000 \<and> v64 AND 0x100000000 = 0)
                  else if roundingMode = softfloat_round_minMag then False
                  else if roundingMode = softfloat_round_min then fx_sign xZ
                  else if roundingMode = softfloat_round_max then \<not> fx_sign xZ
                  else if roundingMode = softfloat_round_nearest_maxMag then \<not> roundBits < 0x80000000
                  else True)
           in if increment
              then
                let v64 = v64 + 0x100000000
                in (if v64 = 0x0100000000000000
                    then xZ\<lparr>fx_exp := fx_exp xZ + 1, fx_sig := bits 0x0080000000000000 0\<rparr>
                    else xZ\<lparr>fx_sig := bits v64 0\<rparr>, s)
              else (xZ, s)
         else (xZ, s))"

definition roundFloatXTo53 :: "bool \<Rightarrow> floatX \<Rightarrow> int8_t \<Rightarrow> bool \<Rightarrow> slow_state \<Rightarrow> floatX \<times> slow_state" where
  "roundFloatXTo53 isTiny xZ roundingMode exact s =
     (let v64 = u128_v64 (fx_sig xZ) OR of_bool (u128_v0 (fx_sig xZ) \<noteq> 0);
          roundBits = v64 AND 7;
          v64 = v64 - roundBits;
          xZ = xZ\<lparr>fx_sig := bits v64 0\<rparr>
      in if roundBits \<noteq> 0
         then
           let s = (if exact then orFlags softfloat_flag_inexact s else s);
               s = (if isTiny then orFlags softfloat_flag_underflow s else s);
               increment =
                 (if roundingMode = softfloat_round_nearest_even
                  then \<not> roundBits < 4 \<and> \<not> (roundBits = 4 \<and> v64 AND 8 = 0)
                  else if roundingMode = softfloat_round_minMag then False
                  else if roundingMode = softfloat_round_min then fx_sign xZ
                  else if roundingMode = softfloat_round_max then \<not> fx_sign xZ
                  else if roundingMode = softfloat_round_nearest_maxMag then \<not> roundBits < 4
                  else True)
           in if increment
              then
                let v64 = v64 + 8
                in (if v64 = 0x0100000000000000
                    then xZ\<lparr>fx_exp := fx_exp xZ + 1, fx_sig := bits 0x0080000000000000 0\<rparr>
                    else xZ\<lparr>fx_sig := bits v64 0\<rparr>, s)
              else (xZ, s)
         else (xZ, s))"

definition roundFloatXTo113 :: "bool \<Rightarrow> floatX \<Rightarrow> int8_t \<Rightarrow> bool \<Rightarrow> slow_state \<Rightarrow> floatX \<times> slow_state" where
  "roundFloatXTo113 isTiny xZ roundingMode exact s =
     (let roundBits = u128_v0 (fx_sig xZ) AND 0x7F;
          v64 = u128_v64 (fx_sig xZ);
          v0 = u128_v0 (fx_sig xZ) - roundBits;
          xZ = xZ\<lparr>fx_sig := bits v64 v0\<rparr>
      in if roundBits \<noteq> 0
         then
           let s = (if exact then orFlags softfloat_flag_inexact s else s);
               s = (if isTiny then orFlags softfloat_flag_underflow s else s);
               increment =
                 (if roundingMode = softfloat_round_nearest_even
                  then \<not> roundBits < 0x40 \<and> \<not> (roundBits = 0x40 \<and> v0 AND 0x80 = 0)
                  else if roundingMode = softfloat_round_minMag then False
                  else if roundingMode = softfloat_round_min then fx_sign xZ
                  else if roundingMode = softfloat_round_max then \<not> fx_sign xZ
                  else if roundingMode = softfloat_round_nearest_maxMag then \<not> roundBits < 0x40
                  else True)
           in if increment
              then
                let v0 = v0 + 0x80;
                    v64 = v64 + of_bool (v0 = 0)
                in (if v64 = 0x0100000000000000
                    then xZ\<lparr>fx_exp := fx_exp xZ + 1, fx_sig := bits 0x0080000000000000 v0\<rparr>
                    else xZ\<lparr>fx_sig := bits v64 v0\<rparr>, s)
              else (xZ, s)
         else (xZ, s))"

definition roundFloatXTo64 :: "bool \<Rightarrow> floatX \<Rightarrow> int8_t \<Rightarrow> bool \<Rightarrow> slow_state \<Rightarrow> floatX \<times> slow_state" where
  "roundFloatXTo64 isTiny xZ roundingMode exact s =
     (let roundBits = u128_v0 (fx_sig xZ) AND 0x00FFFFFFFFFFFFFF;
          v64 = u128_v64 (fx_sig xZ);
          v0 = u128_v0 (fx_sig xZ) - roundBits;
          xZ = xZ\<lparr>fx_sig := bits v64 v0\<rparr>
      in if roundBits \<noteq> 0
         then
           let s = (if exact then orFlags softfloat_flag_inexact s else s);
               s = (if isTiny then orFlags softfloat_flag_underflow s else s);
               increment =
                 (if roundingMode = softfloat_round_nearest_even
                  then \<not> roundBits < 0x0080000000000000 \<and> \<not> (roundBits = 0x0080000000000000 \<and> v0 AND 0x0100000000000000 = 0)
                  else if roundingMode = softfloat_round_minMag then False
                  else if roundingMode = softfloat_round_min then fx_sign xZ
                  else if roundingMode = softfloat_round_max then \<not> fx_sign xZ
                  else if roundingMode = softfloat_round_nearest_maxMag then \<not> roundBits < 0x0080000000000000
                  else True)
           in if increment
              then
                let v0 = v0 + 0x0100000000000000;
                    v64 = v64 + of_bool (v0 = 0)
                in (if v64 = 0x0100000000000000
                    then xZ\<lparr>fx_exp := fx_exp xZ + 1, fx_sig := bits 0x0080000000000000 v0\<rparr>
                    else xZ\<lparr>fx_sig := bits v64 v0\<rparr>, s)
              else (xZ, s)
         else (xZ, s))"

section \<open>Integers\<close>

definition ui32ToFloatX :: "int \<Rightarrow> uint32_t \<Rightarrow> floatX option" where
  "ui32ToFloatX u a =
     (let xA = \<lparr>isNaN = False, isInf = False, isZero = True, fx_sign = False, fx_exp = u, fx_sig = bits (ucast a) 0\<rparr>
      in if a \<noteq> 0
         then do {
           (e, v64) \<leftarrow> norm64_loop 0x0080000000000000 31 (push_bit 24 (ucast a));
           Some (xA\<lparr>isZero := False, fx_exp := e, fx_sig := bits v64 0\<rparr>)
         }
         else Some xA)"

definition ui64ToFloatX :: "int \<Rightarrow> uint64_t \<Rightarrow> floatX option" where
  "ui64ToFloatX u a =
     (let xA = \<lparr>isNaN = False, isInf = False, isZero = True, fx_sign = False, fx_exp = u, fx_sig = bits 0 a\<rparr>
      in if a \<noteq> 0
         then do {
           (e, sig) \<leftarrow> norm128_loop 63 (shortShift128Left (bits 0 a) 56);
           Some (xA\<lparr>isZero := False, fx_exp := e, fx_sig := sig\<rparr>)
         }
         else Some xA)"

definition i32ToFloatX :: "int \<Rightarrow> int32_t \<Rightarrow> floatX option" where
  "i32ToFloatX u a =
     (let sign = (a <s 0);
          v64 = (if sign then - scast a else scast a) :: uint64_t;
          xA = \<lparr>isNaN = False, isInf = False, isZero = True, fx_sign = sign, fx_exp = u, fx_sig = bits v64 0\<rparr>
      in if a \<noteq> 0
         then do {
           (e, v64) \<leftarrow> norm64_loop 0x0080000000000000 31 (push_bit 24 v64);
           Some (xA\<lparr>isZero := False, fx_exp := e, fx_sig := bits v64 0\<rparr>)
         }
         else Some xA)"

definition i64ToFloatX :: "int \<Rightarrow> int64_t \<Rightarrow> floatX option" where
  "i64ToFloatX u a =
     (let sign = (a <s 0);
          v0 = (if sign then - a else a);
          xA = \<lparr>isNaN = False, isInf = False, isZero = True, fx_sign = sign, fx_exp = u, fx_sig = bits 0 v0\<rparr>
      in if a \<noteq> 0
         then do {
           (e, sig) \<leftarrow> norm128_loop 63 (shortShift128Left (bits 0 v0) 56);
           Some (xA\<lparr>isZero := False, fx_exp := e, fx_sig := sig\<rparr>)
         }
         else Some xA)"

definition floatXToUI32 :: "floatX \<Rightarrow> int8_t \<Rightarrow> bool \<Rightarrow> slow_state \<Rightarrow> uint32_t \<times> slow_state" where
  "floatXToUI32 xA roundingMode exact s =
     (if isInf xA \<or> isNaN xA then (0xFFFFFFFF, orFlags softfloat_flag_invalid s)
      else if isZero xA then (0, s)
      else
        let savedExceptionFlags = softfloat_exceptionFlags s;
            shiftCount = 52 - fx_exp xA;
            (shiftCount, sig) = (if 56 < shiftCount then (shiftCount, bits 0 1) else shift_loop shiftCount (fx_sig xA));
            (xA, s) = roundFloatXTo53 False (xA\<lparr>fx_sig := sig\<rparr>) roundingMode exact s;
            sig = shortShift128RightJam (fx_sig xA) 3;
            z = ucast (u128_v64 sig) :: uint32_t
        in if shiftCount < 0 \<or> drop_bit 32 (u128_v64 sig) \<noteq> 0 \<or> (fx_sign xA \<and> z \<noteq> 0)
           then (0xFFFFFFFF, s\<lparr>softfloat_exceptionFlags := savedExceptionFlags OR softfloat_flag_invalid\<rparr>)
           else (z, s))"

definition floatXToUI64 :: "floatX \<Rightarrow> int8_t \<Rightarrow> bool \<Rightarrow> slow_state \<Rightarrow> uint64_t \<times> slow_state" where
  "floatXToUI64 xA roundingMode exact s =
     (if isInf xA \<or> isNaN xA then (0xFFFFFFFFFFFFFFFF, orFlags softfloat_flag_invalid s)
      else if isZero xA then (0, s)
      else
        let savedExceptionFlags = softfloat_exceptionFlags s;
            shiftCount = 112 - fx_exp xA;
            (shiftCount, sig) = (if 116 < shiftCount then (shiftCount, bits 0 1) else shift_loop shiftCount (fx_sig xA));
            (xA, s) = roundFloatXTo113 False (xA\<lparr>fx_sig := sig\<rparr>) roundingMode exact s;
            sig = shortShift128RightJam (fx_sig xA) 7;
            z = u128_v0 sig
        in if shiftCount < 0 \<or> u128_v64 sig \<noteq> 0 \<or> (fx_sign xA \<and> z \<noteq> 0)
           then (0xFFFFFFFFFFFFFFFF, s\<lparr>softfloat_exceptionFlags := savedExceptionFlags OR softfloat_flag_invalid\<rparr>)
           else (z, s))"

text \<open>The union of the next two reads the bits of an unsigned number as a signed one.\<close>

definition floatXToI32 :: "floatX \<Rightarrow> int8_t \<Rightarrow> bool \<Rightarrow> slow_state \<Rightarrow> int32_t \<times> slow_state" where
  "floatXToI32 xA roundingMode exact s =
     (if isInf xA \<or> isNaN xA
      then (if isInf xA \<and> fx_sign xA then - 0x7FFFFFFF - 1 else 0x7FFFFFFF, orFlags softfloat_flag_invalid s)
      else if isZero xA then (0, s)
      else
        let savedExceptionFlags = softfloat_exceptionFlags s;
            shiftCount = 52 - fx_exp xA;
            (shiftCount, sig) = (if 56 < shiftCount then (shiftCount, bits 0 1) else shift_loop shiftCount (fx_sig xA));
            (xA, s) = roundFloatXTo53 False (xA\<lparr>fx_sig := sig\<rparr>) roundingMode exact s;
            sig = shortShift128RightJam (fx_sig xA) 3;
            uZ = ucast (u128_v64 sig) :: uint32_t;
            uZ = (if fx_sign xA then - uZ else uZ)
        in if shiftCount < 0 \<or> drop_bit 32 (u128_v64 sig) \<noteq> 0 \<or> (uZ \<noteq> 0 \<and> fx_sign xA \<noteq> (uZ <s 0))
           then (if fx_sign xA then - 0x7FFFFFFF - 1 else 0x7FFFFFFF,
                 s\<lparr>softfloat_exceptionFlags := savedExceptionFlags OR softfloat_flag_invalid\<rparr>)
           else (uZ, s))"

definition floatXToI64 :: "floatX \<Rightarrow> int8_t \<Rightarrow> bool \<Rightarrow> slow_state \<Rightarrow> int64_t \<times> slow_state" where
  "floatXToI64 xA roundingMode exact s =
     (if isInf xA \<or> isNaN xA
      then (if isInf xA \<and> fx_sign xA then - 0x7FFFFFFFFFFFFFFF - 1 else 0x7FFFFFFFFFFFFFFF, orFlags softfloat_flag_invalid s)
      else if isZero xA then (0, s)
      else
        let savedExceptionFlags = softfloat_exceptionFlags s;
            shiftCount = 112 - fx_exp xA;
            (shiftCount, sig) = (if 116 < shiftCount then (shiftCount, bits 0 1) else shift_loop shiftCount (fx_sig xA));
            (xA, s) = roundFloatXTo113 False (xA\<lparr>fx_sig := sig\<rparr>) roundingMode exact s;
            sig = shortShift128RightJam (fx_sig xA) 7;
            uZ = u128_v0 sig;
            uZ = (if fx_sign xA then - uZ else uZ)
        in if shiftCount < 0 \<or> u128_v64 sig \<noteq> 0 \<or> (uZ \<noteq> 0 \<and> fx_sign xA \<noteq> (uZ <s 0))
           then (if fx_sign xA then - 0x7FFFFFFFFFFFFFFF - 1 else 0x7FFFFFFFFFFFFFFF,
                 s\<lparr>softfloat_exceptionFlags := savedExceptionFlags OR softfloat_flag_invalid\<rparr>)
           else (uZ, s))"

section \<open>The two formats\<close>

text \<open>The loop over a subnormal significand shifts before its first test.\<close>

definition f32ToFloatX :: "int \<Rightarrow> float32_t \<Rightarrow> floatX option" where
  "f32ToFloatX u a =
     (let uiA = a;
          sign = (uiA AND 0x80000000 \<noteq> 0);
          e = uint (drop_bit 23 uiA AND 0xFF);
          v64 = push_bit 32 (ucast (uiA AND 0x007FFFFF)) :: uint64_t;
          xA = \<lparr>isNaN = False, isInf = False, isZero = False, fx_sign = sign, fx_exp = u, fx_sig = bits v64 0\<rparr>
      in if e = 0xFF
         then Some (if v64 \<noteq> 0 then xA\<lparr>isNaN := True\<rparr> else xA\<lparr>isInf := True\<rparr>)
         else if e = 0
         then
           if v64 = 0 then Some (xA\<lparr>isZero := True\<rparr>)
           else do {
             (e, v64) \<leftarrow> norm64_loop 0x0080000000000000 (1 - 0x7F - 1) (push_bit 1 v64);
             Some (xA\<lparr>fx_exp := e, fx_sig := bits v64 0\<rparr>)
           }
         else Some (xA\<lparr>fx_exp := e - 0x7F, fx_sig := bits (v64 OR 0x0080000000000000) 0\<rparr>))"

definition f64ToFloatX :: "int \<Rightarrow> float64_t \<Rightarrow> floatX option" where
  "f64ToFloatX u a =
     (let uiA = a;
          sign = (uiA AND 0x8000000000000000 \<noteq> 0);
          e = uint (drop_bit 52 uiA AND 0x7FF);
          v64 = uiA AND 0x000FFFFFFFFFFFFF;
          xA = \<lparr>isNaN = False, isInf = False, isZero = False, fx_sign = sign, fx_exp = u, fx_sig = bits v64 0\<rparr>
      in do {
        xA \<leftarrow>
          (if e = 0x7FF
           then Some (if v64 \<noteq> 0 then xA\<lparr>isNaN := True\<rparr> else xA\<lparr>isInf := True\<rparr>)
           else if e = 0
           then
             if v64 = 0 then Some (xA\<lparr>isZero := True\<rparr>)
             else do {
               (e, v64) \<leftarrow> norm64_loop 0x0010000000000000 (1 - 0x3FF - 1) (push_bit 1 v64);
               Some (xA\<lparr>fx_exp := e, fx_sig := bits v64 0\<rparr>)
             }
           else Some (xA\<lparr>fx_exp := e - 0x3FF, fx_sig := bits (v64 OR 0x0010000000000000) 0\<rparr>));
        Some (xA\<lparr>fx_sig := bits (push_bit 3 (u128_v64 (fx_sig xA))) (u128_v0 (fx_sig xA))\<rparr>)
      })"

definition floatXToF32 :: "floatX \<Rightarrow> slow_state \<Rightarrow> (float32_t \<times> slow_state) option" where
  "floatXToF32 xZ s =
     (if isNaN xZ then Some (0xFFFFFFFF, s)
      else if isInf xZ then Some (if fx_sign xZ then 0xFF800000 else 0x7F800000, s)
      else if isZero xZ then Some (if fx_sign xZ then 0x80000000 else 0, s)
      else do {
        (e, sig) \<leftarrow> carry_loop (fx_exp xZ) (fx_sig xZ);
        (e, sig) \<leftarrow> norm128_loop e sig;
        let xZ = xZ\<lparr>fx_exp := e, fx_sig := sig\<rparr>;
        let savedZ = xZ;
        let isTiny = (softfloat_detectTininess s = softfloat_tininess_beforeRounding \<and> fx_exp xZ + 0x7F \<le> 0);
        let (xZ, s) = roundFloatXTo24 isTiny xZ (softfloat_roundingMode s) True s;
        let e = fx_exp xZ + 0x7F;
        if 0xFF \<le> e
        then
          let s = orFlags (softfloat_flag_overflow OR softfloat_flag_inexact) s;
              mode = softfloat_roundingMode s
          in if fx_sign xZ
             then if mode = softfloat_round_nearest_even \<or> mode = softfloat_round_min \<or> mode = softfloat_round_nearest_maxMag
                  then Some (0xFF800000, s)
                  else if mode = softfloat_round_minMag \<or> mode = softfloat_round_max then Some (0xFF7FFFFF, s)
                  else None
             else if mode = softfloat_round_nearest_even \<or> mode = softfloat_round_max \<or> mode = softfloat_round_nearest_maxMag
                  then Some (0x7F800000, s)
                  else if mode = softfloat_round_minMag \<or> mode = softfloat_round_min then Some (0x7F7FFFFF, s)
                  else None
        else
          let (e, xZ, s) =
                (if e \<le> 0
                 then
                   let xZ = savedZ;
                       e = fx_exp xZ + 0x7F;
                       sig = fx_sig xZ;
                       sig = (if e < -27 then bits 0 (of_bool (u128_v64 sig \<noteq> 0 \<or> u128_v0 sig \<noteq> 0))
                              else snd (shift_loop (1 - e) sig));
                       (xZ, s) = roundFloatXTo24 True (xZ\<lparr>fx_sig := sig\<rparr>) (softfloat_roundingMode s) True s
                   in (if 0x0080000000000000 \<le> u128_v64 (fx_sig xZ) then 1 else 0, xZ, s)
                 else (e, xZ, s));
              uiZ = push_bit 23 (word_of_int e);
              uiZ = (if fx_sign xZ then uiZ OR 0x80000000 else uiZ);
              uiZ = uiZ OR ucast (drop_bit 32 (u128_v64 (fx_sig xZ)) AND 0x007FFFFF)
          in Some (uiZ, s)
      })"

definition floatXToF64 :: "floatX \<Rightarrow> slow_state \<Rightarrow> (float64_t \<times> slow_state) option" where
  "floatXToF64 xZ s =
     (if isNaN xZ then Some (0xFFFFFFFFFFFFFFFF, s)
      else if isInf xZ then Some (if fx_sign xZ then 0xFFF0000000000000 else 0x7FF0000000000000, s)
      else if isZero xZ then Some (if fx_sign xZ then 0x8000000000000000 else 0, s)
      else do {
        (e, sig) \<leftarrow> carry_loop (fx_exp xZ) (fx_sig xZ);
        (e, sig) \<leftarrow> norm128_loop e sig;
        let xZ = xZ\<lparr>fx_exp := e, fx_sig := sig\<rparr>;
        let savedZ = xZ;
        let isTiny = (softfloat_detectTininess s = softfloat_tininess_beforeRounding \<and> fx_exp xZ + 0x3FF \<le> 0);
        let (xZ, s) = roundFloatXTo53 isTiny xZ (softfloat_roundingMode s) True s;
        let e = fx_exp xZ + 0x3FF;
        if 0x7FF \<le> e
        then
          let s = orFlags (softfloat_flag_overflow OR softfloat_flag_inexact) s;
              mode = softfloat_roundingMode s
          in if fx_sign xZ
             then if mode = softfloat_round_nearest_even \<or> mode = softfloat_round_min \<or> mode = softfloat_round_nearest_maxMag
                  then Some (0xFFF0000000000000, s)
                  else if mode = softfloat_round_minMag \<or> mode = softfloat_round_max then Some (0xFFEFFFFFFFFFFFFF, s)
                  else None
             else if mode = softfloat_round_nearest_even \<or> mode = softfloat_round_max \<or> mode = softfloat_round_nearest_maxMag
                  then Some (0x7FF0000000000000, s)
                  else if mode = softfloat_round_minMag \<or> mode = softfloat_round_min then Some (0x7FEFFFFFFFFFFFFF, s)
                  else None
        else
          let (e, xZ, s) =
                (if e \<le> 0
                 then
                   let xZ = savedZ;
                       e = fx_exp xZ + 0x3FF;
                       sig = fx_sig xZ;
                       sig = (if e < -56 then bits 0 (of_bool (u128_v64 sig \<noteq> 0 \<or> u128_v0 sig \<noteq> 0))
                              else snd (shift_loop (1 - e) sig));
                       (xZ, s) = roundFloatXTo53 True (xZ\<lparr>fx_sig := sig\<rparr>) (softfloat_roundingMode s) True s
                   in (if 0x0080000000000000 \<le> u128_v64 (fx_sig xZ) then 1 else 0, xZ, s)
                 else (e, xZ, s));
              uiZ = push_bit 52 (word_of_int e);
              uiZ = (if fx_sign xZ then uiZ OR 0x8000000000000000 else uiZ);
              uiZ = uiZ OR (drop_bit 3 (u128_v64 (fx_sig xZ)) AND 0x000FFFFFFFFFFFFF)
          in Some (uiZ, s)
      })"

section \<open>Arithmetic\<close>

definition floatXInvalid :: "slow_state \<Rightarrow> floatX \<times> slow_state" where
  "floatXInvalid s = (floatXNaN, orFlags softfloat_flag_invalid s)"

definition floatXRoundToInt :: "floatX \<Rightarrow> int8_t \<Rightarrow> bool \<Rightarrow> slow_state \<Rightarrow> floatX \<times> slow_state" where
  "floatXRoundToInt xA roundingMode exact s =
     (if isNaN xA \<or> isInf xA then (xA, s)
      else
        let shiftCount = 112 - fx_exp xA
        in if shiftCount \<le> 0 then (xA, s)
           else
             let xA = (if 119 < shiftCount then xA\<lparr>fx_exp := 112, fx_sig := bits 0 (of_bool (\<not> isZero xA))\<rparr>
                       else xA\<lparr>fx_exp := fx_exp xA + shiftCount, fx_sig := snd (shift_loop shiftCount (fx_sig xA))\<rparr>);
                 (xA, s) = roundFloatXTo113 False xA roundingMode exact s
             in (if u128_v64 (fx_sig xA) = 0 \<and> u128_v0 (fx_sig xA) = 0 then xA\<lparr>isZero := True\<rparr> else xA, s))"

definition floatXAdd :: "floatX \<Rightarrow> floatX \<Rightarrow> slow_state \<Rightarrow> floatX \<times> slow_state" where
  "floatXAdd xA xB s =
     (let completeCancellation =
            (if softfloat_roundingMode s = softfloat_round_min then floatXNegativeZero else floatXPositiveZero, s)
      in if isNaN xA then (xA, s)
         else if isNaN xB then (xB, s)
         else if isInf xA \<and> isInf xB then if fx_sign xA = fx_sign xB then (xA, s) else floatXInvalid s
         else if isInf xA then (xA, s)
         else if isInf xB then (xB, s)
         else if isZero xA \<and> isZero xB then if fx_sign xA = fx_sign xB then (xA, s) else completeCancellation
         else if fx_sign xA \<noteq> fx_sign xB \<and> fx_exp xA = fx_exp xB \<and> eq128 (fx_sig xA) (fx_sig xB) then completeCancellation
         else if isZero xA then (xB, s)
         else if isZero xB then (xA, s)
         else
           let expDiff = fx_exp xA - fx_exp xB;
               xZ =
                 (if expDiff < 0
                  then
                    let sig = (if expDiff < -120 then bits 0 1 else snd (shift_loop (- expDiff) (fx_sig xA)));
                        sig = (if fx_sign xA \<noteq> fx_sign xB then neg128 sig else sig)
                    in xA\<lparr>fx_exp := fx_exp xB, fx_sign := fx_sign xB, fx_sig := add128 sig (fx_sig xB)\<rparr>
                  else
                    let sig = (if 120 < expDiff then bits 0 1 else snd (shift_loop expDiff (fx_sig xB)));
                        sig = (if fx_sign xA \<noteq> fx_sign xB then neg128 sig else sig)
                    in xB\<lparr>fx_exp := fx_exp xA, fx_sign := fx_sign xA, fx_sig := add128 sig (fx_sig xA)\<rparr>)
           in (if u128_v64 (fx_sig xZ) AND 0x8000000000000000 \<noteq> 0
               then xZ\<lparr>fx_sign := \<not> fx_sign xZ, fx_sig := neg128 (fx_sig xZ)\<rparr>
               else xZ, s))"

text \<open>The loops of multiplication, division and square root run a fixed number of times, their first argument.\<close>

fun mul_loop :: "nat \<Rightarrow> bits128X \<Rightarrow> bits128X \<Rightarrow> bits128X \<Rightarrow> bits128X" where
  "mul_loop 0 aSig bSig zSig = zSig"
| "mul_loop (Suc n) aSig bSig zSig =
     (let zSig = shortShift128RightJam zSig 1;
          zSig = (if u128_v0 bSig AND 1 \<noteq> 0 then add128 zSig aSig else zSig)
      in mul_loop n aSig (shortShift128Right bSig 1) zSig)"

definition floatXMul :: "floatX \<Rightarrow> floatX \<Rightarrow> slow_state \<Rightarrow> floatX \<times> slow_state" where
  "floatXMul xA xB s =
     (if isNaN xA then (xA, s)
      else if isNaN xB then (xB, s)
      else if isInf xA
      then if isZero xB then floatXInvalid s
           else (if fx_sign xB then xA\<lparr>fx_sign := \<not> fx_sign xA\<rparr> else xA, s)
      else if isInf xB
      then if isZero xA then floatXInvalid s
           else (if fx_sign xA then xB\<lparr>fx_sign := \<not> fx_sign xB\<rparr> else xB, s)
      else
        let xZ = xA\<lparr>fx_sign := (fx_sign xA \<noteq> fx_sign xB)\<rparr>
        in if isZero xA \<or> isZero xB then (if fx_sign xZ then floatXNegativeZero else floatXPositiveZero, s)
           else
             let xZ = xZ\<lparr>fx_exp := fx_exp xZ + fx_exp xB, fx_sig := mul_loop 120 (fx_sig xA) (fx_sig xB) (bits 0 0)\<rparr>
             in (if 0x0100000000000000 \<le> u128_v64 (fx_sig xZ)
                 then xZ\<lparr>fx_exp := fx_exp xZ + 1, fx_sig := shortShift128RightJam (fx_sig xZ) 1\<rparr>
                 else xZ, s))"

fun div_loop :: "nat \<Rightarrow> bits128X \<Rightarrow> bits128X \<Rightarrow> bits128X \<Rightarrow> bits128X \<Rightarrow> bits128X \<times> bits128X" where
  "div_loop 0 bSig negBSig aSig zSig = (aSig, zSig)"
| "div_loop (Suc n) bSig negBSig aSig zSig =
     (let (aSig, zSig) =
            (if le128 bSig aSig then (add128 aSig negBSig, zSig\<lparr>u128_v0 := u128_v0 zSig OR 1\<rparr>) else (aSig, zSig))
      in div_loop n bSig negBSig (shortShift128Left aSig 1) (shortShift128Left zSig 1))"

definition floatXDiv :: "floatX \<Rightarrow> floatX \<Rightarrow> slow_state \<Rightarrow> floatX \<times> slow_state" where
  "floatXDiv xA xB s =
     (if isNaN xA then (xA, s)
      else if isNaN xB then (xB, s)
      else if isInf xA
      then if isInf xB then floatXInvalid s
           else (if fx_sign xB then xA\<lparr>fx_sign := \<not> fx_sign xA\<rparr> else xA, s)
      else if isZero xB
      then if isZero xA then floatXInvalid s
           else
             let s = orFlags softfloat_flag_infinity s;
                 xB = (if fx_sign xA then xB\<lparr>fx_sign := \<not> fx_sign xB\<rparr> else xB)
             in (xB\<lparr>isInf := True, isZero := False\<rparr>, s)
      else
        let xZ = xA\<lparr>fx_sign := (fx_sign xA \<noteq> fx_sign xB)\<rparr>
        in if isZero xA \<or> isInf xB then (if fx_sign xZ then floatXNegativeZero else floatXPositiveZero, s)
           else
             let (aSig, zSig) = div_loop 120 (fx_sig xB) (neg128 (fx_sig xB)) (fx_sig xA) (bits 0 0);
                 zSig = (if u128_v64 aSig \<noteq> 0 \<or> u128_v0 aSig \<noteq> 0 then zSig\<lparr>u128_v0 := u128_v0 zSig OR 1\<rparr> else zSig)
             in (xZ\<lparr>fx_exp := fx_exp xZ - (fx_exp xB + 1), fx_sig := zSig\<rparr>, s))"

text \<open>\<^verbatim>\<open>while ( xB.exp < xA.exp )\<close> of the remainder: the exponent and the significand of \<^verbatim>\<open>xA\<close> at its end.\<close>

function rem_loop :: "int \<Rightarrow> bits128X \<Rightarrow> bits128X \<Rightarrow> int \<Rightarrow> bits128X \<Rightarrow> int \<times> bits128X" where
  "rem_loop expB bSig negBSig expA aSig =
     (if expB < expA
      then
        let aSig = (if le128 bSig aSig then add128 aSig negBSig else aSig)
        in rem_loop expB bSig negBSig (expA - 1) (shortShift128Left aSig 1)
      else (expA, aSig))"
  by pat_completeness auto
termination
  by (relation "measure (\<lambda>(expB, bSig, negBSig, expA, aSig). nat (expA - expB))") auto

declare rem_loop.simps [simp del]

definition floatXRem :: "floatX \<Rightarrow> floatX \<Rightarrow> slow_state \<Rightarrow> floatX \<times> slow_state" where
  "floatXRem xA xB s =
     (if isNaN xA then (xA, s)
      else if isNaN xB then (xB, s)
      else if isInf xA \<or> isZero xB then floatXInvalid s
      else if isZero xA \<or> isInf xB then (xA, s)
      else
        let expB = fx_exp xB - 1
        in if fx_exp xA < expB then (xA, s)
           else
             let bSig = shortShift128Left (fx_sig xB) 1;
                 negBSig = neg128 bSig;
                 (expA, aSig) = rem_loop expB bSig negBSig (fx_exp xA) (fx_sig xA);
                 lastQuotientBit = le128 bSig aSig;
                 aSig = (if lastQuotientBit then add128 aSig negBSig else aSig);
                 savedASig = aSig;
                 aSig = neg128 (add128 aSig negBSig);
                 (sign, aSig) =
                   (if lt128 aSig savedASig then (\<not> fx_sign xA, aSig)
                    else if lt128 savedASig aSig then (fx_sign xA, savedASig)
                    else if lastQuotientBit then (\<not> fx_sign xA, aSig)
                    else (fx_sign xA, savedASig));
                 xA = xA\<lparr>fx_exp := expA, fx_sign := sign, fx_sig := aSig\<rparr>
             in (if u128_v64 aSig = 0 \<and> u128_v0 aSig = 0 then xA\<lparr>isZero := True\<rparr> else xA, s))"

fun sqrt_loop :: "nat \<Rightarrow> bits128X \<Rightarrow> bits128X \<Rightarrow> bits128X \<Rightarrow> bits128X \<times> bits128X" where
  "sqrt_loop 0 bitSig aSig zSig = (aSig, zSig)"
| "sqrt_loop (Suc n) bitSig aSig zSig =
     (let savedASig = aSig;
          aSig = add128 aSig (neg128 zSig);
          aSig = shortShift128Left aSig 1;
          aSig = add128 aSig (neg128 bitSig);
          (aSig, zSig) =
            (if u128_v64 aSig AND 0x8000000000000000 \<noteq> 0 then (shortShift128Left savedASig 1, zSig)
             else (aSig, bits (u128_v64 zSig OR u128_v64 bitSig) (u128_v0 zSig OR u128_v0 bitSig)))
      in sqrt_loop n (shortShift128RightJam bitSig 1) aSig zSig)"

definition floatXSqrt :: "floatX \<Rightarrow> slow_state \<Rightarrow> floatX \<times> slow_state" where
  "floatXSqrt xA s =
     (if isNaN xA \<or> isZero xA then (xA, s)
      else if fx_sign xA then floatXInvalid s
      else if isInf xA then (xA, s)
      else
        let xZ = xA\<lparr>fx_exp := fx_exp xA div 2\<rparr>;
            aSig = (if even (fx_exp xA) then shortShift128RightJam (fx_sig xA) 1 else fx_sig xA);
            (aSig, zSig) = sqrt_loop 120 (bits 0x0080000000000000 0) aSig (bits 0 0);
            zSig = (if u128_v64 aSig \<noteq> 0 \<or> u128_v0 aSig \<noteq> 0 then zSig\<lparr>u128_v0 := u128_v0 zSig OR 1\<rparr> else zSig)
        in (xZ\<lparr>fx_sig := zSig\<rparr>, s))"

definition floatXEq :: "floatX \<Rightarrow> floatX \<Rightarrow> bool" where
  "floatXEq xA xB =
     (if isNaN xA \<or> isNaN xB then False
      else if isZero xA \<and> isZero xB then True
      else if fx_sign xA \<noteq> fx_sign xB then False
      else if isInf xA \<or> isInf xB then isInf xA \<and> isInf xB
      else fx_exp xA = fx_exp xB \<and> eq128 (fx_sig xA) (fx_sig xB))"

definition floatXLE :: "floatX \<Rightarrow> floatX \<Rightarrow> bool" where
  "floatXLE xA xB =
     (if isNaN xA \<or> isNaN xB then False
      else if isZero xA \<and> isZero xB then True
      else if fx_sign xA \<noteq> fx_sign xB then fx_sign xA
      else if fx_sign xA
      then if isInf xA \<or> isZero xB then True
           else if isInf xB \<or> isZero xA then False
           else if fx_exp xB < fx_exp xA then True
           else if fx_exp xA < fx_exp xB then False
           else le128 (fx_sig xB) (fx_sig xA)
      else if isInf xB \<or> isZero xA then True
           else if isInf xA \<or> isZero xB then False
           else if fx_exp xA < fx_exp xB then True
           else if fx_exp xB < fx_exp xA then False
           else le128 (fx_sig xA) (fx_sig xB))"

definition floatXLT :: "floatX \<Rightarrow> floatX \<Rightarrow> bool" where
  "floatXLT xA xB =
     (if isNaN xA \<or> isNaN xB then False
      else if isZero xA \<and> isZero xB then False
      else if fx_sign xA \<noteq> fx_sign xB then fx_sign xA
      else if isInf xA \<and> isInf xB then False
      else if fx_sign xA
      then if isInf xA \<or> isZero xB then True
           else if isInf xB \<or> isZero xA then False
           else if fx_exp xB < fx_exp xA then True
           else if fx_exp xA < fx_exp xB then False
           else lt128 (fx_sig xB) (fx_sig xA)
      else if isInf xB \<or> isZero xA then True
           else if isInf xA \<or> isZero xB then False
           else if fx_exp xA < fx_exp xB then True
           else if fx_exp xB < fx_exp xA then False
           else lt128 (fx_sig xA) (fx_sig xB))"

end
