(* ===== verification/Slow_Bits.thy ===== *)
theory Slow_Bits
  imports Slow_Float Multiword_Shifts
begin

text \<open>
  The 128-bit helpers and the loops of \<open>Slow_Float\<close> as arithmetic on natural numbers.
\<close>

section \<open>Operations\<close>

lemma u128_bits [simp]: "u128 (bits a b) = cat128 a b"
  by (simp add: u128_def)

lemma le128_value: "le128 a b \<longleftrightarrow> u128 a \<le> u128 b"
  unfolding u128_cat [symmetric] le128_iff [symmetric] by (simp add: le128_def softfloat_le128_def)

lemma lt128_value: "lt128 a b \<longleftrightarrow> u128 a < u128 b"
  unfolding u128_cat [symmetric] lt128_iff [symmetric] by (simp add: lt128_def softfloat_lt128_def)

lemma eq128_value: "eq128 a b \<longleftrightarrow> u128 a = u128 b"
  unfolding u128_cat [symmetric] eq128_iff [symmetric] by (simp add: eq128_def softfloat_eq128_def)

lemma u128_zero_iff: "u128 z = 0 \<longleftrightarrow> u128_v64 z = 0 \<and> u128_v0 z = 0"
  by (auto simp: u128_def unat_eq_zero)

lemma u128_inject: "u128 a = u128 b \<longleftrightarrow> a = b"
  unfolding eq128_value [symmetric] eq128_def by (cases a; cases b) simp

lemma add128_value: "u128 (add128 a b) = (u128 a + u128 b) mod 2 ^ 128"
proof -
  have "u128_v0 a + u128_v0 b < u128_v0 b \<longleftrightarrow> u128_v0 a + u128_v0 b < u128_v0 a"
    using add_carry_word [of "u128_v0 a" "u128_v0 b"] add_carry_word [of "u128_v0 b" "u128_v0 a"] by (auto simp: add.commute of_bool_def split: if_splits)
  then have "add128 a b = softfloat_add128 (u128_v64 a) (u128_v0 a) (u128_v64 b) (u128_v0 b)"
    by (simp add: add128_def softfloat_add128_def Let_def add.assoc)
  then show ?thesis by (simp only: add128_mod u128_cat)
qed

lemma neg128_value: "u128 (neg128 a) = (2 ^ 128 - u128 a) mod 2 ^ 128"
proof -
  have "neg128 a = softfloat_sub128 0 0 (u128_v64 a) (u128_v0 a)"
  proof (cases "u128_v0 a = 0")
    case True
    then show ?thesis by (simp add: neg128_def softfloat_sub128_def)
  next
    case False
    then have "0 < u128_v0 a" by (simp add: word_neq_0_conv)
    then show ?thesis using False by (simp add: neg128_def softfloat_sub128_def not_eq_complement)
  qed
  then have "u128 (neg128 a) = (cat128 0 0 + (2 ^ 128 - u128 a)) mod 2 ^ 128" by (simp only: sub128_mod u128_cat)
  then show ?thesis by simp
qed

lemma complement_count: "0 < c \<Longrightarrow> c < 64 \<Longrightarrow> nat ((- int c) mod 64) = 64 - c"
  by (simp add: zmod_zminus1_eq_if nat_diff_distrib)

lemma shortShift128RightJam_value:
  assumes "0 < c" and "c < 64"
  shows "u128 (shortShift128RightJam a c) = jam c (u128 a)"
proof -
  define w :: uint32_t where "w = of_nat c"
  have w: "unat w = c" "w < 64" using assms by (simp_all add: w_def unat_of_nat word_less_nat_alt)
  have n: "neg_count w 63 = 64 - c" using neg_count_eq64 [of w] assms w by simp
  have m: "unat (w AND 63) = c" using and_mask_take_bit [of w 6] assms(2) w(1) by (simp add: unat_take_bit_mod)
  have "shortShift128RightJam a c = softfloat_shift128RightJam (u128_v64 a) (u128_v0 a) w"
    using assms w(2) by (simp add: shortShift128RightJam_def softfloat_shift128RightJam_def Let_def complement_count n m w(1))
  then show ?thesis using shift128RightJam_short [of w "u128_v64 a" "u128_v0 a"] assms w by (simp add: u128_def)
qed

lemma shortShift128Left_value:
  assumes c: "0 < c" "c < 64"
  shows "u128 (shortShift128Left a c) = u128 a * 2 ^ c mod 2 ^ 128"
proof -
  let ?h = "unat (u128_v64 a)" and ?l = "unat (u128_v0 a)"
  have e: "(2::nat) ^ 64 = 2 ^ (64 - c) * 2 ^ c" using c by (simp flip: power_add)
  have l: "?l div 2 ^ (64 - c) < 2 ^ c" using unat_lt64 [of "u128_v0 a"] e by (simp add: div_less_iff_less_mult mult.commute)
  have uh: "unat (push_bit c (u128_v64 a)) = ?h * 2 ^ c mod 2 ^ 64" by (simp only: unat_push_bit_mod) simp
  have d: "2 ^ c dvd ?h * 2 ^ c mod 2 ^ 64" unfolding e by (simp add: dvd_mod)
  have "unat (push_bit c (u128_v64 a) OR drop_bit (64 - c) (u128_v0 a)) = ?h * 2 ^ c mod 2 ^ 64 + ?l div 2 ^ (64 - c)"
    using l d by (subst unat_or_disjoint [of c]) (simp_all only: uh unat_drop_bit_div)
  moreover have "unat (push_bit c (u128_v0 a)) = ?l * 2 ^ c mod 2 ^ 64" by (simp only: unat_push_bit_mod) simp
  moreover have q: "?l div 2 ^ (64 - c) = ?l * 2 ^ c div 2 ^ 64" unfolding e by simp
  ultimately have r: "u128 (shortShift128Left a c) = (?h * 2 ^ c mod 2 ^ 64 + ?l * 2 ^ c div 2 ^ 64) * 2 ^ 64 + ?l * 2 ^ c mod 2 ^ 64"
    using c by (simp only: shortShift128Left_def u128_bits complement_count)
  have digits: "h * p + l = h div p * (p * p) + ((h mod p + l div p) * p + l mod p)" for h l p :: nat
  proof -
    have "h * p + l = (h div p * p + h mod p) * p + (l div p * p + l mod p)" by (simp only: div_mult_mod_eq)
    then show ?thesis by (simp only: algebra_simps)
  qed
  have "u128 a * 2 ^ c = ?h * 2 ^ c * 2 ^ 64 + ?l * 2 ^ c" by (simp add: u128_def algebra_simps)
  also have "\<dots> = ?h * 2 ^ c div 2 ^ 64 * 2 ^ 128 + u128 (shortShift128Left a c)"
    unfolding r using digits [of "?h * 2 ^ c" "2 ^ 64" "?l * 2 ^ c"] by (simp only: power_add [symmetric]) simp
  finally have "u128 a * 2 ^ c = ?h * 2 ^ c div 2 ^ 64 * 2 ^ 128 + u128 (shortShift128Left a c)" .
  then show ?thesis using u128_less [of "shortShift128Left a c"] by simp
qed

lemma shortShift128Right_value:
  assumes c: "0 < c" "c < 64"
  shows "u128 (shortShift128Right a c) = u128 a div 2 ^ c"
proof -
  let ?h = "unat (u128_v64 a)" and ?l = "unat (u128_v0 a)"
  have e: "(2::nat) ^ 64 = 2 ^ (64 - c) * 2 ^ c" using c by (simp flip: power_add)
  have l: "?l div 2 ^ c < 2 ^ (64 - c)" using unat_lt64 [of "u128_v0 a"] e by (simp add: div_less_iff_less_mult mult.commute)
  have pm: "unat (push_bit (64 - c) (u128_v64 a)) = ?h mod 2 ^ c * 2 ^ (64 - c)"
    unfolding unat_push_bit_mod using e by (simp add: mult_mod_left mult.commute)
  have "unat (push_bit (64 - c) (u128_v64 a) OR drop_bit c (u128_v0 a)) = ?h mod 2 ^ c * 2 ^ (64 - c) + ?l div 2 ^ c"
    using l by (subst unat_or_disjoint [of "64 - c"]) (simp_all add: pm unat_drop_bit_div)
  then have r: "u128 (shortShift128Right a c) = ?h div 2 ^ c * 2 ^ 64 + (?h mod 2 ^ c * 2 ^ (64 - c) + ?l div 2 ^ c)"
    using c by (simp only: shortShift128Right_def u128_bits complement_count unat_drop_bit_div)
  have "u128 a div 2 ^ c = ?h * 2 ^ (64 - c) + ?l div 2 ^ c" unfolding u128_def e by (simp add: mult.assoc [symmetric])
  also have "?h * 2 ^ (64 - c) = (?h div 2 ^ c * 2 ^ c + ?h mod 2 ^ c) * 2 ^ (64 - c)" by (simp only: div_mult_mod_eq)
  also have "\<dots> = ?h div 2 ^ c * 2 ^ 64 + ?h mod 2 ^ c * 2 ^ (64 - c)" unfolding e distrib_right by (simp only: mult_ac)
  finally show ?thesis unfolding r by simp
qed

end
