(* ===== verification/Slow_Round.thy ===== *)
theory Slow_Round
  imports Slow_Bits Format_Contract
begin

text \<open>
  Rounding in the reference arithmetic. The bit-by-bit loops are sticky shifts and normalisations, the rounding of a significand decides on an increment
  that makes it the rounding of \<open>Rounding_Core\<close>, and packing, which rounds once with an unbounded exponent and once more for a subnormal result, delivers what
  the one-step \<^const>\<open>gen_round_pack\<close> does.
\<close>

section \<open>Sticky shifts compose\<close>

lemma even_plus_div: "0 < a \<Longrightarrow> (q + of_bool (P \<and> even q)) div 2 ^ a = q div (2::nat) ^ a"
proof (cases "P \<and> even q")
  case True
  assume "0 < a"
  then obtain b where a: "a = Suc b" by (cases a) simp_all
  obtain k where "q = 2 * k" using True by (auto elim: evenE)
  then show ?thesis using True by (simp add: a div_mult2_eq)
qed auto

lemma jam_dvd_iff:
  assumes "0 < a"
  shows "2 ^ a dvd jam b n \<longleftrightarrow> 2 ^ (a + b) dvd n"
proof (cases "2 ^ b dvd n")
  case True
  then show ?thesis by (auto simp: jam_def power_add mult.commute elim!: dvdE)
next
  case False
  then have "odd (jam b n)" by (simp add: jam_def)
  moreover have "2 dvd (2::nat) ^ a" using assms by simp
  ultimately have "\<not> 2 ^ a dvd jam b n" using dvd_trans by blast
  moreover have "\<not> 2 ^ (a + b) dvd n" using False by (auto simp: power_add elim!: dvdE)
  ultimately show ?thesis by simp
qed

lemma jam_jam:
  assumes "0 < a"
  shows "jam a (jam b n) = jam (a + b) n"
proof -
  have q: "jam b n div 2 ^ a = n div 2 ^ (a + b)"
    unfolding jam_def even_plus_div [OF assms] by (simp add: div_mult2_eq [symmetric] power_add mult.commute)
  show ?thesis unfolding jam_def [of a] jam_def [of "a + b"] q jam_dvd_iff [OF assms] ..
qed

lemma shift_loop_value: "fst (shift_loop (int c) sig) = 0 \<and> u128 (snd (shift_loop (int c) sig)) = jam c (u128 sig)"
proof (induction c arbitrary: sig)
  case 0
  show ?case by (simp add: shift_loop.simps)
next
  case (Suc c)
  have "shift_loop (int (Suc c)) sig = shift_loop (int c) (shortShift128RightJam sig 1)" by (subst shift_loop.simps) simp
  then show ?case using Suc [of "shortShift128RightJam sig 1"] by (cases "c = 0") (simp_all add: shortShift128RightJam_value jam_jam)
qed

lemma shift_loop_neg: "c \<le> 0 \<Longrightarrow> shift_loop c sig = (c, sig)"
  by (subst shift_loop.simps) simp

section \<open>Normalisation\<close>

lemma norm128_loop_value:
  assumes "u128 sig < 2 ^ 120" and "2 ^ 119 \<le> u128 sig * 2 ^ k"
  shows "\<exists>c sig'. norm128_loop e sig = Some (e - int c, sig') \<and> u128 sig' = u128 sig * 2 ^ c \<and> 2 ^ 119 \<le> u128 sig' \<and> u128 sig' < 2 ^ 120"
  using assms
proof (induction k arbitrary: e sig)
  case 0
  then have "\<not> u128_v64 sig < 0x0080000000000000" using high_word_less [of 55 sig] by (simp add: word_less_nat_alt)
  then have "norm128_loop e sig = Some (e - int 0, sig)" by (subst norm128_loop.simps) simp
  then show ?case using 0 by (intro exI [of _ 0]) simp
next
  case (Suc k)
  show ?case
  proof (cases "u128_v64 sig < 0x0080000000000000")
    case True
    then have lt: "u128 sig < 2 ^ 119" using high_word_less [of 55 sig] by (simp add: word_less_nat_alt)
    have u: "u128 (shortShift128Left sig 1) = u128 sig * 2" using lt by (simp add: shortShift128Left_value)
    obtain c sig' where c: "norm128_loop (e - 1) (shortShift128Left sig 1) = Some (e - 1 - int c, sig')" "u128 sig' = u128 sig * 2 * 2 ^ c"
      "2 ^ 119 \<le> u128 sig'" "u128 sig' < 2 ^ 120"
      using Suc.IH [of "shortShift128Left sig 1" "e - 1"] Suc.prems lt unfolding u by auto
    have "norm128_loop e sig = Some (e - int (Suc c), sig')" using True c(1) by (subst norm128_loop.simps) simp
    then show ?thesis using c(2-4) by (intro exI [of _ "Suc c"]) simp
  next
    case False
    then have "2 ^ 119 \<le> u128 sig" using high_word_less [of 55 sig] by (simp add: word_less_nat_alt)
    moreover have "norm128_loop e sig = Some (e - int 0, sig)" using False by (subst norm128_loop.simps) simp
    ultimately show ?thesis using Suc.prems by (intro exI [of _ 0]) simp
  qed
qed

lemma norm64_loop_value:
  assumes "unat v < 2 ^ Suc m" and "2 ^ m \<le> unat v * 2 ^ k" and "m < 63" and bound: "unat bound = 2 ^ m"
  shows "\<exists>c v'. norm64_loop bound e v = Some (e - int c, v') \<and> unat v' = unat v * 2 ^ c \<and> 2 ^ m \<le> unat v' \<and> unat v' < 2 ^ Suc m"
  using assms(1,2)
proof (induction k arbitrary: e v)
  case 0
  then have "\<not> v < bound" by (simp add: word_less_nat_alt bound)
  then have "norm64_loop bound e v = Some (e - int 0, v)" by (subst norm64_loop.simps) simp
  then show ?case using 0 by (intro exI [of _ 0] exI [of _ v]) simp
next
  case (Suc k)
  show ?case
  proof (cases "v < bound")
    case True
    then have lt: "unat v < 2 ^ m" by (simp add: word_less_nat_alt bound)
    have "(2::nat) ^ Suc m \<le> 2 ^ 64" using assms(3) by (intro power_increasing) simp_all
    then have u: "unat (push_bit 1 v) = unat v * 2" using lt by (subst unat_push_bit_small) simp_all
    obtain c v' where c: "norm64_loop bound (e - 1) (push_bit 1 v) = Some (e - 1 - int c, v')" "unat v' = unat v * 2 * 2 ^ c"
      "2 ^ m \<le> unat v'" "unat v' < 2 ^ Suc m"
      using Suc.IH [of "push_bit 1 v" "e - 1"] Suc.prems lt unfolding u by auto
    have "norm64_loop bound e v = Some (e - int (Suc c), v')" using True c(1) by (subst norm64_loop.simps) simp
    then show ?thesis using c(2-4) by (intro exI [of _ "Suc c"]) simp
  next
    case False
    then have "2 ^ m \<le> unat v" by (simp add: word_less_nat_alt bound)
    moreover have "norm64_loop bound e v = Some (e - int 0, v)" using False by (subst norm64_loop.simps) simp
    ultimately show ?thesis using Suc.prems by (intro exI [of _ 0] exI [of _ v]) simp
  qed
qed

lemma carry_loop_value:
  assumes "u128 sig < 2 ^ (120 + k)"
  shows "\<exists>c sig'. carry_loop e sig = Some (e + int c, sig') \<and> u128 sig' = jam c (u128 sig) \<and> c \<le> k \<and> u128 sig' < 2 ^ 120 \<and>
    (c = 0 \<or> 2 ^ 119 \<le> u128 sig')"
  using assms
proof (induction k arbitrary: e sig)
  case 0
  then have "\<not> 0x0100000000000000 \<le> u128_v64 sig" using high_word_less [of 56 sig] by (simp add: word_le_nat_alt)
  then have "carry_loop e sig = Some (e + int 0, sig)" by (subst carry_loop.simps) simp
  then show ?case using 0 by (intro exI [of _ 0]) simp
next
  case (Suc k)
  show ?case
  proof (cases "0x0100000000000000 \<le> u128_v64 sig")
    case True
    then have ge: "2 ^ 120 \<le> u128 sig" using high_word_less [of 56 sig] by (simp add: word_le_nat_alt not_less [symmetric])
    define t where "t = shortShift128RightJam sig 1"
    have u: "u128 t = jam 1 (u128 sig)" unfolding t_def by (simp add: shortShift128RightJam_value)
    have "u128 sig < 2 ^ (120 + k) * 2 ^ 1" using Suc.prems by (simp add: power_add)
    then have lt: "u128 t < 2 ^ (120 + k)" unfolding u by (subst jam_less_even) simp_all
    have gt: "2 ^ 119 \<le> u128 t" unfolding u using ge by (subst jam_le_even) simp_all
    obtain c sig' where c: "carry_loop (e + 1) t = Some (e + 1 + int c, sig')" "u128 sig' = jam c (u128 t)" "c \<le> k"
      "u128 sig' < 2 ^ 120" "c = 0 \<or> 2 ^ 119 \<le> u128 sig'"
      using Suc.IH [OF lt, of "e + 1"] by blast
    have "2 ^ 119 \<le> u128 sig'" using c(2,5) gt by auto
    moreover have "carry_loop e sig = Some (e + int (Suc c), sig')" using True c(1) unfolding t_def by (subst carry_loop.simps) simp
    moreover have "u128 sig' = jam (Suc c) (u128 sig)" unfolding c(2) u by (cases "c = 0") (simp_all add: jam_jam)
    ultimately show ?thesis using c(3,4) by (intro exI [of _ "Suc c"]) simp
  next
    case False
    then have "u128 sig < 2 ^ 120" using high_word_less [of 56 sig] by (simp add: word_le_nat_alt)
    moreover have "carry_loop e sig = Some (e + int 0, sig)" using False by (subst carry_loop.simps) simp
    ultimately show ?thesis by (intro exI [of _ 0]) simp
  qed
qed

section \<open>The increment\<close>

fun bump :: "nat \<Rightarrow> mag_round \<Rightarrow> nat \<Rightarrow> bool" where
  "bump x ToEven n \<longleftrightarrow> 2 ^ (x - 1) < n mod 2 ^ x \<or> (n mod 2 ^ x = 2 ^ (x - 1) \<and> odd (n div 2 ^ x))"
| "bump x ToAway n \<longleftrightarrow> 2 ^ (x - 1) \<le> n mod 2 ^ x"
| "bump x Trunc n \<longleftrightarrow> False"
| "bump x Up n \<longleftrightarrow> n mod 2 ^ x \<noteq> 0"

lemma rnd_bump:
  assumes "0 < x"
  shows "rnd x md n = n div 2 ^ x + of_bool (bump x md n)"
proof -
  obtain y where x: "x = Suc y" using assms by (cases x) simp_all
  show ?thesis
  proof (cases "md = ToEven \<or> md = ToAway")
    case True
    then show ?thesis
      unfolding x
    proof (cases rule: rnd_nearest_cases [of md y n])
      case (1 q)
      then have q: "n div 2 ^ Suc y = q" by (intro div_nat_eqI) (simp_all add: mult_ac)
      have "n = q * 2 ^ Suc y + n mod 2 ^ Suc y" unfolding q [symmetric] by (simp only: div_mult_mod_eq)
      then have "n mod 2 ^ Suc y < 2 ^ y" using 1 by (simp add: algebra_simps)
      then show "rnd (Suc y) md n = n div 2 ^ Suc y + of_bool (bump (Suc y) md n)" using True 1(3) q by auto
    next
      case (2 q)
      then have q: "n div 2 ^ Suc y = q" by (intro div_nat_eqI) (simp_all add: mult_ac)
      have "n = q * 2 ^ Suc y + n mod 2 ^ Suc y" unfolding q [symmetric] by (simp only: div_mult_mod_eq)
      then have "n mod 2 ^ Suc y = 2 ^ y" using 2 by (simp add: algebra_simps)
      then show "rnd (Suc y) md n = n div 2 ^ Suc y + of_bool (bump (Suc y) md n)" using True 2(2) q by auto
    next
      case (3 q)
      then have q: "n div 2 ^ Suc y = q" by (intro div_nat_eqI) (simp_all add: mult_ac)
      have "n = q * 2 ^ Suc y + n mod 2 ^ Suc y" unfolding q [symmetric] by (simp only: div_mult_mod_eq)
      then have "2 ^ y < n mod 2 ^ Suc y" using 3 by (simp add: algebra_simps)
      then show "rnd (Suc y) md n = n div 2 ^ Suc y + of_bool (bump (Suc y) md n)" using True 3(3) q by auto
    qed
  next
    case False
    then consider "md = Trunc" | "md = Up" by (cases md) simp_all
    then show ?thesis
    proof cases
      case 1
      then show ?thesis by (simp add: rnd_def)
    next
      case 2
      have "(n + (2 ^ x - 1)) div 2 ^ x = n div 2 ^ x + of_bool (n mod 2 ^ x \<noteq> 0)"
      proof (cases "n mod 2 ^ x = 0")
        case True
        then obtain q where q: "n = 2 ^ x * q" by (auto elim: dvdE simp: dvd_eq_mod_eq_0)
        have "(p * q + (p - 1)) div p = q" if "0 < p" for p :: nat
        proof (rule div_nat_eqI)
          show "p * q + (p - 1) < p * Suc q" unfolding mult_Suc_right using that by linarith
        qed simp
        then have "(2 ^ x * q + (2 ^ x - 1)) div 2 ^ x = q" by simp
        then show ?thesis using True by (simp add: q)
      next
        case False
        have "n + (p - 1) = (n div p + 1) * p + (n mod p - 1)" if "0 < p" "n mod p \<noteq> 0" for p :: nat
        proof -
          have "n = n div p * p + n mod p" by (simp only: div_mult_mod_eq)
          then show ?thesis unfolding distrib_right mult_1 using that by linarith
        qed
        from this [OF _ False] have "n + (2 ^ x - 1) = (n div 2 ^ x + 1) * 2 ^ x + (n mod 2 ^ x - 1)" by (simp only: zero_less_power zero_less_numeral)
        moreover have "n mod 2 ^ x < 2 ^ x" by simp
        then have "n mod 2 ^ x - 1 < 2 ^ x" by linarith
        moreover have "(a * p + t) div p = a" if "t < p" for a p t :: nat using that by simp
        ultimately have "(n + (2 ^ x - 1)) div 2 ^ x = n div 2 ^ x + 1" by (simp only:)
        then show ?thesis using False by simp
      qed
      then show ?thesis using 2 by (simp add: rnd_def)
    qed
  qed
qed

lemma rnd_jam:
  assumes "2 \<le> x"
  shows "rnd x md (jam c n) = rnd (x + c) md n"
proof (rule rounds_unique [OF real_strict_mono])
  have "agrees (x - 1) (real n / 2 ^ c) (jam c n)" using assms by (intro agrees_jam [OF agrees_refl [of 0]]) simp_all
  then have "rounds md real (real n / 2 ^ c / 2 ^ x) (rnd x md (jam c n))" using assms by (intro rnd_rounds) simp_all
  then show "rounds md real (real n / 2 ^ (x + c)) (rnd x md (jam c n))" by (simp add: power_add mult.commute)
  show "rounds md real (real n / 2 ^ (x + c)) (rnd (x + c) md n)" using assms by (intro rnd_rounds) simp_all
qed

section \<open>Rounding twice\<close>

text \<open>
  Packing in the reference arithmetic, on natural numbers: \<open>e\<close> is the biased exponent. The first rounding has no bound on the exponent; if the result is
  subnormal, the significand is shifted and rounded again.
\<close>

definition slow_pack :: "nat \<Rightarrow> nat \<Rightarrow> nat \<Rightarrow> mag_round \<Rightarrow> int8_t \<Rightarrow> int \<Rightarrow> nat \<Rightarrow> nat \<times> int8_t" where
  "slow_pack f x E md det e n =
     (let m = rnd x md n;
          flags = (if n mod 2 ^ x \<noteq> 0
                   then softfloat_flag_inexact OR (if det = softfloat_tininess_beforeRounding \<and> e \<le> 0 then softfloat_flag_underflow else 0)
                   else 0);
          (e1, m1) = (if m = 2 ^ Suc f then (e + 1, 2 ^ f) else (e, m))
      in if int E \<le> e1
         then (if md = Trunc then E * 2 ^ f - 1 else E * 2 ^ f, flags OR (softfloat_flag_overflow OR softfloat_flag_inexact))
         else if e1 \<le> 0
         then let n' = jam (nat (1 - e)) n
              in (rnd x md n', flags OR (if n' mod 2 ^ x \<noteq> 0 then softfloat_flag_inexact OR softfloat_flag_underflow else 0))
         else (nat (e1 - 1) * 2 ^ f + m1, flags))"

lemma carry_bump:
  assumes "0 < x" and "n < 2 ^ (f + x + 1)" and "rnd x md n = 2 ^ Suc f"
  shows "bump x md n" and "n div 2 ^ x = 2 ^ Suc f - 1" and "n mod 2 ^ x \<noteq> 0" and "md \<noteq> Trunc"
proof -
  have p: "(2::nat) ^ (f + x + 1) = 2 ^ Suc f * 2 ^ x" by (simp add: power_add)
  have "n div 2 ^ x < 2 ^ Suc f" using assms(2) unfolding p by (simp only: div_less_iff_less_mult zero_less_power zero_less_numeral)
  moreover have "n div 2 ^ x + of_bool (bump x md n) = 2 ^ Suc f" using assms(3) unfolding rnd_bump [OF assms(1)] .
  moreover have "q < N \<Longrightarrow> q + of_bool P = N \<Longrightarrow> P \<and> q = N - 1" for q N :: nat and P by (cases P) simp_all
  ultimately have "bump x md n \<and> n div 2 ^ x = 2 ^ Suc f - 1" by blast
  then show b: "bump x md n" "n div 2 ^ x = 2 ^ Suc f - 1" by blast+
  show "md \<noteq> Trunc" using b(1) by auto
  show "n mod 2 ^ x \<noteq> 0"
  proof
    assume "n mod 2 ^ x = 0"
    then have "\<not> bump x md n" by (cases md) simp_all
    then show False using b(1) by contradiction
  qed
qed

lemma rnd_carry_half:
  assumes x: "2 \<le> x" and n: "n < 2 ^ (f + x + 1)" "rnd x md n = 2 ^ Suc f"
  shows "rnd x md (jam 1 n) = 2 ^ f"
proof -
  have x0: "0 < x" using x by simp
  note c = carry_bump [OF x0 n]
  define r where "r = n mod 2 ^ x"
  have nr: "n = (2 ^ Suc f - 1) * 2 ^ x + r" using div_mult_mod_eq [of n "2 ^ x"] unfolding c(2) r_def by simp
  have r: "r < 2 ^ x" "r \<noteq> 0" using c(3) by (simp_all add: r_def)
  have s: "rnd x md (jam 1 n) = rnd (Suc x) md n" using rnd_jam [OF x, of md 1 n] by simp
  have "(2 * a - 1) * p + r = (a - 1) * (2 * p) + (p + r)" if "0 < a" for a p :: nat
    using that by (cases a) (simp_all add: algebra_simps)
  then have "n = (2 ^ f - 1) * 2 ^ Suc x + (2 ^ x + r)" unfolding nr power_Suc by simp
  moreover have "2 ^ x + r < 2 ^ Suc x" using r by simp
  ultimately have d: "n div 2 ^ Suc x = 2 ^ f - 1" "n mod 2 ^ Suc x = 2 ^ x + r" by simp_all
  have "bump (Suc x) md n" using c(4) r d by (cases md) simp_all
  then show ?thesis unfolding s rnd_bump [OF zero_less_Suc] d by simp
qed

lemma slow_pack_eq:
  assumes f: "0 < f" and x: "2 \<le> x" and E: "2 \<le> E" and lo: "2 ^ (f + x) \<le> n" and hi: "n < 2 ^ (f + x + 1)"
  shows "slow_pack f x E md det e n = gen_round_pack f x E md det (e - 1) n"
proof -
  have x0: "0 < x" using x by simp
  have le: "rnd x md n \<le> 2 ^ Suc f"
  proof (rule rounds_le_real [OF rnd_rounds [OF x0 agrees_refl]])
    have "real n \<le> real (2 ^ Suc f * 2 ^ x)" using hi by (simp only: of_nat_le_iff) (simp add: power_add)
    then show "real n / 2 ^ x \<le> real (2 ^ Suc f)" by (simp add: pos_divide_le_eq)
  qed
  have top: "2 ^ (f + x + 1) \<le> n + rinc x md \<longleftrightarrow> rnd x md n = 2 ^ Suc f" using rnd_top_iff [OF x0 hi, of md] le by auto
  have keep: "n mod 2 ^ x \<noteq> 0 \<Longrightarrow> jam c n mod 2 ^ x \<noteq> 0" for c
    using jam_dvd_iff [OF x0, of c n] by (auto simp: dvd_eq_mod_eq_0 [symmetric] power_add elim!: dvdE)
  have fl: "a OR (a OR b) = a OR b" "(a OR b) OR a = a OR b" "(a OR b) OR (a OR b) = a OR b" for a b :: int8_t
    by (simp_all add: or.assoc or.left_commute or.commute)
  show ?thesis
  proof (cases "rnd x md n = 2 ^ Suc f")
    case True
    note c = carry_bump [OF x0 hi True]
    have half: "rnd x md (jam 1 n) = 2 ^ f" by (rule rnd_carry_half [OF x hi True])
    consider "int E \<le> e + 1" | "e < 0" | "e = 0" | "0 < e" "e + 1 < int E" using E by linarith
    then show ?thesis
    proof cases
      case 1
      then show ?thesis using True top c E by (auto simp: slow_pack_def gen_round_pack_def Let_def rinc_0_iff [OF x0] or.assoc or.commute or.left_commute)
    next
      case 2
      then show ?thesis using True top keep [OF c(3), of "nat (1 - e)"] c(3) E by (simp add: slow_pack_def gen_round_pack_def Let_def or.commute)
    next
      case 3
      then show ?thesis using True top half keep [OF c(3), of 1] c(3) E by (simp add: slow_pack_def gen_round_pack_def Let_def or.commute)
    next
      case 4
      have "nat (e - 1) * 2 ^ f + 2 ^ Suc f = nat e * 2 ^ f + 2 ^ f" using 4 by (simp add: nat_diff_distrib algebra_simps)
      then show ?thesis using True 4 c(3) by (simp add: slow_pack_def gen_round_pack_def Let_def)
    qed
  next
    case False
    then have nt: "n + rinc x md < 2 ^ (f + x + 1)" using top by simp
    consider "int E \<le> e" | "e \<le> 0" | "0 < e" "e < int E" by linarith
    then show ?thesis
    proof cases
      case 1
      then show ?thesis using False E by (auto simp: slow_pack_def gen_round_pack_def Let_def rinc_0_iff [OF x0] or.assoc or.commute or.left_commute)
    next
      case 2
      then show ?thesis using False E nt keep [of "nat (1 - e)"] by (auto simp: slow_pack_def gen_round_pack_def Let_def or.commute)
    next
      case 3
      then show ?thesis using False nt by (auto simp: slow_pack_def gen_round_pack_def Let_def)
    qed
  qed
qed

section \<open>Rounding a significand\<close>

text \<open>The switch on the rounding mode decides on the increment, where there is anything to round.\<close>

lemma mode_cases:
  assumes "valid_mode mode"
  obtains "mode = 0" | "mode = 1" | "mode = 2" | "mode = 3" | "mode = (4 :: int8_t)"
proof -
  have "unat mode \<le> 4" using assms by (simp add: valid_mode_def word_le_nat_alt)
  then have "unat mode = 0 \<or> unat mode = 1 \<or> unat mode = 2 \<or> unat mode = 3 \<or> unat mode = 4" by arith
  then show thesis using that by (auto dest!: word_eq_of_nat)
qed

lemma switch_bump:
  assumes v: "valid_mode mode" and nz: "n mod 2 ^ x \<noteq> 0"
    and lt: "lt \<longleftrightarrow> n mod 2 ^ x < 2 ^ (x - 1)" and eq: "eq \<longleftrightarrow> n mod 2 ^ x = 2 ^ (x - 1)" and ev: "ev \<longleftrightarrow> even (n div 2 ^ x)"
  shows "(if mode = softfloat_round_nearest_even then \<not> lt \<and> \<not> (eq \<and> ev)
      else if mode = softfloat_round_minMag then False
      else if mode = softfloat_round_min then sign
      else if mode = softfloat_round_max then \<not> sign
      else if mode = softfloat_round_nearest_maxMag then \<not> lt
      else True) = bump x (mag_mode mode sign) n"
  using v by (cases rule: mode_cases) (use nz in \<open>auto simp: mag_mode_def lt eq ev\<close>)

lemma unat_and_mask: "unat (w AND (2 ^ k - 1)) = unat w mod 2 ^ k" for w :: "'a::len word"
  by (simp only: and_mask_take_bit unat_take_bit_mod)

lemma unat_clear_low:
  fixes r w :: "'a::len word"
  assumes "unat r = unat w mod 2 ^ k"
  shows "unat (w - r) = unat w div 2 ^ k * 2 ^ k"
proof -
  have "r \<le> w" using assms by (simp add: word_le_nat_alt)
  then have "unat (w - r) = unat w - unat w mod 2 ^ k" using assms by (simp add: unat_sub_le)
  then show ?thesis by (simp add: minus_mod_eq_div_mult)
qed

lemma bit_clear_iff:
  fixes v :: "'a::len word"
  assumes "unat v = q * 2 ^ k" and "k < LENGTH('a)"
  shows "v AND 2 ^ k = 0 \<longleftrightarrow> even q"
proof -
  have "v AND 2 ^ k \<noteq> 0 \<longleftrightarrow> odd (drop_bit k v)" unfolding and_exp_eq_0_iff_not_bit bit_iff_odd_drop_bit by simp
  also have "\<dots> \<longleftrightarrow> odd q" using assms by (simp flip: even_unat_iff add: unat_drop_bit_div)
  finally show ?thesis by blast
qed

text \<open>The flags a rounding raises.\<close>

definition round_flags :: "bool \<Rightarrow> bool \<Rightarrow> bool \<Rightarrow> int8_t" where
  "round_flags inexact exact isTiny =
     (if inexact then (if exact then softfloat_flag_inexact else 0) OR (if isTiny then softfloat_flag_underflow else 0) else 0)"

text \<open>A significand \<open>m * 2 ^ k\<close> in the upper word, with the carry out of 56 bits normalised.\<close>

definition with_sig :: "floatX \<Rightarrow> nat \<Rightarrow> nat \<Rightarrow> floatX" where
  "with_sig xZ k m =
     (if m * 2 ^ k = 2 ^ 56 then xZ\<lparr>fx_exp := fx_exp xZ + 1, fx_sig := bits 0x0080000000000000 0\<rparr>
      else xZ\<lparr>fx_sig := bits (of_nat (m * 2 ^ k)) 0\<rparr>)"

text \<open>What the routines for 24 and 53 bits share: \<open>r\<close> are the rounding bits of the upper word \<open>w\<close>, compared with one half by \<open>lt\<close> and \<open>eq\<close>.\<close>

definition round_upper ::
  "nat \<Rightarrow> uint64_t \<Rightarrow> uint64_t \<Rightarrow> bool \<Rightarrow> bool \<Rightarrow> bool \<Rightarrow> floatX \<Rightarrow> int8_t \<Rightarrow> bool \<Rightarrow> slow_state \<Rightarrow> floatX \<times> slow_state" where
  "round_upper k w r lt eq isTiny xZ mode exact s =
     (if r \<noteq> 0
      then
        let s = (if exact then orFlags softfloat_flag_inexact s else s);
            s = (if isTiny then orFlags softfloat_flag_underflow s else s);
            increment =
              (if mode = softfloat_round_nearest_even then \<not> lt \<and> \<not> (eq \<and> (w - r) AND 2 ^ k = 0)
               else if mode = softfloat_round_minMag then False
               else if mode = softfloat_round_min then fx_sign xZ
               else if mode = softfloat_round_max then \<not> fx_sign xZ
               else if mode = softfloat_round_nearest_maxMag then \<not> lt
               else True)
        in if increment
           then (if w - r + 2 ^ k = 0x0100000000000000
                 then xZ\<lparr>fx_exp := fx_exp xZ + 1, fx_sig := bits 0x0080000000000000 0\<rparr>
                 else xZ\<lparr>fx_sig := bits (w - r + 2 ^ k) 0\<rparr>, s)
           else (xZ\<lparr>fx_sig := bits (w - r) 0\<rparr>, s)
      else (xZ\<lparr>fx_sig := bits (w - r) 0\<rparr>, s))"

lemma round_upper_value:
  fixes xZ :: floatX
  defines "N \<equiv> u128 (fx_sig xZ)"
  assumes v: "valid_mode mode" and n: "N < 2 ^ 120" and k: "2 \<le> k" "k \<le> 32" and w: "unat w = jam 64 N"
    and r: "unat r = unat w mod 2 ^ k" and lt: "lt \<longleftrightarrow> unat r < 2 ^ (k - 1)" and eq: "eq \<longleftrightarrow> unat r = 2 ^ (k - 1)"
  shows "round_upper k w r lt eq isTiny xZ mode exact s =
    (with_sig xZ k (rnd (k + 64) (mag_mode mode (fx_sign xZ)) N), softfloat_raiseFlags (round_flags (N mod 2 ^ (k + 64) \<noteq> 0) exact isTiny) s)"
proof -
  define md where "md = mag_mode mode (fx_sign xZ)"
  define q where "q = unat w div 2 ^ k"
  have uv: "unat (w - r) = q * 2 ^ k" unfolding q_def using r by (rule unat_clear_low)
  have "N < 2 ^ 56 * 2 ^ 64" using n by simp
  then have "unat w < 2 ^ 56" unfolding w by (subst jam_less_even) simp_all
  moreover have p56: "(2::nat) ^ 56 = 2 ^ (56 - k) * 2 ^ k" using k by (simp flip: power_add)
  ultimately have q56: "q < 2 ^ (56 - k)" unfolding q_def by (simp only: div_less_iff_less_mult zero_less_power zero_less_numeral)
  have m: "rnd (k + 64) md N = q + of_bool (bump k md (unat w))"
    using rnd_jam [OF k(1), of md 64 N] rnd_bump [of k md "unat w"] k(1) unfolding w q_def by simp
  have ix: "N mod 2 ^ (k + 64) \<noteq> 0 \<longleftrightarrow> r \<noteq> 0"
    using jam_dvd_iff [of k 64 N] unat_eq_zero [of r] k(1) unfolding r w by (simp add: dvd_eq_mod_eq_0)
  have small: "q * 2 ^ k \<noteq> 2 ^ 56" using q56 unfolding p56 by simp
  show ?thesis
  proof (cases "r = 0")
    case True
    then have "unat w mod 2 ^ k = 0" using r by simp
    then have "\<not> bump k md (unat w)" by (cases md) simp_all
    then have "rnd (k + 64) md N = q" using m by simp
    moreover have "w - r = of_nat (q * 2 ^ k)" using uv by (rule word_eq_of_nat)
    ultimately show ?thesis using True ix small unfolding md_def [symmetric] by (simp add: round_upper_def with_sig_def round_flags_def)
  next
    case False
    have nz: "unat w mod 2 ^ k \<noteq> 0" using False r unat_eq_zero [of r] by metis
    have inc: "(if mode = softfloat_round_nearest_even then \<not> lt \<and> \<not> (eq \<and> (w - r) AND 2 ^ k = 0)
      else if mode = softfloat_round_minMag then False
      else if mode = softfloat_round_min then fx_sign xZ
      else if mode = softfloat_round_max then \<not> fx_sign xZ
      else if mode = softfloat_round_nearest_maxMag then \<not> lt
      else True) = bump k md (unat w)"
      unfolding md_def
    proof (rule switch_bump [OF v nz])
      show "(w - r) AND 2 ^ k = 0 \<longleftrightarrow> even (unat w div 2 ^ k)" using bit_clear_iff [OF uv] k(2) unfolding q_def by simp
    qed (use lt eq r in simp_all)
    have pk: "unat (2 ^ k :: uint64_t) = 2 ^ k" using k(2) by (intro unat_pow2_word) simp
    have "(q + 1) * 2 ^ k \<le> 2 ^ (56 - k) * 2 ^ k" using q56 by (intro mult_le_mono1) simp
    then have "(q + 1) * 2 ^ k \<le> 2 ^ 56" unfolding p56 .
    then have b: "unat (w - r + 2 ^ k) = (q + 1) * 2 ^ k" by (subst unat_add_small) (simp_all add: uv pk)
    have e: "w - r + 2 ^ k = 0x0100000000000000 \<longleftrightarrow> (q + 1) * 2 ^ k = 2 ^ 56" unfolding word_unat_eq_iff b by simp
    have fl: "(if isTiny then orFlags softfloat_flag_underflow (if exact then orFlags softfloat_flag_inexact s else s)
        else if exact then orFlags softfloat_flag_inexact s else s) = softfloat_raiseFlags (round_flags True exact isTiny) s"
      by (simp add: round_flags_def)
    show ?thesis
    proof (cases "bump k md (unat w)")
      case True
      then show ?thesis using False ix m e word_eq_of_nat [OF b]
        unfolding round_upper_def Let_def inc md_def [symmetric] fl by (simp add: with_sig_def add.commute)
    next
      case nb: False
      then show ?thesis using False ix m small word_eq_of_nat [OF uv]
        unfolding round_upper_def Let_def inc md_def [symmetric] fl by (simp add: with_sig_def)
    qed
  qed
qed

lemma roundFloatXTo24_value:
  assumes "valid_mode mode" and "u128 (fx_sig xZ) < 2 ^ 120"
  shows "roundFloatXTo24 isTiny xZ mode exact s =
    (with_sig xZ 32 (rnd 96 (mag_mode mode (fx_sign xZ)) (u128 (fx_sig xZ))),
     softfloat_raiseFlags (round_flags (u128 (fx_sig xZ) mod 2 ^ 96 \<noteq> 0) exact isTiny) s)"
proof -
  define w where "w = u128_v64 (fx_sig xZ) OR of_bool (u128_v0 (fx_sig xZ) \<noteq> 0)"
  define r where "r = (ucast w :: uint32_t)"
  have u: "unat (ucast r :: uint64_t) = unat r" by (simp add: unat_ucast_up)
  have z: "(ucast r :: uint64_t) = 0 \<longleftrightarrow> r = 0" using u by (metis unat_eq_zero)
  have "roundFloatXTo24 isTiny xZ mode exact s = round_upper 32 w (ucast r) (r < 0x80000000) (r = 0x80000000) isTiny xZ mode exact s"
    unfolding roundFloatXTo24_def round_upper_def Let_def w_def [symmetric] r_def [symmetric] z by simp
  also have "\<dots> = (with_sig xZ 32 (rnd (32 + 64) (mag_mode mode (fx_sign xZ)) (u128 (fx_sig xZ))),
      softfloat_raiseFlags (round_flags (u128 (fx_sig xZ) mod 2 ^ (32 + 64) \<noteq> 0) exact isTiny) s)"
  proof (rule round_upper_value [OF assms])
    show "unat w = jam 64 (u128 (fx_sig xZ))" by (simp only: w_def high_word_sticky)
    show "unat (ucast r :: uint64_t) = unat w mod 2 ^ 32" unfolding u r_def unat_ucast_mod by simp
    show "r < 0x80000000 \<longleftrightarrow> unat (ucast r :: uint64_t) < 2 ^ (32 - 1)" unfolding u by (simp add: word_less_nat_alt)
    show "r = 0x80000000 \<longleftrightarrow> unat (ucast r :: uint64_t) = 2 ^ (32 - 1)" unfolding u by (simp add: word_unat_eq_iff)
  qed simp_all
  finally show ?thesis by simp
qed

lemma roundFloatXTo53_value:
  assumes "valid_mode mode" and "u128 (fx_sig xZ) < 2 ^ 120"
  shows "roundFloatXTo53 isTiny xZ mode exact s =
    (with_sig xZ 3 (rnd 67 (mag_mode mode (fx_sign xZ)) (u128 (fx_sig xZ))),
     softfloat_raiseFlags (round_flags (u128 (fx_sig xZ) mod 2 ^ 67 \<noteq> 0) exact isTiny) s)"
proof -
  define w where "w = u128_v64 (fx_sig xZ) OR of_bool (u128_v0 (fx_sig xZ) \<noteq> 0)"
  have "roundFloatXTo53 isTiny xZ mode exact s = round_upper 3 w (w AND 7) (w AND 7 < 4) (w AND 7 = 4) isTiny xZ mode exact s"
    unfolding roundFloatXTo53_def round_upper_def Let_def w_def [symmetric] by simp
  also have "\<dots> = (with_sig xZ 3 (rnd (3 + 64) (mag_mode mode (fx_sign xZ)) (u128 (fx_sig xZ))),
      softfloat_raiseFlags (round_flags (u128 (fx_sig xZ) mod 2 ^ (3 + 64) \<noteq> 0) exact isTiny) s)"
  proof (rule round_upper_value [OF assms])
    show "unat w = jam 64 (u128 (fx_sig xZ))" by (simp only: w_def high_word_sticky)
    show "unat (w AND 7) = unat w mod 2 ^ 3" using unat_and_mask [of w 3] by simp
    show "w AND 7 < 4 \<longleftrightarrow> unat (w AND 7) < 2 ^ (3 - 1)" by (simp add: word_less_nat_alt)
    show "w AND 7 = 4 \<longleftrightarrow> unat (w AND 7) = 2 ^ (3 - 1)" by (simp add: word_unat_eq_iff)
  qed simp_all
  finally show ?thesis by simp
qed

end
