(* ===== verification/Slow_Pack.thy ===== *)
theory Slow_Pack
  imports Slow_Round
begin

text \<open>
  \<^const>\<open>floatXToF32\<close> and \<^const>\<open>floatXToF64\<close> round a \<^verbatim>\<open>struct floatX\<close> correctly. What both do after normalisation is the interface \<open>slow_format\<close>, interpreted
  on the routines of the two formats.
\<close>

section \<open>After normalisation\<close>

text \<open>
  A \<^verbatim>\<open>struct floatX\<close> represents a real number exactly, or its significand has a sticky last bit and enough leading bits.
\<close>

definition represents :: "floatX \<Rightarrow> real \<Rightarrow> bool" where
  "represents x R \<longleftrightarrow> \<not> isNaN x \<and> \<not> isInf x \<and>
     (if isZero x then R = 0
      else R \<noteq> 0 \<and> fx_sign x = (R < 0) \<and> 0 < u128 (fx_sig x) \<and> u128 (fx_sig x) < 2 ^ 127 \<and>
        (\<exists>X. \<bar>R\<bar> = X * 2 powi (fx_exp x - 119) \<and>
          (X = real (u128 (fx_sig x)) \<or> agrees 1 X (u128 (fx_sig x)) \<and> 2 ^ 100 \<le> u128 (fx_sig x))))"

lemma normalise:
  assumes N: "0 < u128 sig" "u128 sig < 2 ^ 127" and X: "X = real (u128 sig) \<or> agrees 1 X (u128 sig) \<and> 2 ^ 100 \<le> u128 sig"
  obtains e1 sig1 e2 sig2 X2 where "carry_loop e sig = Some (e1, sig1)" "norm128_loop e1 sig1 = Some (e2, sig2)"
    "2 ^ 119 \<le> u128 sig2" "u128 sig2 < 2 ^ 120" "agrees 20 X2 (u128 sig2)" "X * 2 powi (e - 119) = X2 * 2 powi (e2 - 119)"
proof -
  define n where "n = u128 sig"
  have "u128 sig < 2 ^ (120 + 7)" using N(2) by simp
  from carry_loop_value [OF this, of e] obtain c sig1 where c: "carry_loop e sig = Some (e + int c, sig1)" "u128 sig1 = jam c n"
    "u128 sig1 < 2 ^ 120" "c = 0 \<or> 2 ^ 119 \<le> u128 sig1" unfolding n_def by blast
  have pos: "0 < u128 sig1" using N(1) jam_eq_0_iff [of c n] unfolding c(2) n_def by simp
  have "1 * (2::nat) ^ 119 \<le> u128 sig1 * 2 ^ 119" using pos by (intro mult_le_mono1) simp
  then have "2 ^ 119 \<le> u128 sig1 * 2 ^ 119" by simp
  from norm128_loop_value [OF c(3) this, of "e + int c"] obtain d sig2 where d: "norm128_loop (e + int c) sig1 = Some (e + int c - int d, sig2)"
    "u128 sig2 = u128 sig1 * 2 ^ d" "2 ^ 119 \<le> u128 sig2" "u128 sig2 < 2 ^ 120" by blast
  define X2 where "X2 = X / 2 ^ c * 2 ^ d"
  have dsmall: "d < 120 - l" if "2 ^ l \<le> u128 sig1" "l \<le> 120" for l
  proof -
    have "2 ^ l * 2 ^ d \<le> u128 sig1 * 2 ^ d" using that(1) by (rule mult_le_mono1)
    then have "(2::nat) ^ (l + d) < 2 ^ 120" using d(2,4) unfolding power_add by linarith
    then have "l + d < 120" by (rule power_less_imp_less_exp [rotated]) simp
    then show ?thesis by simp
  qed
  have "agrees 20 X2 (u128 sig2)"
  proof (cases "X = real n \<and> c = 0")
    case True
    then have "X2 = real (u128 sig2)" unfolding X2_def d(2) c(2) by simp
    then show ?thesis by (simp only: agrees_refl)
  next
    case False
    have "agrees 1 X n" using X unfolding n_def by auto
    then have "agrees 1 (X / 2 ^ c) (u128 sig1)" unfolding c(2) by (rule agrees_jam) simp_all
    then have "agrees (1 + d) X2 (u128 sig2)" unfolding X2_def d(2) by (rule agrees_scale)
    moreover have "d \<le> 19"
    proof (cases "c = 0")
      case True
      then have "2 ^ 100 \<le> u128 sig1" using False X c(2) unfolding n_def by auto
      then show ?thesis using dsmall [of 100] by simp
    next
      case nz: False
      then show ?thesis using c(4) dsmall [of 119] by simp
    qed
    ultimately show ?thesis by (elim agrees_mono) simp
  qed
  moreover have "X * 2 powi (e - 119) = X2 * 2 powi (e + int c - int d - 119)"
  proof -
    have "X2 * 2 powi (e + int c - int d - 119) = X * (2 powi int d / 2 ^ c * 2 powi (e + int c - int d - 119))" by (simp add: X2_def)
    also have "\<dots> = X * 2 powi (e - 119)" unfolding powi_div powi_mult by (simp add: algebra_simps)
    finally show ?thesis ..
  qed
  ultimately show thesis using that [OF c(1) d(1,3,4)] by blast
qed

locale slow_format =
  fixes f k E :: nat
    and bias low :: int
    and round_sig :: "bool \<Rightarrow> floatX \<Rightarrow> int8_t \<Rightarrow> bool \<Rightarrow> slow_state \<Rightarrow> floatX \<times> slow_state"
    and infw maxw :: "bool \<Rightarrow> 'a::len word"
    and packw :: "int \<Rightarrow> bool \<Rightarrow> uint64_t \<Rightarrow> 'a word"
  assumes fk: "f + k = 55" and k2: "2 \<le> k" and f2: "2 \<le> f" and E2: "2 \<le> E" and wide: "Suc E * 2 ^ f = 2 ^ (LENGTH('a) - 1)"
    and low: "int f \<le> low"
    and round_law: "valid_mode mode \<Longrightarrow> u128 (fx_sig xZ) < 2 ^ 120 \<Longrightarrow>
      round_sig isTiny xZ mode exact s =
        (with_sig xZ k (rnd (k + 64) (mag_mode mode (fx_sign xZ)) (u128 (fx_sig xZ))),
         softfloat_raiseFlags (round_flags (u128 (fx_sig xZ) mod 2 ^ (k + 64) \<noteq> 0) exact isTiny) s)"
    and inf_law: "infw sign = fl_pack sign (E * 2 ^ f)" and max_law: "maxw sign = fl_pack sign (E * 2 ^ f - 1)"
    and pack_law: "0 \<le> e \<Longrightarrow> e < int E \<Longrightarrow> unat v = m * 2 ^ k \<Longrightarrow> m < 2 ^ Suc f \<Longrightarrow>
      packw e sign v = fl_pack sign (nat e * 2 ^ f + m mod 2 ^ f)"
begin

definition pack_result :: "floatX \<Rightarrow> slow_state \<Rightarrow> ('a word \<times> slow_state) option" where
  "pack_result xZ s =
     (let savedZ = xZ;
          isTiny = (softfloat_detectTininess s = softfloat_tininess_beforeRounding \<and> fx_exp xZ + bias \<le> 0);
          (xZ, s) = round_sig isTiny xZ (softfloat_roundingMode s) True s;
          e = fx_exp xZ + bias
      in if int E \<le> e
         then
           let s = orFlags (softfloat_flag_overflow OR softfloat_flag_inexact) s;
               mode = softfloat_roundingMode s
           in if fx_sign xZ
              then if mode = softfloat_round_nearest_even \<or> mode = softfloat_round_min \<or> mode = softfloat_round_nearest_maxMag
                   then Some (infw True, s)
                   else if mode = softfloat_round_minMag \<or> mode = softfloat_round_max then Some (maxw True, s)
                   else None
              else if mode = softfloat_round_nearest_even \<or> mode = softfloat_round_max \<or> mode = softfloat_round_nearest_maxMag
                   then Some (infw False, s)
                   else if mode = softfloat_round_minMag \<or> mode = softfloat_round_min then Some (maxw False, s)
                   else None
         else
           let (e, xZ, s) =
                 (if e \<le> 0
                  then
                    let xZ = savedZ;
                        e = fx_exp xZ + bias;
                        sig = fx_sig xZ;
                        sig = (if e < - low then bits 0 (of_bool (u128_v64 sig \<noteq> 0 \<or> u128_v0 sig \<noteq> 0))
                               else snd (shift_loop (1 - e) sig));
                        (xZ, s) = round_sig True (xZ\<lparr>fx_sig := sig\<rparr>) (softfloat_roundingMode s) True s
                    in (if 0x0080000000000000 \<le> u128_v64 (fx_sig xZ) then 1 else 0, xZ, s)
                  else (e, xZ, s))
           in Some (packw e (fx_sign xZ) (u128_v64 (fx_sig xZ)), s))"

lemma overflow_value:
  assumes "valid_mode mode"
  shows "(if sign
      then if mode = softfloat_round_nearest_even \<or> mode = softfloat_round_min \<or> mode = softfloat_round_nearest_maxMag then Some (infw True, t)
           else if mode = softfloat_round_minMag \<or> mode = softfloat_round_max then Some (maxw True, t) else None
      else if mode = softfloat_round_nearest_even \<or> mode = softfloat_round_max \<or> mode = softfloat_round_nearest_maxMag then Some (infw False, t)
           else if mode = softfloat_round_minMag \<or> mode = softfloat_round_min then Some (maxw False, t) else None) =
    Some (fl_pack sign (if mag_mode mode sign = Trunc then E * 2 ^ f - 1 else E * 2 ^ f), t)"
  using assms by (cases rule: mode_cases) (cases sign; simp add: mag_mode_def inf_law max_law)+

text \<open>Far below the least number, a single sticky bit rounds like the shifted significand.\<close>

lemma rnd_small:
  assumes "0 < n" and "n < 2 ^ (x - 1)" and "0 < x"
  shows "rnd x md n = of_bool (md = Up)" and "n mod 2 ^ x \<noteq> 0"
proof -
  have "(2::nat) ^ (x - 1) < 2 ^ x" using assms(3) by (intro power_strict_increasing) simp_all
  then have "n < 2 ^ x" using assms(2) by linarith
  then have d: "n div 2 ^ x = 0" "n mod 2 ^ x = n" by simp_all
  show "n mod 2 ^ x \<noteq> 0" using d assms(1) by simp
  show "rnd x md n = of_bool (md = Up)" unfolding rnd_bump [OF assms(3)] using d assms(1,2) by (cases md) simp_all
qed

lemma shifted_value:
  assumes N: "u128 sig = N" "2 ^ 119 \<le> N" "N < 2 ^ 120" and e: "e \<le> 0"
    and t: "t = (if e < - low then bits 0 (of_bool (u128_v64 sig \<noteq> 0 \<or> u128_v0 sig \<noteq> 0)) else snd (shift_loop (1 - e) sig))"
  shows "rnd (k + 64) md (u128 t) = rnd (k + 64) md (jam (nat (1 - e)) N)"
    and "u128 t mod 2 ^ (k + 64) \<noteq> 0 \<longleftrightarrow> jam (nat (1 - e)) N mod 2 ^ (k + 64) \<noteq> 0" and "u128 t < 2 ^ 120"
proof -
  have "rnd (k + 64) md (u128 t) = rnd (k + 64) md (jam (nat (1 - e)) N) \<and>
    (u128 t mod 2 ^ (k + 64) \<noteq> 0 \<longleftrightarrow> jam (nat (1 - e)) N mod 2 ^ (k + 64) \<noteq> 0) \<and> u128 t < 2 ^ 120"
  proof (cases "e < - low")
    case True
    have "u128 sig \<noteq> 0" using N(1,2) by simp
    then have t1: "u128 t = 1" using True t by (simp add: u128_zero_iff)
    define c where "c = nat (1 - e)"
    have "f + 2 \<le> c" using True low by (simp add: c_def)
    then have "120 \<le> k + 64 - 1 + c" using fk by simp
    then have "(2::nat) ^ 120 \<le> 2 ^ (k + 64 - 1 + c)" by (intro power_increasing) simp_all
    then have "N < 2 ^ (k + 64 - 1) * 2 ^ c" using N(3) unfolding power_add by linarith
    then have "jam c N < 2 ^ (k + 64 - 1)" by (subst jam_less_even) simp_all
    moreover have "0 < jam c N" using N(2) jam_eq_0_iff [of c N] by simp
    moreover have "(1::nat) < 2 ^ (k + 64 - 1)" using k2 by (intro one_less_power) simp_all
    ultimately show ?thesis
      using rnd_small(1) [of "jam c N" "k + 64" md] rnd_small(1) [of 1 "k + 64" md] rnd_small(2) [of "jam c N" "k + 64"]
        rnd_small(2) [of 1 "k + 64"] t1 unfolding c_def [symmetric] by simp
  next
    case False
    have i: "1 - e = int (nat (1 - e))" using e by simp
    have "u128 t = jam (nat (1 - e)) N" using False t shift_loop_value [of "nat (1 - e)" sig] unfolding i [symmetric] N(1) by simp
    moreover have "jam (0 + nat (1 - e)) N < 2 ^ 120"
    proof -
      have "N < 2 ^ 120 * 1" using N(3) by simp
      also have "\<dots> \<le> 2 ^ 120 * 2 ^ nat (1 - e)" by (intro mult_le_mono2) simp
      finally show ?thesis by (simp only: add_0) (simp add: jam_less_even)
    qed
    ultimately show ?thesis by simp
  qed
  then show "rnd (k + 64) md (u128 t) = rnd (k + 64) md (jam (nat (1 - e)) N)"
    "u128 t mod 2 ^ (k + 64) \<noteq> 0 \<longleftrightarrow> jam (nat (1 - e)) N mod 2 ^ (k + 64) \<noteq> 0" "u128 t < 2 ^ 120" by blast+
qed

lemma with_sig_fields [simp]: "fx_sign (with_sig xZ k m) = fx_sign xZ"
  by (simp add: with_sig_def)

lemma with_sig_value:
  assumes "m \<le> 2 ^ Suc f"
  shows "fx_exp (with_sig xZ k m) = (if m = 2 ^ Suc f then fx_exp xZ + 1 else fx_exp xZ)"
    and "unat (u128_v64 (fx_sig (with_sig xZ k m))) = (if m = 2 ^ Suc f then 2 ^ f else m) * 2 ^ k"
proof -
  have p: "(2::nat) ^ 56 = 2 ^ Suc f * 2 ^ k" "(2::nat) ^ 55 = 2 ^ f * 2 ^ k" using fk by (simp_all flip: power_add power_Suc)
  have c: "m * 2 ^ k = 2 ^ 56 \<longleftrightarrow> m = 2 ^ Suc f" unfolding p(1) mult_cancel2 by simp
  have "m * 2 ^ k \<le> 2 ^ 56" unfolding p using assms by (rule mult_le_mono1)
  then have u: "unat (of_nat (m * 2 ^ k) :: uint64_t) = m * 2 ^ k" by (simp add: unat_of_nat del: of_nat_mult of_nat_power)
  show "fx_exp (with_sig xZ k m) = (if m = 2 ^ Suc f then fx_exp xZ + 1 else fx_exp xZ)" by (simp only: with_sig_def c) simp
  show "unat (u128_v64 (fx_sig (with_sig xZ k m))) = (if m = 2 ^ Suc f then 2 ^ f else m) * 2 ^ k"
  proof (cases "m = 2 ^ Suc f")
    case True
    have "u128_v64 (fx_sig (with_sig xZ k m)) = 0x0080000000000000" unfolding with_sig_def c if_P [OF True] by simp
    then show ?thesis using True p(2) by simp
  next
    case False
    have "u128_v64 (fx_sig (with_sig xZ k m)) = of_nat (m * 2 ^ k)" unfolding with_sig_def c if_not_P [OF False] by simp
    then show ?thesis using False u by simp
  qed
qed

lemma rnd_bounds:
  assumes "n < 2 ^ 120"
  shows "rnd (k + 64) md n \<le> 2 ^ Suc f" and "n < 2 ^ 119 \<Longrightarrow> rnd (k + 64) md n \<le> 2 ^ f"
    and "2 ^ 119 \<le> n \<Longrightarrow> 2 ^ f \<le> rnd (k + 64) md n"
proof -
  have "Suc f + (k + 64) = 120" "f + (k + 64) = 119" using fk by simp_all
  then have p: "(2::nat) ^ 120 = 2 ^ Suc f * 2 ^ (k + 64)" "(2::nat) ^ 119 = 2 ^ f * 2 ^ (k + 64)" by (simp_all only: power_add [symmetric])
  have r: "rounds md real (real n / 2 ^ (k + 64)) (rnd (k + 64) md n)" by (rule rnd_rounds) simp_all
  have le: "real n / 2 ^ (k + 64) \<le> real b" if "n \<le> b * 2 ^ (k + 64)" for b :: nat
  proof -
    have "real n \<le> real (b * 2 ^ (k + 64))" using that by (simp only: of_nat_le_iff)
    then show ?thesis by (simp add: pos_divide_le_eq)
  qed
  have ge: "real b \<le> real n / 2 ^ (k + 64)" if "b * 2 ^ (k + 64) \<le> n" for b :: nat
  proof -
    have "real (b * 2 ^ (k + 64)) \<le> real n" using that by (simp only: of_nat_le_iff)
    then show ?thesis by (simp add: pos_le_divide_eq)
  qed
  show "rnd (k + 64) md n \<le> 2 ^ Suc f" using assms unfolding p by (intro rounds_le_real [OF r] le) simp
  show "n < 2 ^ 119 \<Longrightarrow> rnd (k + 64) md n \<le> 2 ^ f" unfolding p by (intro rounds_le_real [OF r] le) simp
  show "2 ^ 119 \<le> n \<Longrightarrow> 2 ^ f \<le> rnd (k + 64) md n" unfolding p by (intro rounds_ge_real [OF r] ge) simp
qed

lemma flags_of_first:
  "round_flags (n mod 2 ^ x \<noteq> 0) True t =
    (if n mod 2 ^ x \<noteq> 0 then softfloat_flag_inexact OR (if t then softfloat_flag_underflow else 0) else 0)"
  by (simp add: round_flags_def)

theorem pack_result_value:
  fixes xZ :: floatX and s :: slow_state
  defines "N \<equiv> u128 (fx_sig xZ)" and "md \<equiv> mag_mode (softfloat_roundingMode s) (fx_sign xZ)"
  assumes v: "valid_mode (softfloat_roundingMode s)" and N: "2 ^ 119 \<le> N" "N < 2 ^ 120"
    and sp: "slow_pack f (k + 64) E md (softfloat_detectTininess s) (fx_exp xZ + bias) N = (z, fl)"
  shows "pack_result xZ s = Some (fl_pack (fx_sign xZ) z, softfloat_raiseFlags fl s)"
proof -
  let ?mode = "softfloat_roundingMode s"
  define e where "e = fx_exp xZ + bias"
  define m where "m = rnd (k + 64) md N"
  define t where "t \<longleftrightarrow> softfloat_detectTininess s = softfloat_tininess_beforeRounding \<and> e \<le> 0"
  define g where "g = round_flags (N mod 2 ^ (k + 64) \<noteq> 0) True t"
  have first: "round_sig t xZ ?mode True s = (with_sig xZ k m, softfloat_raiseFlags g s)"
    using round_law [OF v N(2) [unfolded N_def], of t True s] unfolding m_def md_def N_def g_def .
  have mb: "m \<le> 2 ^ Suc f" "2 ^ f \<le> m" unfolding m_def using rnd_bounds [OF N(2), of md] N(1) by blast+
  note ws = with_sig_value [OF mb(1), of xZ]
  define e1 where "e1 = (if m = 2 ^ Suc f then e + 1 else e)"
  define m1 where "m1 = (if m = 2 ^ Suc f then 2 ^ f else m)"
  have ex: "fx_exp (with_sig xZ k m) + bias = e1" using ws(1) by (simp add: e1_def e_def)
  have m1: "2 ^ f \<le> m1" "m1 < 2 ^ Suc f" using mb by (auto simp: m1_def)
  have sp': "slow_pack f (k + 64) E md (softfloat_detectTininess s) e N =
    (if int E \<le> e1 then (if md = Trunc then E * 2 ^ f - 1 else E * 2 ^ f, g OR (softfloat_flag_overflow OR softfloat_flag_inexact))
     else if e1 \<le> 0
     then let n' = jam (nat (1 - e)) N
          in (rnd (k + 64) md n', g OR (if n' mod 2 ^ (k + 64) \<noteq> 0 then softfloat_flag_inexact OR softfloat_flag_underflow else 0))
     else (nat (e1 - 1) * 2 ^ f + m1, g))"
    unfolding slow_pack_def Let_def m_def [symmetric] g_def flags_of_first t_def e1_def m1_def by (simp split: if_splits)
  note run = pack_result_def [of xZ s, unfolded Let_def e_def [symmetric] t_def [symmetric] first prod.case ex with_sig_fields]
  consider "int E \<le> e1" | "e1 \<le> 0" "\<not> int E \<le> e1" | "0 < e1" "\<not> int E \<le> e1" by linarith
  then show ?thesis
  proof cases
    case 1
    then have zf: "z = (if mag_mode ?mode (fx_sign xZ) = Trunc then E * 2 ^ f - 1 else E * 2 ^ f)"
      "fl = g OR (softfloat_flag_overflow OR softfloat_flag_inexact)"
      using sp sp' unfolding e_def [symmetric] md_def [symmetric] by simp_all
    show ?thesis unfolding run if_P [OF 1] orFlags_raiseFlags raiseFlags_raiseFlags raiseFlags_frame zf by (rule overflow_value [OF v])
  next
    case 2
    then have e0: "e \<le> 0" by (auto simp: e1_def split: if_splits)
    define sig where "sig = (if e < - low then bits 0 (of_bool (u128_v64 (fx_sig xZ) \<noteq> 0 \<or> u128_v0 (fx_sig xZ) \<noteq> 0)) else snd (shift_loop (1 - e) (fx_sig xZ)))"
    note sv = shifted_value [OF refl N [unfolded N_def] e0 sig_def, folded N_def]
    define m2 where "m2 = rnd (k + 64) md (jam (nat (1 - e)) N)"
    define h where "h = round_flags (jam (nat (1 - e)) N mod 2 ^ (k + 64) \<noteq> 0) True True"
    have second: "round_sig True (xZ\<lparr>fx_sig := sig\<rparr>) ?mode True (softfloat_raiseFlags g s) =
        (with_sig (xZ\<lparr>fx_sig := sig\<rparr>) k m2, softfloat_raiseFlags (g OR h) s)"
      using round_law [OF v, of "xZ\<lparr>fx_sig := sig\<rparr>" True True "softfloat_raiseFlags g s"] sv(3)
      unfolding m2_def md_def h_def sv(1) [symmetric] sv(2) [symmetric] by simp
    have j: "jam (nat (1 - e)) N < 2 ^ 119"
    proof -
      have "(2::nat) ^ 1 \<le> 2 ^ nat (1 - e)" using e0 by (intro power_increasing) simp_all
      then have "2 ^ 119 * 2 \<le> 2 ^ 119 * (2::nat) ^ nat (1 - e)" by (intro mult_le_mono2) simp
      moreover have "N < 2 ^ 119 * 2" using N(2) by simp
      ultimately have "N < 2 ^ 119 * 2 ^ nat (1 - e)" by linarith
      then show ?thesis by (simp add: jam_less_even)
    qed
    then have m2: "m2 \<le> 2 ^ f" unfolding m2_def using rnd_bounds(2) [of "jam (nat (1 - e)) N" md] by simp
    have "(2::nat) ^ f < 2 ^ Suc f" by simp
    then have m2': "m2 \<le> 2 ^ Suc f" "m2 < 2 ^ Suc f" using m2 by linarith+
    note w2 = with_sig_value(2) [OF m2'(1), of "xZ\<lparr>fx_sig := sig\<rparr>"]
    have u2: "unat (u128_v64 (fx_sig (with_sig (xZ\<lparr>fx_sig := sig\<rparr>) k m2))) = m2 * 2 ^ k" using w2 m2'(2) by simp
    have p55: "(2::nat) ^ 55 = 2 ^ f * 2 ^ k" using fk by (simp flip: power_add)
    have top: "0x0080000000000000 \<le> u128_v64 (fx_sig (with_sig (xZ\<lparr>fx_sig := sig\<rparr>) k m2)) \<longleftrightarrow> 2 ^ f \<le> m2"
    proof -
      have "0x0080000000000000 \<le> u128_v64 (fx_sig (with_sig (xZ\<lparr>fx_sig := sig\<rparr>) k m2)) \<longleftrightarrow> 2 ^ 55 \<le> m2 * 2 ^ k"
        unfolding word_le_nat_alt u2 by simp
      then show ?thesis unfolding p55 by simp
    qed
    define e2 :: int where "e2 = (if 2 ^ f \<le> m2 then 1 else 0)"
    have "packw e2 (fx_sign xZ) (u128_v64 (fx_sig (with_sig (xZ\<lparr>fx_sig := sig\<rparr>) k m2))) = fl_pack (fx_sign xZ) (nat e2 * 2 ^ f + m2 mod 2 ^ f)"
      using u2 m2'(2) E2 by (intro pack_law) (simp_all add: e2_def)
    also have "nat e2 * 2 ^ f + m2 mod 2 ^ f = m2" using m2 by (cases "m2 = 2 ^ f") (simp_all add: e2_def)
    finally have pk: "packw e2 (fx_sign xZ) (u128_v64 (fx_sig (with_sig (xZ\<lparr>fx_sig := sig\<rparr>) k m2))) = fl_pack (fx_sign xZ) m2" .
    have "fl = g OR h" "z = m2" using sp sp' 2 unfolding e_def [symmetric] Let_def m2_def h_def by (auto simp: round_flags_def)
    then show ?thesis
      using 2 pk second unfolding run sig_def [symmetric] e2_def by (simp add: top)
  next
    case 3
    have "packw e1 (fx_sign xZ) (u128_v64 (fx_sig (with_sig xZ k m))) = fl_pack (fx_sign xZ) (nat e1 * 2 ^ f + m1 mod 2 ^ f)"
      using 3 ws(2) m1(2) unfolding m1_def by (intro pack_law) simp_all
    also have "nat e1 * 2 ^ f + m1 mod 2 ^ f = nat (e1 - 1) * 2 ^ f + m1"
    proof -
      have "m1 mod 2 ^ f = m1 - 2 ^ f" using m1 by (simp add: le_mod_geq)
      moreover have "nat e1 = Suc (nat (e1 - 1))" using 3 by simp
      ultimately show ?thesis using m1(1) by simp
    qed
    finally show ?thesis using 3 sp sp' unfolding run e_def [symmetric] by simp
  qed
qed

text \<open>The whole conversion of a finite number other than zero.\<close>

definition to_format :: "floatX \<Rightarrow> slow_state \<Rightarrow> ('a word \<times> slow_state) option" where
  "to_format xZ s =
     do {
       (e, sig) \<leftarrow> carry_loop (fx_exp xZ) (fx_sig xZ);
       (e, sig) \<leftarrow> norm128_loop e sig;
       pack_result (xZ\<lparr>fx_exp := e, fx_sig := sig\<rparr>) s
     }"

theorem to_format_rounds:
  assumes v: "valid_mode (softfloat_roundingMode s)" and rep: "represents xZ R" and nz: "\<not> isZero xZ"
  shows "\<exists>res. to_format xZ s = Some res \<and> op_rounds f E zs (R * 2 powi (bias + int f - 1)) s res"
proof -
  let ?mode = "softfloat_roundingMode s" and ?det = "softfloat_detectTininess s"
  obtain X where X: "\<bar>R\<bar> = X * 2 powi (fx_exp xZ - 119)" "X = real (u128 (fx_sig xZ)) \<or> agrees 1 X (u128 (fx_sig xZ)) \<and> 2 ^ 100 \<le> u128 (fx_sig xZ)"
    "R \<noteq> 0" "fx_sign xZ = (R < 0)" "0 < u128 (fx_sig xZ)" "u128 (fx_sig xZ) < 2 ^ 127" using rep nz unfolding represents_def by auto
  obtain e1 sig1 e2 sig2 X2 where n: "carry_loop (fx_exp xZ) (fx_sig xZ) = Some (e1, sig1)" "norm128_loop e1 sig1 = Some (e2, sig2)"
    "2 ^ 119 \<le> u128 sig2" "u128 sig2 < 2 ^ 120" "agrees 20 X2 (u128 sig2)" "X * 2 powi (fx_exp xZ - 119) = X2 * 2 powi (e2 - 119)"
    using normalise [OF X(5,6,2)] by blast
  define md where "md = mag_mode ?mode (fx_sign xZ)"
  obtain z fl where g: "slow_pack f (k + 64) E md ?det (e2 + bias) (u128 sig2) = (z, fl)" by fastforce
  have "f + (k + 64) = 119" "f + (k + 64) + 1 = 120" using fk by simp_all
  then have b: "2 ^ (f + (k + 64)) \<le> u128 sig2" "u128 sig2 < 2 ^ (f + (k + 64) + 1)" using n(3,4) by (simp_all only:)
  have g': "gen_round_pack f (k + 64) E md ?det (e2 + bias - 1) (u128 sig2) = (z, fl)"
    using slow_pack_eq [OF _ _ E2 b] g f2 by simp
  have "agrees (k + 64 - 1) X2 (u128 sig2)" using n(5) by (rule agrees_mono) (use k2 in simp)
  from gen_round_pack_correct [OF _ _ E2 this b g' [unfolded md_def]]
  have rr: "round_result f E ?mode ?det (fx_sign xZ) (X2 * 2 powi (e2 + bias - 1 - int (k + 64))) z fl" using f2 by simp
  define r where "r = R * 2 powi (bias + int f - 1)"
  have "\<bar>r\<bar> = \<bar>R\<bar> * 2 powi (bias + int f - 1)" by (simp add: r_def abs_mult)
  also have "\<dots> = X2 * (2 powi (e2 - 119) * 2 powi (bias + int f - 1))" unfolding X(1) n(6) by simp
  also have "\<dots> = X2 * 2 powi (e2 + bias - 1 - int (k + 64))"
  proof -
    have "e2 - 119 + (bias + int f - 1) = e2 + bias - 1 - int (k + 64)" using fk by linarith
    then show ?thesis unfolding powi_mult by (simp only:)
  qed
  finally have ar: "\<bar>r\<bar> = X2 * 2 powi (e2 + bias - 1 - int (k + 64))" .
  have "\<not> (2::real) powi (bias + int f - 1) < 0" by (simp add: not_less)
  then have sg: "r \<noteq> 0" "fx_sign xZ = (r < 0)" using X(3,4) by (auto simp: r_def mult_less_0_iff)
  have "E * 2 ^ f < 2 ^ (LENGTH('a) - 1)" unfolding wide [symmetric] by simp
  then have "op_rounds f E zs r s (fl_pack (fx_sign xZ) z :: 'a word, softfloat_raiseFlags fl s)"
    using rr sg unfolding ar [symmetric] by (intro op_rounds_pack) simp_all
  moreover have "pack_result (xZ\<lparr>fx_exp := e2, fx_sig := sig2\<rparr>) s = Some (fl_pack (fx_sign xZ) z, softfloat_raiseFlags fl s)"
    using pack_result_value [OF v, of "xZ\<lparr>fx_exp := e2, fx_sig := sig2\<rparr>" z fl] n(3,4) g unfolding md_def by simp
  ultimately show ?thesis unfolding to_format_def r_def by (simp add: n(1,2))
qed

end

section \<open>Both formats\<close>

abbreviation packw32 :: "int \<Rightarrow> bool \<Rightarrow> uint64_t \<Rightarrow> float32_t" where
  "packw32 e sign v \<equiv>
     (let uiZ = push_bit 23 (word_of_int e); uiZ = (if sign then uiZ OR 0x80000000 else uiZ)
      in uiZ OR ucast (drop_bit 32 v AND 0x007FFFFF))"

abbreviation packw64 :: "int \<Rightarrow> bool \<Rightarrow> uint64_t \<Rightarrow> float64_t" where
  "packw64 e sign v \<equiv>
     (let uiZ = push_bit 52 (word_of_int e); uiZ = (if sign then uiZ OR 0x8000000000000000 else uiZ)
      in uiZ OR (drop_bit 3 v AND 0x000FFFFFFFFFFFFF))"

lemma assemble_fields:
  fixes w fr msb :: "'a::len word"
  assumes e: "0 \<le> e" "nat e < 2 ^ (LENGTH('a) - 1 - f)" and f: "f < LENGTH('a) - 1" and fr: "unat fr < 2 ^ f"
    and msb: "unat msb = 2 ^ (LENGTH('a) - 1)" and w: "w = push_bit f (word_of_int e)"
  shows "(if sign then w OR msb else w) OR fr = fl_pack sign (nat e * 2 ^ f + unat fr)"
proof -
  let ?L = "LENGTH('a)"
  have p: "(2::nat) ^ (?L - 1) = 2 ^ (?L - 1 - f) * 2 ^ f" using f by (simp flip: power_add)
  have "Suc (nat e) * 2 ^ f \<le> 2 ^ (?L - 1)" unfolding p by (intro mult_le_mono1 Suc_leI e(2))
  then have lt: "nat e * 2 ^ f + unat fr < 2 ^ (?L - 1)" "nat e * 2 ^ f < 2 ^ (?L - 1)" using fr by simp_all
  have L: "(2::nat) ^ ?L = 2 * 2 ^ (?L - 1)" by (simp flip: power_Suc)
  have "(2::nat) ^ (?L - 1 - f) \<le> 2 ^ ?L" by (intro power_increasing) simp_all
  then have "nat e < 2 ^ ?L" using e(2) by linarith
  then have "unat (word_of_int e :: 'a word) = nat e" using e(1) by (intro unat_word_of_int_nat) (simp_all add: nat_less_iff)
  then have uw: "unat w = nat e * 2 ^ f" unfolding w using lt(2) L by (subst unat_push_bit_small) simp_all
  have us: "unat (if sign then w OR msb else w) = of_bool sign * 2 ^ (?L - 1) + nat e * 2 ^ f"
  proof (cases sign)
    case True
    have "unat (msb OR w) = unat msb + unat w" using msb uw lt(2) by (intro unat_or_disjoint [of "?L - 1"]) simp_all
    then show ?thesis using True msb uw by (simp add: or.commute)
  next
    case False
    then show ?thesis using uw by simp
  qed
  have "2 ^ f dvd unat (if sign then w OR msb else w)" unfolding us p by simp
  then have "unat ((if sign then w OR msb else w) OR fr) = of_bool sign * 2 ^ (?L - 1) + (nat e * 2 ^ f + unat fr)"
    using fr us by (subst unat_or_disjoint [of f]) simp_all
  then show ?thesis unfolding word_unat_eq_iff fl_sign_pack(3) [OF lt(1)] .
qed

interpretation sl32: slow_format 23 32 255 127 27 roundFloatXTo24 "\<lambda>sign. if sign then 0xFF800000 else 0x7F800000"
  "\<lambda>sign. if sign then 0xFF7FFFFF else 0x7F7FFFFF" packw32
proof
  fix e :: int and v :: uint64_t and m sign
  assume e: "0 \<le> e" "e < int 255" and v: "unat v = m * 2 ^ 32" and m: "m < 2 ^ Suc 23"
  define fr :: uint32_t where "fr = ucast (drop_bit 32 v AND 0x007FFFFF)"
  have "unat (drop_bit 32 v AND 0x007FFFFF) = m mod 2 ^ 23" using unat_and_mask [of "drop_bit 32 v" 23] v by (simp add: unat_drop_bit_div)
  then have ufr: "unat fr = m mod 2 ^ 23" unfolding fr_def unat_ucast_mod by (simp add: mod_less)
  have "packw32 e sign v = fl_pack sign (nat e * 2 ^ 23 + unat fr)"
    unfolding Let_def fr_def [symmetric] using e ufr by (intro assemble_fields) simp_all
  then show "packw32 e sign v = fl_pack sign (nat e * 2 ^ 23 + m mod 2 ^ 23)" unfolding ufr .
qed (use roundFloatXTo24_value in \<open>simp_all add: fl_pack_def\<close>)

interpretation sl64: slow_format 52 3 2047 1023 56 roundFloatXTo53 "\<lambda>sign. if sign then 0xFFF0000000000000 else 0x7FF0000000000000"
  "\<lambda>sign. if sign then 0xFFEFFFFFFFFFFFFF else 0x7FEFFFFFFFFFFFFF" packw64
proof
  fix e :: int and v :: uint64_t and m sign
  assume e: "0 \<le> e" "e < int 2047" and v: "unat v = m * 2 ^ 3" and m: "m < 2 ^ Suc 52"
  define fr where "fr = drop_bit 3 v AND 0x000FFFFFFFFFFFFF"
  have ufr: "unat fr = m mod 2 ^ 52" unfolding fr_def using unat_and_mask [of "drop_bit 3 v" 52] v by (simp add: unat_drop_bit_div)
  have "packw64 e sign v = fl_pack sign (nat e * 2 ^ 52 + unat fr)"
    unfolding Let_def fr_def [symmetric] using e ufr by (intro assemble_fields) simp_all
  then show "packw64 e sign v = fl_pack sign (nat e * 2 ^ 52 + m mod 2 ^ 52)" unfolding ufr .
qed (use roundFloatXTo53_value in \<open>simp_all add: fl_pack_def\<close>)

lemma floatXToF32_scheme: "floatXToF32 xZ s =
    (if isNaN xZ then Some (0xFFFFFFFF, s)
     else if isInf xZ then Some (if fx_sign xZ then 0xFF800000 else 0x7F800000, s)
     else if isZero xZ then Some (if fx_sign xZ then 0x80000000 else 0, s)
     else sl32.to_format xZ s)"
  unfolding floatXToF32_def sl32.to_format_def sl32.pack_result_def unfolding Let_def split_def of_nat_numeral if_True if_False ..

lemma floatXToF64_scheme: "floatXToF64 xZ s =
    (if isNaN xZ then Some (0xFFFFFFFFFFFFFFFF, s)
     else if isInf xZ then Some (if fx_sign xZ then 0xFFF0000000000000 else 0x7FF0000000000000, s)
     else if isZero xZ then Some (if fx_sign xZ then 0x8000000000000000 else 0, s)
     else sl64.to_format xZ s)"
  unfolding floatXToF64_def sl64.to_format_def sl64.pack_result_def unfolding Let_def split_def of_nat_numeral if_True if_False ..

theorem floatXToF32_rounds:
  assumes "valid_mode (softfloat_roundingMode s)" and "represents xZ R"
  shows "\<exists>res. floatXToF32 xZ s = Some res \<and> op_rounds 23 255 (fx_sign xZ) (R * 2 ^ 149) s res"
proof (cases "isZero xZ")
  case True
  then have "R = 0" "\<not> isNaN xZ" "\<not> isInf xZ" using assms(2) by (simp_all add: represents_def)
  moreover have "op_rounds 23 255 (fx_sign xZ) 0 s (if fx_sign xZ then 0x80000000 else 0 :: float32_t, s)"
    by (rule op_rounds_exact) (simp_all add: fl_real_def fl_mag_def fl_sign_def)
  ultimately show ?thesis using True by (simp add: floatXToF32_scheme)
next
  case False
  have "(2::real) powi (127 + int 23 - 1) = 2 ^ 149" by simp
  then show ?thesis using sl32.to_format_rounds [OF assms False, of "fx_sign xZ"] assms(2) False by (simp add: floatXToF32_scheme represents_def)
qed

theorem floatXToF64_rounds:
  assumes "valid_mode (softfloat_roundingMode s)" and "represents xZ R"
  shows "\<exists>res. floatXToF64 xZ s = Some res \<and> op_rounds 52 2047 (fx_sign xZ) (R * 2 ^ 1074) s res"
proof (cases "isZero xZ")
  case True
  then have "R = 0" "\<not> isNaN xZ" "\<not> isInf xZ" using assms(2) by (simp_all add: represents_def)
  moreover have "op_rounds 52 2047 (fx_sign xZ) 0 s (if fx_sign xZ then 0x8000000000000000 else 0 :: float64_t, s)"
    by (rule op_rounds_exact) (simp_all add: fl_real_def fl_mag_def fl_sign_def)
  ultimately show ?thesis using True by (simp add: floatXToF64_scheme)
next
  case False
  have "(2::real) powi (1023 + int 52 - 1) = 2 ^ 1074" by simp
  then show ?thesis using sl64.to_format_rounds [OF assms False, of "fx_sign xZ"] assms(2) False by (simp add: floatXToF64_scheme represents_def)
qed

end
