(* ===== verification/Slow_Unpack.thy ===== *)
theory Slow_Unpack
  imports Slow_Pack
begin

text \<open>
  Unpacking in the reference arithmetic is exact: the \<^verbatim>\<open>struct floatX\<close> of a finite number has that number's value, with a normalised significand whose
  low bits are zero.
\<close>

definition exactly :: "nat \<Rightarrow> floatX \<Rightarrow> real \<Rightarrow> bool" where
  "exactly t x R \<longleftrightarrow> \<not> isNaN x \<and> \<not> isInf x \<and>
     (if isZero x then R = 0 \<and> u128 (fx_sig x) = 0
      else R \<noteq> 0 \<and> fx_sign x = (R < 0) \<and> 2 ^ 119 \<le> u128 (fx_sig x) \<and> u128 (fx_sig x) < 2 ^ 120 \<and> 2 ^ t dvd u128 (fx_sig x) \<and>
        \<bar>R\<bar> = real (u128 (fx_sig x)) * 2 powi (fx_exp x - 119))"

lemma exactly_represents: "exactly t x R \<Longrightarrow> represents x R"
  unfolding exactly_def represents_def by (auto split: if_splits)

lemma exactly_mono: "exactly t x R \<Longrightarrow> j \<le> t \<Longrightarrow> exactly j x R"
  unfolding exactly_def by (auto intro: power_le_dvd split: if_splits)

text \<open>The value of a significand \<open>m * 2 ^ j\<close> with a given exponent, for a number of \<open>m * 2 ^ i\<close> units.\<close>

lemma exactly_sig:
  assumes x: "\<not> isNaN x" "\<not> isInf x" "\<not> isZero x" "fx_sign x = fl_sign a" and N: "u128 (fx_sig x) = m * 2 ^ j" "2 ^ 119 \<le> m * 2 ^ j" "m * 2 ^ j < 2 ^ 120"
    and mv: "mval f (fl_mag a) = m * 2 ^ i" and e: "fx_exp x + int j - 119 = int i - int U" and t: "t \<le> j"
  shows "exactly t x (fl_real f a / 2 ^ U)"
proof -
  define R where "R = fl_real f a / 2 ^ U"
  have "m \<noteq> 0" using N(2) by (cases m) simp_all
  then have pos: "0 < real (m * 2 ^ i)" by simp
  define q where "q = real (m * 2 ^ i) / (2::real) ^ U"
  have q: "0 < q" unfolding q_def using pos by (rule divide_pos_pos) simp
  have "R = (if fl_sign a then - q else q)" by (simp add: R_def fl_real_def mv q_def)
  then have "R \<noteq> 0 \<and> fl_sign a = (R < 0) \<and> \<bar>R\<bar> = q" using q by (cases "fl_sign a") simp_all
  then have s: "R \<noteq> 0" "fl_sign a = (R < 0)" "\<bar>R\<bar> = real (m * 2 ^ i) / 2 ^ U" unfolding q_def by blast+
  have "real (m * 2 ^ j) * 2 powi (fx_exp x - 119) = real m * (2 powi int j * 2 powi (fx_exp x - 119))" by simp
  also have "\<dots> = real m * 2 powi (int i - int U)" unfolding powi_mult e [symmetric] by (simp add: algebra_simps)
  also have "\<dots> = real (m * 2 ^ i) / 2 ^ U" using powi_div [of "int i" U] by (simp add: times_divide_eq_right [symmetric] del: times_divide_eq_right)
  finally have v: "\<bar>R\<bar> = real (m * 2 ^ j) * 2 powi (fx_exp x - 119)" using s(3) by simp
  have "2 ^ t dvd m * 2 ^ j" using t by (simp add: le_imp_power_dvd)
  then show ?thesis unfolding exactly_def R_def [symmetric] using x N s(1,2) v by simp
qed

lemma exactly_zero: "\<not> isNaN x \<Longrightarrow> \<not> isInf x \<Longrightarrow> isZero x \<Longrightarrow> u128 (fx_sig x) = 0 \<Longrightarrow> fl_mag a = 0 \<Longrightarrow> exactly t x (fl_real f a / 2 ^ U)"
  by (simp add: exactly_def fl_real_def)

lemma and_top_bit: "a AND 2 ^ (LENGTH('a) - 1) \<noteq> 0 \<longleftrightarrow> fl_sign a" for a :: "'a::len word"
proof -
  let ?n = "LENGTH('a) - 1"
  have "unat a < 2 ^ Suc ?n" using unsigned_less [of a] by simp
  then have "unat a div 2 ^ ?n < 2" by (intro less_mult_imp_div_less) (simp only: power_Suc)
  then have "odd (unat a div 2 ^ ?n) \<longleftrightarrow> unat a div 2 ^ ?n \<noteq> 0" by (cases "unat a div 2 ^ ?n") (auto simp: less_Suc_eq)
  moreover have "bit a ?n \<longleftrightarrow> odd (unat a div 2 ^ ?n)" using bit_unsigned_iff [of a ?n, where 'a = nat] bit_iff_odd [of "unat a" ?n] by simp
  ultimately show ?thesis by (simp add: and_exp_eq_0_iff_not_bit fl_sign_def div_eq_0_iff not_less)
qed

lemma sign_bit32: "a AND 0x80000000 \<noteq> 0 \<longleftrightarrow> fl_sign a" for a :: uint32_t
  using and_top_bit [of a] by simp

lemma sign_bit64: "a AND 0x8000000000000000 \<noteq> 0 \<longleftrightarrow> fl_sign a" for a :: uint64_t
  using and_top_bit [of a] by simp

section \<open>Single precision\<close>

lemma f32ToFloatX_finite:
  assumes fin: "fl_mag a < 255 * 2 ^ 23"
  shows "\<exists>x. f32ToFloatX u a = Some x \<and> exactly 67 x (fl_real 23 a / 2 ^ 149) \<and> fx_sign x = fl_sign a \<and> (isZero x \<longleftrightarrow> fl_mag a = 0)"
proof -
  define fr where "fr = unat (fracF32UI a)"
  define v where "v = (push_bit 32 (ucast (fracF32UI a)) :: uint64_t)"
  have fr: "fr < 2 ^ 23" unfolding fr_def by (rule f32.frac_range)
  have uv: "unat v = fr * 2 ^ 32" unfolding v_def fr_def using fr [unfolded fr_def] by (subst unat_push_bit_small) (simp_all add: unat_ucast_up)
  have vz: "v = 0 \<longleftrightarrow> fr = 0" using uv unat_eq_zero [of v] by simp
  have e: "expF32UI a \<noteq> 255" using fin f32.finite_iff [of a] by simp
  note run = f32ToFloatX_def [of u a, unfolded Let_def expF32UI_def [symmetric] fracF32UI_def [symmetric] v_def [symmetric] sign_bit32]
  consider "expF32UI a = 0" "fr = 0" | "expF32UI a = 0" "fr \<noteq> 0" | "expF32UI a \<noteq> 0" by blast
  then show ?thesis
  proof cases
    case 1
    then have z: "fl_mag a = 0" by (simp add: f32.zero_iff fr_def unat_eq_zero)
    define x where "x = \<lparr>isNaN = False, isInf = False, isZero = True, fx_sign = fl_sign a, fx_exp = u, fx_sig = bits v 0\<rparr>"
    have "f32ToFloatX u a = Some x" using 1 vz by (simp add: run x_def)
    moreover have "exactly 67 x (fl_real 23 a / 2 ^ 149)" using z 1 uv by (intro exactly_zero) (simp_all add: x_def)
    ultimately show ?thesis using z by (simp add: x_def)
  next
    case 2
    have u1: "unat (push_bit 1 v) = fr * 2 ^ 33" using fr uv by (subst unat_push_bit_small) simp_all
    have "\<exists>c v'. norm64_loop 0x0080000000000000 (- 127) (push_bit 1 v) = Some (- 127 - int c, v') \<and> unat v' = unat (push_bit 1 v) * 2 ^ c \<and>
      2 ^ 55 \<le> unat v' \<and> unat v' < 2 ^ Suc 55"
      using 2 fr by (intro norm64_loop_value [of _ _ 22]) (simp_all only: u1, simp_all)
    then obtain c v' where c: "norm64_loop 0x0080000000000000 (- 127) (push_bit 1 v) = Some (- 127 - int c, v')" "unat v' = fr * 2 ^ 33 * 2 ^ c"
      "2 ^ 55 \<le> unat v'" "unat v' < 2 ^ 56" unfolding u1 by auto
    define x where "x = \<lparr>isNaN = False, isInf = False, isZero = False, fx_sign = fl_sign a, fx_exp = - 127 - int c, fx_sig = bits v' 0\<rparr>"
    have "f32ToFloatX u a = Some x" using 2 vz c(1) by (simp add: run x_def)
    moreover have "exactly 67 x (fl_real 23 a / 2 ^ 149)"
    proof (rule exactly_sig [where m = fr and j = "97 + c" and i = 0])
      show "u128 (fx_sig x) = fr * 2 ^ (97 + c)" using c(2) by (simp add: x_def power_add)
      show "2 ^ 119 \<le> fr * 2 ^ (97 + c)" "fr * 2 ^ (97 + c) < 2 ^ 120" using c(2-4) by (simp_all add: power_add)
      show "mval 23 (fl_mag a) = fr * 2 ^ 0" using f32.mval_subnormal [OF 2(1)] by (simp add: fr_def)
    qed (simp_all add: x_def)
    ultimately show ?thesis using 2 f32.zero_iff [of a] by (auto simp: x_def fr_def)
  next
    case 3
    then have ep: "0 < expF32UI a" using f32.exp_range(1) [of a] by simp
    have uo: "unat (v OR 0x0080000000000000) = (2 ^ 23 + fr) * 2 ^ 32"
    proof -
      have "unat (0x0080000000000000 OR v) = unat (0x0080000000000000 :: uint64_t) + unat v"
        using uv fr by (intro unat_or_disjoint [of 55]) simp_all
      then show ?thesis using uv by (simp add: or.commute)
    qed
    define x where "x = \<lparr>isNaN = False, isInf = False, isZero = False, fx_sign = fl_sign a, fx_exp = expF32UI a - 127, fx_sig = bits (v OR 0x0080000000000000) 0\<rparr>"
    have "f32ToFloatX u a = Some x" using 3 e by (simp add: run x_def)
    moreover have "exactly 67 x (fl_real 23 a / 2 ^ 149)"
    proof (rule exactly_sig [where m = "2 ^ 23 + fr" and j = 96 and i = "nat (expF32UI a) - 1"])
      show "u128 (fx_sig x) = (2 ^ 23 + fr) * 2 ^ 96" using uo by (simp add: x_def)
      show "mval 23 (fl_mag a) = (2 ^ 23 + fr) * 2 ^ (nat (expF32UI a) - 1)" unfolding fr_def by (rule f32.mval_normal [OF ep])
    qed (use fr ep in \<open>simp_all add: x_def of_nat_diff\<close>)
    ultimately show ?thesis using 3 f32.zero_iff [of a] by (auto simp: x_def)
  qed
qed

section \<open>Double precision\<close>

lemma f64ToFloatX_finite:
  assumes fin: "fl_mag a < 2047 * 2 ^ 52"
  shows "\<exists>x. f64ToFloatX u a = Some x \<and> exactly 67 x (fl_real 52 a / 2 ^ 1074) \<and> fx_sign x = fl_sign a \<and> (isZero x \<longleftrightarrow> fl_mag a = 0)"
proof -
  define v where "v = fracF64UI a"
  have fr: "unat v < 2 ^ 52" unfolding v_def by (rule f64.frac_range)
  have e: "expF64UI a \<noteq> 2047" using fin f64.finite_iff [of a] by simp
  note run = f64ToFloatX_def [of u a, unfolded Let_def expF64UI_def [symmetric] fracF64UI_def [symmetric] v_def [symmetric] sign_bit64]
  consider "expF64UI a = 0" "v = 0" | "expF64UI a = 0" "v \<noteq> 0" | "expF64UI a \<noteq> 0" by blast
  then show ?thesis
  proof cases
    case 1
    then have z: "fl_mag a = 0" by (simp add: f64.zero_iff v_def)
    define x where "x = \<lparr>isNaN = False, isInf = False, isZero = True, fx_sign = fl_sign a, fx_exp = u, fx_sig = bits 0 0\<rparr>"
    have "f64ToFloatX u a = Some x" using 1 by (simp add: run x_def)
    moreover have "exactly 67 x (fl_real 52 a / 2 ^ 1074)" using z by (intro exactly_zero) (simp_all add: x_def)
    ultimately show ?thesis using z by (simp add: x_def)
  next
    case 2
    have nz: "0 < unat v" using 2 by (simp add: unat_gt_0)
    have u1: "unat (push_bit 1 v) = unat v * 2" using fr by (subst unat_push_bit_small) simp_all
    have "\<exists>c v'. norm64_loop 0x0010000000000000 (- 1023) (push_bit 1 v) = Some (- 1023 - int c, v') \<and> unat v' = unat (push_bit 1 v) * 2 ^ c \<and>
      2 ^ 52 \<le> unat v' \<and> unat v' < 2 ^ Suc 52"
      using nz fr by (intro norm64_loop_value [of _ _ 51]) (simp_all only: u1, simp_all)
    then obtain c v' where c: "norm64_loop 0x0010000000000000 (- 1023) (push_bit 1 v) = Some (- 1023 - int c, v')" "unat v' = unat v * 2 * 2 ^ c"
      "2 ^ 52 \<le> unat v'" "unat v' < 2 ^ 53" unfolding u1 by auto
    have u3: "unat (push_bit 3 v') = unat v' * 2 ^ 3" using c(4) by (subst unat_push_bit_small) simp_all
    define x where "x = \<lparr>isNaN = False, isInf = False, isZero = False, fx_sign = fl_sign a, fx_exp = - 1023 - int c, fx_sig = bits (push_bit 3 v') 0\<rparr>"
    have "f64ToFloatX u a = Some x" using 2 c(1) by (simp add: run x_def)
    moreover have "exactly 67 x (fl_real 52 a / 2 ^ 1074)"
    proof (rule exactly_sig [where m = "unat v" and j = "68 + c" and i = 0])
      show "u128 (fx_sig x) = unat v * 2 ^ (68 + c)" using c(2) u3 by (simp add: x_def power_add)
      show "2 ^ 119 \<le> unat v * 2 ^ (68 + c)" "unat v * 2 ^ (68 + c) < 2 ^ 120" using c(2-4) by (simp_all add: power_add)
      show "mval 52 (fl_mag a) = unat v * 2 ^ 0" using f64.mval_subnormal [OF 2(1)] by (simp add: v_def)
    qed (simp_all add: x_def)
    ultimately show ?thesis using 2 f64.zero_iff [of a] by (auto simp: x_def v_def)
  next
    case 3
    then have ep: "0 < expF64UI a" using f64.exp_range(1) [of a] by simp
    have uo: "unat (v OR 0x0010000000000000) = 2 ^ 52 + unat v"
    proof -
      have "unat (0x0010000000000000 OR v) = unat (0x0010000000000000 :: uint64_t) + unat v"
        using fr by (intro unat_or_disjoint [of 52]) simp_all
      then show ?thesis by (simp add: or.commute)
    qed
    have u3: "unat (push_bit 3 (v OR 0x0010000000000000)) = (2 ^ 52 + unat v) * 2 ^ 3" using fr uo by (subst unat_push_bit_small) simp_all
    define x where "x = \<lparr>isNaN = False, isInf = False, isZero = False, fx_sign = fl_sign a, fx_exp = expF64UI a - 1023, fx_sig = bits (push_bit 3 (v OR 0x0010000000000000)) 0\<rparr>"
    have "f64ToFloatX u a = Some x" using 3 e by (simp add: run x_def)
    moreover have "exactly 67 x (fl_real 52 a / 2 ^ 1074)"
    proof (rule exactly_sig [where m = "2 ^ 52 + unat v" and j = 67 and i = "nat (expF64UI a) - 1"])
      show "u128 (fx_sig x) = (2 ^ 52 + unat v) * 2 ^ 67" using u3 by (simp add: x_def)
      show "mval 52 (fl_mag a) = (2 ^ 52 + unat v) * 2 ^ (nat (expF64UI a) - 1)" unfolding v_def by (rule f64.mval_normal [OF ep])
    qed (use fr ep in \<open>simp_all add: x_def of_nat_diff\<close>)
    ultimately show ?thesis using 3 f64.zero_iff [of a] by (auto simp: x_def)
  qed
qed

end
