(* ===== verification/Slow_Arith.thy ===== *)
theory Slow_Arith
  imports Slow_Unpack Float_MulAdd_Single Float_Div Float_Sqrt_Correct
begin

text \<open>
  The arithmetic of the reference: on operands that are exact, each routine delivers a \<^verbatim>\<open>struct floatX\<close> that represents the exact result of the operation. The
  loops over the bits are schoolbook multiplication, restoring division and the bitwise square root, each with its invariant.
\<close>

section \<open>Operands\<close>

lemma exactly_cases:
  assumes "exactly t x R"
  obtains (zero) "isZero x" "\<not> isNaN x" "\<not> isInf x" "R = 0" "u128 (fx_sig x) = 0"
    | (nonzero) "\<not> isZero x" "\<not> isNaN x" "\<not> isInf x" "R \<noteq> 0" "fx_sign x = (R < 0)" "2 ^ 119 \<le> u128 (fx_sig x)" "u128 (fx_sig x) < 2 ^ 120"
      "2 ^ t dvd u128 (fx_sig x)" "\<bar>R\<bar> = real (u128 (fx_sig x)) * 2 powi (fx_exp x - 119)"
  using assms unfolding exactly_def by (cases "isZero x") auto

lemma representsI:
  assumes "\<not> isNaN x" "\<not> isInf x" "\<not> isZero x" "R \<noteq> 0" "fx_sign x = (R < 0)" "\<bar>R\<bar> = X * 2 powi (fx_exp x - 119)"
    and "0 < u128 (fx_sig x)" "u128 (fx_sig x) < 2 ^ 127" "X = real (u128 (fx_sig x)) \<or> agrees 1 X (u128 (fx_sig x)) \<and> 2 ^ 100 \<le> u128 (fx_sig x)"
  shows "represents x R"
  using assms unfolding represents_def by auto

lemma u128_odd: "u128_v0 b AND 1 \<noteq> 0 \<longleftrightarrow> odd (u128 b)"
proof -
  have "u128_v0 b AND 1 = of_bool (odd (u128_v0 b))" by (simp add: and_one_eq mod_2_eq_odd)
  moreover have "odd (u128_v0 b) \<longleftrightarrow> odd (unat (u128_v0 b))" by (simp add: even_unat_iff)
  ultimately show ?thesis by (simp add: u128_def)
qed

lemma set_low_bit:
  assumes "even (u128 z)"
  shows "u128 (z\<lparr>u128_v0 := u128_v0 z OR 1\<rparr>) = u128 z + 1"
proof -
  have "2 ^ 1 dvd unat (u128_v0 z)" using assms by (simp add: u128_def)
  then have "unat (u128_v0 z OR 1) = unat (u128_v0 z) + unat (1 :: uint64_t)" by (intro unat_or_disjoint [of 1]) simp_all
  then show ?thesis by (simp add: u128_def)
qed

lemma high_words: "0x0100000000000000 \<le> u128_v64 z \<longleftrightarrow> 2 ^ 120 \<le> u128 z"
  using high_word_less [of 56 z] by (simp add: word_le_nat_alt not_less [symmetric])

section \<open>Multiplication\<close>

lemma mul_loop_value:
  assumes "u128 a < 2 ^ 120" and "u128 z < 2 ^ 121" and "2 ^ n dvd u128 z + 2 * u128 a * (u128 b mod 2 ^ n)"
  shows "u128 (mul_loop n a b z) * 2 ^ n = u128 z + 2 * u128 a * (u128 b mod 2 ^ n)"
  using assms(2,3)
proof (induction n arbitrary: b z)
  case 0
  show ?case by simp
next
  case (Suc n)
  define q r where "q = u128 b div 2" and "r = u128 b mod 2"
  have m: "u128 b mod 2 ^ Suc n = 2 * (q mod 2 ^ n) + r" unfolding q_def r_def by (simp add: mod_mult2_eq)
  have "2 dvd (2::nat) ^ Suc n" by simp
  then have "2 dvd u128 z + 2 * u128 a * (u128 b mod 2 ^ Suc n)" using Suc.prems(2) dvd_trans by blast
  then have ev: "even (u128 z)" by (simp add: dvd_add_left_iff)
  define z' where "z' = (if u128_v0 b AND 1 \<noteq> 0 then add128 (shortShift128RightJam z 1) a else shortShift128RightJam z 1)"
  have h: "u128 (shortShift128RightJam z 1) = u128 z div 2" using ev jam_exact(1) [of 1 "u128 z"] by (simp add: shortShift128RightJam_value)
  have u: "u128 z' = u128 z div 2 + r * u128 a"
    using assms(1) Suc.prems(1) unfolding z'_def u128_odd r_def by (simp add: h [unfolded One_nat_def] add128_value odd_iff_mod_2_eq_one)
  have lt: "u128 z' < 2 ^ 121" unfolding u r_def using assms(1) Suc.prems(1) by (cases "even (u128 b)") (simp_all add: odd_iff_mod_2_eq_one)
  have b': "u128 (shortShift128Right b 1) = q" by (simp add: shortShift128Right_value q_def)
  have eq: "2 * (u128 z' + 2 * u128 a * (q mod 2 ^ n)) = u128 z + 2 * u128 a * (u128 b mod 2 ^ Suc n)"
    unfolding u m using ev by (simp add: algebra_simps)
  have "2 * 2 ^ n dvd 2 * (u128 z' + 2 * u128 a * (q mod 2 ^ n))" using Suc.prems(2) unfolding eq power_Suc .
  then have "2 ^ n dvd u128 z' + 2 * u128 a * (q mod 2 ^ n)" by (simp only: nat_mult_dvd_cancel_disj) simp
  then have "u128 (mul_loop n a (shortShift128Right b 1) z') * 2 ^ n = u128 z' + 2 * u128 a * (q mod 2 ^ n)"
    using Suc.IH [of z' "shortShift128Right b 1"] lt unfolding b' by blast
  moreover have "mul_loop (Suc n) a b z = mul_loop n a (shortShift128Right b 1) z'" by (simp add: z'_def)
  ultimately show ?case unfolding eq [symmetric] by simp
qed

theorem floatXMul_exact:
  assumes A: "exactly 67 xA A" and B: "exactly 67 xB B"
  shows "\<exists>xZ. floatXMul xA xB s = (xZ, s) \<and> exactly 14 xZ (A * B) \<and> fx_sign xZ = (fx_sign xA \<noteq> fx_sign xB)"
proof (cases "isZero xA \<or> isZero xB")
  case True
  then have "A * B = 0" "\<not> isNaN xA" "\<not> isNaN xB" "\<not> isInf xA" "\<not> isInf xB" using A B by (auto simp: exactly_def)
  then show ?thesis using True
    by (simp add: floatXMul_def Let_def exactly_def floatXNegativeZero_def floatXPositiveZero_def)
next
  case False
  define N M where "N = u128 (fx_sig xA)" and "M = u128 (fx_sig xB)"
  have fA: "\<not> isNaN xA" "\<not> isInf xA" "A \<noteq> 0" "fx_sign xA = (A < 0)" "2 ^ 119 \<le> N" "N < 2 ^ 120" "2 ^ 67 dvd N"
      "\<bar>A\<bar> = real N * 2 powi (fx_exp xA - 119)" using False A by (auto simp: exactly_def N_def)
  have fB: "\<not> isNaN xB" "\<not> isInf xB" "B \<noteq> 0" "fx_sign xB = (B < 0)" "2 ^ 119 \<le> M" "M < 2 ^ 120" "2 ^ 67 dvd M"
      "\<bar>B\<bar> = real M * 2 powi (fx_exp xB - 119)" using False B by (auto simp: exactly_def M_def)
  define z where "z = mul_loop 120 (fx_sig xA) (fx_sig xB) (bits 0 0)"
  define Z where "Z = u128 z"
  have "2 ^ 67 * 2 ^ 67 dvd N * M" using fA(7) fB(7) by (rule mult_dvd_mono)
  then have d: "2 ^ 134 dvd N * M" by simp
  have "(2::nat) ^ 120 dvd 2 ^ 134" by (rule le_imp_power_dvd) simp
  then have "2 ^ 120 dvd 2 * N * M" using d dvd_trans by (metis dvd_mult mult.assoc)
  then have "Z * 2 ^ 120 = 2 * N * M"
    using mul_loop_value [of "fx_sig xA" "bits 0 0" 120 "fx_sig xB"] fA(6) fB(6) unfolding Z_def z_def N_def M_def by simp
  then have Z: "Z * 2 ^ 119 = N * M" by (simp add: ac_simps)
  have "2 ^ 15 * 2 ^ 119 dvd Z * 2 ^ 119" using d unfolding Z by simp
  then have dZ: "2 ^ 15 dvd Z" unfolding dvd_mult_cancel_right by simp
  have "2 ^ 119 * 2 ^ 119 \<le> N * M" by (rule mult_le_mono [OF fA(5) fB(5)])
  then have lo: "2 ^ 119 \<le> Z" using Z by simp
  have "N * M < 2 ^ 120 * 2 ^ 120" using fA(6) fB(6) by (rule mult_strict_mono) simp_all
  then have hi: "Z < 2 ^ 121" using Z by simp
  have "\<bar>A * B\<bar> = real (N * M) * (2 powi (fx_exp xA - 119) * 2 powi (fx_exp xB - 119))" by (simp add: abs_mult fA(8) fB(8))
  also have "\<dots> = real Z * 2 powi (119 + (fx_exp xA - 119 + (fx_exp xB - 119)))" unfolding Z [symmetric] powi_mult [symmetric] by simp
  also have "119 + (fx_exp xA - 119 + (fx_exp xB - 119)) = fx_exp xA + fx_exp xB - 119" by simp
  finally have v: "\<bar>A * B\<bar> = real Z * 2 powi (fx_exp xA + fx_exp xB - 119)" .
  have sg: "A * B \<noteq> 0" "(fx_sign xA \<noteq> fx_sign xB) = (A * B < 0)" using fA(3,4) fB(3,4) by (auto simp: mult_less_0_iff)
  define xZ where "xZ = xA\<lparr>fx_sign := (fx_sign xA \<noteq> fx_sign xB), fx_exp := fx_exp xA + fx_exp xB, fx_sig := z\<rparr>"
  define yZ where "yZ = (if 2 ^ 120 \<le> Z then xZ\<lparr>fx_exp := fx_exp xA + fx_exp xB + 1, fx_sig := shortShift128RightJam z 1\<rparr> else xZ)"
  have "floatXMul xA xB s = (yZ, s)" using False fA(1,2) fB(1,2)
    unfolding floatXMul_def Let_def yZ_def xZ_def Z_def z_def high_words [symmetric] by simp
  moreover have "exactly 14 yZ (A * B)"
  proof (cases "2 ^ 120 \<le> Z")
    case True
    have "2 ^ 1 dvd Z" using dZ by (rule power_le_dvd) simp
    then have h: "u128 (shortShift128RightJam z 1) * 2 = Z" using jam_exact(1) [of 1 Z] by (simp add: shortShift128RightJam_value Z_def)
    define H where "H = u128 (shortShift128RightJam z 1)"
    have "2 ^ 14 dvd H" using dZ unfolding h [symmetric] H_def [symmetric] by (simp add: dvd_mult_cancel_right)
    moreover have "real Z * 2 powi (fx_exp xA + fx_exp xB - 119) = real H * 2 powi (fx_exp xA + fx_exp xB + 1 - 119)"
    proof -
      have "real Z * 2 powi (fx_exp xA + fx_exp xB - 119) = real H * (2 powi 1 * 2 powi (fx_exp xA + fx_exp xB - 119))"
        unfolding h [symmetric] H_def by simp
      then show ?thesis unfolding powi_mult by (simp add: algebra_simps)
    qed
    ultimately show ?thesis using True False fA(1,2) sg v hi h
      unfolding exactly_def yZ_def xZ_def H_def by simp
  next
    case nc: False
    have "2 ^ 14 dvd Z" using dZ by (rule power_le_dvd) simp
    then show ?thesis using nc False fA(1,2) sg v lo unfolding exactly_def yZ_def xZ_def by (simp add: Z_def)
  qed
  moreover have "fx_sign yZ = (fx_sign xA \<noteq> fx_sign xB)" by (simp add: yZ_def xZ_def)
  ultimately show ?thesis by blast
qed

section \<open>Division\<close>

lemma div_loop_value:
  assumes B: "u128 b < 2 ^ 120" and "u128 a < 2 * u128 b" and "even (u128 z)" and "(u128 z * u128 b + u128 a) * 2 ^ n < 2 ^ 122 * u128 b"
  shows "\<exists>a' z'. div_loop n b (neg128 b) a z = (a', z') \<and> (u128 z * u128 b + u128 a) * 2 ^ n = u128 z' * u128 b + u128 a' \<and>
    u128 a' < 2 * u128 b \<and> even (u128 z')"
  using assms(2-)
proof (induction n arbitrary: a z)
  case 0
  then show ?case by simp
next
  case (Suc n)
  define q :: nat where "q = of_bool (u128 b \<le> u128 a)"
  define c where "c = (if le128 b a then add128 a (neg128 b) else a)"
  define y where "y = (if le128 b a then z\<lparr>u128_v0 := u128_v0 z OR 1\<rparr> else z)"
  have uc: "u128 c = u128 a - q * u128 b" "u128 c < u128 b"
  proof -
    have "(u128 a + (2 ^ 128 - u128 b)) mod 2 ^ 128 = u128 a - u128 b" if "u128 b \<le> u128 a"
    proof -
      have "u128 a + (2 ^ 128 - u128 b) = 2 ^ 128 + (u128 a - u128 b)" using that B by simp
      moreover have "u128 a - u128 b < 2 ^ 128" using B Suc.prems(1) by simp
      ultimately show ?thesis by simp
    qed
    moreover have "u128 b \<noteq> 0" using Suc.prems(1) by simp
    then have "u128 (neg128 b) = 2 ^ 128 - u128 b" using B by (simp add: neg128_value)
    ultimately show "u128 c = u128 a - q * u128 b" unfolding c_def q_def le128_value by (simp add: add128_value)
    then show "u128 c < u128 b" using Suc.prems(1) by (cases "u128 b \<le> u128 a") (simp_all add: q_def)
  qed
  have uy: "u128 y = u128 z + q" unfolding y_def q_def le128_value by (simp add: set_low_bit [OF Suc.prems(2)])
  have z: "u128 z < 2 ^ 122"
  proof -
    have "u128 z * u128 b * 1 \<le> (u128 z * u128 b + u128 a) * 2 ^ Suc n" by (intro mult_le_mono) simp_all
    then have "u128 z * u128 b < 2 ^ 122 * u128 b" using Suc.prems(3) by linarith
    then show ?thesis by (rule mult_less_cancel2 [THEN iffD1, THEN conjunct2])
  qed
  have s: "u128 (shortShift128Left c 1) = 2 * u128 c" "u128 (shortShift128Left y 1) = 2 * u128 y"
    using uc(2) B z uy by (simp_all add: shortShift128Left_value q_def)
  have "q * u128 b \<le> u128 a" by (simp add: q_def)
  then have step: "2 * u128 y * u128 b + 2 * u128 c = 2 * (u128 z * u128 b + u128 a)" unfolding uy uc(1) by (simp add: algebra_simps)
  have "(2 * u128 y * u128 b + 2 * u128 c) * 2 ^ n < 2 ^ 122 * u128 b" unfolding step using Suc.prems(3) by (simp add: algebra_simps)
  then have "\<exists>a' z'. div_loop n b (neg128 b) (shortShift128Left c 1) (shortShift128Left y 1) = (a', z') \<and>
    (2 * u128 y * u128 b + 2 * u128 c) * 2 ^ n = u128 z' * u128 b + u128 a' \<and> u128 a' < 2 * u128 b \<and> even (u128 z')"
    using Suc.IH [of "shortShift128Left c 1" "shortShift128Left y 1"] uc(2) unfolding s by simp
  moreover have "div_loop (Suc n) b (neg128 b) a z = div_loop n b (neg128 b) (shortShift128Left c 1) (shortShift128Left y 1)"
    by (simp add: c_def y_def)
  ultimately show ?case unfolding step by (simp add: algebra_simps)
qed

theorem floatXDiv_represents:
  assumes A: "exactly t xA A" and B: "exactly t xB B" and nz: "\<not> isZero xB"
  shows "\<exists>xZ. floatXDiv xA xB s = (xZ, s) \<and> represents xZ (A / B) \<and> fx_sign xZ = (fx_sign xA \<noteq> fx_sign xB)"
proof (cases "isZero xA")
  case True
  then have "A = 0" "\<not> isNaN xA" "\<not> isNaN xB" "\<not> isInf xA" "\<not> isInf xB" using A B by (auto simp: exactly_def)
  then show ?thesis using True nz
    by (simp add: floatXDiv_def Let_def represents_def floatXNegativeZero_def floatXPositiveZero_def)
next
  case False
  define N M where "N = u128 (fx_sig xA)" and "M = u128 (fx_sig xB)"
  have fA: "\<not> isNaN xA" "\<not> isInf xA" "A \<noteq> 0" "fx_sign xA = (A < 0)" "2 ^ 119 \<le> N" "N < 2 ^ 120"
      "\<bar>A\<bar> = real N * 2 powi (fx_exp xA - 119)" using False A by (auto simp: exactly_def N_def)
  have fB: "\<not> isNaN xB" "\<not> isInf xB" "B \<noteq> 0" "fx_sign xB = (B < 0)" "2 ^ 119 \<le> M" "M < 2 ^ 120"
      "\<bar>B\<bar> = real M * 2 powi (fx_exp xB - 119)" using nz B by (auto simp: exactly_def M_def)
  have "N * 2 ^ 120 < 2 ^ 120 * 2 ^ 120" using fA(6) by simp
  moreover have "(2::nat) ^ 122 * 2 ^ 119 \<le> 2 ^ 122 * M" using fB(5) by (intro mult_le_mono2)
  ultimately have "N * 2 ^ 120 < 2 ^ 122 * M" by simp
  then obtain a z where dl: "div_loop 120 (fx_sig xB) (neg128 (fx_sig xB)) (fx_sig xA) (bits 0 0) = (a, z)"
    and dv: "N * 2 ^ 120 = u128 z * M + u128 a" "u128 a < 2 * M" "even (u128 z)"
    using div_loop_value [of "fx_sig xB" "fx_sig xA" "bits 0 0" 120] fA(6) fB(5,6) unfolding N_def M_def by auto
  define y where "y = (if u128 a \<noteq> 0 then z\<lparr>u128_v0 := u128_v0 z OR 1\<rparr> else z)"
  have y: "u128 y = u128 z + of_bool (u128 a \<noteq> 0)" by (simp add: y_def set_low_bit [OF dv(3)])
  define X where "X = real (N * 2 ^ 120) / real M"
  have M0: "0 < real M" using fB(5) by simp
  have X: "X = real (u128 z) + real (u128 a) / real M" unfolding X_def dv(1) using M0 by (simp add: field_simps)
  have fr: "0 \<le> real (u128 a) / real M" "real (u128 a) / real M < 2" "real (u128 a) / real M = 0 \<longleftrightarrow> u128 a = 0"
    using dv(2) M0 by (simp_all add: pos_divide_less_eq)
  obtain c where c: "u128 z = 2 * c" using dv(3) by (auto elim: evenE)
  have ag: "agrees 1 X (u128 y)"
  proof (cases "u128 a = 0")
    case True
    then have "X = real (u128 y)" by (simp add: X y)
    then show ?thesis by (simp only: agrees_refl)
  next
    case False
    then have "0 < real (u128 a) / real M" using fr(1,3) by linarith
    then show ?thesis using False fr(2) by (intro agrees_between [of c]) (simp_all add: X y c)
  qed
  have "2 ^ 119 * 2 ^ 120 \<le> N * 2 ^ 120" using fA(5) by (rule mult_le_mono1)
  then have "(2::nat) ^ 119 * 2 ^ 120 < (u128 z + 2) * M" unfolding dv(1) using dv(2) by (simp add: algebra_simps)
  moreover have "(u128 z + 2) * M \<le> (u128 z + 2) * 2 ^ 120" using fB(6) by (intro mult_le_mono2) simp
  ultimately have "(2::nat) ^ 119 * 2 ^ 120 < (u128 z + 2) * 2 ^ 120" by (rule less_le_trans)
  then have lo: "2 ^ 119 \<le> u128 z + 1" by simp
  have "u128 z * 2 ^ 119 \<le> u128 z * M" using fB(5) by (rule mult_le_mono2)
  also have "\<dots> < 2 ^ 120 * 2 ^ 120" using dv(1) fA(6) by simp
  finally have hi: "u128 z < 2 ^ 121" by simp
  define e where "e = fx_exp xA - (fx_exp xB + 1)"
  have "\<bar>A / B\<bar> = real N / real M * (2 powi (fx_exp xA - 119) / 2 powi (fx_exp xB - 119))" by (simp add: abs_divide fA(7) fB(7))
  also have "2 powi (fx_exp xA - 119) / 2 powi (fx_exp xB - 119) = (2::real) powi (120 + (e - 119))"
    by (simp add: e_def power_int_diff [symmetric])
  also have "real N / real M * 2 powi (120 + (e - 119)) = X * 2 powi (e - 119)" unfolding powi_mult [symmetric] X_def by simp
  finally have v: "\<bar>A / B\<bar> = X * 2 powi (e - 119)" .
  have sg: "A / B \<noteq> 0" "(fx_sign xA \<noteq> fx_sign xB) = (A / B < 0)" using fA(3,4) fB(3,4) by (auto simp: divide_less_0_iff)
  define xZ where "xZ = xA\<lparr>fx_sign := (fx_sign xA \<noteq> fx_sign xB), fx_exp := e, fx_sig := y\<rparr>"
  have "floatXDiv xA xB s = (xZ, s)" using False nz fA(1,2) fB(1,2) dl u128_zero_iff [of a]
    by (simp add: floatXDiv_def Let_def xZ_def y_def e_def)
  moreover have "represents xZ (A / B)"
    using False fA(1,2) sg v ag lo hi y unfolding represents_def xZ_def by (auto intro!: exI [of _ X])
  ultimately show ?thesis by (auto simp: xZ_def)
qed

section \<open>Square root\<close>

lemma sub128_int: "int (u128 (add128 a (neg128 b))) = (int (u128 a) - int (u128 b)) mod 2 ^ 128"
proof -
  have le: "u128 b \<le> 2 ^ 128" using u128_less [of b] by simp
  have "(int (u128 a) + (2 ^ 128 - int (u128 b)) mod 2 ^ 128) mod 2 ^ 128 = (int (u128 a) + (2 ^ 128 - int (u128 b))) mod 2 ^ 128"
    by (rule mod_add_right_eq)
  also have "\<dots> = (int (u128 a) - int (u128 b) + 2 ^ 128) mod 2 ^ 128" by (simp add: algebra_simps)
  finally show ?thesis unfolding add128_value neg128_value using le by (simp add: of_nat_mod of_nat_diff)
qed

lemma top_bit128: "u128_v64 x AND 0x8000000000000000 \<noteq> 0 \<longleftrightarrow> 2 ^ 127 \<le> u128 x"
proof -
  have "u128_v64 x AND 0x8000000000000000 \<noteq> 0 \<longleftrightarrow> 2 ^ 63 \<le> unat (u128_v64 x)" using sign_bit64 [of "u128_v64 x"] by (simp add: fl_sign_def)
  then show ?thesis using high_word_less [of 63 x] by (simp add: not_less [symmetric])
qed

lemma signed_value:
  fixes v :: int
  assumes "int (u128 x) = v mod 2 ^ 128" and "- (2 ^ 127) \<le> v" and "v < 2 ^ 127"
  shows "2 ^ 127 \<le> u128 x \<longleftrightarrow> v < 0" and "0 \<le> v \<Longrightarrow> u128 x = nat v" and "v < 0 \<Longrightarrow> int (u128 x) = v + 2 ^ 128"
proof -
  have pos: "int (u128 x) = v" if "0 \<le> v" using assms(1,3) that by simp
  have "(v + 2 ^ 128) mod 2 ^ 128 = v + 2 ^ 128" if "v < 0" using assms(2) that by (intro mod_pos_pos_trivial) simp_all
  then have neg: "int (u128 x) = v + 2 ^ 128" if "v < 0" using assms(1) that by simp
  then show "v < 0 \<Longrightarrow> int (u128 x) = v + 2 ^ 128" .
  show "0 \<le> v \<Longrightarrow> u128 x = nat v" using pos by linarith
  show "2 ^ 127 \<le> u128 x \<longleftrightarrow> v < 0"
  proof (cases "v < 0")
    case True
    then have "int (2 ^ 127) \<le> int (u128 x)" using neg assms(2) by simp
    then show ?thesis using True by (simp only: of_nat_le_iff)
  next
    case False
    then have "int (u128 x) < int (2 ^ 127)" using pos assms(3) by simp
    then have "u128 x < 2 ^ 127" by (simp only: of_nat_less_iff)
    then show ?thesis using False by simp
  qed
qed

lemma or128_disjoint:
  assumes "2 ^ Suc n dvd u128 z" and "u128 b = 2 ^ n" and "n < 128"
  shows "u128 (bits (u128_v64 z OR u128_v64 b) (u128_v0 z OR u128_v0 b)) = u128 z + 2 ^ n"
proof -
  define h l where "h = unat (u128_v64 z)" and "l = unat (u128_v0 z)"
  have z: "u128 z = h * 2 ^ 64 + l" "l < 2 ^ 64" unfolding h_def l_def by (simp_all add: u128_def unsigned_less [where 'b = 64, simplified])
  have bb: "unat (u128_v64 b) = 2 ^ n div 2 ^ 64" "unat (u128_v0 b) = 2 ^ n mod 2 ^ 64"
    using assms(2) unsigned_less [of "u128_v0 b", where 'a = nat] by (simp_all add: u128_def flip: assms(2))
  show ?thesis
  proof (cases "n < 64")
    case True
    then have "(2::nat) ^ n < 2 ^ 64" by (intro power_strict_increasing) simp_all
    then have b: "unat (u128_v64 b) = 0" "unat (u128_v0 b) = 2 ^ n" using bb by simp_all
    have "2 ^ Suc n dvd (2::nat) ^ 64" using True by (intro le_imp_power_dvd) simp
    then have "2 ^ Suc n dvd l" using assms(1) unfolding z(1) by (simp add: dvd_add_right_iff)
    then have "unat (u128_v0 z OR u128_v0 b) = l + 2 ^ n" unfolding l_def using b(2) by (subst unat_or_disjoint [of "Suc n"]) simp_all
    moreover have "u128_v64 b = 0" using b(1) by (simp add: unat_eq_zero)
    ultimately show ?thesis by (simp add: z(1) h_def)
  next
    case False
    then obtain k where k: "n = k + 64" by (metis le_add_diff_inverse2 not_less)
    have b: "unat (u128_v64 b) = 2 ^ k" "unat (u128_v0 b) = 0" using bb unfolding k by (simp_all add: power_add)
    have d: "2 ^ Suc k * 2 ^ 64 dvd h * 2 ^ 64 + l" using assms(1) unfolding z(1) k by (simp add: power_add)
    then have "2 ^ 64 dvd h * 2 ^ 64 + l" by (rule dvd_mult_right)
    then have "2 ^ 64 dvd l" by (simp add: dvd_add_right_iff)
    then have l0: "l = 0" using z(2) by (auto dest: dvd_imp_le)
    then have "2 ^ Suc k dvd h" using d by simp
    then have "unat (u128_v64 z OR u128_v64 b) = h + 2 ^ k" unfolding h_def using b(1) by (subst unat_or_disjoint [of "Suc k"]) simp_all
    moreover have "u128_v0 b = 0" using b(2) by (simp add: unat_eq_zero)
    ultimately show ?thesis using l0 by (simp add: z(1) l_def k power_add)
  qed
qed

lemma sqrt_loop_value:
  assumes "0 < n \<Longrightarrow> u128 b = 2 ^ (n - 1)" and "u128 z * u128 z + u128 a * 2 ^ n = N" and "N < (u128 z + 2 ^ n) * (u128 z + 2 ^ n)"
    and "2 ^ n dvd u128 z" and "u128 z + 2 ^ n \<le> 2 ^ 120"
  shows "\<exists>a' z'. sqrt_loop n b a z = (a', z') \<and> u128 z' * u128 z' + u128 a' = N \<and> N < (u128 z' + 1) * (u128 z' + 1) \<and> u128 z' < 2 ^ 120"
  using assms
proof (induction n arbitrary: a b z)
  case 0
  then show ?case by simp
next
  case (Suc n)
  define d :: nat where "d = 2 ^ n"
  define A Z where "A = u128 a" and "Z = u128 z"
  have b: "u128 b = d" using Suc.prems(1) by (simp add: d_def)
  have N: "Z * Z + A * (2 * d) = N" "N < (Z + 2 * d) * (Z + 2 * d)" "2 * d dvd Z" "Z + 2 * d \<le> 2 ^ 120" and d0: "0 < d"
    using Suc.prems(2-5) by (simp_all add: d_def A_def Z_def)
  have "A * (2 * d) < (2 * Z + 2 * d) * (2 * d)" using N(1,2) by (simp add: algebra_simps)
  then have Ab: "A < 2 * Z + 2 * d" by simp
  define v :: int where "v = 2 * (int A - int Z) - int d"
  define t where "t = add128 (shortShift128Left (add128 a (neg128 z)) 1) (neg128 b)"
  have "int (u128 (shortShift128Left (add128 a (neg128 z)) 1)) = (2 * (int A - int Z)) mod 2 ^ 128"
  proof -
    have "int (u128 (shortShift128Left (add128 a (neg128 z)) 1)) = ((int A - int Z) mod 2 ^ 128 * 2) mod 2 ^ 128"
      by (simp add: shortShift128Left_value [where c = 1, simplified] of_nat_mod sub128_int A_def Z_def)
    then show ?thesis unfolding mod_mult_left_eq by (simp only: mult.commute)
  qed
  then have tv: "int (u128 t) = v mod 2 ^ 128" unfolding t_def sub128_int b v_def by (simp add: mod_diff_left_eq)
  have "int A < int (2 * Z + 2 * d)" "int (Z + 2 * d) \<le> int (2 ^ 120)" using Ab N(4) by (simp_all only: of_nat_less_iff of_nat_le_iff)
  then have vb: "- (2 ^ 127) \<le> v" "v < 2 ^ 127" unfolding v_def by simp_all
  note sv = signed_value [OF tv vb]
  define a' z' where "a' = (if v < 0 then shortShift128Left a 1 else t)"
    and "z' = (if v < 0 then z else bits (u128_v64 z OR u128_v64 b) (u128_v0 z OR u128_v0 b))"
  have run: "sqrt_loop (Suc n) b a z = sqrt_loop n (shortShift128RightJam b 1) a' z'"
    unfolding a'_def z'_def sv(1) [symmetric] t_def top_bit128 [symmetric] by (simp add: Let_def)
  have b': "u128 (shortShift128RightJam b 1) = 2 ^ (n - 1)" if "0 < n"
  proof -
    have "2 ^ 1 dvd d" using that by (simp add: d_def)
    then show ?thesis using that jam_exact(1) [of 1 d] by (cases n) (simp_all add: shortShift128RightJam_value b d_def)
  qed
  have "u128 z' * u128 z' + u128 a' * 2 ^ n = N \<and> N < (u128 z' + 2 ^ n) * (u128 z' + 2 ^ n) \<and> 2 ^ n dvd u128 z' \<and> u128 z' + 2 ^ n \<le> 2 ^ 120"
  proof (cases "v < 0")
    case True
    have "A < 2 ^ 122" using Ab N(4) by simp
    then have "u128 a' = 2 * A" using True by (simp add: a'_def shortShift128Left_value [where c = 1, simplified] A_def)
    moreover have "u128 z' = Z" using True by (simp add: z'_def Z_def)
    moreover have "N < (Z + d) * (Z + d)"
    proof -
      have "int (2 * A) < int (2 * Z + d)" using True unfolding v_def by simp
      then have "2 * A < 2 * Z + d" by (simp only: of_nat_less_iff)
      then have "2 * A * d < (2 * Z + d) * d" using d0 by simp
      then show ?thesis using N(1) by (simp add: algebra_simps)
    qed
    moreover have "d dvd Z" using N(3) by (auto elim: dvdE)
    ultimately show ?thesis using N(1,4) by (simp add: algebra_simps flip: d_def)
  next
    case False
    have at: "u128 a' = 2 * A - (2 * Z + d)" "2 * Z + d \<le> 2 * A" using False sv(2) unfolding a'_def v_def by auto
    have "Suc n \<le> 120"
    proof (rule ccontr)
      assume "\<not> Suc n \<le> 120"
      then have "(2::nat) ^ 121 \<le> 2 ^ Suc n" by (intro power_increasing) simp_all
      then show False using N(4) by (simp add: d_def)
    qed
    then have zt: "u128 z' = Z + d" using False N(3) b or128_disjoint [of n z b] by (simp add: z'_def d_def Z_def)
    have "u128 a' * d + (2 * Z + d) * d = 2 * A * d" unfolding at(1) using at(2) by (simp flip: add_mult_distrib)
    then have "(Z + d) * (Z + d) + u128 a' * d = N" using N(1) by (simp add: algebra_simps)
    moreover have "d dvd Z + d" using N(3) by (auto elim: dvdE)
    ultimately show ?thesis using N(2,4) unfolding zt by (simp add: algebra_simps flip: d_def)
  qed
  then show ?case unfolding run using Suc.IH [of "shortShift128RightJam b 1" z' a'] b' by blast
qed

theorem floatXSqrt_represents:
  assumes A: "exactly t xA A" and t: "1 \<le> t" and nn: "0 \<le> A"
  shows "\<exists>xZ. floatXSqrt xA s = (xZ, s) \<and> represents xZ (sqrt A) \<and> fx_sign xZ = fx_sign xA"
  using A
proof (cases rule: exactly_cases)
  case zero
  then show ?thesis by (simp add: floatXSqrt_def represents_def)
next
  case nonzero
  define k where "k = fx_exp xA div 2"
  define aSig where "aSig = (if even (fx_exp xA) then shortShift128RightJam (fx_sig xA) 1 else fx_sig xA)"
  define n where "n = u128 aSig"
  have "2 ^ 1 dvd u128 (fx_sig xA)" using nonzero(8) t by (rule power_le_dvd)
  then have h: "u128 (shortShift128RightJam (fx_sig xA) 1) * 2 = u128 (fx_sig xA)"
    using jam_exact(1) [of 1 "u128 (fx_sig xA)"] by (simp add: shortShift128RightJam_value)
  have n: "2 ^ 118 \<le> n" "n < 2 ^ 120" using nonzero(6,7) h unfolding n_def aSig_def by (simp_all split: if_splits)
  have e: "fx_exp xA = (if even (fx_exp xA) then 2 * k else 2 * k + 1)" by (simp add: k_def)
  have "A = real n * 2 powi (2 * k - 118)"
  proof (cases "even (fx_exp xA)")
    case True
    have "A = real (n * 2) * 2 powi (2 * k - 119)" using nonzero(9) nn True h e by (simp add: n_def aSig_def)
    also have "\<dots> = real n * (2 powi 1 * 2 powi (2 * k - 119))" by simp
    finally show ?thesis unfolding powi_mult by simp
  next
    case False
    have "A = real n * 2 powi (2 * k + 1 - 119)" using nonzero(9) nn False e by (simp add: n_def aSig_def)
    then show ?thesis by simp
  qed
  also have "2 * k - 118 = 120 + ((k - 119) + (k - 119))" by simp
  finally have "A = real (n * 2 ^ 120) * (2 powi (k - 119) * 2 powi (k - 119))" unfolding powi_mult [symmetric] by simp
  then have "sqrt A = sqrt (real (n * 2 ^ 120)) * sqrt (2 powi (k - 119) * 2 powi (k - 119))" by (simp only: real_sqrt_mult)
  then have v: "\<bar>sqrt A\<bar> = sqrt (real (n * 2 ^ 120)) * 2 powi (k - 119)" using nn by (simp only: real_sqrt_mult_self) simp
  have "n * 2 ^ 120 < 2 ^ 120 * 2 ^ 120" using n(2) by simp
  then obtain a z where loop: "sqrt_loop 120 (bits 0x0080000000000000 0) aSig (bits 0 0) = (a, z)"
    and z: "u128 z * u128 z + u128 a = n * 2 ^ 120" "n * 2 ^ 120 < (u128 z + 1) * (u128 z + 1)" "u128 z < 2 ^ 120"
    using sqrt_loop_value [of 120 "bits 0x0080000000000000 0" "bits 0 0" aSig] unfolding n_def by auto
  have lo: "2 ^ 119 \<le> u128 z"
  proof (rule ccontr)
    assume "\<not> 2 ^ 119 \<le> u128 z"
    then have "(u128 z + 1) * (u128 z + 1) \<le> 2 ^ 119 * 2 ^ 119" by (intro mult_le_mono) simp_all
    moreover have "2 ^ 118 * 2 ^ 120 \<le> n * 2 ^ 120" using n(1) by (rule mult_le_mono1)
    ultimately show False using z(2) by simp
  qed
  define y where "y = (if u128 a \<noteq> 0 then z\<lparr>u128_v0 := u128_v0 z OR 1\<rparr> else z)"
  have "u128 (z\<lparr>u128_v0 := u128_v0 z OR 1\<rparr>) = u128 z + of_bool (even (u128 z))"
  proof (cases "even (u128 z)")
    case False
    then have "odd (u128_v0 z)" by (simp add: u128_def even_unat_iff)
    then have "u128_v0 z OR 1 = u128_v0 z" by (simp add: or_one_eq)
    then show ?thesis using False by simp
  qed (simp add: set_low_bit)
  then have y: "u128 y = u128 z + of_bool (u128 z * u128 z \<noteq> n * 2 ^ 120 \<and> even (u128 z))" using z(1) by (auto simp: y_def)
  have "agrees 1 (sqrt (real (n * 2 ^ 120))) (u128 y)"
    by (rule agrees_root_jam [OF _ z(2) y]) (use z(1) in simp)
  moreover have "floatXSqrt xA s = (xA\<lparr>fx_exp := k, fx_sig := y\<rparr>, s)"
    using nonzero loop nn u128_zero_iff [of a] by (simp add: floatXSqrt_def Let_def k_def y_def flip: aSig_def)
  moreover have "represents (xA\<lparr>fx_exp := k, fx_sig := y\<rparr>) (sqrt A)"
  proof (rule representsI)
    show "\<bar>sqrt A\<bar> = sqrt (real (n * 2 ^ 120)) * 2 powi (fx_exp (xA\<lparr>fx_exp := k, fx_sig := y\<rparr>) - 119)" using v by simp
  qed (use nonzero(1-5) nn lo y z(3) calculation(1) in simp_all)
  ultimately show ?thesis by simp
qed

section \<open>Addition\<close>

text \<open>The shifted significand of the smaller operand; from 120 bits on it is the sticky bit alone.\<close>

lemma align_value:
  assumes "0 < u128 sig" and "u128 sig < 2 ^ 120" and "0 \<le> d"
  shows "u128 (if 120 < d then bits 0 1 else snd (shift_loop d sig)) = jam (nat d) (u128 sig)"
proof (cases "120 < d")
  case True
  have "(2::nat) ^ 120 \<le> 2 ^ nat d" using True by (intro power_increasing) simp_all
  then have lt: "u128 sig < 2 ^ nat d" using assms(2) by linarith
  then have "\<not> 2 ^ nat d dvd u128 sig" using assms(1) by (auto dest: dvd_imp_le)
  then show ?thesis using True lt by (simp add: jam_def)
next
  case False
  then show ?thesis using shift_loop_value [of "nat d" sig] assms(3) by simp
qed

text \<open>What both branches of the routine do with the larger exponent's significand \<open>big\<close> and the other one, shifted to \<open>small\<close>.\<close>

definition add_sigs :: "bool \<Rightarrow> bool \<Rightarrow> int \<Rightarrow> bits128X \<Rightarrow> bits128X \<Rightarrow> floatX" where
  "add_sigs sB differ e big small =
     (let sig = add128 (if differ then neg128 small else small) big
      in if u128_v64 sig AND 0x8000000000000000 \<noteq> 0
         then \<lparr>isNaN = False, isInf = False, isZero = False, fx_sign = (\<not> sB), fx_exp = e, fx_sig = neg128 sig\<rparr>
         else \<lparr>isNaN = False, isInf = False, isZero = False, fx_sign = sB, fx_exp = e, fx_sig = sig\<rparr>)"

lemma add128_commute: "add128 a b = add128 b a"
  unfolding u128_inject [symmetric] add128_value by (simp only: add.commute)

lemma add_sigs_represents:
  assumes big: "2 ^ 119 \<le> u128 big" "u128 big < 2 ^ 120" "2 ^ 2 dvd u128 big" and S: "2 ^ 119 \<le> S" "S < 2 ^ 120" "2 ^ 2 dvd S"
    and small: "u128 small = jam d S" and P: "P = (if sB then -1 else 1) * (real (u128 big) * 2 powi (e - 119))"
    and Q: "Q = (if sB = differ then 1 else -1) * (real S / 2 ^ d * 2 powi (e - 119))" and nz: "P + Q \<noteq> 0"
  shows "represents (add_sigs sB differ e big small) (P + Q)"
proof -
  define B where "B = u128 big"
  define w where "w = (2::real) powi (e - 119)"
  define sg :: real where "sg = (if sB then -1 else 1)"
  have w: "0 < w" by (simp add: w_def)
  have ev: "even B" using big(3) unfolding B_def by (auto elim: dvdE)
  have "S < 2 ^ 120 * 2 ^ 0" using S(2) by simp
  then have j: "jam d S < 2 ^ 120" using jam_bound [of "2 ^ 120" S 0 d] by simp
  show ?thesis
  proof (cases differ)
    case False
    define X where "X = real B + real S / 2 ^ d"
    have u: "u128 (add128 small big) = B + jam d S" using j big(2) by (simp add: add128_value small B_def)
    then have top: "\<not> 2 ^ 127 \<le> u128 (add128 small big)" using j big(2) by (simp add: B_def)
    have "agrees 1 X (B + jam d S)" unfolding X_def using ev by (intro agrees_add agrees_jam_refl) simp_all
    moreover have "P + Q = sg * (X * w)" unfolding P Q X_def sg_def w_def B_def using False by (simp add: algebra_simps)
    moreover have X0: "0 < X" using big(1) unfolding X_def B_def by (intro add_pos_nonneg) simp_all
    moreover have "\<not> X * 2 powi (e - 119) < 0" using X0 by (simp add: mult_less_0_iff not_less)
    moreover have "add_sigs sB differ e big small = \<lparr>isNaN = False, isInf = False, isZero = False, fx_sign = sB, fx_exp = e, fx_sig = add128 small big\<rparr>"
      using False top unfolding add_sigs_def Let_def top_bit128 by simp
    ultimately show ?thesis using X0 u j big(1,2) by (intro representsI [of _ _ X]) (simp_all add: sg_def w_def B_def)
  next
    case True
    define D where "D = real B - real S / 2 ^ d"
    define v where "v = int B - int (jam d S)"
    have PQ: "P + Q = sg * (D * w)" unfolding P Q D_def sg_def w_def B_def using True by (simp add: algebra_simps)
    then have D0: "D \<noteq> 0" using nz by auto
    have D: "(D < 0 \<longleftrightarrow> v < 0) \<and> v \<noteq> 0 \<and> (\<bar>D\<bar> = real (nat \<bar>v\<bar>) \<or> agrees 1 \<bar>D\<bar> (nat \<bar>v\<bar>) \<and> 2 ^ 100 \<le> nat \<bar>v\<bar>)"
    proof (cases "d = 0")
      case True
      then have "D = of_int v" by (simp add: D_def v_def)
      then show ?thesis using D0 by simp
    next
      case False
      have "2 * 2 ^ 118 \<le> B" "S < 4 * 2 ^ 118" "0 < d" using big(1) S(2) False by (simp_all add: B_def)
      note ad = aligned_difference [of "2 ^ 118" B S d 2, OF this(1) ev this(2) _ this(3) S(3)]
      have "0 < B - jam d S" "\<bar>D\<bar> = D" "0 < D" using ad(1,4) by (simp_all add: D_def)
      moreover from this have "nat \<bar>v\<bar> = B - jam d S" "0 < v" by (simp_all add: v_def)
      moreover have "D = real (B - jam d S) \<or> agrees 1 D (B - jam d S) \<and> 2 ^ 118 \<le> B - jam d S" unfolding D_def using ad(2) by simp
      ultimately show ?thesis by auto
    qed
    define sig where "sig = add128 (neg128 small) big"
    have "int (u128 sig) = v mod 2 ^ 128" unfolding sig_def add128_commute [of "neg128 small"] sub128_int v_def small B_def ..
    moreover have vb: "- (2 ^ 127) \<le> v" "v < 2 ^ 127" using j big(2) by (simp_all add: v_def B_def)
    ultimately have tv: "int (u128 sig) = v mod 2 ^ 128" by blast
    have sv: "2 ^ 127 \<le> u128 sig \<longleftrightarrow> v < 0" "0 \<le> v \<Longrightarrow> u128 sig = nat v" "v < 0 \<Longrightarrow> int (u128 sig) = v + 2 ^ 128"
      using signed_value [OF tv vb] by blast+
    have neg: "u128 (neg128 sig) = nat \<bar>v\<bar>" if "v < 0"
    proof -
      have "int (2 ^ 128 - u128 sig) = - v" using sv(3) [OF that] u128_less [of sig] by (simp add: of_nat_diff)
      then have "2 ^ 128 - u128 sig = nat \<bar>v\<bar>" "nat \<bar>v\<bar> < 2 ^ 128" using that vb by (simp_all add: nat_less_iff)
      then show ?thesis by (simp add: neg128_value)
    qed
    define y where "y = (if v < 0 then neg128 sig else sig)"
    have "- (2 ^ 127) < v" using j by (simp add: v_def)
    then have y: "u128 y = nat \<bar>v\<bar>" "0 < u128 y" "u128 y < 2 ^ 127" using neg sv(2) D vb by (auto simp: y_def nat_less_iff)
    have run: "add_sigs sB differ e big small = \<lparr>isNaN = False, isInf = False, isZero = False, fx_sign = (sB \<noteq> (v < 0)), fx_exp = e, fx_sig = y\<rparr>"
      using True sv(1) by (simp add: add_sigs_def Let_def top_bit128 y_def flip: sig_def)
    have "(P + Q < 0) = (sB \<noteq> (D < 0))" unfolding PQ sg_def using w D0 by (auto simp: mult_less_0_iff zero_less_mult_iff)
    moreover have "\<bar>P + Q\<bar> = \<bar>D\<bar> * w" unfolding PQ sg_def using w by (simp add: abs_mult)
    ultimately show ?thesis using D nz y unfolding run w_def by (intro representsI [of _ _ "\<bar>D\<bar>"]) simp_all
  qed
qed

lemma normal_less:
  assumes "n < 2 ^ 120" and "2 ^ 119 \<le> m" and "a < b"
  shows "real n * 2 powi (a - 119) < real m * 2 powi (b - 119)"
proof -
  have "real n < real (2 ^ 120)" "real (2 ^ 119) \<le> real m" using assms(1,2) by (simp_all only: of_nat_less_iff of_nat_le_iff)
  then have nm: "real n < 2 powi 120" "2 powi 119 \<le> real m" by simp_all
  have "real n * 2 powi (a - 119) < 2 powi 120 * 2 powi (a - 119)" using nm(1) by (rule mult_strict_right_mono) simp
  also have "\<dots> \<le> 2 powi 119 * 2 powi (b - 119)" unfolding powi_mult using assms(3) by (intro power_int_increasing) simp_all
  also have "\<dots> \<le> real m * 2 powi (b - 119)" using nm(2) by (rule mult_right_mono) simp
  finally show ?thesis .
qed

lemma normal_unique:
  assumes "2 ^ 119 \<le> n" "n < 2 ^ 120" "2 ^ 119 \<le> m" "m < 2 ^ 120" and eq: "real n * 2 powi (a - 119) = real m * 2 powi (b - 119)"
  shows "a = b \<and> n = m"
proof -
  have "a = b" using normal_less [of n m a b] normal_less [of m n b a] assms by (metis less_irrefl linorder_neqE)
  then show ?thesis using eq by simp
qed

lemma shifted_powi: "(2::real) powi (b - int d - 119) = 2 powi (b - 119) / 2 ^ d"
  unfolding powi_div by (simp add: algebra_simps)

theorem floatXAdd_represents:
  assumes A: "exactly t xA A" and B: "exactly t xB B" and t: "2 \<le> t"
  shows "\<exists>xZ. floatXAdd xA xB s = (xZ, s) \<and> represents xZ (A + B) \<and>
    (A + B = 0 \<longrightarrow> fx_sign xZ = (if fx_sign xA = fx_sign xB then fx_sign xA else softfloat_roundingMode s = softfloat_round_min))"
proof -
  define cc where "cc = (if softfloat_roundingMode s = softfloat_round_min then floatXNegativeZero else floatXPositiveZero)"
  have cc: "represents cc 0" "fx_sign cc = (softfloat_roundingMode s = softfloat_round_min)"
    by (simp_all add: cc_def represents_def floatXNegativeZero_def floatXPositiveZero_def)
  note repA = exactly_represents [OF A] and repB = exactly_represents [OF B]
  have spec: "\<not> isNaN xA" "\<not> isInf xA" "\<not> isNaN xB" "\<not> isInf xB" using A B by (simp_all add: exactly_def)
  consider "isZero xA" "isZero xB" | "isZero xA" "\<not> isZero xB" | "\<not> isZero xA" "isZero xB" | "\<not> isZero xA" "\<not> isZero xB" by blast
  then show ?thesis
  proof cases
    case 1
    then have "A = 0" "B = 0" using A B by (simp_all add: exactly_def)
    then show ?thesis using 1 spec cc repA by (auto simp: floatXAdd_def Let_def simp flip: cc_def)
  next
    case 2
    then have "A = 0" "B \<noteq> 0" "u128 (fx_sig xA) \<noteq> u128 (fx_sig xB)" using A B by (auto simp: exactly_def)
    then show ?thesis using 2 spec repB by (simp add: floatXAdd_def Let_def eq128_value)
  next
    case 3
    then have "B = 0" "A \<noteq> 0" "u128 (fx_sig xA) \<noteq> u128 (fx_sig xB)" using A B by (auto simp: exactly_def)
    then show ?thesis using 3 spec repA by (simp add: floatXAdd_def Let_def eq128_value)
  next
    case 4
    define N M where "N = u128 (fx_sig xA)" and "M = u128 (fx_sig xB)"
    have fA: "A \<noteq> 0" "fx_sign xA = (A < 0)" "2 ^ 119 \<le> N" "N < 2 ^ 120" "2 ^ t dvd N" "\<bar>A\<bar> = real N * 2 powi (fx_exp xA - 119)"
      using 4(1) A by (auto simp: exactly_def N_def)
    have fB: "B \<noteq> 0" "fx_sign xB = (B < 0)" "2 ^ 119 \<le> M" "M < 2 ^ 120" "2 ^ t dvd M" "\<bar>B\<bar> = real M * 2 powi (fx_exp xB - 119)"
      using 4(2) B by (auto simp: exactly_def M_def)
    have A': "A = (if fx_sign xA then -1 else 1) * (real N * 2 powi (fx_exp xA - 119))" using fA(2,6) by (auto simp: abs_real_def split: if_splits)
    have B': "B = (if fx_sign xB then -1 else 1) * (real M * 2 powi (fx_exp xB - 119))" using fB(2,6) by (auto simp: abs_real_def split: if_splits)
    have d2: "2 ^ 2 dvd N" "2 ^ 2 dvd M" using power_le_dvd [OF fA(5) t] power_le_dvd [OF fB(5) t] by blast+
    let ?same = "fx_sign xA \<noteq> fx_sign xB \<and> fx_exp xA = fx_exp xB \<and> eq128 (fx_sig xA) (fx_sig xB)"
    define eA eB where "eA = fx_exp xA" and "eB = fx_exp xB"
    define differ where "differ = (fx_sign xA \<noteq> fx_sign xB)"
    have zero: "A + B = 0 \<longleftrightarrow> ?same"
    proof
      assume z: "A + B = 0"
      then have "B = - A" by simp
      then have "real N * 2 powi (fx_exp xA - 119) = real M * 2 powi (fx_exp xB - 119)" using fA(6) fB(6) by simp
      then have "fx_exp xA = fx_exp xB" "N = M" using normal_unique [OF fA(3,4) fB(3,4)] by auto
      then show ?same using fA(1,2) fB(2) \<open>B = - A\<close> by (auto simp: eq128_value N_def M_def)
    next
      assume ?same
      then show "A + B = 0" unfolding A' B' eq128_value N_def M_def by auto
    qed
    show ?thesis
    proof (cases "A + B = 0")
      case True
      then have "floatXAdd xA xB s = (cc, s)" using 4 spec zero by (simp add: floatXAdd_def Let_def cc_def)
      then show ?thesis using True zero cc by simp
    next
      case False
      define small where "small = (if eA - eB < 0 then if 120 < - (eA - eB) then bits 0 1 else snd (shift_loop (- (eA - eB)) (fx_sig xA))
        else if 120 < eA - eB then bits 0 1 else snd (shift_loop (eA - eB) (fx_sig xB)))"
      define xZ where "xZ = (if eA - eB < 0 then add_sigs (fx_sign xB) differ eB (fx_sig xB) small else add_sigs (fx_sign xA) differ eA (fx_sig xA) small)"
      have ns: "\<not> ?same" using False zero by blast
      have rec: "x\<lparr>fx_exp := e, fx_sign := g, fx_sig := y\<rparr> = \<lparr>isNaN = False, isInf = False, isZero = False, fx_sign = g, fx_exp = e, fx_sig = y\<rparr>"
        if "\<not> isNaN x" "\<not> isInf x" "\<not> isZero x" for x :: floatX and e g y using that by (cases x) simp
      have lt: "eA - eB < - 120 \<longleftrightarrow> 120 < - (eA - eB)" by linarith
      have "floatXAdd xA xB s = (xZ, s)"
        unfolding floatXAdd_def Let_def if_not_P [OF ns]
        unfolding xZ_def add_sigs_def differ_def small_def eA_def [symmetric] eB_def [symmetric] lt [symmetric]
          rec [OF spec(1,2) 4(1)] rec [OF spec(3,4) 4(2)]
        using 4 spec by (cases "eA - eB < 0") simp_all
      moreover have "represents xZ (A + B)"
      proof (cases "eA - eB < 0")
        case True
        define d where "d = nat (- (eA - eB))"
        have "u128 small = jam d N" using True align_value [of "fx_sig xA" "- (eA - eB)"] fA(3,4) unfolding small_def d_def N_def by simp
        moreover have "real N * 2 powi (eA - 119) = real N / 2 ^ d * 2 powi (eB - 119)" using True shifted_powi [of eB d] by (simp add: d_def)
        ultimately have "represents (add_sigs (fx_sign xB) differ eB (fx_sig xB) small) (B + A)"
          using fA(3,4) fB(3,4) d2 False unfolding N_def M_def
          by (intro add_sigs_represents [of "fx_sig xB" N small d _ "fx_sign xB" eB _ differ])
            (auto simp: A' B' N_def M_def eA_def eB_def differ_def)
        then show ?thesis using True by (simp add: xZ_def add.commute)
      next
        case nc: False
        define d where "d = nat (eA - eB)"
        have "u128 small = jam d M" using nc align_value [of "fx_sig xB" "eA - eB"] fB(3,4) unfolding small_def d_def M_def by simp
        moreover have "real M * 2 powi (eB - 119) = real M / 2 ^ d * 2 powi (eA - 119)" using nc shifted_powi [of eA d] by (simp add: d_def)
        ultimately have "represents (add_sigs (fx_sign xA) differ eA (fx_sig xA) small) (A + B)"
          using fA(3,4) fB(3,4) d2 False unfolding N_def M_def
          by (intro add_sigs_represents [of "fx_sig xA" M small d _ "fx_sign xA" eA _ differ])
            (auto simp: A' B' N_def M_def eA_def eB_def differ_def)
        then show ?thesis using nc by (simp add: xZ_def)
      qed
      ultimately show ?thesis using False by blast
    qed
  qed
qed

end
