(* ===== verification/Slow_Functions.thy ===== *)
theory Slow_Functions
  imports Slow_Float
begin

text \<open>
  The functions of \<^verbatim>\<open>slowfloat.h\<close> for the two formats of the build: each unpacks its arguments, calls one routine of \<open>Slow_Float\<close> and packs the result.
  \<open>u\<close>, \<open>v\<close>, \<open>w\<close> are the indeterminate exponents of unpacked operands.
\<close>

section \<open>Conversions from integers\<close>

definition slow_ui32_to_f32 :: "int \<Rightarrow> uint32_t \<Rightarrow> slow_state \<Rightarrow> (float32_t \<times> slow_state) option" where
  "slow_ui32_to_f32 u a s = do { xA \<leftarrow> ui32ToFloatX u a; floatXToF32 xA s }"

definition slow_ui32_to_f64 :: "int \<Rightarrow> uint32_t \<Rightarrow> slow_state \<Rightarrow> (float64_t \<times> slow_state) option" where
  "slow_ui32_to_f64 u a s = do { xA \<leftarrow> ui32ToFloatX u a; floatXToF64 xA s }"

definition slow_ui64_to_f32 :: "int \<Rightarrow> uint64_t \<Rightarrow> slow_state \<Rightarrow> (float32_t \<times> slow_state) option" where
  "slow_ui64_to_f32 u a s = do { xA \<leftarrow> ui64ToFloatX u a; floatXToF32 xA s }"

definition slow_ui64_to_f64 :: "int \<Rightarrow> uint64_t \<Rightarrow> slow_state \<Rightarrow> (float64_t \<times> slow_state) option" where
  "slow_ui64_to_f64 u a s = do { xA \<leftarrow> ui64ToFloatX u a; floatXToF64 xA s }"

definition slow_i32_to_f32 :: "int \<Rightarrow> int32_t \<Rightarrow> slow_state \<Rightarrow> (float32_t \<times> slow_state) option" where
  "slow_i32_to_f32 u a s = do { xA \<leftarrow> i32ToFloatX u a; floatXToF32 xA s }"

definition slow_i32_to_f64 :: "int \<Rightarrow> int32_t \<Rightarrow> slow_state \<Rightarrow> (float64_t \<times> slow_state) option" where
  "slow_i32_to_f64 u a s = do { xA \<leftarrow> i32ToFloatX u a; floatXToF64 xA s }"

definition slow_i64_to_f32 :: "int \<Rightarrow> int64_t \<Rightarrow> slow_state \<Rightarrow> (float32_t \<times> slow_state) option" where
  "slow_i64_to_f32 u a s = do { xA \<leftarrow> i64ToFloatX u a; floatXToF32 xA s }"

definition slow_i64_to_f64 :: "int \<Rightarrow> int64_t \<Rightarrow> slow_state \<Rightarrow> (float64_t \<times> slow_state) option" where
  "slow_i64_to_f64 u a s = do { xA \<leftarrow> i64ToFloatX u a; floatXToF64 xA s }"

section \<open>Single precision\<close>

definition slow_f32_to_ui32 :: "int \<Rightarrow> float32_t \<Rightarrow> int8_t \<Rightarrow> bool \<Rightarrow> slow_state \<Rightarrow> (uint32_t \<times> slow_state) option" where
  "slow_f32_to_ui32 u a roundingMode exact s = do { xA \<leftarrow> f32ToFloatX u a; Some (floatXToUI32 xA roundingMode exact s) }"

definition slow_f32_to_ui64 :: "int \<Rightarrow> float32_t \<Rightarrow> int8_t \<Rightarrow> bool \<Rightarrow> slow_state \<Rightarrow> (uint64_t \<times> slow_state) option" where
  "slow_f32_to_ui64 u a roundingMode exact s = do { xA \<leftarrow> f32ToFloatX u a; Some (floatXToUI64 xA roundingMode exact s) }"

definition slow_f32_to_i32 :: "int \<Rightarrow> float32_t \<Rightarrow> int8_t \<Rightarrow> bool \<Rightarrow> slow_state \<Rightarrow> (int32_t \<times> slow_state) option" where
  "slow_f32_to_i32 u a roundingMode exact s = do { xA \<leftarrow> f32ToFloatX u a; Some (floatXToI32 xA roundingMode exact s) }"

definition slow_f32_to_i64 :: "int \<Rightarrow> float32_t \<Rightarrow> int8_t \<Rightarrow> bool \<Rightarrow> slow_state \<Rightarrow> (int64_t \<times> slow_state) option" where
  "slow_f32_to_i64 u a roundingMode exact s = do { xA \<leftarrow> f32ToFloatX u a; Some (floatXToI64 xA roundingMode exact s) }"

definition slow_f32_to_ui32_r_minMag :: "int \<Rightarrow> float32_t \<Rightarrow> bool \<Rightarrow> slow_state \<Rightarrow> (uint32_t \<times> slow_state) option" where
  "slow_f32_to_ui32_r_minMag u a exact s =
     do { xA \<leftarrow> f32ToFloatX u a; Some (floatXToUI32 xA softfloat_round_minMag exact s) }"

definition slow_f32_to_ui64_r_minMag :: "int \<Rightarrow> float32_t \<Rightarrow> bool \<Rightarrow> slow_state \<Rightarrow> (uint64_t \<times> slow_state) option" where
  "slow_f32_to_ui64_r_minMag u a exact s =
     do { xA \<leftarrow> f32ToFloatX u a; Some (floatXToUI64 xA softfloat_round_minMag exact s) }"

definition slow_f32_to_i32_r_minMag :: "int \<Rightarrow> float32_t \<Rightarrow> bool \<Rightarrow> slow_state \<Rightarrow> (int32_t \<times> slow_state) option" where
  "slow_f32_to_i32_r_minMag u a exact s =
     do { xA \<leftarrow> f32ToFloatX u a; Some (floatXToI32 xA softfloat_round_minMag exact s) }"

definition slow_f32_to_i64_r_minMag :: "int \<Rightarrow> float32_t \<Rightarrow> bool \<Rightarrow> slow_state \<Rightarrow> (int64_t \<times> slow_state) option" where
  "slow_f32_to_i64_r_minMag u a exact s =
     do { xA \<leftarrow> f32ToFloatX u a; Some (floatXToI64 xA softfloat_round_minMag exact s) }"

definition slow_f32_to_f64 :: "int \<Rightarrow> float32_t \<Rightarrow> slow_state \<Rightarrow> (float64_t \<times> slow_state) option" where
  "slow_f32_to_f64 u a s = do { xA \<leftarrow> f32ToFloatX u a; floatXToF64 xA s }"

definition slow_f32_roundToInt :: "int \<Rightarrow> float32_t \<Rightarrow> int8_t \<Rightarrow> bool \<Rightarrow> slow_state \<Rightarrow> (float32_t \<times> slow_state) option" where
  "slow_f32_roundToInt u a roundingMode exact s =
     do { xA \<leftarrow> f32ToFloatX u a; let (xZ, s) = floatXRoundToInt xA roundingMode exact s; floatXToF32 xZ s }"

definition slow_f32_add :: "int \<Rightarrow> int \<Rightarrow> float32_t \<Rightarrow> float32_t \<Rightarrow> slow_state \<Rightarrow> (float32_t \<times> slow_state) option" where
  "slow_f32_add u v a b s =
     do { xA \<leftarrow> f32ToFloatX u a; xB \<leftarrow> f32ToFloatX v b; let (xZ, s) = floatXAdd xA xB s; floatXToF32 xZ s }"

definition slow_f32_sub :: "int \<Rightarrow> int \<Rightarrow> float32_t \<Rightarrow> float32_t \<Rightarrow> slow_state \<Rightarrow> (float32_t \<times> slow_state) option" where
  "slow_f32_sub u v a b s =
     do { xA \<leftarrow> f32ToFloatX u a; xB \<leftarrow> f32ToFloatX v (b XOR 0x80000000); let (xZ, s) = floatXAdd xA xB s; floatXToF32 xZ s }"

definition slow_f32_mul :: "int \<Rightarrow> int \<Rightarrow> float32_t \<Rightarrow> float32_t \<Rightarrow> slow_state \<Rightarrow> (float32_t \<times> slow_state) option" where
  "slow_f32_mul u v a b s =
     do { xA \<leftarrow> f32ToFloatX u a; xB \<leftarrow> f32ToFloatX v b; let (xZ, s) = floatXMul xA xB s; floatXToF32 xZ s }"

definition slow_f32_mulAdd ::
  "int \<Rightarrow> int \<Rightarrow> int \<Rightarrow> float32_t \<Rightarrow> float32_t \<Rightarrow> float32_t \<Rightarrow> slow_state \<Rightarrow> (float32_t \<times> slow_state) option" where
  "slow_f32_mulAdd u v w a b c s =
     do {
       xA \<leftarrow> f32ToFloatX u a;
       xB \<leftarrow> f32ToFloatX v b;
       let (xP, s) = floatXMul xA xB s;
       xC \<leftarrow> f32ToFloatX w c;
       let (xZ, s) = floatXAdd xP xC s;
       floatXToF32 xZ s
     }"

definition slow_f32_div :: "int \<Rightarrow> int \<Rightarrow> float32_t \<Rightarrow> float32_t \<Rightarrow> slow_state \<Rightarrow> (float32_t \<times> slow_state) option" where
  "slow_f32_div u v a b s =
     do { xA \<leftarrow> f32ToFloatX u a; xB \<leftarrow> f32ToFloatX v b; let (xZ, s) = floatXDiv xA xB s; floatXToF32 xZ s }"

definition slow_f32_rem :: "int \<Rightarrow> int \<Rightarrow> float32_t \<Rightarrow> float32_t \<Rightarrow> slow_state \<Rightarrow> (float32_t \<times> slow_state) option" where
  "slow_f32_rem u v a b s =
     do { xA \<leftarrow> f32ToFloatX u a; xB \<leftarrow> f32ToFloatX v b; let (xZ, s) = floatXRem xA xB s; floatXToF32 xZ s }"

definition slow_f32_sqrt :: "int \<Rightarrow> float32_t \<Rightarrow> slow_state \<Rightarrow> (float32_t \<times> slow_state) option" where
  "slow_f32_sqrt u a s = do { xA \<leftarrow> f32ToFloatX u a; let (xZ, s) = floatXSqrt xA s; floatXToF32 xZ s }"

definition slow_f32_eq :: "int \<Rightarrow> int \<Rightarrow> float32_t \<Rightarrow> float32_t \<Rightarrow> slow_state \<Rightarrow> (bool \<times> slow_state) option" where
  "slow_f32_eq u v a b s = do { xA \<leftarrow> f32ToFloatX u a; xB \<leftarrow> f32ToFloatX v b; Some (floatXEq xA xB, s) }"

definition slow_f32_le :: "int \<Rightarrow> int \<Rightarrow> float32_t \<Rightarrow> float32_t \<Rightarrow> slow_state \<Rightarrow> (bool \<times> slow_state) option" where
  "slow_f32_le u v a b s =
     do {
       xA \<leftarrow> f32ToFloatX u a;
       xB \<leftarrow> f32ToFloatX v b;
       let s = (if isNaN xA \<or> isNaN xB then orFlags softfloat_flag_invalid s else s);
       Some (floatXLE xA xB, s)
     }"

definition slow_f32_lt :: "int \<Rightarrow> int \<Rightarrow> float32_t \<Rightarrow> float32_t \<Rightarrow> slow_state \<Rightarrow> (bool \<times> slow_state) option" where
  "slow_f32_lt u v a b s =
     do {
       xA \<leftarrow> f32ToFloatX u a;
       xB \<leftarrow> f32ToFloatX v b;
       let s = (if isNaN xA \<or> isNaN xB then orFlags softfloat_flag_invalid s else s);
       Some (floatXLT xA xB, s)
     }"

definition slow_f32_eq_signaling :: "int \<Rightarrow> int \<Rightarrow> float32_t \<Rightarrow> float32_t \<Rightarrow> slow_state \<Rightarrow> (bool \<times> slow_state) option" where
  "slow_f32_eq_signaling u v a b s =
     do {
       xA \<leftarrow> f32ToFloatX u a;
       xB \<leftarrow> f32ToFloatX v b;
       let s = (if isNaN xA \<or> isNaN xB then orFlags softfloat_flag_invalid s else s);
       Some (floatXEq xA xB, s)
     }"

definition slow_f32_le_quiet :: "int \<Rightarrow> int \<Rightarrow> float32_t \<Rightarrow> float32_t \<Rightarrow> slow_state \<Rightarrow> (bool \<times> slow_state) option" where
  "slow_f32_le_quiet u v a b s = do { xA \<leftarrow> f32ToFloatX u a; xB \<leftarrow> f32ToFloatX v b; Some (floatXLE xA xB, s) }"

definition slow_f32_lt_quiet :: "int \<Rightarrow> int \<Rightarrow> float32_t \<Rightarrow> float32_t \<Rightarrow> slow_state \<Rightarrow> (bool \<times> slow_state) option" where
  "slow_f32_lt_quiet u v a b s = do { xA \<leftarrow> f32ToFloatX u a; xB \<leftarrow> f32ToFloatX v b; Some (floatXLT xA xB, s) }"

section \<open>Double precision\<close>

definition slow_f64_to_ui32 :: "int \<Rightarrow> float64_t \<Rightarrow> int8_t \<Rightarrow> bool \<Rightarrow> slow_state \<Rightarrow> (uint32_t \<times> slow_state) option" where
  "slow_f64_to_ui32 u a roundingMode exact s = do { xA \<leftarrow> f64ToFloatX u a; Some (floatXToUI32 xA roundingMode exact s) }"

definition slow_f64_to_ui64 :: "int \<Rightarrow> float64_t \<Rightarrow> int8_t \<Rightarrow> bool \<Rightarrow> slow_state \<Rightarrow> (uint64_t \<times> slow_state) option" where
  "slow_f64_to_ui64 u a roundingMode exact s = do { xA \<leftarrow> f64ToFloatX u a; Some (floatXToUI64 xA roundingMode exact s) }"

definition slow_f64_to_i32 :: "int \<Rightarrow> float64_t \<Rightarrow> int8_t \<Rightarrow> bool \<Rightarrow> slow_state \<Rightarrow> (int32_t \<times> slow_state) option" where
  "slow_f64_to_i32 u a roundingMode exact s = do { xA \<leftarrow> f64ToFloatX u a; Some (floatXToI32 xA roundingMode exact s) }"

definition slow_f64_to_i64 :: "int \<Rightarrow> float64_t \<Rightarrow> int8_t \<Rightarrow> bool \<Rightarrow> slow_state \<Rightarrow> (int64_t \<times> slow_state) option" where
  "slow_f64_to_i64 u a roundingMode exact s = do { xA \<leftarrow> f64ToFloatX u a; Some (floatXToI64 xA roundingMode exact s) }"

definition slow_f64_to_ui32_r_minMag :: "int \<Rightarrow> float64_t \<Rightarrow> bool \<Rightarrow> slow_state \<Rightarrow> (uint32_t \<times> slow_state) option" where
  "slow_f64_to_ui32_r_minMag u a exact s =
     do { xA \<leftarrow> f64ToFloatX u a; Some (floatXToUI32 xA softfloat_round_minMag exact s) }"

definition slow_f64_to_ui64_r_minMag :: "int \<Rightarrow> float64_t \<Rightarrow> bool \<Rightarrow> slow_state \<Rightarrow> (uint64_t \<times> slow_state) option" where
  "slow_f64_to_ui64_r_minMag u a exact s =
     do { xA \<leftarrow> f64ToFloatX u a; Some (floatXToUI64 xA softfloat_round_minMag exact s) }"

definition slow_f64_to_i32_r_minMag :: "int \<Rightarrow> float64_t \<Rightarrow> bool \<Rightarrow> slow_state \<Rightarrow> (int32_t \<times> slow_state) option" where
  "slow_f64_to_i32_r_minMag u a exact s =
     do { xA \<leftarrow> f64ToFloatX u a; Some (floatXToI32 xA softfloat_round_minMag exact s) }"

definition slow_f64_to_i64_r_minMag :: "int \<Rightarrow> float64_t \<Rightarrow> bool \<Rightarrow> slow_state \<Rightarrow> (int64_t \<times> slow_state) option" where
  "slow_f64_to_i64_r_minMag u a exact s =
     do { xA \<leftarrow> f64ToFloatX u a; Some (floatXToI64 xA softfloat_round_minMag exact s) }"

definition slow_f64_to_f32 :: "int \<Rightarrow> float64_t \<Rightarrow> slow_state \<Rightarrow> (float32_t \<times> slow_state) option" where
  "slow_f64_to_f32 u a s = do { xA \<leftarrow> f64ToFloatX u a; floatXToF32 xA s }"

definition slow_f64_roundToInt :: "int \<Rightarrow> float64_t \<Rightarrow> int8_t \<Rightarrow> bool \<Rightarrow> slow_state \<Rightarrow> (float64_t \<times> slow_state) option" where
  "slow_f64_roundToInt u a roundingMode exact s =
     do { xA \<leftarrow> f64ToFloatX u a; let (xZ, s) = floatXRoundToInt xA roundingMode exact s; floatXToF64 xZ s }"

definition slow_f64_add :: "int \<Rightarrow> int \<Rightarrow> float64_t \<Rightarrow> float64_t \<Rightarrow> slow_state \<Rightarrow> (float64_t \<times> slow_state) option" where
  "slow_f64_add u v a b s =
     do { xA \<leftarrow> f64ToFloatX u a; xB \<leftarrow> f64ToFloatX v b; let (xZ, s) = floatXAdd xA xB s; floatXToF64 xZ s }"

definition slow_f64_sub :: "int \<Rightarrow> int \<Rightarrow> float64_t \<Rightarrow> float64_t \<Rightarrow> slow_state \<Rightarrow> (float64_t \<times> slow_state) option" where
  "slow_f64_sub u v a b s =
     do { xA \<leftarrow> f64ToFloatX u a; xB \<leftarrow> f64ToFloatX v (b XOR 0x8000000000000000); let (xZ, s) = floatXAdd xA xB s; floatXToF64 xZ s }"

definition slow_f64_mul :: "int \<Rightarrow> int \<Rightarrow> float64_t \<Rightarrow> float64_t \<Rightarrow> slow_state \<Rightarrow> (float64_t \<times> slow_state) option" where
  "slow_f64_mul u v a b s =
     do { xA \<leftarrow> f64ToFloatX u a; xB \<leftarrow> f64ToFloatX v b; let (xZ, s) = floatXMul xA xB s; floatXToF64 xZ s }"

definition slow_f64_mulAdd ::
  "int \<Rightarrow> int \<Rightarrow> int \<Rightarrow> float64_t \<Rightarrow> float64_t \<Rightarrow> float64_t \<Rightarrow> slow_state \<Rightarrow> (float64_t \<times> slow_state) option" where
  "slow_f64_mulAdd u v w a b c s =
     do {
       xA \<leftarrow> f64ToFloatX u a;
       xB \<leftarrow> f64ToFloatX v b;
       let (xP, s) = floatXMul xA xB s;
       xC \<leftarrow> f64ToFloatX w c;
       let (xZ, s) = floatXAdd xP xC s;
       floatXToF64 xZ s
     }"

definition slow_f64_div :: "int \<Rightarrow> int \<Rightarrow> float64_t \<Rightarrow> float64_t \<Rightarrow> slow_state \<Rightarrow> (float64_t \<times> slow_state) option" where
  "slow_f64_div u v a b s =
     do { xA \<leftarrow> f64ToFloatX u a; xB \<leftarrow> f64ToFloatX v b; let (xZ, s) = floatXDiv xA xB s; floatXToF64 xZ s }"

definition slow_f64_rem :: "int \<Rightarrow> int \<Rightarrow> float64_t \<Rightarrow> float64_t \<Rightarrow> slow_state \<Rightarrow> (float64_t \<times> slow_state) option" where
  "slow_f64_rem u v a b s =
     do { xA \<leftarrow> f64ToFloatX u a; xB \<leftarrow> f64ToFloatX v b; let (xZ, s) = floatXRem xA xB s; floatXToF64 xZ s }"

definition slow_f64_sqrt :: "int \<Rightarrow> float64_t \<Rightarrow> slow_state \<Rightarrow> (float64_t \<times> slow_state) option" where
  "slow_f64_sqrt u a s = do { xA \<leftarrow> f64ToFloatX u a; let (xZ, s) = floatXSqrt xA s; floatXToF64 xZ s }"

definition slow_f64_eq :: "int \<Rightarrow> int \<Rightarrow> float64_t \<Rightarrow> float64_t \<Rightarrow> slow_state \<Rightarrow> (bool \<times> slow_state) option" where
  "slow_f64_eq u v a b s = do { xA \<leftarrow> f64ToFloatX u a; xB \<leftarrow> f64ToFloatX v b; Some (floatXEq xA xB, s) }"

definition slow_f64_le :: "int \<Rightarrow> int \<Rightarrow> float64_t \<Rightarrow> float64_t \<Rightarrow> slow_state \<Rightarrow> (bool \<times> slow_state) option" where
  "slow_f64_le u v a b s =
     do {
       xA \<leftarrow> f64ToFloatX u a;
       xB \<leftarrow> f64ToFloatX v b;
       let s = (if isNaN xA \<or> isNaN xB then orFlags softfloat_flag_invalid s else s);
       Some (floatXLE xA xB, s)
     }"

definition slow_f64_lt :: "int \<Rightarrow> int \<Rightarrow> float64_t \<Rightarrow> float64_t \<Rightarrow> slow_state \<Rightarrow> (bool \<times> slow_state) option" where
  "slow_f64_lt u v a b s =
     do {
       xA \<leftarrow> f64ToFloatX u a;
       xB \<leftarrow> f64ToFloatX v b;
       let s = (if isNaN xA \<or> isNaN xB then orFlags softfloat_flag_invalid s else s);
       Some (floatXLT xA xB, s)
     }"

definition slow_f64_eq_signaling :: "int \<Rightarrow> int \<Rightarrow> float64_t \<Rightarrow> float64_t \<Rightarrow> slow_state \<Rightarrow> (bool \<times> slow_state) option" where
  "slow_f64_eq_signaling u v a b s =
     do {
       xA \<leftarrow> f64ToFloatX u a;
       xB \<leftarrow> f64ToFloatX v b;
       let s = (if isNaN xA \<or> isNaN xB then orFlags softfloat_flag_invalid s else s);
       Some (floatXEq xA xB, s)
     }"

definition slow_f64_le_quiet :: "int \<Rightarrow> int \<Rightarrow> float64_t \<Rightarrow> float64_t \<Rightarrow> slow_state \<Rightarrow> (bool \<times> slow_state) option" where
  "slow_f64_le_quiet u v a b s = do { xA \<leftarrow> f64ToFloatX u a; xB \<leftarrow> f64ToFloatX v b; Some (floatXLE xA xB, s) }"

definition slow_f64_lt_quiet :: "int \<Rightarrow> int \<Rightarrow> float64_t \<Rightarrow> float64_t \<Rightarrow> slow_state \<Rightarrow> (bool \<times> slow_state) option" where
  "slow_f64_lt_quiet u v a b s = do { xA \<leftarrow> f64ToFloatX u a; xB \<leftarrow> f64ToFloatX v b; Some (floatXLT xA xB, s) }"

end
