(* ===== verification/Slow_Agree.thy ===== *)
theory Slow_Agree
  imports Slow_Arith Slow_Functions Float_MulAdd_Correct Float_Convert Int_To_Float
begin

text \<open>
  SoftFloat and the reference arithmetic agree: on finite operands the two compute the same bit pattern and leave the same flags, in every rounding mode and
  under both ways of detecting tininess. Both round the same real number correctly, and correct rounding leaves one result. What the reference functions share
  is the interface \<open>slow_number\<close>, interpreted on the conversions of both formats.
\<close>

section \<open>Correct rounding has one result\<close>

lemma round_result_unique:
  assumes "round_result f E mode det sign x z fl" and "round_result f E mode det sign x z' fl'"
  shows "z = z'" and "fl = fl'"
  using assms rounds_unique [OF mval_real_mono] unfolding round_result_def by metis+

lemma op_rounds_unique:
  fixes res res' :: "'a::len word \<times> fp_state"
  assumes "op_rounds f E zs r s res" and "op_rounds f E zs' r s res'" and "r = 0 \<Longrightarrow> zs = zs'"
  shows "res = res'"
proof -
  obtain z t z' t' where res: "res = (z, t)" "res' = (z', t')" by fastforce
  from assms(1,2) obtain fl fl' where t: "t = softfloat_raiseFlags fl s" "t' = softfloat_raiseFlags fl' s"
    and R: "fl_rounded f E (softfloat_roundingMode s) (softfloat_detectTininess s) zs r z fl"
      "fl_rounded f E (softfloat_roundingMode s) (softfloat_detectTininess s) zs' r z' fl'"
    by (auto simp: op_rounds_def res)
  have sg: "fl_sign z = fl_sign z'" using R assms(3) by (cases "r = 0") (simp_all add: fl_rounded_def)
  have "fl_mag z = fl_mag z'" "fl = fl'"
    using R round_result_unique [where z = "fl_mag z" and z' = "fl_mag z'"] unfolding fl_rounded_def sg [symmetric] by blast+
  then show ?thesis using sg by (simp add: res t fl_word_eqI)
qed

section \<open>The functions of a format\<close>

locale slow_number =
  fixes f E U :: nat
    and unpack :: "int \<Rightarrow> 'a::len word \<Rightarrow> floatX option"
    and pack :: "floatX \<Rightarrow> slow_state \<Rightarrow> ('a word \<times> slow_state) option"
  assumes unpack_law: "fl_mag a < E * 2 ^ f \<Longrightarrow>
      \<exists>x. unpack u a = Some x \<and> exactly 67 x (fl_real f a / 2 ^ U) \<and> fx_sign x = fl_sign a \<and> (isZero x \<longleftrightarrow> fl_mag a = 0)"
    and pack_law: "valid_mode (softfloat_roundingMode s) \<Longrightarrow> represents x R \<Longrightarrow>
      \<exists>res. pack x s = Some res \<and> op_rounds f E (fx_sign x) (R * 2 ^ U) s res"
begin

lemma unpackE:
  assumes "fl_mag a < E * 2 ^ f"
  obtains x where "unpack u a = Some x" "exactly 67 x (fl_real f a / 2 ^ U)" "fx_sign x = fl_sign a" "isZero x \<longleftrightarrow> fl_mag a = 0"
  using unpack_law [OF assms] by blast

lemma pack_agrees:
  assumes "valid_mode (softfloat_roundingMode s)" and "represents x R" and "op_rounds f E zs r s res" and "r = R * 2 ^ U" and "r = 0 \<Longrightarrow> zs = fx_sign x"
  shows "pack x s = Some res"
  using pack_law [OF assms(1,2)] op_rounds_unique [of f E zs r s res] assms(3-5) by metis

lemma add_agrees:
  assumes v: "valid_mode (softfloat_roundingMode s)" and fin: "fl_mag a < E * 2 ^ f" "fl_mag b < E * 2 ^ f"
    and res: "op_rounds f E (if fl_sign a = fl_sign b then fl_sign a else softfloat_roundingMode s = softfloat_round_min) (fl_real f a + fl_real f b) s res"
  shows "do { xA \<leftarrow> unpack u a; xB \<leftarrow> unpack v b; let (xZ, s) = floatXAdd xA xB s; pack xZ s } = Some res"
proof -
  obtain xA where A: "unpack u a = Some xA" "exactly 67 xA (fl_real f a / 2 ^ U)" "fx_sign xA = fl_sign a" using unpackE [OF fin(1)] .
  obtain xB where B: "unpack v b = Some xB" "exactly 67 xB (fl_real f b / 2 ^ U)" "fx_sign xB = fl_sign b" using unpackE [OF fin(2)] .
  obtain xZ where Z: "floatXAdd xA xB s = (xZ, s)" "represents xZ (fl_real f a / 2 ^ U + fl_real f b / 2 ^ U)"
    "fl_real f a / 2 ^ U + fl_real f b / 2 ^ U = 0 \<longrightarrow>
      fx_sign xZ = (if fx_sign xA = fx_sign xB then fx_sign xA else softfloat_roundingMode s = softfloat_round_min)"
    using floatXAdd_represents [OF A(2) B(2), of s] by auto
  have r: "fl_real f a + fl_real f b = (fl_real f a / 2 ^ U + fl_real f b / 2 ^ U) * 2 ^ U" by (simp add: field_simps)
  have "pack xZ s = Some res" by (rule pack_agrees [OF v Z(2) res r]) (use Z(3) A(3) B(3) in \<open>simp add: r\<close>)
  then show ?thesis by (simp add: A(1) B(1) Z(1))
qed

lemma mul_agrees:
  assumes v: "valid_mode (softfloat_roundingMode s)" and fin: "fl_mag a < E * 2 ^ f" "fl_mag b < E * 2 ^ f"
    and res: "op_rounds f E (fl_sign a \<noteq> fl_sign b) (fl_real f a * fl_real f b / 2 ^ U) s res"
  shows "do { xA \<leftarrow> unpack u a; xB \<leftarrow> unpack v b; let (xZ, s) = floatXMul xA xB s; pack xZ s } = Some res"
proof -
  obtain xA where A: "unpack u a = Some xA" "exactly 67 xA (fl_real f a / 2 ^ U)" "fx_sign xA = fl_sign a" using unpackE [OF fin(1)] .
  obtain xB where B: "unpack v b = Some xB" "exactly 67 xB (fl_real f b / 2 ^ U)" "fx_sign xB = fl_sign b" using unpackE [OF fin(2)] .
  obtain xZ where Z: "floatXMul xA xB s = (xZ, s)" "exactly 14 xZ (fl_real f a / 2 ^ U * (fl_real f b / 2 ^ U))"
    "fx_sign xZ = (fx_sign xA \<noteq> fx_sign xB)" using floatXMul_exact [OF A(2) B(2), of s] by auto
  have "pack xZ s = Some res"
    by (rule pack_agrees [OF v exactly_represents [OF Z(2)] res]) (use Z(3) A(3) B(3) in simp_all)
  then show ?thesis by (simp add: A(1) B(1) Z(1))
qed

lemma div_agrees:
  assumes v: "valid_mode (softfloat_roundingMode s)" and fin: "fl_mag a < E * 2 ^ f" "fl_mag b < E * 2 ^ f" and nz: "fl_mag b \<noteq> 0"
    and res: "op_rounds f E (fl_sign a \<noteq> fl_sign b) (fl_real f a / fl_real f b * 2 ^ U) s res"
  shows "do { xA \<leftarrow> unpack u a; xB \<leftarrow> unpack v b; let (xZ, s) = floatXDiv xA xB s; pack xZ s } = Some res"
proof -
  obtain xA where A: "unpack u a = Some xA" "exactly 67 xA (fl_real f a / 2 ^ U)" "fx_sign xA = fl_sign a" using unpackE [OF fin(1)] .
  obtain xB where B: "unpack v b = Some xB" "exactly 67 xB (fl_real f b / 2 ^ U)" "fx_sign xB = fl_sign b" "isZero xB \<longleftrightarrow> fl_mag b = 0"
    using unpackE [OF fin(2)] .
  obtain xZ where Z: "floatXDiv xA xB s = (xZ, s)" "represents xZ (fl_real f a / 2 ^ U / (fl_real f b / 2 ^ U))"
    "fx_sign xZ = (fx_sign xA \<noteq> fx_sign xB)" using floatXDiv_represents [OF A(2) B(2), of s] B(4) nz by auto
  have "pack xZ s = Some res" by (rule pack_agrees [OF v Z(2) res]) (use Z(3) A(3) B(3) in simp_all)
  then show ?thesis by (simp add: A(1) B(1) Z(1))
qed

lemma sqrt_agrees:
  assumes v: "valid_mode (softfloat_roundingMode s)" and fin: "fl_mag a < E * 2 ^ f" and nn: "fl_sign a \<longrightarrow> fl_mag a = 0"
    and res: "op_rounds f E (fl_sign a) (sqrt (fl_real f a * 2 ^ U)) s res"
  shows "do { xA \<leftarrow> unpack u a; let (xZ, s) = floatXSqrt xA s; pack xZ s } = Some res"
proof -
  obtain xA where A: "unpack u a = Some xA" "exactly 67 xA (fl_real f a / 2 ^ U)" "fx_sign xA = fl_sign a" using unpackE [OF fin] .
  have "0 \<le> fl_real f a / 2 ^ U" using nn by (simp add: fl_real_def)
  then obtain xZ where Z: "floatXSqrt xA s = (xZ, s)" "represents xZ (sqrt (fl_real f a / 2 ^ U))" "fx_sign xZ = fx_sign xA"
    using floatXSqrt_represents [OF A(2), of s] by auto
  have "sqrt (fl_real f a * 2 ^ U) = sqrt (fl_real f a / 2 ^ U * (2 ^ U * 2 ^ U))" by simp
  also have "\<dots> = sqrt (fl_real f a / 2 ^ U) * 2 ^ U" unfolding real_sqrt_mult by simp
  finally have r: "sqrt (fl_real f a * 2 ^ U) = sqrt (fl_real f a / 2 ^ U) * 2 ^ U" .
  have "pack xZ s = Some res" by (rule pack_agrees [OF v Z(2) res r]) (use Z(3) A(3) in simp)
  then show ?thesis by (simp add: A(1) Z(1))
qed

lemma mulAdd_agrees:
  assumes v: "valid_mode (softfloat_roundingMode s)" and fin: "fl_mag a < E * 2 ^ f" "fl_mag b < E * 2 ^ f" "fl_mag c < E * 2 ^ f"
    and res: "op_rounds f E (if (fl_sign a \<noteq> fl_sign b) = fl_sign c then fl_sign c else softfloat_roundingMode s = softfloat_round_min)
      (fl_real f a * fl_real f b / 2 ^ U + fl_real f c) s res"
  shows "do { xA \<leftarrow> unpack u a; xB \<leftarrow> unpack v b; let (xP, s) = floatXMul xA xB s; xC \<leftarrow> unpack w c; let (xZ, s) = floatXAdd xP xC s; pack xZ s } = Some res"
proof -
  obtain xA where A: "unpack u a = Some xA" "exactly 67 xA (fl_real f a / 2 ^ U)" "fx_sign xA = fl_sign a" using unpackE [OF fin(1)] .
  obtain xB where B: "unpack v b = Some xB" "exactly 67 xB (fl_real f b / 2 ^ U)" "fx_sign xB = fl_sign b" using unpackE [OF fin(2)] .
  obtain xC where C: "unpack w c = Some xC" "exactly 67 xC (fl_real f c / 2 ^ U)" "fx_sign xC = fl_sign c" using unpackE [OF fin(3)] .
  define P where "P = fl_real f a / 2 ^ U * (fl_real f b / 2 ^ U)"
  obtain xP where P: "floatXMul xA xB s = (xP, s)" "exactly 14 xP P" "fx_sign xP = (fx_sign xA \<noteq> fx_sign xB)"
    using floatXMul_exact [OF A(2) B(2), of s] unfolding P_def by auto
  have C14: "exactly 14 xC (fl_real f c / 2 ^ U)" by (rule exactly_mono [OF C(2)]) simp
  obtain xZ where Z: "floatXAdd xP xC s = (xZ, s)" "represents xZ (P + fl_real f c / 2 ^ U)"
    "P + fl_real f c / 2 ^ U = 0 \<longrightarrow> fx_sign xZ = (if fx_sign xP = fx_sign xC then fx_sign xP else softfloat_roundingMode s = softfloat_round_min)"
    using floatXAdd_represents [OF P(2) C14, of s] by auto
  have r: "fl_real f a * fl_real f b / 2 ^ U + fl_real f c = (P + fl_real f c / 2 ^ U) * 2 ^ U" by (simp add: P_def field_simps)
  have "pack xZ s = Some res" by (rule pack_agrees [OF v Z(2) res r]) (use Z(3) P(3) A(3) B(3) C(3) in \<open>simp add: r\<close>)
  then show ?thesis by (simp add: A(1) B(1) C(1) P(1) Z(1))
qed

end

interpretation sn32: slow_number 23 255 149 f32ToFloatX floatXToF32
  by unfold_locales (use f32ToFloatX_finite floatXToF32_rounds in simp_all)

interpretation sn64: slow_number 52 2047 1074 f64ToFloatX floatXToF64
  by unfold_locales (use f64ToFloatX_finite floatXToF64_rounds in simp_all)

section \<open>Agreement\<close>

lemma flip_sign:
  fixes b m :: "'a::len word"
  assumes m: "m = 2 ^ (LENGTH('a) - 1)"
  shows "fl_sign (b XOR m) = (\<not> fl_sign b)" and "fl_mag (b XOR m) = fl_mag b" and "fl_real f (b XOR m) = - fl_real f b"
proof -
  let ?n = "LENGTH('a) - 1"
  show s: "fl_sign (b XOR m) = (\<not> fl_sign b)"
    unfolding and_top_bit [symmetric] m and_exp_eq_0_iff_not_bit by (simp add: bit_xor_iff bit_exp_iff)
  have "take_bit ?n (2 ^ ?n :: 'a word) = 0" by (rule bit_word_eqI) (simp add: bit_take_bit_iff bit_exp_iff)
  then have "unat (b XOR m) mod 2 ^ ?n = unat b mod 2 ^ ?n"
    unfolding unat_take_bit_mod [symmetric] by (simp add: take_bit_xor m)
  then show g: "fl_mag (b XOR m) = fl_mag b" by (simp add: fl_mag_def)
  show "fl_real f (b XOR m) = - fl_real f b" by (simp add: fl_real_def s g)
qed

text \<open>
  Property C7: on finite operands and in every rounding mode, the reference addition, subtraction and multiplication deliver in both formats the bit pattern
  and the exception flags that SoftFloat delivers.
\<close>

theorem slow_ring_agrees:
  assumes v: "valid_mode (softfloat_roundingMode s)" and fin: "fl_mag a < 255 * 2 ^ 23" "fl_mag b < 255 * 2 ^ 23"
    and fin': "fl_mag c < 2047 * 2 ^ 52" "fl_mag d < 2047 * 2 ^ 52"
  shows "slow_f32_add u v a b s = Some (f32_add a b s) \<and> slow_f32_sub u v a b s = Some (f32_sub a b s) \<and>
    slow_f32_mul u v a b s = Some (f32_mul a b s) \<and>
    slow_f64_add u v c d s = Some (f64_add c d s) \<and> slow_f64_sub u v c d s = Some (f64_sub c d s) \<and>
    slow_f64_mul u v c d s = Some (f64_mul c d s)"
proof (intro conjI)
  note flip32 = flip_sign [where b = b and m = "0x80000000", simplified] and flip64 = flip_sign [where b = d and m = "0x8000000000000000", simplified]
  show "slow_f32_add u v a b s = Some (f32_add a b s)"
    unfolding slow_f32_add_def by (rule sn32.add_agrees [OF v fin f32_add_correct [OF fin]])
  show "slow_f64_add u v c d s = Some (f64_add c d s)"
    unfolding slow_f64_add_def by (rule sn64.add_agrees [OF v fin' f64_add_correct [OF fin']])
  show "slow_f32_sub u v a b s = Some (f32_sub a b s)"
    unfolding slow_f32_sub_def by (rule sn32.add_agrees [OF v fin(1)]) (use fin f32_sub_correct [OF fin, of s] in \<open>auto simp: flip32\<close>)
  show "slow_f64_sub u v c d s = Some (f64_sub c d s)"
    unfolding slow_f64_sub_def by (rule sn64.add_agrees [OF v fin'(1)]) (use fin' f64_sub_correct [OF fin', of s] in \<open>auto simp: flip64\<close>)
  show "slow_f32_mul u v a b s = Some (f32_mul a b s)"
    unfolding slow_f32_mul_def by (rule sn32.mul_agrees [OF v fin f32_mul_correct [OF fin]])
  show "slow_f64_mul u v c d s = Some (f64_mul c d s)"
    unfolding slow_f64_mul_def by (rule sn64.mul_agrees [OF v fin' f64_mul_correct [OF fin']])
qed

theorem slow_ring_agrees_witness:
  "slow_f32_mul 0 0 0x3F800001 0x3F800001 init_state = Some (f32_mul 0x3F800001 0x3F800001 init_state) \<and>
   f32_mul 0x3F800001 0x3F800001 init_state = (0x3F800002, softfloat_raiseFlags softfloat_flag_inexact init_state) \<and>
   slow_f64_sub 0 0 0x3FF0000000000000 0x3CA0000000000000 init_state = Some (f64_sub 0x3FF0000000000000 0x3CA0000000000000 init_state)"
proof -
  have v: "valid_mode (softfloat_roundingMode init_state)" by code_simp
  have "f32_mul 0x3F800001 0x3F800001 init_state = (0x3F800002, softfloat_raiseFlags softfloat_flag_inexact init_state)" by code_simp
  then show ?thesis
    using slow_ring_agrees [OF v, of "0x3F800001" "0x3F800001" "0x3FF0000000000000" "0x3CA0000000000000" 0 0] by (simp add: fl_mag_def)
qed

text \<open>
  Property C8: the reference division, square root and fused multiply-add agree with SoftFloat in the same way: division for every finite dividend and every
  finite divisor other than zero, the square root for every finite operand that is not negative (and for negative zero), the fused multiply-add for all finite
  operands. The routines of SoftFloat with loops return.
\<close>

theorem slow_div_sqrt_fma_agrees:
  assumes v: "valid_mode (softfloat_roundingMode s)"
    and quot: "fl_mag a < 255 * 2 ^ 23" "fl_mag b < 255 * 2 ^ 23" "fl_mag b \<noteq> 0" "fl_mag a' < 2047 * 2 ^ 52" "fl_mag b' < 2047 * 2 ^ 52" "fl_mag b' \<noteq> 0"
    and root: "fl_mag c < 255 * 2 ^ 23" "fl_sign c \<longrightarrow> fl_mag c = 0" "fl_mag c' < 2047 * 2 ^ 52" "fl_sign c' \<longrightarrow> fl_mag c' = 0"
    and fma: "fl_mag x < 255 * 2 ^ 23" "fl_mag y < 255 * 2 ^ 23" "fl_mag z < 255 * 2 ^ 23"
    and fma': "fl_mag x' < 2047 * 2 ^ 52" "fl_mag y' < 2047 * 2 ^ 52" "fl_mag z' < 2047 * 2 ^ 52"
  shows "slow_f32_div u v a b s = Some (f32_div a b s) \<and> (\<exists>res. slow_f64_div u v a' b' s = Some res \<and> f64_div a' b' s = Some res) \<and>
    (\<exists>res. slow_f32_sqrt u c s = Some res \<and> f32_sqrt c s = Some res) \<and> (\<exists>res. slow_f64_sqrt u c' s = Some res \<and> f64_sqrt c' s = Some res) \<and>
    slow_f32_mulAdd u v w x y z s = Some (f32_mulAdd x y z s) \<and> slow_f64_mulAdd u v w x' y' z' s = Some (f64_mulAdd x' y' z' s)"
proof (intro conjI)
  show "slow_f32_div u v a b s = Some (f32_div a b s)"
    unfolding slow_f32_div_def by (rule sn32.div_agrees [OF v quot(1-3) f32_div_correct [OF quot(1-3)]])
  show "\<exists>res. slow_f64_div u v a' b' s = Some res \<and> f64_div a' b' s = Some res"
    using f64_div_correct [OF quot(4-6), of s] sn64.div_agrees [OF v quot(4-6)] unfolding slow_f64_div_def by blast
  show "\<exists>res. slow_f32_sqrt u c s = Some res \<and> f32_sqrt c s = Some res"
    using f32_sqrt_correct [OF root(1,2), of s] sn32.sqrt_agrees [OF v root(1,2)] unfolding slow_f32_sqrt_def by blast
  show "\<exists>res. slow_f64_sqrt u c' s = Some res \<and> f64_sqrt c' s = Some res"
    using f64_sqrt_correct [OF root(3,4), of s] sn64.sqrt_agrees [OF v root(3,4)] unfolding slow_f64_sqrt_def by blast
  show "slow_f32_mulAdd u v w x y z s = Some (f32_mulAdd x y z s)"
    unfolding slow_f32_mulAdd_def by (rule sn32.mulAdd_agrees [OF v fma f32_mulAdd_correct [OF fma refl]])
  show "slow_f64_mulAdd u v w x' y' z' s = Some (f64_mulAdd x' y' z' s)"
    unfolding slow_f64_mulAdd_def by (rule sn64.mulAdd_agrees [OF v fma' f64_mulAdd_correct [OF fma' refl]])
qed

theorem slow_div_sqrt_fma_agrees_witness:
  "slow_f32_div 0 0 0xC0000000 0x40400000 init_state = Some (f32_div 0xC0000000 0x40400000 init_state) \<and>
   f32_div 0xC0000000 0x40400000 init_state = (0xBF2AAAAB, softfloat_raiseFlags softfloat_flag_inexact init_state) \<and>
   (\<exists>res. slow_f64_div 0 0 0xC000000000000000 0x4008000000000000 init_state = Some res \<and> f64_div 0xC000000000000000 0x4008000000000000 init_state = Some res) \<and>
   (\<exists>res. slow_f64_sqrt 0 0x4000000000000000 init_state = Some res \<and> f64_sqrt 0x4000000000000000 init_state = Some res) \<and>
   slow_f32_mulAdd 0 0 0 0xC0000000 0x40400000 0x40A00000 init_state = Some (0xBF800000, init_state)"
proof -
  have v: "valid_mode (softfloat_roundingMode init_state)" by code_simp
  have "f32_div 0xC0000000 0x40400000 init_state = (0xBF2AAAAB, softfloat_raiseFlags softfloat_flag_inexact init_state)" by code_simp
  moreover have "f32_mulAdd 0xC0000000 0x40400000 0x40A00000 init_state = (0xBF800000, init_state)" by code_simp
  ultimately show ?thesis
    using slow_div_sqrt_fma_agrees [OF v, of "0xC0000000" "0x40400000" "0xC000000000000000" "0x4008000000000000" "0x40000000" "0x4000000000000000"
        "0xC0000000" "0x40400000" "0x40A00000" "0xC000000000000000" 0 "0x4014000000000000" 0 0 0]
    by (simp add: fl_mag_def fl_sign_def)
qed

end
