(* ===== verification/Slow_Compare.thy ===== *)
theory Slow_Compare
  imports Slow_Agree Float_Compare Float_Convert Int_To_Float
begin

text \<open>
  The reference comparisons and conversions agree with SoftFloat. A comparison of two numbers that are no NaN is decided by the real numbers they denote, an
  infinity lying beyond every finite number of the format.
\<close>

section \<open>Comparisons\<close>

text \<open>A \<^verbatim>\<open>struct floatX\<close> in the order of real numbers of a format whose infinity has the place \<open>M\<close>.\<close>

definition ordered :: "real \<Rightarrow> floatX \<Rightarrow> real \<Rightarrow> bool" where
  "ordered M x R \<longleftrightarrow> \<not> isNaN x \<and>
     (if isInf x then \<not> isZero x \<and> R \<noteq> 0 \<and> fx_sign x = (R < 0) \<and> \<bar>R\<bar> = M else exactly 67 x R \<and> \<bar>R\<bar> < M)"

lemma magnitude_order:
  assumes A: "exactly 67 xA A" "\<not> isZero xA" and B: "exactly 67 xB B" "\<not> isZero xB"
  shows "\<bar>A\<bar> < \<bar>B\<bar> \<longleftrightarrow> fx_exp xA < fx_exp xB \<or> fx_exp xA = fx_exp xB \<and> u128 (fx_sig xA) < u128 (fx_sig xB)"
    and "\<bar>A\<bar> = \<bar>B\<bar> \<longleftrightarrow> fx_exp xA = fx_exp xB \<and> u128 (fx_sig xA) = u128 (fx_sig xB)"
proof -
  define n m where "n = u128 (fx_sig xA)" and "m = u128 (fx_sig xB)"
  have a: "2 ^ 119 \<le> n" "n < 2 ^ 120" "\<bar>A\<bar> = real n * 2 powi (fx_exp xA - 119)" using A by (auto simp: exactly_def n_def)
  have b: "2 ^ 119 \<le> m" "m < 2 ^ 120" "\<bar>B\<bar> = real m * 2 powi (fx_exp xB - 119)" using B by (auto simp: exactly_def m_def)
  note lt = normal_less [OF a(2) b(1), of "fx_exp xA" "fx_exp xB"] normal_less [OF b(2) a(1), of "fx_exp xB" "fx_exp xA"]
  have eq: "\<bar>A\<bar> < \<bar>B\<bar> \<longleftrightarrow> n < m" "\<bar>A\<bar> = \<bar>B\<bar> \<longleftrightarrow> n = m" if "fx_exp xA = fx_exp xB" unfolding a(3) b(3) using that by simp_all
  show "\<bar>A\<bar> < \<bar>B\<bar> \<longleftrightarrow> fx_exp xA < fx_exp xB \<or> fx_exp xA = fx_exp xB \<and> u128 (fx_sig xA) < u128 (fx_sig xB)"
    using lt eq(1) unfolding a(3) b(3) n_def [symmetric] m_def [symmetric] by (cases "fx_exp xA" "fx_exp xB" rule: linorder_cases) simp_all
  show "\<bar>A\<bar> = \<bar>B\<bar> \<longleftrightarrow> fx_exp xA = fx_exp xB \<and> u128 (fx_sig xA) = u128 (fx_sig xB)"
    using lt eq(2) unfolding a(3) b(3) n_def [symmetric] m_def [symmetric] by (cases "fx_exp xA" "fx_exp xB" rule: linorder_cases) simp_all
qed

lemma ordered_cases:
  assumes "ordered M x R"
  obtains (inf) "\<not> isNaN x" "isInf x" "\<not> isZero x" "R \<noteq> 0" "fx_sign x = (R < 0)" "\<bar>R\<bar> = M"
    | (zero) "\<not> isNaN x" "\<not> isInf x" "isZero x" "R = 0" "0 < M" "u128 (fx_sig x) = 0"
    | (finite) "\<not> isNaN x" "\<not> isInf x" "\<not> isZero x" "R \<noteq> 0" "fx_sign x = (R < 0)" "\<bar>R\<bar> < M" "exactly 67 x R" "u128 (fx_sig x) \<noteq> 0"
proof (cases "isInf x")
  case True
  then show thesis using assms inf unfolding ordered_def by simp
next
  case False
  then have e: "exactly 67 x R" "\<bar>R\<bar> < M" "\<not> isNaN x" using assms unfolding ordered_def by simp_all
  from e(1) show thesis
  proof (cases rule: exactly_cases)
    case zero
    then show thesis using that(2) e False by simp
  next
    case nonzero
    moreover from this have "u128 (fx_sig x) \<noteq> 0" by simp
    ultimately show thesis using that(3) e False by blast
  qed
qed

lemma floatX_order:
  assumes A: "ordered M xA A" and B: "ordered M xB B"
  shows "floatXEq xA xB \<longleftrightarrow> A = B" and "floatXLE xA xB \<longleftrightarrow> A \<le> B" and "floatXLT xA xB \<longleftrightarrow> A < B"
proof -
  have "(floatXEq xA xB \<longleftrightarrow> A = B) \<and> (floatXLE xA xB \<longleftrightarrow> A \<le> B) \<and> (floatXLT xA xB \<longleftrightarrow> A < B)"
    using A
  proof (cases rule: ordered_cases)
    case inf
    note a = this
    show ?thesis using B by (cases rule: ordered_cases) (use a in \<open>auto simp: floatXEq_def floatXLE_def floatXLT_def eq128_value abs_real_def split: if_splits\<close>)
  next
    case zero
    note a = this
    show ?thesis using B by (cases rule: ordered_cases) (use a in \<open>auto simp: floatXEq_def floatXLE_def floatXLT_def eq128_value abs_real_def split: if_splits\<close>)
  next
    case finite
    note a = this
    show ?thesis using B
    proof (cases rule: ordered_cases)
      case finite
      note m = magnitude_order [OF a(7,3) finite(7,3)] magnitude_order [OF finite(7,3) a(7,3)]
      show ?thesis
      proof (cases "fx_sign xA = fx_sign xB")
        case True
        have "floatXEq xA xB \<longleftrightarrow> \<bar>A\<bar> = \<bar>B\<bar>" unfolding m(2) using True a(1-3) finite(1-3) by (simp add: floatXEq_def eq128_value)
        moreover have "floatXLE xA xB \<longleftrightarrow> (if fx_sign xA then \<not> \<bar>A\<bar> < \<bar>B\<bar> else \<not> \<bar>B\<bar> < \<bar>A\<bar>)"
          unfolding m(1,3) using True a(1-3) finite(1-3) by (auto simp: floatXLE_def le128_value)
        moreover have "floatXLT xA xB \<longleftrightarrow> (if fx_sign xA then \<bar>B\<bar> < \<bar>A\<bar> else \<bar>A\<bar> < \<bar>B\<bar>)"
          unfolding m(1,3) using True a(1-3) finite(1-3) by (auto simp: floatXLT_def lt128_value)
        ultimately show ?thesis using True a(4,5) finite(4,5) by auto
      qed (use a finite in \<open>auto simp: floatXEq_def floatXLE_def floatXLT_def\<close>)
    qed (use a in \<open>auto simp: floatXEq_def floatXLE_def floatXLT_def eq128_value abs_real_def split: if_splits\<close>)
  qed
  then show "floatXEq xA xB \<longleftrightarrow> A = B" "floatXLE xA xB \<longleftrightarrow> A \<le> B" "floatXLT xA xB \<longleftrightarrow> A < B" by blast+
qed

lemma f32ToFloatX_order:
  "\<exists>x. f32ToFloatX u a = Some x \<and> isNaN x = fl_nan 23 255 a \<and>
    (\<not> fl_nan 23 255 a \<longrightarrow> ordered (real (mval 23 (255 * 2 ^ 23)) / 2 ^ 149) x (fl_real 23 a / 2 ^ 149))"
proof (cases "fl_mag a < 255 * 2 ^ 23")
  case True
  then obtain x where "f32ToFloatX u a = Some x" "exactly 67 x (fl_real 23 a / 2 ^ 149)" using f32ToFloatX_finite by blast
  moreover have "\<bar>fl_real 23 a\<bar> < real (mval 23 (255 * 2 ^ 23))" using True mval_less_iff [of 23 "fl_mag a"] by (simp add: fl_real_def)
  then have "\<bar>fl_real 23 a / 2 ^ 149\<bar> < real (mval 23 (255 * 2 ^ 23)) / 2 ^ 149" by (simp add: abs_divide divide_strict_right_mono)
  ultimately show ?thesis using True unfolding ordered_def fl_nan_def by (auto simp: exactly_def)
next
  case False
  then have e: "expF32UI a = 255" using f32.finite_iff [of a] f32.exp_range(2) [of a] by simp
  define v where "v = (push_bit 32 (ucast (fracF32UI a)) :: uint64_t)"
  have "unat v = unat (fracF32UI a) * 2 ^ 32" unfolding v_def using f32.frac_range [of a] by (subst unat_push_bit_small) (simp_all add: unat_ucast_up)
  then have v: "v = 0 \<longleftrightarrow> fl_mag a = 255 * 2 ^ 23" using e f32.inf_iff [of a] unat_eq_zero [of v] unat_eq_zero [of "fracF32UI a"] by simp
  define x where "x = \<lparr>isNaN = v \<noteq> 0, isInf = v = 0, isZero = False, fx_sign = fl_sign a, fx_exp = u, fx_sig = bits v 0\<rparr>"
  have "f32ToFloatX u a = Some x"
    using e unfolding f32ToFloatX_def Let_def expF32UI_def [symmetric] fracF32UI_def [symmetric] v_def [symmetric] sign_bit32 by (simp add: x_def)
  moreover have "ordered (real (mval 23 (255 * 2 ^ 23)) / 2 ^ 149) x (fl_real 23 a / 2 ^ 149)" if "fl_mag a = 255 * 2 ^ 23"
  proof -
    have "0 < real (mval 23 (fl_mag a))" unfolding that by (simp add: mval_pos_iff)
    then show ?thesis using that v by (simp add: ordered_def x_def fl_real_def)
  qed
  ultimately show ?thesis using False v by (auto simp: x_def fl_nan_def)
qed

lemma f64ToFloatX_order:
  "\<exists>x. f64ToFloatX u a = Some x \<and> isNaN x = fl_nan 52 2047 a \<and>
    (\<not> fl_nan 52 2047 a \<longrightarrow> ordered (real (mval 52 (2047 * 2 ^ 52)) / 2 ^ 1074) x (fl_real 52 a / 2 ^ 1074))"
proof (cases "fl_mag a < 2047 * 2 ^ 52")
  case True
  then obtain x where "f64ToFloatX u a = Some x" "exactly 67 x (fl_real 52 a / 2 ^ 1074)" using f64ToFloatX_finite by blast
  moreover have "\<bar>fl_real 52 a\<bar> < real (mval 52 (2047 * 2 ^ 52))" using True mval_less_iff [of 52 "fl_mag a"] by (simp add: fl_real_def)
  then have "\<bar>fl_real 52 a / 2 ^ 1074\<bar> < real (mval 52 (2047 * 2 ^ 52)) / 2 ^ 1074" by (simp add: abs_divide divide_strict_right_mono)
  ultimately show ?thesis using True unfolding ordered_def fl_nan_def by (auto simp: exactly_def)
next
  case False
  then have e: "expF64UI a = 2047" using f64.finite_iff [of a] f64.exp_range(2) [of a] by simp
  define v where "v = fracF64UI a"
  have v: "v = 0 \<longleftrightarrow> fl_mag a = 2047 * 2 ^ 52" using e f64.inf_iff [of a] by (simp add: v_def)
  define x where "x = \<lparr>isNaN = v \<noteq> 0, isInf = v = 0, isZero = False, fx_sign = fl_sign a, fx_exp = u, fx_sig = bits (push_bit 3 v) 0\<rparr>"
  have "f64ToFloatX u a = Some x"
    using e unfolding f64ToFloatX_def Let_def expF64UI_def [symmetric] fracF64UI_def [symmetric] v_def [symmetric] sign_bit64 by (simp add: x_def)
  moreover have "ordered (real (mval 52 (2047 * 2 ^ 52)) / 2 ^ 1074) x (fl_real 52 a / 2 ^ 1074)" if "fl_mag a = 2047 * 2 ^ 52"
  proof -
    have "0 < real (mval 52 (fl_mag a))" unfolding that by (simp add: mval_pos_iff)
    then show ?thesis using that v by (simp add: ordered_def x_def fl_real_def)
  qed
  ultimately show ?thesis using False v by (auto simp: x_def fl_nan_def)
qed

text \<open>What the six comparisons of a format do, and that they meet the specification of SoftFloat's.\<close>

locale slow_order =
  fixes f E U :: nat and unpack :: "int \<Rightarrow> 'a::len word \<Rightarrow> floatX option"
  assumes unpack_order: "\<exists>x. unpack u a = Some x \<and> isNaN x = fl_nan f E a \<and>
    (\<not> fl_nan f E a \<longrightarrow> ordered (real (mval f (E * 2 ^ f)) / 2 ^ U) x (fl_real f a / 2 ^ U))"
begin

lemma compare:
  assumes rel: "\<And>xA xB A B M. ordered M xA A \<Longrightarrow> ordered M xB B \<Longrightarrow> cmp xA xB \<longleftrightarrow> R A B"
    and nan: "\<And>xA xB. isNaN xA \<or> isNaN xB \<Longrightarrow> \<not> cmp xA xB" and scale: "\<And>x y. R (x / 2 ^ U) (y / 2 ^ U) \<longleftrightarrow> R x y"
  shows "do { xA \<leftarrow> unpack u a; xB \<leftarrow> unpack v b;
      let s = (if isNaN xA \<or> isNaN xB then orFlags softfloat_flag_invalid s else s); Some (cmp xA xB, s) } = Some (compare_spec f E False R a b s)"
    and "do { xA \<leftarrow> unpack u a; xB \<leftarrow> unpack v b; Some (cmp xA xB, s) } =
      Some (fst (compare_spec f E True R a b s), if fl_snan f E a \<or> fl_snan f E b then s else snd (compare_spec f E True R a b s))"
proof -
  obtain xA where A: "unpack u a = Some xA" "isNaN xA = fl_nan f E a"
    "\<not> fl_nan f E a \<longrightarrow> ordered (real (mval f (E * 2 ^ f)) / 2 ^ U) xA (fl_real f a / 2 ^ U)" using unpack_order by blast
  obtain xB where B: "unpack v b = Some xB" "isNaN xB = fl_nan f E b"
    "\<not> fl_nan f E b \<longrightarrow> ordered (real (mval f (E * 2 ^ f)) / 2 ^ U) xB (fl_real f b / 2 ^ U)" using unpack_order by blast
  have c: "cmp xA xB \<longleftrightarrow> \<not> fl_nan f E a \<and> \<not> fl_nan f E b \<and> R (fl_real f a) (fl_real f b)"
    using rel [of _ xA "fl_real f a / 2 ^ U" xB "fl_real f b / 2 ^ U"] nan [of xA xB] A(2,3) B(2,3) scale by blast
  show "do { xA \<leftarrow> unpack u a; xB \<leftarrow> unpack v b;
      let s = (if isNaN xA \<or> isNaN xB then orFlags softfloat_flag_invalid s else s); Some (cmp xA xB, s) } = Some (compare_spec f E False R a b s)"
    using c by (simp add: A(1,2) B(1,2) compare_spec_def)
  show "do { xA \<leftarrow> unpack u a; xB \<leftarrow> unpack v b; Some (cmp xA xB, s) } =
      Some (fst (compare_spec f E True R a b s), if fl_snan f E a \<or> fl_snan f E b then s else snd (compare_spec f E True R a b s))"
    using c fl_snan_nan [of f E a] fl_snan_nan [of f E b] by (auto simp: A(1) B(1) compare_spec_def)
qed

lemma scale_laws: "x / 2 ^ U = y / 2 ^ U \<longleftrightarrow> x = (y::real)" "x / 2 ^ U \<le> y / 2 ^ U \<longleftrightarrow> x \<le> (y::real)" "x / 2 ^ U < y / 2 ^ U \<longleftrightarrow> x < (y::real)"
  by (simp_all add: divide_le_cancel divide_less_cancel)

lemma nan_laws: "isNaN xA \<or> isNaN xB \<Longrightarrow> \<not> floatXEq xA xB" "isNaN xA \<or> isNaN xB \<Longrightarrow> \<not> floatXLE xA xB" "isNaN xA \<or> isNaN xB \<Longrightarrow> \<not> floatXLT xA xB"
  by (auto simp: floatXEq_def floatXLE_def floatXLT_def)

lemmas eq_agrees = compare [of floatXEq "(=)", OF floatX_order(1) nan_laws(1) scale_laws(1)]
lemmas le_agrees = compare [of floatXLE "(\<le>)", OF floatX_order(2) nan_laws(2) scale_laws(2)]
lemmas lt_agrees = compare [of floatXLT "(<)", OF floatX_order(3) nan_laws(3) scale_laws(3)]

end

interpretation so32: slow_order 23 255 149 f32ToFloatX
  by unfold_locales (rule f32ToFloatX_order)

interpretation so64: slow_order 52 2047 1074 f64ToFloatX
  by unfold_locales (rule f64ToFloatX_order)

text \<open>
  The six reference comparisons of each format and SoftFloat's give the same answer on every operand, NaNs and infinities included. The flags
  agree too, except that the quiet reference comparisons raise none for a signalling NaN, where SoftFloat raises invalid.
\<close>

lemma slow_compare_agrees:
  "slow_f32_le u v a b s = Some (f32_le a b s) \<and> slow_f32_lt u v a b s = Some (f32_lt a b s) \<and>
   slow_f32_eq_signaling u v a b s = Some (f32_eq_signaling a b s) \<and>
   slow_f32_eq u v a b s = Some (fst (f32_eq a b s), if fl_snan 23 255 a \<or> fl_snan 23 255 b then s else snd (f32_eq a b s)) \<and>
   slow_f32_le_quiet u v a b s = Some (fst (f32_le_quiet a b s), if fl_snan 23 255 a \<or> fl_snan 23 255 b then s else snd (f32_le_quiet a b s)) \<and>
   slow_f32_lt_quiet u v a b s = Some (fst (f32_lt_quiet a b s), if fl_snan 23 255 a \<or> fl_snan 23 255 b then s else snd (f32_lt_quiet a b s)) \<and>
   slow_f64_le u v c d s = Some (f64_le c d s) \<and> slow_f64_lt u v c d s = Some (f64_lt c d s) \<and>
   slow_f64_eq_signaling u v c d s = Some (f64_eq_signaling c d s) \<and>
   slow_f64_eq u v c d s = Some (fst (f64_eq c d s), if fl_snan 52 2047 c \<or> fl_snan 52 2047 d then s else snd (f64_eq c d s)) \<and>
   slow_f64_le_quiet u v c d s = Some (fst (f64_le_quiet c d s), if fl_snan 52 2047 c \<or> fl_snan 52 2047 d then s else snd (f64_le_quiet c d s)) \<and>
   slow_f64_lt_quiet u v c d s = Some (fst (f64_lt_quiet c d s), if fl_snan 52 2047 c \<or> fl_snan 52 2047 d then s else snd (f64_lt_quiet c d s))"
  using f32_compare_correct [of a b s] f64_compare_correct [of c d s]
  unfolding slow_f32_le_def slow_f32_lt_def slow_f32_eq_signaling_def slow_f32_eq_def slow_f32_le_quiet_def slow_f32_lt_quiet_def
    slow_f64_le_def slow_f64_lt_def slow_f64_eq_signaling_def slow_f64_eq_def slow_f64_le_quiet_def slow_f64_lt_quiet_def
  by (elim conjE) (intro conjI; simp only: so32.eq_agrees so32.le_agrees so32.lt_agrees so64.eq_agrees so64.le_agrees so64.lt_agrees)

section \<open>Conversions\<close>

text \<open>An integer \<open>n\<close> shifted up to the place of a normalised significand.\<close>

lemma integer_represents:
  assumes n: "n = nat \<bar>k\<bar>" "k \<noteq> 0" and sig: "u128 sig = n * 2 ^ j" "u128 sig < 2 ^ 120"
  shows "represents \<lparr>isNaN = False, isInf = False, isZero = False, fx_sign = (k < 0), fx_exp = 119 - int j, fx_sig = sig\<rparr> (real_of_int k)"
proof (rule representsI)
  have "\<bar>real_of_int k\<bar> = real n * (2 ^ j * 2 powi (- int j))" using n by (simp add: power_int_minus)
  then show "\<bar>real_of_int k\<bar> = real (u128 sig) * 2 powi (fx_exp \<lparr>isNaN = False, isInf = False, isZero = False, fx_sign = (k < 0), fx_exp = 119 - int j, fx_sig = sig\<rparr> - 119)"
    unfolding sig(1) by simp
qed (use n sig in auto)

lemma zero_represents: "represents \<lparr>isNaN = False, isInf = False, isZero = True, fx_sign = False, fx_exp = u, fx_sig = sig\<rparr> 0"
  by (simp add: represents_def)

lemma normalise32:
  assumes n: "unat v = nat \<bar>k\<bar>" "k \<noteq> 0" "nat \<bar>k\<bar> < 2 ^ 32"
  shows "\<exists>e v'. norm64_loop 0x0080000000000000 31 (push_bit 24 v) = Some (e, v') \<and>
    represents \<lparr>isNaN = False, isInf = False, isZero = False, fx_sign = (k < 0), fx_exp = e, fx_sig = bits v' 0\<rparr> (real_of_int k)"
proof -
  have u: "unat (push_bit 24 v) = nat \<bar>k\<bar> * 2 ^ 24" using n(3) by (subst unat_push_bit_small) (simp_all add: n(1))
  have "0 < nat \<bar>k\<bar>" using n(2) by simp
  then have "\<exists>c v'. norm64_loop 0x0080000000000000 31 (push_bit 24 v) = Some (31 - int c, v') \<and> unat v' = unat (push_bit 24 v) * 2 ^ c \<and>
      2 ^ 55 \<le> unat v' \<and> unat v' < 2 ^ Suc 55"
    using n(3) by (intro norm64_loop_value [of _ _ 31]) (simp_all only: u, simp_all)
  then obtain c v' where c: "norm64_loop 0x0080000000000000 31 (push_bit 24 v) = Some (31 - int c, v')" "unat v' = nat \<bar>k\<bar> * 2 ^ 24 * 2 ^ c" "unat v' < 2 ^ 56"
    unfolding u by auto
  have "represents \<lparr>isNaN = False, isInf = False, isZero = False, fx_sign = (k < 0), fx_exp = 119 - int (88 + c), fx_sig = bits v' 0\<rparr> (real_of_int k)"
    by (rule integer_represents [OF refl n(2)]) (use c in \<open>simp_all add: power_add\<close>)
  then show ?thesis using c(1) by simp
qed

lemma normalise64:
  assumes n: "unat v = nat \<bar>k\<bar>" "k \<noteq> 0"
  shows "\<exists>e sig. norm128_loop 63 (shortShift128Left (bits 0 v) 56) = Some (e, sig) \<and>
    represents \<lparr>isNaN = False, isInf = False, isZero = False, fx_sign = (k < 0), fx_exp = e, fx_sig = sig\<rparr> (real_of_int k)"
proof -
  have lt: "nat \<bar>k\<bar> < 2 ^ 64" using unsigned_less [of v, where 'a = nat] by (simp add: n(1))
  have u: "u128 (shortShift128Left (bits 0 v) 56) = nat \<bar>k\<bar> * 2 ^ 56" using lt by (simp add: shortShift128Left_value n(1))
  have "0 < nat \<bar>k\<bar>" using n(2) by simp
  then have "\<exists>c sig. norm128_loop 63 (shortShift128Left (bits 0 v) 56) = Some (63 - int c, sig) \<and>
      u128 sig = u128 (shortShift128Left (bits 0 v) 56) * 2 ^ c \<and> 2 ^ 119 \<le> u128 sig \<and> u128 sig < 2 ^ 120"
    using lt by (intro norm128_loop_value [of _ 63]) (simp_all only: u, simp_all)
  then obtain c sig where c: "norm128_loop 63 (shortShift128Left (bits 0 v) 56) = Some (63 - int c, sig)" "u128 sig = nat \<bar>k\<bar> * 2 ^ 56 * 2 ^ c"
    "u128 sig < 2 ^ 120" unfolding u by auto
  have "represents \<lparr>isNaN = False, isInf = False, isZero = False, fx_sign = (k < 0), fx_exp = 119 - int (56 + c), fx_sig = sig\<rparr> (real_of_int k)"
    by (rule integer_represents [OF refl n(2)]) (use c in \<open>simp_all add: power_add\<close>)
  then show ?thesis using c(1) by simp
qed

lemma ui32ToFloatX_represents: "\<exists>x. ui32ToFloatX u a = Some x \<and> represents x (real (unat a)) \<and> \<not> fx_sign x"
proof (cases "a = 0")
  case True
  then show ?thesis by (simp add: ui32ToFloatX_def Let_def represents_def)
next
  case False
  have "int (unat a) \<noteq> 0" "nat \<bar>int (unat a)\<bar> < 2 ^ 32" using False unsigned_less [of a, where 'a = nat] by (simp_all add: unsigned_eq_0_iff)
  then show ?thesis using normalise32 [of "ucast a" "int (unat a)"] False by (auto simp: ui32ToFloatX_def Let_def unat_ucast_up)
qed

lemma ui64ToFloatX_represents: "\<exists>x. ui64ToFloatX u a = Some x \<and> represents x (real (unat a)) \<and> \<not> fx_sign x"
proof (cases "a = 0")
  case True
  then show ?thesis by (simp add: ui64ToFloatX_def Let_def represents_def)
next
  case False
  then have "int (unat a) \<noteq> 0" by (simp add: unsigned_eq_0_iff)
  then show ?thesis using normalise64 [of a "int (unat a)"] False by (auto simp: ui64ToFloatX_def Let_def)
qed

lemma i32ToFloatX_represents: "\<exists>x. i32ToFloatX u a = Some x \<and> represents x (real_of_int (sint a)) \<and> (a = 0 \<longrightarrow> \<not> fx_sign x)"
proof (cases "a = 0")
  case True
  then show ?thesis by (simp add: i32ToFloatX_def Let_def represents_def)
next
  case False
  define v :: uint64_t where "v = (if sint a < 0 then - scast a else scast a)"
  have b: "- (2 ^ 31) \<le> sint a" "sint a < 2 ^ 31" using sint_bounds [of a] by simp_all
  have "v = word_of_int \<bar>sint a\<bar>" by (simp add: v_def)
  then have v: "unat v = nat \<bar>sint a\<bar>" using b by (simp only:) (intro unat_word_of_int_nat, simp_all)
  have "sint a \<noteq> 0" "nat \<bar>sint a\<bar> < 2 ^ 32" using False b by (simp_all add: signed_eq_0_iff nat_less_iff)
  then obtain e v' where n: "norm64_loop 0x0080000000000000 31 (push_bit 24 v) = Some (e, v')"
    "represents \<lparr>isNaN = False, isInf = False, isZero = False, fx_sign = (sint a < 0), fx_exp = e, fx_sig = bits v' 0\<rparr> (real_of_int (sint a))"
    using normalise32 [OF v] by blast
  have sl: "a <s 0 \<longleftrightarrow> sint a < 0" by (simp add: word_sless_alt)
  show ?thesis using n False unfolding i32ToFloatX_def Let_def sl v_def [symmetric] by simp
qed

lemma i64ToFloatX_represents: "\<exists>x. i64ToFloatX u a = Some x \<and> represents x (real_of_int (sint a)) \<and> (a = 0 \<longrightarrow> \<not> fx_sign x)"
proof (cases "a = 0")
  case True
  then show ?thesis by (simp add: i64ToFloatX_def Let_def represents_def)
next
  case False
  define v where "v = (if sint a < 0 then - a else a)"
  have "int (unat v) = \<bar>sint a\<bar>" using sint_magnitude [of a] by (auto simp: v_def)
  then have v: "unat v = nat \<bar>sint a\<bar>" by linarith
  have "sint a \<noteq> 0" using False by (simp add: signed_eq_0_iff)
  then obtain e sig where n: "norm128_loop 63 (shortShift128Left (bits 0 v) 56) = Some (e, sig)"
    "represents \<lparr>isNaN = False, isInf = False, isZero = False, fx_sign = (sint a < 0), fx_exp = e, fx_sig = sig\<rparr> (real_of_int (sint a))"
    using normalise64 [OF v] by blast
  have sl: "a <s 0 \<longleftrightarrow> sint a < 0" by (simp add: word_sless_alt)
  show ?thesis using n False unfolding i64ToFloatX_def Let_def sl v_def [symmetric] by simp
qed

text \<open>
  The reference conversions between the formats agree with SoftFloat on finite operands, those from integers on every operand.
\<close>

lemma slow_formats_agree:
  assumes v: "valid_mode (softfloat_roundingMode s)"
  shows "fl_mag a < 255 * 2 ^ 23 \<Longrightarrow> slow_f32_to_f64 u a s = Some (f32_to_f64 a s)"
    and "fl_mag c < 2047 * 2 ^ 52 \<Longrightarrow> slow_f64_to_f32 u c s = Some (f64_to_f32 c s)"
proof -
  assume fin: "fl_mag a < 255 * 2 ^ 23"
  obtain x where x: "f32ToFloatX u a = Some x" "exactly 67 x (fl_real 23 a / 2 ^ 149)" "fx_sign x = fl_sign a" using sn32.unpackE [OF fin] .
  obtain z where z: "f32_to_f64 a s = (z, s)" "fl_real 52 z = fl_real 23 a * 2 ^ 925" "fl_sign z = fl_sign a" "fl_mag z < 2047 * 2 ^ 52"
    using f32_to_f64_finite [OF fin, of s] .
  have "op_rounds 52 2047 (fl_sign a) (fl_real 23 a * 2 ^ 925) s (z, s)" using z by (intro op_rounds_exact) simp_all
  then have "floatXToF64 x s = Some (z, s)" by (rule sn64.pack_agrees [OF v exactly_represents [OF x(2)]]) (use x(3) in simp_all)
  then show "slow_f32_to_f64 u a s = Some (f32_to_f64 a s)" by (simp add: slow_f32_to_f64_def x(1) z(1))
next
  assume fin: "fl_mag c < 2047 * 2 ^ 52"
  obtain x where x: "f64ToFloatX u c = Some x" "exactly 67 x (fl_real 52 c / 2 ^ 1074)" "fx_sign x = fl_sign c" using sn64.unpackE [OF fin] .
  have "floatXToF32 x s = Some (f64_to_f32 c s)"
    by (rule sn32.pack_agrees [OF v exactly_represents [OF x(2)] f64_to_f32_finite [OF fin]]) (use x(3) in simp_all)
  then show "slow_f64_to_f32 u c s = Some (f64_to_f32 c s)" by (simp add: slow_f64_to_f32_def x(1))
qed

lemma int32_to_f64_rounded:
  "op_rounds 52 2047 False (real (unat a) * 2 ^ 1074) s (ui32_to_f64 a, s)"
  "op_rounds 52 2047 False (real_of_int (sint i) * 2 ^ 1074) s (i32_to_f64 i, s)"
proof -
  have "fl_mag (ui32_to_f64 a) < 2047 * 2 ^ 52"
    using pack_ui32_to_f64(2) [of a False] by (cases "a = 0") (simp_all add: ui32_to_f64_def Let_def fl_mag_def)
  moreover have "\<not> fl_sign (ui32_to_f64 0)" by (simp add: ui32_to_f64_def fl_sign_def)
  ultimately show "op_rounds 52 2047 False (real (unat a) * 2 ^ 1074) s (ui32_to_f64 a, s)"
    using int32_to_f64_exact [of a i] by (intro op_rounds_exact) (auto simp: unsigned_eq_0_iff)
  have "fl_mag (i32_to_f64 i) < 2047 * 2 ^ 52"
    using pack_ui32_to_f64(2) [of "if sint i < 0 then - i else i" "sint i < 0"] by (cases "i = 0") (simp_all add: i32_to_f64_def Let_def fl_mag_def)
  moreover have "\<not> fl_sign (i32_to_f64 0)" by (simp add: i32_to_f64_def fl_sign_def)
  ultimately show "op_rounds 52 2047 False (real_of_int (sint i) * 2 ^ 1074) s (i32_to_f64 i, s)"
    using int32_to_f64_exact [of a i] by (intro op_rounds_exact) (auto simp: signed_eq_0_iff)
qed

lemma slow_integers_agree:
  assumes v: "valid_mode (softfloat_roundingMode s)"
  shows "slow_ui32_to_f32 u a s = Some (ui32_to_f32 a s)" and "slow_ui32_to_f64 u a s = Some (ui32_to_f64 a, s)"
    and "slow_ui64_to_f32 u b s = Some (ui64_to_f32 b s)" and "slow_ui64_to_f64 u b s = Some (ui64_to_f64 b s)"
    and "slow_i32_to_f32 u i s = Some (i32_to_f32 i s)" and "slow_i32_to_f64 u i s = Some (i32_to_f64 i, s)"
    and "slow_i64_to_f32 u j s = Some (i64_to_f32 j s)" and "slow_i64_to_f64 u j s = Some (i64_to_f64 j s)"
proof -
  note r = int_to_float_rounded [of a s i b j] int64_to_f32_rounded [of b s j] int32_to_f64_rounded(1) [of a s] int32_to_f64_rounded(2) [of i s]
  obtain xa where xa: "ui32ToFloatX u a = Some xa" "represents xa (real (unat a))" "\<not> fx_sign xa" using ui32ToFloatX_represents by blast
  obtain xb where xb: "ui64ToFloatX u b = Some xb" "represents xb (real (unat b))" "\<not> fx_sign xb" using ui64ToFloatX_represents by blast
  obtain xi where xi: "i32ToFloatX u i = Some xi" "represents xi (real_of_int (sint i))" "i = 0 \<longrightarrow> \<not> fx_sign xi" using i32ToFloatX_represents by blast
  obtain xj where xj: "i64ToFloatX u j = Some xj" "represents xj (real_of_int (sint j))" "j = 0 \<longrightarrow> \<not> fx_sign xj" using i64ToFloatX_represents by blast
  show "slow_ui32_to_f32 u a s = Some (ui32_to_f32 a s)" "slow_ui32_to_f64 u a s = Some (ui32_to_f64 a, s)"
    using sn32.pack_agrees [OF v xa(2), of False] sn64.pack_agrees [OF v xa(2), of False] r xa(3)
    by (simp_all add: slow_ui32_to_f32_def slow_ui32_to_f64_def xa(1))
  show "slow_ui64_to_f32 u b s = Some (ui64_to_f32 b s)" "slow_ui64_to_f64 u b s = Some (ui64_to_f64 b s)"
    using sn32.pack_agrees [OF v xb(2), of False] sn64.pack_agrees [OF v xb(2), of False] r xb(3)
    by (simp_all add: slow_ui64_to_f32_def slow_ui64_to_f64_def xb(1))
  show "slow_i32_to_f32 u i s = Some (i32_to_f32 i s)" "slow_i32_to_f64 u i s = Some (i32_to_f64 i, s)"
    using sn32.pack_agrees [OF v xi(2), of False] sn64.pack_agrees [OF v xi(2), of False] r xi(3)
    by (simp_all add: slow_i32_to_f32_def slow_i32_to_f64_def xi(1) signed_eq_0_iff)
  show "slow_i64_to_f32 u j s = Some (i64_to_f32 j s)" "slow_i64_to_f64 u j s = Some (i64_to_f64 j s)"
    using sn32.pack_agrees [OF v xj(2), of False] sn64.pack_agrees [OF v xj(2), of False] r xj(3)
    by (simp_all add: slow_i64_to_f32_def slow_i64_to_f64_def xj(1) signed_eq_0_iff)
qed

end
