(* ===== verification/Vm_Env.thy ===== *)
theory Vm_Env
  imports Prelude "HOL-Library.Monad_Syntax"
begin

text \<open>
  The virtual-memory test environment (\<^verbatim>\<open>src/riscv-tests/env/v/vm.c\<close>): a supervisor that runs a test program with demand
  paging. Every page the program touches first faults; the handler takes a frame from a free list, maps it, and
  copies the page into it. At the exit system call all pages are copied back.

  The global variables are the record \<open>vm_state\<close>; a pointer to a list node is the name of the array
  element it points to. Physical memory is a function from page numbers to page contents, apart from the arrays of the
  supervisor itself. Keeping these apart assumes that the test program does not touch the pages that hold them: they are part of the loaded
  image, and \<^verbatim>\<open>vm.c\<close> does not protect them from a program that writes there, whose pages are copied back over them. The hardware page-table walk is not code of the
  repository and is the parameter \<open>walk\<close>: it reads the current table, which is what the writes to the \<^verbatim>\<open>fatc\<close> register ensure.
  Writing to the host is appending to \<open>tohost\<close>: the polling loops that wait for the host to take a word are left out. A
  run that stops is a left value, with the reason; \<open>Kernel_Fault\<close> is an access of the supervisor to an
  unmapped page.
\<close>

section \<open>Constants and data\<close>

type_synonym pte_t = uint64_t
type_synonym page = "uint8_t list"

abbreviation MAX_TEST_PAGES :: nat where "MAX_TEST_PAGES \<equiv> 63"
abbreviation PGSIZE :: uint64_t where "PGSIZE \<equiv> 0x2000"
abbreviation PTES_PER_PT :: nat where "PTES_PER_PT \<equiv> 1024"

abbreviation PTE_V :: pte_t where "PTE_V \<equiv> 0x001"
abbreviation PTE_T :: pte_t where "PTE_T \<equiv> 0x002"
abbreviation PTE_UR :: pte_t where "PTE_UR \<equiv> 0x008"
abbreviation PTE_UW :: pte_t where "PTE_UW \<equiv> 0x010"
abbreviation PTE_UX :: pte_t where "PTE_UX \<equiv> 0x020"
abbreviation PTE_SR :: pte_t where "PTE_SR \<equiv> 0x040"
abbreviation PTE_SW :: pte_t where "PTE_SW \<equiv> 0x080"
abbreviation PTE_SX :: pte_t where "PTE_SX \<equiv> 0x100"

abbreviation SR_S :: uint64_t where "SR_S \<equiv> 0x001"
abbreviation SR_PS :: uint64_t where "SR_PS \<equiv> 0x002"
abbreviation SR_PEI :: uint64_t where "SR_PEI \<equiv> 0x008"
abbreviation SR_EF :: uint64_t where "SR_EF \<equiv> 0x010"
abbreviation SR_U64 :: uint64_t where "SR_U64 \<equiv> 0x020"
abbreviation SR_S64 :: uint64_t where "SR_S64 \<equiv> 0x040"
abbreviation SR_VM :: uint64_t where "SR_VM \<equiv> 0x080"
abbreviation SR_EA :: uint64_t where "SR_EA \<equiv> 0x100"

abbreviation CAUSE_FAULT_FETCH :: uint64_t where "CAUSE_FAULT_FETCH \<equiv> 0x1"
abbreviation CAUSE_ILLEGAL_INSTRUCTION :: uint64_t where "CAUSE_ILLEGAL_INSTRUCTION \<equiv> 0x2"
abbreviation CAUSE_SYSCALL :: uint64_t where "CAUSE_SYSCALL \<equiv> 0x6"
abbreviation CAUSE_FAULT_LOAD :: uint64_t where "CAUSE_FAULT_LOAD \<equiv> 0xa"
abbreviation CAUSE_FAULT_STORE :: uint64_t where "CAUSE_FAULT_STORE \<equiv> 0xb"
abbreviation HWACHA_CAUSE_VF_FAULT_FETCH :: uint64_t where "HWACHA_CAUSE_VF_FAULT_FETCH \<equiv> 5"
abbreviation HWACHA_CAUSE_FAULT_LOAD :: uint64_t where "HWACHA_CAUSE_FAULT_LOAD \<equiv> 10"
abbreviation HWACHA_CAUSE_FAULT_STORE :: uint64_t where "HWACHA_CAUSE_FAULT_STORE \<equiv> 11"
abbreviation IMPL_ROCKET :: uint64_t where "IMPL_ROCKET \<equiv> 2"

definition RELOC :: "uint64_t \<Rightarrow> uint64_t" where
  "RELOC x = x + PGSIZE * of_nat MAX_TEST_PAGES"

definition LFSR_NEXT :: "uint64_t \<Rightarrow> uint64_t" where
  "LFSR_NEXT x = push_bit 5 ((x XOR signed_drop_bit 1 x) AND 1) OR signed_drop_bit 1 x"

text \<open>A node of the free list is an element of \<^verbatim>\<open>freelist_nodes\<close> or of \<^verbatim>\<open>user_mapping\<close>.\<close>

datatype node_ref = Node nat | Mapping nat

record freelist_t =
  fl_addr :: pte_t
  fl_next :: "node_ref option"

datatype vcmd =
    Vsetcfg uint64_t | Vsetvl uint64_t | Vxcpthold | Vxcptrestore "uint64_t list"
  | Venqcmd uint64_t uint64_t | Venqimm1 uint64_t uint64_t | Venqimm2 uint64_t uint64_t | Venqcnt uint64_t uint64_t

record vm_state =
  l1pt :: "pte_t list"
  l2pt :: "pte_t list"
  l3pt :: "pte_t list"
  user_mapping :: "freelist_t list"
  freelist_nodes :: "freelist_t list"
  freelist_head :: "node_ref option"
  freelist_tail :: "node_ref option"
  mem :: "nat \<Rightarrow> page"
  tohost :: "uint64_t list"
  csr_ptbr :: uint64_t
  csr_status :: uint64_t
  csr_evec :: uint64_t
  vector_queue :: "vcmd list"

record trapframe_t =
  tf_gpr :: "uint64_t list"
  tf_sr :: uint64_t
  tf_epc :: uint64_t
  tf_badvaddr :: uint64_t
  tf_cause :: uint64_t
  tf_hwacha_cause :: uint64_t
  tf_hwacha_opaque :: "uint64_t list"

datatype vm_stop = Terminated uint64_t | Kernel_Fault | Undefined_Behaviour

type_synonym vm_walk = "pte_t list \<Rightarrow> nat \<Rightarrow> nat option"
type_synonym 'a vm_result = "vm_stop \<times> vm_state + 'a"

definition vm_bind :: "'e + 'a \<Rightarrow> ('a \<Rightarrow> 'e + 'b) \<Rightarrow> 'e + 'b" where
  "vm_bind m k = (case m of Inl e \<Rightarrow> Inl e | Inr a \<Rightarrow> k a)"

lemma vm_bind_simps [simp]: "vm_bind (Inl e) k = Inl e" "vm_bind (Inr a) k = k a"
  by (simp_all add: vm_bind_def)

section \<open>Console and assertions\<close>

definition cputchar :: "uint8_t \<Rightarrow> vm_state \<Rightarrow> vm_state" where
  "cputchar x s = s\<lparr>tohost := tohost s @ [0x0101000000000000 OR ucast x]\<rparr>"

definition cputstring :: "string \<Rightarrow> vm_state \<Rightarrow> vm_state" where
  "cputstring str s = cputchar 10 (fold (\<lambda>c. cputchar (of_char c)) str s)"

definition vm_terminate :: "uint64_t \<Rightarrow> vm_state \<Rightarrow> 'a vm_result" where
  "vm_terminate code s = Inl (Terminated code, s\<lparr>tohost := tohost s @ [code]\<rparr>)"

definition vm_assert :: "bool \<Rightarrow> string \<Rightarrow> vm_state \<Rightarrow> vm_state vm_result" where
  "vm_assert P msg s = (if P then Inr s else vm_terminate 3 (cputstring (''Assertion failed: '' @ msg) s))"

text \<open>\<^verbatim>\<open>printhex\<close>: the digits are stored from the last position to the first.\<close>

definition hex_digit :: "uint64_t \<Rightarrow> char" where
  "hex_digit d = char_of (unat (if d < 10 then d + 48 else d + 87))"

primrec hex_digits :: "nat \<Rightarrow> uint64_t \<Rightarrow> string" where
  "hex_digits 0 x = []"
| "hex_digits (Suc n) x = hex_digits n (drop_bit 4 x) @ [hex_digit (x AND 0xF)]"

definition printhex :: "uint64_t \<Rightarrow> vm_state \<Rightarrow> vm_state" where
  "printhex x s = cputstring (hex_digits 16 x) s"

section \<open>Paging\<close>

definition copy_page :: "vm_walk \<Rightarrow> uint64_t \<Rightarrow> uint64_t \<Rightarrow> vm_state \<Rightarrow> vm_state vm_result" where
  "copy_page walk dst src s =
     (case walk (l3pt s) (unat (dst div PGSIZE)) of
        None \<Rightarrow> Inl (Kernel_Fault, s)
      | Some d \<Rightarrow>
          (case walk (l3pt s) (unat (src div PGSIZE)) of
             None \<Rightarrow> Inl (Kernel_Fault, s)
           | Some p \<Rightarrow> Inr (s\<lparr>mem := (mem s)(d := mem s p)\<rparr>)))"

fun node_at :: "node_ref \<Rightarrow> vm_state \<Rightarrow> freelist_t" where
  "node_at (Node k) s = freelist_nodes s ! k"
| "node_at (Mapping k) s = user_mapping s ! k"

fun set_next :: "node_ref \<Rightarrow> node_ref option \<Rightarrow> vm_state \<Rightarrow> vm_state" where
  "set_next (Node k) p s = s\<lparr>freelist_nodes := (freelist_nodes s)[k := (freelist_nodes s ! k)\<lparr>fl_next := p\<rparr>]\<rparr>"
| "set_next (Mapping k) p s = s\<lparr>user_mapping := (user_mapping s)[k := (user_mapping s ! k)\<lparr>fl_next := p\<rparr>]\<rparr>"

definition user_addr :: "uint64_t \<Rightarrow> bool" where
  "user_addr addr \<longleftrightarrow> PGSIZE \<le> addr \<and> addr < RELOC 0"

abbreviation user_addr_text :: string where
  "user_addr_text \<equiv> ''addr >= (1 << 13) && addr < ((typeof(0L))((char*)(0L) + ((1 << 13)*63)))''"

definition evict :: "vm_walk \<Rightarrow> uint64_t \<Rightarrow> vm_state \<Rightarrow> vm_state vm_result" where
  "evict walk addr s =
     vm_bind (vm_assert (user_addr addr) user_addr_text s) (\<lambda>s.
       let addr = addr div PGSIZE * PGSIZE;
           i = unat (addr div PGSIZE);
           node = Mapping i
       in if fl_addr (node_at node s) \<noteq> 0
          then
            vm_bind (copy_page walk (RELOC addr) addr s) (\<lambda>s.
              let s = s\<lparr>user_mapping := (user_mapping s)[i := (user_mapping s ! i)\<lparr>fl_addr := 0\<rparr>]\<rparr>
              in Inr (case freelist_tail s of
                        None \<Rightarrow> s\<lparr>freelist_head := Some node, freelist_tail := Some node\<rparr>
                      | Some t \<Rightarrow> (set_next t (Some node) s)\<lparr>freelist_tail := Some node\<rparr>))
          else Inr s)"

definition handle_fault :: "vm_walk \<Rightarrow> uint64_t \<Rightarrow> vm_state \<Rightarrow> vm_state vm_result" where
  "handle_fault walk addr s =
     vm_bind (vm_assert (user_addr addr) user_addr_text s) (\<lambda>s.
       let addr = addr div PGSIZE * PGSIZE;
           i = unat (addr div PGSIZE)
       in case freelist_head s of
            None \<Rightarrow> vm_assert False ''node'' s
          | Some node \<Rightarrow>
              let s = s\<lparr>freelist_head := fl_next (node_at node s)\<rparr>;
                  s = (if freelist_head s = freelist_tail s then s\<lparr>freelist_tail := None\<rparr> else s);
                  s = s\<lparr>l3pt := (l3pt s)[i := fl_addr (node_at node s) OR PTE_UW OR PTE_UR OR PTE_UX OR PTE_SW OR PTE_SR OR PTE_SX OR PTE_V]\<rparr>
              in vm_bind (vm_assert (fl_addr (user_mapping s ! i) = 0) ''user_mapping[addr/(1 << 13)].addr == 0'' s) (\<lambda>s.
                   let s = s\<lparr>user_mapping := (user_mapping s)[i := node_at node s]\<rparr>
                   in copy_page walk addr (RELOC addr) s))"

section \<open>Vector state\<close>

definition dword_bit :: "nat \<Rightarrow> uint64_t \<Rightarrow> uint64_t" where
  "dword_bit n dw = drop_bit n dw AND 1"

abbreviation dword_bit_cmd :: "uint64_t \<Rightarrow> uint64_t" where "dword_bit_cmd \<equiv> dword_bit 32"
abbreviation dword_bit_imm1 :: "uint64_t \<Rightarrow> uint64_t" where "dword_bit_imm1 \<equiv> dword_bit 35"
abbreviation dword_bit_imm2 :: "uint64_t \<Rightarrow> uint64_t" where "dword_bit_imm2 \<equiv> dword_bit 34"
abbreviation dword_bit_pf :: "uint64_t \<Rightarrow> uint64_t" where "dword_bit_pf \<equiv> dword_bit 36"

text \<open>
  The loop of \<^verbatim>\<open>do_vxcptrestore\<close> on the rest of the array, with the pending command and its \<^verbatim>\<open>pf\<close> bit, which are absent
  (and, in C, not initialised) while \<^verbatim>\<open>first\<close> holds. Reading past the array or an uninitialised \<^verbatim>\<open>pf\<close> is \<^const>\<open>None\<close>.
\<close>

definition take_imm :: "bool \<Rightarrow> uint64_t list \<Rightarrow> (uint64_t list \<times> uint64_t list) option" where
  "take_imm present ws = (if present then (case ws of [] \<Rightarrow> None | w # ws \<Rightarrow> Some ([w], ws)) else Some ([], ws))"

lemma take_imm_length: "take_imm P ws = Some (xs, ys) \<Longrightarrow> length ys \<le> length ws"
  by (auto simp: take_imm_def split: if_splits list.splits)

function vx_loop :: "(uint64_t \<times> uint64_t) option \<Rightarrow> uint64_t list \<Rightarrow> vcmd list option" where
  "vx_loop pending [] = None"
| "vx_loop pending (dword # ws) =
     (let flush = (case pending of None \<Rightarrow> [] | Some (cmd, pf) \<Rightarrow> [Venqcmd cmd pf])
      in if sint dword < 0 then Some flush
         else if dword_bit_cmd dword = 0
         then (case (pending, ws) of
                 (Some (cmd, pf), w # _) \<Rightarrow>
                   map_option ((#) (Venqcnt dword (pf OR push_bit 1 (dword_bit_cmd w)))) (vx_loop pending ws)
               | _ \<Rightarrow> None)
         else
           let pf = dword_bit_pf dword
           in case take_imm (dword_bit_imm1 dword \<noteq> 0) ws of
                None \<Rightarrow> None
              | Some (imm1, ws1) \<Rightarrow>
                  (case take_imm (dword_bit_imm2 dword \<noteq> 0) ws1 of
                     None \<Rightarrow> None
                   | Some (imm2, ws2) \<Rightarrow>
                       map_option ((@) (flush @ map (\<lambda>w. Venqimm1 w pf) imm1 @ map (\<lambda>w. Venqimm2 w pf) imm2))
                         (vx_loop (Some (dword, pf)) ws2)))"
  by pat_completeness auto

termination
  by (relation "measure (length \<circ> snd)") (auto dest!: take_imm_length)

definition do_vxcptrestore :: "uint64_t list \<Rightarrow> vcmd list option" where
  "do_vxcptrestore mem_words =
     (case mem_words of
        cfg # vl # ws \<Rightarrow> map_option (\<lambda>cs. Vsetcfg cfg # Vsetvl vl # Vxcpthold # cs) (vx_loop None ws)
      | _ \<Rightarrow> None)"

text \<open>What the handler reads from the hardware: the implementation register, the auxiliary fault address, and instruction words.\<close>

record vm_hw =
  hw_impl :: uint64_t
  hw_vxcptaux :: uint64_t
  hw_fetch :: "uint64_t \<Rightarrow> uint32_t"
  hw_fssr :: uint32_t

definition restore_vector :: "vm_hw \<Rightarrow> trapframe_t \<Rightarrow> vm_state \<Rightarrow> vm_state vm_result" where
  "restore_vector hw tf s =
     (if hw_impl hw = IMPL_ROCKET
      then (case do_vxcptrestore (tf_hwacha_opaque tf) of
              None \<Rightarrow> Inl (Undefined_Behaviour, s)
            | Some cs \<Rightarrow> Inr (s\<lparr>vector_queue := vector_queue s @ cs\<rparr>))
      else Inr (s\<lparr>vector_queue := vector_queue s @ [Vxcptrestore (tf_hwacha_opaque tf)]\<rparr>))"

section \<open>Traps\<close>

definition evict_all :: "vm_walk \<Rightarrow> vm_state \<Rightarrow> vm_state vm_result" where
  "evict_all walk s = fold (\<lambda>i m. vm_bind m (evict walk (of_nat i * PGSIZE))) [1..<MAX_TEST_PAGES] (Inr s)"

text \<open>The result is the trap frame and the state with which \<^verbatim>\<open>pop_tf\<close> resumes the program.\<close>

definition handle_trap :: "vm_walk \<Rightarrow> vm_hw \<Rightarrow> trapframe_t \<Rightarrow> vm_state \<Rightarrow> (trapframe_t \<times> vm_state) vm_result" where
  "handle_trap walk hw tf s =
     (let out = (\<lambda>(tf, s).
            if tf_sr tf AND SR_PS = 0 \<and> tf_sr tf AND SR_EA \<noteq> 0
            then vm_bind (restore_vector hw tf s) (\<lambda>s. Inr (tf\<lparr>tf_sr := tf_sr tf OR SR_PEI\<rparr>, s))
            else Inr (tf, s));
          fault = (\<lambda>addr. vm_bind (handle_fault walk addr s) (\<lambda>s. out (tf, s)));
          fail = vm_bind (vm_assert False ''0'' s) (\<lambda>s. out (tf, s))
      in if tf_cause tf = CAUSE_SYSCALL
         then
           let n = signed (ucast (tf_gpr tf ! 18) :: int32_t) :: uint64_t
           in vm_bind (evict_all walk s) (vm_terminate n)
         else if tf_cause tf = CAUSE_FAULT_FETCH then fault (tf_epc tf)
         else if tf_cause tf = CAUSE_ILLEGAL_INSTRUCTION
         then
           vm_bind (vm_assert (sint (tf_epc tf) mod 4 = 0) ''tf->epc % 4 == 0'' s) (\<lambda>s.
             if hw_fetch hw (tf_epc tf) = hw_fssr hw then vm_terminate 1 s
             else vm_bind (vm_assert False ''0'' s) (\<lambda>s. out (tf\<lparr>tf_epc := tf_epc tf + 4\<rparr>, s)))
         else if tf_cause tf = CAUSE_FAULT_LOAD \<or> tf_cause tf = CAUSE_FAULT_STORE then fault (tf_badvaddr tf)
         else if sint (tf_cause tf) < 0 \<and> (ucast (tf_cause tf) :: uint8_t) = 2
         then
           if tf_hwacha_cause tf = HWACHA_CAUSE_VF_FAULT_FETCH \<or> tf_hwacha_cause tf = HWACHA_CAUSE_FAULT_LOAD
              \<or> tf_hwacha_cause tf = HWACHA_CAUSE_FAULT_STORE
           then fault (hw_vxcptaux hw)
           else fail
         else fail)"

section \<open>Boot\<close>

text \<open>
  The addresses of the tables and of the trap entry, which the linker fixes. Only hart 0 boots; the two assertions of
  \<^verbatim>\<open>vm_boot\<close> compare constants (the size of \<^verbatim>\<open>trapframe_t\<close>, and \<open>126 < 1024\<close>) and hold. The jump to the relocated copy of the
  supervisor changes no memory.
\<close>

record vm_layout =
  l1pt_addr :: uint64_t
  l2pt_addr :: uint64_t
  l3pt_addr :: uint64_t
  trap_entry :: uint64_t

abbreviation S_PERM :: pte_t where "S_PERM \<equiv> PTE_SW OR PTE_SR OR PTE_SX OR PTE_V"

definition initial_tables :: "vm_layout \<Rightarrow> vm_state \<Rightarrow> vm_state" where
  "initial_tables lay s =
     s\<lparr>l1pt := (l1pt s)[0 := l2pt_addr lay OR PTE_V OR PTE_T],
       l2pt := (l2pt s)[0 := l3pt_addr lay OR PTE_V OR PTE_T],
       l3pt := fold (\<lambda>i t. t[i + MAX_TEST_PAGES := (of_nat i * PGSIZE) OR S_PERM, i := (of_nat i * PGSIZE) OR S_PERM])
                 [0..<MAX_TEST_PAGES] (l3pt s),
       csr_ptbr := l1pt_addr lay,
       csr_status := csr_status s OR SR_VM OR SR_EF,
       csr_evec := trap_entry lay + RELOC 0\<rparr>"

definition init_freelist :: "uint64_t \<Rightarrow> vm_state \<Rightarrow> uint64_t \<times> vm_state" where
  "init_freelist seed s =
     (let seed = word_of_int (1 + (if sint seed < 0 then - (- sint seed mod 63) else sint seed mod 63));
          s = s\<lparr>freelist_head := Some (Node 0), freelist_tail := Some (Node (MAX_TEST_PAGES - 1))\<rparr>;
          (seed, s) = fold (\<lambda>i (seed, s).
              (LFSR_NEXT seed,
               s\<lparr>freelist_nodes := (freelist_nodes s)[i := \<lparr>fl_addr = of_nat (MAX_TEST_PAGES + i) * PGSIZE, fl_next = Some (Node (i + 1))\<rparr>]\<rparr>))
            [0..<MAX_TEST_PAGES] (seed, s)
      in (seed, set_next (Node (MAX_TEST_PAGES - 1)) None s))"

definition vm_boot :: "vm_layout \<Rightarrow> uint64_t \<Rightarrow> uint64_t \<Rightarrow> vm_state \<Rightarrow> trapframe_t \<times> vm_state" where
  "vm_boot lay test_addr seed s =
     (let s = initial_tables lay s;
          s = s\<lparr>l3pt := fold (\<lambda>i t. t[i := 0]) [0..<MAX_TEST_PAGES] (l3pt s)\<rparr>;
          (seed, s) = init_freelist seed s
      in (\<lparr>tf_gpr = replicate 32 0,
           tf_sr = SR_PEI OR push_bit 16 (push_bit 2 1) OR SR_EF OR SR_EA OR SR_S OR SR_U64 OR SR_S64 OR SR_VM,
           tf_epc = test_addr, tf_badvaddr = 0, tf_cause = 0, tf_hwacha_cause = 0,
           tf_hwacha_opaque = replicate 2560 0\<rparr>, s))"

end
