(* ===== verification/List_Loops.thy ===== *)
theory List_Loops
  imports Main
begin

text \<open>
  Loops that initialise an array element by element, shared by the theories on the virtual-memory environment and the benchmark programs.
\<close>

section \<open>Loops over arrays\<close>

lemma fold_list_update:
  "length (fold (\<lambda>i t. t[i := g i]) [0..<n] t) = length t"
  "n \<le> length t \<Longrightarrow> fold (\<lambda>i t. t[i := g i]) [0..<n] t ! k = (if k < n then g k else t ! k)"
proof -
  show len: "length (fold (\<lambda>i t. t[i := g i]) [0..<n] t) = length t" for n by (induction n) simp_all
  show "n \<le> length t \<Longrightarrow> fold (\<lambda>i t. t[i := g i]) [0..<n] t ! k = (if k < n then g k else t ! k)"
  proof (induction n)
    case (Suc n)
    then show ?case by (auto simp: nth_list_update len less_Suc_eq)
  qed simp
qed

lemma fold_list_update_two:
  "length (fold (\<lambda>i t. t[i + m := g i, i := g i]) [0..<n] t) = length t"
  "n \<le> m \<Longrightarrow> n + m \<le> length t \<Longrightarrow> fold (\<lambda>i t. t[i + m := g i, i := g i]) [0..<n] t ! k =
     (if k < n then g k else if m \<le> k \<and> k < m + n then g (k - m) else t ! k)"
proof -
  show len: "length (fold (\<lambda>i t. t[i + m := g i, i := g i]) [0..<n] t) = length t" for n by (induction n) simp_all
  show "n \<le> m \<Longrightarrow> n + m \<le> length t \<Longrightarrow> fold (\<lambda>i t. t[i + m := g i, i := g i]) [0..<n] t ! k =
     (if k < n then g k else if m \<le> k \<and> k < m + n then g (k - m) else t ! k)"
  proof (induction n)
    case (Suc n)
    then show ?case by (auto simp: nth_list_update len less_Suc_eq)
  qed auto
qed

end
