(* ===== verification/Vm_Env_Correct.thy ===== *)
theory Vm_Env_Correct
  imports Vm_Env List_Loops
begin

text \<open>
  Correctness of the paging environment. \<open>vm_inv\<close> is the invariant: which pages have faulted, in which order, which frame
  each of them has, and the shape of the free list and of the page table. \<open>vm_exec\<close> runs the environment beside an
  abstract user memory without paging; the lemmas show that the two cannot be told apart, that no assertion fails, and that the
  exit system call copies every page back.
\<close>

section \<open>Addresses\<close>

text \<open>The user pages are the pages 1 to 62; the address of a page and the relocated one.\<close>

lemma user_addr_page:
  assumes "user_addr addr"
  shows "1 \<le> unat (addr div PGSIZE)" and "unat (addr div PGSIZE) < 63"
proof -
  have "unat PGSIZE \<le> unat addr" "unat addr < unat (RELOC 0)" using assms by (simp_all add: user_addr_def word_le_nat_alt word_less_nat_alt)
  then have "8192 \<le> unat addr" "unat addr < 8192 * 63" by (simp_all add: RELOC_def)
  then show "1 \<le> unat (addr div PGSIZE)" "unat (addr div PGSIZE) < 63" by (simp_all add: unat_div less_eq_div_iff_mult_less_eq div_less_iff_less_mult)
qed

lemma page_align:
  assumes "user_addr addr"
  shows "addr div PGSIZE * PGSIZE div PGSIZE = addr div PGSIZE"
    and "unat (RELOC (addr div PGSIZE * PGSIZE) div PGSIZE) = unat (addr div PGSIZE) + 63"
proof -
  define i where "i = unat (addr div PGSIZE)"
  have i: "i < 63" unfolding i_def by (rule user_addr_page(2) [OF assms])
  have u: "unat (addr div PGSIZE * PGSIZE) = i * 8192" using i by (subst unat_mult_small) (simp_all add: i_def)
  show "addr div PGSIZE * PGSIZE div PGSIZE = addr div PGSIZE"
    unfolding word_unat_eq_iff unat_div [of "addr div PGSIZE * PGSIZE"] u by (simp add: i_def)
  have "unat (RELOC (addr div PGSIZE * PGSIZE)) = i * 8192 + 63 * 8192"
    unfolding RELOC_def using i by (subst unat_add_small) (simp_all add: u)
  then show "unat (RELOC (addr div PGSIZE * PGSIZE) div PGSIZE) = i + 63" by (simp add: unat_div)
qed

lemma user_addr_of_page: "1 \<le> i \<Longrightarrow> i < 63 \<Longrightarrow> user_addr (of_nat i * PGSIZE) \<and> unat (of_nat i * PGSIZE div PGSIZE) = i"
proof -
  assume i: "1 \<le> i" "i < 63"
  have u: "unat (of_nat i * PGSIZE) = i * 8192" using i by (subst unat_mult_small) (simp_all add: unat_of_nat)
  then show ?thesis using i by (simp add: user_addr_def word_le_nat_alt word_less_nat_alt RELOC_def unat_div)
qed

text \<open>A frame address with permission bits below the page size.\<close>

lemma frame_or:
  assumes "n < 1000" and "unat p < 8192"
  shows "unat (of_nat n * PGSIZE OR p) = n * 8192 + unat p"
proof -
  have u: "unat (of_nat n * PGSIZE :: uint64_t) = n * 8192" using assms by (subst unat_mult_small) (simp_all add: unat_of_nat)
  show ?thesis using unat_or_disjoint [of 13 "of_nat n * PGSIZE" p] assms by (simp add: u)
qed


section \<open>The page-table walk\<close>

text \<open>
  What the environment relies on of the hardware: a walk of the third-level table finds the frame of the entry of that page
  if the entry is valid, and faults otherwise.
\<close>

locale page_walk =
  fixes walk :: vm_walk
  assumes walk_entry: "v < length t \<Longrightarrow> walk t v = (if t ! v AND PTE_V = 0 then None else Some (unat (t ! v) div 8192))"

definition pte_walk :: vm_walk where
  "pte_walk t v = (if v < length t \<and> t ! v AND PTE_V \<noteq> 0 then Some (unat (t ! v) div 8192) else None)"

interpretation pw: page_walk pte_walk
  by unfold_locales (simp add: pte_walk_def)

section \<open>The invariant\<close>

abbreviation U_PERM :: pte_t where "U_PERM \<equiv> PTE_UW OR PTE_UR OR PTE_UX OR PTE_SW OR PTE_SR OR PTE_SX OR PTE_V"

definition frame_addr :: "nat \<Rightarrow> pte_t" where
  "frame_addr k = of_nat (MAX_TEST_PAGES + k) * PGSIZE"

definition free_node :: "nat \<Rightarrow> freelist_t" where
  "free_node k = \<lparr>fl_addr = frame_addr k, fl_next = (if k < 62 then Some (Node (k + 1)) else None)\<rparr>"

text \<open>\<open>us\<close> are the pages that have faulted, in order: page \<open>us ! k\<close> has frame \<open>k\<close>.\<close>

definition vm_inv :: "nat list \<Rightarrow> vm_state \<Rightarrow> bool" where
  "vm_inv us s \<longleftrightarrow>
     distinct us \<and> set us \<subseteq> {1..<MAX_TEST_PAGES} \<and>
     length (l3pt s) = PTES_PER_PT \<and> length (user_mapping s) = MAX_TEST_PAGES \<and> length (freelist_nodes s) = MAX_TEST_PAGES \<and>
     (\<forall>k<MAX_TEST_PAGES. freelist_nodes s ! k = free_node k) \<and>
     freelist_head s = Some (Node (length us)) \<and>
     freelist_tail s = (if length us = 62 then None else Some (Node 62)) \<and>
     (\<forall>i<MAX_TEST_PAGES. l3pt s ! (i + MAX_TEST_PAGES) = of_nat i * PGSIZE OR S_PERM) \<and>
     (\<forall>k<length us. l3pt s ! (us ! k) = frame_addr k OR U_PERM \<and> fl_addr (user_mapping s ! (us ! k)) = frame_addr k) \<and>
     (\<forall>i<MAX_TEST_PAGES. i \<notin> set us \<longrightarrow> l3pt s ! i = 0 \<and> fl_addr (user_mapping s ! i) = 0)"

text \<open>The state the loader leaves: the arrays have their declared sizes and the uninitialised ones are zero.\<close>

definition vm_loaded :: "vm_state \<Rightarrow> bool" where
  "vm_loaded s \<longleftrightarrow> length (l1pt s) = PTES_PER_PT \<and> length (l2pt s) = PTES_PER_PT \<and> length (l3pt s) = PTES_PER_PT
     \<and> user_mapping s = replicate MAX_TEST_PAGES \<lparr>fl_addr = 0, fl_next = None\<rparr> \<and> length (freelist_nodes s) = MAX_TEST_PAGES"

lemma init_freelist_nodes:
  "snd (fold (\<lambda>i (seed, s). (LFSR_NEXT seed, s\<lparr>freelist_nodes := (freelist_nodes s)[i := g i]\<rparr>)) [0..<n] (seed, s)) =
     s\<lparr>freelist_nodes := fold (\<lambda>i t. t[i := g i]) [0..<n] (freelist_nodes s)\<rparr>"
  by (induction n) (simp_all add: split_def)

lemma vm_boot_state:
  "snd (vm_boot lay test_addr seed s) =
     s\<lparr>l1pt := (l1pt s)[0 := l2pt_addr lay OR PTE_V OR PTE_T], l2pt := (l2pt s)[0 := l3pt_addr lay OR PTE_V OR PTE_T],
       l3pt := fold (\<lambda>i t. t[i := 0]) [0..<63]
         (fold (\<lambda>i t. t[i + 63 := (of_nat i * PGSIZE) OR S_PERM, i := (of_nat i * PGSIZE) OR S_PERM]) [0..<63] (l3pt s)),
       csr_ptbr := l1pt_addr lay, csr_status := csr_status s OR SR_VM OR SR_EF, csr_evec := trap_entry lay + RELOC 0,
       freelist_head := Some (Node 0), freelist_tail := Some (Node 62),
       freelist_nodes :=
         (let t = fold (\<lambda>i t. t[i := \<lparr>fl_addr = of_nat (63 + i) * PGSIZE, fl_next = Some (Node (i + 1))\<rparr>]) [0..<63] (freelist_nodes s)
          in t[62 := (t ! 62)\<lparr>fl_next := None\<rparr>])\<rparr>"
proof -
  define g where "g i = \<lparr>fl_addr = of_nat (63 + i) * PGSIZE, fl_next = Some (Node (i + 1))\<rparr>" for i
  show ?thesis
    unfolding vm_boot_def init_freelist_def initial_tables_def Let_def g_def [symmetric]
    by (simp add: split_def init_freelist_nodes [of g 63, unfolded split_def] del: upt_rec upt_Suc upt_rec_numeral)
qed

lemma vm_boot_inv:
  assumes "vm_loaded s"
  shows "vm_inv [] (snd (vm_boot lay test_addr seed s))" and "mem (snd (vm_boot lay test_addr seed s)) = mem s"
    and "tohost (snd (vm_boot lay test_addr seed s)) = tohost s"
proof -
  show "mem (snd (vm_boot lay test_addr seed s)) = mem s" "tohost (snd (vm_boot lay test_addr seed s)) = tohost s"
    by (simp_all add: vm_boot_state)
  show "vm_inv [] (snd (vm_boot lay test_addr seed s))"
    unfolding vm_inv_def vm_boot_state using assms
    by (simp add: vm_loaded_def fold_list_update fold_list_update_two nth_list_update free_node_def frame_addr_def Let_def
        del: upt_rec upt_Suc)
qed

section \<open>Faults\<close>

lemma perm_small: "unat U_PERM < 8192" "unat S_PERM < 8192" "U_PERM AND PTE_V = PTE_V" "S_PERM AND PTE_V = PTE_V"
  by simp_all

lemma page_valid:
  assumes "n < 1000" "unat p < 8192" "p AND PTE_V = PTE_V"
  shows "(of_nat n * PGSIZE OR p) AND PTE_V \<noteq> 0" and "unat (of_nat n * PGSIZE OR p) div 8192 = n"
proof -
  have "bit (p AND PTE_V) 0" unfolding assms(3) by simp
  then have "bit ((of_nat n * PGSIZE OR p) AND PTE_V) 0" by (simp only: bit_and_iff bit_or_iff) blast
  then show "(of_nat n * PGSIZE OR p) AND PTE_V \<noteq> 0" by (metis bit_0_eq bot_apply bot_bool_def)
  show "unat (of_nat n * PGSIZE OR p) div 8192 = n" using assms by (simp add: frame_or)
qed

text \<open>What the invariant says of the walk and of the user's view of a page.\<close>

definition uview :: "vm_walk \<Rightarrow> vm_state \<Rightarrow> nat \<Rightarrow> page" where
  "uview walk s i = mem s (case walk (l3pt s) i of None \<Rightarrow> i | Some p \<Rightarrow> p)"

lemma vm_inv_length:
  assumes "vm_inv us s"
  shows "length us \<le> 62" and "k < length us \<Longrightarrow> 1 \<le> us ! k \<and> us ! k < 63"
proof -
  have "set us \<subseteq> {1..<63}" "distinct us" using assms by (simp_all add: vm_inv_def)
  then show "length us \<le> 62" using card_mono [of "{1..<63::nat}" "set us"] by (simp add: distinct_card)
  show "1 \<le> us ! k \<and> us ! k < 63" if "k < length us" using nth_mem [OF that] \<open>set us \<subseteq> {1..<63}\<close> by (auto dest: subsetD)
qed

text \<open>The state after a fault on page \<open>i\<close> when \<open>n\<close> frames are in use.\<close>

definition map_state :: "nat \<Rightarrow> nat \<Rightarrow> vm_state \<Rightarrow> vm_state" where
  "map_state n i s = s\<lparr>freelist_head := Some (Node (n + 1)), freelist_tail := (if n = 61 then None else Some (Node 62)),
     l3pt := (l3pt s)[i := frame_addr n OR U_PERM], user_mapping := (user_mapping s)[i := free_node n]\<rparr>"

definition fault_state :: "nat \<Rightarrow> nat \<Rightarrow> vm_state \<Rightarrow> vm_state" where
  "fault_state n i s = (map_state n i s)\<lparr>mem := (mem s)(63 + n := mem s i)\<rparr>"

lemma vm_inv_room: "vm_inv us s \<Longrightarrow> 1 \<le> i \<Longrightarrow> i < 63 \<Longrightarrow> i \<notin> set us \<Longrightarrow> length us < 62"
proof -
  assume "vm_inv us s" and i: "1 \<le> i" "i < 63" "i \<notin> set us"
  then have "set us \<subseteq> {1..<63}" "distinct us" by (simp_all add: vm_inv_def)
  then have "card (set (i # us)) \<le> card {1..<63::nat}" using i by (intro card_mono) auto
  then show ?thesis using i \<open>distinct us\<close> by (simp add: distinct_card)
qed

lemma vm_inv_map_state:
  assumes "vm_inv us s" and i: "1 \<le> i" "i < 63" "i \<notin> set us"
  shows "vm_inv (us @ [i]) (map_state (length us) i s)"
proof -
  have n: "length us < 62" by (rule vm_inv_room [OF assms])
  have us: "k < length us \<Longrightarrow> us ! k \<noteq> i" for k using i(3) nth_mem by blast
  show ?thesis
    unfolding vm_inv_def map_state_def using assms n us
    by (auto simp: vm_inv_def nth_append nth_list_update free_node_def less_Suc_eq)
qed

lemma vm_inv_mem [simp]: "vm_inv us (s\<lparr>mem := m\<rparr>) = vm_inv us s" "vm_inv us (s\<lparr>tohost := t\<rparr>) = vm_inv us s"
  "vm_inv us (s\<lparr>vector_queue := q\<rparr>) = vm_inv us s"
  by (simp_all add: vm_inv_def)

lemma frame_addr_nonzero: "k < 63 \<Longrightarrow> frame_addr k \<noteq> 0"
proof
  assume k: "k < 63" and "frame_addr k = 0"
  then have "unat (of_nat (63 + k) * PGSIZE OR 0 :: pte_t) = 0" by (simp only: frame_addr_def) simp
  moreover have "unat (of_nat (63 + k) * PGSIZE OR 0 :: pte_t) = (63 + k) * 8192" using k by (subst frame_or) simp_all
  ultimately show False by (metis add_is_0 mult_is_0 zero_neq_numeral)
qed

context page_walk
begin

lemma walk_kernel:
  assumes "vm_inv us s" and "i < 63"
  shows "walk (l3pt s) (i + 63) = Some i"
proof -
  have e: "l3pt s ! (i + 63) = of_nat i * PGSIZE OR S_PERM" "length (l3pt s) = 1024" using assms by (simp_all only: vm_inv_def)
  show ?thesis using page_valid [of i S_PERM] perm_small walk_entry [of "i + 63" "l3pt s"] assms(2) unfolding e by simp
qed

lemma walk_mapped:
  assumes "vm_inv us s" and "k < length us"
  shows "walk (l3pt s) (us ! k) = Some (63 + k)"
proof -
  have e: "l3pt s ! (us ! k) = of_nat (63 + k) * PGSIZE OR U_PERM" "length (l3pt s) = 1024"
    using assms by (simp_all only: vm_inv_def frame_addr_def)
  show ?thesis
    using page_valid [of "63 + k" U_PERM] perm_small walk_entry [of "us ! k" "l3pt s"] vm_inv_length(1) [OF assms(1)]
      vm_inv_length(2) [OF assms] assms(2) unfolding e by simp
qed

lemma walk_unmapped: "vm_inv us s \<Longrightarrow> i < 63 \<Longrightarrow> i \<notin> set us \<Longrightarrow> walk (l3pt s) i = None"
  by (simp add: vm_inv_def walk_entry)

lemma handle_fault_eq:
  assumes inv: "vm_inv us s" and "user_addr addr" and i: "unat (addr div PGSIZE) \<notin> set us"
  shows "handle_fault walk addr s = Inr (fault_state (length us) (unat (addr div PGSIZE)) s)"
proof -
  define i where "i = unat (addr div PGSIZE)"
  have i: "1 \<le> i" "i < 63" "i \<notin> set us" using user_addr_page [OF assms(2)] assms(3) by (simp_all add: i_def)
  define n where "n = length us"
  have n: "n < 62" unfolding n_def by (rule vm_inv_room [OF inv i])
  let ?s = "map_state n i s"
  have inv': "vm_inv (us @ [i]) ?s" unfolding n_def by (rule vm_inv_map_state [OF inv i])
  have w: "walk (l3pt ?s) i = Some (63 + n)" "walk (l3pt ?s) (i + 63) = Some i"
    using walk_mapped [OF inv', of n] walk_kernel [OF inv' i(2)] by (simp_all add: n_def)
  have fn: "freelist_nodes s ! n = free_node n" and hd: "freelist_head s = Some (Node n)" and tl: "freelist_tail s = Some (Node 62)"
    and um: "fl_addr (user_mapping s ! i) = 0" using inv n i by (simp_all add: vm_inv_def n_def)
  have fn61: "freelist_nodes s ! 61 = free_node 61" using inv by (simp add: vm_inv_def)
  have upd: "s\<lparr>freelist_head := h, freelist_tail := Some (Node 62), l3pt := a, user_mapping := b\<rparr> =
      s\<lparr>freelist_head := h, l3pt := a, user_mapping := b\<rparr>" for h a b
    by (rule vm_state.equality) (simp_all add: tl)
  have al: "addr div PGSIZE * PGSIZE div PGSIZE = addr div PGSIZE" "unat (RELOC (addr div PGSIZE * PGSIZE) div PGSIZE) = i + 63"
    using page_align [OF assms(2)] by (simp_all add: i_def)
  have "handle_fault walk addr s = copy_page walk (addr div PGSIZE * PGSIZE) (RELOC (addr div PGSIZE * PGSIZE)) ?s"
    using n assms(2) um
    by (cases "n = 61") (simp_all add: handle_fault_def vm_assert_def al i_def [symmetric] hd fn fn61 tl free_node_def map_state_def Let_def upd)
  also have "\<dots> = Inr (fault_state n i s)"
    by (simp add: copy_page_def al w i_def [symmetric] fault_state_def) (simp add: map_state_def)
  finally show ?thesis by (simp add: n_def i_def)
qed

lemma handle_fault_Inr:
  assumes inv: "vm_inv us s" and "handle_fault walk addr s = Inr s'"
  shows "user_addr addr" and "unat (addr div PGSIZE) \<notin> set us"
proof -
  show u: "user_addr addr" using assms(2) by (rule_tac ccontr) (simp add: handle_fault_def vm_assert_def vm_terminate_def)
  show "unat (addr div PGSIZE) \<notin> set us"
  proof
    assume "unat (addr div PGSIZE) \<in> set us"
    then obtain k where k: "k < length us" "us ! k = unat (addr div PGSIZE)" by (auto simp: in_set_conv_nth)
    then have "fl_addr (user_mapping s ! unat (addr div PGSIZE)) = frame_addr k" using inv by (auto simp: vm_inv_def)
    moreover have "frame_addr k \<noteq> 0" using vm_inv_length(1) [OF inv] k(1) by (intro frame_addr_nonzero) simp
    moreover have "freelist_head s = Some (Node (length us))" using inv by (simp add: vm_inv_def)
    ultimately show False using assms(2) u
      by (simp add: handle_fault_def vm_assert_def vm_terminate_def page_align [OF u] Let_def split: if_splits)
  qed
qed

lemma uview_fault:
  assumes inv: "vm_inv us s" and i: "1 \<le> i" "i < 63" "i \<notin> set us" and j: "1 \<le> j" "j < 63"
  shows "uview walk (fault_state (length us) i s) j = uview walk s j"
proof -
  let ?s = "map_state (length us) i s"
  have inv': "vm_inv (us @ [i]) ?s" by (rule vm_inv_map_state [OF inv i])
  have m: "uview walk (fault_state (length us) i s) j =
      ((mem s)(63 + length us := mem s i)) (case walk (l3pt ?s) j of None \<Rightarrow> j | Some p \<Rightarrow> p)"
    by (simp add: uview_def fault_state_def)
  consider k where "k < length us" "us ! k = j" | "j \<notin> set us" "j = i" | "j \<notin> set us" "j \<noteq> i" by (auto simp: in_set_conv_nth)
  then show ?thesis
  proof cases
    case (1 k)
    then have "walk (l3pt ?s) j = Some (63 + k)" "walk (l3pt s) j = Some (63 + k)"
      using walk_mapped [OF inv', of k] walk_mapped [OF inv, of k] by (simp_all add: nth_append)
    then show ?thesis unfolding m using 1 by (simp add: uview_def)
  next
    case 2
    then have "walk (l3pt ?s) j = Some (63 + length us)" "walk (l3pt s) j = None"
      using walk_mapped [OF inv', of "length us"] walk_unmapped [OF inv j(2)] by (simp_all add: nth_append)
    then show ?thesis unfolding m using 2 by (simp add: uview_def)
  next
    case 3
    then have "walk (l3pt ?s) j = None" "walk (l3pt s) j = None"
      using walk_unmapped [OF inv' j(2)] walk_unmapped [OF inv j(2)] by simp_all
    then show ?thesis unfolding m using j by (simp add: uview_def)
  qed
qed

lemma uview_write:
  assumes inv: "vm_inv us s" and i: "1 \<le> i" "i < 63" and p: "walk (l3pt s) i = Some p" and j: "1 \<le> j" "j < 63"
  shows "uview walk (s\<lparr>mem := (mem s)(p := d)\<rparr>) j = (if j = i then d else uview walk s j)"
proof -
  have "i \<in> set us" using walk_unmapped [OF inv i(2)] p by auto
  then obtain k where k: "k < length us" "us ! k = i" by (auto simp: in_set_conv_nth)
  have pk: "p = 63 + k" using walk_mapped [OF inv k(1)] p k(2) by simp
  consider l where "l < length us" "us ! l = j" | "j \<notin> set us" by (auto simp: in_set_conv_nth)
  then show ?thesis
  proof cases
    case (1 l)
    have "(j = i) = (l = k)" using 1 k inv by (auto simp: vm_inv_def nth_eq_iff_index_eq)
    then show ?thesis using walk_mapped [OF inv, of l] 1 by (simp add: uview_def pk)
  next
    case 2
    then show ?thesis using walk_unmapped [OF inv j(2)] j \<open>i \<in> set us\<close> by (auto simp: uview_def pk)
  qed
qed

end

section \<open>Traps\<close>

text \<open>The address a trap faults at, if it is a page fault of the program or of the vector unit.\<close>

definition trap_fault_addr :: "vm_hw \<Rightarrow> trapframe_t \<Rightarrow> uint64_t option" where
  "trap_fault_addr hw tf =
     (if tf_cause tf = CAUSE_FAULT_FETCH then Some (tf_epc tf)
      else if tf_cause tf = CAUSE_FAULT_LOAD \<or> tf_cause tf = CAUSE_FAULT_STORE then Some (tf_badvaddr tf)
      else if sint (tf_cause tf) < 0 \<and> (ucast (tf_cause tf) :: uint8_t) = 2 \<and> tf_hwacha_cause tf \<in> {5, 10, 11} then Some (hw_vxcptaux hw)
      else None)"

definition resume :: "vm_hw \<Rightarrow> trapframe_t \<Rightarrow> vm_state \<Rightarrow> (trapframe_t \<times> vm_state) vm_result" where
  "resume hw tf s =
     (if tf_sr tf AND SR_PS = 0 \<and> tf_sr tf AND SR_EA \<noteq> 0
      then vm_bind (restore_vector hw tf s) (\<lambda>s. Inr (tf\<lparr>tf_sr := tf_sr tf OR SR_PEI\<rparr>, s))
      else Inr (tf, s))"

definition vector_ok :: "vm_hw \<Rightarrow> trapframe_t \<Rightarrow> bool" where
  "vector_ok hw tf \<longleftrightarrow> (tf_sr tf AND SR_PS = 0 \<and> tf_sr tf AND SR_EA \<noteq> 0 \<and> hw_impl hw = IMPL_ROCKET
     \<longrightarrow> do_vxcptrestore (tf_hwacha_opaque tf) \<noteq> None)"

lemma handle_trap_fault:
  assumes "trap_fault_addr hw tf = Some a"
  shows "handle_trap walk hw tf s = vm_bind (handle_fault walk a s) (resume hw tf)"
proof -
  have "tf_cause tf \<noteq> CAUSE_SYSCALL" "tf_cause tf \<noteq> CAUSE_ILLEGAL_INSTRUCTION" using assms by (auto simp: trap_fault_addr_def)
  then show ?thesis using assms
    by (cases "handle_fault walk a s") (auto simp: handle_trap_def trap_fault_addr_def resume_def Let_def split: if_splits)
qed

lemma handle_trap_Inr:
  assumes "handle_trap walk hw tf s = Inr (tf', s')"
  obtains a where "trap_fault_addr hw tf = Some a"
  using assms
  by (auto simp: handle_trap_def Let_def trap_fault_addr_def vm_assert_def vm_terminate_def vm_bind_def split: if_splits sum.splits)

lemma resume_Inr:
  assumes "resume hw tf s = Inr (tf', s')"
  obtains q where "s' = s\<lparr>vector_queue := q\<rparr>"
proof -
  have "s' = s \<or> (\<exists>q. s' = s\<lparr>vector_queue := q\<rparr>)" using assms
    by (auto simp: resume_def restore_vector_def split: if_splits option.splits)
  then show ?thesis using that [of "vector_queue s"] that by auto
qed

lemma resume_ok: "vector_ok hw tf \<Longrightarrow> \<exists>tf' s'. resume hw tf s = Inr (tf', s')"
  by (auto simp: resume_def restore_vector_def vector_ok_def)

context page_walk
begin

lemma trap_step:
  assumes inv: "vm_inv us s" and "handle_trap walk hw tf s = Inr (tf', s')"
  obtains a i q where "trap_fault_addr hw tf = Some a" "i = unat (a div PGSIZE)" "1 \<le> i" "i < 63" "i \<notin> set us"
    "s' = (fault_state (length us) i s)\<lparr>vector_queue := q\<rparr>"
proof -
  obtain a where a: "trap_fault_addr hw tf = Some a" using assms(2) by (rule handle_trap_Inr)
  then obtain s1 where s1: "handle_fault walk a s = Inr s1" "resume hw tf s1 = Inr (tf', s')"
    using assms(2) handle_trap_fault [OF a, of walk s] by (cases "handle_fault walk a s") simp_all
  have u: "user_addr a" "unat (a div PGSIZE) \<notin> set us" by (rule handle_fault_Inr [OF inv s1(1)])+
  have e: "s1 = fault_state (length us) (unat (a div PGSIZE)) s" using handle_fault_eq [OF inv u] s1(1) by simp
  obtain q where "s' = s1\<lparr>vector_queue := q\<rparr>" using s1(2) by (rule resume_Inr)
  then show thesis using that [OF a refl user_addr_page [OF u(1)] u(2), of q] by (simp add: e)
qed

end

section \<open>Executions\<close>

text \<open>
  An execution of the environment beside the memory the program should see: booting, a trap that resumes the program, and a
  write of the program to a page that is mapped.
\<close>

inductive vm_exec :: "vm_walk \<Rightarrow> vm_state \<Rightarrow> (nat \<Rightarrow> page) \<Rightarrow> bool" for walk where
  boot: "vm_loaded s \<Longrightarrow> vm_exec walk (snd (vm_boot lay test_addr seed s)) (mem s)"
| trap: "vm_exec walk s M \<Longrightarrow> handle_trap walk hw tf s = Inr (tf', s') \<Longrightarrow> vm_exec walk s' M"
| user_write: "vm_exec walk s M \<Longrightarrow> 1 \<le> i \<Longrightarrow> i < 63 \<Longrightarrow> walk (l3pt s) i = Some p \<Longrightarrow>
    vm_exec walk (s\<lparr>mem := (mem s)(p := d)\<rparr>) (M(i := d))"

context page_walk
begin

lemma fault_state_inv: "vm_inv us s \<Longrightarrow> 1 \<le> i \<Longrightarrow> i < 63 \<Longrightarrow> i \<notin> set us \<Longrightarrow> vm_inv (us @ [i]) (fault_state (length us) i s)"
  by (simp add: fault_state_def vm_inv_map_state)

lemma exec_inv:
  assumes "vm_exec walk s M"
  shows "\<exists>us. vm_inv us s \<and> (\<forall>j. 1 \<le> j \<and> j < 63 \<longrightarrow> uview walk s j = M j)"
  using assms
proof (induction rule: vm_exec.induct)
  case (boot s lay test_addr seed)
  have inv: "vm_inv [] (snd (vm_boot lay test_addr seed s))" by (rule vm_boot_inv(1) [OF boot])
  have "uview walk (snd (vm_boot lay test_addr seed s)) j = mem s j" if "1 \<le> j" "j < 63" for j
    using walk_unmapped [OF inv that(2)] by (simp add: uview_def vm_boot_inv(2) [OF boot])
  then show ?case using inv by blast
next
  case (trap s M hw tf tf' s')
  then obtain us where inv: "vm_inv us s" and M: "\<And>j. 1 \<le> j \<Longrightarrow> j < 63 \<Longrightarrow> uview walk s j = M j" by blast
  obtain a i q where i: "1 \<le> i" "i < 63" "i \<notin> set us" and s': "s' = (fault_state (length us) i s)\<lparr>vector_queue := q\<rparr>"
    using trap_step [OF inv trap.hyps(2)] by metis
  have "vm_inv (us @ [i]) s'" unfolding s' using fault_state_inv [OF inv i] by simp
  moreover have "uview walk s' j = M j" if "1 \<le> j" "j < 63" for j
  proof -
    have "uview walk s' j = uview walk (fault_state (length us) i s) j" by (simp add: s' uview_def)
    then show ?thesis using uview_fault [OF inv i that] M [OF that] by simp
  qed
  ultimately show ?case by blast
next
  case (user_write s M i p d)
  then obtain us where inv: "vm_inv us s" and M: "\<And>j. 1 \<le> j \<Longrightarrow> j < 63 \<Longrightarrow> uview walk s j = M j" by blast
  have "uview walk (s\<lparr>mem := (mem s)(p := d)\<rparr>) j = (M(i := d)) j" if "1 \<le> j" "j < 63" for j
    using uview_write [OF inv user_write.hyps(2-4) that] M [OF that] by simp
  then show ?case using inv by (metis vm_inv_mem(1))
qed

end

section \<open>Eviction\<close>

lemma set_next_keeps [simp]:
  "l3pt (set_next t p s) = l3pt s" "mem (set_next t p s) = mem s" "tohost (set_next t p s) = tohost s"
  "length (user_mapping (set_next t p s)) = length (user_mapping s)"
  by (cases t, simp, simp)+

lemma set_next_addr [simp]:
  "i < length (user_mapping s) \<Longrightarrow> fl_addr (user_mapping (set_next t p s) ! i) = fl_addr (user_mapping s ! i)"
proof (cases t)
  case (Mapping k)
  assume "i < length (user_mapping s)"
  then show ?thesis by (cases "k = i") (simp_all add: Mapping)
qed simp

text \<open>The loop of the exit system call, when it reaches page \<open>j\<close>: the pages below have been copied back.\<close>

definition evicted :: "vm_walk \<Rightarrow> vm_state \<Rightarrow> nat \<Rightarrow> vm_state \<Rightarrow> bool" where
  "evicted walk s0 j s \<longleftrightarrow>
     l3pt s = l3pt s0 \<and> length (user_mapping s) = MAX_TEST_PAGES \<and> tohost s = tohost s0 \<and>
     (\<forall>i<MAX_TEST_PAGES. j \<le> i \<longrightarrow> fl_addr (user_mapping s ! i) = fl_addr (user_mapping s0 ! i)) \<and>
     mem s = (\<lambda>i. if 1 \<le> i \<and> i < j then uview walk s0 i else mem s0 i)"

context page_walk
begin

text \<open>Evicting a page that is mapped.\<close>

lemma evict_mapped:
  assumes inv: "vm_inv us s0" and k: "k < length us" "us ! k = j" and l3: "l3pt s = l3pt s0"
    and fl: "fl_addr (user_mapping s ! j) = fl_addr (user_mapping s0 ! j)"
  shows "evict walk (of_nat j * PGSIZE) s =
    (let s = s\<lparr>mem := (mem s)(j := mem s (63 + k)), user_mapping := (user_mapping s)[j := (user_mapping s ! j)\<lparr>fl_addr := 0\<rparr>]\<rparr>
     in Inr (case freelist_tail s of None \<Rightarrow> s\<lparr>freelist_head := Some (Mapping j), freelist_tail := Some (Mapping j)\<rparr>
        | Some t \<Rightarrow> (set_next t (Some (Mapping j)) s)\<lparr>freelist_tail := Some (Mapping j)\<rparr>))"
proof -
  let ?a = "of_nat j * PGSIZE :: uint64_t"
  have j: "1 \<le> j" "j < 63" using vm_inv_length(2) [OF inv k(1)] k(2) by simp_all
  have u: "user_addr ?a" "unat (?a div PGSIZE) = j" using user_addr_of_page [OF j] by simp_all
  note al = page_align [OF u(1)]
  have w: "walk (l3pt s0) j = Some (63 + k)" "walk (l3pt s0) (j + 63) = Some j"
    using walk_mapped [OF inv k(1)] walk_kernel [OF inv j(2)] k(2) by simp_all
  have "fl_addr (user_mapping s0 ! j) = frame_addr k" using inv k by (auto simp: vm_inv_def)
  then have nz: "fl_addr (user_mapping s ! j) \<noteq> 0" using fl frame_addr_nonzero [of k] k(1) vm_inv_length(1) [OF inv] by simp
  have c: "copy_page walk (RELOC (?a div PGSIZE * PGSIZE)) (?a div PGSIZE * PGSIZE) s = Inr (s\<lparr>mem := (mem s)(j := mem s (63 + k))\<rparr>)"
    unfolding copy_page_def al u l3 w by simp
  show ?thesis
    unfolding evict_def vm_assert_def if_P [OF u(1)] vm_bind_simps Let_def c al(1) u(2) node_at.simps if_P [OF nz]
    by (simp split: option.split)
qed

lemma evict_step:
  assumes inv: "vm_inv us s0" and E: "evicted walk s0 j s" and j: "1 \<le> j" "j < 63"
  shows "\<exists>s'. evict walk (of_nat j * PGSIZE) s = Inr s' \<and> evicted walk s0 (Suc j) s'"
proof -
  have len: "length (user_mapping s) = 63" and fl: "fl_addr (user_mapping s ! j) = fl_addr (user_mapping s0 ! j)"
    and m: "mem s = (\<lambda>i. if 1 \<le> i \<and> i < j then uview walk s0 i else mem s0 i)" and l3: "l3pt s = l3pt s0"
    using E j by (simp_all add: evicted_def)
  show ?thesis
  proof (cases "j \<in> set us")
    case True
    then obtain k where k: "k < length us" "us ! k = j" by (auto simp: in_set_conv_nth)
    have "walk (l3pt s0) j = Some (63 + k)" using walk_mapped [OF inv k(1)] k(2) by simp
    then have m': "(mem s)(j := mem s (63 + k)) = (\<lambda>i. if 1 \<le> i \<and> i < Suc j then uview walk s0 i else mem s0 i)"
      using j by (auto simp: m uview_def fun_eq_iff less_Suc_eq)
    obtain s' where s': "evict walk (of_nat j * PGSIZE) s = Inr s'" "l3pt s' = l3pt s" "length (user_mapping s') = 63" "tohost s' = tohost s"
        "\<And>i. i < 63 \<Longrightarrow> Suc j \<le> i \<Longrightarrow> fl_addr (user_mapping s' ! i) = fl_addr (user_mapping s ! i)" "mem s' = (mem s)(j := mem s (63 + k))"
      using evict_mapped [OF inv k l3 fl, unfolded Let_def] by (rule that) (simp_all add: len split: option.split)
    then have "evicted walk s0 (Suc j) s'" using E unfolding evicted_def m' by simp
    then show ?thesis using s'(1) by blast
  next
    case False
    have "fl_addr (user_mapping s ! j) = 0" using inv False j fl by (simp add: vm_inv_def)
    moreover have u: "user_addr (of_nat j * PGSIZE)" "unat (of_nat j * PGSIZE div PGSIZE) = j" using user_addr_of_page [OF j] by simp_all
    ultimately have "evict walk (of_nat j * PGSIZE) s = Inr s" by (simp add: evict_def vm_assert_def page_align(1) [OF u(1)] Let_def)
    moreover have "mem s = (\<lambda>i. if 1 \<le> i \<and> i < Suc j then uview walk s0 i else mem s0 i)"
      using j walk_unmapped [OF inv j(2) False] by (auto simp: m uview_def fun_eq_iff less_Suc_eq)
    then have "evicted walk s0 (Suc j) s" using E unfolding evicted_def by simp
    ultimately show ?thesis by blast
  qed
qed

text \<open>
  A flaw of the free list that the exit system call does not run into: once every page has faulted one node is still free, but
  the tail is already empty, and an eviction then makes the evicted page's node, whose address it has just cleared, the whole list.
\<close>

lemma evict_drops_frame:
  assumes inv: "vm_inv us s" and "length us = 62" and "j \<in> set us"
  shows "freelist_head s = Some (Node 62) \<and> fl_addr (node_at (Node 62) s) = frame_addr 62"
    and "\<exists>s'. evict walk (of_nat j * PGSIZE) s = Inr s' \<and> freelist_head s' = Some (Mapping j) \<and> node_at (Mapping j) s' = \<lparr>fl_addr = 0, fl_next = fl_next (node_at (Mapping j) s)\<rparr>"
proof -
  show "freelist_head s = Some (Node 62) \<and> fl_addr (node_at (Node 62) s) = frame_addr 62"
    using inv assms(2) by (simp add: vm_inv_def free_node_def)
  obtain k where k: "k < length us" "us ! k = j" using assms(3) by (auto simp: in_set_conv_nth)
  have "freelist_tail s = None" "j < length (user_mapping s)" using inv assms(2,3) by (auto simp: vm_inv_def)
  then show "\<exists>s'. evict walk (of_nat j * PGSIZE) s = Inr s' \<and> freelist_head s' = Some (Mapping j) \<and> node_at (Mapping j) s' = \<lparr>fl_addr = 0, fl_next = fl_next (node_at (Mapping j) s)\<rparr>"
    unfolding evict_mapped [OF inv k refl refl] by (cases "user_mapping s ! j") simp
qed

lemma evict_all_loop:
  assumes inv: "vm_inv us s0" and "n \<le> 62"
  shows "\<exists>s'. fold (\<lambda>i m. vm_bind m (evict walk (of_nat i * PGSIZE))) [1..<Suc n] (Inr s0) = Inr s' \<and> evicted walk s0 (Suc n) s'"
  using assms(2)
proof (induction n)
  case 0
  have "evicted walk s0 1 s0" using inv by (auto simp: evicted_def vm_inv_def fun_eq_iff)
  then show ?case by simp
next
  case (Suc n)
  then obtain s' where s': "fold (\<lambda>i m. vm_bind m (evict walk (of_nat i * PGSIZE))) [1..<Suc n] (Inr s0) = Inr s'"
    "evicted walk s0 (Suc n) s'" by auto
  obtain s'' where s'': "evict walk (of_nat (Suc n) * PGSIZE) s' = Inr s''" "evicted walk s0 (Suc (Suc n)) s''"
    using evict_step [OF inv s'(2)] Suc.prems by auto
  have upt: "[1..<Suc (Suc n)] = [1..<Suc n] @ [Suc n]" by simp
  show ?case unfolding upt fold_append o_apply s'(1) using s'' by (simp del: of_nat_Suc)
qed

lemma exit_copies_back:
  assumes inv: "vm_inv us s" and "tf_cause tf = CAUSE_SYSCALL"
  shows "\<exists>s'. handle_trap walk hw tf s = Inl (Terminated (signed (ucast (tf_gpr tf ! 18) :: int32_t)), s')
    \<and> tohost s' = tohost s @ [signed (ucast (tf_gpr tf ! 18) :: int32_t)]
    \<and> (\<forall>i. 1 \<le> i \<and> i < 63 \<longrightarrow> mem s' i = uview walk s i)"
proof -
  obtain s' where s': "evict_all walk s = Inr s'" "evicted walk s 63 s'"
    using evict_all_loop [OF inv, of 62] unfolding evict_all_def by auto
  have "mem s' = (\<lambda>i. if 1 \<le> i \<and> i < 63 then uview walk s i else mem s i)" "tohost s' = tohost s"
    using s'(2) by (simp_all add: evicted_def)
  then show ?thesis using s'(1) assms(2) by (simp add: handle_trap_def Let_def vm_terminate_def)
qed

end

lemma evict_loses_frame:
  assumes "page_walk walk" and "vm_inv us s" and "length us = 62" and "j \<in> set us"
  shows "freelist_head s = Some (Node 62) \<and> fl_addr (node_at (Node 62) s) = frame_addr 62 \<and>
    (\<exists>s'. evict walk (of_nat j * PGSIZE) s = Inr s' \<and> freelist_head s' = Some (Mapping j) \<and> fl_addr (node_at (Mapping j) s') = 0)"
proof -
  have "fl_addr \<lparr>fl_addr = 0, fl_next = n\<rparr> = 0" for n by simp
  then show ?thesis using page_walk.evict_drops_frame [OF assms] by metis
qed

section \<open>Console\<close>

definition hex_digit_value :: "char \<Rightarrow> uint64_t" where
  "hex_digit_value c = (let n = of_char c in if n < 58 then n - 48 else n - 87)"

definition hex_value :: "string \<Rightarrow> uint64_t" where
  "hex_value str = foldl (\<lambda>v c. 16 * v + hex_digit_value c) 0 str"

lemma of_char_small: "unat e < 256 \<Longrightarrow> (of_char (char_of (unat e)) :: uint64_t) = e"
proof -
  assume "unat e < 256"
  then have "of_char (char_of (unat e)) = unat e" by simp
  then show ?thesis using of_nat_of_char [of "char_of (unat e)", where 'a = uint64_t] by simp
qed

lemma hex_digit_value_digit: "d < 16 \<Longrightarrow> hex_digit_value (hex_digit d) = d"
proof -
  assume "d < 16"
  then have d: "unat d < 16" by (simp add: word_less_nat_alt)
  have u: "unat (d + 48) = unat d + 48" "unat (d + 87) = unat d + 87" using d by (simp_all add: unat_add_small)
  show ?thesis
  proof (cases "d < 10")
    case True
    then have "d + 48 < 58" by (simp add: word_less_nat_alt u)
    then show ?thesis using True of_char_small [of "d + 48"] d u by (simp add: hex_digit_value_def hex_digit_def)
  next
    case False
    then have "\<not> d + 87 < 58" by (simp add: word_less_nat_alt u)
    then show ?thesis using False of_char_small [of "d + 87"] d u by (simp add: hex_digit_value_def hex_digit_def)
  qed
qed

lemma hex_value_digits: "hex_value (hex_digits n x) = take_bit (4 * n) x \<and> length (hex_digits n x) = n"
proof (induction n arbitrary: x)
  case (Suc n)
  have m: "x AND 0xF = take_bit 4 x" by (simp add: take_bit_eq_mask mask_numeral)
  have lt: "x AND 0xF < 16" unfolding m by (simp add: word_less_nat_alt unat_take_bit_mod)
  have "take_bit (4 * Suc n) x = push_bit 4 (take_bit (4 * n) (drop_bit 4 x)) OR take_bit 4 x"
    by (rule bit_word_eqI) (auto simp: bit_simps)
  also have "\<dots> = push_bit 4 (take_bit (4 * n) (drop_bit 4 x)) + take_bit 4 x"
    by (rule disjunctive_add [symmetric]) (auto simp: bit_simps)
  also have "\<dots> = 16 * take_bit (4 * n) (drop_bit 4 x) + (x AND 0xF)" by (simp add: m push_bit_eq_mult)
  finally have "take_bit (4 * Suc n) x = 16 * take_bit (4 * n) (drop_bit 4 x) + (x AND 0xF)" .
  then show ?case using Suc [of "drop_bit 4 x"] by (simp add: hex_value_def hex_digit_value_digit [OF lt])
qed (simp add: hex_value_def)

lemma cputstring_tohost:
  "tohost (cputstring str s) = tohost s @ map (\<lambda>c. 0x0101000000000000 OR ucast c) (map of_char str @ [10 :: uint8_t])"
proof -
  have "tohost (fold (\<lambda>c. cputchar (of_char c)) str s) = tohost s @ map (\<lambda>c. 0x0101000000000000 OR ucast (of_char c :: uint8_t)) str"
    by (induction str arbitrary: s) (simp_all add: cputchar_def)
  then show ?thesis by (simp add: cputstring_def cputchar_def)
qed

section \<open>The shift register\<close>

text \<open>The register on six bits, as arithmetic.\<close>

definition lfsr :: "nat \<Rightarrow> nat" where
  "lfsr n = (n + n div 2) mod 2 * 32 + n div 2"

lemma unat_LFSR_NEXT:
  assumes "unat x < 64"
  shows "unat (LFSR_NEXT x) = lfsr (unat x)"
proof -
  have hi: "\<not> bit x n" if "6 \<le> n" for n
  proof -
    have "take_bit 6 x = x" using assms by (simp add: word_unat_eq_iff unat_take_bit_mod)
    then have "bit x n = bit (take_bit 6 x) n" by simp
    then show ?thesis using that by (simp add: bit_take_bit_iff)
  qed
  have d: "signed_drop_bit 1 x = drop_bit 1 x"
    by (rule bit_word_eqI) (auto simp: bit_signed_drop_bit_iff bit_drop_bit_eq hi)
  have u: "unat (drop_bit 1 x) = unat x div 2" by (simp add: unat_drop_bit_div)
  have b: "(x XOR drop_bit 1 x) AND 1 = of_bool (odd (unat x) \<noteq> odd (unat x div 2))"
  proof -
    have "bit x 0 = odd (unat x)" "bit x 1 = odd (unat x div 2)" by (simp_all add: bit_iff_odd_drop_bit even_unat_iff flip: u)
    then show ?thesis by (auto simp: and_one_eq mod_2_eq_odd bit_simps simp flip: bit_0)
  qed
  show ?thesis
  proof (cases "odd (unat x) = odd (unat x div 2)")
    case True
    then have "even (unat x + unat x div 2)" by simp
    then show ?thesis unfolding LFSR_NEXT_def d b by (simp add: True u [unfolded One_nat_def] lfsr_def mod_2_eq_odd)
  next
    case False
    then have "odd (unat x + unat x div 2)" by simp
    moreover have "unat (push_bit 5 1 OR drop_bit 1 x) = 32 + unat x div 2"
      using assms unat_or_disjoint [of 5 "push_bit 5 1" "drop_bit 1 x"] by (simp add: u [unfolded One_nat_def])
    ultimately show ?thesis unfolding LFSR_NEXT_def d b by (simp add: False u [unfolded One_nat_def] lfsr_def mod_2_eq_odd)
  qed
qed

primrec orbit :: "nat \<Rightarrow> nat \<Rightarrow> nat list" where
  "orbit 0 x = []"
| "orbit (Suc n) x = x # orbit n (lfsr x)"

lemma orbit_one: "sort (orbit 63 1) = [1..<64]" "last (orbit 64 1) = 1"
  by code_simp+

lemma orbit_iterates: "orbit n x = map (\<lambda>k. (lfsr ^^ k) x) [0..<n]"
proof (induction n arbitrary: x)
  case (Suc n)
  then show ?case by (simp add: map_Suc_upt [symmetric] upt_conv_Cons funpow_swap1 del: upt_Suc flip: map_Suc_upt)
qed simp

lemma lfsr_cycle:
  assumes "1 \<le> n" and "n < 64"
  shows "(lfsr ^^ 63) n = n" and "(\<lambda>k. (lfsr ^^ k) n) ` {0..<63} = {1..<64}"
proof -
  have all: "(\<lambda>k. (lfsr ^^ k) 1) ` {0..<63} = {1..<64}"
    using arg_cong [OF orbit_one(1), of set] by (simp add: orbit_iterates del: upt_rec_numeral)
  have p: "(lfsr ^^ 63) 1 = 1"
    using orbit_one(2) by (simp add: orbit_iterates last_map del: funpow.simps)
  obtain m where m: "m < 63" "n = (lfsr ^^ m) 1" using assms all by (metis (mono_tags, lifting) atLeastLessThan_iff imageE)
  have "(lfsr ^^ 63) n = (lfsr ^^ m) ((lfsr ^^ 63) 1)" unfolding m(2) by (simp add: add.commute flip: funpow_add [unfolded o_def fun_eq_iff, rule_format])
  then show "(lfsr ^^ 63) n = n" unfolding p m(2) .
  have shift: "(lfsr ^^ k) n = (lfsr ^^ ((k + m) mod 63)) 1" for k
    unfolding funpow_mod_eq [OF p] m(2) by (simp add: funpow_add)
  have "(\<lambda>k. (k + m) mod 63) ` {0..<63} = {0..<63}"
  proof (intro equalityI subsetI)
    fix j :: nat assume "j \<in> {0..<63}"
    then have "((j + 63 - m) mod 63 + m) mod 63 = j" using m(1) by (simp add: mod_add_left_eq)
    then show "j \<in> (\<lambda>k. (k + m) mod 63) ` {0..<63}" by (intro image_eqI [of _ _ "(j + 63 - m) mod 63"]) simp_all
  qed auto
  then have "(\<lambda>j. (lfsr ^^ j) 1) ` (\<lambda>k. (k + m) mod 63) ` {0..<63} = {1..<64}" using all by simp
  then show "(\<lambda>k. (lfsr ^^ k) n) ` {0..<63} = {1..<64}" unfolding shift image_image .
qed

lemma unat_LFSR_iterate:
  assumes "1 \<le> unat x" and "unat x < 64"
  shows "unat ((LFSR_NEXT ^^ k) x) = (lfsr ^^ k) (unat x)" and "(lfsr ^^ k) (unat x) < 64"
proof (induction k)
  case 0
  { case 1 show ?case by simp next case 2 show ?case using assms by simp }
next
  case (Suc k)
  { case 1 show ?case using Suc by (simp add: unat_LFSR_NEXT)
  next case 2 show ?case using Suc(2) by (simp add: lfsr_def) }
qed

section \<open>Properties\<close>

text \<open>A state just after loading, and a trap, for the examples.\<close>

definition example_state :: vm_state where
  "example_state = \<lparr>l1pt = replicate 1024 0, l2pt = replicate 1024 0, l3pt = replicate 1024 0,
     user_mapping = replicate 63 \<lparr>fl_addr = 0, fl_next = None\<rparr>, freelist_nodes = replicate 63 \<lparr>fl_addr = 0, fl_next = None\<rparr>,
     freelist_head = None, freelist_tail = None, mem = (\<lambda>i. [of_nat i]), tohost = [], csr_ptbr = 0, csr_status = 0,
     csr_evec = 0, vector_queue = []\<rparr>"

definition example_layout :: vm_layout where
  "example_layout = \<lparr>l1pt_addr = 0x4000, l2pt_addr = 0x6000, l3pt_addr = 0x8000, trap_entry = 0x200\<rparr>"

definition example_hw :: vm_hw where
  "example_hw = \<lparr>hw_impl = 1, hw_vxcptaux = 0, hw_fetch = (\<lambda>_. 0), hw_fssr = 0\<rparr>"

definition example_trap :: "uint64_t \<Rightarrow> uint64_t \<Rightarrow> trapframe_t" where
  "example_trap cause addr = \<lparr>tf_gpr = replicate 32 7, tf_sr = SR_PS OR SR_EA, tf_epc = 0x2000, tf_badvaddr = addr, tf_cause = cause,
     tf_hwacha_cause = 0, tf_hwacha_opaque = []\<rparr>"

abbreviation example_boot :: vm_state where
  "example_boot \<equiv> snd (vm_boot example_layout 0x2000 5 example_state)"

lemma example_loaded: "vm_loaded example_state"
  by (simp add: vm_loaded_def example_state_def)

lemma example_exec: "vm_exec pte_walk example_boot (\<lambda>i. [of_nat i])"
  using vm_exec.boot [OF example_loaded, of pte_walk example_layout "0x2000" 5] by (simp add: example_state_def)

lemma example_fault:
  "trap_fault_addr example_hw (example_trap CAUSE_FAULT_LOAD 0x2004) = Some 0x2004" "user_addr 0x2004"
  "vector_ok example_hw (example_trap CAUSE_FAULT_LOAD 0x2004)"
  by (simp_all add: trap_fault_addr_def example_trap_def user_addr_def RELOC_def vector_ok_def example_hw_def)

lemma example_mapped:
  "vm_exec pte_walk (fault_state 0 1 example_boot) (\<lambda>i. [of_nat i])" "pte_walk (l3pt (fault_state 0 1 example_boot)) 1 = Some 63"
proof -
  note inv = vm_boot_inv(1) [OF example_loaded, of example_layout "0x2000" 5]
  have "handle_fault pte_walk 0x2004 example_boot = Inr (fault_state 0 1 example_boot)"
    using pw.handle_fault_eq [OF inv example_fault(2)] by simp
  then have "handle_trap pte_walk example_hw (example_trap CAUSE_FAULT_LOAD 0x2004) example_boot =
      Inr (example_trap CAUSE_FAULT_LOAD 0x2004, fault_state 0 1 example_boot)"
    unfolding handle_trap_fault [OF example_fault(1)] by (simp add: resume_def example_trap_def)
  then show "vm_exec pte_walk (fault_state 0 1 example_boot) (\<lambda>i. [of_nat i])" by (rule vm_exec.trap [OF example_exec])
  show "pte_walk (l3pt (fault_state 0 1 example_boot)) 1 = Some 63"
    using pw.walk_mapped [OF pw.fault_state_inv [OF inv, of 1], of 0] by simp
qed

text \<open>
  Property C28: in every reachable state of the paging environment the invariant of the page table and the free list holds for some
  sequence of distinct faulted pages: a page that has faulted has the frame of its position in the sequence, in the table and in
  \<^verbatim>\<open>user_mapping\<close>, every other page is unmapped, the free list starts at the next unused node, and the relocated
  mapping of the supervisor is intact.
\<close>

theorem vm_reachable_inv:
  assumes "page_walk walk" and "vm_exec walk s M"
  shows "\<exists>us. vm_inv us s"
  using page_walk.exec_inv [OF assms] by blast

theorem vm_reachable_inv_witness: "\<exists>us. vm_inv us example_boot"
  by (rule vm_reachable_inv [OF pw.page_walk_axioms example_exec])

text \<open>
  Property C29: demand paging is invisible to the test program: in every reachable state what the program sees in a user page,
  through the page table or, if the page has not faulted yet, in the original page, is what it would see in a flat memory with
  the same writes.
\<close>

theorem vm_refines_flat_memory:
  assumes "page_walk walk" and "vm_exec walk s M" and "1 \<le> j" and "j < MAX_TEST_PAGES"
  shows "uview walk s j = M j"
  using page_walk.exec_inv [OF assms(1,2)] assms(3,4) by blast

theorem vm_refines_flat_memory_witness: "uview pte_walk example_boot 62 = [62]"
  using vm_refines_flat_memory [OF pw.page_walk_axioms example_exec, of 62] by simp

text \<open>
  Property C30: user pages are isolated: in every reachable state two user pages never share a frame, and every frame given
  to the program is one of the 63 frames above the program and supervisor image.
\<close>

theorem vm_frames_isolated:
  assumes "page_walk walk" and "vm_exec walk s M" and "i < MAX_TEST_PAGES" and "j < MAX_TEST_PAGES"
    and "walk (l3pt s) i = Some p" and "walk (l3pt s) j = Some q"
  shows "MAX_TEST_PAGES \<le> p \<and> p < 2 * MAX_TEST_PAGES \<and> (p = q \<longleftrightarrow> i = j)"
proof -
  obtain us where inv: "vm_inv us s" using page_walk.exec_inv [OF assms(1,2)] by blast
  note w = page_walk.walk_mapped [OF assms(1) inv] page_walk.walk_unmapped [OF assms(1) inv]
  have "i \<in> set us" "j \<in> set us" using assms(3-6) w(2) [of i] w(2) [of j] by auto
  then obtain k l where k: "k < length us" "us ! k = i" and l: "l < length us" "us ! l = j" by (auto simp: in_set_conv_nth)
  have pq: "p = 63 + k" "q = 63 + l" using w(1) [OF k(1)] w(1) [OF l(1)] k l assms(5,6) by simp_all
  have "distinct us" using inv by (simp add: vm_inv_def)
  then have "k = l \<longleftrightarrow> i = j" using k l by (auto simp: nth_eq_iff_index_eq)
  then show ?thesis using vm_inv_length(1) [OF inv] k(1) by (auto simp: pq)
qed

theorem vm_frames_isolated_witness:
  "pte_walk (l3pt (fault_state 0 1 example_boot)) 1 = Some 63 \<and> MAX_TEST_PAGES \<le> 63 \<and> 63 < 2 * MAX_TEST_PAGES"
  using vm_frames_isolated [OF pw.page_walk_axioms example_mapped(1) _ _ example_mapped(2) example_mapped(2)] example_mapped(2) by simp

text \<open>
  Property C31: a page fault is resolved: in every reachable state, a fetch, load, store or vector-unit fault of the program at a user
  address whose page is unmapped resumes the program (no assertion fails, a frame is always left, and the vector state is restored
  when the saved image is complete), with that page mapped and every page that was mapped before still mapped to the same frame.
\<close>

theorem vm_fault_resolved:
  assumes "page_walk walk" and "vm_exec walk s M" and "trap_fault_addr hw tf = Some a" and "user_addr a"
    and "walk (l3pt s) (unat (a div PGSIZE)) = None" and "vector_ok hw tf"
  shows "\<exists>tf' s'. handle_trap walk hw tf s = Inr (tf', s') \<and> walk (l3pt s') (unat (a div PGSIZE)) \<noteq> None \<and>
     (\<forall>j p. j < MAX_TEST_PAGES \<longrightarrow> walk (l3pt s) j = Some p \<longrightarrow> walk (l3pt s') j = Some p)"
proof -
  let ?i = "unat (a div PGSIZE)"
  obtain us where inv: "vm_inv us s" using page_walk.exec_inv [OF assms(1,2)] by blast
  have i: "1 \<le> ?i" "?i < 63" using user_addr_page [OF assms(4)] by simp_all
  have n: "?i \<notin> set us" using page_walk.walk_mapped [OF assms(1) inv] assms(5) by (metis in_set_conv_nth option.distinct(1))
  obtain tf' s' where r: "resume hw tf (fault_state (length us) ?i s) = Inr (tf', s')" using resume_ok [OF assms(6)] by blast
  obtain q where s': "s' = (fault_state (length us) ?i s)\<lparr>vector_queue := q\<rparr>" using r by (rule resume_Inr)
  have h: "handle_trap walk hw tf s = Inr (tf', s')"
    unfolding handle_trap_fault [OF assms(3)] page_walk.handle_fault_eq [OF assms(1) inv assms(4) n] by (simp add: r)
  have inv': "vm_inv (us @ [?i]) s'" unfolding s' using page_walk.fault_state_inv [OF assms(1) inv i n] by simp
  note w = page_walk.walk_mapped [OF assms(1) inv']
  have "walk (l3pt s') j = Some p" if "j < 63" "walk (l3pt s) j = Some p" for j p
  proof -
    have "j \<in> set us" using page_walk.walk_unmapped [OF assms(1) inv that(1)] that(2) by auto
    then obtain k where k: "k < length us" "us ! k = j" by (auto simp: in_set_conv_nth)
    then show ?thesis using page_walk.walk_mapped [OF assms(1) inv k(1)] w [of k] that(2) by (simp add: nth_append)
  qed
  moreover have "walk (l3pt s') ?i \<noteq> None" using w [of "length us"] by simp
  ultimately show ?thesis using h by blast
qed

theorem vm_fault_resolved_witness:
  "\<exists>tf' s'. handle_trap pte_walk example_hw (example_trap CAUSE_FAULT_LOAD 0x2004) example_boot = Inr (tf', s') \<and> pte_walk (l3pt s') 1 \<noteq> None"
proof -
  have "pte_walk (l3pt example_boot) 1 = None"
    by (intro pw.walk_unmapped [OF vm_boot_inv(1) [OF example_loaded]]) simp_all
  then show ?thesis using vm_fault_resolved [OF pw.page_walk_axioms example_exec example_fault(1,2) _ example_fault(3)] by auto
qed

text \<open>
  Property C32: the exit system call writes the program's memory back: in every reachable state it terminates the run with the
  exit code, sign-extended from 32 bits, as the last word sent to the host, and every user page of physical memory then holds what
  the program saw in it.
\<close>

theorem vm_exit_writes_back:
  assumes "page_walk walk" and "vm_exec walk s M" and "tf_cause tf = CAUSE_SYSCALL"
  shows "\<exists>s'. handle_trap walk hw tf s = Inl (Terminated (signed (ucast (tf_gpr tf ! 18) :: int32_t)), s')
    \<and> tohost s' = tohost s @ [signed (ucast (tf_gpr tf ! 18) :: int32_t)]
    \<and> (\<forall>i. 1 \<le> i \<and> i < MAX_TEST_PAGES \<longrightarrow> mem s' i = M i)"
proof -
  obtain us where inv: "vm_inv us s" and M: "\<forall>j. 1 \<le> j \<and> j < 63 \<longrightarrow> uview walk s j = M j"
    using page_walk.exec_inv [OF assms(1,2)] by blast
  from page_walk.exit_copies_back [OF assms(1) inv assms(3), of hw] show ?thesis using M by auto
qed

theorem vm_exit_writes_back_witness:
  "\<exists>s'. handle_trap pte_walk example_hw (example_trap CAUSE_SYSCALL 0) (fault_state 0 1 example_boot) = Inl (Terminated 7, s') \<and> mem s' 1 = [1]"
  using vm_exit_writes_back [OF pw.page_walk_axioms example_mapped(1), of "example_trap CAUSE_SYSCALL 0" example_hw]
  by (auto simp: example_trap_def)

text \<open>
  The shift register has the period the header demands: from every nonzero 6-bit seed, 63 steps of \<^verbatim>\<open>LFSR_NEXT\<close>
  visit every nonzero 6-bit value and come back to the seed.
\<close>

lemma lfsr_period:
  assumes "1 \<le> unat x" and "unat x \<le> MAX_TEST_PAGES"
  shows "(LFSR_NEXT ^^ MAX_TEST_PAGES) x = x \<and> (\<lambda>k. unat ((LFSR_NEXT ^^ k) x)) ` {0..<MAX_TEST_PAGES} = {1..MAX_TEST_PAGES}"
proof -
  have x: "unat x < 64" using assms(2) by simp
  note i = unat_LFSR_iterate [OF assms(1) x]
  have "(LFSR_NEXT ^^ 63) x = x" unfolding word_unat_eq_iff i by (rule lfsr_cycle(1) [OF assms(1) x])
  moreover have "{1..63} = {1..<64::nat}" by auto
  ultimately show ?thesis using lfsr_cycle(2) [OF assms(1) x] by (simp only: i)
qed

text \<open>
  \<^verbatim>\<open>printhex\<close> sends sixteen hexadecimal digits and a newline to the console, and the digits read back
  as the number printed.
\<close>

lemma printhex_reads_back:
  "\<exists>str. tohost (printhex x s) = tohost s @ map (\<lambda>c. 0x0101000000000000 OR ucast c) (map of_char str @ [10 :: uint8_t])
     \<and> length str = 16 \<and> hex_value str = x"
  using hex_value_digits [of 16 x] cputstring_tohost [of "hex_digits 16 x" s]
    take_bit_length_eq [of x]
  by (intro exI [of _ "hex_digits 16 x"]) (simp add: printhex_def)

end
