(* ===== verification/Bench_Runtime.thy ===== *)
theory Bench_Runtime
  imports Vm_Env
begin

text \<open>
  The runtime of the benchmark programs (\<^verbatim>\<open>src/riscv-tests/benchmarks/common/syscalls.c\<close>): the trap handler with its performance
  counters, the console, and a formatted printer.

  The C type \<^verbatim>\<open>int\<close> is a 32-bit word that is read as signed, \<^verbatim>\<open>long\<close> a 64-bit word, \<^verbatim>\<open>char\<close> an 8-bit word. A string is the list of its
  characters without the final zero. A variable argument is an 8-byte slot: its value and, when it is a pointer to a string,
  the string there. What the code must not do (an array written outside its bounds, an argument that was not passed) is
  \<^const>\<open>None\<close>. The values of the hardware counters, the instruction at an address and the answers of the host are not
  code of the repository: they are arguments.
\<close>

section \<open>Counters and traps\<close>

abbreviation NUM_COUNTERS :: nat where "NUM_COUNTERS \<equiv> 18"
abbreviation SYS_stats :: uint64_t where "SYS_stats \<equiv> 1234"

definition READ_CTR_names :: "string list" where
  "READ_CTR_names = [''cycle'', ''instret'', ''uarch0'', ''uarch1'', ''uarch2'', ''uarch3'', ''uarch4'', ''uarch5'', ''uarch6'', ''uarch7'',
     ''uarch8'', ''uarch9'', ''uarch10'', ''uarch11'', ''uarch12'', ''uarch13'', ''uarch14'', ''uarch15'']"

text \<open>
  The globals: the counters and their names (\<^const>\<open>None\<close> is the null pointer), the console buffer and its length, and what has
  been sent to the host: the requests with their arguments, and the text of the write requests.
\<close>

record rt_state =
  counters :: "uint64_t list"
  counter_names :: "string option list"
  pc_buf :: "uint8_t list"
  pc_buflen :: nat
  requests :: "uint64_t list list"
  written :: "uint8_t list list"

definition READ_CTR :: "bool \<Rightarrow> uint64_t \<Rightarrow> nat \<Rightarrow> rt_state \<Rightarrow> rt_state" where
  "READ_CTR enable value i s =
     (let csr = (if enable then value else value - counters s ! i);
          s = (if enable then s else s\<lparr>counter_names := (counter_names s)[i := Some (READ_CTR_names ! i)]\<rparr>)
      in s\<lparr>counters := (counters s)[i := csr]\<rparr>)"

definition handle_stats :: "(nat \<Rightarrow> uint64_t) \<Rightarrow> uint32_t \<Rightarrow> rt_state \<Rightarrow> rt_state" where
  "handle_stats csr enable s = fold (\<lambda>i. READ_CTR (enable \<noteq> 0) (csr i) i) [0..<NUM_COUNTERS] s"

definition tohost_exit :: "uint32_t \<Rightarrow> uint64_t" where
  "tohost_exit code = signed ((push_bit 1 code OR 1) :: uint32_t)"

definition handle_frontend_syscall :: "(uint64_t list \<Rightarrow> uint64_t) \<Rightarrow> uint64_t list \<Rightarrow> rt_state \<Rightarrow> uint64_t \<times> rt_state" where
  "handle_frontend_syscall host args s = (host args, s\<lparr>requests := requests s @ [args]\<rparr>)"

text \<open>A trap ends the program with a word to the host, or returns the address to resume at, the registers and the state.\<close>

datatype trap_result = Exited uint64_t | Resumed uint64_t "uint64_t list" rt_state

text \<open>
  What is outside the program: the instruction at an address, the encoding of the counter read that is compared with it, the
  hardware counters, the answers of the host, and the number of the exit call in the C library's header.
\<close>

record rt_env =
  rt_fetch :: "uint64_t \<Rightarrow> uint32_t"
  rt_csr_insn :: uint32_t
  rt_csr :: "nat \<Rightarrow> uint64_t"
  rt_host :: "uint64_t list \<Rightarrow> uint64_t"
  SYS_exit :: uint64_t

definition rt_handle_trap :: "rt_env \<Rightarrow> uint64_t \<Rightarrow> uint64_t \<Rightarrow> uint64_t list \<Rightarrow> rt_state \<Rightarrow> trap_result" where
  "rt_handle_trap env cause epc regs s =
     (let resume = (\<lambda>(sys_ret, s). Resumed (epc + 4) (regs[16 := sys_ret]) s)
      in if cause = CAUSE_ILLEGAL_INSTRUCTION \<and> rt_fetch env epc AND rt_csr_insn env = rt_csr_insn env then resume (0, s)
         else if cause \<noteq> CAUSE_SYSCALL then Exited (tohost_exit 1337)
         else if regs ! 16 = SYS_exit env then Exited (tohost_exit (ucast (regs ! 18)))
         else if regs ! 16 = SYS_stats then resume (0, handle_stats (rt_csr env) (ucast (regs ! 18)) s)
         else resume (handle_frontend_syscall (rt_host env) [regs ! 16, regs ! 18, regs ! 19, regs ! 20] s))"

text \<open>A system call: the trap it takes, with the number and the arguments in their registers.\<close>

definition rt_syscall :: "rt_env \<Rightarrow> uint64_t \<Rightarrow> uint64_t \<Rightarrow> uint64_t \<Rightarrow> uint64_t \<Rightarrow> uint64_t \<Rightarrow> uint64_t list \<Rightarrow> rt_state \<Rightarrow> trap_result" where
  "rt_syscall env num arg0 arg1 arg2 epc regs s =
     rt_handle_trap env CAUSE_SYSCALL epc (regs[16 := num, 18 := arg0, 19 := arg1, 20 := arg2]) s"

definition rt_exit :: "rt_env \<Rightarrow> uint32_t \<Rightarrow> uint64_t \<Rightarrow> uint64_t list \<Rightarrow> rt_state \<Rightarrow> trap_result" where
  "rt_exit env code epc regs s = rt_syscall env (SYS_exit env) (signed code) 0 0 epc regs s"

definition setStats :: "rt_env \<Rightarrow> uint32_t \<Rightarrow> uint64_t \<Rightarrow> uint64_t list \<Rightarrow> rt_state \<Rightarrow> trap_result" where
  "setStats env enable epc regs s = rt_syscall env SYS_stats (signed enable) 0 0 epc regs s"

section \<open>Console\<close>

text \<open>A write to the host: the request is not recorded, but the text the host reads at the address it is given.\<close>

definition write_console :: "uint8_t list \<Rightarrow> rt_state \<Rightarrow> rt_state" where
  "write_console bytes s = s\<lparr>written := written s @ [bytes]\<rparr>"

definition to_bytes :: "string \<Rightarrow> uint8_t list" where
  "to_bytes str = map of_char str"

definition printstr :: "uint8_t list \<Rightarrow> rt_state \<Rightarrow> rt_state" where
  "printstr str s = write_console str s"

definition putchar :: "uint32_t \<Rightarrow> rt_state \<Rightarrow> rt_state option" where
  "putchar ch s =
     (if pc_buflen s < length (pc_buf s)
      then
        let s = s\<lparr>pc_buf := (pc_buf s)[pc_buflen s := ucast ch], pc_buflen := pc_buflen s + 1\<rparr>
        in Some (if ch = 10 \<or> pc_buflen s = length (pc_buf s)
                 then (write_console (take (pc_buflen s) (pc_buf s)) s)\<lparr>pc_buflen := 0\<rparr>
                 else s)
      else None)"

definition rt_printhex :: "uint64_t \<Rightarrow> rt_state \<Rightarrow> rt_state" where
  "rt_printhex x s = printstr (to_bytes (hex_digits 16 x)) s"

section \<open>Formatted output\<close>

text \<open>The calls of \<^verbatim>\<open>putch\<close>, in order; \<open>slots\<close> counts the free elements of \<^verbatim>\<open>digs\<close>.\<close>

type_synonym putch_calls = "uint32_t list"

primrec digit_loop :: "nat \<Rightarrow> uint64_t \<Rightarrow> uint64_t \<Rightarrow> uint32_t list option" where
  "digit_loop 0 num base = None"
| "digit_loop (Suc slots) num base =
     (let d = ucast (num mod base)
      in if num < base then Some [d] else map_option ((#) d) (digit_loop slots (num div base) base))"

definition digit_char :: "uint32_t \<Rightarrow> uint32_t" where
  "digit_char d = d + (if 10 \<le> d then 87 else 48)"

definition printnum :: "uint64_t \<Rightarrow> uint32_t \<Rightarrow> uint32_t \<Rightarrow> uint32_t \<Rightarrow> putch_calls option" where
  "printnum num base width padc =
     map_option (\<lambda>digs. replicate (nat (sint width - int (length digs))) padc @ map digit_char (rev digs))
       (digit_loop 64 num (ucast base))"

type_synonym va_slot = "uint64_t \<times> string"

definition getuint :: "nat \<Rightarrow> uint64_t \<Rightarrow> uint64_t" where
  "getuint lflag slot = (if lflag = 0 then ucast (ucast slot :: uint32_t) else slot)"

definition getint :: "nat \<Rightarrow> uint64_t \<Rightarrow> uint64_t" where
  "getint lflag slot = (if lflag = 0 then signed (ucast slot :: uint32_t) else slot)"

text \<open>The variables an escape sequence sets.\<close>

record fmt_state =
  fs_padc :: uint32_t
  fs_width :: uint32_t
  fs_precision :: uint32_t
  fs_lflag :: nat
  fs_altflag :: bool

abbreviation fmt_init :: fmt_state where
  "fmt_init \<equiv> \<lparr>fs_padc = 32, fs_width = -1, fs_precision = -1, fs_lflag = 0, fs_altflag = False\<rparr>"

definition is_digit :: "char \<Rightarrow> bool" where
  "is_digit c \<longleftrightarrow> 48 \<le> (of_char c :: nat) \<and> (of_char c :: nat) \<le> 57"

text \<open>The loop that reads a width, with the digits read so far, and the rest of the format.\<close>

primrec read_number :: "uint32_t \<Rightarrow> string \<Rightarrow> uint32_t \<times> string" where
  "read_number precision [] = (precision, [])"
| "read_number precision (ch # fmt) =
     (if is_digit ch then read_number (precision * 10 + of_char ch - 48) fmt else (precision, ch # fmt))"

lemma read_number_length: "length (snd (read_number n fmt)) \<le> length fmt"
  by (induction fmt arbitrary: n) (auto intro: le_SucI)

definition process_precision :: "uint32_t \<Rightarrow> fmt_state \<Rightarrow> fmt_state" where
  "process_precision n f =
     (if sint (fs_width f) < 0 then f\<lparr>fs_width := n, fs_precision := -1\<rparr> else f\<lparr>fs_precision := n\<rparr>)"

text \<open>
  The jumps back to \<^verbatim>\<open>reswitch\<close>: the flags are read up to the conversion character, which is \<^const>\<open>None\<close> at the end of the format.
  A width given by an argument is \<^const>\<open>None\<close> as a whole if there is no argument.
\<close>

function reswitch :: "fmt_state \<Rightarrow> va_slot list \<Rightarrow> string \<Rightarrow> (char option \<times> fmt_state \<times> va_slot list \<times> string) option" where
  "reswitch f ap [] = Some (None, f, ap, [])"
| "reswitch f ap (ch # fmt) =
     (if ch = CHR ''-'' then reswitch (f\<lparr>fs_padc := 45\<rparr>) ap fmt
      else if ch = CHR ''0'' then reswitch (f\<lparr>fs_padc := 48\<rparr>) ap fmt
      else if is_digit ch then
        (let r = read_number (0 * 10 + of_char ch - 48) fmt in reswitch (process_precision (fst r) f) ap (snd r))
      else if ch = CHR ''*'' then
        (case ap of [] \<Rightarrow> None | a # ap' \<Rightarrow> reswitch (process_precision (ucast (fst a)) f) ap' fmt)
      else if ch = CHR ''.'' then reswitch (if sint (fs_width f) < 0 then f\<lparr>fs_width := 0\<rparr> else f) ap fmt
      else if ch = CHR ''#'' then reswitch (f\<lparr>fs_altflag := True\<rparr>) ap fmt
      else if ch = CHR ''l'' then reswitch (f\<lparr>fs_lflag := fs_lflag f + 1\<rparr>) ap fmt
      else Some (Some ch, f, ap, fmt))"
  by pat_completeness auto

termination
  by (relation "measure (\<lambda>(f, ap, fmt). length fmt)") (auto simp: less_Suc_eq_le read_number_length)

text \<open>The conversion \<^verbatim>\<open>%s\<close>.\<close>

definition strnlen :: "string \<Rightarrow> uint64_t \<Rightarrow> nat" where
  "strnlen p n = nat (min (int (length p)) (uint n))"

definition print_string :: "fmt_state \<Rightarrow> va_slot \<Rightarrow> putch_calls" where
  "print_string f a =
     (let p = (if fst a = 0 then ''(null)'' else snd a);
          precision = fs_precision f;
          left = 0 < sint (fs_width f) \<and> fs_padc f \<noteq> 45;
          width = (if left then fs_width f - of_nat (strnlen p (signed precision)) else fs_width f);
          pads = (if left then nat (sint width) else 0);
          width = (if left \<and> 0 < sint width then 0 else width);
          n = (if sint precision < 0 then length p else min (length p) (nat (sint precision)));
          width = width - of_nat n
      in replicate pads (fs_padc f) @ map of_char (take n p) @ replicate (nat (sint width)) 32)"

text \<open>One conversion: what it prints and the arguments left, or \<^const>\<open>None\<close> if an argument is missing.\<close>

datatype conversion = Printed putch_calls "va_slot list" | Literal | Bad_arguments

definition with_arg :: "va_slot list \<Rightarrow> (va_slot \<Rightarrow> putch_calls option) \<Rightarrow> conversion" where
  "with_arg ap g =
     (case ap of
        [] \<Rightarrow> Bad_arguments
      | a # ap' \<Rightarrow> (case g a of None \<Rightarrow> Bad_arguments | Some out \<Rightarrow> Printed out ap'))"

definition convert :: "char option \<Rightarrow> fmt_state \<Rightarrow> va_slot list \<Rightarrow> conversion" where
  "convert ch f ap =
     (let number = (\<lambda>base lflag a. printnum (getuint lflag (fst a)) base (fs_width f) (fs_padc f))
      in if ch = Some CHR ''c'' then with_arg ap (\<lambda>a. Some [ucast (fst a)])
         else if ch = Some CHR ''s'' then with_arg ap (\<lambda>a. Some (print_string f a))
         else if ch = Some CHR ''d'' then
           with_arg ap (\<lambda>a.
             let num = getint (fs_lflag f) (fst a)
             in if sint num < 0 then map_option ((#) 45) (printnum (- num) 10 (fs_width f) (fs_padc f))
                else printnum num 10 (fs_width f) (fs_padc f))
         else if ch = Some CHR ''u'' then with_arg ap (number 10 (fs_lflag f))
         else if ch = Some CHR ''o'' then with_arg ap (number 8 (fs_lflag f))
         else if ch = Some CHR ''p'' then with_arg ap (\<lambda>a. map_option ((@) [48, 120]) (number 16 1 a))
         else if ch = Some CHR ''x'' then with_arg ap (number 16 (fs_lflag f))
         else if ch = Some CHR ''%'' then Printed [37] ap
         else Literal)"

lemma reswitch_length: "reswitch f ap fmt = Some (ch, f', ap', fmt') \<Longrightarrow> length fmt' \<le> length fmt"
proof (induction f ap fmt rule: reswitch.induct)
  case (2 f ap ch fmt)
  have r: "length (snd (read_number n fmt)) \<le> length fmt" for n by (rule read_number_length)
  show ?case using 2 r [of "0 * 10 + of_char ch - 48"]
    by (simp add: Let_def split: if_splits list.splits)
qed simp

function vprintfmt :: "string \<Rightarrow> va_slot list \<Rightarrow> putch_calls option" where
  "vprintfmt [] ap = Some []"
| "vprintfmt (ch # fmt) ap =
     (if ch \<noteq> CHR ''%'' then map_option ((#) (of_char ch)) (vprintfmt fmt ap)
      else
        (case reswitch fmt_init ap fmt of
           None \<Rightarrow> None
         | Some (c, f, ap', fmt') \<Rightarrow>
             (case convert c f ap' of
                Bad_arguments \<Rightarrow> None
              | Literal \<Rightarrow> map_option ((#) 37) (vprintfmt fmt ap')
              | Printed out ap'' \<Rightarrow> map_option ((@) out) (vprintfmt fmt' ap''))))"
  by pat_completeness auto

termination
  by (relation "measure (\<lambda>(fmt, ap). length fmt)") (auto dest!: reswitch_length)

primrec putchar_all :: "putch_calls \<Rightarrow> rt_state \<Rightarrow> rt_state option" where
  "putchar_all [] s = Some s"
| "putchar_all (ch # chs) s = (case putchar ch s of None \<Rightarrow> None | Some s \<Rightarrow> putchar_all chs s)"

definition rt_printf :: "string \<Rightarrow> va_slot list \<Rightarrow> rt_state \<Rightarrow> rt_state option" where
  "rt_printf fmt ap s = (case vprintfmt fmt ap of None \<Rightarrow> None | Some out \<Rightarrow> putchar_all out s)"

text \<open>\<^verbatim>\<open>sprintf\<close>: the bytes stored before the final zero; the result is their number.\<close>

definition rt_sprintf :: "string \<Rightarrow> va_slot list \<Rightarrow> uint8_t list option" where
  "rt_sprintf fmt ap = map_option (map ucast) (vprintfmt fmt ap)"

section \<open>Program end\<close>

text \<open>\<^verbatim>\<open>_init\<close> after \<^verbatim>\<open>main\<close>: the report of the counters, built in a buffer of the given size, then the exit code.\<close>

definition counter_line :: "rt_state \<Rightarrow> nat \<Rightarrow> uint8_t list option" where
  "counter_line s i =
     rt_sprintf ''%s = %d\<newline>'' [(case counter_names s ! i of None \<Rightarrow> (0, []) | Some name \<Rightarrow> (1, name)), (counters s ! i, [])]"

primrec report_loop :: "rt_state \<Rightarrow> nat list \<Rightarrow> nat \<Rightarrow> uint8_t list \<Rightarrow> uint8_t list option" where
  "report_loop s [] cap buf = Some buf"
| "report_loop s (i # is) cap buf =
     (if counters s ! i \<noteq> 0
      then
        (case counter_line s i of
           None \<Rightarrow> None
         | Some line \<Rightarrow> if length buf + length line < cap then report_loop s is cap (buf @ line) else None)
      else report_loop s is cap buf)"

definition rt_init :: "uint32_t \<Rightarrow> rt_state \<Rightarrow> (uint64_t \<times> rt_state) option" where
  "rt_init ret s =
     (case report_loop s [0..<NUM_COUNTERS] (NUM_COUNTERS * 32) [] of
        None \<Rightarrow> None
      | Some buf \<Rightarrow> Some (tohost_exit ret, if buf \<noteq> [] then printstr buf s else s))"

end
