(* ===== verification/Bench_Runtime_Correct.thy ===== *)
theory Bench_Runtime_Correct
  imports Bench_Runtime
begin

text \<open>
  Correctness of the benchmark runtime: numbers print as digits that read back, the digit array is never overrun, the console buffer
  passes every character on in order, and the counter report fits its buffer.
\<close>

section \<open>Digits\<close>

definition digits_value :: "nat \<Rightarrow> uint32_t list \<Rightarrow> nat" where
  "digits_value b ds = foldr (\<lambda>d v. unat d + b * v) ds 0"

lemma digit_loop_correct:
  assumes "2 \<le> unat base" and "unat base \<le> 2 ^ 32" and "unat num < 2 ^ slots" and "0 < slots"
  shows "\<exists>ds. digit_loop slots num base = Some ds \<and> ds \<noteq> [] \<and> length ds \<le> slots \<and> (\<forall>d\<in>set ds. unat d < unat base)
    \<and> digits_value (unat base) ds = unat num \<and> (num = 0 \<or> last ds \<noteq> 0)"
  using assms(3,4)
proof (induction slots arbitrary: num)
  case (Suc slots)
  define d :: uint32_t where "d = ucast (num mod base)"
  have lt: "unat (num mod base) < unat base" using assms(1) by (simp add: unat_mod_distrib)
  then have "unat d = unat (num mod base)" using assms(2) by (simp add: d_def unsigned_ucast_eq take_bit_eq_mod)
  then have d: "unat d = unat num mod unat base" "unat d < unat base" using lt by (simp_all add: unat_mod_distrib)
  show ?case
  proof (cases "num < base")
    case True
    then have e: "unat num < unat base" by (simp add: word_less_nat_alt)
    have "digit_loop (Suc slots) num base = Some [d]" using True by (simp add: d_def)
    moreover have "num = 0 \<or> d \<noteq> 0" using d(1) e by (auto simp: word_unat_eq_iff)
    ultimately show ?thesis using d e by (simp add: digits_value_def)
  next
    case False
    then have ge: "unat base \<le> unat num" by (simp add: word_less_nat_alt)
    have q: "unat (num div base) = unat num div unat base" by (simp add: unat_div_distrib)
    have "unat num div unat base \<le> unat num div 2" using assms(1) by (rule div_le_mono2 [rotated]) simp
    then have lt: "unat (num div base) < 2 ^ slots" using Suc.prems(1) by (simp add: q)
    have pos: "0 < unat num div unat base" using ge assms(1) by (simp add: div_greater_zero_iff)
    have "0 < slots" using Suc.prems(1) ge assms(1) by (cases slots) simp_all
    from Suc.IH [OF lt this] obtain ds where ds: "digit_loop slots (num div base) base = Some ds" "ds \<noteq> []" "length ds \<le> slots"
      "\<forall>d\<in>set ds. unat d < unat base" "digits_value (unat base) ds = unat num div unat base" "num div base = 0 \<or> last ds \<noteq> 0"
      by (auto simp: q)
    have "num div base \<noteq> 0" using pos by (auto simp: word_unat_eq_iff q)
    then have "last ds \<noteq> 0" using ds(6) by simp
    moreover have "digit_loop (Suc slots) num base = Some (d # ds)" using False ds(1) by (simp add: d_def)
    moreover have "digits_value (unat base) (d # ds) = unat num" using ds(5) d(1) by (simp add: digits_value_def)
    ultimately show ?thesis using ds d(2) by auto
  qed
qed simp

lemma digits_value_lower: "ds \<noteq> [] \<Longrightarrow> last ds \<noteq> 0 \<Longrightarrow> b ^ (length ds - 1) \<le> digits_value b ds"
proof (induction ds)
  case (Cons d ds)
  show ?case
  proof (cases "ds = []")
    case True
    then show ?thesis using Cons.prems by (simp add: digits_value_def word_unat_eq_iff)
  next
    case False
    then have "b * b ^ (length ds - 1) \<le> b * digits_value b ds" using Cons by simp
    moreover have "b * b ^ (length ds - 1) = b ^ length ds" using False by (cases ds) simp_all
    ultimately have "b ^ length ds \<le> b * digits_value b ds" by (simp only:)
    then show ?thesis by (simp add: digits_value_def)
  qed
qed simp

lemma digits_short:
  assumes "ds \<noteq> []" and "last ds \<noteq> 0" and "digits_value b ds < b ^ k" and "1 < b"
  shows "length ds \<le> k"
proof -
  have "b ^ (length ds - 1) < b ^ k" using digits_value_lower [OF assms(1,2), of b] assms(3) by simp
  then have "length ds - 1 < k" using assms(4) by (metis power_strict_increasing_iff)
  then show ?thesis by simp
qed

lemma printnum_correct:
  assumes "2 \<le> unat base"
  obtains ds where "printnum num base width padc = Some (replicate (nat (sint width - int (length ds))) padc @ map digit_char (rev ds))"
    "ds \<noteq> []" "length ds \<le> 64" "\<forall>d\<in>set ds. unat d < unat base" "digits_value (unat base) ds = unat num" "num = 0 \<or> last ds \<noteq> 0"
proof -
  have b: "unat (ucast base :: uint64_t) = unat base" by (simp add: unat_ucast_up)
  have "unat base < 2 ^ 32" using unsigned_less [of base] by simp
  moreover have "unat num < 2 ^ 64" using unsigned_less [of num] by simp
  ultimately obtain ds where "digit_loop 64 num (ucast base) = Some ds" "ds \<noteq> []" "length ds \<le> 64" "\<forall>d\<in>set ds. unat d < unat base"
    "digits_value (unat base) ds = unat num" "num = 0 \<or> last ds \<noteq> 0"
    using digit_loop_correct [of "ucast base" num 64] assms unfolding b by auto
  then show thesis by (intro that [of ds]) (simp_all add: printnum_def)
qed

section \<open>Console\<close>

definition console_ok :: "rt_state \<Rightarrow> bool" where
  "console_ok s \<longleftrightarrow> length (pc_buf s) = 64 \<and> pc_buflen s < 64"

definition console_text :: "rt_state \<Rightarrow> uint8_t list" where
  "console_text s = concat (written s) @ take (pc_buflen s) (pc_buf s)"

lemma putchar_step:
  assumes "console_ok s"
  obtains s' where "putchar ch s = Some s'" "console_ok s'" "console_text s' = console_text s @ [ucast ch]"
    "\<forall>w\<in>set (written s). length w \<le> 64 \<Longrightarrow> \<forall>w\<in>set (written s'). length w \<le> 64" "ch = 10 \<Longrightarrow> pc_buflen s' = 0"
proof -
  have l: "pc_buflen s < length (pc_buf s)" "length (pc_buf s) = 64" using assms by (simp_all add: console_ok_def)
  have t: "take (Suc (pc_buflen s)) ((pc_buf s)[pc_buflen s := ucast ch]) = take (pc_buflen s) (pc_buf s) @ [ucast ch]"
    using l(1) by (simp add: take_Suc_conv_app_nth)
  let ?s = "s\<lparr>pc_buf := (pc_buf s)[pc_buflen s := ucast ch], pc_buflen := Suc (pc_buflen s)\<rparr>"
  show thesis
  proof (cases "ch = 10 \<or> Suc (pc_buflen s) = 64")
    case True
    then have "putchar ch s = Some ((write_console (take (Suc (pc_buflen s)) (pc_buf ?s)) ?s)\<lparr>pc_buflen := 0\<rparr>)"
      using l by (auto simp: putchar_def Let_def)
    then show thesis by (rule that) (use l t in \<open>simp_all add: console_ok_def console_text_def write_console_def\<close>)
  next
    case False
    then have "putchar ch s = Some ?s" using l by (auto simp: putchar_def Let_def)
    then show thesis by (rule that) (use l t False in \<open>simp_all add: console_ok_def console_text_def\<close>)
  qed
qed

lemma putchar_all_stream:
  assumes "console_ok s"
  obtains s' where "putchar_all chs s = Some s'" "console_ok s'" "console_text s' = console_text s @ map ucast chs"
    "\<forall>w\<in>set (written s). length w \<le> 64 \<Longrightarrow> \<forall>w\<in>set (written s'). length w \<le> 64" "chs \<noteq> [] \<Longrightarrow> last chs = 10 \<Longrightarrow> pc_buflen s' = 0"
  using assms
proof (induction chs arbitrary: s thesis)
  case (Cons ch chs)
  obtain s1 where s1: "putchar ch s = Some s1" "console_ok s1" "console_text s1 = console_text s @ [ucast ch]"
    "\<forall>w\<in>set (written s). length w \<le> 64 \<Longrightarrow> \<forall>w\<in>set (written s1). length w \<le> 64" "ch = 10 \<Longrightarrow> pc_buflen s1 = 0"
    using putchar_step [OF Cons.prems(2)] by metis
  obtain s2 where s2: "putchar_all chs s1 = Some s2" "console_ok s2" "console_text s2 = console_text s1 @ map ucast chs"
    "\<forall>w\<in>set (written s1). length w \<le> 64 \<Longrightarrow> \<forall>w\<in>set (written s2). length w \<le> 64" "chs \<noteq> [] \<Longrightarrow> last chs = 10 \<Longrightarrow> pc_buflen s2 = 0"
    using Cons.IH [OF _ s1(2)] by metis
  show ?case
  proof (rule Cons.prems(1) [of s2])
    show "putchar_all (ch # chs) s = Some s2" using s1(1) s2(1) by simp
    show "pc_buflen s2 = 0" if "last (ch # chs) = 10" using that s1(5) s2(1,5) by (cases "chs = []") simp_all
  qed (use s1 s2 in auto)
qed simp

section \<open>Formats\<close>

lemma with_arg_safe: "ap \<noteq> [] \<Longrightarrow> (\<And>a. g a \<noteq> None) \<Longrightarrow> \<exists>out. with_arg ap g = Printed out (tl ap)"
  by (cases ap) (auto simp: with_arg_def split: option.splits)

lemma printnum_safe: "2 \<le> unat base \<Longrightarrow> printnum num base width padc \<noteq> None"
  by (erule printnum_correct [of base num width padc]) simp

definition conv_safe :: "va_slot list \<Rightarrow> conversion \<Rightarrow> bool" where
  "conv_safe ap r \<longleftrightarrow> r = Literal \<or> (\<exists>out ap'. r = Printed out ap' \<and> length ap \<le> Suc (length ap'))"

lemma conv_safe_intros:
  "conv_safe ap x \<Longrightarrow> conv_safe ap y \<Longrightarrow> conv_safe ap (if b then x else y)"
  "conv_safe ap Literal" "conv_safe ap (Printed out ap)"
  "ap \<noteq> [] \<Longrightarrow> (\<And>a. g a \<noteq> None) \<Longrightarrow> conv_safe ap (with_arg ap g)"
  using with_arg_safe [of ap g] by (auto simp: conv_safe_def)

lemma convert_safe: "ap \<noteq> [] \<Longrightarrow> conv_safe ap (convert c f ap)"
proof -
  have p: "printnum num 10 wd pc \<noteq> None" "printnum num 8 wd pc \<noteq> None" "printnum num 16 wd pc \<noteq> None" for num wd pc
    by (rule printnum_safe, simp)+
  assume "ap \<noteq> []"
  then show ?thesis unfolding convert_def Let_def
    by (intro conv_safe_intros; simp add: p del: not_None_eq)
qed

lemma read_number_suffix: "\<exists>pre. fmt = pre @ snd (read_number n fmt)"
proof (induction fmt arbitrary: n)
  case (Cons c fmt)
  then obtain pre where "fmt = pre @ snd (read_number (n * 10 + of_char c - 48) fmt)" by blast
  then show ?case by (cases "is_digit c") (auto intro: exI [of _ "c # pre"])
qed simp

lemma reswitch_no_star:
  assumes "CHR ''*'' \<notin> set fmt"
  shows "\<exists>c f' fmt'. reswitch f ap fmt = Some (c, f', ap, fmt') \<and> (\<exists>pre. fmt = pre @ fmt')"
  using assms
proof (induction f ap fmt rule: reswitch.induct)
  case (2 f ap ch fmt)
  have step: ?case if "reswitch f ap (ch # fmt) = reswitch g ap fmt2" and "fmt = pre @ fmt2"
    and "\<exists>c f' fmt'. reswitch g ap fmt2 = Some (c, f', ap, fmt') \<and> (\<exists>pre. fmt2 = pre @ fmt')" for g fmt2 pre
    using that by (metis append.assoc append_Cons)
  obtain pre where pre: "fmt = pre @ snd (read_number (0 * 10 + of_char ch - 48) fmt)" using read_number_suffix by blast
  then have nr: "CHR ''*'' \<notin> set (snd (read_number (0 * 10 + of_char ch - 48) fmt))"
    using "2.prems" by (metis Un_iff list.set_intros(2) set_append)
  have n: "ch \<noteq> CHR ''*''" "CHR ''*'' \<notin> set fmt" using "2.prems" by auto
  consider "ch = CHR ''-''" | "ch = CHR ''0''" | "ch \<noteq> CHR ''-''" "ch \<noteq> CHR ''0''" "is_digit ch"
    | "ch = CHR ''.''" | "ch = CHR ''#''" | "ch = CHR ''l''"
    | "ch \<noteq> CHR ''-''" "ch \<noteq> CHR ''0''" "\<not> is_digit ch" "ch \<noteq> CHR ''.''" "ch \<noteq> CHR ''#''" "ch \<noteq> CHR ''l''" by blast
  then show ?case
  proof cases
    case 1
    show ?thesis by (rule step [of "f\<lparr>fs_padc := 45\<rparr>" fmt "[]"]) (use 1 "2.IH"(1) n in simp_all)
  next
    case 2
    show ?thesis by (rule step [of "f\<lparr>fs_padc := 48\<rparr>" fmt "[]"]) (use 2 "2.IH"(2) n in simp_all)
  next
    case 3
    show ?thesis by (rule step [OF _ pre]) (use 3 "2.IH"(3) nr in \<open>simp_all add: Let_def\<close>)
  next
    case 4
    show ?thesis by (rule step [of "if sint (fs_width f) < 0 then f\<lparr>fs_width := 0\<rparr> else f" fmt "[]"]) (use 4 "2.IH"(5) n in \<open>simp_all add: is_digit_def\<close>)
  next
    case 5
    show ?thesis by (rule step [of "f\<lparr>fs_altflag := True\<rparr>" fmt "[]"]) (use 5 "2.IH"(6) n in \<open>simp_all add: is_digit_def\<close>)
  next
    case 6
    show ?thesis by (rule step [of "f\<lparr>fs_lflag := fs_lflag f + 1\<rparr>" fmt "[]"]) (use 6 "2.IH"(7) n in \<open>simp_all add: is_digit_def\<close>)
  next
    case 7
    then show ?thesis using n(1) by (auto intro: exI [of _ "[ch]"])
  qed
qed simp

abbreviation percents :: "string \<Rightarrow> nat" where
  "percents fmt \<equiv> length (filter (\<lambda>c. c = CHR ''%'') fmt)"

lemma vprintfmt_safe:
  assumes "CHR ''*'' \<notin> set fmt" and "percents fmt \<le> length ap"
  shows "\<exists>out. vprintfmt fmt ap = Some out"
  using assms
proof (induction fmt ap rule: vprintfmt.induct)
  case (2 ch fmt ap)
  show ?case
  proof (cases "ch = CHR ''%''")
    case True
    then have ap: "ap \<noteq> []" "percents fmt < length ap" "CHR ''*'' \<notin> set fmt" using "2.prems" by auto
    obtain c f fmt' pre where r: "reswitch fmt_init ap fmt = Some (c, f, ap, fmt')" "fmt = pre @ fmt'"
      using reswitch_no_star [OF ap(3)] by blast
    have e: "vprintfmt (ch # fmt) ap = (case convert c f ap of Bad_arguments \<Rightarrow> None
        | Literal \<Rightarrow> map_option ((#) 37) (vprintfmt fmt ap) | Printed out ap'' \<Rightarrow> map_option ((@) out) (vprintfmt fmt' ap''))"
      using True r(1) by simp
    have ih: "convert c f ap = Literal \<Longrightarrow> \<exists>out. vprintfmt fmt ap = Some out"
      "\<And>out ap''. convert c f ap = Printed out ap'' \<Longrightarrow> percents fmt' \<le> length ap'' \<Longrightarrow> \<exists>out. vprintfmt fmt' ap'' = Some out"
      using "2.IH"(2,3) [of _ c _ f _ ap fmt'] True r ap by auto
    show ?thesis using convert_safe [OF ap(1), of c f] unfolding conv_safe_def
    proof
      assume "convert c f ap = Literal"
      then show ?thesis using ih(1) unfolding e by auto
    next
      assume "\<exists>out ap'. convert c f ap = Printed out ap' \<and> length ap \<le> Suc (length ap')"
      then obtain out ap' where c: "convert c f ap = Printed out ap'" "length ap \<le> Suc (length ap')" by blast
      then have "percents fmt' \<le> length ap'" using ap(2) by (simp add: r(2))
      then show ?thesis using ih(2) [OF c(1)] c(1) unfolding e by auto
    qed
  next
    case False
    then show ?thesis using 2 by auto
  qed
qed simp

section \<open>Decimal numbers\<close>

definition dec_value :: "uint8_t list \<Rightarrow> int" where
  "dec_value bs = foldl (\<lambda>v c. 10 * v + (uint c - 48)) 0 bs"

fun dec_int :: "uint8_t list \<Rightarrow> int" where
  "dec_int (c # cs) = (if c = 45 then - dec_value cs else dec_value (c # cs))"
| "dec_int [] = 0"

lemma digit_char_byte:
  assumes "unat d < 10"
  shows "uint (ucast (digit_char d) :: uint8_t) = int (unat d) + 48" and "(ucast (digit_char d) :: uint8_t) \<noteq> 45"
proof -
  have "\<not> 10 \<le> d" using assms by (simp add: word_le_nat_alt)
  then have "unat (digit_char d) = unat d + 48" using assms by (simp add: digit_char_def unat_add_small)
  then have u: "unat (ucast (digit_char d) :: uint8_t) = unat d + 48" using assms by (simp add: unat_ucast_mod)
  then have "int (unat (ucast (digit_char d) :: uint8_t)) = int (unat d) + 48" by (simp only: of_nat_add of_nat_numeral)
  then show "uint (ucast (digit_char d) :: uint8_t) = int (unat d) + 48" by simp
  show "(ucast (digit_char d) :: uint8_t) \<noteq> 45" using u by (auto simp: word_unat_eq_iff)
qed

lemma dec_value_digits:
  "\<forall>d\<in>set ds. unat d < 10 \<Longrightarrow> dec_value (map ucast (map digit_char (rev ds))) = int (digits_value 10 ds)"
proof (induction ds)
  case (Cons d ds)
  then have "dec_value (map ucast (map digit_char (rev ds))) = int (digits_value 10 ds)" by simp
  then show ?case using digit_char_byte(1) [of d] Cons.prems by (simp add: dec_value_def digits_value_def)
qed (simp add: dec_value_def digits_value_def)

lemma printnum_decimal:
  assumes "unat num < 10 ^ k" and "0 < k"
  obtains out where "printnum num 10 (- 1) padc = Some out" "out \<noteq> []" "dec_value (map ucast out) = int (unat num)"
    "(ucast (hd out) :: uint8_t) \<noteq> 45" "length out \<le> k"
proof -
  obtain ds where ds: "printnum num 10 (- 1) padc = Some (replicate (nat (sint (- 1 :: uint32_t) - int (length ds))) padc @ map digit_char (rev ds))"
    "ds \<noteq> []" "\<forall>d\<in>set ds. unat d < 10" "digits_value 10 ds = unat num" "num = 0 \<or> last ds \<noteq> 0" "length ds \<le> 64"
    using printnum_correct [of 10 num "- 1" padc] by auto
  have "length ds \<le> k"
  proof (cases "num = 0")
    case True
    have "digit_loop (Suc 63) num 10 = Some [0]" unfolding digit_loop.simps True by simp
    then have "printnum num 10 (- 1) padc = Some [48]" by (simp add: printnum_def digit_char_def)
    then have "length (map digit_char (rev ds)) = 1" using ds(1) by simp
    then show ?thesis using assms(2) by simp
  next
    case False
    then show ?thesis using digits_short [OF ds(2), of 10 k] ds(4,5) assms(1) by simp
  qed
  then show thesis
    using ds dec_value_digits [OF ds(3)] digit_char_byte(2) [of "last ds"]
    by (intro that [of "map digit_char (rev ds)"]) (simp_all add: hd_map hd_rev)
qed

text \<open>The conversion \<^verbatim>\<open>%d\<close>.\<close>

definition print_signed :: "uint64_t \<Rightarrow> uint32_t \<Rightarrow> uint32_t \<Rightarrow> putch_calls option" where
  "print_signed num width padc =
     (if sint num < 0 then map_option ((#) 45) (printnum (- num) 10 width padc) else printnum num 10 width padc)"

lemma print_decimal:
  assumes "\<bar>sint num\<bar> < 10 ^ k" and "0 < k"
  obtains out where
    "print_signed num (- 1) padc = Some out" "dec_int (map ucast out) = sint num" "length out \<le> k + 1"
proof (cases "sint num < 0")
  case True
  then have "int (unat (- num)) < int (10 ^ k)" unfolding sint_magnitude(2) [OF True] using assms(1) by simp
  then have "unat (- num) < 10 ^ k" by (simp only: of_nat_less_iff)
  then obtain out where "printnum (- num) 10 (- 1) padc = Some out" "dec_value (map ucast out) = int (unat (- num))" "length out \<le> k"
    using assms(2) by (rule printnum_decimal)
  then show thesis using True unfolding sint_magnitude(2) [OF True] by (intro that [of "45 # out"]) (simp_all add: print_signed_def)
next
  case False
  then have u: "int (unat num) = sint num" by (rule sint_magnitude(1))
  then have "int (unat num) < int (10 ^ k)" unfolding u using assms(1) False by simp
  then have "unat num < 10 ^ k" by (simp only: of_nat_less_iff)
  then obtain out where o: "printnum num 10 (- 1) padc = Some out" "out \<noteq> []" "dec_value (map ucast out) = int (unat num)"
    "(ucast (hd out) :: uint8_t) \<noteq> 45" "length out \<le> k"
    using assms(2) by (rule printnum_decimal)
  then have "dec_int (map ucast out) = sint num" unfolding u by (cases out) simp_all
  then show thesis using False o by (intro that [of out]) (simp_all add: print_signed_def)
qed

lemma reswitch_plain: "reswitch f ap (CHR ''d'' # fmt) = Some (Some CHR ''d'', f, ap, fmt)"
  "reswitch f ap (CHR ''s'' # fmt) = Some (Some CHR ''s'', f, ap, fmt)"
  "reswitch f ap (CHR ''l'' # fmt) = reswitch (f\<lparr>fs_lflag := fs_lflag f + 1\<rparr>) ap fmt"
  by (simp_all add: is_digit_def)

section \<open>The counter report\<close>

lemma print_string_plain:
  assumes "length (if fst a = 0 then ''(null)'' else snd a) \<le> 7"
  shows "print_string fmt_init a = map of_char (if fst a = 0 then ''(null)'' else snd a)"
proof -
  define p where "p = (if fst a = 0 then ''(null)'' else snd a)"
  have "(- 1 :: uint32_t) - of_nat (length p) = word_of_int (- 1 - int (length p))" by simp
  then have "sint ((- 1 :: uint32_t) - of_nat (length p)) = signed_take_bit 31 (- 1 - int (length p))"
    by (simp only: sint_sbintrunc') simp
  also have "\<dots> = - 1 - int (length p)" using assms by (intro signed_take_bit_int_eq_self) (simp_all add: p_def)
  finally have "nat (sint ((- 1 :: uint32_t) - of_nat (length p))) = 0" by simp
  then show ?thesis by (simp add: print_string_def p_def [symmetric] Let_def)
qed

lemma getint_signed: "sint (getint 0 v) = sint (ucast v :: uint32_t)" "getint (Suc n) v = v"
  by (simp_all add: getint_def sint_up_scast is_up)

lemma convert_d:
  "convert (Some CHR ''d'') f ((v, p) # ap) =
    (case print_signed (getint (fs_lflag f) v) (fs_width f) (fs_padc f) of None \<Rightarrow> Bad_arguments | Some out \<Rightarrow> Printed out ap)"
  by (simp add: convert_def with_arg_def print_signed_def)

lemma convert_s: "convert (Some CHR ''s'') f (a # ap) = Printed (print_string f a) ap"
  by (simp add: convert_def with_arg_def)

lemma counter_line_length:
  assumes "case counter_names s ! i of None \<Rightarrow> True | Some name \<Rightarrow> length name \<le> 7"
  shows "\<exists>line. counter_line s i = Some line \<and> length line \<le> 22"
proof -
  define a :: va_slot where "a = (case counter_names s ! i of None \<Rightarrow> (0, []) | Some name \<Rightarrow> (1, name))"
  define num where "num = getint 0 (counters s ! i)"
  have l: "length (if fst a = 0 then ''(null)'' else snd a) \<le> 7" using assms by (auto simp: a_def split: option.splits)
  have "sint num = sint (ucast (counters s ! i) :: uint32_t)" by (simp add: num_def getint_signed)
  then have "\<bar>sint num\<bar> < 10 ^ 10" using sint_bounds [of "ucast (counters s ! i) :: uint32_t"] by simp
  then obtain out where out: "print_signed num (- 1) 32 = Some out"
    "length out \<le> 10 + 1" using print_decimal [of num 10 32] by auto
  have "vprintfmt ''%s = %d\<newline>'' [a, (counters s ! i, [])] = Some (print_string fmt_init a @ [32, 61, 32] @ out @ [10])"
    by (simp add: reswitch_plain convert_d convert_s num_def [symmetric] Let_def out(1) del: reswitch.simps)
  then show ?thesis using l out(2) by (simp add: counter_line_def rt_sprintf_def a_def [symmetric] print_string_plain [OF l])
qed

lemma report_fits:
  assumes "\<forall>i\<in>set is. case counter_names s ! i of None \<Rightarrow> True | Some name \<Rightarrow> length name \<le> 7"
    and "length buf + 22 * length is < cap"
  shows "\<exists>buf'. report_loop s is cap buf = Some buf' \<and> length buf' \<le> length buf + 22 * length is"
  using assms
proof (induction "is" arbitrary: buf)
  case (Cons i "is")
  obtain line where line: "counter_line s i = Some line" "length line \<le> 22" using counter_line_length [of s i] Cons.prems(1) by auto
  show ?case
  proof (cases "counters s ! i = 0")
    case True
    then show ?thesis using Cons.IH [of buf] Cons.prems by auto
  next
    case False
    have "\<exists>buf'. report_loop s is cap (buf @ line) = Some buf' \<and> length buf' \<le> length (buf @ line) + 22 * length is"
      using Cons.prems line(2) by (intro Cons.IH) auto
    then show ?thesis using False line Cons.prems(2) by auto
  qed
qed simp

lemma handle_stats_loop:
  assumes "n \<le> 18" and "length (counters s) = 18" and "length (counter_names s) = 18"
  shows "fold (\<lambda>i. READ_CTR enable (csr i) i) [0..<n] s =
    s\<lparr>counters := map (\<lambda>i. if i < n then if enable then csr i else csr i - counters s ! i else counters s ! i) [0..<18],
      counter_names := map (\<lambda>i. if i < n \<and> \<not> enable then Some (READ_CTR_names ! i) else counter_names s ! i) [0..<18]\<rparr>"
  using assms(1)
proof (induction n)
  case 0
  show ?case using map_nth [of "counters s"] map_nth [of "counter_names s"] assms(2,3) by simp
next
  case (Suc n)
  let ?s = "s\<lparr>counters := map (\<lambda>i. if i < n then if enable then csr i else csr i - counters s ! i else counters s ! i) [0..<18],
      counter_names := map (\<lambda>i. if i < n \<and> \<not> enable then Some (READ_CTR_names ! i) else counter_names s ! i) [0..<18]\<rparr>"
  have "fold (\<lambda>i. READ_CTR enable (csr i) i) [0..<Suc n] s = READ_CTR enable (csr n) n ?s" using Suc by simp
  also have "\<dots> = s\<lparr>counters := map (\<lambda>i. if i < Suc n then if enable then csr i else csr i - counters s ! i else counters s ! i) [0..<18],
      counter_names := map (\<lambda>i. if i < Suc n \<and> \<not> enable then Some (READ_CTR_names ! i) else counter_names s ! i) [0..<18]\<rparr>"
    using Suc.prems
    by (auto simp: READ_CTR_def Let_def list_eq_iff_nth_eq nth_list_update less_Suc_eq simp del: upt_rec_numeral)
  finally show ?case .
qed

lemma READ_CTR_names_short: "i < 18 \<Longrightarrow> length (READ_CTR_names ! i) \<le> 7"
proof -
  assume "i < 18"
  moreover have "length READ_CTR_names = 18" by (simp add: READ_CTR_names_def)
  ultimately have "READ_CTR_names ! i \<in> set READ_CTR_names" by (intro nth_mem) simp
  moreover have "\<forall>name \<in> set READ_CTR_names. length name \<le> 7" by (simp add: READ_CTR_names_def)
  ultimately show ?thesis by blast
qed

lemma sprintf_d: "rt_sprintf ''%d'' [(v, p)] = map_option (map ucast) (print_signed (getint 0 v) (- 1) 32)"
  "rt_sprintf ''%ld'' [(v, p)] = map_option (map ucast) (print_signed v (- 1) 32)"
  by (cases "print_signed (getint 0 v) (- 1) 32"; cases "print_signed v (- 1) 32";
      simp add: rt_sprintf_def reswitch_plain convert_d getint_signed(2) del: reswitch.simps)+

lemma report_text:
  assumes "length (counters s) = 18" and "\<forall>i<18. case counter_names s ! i of None \<Rightarrow> True | Some name \<Rightarrow> length name \<le> 7"
  shows "\<exists>s'. rt_init ret s = Some (tohost_exit ret, s')"
  using report_fits [of "[0..<18]" s "[]" 576] assms(2) by (auto simp: rt_init_def simp del: upt_rec_numeral)

text \<open>The exit call ends the program with its code, and \<^verbatim>\<open>setStats\<close> reads the counters and resumes, through the trap handler.\<close>

lemma ucast_signed32: "ucast (signed x :: uint64_t) = x" for x :: uint32_t
  by (rule bit_word_eqI) (auto simp: bit_simps)

lemma syscalls_trap:
  assumes "length regs = 32" and "SYS_exit env \<noteq> SYS_stats"
  shows "rt_exit env code epc regs s = Exited (tohost_exit code)"
    and "setStats env enable epc regs s =
      Resumed (epc + 4) (regs[16 := 0, 18 := signed enable, 19 := 0, 20 := 0]) (handle_stats (rt_csr env) enable s)"
  using assms by (simp_all add: rt_exit_def setStats_def rt_syscall_def rt_handle_trap_def Let_def nth_list_update ucast_signed32 list_update_swap)

section \<open>Properties\<close>

definition example_rt :: rt_state where
  "example_rt = \<lparr>counters = replicate 18 0, counter_names = replicate 18 None, pc_buf = replicate 64 0, pc_buflen = 62,
     requests = [], written = []\<rparr>"

text \<open>
  Property C34: \<^verbatim>\<open>sprintf\<close> with \<^verbatim>\<open>%d\<close> and \<^verbatim>\<open>%ld\<close> prints, for every argument, the decimal representation of its value as a signed
  32-bit, respectively 64-bit, integer: the text reads back as that value, and needs no more than 11, respectively 20, characters.
\<close>

theorem sprintf_decimal_reads_back:
  "(\<exists>out. rt_sprintf ''%d'' [(v, p)] = Some out \<and> dec_int out = sint (ucast v :: uint32_t) \<and> length out \<le> 11) \<and>
   (\<exists>out. rt_sprintf ''%ld'' [(v, p)] = Some out \<and> dec_int out = sint v \<and> length out \<le> 20)"
proof
  have "\<bar>sint (getint 0 v)\<bar> < 10 ^ 10" using sint_bounds [of "ucast v :: uint32_t"] by (simp add: getint_signed)
  then obtain out where "print_signed (getint 0 v) (- 1) 32 = Some out" "dec_int (map ucast out) = sint (getint 0 v)" "length out \<le> 10 + 1"
    by (rule print_decimal) simp
  then show "\<exists>out. rt_sprintf ''%d'' [(v, p)] = Some out \<and> dec_int out = sint (ucast v :: uint32_t) \<and> length out \<le> 11"
    by (simp add: sprintf_d getint_signed)
next
  have "\<bar>sint v\<bar> < 10 ^ 19" using sint_bounds [of v] by simp
  then obtain out where "print_signed v (- 1) 32 = Some out" "dec_int (map ucast out) = sint v" "length out \<le> 19 + 1"
    by (rule print_decimal) simp
  then show "\<exists>out. rt_sprintf ''%ld'' [(v, p)] = Some out \<and> dec_int out = sint v \<and> length out \<le> 20"
    by (simp add: sprintf_d)
qed

text \<open>
  Property C33: \<^verbatim>\<open>printf\<close> is safe and loses nothing. For every format without \<^verbatim>\<open>*\<close> and with at least as many arguments as per cent signs,
  and every state of the console, no array is written outside its bounds; the characters printed follow, in order, on those already sent
  or waiting in the buffer; the buffer keeps room for one more character; and every write to the host has at most 64 characters.
\<close>

theorem printf_stream:
  assumes "console_ok s" and "\<forall>w\<in>set (written s). length w \<le> 64" and "CHR ''*'' \<notin> set fmt" and "percents fmt \<le> length ap"
  shows "\<exists>out s'. vprintfmt fmt ap = Some out \<and> rt_printf fmt ap s = Some s' \<and> console_ok s' \<and>
    console_text s' = console_text s @ map ucast out \<and> (\<forall>w\<in>set (written s'). length w \<le> 64) \<and>
    (out \<noteq> [] \<and> last out = 10 \<longrightarrow> concat (written s') = console_text s')"
proof -
  obtain out where out: "vprintfmt fmt ap = Some out" using vprintfmt_safe [OF assms(3,4)] by blast
  obtain s' where "putchar_all out s = Some s'" "console_ok s'" "console_text s' = console_text s @ map ucast out"
    "\<forall>w\<in>set (written s'). length w \<le> 64" "out \<noteq> [] \<Longrightarrow> last out = 10 \<Longrightarrow> pc_buflen s' = 0"
    using putchar_all_stream [OF assms(1), of out] assms(2) by metis
  then show ?thesis using out by (auto simp: rt_printf_def console_text_def)
qed

theorem printf_stream_witness:
  "\<exists>s'. rt_printf ''%x: %s%q'' [(1, []), (1, ''ab''), (0, [])] example_rt = Some s' \<and> console_ok s'"
  using printf_stream [of example_rt "''%x: %s%q''" "[(1, []), (1, ''ab''), (0, [])]"] by (auto simp: console_ok_def example_rt_def)

text \<open>
  The statistics of a run. Whatever the counters held, starting the statistics and stopping them leaves in every counter
  the difference of the two readings of the hardware counter, wrapping at 64 bits; the report of the counters at the end of the program then
  fits the buffer it is built in, and the program exits with the code of \<^verbatim>\<open>main\<close>.
\<close>

lemma stats_report:
  assumes "length (counters s) = NUM_COUNTERS" and "length (counter_names s) = NUM_COUNTERS" and "start \<noteq> 0"
  shows "counters (handle_stats csr1 0 (handle_stats csr0 start s)) = map (\<lambda>i. csr1 i - csr0 i) [0..<NUM_COUNTERS] \<and>
    (\<exists>s'. rt_init ret (handle_stats csr1 0 (handle_stats csr0 start s)) = Some (tohost_exit ret, s'))"
proof
  let ?s = "handle_stats csr0 start s"
  let ?t = "handle_stats csr1 0 ?s"
  have s: "?s = s\<lparr>counters := map csr0 [0..<18], counter_names := map (\<lambda>i. counter_names s ! i) [0..<18]\<rparr>"
    unfolding handle_stats_def handle_stats_loop [OF order_refl assms(1,2)] using assms(3) by simp
  have t: "counters ?t = map (\<lambda>i. csr1 i - csr0 i) [0..<18]" "counter_names ?t = map (\<lambda>i. Some (READ_CTR_names ! i)) [0..<18]"
    unfolding handle_stats_def [of csr1] s by (subst handle_stats_loop; simp del: upt_rec_numeral)+
  show "counters ?t = map (\<lambda>i. csr1 i - csr0 i) [0..<18]" by (rule t(1))
  show "\<exists>s'. rt_init ret ?t = Some (tohost_exit ret, s')"
    by (rule report_text) (simp_all add: t READ_CTR_names_short del: upt_rec_numeral)
qed

lemma stats_report_example:
  "counters (handle_stats (\<lambda>i. 5) 0 (handle_stats (\<lambda>i. 7) 1 example_rt)) = map (\<lambda>i. - 2) [0..<NUM_COUNTERS]"
  using stats_report [of example_rt 1 "\<lambda>i. 5" "\<lambda>i. 7" 0] by (simp add: example_rt_def del: upt_rec_numeral)

end
