(* ===== verification/Barrier.thy ===== *)
theory Barrier
  imports Main
begin

text \<open>
  The barrier of the multithreaded programs (\<^verbatim>\<open>barrier\<close> in \<^verbatim>\<open>src/riscv-tests/benchmarks/common/util.h\<close>): a sense-reversing
  barrier with an atomic counter. Its steps interleave: each access to a shared variable is one step of one thread, and the memory is taken to be
  sequentially consistent. The fences at entry and exit order the barrier with the code around it. The last thread's stores to \<^verbatim>\<open>count\<close> and \<^verbatim>\<open>sense\<close> are plain
  volatile stores with no fence between them: that other cores see them in program order is an assumption on the hardware.

  A thread's place in the code is its program counter. The state also counts, for each thread, how often it has entered
  (made the atomic addition) and how often it has left, and how often the barrier has been released; the code does not read these counts.
\<close>

section \<open>The code\<close>

datatype pc = Outside | Arriving | Resetting | Releasing | Waiting

record bar_state =
  sense :: bool
  count :: nat
  threadsense :: "nat \<Rightarrow> bool"
  bar_pc :: "nat \<Rightarrow> pc"
  entered :: "nat \<Rightarrow> nat"
  left_count :: "nat \<Rightarrow> nat"
  releases :: nat

definition bar_init :: bar_state where
  "bar_init = \<lparr>sense = False, count = 0, threadsense = (\<lambda>_. False), bar_pc = (\<lambda>_. Outside),
     entered = (\<lambda>_. 0), left_count = (\<lambda>_. 0), releases = 0\<rparr>"

text \<open>One step of thread \<open>i\<close>; a thread whose loop test fails stays where it is.\<close>

definition bar_next :: "nat \<Rightarrow> nat \<Rightarrow> bar_state \<Rightarrow> bar_state" where
  "bar_next ncores i s =
     (case bar_pc s i of
        Outside \<Rightarrow> s\<lparr>threadsense := (threadsense s)(i := \<not> threadsense s i), bar_pc := (bar_pc s)(i := Arriving)\<rparr>
      | Arriving \<Rightarrow>
          s\<lparr>count := count s + 1,
            entered := (entered s)(i := entered s i + 1),
            bar_pc := (bar_pc s)(i := (if count s = ncores - 1 then Resetting else Waiting))\<rparr>
      | Resetting \<Rightarrow> s\<lparr>count := 0, bar_pc := (bar_pc s)(i := Releasing)\<rparr>
      | Releasing \<Rightarrow>
          s\<lparr>sense := threadsense s i, releases := releases s + 1,
            left_count := (left_count s)(i := left_count s i + 1), bar_pc := (bar_pc s)(i := Outside)\<rparr>
      | Waiting \<Rightarrow>
          (if sense s \<noteq> threadsense s i then s
           else s\<lparr>left_count := (left_count s)(i := left_count s i + 1), bar_pc := (bar_pc s)(i := Outside)\<rparr>))"

inductive bar_reach :: "nat \<Rightarrow> bar_state \<Rightarrow> bool" for ncores where
  init: "bar_reach ncores bar_init"
| step: "bar_reach ncores s \<Longrightarrow> i < ncores \<Longrightarrow> bar_reach ncores (bar_next ncores i s)"

section \<open>The invariant\<close>

text \<open>
  What holds of each thread, given the number of releases; and the two phases: the barrier is open until the last thread has entered,
  then that thread alone resets the counter and releases the others.
\<close>

definition thread_ok :: "nat \<Rightarrow> pc \<Rightarrow> bool \<Rightarrow> nat \<Rightarrow> nat \<Rightarrow> bool" where
  "thread_ok r p ts e l \<longleftrightarrow> (e = r \<or> e = r + 1) \<and> ts = odd (e + of_bool (p = Arriving)) \<and>
     l + of_bool (p \<noteq> Outside \<and> p \<noteq> Arriving) = e \<and> (p = Outside \<or> p = Arriving \<longrightarrow> e = r) \<and> (p = Resetting \<or> p = Releasing \<longrightarrow> e = r + 1)"

abbreviation thread_inv :: "bar_state \<Rightarrow> nat \<Rightarrow> bool" where
  "thread_inv s i \<equiv> thread_ok (releases s) (bar_pc s i) (threadsense s i) (entered s i) (left_count s i)"

definition bar_open :: "nat \<Rightarrow> bar_state \<Rightarrow> bool" where
  "bar_open ncores s \<longleftrightarrow> (\<forall>j<ncores. bar_pc s j \<noteq> Resetting \<and> bar_pc s j \<noteq> Releasing) \<and>
     count s = card {j. j < ncores \<and> entered s j = releases s + 1} \<and> (\<exists>j<ncores. entered s j = releases s)"

definition bar_closed :: "nat \<Rightarrow> bar_state \<Rightarrow> nat \<Rightarrow> bool" where
  "bar_closed ncores s i \<longleftrightarrow> i < ncores \<and> (bar_pc s i = Resetting \<or> bar_pc s i = Releasing \<and> count s = 0) \<and>
     (\<forall>j<ncores. j \<noteq> i \<longrightarrow> bar_pc s j = Waiting) \<and> (\<forall>j<ncores. entered s j = releases s + 1)"

definition bar_inv :: "nat \<Rightarrow> bar_state \<Rightarrow> bool" where
  "bar_inv ncores s \<longleftrightarrow> sense s = odd (releases s) \<and> (\<forall>j<ncores. thread_inv s j) \<and>
     (bar_open ncores s \<or> (\<exists>i. bar_closed ncores s i))"

lemma thread_ok_bounds:
  assumes "thread_ok r p ts e l"
  shows "l \<le> r" and "e \<le> r + 1" and "r \<le> e"
proof -
  have e: "e = r \<or> e = r + 1" and l: "l + of_bool (p \<noteq> Outside \<and> p \<noteq> Arriving) = e" "p = Outside \<or> p = Arriving \<longrightarrow> e = r"
    using assms unfolding thread_ok_def by blast+
  show "e \<le> r + 1" "r \<le> e" using e by auto
  show "l \<le> r" using e l by (cases "p = Outside \<or> p = Arriving") auto
qed

lemma bar_inv_init: "0 < ncores \<Longrightarrow> bar_inv ncores bar_init"
  by (auto simp: bar_inv_def bar_init_def bar_open_def thread_ok_def)

lemma card_arrived:
  fixes f :: "nat \<Rightarrow> nat"
  assumes "i < n" and "f i = r"
  shows "card {j. j < n \<and> (f(i := r + 1)) j = r + 1} = card {j. j < n \<and> f j = r + 1} + 1"
    and "card {j. j < n \<and> f j = r + 1} = n - 1 \<Longrightarrow> \<forall>j<n. j \<noteq> i \<longrightarrow> f j = r + 1"
proof -
  have fin: "finite {j. j < n \<and> f j = r + 1}" by simp
  have e: "{j. j < n \<and> (f(i := r + 1)) j = r + 1} = insert i {j. j < n \<and> f j = r + 1}" using assms by auto
  show "card {j. j < n \<and> (f(i := r + 1)) j = r + 1} = card {j. j < n \<and> f j = r + 1} + 1"
    unfolding e using assms by simp
  assume c: "card {j. j < n \<and> f j = r + 1} = n - 1"
  have "{j. j < n \<and> f j = r + 1} = {..<n} - {i}"
    using assms c by (intro card_subset_eq) auto
  then show "\<forall>j<n. j \<noteq> i \<longrightarrow> f j = r + 1" by auto
qed

lemma bar_inv_open:
  assumes "bar_inv ncores s" and "i < ncores" and "bar_pc s i = Outside \<or> bar_pc s i = Arriving"
  shows "bar_open ncores s" and "entered s i = releases s"
  using assms by (auto simp: bar_inv_def bar_closed_def thread_ok_def)

lemma bar_inv_enter:
  assumes inv: "bar_inv ncores s" and i: "i < ncores" and p: "bar_pc s i = Outside"
  shows "bar_inv ncores (bar_next ncores i s)"
proof -
  have "bar_open ncores s" using bar_inv_open [OF inv i] p by blast
  then have "bar_open ncores (bar_next ncores i s)" by (simp add: bar_open_def bar_next_def p)
  moreover have "\<forall>j<ncores. thread_inv (bar_next ncores i s) j" "sense s = odd (releases s)"
    using inv p i by (auto simp: bar_inv_def bar_next_def thread_ok_def)
  ultimately show ?thesis by (simp add: bar_inv_def bar_next_def p)
qed

lemma bar_inv_leave:
  assumes inv: "bar_inv ncores s" and i: "i < ncores" and p: "bar_pc s i = Waiting"
  shows "bar_inv ncores (bar_next ncores i s)"
proof (cases "sense s = threadsense s i")
  case True
  have t: "\<forall>j<ncores. thread_inv s j" "sense s = odd (releases s)" using inv by (auto simp: bar_inv_def)
  then have e: "entered s i = releases s" using i p True by (auto simp: thread_ok_def)
  then have "bar_open ncores s" using inv i by (auto simp: bar_inv_def bar_closed_def)
  then have "bar_open ncores (bar_next ncores i s)" by (simp add: bar_open_def bar_next_def p True)
  moreover have "\<forall>j<ncores. thread_inv (bar_next ncores i s) j" using t(1) p e i by (auto simp: bar_next_def thread_ok_def True)
  ultimately show ?thesis using t(2) by (simp add: bar_inv_def bar_next_def p True)
qed (use assms in \<open>simp add: bar_next_def\<close>)

lemma bar_inv_closed:
  assumes "bar_inv ncores s" and "i < ncores" and "bar_pc s i = Resetting \<or> bar_pc s i = Releasing"
  shows "bar_closed ncores s i"
proof -
  obtain k where "bar_closed ncores s k" using assms by (auto simp: bar_inv_def bar_open_def)
  then show ?thesis using assms(2,3) by (cases "k = i") (auto simp: bar_closed_def)
qed

lemma bar_inv_reset:
  assumes inv: "bar_inv ncores s" and i: "i < ncores" and p: "bar_pc s i = Resetting"
  shows "bar_inv ncores (bar_next ncores i s)"
proof -
  have "bar_closed ncores s i" using bar_inv_closed [OF inv i] p by blast
  then have "bar_closed ncores (bar_next ncores i s) i" by (simp add: bar_closed_def bar_next_def p)
  moreover have "\<forall>j<ncores. thread_inv (bar_next ncores i s) j" "sense s = odd (releases s)"
    using inv p i by (auto simp: bar_inv_def bar_next_def thread_ok_def)
  ultimately show ?thesis by (auto simp: bar_inv_def bar_next_def p)
qed

lemma bar_inv_release:
  assumes inv: "bar_inv ncores s" and i: "i < ncores" and p: "bar_pc s i = Releasing"
  shows "bar_inv ncores (bar_next ncores i s)"
proof -
  have c: "bar_closed ncores s i" using bar_inv_closed [OF inv i] p by blast
  then have "bar_open ncores (bar_next ncores i s)" using i p by (auto simp: bar_open_def bar_closed_def bar_next_def)
  moreover have "\<forall>j<ncores. thread_inv (bar_next ncores i s) j" "threadsense s i = odd (releases s + 1)"
    using inv p i c by (auto simp: bar_inv_def bar_next_def thread_ok_def bar_closed_def)
  ultimately show ?thesis by (simp add: bar_inv_def bar_next_def p)
qed

lemma bar_inv_arrive:
  assumes inv: "bar_inv ncores s" and i: "i < ncores" and p: "bar_pc s i = Arriving"
  shows "bar_inv ncores (bar_next ncores i s)"
proof -
  have o: "bar_open ncores s" and e: "entered s i = releases s" using bar_inv_open [OF inv i] p by blast+
  have t: "\<forall>j<ncores. thread_inv s j" "sense s = odd (releases s)" using inv by (auto simp: bar_inv_def)
  have t': "\<forall>j<ncores. thread_inv (bar_next ncores i s) j" using t(1) p e i by (auto simp: bar_next_def thread_ok_def)
  note card = card_arrived [of i ncores "entered s" "releases s", OF i e]
  have cnt: "count s = card {j. j < ncores \<and> entered s j = releases s + 1}" using o by (simp add: bar_open_def)
  show ?thesis
  proof (cases "count s = ncores - 1")
    case True
    then have all: "\<forall>j<ncores. j \<noteq> i \<longrightarrow> entered s j = releases s + 1" unfolding cnt by (rule card(2))
    have "bar_pc s j = Waiting" if "j < ncores" "j \<noteq> i" for j
    proof -
      have "thread_inv s j" "entered s j = releases s + 1" "bar_pc s j \<noteq> Resetting" "bar_pc s j \<noteq> Releasing"
        using t(1) all o [unfolded bar_open_def, THEN conjunct1] that by blast+
      then show ?thesis by (cases "bar_pc s j") (simp_all add: thread_ok_def)
    qed
    then have "bar_closed ncores (bar_next ncores i s) i" using i e all True by (simp add: bar_closed_def bar_next_def p)
    then show ?thesis using t' t(2) by (auto simp: bar_inv_def bar_next_def p)
  next
    case False
    have "\<exists>j<ncores. j \<noteq> i \<and> entered s j = releases s"
    proof (rule ccontr)
      assume "\<not> (\<exists>j<ncores. j \<noteq> i \<and> entered s j = releases s)"
      then have "{j. j < ncores \<and> entered s j = releases s + 1} = {..<ncores} - {i}" using t(1) i e by (auto simp: thread_ok_def)
      then show False using False cnt i by simp
    qed
    then have "\<exists>j<ncores. entered (bar_next ncores i s) j = releases (bar_next ncores i s)" by (auto simp: bar_next_def p)
    moreover have n: "entered (bar_next ncores i s) = (entered s)(i := releases s + 1)" "releases (bar_next ncores i s) = releases s"
      "count (bar_next ncores i s) = count s + 1" by (simp_all add: bar_next_def p e)
    moreover have "count s + 1 = card {j. j < ncores \<and> ((entered s)(i := releases s + 1)) j = releases s + 1}" unfolding card(1) cnt ..
    moreover have "\<forall>j<ncores. bar_pc (bar_next ncores i s) j \<noteq> Resetting \<and> bar_pc (bar_next ncores i s) j \<noteq> Releasing"
      using o [unfolded bar_open_def, THEN conjunct1] False by (simp add: bar_next_def p)
    ultimately have "bar_open ncores (bar_next ncores i s)" unfolding bar_open_def by (simp only: simp_thms)
    then show ?thesis using t' t(2) by (simp add: bar_inv_def bar_next_def p)
  qed
qed

lemma bar_inv_reach: "bar_reach ncores s \<Longrightarrow> 0 < ncores \<Longrightarrow> bar_inv ncores s"
proof (induction rule: bar_reach.induct)
  case (step s i)
  then show ?case
    by (cases "bar_pc s i") (blast intro: bar_inv_enter bar_inv_leave bar_inv_reset bar_inv_release bar_inv_arrive)+
qed (rule bar_inv_init)

section \<open>Properties\<close>

text \<open>
  Property C35: the barrier separates. In every state the threads can reach, in every interleaving, a thread has left the barrier at most as
  often as every other thread has entered it: no thread leaves the \<open>n\<close>-th barrier before all threads have entered it. Nor does a thread enter
  a barrier twice before another one has entered it once.
\<close>

theorem barrier_separates:
  assumes "bar_reach ncores s" and "i < ncores" and "j < ncores"
  shows "left_count s i \<le> entered s j \<and> entered s i \<le> entered s j + 1"
proof -
  have "bar_inv ncores s" using bar_inv_reach [OF assms(1)] assms(2) by simp
  then have "thread_inv s i" "thread_inv s j" using assms(2,3) by (simp_all add: bar_inv_def)
  then have "left_count s i \<le> releases s" "entered s i \<le> releases s + 1" "releases s \<le> entered s j"
    by (blast dest: thread_ok_bounds)+
  then show ?thesis by simp
qed

definition example_run :: "nat list \<Rightarrow> bar_state" where
  "example_run is = fold (bar_next 2) is bar_init"

lemma bar_reach_fold: "bar_reach n s \<Longrightarrow> \<forall>i\<in>set is. i < n \<Longrightarrow> bar_reach n (fold (bar_next n) is s)"
  by (induction "is" arbitrary: s) (simp_all add: bar_reach.step)

lemma example_run_reach: "\<forall>i\<in>set is. i < 2 \<Longrightarrow> bar_reach 2 (example_run is)"
  by (simp add: example_run_def bar_reach_fold bar_reach.init)

theorem barrier_separates_witness: "left_count (example_run [0, 0, 0, 1, 1, 1, 1]) 1 \<le> entered (example_run [0, 0, 0, 1, 1, 1, 1]) 0"
  using barrier_separates [OF example_run_reach, of "[0, 0, 0, 1, 1, 1, 1]" 1 0] by simp

text \<open>
  Property C36: the barrier does not deadlock: in every reachable state in which all threads are inside it, some thread can take a step that
  changes the state.
\<close>

theorem barrier_no_deadlock:
  assumes "bar_reach ncores s" and "0 < ncores" and "\<forall>j<ncores. bar_pc s j \<noteq> Outside"
  shows "\<exists>i<ncores. bar_next ncores i s \<noteq> s"
proof -
  have inv: "bar_inv ncores s" by (rule bar_inv_reach [OF assms(1,2)])
  show ?thesis
  proof (cases "bar_open ncores s")
    case True
    then obtain i where i: "i < ncores" "entered s i = releases s" by (auto simp: bar_open_def)
    have "thread_inv s i" "sense s = odd (releases s)" using inv i(1) by (auto simp: bar_inv_def)
    moreover have "bar_pc s i = Arriving \<or> bar_pc s i = Waiting" using True i assms(3) by (cases "bar_pc s i") (auto simp: bar_open_def)
    ultimately have "bar_pc (bar_next ncores i s) i \<noteq> bar_pc s i" using i by (auto simp: bar_next_def thread_ok_def)
    then show ?thesis using i(1) by metis
  next
    case False
    then obtain i where "bar_closed ncores s i" using inv by (auto simp: bar_inv_def)
    then have "i < ncores" "bar_pc (bar_next ncores i s) i \<noteq> bar_pc s i" by (auto simp: bar_closed_def bar_next_def)
    then show ?thesis by metis
  qed
qed

theorem barrier_no_deadlock_witness: "\<exists>i<2. bar_next 2 i (example_run [0, 0, 1, 0, 1]) \<noteq> example_run [0, 0, 1, 0, 1]"
proof -
  have "\<forall>j<2. bar_pc (example_run [0, 0, 1, 0, 1]) j \<noteq> Outside"
    by (simp add: example_run_def bar_next_def bar_init_def less_2_cases_iff)
  then show ?thesis by (intro barrier_no_deadlock example_run_reach) simp_all
qed

end
