(* ===== verification/Bench_Kernels.thy ===== *)
theory Bench_Kernels
  imports Prelude "HOL-Library.Monad_Syntax"
begin

text \<open>
  Kernels of the benchmark programs under \<^verbatim>\<open>src/riscv-tests/benchmarks\<close>: shift-and-add multiplication (\<^verbatim>\<open>multiply/multiply.c\<close>), the median
  filter (\<^verbatim>\<open>median/median.c\<close>), vector addition (\<^verbatim>\<open>vvadd/vvadd_main.c\<close>) and the comparison of results (\<^verbatim>\<open>verify\<close> in
  \<^verbatim>\<open>common/util.h\<close>). An array of \<^verbatim>\<open>int\<close> is a list of 32-bit words, an index an integer; an access outside the array, undefined
  in C, is \<^const>\<open>None\<close>.
\<close>

section \<open>Arrays\<close>

definition array_get :: "'a list \<Rightarrow> int \<Rightarrow> 'a option" where
  "array_get xs i = (if 0 \<le> i \<and> i < int (length xs) then Some (xs ! nat i) else None)"

definition array_set :: "'a list \<Rightarrow> int \<Rightarrow> 'a \<Rightarrow> 'a list option" where
  "array_set xs i x = (if 0 \<le> i \<and> i < int (length xs) then Some (xs[nat i := x]) else None)"

lemma array_get_nth [simp]: "i < length xs \<Longrightarrow> array_get xs (int i) = Some (xs ! i)"
  by (simp add: array_get_def)

lemma array_set_nth [simp]: "i < length xs \<Longrightarrow> array_set xs (int i) x = Some (xs[i := x])"
  by (simp add: array_set_def)

text \<open>A counted loop: the body for each index of a range, in order.\<close>

primrec for_each :: "int list \<Rightarrow> (int \<Rightarrow> 's \<Rightarrow> 's option) \<Rightarrow> 's \<Rightarrow> 's option" where
  "for_each [] body s = Some s"
| "for_each (i # is) body s = body i s \<bind> for_each is body"

lemma for_each_snoc: "for_each (is @ [i]) body s = for_each is body s \<bind> body i"
proof (induction "is" arbitrary: s)
  case Nil
  show ?case by (cases "body i s") simp_all
next
  case (Cons a "is")
  then show ?case by (cases "body a s") simp_all
qed

section \<open>Multiplication\<close>

text \<open>The loop body \<open>k\<close> times; the shift of the signed \<^verbatim>\<open>x\<close> is arithmetic.\<close>

primrec multiply_loop :: "nat \<Rightarrow> uint32_t \<Rightarrow> uint32_t \<Rightarrow> uint32_t \<Rightarrow> uint32_t" where
  "multiply_loop 0 x y result = result"
| "multiply_loop (Suc k) x y result =
     multiply_loop k (signed_drop_bit 1 x) (push_bit 1 y) (if x AND 1 = 1 then result + y else result)"

definition multiply :: "uint32_t \<Rightarrow> uint32_t \<Rightarrow> uint32_t" where
  "multiply x y = multiply_loop 32 x y 0"

section \<open>Median filter\<close>

definition median_step :: "uint32_t list \<Rightarrow> int \<Rightarrow> uint32_t list \<Rightarrow> uint32_t list option" where
  "median_step input i results =
     do {
       A \<leftarrow> array_get input (i - 1);
       B \<leftarrow> array_get input i;
       C \<leftarrow> array_get input (i + 1);
       if sint A < sint B
       then (if sint B < sint C then array_set results i B
             else if sint C < sint A then array_set results i A
             else array_set results i C)
       else (if sint A < sint C then array_set results i A
             else if sint C < sint B then array_set results i B
             else array_set results i C)
     }"

definition median :: "int \<Rightarrow> uint32_t list \<Rightarrow> uint32_t list \<Rightarrow> uint32_t list option" where
  "median n input results =
     do {
       results \<leftarrow> array_set results 0 0;
       results \<leftarrow> array_set results (n - 1) 0;
       for_each [1..n - 2] (median_step input) results
     }"

section \<open>Vector addition\<close>

definition vvadd :: "int \<Rightarrow> uint32_t list \<Rightarrow> uint32_t list \<Rightarrow> uint32_t list \<Rightarrow> uint32_t list option" where
  "vvadd n a b c =
     for_each [0..n - 1] (\<lambda>i c. do { x \<leftarrow> array_get a i; y \<leftarrow> array_get b i; array_set c i (x + y) }) c"

section \<open>Comparison of results\<close>

text \<open>The loop from \<open>i\<close>, two elements at a time, while \<open>i < n / 2 * 2\<close>; the result of an early return is \<open>Inl\<close>.\<close>

function verify_loop :: "int \<Rightarrow> int \<Rightarrow> uint32_t list \<Rightarrow> uint32_t list \<Rightarrow> (int + unit) option" where
  "verify_loop n i test ver =
     (if i < n div 2 * 2
      then
        do {
          t0 \<leftarrow> array_get test i; t1 \<leftarrow> array_get test (i + 1);
          v0 \<leftarrow> array_get ver i; v1 \<leftarrow> array_get ver (i + 1);
          if t0 \<noteq> v0 then Some (Inl (i + 1))
          else if t1 \<noteq> v1 then Some (Inl (i + 2))
          else verify_loop n (i + 2) test ver
        }
      else Some (Inr ()))"
  by pat_completeness auto

termination
  by (relation "measure (\<lambda>(n, i, _). nat (n div 2 * 2 - i))") auto

declare verify_loop.simps [simp del]

definition verify :: "int \<Rightarrow> uint32_t list \<Rightarrow> uint32_t list \<Rightarrow> int option" where
  "verify n test ver =
     do {
       r \<leftarrow> verify_loop n 0 test ver;
       case r of
         Inl k \<Rightarrow> Some k
       | Inr _ \<Rightarrow>
           if n mod 2 \<noteq> 0
           then do { t \<leftarrow> array_get test (n - 1); v \<leftarrow> array_get ver (n - 1); Some (if t \<noteq> v then n else 0) }
           else Some 0
     }"

section \<open>Correctness\<close>

lemma drop_bit_step: "drop_bit n z = of_bool (bit z n) + 2 * drop_bit (Suc n) z" for z :: "'a::len word"
proof -
  have "drop_bit n z = drop_bit n z mod 2 + 2 * (drop_bit n z div 2)" by (rule mod_mult_div_eq [symmetric])
  also have "drop_bit n z mod 2 = of_bool (bit z n)" by (simp add: bit_iff_odd_drop_bit mod_2_eq_odd)
  also have "drop_bit n z div 2 = drop_bit (Suc n) z" by (simp only: drop_bit_Suc drop_bit_half)
  finally show ?thesis .
qed

lemma multiply_loop_value:
  assumes "k \<le> 32" and "\<And>j. j < k \<Longrightarrow> bit x j = bit z (j + (32 - k))"
  shows "multiply_loop k x y r = r + y * drop_bit (32 - k) z"
  using assms
proof (induction k arbitrary: x y r)
  case 0
  have "drop_bit 32 z = 0" by (rule bit_word_eqI) (simp add: bit_simps)
  then show ?case by simp
next
  case (Suc k)
  have b0: "(x AND 1 = 1) = bit z (32 - Suc k)" using Suc.prems(2) [of 0] by (simp add: and_one_eq bit_0 mod_2_eq_odd)
  have s: "32 - k = Suc (32 - Suc k)" using Suc.prems(1) by simp
  have "multiply_loop (Suc k) x y r =
      (if bit z (32 - Suc k) then r + y else r) + push_bit 1 y * drop_bit (32 - k) z"
    unfolding multiply_loop.simps b0
  proof (rule Suc.IH)
    show "bit (signed_drop_bit 1 x) j = bit z (j + (32 - k))" if "j < k" for j
      using Suc.prems(2) [of "Suc j"] Suc.prems(1) that s by (simp add: bit_signed_drop_bit_iff)
  qed (use Suc.prems(1) in simp)
  also have "\<dots> = r + y * drop_bit (32 - Suc k) z"
    unfolding s drop_bit_step [of "32 - Suc k" z] by (simp add: algebra_simps push_bit_eq_mult)
  finally show ?case .
qed

lemma for_each_update:
  assumes "0 \<le> m" and "int (length r) \<ge> m + int k"
    and "\<And>i r'. m \<le> i \<Longrightarrow> i < m + int k \<Longrightarrow> length r' = length r \<Longrightarrow> body i r' = Some (r'[nat i := g i])"
  shows "\<exists>r'. for_each [m..m + int k - 1] body r = Some r' \<and> length r' = length r \<and>
    (\<forall>j<length r. r' ! j = (if m \<le> int j \<and> int j < m + int k then g (int j) else r ! j))"
  using assms
proof (induction k)
  case (Suc k)
  obtain r' where r': "for_each [m..m + int k - 1] body r = Some r'" "length r' = length r"
    "\<forall>j<length r. r' ! j = (if m \<le> int j \<and> int j < m + int k then g (int j) else r ! j)"
    using Suc by fastforce
  have "[m..m + int (Suc k) - 1] = [m..m + int k - 1] @ [m + int k]" using upto_rec2 [of m "m + int k"] by (simp add: add.commute)
  then have "for_each [m..m + int (Suc k) - 1] body r = Some (r'[nat (m + int k) := g (m + int k)])"
    using r'(1) Suc.prems(3) [of "m + int k" r'] r'(2) by (simp add: for_each_snoc)
  moreover have "(r'[nat (m + int k) := g (m + int k)]) ! j = (if m \<le> int j \<and> int j < m + int (Suc k) then g (int j) else r ! j)"
    if "j < length r" for j
  proof (cases "int j = m + int k")
    case True
    then have "nat (m + int k) = j" by simp
    then show ?thesis using True that r'(2) assms(1) by simp
  next
    case False
    then have "nat (m + int k) \<noteq> j" using assms(1) by auto
    then show ?thesis using False r'(3) that by auto
  qed
  ultimately show ?case
    using r'(2) by (intro exI [of _ "r'[nat (m + int k) := g (m + int k)]"]) (simp only: length_list_update simp_thms, blast)
qed auto

lemma vvadd_correct:
  assumes "length a = N" and "length b = N" and "length c = N"
  shows "vvadd (int N) a b c = Some (map2 (+) a b)"
proof -
  let ?body = "\<lambda>i c. do { x \<leftarrow> array_get a i; y \<leftarrow> array_get b i; array_set c i (x + y) }"
  have "\<exists>r. for_each [0..0 + int N - 1] ?body c = Some r \<and> length r = length c \<and>
      (\<forall>j<length c. r ! j = (if 0 \<le> int j \<and> int j < 0 + int N then a ! nat (int j) + b ! nat (int j) else c ! j))"
    using assms by (intro for_each_update [where g = "\<lambda>i. a ! nat i + b ! nat i"]) (auto simp: array_get_def array_set_def)
  then obtain r where r: "vvadd (int N) a b c = Some r" "length r = N" "\<forall>j<N. r ! j = a ! j + b ! j"
    using assms by (auto simp: vvadd_def)
  then have "r = map2 (+) a b" using assms by (intro nth_equalityI) auto
  then show ?thesis using r(1) by simp
qed

definition middle :: "uint32_t \<Rightarrow> uint32_t \<Rightarrow> uint32_t \<Rightarrow> int" where
  "middle A B C = sort [sint A, sint B, sint C] ! 1"

definition pick :: "uint32_t \<Rightarrow> uint32_t \<Rightarrow> uint32_t \<Rightarrow> uint32_t" where
  "pick A B C = (if sint A < sint B then if sint B < sint C then B else if sint C < sint A then A else C
     else if sint A < sint C then A else if sint C < sint B then B else C)"

lemma pick_middle: "sint (pick A B C) = middle A B C"
  by (auto simp: pick_def middle_def)

lemma median_step_pick:
  assumes "1 \<le> i" and "i + 1 < int (length input)" and "length r = length input"
  shows "median_step input i r = Some (r[nat i := pick (input ! nat (i - 1)) (input ! nat i) (input ! nat (i + 1))])"
proof -
  have g: "array_get input (i - 1) = Some (input ! nat (i - 1))" "array_get input i = Some (input ! nat i)"
    "array_get input (i + 1) = Some (input ! nat (i + 1))" "array_set r i x = Some (r[nat i := x])" for x
    using assms by (simp_all add: array_get_def array_set_def)
  show ?thesis unfolding median_step_def g by (simp add: pick_def)
qed

definition agree :: "'a list \<Rightarrow> 'a list \<Rightarrow> nat" where
  "agree xs ys = length (takeWhile (\<lambda>(x, y). x = y) (zip xs ys))"

lemma agree_step:
  "i < length xs \<Longrightarrow> i < length ys \<Longrightarrow> agree (drop i xs) (drop i ys) = (if xs ! i = ys ! i then Suc (agree (drop (Suc i) xs) (drop (Suc i) ys)) else 0)"
  by (simp add: agree_def Cons_nth_drop_Suc [symmetric])

lemma agree_full: "length xs = length ys \<Longrightarrow> agree xs ys \<le> length xs \<and> (agree xs ys = length xs \<longleftrightarrow> xs = ys)"
  by (induction xs ys rule: list_induct2) (auto simp: agree_def)

lemma verify_loop_value:
  assumes "length test = N" and "length ver = N" and "even i" and "i \<le> N"
  shows "verify_loop (int N) (int i) test ver =
    (let c = i + agree (drop i test) (drop i ver) in if c < N div 2 * 2 then Some (Inl (int c + 1)) else Some (Inr ()))"
  using assms(3,4)
proof (induction "N - i" arbitrary: i rule: less_induct)
  case less
  have d: "int N div 2 * 2 = int (N div 2 * 2)" by (simp add: zdiv_int)
  show ?case
  proof (cases "i < N div 2 * 2")
    case True
    have "Suc i \<noteq> N div 2 * 2" using less.prems(1) by (metis even_Suc even_mult_iff even_numeral)
    then have i2: "Suc i < N div 2 * 2" using True by simp
    then have i1: "Suc i < N" by simp
    have g: "array_get test (int i) = Some (test ! i)" "array_get test (int i + 1) = Some (test ! Suc i)"
      "array_get ver (int i) = Some (ver ! i)" "array_get ver (int i + 1) = Some (ver ! Suc i)"
      using i1 assms(1,2) array_get_nth [of "Suc i" test] array_get_nth [of "Suc i" ver] by (simp_all add: add.commute)
    have a: "agree (drop i test) (drop i ver) = (if test ! i = ver ! i then if test ! Suc i = ver ! Suc i
        then Suc (Suc (agree (drop (Suc (Suc i)) test) (drop (Suc (Suc i)) ver))) else 1 else 0)"
      using i1 assms(1,2) by (simp add: agree_step)
    have ih: "verify_loop (int N) (int i + 2) test ver =
        (let c = Suc (Suc i) + agree (drop (Suc (Suc i)) test) (drop (Suc (Suc i)) ver) in if c < N div 2 * 2 then Some (Inl (int c + 1)) else Some (Inr ()))"
      using less.hyps [of "Suc (Suc i)"] less.prems i1 by (simp add: add.commute)
    show ?thesis
      using True i2 by (subst verify_loop.simps) (auto simp: d g ih a Let_def)
  next
    case False
    then show ?thesis by (subst verify_loop.simps) (simp add: d Let_def)
  qed
qed

lemma verify_value:
  assumes "length test = N" and "length ver = N"
  shows "verify (int N) test ver = Some (if test = ver then 0 else int (agree test ver) + 1)"
proof -
  have f: "agree test ver \<le> N" "agree test ver = N \<longleftrightarrow> test = ver" using agree_full [of test ver] assms by simp_all
  have l: "verify_loop (int N) 0 test ver = (if agree test ver < N div 2 * 2 then Some (Inl (int (agree test ver) + 1)) else Some (Inr ()))"
    using verify_loop_value [OF assms, of 0] by simp
  show ?thesis
  proof (cases "agree test ver < N div 2 * 2")
    case True
    then have "agree test ver < N" by simp
    then show ?thesis using True f(2) by (auto simp: verify_def l)
  next
    case False
    then have l': "verify_loop (int N) 0 test ver = Some (Inr ())" using l by simp
    show ?thesis
    proof (cases "even N")
      case True
      then have "agree test ver = N" using False f(1) by simp
      then show ?thesis using True f(2) unfolding verify_def l' by simp
    next
      case odd: False
      then have N: "0 < N" "N div 2 * 2 = N - 1" by (auto elim: oddE)
      have g: "array_get test (int N - 1) = Some (test ! (N - 1))" "array_get ver (int N - 1) = Some (ver ! (N - 1))"
        using N(1) array_get_nth [of "N - 1" test] array_get_nth [of "N - 1" ver] assms by (simp_all add: of_nat_diff)
      have "test ! (N - 1) \<noteq> ver ! (N - 1)" if "agree test ver = N - 1"
        using nth_length_takeWhile [of "\<lambda>(x, y). x = y" "zip test ver"] that N(1) assms by (simp add: agree_def [symmetric])
      moreover have "agree test ver = N - 1 \<or> agree test ver = N" using False f(1) N by auto
      moreover have "int N mod 2 = 1" using odd by (metis even_of_nat odd_iff_mod_2_eq_one)
      ultimately show ?thesis using f(2) N(1) unfolding verify_def l' by (auto simp: g of_nat_diff)
    qed
  qed
qed

section \<open>Properties\<close>

text \<open>
  Shift-and-add multiplication computes the product: for all 32-bit arguments, signed or not, the 32 steps of \<^verbatim>\<open>multiply\<close>
  give the product modulo $2^{32}$.
\<close>

lemma multiply_correct: "multiply x y = x * y"
  unfolding multiply_def using multiply_loop_value [of 32 x x y 0] by simp

text \<open>
  The median filter: on arrays of \<open>n\<close> elements, whatever the output array held, \<^verbatim>\<open>median\<close> stays within the arrays, makes the ends
  zero, and every other element the middle one, in signed order, of the three input elements around it.
\<close>

lemma median_correct:
  assumes "length input = N" and "length results = N" and "0 < N"
  shows "\<exists>r. median (int N) input results = Some r \<and> length r = N \<and> r ! 0 = 0 \<and> r ! (N - 1) = 0 \<and>
    (\<forall>j. 0 < j \<and> j < N - 1 \<longrightarrow> sint (r ! j) = middle (input ! (j - 1)) (input ! j) (input ! (j + 1)))"
proof -
  let ?r = "results[0 := 0, N - 1 := 0]"
  let ?g = "\<lambda>i. pick (input ! nat (i - 1)) (input ! nat i) (input ! nat (i + 1))"
  have "array_set results 0 0 = Some (results[0 := 0])" "array_set (results[0 := 0]) (int N - 1) 0 = Some ?r"
    using assms array_set_nth [of 0 results 0] array_set_nth [of "N - 1" "results[0 := 0]" 0] by (simp_all add: of_nat_diff)
  then have m: "median (int N) input results = for_each [1..1 + int (N - 2) - 1] (median_step input) ?r"
    using assms(3) by (cases "N = 1") (simp_all add: median_def of_nat_diff)
  obtain r where r: "for_each [1..1 + int (N - 2) - 1] (median_step input) ?r = Some r" "length r = N"
    "\<forall>j<N. r ! j = (if 1 \<le> int j \<and> int j < 1 + int (N - 2) then ?g (int j) else ?r ! j)"
  proof -
    have "\<exists>r. for_each [1..1 + int (N - 2) - 1] (median_step input) ?r = Some r \<and> length r = length ?r \<and>
        (\<forall>j<length ?r. r ! j = (if 1 \<le> int j \<and> int j < 1 + int (N - 2) then ?g (int j) else ?r ! j))"
    proof (rule for_each_update)
      show "1 + int (N - 2) \<le> int (length ?r)" using assms by simp
      show "median_step input i r' = Some (r'[nat i := ?g i])" if "1 \<le> i" "i < 1 + int (N - 2)" "length r' = length ?r" for i r'
        using that assms by (intro median_step_pick) auto
    qed simp
    then show thesis using that assms(2) by auto
  qed
  have "sint (r ! j) = middle (input ! (j - 1)) (input ! j) (input ! (j + 1))" if "0 < j" "j < N - 1" for j
  proof -
    have "r ! j = ?g (int j)" using r(3) that by auto
    moreover have "nat (int j - 1) = j - 1" "nat (int j + 1) = j + 1" using that by auto
    ultimately show ?thesis by (simp add: pick_middle)
  qed
  moreover have "r ! 0 = 0" "r ! (N - 1) = 0" using r(3) assms by (auto simp: nth_list_update)
  ultimately show ?thesis using m r by auto
qed

lemma median_example:
  "\<exists>r. median 3 [5, - 1, 2] [7, 7, 7] = Some r \<and> r ! 0 = 0 \<and> sint (r ! 1) = middle 5 (- 1) 2"
  using median_correct [of "[5, - 1, 2]" 3 "[7, 7, 7]"] by auto

text \<open>
  The comparison of a benchmark's results with the reference data: for arrays of \<open>n\<close> elements \<^verbatim>\<open>verify\<close> stays within the arrays
  and returns 0 exactly if they are equal, and otherwise the number, from 1, of the first element that differs.
\<close>

lemma verify_correct:
  assumes "length test = N" and "length ver = N"
  shows "verify (int N) test ver = Some (if test = ver then 0 else int (length (takeWhile (\<lambda>(t, v). t = v) (zip test ver))) + 1)"
  using verify_value [OF assms] by (simp add: agree_def)

end
