(* ===== verification/Quick_Sort.thy ===== *)
theory Quick_Sort
  imports Bench_Kernels "HOL-Library.Multiset"
begin

text \<open>
  The quicksort benchmark, \<^verbatim>\<open>src/riscv-tests/benchmarks/qsort/qsort_main.c\<close>: an in-place sort with an explicit stack of postponed segments, insertion
  sort of short segments and a partition around the median of three elements. Indices are integers, from 1 as in the code, which subtracts 1 at
  each access; an access outside the array or outside the stack, undefined in C, is \<^const>\<open>None\<close>. The outer loop has no bound of its own, so it is a
  partial function: a result \<^const>\<open>Some\<close> says that it ends, without such an access.
\<close>

section \<open>The program\<close>

definition INSERTION_THRESHOLD :: int where "INSERTION_THRESHOLD = 7"

definition NSTACK :: nat where "NSTACK = 50"

definition SWAP :: "uint32_t list \<Rightarrow> int \<Rightarrow> int \<Rightarrow> uint32_t list option" where
  "SWAP arr p q =
     do {
       temp \<leftarrow> array_get arr p;
       b \<leftarrow> array_get arr q;
       arr \<leftarrow> array_set arr p b;
       array_set arr q temp
     }"

text \<open>Insertion sort: the inner loop moves the elements above \<open>a\<close> up; it gives the final \<open>i\<close> and the array.\<close>

function insert_loop :: "int \<Rightarrow> uint32_t \<Rightarrow> int \<Rightarrow> uint32_t list \<Rightarrow> (int \<times> uint32_t list) option" where
  "insert_loop l a i arr =
     (if l \<le> i
      then
        do {
          x \<leftarrow> array_get arr (i - 1);
          if sint x \<le> sint a then Some (i, arr)
          else do { arr \<leftarrow> array_set arr i x; insert_loop l a (i - 1) arr }
        }
      else Some (i, arr))"
  by pat_completeness auto

termination
  by (relation "measure (\<lambda>(l, a, i, arr). nat (i - l + 1))") auto

definition insert_elem :: "int \<Rightarrow> int \<Rightarrow> uint32_t list \<Rightarrow> uint32_t list option" where
  "insert_elem l j arr =
     do {
       a \<leftarrow> array_get arr (j - 1);
       (i, arr) \<leftarrow> insert_loop l a (j - 1) arr;
       array_set arr i a
     }"

definition insertion_sort :: "int \<Rightarrow> int \<Rightarrow> uint32_t list \<Rightarrow> uint32_t list option" where
  "insertion_sort l ir arr = for_each [l + 1..ir] (insert_elem l) arr"

text \<open>The median of three: \<open>if (arr[p] > arr[q]) SWAP(arr[p], arr[q])\<close> on three pairs.\<close>

definition order_pair :: "int \<Rightarrow> int \<Rightarrow> uint32_t list \<Rightarrow> uint32_t list option" where
  "order_pair p q arr =
     do {
       x \<leftarrow> array_get arr p;
       y \<leftarrow> array_get arr q;
       if sint x > sint y then SWAP arr p q else Some arr
     }"

definition median_of_three :: "int \<Rightarrow> int \<Rightarrow> uint32_t list \<Rightarrow> uint32_t list option" where
  "median_of_three l ir arr =
     do {
       arr \<leftarrow> SWAP arr (drop_bit 1 (l + ir) - 1) l;
       arr \<leftarrow> order_pair (l - 1) (ir - 1) arr;
       arr \<leftarrow> order_pair l (ir - 1) arr;
       order_pair (l - 1) l arr
     }"

text \<open>The scans \<open>do i++; while (arr[i-1] < a)\<close> and \<open>do j--; while (arr[j-1] > a)\<close>.\<close>

function scan_up :: "uint32_t list \<Rightarrow> uint32_t \<Rightarrow> int \<Rightarrow> int option" where
  "scan_up arr a i =
     (case array_get arr i of
        None \<Rightarrow> None
      | Some x \<Rightarrow> if sint x < sint a then scan_up arr a (i + 1) else Some (i + 1))"
  by pat_completeness auto

termination
  by (relation "measure (\<lambda>(arr, a, i). nat (int (length arr) - i))") (auto simp: array_get_def split: if_splits)

function scan_down :: "uint32_t list \<Rightarrow> uint32_t \<Rightarrow> int \<Rightarrow> int option" where
  "scan_down arr a j =
     (case array_get arr (j - 2) of
        None \<Rightarrow> None
      | Some x \<Rightarrow> if sint x > sint a then scan_down arr a (j - 1) else Some (j - 1))"
  by pat_completeness auto

termination
  by (relation "measure (\<lambda>(arr, a, j). nat j)") (auto simp: array_get_def split: if_splits)

declare insert_loop.simps [simp del] scan_up.simps [simp del] scan_down.simps [simp del]

partial_function (option) partition_loop :: "uint32_t \<Rightarrow> int \<Rightarrow> int \<Rightarrow> uint32_t list \<Rightarrow> (int \<times> int \<times> uint32_t list) option" where
  "partition_loop a i j arr =
     do {
       i \<leftarrow> scan_up arr a i;
       j \<leftarrow> scan_down arr a j;
       if j < i then Some (i, j, arr)
       else do { arr \<leftarrow> SWAP arr (i - 1) (j - 1); partition_loop a i j arr }
     }"

definition partition_segment :: "int \<Rightarrow> int \<Rightarrow> uint32_t list \<Rightarrow> (int \<times> int \<times> uint32_t list) option" where
  "partition_segment l ir arr =
     do {
       arr \<leftarrow> median_of_three l ir arr;
       a \<leftarrow> array_get arr l;
       (i, j, arr) \<leftarrow> partition_loop a (l + 1) ir arr;
       x \<leftarrow> array_get arr (j - 1);
       arr \<leftarrow> array_set arr l x;
       arr \<leftarrow> array_set arr (j - 1) a;
       Some (i, j, arr)
     }"

text \<open>The outer loop; the contents of \<^verbatim>\<open>istack\<close> are not initialised, so they are an argument.\<close>

partial_function (option) sort_loop :: "int \<Rightarrow> int \<Rightarrow> int \<Rightarrow> int list \<Rightarrow> uint32_t list \<Rightarrow> uint32_t list option" where
  "sort_loop ir l jstack istack arr =
     (if ir - l < INSERTION_THRESHOLD
      then
        do {
          arr \<leftarrow> insertion_sort l ir arr;
          if jstack = 0 then Some arr
          else
            do {
              ir \<leftarrow> array_get istack jstack;
              l \<leftarrow> array_get istack (jstack - 1);
              sort_loop ir l (jstack - 2) istack arr
            }
        }
      else
        do {
          (i, j, arr) \<leftarrow> partition_segment l ir arr;
          let jstack = jstack + 2;
          if ir - i + 1 \<ge> j - l
          then
            do {
              istack \<leftarrow> array_set istack jstack ir;
              istack \<leftarrow> array_set istack (jstack - 1) i;
              sort_loop (j - 1) l jstack istack arr
            }
          else
            do {
              istack \<leftarrow> array_set istack jstack (j - 1);
              istack \<leftarrow> array_set istack (jstack - 1) l;
              sort_loop ir i jstack istack arr
            }
        })"

definition qsort_sort :: "int list \<Rightarrow> int \<Rightarrow> uint32_t list \<Rightarrow> uint32_t list option" where
  "qsort_sort istack n arr = sort_loop n 1 0 istack arr"

definition qsort_main :: "int list \<Rightarrow> uint32_t list \<Rightarrow> uint32_t list \<Rightarrow> int option" where
  "qsort_main istack input_data verify_data =
     do {
       let DATA_SIZE = int (length input_data);
       input_data \<leftarrow> qsort_sort istack DATA_SIZE input_data;
       verify DATA_SIZE input_data verify_data
     }"

section \<open>Segments\<close>

text \<open>The signed value at an index, and arrays that differ by a permutation of the segment from \<open>lo\<close> up to but not including \<open>hi\<close>.\<close>

definition elem_at :: "uint32_t list \<Rightarrow> int \<Rightarrow> int" where
  "elem_at xs k = sint (xs ! nat k)"

definition seg_perm :: "int \<Rightarrow> int \<Rightarrow> uint32_t list \<Rightarrow> uint32_t list \<Rightarrow> bool" where
  "seg_perm lo hi xs ys \<longleftrightarrow> mset ys = mset xs \<and> (\<forall>k\<ge>0. k < lo \<or> hi \<le> k \<longrightarrow> elem_at ys k = elem_at xs k)"

definition seg_sorted :: "int \<Rightarrow> int \<Rightarrow> uint32_t list \<Rightarrow> bool" where
  "seg_sorted lo hi xs \<longleftrightarrow> (\<forall>p q. lo \<le> p \<and> p < q \<and> q < hi \<longrightarrow> elem_at xs p \<le> elem_at xs q)"

lemma elem_at_update [simp]:
  "0 \<le> i \<Longrightarrow> i < int (length xs) \<Longrightarrow> 0 \<le> k \<Longrightarrow> elem_at (xs[nat i := v]) k = (if k = i then sint v else elem_at xs k)"
  by (auto simp: elem_at_def nth_list_update nat_eq_iff)

lemma seg_perm_length: "seg_perm lo hi xs ys \<Longrightarrow> length ys = length xs"
  unfolding seg_perm_def by (metis size_mset)

lemma seg_perm_refl [simp]: "seg_perm lo hi xs xs"
  by (simp add: seg_perm_def)

lemma seg_perm_trans: "seg_perm lo hi xs ys \<Longrightarrow> seg_perm lo hi ys zs \<Longrightarrow> seg_perm lo hi xs zs"
  by (simp add: seg_perm_def)

lemma seg_perm_mono: "seg_perm lo hi xs ys \<Longrightarrow> lo' \<le> lo \<Longrightarrow> hi \<le> hi' \<Longrightarrow> seg_perm lo' hi' xs ys"
  by (auto simp: seg_perm_def)

lemma seg_perm_outside: "seg_perm lo hi xs ys \<Longrightarrow> 0 \<le> k \<Longrightarrow> k < lo \<or> hi \<le> k \<Longrightarrow> elem_at ys k = elem_at xs k"
  by (auto simp: seg_perm_def)

lemma seg_perm_inside:
  assumes "seg_perm lo hi xs ys" and "0 \<le> lo" and "hi \<le> int (length xs)" and "lo \<le> k" and "k < hi"
  obtains k' where "lo \<le> k'" "k' < hi" "elem_at ys k = elem_at xs k'"
proof -
  let ?l = "nat lo" and ?h = "nat hi"
  let ?seg = "\<lambda>zs. drop ?l (take ?h zs)"
  have len: "length ys = length xs" using assms(1) by (rule seg_perm_length)
  have split: "mset zs = mset (take ?l zs) + mset (?seg zs) + mset (drop ?h zs)" for zs :: "uint32_t list"
  proof -
    have "zs = take ?l (take ?h zs) @ ?seg zs @ drop ?h zs" by (simp only: append_take_drop_id append_assoc [symmetric])
    moreover have "take ?l (take ?h zs) = take ?l zs" using assms by (simp add: take_take min_def)
    ultimately show ?thesis by (metis mset_append add.assoc)
  qed
  have o: "ys ! m = xs ! m" if "m < ?l \<or> ?h \<le> m" for m
  proof -
    have "elem_at ys (int m) = elem_at xs (int m)" using that assms by (intro seg_perm_outside [OF assms(1)]) auto
    then show ?thesis by (simp add: elem_at_def signed_word_eqI)
  qed
  have "take ?l ys = take ?l xs" "drop ?h ys = drop ?h xs"
    using len o by (auto intro!: nth_equalityI)
  then have "mset (?seg ys) = mset (?seg xs)"
    using split [of ys] split [of xs] assms(1) by (simp add: seg_perm_def)
  then have s: "set (?seg ys) = set (?seg xs)" by (metis set_mset_mset)
  have "ys ! nat k = ?seg ys ! (nat k - ?l)" "nat k - ?l < length (?seg ys)" using assms len by auto
  then have "ys ! nat k \<in> set (?seg xs)" using s by (metis nth_mem)
  then obtain m where "m < length (?seg xs)" "ys ! nat k = ?seg xs ! m" by (auto simp: in_set_conv_nth)
  then show thesis using that [of "int (?l + m)"] assms len by (auto simp: elem_at_def nat_add_distrib)
qed

lemma array_get_at: "0 \<le> k \<Longrightarrow> k < int (length xs) \<Longrightarrow> array_get xs k = Some (xs ! nat k)"
  by (simp add: array_get_def)

lemma array_set_at: "0 \<le> k \<Longrightarrow> k < int (length xs) \<Longrightarrow> array_set xs k x = Some (xs[nat k := x])"
  by (simp add: array_set_def)

section \<open>Insertion sort\<close>

lemma mset_move: "p < length xs \<Longrightarrow> q < length xs \<Longrightarrow> p \<noteq> q \<Longrightarrow> mset (xs[p := xs ! q, q := a]) = mset (xs[p := a])"
  using mset_swap [of q "xs[p := a]" p] by (simp add: list_update_swap)

lemma insert_loop_result:
  assumes "1 \<le> l" and "l - 1 \<le> i" and "i < int (length arr)"
  shows "\<exists>i' arr'. insert_loop l a i arr = Some (i', arr') \<and> l - 1 \<le> i' \<and> i' \<le> i \<and> length arr' = length arr \<and>
    mset (arr'[nat i' := a]) = mset (arr[nat i := a]) \<and>
    (\<forall>k\<ge>0. elem_at arr' k = (if i' < k \<and> k \<le> i then elem_at arr (k - 1) else elem_at arr k)) \<and>
    (\<forall>k. i' < k \<and> k \<le> i \<longrightarrow> sint a < elem_at arr (k - 1)) \<and> (l \<le> i' \<longrightarrow> elem_at arr (i' - 1) \<le> sint a)"
  using assms(2,3)
proof (induction "nat (i - l + 1)" arbitrary: i arr rule: less_induct)
  case less
  consider (low) "i < l" | (stop) "l \<le> i" "elem_at arr (i - 1) \<le> sint a" | (move) "l \<le> i" "sint a < elem_at arr (i - 1)" by linarith
  then show ?case
  proof cases
    case low
    then show ?thesis using less.prems by (subst insert_loop.simps) (auto intro!: exI [of _ arr])
  next
    case stop
    then show ?thesis using assms(1) less.prems
      by (subst insert_loop.simps) (auto simp: array_get_at elem_at_def intro!: exI [of _ arr])
  next
    case move
    let ?x = "arr ! nat (i - 1)" and ?arr = "arr[nat i := arr ! nat (i - 1)]"
    have i: "0 \<le> i - 1" "nat i < length arr" "nat (i - 1) < length arr" "nat i \<noteq> nat (i - 1)" using move assms(1) less.prems by auto
    have st: "insert_loop l a i arr = insert_loop l a (i - 1) ?arr"
      using move i(1) less.prems by (subst insert_loop.simps) (simp add: array_get_at array_set_at elem_at_def)
    obtain i' arr' where r: "insert_loop l a (i - 1) ?arr = Some (i', arr')" "l - 1 \<le> i'" "i' \<le> i - 1" "length arr' = length arr"
      "mset (arr'[nat i' := a]) = mset (?arr[nat (i - 1) := a])"
      "\<forall>k\<ge>0. elem_at arr' k = (if i' < k \<and> k \<le> i - 1 then elem_at ?arr (k - 1) else elem_at ?arr k)"
      "\<forall>k. i' < k \<and> k \<le> i - 1 \<longrightarrow> sint a < elem_at ?arr (k - 1)" "l \<le> i' \<longrightarrow> elem_at ?arr (i' - 1) \<le> sint a"
      using less.hyps [of "i - 1" ?arr] less.prems move(1) by auto
    have upd: "elem_at ?arr k = (if k = i then elem_at arr (i - 1) else elem_at arr k)" if "0 \<le> k" for k
      using that i(1) less.prems by (simp add: elem_at_def [symmetric])
    have "elem_at arr' k = (if i' < k \<and> k \<le> i then elem_at arr (k - 1) else elem_at arr k)" if "0 \<le> k" for k
      using r(2,3,6) that upd [of k] upd [of "k - 1"] assms(1) by auto
    moreover have "sint a < elem_at arr (k - 1)" if "i' < k" "k \<le> i" for k
      using r(2,7) that upd [of "k - 1"] move(2) assms(1) by (cases "k = i") auto
    moreover have "l \<le> i' \<longrightarrow> elem_at arr (i' - 1) \<le> sint a" using r(3,8) upd [of "i' - 1"] assms(1) by auto
    moreover have "mset (arr'[nat i' := a]) = mset (arr[nat i := a])" using r(5) mset_move [OF i(2,3,4)] by simp
    ultimately show ?thesis using st r(1-4) by (intro exI [of _ i'] exI [of _ arr']) auto
  qed
qed

lemma insert_elem_result:
  assumes "1 \<le> l" and "l < j" and "j \<le> int (length arr)" and "seg_sorted (l - 1) (j - 1) arr"
  shows "\<exists>arr'. insert_elem l j arr = Some arr' \<and> seg_perm (l - 1) j arr arr' \<and> seg_sorted (l - 1) j arr'"
proof -
  let ?a = "arr ! nat (j - 1)"
  obtain i xs where r: "insert_loop l ?a (j - 1) arr = Some (i, xs)" "l - 1 \<le> i" "i \<le> j - 1" "length xs = length arr"
    "mset (xs[nat i := ?a]) = mset (arr[nat (j - 1) := ?a])"
    and sh: "\<forall>k\<ge>0. elem_at xs k = (if i < k \<and> k \<le> j - 1 then elem_at arr (k - 1) else elem_at arr k)"
    and gt: "\<forall>k. i < k \<and> k \<le> j - 1 \<longrightarrow> sint ?a < elem_at arr (k - 1)" and le: "l \<le> i \<longrightarrow> elem_at arr (i - 1) \<le> sint ?a"
    using insert_loop_result [of l "j - 1" arr ?a] assms(1-3) by auto
  let ?ys = "xs[nat i := ?a]"
  have run: "insert_elem l j arr = Some ?ys" using r(1-4) assms by (simp add: insert_elem_def array_get_at array_set_at)
  have at: "elem_at ?ys k = (if k = i then sint ?a else if i < k \<and> k \<le> j - 1 then elem_at arr (k - 1) else elem_at arr k)" if "0 \<le> k" for k
    using that r(2-4) assms(1,3) sh by simp
  have "seg_perm (l - 1) j arr ?ys" using r(2,3,5) at assms(1) by (auto simp: seg_perm_def)
  moreover have "elem_at ?ys p \<le> elem_at ?ys q" if pq: "l - 1 \<le> p" "p < q" "q < j" for p q
  proof -
    have old: "elem_at arr x \<le> elem_at arr y" if "l - 1 \<le> x" "x \<le> y" "y < j - 1" for x y
      using assms(4) that unfolding seg_sorted_def by (cases "x = y") auto
    have v: "elem_at ?ys p = (if p = i then sint ?a else if i < p \<and> p \<le> j - 1 then elem_at arr (p - 1) else elem_at arr p)"
      "elem_at ?ys q = (if q = i then sint ?a else if i < q \<and> q \<le> j - 1 then elem_at arr (q - 1) else elem_at arr q)"
      using pq assms(1) by (simp_all only: at)
    consider "q < i" | "q = i" | "p = i" | "p < i" "i < q" | "i < p" using pq(2) by linarith
    then show ?thesis
    proof cases
      case 2
      then have "elem_at arr p \<le> elem_at arr (i - 1)" "elem_at arr (i - 1) \<le> sint ?a" using pq r(3) le by (auto intro: old)
      then show ?thesis using 2 pq v by simp
    next
      case 3
      then show ?thesis using pq v gt by (simp add: less_imp_le)
    qed (use pq r(2,3) v old in auto)
  qed
  ultimately show ?thesis using run by (auto simp: seg_sorted_def)
qed

lemma insertion_sort_result:
  assumes "1 \<le> l" and "ir \<le> int (length arr)"
  shows "\<exists>arr'. insertion_sort l ir arr = Some arr' \<and> seg_perm (l - 1) ir arr arr' \<and> seg_sorted (l - 1) ir arr'"
proof (cases "ir \<le> l")
  case True
  then show ?thesis by (intro exI [of _ arr]) (auto simp: insertion_sort_def seg_sorted_def)
next
  case False
  have "l + int k \<le> int (length arr) \<Longrightarrow> \<exists>arr'. insertion_sort l (l + int k) arr = Some arr' \<and>
      seg_perm (l - 1) (l + int k) arr arr' \<and> seg_sorted (l - 1) (l + int k) arr'" for k
  proof (induction k)
    case 0
    then show ?case by (intro exI [of _ arr]) (auto simp: insertion_sort_def seg_sorted_def)
  next
    case (Suc k)
    let ?m = "l + int k"
    obtain xs where xs: "insertion_sort l ?m arr = Some xs" "seg_perm (l - 1) ?m arr xs" "seg_sorted (l - 1) ?m xs"
      using Suc by auto
    obtain ys where ys: "insert_elem l (?m + 1) xs = Some ys" "seg_perm (l - 1) (?m + 1) xs ys" "seg_sorted (l - 1) (?m + 1) ys"
      using insert_elem_result [of l "?m + 1" xs] Suc.prems assms(1) xs(3) seg_perm_length [OF xs(2)] by auto
    have "[l + 1..?m + 1] = [l + 1..?m] @ [?m + 1]" using upto_rec2 [of "l + 1" "?m + 1"] by simp
    then have "insertion_sort l (?m + 1) arr = Some ys" using xs(1) ys(1) by (simp add: insertion_sort_def for_each_snoc)
    moreover have "seg_perm (l - 1) (?m + 1) arr ys"
      by (rule seg_perm_trans [OF seg_perm_mono [OF xs(2)] ys(2)]) simp_all
    ultimately show ?case using ys(3) by (auto simp: algebra_simps)
  qed
  from this [of "nat (ir - l)"] show ?thesis using False assms(2) by simp
qed

section \<open>Partition\<close>

lemma SWAP_result:
  assumes "0 \<le> p" and "p < int (length arr)" and "0 \<le> q" and "q < int (length arr)"
  obtains arr' where "SWAP arr p q = Some arr'" "mset arr' = mset arr" "length arr' = length arr"
    "\<And>k. 0 \<le> k \<Longrightarrow> elem_at arr' k = (if k = q then elem_at arr p else if k = p then elem_at arr q else elem_at arr k)"
proof (rule that)
  let ?arr = "arr[nat p := arr ! nat q, nat q := arr ! nat p]"
  show "SWAP arr p q = Some ?arr" using assms by (simp add: SWAP_def array_get_at array_set_at)
  show "mset ?arr = mset arr" using mset_swap [of "nat q" arr "nat p"] assms by simp
  show "length ?arr = length arr" by simp
  show "elem_at ?arr k = (if k = q then elem_at arr p else if k = p then elem_at arr q else elem_at arr k)" if "0 \<le> k" for k
    using assms that by (simp add: elem_at_def [symmetric])
qed

lemma order_pair_result:
  assumes "0 \<le> p" and "p < q" and "q < int (length arr)"
  obtains arr' where "order_pair p q arr = Some arr'" "mset arr' = mset arr" "length arr' = length arr"
    "\<And>k. 0 \<le> k \<Longrightarrow> elem_at arr' k = (if k = p then min (elem_at arr p) (elem_at arr q)
      else if k = q then max (elem_at arr p) (elem_at arr q) else elem_at arr k)"
proof (cases "elem_at arr p > elem_at arr q")
  case True
  obtain arr' where r: "SWAP arr p q = Some arr'" "mset arr' = mset arr" "length arr' = length arr"
    "\<And>k. 0 \<le> k \<Longrightarrow> elem_at arr' k = (if k = q then elem_at arr p else if k = p then elem_at arr q else elem_at arr k)"
    using SWAP_result [of p arr q] assms by auto
  show thesis
  proof (rule that [of arr'])
    show "order_pair p q arr = Some arr'" using True r(1) assms by (simp add: order_pair_def array_get_at elem_at_def)
  qed (use True r assms in auto)
next
  case False
  then show thesis using assms by (intro that [of arr]) (auto simp: order_pair_def array_get_at elem_at_def)
qed

lemma median_of_three_result:
  assumes "1 \<le> l" and "l + 2 \<le> ir" and "ir \<le> int (length arr)"
  shows "\<exists>arr'. median_of_three l ir arr = Some arr' \<and> seg_perm (l - 1) ir arr arr' \<and>
    elem_at arr' (l - 1) \<le> elem_at arr' l \<and> elem_at arr' l \<le> elem_at arr' (ir - 1)"
proof -
  have k: "drop_bit 1 (l + ir) = (l + ir) div 2" by (simp add: drop_bit_eq_div)
  have b: "l \<le> (l + ir) div 2 - 1 + 1" "(l + ir) div 2 \<le> ir" using assms by linarith+
  obtain x1 where x1: "SWAP arr (drop_bit 1 (l + ir) - 1) l = Some x1" "mset x1 = mset arr" "length x1 = length arr"
    "\<And>k. 0 \<le> k \<Longrightarrow> elem_at x1 k = (if k = l then elem_at arr (drop_bit 1 (l + ir) - 1) else if k = drop_bit 1 (l + ir) - 1 then elem_at arr l else elem_at arr k)"
    using SWAP_result [of "drop_bit 1 (l + ir) - 1" arr l] assms b unfolding k by auto
  obtain x2 where x2: "order_pair (l - 1) (ir - 1) x1 = Some x2" "mset x2 = mset x1" "length x2 = length x1"
    "\<And>k. 0 \<le> k \<Longrightarrow> elem_at x2 k = (if k = l - 1 then min (elem_at x1 (l - 1)) (elem_at x1 (ir - 1))
      else if k = ir - 1 then max (elem_at x1 (l - 1)) (elem_at x1 (ir - 1)) else elem_at x1 k)"
    using order_pair_result [of "l - 1" "ir - 1" x1] assms x1(3) by auto
  obtain x3 where x3: "order_pair l (ir - 1) x2 = Some x3" "mset x3 = mset x2" "length x3 = length x2"
    "\<And>k. 0 \<le> k \<Longrightarrow> elem_at x3 k = (if k = l then min (elem_at x2 l) (elem_at x2 (ir - 1))
      else if k = ir - 1 then max (elem_at x2 l) (elem_at x2 (ir - 1)) else elem_at x2 k)"
    using order_pair_result [of l "ir - 1" x2] assms x1(3) x2(3) by auto
  obtain x4 where x4: "order_pair (l - 1) l x3 = Some x4" "mset x4 = mset x3"
    "\<And>k. 0 \<le> k \<Longrightarrow> elem_at x4 k = (if k = l - 1 then min (elem_at x3 (l - 1)) (elem_at x3 l)
      else if k = l then max (elem_at x3 (l - 1)) (elem_at x3 l) else elem_at x3 k)"
    using order_pair_result [of "l - 1" l x3] assms x1(3) x2(3) x3(3) by auto
  have run: "median_of_three l ir arr = Some x4" using x1(1) x2(1) x3(1) x4(1) by (simp add: median_of_three_def)
  have "elem_at x4 k = elem_at arr k" if out: "0 \<le> k" "k < l - 1 \<or> ir \<le> k" for k
  proof -
    have ne: "k \<noteq> l - 1" "k \<noteq> l" "k \<noteq> ir - 1" "k \<noteq> drop_bit 1 (l + ir) - 1" unfolding k using out b assms by linarith+
    show ?thesis using ne by (simp only: out(1) x1(4) x2(4) x3(4) x4(3) if_False)
  qed
  then have "seg_perm (l - 1) ir arr x4" using x1(2) x2(2) x3(2) x4(2) by (auto simp: seg_perm_def)
  moreover have "elem_at x4 (l - 1) \<le> elem_at x4 l" using assms(1) by (simp add: x4(3))
  moreover have "elem_at x3 l \<le> elem_at x3 (ir - 1)" "elem_at x3 (l - 1) \<le> elem_at x3 (ir - 1)"
    using assms x2(4) [of "l - 1"] x2(4) [of "ir - 1"] by (auto simp: x3(4))
  then have "elem_at x4 l \<le> elem_at x4 (ir - 1)" using assms x4(3) by simp
  ultimately show ?thesis using run by blast
qed

lemma scan_up_result:
  assumes "0 \<le> i" and "i \<le> m" and "m < int (length arr)" and "sint a \<le> elem_at arr m"
  shows "\<exists>i'. scan_up arr a i = Some i' \<and> i < i' \<and> i' \<le> m + 1 \<and> (\<forall>k. i \<le> k \<and> k < i' - 1 \<longrightarrow> elem_at arr k < sint a) \<and>
    sint a \<le> elem_at arr (i' - 1)"
  using assms(1,2)
proof (induction "nat (m - i)" arbitrary: i rule: less_induct)
  case less
  have g: "array_get arr i = Some (arr ! nat i)" using less.prems assms(3) by (simp add: array_get_at)
  show ?case
  proof (cases "elem_at arr i < sint a")
    case True
    then have "i \<noteq> m" using assms(4) by auto
    then obtain i' where r: "scan_up arr a (i + 1) = Some i'" "i + 1 < i'" "i' \<le> m + 1" "\<forall>k. i + 1 \<le> k \<and> k < i' - 1 \<longrightarrow> elem_at arr k < sint a"
      "sint a \<le> elem_at arr (i' - 1)" using less.hyps [of "i + 1"] less.prems by auto
    have "scan_up arr a i = Some i'" using True r(1) g by (subst scan_up.simps) (simp add: elem_at_def)
    moreover have "elem_at arr k < sint a" if "i \<le> k" "k < i' - 1" for k using r(4) True that by (cases "k = i") auto
    ultimately show ?thesis using r(2,3,5) by auto
  next
    case False
    then have "scan_up arr a i = Some (i + 1)" using g by (subst scan_up.simps) (simp add: elem_at_def)
    then show ?thesis using False less.prems by auto
  qed
qed

lemma scan_down_result:
  assumes "0 \<le> m" and "m \<le> j - 2" and "j - 2 < int (length arr)" and "elem_at arr m \<le> sint a"
  shows "\<exists>j'. scan_down arr a j = Some j' \<and> m + 1 \<le> j' \<and> j' < j \<and> (\<forall>k. j' \<le> k \<and> k < j - 1 \<longrightarrow> sint a < elem_at arr k) \<and>
    elem_at arr (j' - 1) \<le> sint a"
  using assms(2,3)
proof (induction "nat (j - m)" arbitrary: j rule: less_induct)
  case less
  have g: "array_get arr (j - 2) = Some (arr ! nat (j - 2))" using less.prems assms(1) by (simp add: array_get_at)
  show ?case
  proof (cases "sint a < elem_at arr (j - 2)")
    case True
    then have "j - 2 \<noteq> m" using assms(4) by auto
    then obtain j' where r: "scan_down arr a (j - 1) = Some j'" "m + 1 \<le> j'" "j' < j - 1" "\<forall>k. j' \<le> k \<and> k < j - 1 - 1 \<longrightarrow> sint a < elem_at arr k"
      "elem_at arr (j' - 1) \<le> sint a" using less.hyps [of "j - 1"] less.prems by auto
    have "scan_down arr a j = Some j'" using True r(1) g by (subst scan_down.simps) (simp add: elem_at_def)
    moreover have "sint a < elem_at arr k" if "j' \<le> k" "k < j - 1" for k using r(4) True that by (cases "k = j - 2") auto
    ultimately show ?thesis using r(2,3,5) by auto
  next
    case False
    then have "scan_down arr a j = Some (j - 1)" using g by (subst scan_down.simps) (simp add: elem_at_def)
    then show ?thesis using False less.prems by auto
  qed
qed

text \<open>What the partition around the value \<open>v\<close> gives: nothing above \<open>v\<close> before \<open>i\<close>, nothing below it from \<open>j\<close> on.\<close>

definition parted :: "int \<Rightarrow> int \<Rightarrow> int \<Rightarrow> int \<Rightarrow> int \<Rightarrow> uint32_t list \<Rightarrow> bool" where
  "parted lo hi i j v xs \<longleftrightarrow> (\<forall>k. lo \<le> k \<and> k < i - 1 \<longrightarrow> elem_at xs k \<le> v) \<and> (\<forall>k. j - 1 \<le> k \<and> k < hi \<longrightarrow> v \<le> elem_at xs k)"

lemma partition_loop_result:
  assumes "1 \<le> l" and "ir \<le> int (length arr)" and "l + 1 \<le> i" and "i \<le> j" and "l + 2 \<le> j" and "j \<le> ir" and "i < ir"
    and "\<And>k. l \<le> k \<Longrightarrow> k < i \<Longrightarrow> elem_at arr k \<le> sint a" and "\<And>k. j - 1 \<le> k \<Longrightarrow> k < ir \<Longrightarrow> sint a \<le> elem_at arr k"
  shows "\<exists>i' j' arr'. partition_loop a i j arr = Some (i', j', arr') \<and> seg_perm (l + 1) ir arr arr' \<and> j' < i' \<and> l + 1 \<le> j' \<and> i' \<le> ir \<and>
    parted l ir i' (j' + 1) (sint a) arr' \<and> elem_at arr' (j' - 1) \<le> sint a"
  using assms(2-)
proof (induction "nat j" arbitrary: i j arr rule: less_induct)
  case less
  note le = less.prems(7) and ge = less.prems(8)
  obtain i' where i': "scan_up arr a i = Some i'" "i < i'" "i' \<le> max i (j - 1) + 1"
    "\<forall>k. i \<le> k \<and> k < i' - 1 \<longrightarrow> elem_at arr k < sint a" "sint a \<le> elem_at arr (i' - 1)"
    using scan_up_result [of i "max i (j - 1)" arr a] less.prems(1-6) ge [of "max i (j - 1)"] assms(1) by auto
  obtain j' where j': "scan_down arr a j = Some j'" "min (i - 1) (j - 2) + 1 \<le> j'" "j' < j"
    "\<forall>k. j' \<le> k \<and> k < j - 1 \<longrightarrow> sint a < elem_at arr k" "elem_at arr (j' - 1) \<le> sint a"
    using scan_down_result [of "min (i - 1) (j - 2)" j arr a] less.prems(1-6) le [of "min (i - 1) (j - 2)"] assms(1) by auto
  have le': "elem_at arr k \<le> sint a" if "l \<le> k" "k < i' - 1" for k
    using le [of k] i'(4) that by (cases "k < i") (auto simp: less_imp_le)
  have ge': "sint a \<le> elem_at arr k" if "j' \<le> k" "k < ir" for k
    using ge [of k] j'(4) that by (cases "k < j - 1") (auto simp: less_imp_le)
  have bd: "i' \<le> ir" "l + 1 \<le> j'" using i'(3) j'(2) less.prems(2-6) by auto
  show ?case
  proof (cases "j' < i'")
    case True
    then have "partition_loop a i j arr = Some (i', j', arr)" using i'(1) j'(1) by (subst partition_loop.simps) simp
    then show ?thesis using True bd le' ge' j'(5) by (auto simp: parted_def)
  next
    case False
    obtain xs where xs: "SWAP arr (i' - 1) (j' - 1) = Some xs" "mset xs = mset arr" "length xs = length arr"
      "\<And>k. 0 \<le> k \<Longrightarrow> elem_at xs k = (if k = j' - 1 then elem_at arr (i' - 1) else if k = i' - 1 then elem_at arr (j' - 1) else elem_at arr k)"
      using SWAP_result [of "i' - 1" arr "j' - 1"] False i'(2) j'(3) less.prems(1-6) assms(1) by auto
    have st: "partition_loop a i j arr = partition_loop a i' j' xs"
      using False i'(1) j'(1) xs(1) by (subst partition_loop.simps) simp
    have sw: "seg_perm (l + 1) ir arr xs"
      using False xs(2,4) i'(2) j'(3) bd less.prems(2,5) by (auto simp: seg_perm_def)
    have x1: "elem_at xs k \<le> sint a" if "l \<le> k" "k < i'" for k
      using xs(4) [of k] that le' [of k] j'(5) False assms(1) by (cases "k = i' - 1") auto
    have x2: "sint a \<le> elem_at xs k" if "j' - 1 \<le> k" "k < ir" for k
      using xs(4) [of k] that ge' [of k] i'(5) False bd(2) assms(1) by (cases "k = j' - 1") auto
    have "\<exists>i'' j'' arr'. partition_loop a i' j' xs = Some (i'', j'', arr') \<and> seg_perm (l + 1) ir xs arr' \<and> j'' < i'' \<and> l + 1 \<le> j'' \<and> i'' \<le> ir \<and>
        parted l ir i'' (j'' + 1) (sint a) arr' \<and> elem_at arr' (j'' - 1) \<le> sint a"
      using False i'(2) j'(3) bd less.prems(1-5) assms(1) xs(3) x1 x2 by (intro less.hyps) auto
    then show ?thesis using st sw seg_perm_trans by metis
  qed
qed

lemma partition_segment_result:
  assumes "1 \<le> l" and "l + 2 \<le> ir" and "ir \<le> int (length arr)"
  shows "\<exists>i j v arr'. partition_segment l ir arr = Some (i, j, arr') \<and> seg_perm (l - 1) ir arr arr' \<and> l < j \<and> j < i \<and> i \<le> ir \<and>
    parted (l - 1) ir i j v arr'"
proof -
  obtain xs where xs: "median_of_three l ir arr = Some xs" "seg_perm (l - 1) ir arr xs"
    "elem_at xs (l - 1) \<le> elem_at xs l" "elem_at xs l \<le> elem_at xs (ir - 1)" using median_of_three_result [OF assms] by blast
  have len: "length xs = length arr" using xs(2) by (rule seg_perm_length)
  let ?a = "xs ! nat l"
  have a: "sint ?a = elem_at xs l" by (simp add: elem_at_def)
  have c1: "elem_at xs k \<le> sint ?a" if "l \<le> k" "k < l + 1" for k
  proof -
    have "k = l" using that by simp
    then show ?thesis using a by simp
  qed
  have c2: "sint ?a \<le> elem_at xs k" if "ir - 1 \<le> k" "k < ir" for k
  proof -
    have "k = ir - 1" using that by simp
    then show ?thesis using a xs(4) by simp
  qed
  obtain i j ys where ys: "partition_loop ?a (l + 1) ir xs = Some (i, j, ys)" "seg_perm (l + 1) ir xs ys" "j < i" "l + 1 \<le> j" "i \<le> ir"
    "parted l ir i (j + 1) (sint ?a) ys" "elem_at ys (j - 1) \<le> sint ?a"
    using partition_loop_result [of l ir xs "l + 1" ir ?a] assms len c1 c2 by auto
  have ylen: "length ys = length arr" using seg_perm_length [OF ys(2)] len by simp
  have "elem_at ys l = elem_at xs l" using ys(2) by (rule seg_perm_outside) (use assms in auto)
  then have al: "ys ! nat l = ?a" by (simp add: elem_at_def signed_word_eqI)
  let ?zs = "ys[nat l := ys ! nat (j - 1), nat (j - 1) := ?a]"
  have run: "partition_segment l ir arr = Some (i, j, ?zs)"
    using xs(1) ys(1,3,4,5) assms len ylen by (simp add: partition_segment_def array_get_at array_set_at)
  have "mset ?zs = mset ys" using mset_swap [of "nat (j - 1)" ys "nat l"] ys(3,4,5) assms ylen al by simp
  moreover have z: "elem_at ?zs k = (if k = j - 1 then sint ?a else if k = l then elem_at ys (j - 1) else elem_at ys k)" if "0 \<le> k" for k
    using that ys(3,4,5) assms ylen by (simp add: elem_at_def [symmetric])
  ultimately have "seg_perm (l - 1) ir ys ?zs" using ys(3,4,5) assms by (auto simp: seg_perm_def)
  then have "seg_perm (l - 1) ir arr ?zs"
    using seg_perm_trans [OF seg_perm_trans [OF xs(2) seg_perm_mono [OF ys(2)]]] by simp
  moreover have lo: "elem_at ys (l - 1) = elem_at xs (l - 1)" using ys(2) by (rule seg_perm_outside) (use assms in auto)
  have "elem_at ?zs k \<le> sint ?a" if "l - 1 \<le> k" "k < i - 1" for k
    using z [of k] that assms(1) ys(6,7) lo xs(3) a unfolding parted_def by (cases "k = l - 1") auto
  moreover have "sint ?a \<le> elem_at ?zs k" if "j - 1 \<le> k" "k < ir" for k
    using z [of k] that assms(1) ys(4,6) unfolding parted_def by (cases "k = j - 1") auto
  ultimately have "seg_perm (l - 1) ir arr ?zs" "parted (l - 1) ir i j (sint ?a) ?zs" by (auto simp: parted_def)
  then show ?thesis using run ys(3,4,5) by auto
qed

section \<open>The outer loop\<close>

lemma parted_left:
  assumes "parted lo hi i j v xs" and "seg_perm lo (j - 1) xs ys" and "0 \<le> lo" and "lo \<le> j - 1" and "j < i" and "i - 1 \<le> hi" and "hi \<le> int (length xs)"
  shows "parted lo hi i j v ys"
  unfolding parted_def
proof (intro conjI allI impI)
  fix k assume k: "lo \<le> k \<and> k < i - 1"
  show "elem_at ys k \<le> v"
  proof (cases "k < j - 1")
    case True
    obtain k' where "lo \<le> k'" "k' < j - 1" "elem_at ys k = elem_at xs k'"
      using assms k True by (elim seg_perm_inside) auto
    then show ?thesis using assms(1,5) by (auto simp: parted_def)
  next
    case False
    then have "elem_at ys k = elem_at xs k" using assms(2,3) k by (intro seg_perm_outside) auto
    then show ?thesis using assms(1) k by (auto simp: parted_def)
  qed
next
  fix k assume k: "j - 1 \<le> k \<and> k < hi"
  then have "elem_at ys k = elem_at xs k" using assms(2,3,4) by (intro seg_perm_outside) auto
  then show "v \<le> elem_at ys k" using assms(1) k by (auto simp: parted_def)
qed

lemma parted_right:
  assumes "parted lo hi i j v xs" and "seg_perm (i - 1) hi xs ys" and "0 \<le> lo" and "lo \<le> j - 1" and "j < i" and "i - 1 \<le> hi" and "hi \<le> int (length xs)"
  shows "parted lo hi i j v ys"
  unfolding parted_def
proof (intro conjI allI impI)
  fix k assume k: "j - 1 \<le> k \<and> k < hi"
  show "v \<le> elem_at ys k"
  proof (cases "i - 1 \<le> k")
    case True
    obtain k' where "i - 1 \<le> k'" "k' < hi" "elem_at ys k = elem_at xs k'"
      using assms k True by (elim seg_perm_inside) auto
    then show ?thesis using assms(1,5) by (auto simp: parted_def)
  next
    case False
    then have "elem_at ys k = elem_at xs k" using assms(2,3,4) k by (intro seg_perm_outside) auto
    then show ?thesis using assms(1) k by (auto simp: parted_def)
  qed
next
  fix k assume k: "lo \<le> k \<and> k < i - 1"
  then have "elem_at ys k = elem_at xs k" using assms(2,3) by (intro seg_perm_outside) auto
  then show "elem_at ys k \<le> v" using assms(1) k by (auto simp: parted_def)
qed

lemma parted_sorted:
  assumes "parted lo hi i j v xs" and "seg_sorted lo (j - 1) xs" and "seg_sorted (i - 1) hi xs"
  shows "seg_sorted lo hi xs"
  unfolding seg_sorted_def
proof (intro allI impI)
  fix p q assume pq: "lo \<le> p \<and> p < q \<and> q < hi"
  consider "q < j - 1" | "i - 1 \<le> p" | "p < i - 1" "j - 1 \<le> q" by linarith
  then show "elem_at xs p \<le> elem_at xs q"
  proof cases
    case 3
    then have "elem_at xs p \<le> v" "v \<le> elem_at xs q" using assms(1) pq by (auto simp: parted_def)
    then show ?thesis by simp
  qed (use assms(2,3) pq in \<open>auto simp: seg_sorted_def\<close>)
qed

lemma seg_sorted_frame:
  assumes "seg_sorted lo hi xs" and "0 \<le> lo" and "seg_perm lo' hi' xs ys" and "hi \<le> lo' \<or> hi' \<le> lo"
  shows "seg_sorted lo hi ys"
proof -
  have "elem_at ys k = elem_at xs k" if "lo \<le> k" "k < hi" for k using assms(2-4) that by (intro seg_perm_outside) auto
  then show ?thesis using assms(1) by (auto simp: seg_sorted_def)
qed

text \<open>Sorting the two parts of a partition, in either order, sorts the segment.\<close>

lemma sort_left_right:
  assumes "parted lo hi i j v xs" and "0 \<le> lo" and "lo \<le> j - 1" and "j < i" and "i - 1 \<le> hi" and "hi \<le> int (length xs)"
    and "seg_perm lo (j - 1) xs ys" and "seg_sorted lo (j - 1) ys" and "seg_perm (i - 1) hi ys zs" and "seg_sorted (i - 1) hi zs"
  shows "seg_perm lo hi xs zs \<and> seg_sorted lo hi zs"
proof
  have "parted lo hi i j v ys" using assms(1,7,2-6) by (rule parted_left)
  then have "parted lo hi i j v zs" using assms(9,2-5) by (rule parted_right) (use assms(6) seg_perm_length [OF assms(7)] in simp)
  moreover have "seg_sorted lo (j - 1) zs" by (rule seg_sorted_frame [OF assms(8,2,9)]) (use assms(4) in simp)
  ultimately show "seg_sorted lo hi zs" using assms(10) by (rule parted_sorted)
  show "seg_perm lo hi xs zs" by (rule seg_perm_trans [OF seg_perm_mono [OF assms(7)] seg_perm_mono [OF assms(9)]]) (use assms(3-5) in simp_all)
qed

lemma sort_right_left:
  assumes "parted lo hi i j v xs" and "0 \<le> lo" and "lo \<le> j - 1" and "j < i" and "i - 1 \<le> hi" and "hi \<le> int (length xs)"
    and "seg_perm (i - 1) hi xs ys" and "seg_sorted (i - 1) hi ys" and "seg_perm lo (j - 1) ys zs" and "seg_sorted lo (j - 1) zs"
  shows "seg_perm lo hi xs zs \<and> seg_sorted lo hi zs"
proof
  have "parted lo hi i j v ys" using assms(1,7,2-6) by (rule parted_right)
  then have "parted lo hi i j v zs" using assms(9,2-5) by (rule parted_left) (use assms(6) seg_perm_length [OF assms(7)] in simp)
  moreover have "seg_sorted (i - 1) hi zs" by (rule seg_sorted_frame [OF assms(8) _ assms(9)]) (use assms(2-4) in simp_all)
  ultimately show "seg_sorted lo hi zs" by (rule parted_sorted [OF _ assms(10)])
  show "seg_perm lo hi xs zs" by (rule seg_perm_trans [OF seg_perm_mono [OF assms(7)] seg_perm_mono [OF assms(9)]]) (use assms(3-5) in simp_all)
qed

text \<open>What the outer loop does after a segment is sorted: it ends, or takes the segment on top of the stack.\<close>

definition sort_next :: "int \<Rightarrow> int list \<Rightarrow> uint32_t list \<Rightarrow> uint32_t list option" where
  "sort_next jstack istack arr =
     (if jstack = 0 then Some arr
      else do { ir \<leftarrow> array_get istack jstack; l \<leftarrow> array_get istack (jstack - 1); sort_loop ir l (jstack - 2) istack arr })"

lemma sort_next_pop:
  assumes "0 \<le> jstack" and "jstack + 2 < int (length istack)" and "istack ! nat (jstack + 2) = ir" and "istack ! nat (jstack + 1) = l"
  shows "sort_next (jstack + 2) istack arr = sort_loop ir l jstack istack arr"
  using assms by (simp add: sort_next_def array_get_at add.commute)

definition stack_below :: "int \<Rightarrow> int list \<Rightarrow> int list \<Rightarrow> bool" where
  "stack_below jstack st st' \<longleftrightarrow> length st' = length st \<and> (\<forall>k. 0 \<le> k \<and> k \<le> jstack \<longrightarrow> st' ! nat k = st ! nat k)"

definition segment_done :: "int \<Rightarrow> int \<Rightarrow> int \<Rightarrow> int list \<Rightarrow> uint32_t list \<Rightarrow> bool" where
  "segment_done ir l jstack st arr \<longleftrightarrow> (\<exists>st' arr'. sort_loop ir l jstack st arr = sort_next jstack st' arr' \<and> stack_below jstack st st' \<and>
     seg_perm (l - 1) ir arr arr' \<and> seg_sorted (l - 1) ir arr')"

text \<open>Two segments one after the other: the first is processed at once, the second is pushed and taken from the stack.\<close>

lemma two_segments:
  assumes "0 \<le> jstack" and "jstack + 2 < int (length st)"
    and "\<And>st1. length st1 = length st \<Longrightarrow> segment_done ir1 l1 (jstack + 2) st1 arr"
    and "\<And>st1 arr1. length st1 = length st \<Longrightarrow> length arr1 = length arr \<Longrightarrow> segment_done ir2 l2 jstack st1 arr1"
  obtains st' arr1 arr2 where
    "sort_loop ir1 l1 (jstack + 2) (st[nat (jstack + 2) := ir2, nat (jstack + 1) := l2]) arr = sort_next jstack st' arr2"
    "stack_below jstack st st'" "seg_perm (l1 - 1) ir1 arr arr1" "seg_sorted (l1 - 1) ir1 arr1"
    "seg_perm (l2 - 1) ir2 arr1 arr2" "seg_sorted (l2 - 1) ir2 arr2"
proof -
  let ?st = "st[nat (jstack + 2) := ir2, nat (jstack + 1) := l2]"
  obtain st1 arr1 where 1: "sort_loop ir1 l1 (jstack + 2) ?st arr = sort_next (jstack + 2) st1 arr1" "stack_below (jstack + 2) ?st st1"
    "seg_perm (l1 - 1) ir1 arr arr1" "seg_sorted (l1 - 1) ir1 arr1"
    using assms(3) [of ?st] by (auto simp: segment_done_def)
  have len: "length st1 = length st" using 1(2) by (simp add: stack_below_def)
  have st1: "st1 ! nat (jstack + 2) = ir2" "st1 ! nat (jstack + 1) = l2" "\<And>k. 0 \<le> k \<Longrightarrow> k \<le> jstack \<Longrightarrow> st1 ! nat k = st ! nat k"
    using 1(2) assms(1,2) by (auto simp: stack_below_def nth_list_update nat_eq_iff)
  have pop: "sort_next (jstack + 2) st1 arr1 = sort_loop ir2 l2 jstack st1 arr1"
    using assms(1,2) st1(1,2) len by (intro sort_next_pop) auto
  obtain st2 arr2 where 2: "sort_loop ir2 l2 jstack st1 arr1 = sort_next jstack st2 arr2" "stack_below jstack st1 st2"
    "seg_perm (l2 - 1) ir2 arr1 arr2" "seg_sorted (l2 - 1) ir2 arr2"
    using assms(4) [OF len seg_perm_length [OF 1(3)]] by (auto simp: segment_done_def)
  have "stack_below jstack st st2" using 2(2) st1(3) len by (auto simp: stack_below_def)
  then show thesis using 1(1,3,4) pop 2(1,3,4) by (intro that) simp_all
qed

lemma sort_loop_split:
  assumes "\<not> ir - l < INSERTION_THRESHOLD" and "partition_segment l ir arr = Some (i, j, arr')" and "0 \<le> jstack" and "jstack + 2 < int (length st)"
  shows "sort_loop ir l jstack st arr =
    (if ir - i + 1 \<ge> j - l then sort_loop (j - 1) l (jstack + 2) (st[nat (jstack + 2) := ir, nat (jstack + 1) := i]) arr'
     else sort_loop ir i (jstack + 2) (st[nat (jstack + 2) := j - 1, nat (jstack + 1) := l]) arr')"
  using assms by (subst sort_loop.simps) (simp add: array_set_at Let_def add.commute)

lemma segment_sorts:
  assumes "1 \<le> l" and "ir \<le> int (length arr)" and "0 \<le> jstack" and "length st = NSTACK"
    and "ir - l + 1 < 8 * 2 ^ d" and "jstack + 2 * int d < int NSTACK"
  shows "segment_done ir l jstack st arr"
  using assms
proof (induction "nat (ir - l + 1)" arbitrary: ir l jstack st arr d rule: less_induct)
  case less
  show ?case
  proof (cases "ir - l < INSERTION_THRESHOLD")
    case True
    obtain arr' where r: "insertion_sort l ir arr = Some arr'" "seg_perm (l - 1) ir arr arr'" "seg_sorted (l - 1) ir arr'"
      using insertion_sort_result [OF less.prems(1,2)] by blast
    have "sort_loop ir l jstack st arr = sort_next jstack st arr'"
      using True r(1) by (subst sort_loop.simps) (simp add: sort_next_def)
    then show ?thesis using r(2,3) by (auto simp: segment_done_def stack_below_def)
  next
    case False
    have ir: "l + 7 \<le> ir" using False by (simp add: INSERTION_THRESHOLD_def)
    obtain e where d: "d = Suc e" using ir less.prems(5) by (cases d) auto
    obtain i j v xs where p: "partition_segment l ir arr = Some (i, j, xs)" "seg_perm (l - 1) ir arr xs" "l < j" "j < i" "i \<le> ir"
      "parted (l - 1) ir i j v xs"
      using partition_segment_result [of l ir arr] less.prems(1,2) ir by auto
    have len: "length xs = length arr" using p(2) by (rule seg_perm_length)
    have js: "jstack + 2 < int (length st)" using less.prems(3,4,6) d by simp
    note run = sort_loop_split [OF False p(1) less.prems(3) js]
    have left: "segment_done (j - 1) l js st1 ys" if "length st1 = length st" "length ys = length arr" "0 \<le> js" "j - l < 8 * 2 ^ c" "js + 2 * int c < int NSTACK" for js st1 ys c
      using that p(3,4,5) less.prems(1,2,4) ir by (intro less.hyps [where d = c]) auto
    have right: "segment_done ir i js st1 ys" if "length st1 = length st" "length ys = length arr" "0 \<le> js" "ir - i + 1 < 8 * 2 ^ c" "js + 2 * int c < int NSTACK" for js st1 ys c
      using that p(3,4,5) less.prems(1,2,4) ir by (intro less.hyps [where d = c]) auto
    have dd: "jstack + 2 * int d < int NSTACK" "jstack + 2 + 2 * int e < int NSTACK" using less.prems(6) d by simp_all
    have sz: "j - l < 8 * 2 ^ d" "ir - i + 1 < 8 * 2 ^ d" using p(3,4,5) less.prems(5) by auto
    have bd: "0 \<le> l - 1" "l - 1 \<le> j - 1" "j < i" "i - 1 \<le> ir" "ir \<le> int (length xs)" using p(3-5) less.prems(1,2) len by simp_all
    have "\<exists>st' ys. sort_loop ir l jstack st arr = sort_next jstack st' ys \<and> stack_below jstack st st' \<and> seg_perm (l - 1) ir xs ys \<and> seg_sorted (l - 1) ir ys"
    proof (cases "ir - i + 1 \<ge> j - l")
      case True
      have l1: "segment_done (j - 1) l (jstack + 2) st1 xs" if "length st1 = length st" for st1
        using that len dd(2) less.prems(3,5) True p(4) d by (intro left [of _ _ _ e]) auto
      have r2: "segment_done ir i jstack st1 ys" if "length st1 = length st" "length ys = length xs" for st1 ys
        using that len sz(2) dd(1) less.prems(3) by (intro right) auto
      have t: "sort_loop ir l jstack st arr = sort_loop (j - 1) l (jstack + 2) (st[nat (jstack + 2) := ir, nat (jstack + 1) := i]) xs"
        using True by (simp only: run if_True)
      show ?thesis
        unfolding t by (rule two_segments [OF less.prems(3) js l1 r2]) (assumption | use sort_left_right [OF p(6) bd] in blast)+
    next
      case False
      have r1: "segment_done ir i (jstack + 2) st1 xs" if "length st1 = length st" for st1
        using that len dd(2) less.prems(3,5) False p(4) d by (intro right [of _ _ _ e]) auto
      have l2: "segment_done (j - 1) l jstack st1 ys" if "length st1 = length st" "length ys = length xs" for st1 ys
        using that len sz(1) dd(1) less.prems(3) by (intro left) auto
      have t: "sort_loop ir l jstack st arr = sort_loop ir i (jstack + 2) (st[nat (jstack + 2) := j - 1, nat (jstack + 1) := l]) xs"
        using False by (simp only: run if_False)
      show ?thesis
        unfolding t by (rule two_segments [OF less.prems(3) js r1 l2]) (assumption | use sort_right_left [OF p(6) bd] in blast)+
    qed
    then show ?thesis using p(2) seg_perm_trans unfolding segment_done_def by blast
  qed
qed

lemma seg_sort_key:
  assumes "seg_perm 0 (int n) xs ys" and "seg_sorted 0 (int n) ys" and "n \<le> length xs"
  shows "ys = sort_key sint (take n xs) @ drop n xs"
proof -
  have len: "length ys = length xs" using assms(1) by (rule seg_perm_length)
  have "ys ! (n + m) = xs ! (n + m)" for m
    using seg_perm_outside [OF assms(1), of "int (n + m)"] by (simp add: elem_at_def signed_word_eqI nat_add_distrib)
  then have d: "drop n ys = drop n xs" using len assms(3) by (auto intro!: nth_equalityI)
  then have "mset (take n ys) = mset (take n xs)"
    using assms(1) by (metis seg_perm_def mset_append append_take_drop_id add_right_cancel)
  moreover have "sorted (map sint (take n ys))"
  proof -
    have "sint (ys ! p) \<le> sint (ys ! q)" if "p < q" "q < n" for p q
    proof -
      have "elem_at ys (int p) \<le> elem_at ys (int q)" using assms(2) that by (simp add: seg_sorted_def)
      then show ?thesis by (simp add: elem_at_def)
    qed
    then show ?thesis using len assms(3) by (simp add: sorted_iff_nth_mono_less)
  qed
  moreover have "inj_on sint (set (take n xs))" by (rule inj_onI) (rule signed_word_eqI)
  ultimately have "sort_key sint (take n xs) = take n ys" by (intro sort_key_inj_key_eq) simp_all
  then show ?thesis using d by (metis append_take_drop_id)
qed

lemma qsort_sort_value:
  assumes "length istack = NSTACK" and "n \<le> length arr" and "n < 2 ^ 27"
  shows "qsort_sort istack (int n) arr = Some (sort_key sint (take n arr) @ drop n arr)"
proof -
  have "int n < 8 * 2 ^ 24" using assms(3) by simp
  then have "segment_done (int n) 1 0 istack arr"
    using assms(1,2) by (intro segment_sorts [where d = 24]) (simp_all add: NSTACK_def)
  then obtain arr' where "sort_loop (int n) 1 0 istack arr = Some arr'" "seg_perm 0 (int n) arr arr'" "seg_sorted 0 (int n) arr'"
    by (auto simp: segment_done_def sort_next_def)
  then show ?thesis using seg_sort_key assms(2) by (simp add: qsort_sort_def)
qed

section \<open>Properties\<close>

text \<open>
  Property C39: the quicksort sorts. For up to $2^{27} - 1$ elements and whatever the uninitialised stack holds, \<^verbatim>\<open>sort\<close> terminates, every access is within
  the array and within the 50 entries of \<^verbatim>\<open>istack\<close>, and the first \<open>n\<close> elements are left in signed order, a permutation of what they were, the others
  unchanged.
\<close>

theorem qsort_sort_correct:
  assumes "length istack = NSTACK" and "n \<le> length arr" and "n < 2 ^ 27"
  shows "\<exists>arr'. qsort_sort istack (int n) arr = Some arr' \<and> sorted (map sint (take n arr')) \<and> mset (take n arr') = mset (take n arr) \<and>
    drop n arr' = drop n arr"
  using qsort_sort_value [OF assms] assms(2) by simp

theorem qsort_sort_correct_witness:
  "\<exists>arr'. qsort_sort (replicate 50 (- 1)) (int 9) [41, 454, 833, 335, 564, 1, 187, - 5, 749] = Some arr' \<and> sorted (map sint (take 9 arr')) \<and>
    mset (take 9 arr') = mset [41, 454, 833, 335, 564, 1, 187, - 5, 749] \<and> drop 9 arr' = []"
  using qsort_sort_correct [of "replicate 50 (- 1)" 9 "[41, 454, 833, 335, 564, 1, 187, - 5, 749]"] by (simp add: NSTACK_def)

text \<open>
  Property C40: the benchmark reports success exactly on the right reference data: \<^verbatim>\<open>main\<close> terminates and returns 0 if \<^verbatim>\<open>verify_data\<close> is the input in
  signed order, and otherwise the number of the first element at which it is not.
\<close>

theorem qsort_main_verdict:
  assumes "length istack = NSTACK" and "length input < 2 ^ 27" and "length ver = length input"
  shows "qsort_main istack input ver = Some (if ver = sort_key sint input then 0 else int (agree (sort_key sint input) ver) + 1)"
  using qsort_sort_value [OF assms(1) order_refl assms(2)] verify_value [of "sort_key sint input" "length input" ver] assms(3)
  by (simp add: qsort_main_def Let_def)

theorem qsort_main_verdict_witness: "qsort_main (replicate 50 7) [3, - 2, 5] [- 2, 3, 5] = Some 0"
proof -
  have "sort_key sint [3, - 2, 5 :: uint32_t] = [- 2, 3, 5]" by (simp add: insort_key.simps)
  then show ?thesis using qsort_main_verdict [of "replicate 50 7" "[3, - 2, 5]" "[- 2, 3, 5]"] by (simp add: NSTACK_def)
qed

end
