(* ===== verification/Towers.thy ===== *)
theory Towers
  imports Prelude List_Loops "HOL-Library.Monad_Syntax"
begin

text \<open>
  The Towers of Hanoi benchmark (\<^verbatim>\<open>src/riscv-tests/benchmarks/towers/towers_main.c\<close>): three pegs, each a linked list whose nodes come from
  a pool through a free list. A pointer to a node is its index in the pool, the null pointer is \<^const>\<open>None\<close>, and following the null
  pointer is \<^const>\<open>None\<close> as a result. A \<^verbatim>\<open>List\<close> that is passed by reference is named by its peg. The functions that call themselves or loop
  without a bound return \<^const>\<open>None\<close> if they do not return.

  The state also keeps a history: \<^verbatim>\<open>list_push\<close> and \<^verbatim>\<open>list_pop\<close> append each of their calls, with the peg and the value, to a list of events. The code
  never reads it. Since the two are the only functions that change a list of discs after it was set up, the history of a run tells every state the pegs went through.
\<close>

section \<open>Lists\<close>

datatype peg = PegA | PegB | PegC

record Node =
  node_val :: uint32_t
  node_next :: "nat option"

record List =
  list_size :: int
  list_head :: "nat option"

datatype list_event = Popped peg uint32_t | Pushed peg uint32_t

record Towers =
  g_nodePool :: "Node list"
  g_nodeFreeList :: List
  numDiscs :: int
  numMoves :: uint32_t
  pegs :: "peg \<Rightarrow> List"
  history :: "list_event list"

definition list_getSize :: "peg \<Rightarrow> Towers \<Rightarrow> int" where
  "list_getSize p s = list_size (pegs s p)"

definition list_init :: List where
  "list_init = \<lparr>list_size = 0, list_head = None\<rparr>"

definition pool_node :: "nat \<Rightarrow> Towers \<Rightarrow> Node option" where
  "pool_node k s = (if k < length (g_nodePool s) then Some (g_nodePool s ! k) else None)"

definition list_push :: "peg \<Rightarrow> uint32_t \<Rightarrow> Towers \<Rightarrow> Towers option" where
  "list_push p v s =
     do {
       newNode \<leftarrow> list_head (g_nodeFreeList s);
       node \<leftarrow> pool_node newNode s;
       Some (s\<lparr>g_nodeFreeList := (g_nodeFreeList s)\<lparr>list_head := node_next node\<rparr>,
               g_nodePool := (g_nodePool s)[newNode := \<lparr>node_val = v, node_next = list_head (pegs s p)\<rparr>],
               pegs := (pegs s)(p := \<lparr>list_size = list_size (pegs s p) + 1, list_head = Some newNode\<rparr>),
               history := history s @ [Pushed p v]\<rparr>)
     }"

definition list_pop :: "peg \<Rightarrow> Towers \<Rightarrow> (uint32_t \<times> Towers) option" where
  "list_pop p s =
     do {
       freedNode \<leftarrow> list_head (pegs s p);
       node \<leftarrow> pool_node freedNode s;
       Some (node_val node,
         s\<lparr>pegs := (pegs s)(p := \<lparr>list_size = list_size (pegs s p) - 1, list_head = node_next node\<rparr>),
           g_nodePool := (g_nodePool s)[freedNode := node\<lparr>node_next := list_head (g_nodeFreeList s)\<rparr>],
           g_nodeFreeList := (g_nodeFreeList s)\<lparr>list_head := Some freedNode\<rparr>,
           history := history s @ [Popped p (node_val node)]\<rparr>)
     }"

lemma list_pop_size: "list_pop p s = Some (v, s') \<Longrightarrow> list_getSize p s' = list_getSize p s - 1"
  by (auto simp: list_pop_def list_getSize_def split: Option.bind_splits)

function list_clear :: "peg \<Rightarrow> Towers \<Rightarrow> Towers option" where
  "list_clear p s =
     (if 0 < list_getSize p s then (case list_pop p s of None \<Rightarrow> None | Some (v, s') \<Rightarrow> list_clear p s') else Some s)"
  by pat_completeness auto

termination
  by (relation "measure (\<lambda>(p, s). nat (list_getSize p s))") (auto simp: list_pop_size)

declare list_clear.simps [simp del]

section \<open>Towers\<close>

primrec push_discs :: "int list \<Rightarrow> Towers \<Rightarrow> Towers option" where
  "push_discs [] s = Some s"
| "push_discs (d # ds) s = list_push PegA (of_int d) s \<bind> push_discs ds"

definition towers_init :: "int \<Rightarrow> Towers \<Rightarrow> Towers option" where
  "towers_init n s =
     push_discs (map (\<lambda>i. n - i) [0..n - 1]) (s\<lparr>numDiscs := n, numMoves := 0, pegs := (\<lambda>_. list_init)\<rparr>)"

definition towers_clear :: "Towers \<Rightarrow> Towers option" where
  "towers_clear s =
     do {
       s \<leftarrow> list_clear PegA s;
       s \<leftarrow> list_clear PegB s;
       s \<leftarrow> list_clear PegC s;
       towers_init (numDiscs s) s
     }"

partial_function (option) towers_solve_h :: "int \<Rightarrow> peg \<Rightarrow> peg \<Rightarrow> peg \<Rightarrow> Towers \<Rightarrow> Towers option" where
  "towers_solve_h n startPeg tempPeg destPeg s =
     (if n = 1
      then
        do {
          (v, s) \<leftarrow> list_pop startPeg s;
          s \<leftarrow> list_push destPeg v s;
          Some (s\<lparr>numMoves := numMoves s + 1\<rparr>)
        }
      else
        do {
          s \<leftarrow> towers_solve_h (n - 1) startPeg destPeg tempPeg s;
          s \<leftarrow> towers_solve_h 1 startPeg tempPeg destPeg s;
          towers_solve_h (n - 1) tempPeg startPeg destPeg s
        })"

definition towers_solve :: "Towers \<Rightarrow> Towers option" where
  "towers_solve s = towers_solve_h (numDiscs s) PegA PegB PegC s"

text \<open>The loop of \<^verbatim>\<open>towers_verify\<close> over peg C, from \<open>ptr\<close>, with the discs counted so far: \<open>True\<close> if every disc is the one expected.\<close>

partial_function (option) verify_discs :: "Towers \<Rightarrow> nat option \<Rightarrow> uint32_t \<Rightarrow> bool option" where
  "verify_discs s ptr k =
     (case ptr of
        None \<Rightarrow> Some True
      | Some i \<Rightarrow>
          do {
            node \<leftarrow> pool_node i s;
            if node_val node \<noteq> k + 1 then Some False else verify_discs s (node_next node) (k + 1)
          })"

definition towers_verify :: "Towers \<Rightarrow> int option" where
  "towers_verify s =
     (if list_getSize PegA s \<noteq> 0 then Some 2
      else if list_getSize PegB s \<noteq> 0 then Some 3
      else if list_getSize PegC s \<noteq> numDiscs s then Some 4
      else
        do {
          ok \<leftarrow> verify_discs s (list_head (pegs s PegC)) 0;
          Some (if \<not> ok then 5 else if numMoves s \<noteq> push_bit (nat (numDiscs s)) 1 - 1 then 6 else 0)
        })"

text \<open>
  The last test of \<^verbatim>\<open>towers_verify\<close> computes \<^verbatim>\<open>(1 << numDiscs) - 1\<close> with wrap-around; in C this is defined up to 30 discs, the program has 7.

  \<^verbatim>\<open>main\<close>, for a number of discs, on a state whose pool has that many nodes.\<close>

definition init_pool :: "nat \<Rightarrow> Towers \<Rightarrow> Towers" where
  "init_pool n s =
     (let s = s\<lparr>g_nodeFreeList := \<lparr>list_size = int n, list_head = Some 0\<rparr>,
                g_nodePool := (g_nodePool s)[n - 1 := \<lparr>node_val = 99, node_next = None\<rparr>]\<rparr>
      in s\<lparr>g_nodePool := fold (\<lambda>i pool. pool[i := \<lparr>node_val = of_nat i, node_next = Some (i + 1)\<rparr>]) [0..<n - 1] (g_nodePool s)\<rparr>)"

definition towers_main :: "nat \<Rightarrow> Towers \<Rightarrow> int option" where
  "towers_main n s =
     do {
       s \<leftarrow> towers_init (int n) (init_pool n s);
       s \<leftarrow> towers_clear s;
       s \<leftarrow> towers_solve s;
       towers_verify s
     }"

section \<open>The linked lists\<close>

fun chain :: "Node list \<Rightarrow> nat option \<Rightarrow> nat list \<Rightarrow> bool" where
  "chain pool ptr [] \<longleftrightarrow> ptr = None"
| "chain pool ptr (k # ks) \<longleftrightarrow> ptr = Some k \<and> k < length pool \<and> chain pool (node_next (pool ! k)) ks"

lemma chain_update: "k \<notin> set ks \<Longrightarrow> chain (pool[k := x]) ptr ks = chain pool ptr ks"
  by (induction ks arbitrary: ptr) auto

text \<open>
  \<open>rep s F P\<close>: the pegs hold the discs \<open>P\<close>, from the top, and the free list has \<open>F\<close> nodes; no node is in two lists.
\<close>

definition linked :: "Towers \<Rightarrow> nat list \<Rightarrow> (peg \<Rightarrow> nat list) \<Rightarrow> bool" where
  "linked s fr ix \<longleftrightarrow> chain (g_nodePool s) (list_head (g_nodeFreeList s)) fr \<and> distinct fr \<and>
     (\<forall>p. chain (g_nodePool s) (list_head (pegs s p)) (ix p) \<and> list_size (pegs s p) = int (length (ix p)) \<and>
          distinct (ix p) \<and> set fr \<inter> set (ix p) = {} \<and> (\<forall>q. q \<noteq> p \<longrightarrow> set (ix p) \<inter> set (ix q) = {}))"

definition rep :: "Towers \<Rightarrow> nat \<Rightarrow> (peg \<Rightarrow> uint32_t list) \<Rightarrow> bool" where
  "rep s F P \<longleftrightarrow> (\<exists>fr ix. linked s fr ix \<and> length fr = F \<and> (\<forall>p. P p = map (\<lambda>k. node_val (g_nodePool s ! k)) (ix p)))"

lemma push_rep:
  assumes "rep s (Suc F) P"
  obtains s' where "list_push p v s = Some s'" "rep s' F (P(p := v # P p))" "numMoves s' = numMoves s" "numDiscs s' = numDiscs s"
    "history s' = history s @ [Pushed p v]"
proof -
  obtain fr0 ix where l0: "linked s fr0 ix" "length fr0 = Suc F" and P: "\<And>p. P p = map (\<lambda>k. node_val (g_nodePool s ! k)) (ix p)"
    using assms by (auto simp: rep_def)
  then obtain k fr where l: "linked s (k # fr) ix" "length fr = F" by (cases fr0) auto
  let ?pool = "(g_nodePool s)[k := \<lparr>node_val = v, node_next = list_head (pegs s p)\<rparr>]"
  let ?s = "s\<lparr>g_nodeFreeList := (g_nodeFreeList s)\<lparr>list_head := node_next (g_nodePool s ! k)\<rparr>, g_nodePool := ?pool,
      pegs := (pegs s)(p := \<lparr>list_size = list_size (pegs s p) + 1, list_head = Some k\<rparr>), history := history s @ [Pushed p v]\<rparr>"
  have k: "list_head (g_nodeFreeList s) = Some k" "k < length (g_nodePool s)" "k \<notin> set fr" "\<And>q. k \<notin> set (ix q)"
    using l(1) by (auto simp: linked_def)
  have push: "list_push p v s = Some ?s" using k(1,2) by (simp add: list_push_def pool_node_def)
  have "linked ?s fr (ix(p := k # ix p))"
    using l(1) k by (auto simp: linked_def chain_update)
  moreover have "(P(p := v # P p)) q = map (\<lambda>j. node_val (g_nodePool ?s ! j)) ((ix(p := k # ix p)) q)" for q
  proof -
    have "j \<in> set (ix q) \<Longrightarrow> k \<noteq> j" for j using k(4) [of q] by auto
    then have "P q = map (\<lambda>j. node_val (?pool ! j)) (ix q)" unfolding P by (intro map_cong) auto
    then show ?thesis using k(2) by auto
  qed
  ultimately have "rep ?s F (P(p := v # P p))" using l(2) unfolding rep_def by blast
  then show thesis by (rule that [OF push]) simp_all
qed

lemma pop_rep:
  assumes "rep s F P" and "P p = v # vs"
  obtains s' where "list_pop p s = Some (v, s')" "rep s' (Suc F) (P(p := vs))" "numMoves s' = numMoves s" "numDiscs s' = numDiscs s"
    "history s' = history s @ [Popped p v]"
proof -
  obtain fr ix where l: "linked s fr ix" "length fr = F" and P: "\<And>p. P p = map (\<lambda>k. node_val (g_nodePool s ! k)) (ix p)"
    using assms by (auto simp: rep_def)
  obtain k ks where ks: "ix p = k # ks" "node_val (g_nodePool s ! k) = v" "map (\<lambda>k. node_val (g_nodePool s ! k)) ks = vs"
    using assms(2) P [of p] by (auto simp: Cons_eq_map_conv)
  let ?pool = "(g_nodePool s)[k := (g_nodePool s ! k)\<lparr>node_next := list_head (g_nodeFreeList s)\<rparr>]"
  let ?s = "s\<lparr>pegs := (pegs s)(p := \<lparr>list_size = list_size (pegs s p) - 1, list_head = node_next (g_nodePool s ! k)\<rparr>),
      g_nodePool := ?pool, g_nodeFreeList := (g_nodeFreeList s)\<lparr>list_head := Some k\<rparr>, history := history s @ [Popped p v]\<rparr>"
  have "chain (g_nodePool s) (list_head (pegs s p)) (k # ks)" "distinct (k # ks)" "set fr \<inter> set (k # ks) = {}"
    "list_size (pegs s p) = int (length (k # ks))" "\<And>q. q \<noteq> p \<Longrightarrow> set (k # ks) \<inter> set (ix q) = {}"
    using l(1) unfolding linked_def ks(1) [symmetric] by metis+
  note kp = this
  have pop: "list_pop p s = Some (v, ?s)" using kp(1) ks(2) by (simp add: list_pop_def pool_node_def)
  have "linked ?s (k # fr) (ix(p := ks))"
    using l(1) kp by (auto simp: linked_def chain_update)
  moreover have "(P(p := vs)) q = map (\<lambda>j. node_val (g_nodePool ?s ! j)) ((ix(p := ks)) q)" for q
  proof -
    have "node_val (?pool ! j) = node_val (g_nodePool s ! j)" for j using kp(1) by (cases "j = k") auto
    then show ?thesis using ks(3) P [of q] by auto
  qed
  ultimately have "rep ?s (Suc F) (P(p := vs))" using l(2) unfolding rep_def by (metis length_Cons)
  then show thesis by (rule that [OF pop]) simp_all
qed

section \<open>The game\<close>

text \<open>A move is legal if there is a disc to move and no smaller disc where it is put.\<close>

fun legal_move :: "peg \<times> peg \<Rightarrow> (peg \<Rightarrow> uint32_t list) \<Rightarrow> (peg \<Rightarrow> uint32_t list) option" where
  "legal_move (a, b) P =
     (case P a of [] \<Rightarrow> None | d # ds \<Rightarrow> if a \<noteq> b \<and> (P b = [] \<or> d < hd (P b)) then Some (P(a := ds, b := d # P b)) else None)"

primrec play :: "(peg \<times> peg) list \<Rightarrow> (peg \<Rightarrow> uint32_t list) \<Rightarrow> (peg \<Rightarrow> uint32_t list) option" where
  "play [] P = Some P"
| "play (m # ms) P = legal_move m P \<bind> play ms"

text \<open>The moves that a history consists of: a disc is popped from a peg and the same disc is pushed to a peg next.\<close>

fun history_moves :: "list_event list \<Rightarrow> (peg \<times> peg) list option" where
  "history_moves [] = Some []"
| "history_moves (Popped a v # Pushed b w # es) = (if v = w then map_option ((#) (a, b)) (history_moves es) else None)"
| "history_moves _ = None"

primrec hanoi_moves :: "nat \<Rightarrow> peg \<Rightarrow> peg \<Rightarrow> peg \<Rightarrow> (peg \<times> peg) list" where
  "hanoi_moves 0 a t d = []"
| "hanoi_moves (Suc n) a t d = hanoi_moves n a d t @ [(a, d)] @ hanoi_moves n t a d"

definition discs :: "nat \<Rightarrow> uint32_t list" where
  "discs n = map of_nat [1..<n + 1]"

lemma play_append: "play (ms @ ms') P = play ms P \<bind> play ms'"
proof (induction ms arbitrary: P)
  case (Cons m ms)
  then show ?case by (cases "legal_move m P") simp_all
qed simp

lemma history_moves_append:
  "history_moves es = Some ms \<Longrightarrow> history_moves es' = Some ms' \<Longrightarrow> history_moves (es @ es') = Some (ms @ ms')"
  by (induction es arbitrary: ms rule: history_moves.induct) (auto split: if_splits)

text \<open>The list operations of a run from \<open>s\<close> to \<open>s'\<close> are the moves \<open>ms\<close>.\<close>

definition moved :: "Towers \<Rightarrow> Towers \<Rightarrow> (peg \<times> peg) list \<Rightarrow> bool" where
  "moved s s' ms \<longleftrightarrow> (\<exists>es. history s' = history s @ es \<and> history_moves es = Some ms)"

lemma moved_trans:
  assumes "moved s s' ms" and "moved s' s'' ms'"
  shows "moved s s'' (ms @ ms')"
  using assms history_moves_append unfolding moved_def by (metis append.assoc)

lemma length_hanoi_moves: "length (hanoi_moves n a t d) = 2 ^ n - 1"
proof (induction n arbitrary: a t d)
  case (Suc n)
  have "1 \<le> (2 :: nat) ^ n" by simp
  then show ?case by (simp add: Suc)
qed simp

lemma play_hanoi:
  assumes "distinct [a, t, d]" and "n < 2 ^ 32" and "P a = discs n @ xs" and "\<forall>x \<in> set (xs @ P t @ P d). n < unat x"
  shows "play (hanoi_moves n a t d) P = Some (P(a := xs, d := discs n @ P d))"
  using assms
proof (induction n arbitrary: a t d P xs)
  case 0
  then show ?case by (simp add: discs_def fun_eq_iff)
next
  case (Suc n)
  let ?k = "of_nat (Suc n) :: uint32_t"
  have u: "unat ?k = Suc n" using Suc.prems(2) by (simp only: unat_of_nat) simp
  have dn: "discs (Suc n) = discs n @ [?k]" by (simp add: discs_def)
  let ?P1 = "P(a := ?k # xs, t := discs n @ P t)"
  have 1: "play (hanoi_moves n a d t) P = Some ?P1"
    using Suc.prems u by (intro Suc.IH) (auto simp: dn Suc_lessD)
  have "P d = [] \<or> ?k < hd (P d)" using Suc.prems(4) by (cases "P d") (auto simp: word_less_nat_alt u simp del: of_nat_Suc)
  then have 2: "legal_move (a, d) ?P1 = Some (?P1(a := xs, d := ?k # P d))" using Suc.prems(1) by (auto simp: fun_upd_twist)
  let ?P2 = "?P1(a := xs, d := ?k # P d)"
  have "play (hanoi_moves n t a d) ?P2 = Some (?P2(t := P t, d := discs n @ ?P2 d))"
    using Suc.prems u by (intro Suc.IH) (auto simp: Suc_lessD)
  moreover have "?P2(t := P t, d := discs n @ ?P2 d) = P(a := xs, d := discs (Suc n) @ P d)"
    using Suc.prems(1) by (auto simp: dn fun_eq_iff)
  ultimately show ?case by (simp only: hanoi_moves.simps play_append play.simps append_Cons append_Nil bind.bind_lunit 1 2)
qed

section \<open>The program plays the game\<close>

lemma move_rep:
  assumes "rep s F P" and "legal_move (a, d) P = Some P'"
  obtains s' where "towers_solve_h 1 a t d s = Some s'" "rep s' F P'" "numMoves s' = numMoves s + 1" "numDiscs s' = numDiscs s"
    "moved s s' [(a, d)]"
proof -
  obtain v vs where v: "P a = v # vs" "a \<noteq> d" "P' = P(a := vs, d := v # P d)" using assms(2) by (auto split: list.splits if_splits)
  obtain s1 where s1: "list_pop a s = Some (v, s1)" "rep s1 (Suc F) (P(a := vs))" "numMoves s1 = numMoves s" "numDiscs s1 = numDiscs s"
    "history s1 = history s @ [Popped a v]" using assms(1) v(1) by (rule pop_rep)
  obtain s2 where s2: "list_push d v s1 = Some s2" "rep s2 F (P(a := vs, d := v # (P(a := vs)) d))" "numMoves s2 = numMoves s1" "numDiscs s2 = numDiscs s1"
    "history s2 = history s1 @ [Pushed d v]" using s1(2) by (rule push_rep)
  have "towers_solve_h 1 a t d s = Some (s2\<lparr>numMoves := numMoves s2 + 1\<rparr>)"
    using s1(1) s2(1) by (subst towers_solve_h.simps) simp
  moreover have "rep (s2\<lparr>numMoves := numMoves s2 + 1\<rparr>) F P'" using s2(2) v(2,3) by (simp add: rep_def linked_def)
  moreover have "moved s (s2\<lparr>numMoves := numMoves s2 + 1\<rparr>) [(a, d)]"
    unfolding moved_def by (intro exI [of _ "[Popped a v, Pushed d v]"]) (simp add: s1(5) s2(5))
  ultimately show thesis by (intro that) (simp_all add: s1(3,4) s2(3,4))
qed

lemma solve_rep:
  assumes "rep s F P" and "play (hanoi_moves (Suc n) a t d) P = Some P'"
  obtains s' where "towers_solve_h (int (Suc n)) a t d s = Some s'" "rep s' F P'"
    "numMoves s' = numMoves s + of_nat (length (hanoi_moves (Suc n) a t d))" "numDiscs s' = numDiscs s"
    "moved s s' (hanoi_moves (Suc n) a t d)"
  using assms
proof (induction n arbitrary: a t d s P P' thesis)
  case 0
  then have "legal_move (a, d) P = Some P'" by (auto split: Option.bind_splits simp del: legal_move.simps)
  with 0(2) obtain s' where "towers_solve_h 1 a t d s = Some s'" "rep s' F P'" "numMoves s' = numMoves s + 1" "numDiscs s' = numDiscs s"
    "moved s s' [(a, d)]" by (rule move_rep)
  then show ?case using 0(1) by simp
next
  case (Suc n)
  obtain P1 P2 where p: "play (hanoi_moves (Suc n) a d t) P = Some P1" "legal_move (a, d) P1 = Some P2"
    "play (hanoi_moves (Suc n) t a d) P2 = Some P'"
    using Suc.prems(3) unfolding hanoi_moves.simps(2) [of "Suc n"] play_append
    by (auto split: Option.bind_splits simp del: legal_move.simps hanoi_moves.simps)
  obtain s1 where s1: "towers_solve_h (int (Suc n)) a d t s = Some s1" "rep s1 F P1"
    "numMoves s1 = numMoves s + of_nat (length (hanoi_moves (Suc n) a d t))" "numDiscs s1 = numDiscs s"
    "moved s s1 (hanoi_moves (Suc n) a d t)"
    using Suc.IH [OF _ Suc.prems(2) p(1)] by blast
  obtain s2 where s2: "towers_solve_h 1 a t d s1 = Some s2" "rep s2 F P2" "numMoves s2 = numMoves s1 + 1" "numDiscs s2 = numDiscs s1"
    "moved s1 s2 [(a, d)]" using s1(2) p(2) by (rule move_rep)
  obtain s3 where s3: "towers_solve_h (int (Suc n)) t a d s2 = Some s3" "rep s3 F P'"
    "numMoves s3 = numMoves s2 + of_nat (length (hanoi_moves (Suc n) t a d))" "numDiscs s3 = numDiscs s2"
    "moved s2 s3 (hanoi_moves (Suc n) t a d)"
    using Suc.IH [OF _ s2(2) p(3)] by blast
  have "moved s s3 (hanoi_moves (Suc (Suc n)) a t d)"
    unfolding hanoi_moves.simps(2) [of "Suc n"] by (intro moved_trans [OF s1(5)] moved_trans [OF s2(5)] s3(5))
  note mv = this
  have i: "int (Suc (Suc n)) \<noteq> 1" "int (Suc (Suc n)) - 1 = int (Suc n)" by simp_all
  have "towers_solve_h (int (Suc (Suc n))) a t d s = Some s3"
    unfolding towers_solve_h.simps [of "int (Suc (Suc n))"] if_not_P [OF i(1)] i(2) s1(1) s2(1) bind.bind_lunit s3(1) ..
  then show ?case
    by (rule Suc.prems(1) [OF _ _ _ _ mv]) (use s3(1-4) s2(1-4) s1(1-4) in \<open>simp_all add: hanoi_moves.simps(2) [of "Suc n"] del: hanoi_moves.simps\<close>)
qed

section \<open>Setting up\<close>

lemma push_discs_rep:
  assumes "rep s (F + length ds) P"
  obtains s' where "push_discs ds s = Some s'" "rep s' F (P(PegA := rev (map of_int ds) @ P PegA))" "numMoves s' = numMoves s" "numDiscs s' = numDiscs s"
  using assms
proof (induction ds arbitrary: s P thesis)
  case (Cons x ds)
  have "rep s (Suc (F + length ds)) P" using Cons.prems(2) by simp
  then obtain s1 where s1: "list_push PegA (of_int x) s = Some s1" "rep s1 (F + length ds) (P(PegA := of_int x # P PegA))"
    "numMoves s1 = numMoves s" "numDiscs s1 = numDiscs s" by (rule push_rep)
  let ?P = "P(PegA := of_int x # P PegA)"
  obtain s2 where "push_discs ds s1 = Some s2" and s2: "rep s2 F (?P(PegA := rev (map of_int ds) @ ?P PegA))"
    "numMoves s2 = numMoves s1" "numDiscs s2 = numDiscs s1" using Cons.IH [OF _ s1(2)] by blast
  then have "push_discs (x # ds) s = Some s2" using s1 by simp
  moreover have "?P(PegA := rev (map of_int ds) @ ?P PegA) = P(PegA := rev (map of_int (x # ds)) @ P PegA)" by simp
  ultimately show ?case using s1 s2 Cons.prems(1) [of s2] by (simp only:)
qed simp

lemma discs_pushed: "rev (map of_int (map (\<lambda>i. int n - i) [0..int n - 1])) = discs n"
proof (rule nth_equalityI)
  show "length (rev (map of_int (map (\<lambda>i. int n - i) [0..int n - 1])) :: uint32_t list) = length (discs n)" by (simp add: discs_def)
  show "rev (map of_int (map (\<lambda>i. int n - i) [0..int n - 1])) ! j = discs n ! j"
    if "j < length (rev (map of_int (map (\<lambda>i. int n - i) [0..int n - 1])) :: uint32_t list)" for j
  proof -
    have j: "j < n" using that by simp
    then have "[0..int n - 1] ! (n - Suc j) = int (n - Suc j)" by (subst nth_upto) auto
    then show ?thesis using j by (simp add: discs_def rev_nth of_nat_diff del: upt_Suc)
  qed
qed

lemma rep_empty:
  assumes "rep s F (\<lambda>_. [])"
  shows "rep (s\<lparr>numDiscs := a, numMoves := b, pegs := (\<lambda>_. list_init)\<rparr>) F (\<lambda>_. [])"
proof -
  obtain fr ix where l: "linked s fr ix" "length fr = F" "\<And>p. ix p = []" using assms by (auto simp: rep_def)
  then have "linked (s\<lparr>numDiscs := a, numMoves := b, pegs := (\<lambda>_. list_init)\<rparr>) fr (\<lambda>_. [])" by (simp add: linked_def list_init_def)
  then show ?thesis using l(2) unfolding rep_def by (intro exI [of _ fr] exI [of _ "\<lambda>_. []"]) simp
qed

lemma init_rep:
  assumes "rep s n (\<lambda>_. [])"
  obtains s' where "towers_init (int n) s = Some s'" "rep s' 0 ((\<lambda>_. [])(PegA := discs n))" "numMoves s' = 0" "numDiscs s' = int n"
proof -
  let ?ds = "map (\<lambda>i. int n - i) [0..int n - 1]"
  have "rep (s\<lparr>numDiscs := int n, numMoves := 0, pegs := (\<lambda>_. list_init)\<rparr>) (0 + length ?ds) (\<lambda>_. [])"
    using rep_empty [OF assms] by simp
  then show thesis
    by (rule push_discs_rep) (auto simp: towers_init_def discs_pushed [simplified] intro!: that)
qed

lemma clear_rep:
  assumes "rep s F P"
  obtains s' where "list_clear p s = Some s'" "rep s' (F + length (P p)) (P(p := []))" "numMoves s' = numMoves s" "numDiscs s' = numDiscs s"
  using assms
proof (induction "P p" arbitrary: s F P thesis)
  case Nil
  then have "list_getSize p s = 0" by (auto simp: rep_def linked_def list_getSize_def)
  then have "list_clear p s = Some s" by (simp add: list_clear.simps)
  moreover have "P(p := []) = P" using Nil(1) by (simp add: fun_eq_iff)
  ultimately show ?case using Nil by simp
next
  case (Cons v vs)
  obtain s1 where s1: "list_pop p s = Some (v, s1)" "rep s1 (Suc F) (P(p := vs))" "numMoves s1 = numMoves s" "numDiscs s1 = numDiscs s"
    using Cons(4) Cons(2) [symmetric] by (rule pop_rep)
  obtain s2 where s2: "list_clear p s1 = Some s2" "rep s2 (Suc F + length vs) ((P(p := vs))(p := []))" "numMoves s2 = numMoves s1" "numDiscs s2 = numDiscs s1"
    using Cons(1) [OF _ _ s1(2)] by auto
  have "0 < list_getSize p s" using Cons(2,4) unfolding rep_def linked_def list_getSize_def by (metis length_greater_0_conv length_map list.distinct(1) of_nat_0_less_iff)
  then have "list_clear p s = Some s2" using s1(1) s2(1) by (subst list_clear.simps) simp
  then show ?case by (rule Cons(3)) (use s1 s2 Cons(2) [symmetric] in simp_all)
qed

lemma verify_discs_chain:
  assumes "chain (g_nodePool s) ptr ks" and "map (\<lambda>k. node_val (g_nodePool s ! k)) ks = map (\<lambda>j. k + of_nat j) [1..<m + 1]"
  shows "verify_discs s ptr k = Some True"
  using assms
proof (induction ks arbitrary: ptr k m)
  case Nil
  then show ?case by (simp add: verify_discs.simps)
next
  case (Cons i ks)
  obtain m' where m: "m = Suc m'" using Cons.prems(2) by (cases m) auto
  have e: "[1..<m + 1] = 1 # map Suc [1..<m' + 1]" unfolding m map_Suc_upt by (simp add: upt_conv_Cons del: upt_Suc)
  have "node_val (g_nodePool s ! i) = k + 1" "map (\<lambda>k. node_val (g_nodePool s ! k)) ks = map (\<lambda>j. (k + 1) + of_nat j) [1..<m' + 1]"
    using Cons.prems(2) unfolding e by (simp_all add: o_def add.assoc del: upt_Suc)
  moreover have "ptr = Some i" "i < length (g_nodePool s)" "chain (g_nodePool s) (node_next (g_nodePool s ! i)) ks" using Cons.prems(1) by simp_all
  ultimately show ?case using Cons.IH by (subst verify_discs.simps) (simp add: pool_node_def)
qed

lemma verify_rep:
  assumes "rep s F ((\<lambda>_. [])(PegC := discs n))" and "numDiscs s = int n" and "numMoves s = of_nat (2 ^ n - 1)"
  shows "towers_verify s = Some 0"
proof -
  obtain fr ix where l: "linked s fr ix" and P: "\<And>p. ((\<lambda>_. [])(PegC := discs n)) p = map (\<lambda>k. node_val (g_nodePool s ! k)) (ix p)"
    using assms(1) by (auto simp: rep_def)
  have ix: "ix PegA = []" "ix PegB = []" "map (\<lambda>k. node_val (g_nodePool s ! k)) (ix PegC) = discs n"
    using P [of PegA] P [of PegB] P [of PegC] by simp_all
  have "length (ix PegC) = n" using arg_cong [OF ix(3), of length] by (simp add: discs_def)
  then have sz: "list_getSize PegA s = 0" "list_getSize PegB s = 0" "list_getSize PegC s = int n"
    using l ix(1,2) by (simp_all add: linked_def list_getSize_def)
  have "verify_discs s (list_head (pegs s PegC)) 0 = Some True"
    using l ix(3) by (intro verify_discs_chain [where m = n]) (auto simp: linked_def discs_def)
  moreover have "(of_nat (2 ^ n - 1) :: uint32_t) = push_bit n 1 - 1" by (simp add: of_nat_diff push_bit_eq_mult)
  ultimately show ?thesis by (simp add: towers_verify_def sz assms(2,3))
qed

lemma init_pool_rep:
  assumes "length (g_nodePool s) = n" and "0 < n"
  shows "rep ((init_pool n s)\<lparr>numDiscs := a, numMoves := b, pegs := (\<lambda>_. list_init)\<rparr>) n (\<lambda>_. [])"
proof -
  let ?s = "(init_pool n s)\<lparr>numDiscs := a, numMoves := b, pegs := (\<lambda>_. list_init)\<rparr>"
  have len: "length (g_nodePool ?s) = n" using assms by (simp add: init_pool_def fold_list_update(1))
  have nx: "node_next (g_nodePool ?s ! i) = (if i < n - 1 then Some (i + 1) else None)" if "i < n" for i
  proof (cases "i = n - 1")
    case False
    then have "i < n - 1" using that by simp
    then show ?thesis using that assms by (simp add: init_pool_def fold_list_update)
  qed (use assms in \<open>simp add: init_pool_def fold_list_update\<close>)
  have "chain (g_nodePool ?s) (if m = 0 then None else Some (n - m)) [n - m..<n]" if "m \<le> n" for m
    using that
  proof (induction m)
    case (Suc m)
    then have "[n - Suc m..<n] = (n - Suc m) # [n - m..<n]" by (simp add: upt_conv_Cons Suc_diff_Suc)
    then show ?case using Suc len nx [of "n - Suc m"] by (cases "m = 0") (auto simp: Suc_diff_Suc simp del: upt_Suc)
  qed simp
  from this [of n] have "linked ?s [0..<n] (\<lambda>_. [])" using assms(2) by (simp add: linked_def list_init_def init_pool_def)
  then show ?thesis unfolding rep_def by (intro exI [of _ "[0..<n]"] exI [of _ "\<lambda>_. []"]) simp
qed

lemma clear_all_rep:
  assumes "rep s 0 P" and "numDiscs s = int n" and "length (P PegA) + length (P PegB) + length (P PegC) = n"
  obtains s' where "towers_clear s = Some s'" "rep s' 0 ((\<lambda>_. [])(PegA := discs n))" "numMoves s' = 0" "numDiscs s' = int n"
proof -
  obtain s1 where s1: "list_clear PegA s = Some s1" "rep s1 (0 + length (P PegA)) (P(PegA := []))" "numDiscs s1 = numDiscs s"
    using assms(1) by (rule clear_rep)
  obtain s2 where s2: "list_clear PegB s1 = Some s2" "rep s2 (0 + length (P PegA) + length ((P(PegA := [])) PegB)) (P(PegA := [], PegB := []))"
    "numDiscs s2 = numDiscs s1" using s1(2) by (rule clear_rep)
  obtain s3 where s3: "list_clear PegC s2 = Some s3"
    "rep s3 (0 + length (P PegA) + length ((P(PegA := [])) PegB) + length ((P(PegA := [], PegB := [])) PegC)) (P(PegA := [], PegB := [], PegC := []))"
    "numDiscs s3 = numDiscs s2" using s2(2) by (rule clear_rep)
  have "P(PegA := [], PegB := [], PegC := []) = (\<lambda>_. [])"
  proof
    show "(P(PegA := [], PegB := [], PegC := [])) p = []" for p by (cases p) simp_all
  qed
  then have "rep s3 n (\<lambda>_. [])" using s3(2) assms(3) by simp
  then obtain s4 where "towers_init (int n) s3 = Some s4" "rep s4 0 ((\<lambda>_. [])(PegA := discs n))" "numMoves s4 = 0" "numDiscs s4 = int n"
    by (rule init_rep)
  then show thesis using s1 s2 s3 assms(2) by (intro that [of s4]) (simp_all add: towers_clear_def)
qed

lemma solve_all_rep:
  assumes "rep s 0 ((\<lambda>_. [])(PegA := discs n))" and "numDiscs s = int n" and "0 < n" and "n < 2 ^ 32"
  obtains s' where "towers_solve s = Some s'" "rep s' 0 ((\<lambda>_. [])(PegC := discs n))"
    "play (hanoi_moves n PegA PegB PegC) ((\<lambda>_. [])(PegA := discs n)) = Some ((\<lambda>_. [])(PegC := discs n))"
    "numMoves s' = numMoves s + of_nat (2 ^ n - 1)" "numDiscs s' = int n" "moved s s' (hanoi_moves n PegA PegB PegC)"
proof -
  obtain m where m: "n = Suc m" using assms(3) by (cases n) auto
  let ?P = "(\<lambda>_. [])(PegA := discs n) :: peg \<Rightarrow> uint32_t list"
  have "play (hanoi_moves n PegA PegB PegC) ?P = Some (?P(PegA := [], PegC := discs n @ ?P PegC))"
    using assms(4) by (intro play_hanoi) simp_all
  moreover have "?P(PegA := [], PegC := discs n @ ?P PegC) = (\<lambda>_. [])(PegC := discs n)" by (simp add: fun_eq_iff)
  ultimately have pl: "play (hanoi_moves n PegA PegB PegC) ?P = Some ((\<lambda>_. [])(PegC := discs n))" by simp
  obtain s' where "towers_solve_h (int n) PegA PegB PegC s = Some s'" "rep s' 0 ((\<lambda>_. [])(PegC := discs n))"
    "numMoves s' = numMoves s + of_nat (length (hanoi_moves n PegA PegB PegC))" "numDiscs s' = numDiscs s" "moved s s' (hanoi_moves n PegA PegB PegC)"
    using assms(1) pl unfolding m by (rule solve_rep)
  then show thesis using pl assms(2) by (intro that [of s']) (simp_all add: towers_solve_def length_hanoi_moves)
qed

section \<open>Properties\<close>

text \<open>
  Property C37: the recursive solution plays Towers of Hanoi by the rules. With the discs 1 to \<open>n\<close> on peg A, smallest on top, and the free list
  empty, \<^verbatim>\<open>towers_solve\<close> returns, never follows a null pointer, and has moved all discs to peg C in order. The list operations it performed on the way,
  recorded by \<^verbatim>\<open>list_pop\<close> and \<^verbatim>\<open>list_push\<close>, are $2^n - 1$ moves of a disc each, the moves of the classical solution in their order; played from the initial
  position, each of them is legal, putting no disc on a smaller one, and together they lead to the final position.
\<close>

theorem towers_solve_legal:
  assumes "rep s 0 ((\<lambda>_. [])(PegA := discs n))" and "numDiscs s = int n" and "0 < n" and "n < 2 ^ 32"
  shows "\<exists>s' es ms. towers_solve s = Some s' \<and> rep s' 0 ((\<lambda>_. [])(PegC := discs n)) \<and>
    history s' = history s @ es \<and> history_moves es = Some ms \<and> ms = hanoi_moves n PegA PegB PegC \<and>
    play ms ((\<lambda>_. [])(PegA := discs n)) = Some ((\<lambda>_. [])(PegC := discs n)) \<and>
    length ms = 2 ^ n - 1 \<and> numMoves s' = numMoves s + of_nat (2 ^ n - 1)"
  using assms by (rule solve_all_rep) (auto simp: length_hanoi_moves moved_def)

definition example_pool :: "nat \<Rightarrow> Towers" where
  "example_pool n = \<lparr>g_nodePool = replicate n \<lparr>node_val = 0, node_next = None\<rparr>, g_nodeFreeList = list_init, numDiscs = 0, numMoves = 0, pegs = (\<lambda>_. list_init), history = []\<rparr>"

theorem towers_solve_legal_witness: "\<exists>s s'. towers_init 3 (init_pool 3 (example_pool 3)) = Some s \<and> towers_solve s = Some s' \<and> numMoves s' = 7 \<and>
  history_moves (drop (length (history s)) (history s')) =
    Some [(PegA, PegC), (PegA, PegB), (PegC, PegB), (PegA, PegC), (PegB, PegA), (PegB, PegC), (PegA, PegC)]"
proof -
  have "rep ((init_pool 3 (example_pool 3))\<lparr>numDiscs := 0, numMoves := 0, pegs := (\<lambda>_. list_init)\<rparr>) 3 (\<lambda>_. [])"
    by (rule init_pool_rep) (simp_all add: example_pool_def)
  moreover have "(init_pool 3 (example_pool 3))\<lparr>numDiscs := 0, numMoves := 0, pegs := (\<lambda>_. list_init)\<rparr> = init_pool 3 (example_pool 3)"
    by (simp add: init_pool_def example_pool_def)
  ultimately have "rep (init_pool 3 (example_pool 3)) 3 (\<lambda>_. [])" by simp
  then obtain s where s: "towers_init (int 3) (init_pool 3 (example_pool 3)) = Some s" "rep s 0 ((\<lambda>_. [])(PegA := discs 3))" "numMoves s = 0" "numDiscs s = int 3"
    by (rule init_rep)
  show ?thesis using towers_solve_legal [OF s(2,4)] s(1,3) by (auto simp: numeral_3_eq_3)
qed

text \<open>
  Property C38: the benchmark passes its own check: for any number of discs from 1 to 31 and a pool of that many nodes, whatever they hold, \<^verbatim>\<open>main\<close>
  terminates and returns 0, the result of \<^verbatim>\<open>towers_verify\<close> for success.
\<close>

theorem towers_main_passes:
  assumes "length (g_nodePool s) = n" and "0 < n" and "n < 32"
  shows "towers_main n s = Some 0"
proof -
  obtain s0 where s0: "towers_init (int n) (init_pool n s) = Some s0" "rep s0 0 ((\<lambda>_. [])(PegA := discs n))" "numDiscs s0 = int n"
  proof -
    let ?s = "(init_pool n s)\<lparr>numDiscs := int n, numMoves := 0, pegs := (\<lambda>_. list_init)\<rparr>"
    have "rep ?s n (\<lambda>_. [])" by (rule init_pool_rep [OF assms(1,2)])
    then obtain s0 where "towers_init (int n) ?s = Some s0" "rep s0 0 ((\<lambda>_. [])(PegA := discs n))" "numDiscs s0 = int n" by (rule init_rep)
    moreover have "towers_init (int n) ?s = towers_init (int n) (init_pool n s)" by (simp add: towers_init_def)
    ultimately show thesis using that by simp
  qed
  obtain s1 where s1: "towers_clear s0 = Some s1" "rep s1 0 ((\<lambda>_. [])(PegA := discs n))" "numMoves s1 = 0" "numDiscs s1 = int n"
    using s0(2,3) by (rule clear_all_rep) (simp add: discs_def)
  have "n < 2 ^ 32" using assms(3) by simp
  then obtain s2 where s2: "towers_solve s1 = Some s2" "rep s2 0 ((\<lambda>_. [])(PegC := discs n))" "numMoves s2 = numMoves s1 + of_nat (2 ^ n - 1)" "numDiscs s2 = int n"
    using solve_all_rep [OF s1(2,4) assms(2)] by blast
  have "towers_verify s2 = Some 0" using s2 s1(3) by (intro verify_rep) simp_all
  then show ?thesis using s0(1) s1(1) s2(1) by (simp add: towers_main_def)
qed

theorem towers_main_passes_witness: "towers_main 7 (example_pool 7) = Some 0"
  by (rule towers_main_passes) (simp_all add: example_pool_def)

end
