(* ===== verification/Spec2Isabelle.thy ===== *)
theory Spec2Isabelle
  imports Float_Add Float_Mul Float_Div Float_Sqrt_Correct Float_Rem_Correct Float_MulAdd_Correct Float_Compare
    Float_To_Int_Trunc Int_To_Float Float_Convert Float_RoundToInt
    Slow_Compare Vm_Env_Correct Bench_Runtime_Correct Barrier Bench_Kernels Quick_Sort Towers
begin

text \<open>
  Verification of the C programs of this repository that carry logic of their own: the SoftFloat-3 library
  (\<^verbatim>\<open>src/hardfloat/jhauser/SoftFloat-3/source\<close>), the implementation of IEEE 754 single and double precision arithmetic against which
  the floating-point units are tested; the virtual-memory test environment of the processor tests
  (\<^verbatim>\<open>src/riscv-tests/env/v/vm.c\<close>); and the runtime, the barrier and kernels of the benchmark programs (\<^verbatim>\<open>src/riscv-tests/benchmarks\<close>).

  \<^bold>\<open>SoftFloat.\<close> A floating-point number is its bit pattern, a 32 or 64-bit word, as in the
  C code; the C integer types are words of their width, a signed exponent is an \<open>int\<close>, and every cast,
  shift and wrap-around of the source is written out. Every C function is one definition of the same
  name. The global variables of \<^verbatim>\<open>softfloat_state.c\<close> (rounding mode, tininess detection, exception flags)
  are the record \<open>fp_state\<close>, passed to each routine that reads or changes them and returned updated.

  \<^item> \<open>Prelude\<close>: types, the collections of simplification rules, laws on words shared by all theories.
  \<^item> \<open>Softfloat_State\<close>: \<^verbatim>\<open>softfloat_state.c\<close>, \<^verbatim>\<open>8086/softfloat_raiseFlags.c\<close>, the constants of \<^verbatim>\<open>softfloat.h\<close>.
  \<^item> \<open>Primitives\<close>: the integer primitives, \<^verbatim>\<open>primitives.h\<close> and \<^verbatim>\<open>s_shift*.c\<close>, \<^verbatim>\<open>s_shortShift*.c\<close>, \<^verbatim>\<open>s_countLeadingZeros*.c\<close>,
    \<^verbatim>\<open>s_add128.c\<close> to \<^verbatim>\<open>s_mul128To256.c\<close>, \<^verbatim>\<open>s_estimateDiv128To64.c\<close>, \<^verbatim>\<open>s_estimateSqrt32.c\<close>. \<open>Primitives_Laws\<close> and
    \<open>Multiword_Laws\<close> give each its arithmetical meaning: a right shift "with jam" is division that keeps
    one sticky bit, the multiword routines compute exact sums, differences and products. \<open>Division_Estimate\<close>
    proves that the quotient estimate terminates and is at most two too large, \<open>Sqrt_Estimate\<close> that the estimate of a square root, from its table and two
    steps of Heron's method, is the integer part of a number at most one half above the exact root.
  \<^item> \<open>Rounding_Spec\<close>: the abstract specification, over the reals: what the correct rounding of a real in each of
    the five modes is, and which exception flags it calls for. \<open>Rounding_Core\<close> proves, for an
    arbitrary format and number of guard bits, that rounding a significand that agrees with the exact result up to a
    sticky bit meets the specification.
  \<^item> \<open>Internals\<close>: the field macros of \<^verbatim>\<open>internals.h\<close>, the value \<open>fl_real\<close> of a bit pattern, and the interface \<open>float_format\<close>.
    \<open>Specialize\<close>: the NaN routines of \<^verbatim>\<open>8086/\<close> and the interface \<open>nan_handling\<close>. \<open>Round_Pack\<close>: \<^verbatim>\<open>s_normSubnormalF*Sig.c\<close>,
    \<^verbatim>\<open>s_roundPackToF*.c\<close>, \<^verbatim>\<open>s_normRoundPackToF*.c\<close>, refined to the generic rounding of \<open>Rounding_Core\<close>.
    \<open>Format_Contract\<close>: the interface \<open>softfloat_format\<close> gathers what the arithmetic routines rely on; it is
    interpreted on the routines of both formats (\<open>sf32\<close>, \<open>sf64\<close>).
  \<^item> The operations, each calling the groups above. With finite operands the result is the exact one correctly rounded, and with special
    operands it is the one IEEE 754 asks for, flags included, in \<open>Float_Add\<close> (\<^verbatim>\<open>f*_add.c\<close>, \<^verbatim>\<open>f*_sub.c\<close>, \<^verbatim>\<open>s_addMagsF*.c\<close>, \<^verbatim>\<open>s_subMagsF*.c\<close>),
    \<open>Float_Mul\<close>, \<open>Float_Div\<close>, \<open>Float_RoundToInt\<close>, \<open>Int_To_Float\<close>, \<open>Float_Convert\<close>, \<open>Float_To_Int_Correct\<close> (the definitions, \<^verbatim>\<open>s_roundPackTo*.c\<close>,
    \<^verbatim>\<open>f*_to_i*.c\<close>, \<^verbatim>\<open>f*_to_ui*.c\<close>, are in \<open>Float_To_Int\<close>); \<open>Float_To_Int_Trunc\<close> proves the truncating conversions equivalent to the general ones,
    \<open>Float_Rem_Correct\<close> the remainder of \<open>Float_Rem\<close> exact, \<open>Float_Compare\<close> the comparisons to be those of the reals.
    \<open>Float_Sqrt_Correct\<close> does the same for the square roots of \<open>Float_Sqrt\<close>, \<open>Float_MulAdd_Correct\<close> for the fused multiply-add of \<open>Float_MulAdd\<close>
    (\<^verbatim>\<open>s_mulAddF*.c\<close>, \<^verbatim>\<open>f*_mulAdd.c\<close>), whose double-width arithmetic is verified in \<open>Float_MulAdd_Single\<close> and \<open>Float_MulAdd_Double\<close>, on the 128-bit shifts of
    \<open>Multiword_Shifts\<close>; the interface \<open>fused_format\<close> separates it from the unpacking and the special cases.

  Loops: the correction loop of \<^verbatim>\<open>s_estimateDiv128To64.c\<close> is a \<open>while_option\<close>, so that not returning is \<open>None\<close>, as are those of the square roots, and the theorems on division,
  remainder and square root show that they return; the reduction loop of the remainder is a recursion on the exponent difference.

  \<^bold>\<open>The reference arithmetic of TestFloat.\<close> \<open>Slow_Float\<close> and \<open>Slow_Functions\<close> model \<^verbatim>\<open>TestFloat-3/source/slowfloat.c\<close>, the bit-by-bit arithmetic on unpacked numbers
  that the routines of SoftFloat are tested against. \<open>Slow_Bits\<close> gives its 128-bit helpers their arithmetical meaning, \<open>Slow_Round\<close> and \<open>Slow_Pack\<close> show that
  packing rounds correctly, \<open>Slow_Unpack\<close> that unpacking is exact, \<open>Slow_Arith\<close> that the loops over the bits compute sum, product, quotient and square root; \<open>Slow_Agree\<close>
  concludes that on finite operands the reference and SoftFloat deliver the same bits and flags, and \<open>Slow_Compare\<close> the same for the comparisons, on every operand, and
  for the conversions between the formats and from integers. Remainder, rounding to an integer and conversion to integers of the reference are modelled without such a theorem.

  \<^bold>\<open>The virtual-memory environment.\<close> \<open>Vm_Env\<close> models the whole of \<^verbatim>\<open>vm.c\<close>: the globals are a record, the free list is linked by names of array
  elements, every function is a function on that record that may stop the run. The hardware page-table walk is a parameter; what the supervisor relies on
  is the interface \<open>page_walk\<close>. \<open>Vm_Env_Correct\<close> proves the invariant of the tables by induction over executions, that demand paging is
  invisible to the program, that its pages are isolated, that every fault is resolved and that the exit system call writes all pages back.

  \<^bold>\<open>The benchmark programs.\<close> \<open>Bench_Runtime\<close> models \<^verbatim>\<open>common/syscalls.c\<close>: traps, performance counters, the console buffer and the formatted printer, with
  undefined behaviour (an array overrun, a missing argument) as \<open>None\<close>; \<open>Bench_Runtime_Correct\<close> shows that it does not occur, that printed numbers read
  back, and that the final report fits its buffer. \<open>Barrier\<close> models the barrier of \<^verbatim>\<open>common/util.h\<close> as interleaved steps of any number of threads, and proves
  by an invariant over all interleavings that it separates and does not deadlock. \<open>Bench_Kernels\<close> has \<^verbatim>\<open>verify\<close>, \<^verbatim>\<open>multiply.c\<close>, \<^verbatim>\<open>median.c\<close> and \<^verbatim>\<open>vvadd\<close>,
  \<open>Quick_Sort\<close> the in-place quicksort with its explicit stack (a partial function, proved total for up to $2^{27} - 1$ elements),
  \<open>Towers\<close> the whole Towers of Hanoi program, from its node pool (related to lists by \<open>rep\<close>) to its \<^verbatim>\<open>main\<close>, with
  a history of the list operations from which the moves of the solution are read off. \<open>List_Loops\<close> holds lemmas on
  loops that fill arrays.

  \<^bold>\<open>Not modelled.\<close> \<^verbatim>\<open>OLD-softfloat.c\<close> (not compiled); hardware descriptions in Scala and Verilog, the C++ emulator and memory models, the test
  drivers and case generators of TestFloat-3, and the other benchmark programs of riscv-tests, whose kernels are vector assembly or floating-point
  arithmetic of the hardware.
\<close>

end
